(* ===== verification/Pauli_Prelude.thy ===== *)
theory Pauli_Prelude
  imports Complex_Main "HOL-Library.Word" "HOL-Library.Multiset" "HOL-Library.FuncSet"
    "HOL-Library.List_Lexorder" "HOL-Library.Product_Lexorder"
begin

unbundle bit_operations_syntax

text \<open>
  Shared vocabulary of the development: the machine types of the Rust source, the panics a
  release build can raise as values of a sum type, the popcount of a word and its parity, arrays
  of words with their bitwise operations, and generic lemmas on strictly sorted association
  lists that the storage, merge and engine theories use.
\<close>

section \<open>Machine types\<close>

text \<open>
  Collections of the development: \<open>qubit_bits\<close> holds how the word-level operations act on the coordinates
  \<open>qbit\<close> of a key, \<open>panics\<close> the definitions that a proof about an error branch unfolds.
\<close>

named_theorems qubit_bits
named_theorems panics

type_synonym u8 = "8 word"
type_synonym u16 = "16 word"
type_synonym u32 = "32 word"
type_synonym u64 = "64 word"

text \<open>
  An array \<open>[u64; W]\<close> is a list of \<open>W\<close> words; the const generic \<open>W\<close> is the list's length, and
  Rust's derived array order is the lexicographic order of lists. A key is the pair of its \<open>x\<close>
  and \<open>z\<close> halves, ordered as the source compares tuples.
\<close>

type_synonym words = "u64 list"
type_synonym key = "words \<times> words"

text \<open>\<open>usize\<close> is 64 bits wide: a \<open>nat\<close> with the saturating operations written out.\<close>

definition usize_max :: nat where
  "usize_max = 2 ^ 64 - 1"

definition saturating_mul :: "nat \<Rightarrow> nat \<Rightarrow> nat" where
  "saturating_mul a b = min (a * b) usize_max"

section \<open>Panics\<close>

text \<open>
  One constructor per \<open>assert!\<close>, \<open>expect\<close> or \<open>unreachable!\<close> of the modelled code that is live in a
  release build. A \<open>debug_assert!\<close> is not a branch of the model: where it matters, its condition is
  proved to hold.
\<close>

datatype panic =
    NumQubitsMismatch
  | RowCountMismatch
  | TooManyBits
  | TooManyRows
  | RowWidth
  | AtMaxBits
  | AtSingleBucket
  | CoarsenGrows
  | NotPowerOfTwo
  | QubitOutOfRange
  | QubitTwice
  | EmptyRow
  | NoInputs
  | HashMismatch
  | BucketCountMismatch
  | ColumnsNotParallel
  | LengthMismatch
  | OddPhase
  | IndexOutOfBounds
  | DeltaOutsideSpace
  | QubitsNotDistinct
  | NotProbability
  | RealProduct
  | PartitionsDisagree
  | QubitExceedsU32
  | NotUnitary
  | NotABijection
  | SupportTooWide
  | NoEngineForm
  | ImaginaryAmplitudePanic
  | RunTooLong
  | NotPartitionable
  | NoPartitionedPass
  | OrLayerPass
  | NoWeight
  | ExpectFailed
  | Unreachable
  | InvalidOptions

type_synonym 'a result = "panic + 'a"

definition assert_that :: "bool \<Rightarrow> panic \<Rightarrow> unit result" where
  "assert_that b e = (if b then Inr () else Inl e)"

definition and_then :: "'a result \<Rightarrow> ('a \<Rightarrow> 'b result) \<Rightarrow> 'b result" where
  "and_then r f = (case r of Inl e \<Rightarrow> Inl e | Inr v \<Rightarrow> f v)"

lemmas [panics] = assert_that_def and_then_def

lemma and_then_simps [simp]:
  "and_then (Inl e) f = Inl e"
  "and_then (Inr v) f = f v"
  by (simp_all add: and_then_def)

lemma and_then_Inr_iff: "and_then r f = Inr w \<longleftrightarrow> (\<exists>v. r = Inr v \<and> f v = Inr w)"
  by (cases r) auto

lemma assert_that_simps [simp]:
  "assert_that True e = Inr ()"
  "assert_that False e = Inl e"
  "assert_that b e = Inr u \<longleftrightarrow> b"
  by (simp_all add: assert_that_def)

text \<open>A loop whose body may panic, and its behaviour when the body never does.\<close>

fun fold_result :: "('a \<Rightarrow> 'b \<Rightarrow> 'b result) \<Rightarrow> 'a list \<Rightarrow> 'b \<Rightarrow> 'b result" where
  "fold_result f [] b = Inr b"
| "fold_result f (x # xs) b = and_then (f x b) (fold_result f xs)"

lemma fold_result_total:
  "(\<And>x b. x \<in> set xs \<Longrightarrow> P b \<Longrightarrow> f x b = Inr (g x b) \<and> P (g x b)) \<Longrightarrow> P b \<Longrightarrow>
     fold_result f xs b = Inr (fold g xs b)"
proof (induction xs arbitrary: b)
  case (Cons x xs)
  have "f x b = Inr (g x b)" "P (g x b)" using Cons.prems(1) [of x b] Cons.prems(2) by simp_all
  moreover have "fold_result f xs (g x b) = Inr (fold g xs (g x b))"
    using Cons.prems(1) \<open>P (g x b)\<close> by (intro Cons.IH) simp_all
  ultimately show ?case by simp
qed simp

lemma fold_result_assert:
  "fold_result (\<lambda>v _. assert_that (P v) e) vs () = assert_that (list_all P vs) e"
  by (induction vs) (auto simp: assert_that_def)

fun map_result :: "('a \<Rightarrow> 'b result) \<Rightarrow> 'a list \<Rightarrow> 'b list result" where
  "map_result f [] = Inr []"
| "map_result f (x # xs) = and_then (f x) (\<lambda>y. and_then (map_result f xs) (\<lambda>ys. Inr (y # ys)))"

lemma map_result_total: "(\<And>x. x \<in> set xs \<Longrightarrow> f x = Inr (g x)) \<Longrightarrow> map_result f xs = Inr (map g xs)"
  by (induction xs) simp_all

text \<open>\<open>Iterator::position\<close>.\<close>

fun iter_position :: "('a \<Rightarrow> bool) \<Rightarrow> 'a list \<Rightarrow> nat option" where
  "iter_position P [] = None"
| "iter_position P (x # xs) = (if P x then Some 0 else map_option Suc (iter_position P xs))"

lemma iter_position_Some_iff:
  "iter_position P xs = Some i \<longleftrightarrow> i < length xs \<and> P (xs ! i) \<and> (\<forall>j < i. \<not> P (xs ! j))"
proof (induction xs arbitrary: i)
  case (Cons x xs)
  then show ?case by (cases i) (auto simp: less_Suc_eq_0_disj)
qed simp

lemma iter_position_None_iff: "iter_position P xs = None \<longleftrightarrow> (\<forall>x \<in> set xs. \<not> P x)"
  by (induction xs) auto

section \<open>Popcount and parity\<close>

definition count_ones :: "'a::len word \<Rightarrow> nat" where
  "count_ones w = length (filter (bit w) [0..<LENGTH('a)])"

lemma count_ones_card: "count_ones (w :: 'a::len word) = card {n. n < LENGTH('a) \<and> bit w n}"
proof -
  have "count_ones w = card (set (filter (bit w) [0..<LENGTH('a)]))"
    unfolding count_ones_def by (rule distinct_card [symmetric]) simp
  also have "set (filter (bit w) [0..<LENGTH('a)]) = {n. n < LENGTH('a) \<and> bit w n}" by auto
  finally show ?thesis .
qed

lemma count_ones_sum:
  "count_ones (w :: 'a::len word) = (\<Sum>n<LENGTH('a). of_bool (bit w n))"
proof -
  have "{n. n < LENGTH('a) \<and> bit w n} = {..<LENGTH('a)} \<inter> {n. bit w n}" by auto
  then show ?thesis by (simp add: count_ones_card sum.inter_restrict)
qed

text \<open>The equation used for evaluation: it ends after the highest set bit.\<close>

lemma count_ones_code [code]:
  "count_ones (w :: 'a::len word) = (if w = 0 then 0 else of_bool (bit w 0) + count_ones (drop_bit 1 w))"
proof (cases "w = 0")
  case False
  let ?f = "\<lambda>n. of_bool (bit w n) :: nat"
  have "(\<Sum>n<Suc (LENGTH('a)). ?f n) = ?f 0 + (\<Sum>n<LENGTH('a). ?f (Suc n))"
    by (rule sum.lessThan_Suc_shift)
  moreover have "?f (LENGTH('a)) = 0" by (simp add: bit_imp_le_length leD)
  ultimately show ?thesis
    using False by (simp add: count_ones_sum bit_drop_bit_eq del: sum_of_bool_eq)
qed (simp add: count_ones_def)

lemma count_ones_0 [simp]: "count_ones 0 = 0"
  by (simp add: count_ones_def)

lemma count_ones_le: "count_ones (w :: 'a::len word) \<le> LENGTH('a)"
  unfolding count_ones_def by (rule order_trans [OF length_filter_le]) simp

lemma count_ones_eq_0_iff: "count_ones (w :: 'a::len word) = 0 \<longleftrightarrow> w = 0"
proof
  assume "count_ones w = 0"
  then have "\<not> bit w n" if "n < LENGTH('a)" for n
    using that by (simp add: count_ones_def filter_empty_conv)
  then show "w = 0" by (auto intro: bit_word_eqI)
qed simp

lemma odd_sum_of_bool_xor:
  "finite A \<Longrightarrow> odd (\<Sum>n\<in>A. of_bool (f n \<noteq> g n) :: nat) \<longleftrightarrow>
     odd (\<Sum>n\<in>A. of_bool (f n) :: nat) \<noteq> odd (\<Sum>n\<in>A. of_bool (g n) :: nat)"
  by (induction A rule: finite_induct) (auto simp del: sum_of_bool_eq)

lemma odd_count_ones_xor:
  "odd (count_ones (v XOR w)) \<longleftrightarrow> odd (count_ones v) \<noteq> odd (count_ones w)"
  for v w :: "'a::len word"
  using odd_sum_of_bool_xor [of "{..<LENGTH('a)}" "bit v" "bit w"]
  by (simp add: count_ones_sum bit_xor_iff del: sum_of_bool_eq)

lemma word_xor_eq_0_iff: "v XOR w = 0 \<longleftrightarrow> v = w" for v w :: "'a::len word"
  by (auto simp: bit_eq_iff bit_xor_iff)

lemma word_xor_eq_left_iff: "v XOR w = v \<longleftrightarrow> w = 0" for v w :: "'a::len word"
  by (auto simp: bit_eq_iff bit_xor_iff)

lemma word_xor_eq_iff: "v XOR w = u \<longleftrightarrow> v = u XOR w" for u v w :: "'a::len word"
  by (auto simp: bit_eq_iff bit_xor_iff)

lemma length_takeWhile_less: "\<exists>x\<in>set xs. \<not> P x \<Longrightarrow> length (takeWhile P xs) < length xs"
  by (induction xs) auto

lemma sum_list_map_concat:
  "sum_list (map f (concat L)) = sum_list (map (\<lambda>l. sum_list (map f l)) L)"
  by (induction L) auto

section \<open>Word arrays\<close>

text \<open>The element-wise loops over \<open>0..W\<close> of the source.\<close>

definition xor_words :: "words \<Rightarrow> words \<Rightarrow> words" where
  "xor_words as bs = map2 (XOR) as bs"

definition or_words :: "words \<Rightarrow> words \<Rightarrow> words" where
  "or_words as bs = map2 (OR) as bs"

definition xor_key :: "key \<Rightarrow> key \<Rightarrow> key" where
  "xor_key k l = (xor_words (fst k) (fst l), xor_words (snd k) (snd l))"

definition wf_key :: "nat \<Rightarrow> key \<Rightarrow> bool" where
  "wf_key W k \<longleftrightarrow> length (fst k) = W \<and> length (snd k) = W"

text \<open>Bit \<open>q % 64\<close> of word \<open>q / 64\<close>: the coordinate of qubit \<open>q\<close>.\<close>

definition qbit :: "words \<Rightarrow> nat \<Rightarrow> bool" where
  "qbit xs q \<longleftrightarrow> q div 64 < length xs \<and> bit (xs ! (q div 64)) (q mod 64)"

lemma length_xor_words [simp]: "length (xor_words as bs) = min (length as) (length bs)"
  by (simp add: xor_words_def)

lemma xor_words_simps [simp]:
  "xor_words [] bs = []"
  "xor_words as [] = []"
  "xor_words (a # as) (b # bs) = (a XOR b) # xor_words as bs"
  by (simp_all add: xor_words_def)

lemma xor_words_self: "xor_words as as = replicate (length as) 0"
  by (induction as) auto

lemma xor_words_zero_right: "length as \<le> n \<Longrightarrow> xor_words as (replicate n 0) = as"
  by (induction as arbitrary: n) (auto simp: Suc_le_eq dest!: less_imp_Suc_add)

lemma xor_words_commute: "xor_words as bs = xor_words bs as"
  by (induction as bs rule: list_induct2') (auto simp: ac_simps)

lemma xor_words_assoc: "xor_words (xor_words as bs) cs = xor_words as (xor_words bs cs)"
proof (induction as arbitrary: bs cs)
  case (Cons a as)
  then show ?case by (cases bs; cases cs) (auto simp: ac_simps)
qed simp

lemma xor_words_cancel: "length as = length bs \<Longrightarrow> xor_words (xor_words as bs) bs = as"
  by (simp add: xor_words_assoc xor_words_self xor_words_zero_right)

lemma xor_key_cancel: "wf_key W k \<Longrightarrow> wf_key W l \<Longrightarrow> xor_key (xor_key k l) l = k"
  by (cases k; cases l) (simp add: xor_key_def wf_key_def xor_words_cancel)

lemma wf_xor_key [simp]: "wf_key W k \<Longrightarrow> wf_key W l \<Longrightarrow> wf_key W (xor_key k l)"
  by (simp add: xor_key_def wf_key_def)

definition zero_key :: "nat \<Rightarrow> key" where
  "zero_key W = (replicate W 0, replicate W 0)"

lemma wf_zero_key [simp]: "wf_key W (zero_key W)"
  by (simp add: wf_key_def zero_key_def)

lemma xor_key_commute: "xor_key u v = xor_key v u"
  by (simp add: xor_key_def xor_words_commute)

lemma xor_key_assoc: "xor_key (xor_key u v) w = xor_key u (xor_key v w)"
  by (simp add: xor_key_def xor_words_assoc)

lemma xor_key_zero [simp]: "wf_key W v \<Longrightarrow> xor_key v (zero_key W) = v"
  "wf_key W v \<Longrightarrow> xor_key (zero_key W) v = v"
  by (cases v; simp add: xor_key_def zero_key_def wf_key_def xor_words_zero_right
      xor_words_commute [of "replicate _ _"])+

lemma xor_key_self: "wf_key W v \<Longrightarrow> xor_key v v = zero_key W"
  by (simp add: xor_key_def zero_key_def wf_key_def xor_words_self)

lemma and_1_eq_1_iff: "drop_bit j w AND 1 = 1 \<longleftrightarrow> bit w j" for w :: "'a::len word"
  by (simp add: bit_iff_odd_drop_bit and_one_eq odd_iff_mod_2_eq_one)

lemma qbit_update [qubit_bits]:
  "w < length xs \<Longrightarrow> qbit (xs[w := v]) q \<longleftrightarrow> (if q div 64 = w then bit v (q mod 64) else qbit xs q)"
  by (auto simp: qbit_def)

lemma qbit_Cons:
  "qbit (a # as) q \<longleftrightarrow> (if q < 64 then bit a q else qbit as (q - 64))"
  by (auto simp: qbit_def nth_Cons le_div_geq le_mod_geq split: nat.splits)

lemma qbit_Nil [simp]: "\<not> qbit [] q"
  by (simp add: qbit_def)

lemma qbit_zero [simp]: "\<not> qbit (replicate n 0) q"
  by (auto simp: qbit_def)

lemma qbit_xor_words [qubit_bits]:
  "length as = length bs \<Longrightarrow> qbit (xor_words as bs) q \<longleftrightarrow> qbit as q \<noteq> qbit bs q"
  by (auto simp: qbit_def xor_words_def bit_xor_iff)

lemma qbit_beyond: "64 * length as \<le> q \<Longrightarrow> \<not> qbit as q"
  by (simp add: qbit_def less_eq_div_iff_mult_less_eq mult.commute not_less)

lemma words_eq_iff_qbit:
  assumes "length as = length bs"
  shows "as = bs \<longleftrightarrow> (\<forall>q < 64 * length as. qbit as q = qbit bs q)"
proof
  assume *: "\<forall>q < 64 * length as. qbit as q = qbit bs q"
  show "as = bs"
  proof (rule nth_equalityI [OF assms])
    fix i assume i: "i < length as"
    show "as ! i = bs ! i"
    proof (rule bit_word_eqI)
      fix n assume "n < LENGTH(64)"
      then have n: "n < 64" by simp
      have "64 * i + n < 64 * length as"
      proof -
        have "64 * i + n < 64 * Suc i" using n by simp
        also have "\<dots> \<le> 64 * length as" using i by (intro mult_le_mono) auto
        finally show ?thesis .
      qed
      with * have "qbit as (64 * i + n) = qbit bs (64 * i + n)" by blast
      then show "bit (as ! i) n = bit (bs ! i) n"
        using i n assms by (simp add: qbit_def)
    qed
  qed
qed simp

text \<open>A sum over the coordinates of \<open>W + 1\<close> words splits off the first word.\<close>

lemma sum_first_word:
  fixes f :: "nat \<Rightarrow> 'a::comm_monoid_add"
  shows "(\<Sum>q<64 * Suc n. f q) = (\<Sum>q<64. f q) + (\<Sum>q<64 * n. f (q + 64))"
proof -
  have "(\<Sum>q<64 * Suc n. f q) = (\<Sum>q<64. f q) + (\<Sum>q\<in>{64..<64 * n + 64}. f q)"
    by (simp add: lessThan_atLeast0 sum.atLeastLessThan_concat add.commute)
  also have "(\<Sum>q\<in>{64..<64 * n + 64}. f q) = (\<Sum>q<64 * n. f (q + 64))"
    by (simp add: lessThan_atLeast0 flip: sum.shift_bounds_nat_ivl)
  finally show ?thesis .
qed

end
