(* ===== verification/Phase.thy ===== *)
theory Phase
  imports Pauli_Prelude
begin

unbundle bit_operations_syntax

text \<open>
  \<open>phase.rs\<close>: the factor \<open>i^k\<close> a Pauli product returns, as the source's newtype over \<open>u8\<close>, with the
  proof that \<open>+\<close> on exponents is multiplication of the complex factors.
\<close>

datatype phase = Phase (exponent: u8)

definition phase_ONE :: phase where
  "phase_ONE = Phase 0"

definition phase_I :: phase where
  "phase_I = Phase 1"

definition phase_MINUS_ONE :: phase where
  "phase_MINUS_ONE = Phase 2"

definition phase_MINUS_I :: phase where
  "phase_MINUS_I = Phase 3"

definition phase_new :: "u8 \<Rightarrow> phase" where
  "phase_new k = Phase (k AND 3)"

definition to_complex :: "phase \<Rightarrow> complex result" where
  "to_complex p =
     (if exponent p = 0 then Inr (Complex 1 0)
      else if exponent p = 1 then Inr (Complex 0 1)
      else if exponent p = 2 then Inr (Complex (- 1) 0)
      else if exponent p = 3 then Inr (Complex 0 (- 1))
      else Inl Unreachable)"

definition add_phase :: "phase \<Rightarrow> phase \<Rightarrow> phase" where
  "add_phase p q = Phase ((exponent p + exponent q) AND 3)"

definition wf_phase :: "phase \<Rightarrow> bool" where
  "wf_phase p \<longleftrightarrow> exponent p \<le> 3"

text \<open>The exponent as an integer, and the complex number the phase denotes.\<close>

definition phase_int :: "phase \<Rightarrow> int" where
  "phase_int p = uint (exponent p)"

definition i_pow :: "int \<Rightarrow> complex" where
  "i_pow k = power_int \<i> k"

definition phase_value :: "phase \<Rightarrow> complex" where
  "phase_value p = i_pow (phase_int p)"

lemma uint_and_3: "uint (k AND 3 :: u8) = uint k mod 4"
proof -
  have "k AND 3 = take_bit 2 k"
    by (simp add: take_bit_eq_mask mask_eq_exp_minus_1)
  then have "uint (k AND 3) = take_bit 2 (uint k)" by (simp only: unsigned_take_bit_eq)
  then show ?thesis by (simp add: take_bit_eq_mod)
qed

lemma uint_and_3_of_int:
  "uint (ucast (of_int k :: u32) AND 3 :: u8) = k mod 4"
  by (simp add: uint_and_3 unsigned_ucast_eq unsigned_of_int take_bit_eq_mod mod_mod_cancel)

lemma phase_int_new [simp]: "phase_int (phase_new k) = uint k mod 4"
  by (simp add: phase_int_def phase_new_def uint_and_3)

lemma phase_int_add: "phase_int (add_phase p q) = (phase_int p + phase_int q) mod 4"
  by (simp add: phase_int_def add_phase_def uint_and_3 uint_word_ariths mod_mod_cancel)

lemma phase_int_consts [simp]:
  "phase_int phase_ONE = 0" "phase_int phase_I = 1"
  "phase_int phase_MINUS_ONE = 2" "phase_int phase_MINUS_I = 3"
  by (simp_all add: phase_int_def phase_ONE_def phase_I_def phase_MINUS_ONE_def phase_MINUS_I_def)

lemma wf_phase_iff: "wf_phase p \<longleftrightarrow> 0 \<le> phase_int p \<and> phase_int p < 4"
  by (auto simp: wf_phase_def phase_int_def word_le_def)

lemma phase_int_inject: "phase_int p = phase_int q \<longleftrightarrow> p = q"
  by (cases p; cases q) (auto simp: phase_int_def word_uint_eq_iff)

lemma wf_phase_new [simp]: "wf_phase (phase_new k)"
  by (simp add: wf_phase_iff)

lemma wf_add_phase [simp]: "wf_phase (add_phase p q)"
  by (simp add: wf_phase_iff phase_int_add)

lemma wf_phase_consts [simp]:
  "wf_phase phase_ONE" "wf_phase phase_I" "wf_phase phase_MINUS_ONE" "wf_phase phase_MINUS_I"
  by (simp_all add: wf_phase_iff)

lemma i_pow_add: "i_pow (j + k) = i_pow j * i_pow k"
  by (simp add: i_pow_def power_int_add)

lemma i_pow_small [simp]:
  "i_pow 0 = 1" "i_pow 1 = \<i>" "i_pow 2 = - 1" "i_pow 3 = - \<i>" "i_pow (- 1) = - \<i>" "i_pow 4 = 1"
  by (simp_all add: i_pow_def power_int_minus power3_eq_cube power4_eq_xxxx)

lemma i_pow_mult_4: "i_pow (4 * k) = 1"
  by (simp add: i_pow_def power_int_mult power4_eq_xxxx)

lemma i_pow_mod_4: "i_pow (k mod 4) = i_pow k"
proof -
  have "i_pow k = i_pow (4 * (k div 4) + k mod 4)" by simp
  also have "\<dots> = i_pow (k mod 4)" by (simp only: i_pow_add i_pow_mult_4 mult_1)
  finally show ?thesis by simp
qed

lemma i_pow_cong: "j mod 4 = k mod 4 \<Longrightarrow> i_pow j = i_pow k"
  by (metis i_pow_mod_4)

lemma phase_cases:
  assumes "wf_phase p"
  obtains "p = phase_ONE" | "p = phase_I" | "p = phase_MINUS_ONE" | "p = phase_MINUS_I"
proof -
  have "phase_int p = 0 \<or> phase_int p = 1 \<or> phase_int p = 2 \<or> phase_int p = 3"
    using assms by (auto simp: wf_phase_iff)
  then show ?thesis using that by (simp flip: phase_int_inject) blast
qed

lemma to_complex_value: "wf_phase p \<Longrightarrow> to_complex p = Inr (phase_value p)"
  by (erule phase_cases)
    (simp_all add: to_complex_def phase_value_def phase_ONE_def phase_I_def phase_MINUS_ONE_def
      phase_MINUS_I_def phase_int_def complex_eq_iff)

lemma phase_value_add: "phase_value (add_phase p q) = phase_value p * phase_value q"
  by (simp add: phase_value_def phase_int_add i_pow_mod_4 i_pow_add)

lemma add_phase_assoc: "add_phase (add_phase p q) r = add_phase p (add_phase q r)"
  by (simp add: phase_int_add mod_simps ac_simps flip: phase_int_inject)

lemma add_phase_commute: "add_phase p q = add_phase q p"
  by (simp add: phase_int_add ac_simps flip: phase_int_inject)

lemma add_phase_ONE [simp]: "wf_phase p \<Longrightarrow> add_phase phase_ONE p = p"
  by (simp add: phase_int_add wf_phase_iff flip: phase_int_inject)

end
