(* ===== verification/Coefficient.thy ===== *)
theory Coefficient
  imports Phase
begin

unbundle bit_operations_syntax

text \<open>
  \<open>coefficient.rs\<close>: the trait \<open>Coefficient\<close> as a dictionary of its constants and methods, with the two
  macro instances, real and complex. A definition of the development that is generic in the source
  takes the dictionary, so what is proved without laws (layout, ordering, error branches) holds for
  machine floats as well. Floating point is idealised in the instances: \<open>f64\<close> and \<open>f32\<close> are the real
  numbers, and the narrowing casts of \<open>real\<close> and \<open>from_complex64\<close> are exact. The locale states what
  the algebraic theorems use: the embedding into the complex numbers is an injective homomorphism.
\<close>

section \<open>The trait\<close>

record 'c coefficient =
  is_real :: bool
  c_zero :: 'c
  c_one :: 'c
  c_add :: "'c \<Rightarrow> 'c \<Rightarrow> 'c"
  c_neg :: "'c \<Rightarrow> 'c"
  c_mul :: "'c \<Rightarrow> 'c \<Rightarrow> 'c"
  c_mul_real :: "'c \<Rightarrow> real \<Rightarrow> 'c"
  c_eq :: "'c \<Rightarrow> 'c \<Rightarrow> bool"
  from_complex64 :: "complex \<Rightarrow> real \<Rightarrow> 'c option"
  to_complex64 :: "'c \<Rightarrow> complex"
  mul_phase :: "'c \<Rightarrow> phase \<Rightarrow> 'c"
  c_conj :: "'c \<Rightarrow> 'c"
  norm_sqr :: "'c \<Rightarrow> real"
  is_nonzero :: "'c \<Rightarrow> bool"

section \<open>The instances\<close>

definition real_coefficient :: "real coefficient" where
  "real_coefficient =
     \<lparr>is_real = True, c_zero = 0, c_one = 1, c_add = (+), c_neg = uminus, c_mul = (*),
      c_mul_real = (*), c_eq = (=),
      from_complex64 = (\<lambda>c tolerance. if \<bar>Im c\<bar> \<le> tolerance then Some (Re c) else None),
      to_complex64 = (\<lambda>r. Complex r 0),
      mul_phase = (\<lambda>r p. if exponent p AND 2 = 0 then r else - r),
      c_conj = (\<lambda>r. r),
      norm_sqr = (\<lambda>r. r * r),
      is_nonzero = (\<lambda>r. r \<noteq> 0)\<rparr>"

definition complex_coefficient :: "complex coefficient" where
  "complex_coefficient =
     \<lparr>is_real = False, c_zero = Complex 0 0, c_one = Complex 1 0, c_add = (+), c_neg = uminus,
      c_mul = (*), c_mul_real = (\<lambda>c r. Complex (Re c * r) (Im c * r)), c_eq = (=),
      from_complex64 = (\<lambda>c tolerance. Some (Complex (Re c) (Im c))),
      to_complex64 = (\<lambda>c. Complex (Re c) (Im c)),
      mul_phase = (\<lambda>c p.
        if exponent p = 0 then c
        else if exponent p = 1 then Complex (- Im c) (Re c)
        else if exponent p = 2 then Complex (- Re c) (- Im c)
        else Complex (Im c) (- Re c)),
      c_conj = (\<lambda>c. Complex (Re c) (- Im c)),
      norm_sqr = (\<lambda>c. Re c * Re c + Im c * Im c),
      is_nonzero = (\<lambda>c. Re c \<noteq> 0 \<or> Im c \<noteq> 0)\<rparr>"

section \<open>The laws\<close>

text \<open>
  The phase a coefficient may be multiplied by: a real type only ever sees an even exponent.
\<close>

definition phase_allowed :: "'c coefficient \<Rightarrow> phase \<Rightarrow> bool" where
  "phase_allowed C p \<longleftrightarrow> wf_phase p \<and> (is_real C \<longrightarrow> even (phase_int p))"

lemma even_mod_4: "even (k mod 4) \<longleftrightarrow> even k" for k :: int
  by presburger

locale coefficient_laws =
  fixes C :: "'c coefficient"
  assumes embed_inj: "to_complex64 C a = to_complex64 C b \<Longrightarrow> a = b"
    and embed_zero: "to_complex64 C (c_zero C) = 0"
    and embed_one: "to_complex64 C (c_one C) = 1"
    and embed_add: "to_complex64 C (c_add C a b) = to_complex64 C a + to_complex64 C b"
    and embed_neg: "to_complex64 C (c_neg C a) = - to_complex64 C a"
    and embed_mul: "to_complex64 C (c_mul C a b) = to_complex64 C a * to_complex64 C b"
    and embed_mul_real: "to_complex64 C (c_mul_real C a r) = to_complex64 C a * complex_of_real r"
    and embed_conj: "to_complex64 C (c_conj C a) = cnj (to_complex64 C a)"
    and embed_phase: "phase_allowed C p \<Longrightarrow>
          to_complex64 C (mul_phase C a p) = to_complex64 C a * phase_value p"
    and embed_norm: "norm_sqr C a = (cmod (to_complex64 C a))\<^sup>2"
    and eq_iff: "c_eq C a b \<longleftrightarrow> a = b"
    and nonzero_iff: "is_nonzero C a \<longleftrightarrow> a \<noteq> c_zero C"
    and from_to: "0 \<le> tolerance \<Longrightarrow> from_complex64 C (to_complex64 C a) tolerance = Some a"
begin

lemmas embed = embed_zero embed_one embed_add embed_neg embed_mul embed_mul_real embed_conj

lemma add_commute: "c_add C a b = c_add C b a"
  by (rule embed_inj) (simp add: embed)

lemma add_assoc: "c_add C (c_add C a b) c = c_add C a (c_add C b c)"
  by (rule embed_inj) (simp add: embed)

lemma add_zero: "c_add C a (c_zero C) = a" "c_add C (c_zero C) a = a"
  by (rule embed_inj, simp add: embed)+

lemma mul_commute: "c_mul C a b = c_mul C b a"
  by (rule embed_inj) (simp add: embed)

lemma mul_assoc: "c_mul C (c_mul C a b) c = c_mul C a (c_mul C b c)"
  by (rule embed_inj) (simp add: embed)

lemma mul_one: "c_mul C a (c_one C) = a" "c_mul C (c_one C) a = a"
  by (rule embed_inj, simp add: embed)+

lemma mul_zero: "c_mul C a (c_zero C) = c_zero C" "c_mul C (c_zero C) a = c_zero C"
  by (rule embed_inj, simp add: embed)+

lemma distrib: "c_mul C a (c_add C b c) = c_add C (c_mul C a b) (c_mul C a c)"
  by (rule embed_inj) (simp add: embed distrib_left)

lemma mul_eq_zero_iff: "c_mul C a b = c_zero C \<longleftrightarrow> a = c_zero C \<or> b = c_zero C"
proof
  assume "c_mul C a b = c_zero C"
  then have "to_complex64 C a * to_complex64 C b = 0" by (metis embed_mul embed_zero)
  then show "a = c_zero C \<or> b = c_zero C" using embed_inj embed_zero by auto
qed (auto simp: mul_zero)

lemma mul_phase_mul_phase:
  assumes "phase_allowed C p" "phase_allowed C q"
  shows "mul_phase C (mul_phase C a p) q = mul_phase C a (add_phase p q)"
proof (rule embed_inj)
  have "phase_allowed C (add_phase p q)"
    using assms by (auto simp: phase_allowed_def phase_int_add even_mod_4)
  then show "to_complex64 C (mul_phase C (mul_phase C a p) q) = to_complex64 C (mul_phase C a (add_phase p q))"
    using assms by (simp add: embed_phase phase_value_add mult.assoc)
qed

text \<open>A sum over a list, as \<open>fold(C::ZERO, |a, b| a + b)\<close> computes it.\<close>

lemma embed_fold_add:
  "to_complex64 C (fold (\<lambda>b a. c_add C a b) bs a) = to_complex64 C a + (\<Sum>b\<leftarrow>bs. to_complex64 C b)"
  by (induction bs arbitrary: a) (simp_all add: embed add.assoc)

end

lemma exponent_cases:
  assumes "wf_phase p"
  obtains "exponent p = 0" "phase_value p = 1" "phase_int p = 0"
    | "exponent p = 1" "phase_value p = \<i>" "phase_int p = 1"
    | "exponent p = 2" "phase_value p = - 1" "phase_int p = 2"
    | "exponent p = 3" "phase_value p = - \<i>" "phase_int p = 3"
  using assms
  by (rule phase_cases)
    (auto simp: phase_ONE_def phase_I_def phase_MINUS_ONE_def phase_MINUS_I_def phase_value_def
      phase_int_def intro: that)

interpretation real_c: coefficient_laws real_coefficient
proof unfold_locales
  fix p a
  assume "phase_allowed real_coefficient p"
  then have wf: "wf_phase p" and even: "even (phase_int p)"
    by (simp_all add: phase_allowed_def real_coefficient_def)
  from even show "to_complex64 real_coefficient (mul_phase real_coefficient a p) =
      to_complex64 real_coefficient a * phase_value p"
    by (rule_tac exponent_cases [OF wf]) (simp_all add: real_coefficient_def complex_eq_iff)
qed (auto simp: real_coefficient_def complex_eq_iff cmod_def power2_eq_square)

interpretation complex_c: coefficient_laws complex_coefficient
proof unfold_locales
  fix p a
  assume "phase_allowed complex_coefficient p"
  then have "wf_phase p" by (simp add: phase_allowed_def)
  then show "to_complex64 complex_coefficient (mul_phase complex_coefficient a p) =
      to_complex64 complex_coefficient a * phase_value p"
    by (rule exponent_cases) (simp_all add: complex_coefficient_def complex_eq_iff)
qed (auto simp: complex_coefficient_def complex_eq_iff cmod_def power2_eq_square)

end
