(* ===== verification/Sorted_Runs.thy ===== *)
theory Sorted_Runs
  imports Main
begin

text \<open>
  Key-sorted runs: association lists with strictly ascending keys, the form in which the source keeps
  every bucket and every intermediate run. A run is determined by its lookup function, so each
  operation on runs is specified by the lookup of its result.
\<close>

section \<open>Strictly sorted association lists\<close>

definition run :: "('k::linorder \<times> 'v) list \<Rightarrow> bool" where
  "run ts \<longleftrightarrow> sorted_wrt (<) (map fst ts)"

lemma run_Nil [simp]: "run []"
  by (simp add: run_def)

lemma run_Cons: "run (t # ts) \<longleftrightarrow> (\<forall>u \<in> set ts. fst t < fst u) \<and> run ts"
  by (simp add: run_def)

lemma run_append:
  "run (ts @ us) \<longleftrightarrow> run ts \<and> run us \<and> (\<forall>t \<in> set ts. \<forall>u \<in> set us. fst t < fst u)"
  by (auto simp: run_def sorted_wrt_append)

lemma run_distinct: "run ts \<Longrightarrow> distinct (map fst ts)"
  by (simp add: run_def strict_sorted_iff)

lemma run_filter: "run ts \<Longrightarrow> run (filter P ts)"
  by (induction ts) (auto simp: run_Cons)

lemma run_map_snd: "run ts \<Longrightarrow> run (map (\<lambda>(k, v). (k, f k v)) ts)"
  by (induction ts) (auto simp: run_Cons)

lemma run_take: "run ts \<Longrightarrow> run (take n ts)" and run_drop: "run ts \<Longrightarrow> run (drop n ts)"
  by (simp_all add: run_def take_map [symmetric] drop_map [symmetric] sorted_wrt_take sorted_wrt_drop)

lemma run_nth_less: "run ts \<Longrightarrow> i < j \<Longrightarrow> j < length ts \<Longrightarrow> fst (ts ! i) < fst (ts ! j)"
  by (simp add: run_def sorted_wrt_iff_nth_less)

lemma run_lookup_None: "\<forall>t \<in> set ts. k < fst t \<Longrightarrow> map_of ts k = None"
  for k :: "'k::linorder"
  by (induction ts) auto

lemma map_of_filter_fst:
  "map_of (filter (\<lambda>t. P (fst t)) ts) k = (if P k then map_of ts k else None)"
  by (induction ts) auto

text \<open>Two runs with the same lookup are equal.\<close>

lemma run_eqI:
  assumes "run ts" "run us" "map_of ts = map_of us"
  shows "ts = us"
proof -
  have "set ts = set us"
    using assms by (metis map_of_inject_set run_distinct)
  then have "map fst ts = map fst us"
    using assms(1,2) by (intro strict_sorted_equal) (simp_all add: run_def)
  moreover have "map snd ts = map snd us"
  proof (rule nth_equalityI)
    show len: "length (map snd ts) = length (map snd us)"
      using \<open>map fst ts = map fst us\<close> by (metis length_map)
    fix i assume i: "i < length (map snd ts)"
    have keys: "fst (ts ! i) = fst (us ! i)"
      using \<open>map fst ts = map fst us\<close> i len by (metis length_map nth_map)
    have "map_of ts (fst (ts ! i)) = Some (snd (ts ! i))" "map_of us (fst (us ! i)) = Some (snd (us ! i))"
      using i len assms(1,2) by (simp_all add: map_of_is_SomeI run_distinct)
    with assms(3) keys i len show "map snd ts ! i = map snd us ! i" by simp
  qed
  ultimately show ?thesis by (metis zip_map_fst_snd)
qed

lemma run_mset_eqI:
  assumes "run ts" "run us" "set ts = set us"
  shows "ts = us"
  using assms by (intro run_eqI) (metis map_of_inject_set run_distinct)+

section \<open>The two-way merge\<close>

text \<open>
  The loop of \<open>merge_sorted\<close> over what is left of both runs: the smaller key is pushed, a shared key is
  combined by \<open>on_equal\<close> or dropped, and the tails are copied.
\<close>

fun merge_runs :: "('v \<Rightarrow> 'v \<Rightarrow> 'v option) \<Rightarrow> ('k::linorder \<times> 'v) list \<Rightarrow> ('k \<times> 'v) list \<Rightarrow> ('k \<times> 'v) list"
  where
  "merge_runs on_equal ((k, a) # as) ((l, b) # bs) =
     (if k < l then (k, a) # merge_runs on_equal as ((l, b) # bs)
      else if l < k then (l, b) # merge_runs on_equal ((k, a) # as) bs
      else (case on_equal a b of
              Some c \<Rightarrow> (k, c) # merge_runs on_equal as bs
            | None \<Rightarrow> merge_runs on_equal as bs))"
| "merge_runs on_equal [] bs = bs"
| "merge_runs on_equal as [] = as"

lemma merge_runs_Nil_right [simp]: "merge_runs f as [] = as"
  by (cases as) auto

lemma merge_runs_keys:
  "\<forall>t \<in> set as. P (fst t) \<Longrightarrow> \<forall>t \<in> set bs. P (fst t) \<Longrightarrow> \<forall>t \<in> set (merge_runs f as bs). P (fst t)"
  by (induction f as bs rule: merge_runs.induct) (auto split: option.splits)

lemma fst_merge_runs: "fst ` set (merge_runs f as bs) \<subseteq> fst ` set as \<union> fst ` set bs"
  using merge_runs_keys [of as "\<lambda>k. k \<in> fst ` set as \<union> fst ` set bs" bs f] by auto

lemma run_merge_runs:
  assumes "run as" "run bs"
  shows "run (merge_runs f as bs)"
  using assms
proof (induction f as bs rule: merge_runs.induct)
  case (1 f k a as l b bs)
  show ?case
  proof (cases k l rule: linorder_cases)
    case less
    then have "\<forall>t \<in> set (merge_runs f as ((l, b) # bs)). k < fst t"
      using 1(5,6) by (intro merge_runs_keys) (auto simp: run_Cons)
    with 1 less show ?thesis by (simp add: run_Cons)
  next
    case greater
    then have "\<forall>t \<in> set (merge_runs f ((k, a) # as) bs). l < fst t"
      using 1(5,6) by (intro merge_runs_keys) (auto simp: run_Cons)
    with 1 greater show ?thesis by (simp add: run_Cons)
  next
    case equal
    then have "\<forall>t \<in> set (merge_runs f as bs). k < fst t"
      using 1(5,6) by (intro merge_runs_keys) (auto simp: run_Cons)
    with 1 equal show ?thesis by (simp add: run_Cons split: option.splits)
  qed
qed auto

definition merged :: "('v \<Rightarrow> 'v \<Rightarrow> 'v option) \<Rightarrow> 'v option \<Rightarrow> 'v option \<Rightarrow> 'v option" where
  "merged f a b = (case a of None \<Rightarrow> b | Some v \<Rightarrow> (case b of None \<Rightarrow> a | Some w \<Rightarrow> f v w))"

lemma merged_None [simp]: "merged f None b = b" "merged f a None = a"
  by (auto simp: merged_def split: option.splits)

lemma merged_Some [simp]: "merged f (Some a) (Some b) = f a b"
  by (simp add: merged_def)

lemma map_of_merge_runs:
  assumes "run as" "run bs"
  shows "map_of (merge_runs f as bs) k = merged f (map_of as k) (map_of bs k)"
  using assms
proof (induction f as bs rule: merge_runs.induct)
  case (1 f j a as l b bs)
  have "map_of ((l, b) # bs) j = None" if "j < l"
    by (rule run_lookup_None) (use 1(5,6) that in \<open>force simp: run_Cons\<close>)
  moreover have "map_of ((j, a) # as) l = None" if "l < j"
    by (rule run_lookup_None) (use 1(5,6) that in \<open>force simp: run_Cons\<close>)
  moreover have "map_of as j = None" "map_of bs l = None"
    by (rule run_lookup_None; use 1(5,6) in \<open>force simp: run_Cons\<close>)+
  ultimately show ?case
    using 1 by (auto simp: run_Cons split: option.splits)
qed (auto split: option.splits)

section \<open>In-place compaction\<close>

text \<open>
  The reading order of \<open>update\<close>: the closure sees the terms in order and may carry state; a term it maps
  to \<open>None\<close> is dropped.
\<close>

fun update_terms :: "('s \<Rightarrow> 'k \<Rightarrow> 'v \<Rightarrow> 'v option \<times> 's) \<Rightarrow> 's \<Rightarrow> ('k \<times> 'v) list \<Rightarrow> ('k \<times> 'v) list \<times> 's"
  where
  "update_terms f s [] = ([], s)"
| "update_terms f s ((k, v) # ts) =
     (case f s k v of (r, s') \<Rightarrow>
        case update_terms f s' ts of (us, s'') \<Rightarrow>
          (case r of Some w \<Rightarrow> ((k, w) # us, s'') | None \<Rightarrow> (us, s'')))"

lemma update_terms_Cons:
  "fst (update_terms f s ((k, v) # ts)) =
     (case fst (f s k v) of Some w \<Rightarrow> [(k, w)] | None \<Rightarrow> []) @ fst (update_terms f (snd (f s k v)) ts)"
  "snd (update_terms f s ((k, v) # ts)) = snd (update_terms f (snd (f s k v)) ts)"
  by (simp_all split: prod.splits option.splits)

declare update_terms.simps(2) [simp del]

lemma update_terms_keys:
  "\<forall>t \<in> set ts. P (fst t) \<Longrightarrow> \<forall>t \<in> set (fst (update_terms f s ts)). P (fst t)"
  by (induction ts arbitrary: s) (fastforce simp: update_terms_Cons split: option.splits)+

lemma fst_update_terms: "fst ` set (fst (update_terms f s ts)) \<subseteq> fst ` set ts"
  using update_terms_keys [of ts "\<lambda>k. k \<in> fst ` set ts" f s] by auto

lemma run_update_terms: "run ts \<Longrightarrow> run (fst (update_terms f s ts))"
proof (induction ts arbitrary: s)
  case (Cons t ts)
  obtain k v where t: "t = (k, v)" by (cases t)
  have "\<forall>u \<in> set (fst (update_terms f s' ts)). k < fst u" for s'
    using Cons.prems by (intro update_terms_keys) (simp add: run_Cons t)
  with Cons show ?case
    by (auto simp: t update_terms_Cons run_Cons split: option.splits)
qed simp

lemma update_terms_append:
  "fst (update_terms f s (ts @ us)) =
     fst (update_terms f s ts) @ fst (update_terms f (snd (update_terms f s ts)) us)"
  "snd (update_terms f s (ts @ us)) = snd (update_terms f (snd (update_terms f s ts)) us)"
  by (induction ts arbitrary: s) (auto simp: update_terms_Cons)

lemma length_update_terms: "length (fst (update_terms f s ts)) \<le> length ts"
proof (induction ts arbitrary: s)
  case (Cons t ts)
  then show ?case by (cases t) (auto simp: update_terms_Cons intro: le_SucI split: option.splits)
qed simp

lemma update_terms_stateless:
  "fst (update_terms (\<lambda>s k v. (f k v, s)) s ts) =
     List.map_filter (\<lambda>(k, v). map_option (Pair k) (f k v)) ts"
  by (induction ts) (auto simp: update_terms_Cons map_filter_simps split: option.splits)

lemma map_of_update_stateless:
  "distinct (map fst ts) \<Longrightarrow>
     map_of (List.map_filter (\<lambda>(k, v). map_option (Pair k) (f k v)) ts) k = Option.bind (map_of ts k) (f k)"
proof (induction ts)
  case (Cons t ts)
  have "map_of (List.map_filter (\<lambda>(k, v). map_option (Pair k) (f k v)) ts) k = None"
    if "k \<notin> fst ` set ts" for k
    using that by (force simp: map_of_eq_None_iff List.map_filter_def)
  with Cons show ?case
    by (cases t) (auto simp: map_filter_simps split: option.splits)
qed (simp add: map_filter_simps)

section \<open>Bucketed runs\<close>

text \<open>
  A list of runs partitioned by an index of the keys: what a bucketed sum stores. Lookup reads one
  bucket, and the bucket count and the lookup determine the storage.
\<close>

definition bucketed :: "('k::linorder \<Rightarrow> nat) \<Rightarrow> ('k \<times> 'v) list list \<Rightarrow> bool" where
  "bucketed ix L \<longleftrightarrow> (\<forall>b < length L. run (L ! b) \<and> (\<forall>t \<in> set (L ! b). ix (fst t) = b))"

lemma bucketed_other:
  "bucketed ix L \<Longrightarrow> b < length L \<Longrightarrow> ix k \<noteq> b \<Longrightarrow> map_of (L ! b) k = None"
  by (auto simp: bucketed_def map_of_eq_None_iff)

lemma map_of_concat_unique:
  assumes "b < length L" "\<And>i. i < length L \<Longrightarrow> i \<noteq> b \<Longrightarrow> map_of (L ! i) k = None"
  shows "map_of (concat L) k = map_of (L ! b) k"
  using assms
proof (induction L arbitrary: b)
  case (Cons ts L)
  show ?case
  proof (cases b)
    case 0
    have "map_of (concat L) k = None"
    proof -
      have "map_of us k = None" if us: "us \<in> set L" for us
      proof -
        obtain i where "i < length L" "L ! i = us" using us by (auto simp: in_set_conv_nth)
        then show ?thesis using Cons.prems(2) [of "Suc i"] 0 by simp
      qed
      then show ?thesis by (auto simp: map_of_eq_None_iff)
    qed
    with 0 show ?thesis by (simp add: map_add_def split: option.splits)
  next
    case (Suc c)
    then have "map_of ts k = None" using Cons.prems(2) [of 0] by simp
    moreover have "map_of (concat L) k = map_of (L ! c) k"
    proof (rule Cons.IH)
      show "map_of (L ! i) k = None" if "i < length L" "i \<noteq> c" for i
        using Cons.prems(2) [of "Suc i"] that Suc by simp
    qed (use Cons.prems(1) Suc in simp)
    ultimately show ?thesis using Suc by (simp add: map_add_def split: option.splits)
  qed
qed simp

lemma bucketed_lookup:
  "bucketed ix L \<Longrightarrow> ix k < length L \<Longrightarrow> map_of (concat L) k = map_of (L ! ix k) k"
  by (rule map_of_concat_unique) (auto intro: bucketed_other)

lemma bucketed_lookup_None:
  assumes "bucketed ix L" "\<not> ix k < length L"
  shows "map_of (concat L) k = None"
proof -
  have "k \<notin> fst ` set us" if us: "us \<in> set L" for us
  proof -
    obtain b where "b < length L" "us = L ! b" using us by (auto simp: in_set_conv_nth)
    with assms show ?thesis by (auto simp: bucketed_def)
  qed
  then show ?thesis by (auto simp: map_of_eq_None_iff)
qed

lemma bucketed_distinct:
  assumes "bucketed ix L"
  shows "distinct (map fst (concat L))"
proof -
  have "distinct (map fst (concat L))" if "\<forall>b < length L. run (L ! b) \<and> (\<forall>t \<in> set (L ! b). ix (fst t) = n + b)" for n
    using that
  proof (induction L arbitrary: n)
    case (Cons ts L)
    have head: "run ts" "\<forall>t \<in> set ts. ix (fst t) = n"
      using spec [OF Cons.prems, of 0] by simp_all
    have tail: "\<forall>b < length L. run (L ! b) \<and> (\<forall>t \<in> set (L ! b). ix (fst t) = Suc n + b)"
      using Cons.prems by fastforce
    then have "\<forall>t \<in> set (concat L). n < ix (fst t)"
      by (fastforce simp: in_set_conv_nth [of _ L])
    with head Cons.IH [OF tail] show ?case by (force simp: run_distinct)
  qed simp
  from this [of 0] assms show ?thesis by (simp add: bucketed_def)
qed

lemma bucketed_eqI:
  assumes "bucketed ix L" "bucketed ix M" "length L = length M" "map_of (concat L) = map_of (concat M)"
  shows "L = M"
proof (rule nth_equalityI [OF assms(3)])
  fix b assume b: "b < length L"
  show "L ! b = M ! b"
  proof (rule run_eqI)
    show "run (L ! b)" "run (M ! b)" using assms b by (auto simp: bucketed_def)
    show "map_of (L ! b) = map_of (M ! b)"
    proof
      fix k
      show "map_of (L ! b) k = map_of (M ! b) k"
        using bucketed_lookup [OF assms(1), of k] bucketed_lookup [OF assms(2), of k] assms b
          bucketed_other [OF assms(1) b, of k] bucketed_other [OF assms(2), of b k]
        by (cases "ix k = b") auto
    qed
  qed
qed

text \<open>Scattering terms one at a time puts into each bucket, in order, the terms of its index.\<close>

lemma fold_scatter:
  fixes ix :: "'k \<Rightarrow> nat"
  shows "length (fold (\<lambda>t L. L[ix (fst t) := L ! ix (fst t) @ [t]]) ts L) = length L \<and>
    (b < length L \<longrightarrow> fold (\<lambda>t L. L[ix (fst t) := L ! ix (fst t) @ [t]]) ts L ! b =
       L ! b @ filter (\<lambda>t. ix (fst t) = b) ts)"
  by (induction ts arbitrary: L) (auto simp: nth_list_update)

lemma length_sum_filter_index:
  assumes "\<forall>t \<in> set ts. ix (fst t) < n"
  shows "sum_list (map (\<lambda>b. length (filter (\<lambda>t. ix (fst t) = b) ts)) [0..<n]) = length ts"
  using assms
proof (induction ts)
  case (Cons t ts)
  have "sum_list (map (\<lambda>b. length (filter (\<lambda>u. ix (fst u) = b) (t # ts))) [0..<n]) =
      sum_list (map (\<lambda>b. of_bool (b = ix (fst t))) [0..<n]) +
      sum_list (map (\<lambda>b. length (filter (\<lambda>u. ix (fst u) = b) ts)) [0..<n])"
    by (simp flip: sum_list_addf, intro arg_cong [where f = sum_list] map_cong) auto
  also have "sum_list (map (\<lambda>b. of_bool (b = ix (fst t))) [0..<n]) = (1 :: nat)"
    using Cons.prems by (simp add: sum_list_sum_nth atLeast0LessThan sum_of_bool_eq)
  finally show ?case using Cons by simp
qed (simp add: sum_list_triv)

text \<open>Splitting every bucket by one more index bit, and merging the two halves back.\<close>

lemma bucketed_split:
  assumes "bucketed ix L" "\<And>k. ix' k = ix k + (if p k then length L else 0)"
  defines "L' \<equiv> map (filter (\<lambda>t. \<not> p (fst t))) L @ map (filter (\<lambda>t. p (fst t))) L"
  shows "bucketed ix' L'" "map_of (concat L') = map_of (concat L)"
proof -
  have L: "run (L ! b)" "\<And>t. t \<in> set (L ! b) \<Longrightarrow> ix (fst t) = b" if "b < length L" for b
    using assms(1) that by (auto simp: bucketed_def)
  show b: "bucketed ix' L'"
    unfolding bucketed_def
  proof (intro allI impI)
    fix b assume b: "b < length L'"
    show "run (L' ! b) \<and> (\<forall>t \<in> set (L' ! b). ix' (fst t) = b)"
    proof (cases "b < length L")
      case False
      then have "b - length L < length L" using b by (simp add: L'_def)
      with False L [of "b - length L"] show ?thesis
        by (auto simp: L'_def assms(2) nth_append run_filter dest: L(2))
    qed (use L in \<open>auto simp: L'_def assms(2) nth_append run_filter\<close>)
  qed
  show "map_of (concat L') = map_of (concat L)"
  proof
    fix k
    show "map_of (concat L') k = map_of (concat L) k"
    proof (cases "ix k < length L")
      case True
      then have "map_of (L' ! ix' k) k = map_of (L ! ix k) k"
        using map_of_filter_fst [of "\<lambda>k. \<not> p k" "L ! ix k" k] map_of_filter_fst [of p "L ! ix k" k]
        by (cases "p k") (simp_all add: L'_def assms(2) nth_append)
      with True show ?thesis
        using bucketed_lookup [OF b, of k] bucketed_lookup [OF assms(1) True]
        by (auto simp: L'_def assms(2))
    next
      case False
      have "map_of (concat L') k = None"
        using bucketed_lookup_None [OF assms(1) False] by (auto simp: L'_def map_of_eq_None_iff)
      with bucketed_lookup_None [OF assms(1) False] show ?thesis by simp
    qed
  qed
qed

lemma bucketed_join:
  fixes f :: "'v \<Rightarrow> 'v \<Rightarrow> 'v option"
  assumes "bucketed ix L" "length L = 2 * n" "\<And>k. ix' k = ix k mod n" "0 < n"
  defines "M \<equiv> map (\<lambda>b. merge_runs f (L ! b) (L ! (n + b))) [0..<n]"
  shows "bucketed ix' M" "map_of (concat M) = map_of (concat L)"
proof -
  have runs: "run (L ! b)" "\<forall>t \<in> set (L ! b). ix (fst t) = b" if "b < 2 * n" for b
    using assms(1,2) that by (auto simp: bucketed_def)
  have "run (M ! b) \<and> (\<forall>t \<in> set (M ! b). ix' (fst t) = b)" if "b < n" for b
  proof -
    have "\<forall>t \<in> set (merge_runs f (L ! b) (L ! (n + b))). ix' (fst t) = b"
      using runs(2) [of b] runs(2) [of "n + b"] that
      by (intro merge_runs_keys) (auto simp: assms(3))
    then show ?thesis using runs(1) that by (simp add: M_def run_merge_runs)
  qed
  then show b: "bucketed ix' M" by (simp add: bucketed_def M_def)
  show "map_of (concat M) = map_of (concat L)"
  proof
    fix k
    have M: "map_of (concat M) k = map_of (M ! (ix k mod n)) k"
      using bucketed_lookup [OF b, of k] assms(3,4) by (simp add: M_def)
    have "map_of (M ! (ix k mod n)) k =
        merged f (map_of (L ! (ix k mod n)) k) (map_of (L ! (n + ix k mod n)) k)"
      using assms(4) mod_less_divisor [OF assms(4), of "ix k"]
      by (simp add: M_def) (intro map_of_merge_runs runs(1); simp)
    also have "\<dots> = map_of (concat L) k"
    proof (cases "ix k < 2 * n")
      case True
      then have L: "map_of (concat L) k = map_of (L ! ix k) k"
        using assms(1,2) by (simp add: bucketed_lookup)
      show ?thesis
      proof (cases "ix k < n")
        case True
        then show ?thesis using L bucketed_other [OF assms(1), of "n + ix k" k] assms(2) by simp
      next
        case False
        with \<open>ix k < 2 * n\<close> have "ix k mod n = ix k - n"
          by (simp add: mod_if)
        then show ?thesis
          using L False \<open>ix k < 2 * n\<close> bucketed_other [OF assms(1), of "ix k - n" k] assms(2,4) by simp
      qed
    next
      case False
      have "ix k mod n < n" using assms(4) by simp
      then show ?thesis
        using False bucketed_lookup_None [OF assms(1), of k] assms(2)
          bucketed_other [OF assms(1), of "ix k mod n" k] bucketed_other [OF assms(1), of "n + ix k mod n" k]
        by simp
    qed
    finally show "map_of (concat M) k = map_of (concat L) k" using M by simp
  qed
qed

lemma map_of_filter_distinct:
  "distinct (map fst ts) \<Longrightarrow>
     map_of (filter P ts) k = (case map_of ts k of Some v \<Rightarrow> if P (k, v) then Some v else None | None \<Rightarrow> None)"
proof (induction ts)
  case (Cons t ts)
  have "map_of (filter P ts) k = None" if "k \<notin> fst ` set ts" for k
    using that by (force simp: map_of_eq_None_iff)
  with Cons show ?case by (cases t) (auto split: option.splits)
qed simp

text \<open>An operation on pairs of runs, bucket by bucket.\<close>

lemma bucketed_zip:
  assumes "bucketed ix L" "bucketed ix M" "length L = length M"
    and "\<And>as bs. run as \<Longrightarrow> run bs \<Longrightarrow> run (g as bs)"
    and "\<And>as bs. fst ` set (g as bs) \<subseteq> fst ` set as \<union> fst ` set bs"
  defines "N \<equiv> map (\<lambda>(as, bs). g as bs) (zip L M)"
  shows "bucketed ix N"
    and "ix k < length L \<Longrightarrow> map_of (concat N) k = map_of (g (L ! ix k) (M ! ix k)) k"
    and "fst ` set (concat N) \<subseteq> fst ` set (concat L) \<union> fst ` set (concat M)"
proof -
  have len: "length N = length L" using assms(3) by (simp add: N_def)
  have nth: "N ! b = g (L ! b) (M ! b)" if "b < length L" for b
    using that assms(3) by (simp add: N_def)
  show b: "bucketed ix N"
    unfolding bucketed_def len
  proof (intro allI impI)
    fix b assume b: "b < length L"
    then have "run (L ! b)" "run (M ! b)" "\<forall>t \<in> set (L ! b). ix (fst t) = b" "\<forall>t \<in> set (M ! b). ix (fst t) = b"
      using assms(1-3) by (auto simp: bucketed_def)
    moreover have "ix (fst t) = b" if t: "t \<in> set (g (L ! b) (M ! b))" for t
    proof -
      have "fst t \<in> fst ` set (L ! b) \<union> fst ` set (M ! b)" using assms(5) t by blast
      then show ?thesis using calculation(3,4) by auto
    qed
    ultimately show "run (N ! b) \<and> (\<forall>t \<in> set (N ! b). ix (fst t) = b)"
      using b assms(4) by (simp add: nth)
  qed
  show "map_of (concat N) k = map_of (g (L ! ix k) (M ! ix k)) k" if "ix k < length L"
    using bucketed_lookup [OF b] that by (simp add: len nth)
  show "fst ` set (concat N) \<subseteq> fst ` set (concat L) \<union> fst ` set (concat M)"
  proof
    fix k assume "k \<in> fst ` set (concat N)"
    then obtain ts where "ts \<in> set N" "k \<in> fst ` set ts" by auto
    then obtain b where b: "b < length L" "k \<in> fst ` set (N ! b)"
      by (metis in_set_conv_nth len)
    then have "k \<in> fst ` set (L ! b) \<union> fst ` set (M ! b)"
      using assms(5) [of "L ! b" "M ! b"] nth by auto
    moreover have "set (L ! b) \<subseteq> set (concat L)" "set (M ! b) \<subseteq> set (concat M)"
      using b(1) assms(3) by (auto intro!: bexI [OF _ nth_mem])
    ultimately show "k \<in> fst ` set (concat L) \<union> fst ` set (concat M)" by blast
  qed
qed

end
