(* ===== verification/Pauli_Matrix.thy ===== *)
theory Pauli_Matrix
  imports Pauli_String
begin

unbundle bit_operations_syntax

text \<open>
  The abstract meaning of a key: the tensor product of single-qubit Pauli matrices as a
  \<open>2^n \<times> 2^n\<close> complex matrix over the computational basis, and the refinement theorems that the
  word-level routines of \<open>pauli_string.rs\<close> compute with those matrices.
\<close>

section \<open>Matrices\<close>

text \<open>\<open>P(a,b) = i^(ab) X^a Z^b\<close>, entry \<open>(r, s)\<close>.\<close>

definition pauli_entry :: "bool \<Rightarrow> bool \<Rightarrow> bool \<Rightarrow> bool \<Rightarrow> complex" where
  "pauli_entry a b r s =
     (if r = (s \<noteq> a) then i_pow (of_bool (a \<and> b)) * (if b \<and> s then - 1 else 1) else 0)"

definition pauli_matrix_of :: "nat \<Rightarrow> key \<Rightarrow> (nat \<Rightarrow> bool) \<Rightarrow> (nat \<Rightarrow> bool) \<Rightarrow> complex" where
  "pauli_matrix_of n k r s =
     (\<Prod>q<n. pauli_entry (qbit (fst k) q) (qbit (snd k) q) (r q) (s q))"

definition comp_basis :: "nat \<Rightarrow> (nat \<Rightarrow> bool) set" where
  "comp_basis n = (\<Pi>\<^sub>E q\<in>{..<n}. UNIV)"

definition mat_mult ::
    "nat \<Rightarrow> ((nat \<Rightarrow> bool) \<Rightarrow> (nat \<Rightarrow> bool) \<Rightarrow> complex) \<Rightarrow>
     ((nat \<Rightarrow> bool) \<Rightarrow> (nat \<Rightarrow> bool) \<Rightarrow> complex) \<Rightarrow> (nat \<Rightarrow> bool) \<Rightarrow> (nat \<Rightarrow> bool) \<Rightarrow> complex"
  where
  "mat_mult n A B r s = (\<Sum>m\<in>comp_basis n. A r m * B m s)"

text \<open>The four matrices \<open>I, X, Z, Y\<close> in the layout of \<open>channel/ptm/unitary.rs\<close>.\<close>

lemma pauli_entry_table:
  "pauli_entry False False r s = (if r = s then 1 else 0)"
  "pauli_entry True False r s = (if r = s then 0 else 1)"
  "pauli_entry False True r s = (if r = s then (if s then - 1 else 1) else 0)"
  "pauli_entry True True r s = (if r = s then 0 else if s then - \<i> else \<i>)"
  by (auto simp: pauli_entry_def)

lemma pauli_entry_mult:
  "(\<Sum>m\<in>UNIV. pauli_entry a b r m * pauli_entry c d m s) =
     i_pow (qubit_phase a b c d) * pauli_entry (a \<noteq> c) (b \<noteq> d) r s"
  by (cases a; cases b; cases c; cases d; cases r; cases s)
    (simp_all add: pauli_entry_def qubit_phase_def UNIV_bool)

lemma i_pow_sum: "i_pow (\<Sum>x\<in>A. f x) = (\<Prod>x\<in>A. i_pow (f x))" if "finite A"
  using that by (induction A rule: finite_induct) (simp_all add: i_pow_add)

lemma pauli_matrix_mult:
  assumes "wf_key W k" "wf_key W l"
  shows "mat_mult n (pauli_matrix_of n k) (pauli_matrix_of n l) r s =
    i_pow (key_phase n k l) * pauli_matrix_of n (xor_key k l) r s"
proof -
  let ?e = "\<lambda>k q. pauli_entry (qbit (fst k) q) (qbit (snd k) q)"
  have "mat_mult n (pauli_matrix_of n k) (pauli_matrix_of n l) r s =
      (\<Sum>m\<in>comp_basis n. \<Prod>q<n. ?e k q (r q) (m q) * ?e l q (m q) (s q))"
    by (simp add: mat_mult_def pauli_matrix_of_def prod.distrib)
  also have "\<dots> = (\<Prod>q<n. \<Sum>b\<in>UNIV. ?e k q (r q) b * ?e l q b (s q))"
    by (simp add: comp_basis_def prod_sum_PiE)
  also have "\<dots> = (\<Prod>q<n. i_pow (qubit_phase (qbit (fst k) q) (qbit (snd k) q)
      (qbit (fst l) q) (qbit (snd l) q)) * ?e (xor_key k l) q (r q) (s q))"
    using assms by (simp add: pauli_entry_mult xor_key_def wf_key_def qbit_xor_words)
  finally show ?thesis
    by (simp add: prod.distrib key_phase_def i_pow_sum pauli_matrix_of_def)
qed

lemma pauli_matrix_nonzero:
  "pauli_matrix_of n k (\<lambda>q. s q \<noteq> qbit (fst k) q) s \<noteq> 0"
  by (auto simp: pauli_matrix_of_def pauli_entry_def i_pow_def power_int_eq_0_iff)

section \<open>Live qubits\<close>

lemma bit_word_mask: "bit (word_mask n i) j \<longleftrightarrow> j < 64 \<and> 64 * i + j < n"
proof -
  consider "n \<ge> 64 * i + 64" | "n \<le> 64 * i" | "64 * i < n" "n < 64 * i + 64" by linarith
  then show ?thesis
  proof cases
    case 3
    then have "word_mask n i = mask (n - 64 * i)"
      by (simp add: word_mask_def mask_eq_exp_minus_1 push_bit_of_1)
    with 3 show ?thesis by (auto simp: bit_mask_iff)
  qed (auto simp: word_mask_def bit_not_iff)
qed

lemma fold_or_eq_0:
  "fold (\<lambda>x acc. acc OR f x) xs w = 0 \<longleftrightarrow> w = 0 \<and> (\<forall>x\<in>set xs. f x = (0 :: u64))"
  by (induction xs arbitrary: w) (auto simp: or_eq_0_iff)

lemma and_not_word_mask_eq_0:
  "(w AND NOT (word_mask n i)) = 0 \<longleftrightarrow> (\<forall>j < 64. bit w j \<longrightarrow> 64 * i + j < n)"
  by (auto simp: bit_eq_iff bit_and_iff bit_not_iff bit_word_mask)

lemma is_within_words:
  assumes "wf_ps W p"
  shows "is_within p n \<longleftrightarrow>
    (\<forall>i < W. \<forall>j < 64. bit (ps_x p ! i OR ps_z p ! i) j \<longrightarrow> 64 * i + j < n)"
proof -
  have "is_within p n \<longleftrightarrow>
      (\<forall>(i, a, b) \<in> set (zip [0..<W] (zip (ps_x p) (ps_z p))).
         (a OR b) AND NOT (word_mask n i) = 0)"
    using assms fold_or_eq_0 [of "\<lambda>(i, a, b). (a OR b) AND NOT (word_mask n i)"]
    by (simp add: is_within_def wf_ps_def case_prod_unfold)
  also have "\<dots> \<longleftrightarrow> (\<forall>i < W. (ps_x p ! i OR ps_z p ! i) AND NOT (word_mask n i) = 0)"
    using assms by (simp add: all_set_conv_all_nth wf_ps_def)
  finally show ?thesis by (simp add: and_not_word_mask_eq_0)
qed

lemma is_within_iff:
  assumes "wf_ps W p"
  shows "is_within p n \<longleftrightarrow> (\<forall>q \<ge> n. \<not> qbit (ps_x p) q \<and> \<not> qbit (ps_z p) q)"
  unfolding is_within_words [OF assms]
proof (intro iffI allI impI, goal_cases)
  case (1 q)
  then show ?case
  proof (cases "q div 64 < W")
    case True
    with 1 have "bit (ps_x p ! (q div 64) OR ps_z p ! (q div 64)) (q mod 64) \<longrightarrow>
        64 * (q div 64) + q mod 64 < n"
      by (metis mod_less_divisor zero_less_numeral)
    with 1 show ?thesis by (auto simp: qbit_def bit_or_iff)
  next
    case False
    with assms show ?thesis by (simp add: qbit_def wf_ps_def)
  qed
next
  case (2 i j)
  then have "\<not> qbit (ps_x p) (64 * i + j) \<and> \<not> qbit (ps_z p) (64 * i + j)" if "n \<le> 64 * i + j"
    using that by blast
  with 2 assms show ?case
    by (cases "n \<le> 64 * i + j") (auto simp: qbit_def wf_ps_def bit_or_iff)
qed

lemma key_phase_within:
  assumes "wf_ps W p" "wf_ps W q" "is_within p n" "is_within q n" "n \<le> 64 * W"
  shows "key_phase (64 * W) (key_of p) (key_of q) = key_phase n (key_of p) (key_of q)"
proof -
  have "qubit_phase False False False False = 0" by (simp add: qubit_phase_def)
  with assms show ?thesis
    unfolding key_phase_def
    by (intro sum.mono_neutral_cong_right) (auto simp: is_within_iff key_of_def)
qed

section \<open>The word-level routines compute with the matrices\<close>

lemma mat_mult_mul_assign:
  assumes "wf_ps W p" "wf_ps W q" "is_within p n" "is_within q n" "n \<le> 64 * W"
  shows "mat_mult n (pauli_matrix_of n (key_of p)) (pauli_matrix_of n (key_of q)) r s =
    phase_value (snd (mul_assign p q)) * pauli_matrix_of n (key_of (fst (mul_assign p q))) r s"
proof -
  have "wf_key W (key_of p)" "wf_key W (key_of q)"
    using assms by (simp_all add: wf_key_def wf_ps_def key_of_def)
  then show ?thesis
    using assms by (simp add: pauli_matrix_mult mul_assign_closed [of W] phase_value_def i_pow_mod_4
        key_phase_within)
qed

text \<open>
  C6. \<open>PauliString::mul_assign\<close> is the operator product: for strings on \<open>n\<close> qubits, the product of
  their matrices is the returned phase \<open>i^k\<close> times the matrix of the key left in \<open>self\<close>, although
  the code only accumulates popcounts in a wrapping \<open>u32\<close> and keeps its low byte.
\<close>

theorem mul_assign_is_operator_product:
  assumes "wf_ps W p" "wf_ps W q" "is_within p n" "is_within q n" "n \<le> 64 * W"
  shows "mat_mult n (pauli_matrix_of n (key_of p)) (pauli_matrix_of n (key_of q)) r s =
    phase_value (snd (mul_assign p q)) * pauli_matrix_of n (key_of (fst (mul_assign p q))) r s"
  using assms by (rule mat_mult_mul_assign)

theorem mul_assign_is_operator_product_witness:
  "\<forall>r s. mat_mult 1 (pauli_matrix_of 1 ([1], [0])) (pauli_matrix_of 1 ([0], [1])) r s =
     phase_value phase_MINUS_I * pauli_matrix_of 1 ([1], [1]) r s"
proof (intro allI)
  fix r s
  let ?p = "\<lparr>ps_x = [1], ps_z = [0]\<rparr>" and ?q = "\<lparr>ps_x = [0], ps_z = [1]\<rparr>"
  have "is_within ?p 1" "is_within ?q 1" "mul_assign ?p ?q = (\<lparr>ps_x = [1], ps_z = [1]\<rparr>, phase_MINUS_I)"
    by code_simp+
  then show "mat_mult 1 (pauli_matrix_of 1 ([1], [0])) (pauli_matrix_of 1 ([0], [1])) r s =
     phase_value phase_MINUS_I * pauli_matrix_of 1 ([1], [1]) r s"
    using mul_assign_is_operator_product [of 1 ?p ?q 1 r s]
    by (simp add: wf_ps_def key_of_def)
qed

text \<open>
  C7. \<open>PauliString::commutes_with\<close>, one popcount of an XOR-folded word, decides whether the two
  operators commute as matrices.
\<close>

theorem commutes_with_iff_matrices_commute:
  assumes "wf_ps W p" "wf_ps W q" "is_within p n" "is_within q n" "n \<le> 64 * W"
  shows "commutes_with p q \<longleftrightarrow>
    (\<forall>r s. mat_mult n (pauli_matrix_of n (key_of p)) (pauli_matrix_of n (key_of q)) r s =
           mat_mult n (pauli_matrix_of n (key_of q)) (pauli_matrix_of n (key_of p)) r s)"
proof -
  let ?k = "key_of (fst (mul_assign p q))"
  have k: "key_of (fst (mul_assign q p)) = ?k"
    using assms by (simp add: mul_assign_closed [of W] xor_key_def xor_words_commute)
  have swap: "phase_value (snd (mul_assign p q)) =
      (if commutes_with p q then 1 else - 1) * phase_value (snd (mul_assign q p))"
    unfolding phase_of_swap [OF assms(1,2)]
    by (simp add: phase_value_add) (simp add: phase_value_def)
  let ?m = "pauli_matrix_of n ?k (\<lambda>j. qbit (fst ?k) j) (\<lambda>_. False)"
  have "?m \<noteq> 0" using pauli_matrix_nonzero [of n ?k "\<lambda>_. False"] by simp
  then have nz: "phase_value (snd (mul_assign q p)) * ?m \<noteq> 0"
    by (simp add: phase_value_def i_pow_def power_int_eq_0_iff)
  have eq: "mat_mult n (pauli_matrix_of n (key_of p)) (pauli_matrix_of n (key_of q)) r s =
      (if commutes_with p q then 1 else - 1) *
      mat_mult n (pauli_matrix_of n (key_of q)) (pauli_matrix_of n (key_of p)) r s" for r s
    unfolding mat_mult_mul_assign [OF assms] mat_mult_mul_assign [OF assms(2,1,4,3,5)] k swap
    by simp
  have ne: "mat_mult n (pauli_matrix_of n (key_of q)) (pauli_matrix_of n (key_of p))
      (\<lambda>j. qbit (fst ?k) j) (\<lambda>_. False) \<noteq> 0"
    unfolding mat_mult_mul_assign [OF assms(2,1,4,3,5)] k by (rule nz)
  show ?thesis
  proof (cases "commutes_with p q")
    case False
    then show ?thesis
      unfolding eq using ne by (simp del: Let_def) blast
  qed (simp add: eq)
qed

theorem commutes_with_iff_matrices_commute_witness:
  "\<not> (\<forall>r s. mat_mult 1 (pauli_matrix_of 1 ([1], [0])) (pauli_matrix_of 1 ([0], [1])) r s =
     mat_mult 1 (pauli_matrix_of 1 ([0], [1])) (pauli_matrix_of 1 ([1], [0])) r s)"
proof -
  let ?p = "\<lparr>ps_x = [1], ps_z = [0]\<rparr>" and ?q = "\<lparr>ps_x = [0], ps_z = [1]\<rparr>"
  have "is_within ?p 1" "is_within ?q 1" "\<not> commutes_with ?p ?q"
    by code_simp+
  then show ?thesis
    using commutes_with_iff_matrices_commute [of 1 ?p ?q 1] by (simp add: wf_ps_def key_of_def)
qed

end
