(* ===== verification/Rng.thy ===== *)
theory Rng
  imports Pauli_Prelude
begin

unbundle bit_operations_syntax

text \<open>
  \<open>rng.rs\<close>: splitmix64 and the xoshiro256++ streams the sampling policies and the hash rows draw
  from. The finalizer is shown to be a bijection on \<open>u64\<close>, as its comment says, and a stream's
  state is never the all-zero fixed point.
\<close>

definition SPLITMIX_GAMMA :: u64 where
  "SPLITMIX_GAMMA = 0x9E3779B97F4A7C15"

definition mix64 :: "u64 \<Rightarrow> u64" where
  "mix64 z0 =
     (let z = (z0 XOR drop_bit 30 z0) * 0xBF58476D1CE4E5B9;
          z = (z XOR drop_bit 27 z) * 0x94D049BB133111EB
      in z XOR drop_bit 31 z)"

text \<open>One step returns the advanced state and its mixed output.\<close>

definition splitmix64 :: "u64 \<Rightarrow> u64 \<times> u64" where
  "splitmix64 state = (let state = state + SPLITMIX_GAMMA in (state, mix64 state))"

record rng =
  s0 :: u64
  s1 :: u64
  s2 :: u64
  s3 :: u64

fun absorb :: "u64 list \<Rightarrow> u64 \<Rightarrow> u64" where
  "absorb [] absorbed = absorbed"
| "absorb (word # key) absorbed = absorb key (snd (splitmix64 (absorbed XOR word)))"

definition from_key :: "u64 list \<Rightarrow> rng" where
  "from_key key =
     (let absorbed = absorb key (of_nat (length key));
          (absorbed, w0) = splitmix64 absorbed;
          (absorbed, w1) = splitmix64 absorbed;
          (absorbed, w2) = splitmix64 absorbed;
          (absorbed, w3) = splitmix64 absorbed
      in if w0 = 0 \<and> w1 = 0 \<and> w2 = 0 \<and> w3 = 0
         then \<lparr>s0 = 1, s1 = w1, s2 = w2, s3 = w3\<rparr>
         else \<lparr>s0 = w0, s1 = w1, s2 = w2, s3 = w3\<rparr>)"

definition next_u64 :: "rng \<Rightarrow> rng \<times> u64" where
  "next_u64 g =
     (let out = word_rotl 23 (s0 g + s3 g) + s0 g;
          t = push_bit 17 (s1 g);
          g = g\<lparr>s2 := s2 g XOR s0 g\<rparr>;
          g = g\<lparr>s3 := s3 g XOR s1 g\<rparr>;
          g = g\<lparr>s1 := s1 g XOR s2 g\<rparr>;
          g = g\<lparr>s0 := s0 g XOR s3 g\<rparr>;
          g = g\<lparr>s2 := s2 g XOR t\<rparr>;
          g = g\<lparr>s3 := word_rotl 45 (s3 g)\<rparr>
      in (g, out))"

definition uniform :: "rng \<Rightarrow> rng \<times> real" where
  "uniform g =
     (let (g, w) = next_u64 g in (g, of_nat (unat (drop_bit 11 w)) * (1 / of_nat (unat (push_bit 53 (1 :: u64))))))"

section \<open>The finalizer is a bijection\<close>

lemma xor_shift_inj:
  fixes x y :: "'a::len word"
  assumes "0 < k" "x XOR drop_bit k x = y XOR drop_bit k y"
  shows "x = y"
proof (rule bit_word_eqI)
  fix n assume "n < LENGTH('a)"
  have "bit x n = bit y n" for n
  proof (induction "LENGTH('a) - n" arbitrary: n rule: less_induct)
    case less
    show ?case
    proof (cases "n < LENGTH('a)")
      case True
      with \<open>0 < k\<close> have "bit x (n + k) = bit y (n + k)" by (intro less) simp
      moreover have "bit (x XOR drop_bit k x) n = bit (y XOR drop_bit k y) n"
        by (simp add: assms(2))
      ultimately show ?thesis by (auto simp: bit_xor_iff bit_drop_bit_eq add.commute)
    next
      case False
      then show ?thesis using bit_imp_le_length by (metis not_less)
    qed
  qed
  then show "bit x n = bit y n" .
qed

lemma mult_unit_inj:
  fixes a b u v :: u64
  assumes "a * u = b * u" "u * v = 1"
  shows "a = b"
proof -
  have "a * u * v = b * u * v" by (simp only: assms(1))
  then show ?thesis by (simp only: mult.assoc assms(2) mult_1_right)
qed

lemma inj_mix64: "inj mix64"
proof (rule injI)
  fix x y assume eq: "mix64 x = mix64 y"
  define f g where "f z = (z XOR drop_bit 30 z) * (0xBF58476D1CE4E5B9 :: u64)"
    and "g z = (z XOR drop_bit 27 z) * (0x94D049BB133111EB :: u64)" for z
  have "g (f x) XOR drop_bit 31 (g (f x)) = g (f y) XOR drop_bit 31 (g (f y))"
    using eq by (simp add: mix64_def f_def g_def Let_def)
  then have "g (f x) = g (f y)" by (rule xor_shift_inj [rotated]) simp
  then have "f x XOR drop_bit 27 (f x) = f y XOR drop_bit 27 (f y)"
    unfolding g_def by (rule mult_unit_inj [where v = 3573116690164977347]) simp
  then have "f x = f y" by (rule xor_shift_inj [rotated]) simp
  then have "x XOR drop_bit 30 x = y XOR drop_bit 30 y"
    unfolding f_def by (rule mult_unit_inj [where v = 10871156337175269513]) simp
  then show "x = y" by (rule xor_shift_inj [rotated]) simp
qed

text \<open>
  \<open>mix64\<close>, the splitmix64 finalizer that keys every random stream and draws the hash rows, is a
  bijection on \<open>u64\<close>: no two states are conflated.
\<close>

lemma mix64_bijective: "bij mix64"
  using finite_UNIV_inj_surj [OF finite inj_mix64] inj_mix64 by (simp add: bij_def)

section \<open>The stream state is never zero\<close>

definition rng_live :: "rng \<Rightarrow> bool" where
  "rng_live g \<longleftrightarrow> \<not> (s0 g = 0 \<and> s1 g = 0 \<and> s2 g = 0 \<and> s3 g = 0)"

lemma from_key_live: "rng_live (from_key key)"
  by (simp add: from_key_def rng_live_def Let_def case_prod_unfold)

lemma rotl_eq_0: "word_rotl n w = 0 \<longleftrightarrow> w = (0 :: 'a::len word)"
  by (metis word_rot_lr word_rotx_0)

lemma eq_push_bit_imp_0:
  fixes w :: "'a::len word"
  assumes "w = push_bit k w" "0 < k"
  shows "w = 0"
proof (rule bit_word_eqI)
  fix n assume "n < LENGTH('a)"
  have "\<not> bit w n"
  proof (induction n rule: less_induct)
    case (less n)
    have "bit w n = bit (push_bit k w) n" using assms(1) by simp
    with less show ?case using assms(2) by (auto simp: bit_push_bit_iff)
  qed
  then show "bit w n = bit 0 n" by simp
qed

lemma next_u64_live:
  assumes "rng_live g"
  shows "rng_live (fst (next_u64 g))"
proof (rule ccontr)
  assume "\<not> ?thesis"
  then have z: "s0 g XOR (s3 g XOR s1 g) = 0" "s1 g XOR (s2 g XOR s0 g) = 0"
      "(s2 g XOR s0 g) XOR push_bit 17 (s1 g) = 0" "s3 g XOR s1 g = 0"
    by (auto simp: rng_live_def next_u64_def Let_def rotl_eq_0)
  have 0: "s0 g = 0" using z(1) by (simp only: z(4) xor.right_neutral)
  have 2: "s2 g = s1 g" using z(2) by (simp add: 0 word_xor_eq_0_iff)
  have "s1 g = push_bit 17 (s1 g)" using z(3) by (simp add: 0 2 word_xor_eq_0_iff)
  then have 1: "s1 g = 0" by (rule eq_push_bit_imp_0) simp
  have "s3 g = 0" using z(4) by (simp add: 1)
  with 0 1 2 assms show False by (simp add: rng_live_def)
qed

end
