(* ===== verification/Linear_Index.thy ===== *)
theory Linear_Index
  imports Pauli_Prelude
begin

unbundle bit_operations_syntax

text \<open>
  The interface between the hashes and the engine: an index of keys that is linear over GF(2). A
  channel moves a key by an XOR delta, so it moves the key's index by the delta's index, whatever
  the key: the source predicts the output buckets of a layer and the partitions it must send to
  from the deltas alone. The bucket hash and the partition rows of \<open>pauli_sum/hash.rs\<close> both
  implement it.
\<close>

locale linear_index =
  fixes W :: nat
    and index :: "key \<Rightarrow> u32"
  assumes index_xor: "wf_key W k \<Longrightarrow> wf_key W d \<Longrightarrow> index (xor_key k d) = index k XOR index d"
begin

lemma index_zero: "index (replicate W 0, replicate W 0) = 0"
proof -
  let ?z = "(replicate W 0, replicate W 0) :: key"
  have "xor_key ?z ?z = ?z"
    by (simp add: xor_key_def xor_words_zero_right)
  with index_xor [of ?z ?z] show ?thesis
    by (simp add: wf_key_def)
qed

text \<open>A delta that the index does not see keeps every key in its bucket, and only such a delta does.\<close>

lemma index_kept_iff:
  assumes "wf_key W k" "wf_key W d"
  shows "index (xor_key k d) = index k \<longleftrightarrow> index d = 0"
  by (simp add: index_xor [OF assms] word_xor_eq_left_iff)

text \<open>The index of a key under a sequence of deltas depends on the deltas' indices alone.\<close>

lemma index_fold:
  assumes "wf_key W k" "\<forall>d \<in> set ds. wf_key W d"
  shows "index (fold (\<lambda>d k. xor_key k d) ds k) = fold (\<lambda>d b. b XOR index d) ds (index k)"
  using assms by (induction ds arbitrary: k) (simp_all add: index_xor)

text \<open>Two keys related by a delta exchange their indices under it: the relation is symmetric.\<close>

lemma index_partner:
  assumes "wf_key W k" "wf_key W d"
  shows "index (xor_key k d) = b \<longleftrightarrow> index k = b XOR index d"
  by (simp add: index_xor [OF assms] word_xor_eq_iff)

end

end
