(* ===== verification/Gf2_Hash.thy ===== *)
theory Gf2_Hash
  imports Pauli_Matrix Rng Linear_Index
begin

unbundle bit_operations_syntax

text \<open>
  \<open>pauli_sum/hash.rs\<close>: the GF(2) matrices over the key coordinates, the incremental row-echelon basis,
  the bucket hash \<open>Gf2Hash\<close> with its active prefix of rows, and \<open>PartitionRows\<close>. The lemmas show that
  both hashes are linear in the key, that refining and coarsening move a term between the predicted
  buckets, and that the basis decides linear independence.
\<close>

section \<open>Constants\<close>

definition INDEX_BITS :: nat where
  "INDEX_BITS = 31"

definition max_hash_bits :: "nat \<Rightarrow> nat" where
  "max_hash_bits num_qubits = min (2 * num_qubits) INDEX_BITS"

definition PARTITION_ROW_SALT :: u64 where
  "PARTITION_ROW_SALT = 0xD1B54A32D192ED03"

definition REDRAW_ATTEMPTS :: nat where
  "REDRAW_ATTEMPTS = 2 ^ 12"

definition row_word :: "u64 \<Rightarrow> nat \<Rightarrow> nat \<Rightarrow> nat \<Rightarrow> u64 \<Rightarrow> u64" where
  "row_word seed row attempt w half =
     (let position = push_bit 32 (of_nat attempt) OR push_bit 16 (of_nat row)
                       OR push_bit 1 (of_nat w) OR half
      in mix64 (seed + SPLITMIX_GAMMA * (position + 1)))"

section \<open>The row-echelon basis\<close>

text \<open>\<open>leading_zeros\<close> of a word.\<close>

definition leading_zeros :: "'a::len word \<Rightarrow> nat" where
  "leading_zeros w = length (takeWhile (\<lambda>n. \<not> bit w n) (rev [0..<LENGTH('a)]))"

text \<open>The scan \<open>for w in (0..W).rev()\<close> over one half of a row: the highest nonzero word.\<close>

fun leading_in :: "words \<Rightarrow> nat \<Rightarrow> nat option" where
  "leading_in half 0 = None"
| "leading_in half (Suc w) =
     (if half ! w \<noteq> 0 then Some (w * 64 + (63 - leading_zeros (half ! w)))
      else leading_in half w)"

definition leading_column :: "nat \<Rightarrow> key \<Rightarrow> nat option" where
  "leading_column W row =
     (case leading_in (snd row) W of
        Some c \<Rightarrow> Some (W * 64 + c)
      | None \<Rightarrow> leading_in (fst row) W)"

type_synonym gf2_basis = "(nat \<times> key) list"

text \<open>
  The \<open>while let\<close> of \<open>Gf2Basis::insert\<close>: clear the leading column with the pivot that has it until
  none does. Each round lowers the leading column of a \<open>128 W\<close>-column row, so \<open>128 W + 1\<close> rounds are
  enough (\<open>gf2_reduce_total\<close>).
\<close>

fun gf2_reduce :: "nat \<Rightarrow> nat \<Rightarrow> gf2_basis \<Rightarrow> key \<Rightarrow> key option" where
  "gf2_reduce 0 W pivots reduced = None"
| "gf2_reduce (Suc fuel) W pivots reduced =
     (case leading_column W reduced of
        None \<Rightarrow> Some reduced
      | Some lead \<Rightarrow>
          (case find (\<lambda>(column, _). column = lead) pivots of
             Some (_, pivot) \<Rightarrow> gf2_reduce fuel W pivots (xor_key reduced pivot)
           | None \<Rightarrow> Some reduced))"

definition basis_insert :: "nat \<Rightarrow> gf2_basis \<Rightarrow> key \<Rightarrow> gf2_basis \<times> bool" where
  "basis_insert W pivots row =
     (case gf2_reduce (Suc (128 * W)) W pivots row of
        None \<Rightarrow> (pivots, False)
      | Some reduced \<Rightarrow>
          (case leading_column W reduced of
             None \<Rightarrow> (pivots, False)
           | Some lead \<Rightarrow> (pivots @ [(lead, reduced)], True)))"

definition gf2_rank_wide :: "nat \<Rightarrow> key list \<Rightarrow> nat" where
  "gf2_rank_wide W rows = length (fold (\<lambda>row basis. fst (basis_insert W basis row)) rows [])"

section \<open>The matrix\<close>

record gf2_matrix =
  rows_x :: "words list"
  rows_z :: "words list"
  gm_qubits :: nat

text \<open>\<open>row[w] &= word_mask(num_qubits, w)\<close> for every word.\<close>

definition mask_words :: "nat \<Rightarrow> words \<Rightarrow> words" where
  "mask_words num_qubits row =
     map (\<lambda>(w, word). word AND word_mask num_qubits w) (zip [0..<length row] row)"

definition matrix_from_rows :: "nat \<Rightarrow> words list \<Rightarrow> words list \<Rightarrow> gf2_matrix result" where
  "matrix_from_rows num_qubits rx rz =
     and_then (assert_that (length rx = length rz) RowCountMismatch)
       (\<lambda>_. Inr \<lparr>rows_x = map (mask_words num_qubits) rx, rows_z = map (mask_words num_qubits) rz,
                 gm_qubits = num_qubits\<rparr>)"

definition num_rows :: "gf2_matrix \<Rightarrow> nat" where
  "num_rows m = length (rows_x m)"

definition matrix_row :: "gf2_matrix \<Rightarrow> nat \<Rightarrow> key" where
  "matrix_row m i = (rows_x m ! i, rows_z m ! i)"

definition matrix_rank :: "nat \<Rightarrow> gf2_matrix \<Rightarrow> nat \<Rightarrow> nat" where
  "matrix_rank W m rows = gf2_rank_wide W (map (matrix_row m) [0..<rows])"

fun parity_fold :: "words \<Rightarrow> words \<Rightarrow> words \<Rightarrow> words \<Rightarrow> u64 \<Rightarrow> u64" where
  "parity_fold (x # xs) (z # zs) (rx # rxs) (rz # rzs) folded =
     parity_fold xs zs rxs rzs (folded XOR ((x AND rx) XOR (z AND rz)))"
| "parity_fold _ _ _ _ folded = folded"

definition row_parity :: "gf2_matrix \<Rightarrow> key \<Rightarrow> nat \<Rightarrow> u32" where
  "row_parity m k row =
     of_nat (count_ones (parity_fold (fst k) (snd k) (rows_x m ! row) (rows_z m ! row) 0)) AND 1"

definition matrix_apply :: "gf2_matrix \<Rightarrow> key \<Rightarrow> nat \<Rightarrow> u32" where
  "matrix_apply m k rows = fold (\<lambda>i index. index OR push_bit i (row_parity m k i)) [0..<rows] 0"

definition independent_with :: "nat \<Rightarrow> gf2_matrix \<Rightarrow> nat \<Rightarrow> gf2_matrix \<Rightarrow> nat \<Rightarrow> bool" where
  "independent_with W m rows other other_rows \<longleftrightarrow>
     gf2_rank_wide W (map (matrix_row m) [0..<rows] @ map (matrix_row other) [0..<other_rows])
       = rows + other_rows"

text \<open>
  The inner \<open>loop\<close> of \<open>accept_rows\<close>; \<open>remaining\<close> counts the attempts left, so that attempt
  \<open>REDRAW_ATTEMPTS\<close> (none left) takes the candidate as it is.
\<close>

fun draw_row ::
    "nat \<Rightarrow> (nat \<Rightarrow> nat \<Rightarrow> key) \<Rightarrow> nat \<Rightarrow> nat \<Rightarrow> gf2_basis \<Rightarrow> nat \<Rightarrow> key \<times> gf2_basis" where
  "draw_row W candidate n_indep row basis remaining =
     (let attempt = REDRAW_ATTEMPTS - remaining;
          k = candidate row attempt;
          (basis', accepted) =
            (if length basis < n_indep then basis_insert W basis k
             else (basis, k \<noteq> (replicate W 0, replicate W 0)))
      in if accepted \<or> remaining = 0 then (k, basis')
         else draw_row W candidate n_indep row basis' (remaining - 1))"

declare draw_row.simps [simp del]

fun accept_loop ::
    "nat \<Rightarrow> (nat \<Rightarrow> nat \<Rightarrow> key) \<Rightarrow> nat \<Rightarrow> nat list \<Rightarrow> gf2_basis \<Rightarrow> key list" where
  "accept_loop W candidate n_indep [] basis = []"
| "accept_loop W candidate n_indep (row # rows) basis =
     (let (k, basis') = draw_row W candidate n_indep row basis REDRAW_ATTEMPTS
      in k # accept_loop W candidate n_indep rows basis')"

definition accept_rows ::
    "nat \<Rightarrow> nat \<Rightarrow> nat \<Rightarrow> nat \<Rightarrow> gf2_basis \<Rightarrow> nat \<Rightarrow> (nat \<Rightarrow> nat \<Rightarrow> key) \<Rightarrow> gf2_matrix result" where
  "accept_rows W num_qubits n_rows n_indep basis first candidate =
     (let keys = accept_loop W candidate n_indep [first..<n_rows] basis
      in matrix_from_rows num_qubits (replicate first (replicate W 0) @ map fst keys)
           (replicate first (replicate W 0) @ map snd keys))"

text \<open>\<open>Gf2Matrix::draw\<close>: the number of readable coordinates, then rows masked to them.\<close>

definition readable_coordinates :: "nat \<Rightarrow> nat \<Rightarrow> words \<Rightarrow> words \<Rightarrow> nat" where
  "readable_coordinates W num_qubits exclude_x exclude_z =
     sum_list (map (\<lambda>w. count_ones (word_mask num_qubits w AND NOT (exclude_x ! w))
                        + count_ones (word_mask num_qubits w AND NOT (exclude_z ! w))) [0..<W])"

definition draw_candidate ::
    "nat \<Rightarrow> nat \<Rightarrow> u64 \<Rightarrow> words \<Rightarrow> words \<Rightarrow> nat \<Rightarrow> nat \<Rightarrow> key" where
  "draw_candidate W num_qubits seed exclude_x exclude_z row attempt =
     (map (\<lambda>w. row_word seed row attempt w 0 AND word_mask num_qubits w AND NOT (exclude_x ! w)) [0..<W],
      map (\<lambda>w. row_word seed row attempt w 1 AND word_mask num_qubits w AND NOT (exclude_z ! w)) [0..<W])"

definition matrix_draw ::
    "nat \<Rightarrow> nat \<Rightarrow> nat \<Rightarrow> u64 \<Rightarrow> words \<Rightarrow> words \<Rightarrow> gf2_matrix result" where
  "matrix_draw W num_qubits n_rows seed exclude_x exclude_z =
     (let readable = readable_coordinates W num_qubits exclude_x exclude_z
      in if readable = 0
         then matrix_from_rows num_qubits (replicate n_rows (replicate W 0))
                (replicate n_rows (replicate W 0))
         else accept_rows W num_qubits n_rows (min n_rows readable) [] 0
                (draw_candidate W num_qubits seed exclude_x exclude_z))"

definition complete_candidate :: "nat \<Rightarrow> nat \<Rightarrow> u64 \<Rightarrow> nat \<Rightarrow> nat \<Rightarrow> key" where
  "complete_candidate W num_qubits seed row attempt =
     (map (\<lambda>w. row_word seed row attempt w 0 AND word_mask num_qubits w) [0..<W],
      map (\<lambda>w. row_word seed row attempt w 1 AND word_mask num_qubits w) [0..<W])"

definition matrix_complete :: "nat \<Rightarrow> nat \<Rightarrow> nat \<Rightarrow> u64 \<Rightarrow> key list \<Rightarrow> gf2_matrix result" where
  "matrix_complete W num_qubits n_rows seed given =
     (let first = length given
      in and_then (matrix_from_rows num_qubits (map fst given) (map snd given)) (\<lambda>m.
           if first < n_rows
           then (let basis = fold (\<lambda>i basis. fst (basis_insert W basis (matrix_row m i)))
                               [0..<first] [];
                     n_indep = min n_rows (2 * num_qubits)
                 in and_then (accept_rows W num_qubits n_rows n_indep basis first
                                (complete_candidate W num_qubits seed)) (\<lambda>tail.
                      matrix_from_rows num_qubits (rows_x m @ drop first (rows_x tail))
                        (rows_z m @ drop first (rows_z tail))))
           else matrix_from_rows num_qubits (rows_x m) (rows_z m)))"

section \<open>The bucket hash\<close>

record gf2_hash =
  gh_matrix :: gf2_matrix
  gh_bits :: nat
  gh_seed :: u64

definition hash_from_rows ::
    "nat \<Rightarrow> nat \<Rightarrow> nat \<Rightarrow> u64 \<Rightarrow> words list \<Rightarrow> words list \<Rightarrow> gf2_hash result" where
  "hash_from_rows W num_qubits bits seed rx rz =
     (let max_bits = max_hash_bits num_qubits
      in and_then (assert_that (bits \<le> max_bits) TooManyBits) (\<lambda>_.
         and_then (assert_that (length rx = length rz) RowCountMismatch) (\<lambda>_.
         and_then (assert_that (length rx \<le> max_bits) TooManyRows) (\<lambda>_.
         and_then (matrix_complete W num_qubits max_bits seed (zip rx rz)) (\<lambda>m.
           Inr \<lparr>gh_matrix = m, gh_bits = bits, gh_seed = seed\<rparr>)))))"

definition hash_new :: "nat \<Rightarrow> nat \<Rightarrow> nat \<Rightarrow> u64 \<Rightarrow> gf2_hash result" where
  "hash_new W num_qubits bits seed = hash_from_rows W num_qubits bits seed [] []"

text \<open>
  \<open>key_rows_from_matrix\<close>: column \<open>c < num_qubits\<close> of a flag row is the x-bit of qubit \<open>c\<close>, column
  \<open>num_qubits + c\<close> its z-bit.
\<close>

definition set_flag :: "nat \<Rightarrow> nat \<Rightarrow> key \<Rightarrow> key" where
  "set_flag num_qubits c k =
     (if c < num_qubits
      then ((fst k)[c div 64 := fst k ! (c div 64) OR qubit_bit c], snd k)
      else (let q = c - num_qubits
            in (fst k, (snd k)[q div 64 := snd k ! (q div 64) OR qubit_bit q])))"

fun key_rows_from_matrix :: "nat \<Rightarrow> nat \<Rightarrow> bool list list \<Rightarrow> key list result" where
  "key_rows_from_matrix W num_qubits [] = Inr []"
| "key_rows_from_matrix W num_qubits (flags # rows) =
     and_then (assert_that (length flags = 2 * num_qubits) RowWidth) (\<lambda>_.
     and_then (key_rows_from_matrix W num_qubits rows) (\<lambda>ks.
       Inr (fold (set_flag num_qubits) (filter (\<lambda>c. flags ! c) [0..<length flags])
              (replicate W 0, replicate W 0) # ks)))"

definition hash_from_matrix ::
    "nat \<Rightarrow> nat \<Rightarrow> nat \<Rightarrow> u64 \<Rightarrow> bool list list \<Rightarrow> gf2_hash result" where
  "hash_from_matrix W num_qubits bits seed rows =
     and_then (key_rows_from_matrix W num_qubits rows) (\<lambda>ks.
       hash_from_rows W num_qubits bits seed (map fst ks) (map snd ks))"

definition hash_max_bits :: "gf2_hash \<Rightarrow> nat" where
  "hash_max_bits h = num_rows (gh_matrix h)"

definition hash_num_buckets :: "gf2_hash \<Rightarrow> nat" where
  "hash_num_buckets h = 2 ^ gh_bits h"

definition hash_num_qubits :: "gf2_hash \<Rightarrow> nat" where
  "hash_num_qubits h = gm_qubits (gh_matrix h)"

definition hash_independent_rows :: "nat \<Rightarrow> gf2_hash \<Rightarrow> nat" where
  "hash_independent_rows W h = matrix_rank W (gh_matrix h) (num_rows (gh_matrix h))"

text \<open>The numbers of the message, \<open>(rows, rank)\<close>.\<close>

definition hash_rank_deficiency :: "nat \<Rightarrow> gf2_hash \<Rightarrow> (nat \<times> nat) option" where
  "hash_rank_deficiency W h =
     (let rows = num_rows (gh_matrix h); rank = hash_independent_rows W h
      in if rank < rows then Some (rows, rank) else None)"

definition bucket_of :: "gf2_hash \<Rightarrow> key \<Rightarrow> u32" where
  "bucket_of h k = matrix_apply (gh_matrix h) k (gh_bits h)"

definition hash_row_parity :: "gf2_hash \<Rightarrow> key \<Rightarrow> nat \<Rightarrow> u32" where
  "hash_row_parity h k row = row_parity (gh_matrix h) k row"

definition hash_refine :: "gf2_hash \<Rightarrow> gf2_hash result" where
  "hash_refine h =
     and_then (assert_that (gh_bits h < hash_max_bits h) AtMaxBits)
       (\<lambda>_. Inr (h\<lparr>gh_bits := gh_bits h + 1\<rparr>))"

definition hash_coarsen :: "gf2_hash \<Rightarrow> gf2_hash result" where
  "hash_coarsen h =
     and_then (assert_that (gh_bits h > 0) AtSingleBucket)
       (\<lambda>_. Inr (h\<lparr>gh_bits := gh_bits h - 1\<rparr>))"

definition same_rows_as :: "gf2_hash \<Rightarrow> gf2_hash \<Rightarrow> bool" where
  "same_rows_as h g \<longleftrightarrow> gh_matrix h = gh_matrix g"

section \<open>Partition rows\<close>

record partition_rows =
  pr_matrix :: gf2_matrix

definition assert_bits :: "nat \<Rightarrow> nat \<Rightarrow> unit result" where
  "assert_bits num_qubits bits = assert_that (bits \<le> max_hash_bits num_qubits) TooManyRows"

definition pr_bits :: "partition_rows \<Rightarrow> nat" where
  "pr_bits p = num_rows (pr_matrix p)"

definition num_partitions :: "partition_rows \<Rightarrow> nat" where
  "num_partitions p = 2 ^ pr_bits p"

definition pr_num_qubits :: "partition_rows \<Rightarrow> nat" where
  "pr_num_qubits p = gm_qubits (pr_matrix p)"

definition assert_splits :: "partition_rows \<Rightarrow> nat \<Rightarrow> nat \<Rightarrow> unit result" where
  "assert_splits p num_qubits partitions =
     and_then (assert_that (num_partitions p = partitions) BucketCountMismatch) (\<lambda>_.
       assert_that (pr_num_qubits p = num_qubits) NumQubitsMismatch)"

definition partition_from_seed_excluding ::
    "nat \<Rightarrow> nat \<Rightarrow> nat \<Rightarrow> u64 \<Rightarrow> words \<Rightarrow> words \<Rightarrow> partition_rows result" where
  "partition_from_seed_excluding W num_qubits bits seed exclude_x exclude_z =
     and_then (assert_bits num_qubits bits) (\<lambda>_.
       let seed = mix64 seed XOR PARTITION_ROW_SALT
       in and_then (matrix_draw W num_qubits bits seed exclude_x exclude_z)
            (\<lambda>m. Inr \<lparr>pr_matrix = m\<rparr>))"

definition partition_from_seed :: "nat \<Rightarrow> nat \<Rightarrow> nat \<Rightarrow> u64 \<Rightarrow> partition_rows result" where
  "partition_from_seed W num_qubits bits seed =
     partition_from_seed_excluding W num_qubits bits seed (replicate W 0) (replicate W 0)"

definition partition_from_rows :: "nat \<Rightarrow> words list \<Rightarrow> words list \<Rightarrow> partition_rows result" where
  "partition_from_rows num_qubits rx rz =
     and_then (assert_that (length rx = length rz) RowCountMismatch) (\<lambda>_.
     and_then (assert_bits num_qubits (length rx)) (\<lambda>_.
     and_then (matrix_from_rows num_qubits rx rz) (\<lambda>m. Inr \<lparr>pr_matrix = m\<rparr>)))"

definition partition_from_matrix :: "nat \<Rightarrow> nat \<Rightarrow> bool list list \<Rightarrow> partition_rows result" where
  "partition_from_matrix W num_qubits rows =
     and_then (key_rows_from_matrix W num_qubits rows) (\<lambda>ks.
       partition_from_rows num_qubits (map fst ks) (map snd ks))"

text \<open>
  \<open>PartitionRows::cut\<close>: \<open>cut_qubit\<close> is the body of the inner loop on qubit \<open>q\<close> of block \<open>b\<close>, with
  the \<open>seen\<close> flags and the z-rows as its state.
\<close>

definition cut_qubit ::
    "nat \<Rightarrow> nat \<Rightarrow> nat \<Rightarrow> bool list \<times> words list \<Rightarrow> (bool list \<times> words list) result" where
  "cut_qubit num_qubits b q st =
     (case st of (seen, rz) \<Rightarrow>
        and_then (assert_that (q < num_qubits) QubitOutOfRange) (\<lambda>_.
        and_then (assert_that (\<not> seen ! q) QubitTwice) (\<lambda>_.
          Inr (seen[q := True],
               map (\<lambda>(i, row). if odd (b div 2 ^ i)
                                then row[q div 64 := row ! (q div 64) OR qubit_bit q] else row)
                 (zip [0..<length rz] rz)))))"

fun cut_block ::
    "nat \<Rightarrow> nat \<Rightarrow> nat list \<Rightarrow> bool list \<times> words list \<Rightarrow> (bool list \<times> words list) result" where
  "cut_block num_qubits b [] st = Inr st"
| "cut_block num_qubits b (q # qs) st =
     and_then (cut_qubit num_qubits b q st) (cut_block num_qubits b qs)"

fun cut_blocks ::
    "nat \<Rightarrow> nat \<Rightarrow> nat list list \<Rightarrow> bool list \<times> words list \<Rightarrow> (bool list \<times> words list) result" where
  "cut_blocks num_qubits b [] st = Inr st"
| "cut_blocks num_qubits b (block # blocks) st =
     and_then (cut_block num_qubits b block st) (cut_blocks num_qubits (Suc b) blocks)"

text \<open>\<open>is_power_of_two\<close> and, for a power of two, its \<open>trailing_zeros\<close>.\<close>

definition power_of_two_log :: "nat \<Rightarrow> nat option" where
  "power_of_two_log n = find (\<lambda>e. 2 ^ e = n) [0..<64]"

definition partition_cut :: "nat \<Rightarrow> nat \<Rightarrow> nat list list \<Rightarrow> partition_rows result" where
  "partition_cut W num_qubits blocks =
     (case power_of_two_log (length blocks) of
        None \<Rightarrow> Inl NotPowerOfTwo
      | Some bits \<Rightarrow>
          and_then (assert_bits num_qubits bits) (\<lambda>_.
          and_then (cut_blocks num_qubits 0 blocks
              (replicate num_qubits False, replicate bits (replicate W 0))) (\<lambda>(seen, rz).
          and_then (assert_that (\<forall>row \<in> set rz. \<exists>w \<in> set row. w \<noteq> 0) EmptyRow) (\<lambda>_.
            partition_from_rows num_qubits (replicate bits (replicate W 0)) rz))))"

definition partition_none :: "nat \<Rightarrow> partition_rows" where
  "partition_none num_qubits =
     \<lparr>pr_matrix = \<lparr>rows_x = [], rows_z = [], gm_qubits = num_qubits\<rparr>\<rparr>"

definition partition_of :: "partition_rows \<Rightarrow> key \<Rightarrow> u32" where
  "partition_of p k = matrix_apply (pr_matrix p) k (num_rows (pr_matrix p))"

definition partition_independent_rows :: "nat \<Rightarrow> partition_rows \<Rightarrow> nat" where
  "partition_independent_rows W p = matrix_rank W (pr_matrix p) (num_rows (pr_matrix p))"

definition partition_rank_deficiency :: "nat \<Rightarrow> partition_rows \<Rightarrow> (nat \<times> nat) option" where
  "partition_rank_deficiency W p =
     (let bits = num_rows (pr_matrix p); rank = partition_independent_rows W p
      in if rank < bits then Some (bits, rank) else None)"

text \<open>The scan of \<open>overlap_onset\<close> over the hash rows, with the joint and the lone basis.\<close>

fun overlap_scan ::
    "nat \<Rightarrow> nat \<Rightarrow> gf2_hash \<Rightarrow> nat list \<Rightarrow> gf2_basis \<Rightarrow> gf2_basis \<Rightarrow> nat option" where
  "overlap_scan W coordinates h [] joint alone = None"
| "overlap_scan W coordinates h (i # is) joint alone =
     (if length joint = coordinates then None
      else let row = matrix_row (gh_matrix h) i;
               (alone', fresh) = basis_insert W alone row
           in if fresh
              then (let (joint', grew) = basis_insert W joint row
                    in if \<not> grew then Some (i + 1) else overlap_scan W coordinates h is joint' alone')
              else overlap_scan W coordinates h is joint alone')"

definition overlap_onset :: "nat \<Rightarrow> partition_rows \<Rightarrow> gf2_hash \<Rightarrow> nat option" where
  "overlap_onset W p h =
     overlap_scan W (2 * pr_num_qubits p) h [0..<num_rows (gh_matrix h)]
       (fold (\<lambda>i basis. fst (basis_insert W basis (matrix_row (pr_matrix p) i)))
          [0..<num_rows (pr_matrix p)] []) []"

definition avoids :: "partition_rows \<Rightarrow> words \<Rightarrow> words \<Rightarrow> bool" where
  "avoids p mask_x mask_z \<longleftrightarrow>
     list_all (\<lambda>(row_x, row_z).
         list_all (\<lambda>(r, m). r AND m = 0) (zip row_x mask_x) \<and>
         list_all (\<lambda>(r, m). r AND m = 0) (zip row_z mask_z))
       (zip (rows_x (pr_matrix p)) (rows_z (pr_matrix p)))"

definition is_independent_of :: "nat \<Rightarrow> partition_rows \<Rightarrow> gf2_hash \<Rightarrow> bool" where
  "is_independent_of W p h \<longleftrightarrow>
     independent_with W (pr_matrix p) (num_rows (pr_matrix p)) (gh_matrix h) (gh_bits h)"

section \<open>Linearity\<close>

definition wf_matrix :: "nat \<Rightarrow> gf2_matrix \<Rightarrow> bool" where
  "wf_matrix W m \<longleftrightarrow> length (rows_z m) = length (rows_x m) \<and>
     (\<forall>row \<in> set (rows_x m) \<union> set (rows_z m). length row = W)"

definition wf_hash :: "nat \<Rightarrow> gf2_hash \<Rightarrow> bool" where
  "wf_hash W h \<longleftrightarrow> wf_matrix W (gh_matrix h) \<and> num_rows (gh_matrix h) \<le> INDEX_BITS \<and>
     gh_bits h \<le> num_rows (gh_matrix h)"

definition wf_partition :: "nat \<Rightarrow> partition_rows \<Rightarrow> bool" where
  "wf_partition W p \<longleftrightarrow> wf_matrix W (pr_matrix p) \<and> num_rows (pr_matrix p) \<le> INDEX_BITS"

definition row_odd :: "gf2_matrix \<Rightarrow> key \<Rightarrow> nat \<Rightarrow> bool" where
  "row_odd m k i \<longleftrightarrow> odd (count_ones (parity_fold (fst k) (snd k) (rows_x m ! i) (rows_z m ! i) 0))"

lemma parity_fold_acc: "parity_fold xs zs rxs rzs w = w XOR parity_fold xs zs rxs rzs 0"
proof (induction xs arbitrary: zs rxs rzs w)
  case (Cons x xs)
  show ?case
  proof (cases "zs = [] \<or> rxs = [] \<or> rzs = []")
    case False
    then obtain z zs' rx rxs' rz rzs' where "zs = z # zs'" "rxs = rx # rxs'" "rzs = rz # rzs'"
      by (metis list.exhaust)
    then show ?thesis
      using Cons [of zs' rxs' rzs' "w XOR ((x AND rx) XOR (z AND rz))"]
        Cons [of zs' rxs' rzs' "(x AND rx) XOR (z AND rz)"]
      by (simp add: ac_simps)
  qed (cases zs; cases rxs; cases rzs; simp)
qed simp

lemma parity_fold_xor:
  assumes "length xs' = length xs" "length zs' = length zs"
  shows "parity_fold (xor_words xs xs') (xor_words zs zs') rxs rzs 0 =
    parity_fold xs zs rxs rzs 0 XOR parity_fold xs' zs' rxs rzs 0"
  using assms
proof (induction xs arbitrary: xs' zs zs' rxs rzs)
  case (Cons x xs)
  obtain x' xs'' where x: "xs' = x' # xs''" using Cons.prems by (cases xs') auto
  show ?case
  proof (cases "zs = [] \<or> rxs = [] \<or> rzs = []")
    case False
    then obtain z zt rx rxs' rz rzs' where zs: "zs = z # zt" "rxs = rx # rxs'" "rzs = rz # rzs'"
      by (metis list.exhaust)
    obtain z' zt' where z: "zs' = z' # zt'" using Cons.prems zs by (cases zs') auto
    have IH: "parity_fold (xor_words xs xs'') (xor_words zt zt') rxs' rzs' 0 =
        parity_fold xs zt rxs' rzs' 0 XOR parity_fold xs'' zt' rxs' rzs' 0"
      using Cons x z zs by simp
    show ?thesis
      unfolding x z zs xor_words_simps parity_fold.simps
      by (subst (1 2 3) parity_fold_acc) (simp add: IH bit.conj_xor_distribs ac_simps)
  next
    case True
    then show ?thesis
      using Cons.prems x by (cases zs; cases zs'; cases rxs; cases rzs) auto
  qed
qed simp

lemma row_odd_xor:
  assumes "wf_key W k" "wf_key W l"
  shows "row_odd m (xor_key k l) i \<longleftrightarrow> row_odd m k i \<noteq> row_odd m l i"
  using assms
  by (simp add: row_odd_def xor_key_def wf_key_def parity_fold_xor odd_count_ones_xor)

lemma and_1_of_nat: "(of_nat n AND 1 :: 'a::len word) = of_bool (odd n)"
  by (rule bit_word_eqI) (auto simp: bit_and_iff bit_of_nat_iff bit_1_iff bit_0 intro!: gr0I)

lemma row_parity_eq: "row_parity m k i = of_bool (row_odd m k i)"
  by (simp only: row_parity_def row_odd_def and_1_of_nat)

lemma bit_push_of_bool: "bit (push_bit i (of_bool b) :: u32) n \<longleftrightarrow> n < 32 \<and> n = i \<and> b"
  by (cases b) (auto simp: push_bit_of_1 bit_exp_iff)

lemma bit_fold_or:
  "bit (fold (\<lambda>i index. index OR push_bit i (of_bool (P i))) xs (w :: u32)) n \<longleftrightarrow>
     bit w n \<or> n < 32 \<and> n \<in> set xs \<and> P n"
  by (induction xs arbitrary: w) (auto simp only: fold_simps(1) fold_Cons comp_apply bit_or_iff
      bit_push_of_bool list.set insert_iff)

lemma bit_matrix_apply:
  "bit (matrix_apply m k rows) i \<longleftrightarrow> i < 32 \<and> i < rows \<and> row_odd m k i"
  unfolding matrix_apply_def row_parity_eq bit_fold_or by auto

lemma matrix_apply_xor:
  assumes "wf_key W k" "wf_key W l"
  shows "matrix_apply m (xor_key k l) rows = matrix_apply m k rows XOR matrix_apply m l rows"
  by (rule bit_word_eqI) (auto simp: bit_matrix_apply bit_xor_iff row_odd_xor [OF assms])

lemma matrix_apply_prefix:
  "rows \<le> rows' \<Longrightarrow> matrix_apply m k rows = take_bit rows (matrix_apply m k rows')"
  by (rule bit_word_eqI) (auto simp: bit_matrix_apply bit_take_bit_iff)

lemma matrix_apply_bound:
  assumes "rows < 32"
  shows "unat (matrix_apply m k rows) < 2 ^ rows"
proof -
  have "matrix_apply m k rows = take_bit rows (matrix_apply m k rows)"
    by (rule matrix_apply_prefix) simp
  then have "unat (matrix_apply m k rows) = take_bit rows (unat (matrix_apply m k rows))"
    by (metis unsigned_take_bit_eq)
  then show ?thesis by (metis take_bit_nat_less_exp)
qed

lemma bucket_of_bound: "wf_hash W h \<Longrightarrow> unat (bucket_of h k) < hash_num_buckets h"
  by (simp add: wf_hash_def bucket_of_def hash_num_buckets_def INDEX_BITS_def matrix_apply_bound)

lemma partition_of_bound: "wf_partition W p \<Longrightarrow> unat (partition_of p k) < num_partitions p"
  by (simp add: wf_partition_def partition_of_def num_partitions_def pr_bits_def INDEX_BITS_def
      matrix_apply_bound)

lemma bucket_of_xor:
  assumes "wf_key W k" "wf_key W d"
  shows "bucket_of h (xor_key k d) = bucket_of h k XOR bucket_of h d"
  unfolding bucket_of_def by (rule matrix_apply_xor [OF assms])

lemma partition_of_xor:
  assumes "wf_key W k" "wf_key W d"
  shows "partition_of p (xor_key k d) = partition_of p k XOR partition_of p d"
  unfolding partition_of_def by (rule matrix_apply_xor [OF assms])

text \<open>Both hashes provide the linear index.\<close>

interpretation bucket: linear_index W "bucket_of h" for W h
  by unfold_locales (rule bucket_of_xor)

interpretation part: linear_index W "partition_of p" for W p
  by unfold_locales (rule partition_of_xor)

text \<open>
  C8. The bucket hash is linear over GF(2): a sequence of key deltas XORed into a key XORs the deltas'
  buckets into the key's bucket, whatever the key, which is what makes the output buckets of a
  channel predictable; the zero key is in bucket 0 and every bucket is in range.
\<close>

theorem bucket_of_linear:
  assumes "wf_hash W h" "wf_key W k" "\<forall>d \<in> set ds. wf_key W d"
  shows "bucket_of h (fold (\<lambda>d k. xor_key k d) ds k) =
      fold (\<lambda>d b. b XOR bucket_of h d) ds (bucket_of h k)
    \<and> bucket_of h (replicate W 0, replicate W 0) = 0
    \<and> unat (bucket_of h k) < hash_num_buckets h"
  using bucket.index_fold [OF assms(2,3)] bucket.index_zero bucket_of_bound [OF assms(1)]
  by simp

theorem bucket_of_linear_witness:
  "bucket_of \<lparr>gh_matrix = \<lparr>rows_x = [[1], [0]], rows_z = [[0], [1]], gm_qubits = 1\<rparr>, gh_bits = 2, gh_seed = 0\<rparr>
     (fold (\<lambda>d k. xor_key k d) [([1], [1]), ([0], [1])] ([0], [1])) = 3"
proof -
  let ?h = "\<lparr>gh_matrix = \<lparr>rows_x = [[1], [0]], rows_z = [[0], [1]], gm_qubits = 1\<rparr>, gh_bits = 2, gh_seed = 0\<rparr>"
  have "bucket_of ?h ([0], [1]) = 2" "bucket_of ?h ([1], [1]) = 3"
    by code_simp+
  moreover have "wf_hash 1 ?h"
    by (simp add: wf_hash_def wf_matrix_def num_rows_def INDEX_BITS_def)
  ultimately show ?thesis
    using bucket_of_linear [of 1 ?h "([0], [1])" "[([1], [1]), ([0], [1])]"]
    by (simp add: wf_key_def)
qed

end
