(* ===== verification/Bucket_Columns.thy ===== *)
theory Bucket_Columns
  imports Coefficient Sorted_Runs Gf2_Hash
begin

unbundle bit_operations_syntax

text \<open>
  \<open>pauli_sum/storage.rs\<close>, the per-bucket half: the three parallel columns of a bucket, the in-place
  \<open>update\<close> and \<open>refine_bucket\<close> loops, and the merges of two key-sorted runs. The columns are read as a
  list of terms; the in-place loops are shown to be the order-preserving filters they stand for.
\<close>

section \<open>Columns\<close>

record 'c bucket_columns =
  col_x :: "words list"
  col_z :: "words list"
  col_coeff :: "'c list"

type_synonym 'c pauli_term = "key \<times> 'c"

definition columns_new :: "'c bucket_columns" where
  "columns_new = \<lparr>col_x = [], col_z = [], col_coeff = []\<rparr>"

definition columns_len :: "'c bucket_columns \<Rightarrow> nat" where
  "columns_len cols = length (col_coeff cols)"

definition columns_clear :: "'c bucket_columns \<Rightarrow> 'c bucket_columns" where
  "columns_clear cols = cols\<lparr>col_x := [], col_z := [], col_coeff := []\<rparr>"

definition columns_push :: "'c bucket_columns \<Rightarrow> key \<Rightarrow> 'c \<Rightarrow> 'c bucket_columns" where
  "columns_push cols k c =
     cols\<lparr>col_x := col_x cols @ [fst k], col_z := col_z cols @ [snd k], col_coeff := col_coeff cols @ [c]\<rparr>"

text \<open>The three \<open>truncate\<close> calls at the end of an in-place loop.\<close>

definition columns_truncate :: "nat \<Rightarrow> 'c bucket_columns \<Rightarrow> 'c bucket_columns" where
  "columns_truncate w cols =
     cols\<lparr>col_x := take w (col_x cols), col_z := take w (col_z cols), col_coeff := take w (col_coeff cols)\<rparr>"

text \<open>
  One round of the loop of \<open>update\<close>: \<open>r\<close> reads, \<open>w\<close> writes, and the closure, an \<open>FnMut\<close>, carries a
  state.
\<close>

definition update_step ::
    "('s \<Rightarrow> key \<Rightarrow> 'c \<Rightarrow> 'c option \<times> 's) \<Rightarrow> nat \<Rightarrow>
     'c bucket_columns \<times> nat \<times> 's \<Rightarrow> 'c bucket_columns \<times> nat \<times> 's" where
  "update_step f r st =
     (case st of (cols, w, s) \<Rightarrow>
        case f s (col_x cols ! r, col_z cols ! r) (col_coeff cols ! r) of
          (None, s') \<Rightarrow> (cols, w, s')
        | (Some c, s') \<Rightarrow>
            (let cols = (if w \<noteq> r
                         then cols\<lparr>col_x := (col_x cols)[w := col_x cols ! r],
                                   col_z := (col_z cols)[w := col_z cols ! r]\<rparr>
                         else cols)
             in (cols\<lparr>col_coeff := (col_coeff cols)[w := c]\<rparr>, w + 1, s')))"

definition columns_update ::
    "('s \<Rightarrow> key \<Rightarrow> 'c \<Rightarrow> 'c option \<times> 's) \<Rightarrow> 's \<Rightarrow> 'c bucket_columns \<Rightarrow> 'c bucket_columns \<times> 's" where
  "columns_update f s cols =
     (case fold (update_step f) [0..<columns_len cols] (cols, 0, s) of
        (cols, w, s) \<Rightarrow> (columns_truncate w cols, s))"

text \<open>\<open>keep(..).then_some(c)\<close>.\<close>

definition then_some ::
    "('s \<Rightarrow> key \<Rightarrow> 'c \<Rightarrow> bool \<times> 's) \<Rightarrow> 's \<Rightarrow> key \<Rightarrow> 'c \<Rightarrow> 'c option \<times> 's" where
  "then_some keep s k c = (case keep s k c of (b, s') \<Rightarrow> (if b then Some c else None, s'))"

definition columns_retain ::
    "('s \<Rightarrow> key \<Rightarrow> 'c \<Rightarrow> bool \<times> 's) \<Rightarrow> 's \<Rightarrow> 'c bucket_columns \<Rightarrow> 'c bucket_columns \<times> 's" where
  "columns_retain keep s cols = columns_update (then_some keep) s cols"

definition refine_step ::
    "gf2_hash \<Rightarrow> nat \<Rightarrow> nat \<Rightarrow> 'c bucket_columns \<times> nat \<times> 'c bucket_columns \<Rightarrow>
     'c bucket_columns \<times> nat \<times> 'c bucket_columns" where
  "refine_step h new_bit i st =
     (case st of (cols, keep, upper) \<Rightarrow>
        if hash_row_parity h (col_x cols ! i, col_z cols ! i) new_bit = 1
        then (cols, keep, columns_push upper (col_x cols ! i, col_z cols ! i) (col_coeff cols ! i))
        else (cols\<lparr>col_x := (col_x cols)[keep := col_x cols ! i],
                   col_z := (col_z cols)[keep := col_z cols ! i],
                   col_coeff := (col_coeff cols)[keep := col_coeff cols ! i]\<rparr>, keep + 1, upper))"

text \<open>The columns left in place and the upper half.\<close>

definition refine_bucket ::
    "'c bucket_columns \<Rightarrow> gf2_hash \<Rightarrow> nat \<Rightarrow> 'c bucket_columns \<times> 'c bucket_columns" where
  "refine_bucket cols h new_bit =
     (case fold (refine_step h new_bit) [0..<columns_len cols] (cols, 0, columns_new) of
        (cols, keep, upper) \<Rightarrow> (columns_truncate keep cols, upper))"

section \<open>Terms\<close>

definition terms_of :: "'c bucket_columns \<Rightarrow> 'c pauli_term list" where
  "terms_of cols = zip (zip (col_x cols) (col_z cols)) (col_coeff cols)"

definition columns_of :: "'c pauli_term list \<Rightarrow> 'c bucket_columns" where
  "columns_of ts = fold (\<lambda>(k, c) cols. columns_push cols k c) ts columns_new"

definition wf_columns :: "'c bucket_columns \<Rightarrow> bool" where
  "wf_columns cols \<longleftrightarrow> length (col_x cols) = length (col_coeff cols) \<and>
     length (col_z cols) = length (col_coeff cols)"

text \<open>Merging the columns of two runs: the loops of \<open>merge_sorted\<close> push into fresh columns.\<close>

definition merge_sorted ::
    "('c \<Rightarrow> 'c \<Rightarrow> 'c option) \<Rightarrow> 'c bucket_columns \<Rightarrow> 'c bucket_columns \<Rightarrow> 'c bucket_columns" where
  "merge_sorted on_equal a b = columns_of (merge_runs on_equal (terms_of a) (terms_of b))"

text \<open>
  The loop of \<open>merge_summed\<close> over two iterators: whatever comes next, alone or summed, is pushed when it
  is nonzero and the caller keeps it.
\<close>

definition push_kept ::
    "'c coefficient \<Rightarrow> (key \<Rightarrow> 'c \<Rightarrow> bool) \<Rightarrow> 'c pauli_term \<Rightarrow> 'c pauli_term list \<Rightarrow> 'c pauli_term list" where
  "push_kept C keep t out = (if is_nonzero C (snd t) \<and> keep (fst t) (snd t) then t # out else out)"

fun summed_runs ::
    "'c coefficient \<Rightarrow> (key \<Rightarrow> 'c \<Rightarrow> bool) \<Rightarrow> 'c pauli_term list \<Rightarrow> 'c pauli_term list \<Rightarrow> 'c pauli_term list"
  where
  "summed_runs C keep ((k, p) # as) ((l, q) # bs) =
     (if k < l then push_kept C keep (k, p) (summed_runs C keep as ((l, q) # bs))
      else if l < k then push_kept C keep (l, q) (summed_runs C keep ((k, p) # as) bs)
      else push_kept C keep (k, c_add C p q) (summed_runs C keep as bs))"
| "summed_runs C keep ((k, p) # as) [] = push_kept C keep (k, p) (summed_runs C keep as [])"
| "summed_runs C keep [] ((l, q) # bs) = push_kept C keep (l, q) (summed_runs C keep [] bs)"
| "summed_runs C keep [] [] = []"

definition merge_summed ::
    "'c coefficient \<Rightarrow> (key \<Rightarrow> 'c \<Rightarrow> bool) \<Rightarrow> 'c pauli_term list \<Rightarrow> 'c pauli_term list \<Rightarrow> 'c bucket_columns" where
  "merge_summed C keep a b = columns_of (summed_runs C keep a b)"

definition scaled_terms :: "'c coefficient \<Rightarrow> 'c bucket_columns \<Rightarrow> 'c \<Rightarrow> 'c pauli_term list" where
  "scaled_terms C cols factor = map (\<lambda>(k, c). (k, c_mul C c factor)) (terms_of cols)"

definition keys_are_disjoint :: "'c \<Rightarrow> 'c \<Rightarrow> 'c option" where
  "keys_are_disjoint p q = None"

section \<open>Columns as terms\<close>

lemma length_terms_of: "wf_columns cols \<Longrightarrow> length (terms_of cols) = columns_len cols"
  by (simp add: wf_columns_def terms_of_def columns_len_def)

lemma nth_terms_of:
  "wf_columns cols \<Longrightarrow> i < columns_len cols \<Longrightarrow>
     terms_of cols ! i = ((col_x cols ! i, col_z cols ! i), col_coeff cols ! i)"
  by (simp add: wf_columns_def terms_of_def columns_len_def)

lemma columns_push_terms:
  "wf_columns cols \<Longrightarrow> terms_of (columns_push cols k c) = terms_of cols @ [(k, c)]"
  "wf_columns cols \<Longrightarrow> wf_columns (columns_push cols k c)"
  by (simp_all add: wf_columns_def terms_of_def columns_push_def)

lemma columns_new_terms [simp]: "terms_of columns_new = []" "wf_columns columns_new"
  by (simp_all add: terms_of_def columns_new_def wf_columns_def)

lemma fold_push_terms:
  "wf_columns cols \<Longrightarrow>
     terms_of (fold (\<lambda>(k, c) cols. columns_push cols k c) ts cols) = terms_of cols @ ts \<and>
     wf_columns (fold (\<lambda>(k, c) cols. columns_push cols k c) ts cols)"
  by (induction ts arbitrary: cols) (auto simp: columns_push_terms)

lemma columns_of_terms [simp]: "terms_of (columns_of ts) = ts" "wf_columns (columns_of ts)"
  using fold_push_terms [of columns_new ts] by (simp_all add: columns_of_def)

lemma columns_len_of [simp]: "columns_len (columns_of ts) = length ts"
  using length_terms_of [of "columns_of ts"] by simp

text \<open>Well-formed columns are determined by their terms.\<close>

lemma columns_eqI:
  assumes "wf_columns a" "wf_columns b" "terms_of a = terms_of b"
  shows "a = b"
proof -
  have parts: "col_x c = map (fst \<circ> fst) (terms_of c)" "col_z c = map (snd \<circ> fst) (terms_of c)"
    "col_coeff c = map snd (terms_of c)" if "wf_columns c" for c :: "'a bucket_columns"
    using that by (auto simp: wf_columns_def terms_of_def simp flip: map_map)
  show ?thesis
    using parts [OF assms(1)] parts [OF assms(2)] assms(3)
    by (intro bucket_columns.equality) simp_all
qed

lemma columns_of_terms_of: "wf_columns a \<Longrightarrow> columns_of (terms_of a) = a"
  by (rule columns_eqI) simp_all

lemma columns_truncate_terms:
  "terms_of (columns_truncate w cols) = take w (terms_of cols)"
  "wf_columns cols \<Longrightarrow> wf_columns (columns_truncate w cols)"
  by (simp_all add: terms_of_def columns_truncate_def wf_columns_def take_zip)

lemma columns_write:
  assumes "wf_columns cols" "w < columns_len cols"
  shows "cols\<lparr>col_x := (col_x cols)[w := fst k], col_z := (col_z cols)[w := snd k],
      col_coeff := (col_coeff cols)[w := c]\<rparr> = columns_of ((terms_of cols)[w := (k, c)])"
proof (rule columns_eqI)
  let ?cols = "cols\<lparr>col_x := (col_x cols)[w := fst k], col_z := (col_z cols)[w := snd k],
    col_coeff := (col_coeff cols)[w := c]\<rparr>"
  have "terms_of ?cols = (terms_of cols)[w := (k, c)]" by (simp add: terms_of_def update_zip)
  then show "terms_of ?cols = terms_of (columns_of ((terms_of cols)[w := (k, c)]))" by simp
  show "wf_columns ?cols" using assms(1) by (simp add: wf_columns_def)
qed simp

section \<open>The in-place loops\<close>

lemma update_step_terms:
  assumes "wf_columns cols" "r < columns_len cols" "w \<le> r"
  defines "t \<equiv> terms_of cols ! r"
  shows "update_step f r (cols, w, s) =
    (case f s (fst t) (snd t) of
       (None, s') \<Rightarrow> (cols, w, s')
     | (Some c, s') \<Rightarrow> (columns_of ((terms_of cols)[w := (fst t, c)]), w + 1, s'))"
proof -
  have same: "(if w \<noteq> r then cols\<lparr>col_x := (col_x cols)[w := col_x cols ! r],
        col_z := (col_z cols)[w := col_z cols ! r]\<rparr> else cols) =
      cols\<lparr>col_x := (col_x cols)[w := col_x cols ! r], col_z := (col_z cols)[w := col_z cols ! r]\<rparr>"
    by simp
  have "w < columns_len cols" using assms(2,3) by simp
  from columns_write [OF assms(1) this, where k = "fst t"]
  have "cols\<lparr>col_x := (col_x cols)[w := fst (fst t)], col_z := (col_z cols)[w := snd (fst t)],
      col_coeff := (col_coeff cols)[w := c]\<rparr> = columns_of ((terms_of cols)[w := (fst t, c)])" for c .
  then show ?thesis
    unfolding update_step_def prod.case same t_def nth_terms_of [OF assms(1,2)]
    by (simp split: prod.splits option.splits)
qed

lemma update_loop_terms:
  fixes cols :: "'c bucket_columns"
  assumes "wf_columns cols" "r \<le> columns_len cols"
  shows "case fold (update_step f) [0..<r] (cols, 0, s) of (cols', w, s') \<Rightarrow>
    wf_columns cols' \<and> columns_len cols' = columns_len cols \<and> w \<le> r \<and>
    take w (terms_of cols') = fst (update_terms f s (take r (terms_of cols))) \<and>
    drop r (terms_of cols') = drop r (terms_of cols) \<and>
    s' = snd (update_terms f s (take r (terms_of cols)))"
  using assms(2)
proof (induction r)
  case 0
  then show ?case using assms(1) by simp
next
  case (Suc r)
  let ?T = "terms_of cols"
  obtain cols' w s' where st: "fold (update_step f) [0..<r] (cols, 0, s) = (cols', w, s')"
    by (metis prod_cases3)
  with Suc have IH: "wf_columns cols'" "columns_len cols' = columns_len cols" "w \<le> r"
      "take w (terms_of cols') = fst (update_terms f s (take r ?T))"
      "drop r (terms_of cols') = drop r ?T" "s' = snd (update_terms f s (take r ?T))"
    by simp_all
  have len: "length ?T = columns_len cols" "length (terms_of cols') = columns_len cols"
    using length_terms_of assms(1) IH(1,2) by metis+
  have t: "terms_of cols' ! r = ?T ! r"
    using IH(5) Suc.prems len by (metis Suc_le_lessD hd_drop_conv_nth)
  have drop: "drop (Suc r) (terms_of cols') = drop (Suc r) ?T"
    using IH(5) by (metis drop_drop plus_1_eq_Suc)
  have "take (Suc r) ?T = take r ?T @ [?T ! r]"
    using Suc.prems len by (simp add: take_Suc_conv_app_nth)
  then have upd: "fst (update_terms f s (take (Suc r) ?T)) = take w (terms_of cols') @
        (case fst (f s' (fst (?T ! r)) (snd (?T ! r))) of Some c \<Rightarrow> [(fst (?T ! r), c)] | None \<Rightarrow> [])"
      "snd (update_terms f s (take (Suc r) ?T)) = snd (f s' (fst (?T ! r)) (snd (?T ! r)))"
    using update_terms_Cons [of f s' "fst (?T ! r)" "snd (?T ! r)" "[]"]
    by (simp_all add: update_terms_append IH(4,6))
  have step: "fold (update_step f) [0..<Suc r] (cols, 0, s) = update_step f r (cols', w, s')"
    by (simp add: st)
  show ?case
  proof (cases "fst (f s' (fst (?T ! r)) (snd (?T ! r)))")
    case None
    then show ?thesis
      using IH(1-3) drop upd Suc.prems
      unfolding step update_step_terms [OF IH(1) _ IH(3), unfolded IH(2), OF Suc_le_lessD [OF Suc.prems]] t
      by (auto split: prod.splits)
  next
    case (Some c)
    have "w < length (terms_of cols')" using IH(3) len Suc.prems by simp
    then show ?thesis
      using IH(1-3) drop upd Suc.prems Some len
      unfolding step update_step_terms [OF IH(1) _ IH(3), unfolded IH(2), OF Suc_le_lessD [OF Suc.prems]] t
      by (auto simp: take_Suc_conv_app_nth split: prod.splits)
  qed
qed

text \<open>The in-place compaction is the order-preserving filter and map over the terms.\<close>

lemma columns_update_terms:
  assumes "wf_columns cols"
  shows "terms_of (fst (columns_update f s cols)) = fst (update_terms f s (terms_of cols))"
    and "snd (columns_update f s cols) = snd (update_terms f s (terms_of cols))"
    and "wf_columns (fst (columns_update f s cols))"
  using update_loop_terms [OF assms order_refl, of f s] length_terms_of [OF assms]
  by (auto simp: columns_update_def columns_truncate_terms split: prod.splits)

lemma refine_step_terms:
  assumes "wf_columns cols" "i < columns_len cols" "keep \<le> i"
  defines "t \<equiv> terms_of cols ! i"
  shows "refine_step h b i (cols, keep, upper) =
    (if hash_row_parity h (fst t) b = 1 then (cols, keep, columns_push upper (fst t) (snd t))
     else (columns_of ((terms_of cols)[keep := t]), keep + 1, upper))"
proof -
  have "cols\<lparr>col_x := (col_x cols)[keep := fst (fst t)], col_z := (col_z cols)[keep := snd (fst t)],
      col_coeff := (col_coeff cols)[keep := snd t]\<rparr> = columns_of ((terms_of cols)[keep := t])"
    using columns_write [OF assms(1), where w = keep and k = "fst t" and c = "snd t"] assms(2,3) by simp
  then show ?thesis
    by (simp add: refine_step_def t_def nth_terms_of [OF assms(1,2)])
qed

lemma refine_loop_terms:
  assumes "wf_columns cols" "r \<le> columns_len cols"
  shows "case fold (refine_step h b) [0..<r] (cols, 0, columns_new) of (cols', keep, upper) \<Rightarrow>
    wf_columns cols' \<and> columns_len cols' = columns_len cols \<and> keep \<le> r \<and> wf_columns upper \<and>
    take keep (terms_of cols') = filter (\<lambda>t. hash_row_parity h (fst t) b \<noteq> 1) (take r (terms_of cols)) \<and>
    terms_of upper = filter (\<lambda>t. hash_row_parity h (fst t) b = 1) (take r (terms_of cols)) \<and>
    drop r (terms_of cols') = drop r (terms_of cols)"
  using assms(2)
proof (induction r)
  case 0
  then show ?case using assms(1) by simp
next
  case (Suc r)
  let ?T = "terms_of cols"
  obtain cols' keep upper where
    st: "fold (refine_step h b) [0..<r] (cols, 0, columns_new) = (cols', keep, upper)"
    by (metis prod_cases3)
  with Suc have IH: "wf_columns cols'" "columns_len cols' = columns_len cols" "keep \<le> r" "wf_columns upper"
      "take keep (terms_of cols') = filter (\<lambda>t. hash_row_parity h (fst t) b \<noteq> 1) (take r ?T)"
      "terms_of upper = filter (\<lambda>t. hash_row_parity h (fst t) b = 1) (take r ?T)"
      "drop r (terms_of cols') = drop r ?T"
    by simp_all
  have len: "length ?T = columns_len cols" "length (terms_of cols') = columns_len cols"
    using length_terms_of assms(1) IH(1,2) by metis+
  have t: "terms_of cols' ! r = ?T ! r"
    using IH(7) Suc.prems len by (metis Suc_le_lessD hd_drop_conv_nth)
  have drop: "drop (Suc r) (terms_of cols') = drop (Suc r) ?T"
    using IH(7) by (metis drop_drop plus_1_eq_Suc)
  have take: "take (Suc r) ?T = take r ?T @ [?T ! r]"
    using Suc.prems len by (simp add: take_Suc_conv_app_nth)
  have step: "fold (refine_step h b) [0..<Suc r] (cols, 0, columns_new) =
      refine_step h b r (cols', keep, upper)"
    by (simp add: st)
  have "keep < length (terms_of cols')" using IH(3) len Suc.prems by simp
  then show ?case
    using IH(1-6) drop Suc.prems len
    unfolding step refine_step_terms [OF IH(1) _ IH(3), unfolded IH(2), OF Suc_le_lessD [OF Suc.prems]] t take
    by (auto simp: take_Suc_conv_app_nth columns_push_terms)
qed

lemma refine_bucket_terms:
  assumes "wf_columns cols"
  shows "terms_of (fst (refine_bucket cols h b)) = filter (\<lambda>t. hash_row_parity h (fst t) b \<noteq> 1) (terms_of cols)"
    and "terms_of (snd (refine_bucket cols h b)) = filter (\<lambda>t. hash_row_parity h (fst t) b = 1) (terms_of cols)"
    and "wf_columns (fst (refine_bucket cols h b))" "wf_columns (snd (refine_bucket cols h b))"
  using refine_loop_terms [OF assms order_refl, of h b] length_terms_of [OF assms]
  by (auto simp: refine_bucket_def columns_truncate_terms split: prod.splits)

lemma merge_sorted_terms [simp]:
  "terms_of (merge_sorted f a b) = merge_runs f (terms_of a) (terms_of b)" "wf_columns (merge_sorted f a b)"
  by (simp_all add: merge_sorted_def)

section \<open>Summing merges\<close>

lemma summed_runs_keys:
  "\<forall>t \<in> set as. P (fst t) \<Longrightarrow> \<forall>t \<in> set bs. P (fst t) \<Longrightarrow> \<forall>t \<in> set (summed_runs C keep as bs). P (fst t)"
  by (induction C keep as bs rule: summed_runs.induct) (auto simp: push_kept_def)

text \<open>The merge is the plain one, with sums, followed by one filter.\<close>

lemma summed_runs_eq:
  "summed_runs C keep as bs =
     filter (\<lambda>t. is_nonzero C (snd t) \<and> keep (fst t) (snd t))
       (merge_runs (\<lambda>p q. Some (c_add C p q)) as bs)"
  by (induction C keep as bs rule: summed_runs.induct) (auto simp: push_kept_def)

end
