(* ===== verification/Storage.thy ===== *)
theory Storage
  imports Bucket_Columns
begin

unbundle bit_operations_syntax

text \<open>
  \<open>pauli_sum/storage.rs\<close>: \<open>PauliSum\<close>, its bucket-count policy, its construction, lookup, refinement and
  coarsening, and its linear algebra. \<open>sum_inv\<close> is the structural invariant the source asserts in
  debug builds together with the widths its types fix; every operation keeps it, and each operation is
  specified by the lookup of its result.
\<close>

section \<open>The bucket-count policy\<close>

definition DEFAULT_HASH_SEED :: u64 where
  "DEFAULT_HASH_SEED = 0x9E3779B97F4A7C15"

definition COARSEN_BELOW :: nat where
  "COARSEN_BELOW = 8"

definition MIN_TERMS_PER_TASK :: nat where
  "MIN_TERMS_PER_TASK = 64"

definition DEFAULT_TARGET_BUCKET_LEN :: nat where
  "DEFAULT_TARGET_BUCKET_LEN = 1024"

definition DEFAULT_MIN_BUCKETS :: nat where
  "DEFAULT_MIN_BUCKETS = 128"

text \<open>The two \<open>while\<close> loops of \<open>desired_bits\<close>, each bounded by \<open>INDEX_BITS\<close>.\<close>

function bits_floor :: "nat \<Rightarrow> nat \<Rightarrow> nat" where
  "bits_floor min_buckets lower =
     (if 2 ^ lower < min_buckets \<and> lower < INDEX_BITS then bits_floor min_buckets (lower + 1) else lower)"
  by pat_completeness auto
termination bits_floor by (relation "measure (\<lambda>(_, lower). INDEX_BITS - lower)") auto

function bits_for_len :: "nat \<Rightarrow> nat \<Rightarrow> nat \<Rightarrow> nat" where
  "bits_for_len len target b =
     (if b < INDEX_BITS \<and> len > saturating_mul target (2 ^ b) then bits_for_len len target (b + 1) else b)"
  by pat_completeness auto
termination bits_for_len by (relation "measure (\<lambda>(_, _, b). INDEX_BITS - b)") auto

declare bits_floor.simps [simp del] bits_for_len.simps [simp del]

definition desired_bits :: "nat \<Rightarrow> nat \<Rightarrow> nat \<Rightarrow> nat" where
  "desired_bits len target min_buckets =
     (let worth_splitting = len \<ge> saturating_mul min_buckets MIN_TERMS_PER_TASK;
          lower = (if worth_splitting then bits_floor min_buckets 0 else 0)
      in bits_for_len len target lower)"

definition rebucketed_bits :: "nat \<Rightarrow> nat \<Rightarrow> nat \<Rightarrow> nat \<Rightarrow> nat" where
  "rebucketed_bits len bits target min_buckets =
     (let want = desired_bits len target min_buckets;
          sparse = saturating_mul len COARSEN_BELOW < saturating_mul target (2 ^ bits)
      in if want > bits \<or> sparse then want else bits)"

section \<open>The sum\<close>

record 'c pauli_sum =
  pm_buckets :: "'c bucket_columns list"
  pm_hash :: gf2_hash
  pm_num_qubits :: nat
  pm_len :: nat

text \<open>
  \<open>from_key_sorted\<close>: the bucket indices are computed up front, then every term is pushed onto its
  bucket. An index is always in range (\<open>bucket_of_bound\<close>).
\<close>

definition push_at :: "gf2_hash \<Rightarrow> 'c pauli_term \<Rightarrow> 'c bucket_columns list \<Rightarrow> 'c bucket_columns list" where
  "push_at h t buckets =
     (let b = unat (bucket_of h (fst t)) in buckets[b := columns_push (buckets ! b) (fst t) (snd t)])"

definition from_key_sorted ::
    "words list \<Rightarrow> words list \<Rightarrow> 'c list \<Rightarrow> gf2_hash \<Rightarrow> nat \<Rightarrow> 'c pauli_sum" where
  "from_key_sorted x z coeff h num_qubits =
     \<lparr>pm_buckets = fold (push_at h) (zip (zip x z) coeff) (replicate (hash_num_buckets h) columns_new),
      pm_hash = h, pm_num_qubits = num_qubits, pm_len = length coeff\<rparr>"

definition empty_with_hash :: "nat \<Rightarrow> gf2_hash \<Rightarrow> 'c pauli_sum" where
  "empty_with_hash num_qubits h =
     \<lparr>pm_buckets = map (\<lambda>_. columns_new) [0..<hash_num_buckets h], pm_hash = h,
      pm_num_qubits = num_qubits, pm_len = 0\<rparr>"

definition sum_empty :: "nat \<Rightarrow> nat \<Rightarrow> 'c pauli_sum result" where
  "sum_empty W num_qubits =
     and_then (hash_new W num_qubits 0 DEFAULT_HASH_SEED) (\<lambda>h. Inr (empty_with_hash num_qubits h))"

text \<open>
  \<open>with_hash\<close>: the terms are scattered to their target buckets in bucket order and each target is
  sorted by key. The keys are distinct, so the unstable sort has one result, that of \<open>sort_key\<close>; the
  derived order of \<open>PauliString\<close> is the key order (\<open>less_pauli_string_ext_def\<close>).
\<close>

definition scatter_at :: "gf2_hash \<Rightarrow> 'c pauli_term \<Rightarrow> 'c pauli_term list list \<Rightarrow> 'c pauli_term list list" where
  "scatter_at h t scattered =
     (let b = unat (bucket_of h (fst t)) in scattered[b := scattered ! b @ [t]])"

definition with_hash :: "'c pauli_sum \<Rightarrow> gf2_hash \<Rightarrow> 'c pauli_sum result" where
  "with_hash s h =
     and_then (assert_that (pm_num_qubits s = hash_num_qubits h) NumQubitsMismatch) (\<lambda>_.
       let scattered = fold (\<lambda>cols. fold (scatter_at h) (terms_of cols)) (pm_buckets s)
                         (replicate (hash_num_buckets h) [])
       in Inr \<lparr>pm_buckets = map (\<lambda>terms. columns_of (sort_key fst terms)) scattered, pm_hash = h,
               pm_num_qubits = pm_num_qubits s, pm_len = pm_len s\<rparr>)"

definition sum_clear :: "'c pauli_sum \<Rightarrow> 'c pauli_sum" where
  "sum_clear s = s\<lparr>pm_buckets := map columns_clear (pm_buckets s), pm_len := 0\<rparr>"

definition num_buckets :: "'c pauli_sum \<Rightarrow> nat" where
  "num_buckets s = length (pm_buckets s)"

definition bucket_lengths :: "'c pauli_sum \<Rightarrow> nat list" where
  "bucket_lengths s = map columns_len (pm_buckets s)"

definition sum_refine :: "'c pauli_sum \<Rightarrow> 'c pauli_sum result" where
  "sum_refine s =
     and_then (hash_refine (pm_hash s)) (\<lambda>h.
       let new_bit = gh_bits h - 1;
           halves = map (\<lambda>cols. refine_bucket cols h new_bit) (pm_buckets s)
       in Inr (s\<lparr>pm_buckets := map fst halves @ map snd halves, pm_hash := h\<rparr>))"

definition sum_coarsen :: "'c pauli_sum \<Rightarrow> 'c pauli_sum result" where
  "sum_coarsen s =
     and_then (hash_coarsen (pm_hash s)) (\<lambda>h.
       let half = length (pm_buckets s) div 2;
           lower = take half (pm_buckets s);
           upper = drop half (pm_buckets s)
       in Inr (s\<lparr>pm_buckets := map (\<lambda>b. merge_sorted keys_are_disjoint (lower ! b) (upper ! b)) [0..<length lower],
                 pm_hash := h\<rparr>))"

text \<open>
  The loops \<open>while bits < want { refine }\<close> and \<open>while bits > want { coarsen }\<close>; each round moves the bit
  count by one, so the distance to the target counts the rounds.
\<close>

fun refine_times :: "nat \<Rightarrow> 'c pauli_sum \<Rightarrow> 'c pauli_sum result" where
  "refine_times 0 s = Inr s"
| "refine_times (Suc n) s = and_then (sum_refine s) (refine_times n)"

fun coarsen_times :: "nat \<Rightarrow> 'c pauli_sum \<Rightarrow> 'c pauli_sum result" where
  "coarsen_times 0 s = Inr s"
| "coarsen_times (Suc n) s = and_then (sum_coarsen s) (coarsen_times n)"

definition coarsen_to :: "'c pauli_sum \<Rightarrow> nat \<Rightarrow> 'c pauli_sum result" where
  "coarsen_to s bits =
     and_then (assert_that (bits \<le> gh_bits (pm_hash s)) CoarsenGrows) (\<lambda>_.
       coarsen_times (gh_bits (pm_hash s) - bits) s)"

definition align_to :: "'c pauli_sum \<Rightarrow> gf2_hash \<Rightarrow> 'c pauli_sum result" where
  "align_to s target =
     (if \<not> same_rows_as (pm_hash s) target then with_hash s target
      else if gh_bits (pm_hash s) = gh_bits target then Inr s
      else and_then (refine_times (gh_bits target - gh_bits (pm_hash s)) s) (\<lambda>out.
             coarsen_times (gh_bits (pm_hash out) - gh_bits target) out))"

definition rebucket :: "'c pauli_sum \<Rightarrow> nat \<Rightarrow> nat \<Rightarrow> 'c pauli_sum result" where
  "rebucket s target min_buckets =
     (let want = min (rebucketed_bits (pm_len s) (gh_bits (pm_hash s)) target min_buckets)
                     (hash_max_bits (pm_hash s))
      in and_then (refine_times (want - gh_bits (pm_hash s)) s) (\<lambda>s.
           coarsen_to s (min want (gh_bits (pm_hash s)))))"

definition recount :: "'c pauli_sum \<Rightarrow> 'c pauli_sum" where
  "recount s = s\<lparr>pm_len := sum_list (map columns_len (pm_buckets s))\<rparr>"

definition replace_buckets :: "'c pauli_sum \<Rightarrow> 'c bucket_columns list \<Rightarrow> 'c pauli_sum" where
  "replace_buckets s buckets = recount (s\<lparr>pm_buckets := buckets\<rparr>)"

definition sum_iter :: "'c pauli_sum \<Rightarrow> 'c pauli_term list" where
  "sum_iter s = concat (map terms_of (pm_buckets s))"

definition to_arrays :: "'c pauli_sum \<Rightarrow> words list \<times> words list \<times> 'c list" where
  "to_arrays s =
     (concat (map col_x (pm_buckets s)), concat (map col_z (pm_buckets s)),
      concat (map col_coeff (pm_buckets s)))"

text \<open>The binary search of \<open>get\<close> on the half-open interval from \<open>low\<close> to \<open>high\<close>.\<close>

function search :: "'c bucket_columns \<Rightarrow> key \<Rightarrow> nat \<Rightarrow> nat \<Rightarrow> 'c option" where
  "search cols k low high =
     (if low < high
      then (let mid = low + (high - low) div 2;
                l = (col_x cols ! mid, col_z cols ! mid)
            in if l < k then search cols k (mid + 1) high
               else if k < l then search cols k low mid
               else Some (col_coeff cols ! mid))
      else None)"
  by pat_completeness auto
termination search by (relation "measure (\<lambda>(_, _, low, high). high - low)") auto

declare search.simps [simp del]

definition sum_get :: "'c pauli_sum \<Rightarrow> key \<Rightarrow> 'c option" where
  "sum_get s k =
     (let cols = pm_buckets s ! unat (bucket_of (pm_hash s) k) in search cols k 0 (columns_len cols))"

definition identity_coefficient :: "'c coefficient \<Rightarrow> nat \<Rightarrow> 'c pauli_sum \<Rightarrow> 'c" where
  "identity_coefficient C W s =
     (case sum_get s (replicate W 0, replicate W 0) of Some c \<Rightarrow> c | None \<Rightarrow> c_zero C)"

text \<open>\<open>collect::<Option<Vec<_>>>\<close>: all or nothing.\<close>

fun collect_options :: "'a option list \<Rightarrow> 'a list option" where
  "collect_options [] = Some []"
| "collect_options (r # rs) =
     (case r of None \<Rightarrow> None
      | Some v \<Rightarrow> (case collect_options rs of None \<Rightarrow> None | Some vs \<Rightarrow> Some (v # vs)))"

definition cast_columns ::
    "'c coefficient \<Rightarrow> 't coefficient \<Rightarrow> real \<Rightarrow> 'c bucket_columns \<Rightarrow> 't bucket_columns option" where
  "cast_columns C T tolerance cols =
     (case collect_options (map (\<lambda>c. from_complex64 T (to_complex64 C c) tolerance) (col_coeff cols)) of
        None \<Rightarrow> None
      | Some coeff \<Rightarrow> Some \<lparr>col_x = col_x cols, col_z = col_z cols, col_coeff = coeff\<rparr>)"

definition sum_cast ::
    "'c coefficient \<Rightarrow> 't coefficient \<Rightarrow> 'c pauli_sum \<Rightarrow> real \<Rightarrow> 't pauli_sum option" where
  "sum_cast C T s tolerance =
     (case collect_options (map (cast_columns C T tolerance) (pm_buckets s)) of
        None \<Rightarrow> None
      | Some buckets \<Rightarrow> Some \<lparr>pm_buckets = buckets, pm_hash = pm_hash s,
                              pm_num_qubits = pm_num_qubits s, pm_len = pm_len s\<rparr>)"

definition sum_scale :: "'c coefficient \<Rightarrow> 'c pauli_sum \<Rightarrow> 'c \<Rightarrow> 'c pauli_sum" where
  "sum_scale C s c =
     s\<lparr>pm_buckets := map (\<lambda>cols. cols\<lparr>col_coeff := map (\<lambda>v. c_mul C v c) (col_coeff cols)\<rparr>) (pm_buckets s)\<rparr>"

text \<open>One closure per bucket, with its own initial state.\<close>

definition update_per_bucket ::
    "(nat \<Rightarrow> ('s \<Rightarrow> key \<Rightarrow> 'c \<Rightarrow> 'c option \<times> 's) \<times> 's) \<Rightarrow> 'c pauli_sum \<Rightarrow> 'c pauli_sum" where
  "update_per_bucket update_for s =
     recount (s\<lparr>pm_buckets :=
       map (\<lambda>(b, cols). fst (columns_update (fst (update_for b)) (snd (update_for b)) cols))
         (zip [0..<length (pm_buckets s)] (pm_buckets s))\<rparr>)"

definition retain_per_bucket ::
    "(nat \<Rightarrow> ('s \<Rightarrow> key \<Rightarrow> 'c \<Rightarrow> bool \<times> 's) \<times> 's) \<Rightarrow> 'c pauli_sum \<Rightarrow> 'c pauli_sum" where
  "retain_per_bucket filter_for s =
     update_per_bucket (\<lambda>b. (then_some (fst (filter_for b)), snd (filter_for b))) s"

definition sum_retain :: "(key \<Rightarrow> 'c \<Rightarrow> bool) \<Rightarrow> 'c pauli_sum \<Rightarrow> 'c pauli_sum" where
  "sum_retain f s = retain_per_bucket (\<lambda>_. (\<lambda>u k c. (f k c, u), ())) s"

text \<open>The merge-join of \<open>overlap\<close> on one pair of buckets.\<close>

fun overlap_runs :: "'c coefficient \<Rightarrow> 'c pauli_term list \<Rightarrow> 'c pauli_term list \<Rightarrow> 'c \<Rightarrow> 'c" where
  "overlap_runs C ((k, a) # as) ((l, b) # bs) partial =
     (if k < l then overlap_runs C as ((l, b) # bs) partial
      else if l < k then overlap_runs C ((k, a) # as) bs partial
      else overlap_runs C as bs (c_add C partial (c_mul C (c_conj C a) b)))"
| "overlap_runs C [] bs partial = partial"
| "overlap_runs C as [] partial = partial"

definition sum_overlap :: "'c coefficient \<Rightarrow> 'c pauli_sum \<Rightarrow> 'c pauli_sum \<Rightarrow> 'c result" where
  "sum_overlap C s other =
     and_then (assert_that (pm_num_qubits s = pm_num_qubits other) NumQubitsMismatch) (\<lambda>_.
     and_then (align_to other (pm_hash s)) (\<lambda>rhs.
       Inr (fold (\<lambda>b a. c_add C a b)
              (map (\<lambda>(a, b). overlap_runs C (terms_of a) (terms_of b) (c_zero C))
                (zip (pm_buckets s) (pm_buckets rhs)))
              (c_zero C))))"

definition sum_add :: "'c coefficient \<Rightarrow> 'c pauli_sum \<Rightarrow> 'c pauli_sum \<Rightarrow> 'c pauli_sum result" where
  "sum_add C s other =
     and_then (assert_that (pm_num_qubits s = pm_num_qubits other) NumQubitsMismatch) (\<lambda>_.
     and_then (align_to other (pm_hash s)) (\<lambda>rhs.
       let buckets = map (\<lambda>(a, b). merge_sorted
               (\<lambda>p q. let c = c_add C p q in if \<not> c_eq C c (c_zero C) then Some c else None) a b)
             (zip (pm_buckets s) (pm_buckets rhs))
       in Inr \<lparr>pm_buckets = buckets, pm_hash = pm_hash s, pm_num_qubits = pm_num_qubits s,
               pm_len = sum_list (map columns_len buckets)\<rparr>))"

definition align_destination :: "'c coefficient \<Rightarrow> 'c pauli_sum \<Rightarrow> gf2_hash \<Rightarrow> 'c \<Rightarrow> 'c pauli_sum result" where
  "align_destination C s h beta =
     (if c_eq C beta (c_zero C) then Inr (empty_with_hash (pm_num_qubits s) h)
      else if \<not> same_rows_as (pm_hash s) h then with_hash s h
      else and_then (refine_times (gh_bits h - gh_bits (pm_hash s)) s) (\<lambda>s. coarsen_to s (gh_bits h)))"

definition add_scaled ::
    "'c coefficient \<Rightarrow> 'c pauli_sum \<Rightarrow> 'c pauli_sum \<Rightarrow> 'c \<Rightarrow> 'c \<Rightarrow> 'c pauli_sum result" where
  "add_scaled C s other alpha beta =
     and_then (assert_that (pm_num_qubits s = pm_num_qubits other) NumQubitsMismatch) (\<lambda>_.
     and_then (align_destination C s (pm_hash other) beta) (\<lambda>dest.
     and_then (align_to other (pm_hash dest)) (\<lambda>rhs.
       let buckets = map (\<lambda>(cols, theirs).
               merge_summed C (\<lambda>_ _. True) (scaled_terms C cols beta) (scaled_terms C theirs alpha))
             (zip (pm_buckets dest) (pm_buckets rhs))
       in rebucket (recount (dest\<lparr>pm_buckets := buckets\<rparr>)) DEFAULT_TARGET_BUCKET_LEN DEFAULT_MIN_BUCKETS)))"

text \<open>\<open>assert_invariants\<close>, as the bool it asserts: the body of its loop on one bucket, and the whole.\<close>

definition assert_bucket :: "gf2_hash \<Rightarrow> nat \<Rightarrow> nat \<Rightarrow> 'c bucket_columns \<Rightarrow> bool" where
  "assert_bucket h num_qubits b cols \<longleftrightarrow>
     length (col_x cols) = length (col_z cols) \<and> length (col_x cols) = length (col_coeff cols) \<and>
     list_all (\<lambda>i. unat (bucket_of h (col_x cols ! i, col_z cols ! i)) = b \<and>
         is_within \<lparr>ps_x = col_x cols ! i, ps_z = col_z cols ! i\<rparr> num_qubits)
       [0..<columns_len cols] \<and>
     list_all (\<lambda>i. (col_x cols ! (i - 1), col_z cols ! (i - 1)) < (col_x cols ! i, col_z cols ! i))
       [1..<columns_len cols]"

definition assert_invariants :: "'c pauli_sum \<Rightarrow> bool" where
  "assert_invariants s \<longleftrightarrow>
     length (pm_buckets s) = hash_num_buckets (pm_hash s) \<and>
     list_all (\<lambda>(b, cols). assert_bucket (pm_hash s) (pm_num_qubits s) b cols)
       (zip [0..<length (pm_buckets s)] (pm_buckets s)) \<and>
     sum_list (map columns_len (pm_buckets s)) = pm_len s"

end
