(* ===== verification/Storage_Lookup.thy ===== *)
theory Storage_Lookup
  imports Storage
begin

unbundle bit_operations_syntax

text \<open>
  The invariant of a sum and its lookup. A well-formed sum is a bucketed family of runs, so \<open>get\<close> is
  the lookup of all its terms; refining, coarsening and rehashing keep the invariant and the lookup,
  and refining then coarsening gives the same sum back.
\<close>

section \<open>The invariant\<close>

definition bucket_ix :: "gf2_hash \<Rightarrow> key \<Rightarrow> nat" where
  "bucket_ix h k = unat (bucket_of h k)"

definition key_ok :: "nat \<Rightarrow> nat \<Rightarrow> key \<Rightarrow> bool" where
  "key_ok W n k \<longleftrightarrow> wf_key W k \<and> is_within \<lparr>ps_x = fst k, ps_z = snd k\<rparr> n"

definition sum_inv :: "nat \<Rightarrow> 'c pauli_sum \<Rightarrow> bool" where
  "sum_inv W s \<longleftrightarrow>
     wf_hash W (pm_hash s) \<and> hash_num_qubits (pm_hash s) = pm_num_qubits s \<and>
     length (pm_buckets s) = hash_num_buckets (pm_hash s) \<and>
     (\<forall>cols \<in> set (pm_buckets s). wf_columns cols) \<and>
     bucketed (bucket_ix (pm_hash s)) (map terms_of (pm_buckets s)) \<and>
     (\<forall>t \<in> set (sum_iter s). key_ok W (pm_num_qubits s) (fst t)) \<and>
     pm_len s = length (sum_iter s)"

text \<open>The lookup of a sum: the coefficient of a key among all its terms.\<close>

definition sum_lookup :: "'c pauli_sum \<Rightarrow> key \<Rightarrow> 'c option" where
  "sum_lookup s = map_of (sum_iter s)"

lemma bucket_ix_less: "sum_inv W s \<Longrightarrow> bucket_ix (pm_hash s) k < length (pm_buckets s)"
  unfolding sum_inv_def bucket_ix_def by (metis bucket_of_bound)

lemma sum_len_eq:
  assumes "\<forall>cols \<in> set buckets. wf_columns cols"
  shows "sum_list (map columns_len buckets) = length (concat (map terms_of buckets))"
  using assms by (induction buckets) (simp_all add: length_terms_of)

lemma assert_bucket_ok:
  assumes "wf_columns cols" "run (terms_of cols)"
    "\<forall>t \<in> set (terms_of cols). bucket_ix h (fst t) = b \<and> key_ok W n (fst t)"
  shows "assert_bucket h n b cols"
proof -
  have nth: "terms_of cols ! i = ((col_x cols ! i, col_z cols ! i), col_coeff cols ! i)"
    "terms_of cols ! i \<in> set (terms_of cols)" if "i < columns_len cols" for i
    using nth_terms_of [OF assms(1) that] nth_mem [of i "terms_of cols"] length_terms_of [OF assms(1)] that
    by auto
  have "unat (bucket_of h (col_x cols ! i, col_z cols ! i)) = b \<and>
      is_within \<lparr>ps_x = col_x cols ! i, ps_z = col_z cols ! i\<rparr> n" if "i < columns_len cols" for i
    using assms(3) nth [OF that] by (metis bucket_ix_def fst_conv key_ok_def snd_conv)
  moreover have "(col_x cols ! (i - 1), col_z cols ! (i - 1)) < (col_x cols ! i, col_z cols ! i)"
    if "1 \<le> i" "i < columns_len cols" for i
  proof -
    have "fst (terms_of cols ! (i - 1)) < fst (terms_of cols ! i)"
      using length_terms_of [OF assms(1)] that by (intro run_nth_less [OF assms(2)]) auto
    then show ?thesis using that by (simp add: nth_terms_of [OF assms(1)])
  qed
  ultimately show ?thesis
    using assms(1) by (auto simp: assert_bucket_def list_all_iff wf_columns_def)
qed

lemma sum_inv_bucket:
  assumes "sum_inv W s" "b < length (pm_buckets s)"
  shows "wf_columns (pm_buckets s ! b)" "run (terms_of (pm_buckets s ! b))"
    "\<forall>t \<in> set (terms_of (pm_buckets s ! b)).
       bucket_ix (pm_hash s) (fst t) = b \<and> key_ok W (pm_num_qubits s) (fst t)"
  using assms nth_mem [OF assms(2)] by (auto simp: sum_inv_def bucketed_def sum_iter_def)

lemma sum_inv_assert_invariants:
  assumes "sum_inv W s"
  shows "assert_invariants s"
proof -
  have "assert_bucket (pm_hash s) (pm_num_qubits s) b (pm_buckets s ! b)" if "b < length (pm_buckets s)" for b
    by (rule assert_bucket_ok [OF sum_inv_bucket [OF assms that]])
  then show ?thesis
    using assms by (simp add: assert_invariants_def list_all_length sum_inv_def sum_len_eq sum_iter_def)
qed

section \<open>Lookup\<close>


lemma search_correct:
  assumes "wf_columns cols" "run (terms_of cols)" "high \<le> columns_len cols"
    and "\<forall>i < low. i < columns_len cols \<longrightarrow> fst (terms_of cols ! i) < k"
    and "\<forall>i \<ge> high. i < columns_len cols \<longrightarrow> k < fst (terms_of cols ! i)"
  shows "search cols k low high = map_of (terms_of cols) k"
  using assms(3-)
proof (induction "high - low" arbitrary: low high rule: less_induct)
  case less
  note len = length_terms_of [OF assms(1)]
  show ?case
  proof (cases "low < high")
    case False
    have "fst t \<noteq> k" if "t \<in> set (terms_of cols)" for t
    proof -
      obtain i where "i < columns_len cols" "t = terms_of cols ! i"
        using \<open>t \<in> set (terms_of cols)\<close> len by (auto simp: in_set_conv_nth)
      then show ?thesis
        using less.prems(2) [rule_format, of i] less.prems(3) [rule_format, of i] False
        by (cases "i < low") auto
    qed
    then have "map_of (terms_of cols) k = None" by (force simp: map_of_eq_None_iff)
    with False show ?thesis by (simp add: search.simps)
  next
    case True
    define mid where "mid = low + (high - low) div 2"
    define l where "l = (col_x cols ! mid, col_z cols ! mid)"
    have mid: "low \<le> mid" "mid < high" "mid < columns_len cols"
      using True less.prems(1) by (auto simp: mid_def)
    have t: "terms_of cols ! mid = (l, col_coeff cols ! mid)"
      by (simp add: nth_terms_of [OF assms(1) mid(3)] l_def)
    have step: "search cols k low high =
        (if l < k then search cols k (mid + 1) high
         else if k < l then search cols k low mid else Some (col_coeff cols ! mid))"
      using True by (subst search.simps) (simp add: mid_def l_def Let_def)
    consider "l < k" | "k < l" | "l = k" by fastforce
    then show ?thesis
    proof cases
      case 1
      have "fst (terms_of cols ! i) < k" if "i < mid + 1" "i < columns_len cols" for i
        using run_nth_less [OF assms(2), of i mid] t 1 that mid(3) len by (cases "i = mid") fastforce+
      then have "search cols k (mid + 1) high = map_of (terms_of cols) k"
        using mid less.prems by (intro less.hyps) auto
      with 1 step show ?thesis by simp
    next
      case 2
      have "k < fst (terms_of cols ! i)" if "mid \<le> i" "i < columns_len cols" for i
        using run_nth_less [OF assms(2), of mid i] t 2 that len by (cases "i = mid") fastforce+
      then have "search cols k low mid = map_of (terms_of cols) k"
        using mid less.prems by (intro less.hyps) auto
      with 2 step show ?thesis by (simp add: less_not_sym)
    next
      case 3
      have "(k, col_coeff cols ! mid) \<in> set (terms_of cols)"
        using t 3 nth_mem [of mid "terms_of cols"] mid(3) len by simp
      with 3 step show ?thesis by (simp add: map_of_is_SomeI run_distinct assms(2))
    qed
  qed
qed

text \<open>\<open>get\<close>, a binary search in one bucket, is the lookup among all terms.\<close>

lemma sum_get_lookup:
  assumes "sum_inv W s"
  shows "sum_get s k = sum_lookup s k"
proof -
  let ?b = "bucket_ix (pm_hash s) k"
  note b = bucket_ix_less [OF assms, of k]
  have "sum_get s k = map_of (terms_of (pm_buckets s ! ?b)) k"
    unfolding sum_get_def Let_def bucket_ix_def [symmetric]
    by (rule search_correct) (use sum_inv_bucket [OF assms b] in auto)
  also have "\<dots> = sum_lookup s k"
    using bucketed_lookup [of "bucket_ix (pm_hash s)" "map terms_of (pm_buckets s)" k] assms b
    by (simp add: sum_inv_def sum_lookup_def sum_iter_def)
  finally show ?thesis .
qed

section \<open>Refining and coarsening\<close>

text \<open>One more row adds its parity as the new top bit; one row less drops it.\<close>

lemma unat_top_bit:
  fixes w :: u32
  assumes "n < 31" "\<And>m. Suc n \<le> m \<Longrightarrow> \<not> bit w m"
  shows "unat w = unat (take_bit n w) + (if bit w n then 2 ^ n else 0)"
proof -
  have split: "w = take_bit n w OR (if bit w n then push_bit n 1 else 0)"
  proof (rule bit_word_eqI)
    fix m
    show "bit w m \<longleftrightarrow> bit (take_bit n w OR (if bit w n then push_bit n 1 else 0)) m"
      using assms by (cases m n rule: linorder_cases)
        (auto simp: bit_or_iff bit_take_bit_iff push_bit_of_1 bit_exp_iff Suc_le_eq)
  qed
  show ?thesis
  proof (cases "bit w n")
    case True
    then have "unat w = unat (take_bit n w OR push_bit n 1)" using split by simp
    also have "take_bit n w OR push_bit n 1 = take_bit n w + push_bit n 1"
      by (rule disjunctive_add [symmetric]) (auto simp: bit_take_bit_iff push_bit_of_1 bit_exp_iff)
    also have "unat \<dots> = unat (take_bit n w) + 2 ^ n"
    proof -
      have "unat (take_bit n w) < 2 ^ n"
        by (metis take_bit_nat_less_exp unsigned_take_bit_eq)
      moreover have "(2 :: nat) ^ Suc n \<le> 2 ^ 31" using assms(1) by (intro power_increasing) auto
      moreover have "unat (push_bit n 1 :: u32) = 2 ^ n"
      proof -
        have "unat (push_bit n 1 :: u32) = unat (of_nat (2 ^ n) :: u32)" by (simp add: push_bit_of_1)
        also have "\<dots> = 2 ^ n"
          using assms(1) by (simp add: unsigned_of_nat take_bit_nat_eq_self del: of_nat_power)
        finally show ?thesis .
      qed
      ultimately show ?thesis by (simp add: unat_word_ariths)
    qed
    finally show ?thesis using True by simp
  next
    case False
    then show ?thesis using split by simp
  qed
qed

lemma bucket_ix_bits:
  assumes "wf_hash W h" "gh_bits h = Suc n"
  shows "bucket_ix h k = bucket_ix (h\<lparr>gh_bits := n\<rparr>) k + (if row_odd (gh_matrix h) k n then 2 ^ n else 0)"
proof -
  have n: "n < 31" using assms by (simp add: wf_hash_def INDEX_BITS_def)
  have low: "take_bit n (bucket_of h k) = bucket_of (h\<lparr>gh_bits := n\<rparr>) k"
    using matrix_apply_prefix [of n "Suc n" "gh_matrix h" k] by (simp add: bucket_of_def assms(2))
  have "bit (bucket_of h k) n \<longleftrightarrow> row_odd (gh_matrix h) k n" "\<And>m. Suc n \<le> m \<Longrightarrow> \<not> bit (bucket_of h k) m"
    using n by (auto simp: bucket_of_def bit_matrix_apply assms(2))
  with unat_top_bit [OF n, of "bucket_of h k"] low show ?thesis
    by (simp add: bucket_ix_def)
qed

lemma hash_row_parity_iff: "hash_row_parity h k b = 1 \<longleftrightarrow> row_odd (gh_matrix h) k b"
  by (simp add: hash_row_parity_def row_parity_eq)

lemma hash_refine_eq:
  "hash_refine h = (if gh_bits h < hash_max_bits h then Inr (h\<lparr>gh_bits := Suc (gh_bits h)\<rparr>) else Inl AtMaxBits)"
  by (simp add: hash_refine_def assert_that_def)

lemma hash_coarsen_eq:
  "hash_coarsen h = (if 0 < gh_bits h then Inr (h\<lparr>gh_bits := gh_bits h - 1\<rparr>) else Inl AtSingleBucket)"
  by (simp add: hash_coarsen_def assert_that_def)

text \<open>A new sum over the same terms keeps the invariant when its storage is bucketed by its hash.\<close>

lemma sum_inv_rebuild:
  assumes "sum_inv W s" "wf_hash W h" "hash_num_qubits h = pm_num_qubits s"
    and "length buckets = hash_num_buckets h" "\<forall>cols \<in> set buckets. wf_columns cols"
    and "bucketed (bucket_ix h) (map terms_of buckets)"
    and "map_of (concat (map terms_of buckets)) = sum_lookup s"
  shows "sum_inv W (s\<lparr>pm_buckets := buckets, pm_hash := h\<rparr>) \<and>
    sum_lookup (s\<lparr>pm_buckets := buckets, pm_hash := h\<rparr>) = sum_lookup s"
proof -
  have distinct: "distinct (map fst (concat (map terms_of buckets)))" "distinct (map fst (sum_iter s))"
    using bucketed_distinct [OF assms(6)] assms(1) bucketed_distinct [of _ "map terms_of (pm_buckets s)"]
    by (auto simp: sum_inv_def sum_iter_def)
  then have set_eq: "set (concat (map terms_of buckets)) = set (sum_iter s)"
    using assms(7) by (metis map_of_inject_set sum_lookup_def)
  moreover have "length (concat (map terms_of buckets)) = length (sum_iter s)"
    using set_eq distinct by (metis distinct_card distinct_map)
  ultimately show ?thesis
    using assms by (auto simp: sum_inv_def sum_lookup_def sum_iter_def)
qed

lemma sum_refine_ok:
  assumes "sum_inv W s" "gh_bits (pm_hash s) < hash_max_bits (pm_hash s)"
  shows "\<exists>t. sum_refine s = Inr t \<and> sum_inv W t \<and> sum_lookup t = sum_lookup s \<and>
    pm_hash t = (pm_hash s)\<lparr>gh_bits := Suc (gh_bits (pm_hash s))\<rparr> \<and>
    pm_num_qubits t = pm_num_qubits s \<and> pm_len t = pm_len s"
proof -
  let ?n = "gh_bits (pm_hash s)" and ?h = "(pm_hash s)\<lparr>gh_bits := Suc (gh_bits (pm_hash s))\<rparr>"
  let ?p = "\<lambda>k. row_odd (gh_matrix (pm_hash s)) k ?n"
  let ?L = "map terms_of (pm_buckets s)"
  define halves where "halves = map (\<lambda>cols. refine_bucket cols ?h ?n) (pm_buckets s)"
  define buckets where "buckets = map fst halves @ map snd halves"
  note inv = assms(1) [unfolded sum_inv_def]
  have wf: "\<And>cols. cols \<in> set (pm_buckets s) \<Longrightarrow> wf_columns cols" using inv by blast
  have h: "wf_hash W ?h" "hash_num_qubits ?h = pm_num_qubits s"
    "hash_num_buckets ?h = 2 * length (pm_buckets s)"
    using inv assms(2)
    by (auto simp: wf_hash_def hash_max_bits_def hash_num_qubits_def hash_num_buckets_def)
  have terms: "map terms_of buckets =
      map (filter (\<lambda>t. \<not> ?p (fst t))) ?L @ map (filter (\<lambda>t. ?p (fst t))) ?L"
    using wf by (auto simp: buckets_def halves_def refine_bucket_terms hash_row_parity_iff)
  have ix: "bucket_ix ?h k = bucket_ix (pm_hash s) k + (if ?p k then length ?L else 0)" for k
    using bucket_ix_bits [OF h(1), of ?n k] inv by (simp add: hash_num_buckets_def)
  have "bucketed (bucket_ix (pm_hash s)) ?L" using inv by blast
  from bucketed_split [OF this ix]
  have "bucketed (bucket_ix ?h) (map terms_of buckets)"
    "map_of (concat (map terms_of buckets)) = sum_lookup s"
    unfolding terms by (auto simp: sum_lookup_def sum_iter_def)
  moreover have "\<forall>cols \<in> set buckets. wf_columns cols"
    using wf by (auto simp: buckets_def halves_def refine_bucket_terms)
  moreover have "length buckets = hash_num_buckets ?h" by (simp add: h buckets_def halves_def)
  ultimately have "sum_inv W (s\<lparr>pm_buckets := buckets, pm_hash := ?h\<rparr>) \<and>
      sum_lookup (s\<lparr>pm_buckets := buckets, pm_hash := ?h\<rparr>) = sum_lookup s"
    by (intro sum_inv_rebuild [OF assms(1) h(1,2)])
  moreover have "sum_refine s = Inr (s\<lparr>pm_buckets := buckets, pm_hash := ?h\<rparr>)"
    using assms(2) by (simp add: sum_refine_def hash_refine_eq buckets_def halves_def Let_def)
  ultimately show ?thesis by simp
qed

lemma sum_coarsen_ok:
  assumes "sum_inv W s" "0 < gh_bits (pm_hash s)"
  shows "\<exists>t. sum_coarsen s = Inr t \<and> sum_inv W t \<and> sum_lookup t = sum_lookup s \<and>
    pm_hash t = (pm_hash s)\<lparr>gh_bits := gh_bits (pm_hash s) - 1\<rparr> \<and>
    pm_num_qubits t = pm_num_qubits s \<and> pm_len t = pm_len s"
proof -
  obtain n where n: "gh_bits (pm_hash s) = Suc n" using assms(2) by (cases "gh_bits (pm_hash s)") auto
  let ?h = "(pm_hash s)\<lparr>gh_bits := n\<rparr>" and ?L = "map terms_of (pm_buckets s)"
  define buckets where "buckets = map (\<lambda>b. merge_sorted keys_are_disjoint
      (pm_buckets s ! b) (pm_buckets s ! (2 ^ n + b))) [0..<2 ^ n]"
  note inv = assms(1) [unfolded sum_inv_def]
  have len: "length ?L = 2 * 2 ^ n" using inv n by (simp add: hash_num_buckets_def)
  have h: "wf_hash W ?h" "hash_num_qubits ?h = pm_num_qubits s"
    using inv n by (auto simp: wf_hash_def hash_num_qubits_def)
  have "bucket_ix ?h k < 2 ^ n" for k
    using bucket_of_bound [OF h(1), of k] by (simp add: bucket_ix_def hash_num_buckets_def)
  then have ix: "bucket_ix ?h k = bucket_ix (pm_hash s) k mod 2 ^ n" for k
    using bucket_ix_bits [of W "pm_hash s" n k] inv n by simp
  have terms: "map terms_of buckets =
      map (\<lambda>b. merge_runs keys_are_disjoint (?L ! b) (?L ! (2 ^ n + b))) [0..<2 ^ n]"
    using len by (auto simp: buckets_def)
  have "bucketed (bucket_ix (pm_hash s)) ?L" using inv by blast
  from bucketed_join [OF this len ix]
  have "bucketed (bucket_ix ?h) (map terms_of buckets)"
    "map_of (concat (map terms_of buckets)) = sum_lookup s"
    unfolding terms by (auto simp: sum_lookup_def sum_iter_def)
  moreover have "\<forall>cols \<in> set buckets. wf_columns cols" by (auto simp: buckets_def)
  moreover have "length buckets = hash_num_buckets ?h" by (simp add: buckets_def hash_num_buckets_def)
  ultimately have "sum_inv W (s\<lparr>pm_buckets := buckets, pm_hash := ?h\<rparr>) \<and>
      sum_lookup (s\<lparr>pm_buckets := buckets, pm_hash := ?h\<rparr>) = sum_lookup s"
    by (intro sum_inv_rebuild [OF assms(1) h])
  moreover have "sum_coarsen s = Inr (s\<lparr>pm_buckets := buckets, pm_hash := ?h\<rparr>)"
    using n len by (simp add: sum_coarsen_def hash_coarsen_eq buckets_def Let_def)
  ultimately show ?thesis using n by simp
qed

text \<open>Storage is canonical: the hash and the lookup determine it.\<close>

lemma sum_eqI:
  assumes "sum_inv W s" "sum_inv W t" "pm_hash s = pm_hash t" "pm_num_qubits s = pm_num_qubits t"
    "sum_lookup s = sum_lookup t"
  shows "s = t"
proof -
  note s = assms(1) [unfolded sum_inv_def] and t = assms(2) [unfolded sum_inv_def]
  have terms: "map terms_of (pm_buckets s) = map terms_of (pm_buckets t)"
    using s t assms(3,5)
    by (intro bucketed_eqI [of "bucket_ix (pm_hash s)"]) (auto simp: sum_lookup_def sum_iter_def)
  have "pm_buckets s = pm_buckets t"
  proof (rule nth_equalityI)
    show "length (pm_buckets s) = length (pm_buckets t)" using s t assms(3) by simp
    fix b assume b: "b < length (pm_buckets s)"
    then show "pm_buckets s ! b = pm_buckets t ! b"
      using terms s t assms(3) by (intro columns_eqI) (auto dest: map_eq_imp_length_eq simp: list_eq_iff_nth_eq)
  qed
  moreover have "pm_len s = pm_len t" using s t terms by (simp add: sum_iter_def)
  ultimately show ?thesis using assms(3,4) by (intro pauli_sum.equality) simp_all
qed

section \<open>Building and rehashing\<close>

lemma fold_push_at_terms:
  assumes "\<forall>cols \<in> set buckets. wf_columns cols"
  shows "map terms_of (fold (push_at h) ts buckets) =
      fold (\<lambda>t L. L[bucket_ix h (fst t) := L ! bucket_ix h (fst t) @ [t]]) ts (map terms_of buckets)
    \<and> (\<forall>cols \<in> set (fold (push_at h) ts buckets). wf_columns cols)"
  using assms
proof (induction ts arbitrary: buckets)
  case (Cons t ts)
  let ?b = "bucket_ix h (fst t)"
  show ?case
  proof (cases "?b < length buckets")
    case True
    then have "wf_columns (buckets ! ?b)" using Cons.prems by simp
    then have "map terms_of (push_at h t buckets) = (map terms_of buckets)[?b := map terms_of buckets ! ?b @ [t]]"
      "\<forall>cols \<in> set (push_at h t buckets). wf_columns cols"
      using Cons.prems True
      by (auto simp: push_at_def bucket_ix_def [symmetric] Let_def map_update columns_push_terms
          dest: subsetD [OF set_update_subset_insert])
    with Cons.IH [of "push_at h t buckets"] show ?thesis by simp
  next
    case False
    then have "push_at h t buckets = buckets" by (simp add: push_at_def bucket_ix_def Let_def list_update_beyond)
    with Cons False show ?thesis by (simp add: list_update_beyond)
  qed
qed simp

lemma fold_scatter_at:
  "fold (\<lambda>cols. fold (scatter_at h) (terms_of cols)) bs scattered =
     fold (\<lambda>t L. L[bucket_ix h (fst t) := L ! bucket_ix h (fst t) @ [t]]) (concat (map terms_of bs)) scattered"
proof -
  have eq: "scatter_at h = (\<lambda>t L. L[bucket_ix h (fst t) := L ! bucket_ix h (fst t) @ [t]])"
    by (simp add: scatter_at_def bucket_ix_def fun_eq_iff Let_def)
  show ?thesis unfolding eq by (induction bs arbitrary: scattered) simp_all
qed

text \<open>The buckets a list of terms is scattered into.\<close>

lemma scatter_eq:
  "fold (\<lambda>t L. L[ix (fst t) := L ! ix (fst t) @ [t]]) ts (replicate n []) =
     map (\<lambda>b. filter (\<lambda>t. ix (fst t) = b) ts) [0..<n]" for ix :: "'k \<Rightarrow> nat"
  using fold_scatter [of ix ts "replicate n []"] by (intro nth_equalityI) auto

lemma scattered_bucketed:
  assumes "\<And>k. ix k < n" "\<And>b. b < n \<Longrightarrow> run (f (filter (\<lambda>t. ix (fst t) = b) ts))"
    and "\<And>us. set (f us) = set us" "\<And>us. length (f us) = length us" "distinct (map fst ts)"
  defines "L \<equiv> map (\<lambda>b. f (filter (\<lambda>t. ix (fst t) = b) ts)) [0..<n]"
  shows "bucketed ix L" "map_of (concat L) = map_of ts" "set (concat L) = set ts" "length (concat L) = length ts"
proof -
  show b: "bucketed ix L" using assms(2,3) by (simp add: bucketed_def L_def)
  show set_eq: "set (concat L) = set ts" using assms(1,3) by (auto simp: L_def)
  show "map_of (concat L) = map_of ts"
    using set_eq assms(5) bucketed_distinct [OF b] by (metis map_of_inject_set)
  show "length (concat L) = length ts"
    using length_sum_filter_index [of ts ix n] assms(1,4) by (simp add: L_def length_concat comp_def)
qed

lemma run_sort_key: "distinct (map fst ts) \<Longrightarrow> run (sort_key fst ts)"
  by (simp add: run_def strict_sorted_iff distinct_map)

lemma with_hash_ok:
  assumes "sum_inv W s" "wf_hash W h" "hash_num_qubits h = pm_num_qubits s"
  shows "\<exists>t. with_hash s h = Inr t \<and> sum_inv W t \<and> sum_lookup t = sum_lookup s \<and> pm_hash t = h \<and>
    pm_num_qubits t = pm_num_qubits s \<and> pm_len t = pm_len s"
proof -
  let ?n = "hash_num_buckets h"
  define L where "L = map (\<lambda>b. sort_key fst (filter (\<lambda>t. bucket_ix h (fst t) = b) (sum_iter s))) [0..<?n]"
  define buckets where "buckets = map columns_of L"
  have dist: "distinct (map fst (sum_iter s))"
    using assms(1) bucketed_distinct by (auto simp: sum_inv_def sum_iter_def)
  then have "distinct (map fst (filter P (sum_iter s)))" for P by (rule distinct_map_filter)
  then have "bucketed (bucket_ix h) L" "map_of (concat L) = map_of (sum_iter s)"
    using dist bucket_of_bound [OF assms(2)] unfolding L_def
    by (intro scattered_bucketed; simp add: run_sort_key bucket_ix_def)+
  moreover have terms: "map terms_of buckets = L" by (simp add: buckets_def comp_def)
  moreover have "\<forall>cols \<in> set buckets. wf_columns cols" "length buckets = ?n"
    by (auto simp: buckets_def L_def)
  ultimately have "sum_inv W (s\<lparr>pm_buckets := buckets, pm_hash := h\<rparr>) \<and>
      sum_lookup (s\<lparr>pm_buckets := buckets, pm_hash := h\<rparr>) = sum_lookup s"
    by (intro sum_inv_rebuild [OF assms]) (simp_all add: sum_lookup_def)
  moreover have "with_hash s h = Inr (s\<lparr>pm_buckets := buckets, pm_hash := h\<rparr>)"
    using assms(3)
    by (simp add: with_hash_def fold_scatter_at scatter_eq buckets_def L_def sum_iter_def Let_def)
  ultimately show ?thesis by simp
qed

lemma from_key_sorted_ok:
  assumes "length x = length coeff" "length z = length coeff" "run (zip (zip x z) coeff)"
    and "\<forall>t \<in> set (zip (zip x z) coeff). key_ok W n (fst t)" "wf_hash W h" "hash_num_qubits h = n"
  shows "sum_inv W (from_key_sorted x z coeff h n)"
    and "sum_lookup (from_key_sorted x z coeff h n) = map_of (zip (zip x z) coeff)"
proof -
  let ?ts = "zip (zip x z) coeff" and ?n = "hash_num_buckets h"
  define buckets where "buckets = fold (push_at h) ?ts (replicate ?n columns_new)"
  define L where "L = map (\<lambda>b. filter (\<lambda>t. bucket_ix h (fst t) = b) ?ts) [0..<?n]"
  have new: "\<forall>cols \<in> set (replicate ?n columns_new). wf_columns cols" by simp
  have terms: "map terms_of buckets = L" and wf: "\<forall>cols \<in> set buckets. wf_columns cols"
    using fold_push_at_terms [OF new, of h ?ts] by (simp_all add: buckets_def L_def scatter_eq)
  have L: "bucketed (bucket_ix h) L" "map_of (concat L) = map_of ?ts" "set (concat L) = set ?ts"
      "length (concat L) = length ?ts"
    unfolding L_def using assms(3) bucket_of_bound [OF assms(5)]
    by (intro scattered_bucketed [where f = "\<lambda>us. us"]; simp add: run_filter run_distinct bucket_ix_def)+
  have s: "from_key_sorted x z coeff h n =
      \<lparr>pm_buckets = buckets, pm_hash = h, pm_num_qubits = n, pm_len = length coeff\<rparr>"
    by (simp add: from_key_sorted_def buckets_def)
  have "length (map terms_of buckets) = ?n" unfolding terms by (simp add: L_def)
  then have "length buckets = ?n" by simp
  then show "sum_inv W (from_key_sorted x z coeff h n)"
    using assms L wf by (simp add: s sum_inv_def sum_iter_def terms)
  show "sum_lookup (from_key_sorted x z coeff h n) = map_of (zip (zip x z) coeff)"
    using L(2) by (simp add: s sum_lookup_def sum_iter_def terms)
qed

lemma empty_with_hash_ok:
  assumes "wf_hash W h" "hash_num_qubits h = n"
  shows "sum_inv W (empty_with_hash n h)" "sum_lookup (empty_with_hash n h) = Map.empty"
    "pm_hash (empty_with_hash n h) = h" "pm_num_qubits (empty_with_hash n h) = n"
proof -
  have "concat (map terms_of (map (\<lambda>_. columns_new) [0..<m])) = []" for m
    by (induction m) (simp_all add: comp_def)
  then show "sum_inv W (empty_with_hash n h)" "sum_lookup (empty_with_hash n h) = Map.empty"
    using assms by (auto simp: sum_inv_def sum_lookup_def sum_iter_def empty_with_hash_def bucketed_def comp_def)
qed (simp_all add: empty_with_hash_def)

section \<open>Properties\<close>

text \<open>
  C12. \<open>get\<close>, a binary search in the one bucket the hash names, finds exactly the terms of the sum: it
  returns the coefficient when the key is a term and \<open>None\<close> when it is not, and every sum that
  satisfies the invariant passes \<open>assert_invariants\<close>.
\<close>

theorem sum_get_finds_terms:
  assumes "sum_inv W s"
  shows "(sum_get s k = Some c \<longleftrightarrow> (k, c) \<in> set (sum_iter s)) \<and> assert_invariants s"
proof -
  have "distinct (map fst (sum_iter s))"
    using assms bucketed_distinct by (auto simp: sum_inv_def sum_iter_def)
  then show ?thesis
    using sum_inv_assert_invariants [OF assms] by (simp add: sum_get_lookup [OF assms] sum_lookup_def)
qed

text \<open>
  C13. Refining doubles the bucket count, keeps the invariant and every lookup, and coarsening undoes it
  exactly: the sum that comes back is the original one, column by column.
\<close>

theorem refine_coarsen_roundtrip:
  assumes "sum_inv W s" "gh_bits (pm_hash s) < hash_max_bits (pm_hash s)"
  shows "\<exists>t. sum_refine s = Inr t \<and> sum_inv W t \<and> num_buckets t = 2 * num_buckets s \<and>
    (\<forall>k. sum_get t k = sum_get s k) \<and> sum_coarsen t = Inr s"
proof -
  from sum_refine_ok [OF assms] obtain t where t: "sum_refine s = Inr t" "sum_inv W t"
      "sum_lookup t = sum_lookup s" "pm_hash t = (pm_hash s)\<lparr>gh_bits := Suc (gh_bits (pm_hash s))\<rparr>"
      "pm_num_qubits t = pm_num_qubits s"
    by blast
  from sum_coarsen_ok [OF t(2)] t(4) obtain u where u: "sum_coarsen t = Inr u" "sum_inv W u"
      "sum_lookup u = sum_lookup s" "pm_hash u = pm_hash s" "pm_num_qubits u = pm_num_qubits s"
    using t(3,5) by auto
  have "u = s" using u(3-5) by (intro sum_eqI [OF u(2) assms(1)])
  moreover have "num_buckets t = 2 * num_buckets s"
    using assms(1) t(2,4) by (simp add: sum_inv_def num_buckets_def hash_num_buckets_def)
  ultimately show ?thesis
    using t u(1) sum_get_lookup [OF t(2)] sum_get_lookup [OF assms(1)] by auto
qed

text \<open>
  Repartitioning a sum under any other hash over the same qubits keeps the invariant and every
  lookup; a hash over another number of qubits is refused.
\<close>

lemma with_hash_keeps_terms:
  assumes "sum_inv W s" "wf_hash W h"
  shows "if hash_num_qubits h = pm_num_qubits s
    then \<exists>t. with_hash s h = Inr t \<and> sum_inv W t \<and> pm_hash t = h \<and> (\<forall>k. sum_get t k = sum_get s k)
    else with_hash s h = Inl NumQubitsMismatch"
proof (cases "hash_num_qubits h = pm_num_qubits s")
  case True
  from with_hash_ok [OF assms True] True show ?thesis
    using sum_get_lookup [OF assms(1)] sum_get_lookup by metis
qed (simp add: with_hash_def assert_that_def)

section \<open>A concrete sum\<close>

text \<open>The one-qubit sum \<open>2 Z + 3 X\<close> under the hash that reads the two key bits, refined to \<open>bits\<close>.\<close>

definition example_hash :: "nat \<Rightarrow> gf2_hash" where
  "example_hash bits =
     \<lparr>gh_matrix = \<lparr>rows_x = [[1], [0]], rows_z = [[0], [1]], gm_qubits = 1\<rparr>, gh_bits = bits, gh_seed = 0\<rparr>"

definition example_sum :: "nat \<Rightarrow> complex pauli_sum" where
  "example_sum bits = from_key_sorted [[0], [1]] [[1], [0]] [2, 3] (example_hash bits) 1"

lemma example_hash_wf: "bits \<le> 2 \<Longrightarrow> wf_hash 1 (example_hash bits)" "hash_num_qubits (example_hash bits) = 1"
  by (auto simp: example_hash_def wf_hash_def wf_matrix_def num_rows_def INDEX_BITS_def hash_num_qubits_def)

lemma example_key_ok: "key_ok 1 1 ([0], [1])" "key_ok 1 1 ([1], [0])"
  unfolding key_ok_def wf_key_def by (simp, code_simp)+

lemma example_sum_inv:
  assumes "bits \<le> 2"
  shows "sum_inv 1 (example_sum bits)"
    and "sum_lookup (example_sum bits) = map_of [(([0], [1]), 2), (([1], [0]), 3)]"
    and "pm_num_qubits (example_sum bits) = 1" "pm_hash (example_sum bits) = example_hash bits"
proof -
  have "run (zip (zip [[0], [1]] [[1], [0]]) [2, 3 :: complex] :: complex pauli_term list)"
    by (simp add: run_def)
  then show "sum_inv 1 (example_sum bits)"
    and "sum_lookup (example_sum bits) = map_of [(([0], [1]), 2), (([1], [0]), 3)]"
    unfolding example_sum_def
    using from_key_sorted_ok [of "[[0], [1]]" "[2, 3 :: complex]" "[[1], [0]]" 1 1 "example_hash bits"]
      example_hash_wf assms example_key_ok by simp_all
qed (simp_all add: example_sum_def from_key_sorted_def)

theorem sum_get_finds_terms_witness:
  "sum_get (example_sum 1) ([1], [0]) = Some 3 \<and> assert_invariants (example_sum 1)"
proof -
  have "sum_get (example_sum 1) ([1], [0]) = Some 3"
    by (simp add: sum_get_lookup [OF example_sum_inv(1)] example_sum_inv(2))
  moreover have "(([1], [0]), 3) \<in> set (sum_iter (example_sum 1))"
    using sum_get_finds_terms [OF example_sum_inv(1), of 1 "([1], [0])" 3] calculation by simp
  ultimately show ?thesis
    using sum_get_finds_terms [OF example_sum_inv(1), of 1 "([1], [0])" 3] by simp
qed

theorem refine_coarsen_roundtrip_witness:
  "\<exists>t. sum_refine (example_sum 1) = Inr t \<and> sum_coarsen t = Inr (example_sum 1)"
proof -
  have "gh_bits (pm_hash (example_sum 1)) < hash_max_bits (pm_hash (example_sum 1))"
    by (simp add: example_sum_inv(4) example_hash_def hash_max_bits_def num_rows_def)
  with refine_coarsen_roundtrip [OF example_sum_inv(1), of 1] show ?thesis by auto
qed

end
