(* ===== verification/Storage_Algebra.thy ===== *)
theory Storage_Algebra
  imports Storage_Lookup
begin

unbundle bit_operations_syntax

text \<open>
  Moving a sum between bucket counts and the linear algebra of sums: alignment keeps the lookup, \<open>add\<close>
  and \<open>add_scaled\<close> are the key-wise sums with the exact zeros dropped, \<open>overlap\<close> is the inner product
  over the shared keys, and the bucket-count policy keeps its stated bounds.
\<close>

section \<open>Moving between bucket counts\<close>

definition same_sum :: "nat \<Rightarrow> 'c pauli_sum \<Rightarrow> 'c pauli_sum \<Rightarrow> bool" where
  "same_sum W s t \<longleftrightarrow> sum_inv W t \<and> sum_lookup t = sum_lookup s \<and> pm_num_qubits t = pm_num_qubits s \<and>
     pm_len t = pm_len s"

lemma same_sum_refl: "sum_inv W s \<Longrightarrow> same_sum W s s"
  by (simp add: same_sum_def)

lemma same_sum_trans: "same_sum W s t \<Longrightarrow> same_sum W t u \<Longrightarrow> same_sum W s u"
  by (simp add: same_sum_def)

lemma refine_times_ok:
  "sum_inv W s \<Longrightarrow> gh_bits (pm_hash s) + n \<le> hash_max_bits (pm_hash s) \<Longrightarrow>
     \<exists>t. refine_times n s = Inr t \<and> same_sum W s t \<and>
       pm_hash t = (pm_hash s)\<lparr>gh_bits := gh_bits (pm_hash s) + n\<rparr>"
proof (induction n arbitrary: s)
  case (Suc n)
  then obtain t where t: "sum_refine s = Inr t" "same_sum W s t"
      "pm_hash t = (pm_hash s)\<lparr>gh_bits := Suc (gh_bits (pm_hash s))\<rparr>"
    using sum_refine_ok [OF Suc.prems(1)] by (auto simp: same_sum_def)
  then have "\<exists>u. refine_times n t = Inr u \<and> same_sum W t u \<and>
      pm_hash u = (pm_hash t)\<lparr>gh_bits := gh_bits (pm_hash t) + n\<rparr>"
    using Suc.prems by (intro Suc.IH) (auto simp: same_sum_def hash_max_bits_def)
  with t show ?case by (auto intro: same_sum_trans)
qed (simp add: same_sum_refl)

lemma coarsen_times_ok:
  "sum_inv W s \<Longrightarrow> n \<le> gh_bits (pm_hash s) \<Longrightarrow>
     \<exists>t. coarsen_times n s = Inr t \<and> same_sum W s t \<and>
       pm_hash t = (pm_hash s)\<lparr>gh_bits := gh_bits (pm_hash s) - n\<rparr>"
proof (induction n arbitrary: s)
  case (Suc n)
  then obtain t where t: "sum_coarsen s = Inr t" "same_sum W s t"
      "pm_hash t = (pm_hash s)\<lparr>gh_bits := gh_bits (pm_hash s) - 1\<rparr>"
    using sum_coarsen_ok [OF Suc.prems(1)] by (auto simp: same_sum_def)
  then have "\<exists>u. coarsen_times n t = Inr u \<and> same_sum W t u \<and>
      pm_hash u = (pm_hash t)\<lparr>gh_bits := gh_bits (pm_hash t) - n\<rparr>"
    using Suc.prems by (intro Suc.IH) (auto simp: same_sum_def)
  with t show ?case by (auto intro: same_sum_trans)
qed (simp add: same_sum_refl)

lemma coarsen_to_ok:
  assumes "sum_inv W s" "bits \<le> gh_bits (pm_hash s)"
  shows "\<exists>t. coarsen_to s bits = Inr t \<and> same_sum W s t \<and> pm_hash t = (pm_hash s)\<lparr>gh_bits := bits\<rparr>"
  using coarsen_times_ok [OF assms(1), of "gh_bits (pm_hash s) - bits"] assms(2)
  by (auto simp: coarsen_to_def)

text \<open>
  \<open>while bits < want { refine }\<close> then \<open>while bits > want { coarsen }\<close> reaches the wanted count in either
  direction.
\<close>

lemma move_to_bits:
  assumes "sum_inv W s" "bits \<le> hash_max_bits (pm_hash s)"
  shows "\<exists>t u. refine_times (bits - gh_bits (pm_hash s)) s = Inr t \<and>
    coarsen_times (gh_bits (pm_hash t) - bits) t = Inr u \<and> bits \<le> gh_bits (pm_hash t) \<and> same_sum W s t \<and>
    same_sum W s u \<and> pm_hash u = (pm_hash s)\<lparr>gh_bits := bits\<rparr>"
proof -
  have "gh_bits (pm_hash s) \<le> hash_max_bits (pm_hash s)"
    using assms(1) by (simp add: sum_inv_def wf_hash_def hash_max_bits_def)
  then have "gh_bits (pm_hash s) + (bits - gh_bits (pm_hash s)) \<le> hash_max_bits (pm_hash s)"
    using assms(2) by (cases "gh_bits (pm_hash s) \<le> bits") auto
  from refine_times_ok [OF assms(1) this]
  obtain t where t: "refine_times (bits - gh_bits (pm_hash s)) s = Inr t" "same_sum W s t"
      "pm_hash t = (pm_hash s)\<lparr>gh_bits := gh_bits (pm_hash s) + (bits - gh_bits (pm_hash s))\<rparr>"
    by auto
  from coarsen_times_ok [of W t "gh_bits (pm_hash t) - bits"] t(2,3)
  obtain u where "coarsen_times (gh_bits (pm_hash t) - bits) t = Inr u" "same_sum W t u"
      "pm_hash u = (pm_hash s)\<lparr>gh_bits := bits\<rparr>"
    by (auto simp: same_sum_def)
  with t show ?thesis by (auto intro: same_sum_trans)
qed

lemma align_to_ok:
  assumes "sum_inv W s" "wf_hash W h" "hash_num_qubits h = pm_num_qubits s"
  shows "\<exists>t. align_to s h = Inr t \<and> same_sum W s t \<and> gh_matrix (pm_hash t) = gh_matrix h \<and>
    gh_bits (pm_hash t) = gh_bits h"
proof (cases "same_rows_as (pm_hash s) h")
  case False
  with with_hash_ok [OF assms] show ?thesis by (auto simp: align_to_def same_sum_def)
next
  case True
  then have "gh_bits h \<le> hash_max_bits (pm_hash s)"
    using assms(2) by (simp add: same_rows_as_def wf_hash_def hash_max_bits_def)
  from move_to_bits [OF assms(1) this] True show ?thesis
    using same_sum_refl [OF assms(1)]
    by (auto simp: align_to_def same_rows_as_def)
qed

lemma rebucket_ok:
  assumes "sum_inv W s"
  shows "\<exists>t. rebucket s target min_buckets = Inr t \<and> same_sum W s t \<and>
    pm_hash t = (pm_hash s)\<lparr>gh_bits := min (rebucketed_bits (pm_len s) (gh_bits (pm_hash s)) target min_buckets)
      (hash_max_bits (pm_hash s))\<rparr>"
proof -
  let ?want = "min (rebucketed_bits (pm_len s) (gh_bits (pm_hash s)) target min_buckets)
    (hash_max_bits (pm_hash s))"
  have "?want \<le> hash_max_bits (pm_hash s)" by simp
  from move_to_bits [OF assms this] show ?thesis
    by (auto simp: rebucket_def coarsen_to_def Let_def min_absorb1)
qed

lemma align_destination_ok:
  assumes "sum_inv W s" "wf_hash W h" "hash_num_qubits h = pm_num_qubits s" "\<And>a b. c_eq C a b \<longleftrightarrow> a = b"
  shows "\<exists>t. align_destination C s h beta = Inr t \<and> sum_inv W t \<and>
    sum_lookup t = (if beta = c_zero C then Map.empty else sum_lookup s) \<and>
    pm_num_qubits t = pm_num_qubits s \<and> gh_matrix (pm_hash t) = gh_matrix h \<and> gh_bits (pm_hash t) = gh_bits h"
proof (cases "beta = c_zero C")
  case True
  then show ?thesis
    by (simp add: align_destination_def assms(4) empty_with_hash_ok [OF assms(2,3)])
next
  case nz: False
  show ?thesis
  proof (cases "same_rows_as (pm_hash s) h")
    case False
    with with_hash_ok [OF assms(1-3)] nz show ?thesis by (auto simp: align_destination_def assms(4))
  next
    case True
    then have "gh_bits h \<le> hash_max_bits (pm_hash s)"
      using assms(2) by (simp add: same_rows_as_def wf_hash_def hash_max_bits_def)
    from move_to_bits [OF assms(1) this] True nz show ?thesis
      by (auto simp: align_destination_def assms(4) coarsen_to_def same_rows_as_def same_sum_def)
  qed
qed

section \<open>Bucket-wise combination\<close>

lemma sum_lookup_bucket:
  "sum_inv W s \<Longrightarrow> sum_lookup s k = map_of (terms_of (pm_buckets s ! bucket_ix (pm_hash s) k)) k"
  using bucketed_lookup [of "bucket_ix (pm_hash s)" "map terms_of (pm_buckets s)" k] bucket_ix_less [of W s k]
  by (simp add: sum_inv_def sum_lookup_def sum_iter_def)

definition combine ::
    "('c pauli_term list \<Rightarrow> 'c pauli_term list \<Rightarrow> 'c pauli_term list) \<Rightarrow> 'c pauli_sum \<Rightarrow> 'c pauli_sum \<Rightarrow>
     'c bucket_columns list" where
  "combine g s r = map (\<lambda>(a, b). columns_of (g (terms_of a) (terms_of b))) (zip (pm_buckets s) (pm_buckets r))"

lemma combine_ok:
  assumes "sum_inv W s" "sum_inv W r" "gh_matrix (pm_hash r) = gh_matrix (pm_hash s)"
    "gh_bits (pm_hash r) = gh_bits (pm_hash s)" "pm_num_qubits r = pm_num_qubits s"
    and g: "\<And>as bs. run as \<Longrightarrow> run bs \<Longrightarrow> run (g as bs)"
      "\<And>as bs. fst ` set (g as bs) \<subseteq> fst ` set as \<union> fst ` set bs"
      "\<And>as bs k. run as \<Longrightarrow> run bs \<Longrightarrow> map_of (g as bs) k = G (map_of as k) (map_of bs k)"
  defines "t \<equiv> recount (s\<lparr>pm_buckets := combine g s r\<rparr>)"
  shows "sum_inv W t" "sum_lookup t k = G (sum_lookup s k) (sum_lookup r k)"
proof -
  let ?L = "map terms_of (pm_buckets s)" and ?M = "map terms_of (pm_buckets r)"
  note s = assms(1) [unfolded sum_inv_def] and r = assms(2) [unfolded sum_inv_def]
  have ix: "bucket_ix (pm_hash r) = bucket_ix (pm_hash s)"
    using assms(3,4) by (simp add: bucket_ix_def [abs_def] bucket_of_def)
  have len: "length ?L = length ?M" using s r assms(4) by (simp add: hash_num_buckets_def)
  have L: "bucketed (bucket_ix (pm_hash s)) ?L" "bucketed (bucket_ix (pm_hash s)) ?M"
    using s r ix by auto
  let ?N = "map (\<lambda>(as, bs). g as bs) (zip ?L ?M)"
  have b: "bucket_ix (pm_hash s) k < length ?L" using bucket_ix_less [OF assms(1)] by simp
  have z: "bucketed (bucket_ix (pm_hash s)) ?N"
    "map_of (concat ?N) k = map_of (g (?L ! bucket_ix (pm_hash s) k) (?M ! bucket_ix (pm_hash s) k)) k"
    "fst ` set (concat ?N) \<subseteq> fst ` set (concat ?L) \<union> fst ` set (concat ?M)"
    using bucketed_zip [of "bucket_ix (pm_hash s)" ?L ?M g, OF L len g(1,2)] b by blast+
  have terms: "map terms_of (combine g s r) = map (\<lambda>(as, bs). g as bs) (zip ?L ?M)"
    by (simp add: combine_def zip_map_map comp_def split_def)
  have keys: "key_ok W (pm_num_qubits s) (fst u)" if "u \<in> set (concat (map terms_of (combine g s r)))" for u
  proof -
    have "fst u \<in> fst ` set (sum_iter s) \<union> fst ` set (sum_iter r)"
      using z(3) that unfolding terms sum_iter_def by blast
    then show ?thesis using s r assms(5) by auto
  qed
  have wf: "\<forall>cols \<in> set (combine g s r). wf_columns cols" by (auto simp: combine_def)
  have "length (combine g s r) = hash_num_buckets (pm_hash s)"
    using len s by (simp add: combine_def)
  then show "sum_inv W t"
    using s z(1) keys wf
    by (simp add: t_def recount_def sum_inv_def sum_len_eq sum_iter_def terms [symmetric] del: set_concat)
  have "sum_lookup t k = map_of (g (?L ! bucket_ix (pm_hash s) k) (?M ! bucket_ix (pm_hash s) k)) k"
    using z(2) by (simp add: t_def recount_def sum_lookup_def sum_iter_def terms)
  also have "\<dots> = G (map_of (?L ! bucket_ix (pm_hash s) k) k) (map_of (?M ! bucket_ix (pm_hash s) k) k)"
    using L b len by (intro g(3)) (auto simp: bucketed_def)
  also have "\<dots> = G (sum_lookup s k) (sum_lookup r k)"
    using b len by (simp add: sum_lookup_bucket [OF assms(1)] sum_lookup_bucket [OF assms(2)] ix)
  finally show "sum_lookup t k = G (sum_lookup s k) (sum_lookup r k)" .
qed

section \<open>Adding sums\<close>

definition coeff_or_zero :: "'c coefficient \<Rightarrow> 'c option \<Rightarrow> 'c" where
  "coeff_or_zero C r = (case r of Some c \<Rightarrow> c | None \<Rightarrow> c_zero C)"

definition coeff_at :: "'c coefficient \<Rightarrow> 'c pauli_sum \<Rightarrow> key \<Rightarrow> 'c" where
  "coeff_at C s k = coeff_or_zero C (sum_get s k)"

definition drop_zero :: "'c coefficient \<Rightarrow> 'c \<Rightarrow> 'c option" where
  "drop_zero C v = (if v = c_zero C then None else Some v)"

lemma sum_add_ok:
  assumes "sum_inv W s" "sum_inv W other" "pm_num_qubits s = pm_num_qubits other"
    "\<And>a b. c_eq C a b \<longleftrightarrow> a = b"
  shows "\<exists>t. sum_add C s other = Inr t \<and> sum_inv W t \<and> pm_hash t = pm_hash s \<and>
    (\<forall>k. sum_lookup t k = merged (\<lambda>p q. drop_zero C (c_add C p q)) (sum_lookup s k) (sum_lookup other k))"
proof -
  let ?f = "\<lambda>p q. drop_zero C (c_add C p q)"
  have h: "wf_hash W (pm_hash s)" "hash_num_qubits (pm_hash s) = pm_num_qubits other"
    using assms(1,3) by (auto simp: sum_inv_def)
  from align_to_ok [OF assms(2) h] obtain r where r: "align_to other (pm_hash s) = Inr r"
      "same_sum W other r" "gh_matrix (pm_hash r) = gh_matrix (pm_hash s)" "gh_bits (pm_hash r) = gh_bits (pm_hash s)"
    by blast
  have rs: "sum_inv W r" "pm_num_qubits r = pm_num_qubits other" using r(2) by (simp_all add: same_sum_def)
  define t where "t = recount (s\<lparr>pm_buckets := combine (merge_runs ?f) s r\<rparr>)"
  have eq: "(\<lambda>p q. if \<not> c_eq C (c_add C p q) (c_zero C) then Some (c_add C p q) else None) = ?f"
    by (simp add: fun_eq_iff drop_zero_def assms(4))
  have "sum_add C s other = Inr t"
    using assms(3) unfolding sum_add_def Let_def eq
    by (simp add: r(1) t_def recount_def combine_def merge_sorted_def [abs_def])
  moreover have "sum_inv W t"
    and "sum_lookup t k = merged ?f (sum_lookup s k) (sum_lookup r k)" for k
    unfolding t_def using r(3,4) rs assms(1,3)
    by (intro combine_ok [where G = "merged ?f"] run_merge_runs fst_merge_runs map_of_merge_runs;
        simp)+
  moreover have "pm_hash t = pm_hash s" by (simp add: t_def recount_def)
  ultimately show ?thesis using r(2) by (auto simp: same_sum_def)
qed

lemma scaled_run:
  assumes "run as"
  shows "run (map (\<lambda>(k, c). (k, c_mul C c f)) as)"
    and "map_of (map (\<lambda>(k, c). (k, c_mul C c f)) as) k = map_option (\<lambda>c. c_mul C c f) (map_of as k)"
  using run_map_snd [OF assms, of "\<lambda>k c. c_mul C c f"] by (simp_all add: map_of_map)

context coefficient_laws
begin

lemma drop_zero_merged:
  "(case merged (\<lambda>p q. Some (c_add C p q)) a b of Some v \<Rightarrow> if is_nonzero C v then Some v else None | None \<Rightarrow> None)
     = drop_zero C (c_add C (coeff_or_zero C a) (coeff_or_zero C b))"
  by (cases a; cases b) (simp_all add: coeff_or_zero_def drop_zero_def nonzero_iff add_zero)

lemma summed_lookup:
  assumes "run as" "run bs"
  shows "map_of (summed_runs C (\<lambda>_ _. True) (map (\<lambda>(k, c). (k, c_mul C c f)) as) (map (\<lambda>(k, c). (k, c_mul C c g)) bs)) k
    = drop_zero C (c_add C (c_mul C (coeff_or_zero C (map_of as k)) f) (c_mul C (coeff_or_zero C (map_of bs k)) g))"
proof -
  let ?as = "map (\<lambda>(k, c). (k, c_mul C c f)) as" and ?bs = "map (\<lambda>(k, c). (k, c_mul C c g)) bs"
  note r = scaled_run [OF assms(1), of C f] scaled_run [OF assms(2), of C g]
  have "distinct (map fst (merge_runs (\<lambda>p q. Some (c_add C p q)) ?as ?bs))"
    by (intro run_distinct run_merge_runs r)
  then have eq: "map_of (summed_runs C (\<lambda>_ _. True) ?as ?bs) k =
      drop_zero C (c_add C (coeff_or_zero C (map_of ?as k)) (coeff_or_zero C (map_of ?bs k)))"
    unfolding summed_runs_eq drop_zero_merged [symmetric]
    by (simp add: map_of_filter_distinct map_of_merge_runs [OF r(1,3)] del: map_of_map split: option.splits)
  have "coeff_or_zero C (map_of ?as k) = c_mul C (coeff_or_zero C (map_of as k)) f" "coeff_or_zero C (map_of ?bs k) = c_mul C (coeff_or_zero C (map_of bs k)) g"
    unfolding r by (auto simp: coeff_or_zero_def mul_zero split: option.splits)
  then show ?thesis unfolding eq by simp
qed

lemma add_scaled_ok:
  assumes "sum_inv W s" "sum_inv W other" "pm_num_qubits s = pm_num_qubits other"
  shows "\<exists>t. add_scaled C s other alpha beta = Inr t \<and> sum_inv W t \<and>
    (\<forall>k. sum_lookup t k =
      drop_zero C (c_add C (c_mul C (coeff_or_zero C (sum_lookup s k)) beta) (c_mul C (coeff_or_zero C (sum_lookup other k)) alpha)))"
proof -
  let ?g = "\<lambda>as bs. summed_runs C (\<lambda>_ _. True) (map (\<lambda>(k, c). (k, c_mul C c beta)) as)
    (map (\<lambda>(k, c). (k, c_mul C c alpha)) bs)"
  let ?G = "\<lambda>a b. drop_zero C (c_add C (c_mul C (coeff_or_zero C a) beta) (c_mul C (coeff_or_zero C b) alpha))"
  have h: "wf_hash W (pm_hash other)" "hash_num_qubits (pm_hash other) = pm_num_qubits s"
    using assms(2,3) by (auto simp: sum_inv_def)
  from align_destination_ok [OF assms(1) h eq_iff, of beta]
  obtain d where d: "align_destination C s (pm_hash other) beta = Inr d" "sum_inv W d"
      "sum_lookup d = (if beta = c_zero C then Map.empty else sum_lookup s)" "pm_num_qubits d = pm_num_qubits s"
    by blast
  have "wf_hash W (pm_hash d)" "hash_num_qubits (pm_hash d) = pm_num_qubits other"
    using d(2,4) assms(3) by (auto simp: sum_inv_def)
  from align_to_ok [OF assms(2) this] obtain r where r: "align_to other (pm_hash d) = Inr r"
      "same_sum W other r" "gh_matrix (pm_hash r) = gh_matrix (pm_hash d)" "gh_bits (pm_hash r) = gh_bits (pm_hash d)"
    by blast
  have rs: "sum_inv W r" "pm_num_qubits r = pm_num_qubits other" using r(2) by (simp_all add: same_sum_def)
  define t where "t = recount (d\<lparr>pm_buckets := combine ?g d r\<rparr>)"
  have keys: "fst ` set (?g as bs) \<subseteq> fst ` set as \<union> fst ` set bs" for as bs
    using summed_runs_keys [of "map (\<lambda>(k, c). (k, c_mul C c beta)) as"
        "\<lambda>k. k \<in> fst ` set as \<union> fst ` set bs" "map (\<lambda>(k, c). (k, c_mul C c alpha)) bs" C "\<lambda>_ _. True"]
    by force
  have run: "run (?g as bs)" if "run as" "run bs" for as bs
    unfolding summed_runs_eq by (intro run_filter run_merge_runs scaled_run that)
  have t: "sum_inv W t" "sum_lookup t k = ?G (sum_lookup d k) (sum_lookup r k)" for k
    unfolding t_def using r(3,4) rs d(2,4) assms(3)
    by (intro combine_ok [where G = ?G] run keys summed_lookup; simp)+
  from rebucket_ok [OF t(1)] obtain u where u: "rebucket t DEFAULT_TARGET_BUCKET_LEN DEFAULT_MIN_BUCKETS = Inr u"
      "same_sum W t u" by blast
  have "add_scaled C s other alpha beta = Inr u"
    using u(1) by (simp add: add_scaled_def assms(3) d(1) r(1) t_def combine_def merge_summed_def
        scaled_terms_def Let_def)
  moreover have "c_mul C (coeff_or_zero C (sum_lookup d k)) beta = c_mul C (coeff_or_zero C (sum_lookup s k)) beta" for k
    by (simp add: d(3) mul_zero)
  ultimately show ?thesis using u(2) t(2) r(2) by (auto simp: same_sum_def)
qed

end

section \<open>Overlap\<close>

context coefficient_laws
begin

abbreviation emb :: "'c option \<Rightarrow> complex" where
  "emb r \<equiv> to_complex64 C (coeff_or_zero C r)"

text \<open>The merge-join adds up one product per term of the left run, against the right run's lookup.\<close>

lemma overlap_runs_value:
  assumes "run as" "run bs"
  shows "to_complex64 C (overlap_runs C as bs partial) =
    to_complex64 C partial + (\<Sum>(k, a)\<leftarrow>as. cnj (to_complex64 C a) * emb (map_of bs k))"
  using assms
proof (induction as arbitrary: bs partial)
  case (Cons t as)
  obtain k a where t: "t = (k, a)" by (cases t)
  note IH = Cons.IH
  have as: "run as" "\<forall>u \<in> set as. k < fst u" using Cons.prems(1) by (auto simp: run_Cons t)
  show ?case
    using Cons.prems(2)
  proof (induction bs arbitrary: partial)
    case Nil
    have "(\<Sum>(k, a)\<leftarrow>us. cnj (to_complex64 C a) * emb None) = 0" for us :: "'c pauli_term list"
      by (induction us) (auto simp: coeff_or_zero_def embed)
    then show ?case by (simp add: t coeff_or_zero_def embed)
  next
    case (Cons u bs)
    obtain l b where u: "u = (l, b)" by (cases u)
    have bs: "run bs" "\<forall>v \<in> set bs. l < fst v" using Cons.prems by (auto simp: run_Cons u)
    have skip: "(\<Sum>(k, a)\<leftarrow>us. cnj (to_complex64 C a) * emb (map_of ((l, b) # bs) k)) =
        (\<Sum>(k, a)\<leftarrow>us. cnj (to_complex64 C a) * emb (map_of bs k))"
      if "\<forall>v \<in> set us. l < fst v" for us :: "'c pauli_term list"
      using that by (intro arg_cong [where f = sum_list] map_cong) auto
    show ?case
    proof (cases k l rule: linorder_cases)
      case less
      then have "map_of ((l, b) # bs) k = None"
        by (intro run_lookup_None) (use bs(2) in auto)
      with less show ?thesis
        using IH [OF as(1) Cons.prems] 
        by (simp add: t u coeff_or_zero_def embed)
    next
      case equal
      show ?thesis
        using IH [OF as(1) bs(1)] skip [of as] as(2) equal
        by (simp add: t u coeff_or_zero_def embed add.assoc)
    next
      case greater
      then have "\<forall>v \<in> set (t # as). l < fst v" using as(2) by (auto simp: t)
      moreover have "overlap_runs C (t # as) (u # bs) partial = overlap_runs C (t # as) bs partial"
        using greater by (auto simp: t u)
      ultimately show ?thesis using Cons.IH [OF bs(1), of partial] skip [of "t # as"] by (simp only: u)
    qed
  qed
qed (simp add: coeff_or_zero_def)

lemma sum_overlap_ok:
  assumes "sum_inv W s" "sum_inv W other" "pm_num_qubits s = pm_num_qubits other"
  shows "\<exists>v. sum_overlap C s other = Inr v \<and>
    to_complex64 C v = (\<Sum>(k, a)\<leftarrow>sum_iter s. cnj (to_complex64 C a) * emb (sum_lookup other k))"
proof -
  have h: "wf_hash W (pm_hash s)" "hash_num_qubits (pm_hash s) = pm_num_qubits other"
    using assms(1,3) by (auto simp: sum_inv_def)
  from align_to_ok [OF assms(2) h] obtain r where r: "align_to other (pm_hash s) = Inr r" "sum_inv W r"
      "sum_lookup r = sum_lookup other" "gh_matrix (pm_hash r) = gh_matrix (pm_hash s)"
      "gh_bits (pm_hash r) = gh_bits (pm_hash s)"
    by (auto simp: same_sum_def)
  have ix: "bucket_ix (pm_hash r) = bucket_ix (pm_hash s)"
    using r(4,5) by (simp add: bucket_ix_def [abs_def] bucket_of_def)
  have len: "length (pm_buckets r) = length (pm_buckets s)"
    using r(2,5) assms(1) by (simp add: sum_inv_def hash_num_buckets_def)
  let ?summand = "\<lambda>(k, a). cnj (to_complex64 C a) * emb (sum_lookup other k)"
  have bucket: "to_complex64 C (overlap_runs C (terms_of (pm_buckets s ! b)) (terms_of (pm_buckets r ! b)) (c_zero C)) =
      sum_list (map ?summand (terms_of (pm_buckets s ! b)))" if b: "b < length (pm_buckets s)" for b
  proof -
    have "sum_lookup other k = map_of (terms_of (pm_buckets r ! b)) k"
      if "(k, a) \<in> set (terms_of (pm_buckets s ! b))" for k a
      using sum_inv_bucket(3) [OF assms(1) b] sum_lookup_bucket [OF r(2), of k] r(3) ix that by fastforce
    then have "sum_list (map ?summand (terms_of (pm_buckets s ! b))) =
        (\<Sum>(k, a)\<leftarrow>terms_of (pm_buckets s ! b). cnj (to_complex64 C a) * emb (map_of (terms_of (pm_buckets r ! b)) k))"
      by (intro arg_cong [where f = sum_list] map_cong) auto
    then show ?thesis
      using overlap_runs_value [OF sum_inv_bucket(2) [OF assms(1) b] sum_inv_bucket(2) [OF r(2)]] b len
      by (simp add: embed)
  qed
  let ?parts = "map (\<lambda>(a, b). overlap_runs C (terms_of a) (terms_of b) (c_zero C)) (zip (pm_buckets s) (pm_buckets r))"
  have "map (to_complex64 C) ?parts = map (\<lambda>cols. sum_list (map ?summand (terms_of cols))) (pm_buckets s)"
    using bucket len by (intro nth_equalityI) auto
  then have "sum_list (map (to_complex64 C) ?parts) = sum_list (map ?summand (sum_iter s))"
    by (simp only: sum_iter_def sum_list_map_concat map_map comp_def)
  then show ?thesis
    by (simp add: sum_overlap_def assms(3) r(1) embed_fold_add embed)
qed

end

section \<open>Properties\<close>

text \<open>
  \<open>add\<close> is the key-wise sum, partitioned as its first argument: a key of one sum keeps its
  coefficient, a shared key gets the sum of the two, and a sum of exactly zero is dropped. Sums over
  different qubit counts are refused.
\<close>

lemma sum_add_is_keywise:
  assumes "coefficient_laws C" "sum_inv W s" "sum_inv W other"
  shows "if pm_num_qubits s = pm_num_qubits other
    then \<exists>t. sum_add C s other = Inr t \<and> sum_inv W t \<and> pm_hash t = pm_hash s \<and>
      (\<forall>k. sum_get t k =
        (case (sum_get s k, sum_get other k) of
           (Some p, Some q) \<Rightarrow> if c_add C p q = c_zero C then None else Some (c_add C p q)
         | (Some p, None) \<Rightarrow> Some p
         | (None, r) \<Rightarrow> r))
    else sum_add C s other = Inl NumQubitsMismatch"
proof (cases "pm_num_qubits s = pm_num_qubits other")
  case True
  from sum_add_ok [OF assms(2,3) True coefficient_laws.eq_iff [OF assms(1)]]
  obtain t where t: "sum_add C s other = Inr t" "sum_inv W t" "pm_hash t = pm_hash s"
      "\<And>k. sum_lookup t k = merged (\<lambda>p q. drop_zero C (c_add C p q)) (sum_lookup s k) (sum_lookup other k)"
    by blast
  have "sum_get t k =
        (case (sum_get s k, sum_get other k) of
           (Some p, Some q) \<Rightarrow> if c_add C p q = c_zero C then None else Some (c_add C p q)
         | (Some p, None) \<Rightarrow> Some p
         | (None, r) \<Rightarrow> r)" for k
    using t(4) [of k]
    by (simp add: sum_get_lookup [OF assms(2)] sum_get_lookup [OF assms(3)] sum_get_lookup [OF t(2)]
        merged_def drop_zero_def split: option.splits)
  with t True show ?thesis by auto
qed (simp add: sum_add_def assert_that_def)

text \<open>
  C14. \<open>add_scaled\<close> computes \<open>alpha * other + beta * self\<close> key by key, storing exactly the nonzero
  results, whatever the two hashes and bucket counts are, and leaves a sum that satisfies the
  invariant.
\<close>

theorem add_scaled_is_linear:
  assumes "coefficient_laws C" "sum_inv W s" "sum_inv W other" "pm_num_qubits s = pm_num_qubits other"
  shows "\<exists>t. add_scaled C s other alpha beta = Inr t \<and> sum_inv W t \<and>
    (\<forall>k. let v = c_add C (c_mul C (coeff_at C s k) beta) (c_mul C (coeff_at C other k) alpha)
         in sum_get t k = (if v = c_zero C then None else Some v))"
proof -
  from coefficient_laws.add_scaled_ok [OF assms]
  obtain t where "add_scaled C s other alpha beta = Inr t" "sum_inv W t"
      "\<And>k. sum_lookup t k = drop_zero C (c_add C (c_mul C (coeff_or_zero C (sum_lookup s k)) beta)
        (c_mul C (coeff_or_zero C (sum_lookup other k)) alpha))"
    by blast
  then show ?thesis
    by (intro exI [of _ t])
      (simp add: coeff_at_def sum_get_lookup [OF assms(2)] sum_get_lookup [OF assms(3)]
        sum_get_lookup [of W t] drop_zero_def Let_def)
qed

text \<open>
  C15. \<open>overlap\<close>, a merge-join of aligned buckets summed in bucket order, is the inner product of the two
  sums: over the terms of the first, the conjugate coefficient times the coefficient the second has for
  the key, zero when it has none.
\<close>

theorem sum_overlap_is_inner_product:
  assumes "coefficient_laws C" "sum_inv W s" "sum_inv W other" "pm_num_qubits s = pm_num_qubits other"
  shows "\<exists>v. sum_overlap C s other = Inr v \<and>
    to_complex64 C v = (\<Sum>(k, a)\<leftarrow>sum_iter s. cnj (to_complex64 C a) * to_complex64 C (coeff_at C other k))"
  using coefficient_laws.sum_overlap_ok [OF assms]
  by (simp add: coeff_at_def sum_get_lookup [OF assms(3)])

section \<open>The bucket-count policy\<close>

lemma bits_floor_spec:
  "lower \<le> INDEX_BITS \<Longrightarrow> lower \<le> bits_floor m lower \<and> bits_floor m lower \<le> INDEX_BITS \<and>
     (\<forall>b. lower \<le> b \<and> b < bits_floor m lower \<longrightarrow> 2 ^ b < m)"
proof (induction m lower rule: bits_floor.induct)
  case (1 m lower)
  show ?case
  proof (cases "2 ^ lower < m \<and> lower < INDEX_BITS")
    case True
    then have "bits_floor m lower = bits_floor m (lower + 1)" by (subst bits_floor.simps) simp
    moreover have "lower + 1 \<le> bits_floor m (lower + 1) \<and> bits_floor m (lower + 1) \<le> INDEX_BITS \<and>
        (\<forall>b. lower + 1 \<le> b \<and> b < bits_floor m (lower + 1) \<longrightarrow> 2 ^ b < m)"
      using 1 True by simp
    ultimately show ?thesis
      using True by (metis Suc_eq_plus1 Suc_le_eq Suc_leD le_neq_implies_less)
  next
    case False
    then have "bits_floor m lower = lower" by (subst bits_floor.simps) auto
    then show ?thesis using 1 by simp
  qed
qed

lemma bits_for_len_spec:
  "lower \<le> INDEX_BITS \<Longrightarrow> lower \<le> bits_for_len n t lower \<and> bits_for_len n t lower \<le> INDEX_BITS \<and>
     (bits_for_len n t lower < INDEX_BITS \<longrightarrow> n \<le> saturating_mul t (2 ^ bits_for_len n t lower)) \<and>
     (\<forall>b. lower \<le> b \<and> b < bits_for_len n t lower \<longrightarrow> saturating_mul t (2 ^ b) < n)"
proof (induction n t lower rule: bits_for_len.induct)
  case (1 n t lower)
  show ?case
  proof (cases "lower < INDEX_BITS \<and> n > saturating_mul t (2 ^ lower)")
    case True
    then have "bits_for_len n t lower = bits_for_len n t (lower + 1)" by (subst bits_for_len.simps) simp
    moreover have "lower + 1 \<le> INDEX_BITS" using True by simp
    note 1(1) [OF True this]
    ultimately show ?thesis
      using True by (metis Suc_eq_plus1 Suc_le_eq Suc_leD le_neq_implies_less)
  next
    case False
    then have "bits_for_len n t lower = lower" by (subst bits_for_len.simps) auto
    then show ?thesis using 1 False by auto
  qed
qed

lemma desired_bits_spec:
  shows "desired_bits len target m \<le> INDEX_BITS"
    and "desired_bits len target m < INDEX_BITS \<Longrightarrow> len \<le> saturating_mul target (2 ^ desired_bits len target m)"
    and "b < desired_bits len target m \<Longrightarrow> saturating_mul target (2 ^ b) < len \<or>
        saturating_mul m MIN_TERMS_PER_TASK \<le> len \<and> 2 ^ b < m"
proof -
  define lower where
    "lower = (if len \<ge> saturating_mul m MIN_TERMS_PER_TASK then bits_floor m 0 else 0)"
  have l: "lower \<le> INDEX_BITS" "\<And>b. b < lower \<Longrightarrow> saturating_mul m MIN_TERMS_PER_TASK \<le> len \<and> 2 ^ b < m"
    using bits_floor_spec [of 0 m] by (auto simp: lower_def split: if_splits)
  have d: "desired_bits len target m = bits_for_len len target lower"
    by (simp add: desired_bits_def lower_def)
  note spec = bits_for_len_spec [OF l(1), of len target]
  show "desired_bits len target m \<le> INDEX_BITS"
    and "desired_bits len target m < INDEX_BITS \<Longrightarrow> len \<le> saturating_mul target (2 ^ desired_bits len target m)"
    unfolding d using spec by blast+
  show "saturating_mul target (2 ^ b) < len \<or> saturating_mul m MIN_TERMS_PER_TASK \<le> len \<and> 2 ^ b < m"
    if "b < desired_bits len target m"
    using spec l(2) [of b] that unfolding d by (cases "b < lower") auto
qed

text \<open>
  \<open>desired_bits\<close> is the smallest admissible bucket count: it stays within the index width, below
  the cap the buckets average at most \<open>target\<close> terms, and every smaller count either averages more or
  is below the parallelism floor of a sum worth splitting.
\<close>

theorem desired_bits_smallest:
  "desired_bits len target m \<le> INDEX_BITS
   \<and> (desired_bits len target m < INDEX_BITS \<longrightarrow>
        len \<le> saturating_mul target (2 ^ desired_bits len target m))
   \<and> (\<forall>b < desired_bits len target m.
        saturating_mul target (2 ^ b) < len \<or>
        saturating_mul m MIN_TERMS_PER_TASK \<le> len \<and> 2 ^ b < m)"
  using desired_bits_spec by blast

text \<open>
  C16. The rebucketing hysteresis: once a sum of \<open>len1\<close> terms has been refined to \<open>b\<close> bits, to more than the
  parallelism floor alone asks for (\<open>m \<le> 2^(b - 1)\<close>) and with no product saturating, it is coarsened again only at a
  length below a quarter of \<open>len1\<close>; and the policy is stable, so asking again at the count it chose changes nothing.
\<close>

theorem rebucket_hysteresis:
  assumes "target * 2 ^ INDEX_BITS \<le> usize_max" "len2 * COARSEN_BELOW \<le> usize_max"
    and "bits < desired_bits len1 target m" "b = rebucketed_bits len1 bits target m" "m \<le> 2 ^ (b - 1)"
    and "rebucketed_bits len2 b target m < b"
  shows "4 * len2 < len1 \<and> rebucketed_bits len1 b target m = b"
proof -
  have b: "b = desired_bits len1 target m" using assms(3,4) by (simp add: rebucketed_bits_def)
  with assms(3) have pos: "b - 1 < desired_bits len1 target m" and two: "2 ^ b = 2 * (2 :: nat) ^ (b - 1)"
    by (auto simp flip: power_Suc)
  have le: "b \<le> INDEX_BITS" using desired_bits_spec(1) b by simp
  have sat: "saturating_mul target (2 ^ i) = target * 2 ^ i" if "i \<le> INDEX_BITS" for i
  proof -
    have "target * 2 ^ i \<le> target * 2 ^ INDEX_BITS" using that by (intro mult_le_mono2 power_increasing) auto
    also note assms(1)
    finally show ?thesis by (simp add: saturating_mul_def min_def)
  qed
  have "target * 2 ^ (b - 1) < len1"
    using desired_bits_spec(3) [OF pos] assms(5) sat [of "b - 1"] le by simp
  moreover have "len2 * COARSEN_BELOW < target * 2 ^ b"
    using assms(2,6) sat [OF le] by (auto simp: rebucketed_bits_def saturating_mul_def Let_def split: if_splits)
  ultimately have "4 * len2 < len1" by (simp add: two COARSEN_BELOW_def)
  moreover have "rebucketed_bits len1 b target m = b" using b by (simp add: rebucketed_bits_def)
  ultimately show ?thesis ..
qed

section \<open>Concrete instances\<close>

theorem add_scaled_is_linear_witness:
  "\<exists>t. add_scaled complex_coefficient (example_sum 1) (example_sum 2) 2 (- 2) = Inr t \<and>
     sum_get t ([1], [0]) = None"
proof -
  have "coeff_at complex_coefficient (example_sum b) ([1], [0]) = 3" if "b \<le> 2" for b
    using that by (simp add: coeff_at_def coeff_or_zero_def sum_get_lookup [OF example_sum_inv(1)] example_sum_inv)
  then show ?thesis
    using add_scaled_is_linear [OF complex_c.coefficient_laws_axioms example_sum_inv(1) example_sum_inv(1),
        of 1 2 2 "- 2"]
    by (auto simp: example_sum_inv complex_coefficient_def Let_def complex_eq_iff)
qed

theorem sum_overlap_is_inner_product_witness:
  "\<exists>v. sum_overlap complex_coefficient (example_sum 1) (example_sum 2) = Inr v"
  using sum_overlap_is_inner_product [OF complex_c.coefficient_laws_axioms example_sum_inv(1) example_sum_inv(1),
      of 1 2] example_sum_inv(3)
  by auto

lemma example_desired_bits: "desired_bits 4096 1024 1 = 2" "desired_bits 100 1024 1 = 0"
  by (simp_all add: desired_bits_def saturating_mul_def usize_max_def MIN_TERMS_PER_TASK_def
      bits_floor.simps bits_for_len.simps INDEX_BITS_def)

text \<open>
  At the parallelism floor there is no such gap: under the default target and floor a sum of 8192 terms is refined from 3 bits
  to 7, and one term fewer coarsens it to 3 again.
\<close>

theorem rebucket_at_floor:
  "rebucketed_bits 8192 3 DEFAULT_TARGET_BUCKET_LEN DEFAULT_MIN_BUCKETS = 7 \<and>
   rebucketed_bits 8191 7 DEFAULT_TARGET_BUCKET_LEN DEFAULT_MIN_BUCKETS = 3"
proof -
  have "desired_bits 8192 1024 128 = 7" "desired_bits 8191 1024 128 = 3"
    by (simp_all add: desired_bits_def saturating_mul_def usize_max_def MIN_TERMS_PER_TASK_def bits_floor.simps bits_for_len.simps INDEX_BITS_def)
  then show ?thesis
    by (simp add: rebucketed_bits_def Let_def DEFAULT_TARGET_BUCKET_LEN_def DEFAULT_MIN_BUCKETS_def saturating_mul_def usize_max_def COARSEN_BELOW_def)
qed

theorem rebucket_hysteresis_witness:
  "4 * 100 < (4096 :: nat) \<and> rebucketed_bits 4096 2 1024 1 = 2"
proof -
  note want = example_desired_bits
  have vals: "rebucketed_bits 4096 0 1024 1 = 2" "rebucketed_bits 100 2 1024 1 < 2"
    by (simp_all add: rebucketed_bits_def Let_def want [simplified] saturating_mul_def usize_max_def COARSEN_BELOW_def)
  show ?thesis
    using rebucket_hysteresis [of 1024 100 0 4096 1 2] vals want
    by (simp add: usize_max_def INDEX_BITS_def COARSEN_BELOW_def)
qed

end
