(* ===== verification/Partition.thy ===== *)
theory Partition
  imports Storage_Algebra
begin

unbundle bit_operations_syntax

text \<open>
  \<open>pauli_sum/partition.rs\<close>: scatter and gather of a sum across the partitions of the partitioned engine.
  Filtering by every rank and merging the parts gives the sum back; cutting the columns of
  \<open>to_arrays\<close> by the bucket lengths does so too.
\<close>

section \<open>Scatter\<close>

definition filter_bucket :: "'c bucket_columns \<Rightarrow> partition_rows \<Rightarrow> u32 \<Rightarrow> 'c bucket_columns" where
  "filter_bucket cols rows rank =
     fold (\<lambda>(k, c) out. if partition_of rows k = rank then columns_push out k c else out)
       (terms_of cols) columns_new"

definition filter_partition :: "'c pauli_sum \<Rightarrow> partition_rows \<Rightarrow> u32 \<Rightarrow> 'c pauli_sum" where
  "filter_partition s rows rank =
     (let buckets = map (\<lambda>cols. filter_bucket cols rows rank) (pm_buckets s)
      in \<lparr>pm_buckets = buckets, pm_hash = pm_hash s, pm_num_qubits = pm_num_qubits s,
          pm_len = sum_list (map columns_len buckets)\<rparr>)"

section \<open>Gather\<close>

text \<open>One round of \<open>merge_disjoint_runs\<close>: neighbours are merged, an odd run out is carried over.\<close>

fun pair_round :: "'c bucket_columns list \<Rightarrow> 'c bucket_columns list" where
  "pair_round (a # b # rest) = merge_sorted keys_are_disjoint a b # pair_round rest"
| "pair_round rest = rest"

lemma length_pair_round: "length (pair_round runs) \<le> length runs"
  by (induction runs rule: pair_round.induct) auto

lemma length_pair_round_less: "1 < length runs \<Longrightarrow> length (pair_round runs) < length runs"
  by (cases runs rule: pair_round.cases) (auto simp: less_Suc_eq_le intro: le_SucI length_pair_round)

function merge_disjoint_runs :: "'c bucket_columns list \<Rightarrow> 'c bucket_columns" where
  "merge_disjoint_runs runs =
     (if length runs > 1 then merge_disjoint_runs (pair_round runs)
      else case runs of [] \<Rightarrow> columns_new | _ \<Rightarrow> last runs)"
  by pat_completeness auto
termination merge_disjoint_runs
  by (relation "measure length") (simp_all add: length_pair_round_less)

declare merge_disjoint_runs.simps [simp del]

fun check_parts :: "gf2_hash \<Rightarrow> 'c pauli_sum list \<Rightarrow> unit result" where
  "check_parts h [] = Inr ()"
| "check_parts h (p # ps) =
     and_then (assert_that (same_rows_as (pm_hash p) h) HashMismatch) (\<lambda>_.
     and_then (assert_that (gh_bits (pm_hash p) = gh_bits h) BucketCountMismatch) (\<lambda>_.
       check_parts h ps))"

text \<open>The run lists of the gather: bucket \<open>b\<close> of every part, in the order of the parts.\<close>

definition merge_partitions :: "'c pauli_sum list \<Rightarrow> 'c pauli_sum result" where
  "merge_partitions parts =
     (case parts of
        [] \<Rightarrow> Inl NoInputs
      | first # rest \<Rightarrow>
          and_then (check_parts (pm_hash first) rest) (\<lambda>_.
            let runs = map (\<lambda>b. map (\<lambda>p. pm_buckets p ! b) parts) [0..<hash_num_buckets (pm_hash first)]
            in Inr \<lparr>pm_buckets = map merge_disjoint_runs runs, pm_hash = pm_hash first,
                    pm_num_qubits = pm_num_qubits first, pm_len = sum_list (map pm_len parts)\<rparr>))"

text \<open>\<open>by_ref().take(n)\<close> for every bucket length in turn.\<close>

fun cut_columns :: "nat list \<Rightarrow> words list \<Rightarrow> words list \<Rightarrow> 'c list \<Rightarrow> 'c bucket_columns list" where
  "cut_columns [] x z coeff = []"
| "cut_columns (n # lens) x z coeff =
     \<lparr>col_x = take n x, col_z = take n z, col_coeff = take n coeff\<rparr>
       # cut_columns lens (drop n x) (drop n z) (drop n coeff)"

definition from_bucket_columns ::
    "nat list \<Rightarrow> words list \<Rightarrow> words list \<Rightarrow> 'c list \<Rightarrow> gf2_hash \<Rightarrow> nat \<Rightarrow> 'c pauli_sum result" where
  "from_bucket_columns lens x z coeff h num_qubits =
     and_then (assert_that (length lens = hash_num_buckets h) BucketCountMismatch) (\<lambda>_.
     and_then (assert_that (length x = length coeff \<and> length z = length coeff) ColumnsNotParallel) (\<lambda>_.
     and_then (assert_that (sum_list lens = length coeff) LengthMismatch) (\<lambda>_.
       Inr \<lparr>pm_buckets = cut_columns lens x z coeff, pm_hash = h, pm_num_qubits = num_qubits,
            pm_len = sum_list lens\<rparr>)))"

definition from_buckets :: "'c bucket_columns list \<Rightarrow> gf2_hash \<Rightarrow> nat \<Rightarrow> 'c pauli_sum result" where
  "from_buckets buckets h num_qubits =
     and_then (assert_that (length buckets = hash_num_buckets h) BucketCountMismatch) (\<lambda>_.
       Inr \<lparr>pm_buckets = buckets, pm_hash = h, pm_num_qubits = num_qubits,
            pm_len = sum_list (map columns_len buckets)\<rparr>)"

fun rank_scan :: "partition_rows \<Rightarrow> 'c pauli_term list \<Rightarrow> u32 option \<Rightarrow> u32 option" where
  "rank_scan rows [] seen = seen"
| "rank_scan rows ((k, c) # ts) seen =
     (case seen of
        None \<Rightarrow> rank_scan rows ts (Some (partition_of rows k))
      | Some s \<Rightarrow> if s = partition_of rows k then rank_scan rows ts seen else None)"

definition partition_rank_of_all :: "'c pauli_sum \<Rightarrow> partition_rows \<Rightarrow> u32 option" where
  "partition_rank_of_all s rows = rank_scan rows (sum_iter s) None"

section \<open>The parts of a sum\<close>

lemma filter_bucket_terms [simp]:
  "terms_of (filter_bucket cols rows rank) = filter (\<lambda>t. partition_of rows (fst t) = rank) (terms_of cols)"
  "wf_columns (filter_bucket cols rows rank)"
proof -
  have "terms_of (fold (\<lambda>(k, c) out. if partition_of rows k = rank then columns_push out k c else out) ts out) =
      terms_of out @ filter (\<lambda>t. partition_of rows (fst t) = rank) ts \<and>
      wf_columns (fold (\<lambda>(k, c) out. if partition_of rows k = rank then columns_push out k c else out) ts out)"
    if "wf_columns out" for ts and out :: "'a bucket_columns"
    using that by (induction ts arbitrary: out) (auto simp: columns_push_terms)
  from this [of columns_new] show
    "terms_of (filter_bucket cols rows rank) = filter (\<lambda>t. partition_of rows (fst t) = rank) (terms_of cols)"
    "wf_columns (filter_bucket cols rows rank)"
    by (simp_all add: filter_bucket_def)
qed

lemma filter_partition_fields [simp]:
  "pm_hash (filter_partition s rows rank) = pm_hash s"
  "pm_num_qubits (filter_partition s rows rank) = pm_num_qubits s"
  by (simp_all add: filter_partition_def)

lemma filter_partition_iter:
  "sum_iter (filter_partition s rows rank) = filter (\<lambda>t. partition_of rows (fst t) = rank) (sum_iter s)"
  by (simp add: sum_iter_def filter_partition_def filter_concat comp_def)

lemma filter_partition_inv:
  assumes "sum_inv W s"
  shows "sum_inv W (filter_partition s rows rank)"
proof -
  have "bucketed (bucket_ix (pm_hash s)) (map (\<lambda>cols. filter (\<lambda>t. partition_of rows (fst t) = rank) (terms_of cols)) (pm_buckets s))"
    using assms by (auto simp: sum_inv_def bucketed_def run_filter)
  moreover have "pm_len (filter_partition s rows rank) = length (sum_iter (filter_partition s rows rank))"
    using sum_len_eq [of "map (\<lambda>cols. filter_bucket cols rows rank) (pm_buckets s)"]
    by (simp add: filter_partition_def sum_iter_def)
  moreover have "\<forall>t \<in> set (sum_iter (filter_partition s rows rank)). key_ok W (pm_num_qubits s) (fst t)"
    using assms by (simp add: filter_partition_iter sum_inv_def)
  ultimately show ?thesis
    using assms by (auto simp: sum_inv_def filter_partition_def comp_def)
qed

section \<open>Merging disjoint runs\<close>

lemma merge_runs_disjoint:
  "run as \<Longrightarrow> run bs \<Longrightarrow> fst ` set as \<inter> fst ` set bs = {} \<Longrightarrow>
     set (merge_runs f as bs) = set as \<union> set bs \<and> length (merge_runs f as bs) = length as + length bs"
proof (induction f as bs rule: merge_runs.induct)
  case (1 f k a as l b bs)
  then have "k \<noteq> l" by auto
  with 1 show ?case by (auto simp: run_Cons)
qed auto

definition disjoint_runs :: "'c bucket_columns list \<Rightarrow> bool" where
  "disjoint_runs runs \<longleftrightarrow> (\<forall>r \<in> set runs. wf_columns r \<and> run (terms_of r)) \<and>
     distinct (map fst (concat (map terms_of runs)))"

lemma disjoint_runs_Cons:
  "disjoint_runs (r # runs) \<longleftrightarrow> wf_columns r \<and> run (terms_of r) \<and> disjoint_runs runs \<and>
     fst ` set (terms_of r) \<inter> fst ` set (concat (map terms_of runs)) = {}"
  by (auto simp: disjoint_runs_def run_distinct)

lemma pair_round_ok:
  "disjoint_runs runs \<Longrightarrow> disjoint_runs (pair_round runs) \<and>
     set (concat (map terms_of (pair_round runs))) = set (concat (map terms_of runs)) \<and>
     length (concat (map terms_of (pair_round runs))) = length (concat (map terms_of runs))"
proof (induction runs rule: pair_round.induct)
  case (1 a b rest)
  let ?m = "merge_runs keys_are_disjoint (terms_of a) (terms_of b)"
  have parts: "run (terms_of a)" "run (terms_of b)" "disjoint_runs rest"
      "fst ` set (terms_of a) \<inter> fst ` set (terms_of b) = {}"
      "(fst ` set (terms_of a) \<union> fst ` set (terms_of b)) \<inter> fst ` set (concat (map terms_of rest)) = {}"
    using 1(2) by (simp_all add: disjoint_runs_Cons image_Un Int_Un_distrib Int_Un_distrib2 del: set_concat)
  have m: "set ?m = set (terms_of a) \<union> set (terms_of b)"
      "length ?m = length (terms_of a) + length (terms_of b)" "run ?m"
    using merge_runs_disjoint [OF parts(1,2,4)] run_merge_runs [OF parts(1,2)] by auto
  show ?case
    using 1(1) [OF parts(3)] m parts(5) by (simp add: disjoint_runs_Cons image_Un Un_assoc del: set_concat)
qed simp_all

lemma merge_disjoint_runs_ok:
  "disjoint_runs runs \<Longrightarrow> wf_columns (merge_disjoint_runs runs) \<and> run (terms_of (merge_disjoint_runs runs)) \<and>
     set (terms_of (merge_disjoint_runs runs)) = set (concat (map terms_of runs)) \<and>
     length (terms_of (merge_disjoint_runs runs)) = length (concat (map terms_of runs))"
proof (induction runs rule: merge_disjoint_runs.induct)
  case (1 runs)
  show ?case
  proof (cases "length runs > 1")
    case True
    then show ?thesis
      using 1(1) [OF True] pair_round_ok [OF 1(2)] by (subst (1 2 3 4) merge_disjoint_runs.simps) simp
  next
    case False
    then consider "runs = []" | r where "runs = [r]"
      by (cases runs rule: pair_round.cases) auto
    then show ?thesis
      using 1(2) by cases (simp_all add: merge_disjoint_runs.simps disjoint_runs_Cons)
  qed
qed

section \<open>Gathering the parts\<close>

lemma check_parts_ok:
  "\<forall>p \<in> set ps. gh_matrix (pm_hash p) = gh_matrix h \<and> gh_bits (pm_hash p) = gh_bits h \<Longrightarrow>
     check_parts h ps = Inr ()"
  by (induction ps) (simp_all add: same_rows_as_def)

lemma concat_split_nth: "b < length L \<Longrightarrow> \<exists>us vs. concat L = us @ L ! b @ vs"
  using arg_cong [OF id_take_nth_drop, of b L concat] by auto

text \<open>Bucket \<open>b\<close> of the parts is a subsequence of all their terms, so its keys are distinct too.\<close>

lemma distinct_bucket_column:
  assumes "distinct (map fst (concat (map sum_iter parts)))" "\<forall>p \<in> set parts. b < length (pm_buckets p)"
  shows "distinct (map fst (concat (map (\<lambda>p. terms_of (pm_buckets p ! b)) parts)))"
  using assms
proof (induction parts)
  case (Cons p ps)
  have sub: "set (terms_of (pm_buckets q ! b)) \<subseteq> set (sum_iter q)" if "q \<in> set (p # ps)" for q
    using Cons.prems(2) that by (auto simp: sum_iter_def intro!: bexI [OF _ nth_mem])
  have "distinct (map fst (terms_of (pm_buckets p ! b)))"
  proof -
    obtain us vs where "sum_iter p = us @ terms_of (pm_buckets p ! b) @ vs"
      using Cons.prems(2) concat_split_nth [of b "map terms_of (pm_buckets p)"] by (auto simp: sum_iter_def)
    with Cons.prems(1) show ?thesis by simp
  qed
  moreover have "fst ` set (terms_of (pm_buckets p ! b)) \<inter>
      fst ` set (concat (map (\<lambda>p. terms_of (pm_buckets p ! b)) ps)) = {}"
  proof -
    have disj: "fst ` set (sum_iter p) \<inter> fst ` set (concat (map sum_iter ps)) = {}"
      using Cons.prems(1) by simp
    have rest: "set (concat (map (\<lambda>p. terms_of (pm_buckets p ! b)) ps)) \<subseteq> set (concat (map sum_iter ps))"
      unfolding set_concat set_map image_image by (intro UN_mono subset_refl sub) simp
    show ?thesis
      using disj image_mono [OF sub [of p], of fst] image_mono [OF rest, of fst] by (simp del: set_concat) blast
  qed
  ultimately show ?case using Cons by simp
qed simp

lemma sum_iter_nth:
  "set (sum_iter p) = (\<Union>b<length (pm_buckets p). set (terms_of (pm_buckets p ! b)))"
  by (auto simp: sum_iter_def set_conv_nth [of "pm_buckets p"])

lemma merge_partitions_ok:
  assumes "parts = first # rest" "\<forall>p \<in> set parts. sum_inv W p"
    "\<forall>p \<in> set parts. gh_matrix (pm_hash p) = gh_matrix (pm_hash first) \<and>
       gh_bits (pm_hash p) = gh_bits (pm_hash first) \<and> pm_num_qubits p = pm_num_qubits first"
    "distinct (map fst (concat (map sum_iter parts)))"
  shows "\<exists>t. merge_partitions parts = Inr t \<and> sum_inv W t \<and> pm_hash t = pm_hash first \<and>
    pm_num_qubits t = pm_num_qubits first \<and> set (sum_iter t) = set (concat (map sum_iter parts))"
proof -
  let ?h = "pm_hash first" and ?n = "hash_num_buckets (pm_hash first)"
  let ?runs = "\<lambda>b. map (\<lambda>p. pm_buckets p ! b) parts"
  define buckets where "buckets = map (\<lambda>b. merge_disjoint_runs (?runs b)) [0..<?n]"
  define t where "t = \<lparr>pm_buckets = buckets, pm_hash = ?h, pm_num_qubits = pm_num_qubits first,
    pm_len = sum_list (map pm_len parts)\<rparr>"
  have first: "sum_inv W first" using assms(1,2) by simp
  have len: "length (pm_buckets p) = ?n" if "p \<in> set parts" for p
    using assms(2,3) that by (simp add: sum_inv_def hash_num_buckets_def)
  have ix: "bucket_ix (pm_hash p) = bucket_ix ?h" if "p \<in> set parts" for p
    using assms(3) that by (simp add: bucket_ix_def [abs_def] bucket_of_def)
  have bucket: "wf_columns (pm_buckets p ! b)" "run (terms_of (pm_buckets p ! b))"
      "\<forall>u \<in> set (terms_of (pm_buckets p ! b)). bucket_ix ?h (fst u) = b \<and> key_ok W (pm_num_qubits first) (fst u)"
    if "p \<in> set parts" "b < ?n" for p b
    using sum_inv_bucket [of W p b] assms(2,3) len ix that by auto
  have disj: "disjoint_runs (?runs b)" if "b < ?n" for b
    using distinct_bucket_column [OF assms(4), of b] len bucket that
    by (auto simp: disjoint_runs_def comp_def)
  note m = merge_disjoint_runs_ok [OF disj]
  have terms: "set (terms_of (buckets ! b)) = (\<Union>p \<in> set parts. set (terms_of (pm_buckets p ! b)))"
      "run (terms_of (buckets ! b))" "wf_columns (buckets ! b)" if "b < ?n" for b
    using m [OF that] that by (simp_all add: buckets_def)
  have nb: "length buckets = ?n" by (simp add: buckets_def)
  have set_eq: "set (sum_iter t) = set (concat (map sum_iter parts))"
  proof -
    have "set (sum_iter t) = (\<Union>b<?n. \<Union>p \<in> set parts. set (terms_of (pm_buckets p ! b)))"
      unfolding sum_iter_nth using terms nb by (simp add: t_def)
    also have "\<dots> = (\<Union>p \<in> set parts. set (sum_iter p))"
      unfolding sum_iter_nth using len by (auto 0 4)
    finally show ?thesis by simp
  qed
  have "bucketed (bucket_ix ?h) (map terms_of buckets)"
    using terms nb bucket by (auto simp: bucketed_def)
  moreover from this have "length (sum_iter t) = length (concat (map sum_iter parts))"
  proof -
    assume "bucketed (bucket_ix ?h) (map terms_of buckets)"
    then have "distinct (map fst (sum_iter t))"
      using bucketed_distinct by (simp add: sum_iter_def t_def)
    then have "distinct (sum_iter t)" "distinct (concat (map sum_iter parts))"
      using assms(4) by (simp_all only: distinct_map)
    then show ?thesis using set_eq by (metis distinct_card)
  qed
  moreover have "sum_list (map pm_len parts) = length (concat (map sum_iter parts))"
    using assms(2) by (simp add: length_concat sum_inv_def cong: map_cong)
  moreover have "\<forall>u \<in> set (sum_iter t). key_ok W (pm_num_qubits first) (fst u)"
    unfolding set_eq using assms(2,3) by (auto simp: sum_inv_def)
  moreover have "\<forall>cols \<in> set buckets. wf_columns cols"
    using terms(3) nb by (auto simp: in_set_conv_nth)
  ultimately have "sum_inv W t"
    using first nb by (simp add: sum_inv_def t_def sum_iter_def)
  moreover have "merge_partitions parts = Inr t"
  proof -
    have "\<forall>p \<in> set rest. gh_matrix (pm_hash p) = gh_matrix ?h \<and> gh_bits (pm_hash p) = gh_bits ?h"
      using assms(3) unfolding assms(1) by (meson list.set_intros(2))
    then have "check_parts ?h rest = Inr ()" by (rule check_parts_ok)
    then show ?thesis by (simp add: merge_partitions_def t_def buckets_def comp_def assms(1))
  qed
  ultimately show ?thesis using set_eq by (auto simp: t_def)
qed

section \<open>Properties\<close>

lemma distinct_parts:
  assumes "distinct (map fst ts)" "distinct ranks"
  shows "distinct (map fst (concat (map (\<lambda>r. filter (\<lambda>t. f (fst t) = r) ts) ranks)))"
  using assms(2)
proof (induction ranks)
  case (Cons r ranks)
  have "distinct (map fst (filter (\<lambda>t. f (fst t) = r) ts))" using assms(1) by (rule distinct_map_filter)
  with Cons show ?case by auto
qed simp

text \<open>
  C17. Scatter and gather are inverse: filtering a sum by every partition rank gives valid sums over the
  same hash, and \<open>merge_partitions\<close> of them is the original sum, column by column.
\<close>

theorem partition_merge_roundtrip:
  assumes "sum_inv W s" "wf_partition W rows"
  shows "(\<forall>r. sum_inv W (filter_partition s rows r)) \<and>
    merge_partitions (map (\<lambda>r. filter_partition s rows (of_nat r)) [0..<num_partitions rows]) = Inr s"
proof -
  let ?n = "num_partitions rows" and ?part = "\<lambda>r. filter_partition s rows (of_nat r)"
  have bits: "num_rows (pr_matrix rows) < 32" using assms(2) by (simp add: wf_partition_def INDEX_BITS_def)
  have n: "0 < ?n" "?n \<le> 2 ^ 31"
    using bits power_increasing [of "num_rows (pr_matrix rows)" 31 "2 :: nat"]
    by (simp_all add: num_partitions_def pr_bits_def)
  obtain rest where rest: "map ?part [0..<?n] = ?part 0 # rest" using n(1) by (simp add: upt_conv_Cons)
  have dist: "distinct (map fst (sum_iter s))"
    using assms(1) bucketed_distinct by (auto simp: sum_inv_def sum_iter_def)
  have inj: "inj_on (of_nat :: nat \<Rightarrow> u32) {0..<?n}"
  proof (rule inj_onI)
    fix a b assume ab: "a \<in> {0..<?n}" "b \<in> {0..<?n}" "(of_nat a :: u32) = of_nat b"
    have "unat (of_nat c :: u32) = c" if "c \<in> {0..<?n}" for c
      using that n(2) by (simp add: unat_of_nat)
    from this [OF ab(1)] this [OF ab(2)] ab(3) show "a = b" by metis
  qed
  have inv: "sum_inv W (?part r)" for r by (rule filter_partition_inv [OF assms(1)])
  have "map sum_iter (map ?part [0..<?n]) =
      map (\<lambda>r. filter (\<lambda>t. partition_of rows (fst t) = r) (sum_iter s)) (map of_nat [0..<?n])"
    by (simp add: filter_partition_iter comp_def)
  moreover have "distinct (map (of_nat :: nat \<Rightarrow> u32) [0..<?n])"
    using inj by (simp add: distinct_map)
  ultimately have distinct: "distinct (map fst (concat (map sum_iter (map ?part [0..<?n]))))"
    using distinct_parts [OF dist] by metis
  have "\<forall>p \<in> set (map ?part [0..<?n]). gh_matrix (pm_hash p) = gh_matrix (pm_hash (?part 0)) \<and>
       gh_bits (pm_hash p) = gh_bits (pm_hash (?part 0)) \<and> pm_num_qubits p = pm_num_qubits (?part 0)"
    by simp
  moreover have "\<forall>p \<in> set (map ?part [0..<?n]). sum_inv W p" using inv by simp
  ultimately
  obtain t where t: "merge_partitions (map ?part [0..<?n]) = Inr t" "sum_inv W t" "pm_hash t = pm_hash s"
      "pm_num_qubits t = pm_num_qubits s" "set (sum_iter t) = set (concat (map sum_iter (map ?part [0..<?n])))"
    using merge_partitions_ok [OF rest _ _ distinct, of W] by fastforce
  have "partition_of rows k \<in> of_nat ` {0..<?n}" for k
    using partition_of_bound [OF assms(2), of k] by (intro image_eqI [of _ _ "unat (partition_of rows k)"]) auto
  then have "set (sum_iter t) = set (sum_iter s)"
    unfolding t(5) by (auto simp: filter_partition_iter image_iff)
  then have "sum_lookup t = sum_lookup s"
    using dist t(2) bucketed_distinct [of "bucket_ix (pm_hash t)" "map terms_of (pm_buckets t)"]
    unfolding sum_lookup_def by (metis map_of_inject_set sum_inv_def sum_iter_def)
  then have "t = s" by (intro sum_eqI [OF t(2) assms(1) t(3,4)])
  with t(1) inv show ?thesis by (auto intro: filter_partition_inv [OF assms(1)])
qed

lemma cut_columns_concat:
  "\<forall>cols \<in> set bs. wf_columns cols \<Longrightarrow>
     cut_columns (map columns_len bs) (concat (map col_x bs)) (concat (map col_z bs)) (concat (map col_coeff bs)) = bs"
  by (induction bs) (auto simp: wf_columns_def columns_len_def)

text \<open>
  Serialising a sum with \<open>to_arrays\<close> and \<open>bucket_lengths\<close> and rebuilding it with
  \<open>from_bucket_columns\<close> gives the same sum.
\<close>

lemma to_arrays_roundtrip:
  assumes "sum_inv W s"
  shows "case to_arrays s of (x, z, coeff) \<Rightarrow>
    from_bucket_columns (bucket_lengths s) x z coeff (pm_hash s) (pm_num_qubits s) = Inr s"
proof -
  have wf: "\<forall>cols \<in> set (pm_buckets s). wf_columns cols" using assms by (simp add: sum_inv_def)
  have "length (concat (map col_x (pm_buckets s))) = length (concat (map col_coeff (pm_buckets s)))"
    "length (concat (map col_z (pm_buckets s))) = length (concat (map col_coeff (pm_buckets s)))"
    "sum_list (map columns_len (pm_buckets s)) = length (concat (map col_coeff (pm_buckets s)))"
    using wf by (simp_all add: length_concat wf_columns_def columns_len_def comp_def cong: map_cong)
  moreover have "sum_list (map columns_len (pm_buckets s)) = pm_len s"
    using assms sum_len_eq [OF wf] by (simp add: sum_inv_def sum_iter_def)
  ultimately show ?thesis
    using assms
    by (simp add: to_arrays_def from_bucket_columns_def bucket_lengths_def cut_columns_concat [OF wf] sum_inv_def)
qed

lemma rank_scan_Some:
  "rank_scan rows ts (Some r) = (if \<forall>t \<in> set ts. partition_of rows (fst t) = r then Some r else None)"
  by (induction ts) (auto split: if_splits)

text \<open>
  \<open>partition_rank_of_all\<close> answers \<open>Some r\<close> exactly when the sum is not empty and every term lies in
  partition \<open>r\<close>.
\<close>

lemma partition_rank_of_all_iff:
  "partition_rank_of_all s rows = Some r \<longleftrightarrow>
     sum_iter s \<noteq> [] \<and> (\<forall>t \<in> set (sum_iter s). partition_of rows (fst t) = r)"
proof (cases "sum_iter s")
  case (Cons t ts)
  then show ?thesis
    by (cases t) (auto simp: partition_rank_of_all_def rank_scan_Some split: if_splits)
qed (simp add: partition_rank_of_all_def)

section \<open>Witnesses\<close>

text \<open>Two partitions, cut along the \<open>x\<close> bit of the only qubit.\<close>

definition example_rows :: partition_rows where
  "example_rows = \<lparr>pr_matrix = \<lparr>rows_x = [[1]], rows_z = [[0]], gm_qubits = 1\<rparr>\<rparr>"

lemma example_rows_wf: "wf_partition 1 example_rows" "num_partitions example_rows = 2"
  by (simp_all add: example_rows_def wf_partition_def wf_matrix_def num_rows_def INDEX_BITS_def
      num_partitions_def pr_bits_def)

theorem partition_merge_roundtrip_witness:
  "merge_partitions [filter_partition (example_sum 1) example_rows 0, filter_partition (example_sum 1) example_rows 1]
     = Inr (example_sum 1)"
  using partition_merge_roundtrip [OF example_sum_inv(1) example_rows_wf(1), of 1]
  by (simp add: example_rows_wf(2) upt_rec)

theorem partition_rank_of_all_iff_witness:
  "partition_rank_of_all (example_sum 1) (partition_none 1) = Some 0"
proof -
  have "sum_lookup (example_sum 1) ([1], [0]) = Some 3" by (simp add: example_sum_inv(2))
  then have "sum_iter (example_sum 1) \<noteq> []" by (auto simp: sum_lookup_def)
  then show ?thesis
    using partition_rank_of_all_iff [of "example_sum 1" "partition_none 1" 0]
    by (simp add: partition_of_def partition_none_def num_rows_def matrix_apply_def)
qed

end
