(* ===== verification/Hash_Build.thy ===== *)
theory Hash_Build
  imports Gf2_Hash
begin

text \<open>
  The constructors of \<open>Gf2Hash\<close>: with admissible arguments they never panic, and the hash they build is
  well formed, has \<open>max_hash_bits\<close> rows and keeps the rows it was given.
\<close>

lemma length_mask_words [simp]: "length (mask_words n row) = length row"
  by (simp add: mask_words_def)

lemma mask_words_zero [simp]: "mask_words n (replicate W 0) = replicate W 0"
  by (rule nth_equalityI) (simp_all add: mask_words_def)

lemma mask_words_idem [simp]: "mask_words n (mask_words n row) = mask_words n row"
  by (rule nth_equalityI) (simp_all add: mask_words_def and.assoc)

lemma draw_row_wf:
  assumes "\<forall>row attempt. wf_key W (candidate row attempt)"
  shows "wf_key W (fst (draw_row W candidate n_indep row basis remaining))"
proof (induction remaining arbitrary: basis)
  case 0
  show ?case by (subst draw_row.simps) (simp add: assms Let_def split_def)
next
  case (Suc remaining)
  show ?case by (subst draw_row.simps) (simp add: assms Let_def split_def Suc)
qed

lemma accept_loop_wf:
  assumes "\<forall>row attempt. wf_key W (candidate row attempt)"
  shows "length (accept_loop W candidate n_indep rows basis) = length rows"
    and "\<forall>k \<in> set (accept_loop W candidate n_indep rows basis). wf_key W k"
proof (induction rows arbitrary: basis)
  case (Cons row rows)
  note draw = draw_row_wf [OF assms]
  { case 1 show ?case using Cons by (simp add: split_def Let_def) }
  { case 2 show ?case using Cons draw by (simp add: split_def Let_def) }
qed simp_all

lemma accept_rows_ok:
  assumes "\<forall>row attempt. wf_key W (candidate row attempt)" "first \<le> n"
  shows "\<exists>m. accept_rows W q n n_indep basis first candidate = Inr m \<and> wf_matrix W m \<and> num_rows m = n"
  using accept_loop_wf [OF assms(1), of n_indep "[first..<n]" basis] assms(2)
  by (auto simp: accept_rows_def matrix_from_rows_def wf_matrix_def num_rows_def wf_key_def Let_def)

lemma matrix_complete_ok:
  assumes "\<forall>k \<in> set given. wf_key W k" "length given \<le> n"
  shows "\<exists>m. matrix_complete W q n seed given = Inr m \<and> wf_matrix W m \<and> num_rows m = n \<and> gm_qubits m = q \<and>
    take (length given) (rows_x m) = map (mask_words q \<circ> fst) given \<and>
    take (length given) (rows_z m) = map (mask_words q \<circ> snd) given"
proof (cases "length given < n")
  case True
  have cand: "\<forall>row attempt. wf_key W (complete_candidate W q seed row attempt)"
    by (simp add: complete_candidate_def wf_key_def)
  define m where "m = \<lparr>rows_x = map (mask_words q) (map fst given), rows_z = map (mask_words q) (map snd given),
    gm_qubits = q\<rparr>"
  define basis where "basis = fold (\<lambda>i basis. fst (basis_insert W basis (matrix_row m i))) [0..<length given] []"
  obtain tail where tail: "accept_rows W q n (min n (2 * q)) basis (length given) (complete_candidate W q seed) = Inr tail"
      "wf_matrix W tail" "num_rows tail = n"
    using accept_rows_ok [OF cand, of "length given" n q "min n (2 * q)" basis] assms(2) by blast
  have "matrix_complete W q n seed given =
      matrix_from_rows q (rows_x m @ drop (length given) (rows_x tail)) (rows_z m @ drop (length given) (rows_z tail))"
    using tail(1) True
    by (simp add: matrix_complete_def matrix_from_rows_def m_def basis_def Let_def)
  then show ?thesis
    using tail(2,3) True assms(1)
    by (auto simp: matrix_from_rows_def m_def wf_matrix_def num_rows_def wf_key_def dest: in_set_dropD)
next
  case False
  then show ?thesis
    using assms
    by (auto simp: matrix_complete_def matrix_from_rows_def wf_matrix_def num_rows_def wf_key_def Let_def)
qed

lemma hash_new_ok:
  assumes "bits \<le> max_hash_bits n"
  shows "\<exists>h. hash_new W n bits seed = Inr h \<and> wf_hash W h \<and> hash_num_qubits h = n \<and> gh_bits h = bits"
  using matrix_complete_ok [of "[]" W "max_hash_bits n" n seed] assms
  by (auto simp: hash_new_def hash_from_rows_def wf_hash_def max_hash_bits_def hash_num_qubits_def Let_def)

text \<open>
  C19. \<open>Gf2Hash::from_rows\<close>, given row halves of the key width: it panics exactly when its arguments are
  inadmissible (too many bits, halves that do not pair up, more rows than the bucket index has bits), with
  the panic of the first violated check; otherwise the hash is well formed over the qubit count, has every
  row \<open>refine\<close> may ever need, and its first rows are the given ones restricted to the live columns.
\<close>

theorem hash_from_rows_type:
  assumes "\<forall>row \<in> set rx \<union> set rz. length row = W"
  shows "case hash_from_rows W n bits seed rx rz of
      Inl e \<Rightarrow> (e = TooManyBits \<and> max_hash_bits n < bits) \<or>
        (e = RowCountMismatch \<and> bits \<le> max_hash_bits n \<and> length rx \<noteq> length rz) \<or>
        (e = TooManyRows \<and> bits \<le> max_hash_bits n \<and> length rx = length rz \<and> max_hash_bits n < length rx)
    | Inr h \<Rightarrow> bits \<le> max_hash_bits n \<and> length rx = length rz \<and> length rx \<le> max_hash_bits n \<and>
        wf_hash W h \<and> hash_num_qubits h = n \<and> gh_bits h = bits \<and> hash_max_bits h = max_hash_bits n \<and>
        take (length rx) (rows_x (gh_matrix h)) = map (mask_words n) rx \<and>
        take (length rz) (rows_z (gh_matrix h)) = map (mask_words n) rz"
proof (cases "bits \<le> max_hash_bits n \<and> length rx = length rz \<and> length rx \<le> max_hash_bits n")
  case True
  have zip: "map (mask_words n \<circ> fst) (zip rx rz) = map (mask_words n) rx"
      "map (mask_words n \<circ> snd) (zip rx rz) = map (mask_words n) rz"
    using True by (simp_all flip: map_map)
  have "\<forall>k \<in> set (zip rx rz). wf_key W k"
    using assms by (auto simp: wf_key_def dest: set_zip_leftD set_zip_rightD)
  from matrix_complete_ok [OF this, of "max_hash_bits n" n seed] True zip show ?thesis
    by (auto simp: hash_from_rows_def wf_hash_def hash_num_qubits_def hash_max_bits_def max_hash_bits_def Let_def)
qed (auto simp: hash_from_rows_def assert_that_def and_then_def Let_def)

theorem hash_from_rows_type_witness:
  "(\<exists>h. hash_from_rows 1 2 1 7 [[5]] [[2]] = Inr h \<and> take 1 (rows_x (gh_matrix h)) = [[1]]) \<and>
   hash_from_rows 1 2 9 7 [[5]] [[2]] = Inl TooManyBits"
proof -
  have "mask_words 2 [5] = [1]"
    by (simp add: mask_words_def word_mask_def)
  then have "\<exists>h. hash_from_rows 1 2 1 7 [[5]] [[2]] = Inr h \<and> take 1 (rows_x (gh_matrix h)) = [[1]]"
    using hash_from_rows_type [of "[[5]]" "[[2]]" 1 2 1 7]
    by (auto simp: max_hash_bits_def INDEX_BITS_def split: sum.splits)
  moreover have "hash_from_rows 1 2 9 7 [[5]] [[2]] = Inl TooManyBits"
    using hash_from_rows_type [of "[[5]]" "[[2]]" 1 2 9 7]
    by (auto simp: max_hash_bits_def INDEX_BITS_def split: sum.splits)
  ultimately show ?thesis by blast
qed

end
