(* ===== verification/Accumulator.thy ===== *)
theory Accumulator
  imports Storage_Algebra Hash_Build
begin

text \<open>
  \<open>pauli_sum/accumulator.rs\<close>: the ingestion path from unsorted terms to a \<open>PauliSum\<close>. The hash map is an
  association list with distinct keys; its iteration order is arbitrary, and \<open>finalize\<close> is proved not to
  depend on it. Keys are the pairs of halves of the Pauli strings, whose derived order is the order of pairs.
\<close>

section \<open>The builder\<close>

record 'c build_accumulator =
  acc_map :: "(key \<times> 'c) list"
  acc_num_qubits :: nat

definition acc_new :: "nat \<Rightarrow> 'c build_accumulator" where
  "acc_new num_qubits = \<lparr>acc_map = [], acc_num_qubits = num_qubits\<rparr>"

text \<open>The capacity is an allocation hint.\<close>

definition acc_with_capacity :: "nat \<Rightarrow> nat \<Rightarrow> 'c build_accumulator" where
  "acc_with_capacity num_qubits capacity = \<lparr>acc_map = [], acc_num_qubits = num_qubits\<rparr>"

text \<open>\<open>entry(p).and_modify(f).or_insert(v)\<close>.\<close>

fun upsert :: "('v \<Rightarrow> 'v) \<Rightarrow> 'v \<Rightarrow> 'k \<Rightarrow> ('k \<times> 'v) list \<Rightarrow> ('k \<times> 'v) list" where
  "upsert f v k [] = [(k, v)]"
| "upsert f v k ((l, w) # m) = (if l = k then (l, f w) # m else (l, w) # upsert f v k m)"

definition add_term :: "'c coefficient \<Rightarrow> 'c build_accumulator \<Rightarrow> key \<Rightarrow> 'c \<Rightarrow> 'c build_accumulator" where
  "add_term C acc p c = acc\<lparr>acc_map := upsert (\<lambda>e. c_add C e c) c p (acc_map acc)\<rparr>"

definition finalize :: "'c coefficient \<Rightarrow> nat \<Rightarrow> 'c build_accumulator \<Rightarrow> 'c pauli_sum result" where
  "finalize C W acc =
     (let entries = sort_key fst (filter (\<lambda>(_, c). \<not> c_eq C c (c_zero C)) (acc_map acc));
          n = length entries;
          x = map (\<lambda>(p, _). fst p) entries;
          z = map (\<lambda>(p, _). snd p) entries;
          coeff = map (\<lambda>(_, c). c) entries;
          bits = min (desired_bits n DEFAULT_TARGET_BUCKET_LEN DEFAULT_MIN_BUCKETS)
                   (max_hash_bits (acc_num_qubits acc))
      in and_then (hash_new W (acc_num_qubits acc) bits DEFAULT_HASH_SEED) (\<lambda>hash.
           Inr (from_key_sorted x z coeff hash (acc_num_qubits acc))))"

section \<open>The map\<close>

lemma upsert_lookup:
  "map_of (upsert f v k m) l = (if l = k then Some (case map_of m k of None \<Rightarrow> v | Some w \<Rightarrow> f w) else map_of m l)"
  by (induction m rule: upsert.induct [where ?a0.0 = f and ?a1.0 = v and ?a2.0 = k]) auto

lemma upsert_keys: "fst ` set (upsert f v k m) = insert k (fst ` set m)"
  by (induction f v k m rule: upsert.induct) auto

lemma upsert_distinct: "distinct (map fst m) \<Longrightarrow> distinct (map fst (upsert f v k m))"
proof (induction f v k m rule: upsert.induct)
  case (2 f v k l w m)
  then show ?case using upsert_keys [of f v k m] by auto
qed simp

definition add_terms :: "'c coefficient \<Rightarrow> (key \<times> 'c) list \<Rightarrow> 'c build_accumulator \<Rightarrow> 'c build_accumulator" where
  "add_terms C ts acc = fold (\<lambda>(p, c) acc. add_term C acc p c) ts acc"

lemma add_terms_simps [simp]:
  "add_terms C [] acc = acc"
  "add_terms C (t # ts) acc = add_terms C ts (add_term C acc (fst t) (snd t))"
  by (simp_all add: add_terms_def split_def)

lemma add_terms_keys:
  "distinct (map fst (acc_map acc)) \<Longrightarrow> distinct (map fst (acc_map (add_terms C ts acc)))"
  "fst ` set (acc_map (add_terms C ts acc)) = fst ` set (acc_map acc) \<union> fst ` set ts"
  "acc_num_qubits (add_terms C ts acc) = acc_num_qubits acc"
  by (induction ts arbitrary: acc) (auto simp: add_term_def upsert_keys upsert_distinct)

context coefficient_laws
begin

lemma add_terms_value:
  "to_complex64 C (coeff_or_zero C (map_of (acc_map (add_terms C ts acc)) k)) =
     to_complex64 C (coeff_or_zero C (map_of (acc_map acc) k)) +
     (\<Sum>(l, c)\<leftarrow>ts. if l = k then to_complex64 C c else 0)"
proof (induction ts arbitrary: acc)
  case (Cons t ts)
  obtain l c where t: "t = (l, c)" by (cases t)
  have "to_complex64 C (coeff_or_zero C (map_of (acc_map (add_term C acc l c)) k)) =
      to_complex64 C (coeff_or_zero C (map_of (acc_map acc) k)) + (if l = k then to_complex64 C c else 0)"
    by (auto simp: add_term_def upsert_lookup coeff_or_zero_def embed split: option.splits)
  with Cons [of "add_term C acc l c"] show ?case by (simp add: t)
qed simp

end

section \<open>Finalising\<close>

lemma finalize_ok:
  assumes "distinct (map fst (acc_map acc))" "\<forall>t \<in> set (acc_map acc). key_ok W (acc_num_qubits acc) (fst t)"
    "\<And>a b. c_eq C a b \<longleftrightarrow> a = b"
  shows "\<exists>s. finalize C W acc = Inr s \<and> sum_inv W s \<and> pm_num_qubits s = acc_num_qubits acc \<and>
    (\<forall>k. sum_lookup s k = (case map_of (acc_map acc) k of None \<Rightarrow> None | Some c \<Rightarrow> drop_zero C c))"
proof -
  let ?kept = "filter (\<lambda>(_, c). \<not> c_eq C c (c_zero C)) (acc_map acc)"
  define entries where "entries = sort_key fst ?kept"
  define x where "x = map (\<lambda>(p, _). fst p) entries"
  define z where "z = map (\<lambda>(p, _). snd p) entries"
  define coeff where "coeff = map (\<lambda>(_, c). c) entries"
  define bits where "bits = min (desired_bits (length entries) DEFAULT_TARGET_BUCKET_LEN DEFAULT_MIN_BUCKETS)
    (max_hash_bits (acc_num_qubits acc))"
  have kept: "distinct (map fst ?kept)" using assms(1) by (rule distinct_map_filter)
  have run: "run entries" unfolding entries_def by (rule run_sort_key [OF kept])
  have zip: "zip (zip x z) coeff = entries"
    unfolding x_def z_def coeff_def by (induction entries) auto
  have lookup: "map_of entries k = (case map_of (acc_map acc) k of None \<Rightarrow> None | Some c \<Rightarrow> drop_zero C c)" for k
  proof -
    have "map_of entries = map_of ?kept"
      unfolding entries_def using kept run_distinct [OF run]
      by (intro map_of_inject_set [THEN iffD2]) (simp_all add: entries_def)
    then show ?thesis
      using assms(1) by (simp add: map_of_filter_distinct assms(3) drop_zero_def split: option.splits)
  qed
  have keys: "\<forall>t \<in> set entries. key_ok W (acc_num_qubits acc) (fst t)"
    using assms(2) by (auto simp: entries_def)
  obtain h where h: "hash_new W (acc_num_qubits acc) bits DEFAULT_HASH_SEED = Inr h" "wf_hash W h"
      "hash_num_qubits h = acc_num_qubits acc"
    using hash_new_ok [of bits "acc_num_qubits acc" W DEFAULT_HASH_SEED] by (auto simp: bits_def)
  let ?s = "from_key_sorted x z coeff h (acc_num_qubits acc)"
  have "finalize C W acc = Inr ?s"
    using h(1) by (simp add: finalize_def entries_def x_def z_def coeff_def bits_def Let_def)
  moreover have "sum_inv W ?s" "sum_lookup ?s = map_of entries"
    using from_key_sorted_ok [of x coeff z W "acc_num_qubits acc" h] run keys h
    unfolding zip by (simp_all add: x_def z_def coeff_def)
  moreover have "pm_num_qubits ?s = acc_num_qubits acc" by (simp add: from_key_sorted_def)
  ultimately show ?thesis using lookup by auto
qed

text \<open>
  C18. Building a sum from unsorted terms: \<open>finalize\<close> never panics on keys that fit the qubit count; the sum it
  returns satisfies the invariant, its coefficient at a key is the total of the coefficients added for it,
  and no stored coefficient is zero.
\<close>

theorem accumulator_sums_terms:
  assumes "coefficient_laws C" "\<forall>t \<in> set ts. key_ok W n (fst t)"
  shows "\<exists>s. finalize C W (add_terms C ts (acc_new n)) = Inr s \<and> sum_inv W s \<and> pm_num_qubits s = n \<and>
    (\<forall>k. to_complex64 C (coeff_at C s k) = (\<Sum>(l, c)\<leftarrow>ts. if l = k then to_complex64 C c else 0) \<and>
         sum_get s k \<noteq> Some (c_zero C))"
proof -
  let ?acc = "add_terms C ts (acc_new n)"
  have "distinct (map fst (acc_map ?acc))" "fst ` set (acc_map ?acc) = fst ` set ts" "acc_num_qubits ?acc = n"
    by (simp_all add: add_terms_keys acc_new_def)
  moreover from this have "\<forall>t \<in> set (acc_map ?acc). key_ok W (acc_num_qubits ?acc) (fst t)"
    using assms(2) by (metis (mono_tags) image_iff)
  ultimately obtain s where s: "finalize C W ?acc = Inr s" "sum_inv W s" "pm_num_qubits s = n"
      "\<And>k. sum_lookup s k = (case map_of (acc_map ?acc) k of None \<Rightarrow> None | Some c \<Rightarrow> drop_zero C c)"
    using finalize_ok [of ?acc W C] coefficient_laws.eq_iff [OF assms(1)] by metis
  have "coeff_at C s k = coeff_or_zero C (map_of (acc_map ?acc) k)" "sum_get s k \<noteq> Some (c_zero C)" for k
    using s(4) by (auto simp: coeff_at_def sum_get_lookup [OF s(2)] coeff_or_zero_def drop_zero_def split: option.splits)
  with s show ?thesis
    using coefficient_laws.add_terms_value [OF assms(1), of ts "acc_new n"]
    by (auto simp: acc_new_def coeff_or_zero_def coefficient_laws.embed_zero [OF assms(1)])
qed

text \<open>
  The sum does not depend on the order in which the hash map yields its entries: any two maps with the
  same entries, listed in any order, finalise to the same value.
\<close>

lemma finalize_order_independent:
  assumes "mset (acc_map a) = mset (acc_map b)" "distinct (map fst (acc_map a))" "acc_num_qubits a = acc_num_qubits b"
  shows "finalize C W a = finalize C W b"
proof -
  let ?kept = "\<lambda>m. filter (\<lambda>(_, c). \<not> c_eq C c (c_zero C)) m"
  have "mset (sort_key fst (?kept (acc_map a))) = mset (sort_key fst (?kept (acc_map b)))"
    using assms(1) by simp
  moreover have "run (sort_key fst (?kept (acc_map a)))"
    by (intro run_sort_key distinct_map_filter assms(2))
  moreover have "distinct (map fst (acc_map b))"
    using assms(1,2) by (metis mset_map mset_eq_imp_distinct_iff)
  then have "run (sort_key fst (?kept (acc_map b)))"
    by (intro run_sort_key distinct_map_filter)
  ultimately have "sort_key fst (?kept (acc_map a)) = sort_key fst (?kept (acc_map b))"
    by (intro run_mset_eqI mset_eq_setD)
  then show ?thesis by (simp add: finalize_def assms(3))
qed

theorem accumulator_sums_terms_witness:
  "\<exists>s. finalize complex_coefficient 1 (add_terms complex_coefficient
      [(([1], [0]), 3), (([0], [1]), 2), (([1], [0]), - 1)] (acc_new 1)) = Inr s \<and>
    coeff_at complex_coefficient s ([1], [0]) = 2"
  using accumulator_sums_terms [OF complex_c.coefficient_laws_axioms,
      of "[(([1], [0]), 3), (([0], [1]), 2), (([1], [0]), - 1)]" 1 1] example_key_ok
  by (auto simp: complex_coefficient_def)

theorem finalize_order_independent_witness:
  "finalize complex_coefficient 1 \<lparr>acc_map = [(([1], [0]), 3), (([0], [1]), 2)], acc_num_qubits = 1\<rparr> =
   finalize complex_coefficient 1 \<lparr>acc_map = [(([0], [1]), 2), (([1], [0]), 3)], acc_num_qubits = 1\<rparr>"
  by (rule finalize_order_independent) simp_all

end
