(* ===== verification/Local_Pattern.thy ===== *)
theory Local_Pattern
  imports Pauli_Prelude
begin

unbundle bit_operations_syntax

text \<open>
  The restriction of a key to a few qubits: the pattern of a key on a list of support qubits is the number
  whose bit \<open>2j\<close> is the x-bit and whose bit \<open>2j + 1\<close> the z-bit of the \<open>j\<close>-th support qubit. A key is determined
  by its pattern and its coordinates off the support. Both the constructor-order index of \<open>PtmChannel\<close> and
  the ascending index of \<open>LocalPtm\<close> are this function.
\<close>

definition local_pattern :: "nat list \<Rightarrow> key \<Rightarrow> nat" where
  "local_pattern qs k = horner_sum of_bool 2 (concat (map (\<lambda>q. [qbit (fst k) q, qbit (snd k) q]) qs))"

definition agree_off :: "nat list \<Rightarrow> key \<Rightarrow> key \<Rightarrow> bool" where
  "agree_off qs k l \<longleftrightarrow>
     (\<forall>q. q \<notin> set qs \<longrightarrow> qbit (fst k) q = qbit (fst l) q \<and> qbit (snd k) q = qbit (snd l) q)"

lemma local_pattern_simps [simp]:
  "local_pattern [] k = 0"
  "local_pattern (q # qs) k =
     of_bool (qbit (fst k) q) + 2 * of_bool (qbit (snd k) q) + 4 * local_pattern qs k"
  by (simp_all add: local_pattern_def)

lemma local_pattern_bound: "local_pattern qs k < 4 ^ length qs"
  by (induction qs) auto

lemma local_pattern_eq_iff:
  "local_pattern qs k = local_pattern qs l \<longleftrightarrow>
     (\<forall>q \<in> set qs. qbit (fst k) q = qbit (fst l) q \<and> qbit (snd k) q = qbit (snd l) q)"
proof (induction qs)
  case (Cons q qs)
  have *: "of_bool a + 2 * of_bool b + 4 * m = of_bool c + 2 * of_bool d + 4 * n \<longleftrightarrow> a = c \<and> b = d \<and> m = n"
    for a b c d and m n :: nat
    by (cases a; cases b; cases c; cases d; simp; presburger)
  show ?case unfolding local_pattern_simps * Cons by auto
qed simp

lemma key_eq_iff_qbits:
  assumes "wf_key W k" "wf_key W l"
  shows "k = l \<longleftrightarrow> (\<forall>q. qbit (fst k) q = qbit (fst l) q \<and> qbit (snd k) q = qbit (snd l) q)"
proof -
  have "k = l \<longleftrightarrow> fst k = fst l \<and> snd k = snd l" by (auto simp: prod_eq_iff)
  then show ?thesis
    using assms words_eq_iff_qbit [of "fst k" "fst l"] words_eq_iff_qbit [of "snd k" "snd l"]
    by (auto simp: wf_key_def)
qed

lemma key_eq_iff_pattern:
  assumes "wf_key W k" "wf_key W l"
  shows "k = l \<longleftrightarrow> agree_off qs k l \<and> local_pattern qs k = local_pattern qs l"
  unfolding key_eq_iff_qbits [OF assms] agree_off_def local_pattern_eq_iff by blast

lemma agree_off_refl [simp]: "agree_off qs k k"
  by (simp add: agree_off_def)

lemma agree_off_sym: "agree_off qs k l \<longleftrightarrow> agree_off qs l k"
  by (auto simp: agree_off_def)

lemma agree_off_trans: "agree_off qs k l \<Longrightarrow> agree_off qs l m \<Longrightarrow> agree_off qs k m"
  by (simp add: agree_off_def)

lemma agree_off_perm: "set qs = set rs \<Longrightarrow> agree_off qs = agree_off rs"
  by (simp add: agree_off_def fun_eq_iff)

text \<open>Splitting a pattern into its first qubit and the rest, as the loops over the support do.\<close>

lemma pattern_split:
  fixes t :: nat
  shows "t AND 3 = of_bool (bit t 0) + 2 * of_bool (bit t 1)"
proof -
  have "t AND 3 = t mod 4"
    using take_bit_eq_mask [of 2 t] by (simp add: take_bit_eq_mod mask_eq_exp_minus_1)
  moreover have "t mod 4 = of_bool (odd t) + 2 * of_bool (odd (t div 2))"
    by (cases "odd t"; cases "odd (t div 2)"; simp; presburger)
  moreover have "bit t 1 \<longleftrightarrow> odd (t div 2)" by (simp add: bit_iff_odd)
  ultimately show ?thesis by (simp add: bit_0)
qed

text \<open>The key whose pattern on the support is overwritten by \<open>t\<close>.\<close>

definition is_overwritten :: "nat list \<Rightarrow> nat \<Rightarrow> key \<Rightarrow> key \<Rightarrow> bool" where
  "is_overwritten qs t k l \<longleftrightarrow> agree_off qs k l \<and> local_pattern qs l = t"

lemma is_overwritten_unique:
  assumes "wf_key W l" "wf_key W l'" "is_overwritten qs t k l" "is_overwritten qs t k l'"
  shows "l = l'"
  using assms(3,4) unfolding key_eq_iff_pattern [OF assms(1,2), of qs] is_overwritten_def
  by (auto simp: agree_off_def)

end
