(* ===== verification/Channel.thy ===== *)
theory Channel
  imports Local_Pattern Pauli_String Coefficient
begin

unbundle bit_operations_syntax

text \<open>
  \<open>channel/mod.rs\<close>: the output buffer, the accessors of a single qubit in a key, and the trait \<open>Channel\<close> as a
  dictionary of its required methods. Indexing a word beyond \<open>W\<close> panics, so the accessors are fallible; on a
  qubit below \<open>64 W\<close> they read and overwrite exactly the two coordinates of that qubit.
\<close>

section \<open>The output buffer\<close>

record output_buffer =
  ob_x :: "words list"
  ob_z :: "words list"
  ob_coeff :: "complex list"

definition ob_push :: "output_buffer \<Rightarrow> words \<Rightarrow> words \<Rightarrow> complex \<Rightarrow> output_buffer" where
  "ob_push out x z coeff =
     \<lparr>ob_x = ob_x out @ [x], ob_z = ob_z out @ [z], ob_coeff = ob_coeff out @ [coeff]\<rparr>"

definition ob_new :: output_buffer where
  "ob_new = \<lparr>ob_x = [], ob_z = [], ob_coeff = []\<rparr>"

definition ob_clear :: "output_buffer \<Rightarrow> output_buffer" where
  "ob_clear out = out\<lparr>ob_x := [], ob_z := [], ob_coeff := []\<rparr>"

definition ob_terms :: "output_buffer \<Rightarrow> (key \<times> complex) list" where
  "ob_terms out = zip (zip (ob_x out) (ob_z out)) (ob_coeff out)"

definition wf_buffer :: "output_buffer \<Rightarrow> bool" where
  "wf_buffer out \<longleftrightarrow> length (ob_x out) = length (ob_coeff out) \<and> length (ob_z out) = length (ob_coeff out)"

lemma ob_simps [simp]:
  "ob_terms ob_new = []" "wf_buffer ob_new"
  "ob_terms (ob_clear out) = []" "wf_buffer (ob_clear out)"
  "wf_buffer out \<Longrightarrow> ob_terms (ob_push out x z c) = ob_terms out @ [((x, z), c)]"
  "wf_buffer out \<Longrightarrow> wf_buffer (ob_push out x z c)"
  by (simp_all add: ob_terms_def ob_new_def ob_clear_def ob_push_def wf_buffer_def)

text \<open>The linear combination a list of terms stands for.\<close>

definition terms_value :: "(key \<times> complex) list \<Rightarrow> key \<Rightarrow> complex" where
  "terms_value ts l = (\<Sum>(k, c)\<leftarrow>ts. if k = l then c else 0)"

lemma terms_value_simps [simp]:
  "terms_value [] l = 0"
  "terms_value ((k, c) # ts) l = (if k = l then c else 0) + terms_value ts l"
  "terms_value (ts @ us) l = terms_value ts l + terms_value us l"
  by (simp_all add: terms_value_def)

section \<open>Qubit accessors\<close>

definition support_mask :: "nat \<Rightarrow> nat list \<Rightarrow> words result" where
  "support_mask W qubits = qubit_mask W qubits (64 * W)"

definition qubit_loc :: "nat \<Rightarrow> nat \<times> nat \<times> u64" where
  "qubit_loc q = (let word = q div 64; b = q mod 64 in (word, b, push_bit b 1))"

definition read_pauli :: "words \<Rightarrow> words \<Rightarrow> nat \<Rightarrow> nat \<Rightarrow> nat result" where
  "read_pauli x z word b =
     (if word < length x \<and> word < length z
      then (let x_bit = drop_bit b (x ! word) AND 1; z_bit = drop_bit b (z ! word) AND 1
            in Inr (unat (x_bit OR push_bit 1 z_bit)))
      else Inl IndexOutOfBounds)"

definition write_pauli :: "words \<Rightarrow> words \<Rightarrow> nat \<Rightarrow> nat \<Rightarrow> u64 \<Rightarrow> nat \<Rightarrow> key result" where
  "write_pauli x z word b m p =
     (if word < length x \<and> word < length z
      then (let x_bit = of_nat (p AND 1) :: u64; z_bit = of_nat (drop_bit 1 p AND 1) :: u64
            in Inr (x[word := (x ! word AND NOT m) OR push_bit b x_bit],
                    z[word := (z ! word AND NOT m) OR push_bit b z_bit]))
      else Inl IndexOutOfBounds)"

section \<open>The trait\<close>

record channel =
  ch_support :: "nat \<Rightarrow> words result"
  ch_debug_name :: string
  ch_apply :: "words \<Rightarrow> words \<Rightarrow> complex \<Rightarrow> output_buffer \<Rightarrow> output_buffer result"
  ch_apply_adjoint :: "words \<Rightarrow> words \<Rightarrow> complex \<Rightarrow> output_buffer \<Rightarrow> output_buffer result"

text \<open>\<open>str::find\<close> of a character and \<open>str::rfind\<close> of a substring.\<close>

fun find_char :: "char \<Rightarrow> string \<Rightarrow> nat option" where
  "find_char c [] = None"
| "find_char c (d # s) = (if d = c then Some 0 else map_option Suc (find_char c s))"

fun rfind_str :: "string \<Rightarrow> string \<Rightarrow> nat option" where
  "rfind_str pat [] = (if pat = [] then Some 0 else None)"
| "rfind_str pat (d # s) =
     (case rfind_str pat s of
        Some i \<Rightarrow> Some (Suc i)
      | None \<Rightarrow> if take (length pat) (d # s) = pat then Some 0 else None)"

definition default_debug_name :: "string \<Rightarrow> string" where
  "default_debug_name full =
     (let head = (case find_char (CHR ''<'') full of Some i \<Rightarrow> take i full | None \<Rightarrow> full)
      in case rfind_str ''::'' head of Some i \<Rightarrow> drop (i + 2) head | None \<Rightarrow> head)"

section \<open>What the accessors do\<close>

lemma bit_loc_mask: "bit (push_bit (q mod 64) (1 :: u64)) n \<longleftrightarrow> n = q mod 64"
  by (auto simp: push_bit_of_1 bit_exp_iff)

lemma read_pauli_eq:
  assumes "wf_key W (x, z)" "q < 64 * W"
  shows "read_pauli x z (q div 64) (q mod 64) = Inr (of_bool (qbit x q) + 2 * of_bool (qbit z q))"
proof -
  have w: "q div 64 < length x" "q div 64 < length z"
    using assms by (simp_all add: wf_key_def less_mult_imp_div_less mult.commute)
  have one: "drop_bit b v AND 1 = of_bool (bit v b)" for v :: u64 and b
    by (simp add: and_one_eq bit_iff_odd_drop_bit mod_2_eq_odd)
  show ?thesis
    using w by (simp add: read_pauli_def one qbit_def)
qed

lemma qbit_overwrite [qubit_bits]:
  fixes b :: bool
  assumes "q div 64 < length xs"
  shows "qbit (xs[q div 64 := (xs ! (q div 64) AND NOT (push_bit (q mod 64) 1)) OR push_bit (q mod 64) (of_bool b)]) r
    \<longleftrightarrow> (if r = q then b else qbit xs r)"
proof -
  have new: "bit ((v AND NOT (push_bit (q mod 64) 1)) OR push_bit (q mod 64) (of_bool b)) n \<longleftrightarrow>
      (if n = q mod 64 then b else bit v n)" if "n < 64" for v :: u64 and n
    using that by (cases b) (auto simp: bit_or_iff bit_and_iff bit_not_iff push_bit_of_1 bit_exp_iff)
  have "r mod 64 = q mod 64 \<longleftrightarrow> r = q" if "r div 64 = q div 64"
    using that by (metis div_mult_mod_eq)
  then show ?thesis
    unfolding qbit_update [OF assms] using assms by (subst new) (auto simp: qbit_def)
qed

lemma write_pauli_eq:
  assumes "wf_key W (x, z)" "q < 64 * W"
  shows "\<exists>x' z'. write_pauli x z (q div 64) (q mod 64) (push_bit (q mod 64) 1) p = Inr (x', z') \<and>
    wf_key W (x', z') \<and>
    (\<forall>r. qbit x' r = (if r = q then bit p 0 else qbit x r) \<and> qbit z' r = (if r = q then bit p 1 else qbit z r))"
proof -
  have w: "q div 64 < length x" "q div 64 < length z"
    using assms by (simp_all add: wf_key_def less_mult_imp_div_less mult.commute)
  have one: "(of_nat (v AND 1) :: u64) = of_bool (odd v)" for v
    by (simp add: and_one_eq mod_2_eq_odd)
  let ?put = "\<lambda>xs b. xs[q div 64 := (xs ! (q div 64) AND NOT (push_bit (q mod 64) 1)) OR push_bit (q mod 64) (of_bool b)]"
  have "write_pauli x z (q div 64) (q mod 64) (push_bit (q mod 64) 1) p =
      Inr (?put x (bit p 0), ?put z (bit p 1))"
    unfolding write_pauli_def one using w
    by (simp add: bit_iff_odd_drop_bit [of p "Suc 0"] bit_0 del: push_bit_of_1)
  moreover have "wf_key W (?put x (bit p 0), ?put z (bit p 1))"
    using assms(1) by (simp add: wf_key_def)
  ultimately show ?thesis
    using qbit_overwrite [OF w(1), of "bit p 0"] qbit_overwrite [OF w(2), of "bit p 1"] by blast
qed

end
