(* ===== verification/Ptm.thy ===== *)
theory Ptm
  imports Channel
begin

unbundle bit_operations_syntax

text \<open>
  \<open>channel/ptm.rs\<close>: one- and two-qubit channels stored as Pauli-transfer matrices. The stored entries define
  a matrix \<open>ptm_amplitude\<close>; \<open>apply\<close> multiplies by its row of the input's local pattern, \<open>apply_adjoint\<close> by
  its column, \<open>adjoint\<close> transposes it, and \<open>transfer_matrix\<close> tabulates it in ascending qubit order.
\<close>

section \<open>The channel\<close>

datatype ptm_kind =
    Hadamard | PhaseGate | PauliX | PauliY | PauliZ | Cnot | Cz | Swap | Unitary1q | Unitary2q
  | Depolarizing | Dephasing | PauliChannel | Depolarizing2q | AmplitudeDamping

definition kind_name :: "ptm_kind \<Rightarrow> bool \<Rightarrow> string" where
  "kind_name kind is_adjoint =
     (let (plain, adjoint_name) =
        (case kind of
           Hadamard \<Rightarrow> (''hadamard'', ''hadamard_adjoint'')
         | PhaseGate \<Rightarrow> (''phase_gate'', ''phase_gate_adjoint'')
         | PauliX \<Rightarrow> (''pauli_x'', ''pauli_x_adjoint'')
         | PauliY \<Rightarrow> (''pauli_y'', ''pauli_y_adjoint'')
         | PauliZ \<Rightarrow> (''pauli_z'', ''pauli_z_adjoint'')
         | Cnot \<Rightarrow> (''cnot'', ''cnot_adjoint'')
         | Cz \<Rightarrow> (''cz'', ''cz_adjoint'')
         | Swap \<Rightarrow> (''swap'', ''swap_adjoint'')
         | Unitary1q \<Rightarrow> (''unitary_1q'', ''unitary_1q_adjoint'')
         | Unitary2q \<Rightarrow> (''unitary_2q'', ''unitary_2q_adjoint'')
         | Depolarizing \<Rightarrow> (''depolarizing'', ''depolarizing_adjoint'')
         | Dephasing \<Rightarrow> (''dephasing'', ''dephasing_adjoint'')
         | PauliChannel \<Rightarrow> (''pauli_channel'', ''pauli_channel_adjoint'')
         | Depolarizing2q \<Rightarrow> (''depolarizing_2q'', ''depolarizing_2q_adjoint'')
         | AmplitudeDamping \<Rightarrow> (''amplitude_damping'', ''amplitude_damping_adjoint''))
      in if is_adjoint then adjoint_name else plain)"

record sparse_entry =
  se_input :: u8
  se_output :: u8
  se_amplitude :: complex

datatype ptm_storage =
    SignedPermutation "u8 list" u16
  | Diagonal "real list"
  | Sparse "sparse_entry list"

record ptm_channel =
  pc_qubits :: "u32 list"
  pc_num_support :: u8
  pc_kind :: ptm_kind
  pc_adjoint :: bool
  pc_storage :: ptm_storage

definition LOCAL_DIM :: nat where
  "LOCAL_DIM = 16"

definition narrow :: "nat \<Rightarrow> u32 result" where
  "narrow q = (if q < 2 ^ 32 then Inr (of_nat q) else Inl QubitExceedsU32)"

text \<open>Both slots start as the first qubit and are overwritten by the qubits there are.\<close>

definition ptm_new :: "nat list \<Rightarrow> ptm_storage \<Rightarrow> ptm_kind \<Rightarrow> ptm_channel result" where
  "ptm_new qubits storage kind =
     (case qubits of
        [] \<Rightarrow> Inl IndexOutOfBounds
      | q0 # _ \<Rightarrow>
          and_then (narrow q0) (\<lambda>n0.
          and_then (map_result narrow (take 2 qubits)) (\<lambda>ns.
            Inr \<lparr>pc_qubits = ns @ replicate (2 - length ns) n0, pc_num_support = of_nat (length qubits),
                 pc_kind = kind, pc_adjoint = False, pc_storage = storage\<rparr>)))"

definition ptm_qubits :: "ptm_channel \<Rightarrow> nat list" where
  "ptm_qubits c = map unat (take (unat (pc_num_support c)) (pc_qubits c))"

definition ptm_dimension :: "ptm_channel \<Rightarrow> nat" where
  "ptm_dimension c = push_bit (unat (2 * pc_num_support c)) 1"

definition sparse_storage :: "((u8 \<times> u8) \<times> complex) list \<Rightarrow> ptm_storage" where
  "sparse_storage entries =
     Sparse (map (\<lambda>((i, t), a). \<lparr>se_input = i, se_output = t, se_amplitude = a\<rparr>)
               (filter (\<lambda>(_, a). a \<noteq> 0) entries))"

text \<open>The loop that inverts a signed permutation.\<close>

definition invert_step :: "u16 \<Rightarrow> nat \<times> u8 \<Rightarrow> u8 list \<times> u16 \<Rightarrow> u8 list \<times> u16" where
  "invert_step negated = (\<lambda>(s, t) (inverse_images, inverse_negated).
     (inverse_images[unat t := of_nat s],
      inverse_negated OR push_bit (unat t) (drop_bit s negated AND 1)))"

definition ptm_adjoint :: "ptm_channel \<Rightarrow> ptm_channel" where
  "ptm_adjoint c =
     c\<lparr>pc_storage :=
         (case pc_storage c of
            SignedPermutation images negated \<Rightarrow>
              (case fold (invert_step negated) (enumerate 0 (take (ptm_dimension c) images)) (replicate LOCAL_DIM 0, 0) of
                 (inverse_images, inverse_negated) \<Rightarrow> SignedPermutation inverse_images inverse_negated)
          | Diagonal scale \<Rightarrow> Diagonal scale
          | Sparse entries \<Rightarrow>
              sparse_storage (sort_key fst (map (\<lambda>e. ((se_output e, se_input e), se_amplitude e)) entries))),
       pc_adjoint := \<not> pc_adjoint c\<rparr>"

section \<open>Applying it\<close>

definition local_index :: "ptm_channel \<Rightarrow> words \<Rightarrow> words \<Rightarrow> nat result" where
  "local_index c x z =
     fold_result (\<lambda>(j, q) index.
         let (word, b, _) = qubit_loc q
         in and_then (read_pauli x z word b) (\<lambda>p. Inr (index OR push_bit (2 * j) p)))
       (enumerate 0 (ptm_qubits c)) 0"

definition with_local_index :: "ptm_channel \<Rightarrow> words \<Rightarrow> words \<Rightarrow> nat \<Rightarrow> key result" where
  "with_local_index c x z t =
     fold_result (\<lambda>(j, q) (new_x, new_z).
         let (word, b, m) = qubit_loc q
         in write_pauli new_x new_z word b m (drop_bit (2 * j) t AND 3))
       (enumerate 0 (ptm_qubits c)) (x, z)"

definition signed_target :: "ptm_channel \<Rightarrow> u8 list \<Rightarrow> bool \<Rightarrow> nat \<Rightarrow> (nat \<times> nat) result" where
  "signed_target c images transposed s =
     (if transposed
      then (case iter_position (\<lambda>i. unat i = s) (take (ptm_dimension c) images) of
              Some source \<Rightarrow> Inr (source, source)
            | None \<Rightarrow> Inl NotABijection)
      else if s < length images then Inr (s, unat (images ! s)) else Inl IndexOutOfBounds)"

definition sparse_step ::
    "ptm_channel \<Rightarrow> bool \<Rightarrow> words \<Rightarrow> words \<Rightarrow> complex \<Rightarrow> nat \<Rightarrow> sparse_entry \<Rightarrow> output_buffer \<Rightarrow>
     output_buffer result" where
  "sparse_step c transposed x z coeff s entry out =
     (let (from_ix, to_ix) = (if transposed then (se_output entry, se_input entry)
                              else (se_input entry, se_output entry))
      in if unat from_ix = s
         then and_then (with_local_index c x z (unat to_ix)) (\<lambda>(new_x, new_z).
                Inr (ob_push out new_x new_z (coeff * se_amplitude entry)))
         else Inr out)"

definition apply_rows ::
    "ptm_channel \<Rightarrow> bool \<Rightarrow> words \<Rightarrow> words \<Rightarrow> complex \<Rightarrow> output_buffer \<Rightarrow> output_buffer result" where
  "apply_rows c transposed x z coeff out =
     and_then (local_index c x z) (\<lambda>s.
       case pc_storage c of
         SignedPermutation images negated \<Rightarrow>
           and_then (signed_target c images transposed s) (\<lambda>(source, t).
           and_then (with_local_index c x z t) (\<lambda>(new_x, new_z).
             Inr (ob_push out new_x new_z (if drop_bit source negated AND 1 = 1 then - coeff else coeff))))
       | Diagonal scale \<Rightarrow>
           if s < length scale then Inr (ob_push out x z (coeff * complex_of_real (scale ! s)))
           else Inl IndexOutOfBounds
       | Sparse entries \<Rightarrow> fold_result (sparse_step c transposed x z coeff s) entries out)"

text \<open>The entries \<open>for_each_entry\<close> visits, in its order.\<close>

definition ptm_entries :: "ptm_channel \<Rightarrow> (nat \<times> nat \<times> complex) list" where
  "ptm_entries c =
     (case pc_storage c of
        SignedPermutation images negated \<Rightarrow>
          map (\<lambda>(s, t). (s, unat t, if drop_bit s negated AND 1 = 1 then - 1 else 1))
            (enumerate 0 (take (ptm_dimension c) images))
      | Diagonal scale \<Rightarrow> map (\<lambda>(s, v). (s, s, Complex v 0)) (enumerate 0 scale)
      | Sparse entries \<Rightarrow> map (\<lambda>e. (unat (se_input e), unat (se_output e), se_amplitude e)) entries)"

definition reorder :: "bool \<Rightarrow> nat \<Rightarrow> nat" where
  "reorder reversed index = (if reversed then push_bit 2 (index AND 3) OR drop_bit 2 index else index)"

definition add_entry :: "nat \<Rightarrow> nat \<Rightarrow> complex \<Rightarrow> complex list list \<Rightarrow> complex list list" where
  "add_entry row column a table = table[row := (table ! row)[column := table ! row ! column + a]]"

definition transfer_matrix :: "ptm_channel \<Rightarrow> bool \<Rightarrow> complex list list" where
  "transfer_matrix c adjoint =
     (let reversed = (pc_num_support c = 2 \<and> pc_qubits c ! 0 > pc_qubits c ! 1)
      in fold (\<lambda>(s, t, a) table.
             let (row, column) = (if adjoint then (t, s) else (s, t))
             in add_entry (reorder reversed row) (reorder reversed column) a table)
           (ptm_entries c) (replicate LOCAL_DIM (replicate LOCAL_DIM 0)))"

definition assert_distinct :: "nat \<Rightarrow> nat \<Rightarrow> unit result" where
  "assert_distinct q0 q1 = assert_that (q0 \<noteq> q1) QubitsNotDistinct"

definition assert_probability :: "real \<Rightarrow> unit result" where
  "assert_probability v = assert_that (0 \<le> v \<and> v \<le> 1) NotProbability"

definition ptm_as_channel :: "ptm_channel \<Rightarrow> channel" where
  "ptm_as_channel c =
     \<lparr>ch_support = (\<lambda>W. support_mask W (ptm_qubits c)),
      ch_debug_name = kind_name (pc_kind c) (pc_adjoint c),
      ch_apply = apply_rows c False,
      ch_apply_adjoint = apply_rows c True\<rparr>"

section \<open>Well-formed channels\<close>

text \<open>
  The fields are private and every constructor establishes this (\<open>Ptm_Gates\<close>): one or two distinct qubits,
  a signed permutation that is a bijection of the local Paulis, and indices below the dimension.
\<close>

definition wf_storage :: "nat \<Rightarrow> ptm_storage \<Rightarrow> bool" where
  "wf_storage d st =
     (case st of
        SignedPermutation images negated \<Rightarrow> length images = LOCAL_DIM \<and>
          distinct (map unat (take d images)) \<and> (\<forall>i \<in> set (take d images). unat i < d)
      | Diagonal scale \<Rightarrow> length scale = d
      | Sparse entries \<Rightarrow> (\<forall>e \<in> set entries. unat (se_input e) < d \<and> unat (se_output e) < d))"

definition wf_ptm :: "ptm_channel \<Rightarrow> bool" where
  "wf_ptm c \<longleftrightarrow> pc_num_support c \<in> {1, 2} \<and> length (pc_qubits c) = 2 \<and> distinct (ptm_qubits c) \<and>
     wf_storage (ptm_dimension c) (pc_storage c)"

definition ptm_fits :: "nat \<Rightarrow> ptm_channel \<Rightarrow> bool" where
  "ptm_fits W c \<longleftrightarrow> (\<forall>q \<in> set (ptm_qubits c). q < 64 * W)"

text \<open>The matrix the entries stand for.\<close>

definition ptm_amplitude :: "ptm_channel \<Rightarrow> nat \<Rightarrow> nat \<Rightarrow> complex" where
  "ptm_amplitude c s t = (\<Sum>(i, j, a)\<leftarrow>ptm_entries c. if i = s \<and> j = t then a else 0)"

lemma wf_ptm_dimension:
  assumes "wf_ptm c"
  shows "ptm_dimension c = 4 ^ length (ptm_qubits c)" "ptm_dimension c \<le> LOCAL_DIM"
    "length (ptm_qubits c) = unat (pc_num_support c)" "length (ptm_qubits c) \<in> {1, 2}"
  using assms by (auto simp: wf_ptm_def ptm_dimension_def ptm_qubits_def LOCAL_DIM_def push_bit_nat_def)

section \<open>The local index\<close>

lemma two_bits_or:
  fixes r :: nat
  shows "of_bool a + 2 * of_bool b + 4 * r = (of_bool a + 2 * of_bool b) OR push_bit 2 r"
proof -
  let ?v = "of_bool a + 2 * of_bool b :: nat"
  have v: "take_bit 2 ?v = ?v" by (rule take_bit_nat_eq_self) (cases a; cases b; simp)
  have "take_bit 2 ?v AND push_bit 2 r = 0"
    by (rule bit_eqI) (simp add: bit_and_iff bit_take_bit_iff bit_push_bit_iff)
  from disjunctive_add_eq_or [OF this [unfolded v]] show ?thesis by (simp add: push_bit_eq_mult)
qed

lemma read_loop:
  assumes "wf_key W (x, z)" "\<forall>q \<in> set qs. q < 64 * W"
  shows "fold_result (\<lambda>(j, q) index. let (word, b, _) = qubit_loc q
         in and_then (read_pauli x z word b) (\<lambda>p. Inr (index OR push_bit (2 * j) p))) (enumerate n qs) index
    = Inr (index OR push_bit (2 * n) (local_pattern qs (x, z)))"
  using assms(2)
proof (induction qs arbitrary: n index)
  case (Cons q qs)
  let ?p = "of_bool (qbit x q) + 2 * of_bool (qbit z q) :: nat"
  have "?p + 4 * local_pattern qs (x, z) = ?p OR push_bit 2 (local_pattern qs (x, z))"
    by (rule two_bits_or)
  then have "push_bit (2 * n) (local_pattern (q # qs) (x, z)) =
      push_bit (2 * n) ?p OR push_bit (2 * Suc n) (local_pattern qs (x, z))"
    by (simp add: push_bit_or push_bit_push_bit add.commute)
  with Cons show ?case
    by (simp add: qubit_loc_def Let_def read_pauli_eq [OF assms(1)] or.assoc)
qed simp

lemma local_index_eq:
  assumes "ptm_fits W c" "wf_key W (x, z)"
  shows "local_index c x z = Inr (local_pattern (ptm_qubits c) (x, z))"
  using read_loop [OF assms(2), of "ptm_qubits c" 0 0] assms(1)
  unfolding local_index_def by (simp add: ptm_fits_def)

lemma take_bit_two_more:
  fixes t :: nat
  shows "take_bit (2 * Suc m) (drop_bit (2 * n) t) =
    of_bool (bit t (2 * n)) + 2 * of_bool (bit t (2 * n + 1)) + 4 * take_bit (2 * m) (drop_bit (2 * Suc n) t)"
proof -
  have "take_bit (Suc (Suc (2 * m))) v = of_bool (bit v 0) + 2 * of_bool (bit v 1) + 4 * take_bit (2 * m) (drop_bit 2 v)"
    for v :: nat
    by (simp only: take_bit_Suc bit_0 bit_iff_odd_drop_bit [of v 1] drop_bit_eq_div mod_2_eq_odd
        power_one_right) (simp add: div_mult2_eq [symmetric])
  from this [of "drop_bit (2 * n) t"] show ?thesis
    by (simp add: bit_drop_bit_eq drop_bit_drop_bit add.commute)
qed

lemma write_loop:
  assumes "wf_key W (x, z)" "\<forall>q \<in> set qs. q < 64 * W" "distinct qs"
  shows "\<exists>l. fold_result (\<lambda>(j, q) (new_x, new_z). let (word, b, m) = qubit_loc q
         in write_pauli new_x new_z word b m (drop_bit (2 * j) t AND 3)) (enumerate n qs) (x, z) = Inr l \<and>
    wf_key W l \<and> agree_off qs (x, z) l \<and> local_pattern qs l = take_bit (2 * length qs) (drop_bit (2 * n) t)"
  using assms
proof (induction qs arbitrary: n x z)
  case (Cons q qs)
  let ?p = "drop_bit (2 * n) t AND 3"
  have p: "bit ?p 0 = bit t (2 * n)" "bit ?p 1 = bit t (2 * n + 1)"
    using take_bit_eq_mask [of 2 "drop_bit (2 * n) t", symmetric]
    by (simp_all add: mask_eq_exp_minus_1 bit_take_bit_iff bit_drop_bit_eq)
  obtain x' z' where w: "write_pauli x z (q div 64) (q mod 64) (push_bit (q mod 64) 1) ?p = Inr (x', z')"
      "wf_key W (x', z')" "\<And>r. qbit x' r = (if r = q then bit t (2 * n) else qbit x r)"
      "\<And>r. qbit z' r = (if r = q then bit t (2 * n + 1) else qbit z r)"
    using write_pauli_eq [OF Cons.prems(1), of q ?p] Cons.prems(2) p by auto
  from Cons.IH [OF w(2), of "Suc n"] Cons.prems(2,3)
  obtain l where l: "fold_result (\<lambda>(j, q) (new_x, new_z). let (word, b, m) = qubit_loc q
         in write_pauli new_x new_z word b m (drop_bit (2 * j) t AND 3)) (enumerate (Suc n) qs) (x', z') = Inr l"
      "wf_key W l" "agree_off qs (x', z') l" "local_pattern qs l = take_bit (2 * length qs) (drop_bit (2 * Suc n) t)"
    by auto
  have "q \<notin> set qs" using Cons.prems(3) by simp
  with l(3) w(3,4) have "qbit (fst l) q = bit t (2 * n)" "qbit (snd l) q = bit t (2 * n + 1)"
    unfolding agree_off_def by fastforce+
  moreover have "agree_off (q # qs) (x, z) l"
    using l(3) w(3,4) unfolding agree_off_def by auto
  ultimately show ?case
    using l w(1) take_bit_two_more [of "length qs" n t]
    by (simp add: qubit_loc_def Let_def)
qed auto

lemma with_local_index_eq:
  assumes "wf_ptm c" "ptm_fits W c" "wf_key W (x, z)" "t < ptm_dimension c"
  shows "\<exists>l. with_local_index c x z t = Inr l \<and> wf_key W l \<and> is_overwritten (ptm_qubits c) t (x, z) l"
proof -
  have "take_bit (2 * length (ptm_qubits c)) t = t"
    using assms(4) wf_ptm_dimension(1) [OF assms(1)]
    by (simp add: take_bit_nat_eq_self power_mult)
  then show ?thesis
    using write_loop [OF assms(3), of "ptm_qubits c" t 0] assms(1,2)
    by (simp add: with_local_index_def is_overwritten_def ptm_fits_def wf_ptm_def)
qed

section \<open>The matrix of each storage\<close>

lemma sum_enumerate: "(\<Sum>p\<leftarrow>enumerate 0 xs. g p) = (\<Sum>i<length xs. g (i, xs ! i))" for g :: "_ \<Rightarrow> complex"
  by (simp add: sum_list_sum_nth nth_enumerate_eq lessThan_atLeast0)

lemma sum_pick:
  fixes n :: nat
  assumes "s < n"
  shows "(\<Sum>i<n. if i = s \<and> P i then f i else (0 :: complex)) = (if P s then f s else 0)"
proof -
  have "(\<Sum>i<n. if i = s \<and> P i then f i else 0) = (\<Sum>i<n. if i = s then (if P i then f i else 0) else 0)"
    by (intro sum.cong) auto
  also have "\<dots> = (if P s then f s else 0)" using assms by (subst sum.delta) simp_all
  finally show ?thesis .
qed

definition perm_sign :: "u16 \<Rightarrow> nat \<Rightarrow> complex" where
  "perm_sign negated s = (if drop_bit s negated AND 1 = 1 then - 1 else 1)"

lemma amplitude_signed:
  assumes "pc_storage c = SignedPermutation images negated" "s < ptm_dimension c" "ptm_dimension c \<le> length images"
  shows "ptm_amplitude c s t = (if unat (images ! s) = t then perm_sign negated s else 0)"
  using assms sum_pick [OF assms(2), of "\<lambda>i. unat (images ! i) = t" "perm_sign negated"]
  by (simp add: ptm_amplitude_def ptm_entries_def perm_sign_def comp_def case_prod_unfold sum_enumerate
      cong: if_cong)

lemma amplitude_diagonal:
  assumes "pc_storage c = Diagonal scale" "s < length scale"
  shows "ptm_amplitude c s t = (if s = t then complex_of_real (scale ! s) else 0)"
  using assms(1) sum_pick [OF assms(2), of "\<lambda>i. i = t" "\<lambda>i. complex_of_real (scale ! i)"]
  by (simp add: ptm_amplitude_def ptm_entries_def comp_def case_prod_unfold complex_of_real_def sum_enumerate
      cong: if_cong)

lemma amplitude_sparse:
  assumes "pc_storage c = Sparse entries"
  shows "ptm_amplitude c s t =
    (\<Sum>e\<leftarrow>entries. if unat (se_input e) = s \<and> unat (se_output e) = t then se_amplitude e else 0)"
  using assms by (simp add: ptm_amplitude_def ptm_entries_def comp_def)

section \<open>Applying a channel multiplies by its matrix\<close>

definition row_amplitude :: "ptm_channel \<Rightarrow> bool \<Rightarrow> nat \<Rightarrow> nat \<Rightarrow> complex" where
  "row_amplitude c transposed s t = (if transposed then ptm_amplitude c t s else ptm_amplitude c s t)"

text \<open>
  A list of terms is the image of one input under a matrix on the support: it stands for the combination whose
  coefficient at a key is the matrix entry of the two patterns when the key agrees with the input elsewhere.
\<close>

definition local_image ::
    "nat \<Rightarrow> nat list \<Rightarrow> (nat \<Rightarrow> nat \<Rightarrow> complex) \<Rightarrow> key \<Rightarrow> complex \<Rightarrow> (key \<times> complex) list \<Rightarrow> bool" where
  "local_image W qs M k coeff ts \<longleftrightarrow>
     (\<forall>t \<in> set ts. wf_key W (fst t) \<and> agree_off qs k (fst t)) \<and>
     (\<forall>l. wf_key W l \<longrightarrow> terms_value ts l =
        (if agree_off qs k l then coeff * M (local_pattern qs k) (local_pattern qs l) else 0))"

lemma local_imageI:
  assumes "wf_key W k" "wf_key W l0" "is_overwritten qs t k l0"
    "\<And>u. u < 4 ^ length qs \<Longrightarrow> coeff * M (local_pattern qs k) u = (if u = t then v else 0)"
  shows "local_image W qs M k coeff [(l0, v)]"
proof -
  have "l0 = l \<longleftrightarrow> agree_off qs k l \<and> local_pattern qs l = t" if "wf_key W l" for l
    using that assms(2,3) is_overwritten_unique [of W l0 l qs t k]
    by (auto simp: is_overwritten_def)
  then show ?thesis
    using assms(2,3) local_pattern_bound [of qs]
    by (auto simp: local_image_def is_overwritten_def assms(4))
qed

text \<open>A bijection of the local Paulis takes every value.\<close>

lemma signed_inverse:
  assumes "wf_storage d (SignedPermutation images negated)" "s < d" "d \<le> LOCAL_DIM"
  obtains source where "iter_position (\<lambda>i. unat i = s) (take d images) = Some source" "source < d"
    "\<And>u. u < d \<Longrightarrow> unat (images ! u) = s \<longleftrightarrow> u = source"
proof -
  let ?is = "map unat (take d images)"
  have len: "length ?is = d" and dist: "distinct ?is" and range: "set ?is \<subseteq> {..<d}"
    using assms(1,3) by (auto simp: wf_storage_def)
  have "set ?is = {..<d}"
    by (rule card_subset_eq [OF _ range]) (use distinct_card [OF dist] len in simp_all)
  then have "s \<in> unat ` set (take d images)" using assms(2) by simp
  then obtain i where "i \<in> set (take d images)" "unat i = s" by blast
  then obtain source where source: "iter_position (\<lambda>i. unat i = s) (take d images) = Some source"
    by (metis (mono_tags, lifting) iter_position_None_iff option.exhaust)
  then have *: "source < d" "unat (images ! source) = s"
    using len by (auto simp: iter_position_Some_iff)
  moreover have "u = source" if "u < d" "unat (images ! u) = s" for u
    using nth_eq_iff_index_eq [OF dist, of u source] that * len by simp
  ultimately show ?thesis using source that by blast
qed

definition entry_from :: "bool \<Rightarrow> sparse_entry \<Rightarrow> nat" where
  "entry_from transposed e = unat (if transposed then se_output e else se_input e)"

definition entry_to :: "bool \<Rightarrow> sparse_entry \<Rightarrow> nat" where
  "entry_to transposed e = unat (if transposed then se_input e else se_output e)"

definition entries_amplitude :: "bool \<Rightarrow> sparse_entry list \<Rightarrow> nat \<Rightarrow> nat \<Rightarrow> complex" where
  "entries_amplitude transposed es s t =
     (\<Sum>e\<leftarrow>es. if entry_from transposed e = s \<and> entry_to transposed e = t then se_amplitude e else 0)"

lemma sparse_step_eq:
  "sparse_step c transposed x z coeff s e out =
     (if entry_from transposed e = s
      then and_then (with_local_index c x z (entry_to transposed e))
             (\<lambda>(new_x, new_z). Inr (ob_push out new_x new_z (coeff * se_amplitude e)))
      else Inr out)"
  by (simp add: sparse_step_def entry_from_def entry_to_def)

lemma local_image_append:
  "local_image W qs M k coeff ts \<Longrightarrow> local_image W qs N k coeff us \<Longrightarrow>
     local_image W qs (\<lambda>s t. M s t + N s t) k coeff (ts @ us)"
  by (auto simp: local_image_def distrib_left)

lemma local_image_cong:
  "local_image W qs M k coeff ts \<Longrightarrow> (\<And>t. M (local_pattern qs k) t = N (local_pattern qs k) t) \<Longrightarrow>
     local_image W qs N k coeff ts"
  by (simp add: local_image_def)

lemma sparse_loop:
  fixes c W x z
  defines "qs \<equiv> ptm_qubits c" and "s \<equiv> local_pattern (ptm_qubits c) (x, z)"
  assumes "wf_ptm c" "ptm_fits W c" "wf_key W (x, z)" "wf_buffer out"
    "\<forall>e \<in> set es. entry_to transposed e < ptm_dimension c"
  shows "\<exists>out' ts. fold_result (sparse_step c transposed x z coeff s) es out = Inr out' \<and> wf_buffer out' \<and>
    ob_terms out' = ob_terms out @ ts \<and> local_image W qs (entries_amplitude transposed es) (x, z) coeff ts"
  using assms(6,7)
proof (induction es arbitrary: out)
  case (Cons e es)
  show ?case
  proof (cases "entry_from transposed e = s")
    case True
    have "entry_to transposed e < ptm_dimension c" using Cons.prems(2) by simp
    from with_local_index_eq [OF assms(3-5) this] obtain nx nz where
      l: "with_local_index c x z (entry_to transposed e) = Inr (nx, nz)" "wf_key W (nx, nz)"
        "is_overwritten qs (entry_to transposed e) (x, z) (nx, nz)"
      unfolding qs_def by (metis surj_pair)
    let ?out = "ob_push out nx nz (coeff * se_amplitude e)"
    obtain out' ts where IH: "fold_result (sparse_step c transposed x z coeff s) es ?out = Inr out'" "wf_buffer out'"
        "ob_terms out' = ob_terms out @ [((nx, nz), coeff * se_amplitude e)] @ ts"
        "local_image W qs (entries_amplitude transposed es) (x, z) coeff ts"
      using Cons.IH [of ?out] Cons.prems by auto
    have "local_image W qs (\<lambda>_ t. if t = entry_to transposed e then se_amplitude e else 0) (x, z) coeff
        [((nx, nz), coeff * se_amplitude e)]"
      by (rule local_imageI [OF assms(5) l(2,3)]) simp
    from local_image_append [OF this IH(4)]
    have "local_image W qs (entries_amplitude transposed (e # es)) (x, z) coeff
        ([((nx, nz), coeff * se_amplitude e)] @ ts)"
      by (rule local_image_cong) (use True in \<open>auto simp: entries_amplitude_def s_def qs_def\<close>)
    with IH(1-3) True l(1) show ?thesis by (auto simp: sparse_step_eq [of c transposed x z coeff s e])
  next
    case False
    obtain out' ts where IH: "fold_result (sparse_step c transposed x z coeff s) es out = Inr out'" "wf_buffer out'"
        "ob_terms out' = ob_terms out @ ts" "local_image W qs (entries_amplitude transposed es) (x, z) coeff ts"
      using Cons.IH [of out] Cons.prems by auto
    from IH(4) have "local_image W qs (entries_amplitude transposed (e # es)) (x, z) coeff ts"
      by (rule local_image_cong) (use False in \<open>auto simp: entries_amplitude_def s_def qs_def\<close>)
    with IH(1-3) False show ?thesis by (auto simp: sparse_step_eq [of c transposed x z coeff s e])
  qed
qed (simp add: local_image_def entries_amplitude_def)

lemma apply_rows_ok:
  assumes "wf_ptm c" "ptm_fits W c" "wf_key W (x, z)" "wf_buffer out"
  shows "\<exists>out' ts. apply_rows c transposed x z coeff out = Inr out' \<and> wf_buffer out' \<and>
    ob_terms out' = ob_terms out @ ts \<and> local_image W (ptm_qubits c) (row_amplitude c transposed) (x, z) coeff ts"
proof -
  let ?qs = "ptm_qubits c" and ?s = "local_pattern (ptm_qubits c) (x, z)"
  note d = wf_ptm_dimension [OF assms(1)]
  have s: "?s < ptm_dimension c" using local_pattern_bound d(1) by metis
  note index = local_index_eq [OF assms(2,3)]
  have wf: "wf_storage (ptm_dimension c) (pc_storage c)" using assms(1) by (simp add: wf_ptm_def)
  show ?thesis
  proof (cases "pc_storage c")
    case (Diagonal scale)
    then have len: "length scale = ptm_dimension c" using wf by (simp add: wf_storage_def)
    have "local_image W ?qs (row_amplitude c transposed) (x, z) coeff [((x, z), coeff * complex_of_real (scale ! ?s))]"
      using Diagonal len s d(1)
      by (intro local_imageI [where t = ?s] assms) (auto simp: is_overwritten_def row_amplitude_def amplitude_diagonal)
    then show ?thesis
      using Diagonal len s assms(4) by (auto simp: apply_rows_def index)
  next
    case (Sparse es)
    then have "\<forall>e \<in> set es. entry_to transposed e < ptm_dimension c"
      using wf by (simp add: wf_storage_def entry_to_def)
    from sparse_loop [OF assms this, of coeff] obtain out' ts where
      out': "fold_result (sparse_step c transposed x z coeff ?s) es out = Inr out'" "wf_buffer out'"
        "ob_terms out' = ob_terms out @ ts" "local_image W ?qs (entries_amplitude transposed es) (x, z) coeff ts"
      by blast
    from out'(4) have "local_image W ?qs (row_amplitude c transposed) (x, z) coeff ts"
      by (rule local_image_cong)
        (auto simp: row_amplitude_def amplitude_sparse [OF Sparse] entries_amplitude_def entry_from_def entry_to_def
          conj_commute cong: if_cong)
    with out'(1-3) show ?thesis by (auto simp: apply_rows_def index Sparse)
  next
    case (SignedPermutation images negated)
    then have len: "length images = LOCAL_DIM" using wf by (simp add: wf_storage_def)
    have "\<exists>source t. signed_target c images transposed ?s = Inr (source, t) \<and> t < ptm_dimension c \<and>
        (\<forall>u < ptm_dimension c. row_amplitude c transposed ?s u = (if u = t then perm_sign negated source else 0))"
    proof (cases transposed)
      case True
      obtain source where "iter_position (\<lambda>i. unat i = ?s) (take (ptm_dimension c) images) = Some source"
          "source < ptm_dimension c" "\<And>u. u < ptm_dimension c \<Longrightarrow> unat (images ! u) = ?s \<longleftrightarrow> u = source"
        using signed_inverse [OF wf [unfolded SignedPermutation] s d(2)] by metis
      with True show ?thesis
        using len d(2) by (auto simp: signed_target_def row_amplitude_def amplitude_signed [OF SignedPermutation])
    next
      case False
      have "unat (images ! ?s) < ptm_dimension c"
        using wf s len d(2) nth_mem [of ?s "take (ptm_dimension c) images"]
        by (simp add: SignedPermutation wf_storage_def)
      with False show ?thesis
        using len s d(2) by (auto simp: signed_target_def row_amplitude_def amplitude_signed [OF SignedPermutation])
    qed
    then obtain source t where t: "signed_target c images transposed ?s = Inr (source, t)" "t < ptm_dimension c"
        "\<And>u. u < ptm_dimension c \<Longrightarrow> row_amplitude c transposed ?s u = (if u = t then perm_sign negated source else 0)"
      by blast
    obtain l0 where l0: "with_local_index c x z t = Inr l0" "wf_key W l0" "is_overwritten ?qs t (x, z) l0"
      using with_local_index_eq [OF assms(1-3) t(2)] by blast
    have "local_image W ?qs (row_amplitude c transposed) (x, z) coeff [(l0, coeff * perm_sign negated source)]"
      using t(3) d(1) by (intro local_imageI [OF assms(3) l0(2,3)]) auto
    then show ?thesis
      using SignedPermutation t(1) l0(1) assms(4)
      by (cases l0) (auto simp: apply_rows_def index perm_sign_def split: if_splits)
  qed
qed

end
