(* ===== verification/Ptm_Algebra.thy ===== *)
theory Ptm_Algebra
  imports Ptm
begin

unbundle bit_operations_syntax

text \<open>
  The adjoint and the dense table of a \<open>PtmChannel\<close>: \<open>adjoint\<close> keeps the channel well formed and transposes its
  matrix for every kind of storage; \<open>transfer_matrix\<close> is the matrix in the ascending qubit order of the engine.
\<close>

section \<open>Inverting a signed permutation\<close>

lemma perm_sign_bit: "perm_sign negated s = (if bit negated s then - 1 else 1)"
  by (simp add: perm_sign_def and_1_eq_1_iff)

lemma bit_or_moved:
  fixes n m :: u16
  assumes "u < LOCAL_DIM"
  shows "bit (m OR push_bit u (drop_bit s n AND 1)) t \<longleftrightarrow> bit m t \<or> t = u \<and> bit n s"
proof -
  have "drop_bit s n AND 1 = of_bool (bit n s)"
    by (simp add: and_one_eq bit_iff_odd_drop_bit mod_2_eq_odd)
  then show ?thesis
    using assms by (cases "bit n s") (auto simp: bit_or_iff push_bit_of_1 bit_exp_iff LOCAL_DIM_def)
qed

lemma invert_loop:
  assumes "distinct (map unat xs)" "\<forall>i \<in> set xs. unat i < LOCAL_DIM" "length inv0 = LOCAL_DIM"
  shows "case fold (invert_step negated) (enumerate n xs) (inv0, m) of (inv0', m') \<Rightarrow> length inv0' = LOCAL_DIM \<and>
    (\<forall>i < length xs. inv0' ! unat (xs ! i) = of_nat (n + i) \<and>
       bit m' (unat (xs ! i)) = (bit m (unat (xs ! i)) \<or> bit negated (n + i))) \<and>
    (\<forall>t. t \<notin> unat ` set xs \<longrightarrow> inv0' ! t = inv0 ! t \<and> bit m' t = bit m t)"
  using assms
proof (induction xs arbitrary: n inv0 m)
  case (Cons x xs)
  let ?inv0 = "inv0[unat x := of_nat n]" and ?m = "m OR push_bit (unat x) (drop_bit n negated AND 1)"
  obtain inv0' m' where f: "fold (invert_step negated) (enumerate (Suc n) xs) (?inv0, ?m) = (inv0', m')"
    by fastforce
  have IH: "length inv0' = LOCAL_DIM"
      "\<And>i. i < length xs \<Longrightarrow> inv0' ! unat (xs ! i) = of_nat (Suc n + i)"
      "\<And>i. i < length xs \<Longrightarrow> bit m' (unat (xs ! i)) = (bit ?m (unat (xs ! i)) \<or> bit negated (Suc n + i))"
      "\<And>t. t \<notin> unat ` set xs \<Longrightarrow> inv0' ! t = ?inv0 ! t \<and> bit m' t = bit ?m t"
    using Cons.IH [of ?inv0 "Suc n" ?m] Cons.prems f by auto
  have x: "unat x \<notin> unat ` set xs" "unat x < LOCAL_DIM" using Cons.prems by auto
  have moved: "bit ?m t \<longleftrightarrow> bit m t \<or> t = unat x \<and> bit negated n" for t
    by (rule bit_or_moved [OF x(2)])
  have head: "inv0' ! unat x = of_nat n" "bit m' (unat x) = (bit m (unat x) \<or> bit negated n)"
    using IH(4) [OF x(1)] x(2) Cons.prems(3) moved by auto
  have tail: "bit m' (unat (xs ! i)) = (bit m (unat (xs ! i)) \<or> bit negated (Suc n + i))" if "i < length xs" for i
    using IH(3) [OF that] moved x(1) that by (metis imageI nth_mem)
  have off: "inv0' ! t = inv0 ! t \<and> bit m' t = bit m t" if "t \<notin> unat ` set (x # xs)" for t
    using IH(4) [of t] that moved by auto
  have "\<forall>i < length (x # xs). inv0' ! unat ((x # xs) ! i) = of_nat (n + i) \<and>
      bit m' (unat ((x # xs) ! i)) = (bit m (unat ((x # xs) ! i)) \<or> bit negated (n + i))"
  proof (intro allI impI)
    fix i assume "i < length (x # xs)"
    then show "inv0' ! unat ((x # xs) ! i) = of_nat (n + i) \<and>
      bit m' (unat ((x # xs) ! i)) = (bit m (unat ((x # xs) ! i)) \<or> bit negated (n + i))"
      using head IH(2) tail by (cases i) auto
  qed
  then show ?case using f IH(1) off by (simp add: invert_step_def)
qed simp

lemma signed_set:
  assumes "wf_storage d (SignedPermutation images negated)" "d \<le> LOCAL_DIM"
  shows "unat ` set (take d images) = {..<d}"
proof -
  have "distinct (map unat (take d images))" "length (map unat (take d images)) = d"
      "set (map unat (take d images)) \<subseteq> {..<d}"
    using assms by (auto simp: wf_storage_def)
  then show ?thesis
    using card_subset_eq [of "{..<d}" "set (map unat (take d images))"] distinct_card by fastforce
qed

lemma adjoint_signed:
  assumes "wf_ptm c" "pc_storage c = SignedPermutation images negated"
  shows "wf_ptm (ptm_adjoint c)"
    and "s < ptm_dimension c \<Longrightarrow> t < ptm_dimension c \<Longrightarrow>
      ptm_amplitude (ptm_adjoint c) s t = ptm_amplitude c t s"
proof -
  let ?d = "ptm_dimension c"
  have wf: "wf_storage ?d (SignedPermutation images negated)" using assms by (simp add: wf_ptm_def)
  then have len: "length images = LOCAL_DIM" by (simp add: wf_storage_def)
  note d = wf_ptm_dimension [OF assms(1)]
  have range: "unat ` set (take ?d images) = {..<?d}" by (rule signed_set [OF wf d(2)])
  obtain inv0 m where f: "fold (invert_step negated) (enumerate 0 (take ?d images)) (replicate LOCAL_DIM 0, 0) = (inv0, m)"
    by fastforce
  have "distinct (map unat (take ?d images))" "\<forall>i \<in> set (take ?d images). unat i < LOCAL_DIM"
    using wf d(2) by (auto simp: wf_storage_def)
  from invert_loop [OF this, where n = 0 and m = 0 and ?inv0.0 = "replicate LOCAL_DIM 0" and negated = negated]
  have inv0: "length inv0 = LOCAL_DIM"
      "\<And>i. i < ?d \<Longrightarrow> inv0 ! unat (images ! i) = of_nat i \<and> bit m (unat (images ! i)) = bit negated i"
    using f len d(2) by (auto simp: min_absorb2)
  have small: "unat (of_nat i :: u8) = i" if "i < ?d" for i
    using that d(2) by (simp add: unat_of_nat LOCAL_DIM_def)
  have source: "\<exists>i < ?d. unat (images ! i) = t" if "t < ?d" for t
  proof -
    have "t \<in> unat ` set (take ?d images)" using range that by blast
    then show ?thesis by (fastforce simp: in_set_conv_nth)
  qed
  have target: "unat (inv0 ! t) = s \<longleftrightarrow> unat (images ! s) = t" if "s < ?d" "t < ?d" for s t
  proof -
    obtain i where i: "i < ?d" "unat (images ! i) = t" using source \<open>t < ?d\<close> by blast
    then have "unat (inv0 ! t) = i" using inv0(2) small by auto
    moreover have "unat (images ! s) = t \<longleftrightarrow> s = i"
      using wf i that len d(2) nth_eq_iff_index_eq [of "map unat (take ?d images)" s i]
      by (auto simp: wf_storage_def)
    ultimately show ?thesis by auto
  qed
  have adj: "pc_storage (ptm_adjoint c) = SignedPermutation inv0 m" "ptm_dimension (ptm_adjoint c) = ?d"
      "ptm_qubits (ptm_adjoint c) = ptm_qubits c" "pc_num_support (ptm_adjoint c) = pc_num_support c"
      "pc_qubits (ptm_adjoint c) = pc_qubits c"
    using f by (simp_all add: ptm_adjoint_def assms(2) ptm_dimension_def ptm_qubits_def)
  have "unat (inv0 ! t) < ?d" if "t < ?d" for t
    using source [OF that] inv0(2) small by auto
  moreover have "unat (inv0 ! t) = unat (inv0 ! u) \<Longrightarrow> t = u" if "t < ?d" "u < ?d" for t u
    using source [OF that(1)] source [OF that(2)] inv0(2) small by metis
  ultimately have "wf_storage ?d (SignedPermutation inv0 m)"
    using inv0(1) d(2) by (auto simp: wf_storage_def in_set_conv_nth distinct_conv_nth)
  then show "wf_ptm (ptm_adjoint c)" using assms(1) adj by (simp add: wf_ptm_def)
  assume st: "s < ?d" "t < ?d"
  then have "perm_sign m s = perm_sign negated t" if "unat (images ! t) = s"
    using that inv0(2) [OF st(2)] by (auto simp: perm_sign_bit)
  then show "ptm_amplitude (ptm_adjoint c) s t = ptm_amplitude c t s"
    using st target [OF st(2,1)] inv0(1) len d(2)
    by (simp add: amplitude_signed [OF adj(1)] amplitude_signed [OF assms(2)] adj(2))
qed

section \<open>Transposing a sparse matrix\<close>

lemma sum_list_sort_key: "sum_list (map f (sort_key g xs)) = sum_list (map f xs)" for f :: "_ \<Rightarrow> complex"
proof -
  have "mset (map f (sort_key g xs)) = mset (map f xs)" by simp
  then show ?thesis by (metis sum_mset_sum_list)
qed

lemma amplitude_sparse_storage:
  assumes "pc_storage c = sparse_storage entries"
  shows "ptm_amplitude c s t = (\<Sum>((i, j), a)\<leftarrow>entries. if unat i = s \<and> unat j = t then a else 0)"
proof -
  have "(\<Sum>((i, j), a)\<leftarrow>filter (\<lambda>(_, a). a \<noteq> 0) entries. if unat i = s \<and> unat j = t then a else 0) =
      (\<Sum>((i, j), a)\<leftarrow>entries. if unat i = s \<and> unat j = t then a else 0)"
    by (induction entries) auto
  with assms show ?thesis
    by (simp add: amplitude_sparse sparse_storage_def comp_def case_prod_unfold cong: if_cong)
qed

lemma adjoint_sparse:
  assumes "wf_ptm c" "pc_storage c = Sparse es"
  shows "wf_ptm (ptm_adjoint c)" "ptm_amplitude (ptm_adjoint c) s t = ptm_amplitude c t s"
proof -
  let ?ts = "sort_key fst (map (\<lambda>e. ((se_output e, se_input e), se_amplitude e)) es)"
  have adj: "pc_storage (ptm_adjoint c) = sparse_storage ?ts" "ptm_dimension (ptm_adjoint c) = ptm_dimension c"
    by (simp_all add: ptm_adjoint_def assms(2) ptm_dimension_def)
  have "wf_storage (ptm_dimension c) (sparse_storage ?ts)"
    using assms by (auto simp: wf_ptm_def wf_storage_def sparse_storage_def)
  then show "wf_ptm (ptm_adjoint c)"
    using assms(1) adj by (simp add: wf_ptm_def) (simp add: ptm_adjoint_def ptm_qubits_def)
  show "ptm_amplitude (ptm_adjoint c) s t = ptm_amplitude c t s"
    unfolding amplitude_sparse_storage [OF adj(1)] amplitude_sparse [OF assms(2)] sum_list_sort_key
    by (simp add: comp_def conj_commute cong: if_cong)
qed

lemma adjoint_diagonal:
  assumes "wf_ptm c" "pc_storage c = Diagonal scale"
  shows "wf_ptm (ptm_adjoint c)"
    and "s < ptm_dimension c \<Longrightarrow> t < ptm_dimension c \<Longrightarrow>
      ptm_amplitude (ptm_adjoint c) s t = ptm_amplitude c t s"
proof -
  have adj: "pc_storage (ptm_adjoint c) = Diagonal scale" by (simp add: ptm_adjoint_def assms(2))
  have len: "length scale = ptm_dimension c" using assms by (simp add: wf_ptm_def wf_storage_def)
  show "wf_ptm (ptm_adjoint c)"
    using assms by (simp add: wf_ptm_def ptm_adjoint_def ptm_dimension_def ptm_qubits_def)
  assume "s < ptm_dimension c" "t < ptm_dimension c"
  then show "ptm_amplitude (ptm_adjoint c) s t = ptm_amplitude c t s"
    using len by (simp add: amplitude_diagonal [OF adj] amplitude_diagonal [OF assms(2)])
qed

lemma ptm_adjoint_ok:
  assumes "wf_ptm c"
  shows "wf_ptm (ptm_adjoint c)" "ptm_qubits (ptm_adjoint c) = ptm_qubits c"
    and "s < ptm_dimension c \<Longrightarrow> t < ptm_dimension c \<Longrightarrow>
      ptm_amplitude (ptm_adjoint c) s t = ptm_amplitude c t s"
  using assms adjoint_signed adjoint_sparse adjoint_diagonal
  by (cases "pc_storage c"; auto simp: ptm_adjoint_def ptm_qubits_def)+

section \<open>The dense table\<close>

definition table_dims :: "complex list list \<Rightarrow> bool" where
  "table_dims table \<longleftrightarrow> length table = LOCAL_DIM \<and> (\<forall>row \<in> set table. length row = LOCAL_DIM)"

lemma add_entry_dims: "table_dims table \<Longrightarrow> table_dims (add_entry r c a table)"
  by (cases "r < length table")
    (auto simp: table_dims_def add_entry_def list_update_beyond dest!: subsetD [OF set_update_subset_insert])

lemma add_entry_nth:
  assumes "table_dims table" "r < LOCAL_DIM" "c < LOCAL_DIM" "i < LOCAL_DIM" "j < LOCAL_DIM"
  shows "add_entry r c a table ! i ! j = table ! i ! j + (if i = r \<and> j = c then a else 0)"
  using assms by (auto simp: add_entry_def table_dims_def nth_list_update)

lemma fold_add_entry:
  assumes "table_dims table" "\<forall>(s, t, a) \<in> set es. f s t < LOCAL_DIM \<and> g s t < LOCAL_DIM"
    "i < LOCAL_DIM" "j < LOCAL_DIM"
  shows "fold (\<lambda>(s, t, a) table. add_entry (f s t) (g s t) a table) es table ! i ! j =
    table ! i ! j + (\<Sum>(s, t, a)\<leftarrow>es. if f s t = i \<and> g s t = j then a else 0)"
  using assms(1,2)
proof (induction es arbitrary: table)
  case (Cons e es)
  then show ?case
    using assms(3,4) by (cases e) (auto simp: add_entry_dims add_entry_nth add.assoc)
qed simp

lemma local_pattern_2: "local_pattern [p, q] k < 16"
  using local_pattern_bound [of "[p, q]" k] by simp

lemma reorder_two:
  assumes "s < 4" "t < 4"
  shows "reorder True (s + 4 * t) = t + 4 * s"
proof -
  have "s \<in> {0, 1, 2, 3}" "t \<in> {0, 1, 2, 3}" using assms by auto
  then show ?thesis by (auto simp: reorder_def)
qed

lemma reorder_involution:
  assumes "i < 16"
  shows "reorder r i < 16" "reorder r (reorder r i) = i"
proof -
  have i: "i mod 4 + 4 * (i div 4) = i" "i div 4 < 4" using assms by simp_all
  have "reorder True i = i div 4 + 4 * (i mod 4)"
    using reorder_two [of "i mod 4" "i div 4"] i by simp
  moreover have "reorder True (i div 4 + 4 * (i mod 4)) = i"
    using reorder_two [of "i div 4" "i mod 4"] i by simp
  moreover have "i div 4 + 4 * (i mod 4) < 16" using i(2) by simp
  ultimately show "reorder r i < 16" "reorder r (reorder r i) = i"
    using assms by (cases r; simp add: reorder_def)+
qed

lemma reorder_pattern: "reorder True (local_pattern [p, q] k) = local_pattern [q, p] k"
  using reorder_two [of "of_bool (qbit (fst k) p) + 2 * of_bool (qbit (snd k) p)"
      "of_bool (qbit (fst k) q) + 2 * of_bool (qbit (snd k) q)"]
  by (auto split: if_splits)

definition ptm_reversed :: "ptm_channel \<Rightarrow> bool" where
  "ptm_reversed c \<longleftrightarrow> pc_num_support c = 2 \<and> pc_qubits c ! 0 > pc_qubits c ! 1"

lemma signed_in_range:
  assumes "wf_storage d (SignedPermutation images negated)" "d \<le> LOCAL_DIM" "s < d"
  shows "unat (images ! s) < d"
  using assms nth_mem [of s "take d images"] by (simp add: wf_storage_def)

lemma sum_list_zeroI: "(\<And>x. x \<in> set xs \<Longrightarrow> f x = 0) \<Longrightarrow> sum_list (map f xs) = (0 :: complex)"
  by (induction xs) auto

lemma wf_entries:
  assumes "wf_ptm c" "(s, t, a) \<in> set (ptm_entries c)"
  shows "s < ptm_dimension c \<and> t < ptm_dimension c"
proof -
  have "wf_storage (ptm_dimension c) (pc_storage c)" "ptm_dimension c \<le> LOCAL_DIM"
    using assms(1) wf_ptm_dimension(2) by (auto simp: wf_ptm_def)
  then show ?thesis
    using assms(2) signed_in_range
    by (cases "pc_storage c") (auto simp: ptm_entries_def in_set_enumerate_eq, auto simp: wf_storage_def)
qed

lemma amplitude_outside:
  assumes "wf_ptm c" "\<not> (s < ptm_dimension c \<and> t < ptm_dimension c)"
  shows "ptm_amplitude c s t = 0"
  unfolding ptm_amplitude_def
  using assms wf_entries [OF assms(1)] by (intro sum_list_zeroI) (auto split: prod.splits)

lemma transfer_matrix_nth:
  assumes "wf_ptm c" "i < LOCAL_DIM" "j < LOCAL_DIM"
  shows "transfer_matrix c adjoint ! i ! j =
    row_amplitude c adjoint (reorder (ptm_reversed c) i) (reorder (ptm_reversed c) j)"
proof -
  let ?r = "reorder (ptm_reversed c)"
  let ?f = "\<lambda>s t. ?r (if adjoint then t else s)" and ?g = "\<lambda>s t. ?r (if adjoint then s else t)"
  have le: "ptm_dimension c \<le> 16" using wf_ptm_dimension(2) [OF assms(1)] by (simp add: LOCAL_DIM_def)
  have small: "s < 16 \<and> t < 16" if "(s, t, a) \<in> set (ptm_entries c)" for s t a
    using wf_entries [OF assms(1) that] le by auto
  have eq: "?r s = u \<longleftrightarrow> s = ?r u" if "s < 16" "u < 16" for s u
    using reorder_involution [OF that(1)] reorder_involution [OF that(2)] by metis
  have "transfer_matrix c adjoint =
      fold (\<lambda>(s, t, a) table. add_entry (?f s t) (?g s t) a table) (ptm_entries c)
        (replicate LOCAL_DIM (replicate LOCAL_DIM 0))"
    unfolding transfer_matrix_def Let_def ptm_reversed_def [symmetric]
    by (cases adjoint; simp)
  also have "\<dots> ! i ! j = replicate LOCAL_DIM (replicate LOCAL_DIM 0) ! i ! j +
      (\<Sum>(s, t, a)\<leftarrow>ptm_entries c. if ?f s t = i \<and> ?g s t = j then a else 0)"
    using small reorder_involution(1)
    by (intro fold_add_entry assms) (auto simp: table_dims_def LOCAL_DIM_def)
  also have "\<dots> = (\<Sum>(s, t, a)\<leftarrow>ptm_entries c. if ?f s t = i \<and> ?g s t = j then a else 0)"
    using assms(2,3) by simp
  also have "\<dots> = row_amplitude c adjoint (?r i) (?r j)"
    unfolding row_amplitude_def ptm_amplitude_def
    using assms(2,3) small eq
    by (cases adjoint) (auto simp: LOCAL_DIM_def intro!: arg_cong [of _ _ sum_list] map_cong)
  finally show ?thesis .
qed

text \<open>The engine's ascending order of the support.\<close>

lemma sort_ptm_qubits:
  assumes "wf_ptm c"
  shows "sort (ptm_qubits c) = (if ptm_reversed c then rev (ptm_qubits c) else ptm_qubits c)"
    and "ptm_reversed c \<Longrightarrow> length (ptm_qubits c) = 2"
proof -
  obtain p q where pq: "pc_qubits c = [p, q]"
    using assms by (auto simp: wf_ptm_def length_Suc_conv numeral_2_eq_2)
  consider "pc_num_support c = 1" "ptm_qubits c = [unat p]" | "pc_num_support c = 2" "ptm_qubits c = [unat p, unat q]"
    using assms by (auto simp: wf_ptm_def ptm_qubits_def pq)
  then show "sort (ptm_qubits c) = (if ptm_reversed c then rev (ptm_qubits c) else ptm_qubits c)"
      "ptm_reversed c \<Longrightarrow> length (ptm_qubits c) = 2"
    by (cases; simp add: ptm_reversed_def pq word_less_nat_alt)+
qed

lemma reorder_sorted:
  assumes "wf_ptm c"
  shows "reorder (ptm_reversed c) (local_pattern (sort (ptm_qubits c)) k) = local_pattern (ptm_qubits c) k"
proof (cases "ptm_reversed c")
  case True
  then obtain p q where pq: "ptm_qubits c = [p, q]"
    using sort_ptm_qubits(2) [OF assms] by (auto simp: length_Suc_conv numeral_2_eq_2)
  have "sort (ptm_qubits c) = [q, p]" using sort_ptm_qubits(1) [OF assms] True unfolding pq by simp
  then show ?thesis using True pq by (simp only: reorder_pattern)
qed (simp add: sort_ptm_qubits(1) [OF assms] reorder_def)

section \<open>Properties\<close>

text \<open>
  C24. Applying a Pauli-transfer channel: on a key that holds every support qubit neither direction panics; the
  terms pushed by \<open>apply\<close> stand for the input's coefficient times the row of the channel's matrix selected by
  the input's local pattern, those of \<open>apply_adjoint\<close> for the column, on the keys that agree with the input
  off the support, and terms already in the buffer stay.
\<close>

theorem ptm_apply_is_transfer_matrix:
  assumes "wf_ptm c" "ptm_fits W c" "wf_key W (x, z)" "wf_buffer out"
  shows "\<exists>out' ts. (if adjoint then ch_apply_adjoint (ptm_as_channel c) x z coeff out
                    else ch_apply (ptm_as_channel c) x z coeff out) = Inr out' \<and>
    ob_terms out' = ob_terms out @ ts \<and>
    (\<forall>l. wf_key W l \<longrightarrow> terms_value ts l =
       (if agree_off (ptm_qubits c) (x, z) l
        then coeff * (let s = local_pattern (ptm_qubits c) (x, z); t = local_pattern (ptm_qubits c) l
                      in if adjoint then ptm_amplitude c t s else ptm_amplitude c s t)
        else 0))"
  using apply_rows_ok [OF assms, of adjoint coeff]
  by (auto simp: ptm_as_channel_def local_image_def row_amplitude_def)

text \<open>
  C25. \<open>adjoint\<close> keeps the channel well formed, keeps its support and transposes its matrix, for signed
  permutations, diagonal and sparse storage alike, so applying it twice restores the matrix.
\<close>

theorem ptm_adjoint_transposes:
  assumes "wf_ptm c" "s < ptm_dimension c" "t < ptm_dimension c"
  shows "wf_ptm (ptm_adjoint c) \<and> ptm_qubits (ptm_adjoint c) = ptm_qubits c \<and>
    ptm_amplitude (ptm_adjoint c) s t = ptm_amplitude c t s \<and>
    ptm_amplitude (ptm_adjoint (ptm_adjoint c)) s t = ptm_amplitude c s t"
proof -
  note adj = ptm_adjoint_ok [OF assms(1)]
  have d: "ptm_dimension (ptm_adjoint c) = ptm_dimension c"
    using wf_ptm_dimension(1) [OF assms(1)] wf_ptm_dimension(1) [OF adj(1)] adj(2) by simp
  from ptm_adjoint_ok(3) [OF adj(1), of s t] assms(2,3) show ?thesis
    by (simp add: adj d)
qed

text \<open>A Hadamard on qubit 0 of a one-word key.\<close>

definition example_gate :: ptm_channel where
  "example_gate = \<lparr>pc_qubits = [0, 0], pc_num_support = 1, pc_kind = Hadamard, pc_adjoint = False,
     pc_storage = SignedPermutation ([0, 2, 1, 3] @ replicate 12 0) 0b1000\<rparr>"

lemma example_gate_wf: "wf_ptm example_gate" "ptm_qubits example_gate = [0]" "ptm_dimension example_gate = 4"
    "ptm_fits 1 example_gate"
  by (simp_all add: example_gate_def wf_ptm_def ptm_qubits_def ptm_dimension_def wf_storage_def LOCAL_DIM_def
      push_bit_eq_mult ptm_fits_def)

lemma example_gate_amplitude: "s < 4 \<Longrightarrow> ptm_amplitude example_gate s t =
    (if unat (([0, 2, 1, 3] @ replicate 12 0 :: u8 list) ! s) = t then perm_sign 0b1000 s else 0)"
proof (rule amplitude_signed)
  show "pc_storage example_gate = SignedPermutation ([0, 2, 1, 3] @ replicate 12 0) 0b1000"
    by (simp add: example_gate_def)
qed (simp_all add: example_gate_wf)

theorem ptm_apply_is_transfer_matrix_witness:
  "\<exists>out. ch_apply (ptm_as_channel example_gate) [1] [1] 2 ob_new = Inr out \<and>
     terms_value (ob_terms out) ([1], [1]) = - 2"
proof -
  have "wf_key 1 ([1], [1])" "local_pattern [0] ([1], [1]) = 3"
    by (simp_all add: wf_key_def qbit_def)
  then show ?thesis
    using ptm_apply_is_transfer_matrix [OF example_gate_wf(1,4), of "[1]" "[1]" ob_new False 2]
    by (auto simp: example_gate_wf(2) example_gate_amplitude perm_sign_def simp del: local_pattern_simps)
qed

theorem ptm_adjoint_transposes_witness:
  "wf_ptm (ptm_adjoint example_gate) \<and> ptm_amplitude (ptm_adjoint example_gate) 2 1 = 1"
  using ptm_adjoint_transposes [OF example_gate_wf(1), of 2 1]
  by (simp add: example_gate_wf example_gate_amplitude perm_sign_def)

end
