(* ===== verification/Small_Matrix.thy ===== *)
theory Small_Matrix
  imports Pauli_Prelude
begin

unbundle bit_operations_syntax

text \<open>
  The \<open>2 \<times> 2\<close> and \<open>4 \<times> 4\<close> complex matrices of \<open>channel/ptm/unitary.rs\<close> as lists of rows, with its products,
  adjoint, trace and Kronecker product, and the algebra the channel theorems use: products in closed form, the
  mixed-product rule, and the trace orthogonality of the Pauli matrices.
\<close>

type_synonym cmat = "complex list list"

section \<open>Operations\<close>

definition pauli_matrix :: "nat \<Rightarrow> cmat" where
  "pauli_matrix index =
     (if index = 0 then [[1, 0], [0, 1]]
      else if index = 1 then [[0, 1], [1, 0]]
      else if index = 2 then [[1, 0], [0, - 1]]
      else [[0, - \<i>], [\<i>, 0]])"

text \<open>The accumulation into \<open>out[i][j]\<close>, skipping zero factors as the source does.\<close>

definition matmul :: "nat \<Rightarrow> cmat \<Rightarrow> cmat \<Rightarrow> cmat" where
  "matmul n a b =
     map (\<lambda>i. map (\<lambda>j. fold (\<lambda>k acc. if a ! i ! k = 0 then acc else acc + a ! i ! k * b ! k ! j) [0..<n] 0)
                [0..<n]) [0..<n]"

definition dagger :: "nat \<Rightarrow> cmat \<Rightarrow> cmat" where
  "dagger n a = map (\<lambda>i. map (\<lambda>j. cnj (a ! j ! i)) [0..<n]) [0..<n]"

definition trace :: "nat \<Rightarrow> cmat \<Rightarrow> complex" where
  "trace n a = fold (\<lambda>i acc. acc + a ! i ! i) [0..<n] 0"

definition kron :: "cmat \<Rightarrow> cmat \<Rightarrow> cmat" where
  "kron a b = map (\<lambda>row. map (\<lambda>column. a ! (row div 2) ! (column div 2) * b ! (row mod 2) ! (column mod 2)) [0..<4])
                [0..<4]"

definition two_qubit_pauli :: "nat \<Rightarrow> cmat" where
  "two_qubit_pauli s = kron (pauli_matrix (s AND 3)) (pauli_matrix (drop_bit 2 s))"

section \<open>Closed forms\<close>

lemma fold_skip_zero:
  "fold (\<lambda>k acc. if f k = 0 then acc else acc + f k * g k) ks (c :: complex) = c + (\<Sum>k\<leftarrow>ks. f k * g k)"
  by (induction ks arbitrary: c) auto

lemma matmul_nth: "i < n \<Longrightarrow> j < n \<Longrightarrow> matmul n a b ! i ! j = (\<Sum>k<n. a ! i ! k * b ! k ! j)"
  by (simp add: matmul_def fold_skip_zero sum_list_distinct_conv_sum_set lessThan_atLeast0 flip: atLeastLessThan_upt)

lemma trace_eq: "trace n a = (\<Sum>i<n. a ! i ! i)"
proof -
  have "fold (\<lambda>i acc. acc + f i) is c = c + (\<Sum>i\<leftarrow>is. f i)" for f :: "nat \<Rightarrow> complex" and "is" c
    by (induction "is" arbitrary: c) auto
  then show ?thesis
    by (simp add: trace_def sum_list_distinct_conv_sum_set lessThan_atLeast0 flip: atLeastLessThan_upt)
qed

definition square :: "nat \<Rightarrow> cmat \<Rightarrow> bool" where
  "square n a \<longleftrightarrow> length a = n \<and> (\<forall>row \<in> set a. length row = n)"

lemma square_simps [simp]:
  "square n (matmul n a b)" "square n (dagger n a)" "square 4 (kron a b)" "square 2 (pauli_matrix s)"
  by (auto simp: square_def matmul_def dagger_def kron_def pauli_matrix_def)

lemma square_eqI:
  assumes "square n a" "square n b" "\<And>i j. i < n \<Longrightarrow> j < n \<Longrightarrow> a ! i ! j = b ! i ! j"
  shows "a = b"
  using assms by (intro nth_equalityI) (auto simp: square_def)

lemma square_2: "square 2 a \<Longrightarrow> \<exists>p q r s. a = [[p, q], [r, s]]"
  by (auto simp: square_def length_Suc_conv numeral_2_eq_2)

text \<open>Explicit products of \<open>2 \<times> 2\<close> matrices, and the rule \<open>(A \<otimes> B)(C \<otimes> D) = AC \<otimes> BD\<close>.\<close>

lemma upt_small: "[0..<2] = [0, 1 :: nat]" "[0..<4] = [0, 1, 2, 3 :: nat]"
  by (simp_all add: upt_rec numeral_eq_Suc)

lemma matmul_2:
  "matmul 2 [[a, b], [c, d]] [[e, f], [g, h]] = [[a * e + b * g, a * f + b * h], [c * e + d * g, c * f + d * h]]"
  by (simp add: matmul_def upt_small)

lemma dagger_2: "dagger 2 [[a, b], [c, d]] = [[cnj a, cnj c], [cnj b, cnj d]]"
  by (simp add: dagger_def upt_small)

lemma trace_2: "trace 2 [[a, b], [c, d]] = a + d"
  by (simp add: trace_def upt_small)

lemma kron_2:
  "kron [[a, b], [c, d]] [[e, f], [g, h]] =
     [[a * e, a * f, b * e, b * f], [a * g, a * h, b * g, b * h],
      [c * e, c * f, d * e, d * f], [c * g, c * h, d * g, d * h]]"
  by (simp add: kron_def upt_small)

lemma matmul_4_nth:
  "matmul 4 a b = map (\<lambda>i. map (\<lambda>j. a ! i ! 0 * b ! 0 ! j + a ! i ! 1 * b ! 1 ! j + a ! i ! 2 * b ! 2 ! j
     + a ! i ! 3 * b ! 3 ! j) [0, 1, 2, 3]) [0, 1, 2, 3]"
  unfolding matmul_def fold_skip_zero upt_small by (simp add: add.assoc)

lemma kron_mult:
  assumes "square 2 a" "square 2 b" "square 2 c" "square 2 d"
  shows "matmul 4 (kron a b) (kron c d) = kron (matmul 2 a c) (matmul 2 b d)"
proof -
  obtain a1 a2 a3 a4 b1 b2 b3 b4 c1 c2 c3 c4 d1 d2 d3 d4 where
    "a = [[a1, a2], [a3, a4]]" "b = [[b1, b2], [b3, b4]]" "c = [[c1, c2], [c3, c4]]" "d = [[d1, d2], [d3, d4]]"
    using assms square_2 by metis
  then show ?thesis
    by (simp add: kron_2 matmul_2 matmul_4_nth algebra_simps)
qed

lemma trace_kron:
  assumes "square 2 a" "square 2 b"
  shows "trace 4 (kron a b) = trace 2 a * trace 2 b"
proof -
  obtain a1 a2 a3 a4 b1 b2 b3 b4 where "a = [[a1, a2], [a3, a4]]" "b = [[b1, b2], [b3, b4]]"
    using assms square_2 by metis
  then show ?thesis by (simp add: kron_2 trace_2 trace_def upt_small algebra_simps)
qed

section \<open>The Pauli basis\<close>

lemma less_4_cases: "s < 4 \<Longrightarrow> s = 0 \<or> s = 1 \<or> s = 2 \<or> s = (3 :: nat)"
  by auto

lemma pauli_orthogonal:
  assumes "s < 4" "t < 4"
  shows "trace 2 (matmul 2 (pauli_matrix t) (pauli_matrix s)) = (if s = t then 2 else 0)"
  using less_4_cases [OF assms(1)] less_4_cases [OF assms(2)]
  by (elim disjE) (simp_all add: pauli_matrix_def matmul_2 trace_2)

definition scale_mat :: "complex \<Rightarrow> cmat \<Rightarrow> cmat" where
  "scale_mat c a = map (map ((*) c)) a"

definition add_mat :: "cmat \<Rightarrow> cmat \<Rightarrow> cmat" where
  "add_mat a b = map2 (map2 (+)) a b"

lemma scale_2: "scale_mat e [[a, b], [c, d]] = [[e * a, e * b], [e * c, e * d]]"
  by (simp add: scale_mat_def)

lemma add_2: "add_mat [[a, b], [c, d]] [[e, f], [g, h]] = [[a + e, b + f], [c + g, d + h]]"
  by (simp add: add_mat_def)

lemma trace_matmul_scale:
  assumes "square n a" "square n b"
  shows "trace n (matmul n a (scale_mat c b)) = c * trace n (matmul n a b)"
proof -
  have "scale_mat c b ! k ! i = c * b ! k ! i" if "k < n" "i < n" for k i
    using assms(2) that by (simp add: scale_mat_def square_def)
  then show ?thesis
    by (simp add: trace_eq matmul_nth sum_distrib_left mult.left_commute)
qed

lemma and_3_div_4:
  fixes s :: nat
  assumes "s < 16"
  shows "s AND 3 = s mod 4" "drop_bit 2 s = s div 4" "s div 4 < 4"
  using assms take_bit_eq_mask [of 2 s]
  by (simp_all add: take_bit_eq_mod mask_eq_exp_minus_1 drop_bit_eq_div)

lemma two_qubit_orthogonal:
  assumes "s < 16" "t < 16"
  shows "trace 4 (matmul 4 (two_qubit_pauli t) (two_qubit_pauli s)) = (if s = t then 4 else 0)"
proof -
  note s = and_3_div_4 [OF assms(1)] and t = and_3_div_4 [OF assms(2)]
  have "s = t \<longleftrightarrow> s mod 4 = t mod 4 \<and> s div 4 = t div 4" by (metis div_mult_mod_eq)
  then show ?thesis
    unfolding two_qubit_pauli_def s(1,2) t(1,2)
    using pauli_orthogonal [of "s mod 4" "t mod 4"] pauli_orthogonal [OF s(3) t(3)]
    by (simp add: kron_mult trace_kron)
qed

end
