(* ===== verification/Ptm_Gates.thy ===== *)
theory Ptm_Gates
  imports Ptm_Algebra Small_Matrix
begin

unbundle bit_operations_syntax

text \<open>
  The constructors of \<open>PtmChannel\<close>: the Cliffords of \<open>channel/ptm/clifford.rs\<close>, the noise channels of
  \<open>channel/ptm/noise.rs\<close> and the general unitaries of \<open>channel/ptm/unitary.rs\<close>. Each either panics with the
  violated precondition or builds a well-formed channel on the qubits it was given.
\<close>

section \<open>Clifford gates\<close>

definition pack :: "u8 \<Rightarrow> u8 \<Rightarrow> u8 \<Rightarrow> u8 \<Rightarrow> u8" where
  "pack x0 z0 x1 z1 = x0 OR push_bit 1 z0 OR push_bit 2 x1 OR push_bit 3 z1"

definition unpack :: "u8 \<Rightarrow> pauli_string result" where
  "unpack packed =
     and_then (write_pauli (ps_x (identity 1)) (ps_z (identity 1)) 0 0 1 (unat (packed AND 3))) (\<lambda>(x, z).
     and_then (write_pauli x z 0 1 2 (unat (drop_bit 2 packed AND 3))) (\<lambda>(x, z).
       Inr \<lparr>ps_x = x, ps_z = z\<rparr>))"

definition clifford_1q :: "nat \<Rightarrow> u8 list \<Rightarrow> u16 \<Rightarrow> ptm_kind \<Rightarrow> ptm_channel result" where
  "clifford_1q qubit images negated kind =
     ptm_new [qubit] (SignedPermutation (images @ replicate (LOCAL_DIM - 4) 0) negated) kind"

definition hadamard :: "nat \<Rightarrow> ptm_channel result" where
  "hadamard qubit = clifford_1q qubit [0, 2, 1, 3] 0b1000 Hadamard"

definition phase_gate :: "nat \<Rightarrow> ptm_channel result" where
  "phase_gate qubit = clifford_1q qubit [0, 3, 2, 1] 0b1000 PhaseGate"

definition gate_x :: "nat \<Rightarrow> ptm_channel result" where
  "gate_x qubit = clifford_1q qubit [0, 1, 2, 3] 0b1100 PauliX"

definition gate_y :: "nat \<Rightarrow> ptm_channel result" where
  "gate_y qubit = clifford_1q qubit [0, 1, 2, 3] 0b0110 PauliY"

definition gate_z :: "nat \<Rightarrow> ptm_channel result" where
  "gate_z qubit = clifford_1q qubit [0, 1, 2, 3] 0b1010 PauliZ"

text \<open>The product of the generator images selected by the bits of \<open>index\<close>, with its phase.\<close>

definition generator_step :: "nat \<Rightarrow> nat \<times> u8 \<Rightarrow> pauli_string \<times> phase \<Rightarrow> (pauli_string \<times> phase) result" where
  "generator_step index = (\<lambda>(generator, generator_image) (product, ph).
     if drop_bit generator index AND 1 = 1
     then and_then (unpack generator_image) (\<lambda>g.
            let (product', delta) = mul_assign product g in Inr (product', add_phase ph delta))
     else Inr (product, ph))"

definition y_count :: "nat \<Rightarrow> nat" where
  "y_count index =
     ((index AND 1) AND (drop_bit 1 index AND 1)) + ((drop_bit 2 index AND 1) AND (drop_bit 3 index AND 1))"

definition clifford_step :: "u8 list \<Rightarrow> nat \<Rightarrow> u8 list \<times> u16 \<Rightarrow> (u8 list \<times> u16) result" where
  "clifford_step generator_images index = (\<lambda>(images, negated).
     and_then (fold_result (generator_step index) (enumerate 0 generator_images) (identity 1, phase_ONE)) (\<lambda>(product, ph).
       let ph = add_phase ph (phase_new (of_nat (y_count index)))
       in and_then (read_pauli (ps_x product) (ps_z product) 0 0) (\<lambda>lo.
          and_then (read_pauli (ps_x product) (ps_z product) 0 1) (\<lambda>hi.
            Inr (images[index := of_nat (lo OR push_bit 2 hi)],
                 if ph = phase_MINUS_ONE then negated OR push_bit index 1 else negated)))))"

definition clifford_table :: "u8 list \<Rightarrow> (u8 list \<times> u16) result" where
  "clifford_table generator_images =
     fold_result (clifford_step generator_images) [0..<LOCAL_DIM] (replicate LOCAL_DIM 0, 0)"

definition clifford_2q :: "nat list \<Rightarrow> ptm_kind \<Rightarrow> u8 list \<Rightarrow> ptm_channel result" where
  "clifford_2q qubits kind generator_images =
     and_then (clifford_table generator_images) (\<lambda>(images, negated).
       ptm_new qubits (SignedPermutation images negated) kind)"

definition cnot :: "nat \<Rightarrow> nat \<Rightarrow> ptm_channel result" where
  "cnot control target =
     and_then (assert_distinct control target) (\<lambda>_.
       clifford_2q [control, target] Cnot [pack 1 0 1 0, pack 0 1 0 0, pack 0 0 1 0, pack 0 1 0 1])"

definition cz :: "nat \<Rightarrow> nat \<Rightarrow> ptm_channel result" where
  "cz q0 q1 =
     and_then (assert_distinct q0 q1) (\<lambda>_.
       clifford_2q [q0, q1] Cz [pack 1 0 0 1, pack 0 1 0 0, pack 0 1 1 0, pack 0 0 0 1])"

definition swap :: "nat \<Rightarrow> nat \<Rightarrow> ptm_channel result" where
  "swap q0 q1 =
     and_then (assert_distinct q0 q1) (\<lambda>_.
       clifford_2q [q0, q1] Swap [pack 0 0 1 0, pack 0 0 0 1, pack 1 0 0 0, pack 0 1 0 0])"

section \<open>Noise\<close>

definition ptm_diagonal :: "nat list \<Rightarrow> real list \<Rightarrow> ptm_kind \<Rightarrow> ptm_channel result" where
  "ptm_diagonal qubits scale kind = ptm_new qubits (Diagonal scale) kind"

definition depolarizing :: "nat \<Rightarrow> real \<Rightarrow> ptm_channel result" where
  "depolarizing qubit p =
     and_then (assert_probability p) (\<lambda>_.
       let scale = 1 - 4 * p / 3 in ptm_diagonal [qubit] [1, scale, scale, scale] Depolarizing)"

definition dephasing :: "nat \<Rightarrow> real \<Rightarrow> ptm_channel result" where
  "dephasing qubit p =
     and_then (assert_probability p) (\<lambda>_.
       let scale = 1 - 2 * p in ptm_diagonal [qubit] [1, scale, 1, scale] Dephasing)"

definition pauli_channel :: "nat \<Rightarrow> real \<Rightarrow> real \<Rightarrow> real \<Rightarrow> ptm_channel result" where
  "pauli_channel qubit px py pz =
     and_then (fold_result (\<lambda>v _. assert_probability v) [px, py, pz] ()) (\<lambda>_.
     and_then (assert_that (px + py + pz \<le> 1) NotProbability) (\<lambda>_.
       ptm_diagonal [qubit] [1, 1 - 2 * (py + pz), 1 - 2 * (px + py), 1 - 2 * (px + pz)] PauliChannel))"

definition depolarizing_2q :: "nat \<Rightarrow> nat \<Rightarrow> real \<Rightarrow> ptm_channel result" where
  "depolarizing_2q q0 q1 p =
     and_then (assert_distinct q0 q1) (\<lambda>_.
     and_then (assert_probability p) (\<lambda>_.
       ptm_diagonal [q0, q1] ((replicate 16 (1 - 16 * p / 15))[0 := 1]) Depolarizing2q))"

definition amplitude_damping :: "nat \<Rightarrow> real \<Rightarrow> ptm_channel result" where
  "amplitude_damping qubit gamma =
     and_then (assert_probability gamma) (\<lambda>_.
       let transverse = Complex (sqrt (1 - gamma)) 0
       in ptm_new [qubit]
            (sparse_storage
               [((0, 0), Complex 1 0), ((0, 2), Complex gamma 0), ((1, 1), transverse),
                ((2, 2), Complex (1 - gamma) 0), ((3, 3), transverse)])
            AmplitudeDamping)"

section \<open>General unitaries\<close>

definition PTM_EPS :: real where
  "PTM_EPS = 1 / 10 ^ 12"

definition UNITARITY_TOLERANCE :: real where
  "UNITARITY_TOLERANCE = 1 / 10 ^ 10"

definition clean :: "complex \<Rightarrow> complex" where
  "clean v = (let snap = \<lambda>part. if \<bar>part\<bar> < PTM_EPS then 0 else part in Complex (snap (Re v)) (snap (Im v)))"

text \<open>The largest \<open>|(U\<dagger>U - I)\<^sub>i\<^sub>j|\<close>; there is no NaN among the reals.\<close>

definition unitary_deviation :: "nat \<Rightarrow> cmat \<Rightarrow> real" where
  "unitary_deviation n u =
     (let product = matmul n (dagger n u) u
      in fold (\<lambda>entry largest. if entry > largest then entry else largest)
           (map (\<lambda>(i, j). cmod (product ! i ! j - (if i = j then 1 else 0))) (List.product [0..<n] [0..<n])) 0)"

definition assert_unitary :: "nat \<Rightarrow> cmat \<Rightarrow> unit result" where
  "assert_unitary n u = assert_that (unitary_deviation n u \<le> UNITARITY_TOLERANCE) NotUnitary"

definition conjugation_entries :: "nat \<Rightarrow> (nat \<Rightarrow> cmat) \<Rightarrow> nat \<Rightarrow> cmat \<Rightarrow> ((u8 \<times> u8) \<times> complex) list" where
  "conjugation_entries n pauli num u =
     concat (map (\<lambda>s.
         let conjugated = matmul n (matmul n u (pauli s)) (dagger n u)
         in map (\<lambda>t. ((of_nat s, of_nat t), clean (trace n (matmul n (pauli t) conjugated) / of_nat n))) [0..<num])
       [0..<num])"

definition unitary_1q :: "nat \<Rightarrow> cmat \<Rightarrow> ptm_channel result" where
  "unitary_1q qubit u =
     and_then (assert_unitary 2 u) (\<lambda>_.
       ptm_new [qubit] (sparse_storage (conjugation_entries 2 pauli_matrix 4 u)) Unitary1q)"

definition unitary_2q :: "nat \<Rightarrow> nat \<Rightarrow> cmat \<Rightarrow> ptm_channel result" where
  "unitary_2q q0 q1 u =
     and_then (assert_distinct q0 q1) (\<lambda>_.
     and_then (assert_unitary 4 u) (\<lambda>_.
       ptm_new [q0, q1] (sparse_storage (conjugation_entries 4 two_qubit_pauli 16 u)) Unitary2q))"

section \<open>The constructors build well-formed channels\<close>

lemma cnot_table:
  "clifford_table [pack 1 0 1 0, pack 0 1 0 0, pack 0 0 1 0, pack 0 1 0 1] =
     Inr ([0, 5, 2, 7, 4, 1, 6, 3, 10, 15, 8, 13, 14, 11, 12, 9], 0b1000001000000000)"
  by code_simp

lemma cz_table:
  "clifford_table [pack 1 0 0 1, pack 0 1 0 0, pack 0 1 1 0, pack 0 0 0 1] =
     Inr ([0, 9, 2, 11, 6, 15, 4, 13, 8, 1, 10, 3, 14, 7, 12, 5], 0b0010000010000000)"
  by code_simp

lemma swap_table:
  "clifford_table [pack 0 0 1 0, pack 0 0 0 1, pack 1 0 0 0, pack 0 1 0 0] =
     Inr ([0, 4, 8, 12, 1, 5, 9, 13, 2, 6, 10, 14, 3, 7, 11, 15], 0)"
  by code_simp

lemma ptm_new_ok:
  assumes "qs = [q] \<or> qs = [q, q'] \<and> q \<noteq> q'" "wf_storage (4 ^ length qs) st"
  shows "case ptm_new qs st kind of
      Inl e \<Rightarrow> e = QubitExceedsU32 \<and> (\<exists>r \<in> set qs. 2 ^ 32 \<le> r)
    | Inr c \<Rightarrow> wf_ptm c \<and> ptm_qubits c = qs \<and> pc_storage c = st \<and> pc_kind c = kind \<and> (\<forall>r \<in> set qs. r < 2 ^ 32)"
proof (cases "\<forall>r \<in> set qs. r < 2 ^ 32")
  case True
  have "unat (of_nat r :: u32) = r" if "r < 2 ^ 32" for r
    using that by (simp add: unat_of_nat)
  with True assms show ?thesis
    by (auto simp: ptm_new_def narrow_def wf_ptm_def ptm_qubits_def ptm_dimension_def push_bit_eq_mult
        inj_on_def)
next
  case False
  with assms(1) show ?thesis by (auto simp: ptm_new_def narrow_def and_then_def)
qed

text \<open>
  What a constructor returns: the panic of the first failed check; else the panic of a qubit index beyond \<open>u32\<close>;
  else a well-formed channel on the given qubits with the given storage.
\<close>

definition built :: "(bool \<times> panic) list \<Rightarrow> ptm_channel result \<Rightarrow> nat list \<Rightarrow> ptm_storage \<Rightarrow> bool" where
  "built checks r qs st \<longleftrightarrow>
     (case find (\<lambda>(holds, _). \<not> holds) checks of
        Some (_, e) \<Rightarrow> r = Inl e
      | None \<Rightarrow>
          if \<exists>q \<in> set qs. 2 ^ 32 \<le> q then r = Inl QubitExceedsU32
          else \<exists>c. r = Inr c \<and> wf_ptm c \<and> ptm_qubits c = qs \<and> pc_storage c = st)"

lemma built_new_1: "wf_storage 4 st \<Longrightarrow> built [] (ptm_new [q] st kind) [q] st"
  using ptm_new_ok [of "[q]" q 0 st kind] by (auto simp: built_def split: sum.splits)

lemma built_new_2: "q \<noteq> q' \<Longrightarrow> wf_storage 16 st \<Longrightarrow> built [] (ptm_new [q, q'] st kind) [q, q'] st"
  using ptm_new_ok [of "[q, q']" q q' st kind] by (auto simp: built_def split: sum.splits)

lemma built_assert:
  "(b \<Longrightarrow> built checks r qs st) \<Longrightarrow> built ((b, e) # checks) (and_then (assert_that b e) (\<lambda>_. r)) qs st"
  by (cases b) (auto simp: built_def assert_that_def)

lemma built_Inr:
  assumes "built checks r qs st" "\<forall>q \<in> set qs. q < 2 ^ 32" "\<forall>(holds, _) \<in> set checks. holds"
  shows "\<exists>c. r = Inr c \<and> wf_ptm c \<and> ptm_qubits c = qs \<and> pc_storage c = st"
proof -
  have "find (\<lambda>(holds, _). \<not> holds) checks = None" using assms(3) by (auto simp: find_None_iff)
  with assms(1,2) show ?thesis by (auto simp: built_def split: if_splits)
qed

lemmas built_intros = built_new_1 built_new_2 built_assert

lemma wf_sparse_storage:
  "\<forall>((i, t), a) \<in> set es. unat i < d \<and> unat t < d \<Longrightarrow> wf_storage d (sparse_storage es)"
  by (auto simp: wf_storage_def sparse_storage_def)

lemma wf_conjugation:
  assumes "num \<le> 16"
  shows "wf_storage num (sparse_storage (conjugation_entries n pauli num u))"
proof (rule wf_sparse_storage, safe)
  fix i t a
  assume "((i, t), a) \<in> set (conjugation_entries n pauli num u)"
  then obtain s r where "i = of_nat s" "t = of_nat r" "s < num" "r < num"
    by (auto simp: conjugation_entries_def Let_def)
  then show "unat i < num" "unat t < num" using assms by (simp_all add: unat_of_nat)
qed

lemma built_clifford_1q:
  assumes "length images = 4" "distinct (map unat images)" "\<forall>i \<in> set images. unat i < 4"
  shows "built [] (clifford_1q q images negated kind) [q] (SignedPermutation (images @ replicate 12 0) negated)"
  using assms by (auto simp: clifford_1q_def LOCAL_DIM_def wf_storage_def intro!: built_new_1)

lemma built_clifford_2q:
  assumes "clifford_table gens = Inr (images, negated)" "wf_storage 16 (SignedPermutation images negated)"
  shows "built [(q \<noteq> q', QubitsNotDistinct)]
    (and_then (assert_distinct q q') (\<lambda>_. clifford_2q [q, q'] kind gens)) [q, q'] (SignedPermutation images negated)"
  using assms unfolding assert_distinct_def clifford_2q_def by (auto intro!: built_intros)

lemma built_cliffords:
  "built [] (hadamard q) [q] (SignedPermutation ([0, 2, 1, 3] @ replicate 12 0) 0b1000)"
  "built [] (phase_gate q) [q] (SignedPermutation ([0, 3, 2, 1] @ replicate 12 0) 0b1000)"
  "built [] (gate_x q) [q] (SignedPermutation ([0, 1, 2, 3] @ replicate 12 0) 0b1100)"
  "built [] (gate_y q) [q] (SignedPermutation ([0, 1, 2, 3] @ replicate 12 0) 0b0110)"
  "built [] (gate_z q) [q] (SignedPermutation ([0, 1, 2, 3] @ replicate 12 0) 0b1010)"
  unfolding hadamard_def phase_gate_def gate_x_def gate_y_def gate_z_def
  by (rule built_clifford_1q; simp)+

lemma built_cliffords_2q:
  "built [(q \<noteq> q', QubitsNotDistinct)] (cnot q q') [q, q']
     (SignedPermutation [0, 5, 2, 7, 4, 1, 6, 3, 10, 15, 8, 13, 14, 11, 12, 9] 0b1000001000000000)"
  "built [(q \<noteq> q', QubitsNotDistinct)] (cz q q') [q, q']
     (SignedPermutation [0, 9, 2, 11, 6, 15, 4, 13, 8, 1, 10, 3, 14, 7, 12, 5] 0b0010000010000000)"
  "built [(q \<noteq> q', QubitsNotDistinct)] (swap q q') [q, q']
     (SignedPermutation [0, 4, 8, 12, 1, 5, 9, 13, 2, 6, 10, 14, 3, 7, 11, 15] 0)"
  unfolding cnot_def cz_def swap_def
  by (rule built_clifford_2q [OF cnot_table] built_clifford_2q [OF cz_table] built_clifford_2q [OF swap_table];
      simp add: wf_storage_def LOCAL_DIM_def)+

lemma built_noise:
  "built [(0 \<le> p \<and> p \<le> 1, NotProbability)] (depolarizing q p) [q]
     (Diagonal [1, 1 - 4 * p / 3, 1 - 4 * p / 3, 1 - 4 * p / 3])"
  "built [(0 \<le> p \<and> p \<le> 1, NotProbability)] (dephasing q p) [q] (Diagonal [1, 1 - 2 * p, 1, 1 - 2 * p])"
  "built [(list_all (\<lambda>v. 0 \<le> v \<and> v \<le> 1) [px, py, pz], NotProbability), (px + py + pz \<le> 1, NotProbability)]
     (pauli_channel q px py pz) [q] (Diagonal [1, 1 - 2 * (py + pz), 1 - 2 * (px + py), 1 - 2 * (px + pz)])"
  "built [(q \<noteq> q', QubitsNotDistinct), (0 \<le> p \<and> p \<le> 1, NotProbability)]
     (depolarizing_2q q q' p) [q, q'] (Diagonal ((replicate 16 (1 - 16 * p / 15))[0 := 1]))"
  "built [(0 \<le> g \<and> g \<le> 1, NotProbability)] (amplitude_damping q g) [q] (sparse_storage
     [((0, 0), Complex 1 0), ((0, 2), Complex g 0), ((1, 1), Complex (sqrt (1 - g)) 0),
      ((2, 2), Complex (1 - g) 0), ((3, 3), Complex (sqrt (1 - g)) 0)])"
  unfolding depolarizing_def dephasing_def pauli_channel_def depolarizing_2q_def amplitude_damping_def
    ptm_diagonal_def assert_probability_def fold_result_assert assert_distinct_def Let_def
  by (intro built_intros wf_sparse_storage; simp add: wf_storage_def)+

lemma built_unitaries:
  "built [(unitary_deviation 2 u \<le> UNITARITY_TOLERANCE, NotUnitary)]
     (unitary_1q q u) [q] (sparse_storage (conjugation_entries 2 pauli_matrix 4 u))"
  "built [(q \<noteq> q', QubitsNotDistinct), (unitary_deviation 4 v \<le> UNITARITY_TOLERANCE, NotUnitary)]
     (unitary_2q q q' v) [q, q'] (sparse_storage (conjugation_entries 4 two_qubit_pauli 16 v))"
  unfolding unitary_1q_def unitary_2q_def assert_unitary_def assert_distinct_def
  by (intro built_intros wf_conjugation; simp)+

text \<open>
  C26. Every named constructor of \<open>PtmChannel\<close> checks its arguments: it panics with the first violated
  precondition (equal qubits, a value outside \<open>[0, 1]\<close>, probabilities above one in total, a matrix that is not
  unitary to tolerance, a qubit beyond \<open>u32\<close>), and otherwise returns a well-formed channel: one or two distinct
  qubits in the given order, and for a Clifford a signed permutation that is a bijection of the local Paulis.
\<close>

theorem constructors_checked:
  "(\<exists>st. built [] (hadamard q) [q] st) \<and> (\<exists>st. built [] (phase_gate q) [q] st) \<and>
   (\<exists>st. built [] (gate_x q) [q] st) \<and> (\<exists>st. built [] (gate_y q) [q] st) \<and> (\<exists>st. built [] (gate_z q) [q] st) \<and>
   (\<exists>st. built [(q \<noteq> q', QubitsNotDistinct)] (cnot q q') [q, q'] st) \<and>
   (\<exists>st. built [(q \<noteq> q', QubitsNotDistinct)] (cz q q') [q, q'] st) \<and>
   (\<exists>st. built [(q \<noteq> q', QubitsNotDistinct)] (swap q q') [q, q'] st) \<and>
   (\<exists>st. built [(0 \<le> p \<and> p \<le> 1, NotProbability)] (depolarizing q p) [q] st) \<and>
   (\<exists>st. built [(0 \<le> p \<and> p \<le> 1, NotProbability)] (dephasing q p) [q] st) \<and>
   (\<exists>st. built [(list_all (\<lambda>v. 0 \<le> v \<and> v \<le> 1) [px, py, pz], NotProbability), (px + py + pz \<le> 1, NotProbability)]
     (pauli_channel q px py pz) [q] st) \<and>
   (\<exists>st. built [(q \<noteq> q', QubitsNotDistinct), (0 \<le> p \<and> p \<le> 1, NotProbability)] (depolarizing_2q q q' p) [q, q'] st) \<and>
   (\<exists>st. built [(0 \<le> p \<and> p \<le> 1, NotProbability)] (amplitude_damping q p) [q] st) \<and>
   (\<exists>st. built [(unitary_deviation 2 u \<le> UNITARITY_TOLERANCE, NotUnitary)] (unitary_1q q u) [q] st) \<and>
   (\<exists>st. built [(q \<noteq> q', QubitsNotDistinct), (unitary_deviation 4 v \<le> UNITARITY_TOLERANCE, NotUnitary)]
     (unitary_2q q q' v) [q, q'] st)"
  by (intro conjI exI; rule built_cliffords built_cliffords_2q built_noise built_unitaries)

end
