(* ===== verification/Ptm_Physics.thy ===== *)
theory Ptm_Physics
  imports Ptm_Gates
begin

unbundle bit_operations_syntax

text \<open>
  What the constructors of \<open>PtmChannel\<close> compute, against matrices: the entry of a gate's table is the trace
  \<open>tr(P_t U P_s U\<dagger>) / 2^k\<close> for the gate's unitary, the entry of a noise channel the trace of its Kraus form, and
  the general-unitary constructors store the exact trace up to the rounding of parts below \<open>1e-12\<close>.
\<close>

section \<open>Conjugation\<close>

definition conj_entry :: "nat \<Rightarrow> (nat \<Rightarrow> cmat) \<Rightarrow> cmat \<Rightarrow> nat \<Rightarrow> nat \<Rightarrow> complex" where
  "conj_entry n pauli u s t = trace n (matmul n (pauli t) (matmul n (matmul n u (pauli s)) (dagger n u))) / of_nat n"

definition hadamard_matrix :: cmat where
  "hadamard_matrix = (let r = complex_of_real (1 / sqrt 2) in [[r, r], [r, - r]])"

definition phase_matrix :: cmat where
  "phase_matrix = [[1, 0], [0, \<i>]]"

text \<open>On \<open>|q0 q1\<rangle>\<close> with the first qubit the more significant one.\<close>

definition cnot_matrix :: cmat where
  "cnot_matrix = [[1, 0, 0, 0], [0, 1, 0, 0], [0, 0, 0, 1], [0, 0, 1, 0]]"

definition cz_matrix :: cmat where
  "cz_matrix = [[1, 0, 0, 0], [0, 1, 0, 0], [0, 0, 1, 0], [0, 0, 0, - 1]]"

definition swap_matrix :: cmat where
  "swap_matrix = [[1, 0, 0, 0], [0, 0, 1, 0], [0, 1, 0, 0], [0, 0, 0, 1]]"

lemma conj_entry_1q:
  assumes "matmul 2 (matmul 2 u (pauli_matrix s)) (dagger 2 u) = scale_mat c (pauli_matrix r)" "r < 4" "t < 4"
  shows "conj_entry 2 pauli_matrix u s t = (if r = t then c else 0)"
  unfolding conj_entry_def assms(1) trace_matmul_scale [OF square_simps(4) square_simps(4)]
  using pauli_orthogonal [OF assms(2,3)] by simp

lemma conj_entry_2q:
  assumes "matmul 4 (matmul 4 u (two_qubit_pauli s)) (dagger 4 u) = scale_mat c (two_qubit_pauli r)" "r < 16" "t < 16"
  shows "conj_entry 4 two_qubit_pauli u s t = (if r = t then c else 0)"
proof -
  have "square 4 (two_qubit_pauli v)" for v by (simp add: two_qubit_pauli_def)
  then show ?thesis
    unfolding conj_entry_def assms(1) using two_qubit_orthogonal [OF assms(2,3)]
    by (simp add: trace_matmul_scale)
qed

text \<open>
  A signed permutation is conjugation by \<open>u\<close> when it moves each Pauli as \<open>u\<close> does.
\<close>

lemma signed_is_conjugation_1q:
  assumes "wf_ptm c" "ptm_qubits c = [q]" "pc_storage c = SignedPermutation images negated" "s < 4" "t < 4"
    "matmul 2 (matmul 2 u (pauli_matrix s)) (dagger 2 u) =
       scale_mat (perm_sign negated s) (pauli_matrix (unat (images ! s)))" "unat (images ! s) < 4"
  shows "ptm_amplitude c s t = conj_entry 2 pauli_matrix u s t"
proof -
  have "ptm_dimension c = 4" using wf_ptm_dimension(1) [OF assms(1)] by (simp add: assms(2))
  moreover have "length images = LOCAL_DIM" using assms(1,3) by (simp add: wf_ptm_def wf_storage_def)
  ultimately show ?thesis
    using assms(4) conj_entry_1q [OF assms(6,7,5)] by (simp add: amplitude_signed [OF assms(3)] LOCAL_DIM_def)
qed

lemma signed_is_conjugation_2q:
  assumes "wf_ptm c" "ptm_qubits c = [q, q']" "pc_storage c = SignedPermutation images negated" "s < 16" "t < 16"
    "matmul 4 (matmul 4 u (two_qubit_pauli s)) (dagger 4 u) =
       scale_mat (perm_sign negated s) (two_qubit_pauli (unat (images ! s)))" "unat (images ! s) < 16"
  shows "ptm_amplitude c s t = conj_entry 4 two_qubit_pauli u s t"
proof -
  have "ptm_dimension c = 16" using wf_ptm_dimension(1) [OF assms(1)] by (simp add: assms(2))
  moreover have "length images = LOCAL_DIM" using assms(1,3) by (simp add: wf_ptm_def wf_storage_def)
  ultimately show ?thesis
    using assms(4) conj_entry_2q [OF assms(6,7,5)] by (simp add: amplitude_signed [OF assms(3)] LOCAL_DIM_def)
qed

section \<open>The single-qubit Cliffords\<close>

lemmas mat_2 = matmul_2 dagger_2 scale_2 pauli_matrix_def

lemma half_sqrt: "complex_of_real (1 / sqrt 2) * complex_of_real (1 / sqrt 2) = 1 / 2"
  by (simp flip: of_real_mult)

lemma moves_1q:
  assumes "s < 4"
  shows
    "matmul 2 (matmul 2 hadamard_matrix (pauli_matrix s)) (dagger 2 hadamard_matrix) =
       scale_mat (perm_sign 0b1000 s) (pauli_matrix ([0, 2, 1, 3] ! s))"
    "matmul 2 (matmul 2 phase_matrix (pauli_matrix s)) (dagger 2 phase_matrix) =
       scale_mat (perm_sign 0b1000 s) (pauli_matrix ([0, 3, 2, 1] ! s))"
    "matmul 2 (matmul 2 (pauli_matrix 1) (pauli_matrix s)) (dagger 2 (pauli_matrix 1)) =
       scale_mat (perm_sign 0b1100 s) (pauli_matrix s)"
    "matmul 2 (matmul 2 (pauli_matrix 3) (pauli_matrix s)) (dagger 2 (pauli_matrix 3)) =
       scale_mat (perm_sign 0b0110 s) (pauli_matrix s)"
    "matmul 2 (matmul 2 (pauli_matrix 2) (pauli_matrix s)) (dagger 2 (pauli_matrix 2)) =
       scale_mat (perm_sign 0b1010 s) (pauli_matrix s)"
  using less_4_cases [OF assms]
  by (elim disjE; simp add: mat_2 hadamard_matrix_def phase_matrix_def perm_sign_def Let_def half_sqrt
      del: of_real_divide)+

section \<open>The two-qubit Cliffords\<close>

lemma less_16_cases:
  "s < 16 \<Longrightarrow> s = 0 \<or> s = 1 \<or> s = 2 \<or> s = 3 \<or> s = 4 \<or> s = 5 \<or> s = 6 \<or> s = 7 \<or> s = 8 \<or> s = 9 \<or> s = 10 \<or>
     s = 11 \<or> s = 12 \<or> s = 13 \<or> s = 14 \<or> s = (15 :: nat)"
  by presburger

lemmas mat_4 = matmul_4_nth two_qubit_pauli_def kron_2 pauli_matrix_def dagger_def upt_small scale_mat_def
  perm_sign_def cnot_matrix_def cz_matrix_def swap_matrix_def

lemma moves_cnot:
  "s < 16 \<Longrightarrow> matmul 4 (matmul 4 cnot_matrix (two_qubit_pauli s)) (dagger 4 cnot_matrix) =
     scale_mat (perm_sign 0b1000001000000000 s)
       (two_qubit_pauli ([0, 5, 2, 7, 4, 1, 6, 3, 10, 15, 8, 13, 14, 11, 12, 9] ! s))"
  by (drule less_16_cases) (elim disjE; simp add: mat_4)

lemma moves_cz:
  "s < 16 \<Longrightarrow> matmul 4 (matmul 4 cz_matrix (two_qubit_pauli s)) (dagger 4 cz_matrix) =
     scale_mat (perm_sign 0b0010000010000000 s)
       (two_qubit_pauli ([0, 9, 2, 11, 6, 15, 4, 13, 8, 1, 10, 3, 14, 7, 12, 5] ! s))"
  by (drule less_16_cases) (elim disjE; simp add: mat_4)

lemma moves_swap:
  "s < 16 \<Longrightarrow> matmul 4 (matmul 4 swap_matrix (two_qubit_pauli s)) (dagger 4 swap_matrix) =
     scale_mat (perm_sign 0 s)
       (two_qubit_pauli ([0, 4, 8, 12, 1, 5, 9, 13, 2, 6, 10, 14, 3, 7, 11, 15] ! s))"
  by (drule less_16_cases) (elim disjE; simp add: mat_4)

text \<open>
  C21. The single-qubit Clifford gates act as their unitaries: for \<open>H\<close>, \<open>S\<close> and the three Paulis, on every qubit
  index a \<open>u32\<close> holds, the constructor succeeds and entry \<open>(s, t)\<close> of the stored signed permutation is
  \<open>tr(P_t U P_s U\<dagger>) / 2\<close>.
\<close>

theorem clifford_1q_gates_conjugate:
  assumes "q < 2 ^ 32" "s < 4" "t < 4"
  shows "(\<exists>c. hadamard q = Inr c \<and> ptm_amplitude c s t = conj_entry 2 pauli_matrix hadamard_matrix s t) \<and>
    (\<exists>c. phase_gate q = Inr c \<and> ptm_amplitude c s t = conj_entry 2 pauli_matrix phase_matrix s t) \<and>
    (\<exists>c. gate_x q = Inr c \<and> ptm_amplitude c s t = conj_entry 2 pauli_matrix (pauli_matrix 1) s t) \<and>
    (\<exists>c. gate_y q = Inr c \<and> ptm_amplitude c s t = conj_entry 2 pauli_matrix (pauli_matrix 3) s t) \<and>
    (\<exists>c. gate_z q = Inr c \<and> ptm_amplitude c s t = conj_entry 2 pauli_matrix (pauli_matrix 2) s t)"
proof -
  have conj: "\<exists>c. r = Inr c \<and> ptm_amplitude c s t = conj_entry 2 pauli_matrix u s t"
    if b: "built [] r [q] (SignedPermutation (images @ replicate 12 0) negated)"
      and m: "matmul 2 (matmul 2 u (pauli_matrix s)) (dagger 2 u) = scale_mat (perm_sign negated s) (pauli_matrix j)"
      "(images @ replicate 12 0) ! s = of_nat j" "j < 4" for r images negated u j
  proof -
    obtain c where c: "r = Inr c" "wf_ptm c" "ptm_qubits c = [q]"
        "pc_storage c = SignedPermutation (images @ replicate 12 0) negated"
      using built_Inr [OF b] assms(1) by auto
    have "unat ((images @ replicate 12 0) ! s) = j" using m(2,3) by (simp add: unat_of_nat)
    with signed_is_conjugation_1q [OF c(2-4) assms(2,3)] m(1,3) c(1) show ?thesis by auto
  qed
  have s: "s = 0 \<or> s = 1 \<or> s = 2 \<or> s = 3" using assms(2) by auto
  show ?thesis
    by (intro conjI conj [OF built_cliffords(1) moves_1q(1) [OF assms(2)]]
        conj [OF built_cliffords(2) moves_1q(2) [OF assms(2)]] conj [OF built_cliffords(3) moves_1q(3) [OF assms(2)]]
        conj [OF built_cliffords(4) moves_1q(4) [OF assms(2)]] conj [OF built_cliffords(5) moves_1q(5) [OF assms(2)]])
      (use s in auto)
qed

text \<open>
  C20. The two-qubit Clifford gates act as their unitaries: for two different qubits, entry \<open>(s, t)\<close> of the table
  that \<open>cnot\<close>, \<open>cz\<close> and \<open>swap\<close> multiply out from four generator images is \<open>tr(P_t U P_s U\<dagger>) / 4\<close>, signs
  included.
\<close>

theorem clifford_2q_gates_conjugate:
  assumes "q < 2 ^ 32" "q' < 2 ^ 32" "q \<noteq> q'" "s < 16" "t < 16"
  shows "(\<exists>c. cnot q q' = Inr c \<and> ptm_amplitude c s t = conj_entry 4 two_qubit_pauli cnot_matrix s t) \<and>
    (\<exists>c. cz q q' = Inr c \<and> ptm_amplitude c s t = conj_entry 4 two_qubit_pauli cz_matrix s t) \<and>
    (\<exists>c. swap q q' = Inr c \<and> ptm_amplitude c s t = conj_entry 4 two_qubit_pauli swap_matrix s t)"
proof -
  have conj: "\<exists>c. r = Inr c \<and> ptm_amplitude c s t = conj_entry 4 two_qubit_pauli u s t"
    if b: "built [(q \<noteq> q', QubitsNotDistinct)] r [q, q'] (SignedPermutation images negated)"
      and m: "matmul 4 (matmul 4 u (two_qubit_pauli s)) (dagger 4 u) =
         scale_mat (perm_sign negated s) (two_qubit_pauli (js ! s))"
      "images = map of_nat js" "list_all (\<lambda>j. j < 16) js" "length js = 16" for r images negated u js
  proof -
    obtain c where c: "r = Inr c" "wf_ptm c" "ptm_qubits c = [q, q']"
        "pc_storage c = SignedPermutation images negated"
      using built_Inr [OF b] assms(1-3) by auto
    have "js ! s < 16" using m(3,4) assms(4) by (simp add: list_all_length)
    moreover from this have "unat (images ! s) = js ! s"
      using m(2,4) assms(4) by (simp add: unat_of_nat)
    ultimately show ?thesis
      using signed_is_conjugation_2q [OF c(2-4) assms(4,5)] m(1) c(1) by auto
  qed
  show ?thesis
    by (intro conjI conj [OF built_cliffords_2q(1) moves_cnot [OF assms(4)]]
        conj [OF built_cliffords_2q(2) moves_cz [OF assms(4)]]
        conj [OF built_cliffords_2q(3) moves_swap [OF assms(4)]]) simp_all
qed

section \<open>General unitaries\<close>

lemma sum_pick_2:
  fixes n :: nat
  assumes "s < n" "t < n"
  shows "(\<Sum>i<n. \<Sum>j<n. if i = s \<and> j = t then f i j else (0 :: complex)) = f s t"
proof -
  have "(\<Sum>j<n. if i = s \<and> j = t then f i j else 0) = (if i = s then f i t else 0)" for i
    using assms(2) by (auto simp: sum.delta cong: if_cong)
  then show ?thesis using assms(1) by (simp add: sum.delta)
qed

lemma conjugation_amplitude:
  assumes "pc_storage c = sparse_storage (conjugation_entries n pauli num u)" "num \<le> 16" "s < num" "t < num"
  shows "ptm_amplitude c s t = clean (conj_entry n pauli u s t)"
proof -
  have small: "unat (of_nat i :: u8) = i" if "i < num" for i
    using that assms(2) by (simp add: unat_of_nat)
  have "ptm_amplitude c s t =
      (\<Sum>i<num. \<Sum>j<num. if unat (of_nat i :: u8) = s \<and> unat (of_nat j :: u8) = t then clean (conj_entry n pauli u i j) else 0)"
    unfolding amplitude_sparse_storage [OF assms(1)] conjugation_entries_def sum_list_map_concat Let_def
    by (simp add: comp_def sum_list_distinct_conv_sum_set lessThan_atLeast0 conj_entry_def
        flip: atLeastLessThan_upt cong: if_cong)
  also have "\<dots> = (\<Sum>i<num. \<Sum>j<num. if i = s \<and> j = t then clean (conj_entry n pauli u i j) else 0)"
    using small by (intro sum.cong refl) auto
  finally show ?thesis using sum_pick_2 [OF assms(3,4)] by simp
qed

lemma clean_close: "\<bar>Re (clean v - v)\<bar> < PTM_EPS \<and> \<bar>Im (clean v - v)\<bar> < PTM_EPS"
  by (auto simp: clean_def PTM_EPS_def Let_def)

lemma fold_max_le:
  "fold (\<lambda>entry largest. if entry > largest then entry else largest) xs (a :: real) \<le> b \<longleftrightarrow>
     a \<le> b \<and> (\<forall>x \<in> set xs. x \<le> b)"
  by (induction xs arbitrary: a) auto

lemma unitary_deviation_le:
  assumes "0 \<le> b"
  shows "unitary_deviation n u \<le> b \<longleftrightarrow>
    (\<forall>i < n. \<forall>j < n. cmod (matmul n (dagger n u) u ! i ! j - (if i = j then 1 else 0)) \<le> b)"
  using assms unfolding unitary_deviation_def Let_def fold_max_le by auto

text \<open>
  C23. The general-unitary constructors: \<open>unitary_1q\<close> accepts a matrix exactly when every entry of \<open>U\<dagger>U - I\<close> is
  within the tolerance, and then stores \<open>tr(P_t U P_s U\<dagger>) / 2\<close> with each part below \<open>1e-12\<close> replaced by zero,
  so that the stored entry is within that of the exact one; \<open>unitary_2q\<close> does the same with \<open>/ 4\<close> on two
  different qubits.
\<close>

theorem unitary_constructors_exact:
  assumes "q < 2 ^ 32" "q' < 2 ^ 32" "q \<noteq> q'"
  shows "((\<exists>c. unitary_1q q u = Inr c) \<longleftrightarrow>
      (\<forall>i < 2. \<forall>j < 2. cmod (matmul 2 (dagger 2 u) u ! i ! j - (if i = j then 1 else 0)) \<le> 1 / 10 ^ 10)) \<and>
    (\<forall>c s t. unitary_1q q u = Inr c \<longrightarrow> s < 4 \<longrightarrow> t < 4 \<longrightarrow>
      ptm_amplitude c s t = clean (conj_entry 2 pauli_matrix u s t) \<and>
      \<bar>Re (ptm_amplitude c s t - conj_entry 2 pauli_matrix u s t)\<bar> < 1 / 10 ^ 12 \<and>
      \<bar>Im (ptm_amplitude c s t - conj_entry 2 pauli_matrix u s t)\<bar> < 1 / 10 ^ 12) \<and>
    ((\<exists>c. unitary_2q q q' v = Inr c) \<longleftrightarrow>
      (\<forall>i < 4. \<forall>j < 4. cmod (matmul 4 (dagger 4 v) v ! i ! j - (if i = j then 1 else 0)) \<le> 1 / 10 ^ 10)) \<and>
    (\<forall>c s t. unitary_2q q q' v = Inr c \<longrightarrow> s < 16 \<longrightarrow> t < 16 \<longrightarrow>
      ptm_amplitude c s t = clean (conj_entry 4 two_qubit_pauli v s t) \<and>
      \<bar>Re (ptm_amplitude c s t - conj_entry 4 two_qubit_pauli v s t)\<bar> < 1 / 10 ^ 12 \<and>
      \<bar>Im (ptm_amplitude c s t - conj_entry 4 two_qubit_pauli v s t)\<bar> < 1 / 10 ^ 12)"
proof -
  have tol: "unitary_deviation n w \<le> UNITARITY_TOLERANCE \<longleftrightarrow>
      (\<forall>i < n. \<forall>j < n. cmod (matmul n (dagger n w) w ! i ! j - (if i = j then 1 else 0)) \<le> 1 / 10 ^ 10)" for n w
    by (subst unitary_deviation_le) (simp_all add: UNITARITY_TOLERANCE_def)
  have ex1: "(\<exists>c. unitary_1q q u = Inr c) \<longleftrightarrow> unitary_deviation 2 u \<le> UNITARITY_TOLERANCE"
    using built_Inr [OF built_unitaries(1), of q u] assms(1)
    by (auto simp: unitary_1q_def assert_unitary_def and_then_Inr_iff)
  have ex2: "(\<exists>c. unitary_2q q q' v = Inr c) \<longleftrightarrow> unitary_deviation 4 v \<le> UNITARITY_TOLERANCE"
    using built_Inr [OF built_unitaries(2), of q q' v] assms
    by (auto simp: unitary_2q_def assert_unitary_def assert_distinct_def and_then_Inr_iff)
  have c1: "ptm_amplitude c s t = clean (conj_entry 2 pauli_matrix u s t)" if "unitary_1q q u = Inr c" "s < 4" "t < 4" for c s t
  proof -
    have "unitary_deviation 2 u \<le> UNITARITY_TOLERANCE" using ex1 that(1) by blast
    then have "pc_storage c = sparse_storage (conjugation_entries 2 pauli_matrix 4 u)"
      using built_Inr [OF built_unitaries(1), of q u] that(1) assms(1) by auto
    from conjugation_amplitude [OF this] that(2,3) show ?thesis by simp
  qed
  have c2: "ptm_amplitude c s t = clean (conj_entry 4 two_qubit_pauli v s t)"
    if "unitary_2q q q' v = Inr c" "s < 16" "t < 16" for c s t
  proof -
    have "unitary_deviation 4 v \<le> UNITARITY_TOLERANCE" using ex2 that(1) by blast
    then have "pc_storage c = sparse_storage (conjugation_entries 4 two_qubit_pauli 16 v)"
      using built_Inr [OF built_unitaries(2), of q q' v] that(1) assms by auto
    from conjugation_amplitude [OF this] that(2,3) show ?thesis by simp
  qed
  show ?thesis
    unfolding ex1 ex2 tol using c1 c2 clean_close unfolding PTM_EPS_def by (simp add: tol)
qed

section \<open>Noise\<close>

text \<open>The entry of the channel \<open>\<Sum> w K \<rho> K\<dagger>\<close> over weighted Kraus operators.\<close>

definition kraus_entry :: "nat \<Rightarrow> (nat \<Rightarrow> cmat) \<Rightarrow> (real \<times> cmat) list \<Rightarrow> nat \<Rightarrow> nat \<Rightarrow> complex" where
  "kraus_entry n pauli ks s t = (\<Sum>(w, k)\<leftarrow>ks. complex_of_real w * conj_entry n pauli k s t)"

definition pauli_sign :: "nat \<Rightarrow> nat \<Rightarrow> complex" where
  "pauli_sign k s = (if k = 0 \<or> s = 0 \<or> k = s then 1 else - 1)"

lemma pauli_sign_0 [simp]: "pauli_sign 0 s = 1"
  by (simp add: pauli_sign_def)

lemma conj_pauli:
  assumes "k < 4" "s < 4" "t < 4"
  shows "conj_entry 2 pauli_matrix (pauli_matrix k) s t = (if s = t then pauli_sign k s else 0)"
proof -
  have "matmul 2 (matmul 2 (pauli_matrix k) (pauli_matrix s)) (dagger 2 (pauli_matrix k)) =
      scale_mat (pauli_sign k s) (pauli_matrix s)"
    using less_4_cases [OF assms(1)] less_4_cases [OF assms(2)]
    by (elim disjE; simp add: mat_2 pauli_sign_def)
  from conj_entry_1q [OF this assms(2,3)] show ?thesis by simp
qed

lemma dagger_kron:
  assumes "square 2 a" "square 2 b"
  shows "dagger 4 (kron a b) = kron (dagger 2 a) (dagger 2 b)"
proof -
  obtain a1 a2 a3 a4 b1 b2 b3 b4 where "a = [[a1, a2], [a3, a4]]" "b = [[b1, b2], [b3, b4]]"
    using assms square_2 by metis
  then show ?thesis by (simp add: kron_2 dagger_2) (simp add: dagger_def upt_small)
qed

lemma conj_two_qubit:
  assumes "k < 16" "s < 16" "t < 16"
  shows "conj_entry 4 two_qubit_pauli (two_qubit_pauli k) s t =
    conj_entry 2 pauli_matrix (pauli_matrix (k mod 4)) (s mod 4) (t mod 4) *
    conj_entry 2 pauli_matrix (pauli_matrix (k div 4)) (s div 4) (t div 4)"
  unfolding conj_entry_def two_qubit_pauli_def
  by (simp add: and_3_div_4 [OF assms(1)] and_3_div_4 [OF assms(2)] and_3_div_4 [OF assms(3)]
      dagger_kron kron_mult trace_kron)

lemma diagonal_entry:
  assumes "built checks r qs (Diagonal scale)" "\<forall>(holds, _) \<in> set checks. holds" "\<forall>q \<in> set qs. q < 2 ^ 32"
    "s < length scale" "t < length scale"
  shows "\<exists>c. r = Inr c \<and> ptm_amplitude c s t = (if s = t then complex_of_real (scale ! s) else 0)"
proof -
  obtain c where "r = Inr c" "pc_storage c = Diagonal scale" using built_Inr [OF assms(1,3,2)] by blast
  then show ?thesis using assms(4) by (auto simp: amplitude_diagonal)
qed

lemma two_qubit_kraus:
  assumes "s < 16" "t < 16"
  shows "kraus_entry 4 two_qubit_pauli
      ((1 - p, two_qubit_pauli 0) # map (\<lambda>k. (p / 15, two_qubit_pauli k)) [1..<16]) s t =
    (if s = t then complex_of_real (if s = 0 then 1 else 1 - 16 * p / 15) else 0)"
proof -
  have st: "s mod 4 < 4" "s div 4 < 4" "t mod 4 < 4" "t div 4 < 4" using assms by simp_all
  have eq: "s = t \<longleftrightarrow> s mod 4 = t mod 4 \<and> s div 4 = t div 4" by (metis div_mult_mod_eq)
  have e: "conj_entry 4 two_qubit_pauli (two_qubit_pauli k) s t =
      (if s = t then pauli_sign (k mod 4) (s mod 4) * pauli_sign (k div 4) (s div 4) else 0)" if "k < 16" for k
  proof -
    have k: "k div 4 < 4" using that by simp
    show ?thesis
      unfolding conj_two_qubit [OF that assms] using k st by (simp add: conj_pauli eq)
  qed
  have "kraus_entry 4 two_qubit_pauli
      ((1 - p, two_qubit_pauli 0) # map (\<lambda>k. (p / 15, two_qubit_pauli k)) [1..<16]) s t =
      complex_of_real (1 - p) * conj_entry 4 two_qubit_pauli (two_qubit_pauli 0) s t +
      (\<Sum>k\<leftarrow>[1..<16]. complex_of_real (p / 15) * conj_entry 4 two_qubit_pauli (two_qubit_pauli k) s t)"
    by (simp add: kraus_entry_def comp_def)
  also have "(\<Sum>k\<leftarrow>[1..<16]. complex_of_real (p / 15) * conj_entry 4 two_qubit_pauli (two_qubit_pauli k) s t) =
      (\<Sum>k\<leftarrow>[1..<16]. complex_of_real (p / 15) *
        (if s = t then pauli_sign (k mod 4) (s mod 4) * pauli_sign (k div 4) (s div 4) else 0))"
    by (intro arg_cong [of _ _ sum_list] map_cong) (auto simp: e)
  also have "complex_of_real (1 - p) * conj_entry 4 two_qubit_pauli (two_qubit_pauli 0) s t + \<dots> =
      (if s = t then complex_of_real (1 - p) + complex_of_real (p / 15) *
      (\<Sum>k\<leftarrow>[1..<16]. pauli_sign (k mod 4) (s mod 4) * pauli_sign (k div 4) (s div 4)) else 0)"
  proof -
    have "(\<Sum>k\<leftarrow>ks. w * f k) = w * (\<Sum>k\<leftarrow>ks. f k)" for w :: complex and f and ks :: "nat list"
      by (rule sum_list_const_mult)
    then show ?thesis
      by (simp only: e [of 0] zero_less_numeral mod_0 div_0 pauli_sign_0 mult_1_right mult_zero_right split: if_split)
        simp
  qed
  also have "(\<Sum>k\<leftarrow>[1..<16]. pauli_sign (k mod 4) (s mod 4) * pauli_sign (k div 4) (s div 4)) = (if s = 0 then 15 else - 1)"
  proof -
    have "[1..<16] = [1, 2, 3, 4, 5, 6, 7, 8, 9, 10, 11, 12, 13, 14, 15 :: nat]"
      by (simp add: upt_rec numeral_eq_Suc)
    moreover have "s = 0 \<longleftrightarrow> s mod 4 = 0 \<and> s div 4 = 0" by (metis add_0 div_0 mod_0 mult_0 mod_mult_div_eq mult_0_right)
    ultimately show ?thesis
      using less_4_cases [OF st(1)] less_4_cases [OF st(2)]
      by (elim disjE) (simp_all add: pauli_sign_def)
  qed
  finally show ?thesis by (auto simp: algebra_simps)
qed

lemma damping_kraus:
  assumes "0 \<le> g" "g \<le> 1" "s < 4" "t < 4"
  shows "kraus_entry 2 pauli_matrix
      [(1, [[1, 0], [0, complex_of_real (sqrt (1 - g))]]), (1, [[0, complex_of_real (sqrt g)], [0, 0]])] s t =
    (\<Sum>((i, j), a)\<leftarrow>[((0, 0), Complex 1 0), ((0, 2), Complex g 0), ((1, 1), Complex (sqrt (1 - g)) 0),
      ((2, 2), Complex (1 - g) 0), ((3, 3), Complex (sqrt (1 - g)) 0)]. if i = s \<and> j = t then a else 0)"
proof -
  define r where "r = complex_of_real (sqrt (1 - g))"
  define v where "v = complex_of_real (sqrt g)"
  have r: "r * r = complex_of_real (1 - g)" "cnj r = r" "Complex (sqrt (1 - g)) 0 = r"
    using assms(2) by (simp_all add: r_def complex_of_real_def [symmetric] flip: of_real_mult)
  have v: "v * v = complex_of_real g" "cnj v = v"
    using assms(1) by (simp_all add: v_def flip: of_real_mult)
  show ?thesis
    using less_4_cases [OF assms(3)] less_4_cases [OF assms(4)]
    unfolding r_def [symmetric] v_def [symmetric] r(3)
    by (elim disjE) (simp_all add: kraus_entry_def conj_entry_def mat_2 trace_2 r v complex_of_real_def [symmetric]
        field_simps)
qed

text \<open>
  C22. The noise constructors realise their documented channels: with admissible probabilities each succeeds, and
  its table is that of the Kraus form: the Pauli channel, depolarizing with \<open>p/3\<close> each, dephasing with \<open>Z\<close>, the
  uniform mixture of the fifteen two-qubit Paulis, and amplitude damping.
\<close>

theorem noise_channels_are_kraus:
  assumes "q < 2 ^ 32" "q' < 2 ^ 32" "q \<noteq> q'" "s < 4" "t < 4" "s' < 16" "t' < 16" "0 \<le> p" "p \<le> 1"
    "0 \<le> px" "0 \<le> py" "0 \<le> pz" "px + py + pz \<le> 1"
  shows "(\<exists>c. pauli_channel q px py pz = Inr c \<and> ptm_amplitude c s t = kraus_entry 2 pauli_matrix
      [(1 - px - py - pz, pauli_matrix 0), (px, pauli_matrix 1), (py, pauli_matrix 3), (pz, pauli_matrix 2)] s t) \<and>
    (\<exists>c. depolarizing q p = Inr c \<and> ptm_amplitude c s t = kraus_entry 2 pauli_matrix
      [(1 - p, pauli_matrix 0), (p / 3, pauli_matrix 1), (p / 3, pauli_matrix 3), (p / 3, pauli_matrix 2)] s t) \<and>
    (\<exists>c. dephasing q p = Inr c \<and> ptm_amplitude c s t = kraus_entry 2 pauli_matrix
      [(1 - p, pauli_matrix 0), (p, pauli_matrix 2)] s t) \<and>
    (\<exists>c. depolarizing_2q q q' p = Inr c \<and> ptm_amplitude c s' t' = kraus_entry 4 two_qubit_pauli
      ((1 - p, two_qubit_pauli 0) # map (\<lambda>k. (p / 15, two_qubit_pauli k)) [1..<16]) s' t') \<and>
    (\<exists>c. amplitude_damping q p = Inr c \<and> ptm_amplitude c s t = kraus_entry 2 pauli_matrix
      [(1, [[1, 0], [0, complex_of_real (sqrt (1 - p))]]), (1, [[0, complex_of_real (sqrt p)], [0, 0]])] s t)"
proof -
  have s: "s = 0 \<or> s = 1 \<or> s = 2 \<or> s = 3" using assms(4) by auto
  have "\<exists>c. pauli_channel q px py pz = Inr c \<and> ptm_amplitude c s t = kraus_entry 2 pauli_matrix
      [(1 - px - py - pz, pauli_matrix 0), (px, pauli_matrix 1), (py, pauli_matrix 3), (pz, pauli_matrix 2)] s t"
    using diagonal_entry [OF built_noise(3), of px py pz q s t] assms s
    by (auto simp: kraus_entry_def conj_pauli pauli_sign_def algebra_simps)
  moreover have "\<exists>c. depolarizing q p = Inr c \<and> ptm_amplitude c s t = kraus_entry 2 pauli_matrix
      [(1 - p, pauli_matrix 0), (p / 3, pauli_matrix 1), (p / 3, pauli_matrix 3), (p / 3, pauli_matrix 2)] s t"
    using diagonal_entry [OF built_noise(1), of p q s t] assms s
    by (auto simp: kraus_entry_def conj_pauli pauli_sign_def algebra_simps)
  moreover have "\<exists>c. dephasing q p = Inr c \<and> ptm_amplitude c s t = kraus_entry 2 pauli_matrix
      [(1 - p, pauli_matrix 0), (p, pauli_matrix 2)] s t"
    using diagonal_entry [OF built_noise(2), of p q s t] assms s
    by (auto simp: kraus_entry_def conj_pauli pauli_sign_def algebra_simps)
  moreover have "\<exists>c. depolarizing_2q q q' p = Inr c \<and> ptm_amplitude c s' t' = kraus_entry 4 two_qubit_pauli
      ((1 - p, two_qubit_pauli 0) # map (\<lambda>k. (p / 15, two_qubit_pauli k)) [1..<16]) s' t'"
  proof -
    have "((replicate 16 (1 - 16 * p / 15))[0 := 1]) ! s' = (if s' = 0 then 1 else 1 - 16 * p / 15)"
      using assms(6) by (simp add: nth_list_update)
    moreover have "\<exists>c. depolarizing_2q q q' p = Inr c \<and> ptm_amplitude c s' t' =
        (if s' = t' then complex_of_real ((replicate 16 (1 - 16 * p / 15))[0 := 1] ! s') else 0)"
      using assms(1-3,6-9) by (intro diagonal_entry [OF built_noise(4)]) auto
    ultimately show ?thesis unfolding two_qubit_kraus [OF assms(6,7)] by (simp only:)
  qed
  moreover have "\<exists>c. amplitude_damping q p = Inr c \<and> ptm_amplitude c s t = kraus_entry 2 pauli_matrix
      [(1, [[1, 0], [0, complex_of_real (sqrt (1 - p))]]), (1, [[0, complex_of_real (sqrt p)], [0, 0]])] s t"
  proof -
    obtain c where "amplitude_damping q p = Inr c" "pc_storage c = sparse_storage
       [((0, 0), Complex 1 0), ((0, 2), Complex p 0), ((1, 1), Complex (sqrt (1 - p)) 0),
        ((2, 2), Complex (1 - p) 0), ((3, 3), Complex (sqrt (1 - p)) 0)]"
      using built_Inr [OF built_noise(5), of q p] assms by auto
    then show ?thesis
      using damping_kraus [OF assms(8,9,4,5)] by (auto simp: amplitude_sparse_storage)
  qed
  ultimately show ?thesis by blast
qed

section \<open>Concrete gates\<close>

theorem clifford_1q_gates_conjugate_witness:
  "\<exists>c. hadamard 5 = Inr c \<and> ptm_amplitude c 3 3 = - 1"
proof -
  have "conj_entry 2 pauli_matrix hadamard_matrix 3 3 = - 1"
    by (subst conj_entry_1q [OF moves_1q(1)]) (simp_all add: perm_sign_def)
  with clifford_1q_gates_conjugate [of 5 3 3] show ?thesis by simp
qed

theorem clifford_2q_gates_conjugate_witness:
  "\<exists>c. cnot 7 2 = Inr c \<and> ptm_amplitude c 9 15 = - 1"
proof -
  have "conj_entry 4 two_qubit_pauli cnot_matrix 9 15 = - 1"
    by (subst conj_entry_2q [OF moves_cnot]) (simp_all add: perm_sign_def)
  with clifford_2q_gates_conjugate [of 7 2 9 15] show ?thesis by simp
qed

theorem unitary_constructors_exact_witness:
  "\<exists>c. unitary_1q 0 [[0, 1], [1, 0]] = Inr c \<and> \<bar>Re (ptm_amplitude c 1 1 - conj_entry 2 pauli_matrix [[0, 1], [1, 0]] 1 1)\<bar> < 1 / 10 ^ 12"
proof -
  have q: "(0 :: nat) < 2 ^ 32" "(1 :: nat) < 2 ^ 32" "(0 :: nat) \<noteq> 1" by simp_all
  note t = unitary_constructors_exact [OF q, of "[[0, 1], [1, 0]]" "[]"]
  have i: "i < 2 \<Longrightarrow> i = 0 \<or> i = (1 :: nat)" for i by auto
  have "\<forall>i < 2. \<forall>j < 2. cmod (matmul 2 (dagger 2 [[0, 1], [1, 0]]) [[0, 1], [1, 0]] ! i ! j - (if i = j then 1 else 0)) \<le> 1 / 10 ^ 10"
    by (auto dest!: i simp: dagger_2 matmul_2)
  then obtain c where c: "unitary_1q 0 [[0, 1], [1, 0]] = Inr c" using t [THEN conjunct1, THEN iffD2] by blast
  then show ?thesis using t [THEN conjunct2, THEN conjunct1, rule_format, OF c, of 1 1] by auto
qed

theorem noise_channels_are_kraus_witness:
  "\<exists>c. dephasing 4 (1 / 4) = Inr c \<and> ptm_amplitude c 1 1 = 1 / 2"
  using noise_channels_are_kraus [of 4 5 1 1 0 0 "1 / 4" 0 0 0]
  by (simp add: kraus_entry_def conj_pauli pauli_sign_def)

end
