(* ===== verification/Operator.thy ===== *)
theory Operator
  imports Pauli_Matrix
begin

unbundle bit_operations_syntax

text \<open>
  Algebra of the \<open>2^n \<times> 2^n\<close> matrices of \<open>Pauli_Matrix\<close>: products are bilinear and associative, the zero key is the
  identity, a Pauli squares to it and is its own adjoint, and two Paulis commute up to the sign that
  \<open>commutes_with\<close> decides.
\<close>

type_synonym operator = "(nat \<Rightarrow> bool) \<Rightarrow> (nat \<Rightarrow> bool) \<Rightarrow> complex"

definition op_add :: "operator \<Rightarrow> operator \<Rightarrow> operator" where
  "op_add A B r s = A r s + B r s"

definition op_scale :: "complex \<Rightarrow> operator \<Rightarrow> operator" where
  "op_scale c A r s = c * A r s"

definition op_adjoint :: "operator \<Rightarrow> operator" where
  "op_adjoint A r s = cnj (A s r)"

text \<open>The identity on \<open>n\<close> qubits, and the operator a list of terms stands for.\<close>

definition op_one :: "nat \<Rightarrow> operator" where
  "op_one n r s = (if \<forall>q < n. r q = s q then 1 else 0)"

definition op_terms :: "nat \<Rightarrow> (key \<times> complex) list \<Rightarrow> operator" where
  "op_terms n ts r s = (\<Sum>(k, c)\<leftarrow>ts. c * pauli_matrix_of n k r s)"

lemma finite_comp_basis: "finite (comp_basis n)"
  unfolding comp_basis_def by (intro finite_PiE) simp_all

lemma mat_mult_add:
  "mat_mult n (op_add A B) C = op_add (mat_mult n A C) (mat_mult n B C)"
  "mat_mult n A (op_add B C) = op_add (mat_mult n A B) (mat_mult n A C)"
  by (simp_all add: mat_mult_def op_add_def fun_eq_iff distrib_left distrib_right sum.distrib)

lemma mat_mult_scale:
  "mat_mult n (op_scale c A) B = op_scale c (mat_mult n A B)"
  "mat_mult n A (op_scale c B) = op_scale c (mat_mult n A B)"
  by (simp_all add: mat_mult_def op_scale_def fun_eq_iff sum_distrib_left ac_simps)

lemma mat_mult_assoc: "mat_mult n (mat_mult n A B) C = mat_mult n A (mat_mult n B C)"
proof (intro ext)
  fix r s
  have "mat_mult n (mat_mult n A B) C r s = (\<Sum>m\<in>comp_basis n. \<Sum>l\<in>comp_basis n. A r l * B l m * C m s)"
    by (simp add: mat_mult_def sum_distrib_right)
  also have "\<dots> = (\<Sum>l\<in>comp_basis n. \<Sum>m\<in>comp_basis n. A r l * B l m * C m s)"
    by (rule sum.swap)
  finally show "mat_mult n (mat_mult n A B) C r s = mat_mult n A (mat_mult n B C) r s"
    by (simp add: mat_mult_def sum_distrib_left mult.assoc)
qed

lemma op_scale_simps [simp]: "op_scale c (op_scale d A) = op_scale (c * d) A" "op_scale 1 A = A"
  by (simp_all add: op_scale_def fun_eq_iff)

lemma op_scale_add: "op_scale c (op_add A B) = op_add (op_scale c A) (op_scale c B)"
  by (simp add: op_scale_def op_add_def fun_eq_iff distrib_left)

section \<open>Paulis\<close>

lemma pauli_zero_key: "pauli_matrix_of n (zero_key W) = op_one n"
  by (auto simp: pauli_matrix_of_def zero_key_def op_one_def pauli_entry_def fun_eq_iff)

lemma mat_mult_one:
  assumes "wf_key W k"
  shows "mat_mult n (op_one n) (pauli_matrix_of n k) = pauli_matrix_of n k"
    and "mat_mult n (pauli_matrix_of n k) (op_one n) = pauli_matrix_of n k"
proof -
  have "key_phase n (zero_key W) k = 0" "key_phase n k (zero_key W) = 0"
    by (simp_all add: key_phase_def qubit_phase_def zero_key_def)
  then show "mat_mult n (op_one n) (pauli_matrix_of n k) = pauli_matrix_of n k"
      "mat_mult n (pauli_matrix_of n k) (op_one n) = pauli_matrix_of n k"
    unfolding pauli_zero_key [of n W, symmetric] fun_eq_iff
    using pauli_matrix_mult [OF wf_zero_key assms] pauli_matrix_mult [OF assms wf_zero_key] xor_key_zero [OF assms]
    by simp_all
qed

lemma pauli_square:
  assumes "wf_key W k"
  shows "mat_mult n (pauli_matrix_of n k) (pauli_matrix_of n k) = op_one n"
proof -
  have "key_phase n k k = 4 * (\<Sum>q<n. of_bool (qbit (fst k) q \<and> qbit (snd k) q))"
    unfolding key_phase_def sum_distrib_left by (intro sum.cong) (auto simp: qubit_phase_def)
  then have "i_pow (key_phase n k k) = 1" by (simp only: i_pow_mult_4)
  then show ?thesis
    unfolding fun_eq_iff pauli_matrix_mult [OF assms assms] xor_key_self [OF assms] pauli_zero_key by simp
qed

lemma pauli_hermitian: "op_adjoint (pauli_matrix_of n k) = pauli_matrix_of n k"
proof -
  have "cnj (pauli_entry a b s r) = pauli_entry a b r s" for a b r s
    by (cases a; cases b) (auto simp: pauli_entry_table)
  then show ?thesis by (simp add: op_adjoint_def pauli_matrix_of_def fun_eq_iff)
qed

lemma pauli_swap:
  assumes "wf_ps W p" "wf_ps W q" "is_within p n" "is_within q n" "n \<le> 64 * W"
  shows "mat_mult n (pauli_matrix_of n (key_of p)) (pauli_matrix_of n (key_of q)) =
    op_scale (if commutes_with p q then 1 else - 1)
      (mat_mult n (pauli_matrix_of n (key_of q)) (pauli_matrix_of n (key_of p)))"
proof -
  let ?k = "key_of (fst (mul_assign p q))"
  have k: "key_of (fst (mul_assign q p)) = ?k"
    using assms by (simp add: mul_assign_closed [of W] xor_key_def xor_words_commute)
  have "phase_value (snd (mul_assign p q)) =
      (if commutes_with p q then 1 else - 1) * phase_value (snd (mul_assign q p))"
    unfolding phase_of_swap [OF assms(1,2)]
    by (simp add: phase_value_add) (simp add: phase_value_def)
  then show ?thesis
    by (simp add: fun_eq_iff op_scale_def mat_mult_mul_assign [OF assms] mat_mult_mul_assign [OF assms(2,1,4,3,5)] k)
qed

section \<open>Rotations\<close>

text \<open>\<open>exp(-i \<theta> P / 2) = cos(\<theta>/2) - i sin(\<theta>/2) P\<close>.\<close>

definition rotation_operator :: "nat \<Rightarrow> key \<Rightarrow> real \<Rightarrow> operator" where
  "rotation_operator n k \<theta> =
     op_add (op_scale (complex_of_real (cos (\<theta> / 2))) (op_one n))
       (op_scale (- \<i> * complex_of_real (sin (\<theta> / 2))) (pauli_matrix_of n k))"

lemma op_add_scale_adjoint:
  "op_adjoint (op_add A B) = op_add (op_adjoint A) (op_adjoint B)"
  "op_adjoint (op_scale c A) = op_scale (cnj c) (op_adjoint A)"
  "op_adjoint (op_one n) = op_one n"
  by (auto simp: op_adjoint_def op_add_def op_scale_def op_one_def fun_eq_iff)

lemma rotation_adjoint: "op_adjoint (rotation_operator n k \<theta>) = rotation_operator n k (- \<theta>)"
  by (simp add: rotation_operator_def op_add_scale_adjoint pauli_hermitian)

lemma rotation_conjugates:
  assumes "wf_ps W p" "wf_ps W g" "is_within p n" "is_within g n" "n \<le> 64 * W"
  shows "mat_mult n (mat_mult n (rotation_operator n (key_of g) \<theta>) (pauli_matrix_of n (key_of p)))
      (op_adjoint (rotation_operator n (key_of g) \<theta>)) =
    (if commutes_with p g then pauli_matrix_of n (key_of p)
     else op_add (op_scale (complex_of_real (cos \<theta>)) (pauli_matrix_of n (key_of p)))
       (op_scale (\<i> * complex_of_real (sin \<theta>))
         (mat_mult n (pauli_matrix_of n (key_of p)) (pauli_matrix_of n (key_of g)))))"
proof -
  let ?Q = "pauli_matrix_of n (key_of p)" and ?P = "pauli_matrix_of n (key_of g)"
  let ?e = "if commutes_with p g then 1 else - 1 :: complex"
  let ?QP = "mat_mult n ?Q ?P"
  define c s where "c = complex_of_real (cos (\<theta> / 2))" and "s = complex_of_real (sin (\<theta> / 2))"
  have wf: "wf_key W (key_of p)" "wf_key W (key_of g)"
    using assms by (simp_all add: wf_key_def wf_ps_def key_of_def)
  have "mat_mult n ?P ?Q = op_scale ?e ?QP"
    using pauli_swap [OF assms(2,1,4,3,5)] commutes_with_sym [OF assms(1,2)] by simp
  moreover have "mat_mult n ?QP ?P = ?Q"
    by (simp add: mat_mult_assoc pauli_square [OF wf(2)] mat_mult_one [OF wf(1)])
  moreover have "mat_mult n ?QP (op_one n) = ?QP"
    by (simp add: mat_mult_assoc mat_mult_one [OF wf(2)])
  ultimately have expand: "mat_mult n (mat_mult n (rotation_operator n (key_of g) \<theta>) ?Q)
      (op_adjoint (rotation_operator n (key_of g) \<theta>)) =
      op_add (op_scale (c * c + s * s * ?e) ?Q) (op_scale (c * (\<i> * s) - \<i> * s * c * ?e) ?QP)"
    unfolding rotation_adjoint
    by (simp add: rotation_operator_def mat_mult_add mat_mult_scale mat_mult_one [OF wf(1)] c_def s_def)
      (simp add: op_add_def op_scale_def fun_eq_iff algebra_simps)
  have one: "c * c + s * s = 1"
  proof -
    have "c * c + s * s = complex_of_real ((cos (\<theta> / 2))\<^sup>2 + (sin (\<theta> / 2))\<^sup>2)"
      unfolding of_real_add power2_eq_square of_real_mult c_def s_def ..
    then show ?thesis by simp
  qed
  have two: "c * c - s * s = complex_of_real (cos \<theta>)" "2 * (c * s) = complex_of_real (sin \<theta>)"
    using arg_cong [OF cos_double [of "\<theta> / 2"], of complex_of_real]
      arg_cong [OF sin_double [of "\<theta> / 2"], of complex_of_real]
    by (simp_all add: c_def s_def power2_eq_square ac_simps)
  have "c * c + s * s * ?e = (if commutes_with p g then 1 else complex_of_real (cos \<theta>))"
    using one two(1) by simp
  moreover have "c * (\<i> * s) - \<i> * s * c * ?e = (if commutes_with p g then 0 else \<i> * complex_of_real (sin \<theta>))"
    unfolding two(2) [symmetric] by simp
  ultimately show ?thesis
    unfolding expand by (auto simp: op_add_def op_scale_def fun_eq_iff)
qed

end
