(* ===== verification/Rotation.thy ===== *)
theory Rotation
  imports Operator Channel
begin

unbundle bit_operations_syntax

text \<open>
  \<open>channel/rotation.rs\<close>: the rotation \<open>exp(-i \<theta> P / 2)\<close> about a Pauli generator of any weight. Applying it to a
  term is conjugation by the rotation's matrix, up to the snapping of quarter turns.
\<close>

section \<open>The channel\<close>

record pauli_rotation =
  rot_generator :: pauli_string
  rot_theta :: real

definition rotation_new :: "pauli_string \<Rightarrow> real \<Rightarrow> pauli_rotation" where
  "rotation_new generator theta = \<lparr>rot_generator = generator, rot_theta = theta\<rparr>"

definition rotation_weight :: "pauli_rotation \<Rightarrow> nat" where
  "rotation_weight r = weight (rot_generator r)"

definition SNAP :: real where
  "SNAP = 1 / 10 ^ 15"

text \<open>
  \<open>f64::signum\<close> is \<open>sgn\<close> on the arguments it sees here: the other coordinate of a snapped angle is close to one.
\<close>

definition rot_sin_cos :: "real \<Rightarrow> real \<times> real" where
  "rot_sin_cos theta =
     (let s = sin theta; c = cos theta
      in if \<bar>s\<bar> < SNAP then (0, sgn c) else if \<bar>c\<bar> < SNAP then (sgn s, 0) else (s, c))"

definition apply_with_theta ::
    "pauli_rotation \<Rightarrow> real \<Rightarrow> words \<Rightarrow> words \<Rightarrow> complex \<Rightarrow> output_buffer \<Rightarrow> output_buffer" where
  "apply_with_theta r theta x z coeff out =
     (let inp = \<lparr>ps_x = x, ps_z = z\<rparr>
      in if commutes_with inp (rot_generator r) then ob_push out x z coeff
         else
           (let (s, c) = rot_sin_cos theta;
                out = ob_push out x z (c_mul_real complex_coefficient coeff c);
                (product, ph) = mul_assign inp (rot_generator r);
                total_phase = add_phase phase_I ph
            in ob_push out (ps_x product) (ps_z product)
                 (c_mul_real complex_coefficient (mul_phase complex_coefficient coeff total_phase) s)))"

definition rotation_support :: "pauli_rotation \<Rightarrow> words" where
  "rotation_support r = or_words (ps_x (rot_generator r)) (ps_z (rot_generator r))"

definition rotation_as_channel :: "pauli_rotation \<Rightarrow> channel" where
  "rotation_as_channel r =
     \<lparr>ch_support = (\<lambda>_. Inr (rotation_support r)),
      ch_debug_name = ''PauliRotation'',
      ch_apply = (\<lambda>x z coeff out. Inr (apply_with_theta r (rot_theta r) x z coeff out)),
      ch_apply_adjoint = (\<lambda>x z coeff out. Inr (apply_with_theta r (- rot_theta r) x z coeff out))\<rparr>"

section \<open>What it computes\<close>

lemma sin_cos_snap:
  "\<bar>fst (rot_sin_cos theta) - sin theta\<bar> < SNAP" "\<bar>snd (rot_sin_cos theta) - cos theta\<bar> < SNAP"
proof -
  have near: "\<bar>sgn b - b\<bar> < SNAP" if "a\<^sup>2 + b\<^sup>2 = 1" "\<bar>a\<bar> < SNAP" for a b :: real
  proof -
    have "\<bar>a\<bar> * \<bar>a\<bar> < SNAP * SNAP" using that(2) by (intro mult_strict_mono) auto
    then have a: "a\<^sup>2 < SNAP * SNAP" by (simp add: power2_eq_square abs_mult [symmetric])
    have "b\<^sup>2 \<le> 1" using that(1) by (smt (verit) zero_le_power2)
    then have b: "\<bar>b\<bar> \<le> 1" by (simp add: abs_square_le_1)
    have "b \<noteq> 0" using that a by (auto simp: SNAP_def power2_eq_1_iff abs_if split: if_splits)
    then have "\<bar>sgn b - b\<bar> = 1 - \<bar>b\<bar>" using b by (auto simp: sgn_if)
    also have "\<dots> \<le> 1 - b\<^sup>2"
      using b mult_left_mono [OF b, of "\<bar>b\<bar>"] by (simp add: power2_eq_square abs_mult [symmetric])
    also have "\<dots> < SNAP" using that(1) a by (simp add: SNAP_def)
    finally show ?thesis .
  qed
  have s: "0 < SNAP" by (simp add: SNAP_def)
  show "\<bar>fst (rot_sin_cos theta) - sin theta\<bar> < SNAP" "\<bar>snd (rot_sin_cos theta) - cos theta\<bar> < SNAP"
    using near [of "sin theta" "cos theta"] near [of "cos theta" "sin theta"] s
    by (auto simp: rot_sin_cos_def Let_def)
qed

lemma complex_mul_real [simp]: "c_mul_real complex_coefficient a r = a * complex_of_real r"
  by (simp add: complex_coefficient_def complex_eq_iff)

lemma complex_mul_phase: "wf_phase p \<Longrightarrow> mul_phase complex_coefficient a p = a * phase_value p"
  using complex_c.embed_phase [of p a]
  by (simp add: phase_allowed_def complex_coefficient_def)

lemma key_of_simps [simp]: "key_of \<lparr>ps_x = x, ps_z = z\<rparr> = (x, z)"
  by (simp add: key_of_def)

text \<open>The terms one application pushes.\<close>

definition rotation_terms :: "pauli_rotation \<Rightarrow> real \<Rightarrow> key \<Rightarrow> complex \<Rightarrow> (key \<times> complex) list" where
  "rotation_terms r theta k coeff =
     (let inp = \<lparr>ps_x = fst k, ps_z = snd k\<rparr>
      in if commutes_with inp (rot_generator r) then [(k, coeff)]
         else [(k, coeff * complex_of_real (snd (rot_sin_cos theta))),
               (key_of (fst (mul_assign inp (rot_generator r))),
                coeff * (\<i> * phase_value (snd (mul_assign inp (rot_generator r)))) *
                  complex_of_real (fst (rot_sin_cos theta)))])"

lemma wf_mul_assign_phase: "wf_phase (snd (mul_assign p q))"
  by (simp add: mul_assign_def split: prod.splits)

lemma apply_with_theta_terms:
  assumes "wf_buffer out"
  shows "wf_buffer (apply_with_theta r theta x z coeff out)"
    and "ob_terms (apply_with_theta r theta x z coeff out) = ob_terms out @ rotation_terms r theta (x, z) coeff"
  using assms
  by (auto simp: apply_with_theta_def rotation_terms_def Let_def split_def complex_mul_phase phase_value_add key_of_def)
    (simp_all add: phase_value_def)

lemma rotation_terms_operator:
  assumes "wf_ps W p" "wf_ps W (rot_generator r)" "is_within p n" "is_within (rot_generator r) n" "n \<le> 64 * W"
  shows "op_terms n (rotation_terms r theta (key_of p) coeff) =
    op_scale coeff
      (if commutes_with p (rot_generator r) then pauli_matrix_of n (key_of p)
       else op_add (op_scale (complex_of_real (snd (rot_sin_cos theta))) (pauli_matrix_of n (key_of p)))
         (op_scale (\<i> * complex_of_real (fst (rot_sin_cos theta)))
           (mat_mult n (pauli_matrix_of n (key_of p)) (pauli_matrix_of n (key_of (rot_generator r))))))"
proof -
  have p: "\<lparr>ps_x = fst (key_of p), ps_z = snd (key_of p)\<rparr> = p" by (cases p) (simp add: key_of_def)
  show ?thesis
    unfolding rotation_terms_def p Let_def
    by (auto simp: op_terms_def op_scale_def op_add_def fun_eq_iff mat_mult_mul_assign [OF assms] algebra_simps)
qed

text \<open>
  C27. Applying a Pauli rotation to a term \<open>c Q\<close> is conjugation: unless the angle is within \<open>1e-15\<close> of a quarter
  turn, the operator of the pushed terms is \<open>c U Q U\<dagger>\<close> for \<open>U = exp(-i \<theta> P / 2)\<close>, the adjoint direction is
  \<open>c U\<dagger> Q U\<close>, and near a quarter turn the two factors used differ from sine and cosine by less than \<open>1e-15\<close>.
\<close>

theorem rotation_conjugates_operator:
  fixes r W
  defines "g \<equiv> rot_generator r" and "th \<equiv> rot_theta r"
  assumes "wf_ps W p" "wf_ps W g" "is_within p n" "is_within g n" "n \<le> 64 * W"
    and "\<not> \<bar>sin th\<bar> < 1 / 10 ^ 15" "\<not> \<bar>cos th\<bar> < 1 / 10 ^ 15"
  defines "U \<equiv> rotation_operator n (key_of g) th"
  shows "\<exists>fwd adj. ch_apply (rotation_as_channel r) (ps_x p) (ps_z p) coeff ob_new = Inr fwd \<and>
    ch_apply_adjoint (rotation_as_channel r) (ps_x p) (ps_z p) coeff ob_new = Inr adj \<and>
    op_terms n (ob_terms fwd) = op_scale coeff (mat_mult n (mat_mult n U (pauli_matrix_of n (key_of p))) (op_adjoint U)) \<and>
    op_terms n (ob_terms adj) = op_scale coeff (mat_mult n (mat_mult n (op_adjoint U) (pauli_matrix_of n (key_of p))) U) \<and>
    (\<forall>theta. \<bar>fst (rot_sin_cos theta) - sin theta\<bar> < 1 / 10 ^ 15 \<and> \<bar>snd (rot_sin_cos theta) - cos theta\<bar> < 1 / 10 ^ 15)"
proof -
  have sc: "rot_sin_cos th = (sin th, cos th)" "rot_sin_cos (- th) = (sin (- th), cos (- th))"
    using assms(8,9) by (simp_all add: rot_sin_cos_def SNAP_def)
  have terms: "ob_terms (apply_with_theta r theta (ps_x p) (ps_z p) coeff ob_new) = rotation_terms r theta (key_of p) coeff"
    for theta
    using apply_with_theta_terms(2) [of ob_new r theta "ps_x p" "ps_z p" coeff] by (simp add: key_of_def)
  have conj: "op_terms n (rotation_terms r theta (key_of p) coeff) =
      op_scale coeff (mat_mult n (mat_mult n (rotation_operator n (key_of g) theta) (pauli_matrix_of n (key_of p)))
        (op_adjoint (rotation_operator n (key_of g) theta)))"
    if "rot_sin_cos theta = (sin theta, cos theta)" for theta
    unfolding rotation_terms_operator [OF assms(3) assms(4) [unfolded g_def] assms(5) assms(6) [unfolded g_def] assms(7)]
      g_def rotation_conjugates [OF assms(3-7), unfolded g_def] that by simp
  show ?thesis
    using conj [OF sc(1)] conj [OF sc(2)] sin_cos_snap
    by (simp add: rotation_as_channel_def terms U_def th_def rotation_adjoint SNAP_def)
qed

theorem rotation_conjugates_operator_witness:
  "\<exists>fwd. ch_apply (rotation_as_channel (rotation_new \<lparr>ps_x = [0], ps_z = [1]\<rparr> (pi / 4))) [1] [0] 3 ob_new = Inr fwd \<and>
     op_terms 1 (ob_terms fwd) = op_scale 3
       (mat_mult 1 (mat_mult 1 (rotation_operator 1 ([0], [1]) (pi / 4)) (pauli_matrix_of 1 ([1], [0])))
         (op_adjoint (rotation_operator 1 ([0], [1]) (pi / 4))))"
proof -
  let ?r = "rotation_new \<lparr>ps_x = [0], ps_z = [1]\<rparr> (pi / 4)" and ?p = "\<lparr>ps_x = [1], ps_z = [0]\<rparr>"
  have "is_within ?p 1" "is_within \<lparr>ps_x = [0], ps_z = [1]\<rparr> 1"
    by code_simp+
  moreover have "\<not> \<bar>sin (rot_theta ?r)\<bar> < 1 / 10 ^ 15" "\<not> \<bar>cos (rot_theta ?r)\<bar> < 1 / 10 ^ 15"
  proof -
    have "sin (rot_theta ?r) = sqrt 2 / 2" "cos (rot_theta ?r) = sqrt 2 / 2"
      by (simp_all add: rotation_new_def sin_45 cos_45)
    moreover have "1 / 10 ^ 15 \<le> \<bar>sqrt 2 / 2\<bar>"
    proof -
      have "1 \<le> sqrt 2" by simp
      then have "1 / 2 \<le> \<bar>sqrt 2 / 2\<bar>" by linarith
      then show ?thesis by (rule order_trans [rotated]) simp
    qed
    ultimately show "\<not> \<bar>sin (rot_theta ?r)\<bar> < 1 / 10 ^ 15" "\<not> \<bar>cos (rot_theta ?r)\<bar> < 1 / 10 ^ 15"
      by (simp_all only: not_less)
  qed
  ultimately show ?thesis
    using rotation_conjugates_operator [of 1 ?p ?r 1 3] by (auto simp: rotation_new_def wf_ps_def)
qed

end
