(* ===== verification/Bit_Scatter.thy ===== *)
theory Bit_Scatter
  imports Pauli_Prelude
begin

unbundle bit_operations_syntax

text \<open>
  The bit gather and scatter of \<open>engine/coset.rs\<close>: \<open>pext\<close> and \<open>pdep\<close>, each either the BMI2 instruction
  or the software loop, chosen at run time. The instruction is given by its documented meaning on the
  set bits of the mask; the loops are shown to compute the same word, so the choice is invisible, and
  the two operations are inverse on the mask.
\<close>

section \<open>The software loops\<close>

text \<open>The positions of the set bits of a mask, ascending.\<close>

definition set_bits :: "u32 \<Rightarrow> nat list" where
  "set_bits w = filter (bit w) [0..<32]"

lemma set_set_bits [simp]: "set (set_bits w) = {n. bit w n}"
  using bit_imp_le_length [of w] by (auto simp: set_bits_def)

lemma distinct_set_bits [simp]: "distinct (set_bits w)"
  by (simp add: set_bits_def)

lemma sorted_set_bits [simp]: "sorted_wrt (<) (set_bits w)"
  unfolding set_bits_def by (rule sorted_wrt_filter) (simp add: sorted_wrt_upt)

lemma length_set_bits [simp]: "length (set_bits w) = count_ones w"
  by (simp add: set_bits_def count_ones_def)

lemma set_bits_eqI: "sorted_wrt (<) ns \<Longrightarrow> set ns = {n. bit w n} \<Longrightarrow> set_bits w = ns"
  using strict_sorted_equal [of "set_bits w" ns] by simp

lemma set_bits_eq_Nil_iff [simp]: "set_bits w = [] \<longleftrightarrow> w = 0"
  using count_ones_eq_0_iff [of w] length_set_bits [of w] by (metis length_0_conv)

text \<open>\<open>remaining & remaining.wrapping_neg()\<close> isolates the lowest set bit.\<close>

lemma bit_minus_1_lowest:
  fixes w :: "'a::len word"
  assumes "bit w k" "\<And>n. n < k \<Longrightarrow> \<not> bit w n"
  shows "bit (w - 1) n \<longleftrightarrow> n < LENGTH('a) \<and> (if n \<le> k then n < k else bit w n)"
proof -
  have k: "k < LENGTH('a)" using assms(1) by (rule bit_imp_le_length)
  define u where "u = unset_bit k w"
  have "w = u OR push_bit k 1"
    using assms(1) k by (intro bit_word_eqI)
      (auto simp: u_def bit_or_iff bit_unset_bit_iff push_bit_of_1 bit_exp_iff)
  also have "\<dots> = u + push_bit k 1"
    by (rule disjunctive_add [symmetric])
      (auto simp: u_def bit_unset_bit_iff push_bit_of_1 bit_exp_iff)
  finally have "w - 1 = u + mask k"
    by (simp add: mask_eq_exp_minus_1 push_bit_of_1)
  also have "\<dots> = u OR mask k"
    by (rule disjunctive_add) (auto simp: u_def bit_unset_bit_iff bit_mask_iff assms(2))
  finally show ?thesis
    using assms k by (auto simp: u_def bit_or_iff bit_unset_bit_iff bit_mask_iff possible_bit_word
        dest: bit_imp_le_length)
qed

lemma bit_lowest:
  fixes w :: "'a::len word"
  assumes "bit w k" "\<And>n. n < k \<Longrightarrow> \<not> bit w n"
  shows "w AND - w = push_bit k 1"
proof (rule bit_word_eqI)
  fix n assume "n < LENGTH('a)"
  then show "bit (w AND - w) n \<longleftrightarrow> bit (push_bit k (1 :: 'a word)) n"
    using bit_minus_1_lowest [OF assms, of n] assms(1)
    by (auto simp: bit_and_iff bit_minus_iff push_bit_of_1 bit_exp_iff possible_bit_word)
qed

lemma and_push_bit_neq_0_iff: "v AND push_bit p 1 \<noteq> 0 \<longleftrightarrow> bit v p" for v :: "'a::len word"
proof
  assume nz: "v AND push_bit p 1 \<noteq> 0"
  show "bit v p"
  proof (rule ccontr)
    assume "\<not> bit v p"
    then have "v AND push_bit p 1 = 0"
      by (intro bit_word_eqI) (auto simp: bit_and_iff push_bit_of_1 bit_exp_iff)
    with nz show False ..
  qed
next
  assume "bit v p"
  then have "bit (v AND push_bit p 1) p"
    using bit_imp_le_length [of v p] by (simp add: bit_and_iff push_bit_of_1 bit_exp_iff)
  then show "v AND push_bit p 1 \<noteq> 0" by auto
qed

lemma set_bits_split:
  assumes "set_bits w = p # ps"
  shows "w AND - w = push_bit p 1" and "set_bits (w XOR push_bit p 1) = ps"
    and "bit w p" "p < 32"
proof -
  have sorted: "sorted_wrt (<) (p # ps)" using sorted_set_bits [of w] by (simp add: assms)
  have set_eq: "{n. bit w n} = insert p (set ps)" using set_set_bits [of w] by (simp add: assms)
  then show p: "bit w p" by auto
  then show "p < 32" using bit_imp_le_length by fastforce
  have below: "\<not> bit w n" if "n < p" for n
    using sorted set_eq that by fastforce
  show "w AND - w = push_bit p 1" using p below by (rule bit_lowest)
  show "set_bits (w XOR push_bit p 1) = ps"
  proof (rule set_bits_eqI)
    have "bit (w XOR push_bit p 1) n \<longleftrightarrow> bit w n \<and> n \<noteq> p" for n
      using \<open>p < 32\<close> p by (auto simp: bit_xor_iff push_bit_of_1 bit_exp_iff)
    then show "set ps = {n. bit (w XOR push_bit p 1) n}"
      using set_eq sorted by auto
  qed (use sorted in simp)
qed

function pext_loop :: "u32 \<Rightarrow> u32 \<Rightarrow> u32 \<Rightarrow> nat \<Rightarrow> u32" where
  "pext_loop value remaining out out_bit =
     (if remaining \<noteq> 0
      then (let b = remaining AND - remaining;
                out' = (if value AND b \<noteq> 0 then out OR push_bit out_bit 1 else out)
            in pext_loop value (remaining XOR b) out' (out_bit + 1))
      else out)"
  by pat_completeness auto

lemma count_ones_lowest_decreases:
  assumes "w \<noteq> 0"
  shows "count_ones (w XOR (w AND - w)) < count_ones (w :: u32)"
proof -
  obtain p ps where "set_bits w = p # ps" using assms by (cases "set_bits w") auto
  then show ?thesis
    using set_bits_split [of w p ps] length_set_bits by (metis impossible_Cons not_le_imp_less)
qed

termination pext_loop
  by (relation "measure (\<lambda>(_, remaining, _). count_ones remaining)")
    (simp_all add: count_ones_lowest_decreases)

declare pext_loop.simps [simp del]

definition pext_software :: "u32 \<Rightarrow> u32 \<Rightarrow> u32" where
  "pext_software value m = pext_loop value m 0 0"

function pdep_loop :: "u32 \<Rightarrow> u32 \<Rightarrow> u32 \<Rightarrow> nat \<Rightarrow> u32" where
  "pdep_loop value remaining out in_bit =
     (if remaining \<noteq> 0
      then (let b = remaining AND - remaining;
                out' = (if value AND push_bit in_bit 1 \<noteq> 0 then out OR b else out)
            in pdep_loop value (remaining XOR b) out' (in_bit + 1))
      else out)"
  by pat_completeness auto

termination pdep_loop
  by (relation "measure (\<lambda>(_, remaining, _). count_ones remaining)")
    (simp_all add: count_ones_lowest_decreases)

declare pdep_loop.simps [simp del]

definition pdep_software :: "u32 \<Rightarrow> u32 \<Rightarrow> u32" where
  "pdep_software value m = pdep_loop value m 0 0"

section \<open>The instructions\<close>

text \<open>
  \<open>_pext_u32\<close> packs the bits of the value at the mask's set positions, in order; \<open>_pdep_u32\<close> puts bit
  \<open>k\<close> of the value at the mask's \<open>k\<close>-th set position.
\<close>

definition pext_u32 :: "u32 \<Rightarrow> u32 \<Rightarrow> u32" where
  "pext_u32 value m = horner_sum of_bool 2 (map (bit value) (set_bits m))"

definition pdep_u32 :: "u32 \<Rightarrow> u32 \<Rightarrow> u32" where
  "pdep_u32 value m =
     horner_sum of_bool 2 (map (\<lambda>p. bit m p \<and> bit value (count_ones (take_bit p m))) [0..<32])"

definition pext :: "bool \<Rightarrow> u32 \<Rightarrow> u32 \<Rightarrow> u32" where
  "pext bmi2 value m = (if bmi2 then pext_u32 value m else pext_software value m)"

definition pdep :: "bool \<Rightarrow> u32 \<Rightarrow> u32 \<Rightarrow> u32" where
  "pdep bmi2 value m = (if bmi2 then pdep_u32 value m else pdep_software value m)"

section \<open>Loop and instruction agree\<close>

lemma bit_pext_u32:
  "bit (pext_u32 v m) n \<longleftrightarrow> n < count_ones m \<and> bit v (set_bits m ! n)"
proof -
  have "count_ones m \<le> 32" using count_ones_le [of m] by simp
  then show ?thesis
    by (auto simp: pext_u32_def bit_horner_sum_bit_iff possible_bit_word)
qed

lemma bit_pdep_u32:
  "bit (pdep_u32 v m) n \<longleftrightarrow> bit m n \<and> bit v (count_ones (take_bit n m))"
  using bit_imp_le_length [of m n]
  by (auto simp: pdep_u32_def bit_horner_sum_bit_iff possible_bit_word)

text \<open>The \<open>k\<close>-th set bit has exactly \<open>k\<close> set bits below it.\<close>

lemma filter_take_sorted:
  assumes "sorted_wrt (<) (ns :: nat list)" "k < length ns"
  shows "filter (\<lambda>n. n < ns ! k) ns = take k ns"
  using assms
proof (induction ns arbitrary: k)
  case (Cons n ns)
  show ?case
  proof (cases k)
    case 0
    with Cons.prems show ?thesis by (auto simp: filter_empty_conv)
  next
    case (Suc j)
    with Cons.prems have "n < ns ! j" by simp
    with Suc Cons show ?thesis by simp
  qed
qed simp

lemma set_bits_take_bit: "set_bits (take_bit n w) = filter (\<lambda>i. i < n) (set_bits w)"
  by (rule set_bits_eqI) (auto simp: bit_take_bit_iff sorted_wrt_filter)

lemma count_ones_below: "k < count_ones w \<Longrightarrow> count_ones (take_bit (set_bits w ! k) w) = k"
  using filter_take_sorted [of "set_bits w" k] length_set_bits [of "take_bit (set_bits w ! k) w"]
  by (simp add: set_bits_take_bit del: length_set_bits) (simp add: length_set_bits)

lemma bit_nth_set_bits: "bit w n \<longleftrightarrow> (\<exists>k < count_ones w. set_bits w ! k = n)"
  using arg_cong [OF set_set_bits [of w], of "\<lambda>A. n \<in> A"] by (auto simp: set_conv_nth)

lemma bit_pext_loop:
  assumes "out_bit + count_ones remaining \<le> 32"
  shows "bit (pext_loop v remaining out out_bit) n \<longleftrightarrow>
    bit out n \<or> (\<exists>k < count_ones remaining. n = out_bit + k \<and> bit v (set_bits remaining ! k))"
  using assms
proof (induction v remaining out out_bit rule: pext_loop.induct)
  case (1 v remaining out out_bit)
  show ?case
  proof (cases "set_bits remaining")
    case Nil
    then show ?thesis by (simp add: pext_loop.simps [of v 0])
  next
    case (Cons p ps)
    let ?out = "if v AND push_bit p 1 \<noteq> 0 then out OR push_bit out_bit 1 else out"
    let ?rest = "remaining XOR push_bit p 1"
    note split = set_bits_split [OF Cons]
    have nz: "remaining \<noteq> 0" using Cons set_bits_eq_Nil_iff [of remaining] by force
    have len: "count_ones remaining = Suc (count_ones ?rest)"
      using length_set_bits [of remaining] length_set_bits [of ?rest] split(2) Cons
      by (simp del: length_set_bits)
    have "pext_loop v remaining out out_bit = pext_loop v ?rest ?out (out_bit + 1)"
      using nz split(1) by (subst pext_loop.simps) (simp add: Let_def)
    also have "bit \<dots> n \<longleftrightarrow> bit ?out n \<or>
        (\<exists>k < count_ones ?rest. n = out_bit + 1 + k \<and> bit v (ps ! k))"
      using 1 nz split(1,2) len by (simp add: Let_def)
    also have "bit ?out n \<longleftrightarrow> bit out n \<or> n = out_bit \<and> bit v p"
      unfolding and_push_bit_neq_0_iff using 1(2) len
      by (auto simp: bit_or_iff push_bit_of_1 bit_exp_iff)
    finally show ?thesis
      unfolding len Cons by (auto simp: less_Suc_eq_0_disj)
  qed
qed

lemma bit_pdep_loop:
  "bit (pdep_loop v remaining out in_bit) n \<longleftrightarrow>
    bit out n \<or> (\<exists>k < count_ones remaining. n = set_bits remaining ! k \<and> bit v (in_bit + k))"
proof (induction v remaining out in_bit rule: pdep_loop.induct)
  case (1 v remaining out in_bit)
  show ?case
  proof (cases "set_bits remaining")
    case Nil
    then show ?thesis by (simp add: pdep_loop.simps [of v 0])
  next
    case (Cons p ps)
    let ?out = "if v AND push_bit in_bit 1 \<noteq> 0 then out OR push_bit p 1 else out"
    let ?rest = "remaining XOR push_bit p 1"
    note split = set_bits_split [OF Cons]
    have nz: "remaining \<noteq> 0" using Cons set_bits_eq_Nil_iff [of remaining] by force
    have len: "count_ones remaining = Suc (count_ones ?rest)"
      using length_set_bits [of remaining] length_set_bits [of ?rest] split(2) Cons
      by (simp del: length_set_bits)
    have "pdep_loop v remaining out in_bit = pdep_loop v ?rest ?out (in_bit + 1)"
      using nz split(1) by (subst pdep_loop.simps) (simp add: Let_def)
    also have "bit \<dots> n \<longleftrightarrow> bit ?out n \<or>
        (\<exists>k < count_ones ?rest. n = ps ! k \<and> bit v (in_bit + 1 + k))"
      using 1 nz split(1,2) len by (simp add: Let_def)
    also have "bit ?out n \<longleftrightarrow> bit out n \<or> n = p \<and> bit v in_bit"
      unfolding and_push_bit_neq_0_iff using split(4)
      by (auto simp: bit_or_iff push_bit_of_1 bit_exp_iff)
    finally show ?thesis
      unfolding len Cons by (auto simp: less_Suc_eq_0_disj)
  qed
qed

lemma pext_software_eq: "pext_software v m = pext_u32 v m"
proof (rule bit_word_eqI)
  fix n
  have "0 + count_ones m \<le> 32" using count_ones_le [of m] by simp
  then show "bit (pext_software v m) n \<longleftrightarrow> bit (pext_u32 v m) n"
    by (auto simp: pext_software_def bit_pext_loop bit_pext_u32)
qed

lemma pdep_software_eq: "pdep_software v m = pdep_u32 v m"
proof (rule bit_word_eqI)
  fix n
  show "bit (pdep_software v m) n \<longleftrightarrow> bit (pdep_u32 v m) n"
    unfolding bit_pdep_u32 bit_nth_set_bits [of m n]
    by (auto simp: pdep_software_def bit_pdep_loop count_ones_below)
qed

text \<open>Whatever the CPU reports, the result is the instruction's.\<close>

lemma pext_eq: "pext bmi2 v m = pext_u32 v m" and pdep_eq: "pdep bmi2 v m = pdep_u32 v m"
  by (simp_all add: pext_def pdep_def pext_software_eq pdep_software_eq)

lemma bit_pext: "bit (pext bmi2 v m) n \<longleftrightarrow> n < count_ones m \<and> bit v (set_bits m ! n)"
  by (simp add: pext_eq bit_pext_u32)

lemma pext_pdep: "pext bmi2 (pdep bmi2' v m) m = take_bit (count_ones m) v"
  by (rule bit_word_eqI)
    (auto simp: pext_eq pdep_eq bit_pext_u32 bit_pdep_u32 bit_take_bit_iff count_ones_below
      bit_nth_set_bits [of m])

lemma pdep_pext: "pdep bmi2 (pext bmi2' v m) m = v AND m"
  by (rule bit_word_eqI)
    (auto simp: pext_eq pdep_eq bit_pext_u32 bit_pdep_u32 bit_and_iff count_ones_below
      bit_nth_set_bits [of m])

end
