(* ===== verification/Prepared.thy ===== *)
theory Prepared
  imports Ptm_Algebra Rotation Gf2_Hash Bit_Scatter
begin

unbundle bit_operations_syntax

text \<open>
  \<open>channel/prepared.rs\<close>: the per-layer engine form of a channel. A channel on at most two qubits becomes its local
  transfer table grouped by key delta, probed from \<open>apply\<close> or tabulated from a known matrix; a wider rotation
  keeps its generator. A \<open>LocalPtm\<close> is only built by \<open>on_support\<close>, so its qubits lie below \<open>64 W\<close> and its
  patterns below \<open>LOCAL_DIM\<close>, and the array accesses on them are in range.
\<close>

section \<open>The engine forms\<close>

definition MAX_LOCAL_SUPPORT :: nat where
  "MAX_LOCAL_SUPPORT = 2"

record 'c delta_entry =
  de_bucket_delta :: u32
  de_local_delta :: u8
  de_mask_x :: words
  de_mask_z :: words
  de_amplitude :: "'c list"

record 'c local_ptm =
  lp_qubits :: "u32 list"
  lp_k :: u8
  lp_deltas :: "'c delta_entry list"

record prepared_rotation =
  rt_generator :: pauli_string
  rt_cos :: real
  rt_sin :: real
  rt_delta_identity :: u32
  rt_delta_generator :: u32

datatype 'c prepared = Local "'c local_ptm" | Rotation prepared_rotation

definition emit :: "'c coefficient \<Rightarrow> 'c delta_entry \<Rightarrow> nat \<Rightarrow> words \<Rightarrow> words \<Rightarrow> 'c \<Rightarrow> (key \<times> 'c) option" where
  "emit C d s x z c =
     (let a = de_amplitude d ! s
      in if c_eq C a (c_zero C) then None
         else Some ((xor_words x (de_mask_x d), xor_words z (de_mask_z d)), c_mul C c a))"

definition de_mask :: "'c delta_entry \<Rightarrow> key" where
  "de_mask d = (de_mask_x d, de_mask_z d)"

definition lp_num :: "'c local_ptm \<Rightarrow> nat" where
  "lp_num p = unat (lp_k p)"

definition lp_support :: "'c local_ptm \<Rightarrow> nat list" where
  "lp_support p = map unat (take (unat (lp_k p)) (lp_qubits p))"

definition entry_is_dense :: "'c coefficient \<Rightarrow> 'c local_ptm \<Rightarrow> nat \<Rightarrow> bool" where
  "entry_is_dense C p index =
     (let d = push_bit (2 * lp_num p) 1
      in list_all (\<lambda>a. \<not> c_eq C a (c_zero C)) (take d (de_amplitude (lp_deltas p ! index))))"

definition emitting_entries :: "'c coefficient \<Rightarrow> 'c local_ptm \<Rightarrow> nat" where
  "emitting_entries C p =
     length (filter (\<lambda>d. list_ex (\<lambda>a. \<not> c_eq C a (c_zero C)) (de_amplitude d)) (lp_deltas p))"

definition has_identity :: "'c local_ptm \<Rightarrow> bool" where
  "has_identity p = (case lp_deltas p of [] \<Rightarrow> False | d # _ \<Rightarrow> de_local_delta d = 0)"

definition rest_streams :: "'c local_ptm \<Rightarrow> nat" where
  "rest_streams p = length (lp_deltas p) - of_bool (has_identity p)"

text \<open>\<open>sort_unstable\<close> of integers followed by \<open>dedup\<close>.\<close>

definition local_bucket_deltas :: "'c local_ptm \<Rightarrow> u32 list" where
  "local_bucket_deltas p = remdups_adj (sort (map de_bucket_delta (lp_deltas p)))"

definition support_step :: "words \<Rightarrow> words \<Rightarrow> nat \<times> nat \<Rightarrow> nat \<Rightarrow> nat" where
  "support_step x z = (\<lambda>(j, q) s.
     (let w = q div 64; b = q mod 64;
          s = s OR push_bit (2 * j) (unat (drop_bit b (x ! w) AND 1))
      in s OR push_bit (2 * j + 1) (unat (drop_bit b (z ! w) AND 1))))"

definition support_bits :: "'c local_ptm \<Rightarrow> words \<Rightarrow> words \<Rightarrow> nat" where
  "support_bits p x z = fold (support_step x z) (enumerate 0 (lp_support p)) 0"

definition support_probe :: "'c local_ptm \<Rightarrow> (nat \<times> u32) list" where
  "support_probe p =
     map (\<lambda>j. let q = (if lp_num p = 0 then 0 else unat (lp_qubits p ! min j (lp_num p - 1)))
              in (q div 64, of_nat (q mod 64))) [0..<MAX_LOCAL_SUPPORT]"

definition is_key_preserving :: "'c local_ptm \<Rightarrow> bool" where
  "is_key_preserving p \<longleftrightarrow> length (lp_deltas p) = 1 \<and> de_local_delta (lp_deltas p ! 0) = 0"

definition retain_entries :: "'c local_ptm \<Rightarrow> bool list \<Rightarrow> 'c local_ptm" where
  "retain_entries p keep =
     \<lparr>lp_qubits = lp_qubits p, lp_k = lp_k p,
      lp_deltas = map fst (filter snd (zip (lp_deltas p) keep))\<rparr>"

definition REAL_TOLERANCE :: real where
  "REAL_TOLERANCE = 1 / 10 ^ 12"

fun map_option_list :: "('a \<Rightarrow> 'b option) \<Rightarrow> 'a list \<Rightarrow> 'b list option" where
  "map_option_list f [] = Some []"
| "map_option_list f (x # xs) =
     (case f x of None \<Rightarrow> None | Some y \<Rightarrow> map_option ((#) y) (map_option_list f xs))"

definition convert_entry :: "'a coefficient \<Rightarrow> 'c coefficient \<Rightarrow> 'a delta_entry \<Rightarrow> 'c delta_entry option" where
  "convert_entry A T d =
     map_option (\<lambda>amplitude.
         \<lparr>de_bucket_delta = de_bucket_delta d, de_local_delta = de_local_delta d, de_mask_x = de_mask_x d,
          de_mask_z = de_mask_z d, de_amplitude = amplitude\<rparr>)
       (map_option_list (\<lambda>a. from_complex64 T (to_complex64 A a) REAL_TOLERANCE) (de_amplitude d))"

definition convert_local :: "'a coefficient \<Rightarrow> 'c coefficient \<Rightarrow> 'a local_ptm \<Rightarrow> 'c local_ptm option" where
  "convert_local A T p =
     map_option (\<lambda>deltas. \<lparr>lp_qubits = lp_qubits p, lp_k = lp_k p, lp_deltas = deltas\<rparr>)
       (map_option_list (convert_entry A T) (lp_deltas p))"

section \<open>Building a local table\<close>

definition trailing_zeros :: "u64 \<Rightarrow> nat" where
  "trailing_zeros w = length (takeWhile (\<lambda>n. \<not> bit w n) [0..<64])"

text \<open>The positions of the set bits of a word, and the loop that clears them from below.\<close>

definition bits_of :: "u64 \<Rightarrow> nat list" where
  "bits_of w = filter (bit w) [0..<64]"

lemma bits_of_props [simp]:
  "set (bits_of w) = {n. bit w n}" "sorted_wrt (<) (bits_of w)" "length (bits_of w) = count_ones w"
proof -
  show "set (bits_of w) = {n. bit w n}" using bit_imp_le_length [of w] by (auto simp: bits_of_def)
  show "sorted_wrt (<) (bits_of w)" unfolding bits_of_def by (rule sorted_wrt_filter) (simp add: sorted_wrt_upt)
  show "length (bits_of w) = count_ones w" by (simp add: bits_of_def count_ones_def)
qed

lemma bits_of_eqI: "sorted_wrt (<) ns \<Longrightarrow> set ns = {n. bit w n} \<Longrightarrow> bits_of w = ns"
  using strict_sorted_equal [of "bits_of w" ns] by simp

lemma takeWhile_below:
  "p < n \<Longrightarrow> P p \<Longrightarrow> \<forall>i < p. \<not> P i \<Longrightarrow> length (takeWhile (\<lambda>i. \<not> P i) [0..<n]) = p"
proof -
  assume "p < n" "P p" "\<forall>i < p. \<not> P i"
  then have "[0..<n] = [0..<p] @ p # [Suc p..<n]" "takeWhile (\<lambda>i. \<not> P i) [0..<p] = [0..<p]"
    using upt_add_eq_append [of 0 p "n - p"] upt_conv_Cons [of p n] by (auto simp: takeWhile_eq_all_conv)
  then show ?thesis using \<open>P p\<close> \<open>\<forall>i < p. \<not> P i\<close> by (simp add: takeWhile_append)
qed

lemma bits_of_Cons:
  assumes "bits_of w = p # ps"
  shows "trailing_zeros w = p" "bits_of (w AND (w - 1)) = ps"
proof -
  have sorted: "sorted_wrt (<) (p # ps)" using bits_of_props(2) [of w] by (simp add: assms)
  have set_eq: "{n. bit w n} = insert p (set ps)" using bits_of_props(1) [of w] by (simp add: assms)
  then have p: "bit w p" by auto
  then have "p < 64" using bit_imp_le_length by fastforce
  have below: "\<not> bit w n" if "n < p" for n
    using sorted set_eq that by fastforce
  show "trailing_zeros w = p"
    unfolding trailing_zeros_def using \<open>p < 64\<close> p below by (intro takeWhile_below) auto
  have "bit (w AND (w - 1)) n \<longleftrightarrow> bit w n \<and> n \<noteq> p" for n
    using bit_minus_1_lowest [OF p below, of n] bit_imp_le_length [of w n] below [of n] p
    by (auto simp: bit_and_iff split: if_splits)
  then show "bits_of (w AND (w - 1)) = ps"
    using sorted set_eq by (intro bits_of_eqI) auto
qed

function mask_word_loop :: "nat \<Rightarrow> u64 \<Rightarrow> u32 list \<times> nat \<Rightarrow> u32 list \<times> nat" where
  "mask_word_loop w live st =
     (if live \<noteq> 0
      then mask_word_loop w (live AND (live - 1))
             (case st of (qubits, n) \<Rightarrow> (qubits[n := of_nat (64 * w) + of_nat (trailing_zeros live)], n + 1))
      else st)"
  by pat_completeness auto
termination mask_word_loop
proof (relation "measure (\<lambda>(w, live, st). count_ones live)", goal_cases)
  case (2 w live st)
  then obtain p ps where b: "bits_of live = p # ps"
    using count_ones_eq_0_iff [of live] bits_of_props(3) [of live] by (cases "bits_of live") auto
  have "count_ones (live AND (live - 1)) = length ps" "count_ones live = Suc (length ps)"
    using bits_of_props(3) [of "live AND (live - 1)"] bits_of_props(3) [of live] bits_of_Cons(2) [OF b] b by simp_all
  then show ?case by simp
qed simp

declare mask_word_loop.simps [simp del]

definition on_support :: "words \<Rightarrow> complex local_ptm option" where
  "on_support m =
     (let k = sum_list (map count_ones m)
      in if k > MAX_LOCAL_SUPPORT then None
         else Some \<lparr>lp_qubits = fst (fold (\<lambda>(w, word). mask_word_loop w word) (enumerate 0 m)
                                      (replicate MAX_LOCAL_SUPPORT 0, 0)),
                    lp_k = of_nat k, lp_deltas = []\<rparr>)"

definition lift_step :: "u8 \<Rightarrow> nat \<times> nat \<Rightarrow> key \<Rightarrow> key" where
  "lift_step local_delta = (\<lambda>(j, q) (mx, mz).
     (let w = q div 64; b = push_bit (q mod 64) 1;
          mx = (if drop_bit (2 * j) local_delta AND 1 = 1 then mx[w := mx ! w OR b] else mx);
          mz = (if drop_bit (2 * j + 1) local_delta AND 1 = 1 then mz[w := mz ! w OR b] else mz)
      in (mx, mz)))"

definition lift_delta :: "nat \<Rightarrow> complex local_ptm \<Rightarrow> u8 \<Rightarrow> key" where
  "lift_delta W p local_delta =
     fold (lift_step local_delta) (enumerate 0 (lp_support p)) (replicate W 0, replicate W 0)"

definition realized_deltas :: "nat \<Rightarrow> complex list list \<Rightarrow> bool list" where
  "realized_deltas d table =
     fold (\<lambda>(s, t) has_delta. if table ! s ! t \<noteq> 0 then has_delta[s XOR t := True] else has_delta)
       (List.product [0..<d] [0..<d]) (replicate LOCAL_DIM False)"

definition push_deltas :: "nat \<Rightarrow> complex local_ptm \<Rightarrow> complex list list \<Rightarrow> gf2_hash \<Rightarrow> complex local_ptm" where
  "push_deltas W p table h =
     (let d = push_bit (2 * lp_num p) 1;
          has_delta = realized_deltas d table
      in p\<lparr>lp_deltas := lp_deltas p @ map (\<lambda>e.
             let (mask_x, mask_z) = lift_delta W p (of_nat e)
             in \<lparr>de_bucket_delta = bucket_of h (mask_x, mask_z), de_local_delta = of_nat e,
                 de_mask_x = mask_x, de_mask_z = mask_z,
                 de_amplitude = map (\<lambda>s. if s < d then table ! s ! (s XOR e) else 0) [0..<LOCAL_DIM]\<rparr>)
           (filter (\<lambda>e. has_delta ! e) [0..<d])\<rparr>)"

section \<open>Rotations and the prepared form\<close>

definition emit_generator ::
    "'c coefficient \<Rightarrow> prepared_rotation \<Rightarrow> words \<Rightarrow> words \<Rightarrow> 'c \<Rightarrow> (key \<times> 'c) option" where
  "emit_generator C r x z c =
     (let v = \<lparr>ps_x = x, ps_z = z\<rparr>
      in if commutes_with v (rt_generator r) then None
         else (let (product, ph) = mul_assign v (rt_generator r);
                   total = add_phase phase_I ph
               in Some ((ps_x product, ps_z product), c_mul_real C (mul_phase C c total) (rt_sin r))))"

definition generator_mask :: "prepared_rotation \<Rightarrow> key" where
  "generator_mask r = (ps_x (rt_generator r), ps_z (rt_generator r))"

definition prepared_bucket_deltas :: "'c prepared \<Rightarrow> u32 list" where
  "prepared_bucket_deltas pr =
     (case pr of
        Local p \<Rightarrow> local_bucket_deltas p
      | Rotation r \<Rightarrow>
          if rt_delta_generator r = rt_delta_identity r then [rt_delta_identity r]
          else [rt_delta_identity r, rt_delta_generator r])"

definition key_delta_masks :: "'c prepared \<Rightarrow> key list" where
  "key_delta_masks pr =
     (case pr of Local p \<Rightarrow> map de_mask (lp_deltas p) | Rotation r \<Rightarrow> [generator_mask r])"

datatype imaginary_amplitude = ImaginaryAmplitude

text \<open>\<open>T::real(r.cos)\<close> and \<open>T::real(r.sin)\<close> are exact here, so the rotation is carried over.\<close>

definition convert_prepared ::
    "'c coefficient \<Rightarrow> complex prepared \<Rightarrow> imaginary_amplitude + 'c prepared" where
  "convert_prepared T pr =
     (case pr of
        Local p \<Rightarrow>
          (case convert_local complex_coefficient T p of
             None \<Rightarrow> Inl ImaginaryAmplitude
           | Some q \<Rightarrow> Inr (Local q))
      | Rotation r \<Rightarrow> Inr (Rotation r))"

section \<open>Probing a channel\<close>

definition full_mask :: "nat \<Rightarrow> nat list \<Rightarrow> words" where
  "full_mask W qs = fold (\<lambda>q m. m[q div 64 := m ! (q div 64) OR push_bit (q mod 64) 1]) qs (replicate W 0)"

definition leaves_support :: "words \<Rightarrow> words \<Rightarrow> words \<Rightarrow> bool" where
  "leaves_support out inp support \<longleftrightarrow>
     list_ex (\<lambda>(a, b, m). (a XOR b) AND NOT m \<noteq> 0) (zip out (zip inp support))"

text \<open>One input pattern: apply the channel to the lifted Pauli and add the outputs to the row.\<close>

fun probe_outputs ::
    "complex local_ptm \<Rightarrow> words \<Rightarrow> key \<Rightarrow> (key \<times> complex) list \<Rightarrow> complex list \<Rightarrow> complex list option" where
  "probe_outputs p support inp [] row = Some row"
| "probe_outputs p support inp ((k, coeff) # ts) row =
     (if leaves_support (fst k) (fst inp) support \<or> leaves_support (snd k) (snd inp) support then None
      else let t = support_bits p (fst k) (snd k)
           in probe_outputs p support inp ts (row[t := row ! t + coeff]))"

definition probe_input :: "nat \<Rightarrow> complex local_ptm \<Rightarrow> words \<Rightarrow> bool \<Rightarrow> nat \<Rightarrow> key" where
  "probe_input W p support background s =
     (let (in_x, in_z) = lift_delta W p (of_nat s)
      in if background then (or_words in_x (map NOT support), or_words in_z (map NOT support))
         else (in_x, in_z))"

definition probe_row ::
    "nat \<Rightarrow> channel \<Rightarrow> complex local_ptm \<Rightarrow> bool \<Rightarrow> bool \<Rightarrow> nat \<Rightarrow> complex list option result" where
  "probe_row W ch p adjoint background s =
     (let support = full_mask W (lp_support p);
          (in_x, in_z) = probe_input W p support background s
      in and_then ((if adjoint then ch_apply_adjoint ch else ch_apply ch) in_x in_z (Complex 1 0) ob_new) (\<lambda>out.
           Inr (probe_outputs p support (in_x, in_z) (ob_terms out) (replicate LOCAL_DIM 0))))"

fun probe_rows ::
    "nat \<Rightarrow> channel \<Rightarrow> complex local_ptm \<Rightarrow> bool \<Rightarrow> bool \<Rightarrow> nat list \<Rightarrow> complex list list \<Rightarrow> complex list list option result"
  where
  "probe_rows W ch p adjoint background [] table = Inr (Some table)"
| "probe_rows W ch p adjoint background (s # ss) table =
     and_then (probe_row W ch p adjoint background s) (\<lambda>r.
       case r of None \<Rightarrow> Inr None | Some row \<Rightarrow> probe_rows W ch p adjoint background ss (table[s := row]))"

definition probe_table ::
    "nat \<Rightarrow> channel \<Rightarrow> complex local_ptm \<Rightarrow> bool \<Rightarrow> bool \<Rightarrow> complex list list option result" where
  "probe_table W ch p adjoint background =
     probe_rows W ch p adjoint background [0..<push_bit (2 * lp_num p) 1]
       (replicate LOCAL_DIM (replicate LOCAL_DIM 0))"

definition derive_local :: "nat \<Rightarrow> channel \<Rightarrow> gf2_hash \<Rightarrow> bool \<Rightarrow> complex prepared option result" where
  "derive_local W ch h adjoint =
     and_then (ch_support ch W) (\<lambda>m.
       case on_support m of
         None \<Rightarrow> Inr None
       | Some p \<Rightarrow>
           and_then (probe_table W ch p adjoint False) (\<lambda>r.
             Inr (map_option (\<lambda>table. Local (push_deltas W p table h)) r)))"

definition from_transfer_matrix :: "nat \<Rightarrow> words \<Rightarrow> complex list list \<Rightarrow> gf2_hash \<Rightarrow> complex prepared result" where
  "from_transfer_matrix W m table h =
     (case on_support m of
        None \<Rightarrow> Inl SupportTooWide
      | Some p \<Rightarrow> Inr (Local (push_deltas W p table h)))"

text \<open>\<open>prepare_for_layer\<close>: the default of the trait, and the overrides of the two built-in channels.\<close>

definition prepare_ptm :: "nat \<Rightarrow> ptm_channel \<Rightarrow> gf2_hash \<Rightarrow> bool \<Rightarrow> complex prepared option result" where
  "prepare_ptm W c h adjoint =
     and_then (ch_support (ptm_as_channel c) W) (\<lambda>m.
     and_then (from_transfer_matrix W m (transfer_matrix c adjoint) h) (\<lambda>pr. Inr (Some pr)))"

definition prepare_rotation :: "nat \<Rightarrow> pauli_rotation \<Rightarrow> gf2_hash \<Rightarrow> bool \<Rightarrow> complex prepared option result" where
  "prepare_rotation W r h adjoint =
     (if rotation_weight r \<le> MAX_LOCAL_SUPPORT then derive_local W (rotation_as_channel r) h adjoint
      else (let (s, c) = rot_sin_cos (if adjoint then - rot_theta r else rot_theta r);
                g = rot_generator r
            in Inr (Some (Rotation \<lparr>rt_generator = g, rt_cos = c, rt_sin = s, rt_delta_identity = 0,
                                    rt_delta_generator = bucket_of h (ps_x g, ps_z g)\<rparr>))))"

end
