(* ===== verification/Prepared_Sound.thy ===== *)
theory Prepared_Sound
  imports Prepared Operator
begin

unbundle bit_operations_syntax

text \<open>
  The engine form does what the channel does: the rows a prepared table emits for a term stand for the same
  combination as the channel's own application, and each lands in the bucket its delta predicts. The contract of
  the trait \<open>Channel\<close> is a locale; the probe of \<open>derive_local\<close> is sound for everything that satisfies it.
\<close>

section \<open>Patterns as bit strings\<close>

lemma nth_concat_pairs:
  "n < 2 * length qs \<Longrightarrow> concat (map (\<lambda>q. [f q, g q]) qs) ! n = (if even n then f else g) (qs ! (n div 2))"
proof (induction qs arbitrary: n)
  case (Cons q qs)
  show ?case
  proof (cases "n < 2")
    case True
    then have "n = 0 \<or> n = 1" by auto
    then show ?thesis by auto
  next
    case False
    then obtain m where "n = Suc (Suc m)" by (metis add_2_eq_Suc le_Suc_ex not_less)
    with Cons show ?thesis by simp
  qed
qed simp

lemma bit_local_pattern:
  "bit (local_pattern qs k) n \<longleftrightarrow>
     n < 2 * length qs \<and> (if even n then qbit (fst k) (qs ! (n div 2)) else qbit (snd k) (qs ! (n div 2)))"
proof -
  have len: "length (concat (map (\<lambda>q. [qbit (fst k) q, qbit (snd k) q]) qs)) = 2 * length qs"
    by (induction qs) auto
  show ?thesis
    unfolding local_pattern_def bit_horner_sum_bit_iff len by (auto simp: nth_concat_pairs)
qed

lemma local_pattern_xor:
  assumes "wf_key W k" "wf_key W l"
  shows "local_pattern qs (xor_key k l) = local_pattern qs k XOR local_pattern qs l"
  using assms by (intro bit_eqI) (auto simp: bit_xor_iff bit_local_pattern xor_key_def wf_key_def qbit_xor_words)

lemma agree_off_xor:
  assumes "wf_key W k" "wf_key W l" "agree_off qs (zero_key W) l"
  shows "agree_off qs k (xor_key k l)"
  using assms by (auto simp: agree_off_def xor_key_def wf_key_def qbit_xor_words zero_key_def)

lemma xor_less_power:
  assumes "s < 4 ^ m" "t < 4 ^ m"
  shows "(s XOR t :: nat) < 4 ^ m"
proof -
  have p: "(4 :: nat) ^ m = 2 ^ (2 * m)" by (simp add: power_mult)
  have "take_bit (2 * m) (s XOR t) = s XOR t"
    using assms unfolding p by (simp add: take_bit_xor take_bit_nat_eq_self)
  then show ?thesis unfolding p by (metis take_bit_nat_less_exp)
qed

lemma xor_nat_cancel [simp]: "s XOR (s XOR t) = (t :: nat)"
  by (simp flip: xor.assoc)

section \<open>The support\<close>

definition lp_ok :: "nat \<Rightarrow> 'c local_ptm \<Rightarrow> bool" where
  "lp_ok W p \<longleftrightarrow> length (lp_qubits p) = MAX_LOCAL_SUPPORT \<and> lp_num p \<le> MAX_LOCAL_SUPPORT \<and>
     distinct (lp_support p) \<and> (\<forall>q \<in> set (lp_support p). q < 64 * W)"

lemma lp_ok_dim:
  assumes "lp_ok W p"
  shows "length (lp_support p) = lp_num p" "push_bit (2 * lp_num p) 1 = (4 :: nat) ^ lp_num p" "(4 :: nat) ^ lp_num p \<le> LOCAL_DIM"
proof -
  show "length (lp_support p) = lp_num p"
    using assms by (simp add: lp_ok_def lp_support_def lp_num_def)
  show "push_bit (2 * lp_num p) 1 = (4 :: nat) ^ lp_num p"
    by (simp add: push_bit_eq_mult power_mult)
  have "(4 :: nat) ^ lp_num p \<le> 4 ^ 2"
    using assms by (intro power_increasing) (simp_all add: lp_ok_def MAX_LOCAL_SUPPORT_def)
  then show "(4 :: nat) ^ lp_num p \<le> LOCAL_DIM" by (simp add: LOCAL_DIM_def)
qed

lemma support_loop:
  assumes "wf_key W (x, z)" "\<forall>q \<in> set qs. q < 64 * W"
  shows "fold (support_step x z) (enumerate n qs) s = s OR push_bit (2 * n) (local_pattern qs (x, z))"
  using assms(2)
proof (induction qs arbitrary: n s)
  case (Cons q qs)
  have w: "q div 64 < length x" "q div 64 < length z"
    using assms(1) Cons.prems by (simp_all add: wf_key_def less_mult_imp_div_less mult.commute)
  have one: "unat (drop_bit b v AND 1) = of_bool (bit v b)" for v :: u64 and b
    by (simp add: and_one_eq bit_iff_odd_drop_bit mod_2_eq_odd)
  have "support_step x z (n, q) s = s OR push_bit (2 * n) (of_bool (qbit x q) + 2 * of_bool (qbit z q))"
  proof -
    have "of_bool (qbit x q) + 2 * of_bool (qbit z q) = of_bool (qbit x q) OR push_bit 1 (of_bool (qbit z q) :: nat)"
      by (cases "qbit x q"; cases "qbit z q") simp_all
    then show ?thesis
      using w by (simp add: support_step_def Let_def one push_bit_or push_bit_push_bit or.assoc qbit_def add.commute
          del: push_bit_of_Suc_0)
  qed
  then show ?case
    using Cons two_bits_or [of "qbit x q" "qbit z q" "local_pattern qs (x, z)"]
    by (simp add: push_bit_or push_bit_push_bit or.assoc add.commute)
qed simp

lemma support_bits_eq:
  "lp_ok W p \<Longrightarrow> wf_key W (x, z) \<Longrightarrow> support_bits p x z = local_pattern (lp_support p) (x, z)"
  using support_loop [of W x z "lp_support p" 0 0] by (simp add: support_bits_def lp_ok_def)

section \<open>Lifting a delta\<close>

lemma qbit_set_bit:
  assumes "q div 64 < length xs"
  shows "qbit (xs[q div 64 := xs ! (q div 64) OR push_bit (q mod 64) 1]) r \<longleftrightarrow> r = q \<or> qbit xs r"
proof -
  have "r mod 64 = q mod 64 \<longleftrightarrow> r = q" if "r div 64 = q div 64"
    using that by (metis div_mult_mod_eq)
  then show ?thesis
    unfolding qbit_update [OF assms] using assms
    by (auto simp: qbit_def bit_or_iff push_bit_of_1 bit_exp_iff)
qed

lemma lift_loop:
  assumes "wf_key W k" "\<forall>q \<in> set qs. q < 64 * W \<and> \<not> qbit (fst k) q \<and> \<not> qbit (snd k) q" "distinct qs"
  shows "wf_key W (fold (lift_step e) (enumerate n qs) k) \<and> agree_off qs k (fold (lift_step e) (enumerate n qs) k) \<and>
    (\<forall>j < length qs. qbit (fst (fold (lift_step e) (enumerate n qs) k)) (qs ! j) = bit e (2 * (n + j)) \<and>
       qbit (snd (fold (lift_step e) (enumerate n qs) k)) (qs ! j) = bit e (2 * (n + j) + 1))"
  using assms
proof (induction qs arbitrary: n k)
  case (Cons q qs)
  obtain mx mz where k: "k = (mx, mz)" by (cases k)
  let ?k = "lift_step e (n, q) k"
  have w: "q div 64 < length mx" "q div 64 < length mz"
    using Cons.prems(1,2) by (simp_all add: k wf_key_def less_mult_imp_div_less mult.commute)
  have one: "drop_bit b e AND 1 = 1 \<longleftrightarrow> bit e b" for b
    by (simp add: and_one_eq bit_iff_odd_drop_bit mod_2_eq_odd)
  have step: "wf_key W ?k" "\<And>r. qbit (fst ?k) r \<longleftrightarrow> r = q \<and> bit e (2 * n) \<or> qbit mx r"
      "\<And>r. qbit (snd ?k) r \<longleftrightarrow> r = q \<and> bit e (2 * n + 1) \<or> qbit mz r"
    using Cons.prems(1) w
    by (auto simp: k lift_step_def Let_def wf_key_def one qbit_set_bit simp del: push_bit_of_1)
  let ?l = "fold (lift_step e) (enumerate (Suc n) qs) ?k"
  have IH: "wf_key W ?l" "agree_off qs ?k ?l"
      "\<And>j. j < length qs \<Longrightarrow> qbit (fst ?l) (qs ! j) = bit e (2 * (Suc n + j)) \<and>
        qbit (snd ?l) (qs ! j) = bit e (2 * (Suc n + j) + 1)"
    using Cons.IH [OF step(1), of "Suc n"] Cons.prems(2,3) step(2,3) by (auto simp: k)
  have q: "qbit (fst ?l) q = bit e (2 * n)" "qbit (snd ?l) q = bit e (2 * n + 1)"
    using IH(2) Cons.prems(2,3) step(2,3) by (auto simp: agree_off_def k)
  have "agree_off (q # qs) k ?l"
    using IH(2) step(2,3) by (auto simp: agree_off_def k)
  moreover have "\<forall>j < length (q # qs). qbit (fst ?l) ((q # qs) ! j) = bit e (2 * (n + j)) \<and>
      qbit (snd ?l) ((q # qs) ! j) = bit e (2 * (n + j) + 1)"
  proof (intro allI impI)
    fix j assume "j < length (q # qs)"
    then show "qbit (fst ?l) ((q # qs) ! j) = bit e (2 * (n + j)) \<and>
      qbit (snd ?l) ((q # qs) ! j) = bit e (2 * (n + j) + 1)"
      using q IH(3) by (cases j) auto
  qed
  ultimately show ?case using IH(1) by simp
qed simp

lemma lift_delta_ok:
  assumes "lp_ok W p" "e < 4 ^ lp_num p"
  shows "wf_key W (lift_delta W p (of_nat e))" "is_overwritten (lp_support p) e (zero_key W) (lift_delta W p (of_nat e))"
proof -
  let ?l = "lift_delta W p (of_nat e)"
  note d = lp_ok_dim [OF assms(1)]
  have loop: "wf_key W ?l" "agree_off (lp_support p) (zero_key W) ?l"
      "\<And>j. j < lp_num p \<Longrightarrow> qbit (fst ?l) (lp_support p ! j) = bit (of_nat e :: u8) (2 * j) \<and>
        qbit (snd ?l) (lp_support p ! j) = bit (of_nat e :: u8) (2 * j + 1)"
    using lift_loop [OF wf_zero_key, of "lp_support p" W "of_nat e" 0] assms(1) d(1)
    by (auto simp: lift_delta_def zero_key_def lp_ok_def)
  have k: "lp_num p \<le> 2" using assms(1) by (simp add: lp_ok_def MAX_LOCAL_SUPPORT_def)
  have e: "take_bit (2 * lp_num p) e = e" using assms(2) by (simp add: take_bit_nat_eq_self power_mult)
  have "local_pattern (lp_support p) ?l = e"
  proof (rule bit_eqI)
    fix n
    have "bit e n \<longleftrightarrow> n < 2 * lp_num p \<and> bit e n" by (metis bit_take_bit_iff e)
    moreover have "bit (of_nat e :: u8) n \<longleftrightarrow> bit e n" if "n < 2 * lp_num p"
      using that k by (simp add: bit_of_nat_iff)
    moreover have "n div 2 < lp_num p" if "n < 2 * lp_num p" using that by linarith
    moreover have "2 * (n div 2) = n" if "even n" using that by simp
    moreover have "2 * (n div 2) + 1 = n" if "odd n" using that by simp
    ultimately show "bit (local_pattern (lp_support p) ?l) n \<longleftrightarrow> bit e n"
      using loop(3) [of "n div 2"] d(1) by (auto simp: bit_local_pattern)
  qed
  with loop show "wf_key W ?l" "is_overwritten (lp_support p) e (zero_key W) ?l"
    by (simp_all add: is_overwritten_def)
qed

section \<open>The realized deltas\<close>

lemma realized_loop:
  assumes "\<forall>(s, t) \<in> set ps. s XOR t < length flags"
  shows "length (fold (\<lambda>(s, t) f. if table ! s ! t \<noteq> 0 then f[s XOR t := True] else f) ps flags) = length flags"
    and "e < length flags \<Longrightarrow>
      fold (\<lambda>(s, t) f. if table ! s ! t \<noteq> (0 :: complex) then f[s XOR t := True] else f) ps flags ! e \<longleftrightarrow>
      flags ! e \<or> (\<exists>(s, t) \<in> set ps. s XOR t = e \<and> table ! s ! t \<noteq> 0)"
  using assms
proof (induction ps arbitrary: flags)
  case (Cons p ps)
  { case 1 then show ?case using Cons.IH(1) by (cases p) auto }
  { case 2
    obtain s t where p: "p = (s, t)" by (cases p)
    let ?f = "if table ! s ! t \<noteq> 0 then flags[s XOR t := True] else flags"
    have "fold (\<lambda>(s, t) f. if table ! s ! t \<noteq> 0 then f[s XOR t := True] else f) ps ?f ! e \<longleftrightarrow>
        ?f ! e \<or> (\<exists>(s, t) \<in> set ps. s XOR t = e \<and> table ! s ! t \<noteq> 0)"
      using 2 by (intro Cons.IH(2)) auto
    moreover have "?f ! e \<longleftrightarrow> flags ! e \<or> s XOR t = e \<and> table ! s ! t \<noteq> 0"
      using 2 p by (auto simp: nth_list_update)
    ultimately show ?case by (auto simp: p) }
qed simp_all

lemma realized_deltas_iff:
  assumes "e < 4 ^ m" "4 ^ m \<le> LOCAL_DIM"
  shows "realized_deltas (4 ^ m) table ! e \<longleftrightarrow> (\<exists>s < 4 ^ m. table ! s ! (s XOR e) \<noteq> 0)"
proof -
  have "\<forall>(s, t) \<in> set (List.product [0..<4 ^ m] [0..<4 ^ m]). s XOR t < length (replicate LOCAL_DIM False)"
    using assms(2) by (auto intro: order_less_le_trans [OF xor_less_power])
  from realized_loop(2) [OF this, of e table] assms
  have "realized_deltas (4 ^ m) table ! e \<longleftrightarrow>
      (\<exists>s < 4 ^ m. \<exists>t < 4 ^ m. s XOR t = e \<and> table ! s ! t \<noteq> 0)"
    by (auto simp: realized_deltas_def) blast
  also have "\<dots> \<longleftrightarrow> (\<exists>s < 4 ^ m. table ! s ! (s XOR e) \<noteq> 0)"
    using xor_less_power [OF _ assms(1)] by (metis xor_nat_cancel)
  finally show ?thesis .
qed

section \<open>Emission\<close>

text \<open>The rows a prepared table emits for one term, entry by entry as the engine gathers them.\<close>

definition emit_all :: "'c coefficient \<Rightarrow> 'c local_ptm \<Rightarrow> key \<Rightarrow> 'c \<Rightarrow> (key \<times> 'c) list" where
  "emit_all C p k c =
     List.map_filter (\<lambda>d. emit C d (support_bits p (fst k) (snd k)) (fst k) (snd k) c) (lp_deltas p)"

definition delta_for :: "nat \<Rightarrow> complex local_ptm \<Rightarrow> complex list list \<Rightarrow> gf2_hash \<Rightarrow> nat \<Rightarrow> complex delta_entry" where
  "delta_for W p table h e =
     (let (mask_x, mask_z) = lift_delta W p (of_nat e)
      in \<lparr>de_bucket_delta = bucket_of h (mask_x, mask_z), de_local_delta = of_nat e,
          de_mask_x = mask_x, de_mask_z = mask_z,
          de_amplitude = map (\<lambda>s. if s < push_bit (2 * lp_num p) 1 then table ! s ! (s XOR e) else 0) [0..<LOCAL_DIM]\<rparr>)"

lemma push_deltas_eq:
  "push_deltas W p table h =
     p\<lparr>lp_deltas := lp_deltas p @ map (delta_for W p table h)
        (filter (\<lambda>e. realized_deltas (push_bit (2 * lp_num p) 1) table ! e) [0..<push_bit (2 * lp_num p) 1])\<rparr>"
  by (simp add: push_deltas_def delta_for_def Let_def)

lemma push_deltas_support [simp]:
  "lp_support (push_deltas W p table h) = lp_support p" "lp_num (push_deltas W p table h) = lp_num p"
  "lp_ok W' (push_deltas W p table h) = lp_ok W' p"
  by (simp_all add: push_deltas_eq lp_support_def lp_num_def lp_ok_def)

lemma delta_for_fields:
  "de_mask (delta_for W p table h e) = lift_delta W p (of_nat e)"
  "de_bucket_delta (delta_for W p table h e) = bucket_of h (lift_delta W p (of_nat e))"
  "de_local_delta (delta_for W p table h e) = of_nat e"
  by (simp_all add: delta_for_def de_mask_def split: prod.splits)

lemma emit_delta_for:
  assumes "lp_ok W p" "s < 4 ^ lp_num p"
  shows "emit complex_coefficient (delta_for W p table h e) s x z c =
    (if table ! s ! (s XOR e) = 0 then None
     else Some (xor_key (x, z) (lift_delta W p (of_nat e)), c * table ! s ! (s XOR e)))"
proof -
  have "s < LOCAL_DIM" using assms(2) lp_ok_dim(3) [OF assms(1)] by simp
  then show ?thesis
    using assms(2) lp_ok_dim(2) [OF assms(1)]
    by (simp add: emit_def delta_for_def xor_key_def split_def complex_coefficient_def complex_eq_iff Let_def)
qed

lemma map_filter_Cons:
  "List.map_filter f (x # xs) = (case f x of None \<Rightarrow> [] | Some y \<Rightarrow> [y]) @ List.map_filter f xs"
  by (simp split: option.splits)

text \<open>The emitted list stands for the row of the table, one delta at a time.\<close>

lemma emit_deltas_image:
  assumes p: "lp_ok W p" and k: "wf_key W (x, z)" and es: "distinct es" "\<forall>e \<in> set es. e < 4 ^ lp_num p"
  defines "qs \<equiv> lp_support p" and "s \<equiv> local_pattern (lp_support p) (x, z)"
  shows "local_image W qs (\<lambda>s t. if s XOR t \<in> set es then table ! s ! t else 0) (x, z) c
    (List.map_filter (\<lambda>e. emit complex_coefficient (delta_for W p table h e) s x z c) es)"
  using es
proof (induction es)
  case Nil
  then show ?case by (simp add: local_image_def)
next
  case (Cons e es)
  have s: "s < 4 ^ lp_num p"
    using local_pattern_bound [of "lp_support p" "(x, z)"] lp_ok_dim(1) [OF p] by (simp add: s_def)
  have s': "local_pattern qs (x, z) = s" by (simp add: s_def qs_def)
  have e: "e < 4 ^ lp_num p" using Cons.prems by simp
  let ?l = "lift_delta W p (of_nat e)"
  have l: "wf_key W ?l" "agree_off qs (zero_key W) ?l" "local_pattern qs ?l = e"
    using lift_delta_ok [OF p e] by (simp_all add: is_overwritten_def qs_def)
  have out: "is_overwritten qs (s XOR e) (x, z) (xor_key (x, z) ?l)" "wf_key W (xor_key (x, z) ?l)"
    using agree_off_xor [OF k l(1,2)] local_pattern_xor [OF k l(1)] l(3) wf_xor_key [OF k l(1)]
    by (simp_all add: is_overwritten_def s_def qs_def)
  have head: "local_image W qs (\<lambda>s t. if s XOR t = e then table ! s ! t else 0) (x, z) c
      (case emit complex_coefficient (delta_for W p table h e) s x z c of None \<Rightarrow> [] | Some y \<Rightarrow> [y])"
  proof (cases "table ! s ! (s XOR e) = 0")
    case True
    then show ?thesis
      by (auto simp: emit_delta_for [OF p s] local_image_def s')
  next
    case False
    have "(s XOR u = e) = (u = s XOR e)" for u by (metis xor_nat_cancel)
    then have "local_image W qs (\<lambda>s t. if s XOR t = e then table ! s ! t else 0) (x, z) c
        [(xor_key (x, z) ?l, c * table ! s ! (s XOR e))]"
      by (intro local_imageI [OF k out(2,1)]) (auto simp: s')
    with False show ?thesis by (simp add: emit_delta_for [OF p s])
  qed
  have "local_image W qs (\<lambda>s t. if s XOR t \<in> set es then table ! s ! t else 0) (x, z) c
      (List.map_filter (\<lambda>e. emit complex_coefficient (delta_for W p table h e) s x z c) es)"
    using Cons by simp
  from local_image_append [OF head this] show ?case
    unfolding map_filter_Cons by (rule local_image_cong) (use Cons.prems in auto)
qed

lemma push_deltas_emits:
  fixes h table
  assumes "lp_ok W p" "lp_deltas p = []" "wf_key W (x, z)"
  defines "q \<equiv> push_deltas W p table h"
  shows "local_image W (lp_support p) (\<lambda>s t. table ! s ! t) (x, z) c (emit_all complex_coefficient q (x, z) c)"
proof -
  let ?n = "(4 :: nat) ^ lp_num p" and ?qs = "lp_support p"
  let ?es = "filter (\<lambda>e. realized_deltas ?n table ! e) [0..<?n]"
  note d = lp_ok_dim [OF assms(1)]
  let ?s = "local_pattern ?qs (x, z)"
  have s: "?s < ?n" using local_pattern_bound [of ?qs "(x, z)"] d(1) by simp
  have "support_bits q x z = ?s" "lp_deltas q = map (delta_for W p table h) ?es"
    using support_bits_eq [OF assms(1,3)] assms(2)
    unfolding q_def push_deltas_eq d(2) by (simp_all add: support_bits_def lp_support_def)
  then have "emit_all complex_coefficient q (x, z) c =
      List.map_filter (\<lambda>e. emit complex_coefficient (delta_for W p table h e) ?s x z c) ?es"
    by (simp add: emit_all_def List.map_filter_def comp_def filter_map)
  moreover have "local_image W ?qs (\<lambda>s t. if s XOR t \<in> set ?es then table ! s ! t else 0) (x, z) c
      (List.map_filter (\<lambda>e. emit complex_coefficient (delta_for W p table h e) ?s x z c) ?es)"
    by (rule emit_deltas_image [OF assms(1,3)]) auto
  moreover have "(if ?s XOR t \<in> set ?es then table ! ?s ! t else 0) = table ! ?s ! t" if "t < ?n" for t
    using realized_deltas_iff [OF xor_less_power [OF s that] d(3), of table] s xor_less_power [OF s that] by auto
  ultimately show ?thesis
    using local_pattern_bound [of ?qs] d(1) by (simp add: local_image_def)
qed

text \<open>Every entry records the bucket of its mask.\<close>

definition buckets_ok :: "nat \<Rightarrow> gf2_hash \<Rightarrow> 'c local_ptm \<Rightarrow> bool" where
  "buckets_ok W h p \<longleftrightarrow> (\<forall>d \<in> set (lp_deltas p). wf_key W (de_mask d) \<and> de_bucket_delta d = bucket_of h (de_mask d))"

lemma push_deltas_buckets:
  assumes "lp_ok W p" "lp_deltas p = []"
  shows "buckets_ok W h (push_deltas W p table h)"
  using lift_delta_ok(1) [OF assms(1)] assms(2)
  unfolding buckets_ok_def push_deltas_eq lp_ok_dim(2) [OF assms(1)] by (auto simp: delta_for_fields)

section \<open>Reading a support mask\<close>

definition mask_qubits :: "words \<Rightarrow> nat list" where
  "mask_qubits m = filter (qbit m) [0..<64 * length m]"

lemma mask_qubits_props:
  "sorted_wrt (<) (mask_qubits m)" "distinct (mask_qubits m)" "set (mask_qubits m) = {q. qbit m q}"
proof -
  show *: "sorted_wrt (<) (mask_qubits m)"
    unfolding mask_qubits_def by (rule sorted_wrt_filter) (simp add: sorted_wrt_upt)
  show "distinct (mask_qubits m)" by (simp add: mask_qubits_def)
  show "set (mask_qubits m) = {q. qbit m q}"
    using qbit_beyond [of m] by (auto simp: mask_qubits_def not_less [symmetric])
qed

definition store :: "u32 \<Rightarrow> u32 list \<times> nat \<Rightarrow> u32 list \<times> nat" where
  "store q = (\<lambda>(qubits, n). (qubits[n := q], n + 1))"

lemma mask_word_loop_eq:
  "mask_word_loop w live st = fold store (map (\<lambda>b. of_nat (64 * w) + of_nat b) (bits_of live)) st"
proof (induction "bits_of live" arbitrary: live st)
  case Nil
  then have "live = 0" using count_ones_eq_0_iff [of live] bits_of_props(3) [of live] by simp
  then show ?case by (simp add: mask_word_loop.simps bits_of_def)
next
  case (Cons p ps)
  note step = bits_of_Cons [OF Cons.hyps(2) [symmetric]]
  have "live \<noteq> 0" using Cons.hyps(2) by (auto simp: bits_of_def)
  then have "mask_word_loop w live st = mask_word_loop w (live AND (live - 1)) (store (of_nat (64 * w) + of_nat p) st)"
    by (subst mask_word_loop.simps) (simp add: step(1) store_def)
  also have "\<dots> = fold store (map (\<lambda>b. of_nat (64 * w) + of_nat b) ps) (store (of_nat (64 * w) + of_nat p) st)"
    using Cons.hyps(1) [of "live AND (live - 1)"] step(2) by simp
  finally show ?case by (simp add: Cons.hyps(2) [symmetric])
qed

definition word_qubits :: "nat \<Rightarrow> words \<Rightarrow> nat list" where
  "word_qubits n m = concat (map (\<lambda>(w, word). map (\<lambda>b. 64 * w + b) (bits_of word)) (enumerate n m))"

lemma word_qubits_props:
  "sorted_wrt (<) (word_qubits n m) \<and> set (word_qubits n m) = (\<lambda>q. 64 * n + q) ` {q. qbit m q} \<and>
     length (word_qubits n m) = sum_list (map count_ones m)"
proof (induction m arbitrary: n)
  case (Cons w m)
  have split: "word_qubits n (w # m) = map (\<lambda>b. 64 * n + b) (bits_of w) @ word_qubits (Suc n) m"
    by (simp add: word_qubits_def)
  have low: "b < 64" if "bit w b" for b using bit_imp_le_length [OF that] by simp
  have "sorted_wrt (<) (map (\<lambda>b. 64 * n + b) (bits_of w))"
    using bits_of_props(2) [of w] by (simp add: sorted_wrt_map)
  moreover have "\<forall>a \<in> set (map (\<lambda>b. 64 * n + b) (bits_of w)). \<forall>b \<in> set (word_qubits (Suc n) m). a < b"
    using Cons [of "Suc n"] low by fastforce
  moreover have "(\<lambda>q. 64 * n + q) ` {q. qbit (w # m) q} =
      (\<lambda>q. 64 * n + q) ` {q. bit w q} \<union> (\<lambda>q. 64 * Suc n + q) ` {q. qbit m q}" (is "?l = ?r")
  proof (intro set_eqI iffI)
    fix r assume "r \<in> ?l"
    then obtain q where q: "r = 64 * n + q" "qbit (w # m) q" by blast
    show "r \<in> ?r"
    proof (cases "q < 64")
      case False
      then have "r = 64 * Suc n + (q - 64)" "qbit m (q - 64)" using q by (auto simp: qbit_Cons)
      then show ?thesis by blast
    qed (use q in \<open>auto simp: qbit_Cons\<close>)
  next
    fix r assume "r \<in> ?r"
    then consider q where "r = 64 * n + q" "bit w q" | q where "r = 64 * n + (64 + q)" "qbit m q" by auto
    then show "r \<in> ?l"
      using low by cases (force simp: qbit_Cons)+
  qed
  ultimately show ?case
    using Cons [of "Suc n"] by (simp add: split sorted_wrt_append)
qed (simp add: word_qubits_def)

lemma mask_qubits_eq: "mask_qubits m = word_qubits 0 m" "length (mask_qubits m) = sum_list (map count_ones m)"
proof -
  show "mask_qubits m = word_qubits 0 m"
    using mask_qubits_props [of m] word_qubits_props [of 0 m] by (intro strict_sorted_equal) auto
  then show "length (mask_qubits m) = sum_list (map count_ones m)"
    using word_qubits_props [of 0 m] by simp
qed

lemma fold_mask_words:
  "fold (\<lambda>(w, word). mask_word_loop w word) (enumerate n m) st = fold store (map of_nat (word_qubits n m)) st"
proof (induction m arbitrary: n st)
  case (Cons w m)
  have "word_qubits n (w # m) = map (\<lambda>b. 64 * n + b) (bits_of w) @ word_qubits (Suc n) m"
    by (simp add: word_qubits_def)
  with Cons show ?case by (simp add: mask_word_loop_eq comp_def)
qed (simp add: word_qubits_def)

lemma on_support_ok:
  assumes "length (mask_qubits m) \<le> 2" "length m \<le> 2 ^ 26"
  shows "\<exists>p. on_support m = Some p \<and> lp_ok (length m) p \<and> lp_support p = mask_qubits m \<and> lp_deltas p = []"
proof -
  let ?qs = "mask_qubits m"
  have range: "q < 64 * length m \<and> unat (of_nat q :: u32) = q" if "q \<in> set ?qs" for q
  proof -
    have q: "q < 64 * length m" using that by (simp add: mask_qubits_def)
    then have "q < 2 ^ 32" using assms(2) by simp
    with q show ?thesis by (simp add: unat_of_nat)
  qed
  define p :: "complex local_ptm" where
    "p = \<lparr>lp_qubits = fst (fold store (map of_nat ?qs) (replicate 2 0, 0)), lp_k = of_nat (length ?qs), lp_deltas = []\<rparr>"
  have "on_support m = Some p"
    using assms(1)
    unfolding on_support_def Let_def p_def fold_mask_words mask_qubits_eq(1) [symmetric] mask_qubits_eq(2) [symmetric]
    by (simp add: MAX_LOCAL_SUPPORT_def)
  moreover have k: "unat (lp_k p) = length ?qs" using assms(1) by (simp add: p_def unat_of_nat)
  moreover have "length (lp_qubits p) = 2 \<and> lp_support p = ?qs"
  proof -
    consider "?qs = []" | q where "?qs = [q]" | q r where "?qs = [q, r]"
      using assms(1) by (cases ?qs rule: remdups_adj.cases) (auto simp: Suc_le_eq)
    then show ?thesis
      using range k by cases (auto simp: lp_support_def p_def store_def numeral_2_eq_2)
  qed
  ultimately show ?thesis
    using range assms(1) mask_qubits_props(2)
    by (auto simp: lp_ok_def lp_num_def MAX_LOCAL_SUPPORT_def p_def)
qed

section \<open>The probe\<close>

lemma local_image_value:
  "local_image W qs M k coeff ts \<Longrightarrow> wf_key W l \<Longrightarrow>
     terms_value ts l = (if agree_off qs k l then coeff * M (local_pattern qs k) (local_pattern qs l) else 0)"
  unfolding local_image_def by blast

lemma Complex_1: "Complex 1 0 = 1"
  by (simp add: complex_eq_iff)

lemma full_mask_loop:
  assumes "\<forall>q \<in> set qs. q < 64 * length m"
  shows "length (fold (\<lambda>q m. m[q div 64 := m ! (q div 64) OR push_bit (q mod 64) 1]) qs m) = length m"
    and "qbit (fold (\<lambda>q m. m[q div 64 := m ! (q div 64) OR push_bit (q mod 64) 1]) qs m) r \<longleftrightarrow> r \<in> set qs \<or> qbit m r"
  using assms
proof (induction qs arbitrary: m)
  case (Cons q qs)
  { case 1 then show ?case using Cons.IH(1) by (simp del: push_bit_of_1) }
  { case 2
    then have "q div 64 < length m" by (simp add: less_mult_imp_div_less mult.commute)
    note set = qbit_set_bit [OF this]
    show ?case using 2 Cons.IH(2) [of "m[q div 64 := m ! (q div 64) OR push_bit (q mod 64) 1]"] set
      by (auto simp del: push_bit_of_1) }
qed simp_all

lemma full_mask_ok:
  assumes "\<forall>q \<in> set qs. q < 64 * W"
  shows "length (full_mask W qs) = W" "qbit (full_mask W qs) r \<longleftrightarrow> r \<in> set qs"
  using full_mask_loop [of qs "replicate W 0"] assms by (simp_all add: full_mask_def)

lemma not_leaves_support:
  assumes "length as = W" "length bs = W" "length m = W" "\<And>q. \<not> qbit m q \<Longrightarrow> qbit as q = qbit bs q"
  shows "\<not> leaves_support as bs m"
proof -
  have "(as ! i XOR bs ! i) AND NOT (m ! i) = 0" if "i < W" for i
  proof (rule bit_word_eqI)
    fix n assume "n < LENGTH(64)"
    then have n: "n < 64" by simp
    then have "qbit as (64 * i + n) = bit (as ! i) n" "qbit bs (64 * i + n) = bit (bs ! i) n"
        "qbit m (64 * i + n) = bit (m ! i) n"
      using that assms(1-3) by (simp_all add: qbit_def)
    with assms(4) [of "64 * i + n"] n
    show "bit ((as ! i XOR bs ! i) AND NOT (m ! i)) n = bit 0 n"
      by (auto simp: bit_and_iff bit_xor_iff bit_not_iff)
  qed
  then show ?thesis
    using assms(1-3) by (auto simp: leaves_support_def list_ex_length)
qed

lemma probe_outputs_ok:
  assumes "lp_ok W p" "wf_key W inp" "length row = LOCAL_DIM"
    "\<forall>t \<in> set ts. wf_key W (fst t) \<and> agree_off (lp_support p) inp (fst t)"
  shows "\<exists>row'. probe_outputs p (full_mask W (lp_support p)) inp ts row = Some row' \<and> length row' = LOCAL_DIM \<and>
    (\<forall>t < LOCAL_DIM. row' ! t = row ! t + (\<Sum>(k, c)\<leftarrow>ts. if local_pattern (lp_support p) k = t then c else 0))"
  using assms(3,4)
proof (induction ts arbitrary: row)
  case (Cons u ts)
  obtain k c where u: "u = (k, c)" by (cases u)
  have k: "wf_key W k" "agree_off (lp_support p) inp k" using Cons.prems(2) by (simp_all add: u)
  have q: "\<forall>q \<in> set (lp_support p). q < 64 * W" using assms(1) by (simp add: lp_ok_def)
  have "\<not> leaves_support (fst k) (fst inp) (full_mask W (lp_support p))"
      "\<not> leaves_support (snd k) (snd inp) (full_mask W (lp_support p))"
    using k assms(2) by (intro not_leaves_support; simp add: wf_key_def full_mask_ok [OF q] agree_off_def)+
  moreover have t: "support_bits p (fst k) (snd k) = local_pattern (lp_support p) k"
      "local_pattern (lp_support p) k < LOCAL_DIM"
    using support_bits_eq [OF assms(1), of "fst k" "snd k"] k(1)
      local_pattern_bound [of "lp_support p" k] lp_ok_dim [OF assms(1)] by auto
  moreover obtain row' where "probe_outputs p (full_mask W (lp_support p)) inp ts
        (row[local_pattern (lp_support p) k := row ! local_pattern (lp_support p) k + c]) = Some row'"
      "length row' = LOCAL_DIM"
      "\<And>t. t < LOCAL_DIM \<Longrightarrow> row' ! t = row[local_pattern (lp_support p) k := row ! local_pattern (lp_support p) k + c] ! t +
        (\<Sum>(k, c)\<leftarrow>ts. if local_pattern (lp_support p) k = t then c else 0)"
    using Cons.IH [of "row[local_pattern (lp_support p) k := row ! local_pattern (lp_support p) k + c]"] Cons.prems
    by (auto simp: u)
  ultimately show ?case
    using Cons.prems(1) by (auto simp: u nth_list_update)
qed simp

text \<open>
  The contract of \<open>Channel\<close>: the declared support holds at most two qubits, the outputs of a term differ from it
  there only, and their amplitudes depend on the term through its pattern there, in both directions.
\<close>

locale bounded_channel =
  fixes W :: nat
    and ch :: channel
    and m :: words
    and M :: "bool \<Rightarrow> nat \<Rightarrow> nat \<Rightarrow> complex"
  assumes support: "ch_support ch W = Inr m" "length m = W" "W \<le> 2 ^ 26" "length (mask_qubits m) \<le> 2"
    and applies: "wf_key W k \<Longrightarrow>
      \<exists>out. (if adjoint then ch_apply_adjoint ch else ch_apply ch) (fst k) (snd k) coeff ob_new = Inr out \<and>
        local_image W (mask_qubits m) (M adjoint) k coeff (ob_terms out)"
begin

lemma probe_row_ok:
  assumes "lp_ok W p" "lp_support p = mask_qubits m" "s < 4 ^ lp_num p"
  shows "\<exists>row. probe_row W ch p adjoint False s = Inr (Some row) \<and> length row = LOCAL_DIM \<and>
    (\<forall>t < 4 ^ lp_num p. row ! t = M adjoint s t)"
proof -
  let ?qs = "mask_qubits m"
  let ?l = "\<lambda>t. lift_delta W p (of_nat t)"
  have lift: "wf_key W (?l t)" "agree_off ?qs (zero_key W) (?l t)" "local_pattern ?qs (?l t) = t" if "t < 4 ^ lp_num p" for t
    using lift_delta_ok [OF assms(1) that] by (simp_all add: is_overwritten_def assms(2))
  obtain out where out: "(if adjoint then ch_apply_adjoint ch else ch_apply ch) (fst (?l s)) (snd (?l s)) 1 ob_new = Inr out"
      "local_image W ?qs (M adjoint) (?l s) 1 (ob_terms out)"
    using applies [OF lift(1) [OF assms(3)]] by blast
  have ts: "\<forall>t \<in> set (ob_terms out). wf_key W (fst t) \<and> agree_off (lp_support p) (?l s) (fst t)"
    using out(2) by (simp add: local_image_def assms(2))
  from probe_outputs_ok [OF assms(1) lift(1) [OF assms(3)] length_replicate ts] obtain row where
    row: "probe_outputs p (full_mask W (lp_support p)) (?l s) (ob_terms out) (replicate LOCAL_DIM 0) = Some row"
      "length row = LOCAL_DIM"
      "\<And>t. t < LOCAL_DIM \<Longrightarrow> row ! t = (\<Sum>(k, c)\<leftarrow>ob_terms out. if local_pattern (lp_support p) k = t then c else 0)"
    by force
  have "row ! t = M adjoint s t" if t: "t < 4 ^ lp_num p" for t
  proof -
    have agree: "agree_off ?qs (?l s) (?l t)"
      using lift(2) [OF assms(3)] lift(2) [OF t] by (metis agree_off_sym agree_off_trans)
    have same: "local_pattern ?qs k = t \<longleftrightarrow> k = ?l t" if "wf_key W k" "agree_off ?qs (?l s) k" for k
      using key_eq_iff_pattern [OF that(1) lift(1) [OF t], of ?qs] lift(3) [OF t] agree that(2)
      by (metis agree_off_sym agree_off_trans)
    have "row ! t = terms_value (ob_terms out) (?l t)"
      unfolding terms_value_def
      using row(3) [of t] t lp_ok_dim(3) [OF assms(1)] same ts
      by (auto simp: assms(2) intro!: arg_cong [of _ _ sum_list] map_cong)
    also have "\<dots> = M adjoint s t"
      using local_image_value [OF out(2) lift(1) [OF t]] lift(3) [OF t] lift(3) [OF assms(3)] agree by simp
    finally show ?thesis .
  qed
  then show ?thesis
    using out(1) row(1,2) by (auto simp: probe_row_def probe_input_def Let_def split_def Complex_1)
qed

lemma probe_rows_ok:
  assumes "lp_ok W p" "lp_support p = mask_qubits m" "\<forall>s \<in> set ss. s < 4 ^ lp_num p" "distinct ss"
    "length table = LOCAL_DIM"
  shows "\<exists>table'. probe_rows W ch p adjoint False ss table = Inr (Some table') \<and>
    (\<forall>s \<in> set ss. \<forall>t < 4 ^ lp_num p. table' ! s ! t = M adjoint s t) \<and>
    (\<forall>s. s \<notin> set ss \<longrightarrow> table' ! s = table ! s) \<and> length table' = LOCAL_DIM"
  using assms(3-5)
proof (induction ss arbitrary: table)
  case (Cons s ss)
  obtain row where row: "probe_row W ch p adjoint False s = Inr (Some row)" "\<forall>t < 4 ^ lp_num p. row ! t = M adjoint s t"
    using probe_row_ok [OF assms(1,2), of s adjoint] Cons.prems(1) by auto
  obtain table' where IH: "probe_rows W ch p adjoint False ss (table[s := row]) = Inr (Some table')"
      "\<forall>s \<in> set ss. \<forall>t < 4 ^ lp_num p. table' ! s ! t = M adjoint s t"
      "\<forall>r. r \<notin> set ss \<longrightarrow> table' ! r = table[s := row] ! r" "length table' = LOCAL_DIM"
    using Cons.IH [of "table[s := row]"] Cons.prems by auto
  have "s < LOCAL_DIM" using Cons.prems(1) lp_ok_dim(3) [OF assms(1)] by auto
  with row IH Cons.prems(2,3) show ?case by auto
qed simp

lemma derive_sound:
  "\<exists>p. derive_local W ch h adjoint = Inr (Some (Local p)) \<and> lp_support p = mask_qubits m \<and> lp_ok W p \<and> buckets_ok W h p \<and>
     (\<forall>k c. wf_key W k \<longrightarrow> local_image W (mask_qubits m) (M adjoint) k c (emit_all complex_coefficient p k c))"
proof -
  have m: "length (mask_qubits m) \<le> 2" "length m \<le> 2 ^ 26" using support by simp_all
  from on_support_ok [OF m] support(2) obtain p where
    p: "on_support m = Some p" "lp_ok W p" "lp_support p = mask_qubits m" "lp_deltas p = []"
    by auto
  note d = lp_ok_dim [OF p(2)]
  obtain table where table: "probe_table W ch p adjoint False = Inr (Some table)"
      "\<forall>s < 4 ^ lp_num p. \<forall>t < 4 ^ lp_num p. table ! s ! t = M adjoint s t"
    using probe_rows_ok [OF p(2,3), of "[0..<4 ^ lp_num p]" "replicate LOCAL_DIM (replicate LOCAL_DIM 0)" adjoint]
    unfolding probe_table_def d(2) by auto
  define q where "q = push_deltas W p table h"
  have "local_image W (mask_qubits m) (M adjoint) k c (emit_all complex_coefficient q k c)" if "wf_key W k" for k c
  proof -
    have emits: "local_image W (lp_support p) (\<lambda>s t. table ! s ! t) (fst k, snd k) c
        (emit_all complex_coefficient q (fst k, snd k) c)"
      unfolding q_def using p(2,4) that by (intro push_deltas_emits) simp_all
    have "local_pattern (lp_support p) l < 4 ^ lp_num p" for l
      using local_pattern_bound [of "lp_support p" l] d(1) by simp
    with emits table(2) show ?thesis unfolding local_image_def p(3) [symmetric] by simp
  qed
  moreover have "derive_local W ch h adjoint = Inr (Some (Local q))"
    using p(1) table(1) by (simp add: derive_local_def support(1) q_def)
  moreover have "lp_support q = mask_qubits m" "lp_ok W q" "buckets_ok W h q"
    using p push_deltas_buckets by (simp_all add: q_def)
  ultimately show ?thesis by blast
qed

end

end
