(* ===== verification/Prepared_Channels.thy ===== *)
theory Prepared_Channels
  imports Prepared_Sound
begin

unbundle bit_operations_syntax

text \<open>
  The two built-in channels satisfy the contract of \<open>Channel\<close>, so their prepared forms are sound: the table a
  \<open>PtmChannel\<close> tabulates without probing is the one the probe finds, and a rotation's prepared form, local or
  wide, emits what \<open>apply\<close> pushes. Every emitted row lands in a bucket its delta predicts.
\<close>

section \<open>Support masks\<close>

lemma qubit_mask_loop_eq:
  assumes "\<forall>q \<in> set qs. q < 64 * length acc"
  shows "qubit_mask_loop qs (64 * length acc) acc =
    Inr (fold (\<lambda>q m. m[q div 64 := m ! (q div 64) OR push_bit (q mod 64) 1]) qs acc)"
  using assms
proof (induction qs arbitrary: acc)
  case (Cons q qs)
  have "q div 64 < length acc" using Cons.prems by (simp add: less_mult_imp_div_less mult.commute)
  with Cons.prems Cons.IH [of "acc[q div 64 := acc ! (q div 64) OR push_bit (q mod 64) 1]"] show ?case
    by (simp add: qubit_bit_def del: push_bit_of_1)
qed simp

lemma support_mask_eq: "\<forall>q \<in> set qs. q < 64 * W \<Longrightarrow> support_mask W qs = Inr (full_mask W qs)"
  using qubit_mask_loop_eq [of qs "replicate W 0"]
  by (simp add: support_mask_def qubit_mask_def full_mask_def del: push_bit_of_1)

lemma mask_qubits_full_mask:
  assumes "\<forall>q \<in> set qs. q < 64 * W" "distinct qs"
  shows "mask_qubits (full_mask W qs) = sort qs"
proof (rule strict_sorted_equal)
  show "sorted_wrt (<) (sort qs)" using assms(2) by (simp add: strict_sorted_iff)
qed (simp_all add: mask_qubits_props full_mask_ok [OF assms(1)])

section \<open>Pauli-transfer channels\<close>

locale ptm_on_width =
  fixes W :: nat and c :: ptm_channel
  assumes wf: "wf_ptm c" and fits: "ptm_fits W c" and width: "W \<le> 2 ^ 26"
begin

lemma qubits_below: "\<forall>q \<in> set (ptm_qubits c). q < 64 * W"
  using fits by (simp add: ptm_fits_def)

lemma mask_eq: "mask_qubits (full_mask W (ptm_qubits c)) = sort (ptm_qubits c)"
  using mask_qubits_full_mask [OF qubits_below] wf by (simp add: wf_ptm_def)

end

lemma local_image_sorted:
  assumes "wf_ptm c" "local_image W (ptm_qubits c) (row_amplitude c adjoint) k coeff ts"
  shows "local_image W (sort (ptm_qubits c))
    (\<lambda>s t. row_amplitude c adjoint (reorder (ptm_reversed c) s) (reorder (ptm_reversed c) t)) k coeff ts"
  using assms(2) agree_off_perm [of "sort (ptm_qubits c)" "ptm_qubits c"]
  unfolding local_image_def reorder_sorted [OF assms(1)] by simp

sublocale ptm_on_width \<subseteq> bounded_channel W "ptm_as_channel c" "full_mask W (ptm_qubits c)"
  "\<lambda>adjoint s t. row_amplitude c adjoint (reorder (ptm_reversed c) s) (reorder (ptm_reversed c) t)"
proof
  show "ch_support (ptm_as_channel c) W = Inr (full_mask W (ptm_qubits c))"
    by (simp add: ptm_as_channel_def support_mask_eq [OF qubits_below])
  show "length (full_mask W (ptm_qubits c)) = W" by (rule full_mask_ok(1) [OF qubits_below])
  show "W \<le> 2 ^ 26" by (rule width)
  show "length (mask_qubits (full_mask W (ptm_qubits c))) \<le> 2"
    using wf_ptm_dimension(4) [OF wf] by (auto simp: mask_eq)
  fix k adjoint coeff
  assume "wf_key W k"
  then have "wf_key W (fst k, snd k)" by simp
  from apply_rows_ok [OF wf fits this, of ob_new adjoint coeff]
  obtain out where out: "apply_rows c adjoint (fst k) (snd k) coeff ob_new = Inr out"
      "local_image W (ptm_qubits c) (row_amplitude c adjoint) k coeff (ob_terms out)"
    by auto
  from local_image_sorted [OF wf out(2)] out(1)
  show "\<exists>out. (if adjoint then ch_apply_adjoint (ptm_as_channel c) else ch_apply (ptm_as_channel c)) (fst k) (snd k) coeff
        ob_new = Inr out \<and>
      local_image W (mask_qubits (full_mask W (ptm_qubits c)))
       (\<lambda>s t. row_amplitude c adjoint (reorder (ptm_reversed c) s) (reorder (ptm_reversed c) t)) k coeff (ob_terms out)"
    by (auto simp: ptm_as_channel_def mask_eq)
qed

text \<open>The smallest width and gate: the contract can be met.\<close>

interpretation example_ptm: ptm_on_width 1 example_gate
  by unfold_locales (rule example_gate_wf, rule example_gate_wf, simp)

lemma push_deltas_cong:
  assumes "lp_ok W p" "\<And>s t. s < 4 ^ lp_num p \<Longrightarrow> t < 4 ^ lp_num p \<Longrightarrow> table ! s ! t = table' ! s ! t"
  shows "push_deltas W p table h = push_deltas W p table' h"
proof -
  note d = lp_ok_dim [OF assms(1)]
  have xor: "table ! s ! (s XOR e) = table' ! s ! (s XOR e)" if "s < 4 ^ lp_num p" "e < 4 ^ lp_num p" for s e
    using assms(2) xor_less_power that by blast
  have "delta_for W p table h e = delta_for W p table' h e" if "e < 4 ^ lp_num p" for e
    unfolding delta_for_def d(2) using xor that by (auto split: prod.splits)
  moreover have "realized_deltas (4 ^ lp_num p) table ! e = realized_deltas (4 ^ lp_num p) table' ! e"
    if "e < 4 ^ lp_num p" for e
    unfolding realized_deltas_iff [OF that d(3)] using xor that by auto
  ultimately have "map (delta_for W p table h) (filter ((!) (realized_deltas (4 ^ lp_num p) table)) [0..<4 ^ lp_num p]) =
      map (delta_for W p table' h) (filter ((!) (realized_deltas (4 ^ lp_num p) table')) [0..<4 ^ lp_num p])"
    by (intro map_cong filter_cong) auto
  then show ?thesis unfolding push_deltas_eq d(2) by (simp only:)
qed

context ptm_on_width
begin

lemma prepare_is_probe:
  "prepare_ptm W c h adjoint = derive_local W (ptm_as_channel c) h adjoint"
proof -
  let ?m = "full_mask W (ptm_qubits c)"
  have m: "length (mask_qubits ?m) \<le> 2" "length ?m \<le> 2 ^ 26" using support by simp_all
  from on_support_ok [OF m] support(2) obtain p where
    p: "on_support ?m = Some p" "lp_ok W p" "lp_support p = mask_qubits ?m"
    by auto
  note d = lp_ok_dim [OF p(2)]
  obtain table where table: "probe_table W (ptm_as_channel c) p adjoint False = Inr (Some table)"
      "\<forall>s < 4 ^ lp_num p. \<forall>t < 4 ^ lp_num p. table ! s ! t =
         row_amplitude c adjoint (reorder (ptm_reversed c) s) (reorder (ptm_reversed c) t)"
    using probe_rows_ok [OF p(2,3), of "[0..<4 ^ lp_num p]" "replicate LOCAL_DIM (replicate LOCAL_DIM 0)" adjoint]
    unfolding probe_table_def d(2) by auto
  have "push_deltas W p table h = push_deltas W p (transfer_matrix c adjoint) h"
    using table(2) d(3) transfer_matrix_nth [OF wf] by (intro push_deltas_cong [OF p(2)]) simp
  then show ?thesis
    using p(1) table(1) by (simp add: prepare_ptm_def from_transfer_matrix_def derive_local_def support(1))
qed

end

section \<open>Rotations\<close>

text \<open>
  Off the generator's support the product neither contributes a phase nor decides commutation, so a rotation
  depends on a key through its pattern there.
\<close>

lemma qbit_or_words: "length as = length bs \<Longrightarrow> qbit (or_words as bs) q \<longleftrightarrow> qbit as q \<or> qbit bs q"
  by (auto simp: qbit_def or_words_def bit_or_iff)

lemma rotation_support_qubits:
  assumes "wf_ps W (rot_generator r)"
  shows "set (mask_qubits (rotation_support r)) =
      {q. qbit (ps_x (rot_generator r)) q \<or> qbit (ps_z (rot_generator r)) q}"
    and "length (rotation_support r) = W" "length (mask_qubits (rotation_support r)) = rotation_weight r"
proof -
  show "length (rotation_support r) = W" using assms by (simp add: rotation_support_def or_words_def wf_ps_def)
  show "set (mask_qubits (rotation_support r)) =
      {q. qbit (ps_x (rot_generator r)) q \<or> qbit (ps_z (rot_generator r)) q}"
    using assms by (simp add: mask_qubits_props rotation_support_def wf_ps_def qbit_or_words)
  show "length (mask_qubits (rotation_support r)) = rotation_weight r"
    unfolding mask_qubits_eq(2) by (simp add: rotation_weight_def weight_def rotation_support_def or_words_def comp_def split_def)
qed

lemma same_pattern_phase:
  assumes "local_pattern qs k = local_pattern qs k'" "\<And>q. q \<notin> set qs \<Longrightarrow> \<not> qbit (fst g) q \<and> \<not> qbit (snd g) q"
  shows "key_phase n k g = key_phase n k' g" "symplectic n k g = symplectic n k' g"
proof -
  have eq: "qbit (fst k) q = qbit (fst k') q" "qbit (snd k) q = qbit (snd k') q"
    if "qbit (fst g) q \<or> qbit (snd g) q" for q
    using assms that unfolding local_pattern_eq_iff by blast+
  show "key_phase n k g = key_phase n k' g"
    unfolding key_phase_def
  proof (rule sum.cong)
    fix q
    show "qubit_phase (qbit (fst k) q) (qbit (snd k) q) (qbit (fst g) q) (qbit (snd g) q) =
        qubit_phase (qbit (fst k') q) (qbit (snd k') q) (qbit (fst g) q) (qbit (snd g) q)"
      using eq [of q] by (cases "qbit (fst g) q \<or> qbit (snd g) q") (auto simp: qubit_phase_def)
  qed simp
  show "symplectic n k g = symplectic n k' g"
    unfolding symplectic_def using eq by (intro sum.cong) auto
qed

lemma key_of_pair [simp]: "key_of \<lparr>ps_x = fst k, ps_z = snd k\<rparr> = k"
  by (simp add: key_of_def)

text \<open>The value of the pushed terms, in key arithmetic.\<close>

lemma rotation_terms_value:
  fixes r W theta
  assumes "wf_ps W (rot_generator r)" "wf_key W k"
  defines "g \<equiv> key_of (rot_generator r)" and "s \<equiv> fst (rot_sin_cos theta)" and "c \<equiv> snd (rot_sin_cos theta)"
  shows "terms_value (rotation_terms r theta k coeff) l =
    (if even (symplectic (64 * W) k g) then (if k = l then coeff else 0)
     else (if k = l then coeff * complex_of_real c else 0) +
       (if xor_key k g = l then coeff * (\<i> * i_pow (key_phase (64 * W) k g)) * complex_of_real s else 0))"
proof -
  let ?p = "\<lparr>ps_x = fst k, ps_z = snd k\<rparr>"
  have p: "wf_ps W ?p" using assms(2) by (simp add: wf_ps_def wf_key_def)
  have "key_of (fst (mul_assign ?p (rot_generator r))) = xor_key k g"
      "phase_value (snd (mul_assign ?p (rot_generator r))) = i_pow (key_phase (64 * W) k g)"
    using mul_assign_closed [OF p assms(1)] by (simp_all add: g_def phase_value_def i_pow_mod_4)
  moreover have "commutes_with ?p (rot_generator r) \<longleftrightarrow> even (symplectic (64 * W) k g)"
    using commutes_with_iff [OF p assms(1)] by (simp add: g_def)
  ultimately show ?thesis
    unfolding rotation_terms_def Let_def s_def c_def by (simp add: terms_value_def)
qed

lemma xor_generator_agrees:
  assumes "wf_key W k" "wf_key W g" "\<And>q. q \<notin> set qs \<Longrightarrow> \<not> qbit (fst g) q \<and> \<not> qbit (snd g) q"
  shows "agree_off qs k (xor_key k g)"
  using assms by (intro agree_off_xor) (auto simp: agree_off_def zero_key_def)

text \<open>The local matrix of a rotation: its value between two keys that vanish off the support.\<close>

definition rotation_matrix :: "nat \<Rightarrow> pauli_rotation \<Rightarrow> bool \<Rightarrow> nat \<Rightarrow> nat \<Rightarrow> complex" where
  "rotation_matrix W r adjoint s t =
     (let p = the (on_support (rotation_support r))
      in terms_value (rotation_terms r (if adjoint then - rot_theta r else rot_theta r) (lift_delta W p (of_nat s)) 1)
           (lift_delta W p (of_nat t)))"

locale narrow_rotation =
  fixes W :: nat and r :: pauli_rotation
  assumes generator: "wf_ps W (rot_generator r)" and narrow: "rotation_weight r \<le> MAX_LOCAL_SUPPORT"
    and width: "W \<le> 2 ^ 26"
begin

lemma rotation_image:
  assumes "wf_key W k"
  shows "local_image W (mask_qubits (rotation_support r)) (rotation_matrix W r adjoint) k coeff
    (rotation_terms r (if adjoint then - rot_theta r else rot_theta r) k coeff)"
proof -
  let ?qs = "mask_qubits (rotation_support r)" and ?g = "key_of (rot_generator r)"
  let ?th = "if adjoint then - rot_theta r else rot_theta r"
  note sup = rotation_support_qubits [OF generator]
  obtain p where p: "on_support (rotation_support r) = Some p" "lp_ok W p" "lp_support p = ?qs"
    using on_support_ok [of "rotation_support r"] narrow width sup by (auto simp: MAX_LOCAL_SUPPORT_def)
  let ?c = "\<lambda>l. lift_delta W p (of_nat (local_pattern ?qs l))"
  have bound: "local_pattern ?qs l < 4 ^ lp_num p" for l
    using local_pattern_bound [of ?qs l] lp_ok_dim(1) [OF p(2)] p(3) by simp
  have canon: "wf_key W (?c l)" "agree_off ?qs (zero_key W) (?c l)" "local_pattern ?qs (?c l) = local_pattern ?qs l" for l
    using lift_delta_ok [OF p(2) bound] p(3) by (simp_all add: is_overwritten_def)
  have g: "wf_key W ?g" using generator by (simp add: wf_key_def wf_ps_def key_of_def)
  have off: "\<not> qbit (fst ?g) q \<and> \<not> qbit (snd ?g) q" if "q \<notin> set ?qs" for q
    using that sup(1) by (simp add: key_of_def)
  have out: "wf_key W (xor_key k ?g)" "agree_off ?qs k (xor_key k ?g)" if "wf_key W k" for k
    using xor_generator_agrees [OF that g off] wf_xor_key [OF that g] by simp_all
  have val: "terms_value (rotation_terms r ?th k coeff) l = coeff * rotation_matrix W r adjoint (local_pattern ?qs k) (local_pattern ?qs l)"
    if l: "wf_key W l" "agree_off ?qs k l" for l
  proof -
    have same: "k = l \<longleftrightarrow> ?c k = ?c l"
      using key_eq_iff_pattern [OF assms l(1), of ?qs] key_eq_iff_pattern [OF canon(1) [of k] canon(1) [of l], of ?qs] l(2)
        canon(2,3) by (metis agree_off_sym agree_off_trans)
    have moved: "xor_key k ?g = l \<longleftrightarrow> xor_key (?c k) ?g = ?c l"
    proof -
      have "agree_off ?qs (xor_key k ?g) l" "agree_off ?qs (xor_key (?c k) ?g) (?c l)"
        using out(2) [OF assms] out(2) [OF canon(1) [of k]] l(2) canon(2) by (metis agree_off_sym agree_off_trans)+
      then show ?thesis
        using key_eq_iff_pattern [OF out(1) [OF assms] l(1), of ?qs]
          key_eq_iff_pattern [OF out(1) [OF canon(1) [of k]] canon(1) [of l], of ?qs]
          local_pattern_xor [OF assms g, of ?qs] local_pattern_xor [OF canon(1) [of k] g, of ?qs] canon(3)
        by simp
    qed
    note phase = same_pattern_phase [OF canon(3) [of k, symmetric] off]
    show ?thesis
      unfolding rotation_matrix_def p(1) option.sel Let_def
        rotation_terms_value [OF generator assms] rotation_terms_value [OF generator canon(1)]
      using same moved phase [of "64 * W"] by (auto simp: algebra_simps)
  qed
  have keys: "wf_key W (fst t) \<and> agree_off ?qs k (fst t)" if "t \<in> set (rotation_terms r ?th k coeff)" for t
  proof -
    let ?p = "\<lparr>ps_x = fst k, ps_z = snd k\<rparr>"
    have "wf_ps W ?p" using assms by (simp add: wf_ps_def wf_key_def)
    then have "key_of (fst (mul_assign ?p (rot_generator r))) = xor_key k ?g"
      using mul_assign_closed [OF _ generator] by simp
    with that out [OF assms] assms show ?thesis by (auto simp: rotation_terms_def Let_def split: if_splits)
  qed
  have zero: "terms_value (rotation_terms r ?th k coeff) l = 0" if "wf_key W l" "\<not> agree_off ?qs k l" for l
    unfolding terms_value_def using keys that by (intro sum_list_zeroI) (auto split: prod.splits)
  show ?thesis
    unfolding local_image_def using keys val zero by auto
qed

end

sublocale narrow_rotation \<subseteq> bounded_channel W "rotation_as_channel r" "rotation_support r" "rotation_matrix W r"
proof
  show "ch_support (rotation_as_channel r) W = Inr (rotation_support r)" by (simp add: rotation_as_channel_def)
  show "length (rotation_support r) = W" by (rule rotation_support_qubits(2) [OF generator])
  show "W \<le> 2 ^ 26" by (rule width)
  show "length (mask_qubits (rotation_support r)) \<le> 2"
    using rotation_support_qubits(3) [OF generator] narrow by (simp add: MAX_LOCAL_SUPPORT_def)
  fix k adjoint coeff
  assume "wf_key W k"
  from rotation_image [OF this, of adjoint coeff]
  show "\<exists>out. (if adjoint then ch_apply_adjoint (rotation_as_channel r) else ch_apply (rotation_as_channel r)) (fst k) (snd k)
        coeff ob_new = Inr out \<and>
      local_image W (mask_qubits (rotation_support r)) (rotation_matrix W r adjoint) k coeff (ob_terms out)"
    by (simp add: rotation_as_channel_def apply_with_theta_terms(2) split: if_splits)
qed

section \<open>Emission from the prepared form\<close>

text \<open>
  The rows the engine gathers for one term: every delta of a local table, or the kept row and the generator's.
\<close>

definition prepared_emit :: "'c coefficient \<Rightarrow> 'c prepared \<Rightarrow> key \<Rightarrow> 'c \<Rightarrow> (key \<times> 'c) list" where
  "prepared_emit C pr k c =
     (case pr of
        Local p \<Rightarrow> emit_all C p k c
      | Rotation r \<Rightarrow>
          (k, if commutes_with \<lparr>ps_x = fst k, ps_z = snd k\<rparr> (rt_generator r) then c else c_mul_real C c (rt_cos r)) #
          (case emit_generator C r (fst k) (snd k) c of None \<Rightarrow> [] | Some row \<Rightarrow> [row]))"

lemma emit_all_bucket:
  assumes "wf_key W k" "buckets_ok W h p" "row \<in> set (emit_all C p k c)"
  shows "\<exists>d \<in> set (prepared_bucket_deltas (Local p)). bucket_of h (fst row) = bucket_of h k XOR d"
proof -
  from assms(3) obtain d where d: "d \<in> set (lp_deltas p)" "fst row = xor_key k (de_mask d)"
    by (auto simp: emit_all_def emit_def de_mask_def map_filter_def Let_def xor_key_def split: if_splits)
  then show ?thesis
    using bucket_of_xor [OF assms(1)] assms(2)
    by (auto simp: buckets_ok_def prepared_bucket_deltas_def local_bucket_deltas_def)
qed

context bounded_channel
begin

lemma derive_prepares:
  assumes "wf_key W k"
  shows "\<exists>pr out. derive_local W ch h adjoint = Inr (Some pr) \<and>
    (if adjoint then ch_apply_adjoint ch else ch_apply ch) (fst k) (snd k) c ob_new = Inr out \<and>
    (\<forall>l. wf_key W l \<longrightarrow> terms_value (prepared_emit complex_coefficient pr k c) l = terms_value (ob_terms out) l) \<and>
    (\<forall>row \<in> set (prepared_emit complex_coefficient pr k c).
       \<exists>d \<in> set (prepared_bucket_deltas pr). bucket_of h (fst row) = bucket_of h k XOR d)"
proof -
  obtain p where p: "derive_local W ch h adjoint = Inr (Some (Local p))" "buckets_ok W h p"
      "local_image W (mask_qubits m) (M adjoint) k c (emit_all complex_coefficient p k c)"
    using derive_sound [of h adjoint] assms by blast
  obtain out where out: "(if adjoint then ch_apply_adjoint ch else ch_apply ch) (fst k) (snd k) c ob_new = Inr out"
      "local_image W (mask_qubits m) (M adjoint) k c (ob_terms out)"
    using applies [OF assms] by blast
  have "terms_value (emit_all complex_coefficient p k c) l = terms_value (ob_terms out) l" if "wf_key W l" for l
    using local_image_value [OF p(3) that] local_image_value [OF out(2) that] by simp
  with p(1) out(1) emit_all_bucket [OF assms p(2)] show ?thesis
    by (intro exI [of _ "Local p"] exI [of _ out]) (simp add: prepared_emit_def)
qed

end

context ptm_on_width
begin

lemmas ptm_prepares = derive_prepares prepare_is_probe

end

text \<open>
  C28. The engine form of a Pauli-transfer channel, which \<open>prepare_for_layer\<close> tabulates from the transfer matrix without
  probing, is the one the generic probe of \<open>apply\<close> derives; for every term the rows it emits stand for the same
  combination as \<open>apply\<close> (or \<open>apply_adjoint\<close>), and every row lands in the bucket of the input shifted by one of
  \<open>bucket_deltas\<close>.
\<close>

theorem prepared_ptm_sound:
  assumes "wf_ptm ch" "ptm_fits W ch" "W \<le> 2 ^ 26" "wf_key W k"
  shows "\<exists>pr out. prepare_ptm W ch h adjoint = Inr (Some pr) \<and>
    derive_local W (ptm_as_channel ch) h adjoint = Inr (Some pr) \<and>
    (if adjoint then ch_apply_adjoint (ptm_as_channel ch) else ch_apply (ptm_as_channel ch)) (fst k) (snd k) c ob_new = Inr out \<and>
    (\<forall>l. wf_key W l \<longrightarrow> terms_value (prepared_emit complex_coefficient pr k c) l = terms_value (ob_terms out) l) \<and>
    (\<forall>row \<in> set (prepared_emit complex_coefficient pr k c).
       \<exists>d \<in> set (prepared_bucket_deltas pr). bucket_of h (fst row) = bucket_of h k XOR d)"
proof -
  have ptm: "ptm_on_width W ch" using assms(1-3) by unfold_locales
  show ?thesis
    using ptm_on_width.ptm_prepares(1) [OF ptm assms(4), of h adjoint c]
    by (simp add: ptm_on_width.ptm_prepares(2) [OF ptm])
qed

theorem prepared_ptm_sound_witness:
  "\<exists>pr. prepare_ptm 1 example_gate \<lparr>gh_matrix = \<lparr>rows_x = [[1]], rows_z = [[0]], gm_qubits = 1\<rparr>, gh_bits = 1, gh_seed = 0\<rparr>
     False = Inr (Some pr) \<and> terms_value (prepared_emit complex_coefficient pr ([1], [1]) 2) ([1], [1]) = - 2"
proof -
  have "wf_key 1 ([1], [1])" "local_pattern [0] ([1], [1]) = 3"
    by (simp_all add: wf_key_def qbit_def)
  moreover have "terms_value (ob_terms out) ([1], [1]) = - 2"
    if "ch_apply (ptm_as_channel example_gate) [1] [1] 2 ob_new = Inr out" for out
    using apply_rows_ok [OF example_gate_wf(1,4) calculation(1), of ob_new False 2] that calculation
    by (auto simp: ptm_as_channel_def local_image_def example_gate_wf(2) row_amplitude_def example_gate_amplitude
        perm_sign_def simp del: local_pattern_simps)
  ultimately show ?thesis
    using prepared_ptm_sound [OF example_gate_wf(1,4), where k = "([1], [1])" and adjoint = False and c = 2
        and h = "\<lparr>gh_matrix = \<lparr>rows_x = [[1]], rows_z = [[0]], gm_qubits = 1\<rparr>, gh_bits = 1, gh_seed = 0\<rparr>"]
    by fastforce
qed

context narrow_rotation
begin

lemmas rotation_prepares = derive_prepares

end

lemma wide_rotation_emits:
  fixes r W h adjoint
  assumes "wf_ps W (rot_generator r)" "wf_key W k"
  defines "pr \<equiv> Rotation \<lparr>rt_generator = rot_generator r,
      rt_cos = snd (rot_sin_cos (if adjoint then - rot_theta r else rot_theta r)),
      rt_sin = fst (rot_sin_cos (if adjoint then - rot_theta r else rot_theta r)), rt_delta_identity = 0,
      rt_delta_generator = bucket_of h (ps_x (rot_generator r), ps_z (rot_generator r))\<rparr>"
  shows "prepared_emit complex_coefficient pr k c = rotation_terms r (if adjoint then - rot_theta r else rot_theta r) k c"
    and "row \<in> set (prepared_emit complex_coefficient pr k c) \<Longrightarrow>
      \<exists>d \<in> set (prepared_bucket_deltas pr). bucket_of h (fst row) = bucket_of h k XOR d"
proof -
  let ?p = "\<lparr>ps_x = fst k, ps_z = snd k\<rparr>"
  show emits: "prepared_emit complex_coefficient pr k c = rotation_terms r (if adjoint then - rot_theta r else rot_theta r) k c"
    using wf_mul_assign_phase [of ?p "rot_generator r"]
    by (simp add: pr_def prepared_emit_def emit_generator_def rotation_terms_def Let_def split_def key_of_def
        complex_mul_phase phase_value_add) (simp add: phase_value_def)
  have p: "wf_ps W ?p" using assms(2) by (simp add: wf_ps_def wf_key_def)
  have g: "wf_key W (key_of (rot_generator r))" using assms(1) by (simp add: wf_key_def wf_ps_def key_of_def)
  have "key_of (fst (mul_assign ?p (rot_generator r))) = xor_key k (key_of (rot_generator r))"
    using mul_assign_closed [OF p assms(1)] by simp
  then have moved: "bucket_of h (key_of (fst (mul_assign ?p (rot_generator r)))) =
      bucket_of h k XOR bucket_of h (key_of (rot_generator r))"
    using bucket_of_xor [OF assms(2) g] by simp
  show "\<exists>d \<in> set (prepared_bucket_deltas pr). bucket_of h (fst row) = bucket_of h k XOR d"
    if row: "row \<in> set (prepared_emit complex_coefficient pr k c)"
    using row moved unfolding emits
    by (auto simp: rotation_terms_def Let_def pr_def prepared_bucket_deltas_def key_of_def split: if_splits)
qed

text \<open>
  C29. The engine form of a Pauli rotation of any weight, the probed table up to two qubits and the generator itself
  above, emits for every term rows that stand for the same combination as \<open>apply\<close> (or \<open>apply_adjoint\<close>), each in the
  bucket of the input shifted by one of \<open>bucket_deltas\<close>; preparing it never panics.
\<close>

theorem prepared_rotation_sound:
  assumes "wf_ps W (rot_generator r)" "W \<le> 2 ^ 26" "wf_key W k"
  shows "\<exists>pr out. prepare_rotation W r h adjoint = Inr (Some pr) \<and>
    (if adjoint then ch_apply_adjoint (rotation_as_channel r) else ch_apply (rotation_as_channel r)) (fst k) (snd k) c
      ob_new = Inr out \<and>
    (\<forall>l. wf_key W l \<longrightarrow> terms_value (prepared_emit complex_coefficient pr k c) l = terms_value (ob_terms out) l) \<and>
    (\<forall>row \<in> set (prepared_emit complex_coefficient pr k c).
       \<exists>d \<in> set (prepared_bucket_deltas pr). bucket_of h (fst row) = bucket_of h k XOR d)"
proof (cases "rotation_weight r \<le> MAX_LOCAL_SUPPORT")
  case True
  with assms(1,2) have "narrow_rotation W r" by unfold_locales
  from narrow_rotation.rotation_prepares [OF this assms(3), of h adjoint c] True show ?thesis
    by (simp add: prepare_rotation_def)
next
  case False
  let ?th = "if adjoint then - rot_theta r else rot_theta r"
  note wide = wide_rotation_emits [OF assms(1,3), where adjoint = adjoint and h = h and c = c]
  have out: "(if adjoint then ch_apply_adjoint (rotation_as_channel r) else ch_apply (rotation_as_channel r)) (fst k) (snd k) c
      ob_new = Inr (apply_with_theta r ?th (fst k) (snd k) c ob_new)"
    by (simp add: rotation_as_channel_def)
  have "ob_terms (apply_with_theta r ?th (fst k) (snd k) c ob_new) = rotation_terms r ?th k c"
    using apply_with_theta_terms(2) [of ob_new r ?th "fst k" "snd k" c] by simp
  with False wide out show ?thesis
    unfolding prepare_rotation_def by (simp add: split_def Let_def)
qed

text \<open>A narrow and a wide rotation: both forms occur.\<close>

interpretation example_rotation: narrow_rotation 1 "rotation_new \<lparr>ps_x = [0], ps_z = [1]\<rparr> theta" for theta
proof
  have "count_ones (1 :: u64) = 1" by code_simp
  then show "rotation_weight (rotation_new \<lparr>ps_x = [0], ps_z = [1]\<rparr> theta) \<le> MAX_LOCAL_SUPPORT"
    by (simp add: rotation_new_def rotation_weight_def weight_def MAX_LOCAL_SUPPORT_def)
qed (simp_all add: rotation_new_def wf_ps_def)

theorem prepared_rotation_sound_witness:
  "\<exists>pr. prepare_rotation 1 (rotation_new \<lparr>ps_x = [0], ps_z = [7]\<rparr> 1)
     \<lparr>gh_matrix = \<lparr>rows_x = [[1]], rows_z = [[0]], gm_qubits = 1\<rparr>, gh_bits = 1, gh_seed = 0\<rparr> False = Inr (Some pr)"
  using prepared_rotation_sound [of 1 "rotation_new \<lparr>ps_x = [0], ps_z = [7]\<rparr> 1" "([1], [0])"
      "\<lparr>gh_matrix = \<lparr>rows_x = [[1]], rows_z = [[0]], gm_qubits = 1\<rparr>, gh_bits = 1, gh_seed = 0\<rparr>" False 2]
  by (auto simp: rotation_new_def wf_ps_def wf_key_def)

end
