(* ===== verification/Gf2_Rank.thy ===== *)
theory Gf2_Rank
  imports Gf2_Hash
begin

unbundle bit_operations_syntax

text \<open>
  Correctness of the row-echelon basis of \<open>pauli_sum/hash.rs\<close>: the reduction loop terminates on every
  basis the code can build, \<open>insert\<close> accepts a row exactly when it is outside the span of the rows
  inserted before, and \<open>gf2_rank_wide\<close> is the dimension of the row space, so its \<open>2^rank\<close> is the number
  of distinct XOR combinations.
\<close>

section \<open>Leading columns\<close>

definition col_bit :: "nat \<Rightarrow> key \<Rightarrow> nat \<Rightarrow> bool" where
  "col_bit W row c \<longleftrightarrow> (if c < 64 * W then qbit (fst row) c else qbit (snd row) (c - 64 * W))"

lemma highest_bit_takeWhile:
  assumes "\<exists>j < n. P j"
  defines "l \<equiv> length (takeWhile (\<lambda>j. \<not> P j) (rev [0..<n]))"
  shows "l < n \<and> P (n - 1 - l) \<and> (\<forall>j. n - 1 - l < j \<and> j < n \<longrightarrow> \<not> P j)"
proof -
  have "l < length (rev [0..<n])"
    unfolding l_def by (rule length_takeWhile_less) (use assms(1) in auto)
  then have l: "l < n" by simp
  have "P (rev [0..<n] ! l)"
    using nth_length_takeWhile [of "\<lambda>j. \<not> P j" "rev [0..<n]"] l by (simp add: l_def)
  then have p: "P (n - 1 - l)" using l by (simp add: rev_nth)
  have "\<not> P j" if "n - 1 - l < j" "j < n" for j
  proof -
    have "n - 1 - j < l" using that by linarith
    then have "rev [0..<n] ! (n - 1 - j) \<in> set (takeWhile (\<lambda>j. \<not> P j) (rev [0..<n]))"
      unfolding l_def by (metis nth_mem takeWhile_nth)
    then have "\<not> P (rev [0..<n] ! (n - 1 - j))" by (rule set_takeWhileD [THEN conjunct2])
    then show ?thesis using that by (simp add: rev_nth)
  qed
  with l p show ?thesis by blast
qed

lemma highest_bit_word:
  fixes w :: "'a::len word"
  assumes "w \<noteq> 0"
  defines "h \<equiv> LENGTH('a) - 1 - leading_zeros w"
  shows "h < LENGTH('a)" "bit w h" "\<And>j. h < j \<Longrightarrow> \<not> bit w j"
proof -
  obtain j where j: "bit w j" using assms by (auto simp: bit_eq_iff)
  from bit_imp_le_length [OF j] j have "\<exists>j < LENGTH('a). bit w j" by blast
  from highest_bit_takeWhile [OF this]
  have *: "bit w h" "\<And>j. h < j \<Longrightarrow> j < LENGTH('a) \<Longrightarrow> \<not> bit w j"
    unfolding h_def leading_zeros_def by blast+
  show "h < LENGTH('a)" "bit w h" by (rule bit_imp_le_length [OF *(1)], rule *(1))
  show "\<not> bit w j" if "h < j" for j
    using *(2) [OF that] bit_imp_le_length [of w j] by blast
qed

lemma leading_in_spec:
  assumes "w \<le> length half"
  shows "case leading_in half w of
      None \<Rightarrow> \<forall>q < 64 * w. \<not> qbit half q
    | Some c \<Rightarrow> c < 64 * w \<and> qbit half c \<and> (\<forall>q. c < q \<and> q < 64 * w \<longrightarrow> \<not> qbit half q)"
  using assms
proof (induction w)
  case (Suc w)
  show ?case
  proof (cases "half ! w = 0")
    case True
    have "\<not> qbit half q" if "64 * w \<le> q" "q < 64 * Suc w" for q
    proof -
      from that have "q div 64 = w" by (intro div_nat_eqI) auto
      with True show ?thesis by (simp add: qbit_def)
    qed
    then have upper: "\<not> qbit half q" if "q < 64 * Suc w" "\<not> q < 64 * w" for q
      using that by simp
    have IH: "case leading_in half w of
        None \<Rightarrow> \<forall>q < 64 * w. \<not> qbit half q
      | Some c \<Rightarrow> c < 64 * w \<and> qbit half c \<and> (\<forall>q. c < q \<and> q < 64 * w \<longrightarrow> \<not> qbit half q)"
      using Suc by simp
    show ?thesis
    proof (cases "leading_in half w")
      case None
      with IH upper True show ?thesis by auto
    next
      case (Some c)
      with IH have c: "c < 64 * w" "qbit half c" "\<And>q. c < q \<Longrightarrow> q < 64 * w \<Longrightarrow> \<not> qbit half q"
        by auto
      have "\<not> qbit half q" if "c < q" "q < 64 * Suc w" for q
        using that c(3) upper by (cases "q < 64 * w") auto
      with Some True c show ?thesis by auto
    qed
  next
    case False
    let ?h = "63 - leading_zeros (half ! w)"
    have h: "?h < 64" "bit (half ! w) ?h" "\<And>j. ?h < j \<Longrightarrow> \<not> bit (half ! w) j"
      using highest_bit_word [OF False] by simp_all
    have "\<not> qbit half q" if q: "w * 64 + ?h < q" "q < 64 * Suc w" for q
    proof -
      from q have "q div 64 = w" by (intro div_nat_eqI) auto
      moreover from this have "?h < q mod 64" using q by (simp add: modulo_nat_def)
      ultimately show ?thesis using h by (auto simp: qbit_def)
    qed
    with h False Suc.prems show ?thesis by (auto simp: qbit_def)
  qed
qed simp

lemma qbit_all_zero: "length xs = W \<Longrightarrow> (\<forall>q < 64 * W. \<not> qbit xs q) \<longleftrightarrow> xs = replicate W 0"
  using words_eq_iff_qbit [of xs "replicate W 0"] by simp

lemma leading_column_None_iff:
  assumes "wf_key W v"
  shows "leading_column W v = None \<longleftrightarrow> v = zero_key W"
  using assms leading_in_spec [of W "snd v"] leading_in_spec [of W "fst v"]
    qbit_all_zero [of "fst v" W] qbit_all_zero [of "snd v" W]
  by (cases v) (auto simp: wf_key_def leading_column_def zero_key_def split: option.splits)

lemma leading_column_SomeD:
  assumes "wf_key W v" "leading_column W v = Some c"
  shows "c < 128 * W \<and> col_bit W v c \<and> (\<forall>d. c < d \<and> d < 128 * W \<longrightarrow> \<not> col_bit W v d)"
proof (cases "leading_in (snd v) W")
  case None
  then have "leading_in (fst v) W = Some c" using assms(2) by (simp add: leading_column_def)
  with assms(1) None leading_in_spec [of W "snd v"] leading_in_spec [of W "fst v"] show ?thesis
    by (auto simp: wf_key_def col_bit_def)
next
  case (Some b)
  then have c: "c = W * 64 + b" using assms(2) by (simp add: leading_column_def)
  have b: "b < 64 * W" "qbit (snd v) b" "\<And>q. b < q \<Longrightarrow> q < 64 * W \<Longrightarrow> \<not> qbit (snd v) q"
    using Some assms(1) leading_in_spec [of W "snd v"] by (auto simp: wf_key_def)
  have "\<not> col_bit W v d" if "c < d" "d < 128 * W" for d
    using that c b(3) [of "d - 64 * W"] by (simp add: col_bit_def)
  with b(1,2) c show ?thesis by (simp add: col_bit_def mult.commute)
qed

lemma leading_column_SomeI:
  assumes "wf_key W v" "c < 128 * W" "col_bit W v c"
    "\<And>d. c < d \<Longrightarrow> d < 128 * W \<Longrightarrow> \<not> col_bit W v d"
  shows "leading_column W v = Some c"
proof (cases "leading_column W v")
  case None
  then have "v = zero_key W" using assms(1) by (simp add: leading_column_None_iff)
  with assms(3) show ?thesis by (simp add: zero_key_def col_bit_def split: if_splits)
next
  case (Some d)
  from leading_column_SomeD [OF assms(1) this] assms(2-4) have "d = c"
    by (metis linorder_neqE_nat)
  with Some show ?thesis by simp
qed

lemma col_bit_xor:
  assumes "wf_key W u" "wf_key W v"
  shows "col_bit W (xor_key u v) c \<longleftrightarrow> col_bit W u c \<noteq> col_bit W v c"
  using assms by (simp add: col_bit_def xor_key_def wf_key_def qbit_xor_words)

lemma leading_column_xor_neq:
  assumes "wf_key W u" "wf_key W v" "leading_column W u = Some a" "leading_column W v = Some b"
    "a \<noteq> b"
  shows "leading_column W (xor_key u v) = Some (max a b)"
proof -
  note ua = leading_column_SomeD [OF assms(1,3)]
  note vb = leading_column_SomeD [OF assms(2,4)]
  show ?thesis
  proof (rule leading_column_SomeI)
    show "col_bit W (xor_key u v) (max a b)"
    proof (cases "a < b")
      case True
      with ua vb show ?thesis by (simp add: col_bit_xor assms max_def)
    next
      case False
      with \<open>a \<noteq> b\<close> have "b < a" by simp
      with ua vb show ?thesis by (simp add: col_bit_xor assms max_def)
    qed
  qed (use ua vb assms in \<open>auto simp: col_bit_xor\<close>)
qed

text \<open>The rank of a row in the termination argument: one more than its leading column.\<close>

definition lead_measure :: "nat \<Rightarrow> key \<Rightarrow> nat" where
  "lead_measure W v = (case leading_column W v of None \<Rightarrow> 0 | Some c \<Rightarrow> Suc c)"

lemma lead_measure_le: "wf_key W v \<Longrightarrow> lead_measure W v \<le> 128 * W"
  using leading_column_SomeD [of W v] by (auto simp: lead_measure_def split: option.splits)

lemma lead_measure_decreases:
  assumes "wf_key W u" "wf_key W v" "leading_column W u = Some c" "leading_column W v = Some c"
  shows "lead_measure W (xor_key u v) < lead_measure W u"
proof (cases "leading_column W (xor_key u v)")
  case (Some d)
  note x = leading_column_SomeD [OF wf_xor_key [OF assms(1,2)] Some]
  note ua = leading_column_SomeD [OF assms(1,3)]
  note vb = leading_column_SomeD [OF assms(2,4)]
  have "d < c"
  proof (rule ccontr)
    assume "\<not> d < c"
    with x ua vb show False
      by (cases "d = c") (auto simp: col_bit_xor [OF assms(1,2)])
  qed
  with Some assms show ?thesis by (simp add: lead_measure_def)
qed (use assms in \<open>simp add: lead_measure_def\<close>)

section \<open>The row space\<close>

inductive_set gf2_span :: "nat \<Rightarrow> key set \<Rightarrow> key set" for W :: nat and A :: "key set" where
  span_zero: "zero_key W \<in> gf2_span W A"
| span_add: "v \<in> gf2_span W A \<Longrightarrow> r \<in> A \<Longrightarrow> xor_key v r \<in> gf2_span W A"

definition wf_rows :: "nat \<Rightarrow> key set \<Rightarrow> bool" where
  "wf_rows W A \<longleftrightarrow> (\<forall>r \<in> A. wf_key W r)"

lemma wf_gf2_span: "v \<in> gf2_span W A \<Longrightarrow> wf_rows W A \<Longrightarrow> wf_key W v"
  by (induction rule: gf2_span.induct) (auto simp: wf_rows_def)

lemma gf2_span_base: "r \<in> A \<Longrightarrow> wf_rows W A \<Longrightarrow> r \<in> gf2_span W A"
  using span_add [OF span_zero, of r A W] by (simp add: wf_rows_def)

lemma gf2_span_xor:
  "v \<in> gf2_span W A \<Longrightarrow> u \<in> gf2_span W A \<Longrightarrow> wf_rows W A \<Longrightarrow> xor_key u v \<in> gf2_span W A"
proof (induction rule: gf2_span.induct)
  case (span_add v r)
  then have "xor_key (xor_key u v) r \<in> gf2_span W A" by (blast intro: gf2_span.span_add)
  then show ?case by (simp add: xor_key_assoc)
qed (simp add: wf_gf2_span)

lemma gf2_span_mono: "v \<in> gf2_span W A \<Longrightarrow> A \<subseteq> B \<Longrightarrow> v \<in> gf2_span W B"
  by (induction rule: gf2_span.induct) (auto intro: gf2_span.intros)

lemma gf2_span_subset:
  assumes "wf_rows W B" "\<And>r. r \<in> A \<Longrightarrow> r \<in> gf2_span W B"
  shows "gf2_span W A \<subseteq> gf2_span W B"
proof
  fix v assume "v \<in> gf2_span W A"
  then show "v \<in> gf2_span W B"
    by (induction rule: gf2_span.induct) (auto intro: gf2_span.intros gf2_span_xor assms)
qed

lemma gf2_span_insert_in:
  assumes "wf_rows W A" "r \<in> gf2_span W A"
  shows "gf2_span W (insert r A) = gf2_span W A"
proof -
  have wf: "wf_rows W (insert r A)"
    using assms wf_gf2_span [OF assms(2,1)] by (simp add: wf_rows_def)
  show ?thesis
    by (intro equalityI gf2_span_subset assms(1) wf)
      (use assms(2) in \<open>blast intro: gf2_span_base [OF _ assms(1)] gf2_span_base [OF _ wf]\<close>)+
qed

lemma gf2_span_insert:
  assumes "wf_rows W (insert r A)"
  shows "gf2_span W (insert r A) = gf2_span W A \<union> (\<lambda>v. xor_key v r) ` gf2_span W A"
    (is "_ = ?R")
proof (intro equalityI subsetI)
  have wf: "wf_rows W A" "wf_key W r" using assms by (auto simp: wf_rows_def)
  fix v assume "v \<in> gf2_span W (insert r A)"
  then show "v \<in> ?R"
  proof (induction rule: gf2_span.induct)
    case (span_add v s)
    have twice: "xor_key (xor_key u r) r = u" if "u \<in> gf2_span W A" for u
      using that wf by (intro xor_key_cancel) (auto dest: wf_gf2_span)
    have swap: "xor_key (xor_key u r) s = xor_key (xor_key u s) r" for u
      by (metis xor_key_assoc xor_key_commute)
    from span_add twice swap show ?case by (fastforce intro: gf2_span.span_add)
  qed (simp add: span_zero)
next
  fix v assume "v \<in> ?R"
  then show "v \<in> gf2_span W (insert r A)"
    by (auto intro: gf2_span_mono span_add)
qed

lemma finite_gf2_span: "finite A \<Longrightarrow> wf_rows W A \<Longrightarrow> finite (gf2_span W A)"
proof (induction A rule: finite_induct)
  case empty
  have "gf2_span W {} \<subseteq> {zero_key W}" by (auto elim: gf2_span.cases)
  then show ?case by (rule finite_subset) simp
next
  case (insert r A)
  then have "wf_rows W A" by (simp add: wf_rows_def)
  with insert show ?case by (simp add: gf2_span_insert)
qed

lemma card_gf2_span_insert:
  assumes "finite A" "wf_rows W (insert r A)" "r \<notin> gf2_span W A"
  shows "card (gf2_span W (insert r A)) = 2 * card (gf2_span W A)"
proof -
  have wf: "wf_rows W A" "wf_key W r" using assms(2) by (auto simp: wf_rows_def)
  have cancel: "xor_key (xor_key u r) r = u" if "u \<in> gf2_span W A" for u
    using that wf by (intro xor_key_cancel) (auto dest: wf_gf2_span)
  have "inj_on (\<lambda>v. xor_key v r) (gf2_span W A)"
    by (rule inj_on_inverseI [of _ "\<lambda>v. xor_key v r"]) (rule cancel)
  moreover have "gf2_span W A \<inter> (\<lambda>v. xor_key v r) ` gf2_span W A = {}"
  proof (rule ccontr)
    assume "gf2_span W A \<inter> (\<lambda>v. xor_key v r) ` gf2_span W A \<noteq> {}"
    then obtain u where u: "u \<in> gf2_span W A" "xor_key u r \<in> gf2_span W A" by auto
    then have "xor_key (xor_key u r) u \<in> gf2_span W A" by (rule gf2_span_xor [OF _ _ wf(1)])
    moreover have "xor_key (xor_key u r) u = r"
    proof -
      have "xor_key (xor_key u r) u = xor_key (xor_key r u) u" by (simp add: xor_key_commute [of u])
      also have "\<dots> = r" using u wf by (intro xor_key_cancel) (auto dest: wf_gf2_span)
      finally show ?thesis .
    qed
    ultimately show False using assms(3) by simp
  qed
  ultimately show ?thesis
    using finite_gf2_span [OF assms(1) wf(1)]
    by (simp add: gf2_span_insert [OF assms(2)] card_Un_disjoint card_image)
qed

section \<open>The basis invariant\<close>

definition basis_inv :: "nat \<Rightarrow> gf2_basis \<Rightarrow> bool" where
  "basis_inv W ps \<longleftrightarrow> distinct (map fst ps) \<and>
     (\<forall>(c, r) \<in> set ps. wf_key W r \<and> leading_column W r = Some c)"

lemma basis_inv_wf: "basis_inv W ps \<Longrightarrow> wf_rows W (snd ` set ps)"
  by (auto simp: basis_inv_def wf_rows_def)

lemma basis_inv_Cons:
  "basis_inv W ((c, r) # ps) \<longleftrightarrow>
     basis_inv W ps \<and> c \<notin> fst ` set ps \<and> wf_key W r \<and> leading_column W r = Some c"
  by (auto simp: basis_inv_def)

text \<open>A nonzero combination of pivots leads in a pivot column.\<close>

lemma span_leads_in_pivot:
  assumes "basis_inv W ps" "v \<in> gf2_span W (snd ` set ps)" "v \<noteq> zero_key W"
  shows "\<exists>c \<in> fst ` set ps. leading_column W v = Some c"
  using assms
proof (induction ps arbitrary: v)
  case Nil
  then show ?case by (auto elim: gf2_span.cases)
next
  case (Cons p ps)
  obtain c r where p: "p = (c, r)" by (cases p)
  have inv: "basis_inv W ps" "c \<notin> fst ` set ps" "wf_key W r" "leading_column W r = Some c"
    using Cons.prems(1) by (simp_all add: p basis_inv_Cons)
  have "wf_rows W (insert r (snd ` set ps))"
    using basis_inv_wf [OF Cons.prems(1)] by (simp add: p)
  then consider "v \<in> gf2_span W (snd ` set ps)"
    | u where "u \<in> gf2_span W (snd ` set ps)" "v = xor_key u r"
    using Cons.prems(2) by (auto simp: p gf2_span_insert)
  then show ?case
  proof cases
    case 1
    with Cons inv show ?thesis by auto
  next
    case 2
    have wf_u: "wf_key W u" using 2(1) inv(1) by (auto dest: wf_gf2_span basis_inv_wf)
    show ?thesis
    proof (cases "u = zero_key W")
      case True
      with 2 inv show ?thesis by (simp add: p)
    next
      case False
      with Cons.IH [OF inv(1) 2(1)] obtain d where d: "d \<in> fst ` set ps" "leading_column W u = Some d"
        by blast
      then have "leading_column W v = Some (max d c)"
        unfolding 2(2) using inv wf_u by (intro leading_column_xor_neq) auto
      with d show ?thesis by (auto simp: p max_def)
    qed
  qed
qed

lemma find_pivot:
  assumes "find (\<lambda>(column, _). column = lead) ps = r"
  shows "case r of None \<Rightarrow> lead \<notin> fst ` set ps | Some (c, pivot) \<Rightarrow> (c, pivot) \<in> set ps \<and> c = lead"
  using assms by (cases r) (auto simp: find_None_iff find_Some_iff in_set_conv_nth)

text \<open>The reduction loop returns, and what it subtracted lies in the span of the pivots.\<close>

lemma gf2_reduce_total:
  assumes "basis_inv W ps" "wf_key W v" "lead_measure W v < fuel"
  shows "\<exists>red. gf2_reduce fuel W ps v = Some red \<and> wf_key W red
    \<and> xor_key v red \<in> gf2_span W (snd ` set ps)
    \<and> (\<forall>c. leading_column W red = Some c \<longrightarrow> c \<notin> fst ` set ps)"
  using assms(2,3)
proof (induction fuel arbitrary: v)
  case (Suc fuel)
  note wf = basis_inv_wf [OF assms(1)]
  show ?case
  proof (cases "leading_column W v")
    case None
    with Suc.prems show ?thesis by (simp add: xor_key_self span_zero)
  next
    case (Some lead)
    define hit where "hit = find (\<lambda>(column, _). column = lead) ps"
    show ?thesis
    proof (cases hit)
      case None
      with find_pivot [of lead ps hit] Some Suc.prems show ?thesis
        by (simp add: hit_def xor_key_self span_zero)
    next
      case (Some cp)
      obtain c pivot where cp: "cp = (c, pivot)" by (cases cp)
      have mem: "(lead, pivot) \<in> set ps"
        using find_pivot [OF hit_def [symmetric]] by (auto simp: Some cp)
      with assms(1) have piv: "wf_key W pivot" "leading_column W pivot = Some lead"
        by (auto simp: basis_inv_def)
      have "lead_measure W (xor_key v pivot) < fuel"
        using lead_measure_decreases [OF Suc.prems(1) piv(1) \<open>leading_column W v = Some lead\<close> piv(2)]
          Suc.prems(2) by simp
      with Suc.IH [of "xor_key v pivot"] Suc.prems(1) piv(1)
      obtain red where red: "gf2_reduce fuel W ps (xor_key v pivot) = Some red" "wf_key W red"
          "xor_key (xor_key v pivot) red \<in> gf2_span W (snd ` set ps)"
          "\<forall>c. leading_column W red = Some c \<longrightarrow> c \<notin> fst ` set ps"
        by auto
      have "pivot \<in> snd ` set ps" using mem by force
      with red(3) have "xor_key (xor_key (xor_key v pivot) red) pivot \<in> gf2_span W (snd ` set ps)"
        by (rule span_add)
      also have "xor_key (xor_key (xor_key v pivot) red) pivot =
          xor_key (xor_key (xor_key v red) pivot) pivot"
        by (metis xor_key_assoc xor_key_commute)
      also have "\<dots> = xor_key v red"
        using Suc.prems(1) red(2) piv(1) by (intro xor_key_cancel) auto
      finally show ?thesis
        using red Some \<open>leading_column W v = Some lead\<close> by (simp add: hit_def cp)
    qed
  qed
qed simp

lemma basis_insert_spec:
  assumes "basis_inv W ps" "wf_key W v"
  shows "basis_inv W (fst (basis_insert W ps v))"
    and "snd (basis_insert W ps v) \<longleftrightarrow> v \<notin> gf2_span W (snd ` set ps)"
    and "gf2_span W (snd ` set (fst (basis_insert W ps v))) = gf2_span W (insert v (snd ` set ps))"
    and "length (fst (basis_insert W ps v)) = length ps + of_bool (snd (basis_insert W ps v))"
proof -
  let ?A = "snd ` set ps"
  note wf = basis_inv_wf [OF assms(1)]
  have "lead_measure W v < Suc (128 * W)" using lead_measure_le [OF assms(2)] by simp
  from gf2_reduce_total [OF assms this] obtain red where red:
      "gf2_reduce (Suc (128 * W)) W ps v = Some red" "wf_key W red" "xor_key v red \<in> gf2_span W ?A"
      "\<And>c. leading_column W red = Some c \<Longrightarrow> c \<notin> fst ` set ps"
    by auto
  have v: "v = xor_key (xor_key v red) red" using assms(2) red(2) by (simp add: xor_key_cancel)
  have red': "red = xor_key (xor_key v red) v"
    using assms(2) red(2) by (metis xor_key_cancel xor_key_commute)
  have wfi: "wf_rows W (insert v ?A)" "wf_rows W (insert red ?A)"
    using wf assms(2) red(2) by (simp_all add: wf_rows_def)
  have span_eq: "gf2_span W (insert red ?A) = gf2_span W (insert v ?A)"
  proof (intro equalityI gf2_span_subset wfi)
    fix r assume "r \<in> insert red ?A"
    then show "r \<in> gf2_span W (insert v ?A)"
      using red' red(3) wfi(1) gf2_span_base [OF _ wfi(1)]
      by (metis gf2_span_mono insertE insertI1 insertI2 span_add subset_insertI)
  next
    fix r assume "r \<in> insert v ?A"
    then show "r \<in> gf2_span W (insert red ?A)"
      using v red(3) wfi(2) gf2_span_base [OF _ wfi(2)]
      by (metis gf2_span_mono insertE insertI1 insertI2 span_add subset_insertI)
  qed
  show "basis_inv W (fst (basis_insert W ps v))"
    and "snd (basis_insert W ps v) \<longleftrightarrow> v \<notin> gf2_span W ?A"
    and "gf2_span W (snd ` set (fst (basis_insert W ps v))) = gf2_span W (insert v ?A)"
    and "length (fst (basis_insert W ps v)) = length ps + of_bool (snd (basis_insert W ps v))"
  proof -
    have "red \<in> gf2_span W ?A \<longleftrightarrow> v \<in> gf2_span W ?A"
      using v red' red(3) wf by (metis gf2_span_xor)
    moreover have "red \<in> gf2_span W ?A \<longleftrightarrow> red = zero_key W"
      using span_leads_in_pivot [OF assms(1), of red] red(4) by (auto simp: span_zero)
    ultimately have zero_iff: "red = zero_key W \<longleftrightarrow> v \<in> gf2_span W ?A" by simp
    have ins: "basis_insert W ps v = (case leading_column W red of None \<Rightarrow> (ps, False)
        | Some lead \<Rightarrow> (ps @ [(lead, red)], True))"
      unfolding basis_insert_def red(1) by simp
    show "basis_inv W (fst (basis_insert W ps v))"
      using assms(1) red(2,4)
      by (auto simp: ins basis_inv_def split: option.splits)
    show "snd (basis_insert W ps v) \<longleftrightarrow> v \<notin> gf2_span W ?A"
      unfolding zero_iff [symmetric] leading_column_None_iff [OF red(2), symmetric]
      by (simp add: ins split: option.splits)
    show "gf2_span W (snd ` set (fst (basis_insert W ps v))) = gf2_span W (insert v ?A)"
      using zero_iff span_eq gf2_span_insert_in [OF wf] leading_column_None_iff [OF red(2)]
      by (auto simp: ins split: option.splits)
    show "length (fst (basis_insert W ps v)) = length ps + of_bool (snd (basis_insert W ps v))"
      by (simp add: ins split: option.splits)
  qed
qed

lemma basis_fold_spec:
  assumes "basis_inv W ps" "wf_rows W (set rows)"
    "card (gf2_span W (snd ` set ps)) = 2 ^ length ps"
  defines "ps' \<equiv> fold (\<lambda>row basis. fst (basis_insert W basis row)) rows ps"
  shows "basis_inv W ps' \<and> gf2_span W (snd ` set ps') = gf2_span W (set rows \<union> snd ` set ps)
    \<and> card (gf2_span W (snd ` set ps')) = 2 ^ length ps'"
  unfolding ps'_def using assms(1-3)
proof (induction rows arbitrary: ps)
  case (Cons r rows)
  let ?ps = "fst (basis_insert W ps r)" and ?A = "snd ` set ps"
  have wf: "wf_key W r" "wf_rows W (set rows)" "wf_rows W ?A" "wf_rows W (insert r ?A)"
    using Cons.prems basis_inv_wf by (auto simp: wf_rows_def)
  note ins = basis_insert_spec [OF Cons.prems(1) wf(1)]
  have "card (gf2_span W (snd ` set ?ps)) = 2 ^ length ?ps"
    using card_gf2_span_insert [OF _ wf(4)] gf2_span_insert_in [OF wf(3), of r] Cons.prems(3) ins(2)
    by (simp add: ins(3,4))
  from Cons.IH [OF ins(1) wf(2) this] have IH:
      "basis_inv W (fold (\<lambda>row basis. fst (basis_insert W basis row)) rows ?ps)"
      "gf2_span W (snd ` set (fold (\<lambda>row basis. fst (basis_insert W basis row)) rows ?ps)) =
        gf2_span W (set rows \<union> snd ` set ?ps)"
      "card (gf2_span W (snd ` set (fold (\<lambda>row basis. fst (basis_insert W basis row)) rows ?ps))) =
        2 ^ length (fold (\<lambda>row basis. fst (basis_insert W basis row)) rows ?ps)"
    by blast+
  have wfs: "wf_rows W (set rows \<union> insert r ?A)" "wf_rows W (set rows \<union> snd ` set ?ps)"
    using wf basis_inv_wf [OF ins(1)] by (auto simp: wf_rows_def)
  have "gf2_span W (set rows \<union> snd ` set ?ps) = gf2_span W (set rows \<union> insert r ?A)"
  proof (intro equalityI gf2_span_subset wfs)
    fix v assume "v \<in> set rows \<union> snd ` set ?ps"
    moreover have "snd ` set ?ps \<subseteq> gf2_span W (insert r ?A)"
      using gf2_span_base [OF _ basis_inv_wf [OF ins(1)]] ins(3) by blast
    ultimately consider "v \<in> set rows" | "v \<in> gf2_span W (insert r ?A)" by blast
    then show "v \<in> gf2_span W (set rows \<union> insert r ?A)"
    proof cases
      case 1
      then show ?thesis by (intro gf2_span_base wfs(1)) simp
    next
      case 2
      then show ?thesis by (rule gf2_span_mono) blast
    qed
  next
    fix v assume "v \<in> set rows \<union> insert r ?A"
    moreover have "insert r ?A \<subseteq> gf2_span W (snd ` set ?ps)"
      using gf2_span_base [OF _ wf(4)] ins(3) by blast
    ultimately consider "v \<in> set rows" | "v \<in> gf2_span W (snd ` set ?ps)" by blast
    then show "v \<in> gf2_span W (set rows \<union> snd ` set ?ps)"
    proof cases
      case 1
      then show ?thesis by (intro gf2_span_base wfs(2)) simp
    next
      case 2
      then show ?thesis by (rule gf2_span_mono) blast
    qed
  qed
  with IH show ?case by simp
qed (simp add: Un_commute)

text \<open>
  C9. \<open>gf2_rank_wide\<close>, by the incremental row-echelon basis, is the GF(2) rank: the rows have exactly
  \<open>2^rank\<close> distinct XOR combinations.
\<close>

theorem gf2_rank_wide_is_rank:
  assumes "\<forall>r \<in> set rows. wf_key W r"
  shows "card (gf2_span W (set rows)) = 2 ^ gf2_rank_wide W rows"
proof -
  have "gf2_span W {} = {zero_key W}" by (auto elim: gf2_span.cases intro: span_zero)
  then have "card (gf2_span W (snd ` set [])) = 2 ^ length ([] :: gf2_basis)" by simp
  moreover have "basis_inv W []" "wf_rows W (set rows)"
    using assms by (simp_all add: basis_inv_def wf_rows_def)
  ultimately have spec:
      "gf2_span W (snd ` set (fold (\<lambda>row basis. fst (basis_insert W basis row)) rows [])) =
         gf2_span W (set rows)"
      "card (gf2_span W (snd ` set (fold (\<lambda>row basis. fst (basis_insert W basis row)) rows []))) =
         2 ^ length (fold (\<lambda>row basis. fst (basis_insert W basis row)) rows [])"
    using basis_fold_spec [of W "[]" rows] by (metis Un_empty_right image_empty list.set(1))+
  show ?thesis using spec(2) unfolding spec(1) gf2_rank_wide_def .
qed

theorem gf2_rank_wide_is_rank_witness:
  "card (gf2_span 1 {([1], [0]), ([0], [1]), ([1], [1])}) = 4"
proof -
  have "gf2_rank_wide 1 [([1], [0]), ([0], [1]), ([1], [1])] = 2"
    by code_simp
  then show ?thesis
    using gf2_rank_wide_is_rank [of "[([1], [0]), ([0], [1]), ([1], [1])]" 1]
    by (simp add: wf_key_def)
qed

end
