(* ===== verification/Coset.thy ===== *)
theory Coset
  imports Bit_Scatter Gf2_Rank
begin

unbundle bit_operations_syntax

text \<open>
  \<open>engine/coset.rs\<close>: the GF(2) span of a channel's bucket deltas in reduced echelon form, the
  coordinates of a bucket as a coset and a member of it, and the coset-contiguous order a layer runs
  in. The lemmas show that the basis spans the deltas, that the representative is a canonical form of
  the coset, and that the renumbering is a permutation of the buckets with the stated inverse.
\<close>

section \<open>The span\<close>

definition highest_bit :: "u32 \<Rightarrow> nat" where
  "highest_bit v = 31 - leading_zeros v"

record gf2_span_index =
  sp_basis :: "u32 list"
  sp_pivot_mask :: u32
  sp_bits :: nat
  sp_nonpivot_mask :: u32

text \<open>The pass over the basis that clears the pivot bits of a word, of \<open>new\<close> and \<open>representative_of\<close>.\<close>

definition reduce_by :: "u32 list \<Rightarrow> u32 \<Rightarrow> u32" where
  "reduce_by basis w =
     fold (\<lambda>v reduced. if reduced AND push_bit (highest_bit v) 1 \<noteq> 0 then reduced XOR v else reduced)
       basis w"

definition space_mask :: "nat \<Rightarrow> u32" where
  "space_mask bits = (if bits = 0 then 0 else push_bit bits 1 - 1)"

text \<open>
  One round of the loop of \<open>Gf2Span::new\<close>, with the back-substitution loop and the insertion at the
  partition point; \<open>partition_point\<close> on the ascending pivots is the length of the prefix below the
  new one.
\<close>

definition back_substitute :: "u32 \<Rightarrow> u32 \<Rightarrow> u32" where
  "back_substitute reduced v =
     (if v AND push_bit (highest_bit reduced) 1 \<noteq> 0 then v XOR reduced else v)"

definition insert_pivot :: "u32 \<Rightarrow> u32 list \<Rightarrow> u32 list" where
  "insert_pivot reduced basis =
     (let position = length (takeWhile (\<lambda>v. highest_bit v < highest_bit reduced) basis)
      in take position basis @ reduced # drop position basis)"

definition span_insert :: "u32 \<Rightarrow> u32 list \<times> u32 \<Rightarrow> u32 list \<times> u32" where
  "span_insert delta st =
     (case st of (basis, pivot_mask) \<Rightarrow>
        let reduced = reduce_by basis delta
        in if reduced = 0 then (basis, pivot_mask)
           else (insert_pivot reduced (map (back_substitute reduced) basis),
                 pivot_mask OR push_bit (highest_bit reduced) 1))"

fun span_loop :: "nat \<Rightarrow> u32 list \<Rightarrow> u32 list \<times> u32 \<Rightarrow> (u32 list \<times> u32) result" where
  "span_loop bits [] st = Inr st"
| "span_loop bits (delta # deltas) st =
     and_then (assert_that (delta AND NOT (space_mask bits) = 0) DeltaOutsideSpace)
       (\<lambda>_. span_loop bits deltas (span_insert delta st))"

definition span_new :: "u32 list \<Rightarrow> nat \<Rightarrow> gf2_span_index result" where
  "span_new deltas bits =
     and_then (assert_that (bits \<le> INDEX_BITS) TooManyBits) (\<lambda>_.
     and_then (span_loop bits deltas ([], 0)) (\<lambda>(basis, pivot_mask).
       Inr \<lparr>sp_basis = basis, sp_pivot_mask = pivot_mask, sp_bits = bits,
            sp_nonpivot_mask = space_mask bits AND NOT pivot_mask\<rparr>))"

definition span_dimension :: "gf2_span_index \<Rightarrow> nat" where
  "span_dimension s = length (sp_basis s)"

definition coset_size :: "gf2_span_index \<Rightarrow> nat" where
  "coset_size s = 2 ^ length (sp_basis s)"

definition num_cosets :: "gf2_span_index \<Rightarrow> nat" where
  "num_cosets s = 2 ^ sp_bits s div 2 ^ length (sp_basis s)"

definition is_representative :: "gf2_span_index \<Rightarrow> u32 \<Rightarrow> bool" where
  "is_representative s b \<longleftrightarrow> b AND sp_pivot_mask s = 0"

definition representative_of :: "gf2_span_index \<Rightarrow> u32 \<Rightarrow> u32" where
  "representative_of s b = reduce_by (sp_basis s) b"

definition coordinate_of :: "bool \<Rightarrow> gf2_span_index \<Rightarrow> u32 \<Rightarrow> u32" where
  "coordinate_of bmi2 s delta = pext bmi2 delta (sp_pivot_mask s)"

definition rank_of_representative :: "bool \<Rightarrow> gf2_span_index \<Rightarrow> u32 \<Rightarrow> u32" where
  "rank_of_representative bmi2 s rep = pext bmi2 rep (sp_nonpivot_mask s)"

definition representative_at :: "bool \<Rightarrow> gf2_span_index \<Rightarrow> u32 \<Rightarrow> u32" where
  "representative_at bmi2 s coset = pdep bmi2 coset (sp_nonpivot_mask s)"

definition coset_member :: "gf2_span_index \<Rightarrow> u32 \<Rightarrow> u32 \<Rightarrow> u32" where
  "coset_member s rep i =
     fold (\<lambda>(j, b) v. if drop_bit j i AND 1 = 1 then v XOR b else v)
       (zip [0..<length (sp_basis s)] (sp_basis s)) rep"

definition permuted_index :: "bool \<Rightarrow> gf2_span_index \<Rightarrow> u32 \<Rightarrow> u32" where
  "permuted_index bmi2 s b =
     (let rep = representative_of s b
      in push_bit (length (sp_basis s)) (rank_of_representative bmi2 s rep)
           OR coordinate_of bmi2 s (b XOR rep))"

section \<open>The coset order\<close>

record coset_order =
  co_permutation :: "u32 list"
  co_inverse :: "u32 list"
  co_positions :: nat
  co_dimension :: nat

text \<open>\<open>tabulate\<close>: an indexed parallel collect and the serial loop fill the same table.\<close>

definition tabulate :: "nat \<Rightarrow> (u32 \<Rightarrow> u32) \<Rightarrow> u32 list" where
  "tabulate len f = map (\<lambda>i. f (of_nat i)) [0..<len]"

definition order_rebuild :: "bool \<Rightarrow> gf2_span_index \<Rightarrow> bool \<Rightarrow> coset_order" where
  "order_rebuild bmi2 s with_inverse =
     (let positions = 2 ^ sp_bits s; r = span_dimension s
      in if r = 0
         then \<lparr>co_permutation = [], co_inverse = [], co_positions = positions, co_dimension = r\<rparr>
         else \<lparr>co_permutation = tabulate positions (permuted_index bmi2 s),
               co_inverse =
                 (if with_inverse
                  then tabulate positions (\<lambda>position.
                         coset_member s (representative_at bmi2 s (drop_bit r position))
                           (position AND (push_bit r 1 - 1)))
                  else []),
               co_positions = positions, co_dimension = r\<rparr>)"

definition position_of :: "coset_order \<Rightarrow> u32 \<Rightarrow> u32" where
  "position_of ord b = (if co_permutation ord = [] then b else co_permutation ord ! unat b)"

definition bucket_at :: "coset_order \<Rightarrow> u32 \<Rightarrow> u32" where
  "bucket_at ord position = (if co_inverse ord = [] then position else co_inverse ord ! unat position)"

section \<open>Combinations\<close>

fun xor_sel :: "u32 list \<Rightarrow> bool list \<Rightarrow> u32" where
  "xor_sel (v # vs) (b # bs) = (if b then v else 0) XOR xor_sel vs bs"
| "xor_sel _ _ = 0"

text \<open>The span of a list of deltas: its XOR combinations.\<close>

definition delta_span :: "u32 list \<Rightarrow> u32 set" where
  "delta_span ds = {xor_sel ds bs |bs. length bs = length ds}"

lemma xor_sel_xor:
  "length bs = length vs \<Longrightarrow> length cs = length vs \<Longrightarrow>
     xor_sel vs (map2 (\<noteq>) bs cs) = xor_sel vs bs XOR xor_sel vs cs"
proof (induction vs arbitrary: bs cs)
  case (Cons v vs)
  then show ?case by (cases bs; cases cs) (auto simp: ac_simps)
qed simp

lemma xor_sel_False: "xor_sel vs (replicate n False) = 0"
  by (induction vs arbitrary: n; case_tac n) auto

lemma delta_span_zero: "0 \<in> delta_span ds"
  unfolding delta_span_def
  by (intro CollectI exI [of _ "replicate (length ds) False"]) (simp add: xor_sel_False)

lemma delta_span_xor:
  assumes "v \<in> delta_span ds" "w \<in> delta_span ds"
  shows "v XOR w \<in> delta_span ds"
proof -
  obtain bs cs where "length bs = length ds" "length cs = length ds" "v = xor_sel ds bs" "w = xor_sel ds cs"
    using assms by (auto simp: delta_span_def)
  then have "v XOR w = xor_sel ds (map2 (\<noteq>) bs cs) \<and> length (map2 (\<noteq>) bs cs) = length ds"
    unfolding xor_sel_xor [OF \<open>length bs = _\<close> \<open>length cs = _\<close>] by simp
  then show ?thesis
    unfolding delta_span_def by blast
qed

lemma delta_span_base: "d \<in> set ds \<Longrightarrow> d \<in> delta_span ds"
proof (induction ds)
  case (Cons e ds)
  show ?case
  proof (cases "d = e")
    case True
    then show ?thesis
      unfolding delta_span_def
      by (intro CollectI exI [of _ "True # replicate (length ds) False"]) (simp add: xor_sel_False)
  next
    case False
    with Cons obtain bs where "length bs = length ds" "d = xor_sel ds bs"
      by (auto simp: delta_span_def)
    then show ?thesis
      unfolding delta_span_def by (intro CollectI exI [of _ "False # bs"]) simp
  qed
qed simp

lemma delta_span_subset:
  assumes "set as \<subseteq> delta_span ds"
  shows "delta_span as \<subseteq> delta_span ds"
proof -
  have "xor_sel as bs \<in> delta_span ds" for bs
    using assms
    by (induction as bs rule: xor_sel.induct) (auto intro: delta_span_xor delta_span_zero)
  then show ?thesis by (auto simp: delta_span_def)
qed

lemma delta_span_mono: "set as \<subseteq> set ds \<Longrightarrow> delta_span as \<subseteq> delta_span ds"
  by (intro delta_span_subset) (auto intro: delta_span_base)

section \<open>Reduced echelon form\<close>

lemma highest_bit_props:
  assumes "w \<noteq> 0"
  shows "bit w (highest_bit w)" "\<And>j. highest_bit w < j \<Longrightarrow> \<not> bit w j" "highest_bit w < 32"
  using highest_bit_word [OF assms] by (simp_all add: highest_bit_def)

lemma highest_bit_eqI: "bit w h \<Longrightarrow> (\<And>j. h < j \<Longrightarrow> \<not> bit w j) \<Longrightarrow> highest_bit w = h"
  using highest_bit_props [of w] by (metis bit_0_eq bot_apply bot_bool_def linorder_neqE_nat)

definition echelon :: "u32 list \<Rightarrow> bool" where
  "echelon basis \<longleftrightarrow> 0 \<notin> set basis \<and> sorted_wrt (<) (map highest_bit basis) \<and>
     (\<forall>u \<in> set basis. \<forall>v \<in> set basis. u \<noteq> v \<longrightarrow> \<not> bit u (highest_bit v))"

lemma echelon_Cons:
  assumes "echelon (v # vs)"
  shows "v \<noteq> 0" "echelon vs" "\<And>u. u \<in> set vs \<Longrightarrow> \<not> bit u (highest_bit v)"
    "\<And>u. u \<in> set vs \<Longrightarrow> \<not> bit v (highest_bit u)"
proof -
  show "v \<noteq> 0" "echelon vs" using assms by (auto simp: echelon_def)
  have "u \<noteq> v" if "u \<in> set vs" for u using assms that by (auto simp: echelon_def)
  then show "\<And>u. u \<in> set vs \<Longrightarrow> \<not> bit u (highest_bit v)"
    and "\<And>u. u \<in> set vs \<Longrightarrow> \<not> bit v (highest_bit u)"
    using assms by (auto simp: echelon_def)
qed

lemma bit_xor_sel_clear:
  "(\<And>u. u \<in> set vs \<Longrightarrow> \<not> bit u n) \<Longrightarrow> \<not> bit (xor_sel vs bs) n"
  by (induction vs bs rule: xor_sel.induct) (auto simp: bit_xor_iff)

lemma bit_xor_sel_pivot:
  assumes "echelon vs" "length bs = length vs" "j < length vs"
  shows "bit (xor_sel vs bs) (highest_bit (vs ! j)) \<longleftrightarrow> bs ! j"
  using assms
proof (induction vs arbitrary: bs j)
  case (Cons v vs)
  note ech = echelon_Cons [OF Cons.prems(1)]
  obtain b bs' where bs: "bs = b # bs'" "length bs' = length vs" using Cons.prems(2) by (cases bs) auto
  show ?case
  proof (cases j)
    case 0
    then show ?thesis
      using ech bit_xor_sel_clear [of vs "highest_bit v" bs']
      by (simp add: bs bit_xor_iff highest_bit_props)
  next
    case (Suc i)
    then show ?thesis
      using Cons ech bs by (simp add: bit_xor_iff)
  qed
qed simp

lemma reduce_by_eq:
  "echelon vs \<Longrightarrow> reduce_by vs w = w XOR xor_sel vs (map (\<lambda>v. bit w (highest_bit v)) vs)"
proof (induction vs arbitrary: w)
  case (Cons v vs)
  note ech = echelon_Cons [OF Cons.prems]
  let ?w = "if bit w (highest_bit v) then w XOR v else w"
  have "reduce_by (v # vs) w = reduce_by vs ?w"
    unfolding reduce_by_def by (simp only: fold_simps and_push_bit_neq_0_iff)
  also have "\<dots> = ?w XOR xor_sel vs (map (\<lambda>u. bit ?w (highest_bit u)) vs)"
    using Cons.IH ech by simp
  also have "map (\<lambda>u. bit ?w (highest_bit u)) vs = map (\<lambda>u. bit w (highest_bit u)) vs"
    using ech by (auto simp: bit_xor_iff)
  finally show ?case by (simp add: xor.assoc)
qed (simp add: reduce_by_def)

lemma reduce_by_clears:
  assumes "echelon vs" "v \<in> set vs"
  shows "\<not> bit (reduce_by vs w) (highest_bit v)"
proof -
  obtain j where "j < length vs" "v = vs ! j" using assms(2) by (auto simp: in_set_conv_nth)
  then show ?thesis
    using assms(1) by (simp add: reduce_by_eq bit_xor_iff bit_xor_sel_pivot)
qed

lemma reduce_by_in_span: "echelon vs \<Longrightarrow> w XOR reduce_by vs w \<in> delta_span vs"
  unfolding delta_span_def
  by (intro CollectI exI [of _ "map (\<lambda>v. bit w (highest_bit v)) vs"]) (simp add: reduce_by_eq)

text \<open>The reduced word is the only word of its coset with every pivot bit clear.\<close>

lemma reduce_by_unique:
  assumes "echelon vs" "w XOR x \<in> delta_span vs" "\<And>v. v \<in> set vs \<Longrightarrow> \<not> bit x (highest_bit v)"
  shows "reduce_by vs w = x"
proof -
  obtain bs where bs: "length bs = length vs" "w XOR x = xor_sel vs bs"
    using assms(2) by (auto simp: delta_span_def)
  have "bs = map (\<lambda>v. bit w (highest_bit v)) vs"
  proof (rule nth_equalityI)
    fix j assume "j < length bs"
    then show "bs ! j = map (\<lambda>v. bit w (highest_bit v)) vs ! j"
      using bit_xor_sel_pivot [OF assms(1) bs(1), of j, folded bs(2)] bs(1) assms(3)
      by (simp add: bit_xor_iff)
  qed (simp add: bs)
  with bs(2) have "reduce_by vs w = w XOR (w XOR x)" by (simp add: reduce_by_eq [OF assms(1)])
  then show ?thesis by simp
qed

lemma reduce_by_eq_iff:
  assumes "echelon vs"
  shows "reduce_by vs w = reduce_by vs u \<longleftrightarrow> w XOR u \<in> delta_span vs"
proof
  assume "reduce_by vs w = reduce_by vs u"
  then have "(w XOR reduce_by vs w) XOR (u XOR reduce_by vs u) = w XOR u"
    by (simp add: bit_eq_iff bit_xor_iff) blast
  then show "w XOR u \<in> delta_span vs"
    using delta_span_xor [OF reduce_by_in_span [OF assms] reduce_by_in_span [OF assms]] by metis
next
  assume "w XOR u \<in> delta_span vs"
  then have "(w XOR u) XOR (u XOR reduce_by vs u) \<in> delta_span vs"
    by (rule delta_span_xor [OF _ reduce_by_in_span [OF assms]])
  then have "w XOR reduce_by vs u \<in> delta_span vs"
    by (simp add: xor.assoc)
  with assms show "reduce_by vs w = reduce_by vs u"
    by (intro reduce_by_unique reduce_by_clears)
qed

section \<open>Building the basis\<close>

definition in_space :: "nat \<Rightarrow> u32 \<Rightarrow> bool" where
  "in_space bits w \<longleftrightarrow> (\<forall>n. bit w n \<longrightarrow> n < bits)"

lemma in_space_xor: "in_space bits v \<Longrightarrow> in_space bits w \<Longrightarrow> in_space bits (v XOR w)"
  by (auto simp: in_space_def bit_xor_iff)

lemma in_space_0 [simp]: "in_space bits 0"
  by (simp add: in_space_def)

lemma bit_space_mask: "bits < 32 \<Longrightarrow> bit (space_mask bits) n \<longleftrightarrow> n < bits"
  by (auto simp: space_mask_def push_bit_of_1 bit_mask_iff simp flip: mask_eq_exp_minus_1
      dest: less_trans)

lemma outside_space_iff:
  assumes "bits < 32"
  shows "w AND NOT (space_mask bits) = 0 \<longleftrightarrow> in_space bits w"
proof
  assume *: "w AND NOT (space_mask bits) = 0"
  show "in_space bits w"
    unfolding in_space_def
  proof (intro allI impI)
    fix n assume "bit w n"
    moreover have "\<not> bit (w AND NOT (space_mask bits)) n" using * by simp
    ultimately show "n < bits"
      using bit_imp_le_length [of w n] by (auto simp: bit_and_iff bit_not_iff bit_space_mask assms possible_bit_word)
  qed
next
  assume "in_space bits w"
  then show "w AND NOT (space_mask bits) = 0"
    by (intro bit_word_eqI) (auto simp: bit_and_iff bit_not_iff bit_space_mask assms in_space_def)
qed

lemma in_space_iff_less: "bits < 32 \<Longrightarrow> in_space bits w \<longleftrightarrow> unat w < 2 ^ bits"
proof -
  assume "bits < 32"
  have "in_space bits w \<longleftrightarrow> take_bit bits w = w"
    using bit_imp_le_length [of w] by (auto simp: in_space_def bit_eq_iff bit_take_bit_iff)
  also have "\<dots> \<longleftrightarrow> unat w < 2 ^ bits"
    by (metis take_bit_nat_eq_self_iff unsigned_take_bit_eq word_unat_eq_iff)
  finally show ?thesis .
qed

lemma in_space_xor_sel: "(\<And>d. d \<in> set ds \<Longrightarrow> in_space bits d) \<Longrightarrow> in_space bits (xor_sel ds bs)"
  by (induction ds bs rule: xor_sel.induct) (auto intro: in_space_xor)

lemma in_space_delta_span:
  "(\<And>d. d \<in> set ds \<Longrightarrow> in_space bits d) \<Longrightarrow> w \<in> delta_span ds \<Longrightarrow> in_space bits w"
  by (auto simp: delta_span_def intro: in_space_xor_sel)

text \<open>Inserting at the partition point of an ascending list keeps it ascending.\<close>

lemma sorted_insert_takeWhile:
  fixes f :: "'a \<Rightarrow> nat"
  assumes "sorted_wrt (<) (map f vs)" "f r = p" "p \<notin> f ` set vs"
  shows "sorted_wrt (<) (map f (takeWhile (\<lambda>v. f v < p) vs @ r # dropWhile (\<lambda>v. f v < p) vs))"
  using assms
proof (induction vs)
  case (Cons v vs)
  show ?case
  proof (cases "f v < p")
    case True
    then show ?thesis
      using Cons by (auto dest: set_takeWhileD set_dropWhileD)
  next
    case False
    with Cons.prems have "p < f v" by auto
    then show ?thesis using False Cons.prems by auto
  qed
qed simp

lemma insert_pivot_eq:
  "insert_pivot r vs = takeWhile (\<lambda>v. highest_bit v < highest_bit r) vs @
     r # dropWhile (\<lambda>v. highest_bit v < highest_bit r) vs"
  by (simp add: insert_pivot_def Let_def takeWhile_eq_take [symmetric] dropWhile_eq_drop [symmetric])

lemma set_insert_pivot: "set (insert_pivot r vs) = insert r (set vs)"
  unfolding insert_pivot_eq
  by (metis Un_insert_right list.simps(15) set_append takeWhile_dropWhile_id)

lemma back_substitute_eq: "back_substitute r v = (if bit v (highest_bit r) then v XOR r else v)"
  unfolding back_substitute_def and_push_bit_neq_0_iff ..

lemma highest_bit_back_substitute:
  assumes "v \<noteq> 0" "r \<noteq> 0" "\<not> bit r (highest_bit v)"
  shows "highest_bit (back_substitute r v) = highest_bit v"
proof (cases "bit v (highest_bit r)")
  case True
  note v = highest_bit_props [OF assms(1)] and r = highest_bit_props [OF assms(2)]
  have "highest_bit r < highest_bit v"
    using True assms(3) r(1) v(2) by (metis linorder_neqE_nat)
  then show ?thesis
    using True assms(3) v r(2) by (intro highest_bit_eqI) (auto simp: back_substitute_eq bit_xor_iff)
qed (simp add: back_substitute_eq)

lemma echelon_insert_pivot:
  assumes ech: "echelon basis" and r: "r \<noteq> 0" "\<And>v. v \<in> set basis \<Longrightarrow> \<not> bit r (highest_bit v)"
  defines "new \<equiv> insert_pivot r (map (back_substitute r) basis)"
  shows "echelon new" and "highest_bit ` set new = insert (highest_bit r) (highest_bit ` set basis)"
proof -
  note rp = highest_bit_props [OF r(1)]
  have nz: "v \<noteq> 0" if "v \<in> set basis" for v using ech that by (auto simp: echelon_def)
  have hb: "highest_bit (back_substitute r v) = highest_bit v" if "v \<in> set basis" for v
    using nz r that by (intro highest_bit_back_substitute) auto
  have set_new: "set new = insert r (back_substitute r ` set basis)"
    by (simp add: new_def set_insert_pivot)
  then show "highest_bit ` set new = insert (highest_bit r) (highest_bit ` set basis)"
    using hb by (auto simp: image_iff)
  have pivots: "\<not> bit (back_substitute r v) (highest_bit r)" for v
    using rp(1) by (simp add: back_substitute_eq bit_xor_iff)
  have cross: "\<not> bit (back_substitute r u) (highest_bit v)"
    if "u \<in> set basis" "v \<in> set basis" "u \<noteq> v" for u v
    using ech that r(2) by (auto simp: echelon_def back_substitute_eq bit_xor_iff)
  have p_new: "highest_bit r \<noteq> highest_bit v" if "v \<in> set basis" for v
    using r(2) [OF that] rp(1) by auto
  have "map highest_bit (map (back_substitute r) basis) = map highest_bit basis"
    using hb by simp
  with ech have "sorted_wrt (<) (map highest_bit (map (back_substitute r) basis))"
    by (simp only: echelon_def)
  then have "sorted_wrt (<) (map highest_bit new)"
    unfolding new_def insert_pivot_eq using p_new hb
    by (intro sorted_insert_takeWhile) (auto simp: image_iff)
  moreover have "back_substitute r v \<noteq> 0" if "v \<in> set basis" for v
    using highest_bit_props(1) [OF nz [OF that]] r(2) [OF that]
    by (auto simp: back_substitute_eq word_xor_eq_0_iff)
  ultimately show "echelon new"
    unfolding echelon_def set_new using r hb pivots by (auto, metis cross)
qed

lemma delta_span_insert_pivot:
  assumes "delta XOR r \<in> delta_span basis"
  shows "delta_span (insert_pivot r (map (back_substitute r) basis)) = delta_span (delta # basis)"
    (is "delta_span ?new = _")
proof (intro equalityI delta_span_subset subsetI)
  have "delta XOR r \<in> delta_span (delta # basis)"
    using assms delta_span_mono [of basis "delta # basis"] by auto
  with delta_span_base have "delta XOR (delta XOR r) \<in> delta_span (delta # basis)"
    by (rule delta_span_xor) simp
  then have r: "r \<in> delta_span (delta # basis)" by simp
  have base: "v \<in> delta_span (delta # basis)" if "v \<in> set basis" for v
    using that by (intro delta_span_base) simp
  fix v assume "v \<in> set ?new"
  then show "v \<in> delta_span (delta # basis)"
    using r base by (auto simp: set_insert_pivot back_substitute_eq intro!: delta_span_xor)
next
  have r: "r \<in> delta_span ?new" by (intro delta_span_base) (simp add: set_insert_pivot)
  have b: "v \<in> delta_span ?new" if "v \<in> set basis" for v
  proof -
    have "back_substitute r v \<in> delta_span ?new"
      using that by (intro delta_span_base) (simp add: set_insert_pivot)
    then show ?thesis
      using delta_span_xor [OF _ r, of "back_substitute r v"]
      by (cases "bit v (highest_bit r)") (simp_all add: back_substitute_eq xor.assoc)
  qed
  then have "delta_span basis \<subseteq> delta_span ?new" by (intro delta_span_subset) auto
  with assms have "delta XOR r \<in> delta_span ?new" by auto
  then have "(delta XOR r) XOR r \<in> delta_span ?new" by (rule delta_span_xor [OF _ r])
  then have "delta \<in> delta_span ?new" by (simp add: xor.assoc)
  moreover fix v assume "v \<in> set (delta # basis)"
  ultimately show "v \<in> delta_span ?new" using b by auto
qed

definition basis_ok :: "u32 list \<times> u32 \<Rightarrow> bool" where
  "basis_ok st \<longleftrightarrow> echelon (fst st) \<and> {n. bit (snd st) n} = highest_bit ` set (fst st)"

lemma span_insert_ok:
  assumes "basis_ok (basis, pm)"
  shows "basis_ok (span_insert delta (basis, pm)) \<and>
    delta_span (fst (span_insert delta (basis, pm))) = delta_span (delta # basis)"
proof -
  define r where "r = reduce_by basis delta"
  have ech: "echelon basis" and pm: "{n. bit pm n} = highest_bit ` set basis"
    using assms by (auto simp: basis_ok_def)
  have in_span: "delta XOR r \<in> delta_span basis"
    unfolding r_def by (rule reduce_by_in_span [OF ech])
  show ?thesis
  proof (cases "r = 0")
    case True
    have "delta_span (delta # basis) = delta_span basis"
      using in_span True by (intro equalityI delta_span_subset) (auto intro: delta_span_base)
    then show ?thesis using True assms by (simp add: span_insert_def r_def)
  next
    case False
    have clear: "\<And>v. v \<in> set basis \<Longrightarrow> \<not> bit r (highest_bit v)"
      unfolding r_def by (rule reduce_by_clears [OF ech])
    have "{n. bit (pm OR push_bit (highest_bit r) 1) n} = insert (highest_bit r) {n. bit pm n}"
      using highest_bit_props(3) [OF False] by (auto simp: bit_or_iff push_bit_of_1 bit_exp_iff)
    then show ?thesis
      using False echelon_insert_pivot [OF ech False clear] delta_span_insert_pivot [OF in_span]
      by (simp add: span_insert_def basis_ok_def pm flip: r_def)
  qed
qed

definition span_ok :: "gf2_span_index \<Rightarrow> bool" where
  "span_ok s \<longleftrightarrow> basis_ok (sp_basis s, sp_pivot_mask s) \<and> sp_bits s < 32 \<and>
     (\<forall>v \<in> set (sp_basis s). in_space (sp_bits s) v) \<and>
     sp_nonpivot_mask s = space_mask (sp_bits s) AND NOT (sp_pivot_mask s)"

lemma delta_span_append_cong:
  assumes "delta_span bs = delta_span cs"
  shows "delta_span (as @ bs) = delta_span (as @ cs)"
proof -
  have "delta_span (as @ bs) \<subseteq> delta_span (as @ cs)" if eq: "delta_span bs = delta_span cs" for bs cs
  proof (rule delta_span_subset, rule subsetI)
    fix v assume "v \<in> set (as @ bs)"
    then consider "v \<in> set as" | "v \<in> delta_span cs" using eq delta_span_base [of v bs] by auto
    then show "v \<in> delta_span (as @ cs)"
      using delta_span_mono [of cs "as @ cs"] delta_span_base [of v "as @ cs"] by cases auto
  qed
  with assms show ?thesis by (intro equalityI) auto
qed

lemma span_fold_ok:
  "basis_ok st \<Longrightarrow> basis_ok (fold span_insert deltas st) \<and>
     delta_span (fst (fold span_insert deltas st)) = delta_span (deltas @ fst st)"
proof (induction deltas arbitrary: st)
  case (Cons d ds)
  obtain basis pm where st: "st = (basis, pm)" by (cases st)
  from span_insert_ok [of basis pm d] Cons.prems
  have ins: "basis_ok (span_insert d st)" "delta_span (fst (span_insert d st)) = delta_span (d # basis)"
    by (simp_all add: st)
  have "delta_span (ds @ fst (span_insert d st)) = delta_span (ds @ d # basis)"
    by (rule delta_span_append_cong [OF ins(2)])
  also have "\<dots> = delta_span (d # ds @ basis)"
    by (intro equalityI delta_span_mono) auto
  finally show ?case using Cons.IH [OF ins(1)] by (simp add: st)
qed simp

lemma span_loop_eq:
  assumes "bits < 32"
  shows "span_loop bits deltas st =
    (if \<forall>d \<in> set deltas. in_space bits d then Inr (fold span_insert deltas st) else Inl DeltaOutsideSpace)"
  by (induction deltas arbitrary: st)
    (simp_all add: assert_that_def outside_space_iff [OF assms])

text \<open>The constructor succeeds exactly on deltas of the space, with a basis of their span.\<close>

lemma span_new_spec:
  "span_new deltas bits =
     (if \<not> bits \<le> INDEX_BITS then Inl TooManyBits
      else if \<exists>d \<in> set deltas. \<not> in_space bits d then Inl DeltaOutsideSpace
      else case fold span_insert deltas ([], 0) of (basis, pm) \<Rightarrow>
        Inr \<lparr>sp_basis = basis, sp_pivot_mask = pm, sp_bits = bits,
             sp_nonpivot_mask = space_mask bits AND NOT pm\<rparr>)"
  by (auto simp: span_new_def assert_that_def INDEX_BITS_def span_loop_eq split: prod.splits)

lemma span_new_ok:
  assumes "span_new deltas bits = Inr s"
  shows "span_ok s" "sp_bits s = bits" "delta_span (sp_basis s) = delta_span deltas"
proof -
  define st where "st = fold span_insert deltas ([], 0)"
  have guard: "bits < 32" "\<forall>d \<in> set deltas. in_space bits d"
    and s: "s = \<lparr>sp_basis = fst st, sp_pivot_mask = snd st, sp_bits = bits,
                 sp_nonpivot_mask = space_mask bits AND NOT (snd st)\<rparr>"
    using assms by (auto simp: span_new_spec st_def INDEX_BITS_def split: if_splits prod.splits)
  have "basis_ok ([], 0)" by (simp add: basis_ok_def echelon_def)
  from span_fold_ok [OF this, of deltas]
  have st: "basis_ok st" "delta_span (fst st) = delta_span deltas" by (simp_all add: st_def)
  then have "in_space bits v" if "v \<in> set (fst st)" for v
    using in_space_delta_span [of deltas bits v] delta_span_base [OF that] guard by auto
  with st guard s show "span_ok s" "sp_bits s = bits" "delta_span (sp_basis s) = delta_span deltas"
    by (simp_all add: span_ok_def)
qed

section \<open>Coset coordinates\<close>

lemma fold_member:
  "fold (\<lambda>(j, b) v. if bit i j then v XOR b else v) (zip [k..<k + length vs] vs) w =
     w XOR xor_sel vs (map (bit i) [k..<k + length vs])"
proof (induction vs arbitrary: k w)
  case (Cons v vs)
  have "[k..<k + length (v # vs)] = k # [Suc k..<Suc k + length vs]"
    by (subst upt_conv_Cons) auto
  then show ?case using Cons [of "Suc k"] by (simp add: xor.assoc)
qed simp

lemma coset_member_eq:
  "coset_member s rep i = rep XOR xor_sel (sp_basis s) (map (bit i) [0..<length (sp_basis s)])"
  using fold_member [of i 0 "sp_basis s" rep] by (simp add: coset_member_def and_1_eq_1_iff)

lemma span_ok_echelon: "span_ok s \<Longrightarrow> echelon (sp_basis s)"
  by (simp add: span_ok_def basis_ok_def)

lemma set_bits_pivot_mask: "span_ok s \<Longrightarrow> set_bits (sp_pivot_mask s) = map highest_bit (sp_basis s)"
  by (intro set_bits_eqI) (auto simp: span_ok_def basis_ok_def echelon_def)

lemma count_ones_pivot_mask: "span_ok s \<Longrightarrow> count_ones (sp_pivot_mask s) = length (sp_basis s)"
  using set_bits_pivot_mask [of s] length_set_bits [of "sp_pivot_mask s"] by (simp del: length_set_bits)

lemma bit_coordinate_of:
  "span_ok s \<Longrightarrow> bit (coordinate_of bmi2 s d) n \<longleftrightarrow>
     n < length (sp_basis s) \<and> bit d (highest_bit (sp_basis s ! n))"
  by (auto simp: coordinate_of_def bit_pext count_ones_pivot_mask set_bits_pivot_mask)

lemma bit_nonpivot_mask:
  "span_ok s \<Longrightarrow> bit (sp_nonpivot_mask s) n \<longleftrightarrow> n < sp_bits s \<and> n \<notin> highest_bit ` set (sp_basis s)"
  by (auto simp: span_ok_def basis_ok_def bit_and_iff bit_not_iff bit_space_mask possible_bit_word
      set_eq_iff)

lemma highest_bit_in_space: "span_ok s \<Longrightarrow> v \<in> set (sp_basis s) \<Longrightarrow> highest_bit v < sp_bits s"
  using highest_bit_props(1) [of v] span_ok_echelon [of s]
  by (cases "v = 0") (auto simp: span_ok_def echelon_def in_space_def)

lemma count_ones_nonpivot_mask:
  assumes "span_ok s"
  shows "count_ones (sp_nonpivot_mask s) = sp_bits s - length (sp_basis s)"
    and "length (sp_basis s) \<le> sp_bits s"
proof -
  let ?P = "highest_bit ` set (sp_basis s)"
  have P: "?P \<subseteq> {..<sp_bits s}" using highest_bit_in_space [OF assms] by auto
  have card_P: "card ?P = length (sp_basis s)"
    using distinct_card [OF distinct_set_bits, of "sp_pivot_mask s"] set_bits_pivot_mask [OF assms]
    by (metis length_map list.set_map)
  with card_mono [OF _ P] show "length (sp_basis s) \<le> sp_bits s" by simp
  have "{n. n < 32 \<and> bit (sp_nonpivot_mask s) n} = {..<sp_bits s} - ?P"
    using assms by (auto simp: bit_nonpivot_mask [OF assms]) (simp add: span_ok_def)
  then show "count_ones (sp_nonpivot_mask s) = sp_bits s - length (sp_basis s)"
    using card_Diff_subset [OF finite_subset [OF P] P] card_P by (simp add: count_ones_card)
qed

lemma representative_props:
  assumes "span_ok s"
  shows "b XOR representative_of s b \<in> delta_span (sp_basis s)"
    and "\<And>v. v \<in> set (sp_basis s) \<Longrightarrow> \<not> bit (representative_of s b) (highest_bit v)"
    and "in_space (sp_bits s) b \<Longrightarrow> in_space (sp_bits s) (representative_of s b)"
proof -
  note ech = span_ok_echelon [OF assms]
  show 1: "b XOR representative_of s b \<in> delta_span (sp_basis s)"
    unfolding representative_of_def by (rule reduce_by_in_span [OF ech])
  show "\<And>v. v \<in> set (sp_basis s) \<Longrightarrow> \<not> bit (representative_of s b) (highest_bit v)"
    unfolding representative_of_def by (rule reduce_by_clears [OF ech])
  assume "in_space (sp_bits s) b"
  moreover have "in_space (sp_bits s) (b XOR representative_of s b)"
    using 1 assms by (intro in_space_delta_span [OF _ 1]) (auto simp: span_ok_def)
  ultimately have "in_space (sp_bits s) (b XOR (b XOR representative_of s b))" by (rule in_space_xor)
  then show "in_space (sp_bits s) (representative_of s b)" by simp
qed

lemma member_coordinate:
  assumes "span_ok s"
  shows "coset_member s (representative_of s b) (coordinate_of bmi2 s (b XOR representative_of s b)) = b"
proof -
  have "map (bit (coordinate_of bmi2 s (b XOR representative_of s b))) [0..<length (sp_basis s)] =
      map (\<lambda>v. bit b (highest_bit v)) (sp_basis s)"
    using representative_props(2) [OF assms]
    by (intro nth_equalityI) (auto simp: bit_coordinate_of [OF assms] bit_xor_iff)
  then show ?thesis
    using reduce_by_eq [OF span_ok_echelon [OF assms], of b]
    by (simp add: coset_member_eq representative_of_def xor.assoc)
qed

lemma coordinate_member:
  assumes "span_ok s" "\<And>v. v \<in> set (sp_basis s) \<Longrightarrow> \<not> bit rep (highest_bit v)"
  shows "representative_of s (coset_member s rep i) = rep"
    and "coordinate_of bmi2 s (coset_member s rep i XOR rep) = take_bit (length (sp_basis s)) i"
proof -
  note ech = span_ok_echelon [OF assms(1)]
  have diff: "coset_member s rep i XOR rep = xor_sel (sp_basis s) (map (bit i) [0..<length (sp_basis s)])"
    by (simp add: coset_member_eq ac_simps)
  then show "representative_of s (coset_member s rep i) = rep"
    unfolding representative_of_def using assms(2)
    by (intro reduce_by_unique [OF ech]) (auto simp: delta_span_def)
  show "coordinate_of bmi2 s (coset_member s rep i XOR rep) = take_bit (length (sp_basis s)) i"
    unfolding diff
    by (rule bit_word_eqI)
      (auto simp: bit_coordinate_of [OF assms(1)] bit_xor_sel_pivot [OF ech] bit_take_bit_iff)
qed

lemma representative_at_props:
  assumes "span_ok s"
  shows "\<And>v. v \<in> set (sp_basis s) \<Longrightarrow> \<not> bit (representative_at bmi2 s c) (highest_bit v)"
    and "in_space (sp_bits s) (representative_at bmi2 s c)"
  using assms
  by (auto simp: representative_at_def pdep_eq bit_pdep_u32 bit_nonpivot_mask in_space_def)

lemma representative_at_rank:
  assumes "span_ok s" "in_space (sp_bits s) b"
  shows "representative_at bmi2 s (rank_of_representative bmi2' s (representative_of s b)) =
    representative_of s b"
proof -
  have "representative_of s b AND sp_nonpivot_mask s = representative_of s b"
    using representative_props(2) [OF assms(1), of _ b] representative_props(3) [OF assms]
    by (intro bit_word_eqI) (auto simp: bit_and_iff bit_nonpivot_mask [OF assms(1)] in_space_def)
  then show ?thesis
    by (simp add: representative_at_def rank_of_representative_def pdep_pext)
qed

lemma split_index:
  fixes a c :: u32
  assumes "\<And>n. bit a n \<Longrightarrow> n + r < 32" "\<And>n. bit c n \<Longrightarrow> n < r"
  shows "drop_bit r (push_bit r a OR c) = a" "take_bit r (push_bit r a OR c) = c"
proof -
  have "bit (drop_bit r (push_bit r a OR c)) n \<longleftrightarrow> bit a n" for n
    using assms(1) [of n] assms(2) [of "r + n"]
    by (auto simp: bit_drop_bit_eq bit_or_iff bit_push_bit_iff)
  then show "drop_bit r (push_bit r a OR c) = a" by (simp add: bit_eq_iff)
  have "bit (take_bit r (push_bit r a OR c)) n \<longleftrightarrow> bit c n" for n
    using assms(2) by (auto simp: bit_take_bit_iff bit_or_iff bit_push_bit_iff)
  then show "take_bit r (push_bit r a OR c) = c" by (simp add: bit_eq_iff)
qed

lemma split_recombine: "push_bit r (drop_bit r w) OR take_bit r w = w" for w :: u32
proof (rule bit_word_eqI)
  fix n
  show "bit (push_bit r (drop_bit r w) OR take_bit r w) n \<longleftrightarrow> bit w n"
    using bit_imp_le_length [of w n]
    by (cases "n < r") (auto simp: bit_or_iff bit_push_bit_iff bit_take_bit_iff bit_drop_bit_eq)
qed

text \<open>The high part of a position is the coset's rank, the low \<open>r\<close> bits the member's coordinate.\<close>

lemma permuted_index_parts:
  fixes b :: u32
  assumes "span_ok s"
  defines "r \<equiv> length (sp_basis s)" and "rep \<equiv> representative_of s b"
  shows "drop_bit r (permuted_index bmi2 s b) = rank_of_representative bmi2 s rep"
    and "take_bit r (permuted_index bmi2 s b) = coordinate_of bmi2 s (b XOR rep)"
    and "in_space (sp_bits s) (permuted_index bmi2 s b)"
proof -
  note dims = count_ones_nonpivot_mask [OF assms(1), folded r_def]
  have rank: "n + r < sp_bits s" if "bit (rank_of_representative bmi2 s rep) n" for n
    using that dims by (auto simp: rank_of_representative_def bit_pext)
  have coord: "n < r" if "bit (coordinate_of bmi2 s d) n" for n d
    using that by (simp add: bit_coordinate_of [OF assms(1)] r_def)
  have bits: "sp_bits s < 32" using assms(1) by (simp add: span_ok_def)
  have eq: "permuted_index bmi2 s b =
      push_bit r (rank_of_representative bmi2 s rep) OR coordinate_of bmi2 s (b XOR rep)"
    by (simp add: permuted_index_def r_def rep_def Let_def)
  show "drop_bit r (permuted_index bmi2 s b) = rank_of_representative bmi2 s rep"
    and "take_bit r (permuted_index bmi2 s b) = coordinate_of bmi2 s (b XOR rep)"
    unfolding eq by (rule split_index [OF less_trans [OF rank bits] coord]; assumption)+
  show "in_space (sp_bits s) (permuted_index bmi2 s b)"
    unfolding eq in_space_def
  proof (intro allI impI)
    fix n assume "bit (push_bit r (rank_of_representative bmi2 s rep) OR coordinate_of bmi2 s (b XOR rep)) n"
    then show "n < sp_bits s"
      using rank [of "n - r"] coord [of "b XOR rep" n] dims(2) by (auto simp: bit_or_iff bit_push_bit_iff)
  qed
qed

text \<open>The bucket at a position, as \<open>rebuild\<close> tabulates the inverse.\<close>

definition member_at :: "bool \<Rightarrow> gf2_span_index \<Rightarrow> u32 \<Rightarrow> u32" where
  "member_at bmi2 s position =
     coset_member s (representative_at bmi2 s (drop_bit (length (sp_basis s)) position))
       (position AND (push_bit (length (sp_basis s)) 1 - 1))"

lemma and_mask_eq: "w AND (push_bit r 1 - 1) = take_bit r w" for w :: "'a::len word"
  by (simp add: push_bit_of_1 take_bit_eq_mask flip: mask_eq_exp_minus_1)

lemma member_at_permuted_index:
  assumes "span_ok s" "in_space (sp_bits s) b"
  shows "member_at bmi2 s (permuted_index bmi2 s b) = b"
  unfolding member_at_def and_mask_eq permuted_index_parts [OF assms(1)]
    representative_at_rank [OF assms] by (rule member_coordinate [OF assms(1)])

lemma permuted_index_member_at:
  assumes "span_ok s" "in_space (sp_bits s) p"
  shows "permuted_index bmi2 s (member_at bmi2 s p) = p"
    and "in_space (sp_bits s) (member_at bmi2 s p)"
proof -
  let ?r = "length (sp_basis s)" and ?rep = "representative_at bmi2 s (drop_bit (length (sp_basis s)) p)"
  note rep = representative_at_props [OF assms(1)]
  have m: "member_at bmi2 s p = coset_member s ?rep (take_bit ?r p)"
    unfolding member_at_def and_mask_eq ..
  have "bit (drop_bit ?r p) n \<Longrightarrow> n < sp_bits s - ?r" for n
    using assms(2) by (auto simp: bit_drop_bit_eq in_space_def less_diff_conv add.commute)
  then have "take_bit (sp_bits s - ?r) (drop_bit ?r p) = drop_bit ?r p"
    by (intro bit_word_eqI) (auto simp: bit_take_bit_iff)
  then have "rank_of_representative bmi2 s ?rep = drop_bit ?r p"
    unfolding rank_of_representative_def representative_at_def pext_pdep
      count_ones_nonpivot_mask(1) [OF assms(1)] .
  moreover have "push_bit ?r (drop_bit ?r p) OR take_bit ?r p = p"
    by (rule split_recombine)
  ultimately show "permuted_index bmi2 s (member_at bmi2 s p) = p"
    unfolding m permuted_index_def Let_def
    by (simp add: coordinate_member [OF assms(1) rep(1)])
  have "\<And>v. v \<in> set (sp_basis s) \<Longrightarrow> in_space (sp_bits s) v" using assms(1) by (simp add: span_ok_def)
  then show "in_space (sp_bits s) (member_at bmi2 s p)"
    unfolding m coset_member_eq by (intro in_space_xor rep(2) in_space_xor_sel)
qed

section \<open>The order of a layer\<close>

lemma representative_eq_iff:
  "span_ok s \<Longrightarrow> representative_of s b = representative_of s c \<longleftrightarrow> b XOR c \<in> delta_span (sp_basis s)"
  unfolding representative_of_def by (rule reduce_by_eq_iff [OF span_ok_echelon])

lemma same_coset_iff:
  assumes "span_ok s" "in_space (sp_bits s) b" "in_space (sp_bits s) c"
  shows "drop_bit (length (sp_basis s)) (permuted_index bmi2 s b) =
      drop_bit (length (sp_basis s)) (permuted_index bmi2 s c)
    \<longleftrightarrow> b XOR c \<in> delta_span (sp_basis s)"
  unfolding permuted_index_parts(1) [OF assms(1)] representative_eq_iff [OF assms(1), symmetric]
  by (metis assms representative_at_rank)

lemma tabulate_nth: "unat b < n \<Longrightarrow> tabulate n f ! unat b = f b"
  by (simp add: tabulate_def)

lemma permuted_index_trivial:
  assumes "span_ok s" "length (sp_basis s) = 0" "in_space (sp_bits s) b"
  shows "permuted_index bmi2 s b = b"
proof -
  have basis: "sp_basis s = []" using assms(2) by simp
  have np: "set_bits (sp_nonpivot_mask s) = [0..<sp_bits s]"
    by (rule set_bits_eqI) (use assms basis in \<open>auto simp: bit_nonpivot_mask\<close>)
  have count: "count_ones (sp_nonpivot_mask s) = sp_bits s"
    using count_ones_nonpivot_mask(1) [OF assms(1)] basis by simp
  have "permuted_index bmi2 s b = pext bmi2 b (sp_nonpivot_mask s) OR coordinate_of bmi2 s 0"
    by (simp add: permuted_index_def representative_of_def reduce_by_def basis
        rank_of_representative_def)
  then show ?thesis
    using assms(3)
    by (intro bit_word_eqI)
      (auto simp: bit_or_iff bit_pext count np bit_coordinate_of [OF assms(1)] in_space_def)
qed

lemma order_rebuild_at:
  assumes "span_ok s" "in_space (sp_bits s) b"
  shows "position_of (order_rebuild bmi2 s w) b = permuted_index bmi2 s b"
    and "bucket_at (order_rebuild bmi2 s True) b = member_at bmi2 s b"
proof -
  have "unat b < 2 ^ sp_bits s"
    using assms by (simp add: in_space_iff_less span_ok_def)
  then show "position_of (order_rebuild bmi2 s w) b = permuted_index bmi2 s b"
    and "bucket_at (order_rebuild bmi2 s True) b = member_at bmi2 s b"
    using permuted_index_trivial [OF assms(1) _ assms(2)] member_at_permuted_index [OF assms]
    by (auto simp: order_rebuild_def position_of_def bucket_at_def span_dimension_def Let_def
        member_at_def tabulate_nth) (auto simp: tabulate_def)
qed

text \<open>
  C10. Cosets are closed tasks: when the span is built from the buckets of a channel's key deltas, the
  output bucket of any key under any sequence of those deltas has the representative of the input
  bucket, so a coset's outputs are read and written inside the coset; and the representatives
  separate exactly the cosets of the deltas' span.
\<close>

theorem cosets_are_closed_tasks:
  assumes "span_new (map (bucket_of h) deltas) (gh_bits h) = Inr s"
    and "wf_key W k" "\<forall>d \<in> set deltas. wf_key W d" "set ds \<subseteq> set deltas"
  shows "representative_of s (bucket_of h (fold (\<lambda>d k. xor_key k d) ds k)) =
      representative_of s (bucket_of h k)
    \<and> (\<forall>b c. representative_of s b = representative_of s c \<longleftrightarrow>
         b XOR c \<in> delta_span (map (bucket_of h) deltas))"
proof -
  note s = span_new_ok [OF assms(1)]
  have rep: "representative_of s b = representative_of s c \<longleftrightarrow>
      b XOR c \<in> delta_span (map (bucket_of h) deltas)" for b c
    by (simp add: representative_eq_iff s)
  have kept: "representative_of s (fold (\<lambda>d b. b XOR bucket_of h d) ds b) = representative_of s b" for b
    using assms(4)
  proof (induction ds arbitrary: b)
    case (Cons d ds)
    then have "bucket_of h d \<in> delta_span (map (bucket_of h) deltas)"
      by (intro delta_span_base) auto
    then have "representative_of s (b XOR bucket_of h d) = representative_of s b"
      unfolding rep by (simp add: ac_simps)
    with Cons show ?case by simp
  qed simp
  have "\<forall>d \<in> set ds. wf_key W d" using assms(3,4) by blast
  from bucket.index_fold [OF assms(2) this] kept rep show ?thesis by simp
qed

text \<open>
  C11. The coset order is a permutation of the buckets with \<open>bucket_at\<close> as the inverse of
  \<open>position_of\<close>, whether or not the CPU has BMI2, and two buckets share the high part of their
  positions exactly when they lie in one coset: coset \<open>c\<close> owns the positions from \<open>c * 2^r\<close> up to
  \<open>(c + 1) * 2^r\<close>, so the coset tasks of a layer write disjoint ranges.
\<close>

theorem coset_order_permutation:
  assumes "span_new deltas bits = Inr s"
  shows "bij_betw (position_of (order_rebuild bmi2 s True)) {b. unat b < 2 ^ bits} {p. unat p < 2 ^ bits}
    \<and> (\<forall>b. unat b < 2 ^ bits \<longrightarrow>
         bucket_at (order_rebuild bmi2 s True) (position_of (order_rebuild bmi2 s True) b) = b)
    \<and> (\<forall>b c. unat b < 2 ^ bits \<and> unat c < 2 ^ bits \<longrightarrow>
         (drop_bit (span_dimension s) (position_of (order_rebuild bmi2 s True) b) =
            drop_bit (span_dimension s) (position_of (order_rebuild bmi2 s True) c)
          \<longleftrightarrow> b XOR c \<in> delta_span deltas))"
proof -
  note s = span_new_ok [OF assms]
  have space: "unat b < 2 ^ bits \<longleftrightarrow> in_space (sp_bits s) b" for b
    using in_space_iff_less [of bits b] s(1,2) by (simp add: span_ok_def)
  note at = order_rebuild_at [OF s(1)]
  have "bij_betw (permuted_index bmi2 s) {b. in_space (sp_bits s) b} {p. in_space (sp_bits s) p}"
    by (rule bij_betw_byWitness [of _ "member_at bmi2 s"])
      (auto simp: member_at_permuted_index permuted_index_member_at permuted_index_parts(3) s(1))
  then have "bij_betw (position_of (order_rebuild bmi2 s True)) {b. in_space (sp_bits s) b}
      {p. in_space (sp_bits s) p}"
    by (rule bij_betw_cong [THEN iffD2, rotated]) (simp add: at)
  then show ?thesis
    unfolding space
    by (auto simp: at permuted_index_parts(3) s(1,3) member_at_permuted_index same_coset_iff span_dimension_def)
qed

theorem cosets_are_closed_tasks_witness:
  "representative_of \<lparr>sp_basis = [3], sp_pivot_mask = 2, sp_bits = 2, sp_nonpivot_mask = 1\<rparr>
     (bucket_of \<lparr>gh_matrix = \<lparr>rows_x = [[1], [0]], rows_z = [[0], [1]], gm_qubits = 1\<rparr>, gh_bits = 2, gh_seed = 0\<rparr>
       (fold (\<lambda>d k. xor_key k d) [([1], [1])] ([0], [1]))) =
   representative_of \<lparr>sp_basis = [3], sp_pivot_mask = 2, sp_bits = 2, sp_nonpivot_mask = 1\<rparr> 2"
proof -
  let ?h = "\<lparr>gh_matrix = \<lparr>rows_x = [[1], [0]], rows_z = [[0], [1]], gm_qubits = 1\<rparr>, gh_bits = 2, gh_seed = 0\<rparr>"
  have "span_new (map (bucket_of ?h) [([1], [1])]) (gh_bits ?h) =
      Inr \<lparr>sp_basis = [3], sp_pivot_mask = 2, sp_bits = 2, sp_nonpivot_mask = 1\<rparr>"
    "bucket_of ?h ([0], [1]) = 2"
    by code_simp+
  then show ?thesis
    using cosets_are_closed_tasks [of ?h "[([1], [1])]" _ 1 "([0], [1])" "[([1], [1])]"]
    by (simp add: wf_key_def)
qed

theorem coset_order_permutation_witness:
  "\<exists>s. span_new [3, 5] 3 = Inr s \<and>
     bij_betw (position_of (order_rebuild False s True)) {b. unat b < 2 ^ 3} {p. unat p < 2 ^ 3}"
proof -
  have "span_new [3, 5] 3 = Inr \<lparr>sp_basis = [3, 5], sp_pivot_mask = 6, sp_bits = 3, sp_nonpivot_mask = 1\<rparr>"
    by code_simp
  with coset_order_permutation [of "[3, 5]" 3] show ?thesis by blast
qed

end
