(* ===== verification/Boundary_Quota.thy ===== *)
theory Boundary_Quota
  imports Storage_Lookup
begin

unbundle bit_operations_syntax

text \<open>
  The boundary quota of \<open>truncation/builtin.rs\<close>: keep every term above a boundary and the first \<open>quota\<close> terms at it, in
  bucket order. The buckets are filtered independently, each with its share of the quota; the share is found by a
  chunked scan. The reference is one scan over all terms.
\<close>

datatype ordering = Less | Equal | Greater

section \<open>The code\<close>

record quota_split =
  qs_bucket :: nat
  qs_remaining :: nat

definition CHUNK :: nat where
  "CHUNK = 1024"

definition chunk_sum :: "(nat \<Rightarrow> nat) \<Rightarrow> nat \<Rightarrow> nat \<Rightarrow> nat" where
  "chunk_sum cnt buckets chunk = sum_list (map cnt [chunk * CHUNK..<min buckets ((chunk + 1) * CHUNK)])"

text \<open>The loop over whole chunks, and the one over the buckets of the chunk it stops in.\<close>

fun skip_chunks :: "nat list \<Rightarrow> nat \<times> nat \<Rightarrow> nat \<times> nat" where
  "skip_chunks [] (remaining, start) = (remaining, start)"
| "skip_chunks (c # cs) (remaining, start) =
     (if c > remaining then (remaining, start) else skip_chunks cs (remaining - c, start + CHUNK))"

fun find_bucket :: "(nat \<Rightarrow> nat) \<Rightarrow> nat list \<Rightarrow> nat \<Rightarrow> quota_split result" where
  "find_bucket cnt [] remaining = Inl Unreachable"
| "find_bucket cnt (b # bs) remaining =
     (if cnt b > remaining then Inr \<lparr>qs_bucket = b, qs_remaining = remaining\<rparr>
      else find_bucket cnt bs (remaining - cnt b))"

definition quota_split_new :: "(nat \<Rightarrow> nat) \<Rightarrow> nat \<Rightarrow> nat \<Rightarrow> nat \<Rightarrow> quota_split result" where
  "quota_split_new cnt buckets in_all quota =
     (if quota \<ge> in_all then Inr \<lparr>qs_bucket = buckets, qs_remaining = 0\<rparr>
      else if quota = 0 then Inr \<lparr>qs_bucket = 0, qs_remaining = 0\<rparr>
      else let chunk_counts = map (chunk_sum cnt buckets) [0..<(buckets + CHUNK - 1) div CHUNK];
               (remaining, start) = skip_chunks chunk_counts (quota, 0)
           in find_bucket cnt [start..<buckets] remaining)"

definition split_quota :: "quota_split \<Rightarrow> nat \<Rightarrow> nat" where
  "split_quota qs b = (if b < qs_bucket qs then usize_max else if b = qs_bucket qs then qs_remaining qs else 0)"

definition boundary_filter ::
    "'c coefficient \<Rightarrow> (real \<Rightarrow> ordering) \<Rightarrow> nat \<Rightarrow> key \<Rightarrow> 'c \<Rightarrow> bool \<times> nat" where
  "boundary_filter C classify quota k c =
     (let side = classify (norm_sqr C c);
          at_it = (side = Equal \<and> quota > 0)
      in (side = Greater \<or> at_it, quota - of_bool at_it))"

definition boundary_counts :: "'c coefficient \<Rightarrow> (real \<Rightarrow> ordering) \<Rightarrow> 'c pauli_sum \<Rightarrow> nat list" where
  "boundary_counts C classify s =
     map (\<lambda>cols. length (filter (\<lambda>c. classify (norm_sqr C c) = Equal) (col_coeff cols))) (pm_buckets s)"

definition retain_with_boundary_quota ::
    "'c coefficient \<Rightarrow> 'c pauli_sum \<Rightarrow> (real \<Rightarrow> ordering) \<Rightarrow> nat \<Rightarrow> 'c pauli_sum result" where
  "retain_with_boundary_quota C s classify quota =
     (let counts = boundary_counts C classify s
      in and_then (quota_split_new (\<lambda>b. counts ! b) (length counts) (sum_list counts) quota) (\<lambda>split.
           Inr (retain_per_bucket (\<lambda>b. (boundary_filter C classify, split_quota split b)) s)))"

section \<open>The reference\<close>

fun keep_first :: "('a \<Rightarrow> ordering) \<Rightarrow> nat \<Rightarrow> 'a list \<Rightarrow> 'a list" where
  "keep_first side quota [] = []"
| "keep_first side quota (x # xs) =
     (if side x = Greater then x # keep_first side quota xs
      else if side x = Equal \<and> quota > 0 then x # keep_first side (quota - 1) xs
      else keep_first side quota xs)"

abbreviation ties :: "('a \<Rightarrow> ordering) \<Rightarrow> 'a list \<Rightarrow> nat" where
  "ties side xs \<equiv> length (filter (\<lambda>x. side x = Equal) xs)"

lemma length_keep_first:
  "length (keep_first side q xs) = length (filter (\<lambda>x. side x = Greater) xs) + min q (ties side xs)"
  by (induction xs arbitrary: q) auto

lemma keep_first_append:
  "keep_first side q (xs @ ys) = keep_first side q xs @ keep_first side (q - ties side xs) ys"
proof (induction xs arbitrary: q)
  case (Cons x xs)
  then show ?case by (cases q; cases "side x") auto
qed simp

lemma keep_first_enough: "ties side xs \<le> q \<Longrightarrow> ties side xs \<le> r \<Longrightarrow> keep_first side q xs = keep_first side r xs"
proof (induction xs arbitrary: q r)
  case (Cons x xs)
  show ?case
  proof (cases "side x")
    case Equal
    with Cons.prems obtain q' r' where "q = Suc q'" "r = Suc r'" by (cases q; cases r) auto
    with Equal Cons.prems Cons.IH [of q' r'] show ?thesis by simp
  qed (use Cons.prems Cons.IH [of q r] in simp_all)
qed simp

lemma keep_first_subset: "set (keep_first side q xs) \<subseteq> {x \<in> set xs. side x \<noteq> Less}"
  by (induction xs arbitrary: q) auto

lemma keep_first_Greater: "x \<in> set xs \<Longrightarrow> side x = Greater \<Longrightarrow> x \<in> set (keep_first side q xs)"
  by (induction xs arbitrary: q) auto

lemma keep_first_concat:
  "keep_first side q (concat L) =
     concat (map (\<lambda>b. keep_first side (q - sum_list (map (ties side) (take b L))) (L ! b)) [0..<length L])"
proof (induction L arbitrary: q)
  case (Cons xs L)
  have "[0..<length (xs # L)] = 0 # map Suc [0..<length L]"
    by (simp add: map_Suc_upt upt_conv_Cons del: upt_Suc)
  with Cons show ?case by (simp add: keep_first_append comp_def diff_diff_left del: upt_Suc)
qed simp

section \<open>The split\<close>

definition split_ok :: "(nat \<Rightarrow> nat) \<Rightarrow> nat \<Rightarrow> nat \<Rightarrow> quota_split \<Rightarrow> bool" where
  "split_ok cnt buckets quota qs \<longleftrightarrow>
     (\<forall>b < buckets. (b < qs_bucket qs \<longrightarrow> sum_list (map cnt [0..<Suc b]) \<le> quota) \<and>
       (b = qs_bucket qs \<longrightarrow> qs_remaining qs = quota - sum_list (map cnt [0..<b])) \<and>
       (qs_bucket qs < b \<longrightarrow> quota \<le> sum_list (map cnt [0..<b])))"

lemma sum_prefix_mono: "i \<le> j \<Longrightarrow> sum_list (map cnt [0..<i]) \<le> sum_list (map cnt [0..<j])" for cnt :: "nat \<Rightarrow> nat"
  by (induction j rule: dec_induct) simp_all

lemma find_bucket_ok:
  assumes "start \<le> buckets" "sum_list (map cnt [0..<start]) \<le> quota" "quota < sum_list (map cnt [0..<buckets])"
  shows "\<exists>qs. find_bucket cnt [start..<buckets] (quota - sum_list (map cnt [0..<start])) = Inr qs \<and> split_ok cnt buckets quota qs"
  using assms
proof (induction "buckets - start" arbitrary: start)
  case 0
  then show ?case by simp
next
  case (Suc n)
  then have start: "start < buckets" by simp
  let ?p = "\<lambda>i. sum_list (map cnt [0..<i])"
  show ?case
  proof (cases "quota - ?p start < cnt start")
    case True
    have below: "?p (Suc b) \<le> quota" if "b < start" for b
      using sum_prefix_mono [of "Suc b" start cnt] that Suc.prems(2) by simp
    have above: "quota \<le> ?p b" if "start < b" for b
      using sum_prefix_mono [of "Suc start" b cnt] that True Suc.prems(2) by simp
    have "split_ok cnt buckets quota \<lparr>qs_bucket = start, qs_remaining = quota - ?p start\<rparr>"
      using below above unfolding split_ok_def by (simp del: upt_Suc)
    with True start show ?thesis by (simp add: upt_conv_Cons)
  next
    case False
    then have "?p (Suc start) \<le> quota" using Suc.prems(2) by simp
    with Suc.hyps(1) [of "Suc start"] Suc.hyps(2) Suc.prems start False show ?thesis
      by (simp add: upt_conv_Cons diff_diff_left)
  qed
qed

lemma chunk_sum_prefix:
  "sum_list (map cnt [0..<min buckets (Suc k * CHUNK)]) = sum_list (map cnt [0..<min buckets (k * CHUNK)]) + chunk_sum cnt buckets k"
proof (cases "k * CHUNK \<le> buckets")
  case True
  then have "[0..<min buckets (Suc k * CHUNK)] = [0..<k * CHUNK] @ [k * CHUNK..<min buckets (Suc k * CHUNK)]"
    using upt_add_eq_append [of 0 "k * CHUNK" "min buckets (Suc k * CHUNK) - k * CHUNK"] by simp
  with True show ?thesis by (simp add: chunk_sum_def min_absorb2)
next
  case False
  then have "min buckets (Suc k * CHUNK) = buckets" "min buckets (k * CHUNK) = buckets" by simp_all
  with False show ?thesis by (simp add: chunk_sum_def)
qed

lemma skip_chunks_ok:
  assumes "sum_list (map cnt [0..<min buckets (k * CHUNK)]) \<le> quota"
  shows "case skip_chunks (map (chunk_sum cnt buckets) [k..<m]) (quota - sum_list (map cnt [0..<min buckets (k * CHUNK)]), k * CHUNK)
    of (r, st) \<Rightarrow> sum_list (map cnt [0..<min buckets st]) \<le> quota \<and> r = quota - sum_list (map cnt [0..<min buckets st])"
  using assms
proof (induction "m - k" arbitrary: k)
  case (Suc n)
  then have k: "[k..<m] = k # [Suc k..<m]" by (simp add: upt_conv_Cons)
  show ?case
  proof (cases "quota - sum_list (map cnt [0..<min buckets (k * CHUNK)]) < chunk_sum cnt buckets k")
    case False
    then have "sum_list (map cnt [0..<min buckets (Suc k * CHUNK)]) \<le> quota"
      using Suc.prems unfolding chunk_sum_prefix by simp
    from Suc.hyps(1) [OF _ this] Suc.hyps(2) False show ?thesis
      unfolding k chunk_sum_prefix by (simp add: diff_diff_left add.commute)
  qed (use Suc.prems k in simp)
qed simp

lemma quota_split_ok:
  assumes "in_all = sum_list (map cnt [0..<buckets])"
  shows "\<exists>qs. quota_split_new cnt buckets in_all quota = Inr qs \<and> split_ok cnt buckets quota qs"
proof (cases "in_all \<le> quota \<or> quota = 0")
  case True
  have "sum_list (map cnt [0..<Suc b]) \<le> quota" if "in_all \<le> quota" "b < buckets" for b
    using sum_prefix_mono [of "Suc b" buckets cnt] that assms by simp
  with True show ?thesis by (auto simp: quota_split_new_def split_ok_def simp del: upt_Suc)
next
  case False
  let ?cs = "map (chunk_sum cnt buckets) [0..<(buckets + CHUNK - 1) div CHUNK]"
  obtain r st where skip: "skip_chunks ?cs (quota, 0) = (r, st)" by (cases "skip_chunks ?cs (quota, 0)")
  have st: "sum_list (map cnt [0..<min buckets st]) \<le> quota" "r = quota - sum_list (map cnt [0..<min buckets st])"
    using skip_chunks_ok [of cnt buckets 0 quota "(buckets + CHUNK - 1) div CHUNK"] skip by simp_all
  have "st < buckets"
  proof (rule ccontr)
    assume "\<not> st < buckets"
    then show False using st(1) False assms by (simp add: min_absorb1)
  qed
  then have "\<exists>qs. find_bucket cnt [st..<buckets] r = Inr qs \<and> split_ok cnt buckets quota qs"
    using find_bucket_ok [of st buckets cnt quota] st False assms by (simp add: min_absorb2)
  with False skip show ?thesis by (simp add: quota_split_new_def)
qed

section \<open>The pass keeps the first \<open>quota\<close> ties\<close>

lemma update_boundary_filter:
  "fst (update_terms (then_some (boundary_filter C classify)) q ts) =
     keep_first (\<lambda>t. classify (norm_sqr C (snd t))) q ts"
proof (induction ts arbitrary: q)
  case (Cons t ts)
  then show ?case
    by (cases t) (auto simp: update_terms_Cons then_some_def boundary_filter_def Let_def)
qed simp

lemma split_quota_keeps:
  assumes "split_ok cnt (length L) quota qs" "b < length L" "\<And>b. b < length L \<Longrightarrow> cnt b = ties side (L ! b)"
    "ties side (L ! b) \<le> usize_max"
  shows "keep_first side (split_quota qs b) (L ! b) =
    keep_first side (quota - sum_list (map (ties side) (take b L))) (L ! b)"
proof -
  have prefix: "sum_list (map (ties side) (take j L)) = sum_list (map cnt [0..<j])" if "j \<le> length L" for j
    using assms(3) that by (intro arg_cong [of _ _ sum_list] nth_equalityI) auto
  have cases: "b < qs_bucket qs \<longrightarrow> sum_list (map cnt [0..<Suc b]) \<le> quota"
      "b = qs_bucket qs \<longrightarrow> qs_remaining qs = quota - sum_list (map cnt [0..<b])"
      "qs_bucket qs < b \<longrightarrow> quota \<le> sum_list (map cnt [0..<b])"
    using assms(1,2) unfolding split_ok_def by blast+
  show ?thesis
  proof (cases b "qs_bucket qs" rule: linorder_cases)
    case less
    then have "ties side (L ! b) \<le> quota - sum_list (map cnt [0..<b])" using cases(1) assms(2,3) by simp
    from keep_first_enough [OF assms(4) this] show ?thesis using less assms(2) by (simp add: split_quota_def prefix)
  qed (use cases assms(2) in \<open>auto simp: split_quota_def prefix\<close>)
qed

text \<open>An in-place update of every bucket keeps the invariant, whatever the closures decide.\<close>

lemma update_per_bucket_ok:
  fixes uf s
  assumes "sum_inv W s"
  defines "s' \<equiv> update_per_bucket uf s"
  shows "sum_inv W s'" "pm_hash s' = pm_hash s" "pm_num_qubits s' = pm_num_qubits s"
    "map terms_of (pm_buckets s') =
      map (\<lambda>b. fst (update_terms (fst (uf b)) (snd (uf b)) (terms_of (pm_buckets s ! b)))) [0..<length (pm_buckets s)]"
proof -
  let ?n = "length (pm_buckets s)"
  let ?g = "\<lambda>b. fst (columns_update (fst (uf b)) (snd (uf b)) (pm_buckets s ! b))"
  have buckets: "pm_buckets s' = map ?g [0..<?n]"
    by (auto simp: s'_def update_per_bucket_def recount_def intro!: nth_equalityI)
  have wf: "wf_columns (pm_buckets s ! b)" if "b < ?n" for b
    using sum_inv_bucket(1) [OF assms(1) that] .
  show same: "pm_hash s' = pm_hash s" "pm_num_qubits s' = pm_num_qubits s"
    by (simp_all add: s'_def update_per_bucket_def recount_def)
  show terms: "map terms_of (pm_buckets s') =
      map (\<lambda>b. fst (update_terms (fst (uf b)) (snd (uf b)) (terms_of (pm_buckets s ! b)))) [0..<?n]"
    unfolding buckets using wf by (auto simp: columns_update_terms)
  have wf': "\<forall>cols \<in> set (pm_buckets s'). wf_columns cols"
    unfolding buckets using wf by (auto simp: columns_update_terms)
  have key: "P (fst t)" if "b < ?n" "t \<in> set (terms_of (pm_buckets s' ! b))" "\<forall>u \<in> set (terms_of (pm_buckets s ! b)). P (fst u)" for P b t
    using update_terms_keys [OF that(3), of "fst (uf b)" "snd (uf b)"] that(1,2) wf [OF that(1)]
    by (auto simp: buckets columns_update_terms)
  have "bucketed (bucket_ix (pm_hash s)) (map terms_of (pm_buckets s'))"
    unfolding bucketed_def
  proof (intro allI impI)
    fix b assume "b < length (map terms_of (pm_buckets s'))"
    then have b: "b < ?n" by (simp add: buckets)
    show "run (map terms_of (pm_buckets s') ! b) \<and> (\<forall>t \<in> set (map terms_of (pm_buckets s') ! b). bucket_ix (pm_hash s) (fst t) = b)"
      using run_update_terms [OF sum_inv_bucket(2) [OF assms(1) b]] sum_inv_bucket(3) [OF assms(1) b] b wf [OF b]
        key [OF b, where P = "\<lambda>k. bucket_ix (pm_hash s) k = b"]
      by (simp add: buckets columns_update_terms)
  qed
  moreover have "\<forall>t \<in> set (sum_iter s'). key_ok W (pm_num_qubits s) (fst t)"
  proof
    fix t assume "t \<in> set (sum_iter s')"
    then obtain cols where "cols \<in> set (pm_buckets s')" "t \<in> set (terms_of cols)" by (auto simp: sum_iter_def)
    then obtain b where "b < length (pm_buckets s')" "t \<in> set (terms_of (pm_buckets s' ! b))"
      unfolding in_set_conv_nth [of cols] by blast
    then have b: "b < ?n" "t \<in> set (terms_of (pm_buckets s' ! b))" by (simp_all add: buckets)
    show "key_ok W (pm_num_qubits s) (fst t)"
      by (rule key [OF b]) (use sum_inv_bucket(3) [OF assms(1) b(1)] in blast)
  qed
  moreover have "pm_len s' = length (sum_iter s')"
    using sum_len_eq [OF wf'] by (simp add: sum_iter_def) (simp add: s'_def update_per_bucket_def recount_def)
  ultimately show "sum_inv W s'"
    using assms(1) wf' same by (simp add: sum_inv_def buckets)
qed

lemma ties_le_len:
  assumes "sum_inv W s" "b < length (pm_buckets s)"
  shows "ties side (terms_of (pm_buckets s ! b)) \<le> pm_len s"
proof -
  have "length (terms_of (pm_buckets s ! b)) \<le> length (sum_iter s)"
    unfolding sum_iter_def length_concat by (rule member_le_sum_list) (use assms(2) in auto)
  moreover have "pm_len s = length (sum_iter s)" using assms(1) by (simp add: sum_inv_def)
  ultimately show ?thesis
    using length_filter_le [of "\<lambda>x. side x = Equal" "terms_of (pm_buckets s ! b)"] by linarith
qed

text \<open>A split that fits the buckets' ties leaves, bucket by bucket, what one scan over all terms keeps.\<close>

lemma retain_split_keeps:
  fixes C classify qs
  assumes "sum_inv W s" "pm_len s \<le> usize_max" "split_ok cnt (length (pm_buckets s)) quota qs"
    "\<And>b. b < length (pm_buckets s) \<Longrightarrow> cnt b = ties (\<lambda>t. classify (norm_sqr C (snd t))) (terms_of (pm_buckets s ! b))"
  defines "s' \<equiv> retain_per_bucket (\<lambda>b. (boundary_filter C classify, split_quota qs b)) s"
  shows "sum_inv W s'" "pm_hash s' = pm_hash s" "pm_num_qubits s' = pm_num_qubits s"
    "sum_iter s' = keep_first (\<lambda>t. classify (norm_sqr C (snd t))) quota (sum_iter s)"
proof -
  let ?L = "map terms_of (pm_buckets s)" and ?side = "\<lambda>t. classify (norm_sqr C (snd t))"
  note ok = update_per_bucket_ok [OF assms(1), of "\<lambda>b. (then_some (boundary_filter C classify), split_quota qs b)"]
  have "split_ok cnt (length ?L) quota qs" "\<And>b. b < length ?L \<Longrightarrow> cnt b = ties ?side (?L ! b)" using assms(3,4) by simp_all
  then have "map terms_of (pm_buckets s') =
      map (\<lambda>b. keep_first ?side (quota - sum_list (map (ties ?side) (take b ?L))) (?L ! b)) [0..<length ?L]"
    using ok(4) split_quota_keeps [of cnt ?L quota qs _ ?side] order_trans [OF ties_le_len [OF assms(1)] assms(2)]
    by (simp add: s'_def retain_per_bucket_def update_boundary_filter)
  then show "sum_iter s' = keep_first ?side quota (sum_iter s)"
    by (simp add: sum_iter_def keep_first_concat)
  show "sum_inv W s'" "pm_hash s' = pm_hash s" "pm_num_qubits s' = pm_num_qubits s"
    using ok(1-3) by (simp_all add: s'_def retain_per_bucket_def)
qed

lemma bucket_ties:
  assumes "sum_inv W s" "b < length (pm_buckets s)"
  shows "length (filter (\<lambda>c. classify (norm_sqr C c) = Equal) (col_coeff (pm_buckets s ! b))) =
    ties (\<lambda>t. classify (norm_sqr C (snd t))) (terms_of (pm_buckets s ! b))"
proof -
  have "map snd (terms_of (pm_buckets s ! b)) = col_coeff (pm_buckets s ! b)"
    using sum_inv_bucket(1) [OF assms] by (simp add: terms_of_def wf_columns_def)
  then show ?thesis by (simp flip: \<open>map snd _ = _\<close> add: filter_map comp_def)
qed

lemma retain_with_boundary_quota_ok:
  assumes "sum_inv W s" "pm_len s \<le> usize_max"
  shows "\<exists>s'. retain_with_boundary_quota C s classify quota = Inr s' \<and> sum_inv W s' \<and>
    sum_iter s' = keep_first (\<lambda>t. classify (norm_sqr C (snd t))) quota (sum_iter s) \<and>
    pm_hash s' = pm_hash s \<and> pm_num_qubits s' = pm_num_qubits s"
proof -
  let ?counts = "boundary_counts C classify s"
  have len: "length ?counts = length (pm_buckets s)" by (simp add: boundary_counts_def)
  have cnt: "?counts ! b = ties (\<lambda>t. classify (norm_sqr C (snd t))) (terms_of (pm_buckets s ! b))" if "b < length (pm_buckets s)" for b
    using bucket_ties [OF assms(1) that, of classify C] that by (simp add: boundary_counts_def)
  have "sum_list ?counts = sum_list (map ((!) ?counts) [0..<length ?counts])" by (simp only: map_nth)
  then obtain qs where qs: "quota_split_new ((!) ?counts) (length ?counts) (sum_list ?counts) quota = Inr qs"
      "split_ok ((!) ?counts) (length (pm_buckets s)) quota qs"
    using quota_split_ok [of "sum_list ?counts" "(!) ?counts" "length ?counts" quota] len by auto
  note keeps = retain_split_keeps [OF assms qs(2) cnt, simplified]
  from qs(1) show ?thesis
    by (auto simp: retain_with_boundary_quota_def Let_def keeps)
qed

end
