(* ===== verification/Truncation.thy ===== *)
theory Truncation
  imports Boundary_Quota
begin

unbundle bit_operations_syntax

text \<open>
  \<open>truncation/mod.rs\<close> and the first half of \<open>truncation/builtin.rs\<close>: the trait \<open>TruncationPolicy\<close> as a dictionary, the
  two per-term filters, and the exact \<open>TopN\<close> pass. A layer pass may panic and carries the policy's own state (the
  counters of \<open>CollapseSample\<close>). The partitioned pass is a function of the whole group, one state and one sum per
  rank: the ranks issue the same collective calls in lock-step, so a collective sees every rank's contribution.
  Coefficients have no NaN here.
\<close>

section \<open>The trait\<close>

record fused_approx_top_n =
  fused_n :: nat
  agreed :: bool

type_synonym ('s, 'c) layer_pass = "'s \<times> 'c pauli_sum \<Rightarrow> ('s \<times> 'c pauli_sum) result"

type_synonym ('s, 'c) group_pass = "('s \<times> 'c pauli_sum) list \<Rightarrow> ('s \<times> 'c pauli_sum) list result"

record ('s, 'c) truncation_policy =
  keep_term :: "words \<Rightarrow> words \<Rightarrow> 'c \<Rightarrow> bool"
  coefficient_floor :: real
  finalize_layer :: "('s, 'c) layer_pass"
  finalizes_layer :: "bool result"
  finalize_layer_partitioned :: "('s, 'c) group_pass"
  supports_partitioned :: "bool result"
  fused_pass :: "fused_approx_top_n option result"

text \<open>The default methods: no filter, no floor, no pass; the group pass of a policy that has not overridden it.\<close>

definition default_partitioned :: "('s, 'c) layer_pass \<Rightarrow> bool result \<Rightarrow> ('s, 'c) group_pass" where
  "default_partitioned finalize finalizes ranks =
     (if length ranks = 1 then map_result finalize ranks
      else and_then finalizes (\<lambda>f. and_then (assert_that (\<not> f) NoPartitionedPass) (\<lambda>_. Inr ranks)))"

definition default_supports :: "bool result \<Rightarrow> bool result" where
  "default_supports finalizes = and_then finalizes (\<lambda>f. Inr (\<not> f))"

text \<open>A policy that only filters terms and answers \<open>false\<close> to \<open>finalizes_layer\<close>.\<close>

definition term_filter :: "(words \<Rightarrow> words \<Rightarrow> 'c \<Rightarrow> bool) \<Rightarrow> real \<Rightarrow> ('s, 'c) truncation_policy" where
  "term_filter keep floor_of =
     \<lparr>keep_term = keep, coefficient_floor = floor_of, finalize_layer = Inr, finalizes_layer = Inr False,
      finalize_layer_partitioned = default_partitioned Inr (Inr False),
      supports_partitioned = default_supports (Inr False), fused_pass = Inr None\<rparr>"

definition assert_supports_partitions :: "('s, 'c) truncation_policy \<Rightarrow> nat \<Rightarrow> unit result" where
  "assert_supports_partitions policy partitions =
     (if partitions = 1 then Inr ()
      else and_then (supports_partitioned policy) (\<lambda>ok. assert_that ok NotPartitionable))"

section \<open>Per-term filters\<close>

definition threshold_keep :: "'c coefficient \<Rightarrow> real \<Rightarrow> words \<Rightarrow> words \<Rightarrow> 'c \<Rightarrow> bool" where
  "threshold_keep C eps x z c \<longleftrightarrow> eps < 0 \<or> norm_sqr C c > eps * eps"

definition coefficient_threshold :: "'c coefficient \<Rightarrow> real \<Rightarrow> ('s, 'c) truncation_policy" where
  "coefficient_threshold C eps = term_filter (threshold_keep C eps) eps"

definition weight_keep :: "u32 \<Rightarrow> words \<Rightarrow> words \<Rightarrow> 'c \<Rightarrow> bool" where
  "weight_keep k x z c \<longleftrightarrow> sum_list (map (\<lambda>i. count_ones (x ! i OR z ! i)) [0..<length x]) \<le> unat k"

definition weight_cutoff :: "u32 \<Rightarrow> ('s, 'c) truncation_policy" where
  "weight_cutoff k = term_filter (weight_keep k) (- 1)"

section \<open>TopN\<close>

text \<open>The squared magnitudes of all terms in bucket order.\<close>

definition magnitudes :: "'c coefficient \<Rightarrow> 'c pauli_sum \<Rightarrow> real list" where
  "magnitudes C s = concat (map (\<lambda>cols. map (norm_sqr C) (col_coeff cols)) (pm_buckets s))"

text \<open>
  \<open>select_nth_unstable_by\<close> leaves the \<open>n\<close>-th largest at its place, nothing smaller before it and nothing larger after
  it. Sorting in descending order is one such arrangement, and what the pass reads is the same for every other one
  (\<open>selection_unique\<close>).
\<close>

definition compare_to :: "real \<Rightarrow> real \<Rightarrow> ordering" where
  "compare_to boundary m = (if m < boundary then Less else if m = boundary then Equal else Greater)"

definition top_n_pass :: "'c coefficient \<Rightarrow> nat \<Rightarrow> 'c pauli_sum \<Rightarrow> 'c pauli_sum result" where
  "top_n_pass C n s =
     (if pm_len s \<le> n then Inr s
      else if n = 0 then Inr (sum_clear s)
      else let selected = rev (sort (magnitudes C s));
               boundary = selected ! (n - 1);
               above = length (filter (\<lambda>m. m > boundary) (take (n - 1) selected))
           in retain_with_boundary_quota C s (compare_to boundary) (n - above))"

definition top_n_finalize :: "'c coefficient \<Rightarrow> nat \<Rightarrow> ('s, 'c) layer_pass" where
  "top_n_finalize C n = (\<lambda>(st, s). and_then (top_n_pass C n s) (\<lambda>s. Inr (st, s)))"

definition top_n_partitioned :: "'c coefficient \<Rightarrow> nat \<Rightarrow> ('s, 'c) group_pass" where
  "top_n_partitioned C n ranks =
     and_then (assert_that (length ranks = 1) NotPartitionable) (\<lambda>_. map_result (top_n_finalize C n) ranks)"

definition top_n :: "'c coefficient \<Rightarrow> nat \<Rightarrow> ('s, 'c) truncation_policy" where
  "top_n C n =
     \<lparr>keep_term = \<lambda>x z c. True, coefficient_floor = - 1, finalize_layer = top_n_finalize C n,
      finalizes_layer = Inr True, finalize_layer_partitioned = top_n_partitioned C n,
      supports_partitioned = default_supports (Inr True), fused_pass = Inr None\<rparr>"

section \<open>What TopN keeps\<close>

definition is_selection :: "nat \<Rightarrow> real list \<Rightarrow> real list \<Rightarrow> bool" where
  "is_selection i ms xs \<longleftrightarrow> mset xs = mset ms \<and> i < length xs \<and>
     (\<forall>j < i. xs ! i \<le> xs ! j) \<and> (\<forall>j. i < j \<and> j < length xs \<longrightarrow> xs ! j \<le> xs ! i)"

text \<open>The value selected at rank \<open>i\<close> has at most \<open>i\<close> larger ones, all before it, and more than \<open>i\<close> at least as large.\<close>

lemma selection_counts:
  assumes "is_selection i ms xs"
  shows "length (filter (\<lambda>m. m > xs ! i) (take i xs)) = length (filter (\<lambda>m. m > xs ! i) ms)"
    and "length (filter (\<lambda>m. m > xs ! i) ms) \<le> i"
    and "i < length (filter (\<lambda>m. m \<ge> xs ! i) ms)"
proof -
  let ?b = "xs ! i"
  have xs: "mset xs = mset ms" "i < length xs" and before: "\<And>j. j < i \<Longrightarrow> ?b \<le> xs ! j"
    and after: "\<And>j. i < j \<Longrightarrow> j < length xs \<Longrightarrow> xs ! j \<le> ?b"
    using assms by (auto simp: is_selection_def)
  have count: "length (filter P ms) = length (filter P (take i xs)) + length (filter P (drop i xs))" for P
    by (metis append_take_drop_id filter_append length_append mset_filter size_mset xs(1))
  have "filter (\<lambda>m. m > ?b) (drop i xs) = []"
  proof -
    have "drop i xs ! j \<le> ?b" if "j < length (drop i xs)" for j
      using that after [of "i + j"] by (cases j) auto
    then show ?thesis by (auto simp: filter_empty_conv in_set_conv_nth not_less)
  qed
  then show c: "length (filter (\<lambda>m. m > ?b) (take i xs)) = length (filter (\<lambda>m. m > ?b) ms)"
    using count [of "\<lambda>m. m > ?b"] by simp
  then show "length (filter (\<lambda>m. m > ?b) ms) \<le> i"
    using length_filter_le [of "\<lambda>m. m > ?b" "take i xs"] xs(2) by simp
  have "filter (\<lambda>m. m \<ge> ?b) (take i xs) = take i xs"
    using before xs(2) by (auto simp: filter_id_conv in_set_conv_nth)
  moreover have "drop i xs = ?b # drop (Suc i) xs" using xs(2) by (simp add: Cons_nth_drop_Suc)
  ultimately show "i < length (filter (\<lambda>m. m \<ge> ?b) ms)" using count [of "\<lambda>m. m \<ge> ?b"] xs(2) by simp
qed

lemma selection_unique:
  assumes "is_selection i ms xs" "is_selection i ms ys"
  shows "xs ! i = ys ! i"
    "length (filter (\<lambda>m. m > xs ! i) (take i xs)) = length (filter (\<lambda>m. m > ys ! i) (take i ys))"
proof -
  have le: "a \<le> b" if "length (filter (\<lambda>m. m > b) ms) \<le> i" "i < length (filter (\<lambda>m. m \<ge> a) ms)" for a b :: real
  proof (rule ccontr)
    assume "\<not> a \<le> b"
    have "length (filter (\<lambda>m. m \<ge> a) ms) \<le> length (filter (\<lambda>m. m > b) ms)"
      using \<open>\<not> a \<le> b\<close> by (induction ms) auto
    with that show False by simp
  qed
  show "xs ! i = ys ! i"
    using le selection_counts(2,3) [OF assms(1)] selection_counts(2,3) [OF assms(2)] by (intro order.antisym) auto
  then show "length (filter (\<lambda>m. m > xs ! i) (take i xs)) = length (filter (\<lambda>m. m > ys ! i) (take i ys))"
    using selection_counts(1) [OF assms(1)] selection_counts(1) [OF assms(2)] by simp
qed

lemma rev_sort_selection: "i < length ms \<Longrightarrow> is_selection i ms (rev (sort ms))"
  using sorted_nth_mono [OF sorted_sort [of ms]] by (auto simp: is_selection_def rev_nth)

lemma sum_lookup_iff:
  assumes "sum_inv W s"
  shows "sum_lookup s k = Some c \<longleftrightarrow> (k, c) \<in> set (sum_iter s)" "distinct (map fst (sum_iter s))"
proof -
  show d: "distinct (map fst (sum_iter s))"
    using assms bucketed_distinct unfolding sum_inv_def sum_iter_def by blast
  show "sum_lookup s k = Some c \<longleftrightarrow> (k, c) \<in> set (sum_iter s)" unfolding sum_lookup_def using d by simp
qed

lemma sum_clear_ok:
  assumes "sum_inv W s"
  shows "sum_inv W (sum_clear s)" "sum_iter (sum_clear s) = []" "pm_hash (sum_clear s) = pm_hash s"
    "pm_num_qubits (sum_clear s) = pm_num_qubits s"
proof -
  have clear: "terms_of (columns_clear cols) = []" "wf_columns (columns_clear cols)" for cols :: "'a bucket_columns"
    by (simp_all add: terms_of_def columns_clear_def wf_columns_def)
  show iter: "sum_iter (sum_clear s) = []" by (simp add: sum_iter_def sum_clear_def clear)
  show same: "pm_hash (sum_clear s) = pm_hash s" "pm_num_qubits (sum_clear s) = pm_num_qubits s"
    by (simp_all add: sum_clear_def)
  have "bucketed (bucket_ix (pm_hash s)) (map terms_of (pm_buckets (sum_clear s)))"
    by (simp add: bucketed_def sum_clear_def clear)
  then show "sum_inv W (sum_clear s)"
    using assms iter same by (simp add: sum_inv_def) (auto simp: sum_clear_def clear)
qed

lemma magnitudes_eq:
  assumes "sum_inv W s"
  shows "magnitudes C s = map (\<lambda>t. norm_sqr C (snd t)) (sum_iter s)"
proof -
  have "map (norm_sqr C) (col_coeff cols) = map (\<lambda>t. norm_sqr C (snd t)) (terms_of cols)" if "cols \<in> set (pm_buckets s)" for cols
  proof -
    have "col_coeff cols = map snd (terms_of cols)"
      using assms that by (simp add: terms_of_def wf_columns_def sum_inv_def)
    then show ?thesis by simp
  qed
  then show ?thesis by (simp add: magnitudes_def sum_iter_def map_concat comp_def cong: map_cong)
qed

text \<open>
  Keeping what is above a boundary and some of what is at it: the kept terms come from the sum with their coefficients,
  and no dropped term is above a kept one.
\<close>

definition keeps_above :: "('c \<Rightarrow> 'b::linorder) \<Rightarrow> 'c pauli_sum \<Rightarrow> 'c pauli_sum \<Rightarrow> bool" where
  "keeps_above rank s s' \<longleftrightarrow>
     (\<forall>k c. sum_lookup s' k = Some c \<longrightarrow> sum_lookup s k = Some c) \<and>
     (\<forall>k c k' c'. sum_lookup s' k = Some c \<longrightarrow> sum_lookup s k' = Some c' \<longrightarrow> sum_lookup s' k' = None \<longrightarrow> rank c' \<le> rank c)"

lemma keep_first_keeps_above:
  assumes "sum_inv W s" "sum_inv W s'" "sum_iter s' = keep_first (\<lambda>t. side (snd t)) q (sum_iter s)"
    "\<And>c. side c \<noteq> Less \<Longrightarrow> boundary \<le> rank c" "\<And>c. side c \<noteq> Greater \<Longrightarrow> rank c \<le> boundary"
  shows "keeps_above rank s s'"
proof -
  have kept: "(k, c) \<in> set (sum_iter s) \<and> boundary \<le> rank c" if "sum_lookup s' k = Some c" for k c
    using that keep_first_subset [of "\<lambda>t. side (snd t)" q "sum_iter s"] assms(4) [of c]
    unfolding sum_lookup_iff(1) [OF assms(2)] assms(3) by force
  have "rank c \<le> boundary" if "sum_lookup s k = Some c" "sum_lookup s' k = None" for k c
  proof -
    have "(k, c) \<in> set (sum_iter s)" "(k, c) \<notin> set (sum_iter s')"
      using that sum_lookup_iff(1) [OF assms(1), of k c] sum_lookup_iff(1) [OF assms(2), of k c] by simp_all
    then have "side c \<noteq> Greater"
      using keep_first_Greater [of "(k, c)" "sum_iter s" "\<lambda>t. side (snd t)" q] by (auto simp: assms(3))
    then show ?thesis by (rule assms(5))
  qed
  with kept show ?thesis
    unfolding keeps_above_def sum_lookup_iff(1) [OF assms(1)] by (meson order.trans)
qed

lemma top_n_pass_ok:
  assumes "sum_inv W s" "pm_len s \<le> usize_max"
  shows "\<exists>s'. top_n_pass C n s = Inr s' \<and> sum_inv W s' \<and> pm_len s' = min n (pm_len s) \<and> keeps_above (norm_sqr C) s s' \<and>
    pm_hash s' = pm_hash s \<and> pm_num_qubits s' = pm_num_qubits s"
proof -
  have len: "pm_len t = length (sum_iter t)" if "sum_inv W t" for t :: "'a pauli_sum" using that by (simp add: sum_inv_def)
  consider "pm_len s \<le> n" | "n = 0" "0 < pm_len s" | "0 < n" "n < pm_len s" by linarith
  then show ?thesis
  proof cases
    case 1
    then show ?thesis using assms(1) by (simp add: top_n_pass_def keeps_above_def)
  next
    case 2
    note clear = sum_clear_ok [OF assms(1)]
    have "sum_lookup (sum_clear s) k = None" for k by (simp add: sum_lookup_def clear(2))
    with 2 clear len [OF clear(1)] show ?thesis by (simp add: top_n_pass_def keeps_above_def)
  next
    case 3
    let ?ms = "magnitudes C s" and ?sel = "rev (sort (magnitudes C s))"
    define b where "b = ?sel ! (n - 1)"
    define above where "above = length (filter (\<lambda>m. m > b) (take (n - 1) ?sel))"
    have ms: "?ms = map (\<lambda>t. norm_sqr C (snd t)) (sum_iter s)" by (rule magnitudes_eq [OF assms(1)])
    have sel: "is_selection (n - 1) ?ms ?sel"
      using 3 len [OF assms(1)] by (intro rev_sort_selection) (simp add: ms)
    note counts = selection_counts [OF sel, folded b_def, folded above_def]
    let ?side = "\<lambda>t. compare_to b (norm_sqr C (snd t))"
    have greater: "length (filter (\<lambda>t. ?side t = Greater) (sum_iter s)) = above"
      unfolding counts(1) ms by (simp add: filter_map comp_def compare_to_def not_less le_less cong: filter_cong) (metis order.asym)
    have "length (filter (\<lambda>m. m \<ge> b) ?ms) = above + ties ?side (sum_iter s)"
    proof -
      have "length (filter (\<lambda>m. m \<ge> b) (map f ts)) = length (filter (\<lambda>m. m > b) (map f ts)) + ties (\<lambda>t. compare_to b (f t)) ts" for f ts
        by (induction ts) (auto simp: compare_to_def)
      then show ?thesis by (simp add: ms counts(1))
    qed
    then have ties: "n - above \<le> ties ?side (sum_iter s)" "above \<le> n - 1" using counts 3 by simp_all
    obtain s' where s': "retain_with_boundary_quota C s (compare_to b) (n - above) = Inr s'" "sum_inv W s'"
        "sum_iter s' = keep_first ?side (n - above) (sum_iter s)" "pm_hash s' = pm_hash s" "pm_num_qubits s' = pm_num_qubits s"
      using retain_with_boundary_quota_ok [OF assms] by blast
    have "pm_len s' = n" using len [OF s'(2)] 3(1) ties by (simp add: s'(3) length_keep_first greater)
    moreover have "keeps_above (norm_sqr C) s s'"
      by (rule keep_first_keeps_above [OF assms(1) s'(2,3), of b]) (auto simp: compare_to_def split: if_splits)
    moreover have "top_n_pass C n s = Inr s'"
      using 3 s'(1) unfolding top_n_pass_def Let_def b_def [symmetric] above_def [symmetric] by simp
    ultimately show ?thesis using s' 3(2) by auto
  qed
qed

text \<open>
  C32. The \<open>TopN(n)\<close> layer pass never panics and leaves a valid sum with the same hash and exactly \<open>min n len\<close> terms, all
  with their coefficients unchanged, such that no dropped term is larger in magnitude than a kept one; on more than one
  partition the pass panics.
\<close>

theorem top_n_keeps_largest:
  assumes "sum_inv W s" "pm_len s \<le> usize_max"
  shows "(\<exists>s'. finalize_layer (top_n C n) (st, s) = Inr (st, s') \<and> sum_inv W s' \<and> pm_hash s' = pm_hash s \<and>
      pm_len s' = min n (pm_len s) \<and> (\<forall>k c. sum_lookup s' k = Some c \<longrightarrow> sum_lookup s k = Some c) \<and>
      (\<forall>k c k' c'. sum_lookup s' k = Some c \<longrightarrow> sum_lookup s k' = Some c' \<longrightarrow> sum_lookup s' k' = None \<longrightarrow>
        norm_sqr C c' \<le> norm_sqr C c)) \<and>
    (length ranks \<noteq> 1 \<longrightarrow> finalize_layer_partitioned (top_n C n) ranks = Inl NotPartitionable)"
  using top_n_pass_ok [OF assms, of C n] unfolding keeps_above_def
  by (auto simp: top_n_def top_n_finalize_def top_n_partitioned_def)

lemma example_sum_len: "pm_len (example_sum bits) = 2" "pm_len (example_sum bits) \<le> usize_max"
  by (simp_all add: example_sum_def from_key_sorted_def usize_max_def)

theorem top_n_keeps_largest_witness:
  "\<exists>s'. finalize_layer (top_n complex_coefficient 1) ((), example_sum 1) = Inr ((), s') \<and> pm_len s' = 1"
  using top_n_keeps_largest [OF example_sum_inv(1) [of 1] example_sum_len(2), of complex_coefficient 1 "()" "[]"]
  by (auto simp: example_sum_len(1))

end
