(* ===== verification/Stable_Sort.thy ===== *)
theory Stable_Sort
  imports Pauli_Prelude "HOL-Library.Multiset"
begin

text \<open>
  Stable sorting by a key, as \<open>slice::sort_by\<close> does it: how two stable sorts compose, a counting sort is one, and a
  list sorted on a coarse key is finished by sorting its groups.
\<close>

section \<open>Stability\<close>

lemma filter_sort_key_same: "filter (\<lambda>x. f x = k) (sort_key f xs) = filter (\<lambda>x. f x = k) xs"
  by (rule sort_key_stable)

lemma sort_key_eqI:
  assumes "mset ys = mset xs" "\<And>k. filter (\<lambda>x. f x = k) ys = filter (\<lambda>x. f x = k) xs" "sorted (map f ys)"
  shows "sort_key f xs = ys"
proof (rule properties_for_sort_key [OF assms(1) _ assms(3)])
  fix k
  show "filter (\<lambda>x. f k = f x) ys = filter (\<lambda>x. f k = f x) xs"
    using assms(2) [of "f k"] by (simp only: eq_commute)
qed

text \<open>Sorting by a minor key and then by a major one sorts by the order that puts the major key first.\<close>

lemma sort_key_sort_key:
  fixes f :: "'a \<Rightarrow> 'b::linorder" and g :: "'a \<Rightarrow> 'c::linorder" and h :: "'a \<Rightarrow> 'd::linorder"
  assumes "\<And>x y. x \<in> set xs \<Longrightarrow> y \<in> set xs \<Longrightarrow> h x \<le> h y \<longleftrightarrow> f x < f y \<or> f x = f y \<and> g x \<le> g y"
  shows "sort_key f (sort_key g xs) = sort_key h xs"
proof (rule sort_key_eqI [symmetric])
  let ?ys = "sort_key f (sort_key g xs)"
  have major: "filter (\<lambda>x. f x = k) ?ys = sort_key g (filter (\<lambda>x. f x = k) xs)" for k
    by (simp add: filter_sort_key_same filter_sort)
  show "mset ?ys = mset xs" by simp
  show "filter (\<lambda>x. h x = k) ?ys = filter (\<lambda>x. h x = k) xs" for k
  proof (cases "\<exists>x \<in> set xs. h x = k")
    case True
    then obtain x where x: "x \<in> set xs" "h x = k" by blast
    have same: "h y = k \<longleftrightarrow> f y = f x \<and> g y = g x" if "y \<in> set xs" for y
      using assms [OF x(1) that] assms [OF that x(1)] x(2) by (auto simp: order.antisym)
    have "filter (\<lambda>y. h y = k) ?ys = filter (\<lambda>y. g y = g x) (filter (\<lambda>y. f y = f x) ?ys)"
      unfolding filter_filter by (rule filter_cong) (auto simp: same)
    also have "\<dots> = filter (\<lambda>y. g y = g x) (filter (\<lambda>y. f y = f x) xs)"
      unfolding major by (rule filter_sort_key_same)
    also have "\<dots> = filter (\<lambda>y. h y = k) xs"
      unfolding filter_filter by (rule filter_cong) (auto simp: same)
    finally show ?thesis .
  next
    case False
    then show ?thesis by (simp add: filter_empty_conv)
  qed
  show "sorted (map h ?ys)"
    unfolding sorted_iff_nth_mono_less
  proof (intro allI impI)
    fix i j assume ij: "i < j" "j < length (map h ?ys)"
    let ?a = "?ys ! i" and ?b = "?ys ! j"
    have mem: "?a \<in> set xs" "?b \<in> set xs" using ij nth_mem [of i ?ys] nth_mem [of j ?ys] by auto
    have "f ?a \<le> f ?b"
      using sorted_nth_mono [OF sorted_sort_key [of f "sort_key g xs"], of i j] ij by simp
    moreover have "g ?a \<le> g ?b" if eq: "f ?a = f ?b"
    proof -
      have split: "?ys = take j ?ys @ ?b # drop (Suc j) ?ys" using ij by (intro id_take_nth_drop) simp
      have "filter (\<lambda>x. f x = f ?b) ?ys = filter (\<lambda>x. f x = f ?b) (take j ?ys @ ?b # drop (Suc j) ?ys)"
        by (rule arg_cong [OF split])
      also have "\<dots> = filter (\<lambda>x. f x = f ?b) (take j ?ys) @ ?b # filter (\<lambda>x. f x = f ?b) (drop (Suc j) ?ys)"
        by simp
      finally have "filter (\<lambda>x. f x = f ?b) ?ys =
          filter (\<lambda>x. f x = f ?b) (take j ?ys) @ ?b # filter (\<lambda>x. f x = f ?b) (drop (Suc j) ?ys)" .
      moreover have "?a \<in> set (filter (\<lambda>x. f x = f ?b) (take j ?ys))"
        using ij eq by (auto simp: in_set_conv_nth)
      moreover have "sorted (map g (filter (\<lambda>x. f x = f ?b) ?ys))" by (simp add: major)
      ultimately show ?thesis by (auto simp: sorted_append)
    qed
    ultimately show "map h ?ys ! i \<le> map h ?ys ! j"
      using assms [OF mem] ij by (auto simp: order.order_iff_strict)
  qed
qed

lemma sort_key_append_less:
  assumes "\<And>a b. a \<in> set as \<Longrightarrow> b \<in> set bs \<Longrightarrow> f a < f b"
  shows "sort_key f (as @ bs) = sort_key f as @ sort_key f bs"
proof (rule sort_key_eqI)
  show "sorted (map f (sort_key f as @ sort_key f bs))"
    using assms by (force simp: sorted_append)
qed (simp_all add: filter_sort_key_same)

lemma map_sort_key: "map f (sort_key (\<lambda>x. g (f x)) xs) = sort_key g (map f xs)"
proof (rule sort_key_eqI [symmetric])
  show "mset (map f (sort_key (\<lambda>x. g (f x)) xs)) = mset (map f xs)" by simp
  show "filter (\<lambda>x. g x = k) (map f (sort_key (\<lambda>x. g (f x)) xs)) = filter (\<lambda>x. g x = k) (map f xs)" for k
    using filter_sort_key_same [of "\<lambda>x. g (f x)" k xs] by (simp add: filter_map comp_def)
  show "sorted (map g (map f (sort_key (\<lambda>x. g (f x)) xs)))"
    using sorted_sort_key [of "\<lambda>x. g (f x)" xs] by (simp add: comp_def)
qed

lemma sort_key_sorted: "sorted (map f xs) \<Longrightarrow> sort_key f xs = xs"
  by (rule sort_key_eqI) simp_all

lemma sort_key_congI:
  assumes "\<And>x. x \<in> set xs \<Longrightarrow> f x = g x"
  shows "sort_key f xs = sort_key g xs"
proof (rule sort_key_eqI)
  show "mset (sort_key g xs) = mset xs" by simp
  have "map f (sort_key g xs) = map g (sort_key g xs)" using assms by simp
  then show "sorted (map f (sort_key g xs))" by (simp only: sorted_sort_key)
  have "filter (\<lambda>x. f x = k) ys = filter (\<lambda>x. g x = k) ys" if "set ys = set xs" for k ys
    using that assms by (intro filter_cong) auto
  then show "filter (\<lambda>x. f x = k) (sort_key g xs) = filter (\<lambda>x. f x = k) xs" for k
    by (simp add: filter_sort_key_same)
qed

text \<open>A counting sort lists, value by value, the elements of each value in order.\<close>

lemma concat_filters_Suc:
  "concat (map (\<lambda>b. filter (\<lambda>x. d x = b) xs) [0..<Suc n]) =
     concat (map (\<lambda>b. filter (\<lambda>x. d x = b) xs) [0..<n]) @ filter (\<lambda>x. d x = n) xs"
  by simp

lemma counting_sort_key:
  fixes d :: "'a \<Rightarrow> nat"
  assumes "\<forall>x \<in> set xs. d x < n"
  shows "sort_key d xs = concat (map (\<lambda>b. filter (\<lambda>x. d x = b) xs) [0..<n])"
proof -
  have "sort_key d (filter (\<lambda>x. d x < n) xs) = concat (map (\<lambda>b. filter (\<lambda>x. d x = b) xs) [0..<n])" for n
  proof (rule sort_key_eqI)
    let ?c = "\<lambda>n. concat (map (\<lambda>b. filter (\<lambda>x. d x = b) xs) [0..<n])"
    have less: "filter_mset (\<lambda>x. d x < n) M + filter_mset (\<lambda>x. d x = n) M = filter_mset (\<lambda>x. d x < Suc n) M" for n M
      by (induction M) (auto simp: less_Suc_eq)
    show "mset (?c n) = mset (filter (\<lambda>x. d x < n) xs)"
      by (induction n) (simp_all add: less)
    show "filter (\<lambda>x. d x = k) (?c n) = filter (\<lambda>x. d x = k) (filter (\<lambda>x. d x < n) xs)" for k
    proof (induction n)
      case (Suc n)
      have "filter (\<lambda>x. d x = k) (filter (\<lambda>x. d x < m) xs) = (if k < m then filter (\<lambda>x. d x = k) xs else [])" for m
        by (auto simp: filter_empty_conv intro: filter_cong)
      moreover have "filter (\<lambda>x. d x = k) (filter (\<lambda>x. d x = n) xs) = (if k = n then filter (\<lambda>x. d x = k) xs else [])"
        by (auto simp: filter_empty_conv intro: filter_cong)
      ultimately show ?case using Suc by (simp only: concat_filters_Suc filter_append) auto
    qed simp
    have same: "sorted (map d (filter (\<lambda>x. d x = m) ys))" for m ys
      by (induction ys) auto
    show "sorted (map d (?c n))"
      by (induction n) (auto simp: sorted_append same intro: less_imp_le)
  qed
  moreover have "filter (\<lambda>x. d x < n) xs = xs" using assms by (simp add: filter_id_conv)
  ultimately show ?thesis by metis
qed

section \<open>Counting scatter\<close>

text \<open>
  The array form: \<open>start b\<close> elements have a smaller digit, and the scatter writes each element at its digit's next
  free position.
\<close>

definition tally_step :: "('a \<Rightarrow> nat) \<Rightarrow> 'a \<Rightarrow> nat list \<Rightarrow> nat list" where
  "tally_step d r counts = counts[d r + 1 := counts ! (d r + 1) + 1]"

definition prefix_step :: "nat \<Rightarrow> nat list \<Rightarrow> nat list" where
  "prefix_step slot counts = counts[slot := counts ! slot + counts ! (slot - 1)]"

definition scatter_step :: "('a \<Rightarrow> nat) \<Rightarrow> 'a \<Rightarrow> 'a list \<times> nat list \<Rightarrow> 'a list \<times> nat list" where
  "scatter_step d r = (\<lambda>(spare, counts).
     let b = d r in (spare[counts ! b := r], counts[b := counts ! b + 1]))"

lemma tally_loop:
  assumes "\<forall>x \<in> set xs. d x < n" "length counts = Suc n"
  shows "length (fold (tally_step d) xs counts) = Suc n \<and> fold (tally_step d) xs counts ! 0 = counts ! 0 \<and>
    (\<forall>b < n. fold (tally_step d) xs counts ! Suc b = counts ! Suc b + length (filter (\<lambda>x. d x = b) xs))"
  using assms
proof (induction xs arbitrary: counts)
  case (Cons x xs)
  then show ?case using Cons.IH [of "tally_step d x counts"] by (auto simp: tally_step_def nth_list_update)
qed simp

lemma prefix_loop:
  assumes "length counts = Suc n" "m \<le> n"
  shows "length (fold prefix_step [1..<Suc m] counts) = Suc n \<and>
    (\<forall>j \<le> n. fold prefix_step [1..<Suc m] counts ! j = (if j \<le> m then sum_list (take (Suc j) counts) else counts ! j))"
  using assms(2)
proof (induction m)
  case 0
  then show ?case using assms(1) by (cases counts) auto
next
  case (Suc m)
  define c where "c = fold prefix_step [1..<Suc m] counts"
  have IH: "length c = Suc n" "\<And>j. j \<le> n \<Longrightarrow> c ! j = (if j \<le> m then sum_list (take (Suc j) counts) else counts ! j)"
    using Suc unfolding c_def by (blast dest: Suc_leD)+
  have fold: "fold prefix_step [1..<Suc (Suc m)] counts = c[Suc m := c ! Suc m + c ! m]"
    by (simp add: prefix_step_def c_def)
  have "take (Suc (Suc m)) counts = take (Suc m) counts @ [counts ! Suc m]"
    using assms(1) Suc.prems by (simp add: take_Suc_conv_app_nth)
  then have "c ! Suc m + c ! m = sum_list (take (Suc (Suc m)) counts)"
    using IH(2) [of m] IH(2) [of "Suc m"] Suc.prems by simp
  then show ?case
    unfolding fold using IH Suc.prems by (auto simp: nth_list_update le_Suc_eq)
qed

lemma filter_less_Suc: "length (filter (\<lambda>x. d x < Suc b) xs) = length (filter (\<lambda>x. d x < b) xs) + length (filter (\<lambda>x. d x = b) xs)"
  for d :: "'a \<Rightarrow> nat"
  by (induction xs) auto

lemma tally_starts:
  fixes d :: "'a \<Rightarrow> nat"
  assumes "\<forall>x \<in> set xs. d x < n" "b \<le> n"
  shows "fold prefix_step [1..<Suc n] (fold (tally_step d) xs (replicate (Suc n) 0)) ! b = length (filter (\<lambda>x. d x < b) xs)"
proof -
  define t where "t = fold (tally_step d) xs (replicate (Suc n) 0)"
  have t: "length t = Suc n" "t ! 0 = 0" "\<And>b. b < n \<Longrightarrow> t ! Suc b = length (filter (\<lambda>x. d x = b) xs)"
    using tally_loop [OF assms(1), of "replicate (Suc n) 0"] by (simp_all add: t_def)
  have "sum_list (take (Suc b) t) = length (filter (\<lambda>x. d x < b) xs)" if "b \<le> n" for b
    using that
  proof (induction b)
    case 0
    then show ?case using t(1,2) by (cases t) simp_all
  next
    case (Suc b)
    then have "take (Suc (Suc b)) t = take (Suc b) t @ [t ! Suc b]" using t(1) by (simp add: take_Suc_conv_app_nth)
    with Suc t(3) [of b] show ?case by (simp add: filter_less_Suc)
  qed
  then show ?thesis using prefix_loop [OF t(1) order_refl] assms(2) by (simp only: t_def) simp
qed

definition start_of :: "('a \<Rightarrow> nat) \<Rightarrow> 'a list \<Rightarrow> nat \<Rightarrow> nat" where
  "start_of d xs b = length (filter (\<lambda>x. d x < b) xs)"

lemma start_of_Suc: "start_of d xs (Suc b) = start_of d xs b + length (filter (\<lambda>x. d x = b) xs)"
  by (simp add: start_of_def filter_less_Suc)

lemma start_of_mono: "a \<le> b \<Longrightarrow> start_of d xs a \<le> start_of d xs b"
  by (induction b rule: dec_induct) (simp_all add: start_of_Suc)

text \<open>Positions of different digits, or of different occurrences of one digit, differ.\<close>

lemma start_of_inj:
  assumes "i < length (filter (\<lambda>x. d x = a) xs)" "j < length (filter (\<lambda>x. d x = b) xs)"
    "start_of d xs a + i = start_of d xs b + j"
  shows "a = b \<and> i = j"
proof (rule ccontr)
  assume n: "\<not> (a = b \<and> i = j)"
  then consider "a < b" | "b < a" using assms(3) by fastforce
  then show False
  proof cases
    case 1
    then have "start_of d xs (Suc a) \<le> start_of d xs b" by (intro start_of_mono) simp
    then show False using assms by (simp add: start_of_Suc)
  next
    case 2
    then have "start_of d xs (Suc b) \<le> start_of d xs a" by (intro start_of_mono) simp
    then show False using assms by (simp add: start_of_Suc)
  qed
qed

definition scattered :: "('a \<Rightarrow> nat) \<Rightarrow> nat \<Rightarrow> 'a list \<Rightarrow> 'a list \<Rightarrow> 'a list \<times> nat list \<Rightarrow> bool" where
  "scattered d n xs ps st \<longleftrightarrow> length (fst st) = length xs \<and> length (snd st) = Suc n \<and>
     (\<forall>b < n. snd st ! b = start_of d xs b + length (filter (\<lambda>x. d x = b) ps) \<and>
       (\<forall>i < length (filter (\<lambda>x. d x = b) ps). fst st ! (start_of d xs b + i) = filter (\<lambda>x. d x = b) ps ! i))"

lemma scatter_step_ok:
  assumes "scattered d n xs ps st" "xs = ps @ r # rs" "d r < n"
  shows "scattered d n xs (ps @ [r]) (scatter_step d r st)"
proof -
  obtain sp c where st: "st = (sp, c)" by (cases st)
  let ?k = "length (filter (\<lambda>x. d x = d r) ps)" and ?p = "start_of d xs (d r) + length (filter (\<lambda>x. d x = d r) ps)"
  have inv: "length sp = length xs" "length c = Suc n" "\<And>b. b < n \<Longrightarrow> c ! b = start_of d xs b + length (filter (\<lambda>x. d x = b) ps)"
      "\<And>b i. b < n \<Longrightarrow> i < length (filter (\<lambda>x. d x = b) ps) \<Longrightarrow> sp ! (start_of d xs b + i) = filter (\<lambda>x. d x = b) ps ! i"
    using assms(1) by (auto simp: scattered_def st)
  have le: "length (filter (\<lambda>x. d x = b) ps) \<le> length (filter (\<lambda>x. d x = b) xs)" for b by (simp add: assms(2))
  have k: "?k < length (filter (\<lambda>x. d x = d r) xs)" by (simp add: assms(2))
  have "start_of d xs (Suc (d r)) \<le> length xs" by (simp add: start_of_def)
  then have p: "?p < length xs" using k by (simp add: start_of_Suc)
  have step: "scatter_step d r st = (sp[?p := r], c[d r := Suc ?p])"
    using inv(3) [OF assms(3)] by (simp add: scatter_step_def st Let_def)
  show ?thesis
    unfolding step scattered_def
  proof (intro conjI allI impI)
    fix b assume b: "b < n"
    show "snd (sp[?p := r], c[d r := Suc ?p]) ! b = start_of d xs b + length (filter (\<lambda>x. d x = b) (ps @ [r]))"
      using inv(2,3) b by (auto simp: nth_list_update)
    fix i assume i: "i < length (filter (\<lambda>x. d x = b) (ps @ [r]))"
    show "fst (sp[?p := r], c[d r := Suc ?p]) ! (start_of d xs b + i) = filter (\<lambda>x. d x = b) (ps @ [r]) ! i"
    proof (cases "b = d r \<and> i = ?k")
      case False
      then have i': "i < length (filter (\<lambda>x. d x = b) ps)" using i by (auto split: if_splits)
      then have "start_of d xs b + i \<noteq> ?p" using start_of_inj [OF _ k, of i b] False le [of b] by auto
      then show ?thesis using inv(4) [OF b i'] i' by (simp add: nth_append)
    qed (use p inv(1) in simp)
  qed (use inv in simp_all)
qed

lemma scatter_loop:
  assumes "scattered d n xs ps st" "xs = ps @ rs" "\<forall>x \<in> set xs. d x < n"
  shows "scattered d n xs xs (fold (scatter_step d) rs st)"
  using assms
proof (induction rs arbitrary: ps st)
  case (Cons r rs)
  then have "scattered d n xs (ps @ [r]) (scatter_step d r st)" by (intro scatter_step_ok) auto
  with Cons.IH [of "ps @ [r]"] Cons.prems show ?case by simp
qed simp

lemma scattered_concat:
  assumes "scattered d n xs xs st" "\<forall>x \<in> set xs. d x < n"
  shows "fst st = sort_key d xs"
proof -
  have "take (start_of d xs b) (fst st) = concat (map (\<lambda>b. filter (\<lambda>x. d x = b) xs) [0..<b])" if "b \<le> n" for b
    using that
  proof (induction b)
    case (Suc b)
    let ?f = "filter (\<lambda>x. d x = b) xs"
    have "start_of d xs (Suc b) \<le> length (fst st)" using assms(1) by (simp add: scattered_def start_of_def)
    then have "take (length ?f) (drop (start_of d xs b) (fst st)) = ?f"
      using assms(1) Suc.prems by (intro nth_equalityI) (auto simp: scattered_def start_of_Suc)
    with Suc show ?case by (simp add: start_of_Suc take_add)
  qed (simp add: start_of_def)
  moreover have "start_of d xs n = length (fst st)"
    using assms by (simp add: start_of_def scattered_def filter_id_conv)
  ultimately show ?thesis by (metis assms(2) counting_sort_key order_refl take_all)
qed

text \<open>The three loops of one pass, on any buffer of the right length.\<close>

lemma counting_pass:
  fixes d :: "'a \<Rightarrow> nat"
  assumes "\<forall>x \<in> set xs. d x < n" "length spare = length xs"
  shows "fst (fold (scatter_step d) xs
    (spare, fold prefix_step [1..<Suc n] (fold (tally_step d) xs (replicate (Suc n) 0)))) = sort_key d xs"
proof -
  define c where "c = fold prefix_step [1..<Suc n] (fold (tally_step d) xs (replicate (Suc n) 0))"
  have "length c = Suc n"
    unfolding c_def using prefix_loop [of _ n n] tally_loop [OF assms(1) length_replicate] by blast
  moreover have "c ! b = length (filter (\<lambda>x. d x < b) xs)" if "b \<le> n" for b
    unfolding c_def by (rule tally_starts [OF assms(1) that])
  ultimately have "scattered d n xs [] (spare, c)" using assms(2) by (simp add: scattered_def start_of_def)
  from scattered_concat [OF scatter_loop [OF this _ assms(1)] assms(1)] show ?thesis by (simp add: c_def)
qed

section \<open>Finishing group by group\<close>

text \<open>Consecutive elements with the same coarse key, each group sorted.\<close>

function group_sort :: "('a \<Rightarrow> 'b) \<Rightarrow> ('a \<Rightarrow> 'c::linorder) \<Rightarrow> 'a list \<Rightarrow> 'a list" where
  "group_sort g f [] = []"
| "group_sort g f (x # xs) =
     sort_key f (x # takeWhile (\<lambda>y. g y = g x) xs) @ group_sort g f (dropWhile (\<lambda>y. g y = g x) xs)"
  by pat_completeness auto
termination group_sort
  by (relation "measure (\<lambda>(_, _, xs). length xs)") (auto simp: le_imp_less_Suc length_dropWhile_le)

lemma group_sort_eq:
  fixes g :: "'a \<Rightarrow> 'b::linorder"
  assumes "sorted (map g xs)" "\<And>x y. x \<in> set xs \<Longrightarrow> y \<in> set xs \<Longrightarrow> f x \<le> f y \<Longrightarrow> g x \<le> g y"
  shows "group_sort g f xs = sort_key f xs"
  using assms
proof (induction g f xs rule: group_sort.induct)
  case (2 g f x xs)
  let ?t = "takeWhile (\<lambda>y. g y = g x) xs" and ?d = "dropWhile (\<lambda>y. g y = g x) xs"
  have split: "xs = ?t @ ?d" by simp
  have sub: "set ?d \<subseteq> set (x # xs)" "set ?t \<subseteq> set (x # xs)"
    using set_dropWhileD [of _ _ xs] set_takeWhileD [of _ _ xs] by auto
  have above: "g x < g b" if b: "b \<in> set ?d" for b
  proof (cases ?d)
    case (Cons y ys)
    then have "g y \<noteq> g x" by (metis (mono_tags, lifting) hd_dropWhile list.discI list.sel(1))
    moreover have "g x \<le> g y" "\<forall>b \<in> set ys. g y \<le> g b"
      using 2(2) Cons split by (metis (no_types, lifting) list.set_intros(1) list.simps(9) map_append set_append sorted_append
          sorted_simps(2) UnCI imageI list.set_map, metis (no_types, lifting) imageI list.set_map list.simps(9)
          map_append sorted_append sorted_simps(2))
    ultimately show ?thesis using b Cons by (auto simp: order.strict_iff_order intro: order.trans)
  next
    case Nil
    then show ?thesis using b by (simp only: Nil list.set empty_iff)
  qed
  have less: "f a < f b" if "a \<in> set (x # ?t)" "b \<in> set ?d" for a b
  proof (rule ccontr)
    assume "\<not> f a < f b"
    then have "g b \<le> g a" using 2(3) that sub by (intro 2(3)) (auto simp: not_less)
    moreover have "g a = g x" using that(1) set_takeWhileD [of a "\<lambda>y. g y = g x" xs] by auto
    ultimately show False using above [OF that(2)] by simp
  qed
  have "sorted (map g ?d)"
    using 2(2) by (metis (no_types, lifting) list.simps(9) map_append sorted_append sorted_simps(2) split)
  then have "group_sort g f ?d = sort_key f ?d"
  proof (rule 2(1))
    show "g a \<le> g b" if "a \<in> set ?d" "b \<in> set ?d" "f a \<le> f b" for a b
      by (rule 2(3)) (use that sub(1) in blast)+
  qed
  then show ?case
    using sort_key_append_less [of "x # ?t" ?d f] less by (metis append_Cons group_sort.simps(2) split)
qed simp

end
