(* ===== verification/Sort_Kernels.thy ===== *)
theory Sort_Kernels
  imports Bucket_Columns Prepared Stable_Sort Gf2_Rank
begin

unbundle bit_operations_syntax

text \<open>
  \<open>engine/merge.rs\<close>, the per-run sorts: a stable comparison sort through a permutation, and the radix kernel on a
  16-bit surrogate of the first key word the rows disagree on. Row counts and offsets stay below the \<open>u32\<close> limit the
  sorts assert, so the \<open>u32\<close> counters do not wrap and are natural numbers here.
\<close>

section \<open>The comparison kernel\<close>

record 'c sort_scratch =
  ss_permutation :: "u32 list"
  ss_packed :: "u64 list"
  ss_spare :: "u64 list"
  ss_x :: "words list"
  ss_z :: "words list"
  ss_coeff :: "'c list"

definition row_key :: "'c bucket_columns \<Rightarrow> nat \<Rightarrow> key" where
  "row_key cols i = (col_x cols ! i, col_z cols ! i)"

text \<open>The staging columns are gathered through the order and swapped in.\<close>

definition gather_rows :: "'c bucket_columns \<Rightarrow> 'c sort_scratch \<Rightarrow> nat list \<Rightarrow> 'c bucket_columns \<times> 'c sort_scratch" where
  "gather_rows cols scratch order =
     (\<lparr>col_x = map (\<lambda>i. col_x cols ! i) order, col_z = map (\<lambda>i. col_z cols ! i) order,
       col_coeff = map (\<lambda>i. col_coeff cols ! i) order\<rparr>,
      scratch\<lparr>ss_x := col_x cols, ss_z := col_z cols, ss_coeff := col_coeff cols\<rparr>)"

definition sort_by_comparison ::
    "'c bucket_columns \<Rightarrow> 'c sort_scratch \<Rightarrow> ('c bucket_columns \<times> 'c sort_scratch) result" where
  "sort_by_comparison cols scratch =
     (let len = length (col_x cols)
      in and_then (assert_that (len \<le> 2 ^ 32 - 1) RunTooLong) (\<lambda>_.
           if len < 2 then Inr (cols, scratch)
           else let permutation = sort_key (\<lambda>a. row_key cols (unat a)) (map of_nat [0..<len])
                in Inr (gather_rows cols (scratch\<lparr>ss_permutation := permutation\<rparr>) (map unat permutation))))"

section \<open>Choosing a kernel\<close>

datatype sort_kernel = Comparison | Radix

definition RADIX_MIN_REST_STREAMS :: nat where
  "RADIX_MIN_REST_STREAMS = 8"

definition RADIX_MAX_REST_ROWS_PER_KEY :: real where
  "RADIX_MAX_REST_ROWS_PER_KEY = 2"

definition RADIX_MIN_DISJOINT_STREAMS :: nat where
  "RADIX_MIN_DISJOINT_STREAMS = 3"

definition for_layer :: "nat \<Rightarrow> real \<Rightarrow> sort_kernel" where
  "for_layer streams rows_per_key =
     (if streams \<ge> RADIX_MIN_REST_STREAMS \<or>
         streams \<ge> RADIX_MIN_DISJOINT_STREAMS \<and> rows_per_key < RADIX_MAX_REST_ROWS_PER_KEY
      then Radix else Comparison)"

definition rest_rows_at :: "'c coefficient \<Rightarrow> 'c local_ptm \<Rightarrow> nat \<Rightarrow> nat" where
  "rest_rows_at C p out =
     length (filter (\<lambda>d. \<not> c_eq C (de_amplitude d ! (out XOR unat (de_local_delta d))) (c_zero C))
       (drop (of_bool (has_identity p)) (lp_deltas p)))"

definition rest_rows_per_key :: "'c coefficient \<Rightarrow> 'c local_ptm \<Rightarrow> real" where
  "rest_rows_per_key C p =
     (let (rows, keys) = fold (\<lambda>out (rows, keys).
            (rows + rest_rows_at C p out, keys + of_bool (rest_rows_at C p out > 0)))
          [0..<push_bit (2 * lp_num p) 1] (0, 0 :: nat)
      in if keys = 0 then 0 else real rows / real keys)"

section \<open>The radix kernel\<close>

definition RADIX_SURROGATE_BITS :: nat where
  "RADIX_SURROGATE_BITS = 16"

definition RADIX_DIGIT_BITS :: nat where
  "RADIX_DIGIT_BITS = 8"

definition RADIX_BUCKETS :: nat where
  "RADIX_BUCKETS = 2 ^ RADIX_DIGIT_BITS"

definition RADIX_MIN_WINDOW_BITS :: nat where
  "RADIX_MIN_WINDOW_BITS = 8"

definition key_word :: "nat \<Rightarrow> words list \<Rightarrow> words list \<Rightarrow> nat \<Rightarrow> nat \<Rightarrow> u64" where
  "key_word W x z word row = (if word < W then x ! row ! word else z ! row ! (word - W))"

text \<open>The bits of one key word on which the rows disagree, and the first word that has some.\<close>

definition disagreement :: "nat \<Rightarrow> words list \<Rightarrow> words list \<Rightarrow> nat \<Rightarrow> u64" where
  "disagreement W x z word =
     (let (any, all) = fold (\<lambda>row (any, all). (any OR key_word W x z word row, all AND key_word W x z word row))
            [0..<length x] (0, NOT 0)
      in any AND NOT all)"

fun window_scan :: "nat \<Rightarrow> words list \<Rightarrow> words list \<Rightarrow> nat list \<Rightarrow> (nat \<times> nat \<times> u64) option" where
  "window_scan W x z [] = None"
| "window_scan W x z (word # ws) =
     (let diff = disagreement W x z word
      in if diff \<noteq> 0 then Some (word, 63 - leading_zeros diff, diff) else window_scan W x z ws)"

definition discriminating_window :: "nat \<Rightarrow> words list \<Rightarrow> words list \<Rightarrow> (nat \<times> nat \<times> u64) option" where
  "discriminating_window W x z = window_scan W x z [0..<2 * W]"

text \<open>One pass: tally the digit, skip a constant one, else prefix-sum and scatter into the spare buffer and swap.\<close>

definition digit_of :: "nat \<Rightarrow> u64 \<Rightarrow> nat" where
  "digit_of digit rec = unat (drop_bit (32 + digit * RADIX_DIGIT_BITS) rec AND (of_nat RADIX_BUCKETS - 1))"

definition radix_pass :: "nat \<Rightarrow> u64 list \<times> u64 list \<Rightarrow> u64 list \<times> u64 list" where
  "radix_pass digit = (\<lambda>(packed, spare).
     let counts = fold (tally_step (digit_of digit)) packed (replicate (Suc RADIX_BUCKETS) 0)
     in if length (filter (\<lambda>tally. tally \<noteq> 0) (drop 1 counts)) > 1
        then let counts = fold prefix_step [1..<Suc RADIX_BUCKETS] counts;
                 (spare, counts) = fold (scatter_step (digit_of digit)) packed (spare, counts)
             in (spare, packed)
        else (packed, spare))"

function radix_passes :: "nat \<Rightarrow> u64 list \<times> u64 list \<Rightarrow> u64 list \<times> u64 list" where
  "radix_passes digit st =
     (if digit * RADIX_DIGIT_BITS < RADIX_SURROGATE_BITS then radix_passes (digit + 1) (radix_pass digit st) else st)"
  by pat_completeness auto
termination radix_passes
  by (relation "measure (\<lambda>(digit, _). RADIX_SURROGATE_BITS - digit * RADIX_DIGIT_BITS)") (auto simp: RADIX_DIGIT_BITS_def)

declare radix_passes.simps [simp del]

text \<open>The fixup: rows sharing a surrogate are ordered on the full key.\<close>

function run_end :: "u64 list \<Rightarrow> u64 \<Rightarrow> nat \<Rightarrow> nat" where
  "run_end packed surrogate j =
     (if j < length packed \<and> drop_bit 32 (packed ! j) = surrogate then run_end packed surrogate (j + 1) else j)"
  by pat_completeness auto
termination run_end by (relation "measure (\<lambda>(packed, _, j). length packed - j)") auto

declare run_end.simps [simp del]

lemma run_end_ge: "j \<le> run_end packed s j"
  by (induction packed s j rule: run_end.induct) (subst run_end.simps, auto)

function fixup :: "(u64 \<Rightarrow> key) \<Rightarrow> nat \<Rightarrow> u64 list \<Rightarrow> u64 list" where
  "fixup record_key i packed =
     (if i < length packed
      then (let j = run_end packed (drop_bit 32 (packed ! i)) (i + 1)
            in fixup record_key j
                 (if j - i > 1
                  then take i packed @ sort_key record_key (take (j - i) (drop i packed)) @ drop j packed
                  else packed))
      else packed)"
  by pat_completeness auto
termination fixup
proof (relation "measure (\<lambda>(_, i, packed). length packed - i)", goal_cases)
  case (2 k i packed j)
  then have "Suc i \<le> j" using run_end_ge [of "i + 1" packed] by simp
  with 2(1) show ?case by (auto split: if_splits)
qed simp

declare fixup.simps [simp del]

definition record_row :: "u64 \<Rightarrow> nat" where
  "record_row rec = unat (ucast rec :: u32)"

definition pack_row :: "nat \<Rightarrow> 'c bucket_columns \<Rightarrow> nat \<Rightarrow> nat \<Rightarrow> nat \<Rightarrow> u64" where
  "pack_row W cols word shift i =
     push_bit 32 (drop_bit shift (key_word W (col_x cols) (col_z cols) word i) AND (push_bit RADIX_SURROGATE_BITS 1 - 1))
       OR of_nat i"

definition sort_by_radix ::
    "nat \<Rightarrow> 'c bucket_columns \<Rightarrow> 'c sort_scratch \<Rightarrow> ('c bucket_columns \<times> 'c sort_scratch) result" where
  "sort_by_radix W cols scratch =
     (let len = length (col_x cols)
      in and_then (assert_that (len \<le> 2 ^ 32 - 1) RunTooLong) (\<lambda>_.
           if len < 2 then Inr (cols, scratch)
           else case discriminating_window W (col_x cols) (col_z cols) of
                  None \<Rightarrow> Inr (cols, scratch)
                | Some (word, high_bit, diff) \<Rightarrow>
                    (let shift = (high_bit + 1) - RADIX_SURROGATE_BITS;
                         window = drop_bit shift diff AND (push_bit RADIX_SURROGATE_BITS 1 - 1)
                     in if count_ones window < RADIX_MIN_WINDOW_BITS then sort_by_comparison cols scratch
                        else let packed = map (pack_row W cols word shift) [0..<len];
                                 spare = take len (ss_spare scratch) @ replicate (len - length (ss_spare scratch)) 0;
                                 (packed, spare) = radix_passes 0 (packed, spare);
                                 packed = fixup (\<lambda>rec. row_key cols (record_row rec)) 0 packed
                             in Inr (gather_rows cols (scratch\<lparr>ss_packed := packed, ss_spare := spare\<rparr>)
                                      (map record_row packed)))))"

definition kernel_sort ::
    "nat \<Rightarrow> sort_kernel \<Rightarrow> 'c bucket_columns \<Rightarrow> 'c sort_scratch \<Rightarrow> ('c bucket_columns \<times> 'c sort_scratch) result" where
  "kernel_sort W sk cols scratch =
     (case sk of Comparison \<Rightarrow> sort_by_comparison cols scratch | Radix \<Rightarrow> sort_by_radix W cols scratch)"

section \<open>Gathering\<close>

lemma gather_rows_terms:
  assumes "wf_columns cols" "\<forall>i \<in> set order. i < length (col_x cols)"
  shows "fst (gather_rows cols scratch order) = columns_of (map (\<lambda>i. terms_of cols ! i) order)"
proof (rule columns_eqI)
  have len: "length (col_z cols) = length (col_x cols)" "length (col_coeff cols) = length (col_x cols)"
    using assms(1) by (simp_all add: wf_columns_def)
  show "wf_columns (fst (gather_rows cols scratch order))" by (simp add: gather_rows_def wf_columns_def)
  show "terms_of (fst (gather_rows cols scratch order)) = terms_of (columns_of (map (\<lambda>i. terms_of cols ! i) order))"
    unfolding columns_of_terms using assms(2) len
    by (auto simp: gather_rows_def terms_of_def zip_map_map intro!: nth_equalityI)
qed simp

lemma gather_sorted:
  assumes "wf_columns cols"
  shows "fst (gather_rows cols scratch (sort_key (row_key cols) [0..<length (col_x cols)])) = columns_of (sort_key fst (terms_of cols))"
proof -
  let ?n = "length (col_x cols)"
  have n: "columns_len cols = ?n" using assms by (simp add: columns_len_def wf_columns_def)
  have "sort_key (row_key cols) [0..<?n] = sort_key (\<lambda>i. fst (terms_of cols ! i)) [0..<?n]"
    using nth_terms_of [OF assms] n by (intro sort_key_congI) (simp add: row_key_def)
  moreover have "map (\<lambda>i. terms_of cols ! i) (sort_key (\<lambda>i. fst (terms_of cols ! i)) [0..<?n]) = sort_key fst (terms_of cols)"
    using map_sort_key [of "(!) (terms_of cols)" fst "[0..<?n]"] map_nth [of "terms_of cols"] length_terms_of [OF assms] n by simp
  ultimately show ?thesis using gather_rows_terms [OF assms, of "sort_key (row_key cols) [0..<?n]"] by simp
qed

lemma sort_by_comparison_terms:
  assumes "wf_columns cols" "length (col_x cols) < 2 ^ 32"
  shows "\<exists>scratch'. sort_by_comparison cols scratch = Inr (columns_of (sort_key fst (terms_of cols)), scratch')"
proof (cases "length (col_x cols) < 2")
  case True
  have "length (terms_of cols) < 2" using True assms(1) by (simp add: length_terms_of columns_len_def wf_columns_def)
  then have "sort_key fst (terms_of cols) = terms_of cols"
    by (cases "terms_of cols" rule: remdups_adj.cases) auto
  with True show ?thesis using assms by (simp add: sort_by_comparison_def columns_of_terms_of)
next
  case False
  let ?n = "length (col_x cols)"
  have id: "map (\<lambda>i. unat (of_nat i :: u32)) [0..<?n] = [0..<?n]"
    using assms(2) by (intro map_idI) (simp add: unat_of_nat)
  have "map unat (sort_key (\<lambda>a. row_key cols (unat a)) (map of_nat [0..<?n] :: u32 list)) = sort_key (row_key cols) [0..<?n]"
    unfolding map_sort_key by (simp add: comp_def id)
  with False assms(2) show ?thesis
    by (auto simp: sort_by_comparison_def Let_def prod_eq_iff gather_sorted [OF assms(1)])
qed

section \<open>Records\<close>

lemma and_low_mask: "w AND (push_bit n 1 - 1) = take_bit n w" for w :: u64
  by (simp add: take_bit_eq_mask mask_eq_exp_minus_1)

lemma pack_row_fields:
  assumes "i < 2 ^ 32"
  shows "record_row (pack_row W cols word shift i) = i"
    and "drop_bit 32 (pack_row W cols word shift i) = take_bit 16 (drop_bit shift (key_word W (col_x cols) (col_z cols) word i))"
proof -
  have high: "\<not> bit (of_nat i :: u64) n" if "32 \<le> n" for n
  proof -
    have "take_bit 32 (of_nat i :: u64) = of_nat i" using assms by (metis of_nat_take_bit take_bit_nat_eq_self)
    then show ?thesis using that by (metis bit_take_bit_iff not_less)
  qed
  show "drop_bit 32 (pack_row W cols word shift i) = take_bit 16 (drop_bit shift (key_word W (col_x cols) (col_z cols) word i))"
    unfolding pack_row_def RADIX_SURROGATE_BITS_def and_low_mask
    by (rule bit_word_eqI) (auto simp: bit_drop_bit_eq bit_or_iff bit_push_bit_iff bit_take_bit_iff high)
  have "(ucast (pack_row W cols word shift i) :: u32) = of_nat i"
    unfolding pack_row_def RADIX_SURROGATE_BITS_def and_low_mask
    by (rule bit_word_eqI) (auto simp: bit_ucast_iff bit_or_iff bit_push_bit_iff bit_of_nat_iff)
  then show "record_row (pack_row W cols word shift i) = i"
    using assms by (simp add: record_row_def unat_of_nat)
qed

lemma digit_of_eq: "digit_of digit r = unat (drop_bit 32 r) div 256 ^ digit mod 256"
proof -
  have "(of_nat RADIX_BUCKETS - 1 :: u64) = push_bit 8 1 - 1" by (simp add: RADIX_BUCKETS_def RADIX_DIGIT_BITS_def)
  then have "digit_of digit r = unat (take_bit 8 (drop_bit (digit * 8) (drop_bit 32 r)))"
    unfolding digit_of_def RADIX_DIGIT_BITS_def by (simp add: and_low_mask drop_bit_drop_bit add.commute del: push_bit_of_1)
  also have "\<dots> = take_bit 8 (drop_bit (digit * 8) (unat (drop_bit 32 r)))"
    by (simp only: unsigned_take_bit_eq unat_drop_bit_eq)
  also have "\<dots> = unat (drop_bit 32 r) div 2 ^ (digit * 8) mod 256"
    by (simp only: take_bit_eq_mod [of 8] drop_bit_eq_div [of "digit * 8"]) simp
  also have "(2 :: nat) ^ (digit * 8) = 256 ^ digit" using power_mult [of "2 :: nat" 8 digit] by (simp add: mult.commute)
  finally show ?thesis .
qed

section \<open>The passes\<close>

lemma radix_pass_sorts:
  assumes "length spare = length packed"
  shows "fst (radix_pass digit (packed, spare)) = sort_key (digit_of digit) packed"
    and "length (snd (radix_pass digit (packed, spare))) = length packed"
proof -
  let ?d = "digit_of digit" and ?n = RADIX_BUCKETS
  define counts where "counts = fold (tally_step ?d) packed (replicate (Suc ?n) 0)"
  have small: "\<forall>x \<in> set packed. ?d x < ?n" by (simp add: digit_of_eq RADIX_BUCKETS_def RADIX_DIGIT_BITS_def)
  have t: "length counts = Suc ?n" "\<And>b. b < ?n \<Longrightarrow> counts ! Suc b = length (filter (\<lambda>x. ?d x = b) packed)"
    using tally_loop [OF small, of "replicate (Suc ?n) 0"] by (simp_all add: counts_def)
  show "fst (radix_pass digit (packed, spare)) = sort_key ?d packed"
  proof (cases "length (filter (\<lambda>tally. tally \<noteq> 0) (drop 1 counts)) > 1")
    case True
    then show ?thesis
      using counting_pass [OF small assms] unfolding radix_pass_def counts_def by (simp add: Let_def split_def)
  next
    case False
    have "?d x = ?d y" if xy: "x \<in> set packed" "y \<in> set packed" for x y
    proof (rule ccontr)
      assume ne: "?d x \<noteq> ?d y"
      have "drop 1 counts ! ?d z \<noteq> 0 \<and> ?d z < length (drop 1 counts)" if "z \<in> set packed" for z
        using t small that by (auto simp: filter_empty_conv)
      then have "{?d x, ?d y} \<subseteq> {i. i < length (drop 1 counts) \<and> drop 1 counts ! i \<noteq> 0}" using xy by blast
      then have "card {?d x, ?d y} \<le> length (filter (\<lambda>tally. tally \<noteq> 0) (drop 1 counts))"
        unfolding length_filter_conv_card by (intro card_mono) simp_all
      then show False using False ne by simp
    qed
    then have "map ?d packed = replicate (length packed) (?d (hd packed))"
      by (cases packed) (auto simp: map_replicate_const [symmetric])
    then have "sorted (map ?d packed)" by (simp only: sorted_replicate)
    with False show ?thesis unfolding radix_pass_def counts_def by (simp add: Let_def sort_key_sorted)
  qed
  have keep: "length (fst (fold (scatter_step ?d) xs st)) = length (fst st)" for xs st
    by (induction xs arbitrary: st) (auto simp: scatter_step_def Let_def split_def)
  show "length (snd (radix_pass digit (packed, spare))) = length packed"
    using assms by (simp add: radix_pass_def Let_def split_def)
qed

lemma radix_passes_sort:
  assumes "length spare = length packed" "\<forall>r \<in> set packed. unat (drop_bit 32 r) < 2 ^ 16"
  shows "fst (radix_passes 0 (packed, spare)) = sort_key (\<lambda>r. drop_bit 32 r) packed"
proof -
  let ?st = "radix_pass 0 (packed, spare)"
  have "radix_passes 0 (packed, spare) = radix_pass 1 ?st"
    by (simp add: radix_passes.simps RADIX_DIGIT_BITS_def RADIX_SURROGATE_BITS_def)
  moreover have "fst (radix_pass 1 ?st) = sort_key (digit_of 1) (sort_key (digit_of 0) packed)"
    using radix_pass_sorts [OF assms(1), of 0] radix_pass_sorts(1) [of "snd ?st" "fst ?st" 1] by (metis length_sort prod.collapse)
  moreover have "\<dots> = sort_key (\<lambda>r. drop_bit 32 r) packed"
  proof (rule sort_key_sort_key)
    fix r s assume rs: "r \<in> set packed" "s \<in> set packed"
    define a b where "a = unat (drop_bit 32 r)" and "b = unat (drop_bit 32 s)"
    have ab: "a < 2 ^ 16" "b < 2 ^ 16" using assms(2) rs by (simp_all add: a_def b_def)
    have "drop_bit 32 r \<le> drop_bit 32 s \<longleftrightarrow> a \<le> b" by (simp add: a_def b_def word_le_nat_alt)
    also have "\<dots> \<longleftrightarrow> a div 256 < b div 256 \<or> a div 256 = b div 256 \<and> a mod 256 \<le> b mod 256"
    proof -
      have "256 * q + r \<le> 256 * q' + r' \<longleftrightarrow> q < q' \<or> q = q' \<and> r \<le> r'" if "r < 256" "r' < 256" for q q' r r' :: nat
        using that by arith
      from this [of "a mod 256" "b mod 256" "a div 256" "b div 256"] show ?thesis by simp
    qed
    also have "\<dots> \<longleftrightarrow> digit_of 1 r < digit_of 1 s \<or> digit_of 1 r = digit_of 1 s \<and> digit_of 0 r \<le> digit_of 0 s"
      using ab unfolding digit_of_eq a_def [symmetric] b_def [symmetric] by simp
    finally show "drop_bit 32 r \<le> drop_bit 32 s \<longleftrightarrow>
        digit_of 1 r < digit_of 1 s \<or> digit_of 1 r = digit_of 1 s \<and> digit_of 0 r \<le> digit_of 0 s" .
  qed
  ultimately show ?thesis by simp
qed

section \<open>The fixup\<close>

lemma run_end_eq: "run_end packed s j = j + length (takeWhile (\<lambda>r. drop_bit 32 r = s) (drop j packed))"
proof (induction packed s j rule: run_end.induct)
  case (1 packed s j)
  show ?case
  proof (cases "j < length packed")
    case True
    then have "drop j packed = packed ! j # drop (Suc j) packed" by (simp add: Cons_nth_drop_Suc)
    with True 1 show ?thesis by (subst run_end.simps) auto
  qed (subst run_end.simps, simp)
qed

lemma fixup_groups: "fixup k (length as) (as @ bs) = as @ group_sort (\<lambda>r. drop_bit 32 r) k bs"
proof (induction "length bs" arbitrary: as bs rule: less_induct)
  case less
  show ?case
  proof (cases bs)
    case Nil
    then show ?thesis by (simp add: fixup.simps)
  next
    case (Cons r rs)
    define t d where "t = takeWhile (\<lambda>u. drop_bit 32 u = drop_bit 32 r) rs" and
      "d = dropWhile (\<lambda>u. drop_bit 32 u = drop_bit 32 r) rs"
    have rs: "rs = t @ d" by (simp add: t_def d_def)
    have sorted: "length (sort_key k (r # t)) = Suc (length t)" by simp
    have "run_end (as @ bs) (drop_bit 32 r) (Suc (length as)) = length as + Suc (length t)"
      unfolding run_end_eq Cons by (simp add: t_def)
    moreover have one: "sort_key k [r] = [r]" by simp
    ultimately have "fixup k (length as) (as @ bs) = fixup k (length (as @ sort_key k (r # t))) ((as @ sort_key k (r # t)) @ d)"
      by (subst fixup.simps) (simp add: Cons rs Let_def one del: sort_key_simps)
    also have "\<dots> = (as @ sort_key k (r # t)) @ group_sort (\<lambda>r. drop_bit 32 r) k d"
      using Cons rs by (intro less.hyps) simp
    finally show ?thesis by (simp add: Cons t_def d_def)
  qed
qed

section \<open>The window\<close>

lemma fold_any_all:
  "fold (\<lambda>row (any, all). (any OR v row, all AND v row)) rows (any, all) =
     (fold (\<lambda>row a. a OR v row) rows any, fold (\<lambda>row a. a AND v row) rows all)"
  by (induction rows arbitrary: any all) simp_all

lemma bit_fold_any: "bit (fold (\<lambda>row a. a OR v row) rows a) n \<longleftrightarrow> bit a n \<or> (\<exists>row \<in> set rows. bit (v row) n)"
  by (induction rows arbitrary: a) (auto simp: bit_or_iff)

lemma bit_fold_all: "bit (fold (\<lambda>row a. a AND v row) rows a) n \<longleftrightarrow> bit a n \<and> (\<forall>row \<in> set rows. bit (v row) n)"
  by (induction rows arbitrary: a) (auto simp: bit_and_iff)

lemma agree_off_disagreement:
  assumes "i < length x" "j < length x" "n < 64" "\<not> bit (disagreement W x z word) n"
  shows "bit (key_word W x z word i) n \<longleftrightarrow> bit (key_word W x z word j) n"
  using assms by (auto simp: disagreement_def fold_any_all bit_and_iff bit_not_iff bit_fold_any bit_fold_all)

lemma agree_if_no_disagreement:
  assumes "i < length x" "j < length x" "disagreement W x z word = 0"
  shows "key_word W x z word i = key_word W x z word j"
  using agree_off_disagreement [OF assms(1,2)] assms(3) by (intro bit_word_eqI) simp

lemma window_scan_None: "window_scan W x z ws = None \<Longrightarrow> w \<in> set ws \<Longrightarrow> disagreement W x z w = 0"
  by (induction ws) (auto simp: Let_def split: if_splits)

lemma window_scan_Some:
  "window_scan W x z ws = Some (word, high, diff) \<Longrightarrow> diff = disagreement W x z word \<and> diff \<noteq> 0 \<and>
     high = 63 - leading_zeros diff \<and> (\<exists>us vs. ws = us @ word # vs \<and> (\<forall>w \<in> set us. disagreement W x z w = 0))"
proof (induction ws)
  case (Cons w ws)
  show ?case
  proof (cases "disagreement W x z w = 0")
    case True
    with Cons.prems have "window_scan W x z ws = Some (word, high, diff)" by simp
    from Cons.IH [OF this] obtain us vs where us: "ws = us @ word # vs" "\<forall>w \<in> set us. disagreement W x z w = 0"
        "diff = disagreement W x z word" "diff \<noteq> 0" "high = 63 - leading_zeros diff"
      by blast
    then have "w # ws = (w # us) @ word # vs \<and> (\<forall>w \<in> set (w # us). disagreement W x z w = 0)" using True by simp
    with us(3-5) show ?thesis by blast
  next
    case False
    with Cons.prems have "w = word" "diff = disagreement W x z word" "high = 63 - leading_zeros diff"
      by (auto simp: Let_def)
    moreover have "\<exists>us vs. w # ws = us @ w # vs \<and> (\<forall>w \<in> set us. disagreement W x z w = 0)"
      by (intro exI [of _ "[]"] exI [of _ ws]) simp
    ultimately show ?thesis using False by simp
  qed
qed simp

lemma discriminating_window_None:
  "discriminating_window W x z = None \<Longrightarrow> w < 2 * W \<Longrightarrow> disagreement W x z w = 0"
  by (simp add: discriminating_window_def window_scan_None)

lemma discriminating_window_Some:
  assumes "discriminating_window W x z = Some (word, high, diff)"
  shows "diff = disagreement W x z word" "word < 2 * W" "\<And>w. w < word \<Longrightarrow> disagreement W x z w = 0"
    "\<And>n. high < n \<Longrightarrow> \<not> bit diff n"
proof -
  obtain us vs where us: "[0..<2 * W] = us @ word # vs" "\<forall>w \<in> set us. disagreement W x z w = 0"
      "diff = disagreement W x z word" "diff \<noteq> 0" "high = 63 - leading_zeros diff"
    using window_scan_Some [OF assms [unfolded discriminating_window_def]] by auto
  have len: "length us < 2 * W" using arg_cong [OF us(1), of length] by simp
  then have word: "word = length us" using arg_cong [OF us(1), of "\<lambda>l. l ! length us"] by simp
  have "w \<in> set us" if "w < word" for w
  proof -
    have "us ! w = w" using arg_cong [OF us(1), of "\<lambda>l. l ! w"] len word that by (simp add: nth_append)
    then show ?thesis using nth_mem [of w us] word that by simp
  qed
  then show "diff = disagreement W x z word" "word < 2 * W" "\<And>w. w < word \<Longrightarrow> disagreement W x z w = 0"
    using us(2,3) len word by simp_all
  show "\<And>n. high < n \<Longrightarrow> \<not> bit diff n"
    using highest_bit_word(3) [OF us(4)] us(5) by simp
qed

section \<open>The surrogate is monotone in the key\<close>

lemma list_le_nth:
  fixes as bs :: "'a::linorder list"
  assumes "as \<le> bs" "length as = length bs" "n < length as" "take n as = take n bs"
  shows "as ! n \<le> bs ! n"
  using assms
proof (induction as arbitrary: bs n)
  case (Cons a as)
  then obtain b bs' where bs: "bs = b # bs'" by (cases bs) auto
  show ?case using Cons by (cases n) (auto simp: bs)
qed simp

definition wf_rows :: "nat \<Rightarrow> 'c bucket_columns \<Rightarrow> bool" where
  "wf_rows W cols \<longleftrightarrow> wf_columns cols \<and> (\<forall>t \<in> set (terms_of cols). wf_key W (fst t))"

lemma row_key_wf:
  assumes "wf_rows W cols" "i < length (col_x cols)"
  shows "wf_key W (row_key cols i)"
proof -
  have wf: "wf_columns cols" and i: "i < columns_len cols"
    using assms by (simp_all add: wf_rows_def wf_columns_def columns_len_def)
  have "terms_of cols ! i \<in> set (terms_of cols)" using length_terms_of [OF wf] i by (intro nth_mem) simp
  with assms(1) nth_terms_of [OF wf i] show ?thesis by (force simp: wf_rows_def row_key_def)
qed

lemma key_word_mono:
  assumes "wf_rows W cols" "i < length (col_x cols)" "j < length (col_x cols)" "row_key cols i \<le> row_key cols j"
    "word < 2 * W" "\<And>w. w < word \<Longrightarrow> key_word W (col_x cols) (col_z cols) w i = key_word W (col_x cols) (col_z cols) w j"
  shows "key_word W (col_x cols) (col_z cols) word i \<le> key_word W (col_x cols) (col_z cols) word j"
proof -
  let ?x = "\<lambda>i. col_x cols ! i" and ?z = "\<lambda>i. col_z cols ! i"
  have len: "length (?x i) = W" "length (?z i) = W" "length (?x j) = W" "length (?z j) = W"
    using row_key_wf [OF assms(1,2)] row_key_wf [OF assms(1,3)] by (simp_all add: row_key_def wf_key_def)
  show ?thesis
  proof (cases "word < W")
    case True
    have "take word (?x i) = take word (?x j)"
      using assms(6) True len by (intro nth_equalityI) (auto simp: key_word_def)
    moreover have "?x i \<le> ?x j" using assms(4) by (auto simp: row_key_def less_eq_prod_def)
    ultimately show ?thesis using list_le_nth [of "?x i" "?x j" word] True len by (simp add: key_word_def)
  next
    case False
    have x: "?x i = ?x j"
    proof (rule nth_equalityI)
      fix w assume "w < length (?x i)"
      then show "?x i ! w = ?x j ! w" using assms(6) [of w] False len by (simp add: key_word_def)
    qed (simp add: len)
    have "take (word - W) (?z i) = take (word - W) (?z j)"
    proof (rule nth_equalityI)
      fix w assume "w < length (take (word - W) (?z i))"
      then have "W + w < word" "w < word - W" using False by auto
      then show "take (word - W) (?z i) ! w = take (word - W) (?z j) ! w"
        using assms(6) [of "W + w"] False len by (simp add: key_word_def)
    qed (simp add: len)
    moreover have "?z i \<le> ?z j" using assms(4) x by (auto simp: row_key_def less_eq_prod_def)
    ultimately show ?thesis using list_le_nth [of "?z i" "?z j" "word - W"] False len assms(5) by (simp add: key_word_def)
  qed
qed

lemma surrogate_mono:
  fixes v w :: u64
  assumes "v \<le> w" "\<And>n. high < n \<Longrightarrow> n < 64 \<Longrightarrow> bit v n = bit w n" "high + 1 \<le> shift + 16"
  shows "take_bit 16 (drop_bit shift v) \<le> take_bit 16 (drop_bit shift w)"
proof -
  let ?a = "unat (drop_bit shift v)" and ?b = "unat (drop_bit shift w)"
  have "drop_bit 16 (drop_bit shift v) = drop_bit 16 (drop_bit shift w)"
  proof (rule bit_word_eqI)
    fix n assume "n < LENGTH(64)"
    show "bit (drop_bit 16 (drop_bit shift v)) n = bit (drop_bit 16 (drop_bit shift w)) n"
      using assms(2) [of "shift + (16 + n)"] assms(3) bit_imp_le_length [of v "shift + (16 + n)"]
        bit_imp_le_length [of w "shift + (16 + n)"] by (auto simp: bit_drop_bit_eq ac_simps)
  qed
  then have high: "?a div 2 ^ 16 = ?b div 2 ^ 16" by (metis drop_bit_eq_div unat_drop_bit_eq)
  have "?a \<le> ?b"
    using assms(1) unfolding unat_drop_bit_eq word_le_nat_alt by (simp only: drop_bit_eq_div div_le_mono)
  then have "?a mod 2 ^ 16 \<le> ?b mod 2 ^ 16"
    using high by (metis add_le_cancel_left div_mult_mod_eq)
  then show ?thesis
    unfolding word_le_nat_alt unsigned_take_bit_eq by (simp only: take_bit_eq_mod)
qed

section \<open>Both kernels sort\<close>

text \<open>With no disagreeing word every key is the same.\<close>

lemma keys_equal_if_no_window:
  assumes "wf_rows W cols" "discriminating_window W (col_x cols) (col_z cols) = None"
    "i < length (col_x cols)" "j < length (col_x cols)"
  shows "row_key cols i = row_key cols j"
proof -
  have eq: "key_word W (col_x cols) (col_z cols) w i = key_word W (col_x cols) (col_z cols) w j" if "w < 2 * W" for w
    by (rule agree_if_no_disagreement [OF assms(3,4) discriminating_window_None [OF assms(2) that]])
  have len: "wf_key W (row_key cols i)" "wf_key W (row_key cols j)"
    by (rule row_key_wf [OF assms(1)], fact)+
  have "col_x cols ! i = col_x cols ! j"
  proof (rule nth_equalityI)
    fix w assume "w < length (col_x cols ! i)"
    then show "col_x cols ! i ! w = col_x cols ! j ! w"
      using eq [of w] len by (simp add: row_key_def wf_key_def key_word_def)
  qed (use len in \<open>simp add: row_key_def wf_key_def\<close>)
  moreover have "col_z cols ! i = col_z cols ! j"
  proof (rule nth_equalityI)
    fix w assume "w < length (col_z cols ! i)"
    then show "col_z cols ! i ! w = col_z cols ! j ! w"
      using eq [of "W + w"] len by (simp add: row_key_def wf_key_def key_word_def)
  qed (use len in \<open>simp add: row_key_def wf_key_def\<close>)
  ultimately show ?thesis by (simp add: row_key_def)
qed

lemma radix_order:
  fixes W cols spare
  assumes "wf_rows W cols" "length (col_x cols) < 2 ^ 32" "length spare = length (col_x cols)"
    "discriminating_window W (col_x cols) (col_z cols) = Some (word, high, diff)"
  defines "rows \<equiv> map (pack_row W cols word ((high + 1) - RADIX_SURROGATE_BITS)) [0..<length (col_x cols)]"
  shows "map record_row (fixup (\<lambda>rec. row_key cols (record_row rec)) 0 (fst (radix_passes 0 (rows, spare)))) =
    sort_key (row_key cols) [0..<length (col_x cols)]"
proof -
  let ?n = "length (col_x cols)" and ?k = "\<lambda>rec. row_key cols (record_row rec)" and ?s = "\<lambda>rec :: u64. drop_bit 32 rec"
  define shift where "shift = (high + 1) - RADIX_SURROGATE_BITS"
  note win = discriminating_window_Some [OF assms(4)]
  have rows: "rows = map (pack_row W cols word shift) [0..<?n]" by (simp add: rows_def shift_def)
  have fields: "record_row (pack_row W cols word shift i) = i"
      "?s (pack_row W cols word shift i) = take_bit 16 (drop_bit shift (key_word W (col_x cols) (col_z cols) word i))"
    if "i < ?n" for i
    using pack_row_fields [of i] that assms(2) by simp_all
  have mono: "?s r \<le> ?s t" if rt: "r \<in> set rows" "t \<in> set rows" "?k r \<le> ?k t" for r t
  proof -
    obtain i j where ij: "i < ?n" "j < ?n" "r = pack_row W cols word shift i" "t = pack_row W cols word shift j"
      using rt(1,2) by (auto simp: rows)
    have "key_word W (col_x cols) (col_z cols) word i \<le> key_word W (col_x cols) (col_z cols) word j"
      using rt(3) ij fields(1) win(2) agree_if_no_disagreement [OF ij(1,2) win(3)]
      by (intro key_word_mono [OF assms(1) ij(1,2)]) simp_all
    moreover have "bit (key_word W (col_x cols) (col_z cols) word i) n = bit (key_word W (col_x cols) (col_z cols) word j) n"
      if "high < n" "n < 64" for n
      using agree_off_disagreement [OF ij(1,2) that(2)] win(1) win(4) [OF that(1)] by simp
    ultimately show ?thesis
      using surrogate_mono [of _ _ high shift] fields(2) ij by (simp add: shift_def RADIX_SURROGATE_BITS_def)
  qed
  have "take_bit 16 n < 65536" for n :: nat using take_bit_nat_less_exp [of 16 n] by simp
  then have "unat (?s r) < 2 ^ 16" if "r \<in> set rows" for r
    using that fields(2) by (auto simp: rows unsigned_take_bit_eq)
  then have "fst (radix_passes 0 (rows, spare)) = sort_key ?s rows"
    using assms(3) by (intro radix_passes_sort) (auto simp: rows)
  moreover have "fixup ?k 0 (sort_key ?s rows) = sort_key ?k (sort_key ?s rows)"
    using fixup_groups [of ?k "[]" "sort_key ?s rows"] group_sort_eq [of ?s "sort_key ?s rows" ?k] mono by simp
  moreover have "sort_key ?k (sort_key ?s rows) = sort_key ?k rows"
    using mono by (intro sort_key_sort_key) (auto simp: order.order_iff_strict)
  moreover have "map record_row rows = [0..<?n]"
    unfolding rows using fields(1) by (intro nth_equalityI) auto
  ultimately show ?thesis using map_sort_key [of record_row "row_key cols" rows] by simp
qed

lemma sort_by_radix_terms:
  assumes "wf_rows W cols" "length (col_x cols) < 2 ^ 32"
  shows "\<exists>scratch'. sort_by_radix W cols scratch = Inr (columns_of (sort_key fst (terms_of cols)), scratch')"
proof -
  let ?n = "length (col_x cols)"
  have wf: "wf_columns cols" using assms(1) by (simp add: wf_rows_def)
  note comparison = sort_by_comparison_terms [OF wf assms(2)]
  show ?thesis
  proof (cases "?n < 2")
    case True
    then show ?thesis using comparison [of scratch] assms(2) by (simp add: sort_by_radix_def sort_by_comparison_def)
  next
    case long: False
    show ?thesis
    proof (cases "discriminating_window W (col_x cols) (col_z cols)")
      case None
      have "map (row_key cols) [0..<?n] = replicate ?n (row_key cols 0)"
      proof (rule nth_equalityI)
        fix i assume "i < length (map (row_key cols) [0..<?n])"
        then have i: "i < ?n" by simp
        have "row_key cols i = row_key cols 0"
          by (rule keys_equal_if_no_window [OF assms(1) None i]) (use long in force)
        then show "map (row_key cols) [0..<?n] ! i = replicate ?n (row_key cols 0) ! i" using i by simp
      qed simp
      then have "sort_key (row_key cols) [0..<?n] = [0..<?n]" by (intro sort_key_sorted) (simp only: sorted_replicate)
      then have "columns_of (sort_key fst (terms_of cols)) = columns_of (map ((!) (terms_of cols)) [0..<?n])"
        using gather_sorted [OF wf] gather_rows_terms [OF wf, of "[0..<?n]"] by simp
      also have "map ((!) (terms_of cols)) [0..<?n] = terms_of cols"
      proof -
        have "?n = length (terms_of cols)" using length_terms_of [OF wf] wf by (simp add: columns_len_def wf_columns_def)
        then show ?thesis by (simp only: map_nth)
      qed
      also have "columns_of (terms_of cols) = cols" by (rule columns_of_terms_of [OF wf])
      finally show ?thesis using None assms(2) long by (simp add: sort_by_radix_def)
    next
      case (Some w)
      obtain word high diff where w: "w = (word, high, diff)" by (metis prod_cases3)
      note win = discriminating_window_Some [OF Some [unfolded w]]
      define shift where "shift = (high + 1) - RADIX_SURROGATE_BITS"
      have shift: "Suc high - RADIX_SURROGATE_BITS = shift" by (simp add: shift_def)
      define window where "window = drop_bit shift diff AND (push_bit RADIX_SURROGATE_BITS 1 - 1)"
      define spare where "spare = take ?n (ss_spare scratch) @ replicate (?n - length (ss_spare scratch)) 0"
      note radix = radix_order [OF assms(1,2) _ Some [unfolded w], of spare, folded shift_def]
      show ?thesis
      proof (cases "count_ones window < RADIX_MIN_WINDOW_BITS")
        case True
        then show ?thesis
          using comparison [of scratch] assms(2) long Some w
          unfolding sort_by_radix_def Let_def window_def by (simp add: shift)
      next
        case False
        then show ?thesis
          using radix assms(2) long Some w gather_sorted [OF wf]
          unfolding sort_by_radix_def Let_def window_def by (auto simp: prod_eq_iff spare_def split_def shift)
      qed
    qed
  qed
qed

text \<open>
  C30. The two sort kernels agree: on any run of at most \<open>u32::MAX\<close> rows and whatever the scratch buffers hold, the
  comparison kernel and the radix kernel (surrogate window, two counting passes, fixup, or its fallbacks) both leave the
  rows stably sorted by their key, and a longer run makes both panic before anything is written.
\<close>

theorem sort_kernels_agree:
  assumes "wf_rows W cols"
  shows "(length (col_x cols) < 2 ^ 32 \<longrightarrow> (\<exists>scratch'. kernel_sort W sk cols scratch =
      Inr (columns_of (sort_key fst (terms_of cols)), scratch'))) \<and>
    (\<not> length (col_x cols) < 2 ^ 32 \<longrightarrow> kernel_sort W sk cols scratch = Inl RunTooLong)"
proof (cases "length (col_x cols) < 2 ^ 32")
  case True
  have "wf_columns cols" using assms by (simp add: wf_rows_def)
  with True show ?thesis
    using sort_by_comparison_terms [OF _ True] sort_by_radix_terms [OF assms True]
    by (cases sk) (simp_all add: kernel_sort_def)
next
  case False
  then have "\<not> length (col_x cols) \<le> 2 ^ 32 - 1" by simp
  with False show ?thesis
    by (cases sk) (simp_all only: kernel_sort_def sort_kernel.case sort_by_comparison_def sort_by_radix_def Let_def,
        simp_all)
qed

theorem sort_kernels_agree_witness:
  "\<exists>scratch'. kernel_sort 1 Radix \<lparr>col_x = [[3], [1]], col_z = [[0], [0]], col_coeff = [5 :: real, 6]\<rparr>
      \<lparr>ss_permutation = [], ss_packed = [], ss_spare = [], ss_x = [], ss_z = [], ss_coeff = []\<rparr> =
    Inr (columns_of [(([1], [0]), 6), (([3], [0]), 5)], scratch')"
proof -
  let ?c = "\<lparr>col_x = [[3], [1]], col_z = [[0], [0]], col_coeff = [5 :: real, 6]\<rparr>"
  have "wf_rows 1 ?c" by (simp add: wf_rows_def wf_columns_def terms_of_def wf_key_def)
  from sort_kernels_agree [OF this, of Radix] show ?thesis
    by (simp add: terms_of_def less_eq_prod_def)
qed

end
