(* ===== verification/Merge.thy ===== *)
theory Merge
  imports Truncation Sort_Kernels Channel
begin

unbundle bit_operations_syntax

text \<open>
  \<open>engine/merge.rs\<close>, the fused merge: the strictly ascending identity stream of a bucket and its sorted rest stream are
  merged into fresh columns, equal keys are summed, and the policy is asked once per key about the full sum.
\<close>

section \<open>The code\<close>

definition emit_if_kept ::
    "'c coefficient \<Rightarrow> ('s, 'c) truncation_policy \<Rightarrow> key \<Rightarrow> 'c \<Rightarrow> 'c bucket_columns \<Rightarrow> 'c bucket_columns" where
  "emit_if_kept C policy k s out =
     (if \<not> c_eq C s (c_zero C) \<and> keep_term policy (fst k) (snd k) s then columns_push out k s else out)"

text \<open>The inner loop: the rest rows of one key are added up; what is left of the rest stream is returned.\<close>

fun sum_segment :: "'c coefficient \<Rightarrow> key \<Rightarrow> 'c \<Rightarrow> 'c pauli_term list \<Rightarrow> 'c \<times> 'c pauli_term list" where
  "sum_segment C k s [] = (s, [])"
| "sum_segment C k s ((l, b) # bs) = (if l = k then sum_segment C k (c_add C s b) bs else (s, (l, b) # bs))"

lemma sum_segment_length [termination_simp]: "(s', bs') = sum_segment C k s bs \<Longrightarrow> length bs' \<le> length bs"
  by (induction C k s bs rule: sum_segment.induct) (auto split: if_splits intro: le_SucI)

text \<open>The three loops, over what is left of the two streams.\<close>

fun merge_rest :: "'c coefficient \<Rightarrow> ('s, 'c) truncation_policy \<Rightarrow> 'c pauli_term list \<Rightarrow> 'c bucket_columns \<Rightarrow> 'c bucket_columns"
  where
  "merge_rest C policy [] out = out"
| "merge_rest C policy ((l, b) # bs) out =
     (let (s, bs') = sum_segment C l b bs in merge_rest C policy bs' (emit_if_kept C policy l s out))"

fun merge_loop ::
    "'c coefficient \<Rightarrow> ('s, 'c) truncation_policy \<Rightarrow> 'c pauli_term list \<Rightarrow> 'c pauli_term list \<Rightarrow> 'c bucket_columns \<Rightarrow>
     'c bucket_columns" where
  "merge_loop C policy ((k, a) # as) ((l, b) # bs) out =
     (if k \<le> l
      then (let (s, bs') = sum_segment C k a ((l, b) # bs) in merge_loop C policy as bs' (emit_if_kept C policy k s out))
      else (let (s, bs') = sum_segment C l b bs in merge_loop C policy ((k, a) # as) bs' (emit_if_kept C policy l s out)))"
| "merge_loop C policy as [] out = fold (\<lambda>(k, a). emit_if_kept C policy k a) as out"
| "merge_loop C policy [] bs out = merge_rest C policy bs out"

definition merge_identity_and_rest ::
    "'c coefficient \<Rightarrow> ('s, 'c) truncation_policy \<Rightarrow> 'c bucket_columns \<Rightarrow> 'c bucket_columns \<Rightarrow> 'c bucket_columns \<Rightarrow>
     'c bucket_columns" where
  "merge_identity_and_rest C policy idn rest out = merge_loop C policy (terms_of idn) (terms_of rest) out"

section \<open>What it computes\<close>

text \<open>The total of a key over a list of rows.\<close>

definition key_total :: "'c coefficient \<Rightarrow> 'c pauli_term list \<Rightarrow> key \<Rightarrow> 'c" where
  "key_total C ts k = fold (\<lambda>(l, c) s. if l = k then c_add C s c else s) ts (c_zero C)"

definition kept_total :: "'c coefficient \<Rightarrow> ('s, 'c) truncation_policy \<Rightarrow> 'c pauli_term list \<Rightarrow> key \<Rightarrow> 'c option" where
  "kept_total C policy ts k =
     (let s = key_total C ts k
      in if \<not> c_eq C s (c_zero C) \<and> keep_term policy (fst k) (snd k) s then Some s else None)"

text \<open>The rows one reduced key contributes.\<close>

definition kept_row :: "'c coefficient \<Rightarrow> ('s, 'c) truncation_policy \<Rightarrow> key \<Rightarrow> 'c \<Rightarrow> 'c pauli_term list" where
  "kept_row C policy k s = (if \<not> c_eq C s (c_zero C) \<and> keep_term policy (fst k) (snd k) s then [(k, s)] else [])"

lemma emit_if_kept_terms:
  assumes "wf_columns out"
  shows "terms_of (emit_if_kept C policy k s out) = terms_of out @ kept_row C policy k s"
    "wf_columns (emit_if_kept C policy k s out)"
  using columns_push_terms [OF assms, of k s] assms by (simp_all add: emit_if_kept_def kept_row_def)

definition is_reduced ::
    "'c coefficient \<Rightarrow> ('s, 'c) truncation_policy \<Rightarrow> 'c pauli_term list \<Rightarrow> 'c pauli_term list \<Rightarrow> bool" where
  "is_reduced C policy rows ts \<longleftrightarrow> run ts \<and> fst ` set ts \<subseteq> fst ` set rows \<and> map_of ts = kept_total C policy rows"

lemma reduced_step:
  assumes "is_reduced C policy rows' ts" "key_total C rows k = s" "\<forall>t \<in> set rows'. k < fst t"
    "\<And>l. l \<noteq> k \<Longrightarrow> key_total C rows' l = key_total C rows l" "k \<in> fst ` set rows" "set rows' \<subseteq> set rows"
  shows "is_reduced C policy rows (kept_row C policy k s @ ts)"
proof -
  have above: "\<forall>t \<in> set ts. k < fst t" using assms(1,3) by (force simp: is_reduced_def)
  then have none: "map_of ts k = None" by (rule run_lookup_None)
  have "map_of (kept_row C policy k s @ ts) l = kept_total C policy rows l" for l
  proof (cases "l = k")
    case True
    with none assms(2) show ?thesis by (auto simp: kept_row_def kept_total_def Let_def)
  next
    case False
    with assms(1) assms(4) [OF False] show ?thesis
      by (simp add: is_reduced_def kept_total_def kept_row_def Let_def)
  qed
  moreover have "run (kept_row C policy k s @ ts)"
    using assms(1) above by (auto simp: is_reduced_def kept_row_def run_Cons)
  moreover have "fst ` set (kept_row C policy k s @ ts) \<subseteq> fst ` set rows"
  proof -
    have "fst ` set (kept_row C policy k s) \<subseteq> {k}" by (auto simp: kept_row_def split: if_splits)
    then show ?thesis
      using assms(1,5) image_mono [OF assms(6), of fst] unfolding is_reduced_def set_append image_Un by blast
  qed
  ultimately show ?thesis unfolding is_reduced_def by blast
qed

context coefficient_laws
begin

lemma embed_key_total: "to_complex64 C (key_total C ts k) = (\<Sum>(l, c)\<leftarrow>ts. if l = k then to_complex64 C c else 0)"
proof -
  have "to_complex64 C (fold (\<lambda>(l, c) s. if l = k then c_add C s c else s) ts s) =
      to_complex64 C s + (\<Sum>(l, c)\<leftarrow>ts. if l = k then to_complex64 C c else 0)" for s
    by (induction ts arbitrary: s) (auto simp: embed)
  then show ?thesis by (simp add: key_total_def embed)
qed

lemma key_total_eqI: "(\<Sum>(l, c)\<leftarrow>ts. if l = k then to_complex64 C c else 0) = to_complex64 C s \<Longrightarrow> key_total C ts k = s"
  using embed_key_total [of ts k] by (metis embed_inj)

lemma sum_segment_spec:
  assumes "sorted (map fst bs)" "\<forall>t \<in> set bs. k \<le> fst t" "sum_segment C k s bs = (s', bs')"
  shows "\<exists>es. bs = es @ bs' \<and> (\<forall>t \<in> set es. fst t = k) \<and> (\<forall>t \<in> set bs'. k < fst t) \<and>
    to_complex64 C s' = to_complex64 C s + (\<Sum>(l, c)\<leftarrow>es. to_complex64 C c)"
  using assms
proof (induction bs arbitrary: s)
  case (Cons t bs)
  obtain l b where t: "t = (l, b)" by (cases t)
  show ?case
  proof (cases "l = k")
    case True
    with Cons.prems have "sorted (map fst bs)" "\<forall>t \<in> set bs. k \<le> fst t" "sum_segment C k (c_add C s b) bs = (s', bs')"
      by (simp_all add: t)
    from Cons.IH [OF this] obtain es where "bs = es @ bs'" "\<forall>t \<in> set es. fst t = k" "\<forall>t \<in> set bs'. k < fst t"
        "to_complex64 C s' = to_complex64 C (c_add C s b) + (\<Sum>(l, c)\<leftarrow>es. to_complex64 C c)" by blast
    with True t show ?thesis by (intro exI [of _ "t # es"]) (simp add: embed)
  next
    case False
    with Cons.prems have "s' = s" "bs' = t # bs" "k < l" by (auto simp: t)
    moreover have "\<forall>u \<in> set bs. l \<le> fst u" using Cons.prems(1) by (simp add: t)
    ultimately show ?thesis by (intro exI [of _ "[]"]) (auto simp: t)
  qed
qed simp

lemma no_key_total:
  fixes us :: "'c pauli_term list"
  assumes "\<forall>t \<in> set us. k < fst t"
  shows "(\<Sum>(l, c)\<leftarrow>us. if l = k then to_complex64 C c else 0) = 0"
proof (rule sum_list_zeroI)
  fix t assume "t \<in> set us"
  then have "fst t \<noteq> k" using assms by auto
  then show "(case t of (l, c) \<Rightarrow> if l = k then to_complex64 C c else 0) = 0" by (simp add: split_def)
qed

lemma total_of_segment:
  fixes us es :: "'c pauli_term list"
  assumes "\<forall>t \<in> set es. fst t = k" "\<forall>t \<in> set us. k < fst t"
  shows "(\<Sum>(l, c)\<leftarrow>us @ es @ vs. if l = m then to_complex64 C c else 0) =
    (if m = k then (\<Sum>(l, c)\<leftarrow>es. to_complex64 C c) else (\<Sum>(l, c)\<leftarrow>us. if l = m then to_complex64 C c else 0)) +
    (\<Sum>(l, c)\<leftarrow>vs. if l = m then to_complex64 C c else 0)"
proof -
  have "(\<Sum>(l, c)\<leftarrow>es. if l = m then to_complex64 C c else 0) = (if m = k then (\<Sum>(l, c)\<leftarrow>es. to_complex64 C c) else 0)"
    using assms(1) by (induction es) auto
  with no_key_total [OF assms(2)] show ?thesis by auto
qed

text \<open>Taking one key: \<open>s\<close> seeds the sum, \<open>us\<close> and \<open>bs'\<close> are what is left of the streams.\<close>

lemma segment_rest:
  assumes "sorted (map fst bs)" "\<forall>t \<in> set bs. k \<le> fst t" "sum_segment C k a bs = (s, bs')"
  shows "sorted (map fst bs')" "set bs' \<subseteq> set bs" "length bs' \<le> length bs"
  using sum_segment_spec [OF assms] assms(1) by (auto simp: sorted_append)

lemma take_key:
  assumes "sorted (map fst bs)" "\<forall>t \<in> set bs. k \<le> fst t" "sum_segment C k a bs = (s, bs')" "\<forall>t \<in> set us. k < fst t"
    "is_reduced C policy (us @ bs') ts"
  shows "is_reduced C policy ((k, a) # us @ bs) (kept_row C policy k s @ ts)"
proof -
  obtain es where es: "bs = es @ bs'" "\<forall>t \<in> set es. fst t = k" "\<forall>t \<in> set bs'. k < fst t"
      "to_complex64 C s = to_complex64 C a + (\<Sum>(l, c)\<leftarrow>es. to_complex64 C c)"
    using sum_segment_spec [OF assms(1-3)] by blast
  have zero: "(\<Sum>(l, c)\<leftarrow>bs'. if l = k then to_complex64 C c else 0) = 0"
    by (rule no_key_total [OF es(3)])
  show "is_reduced C policy ((k, a) # us @ bs) (kept_row C policy k s @ ts)"
  proof (rule reduced_step [OF assms(5)])
    show "key_total C ((k, a) # us @ bs) k = s"
      using total_of_segment [OF es(2) assms(4), of k bs'] es(4) zero by (intro key_total_eqI) (simp add: es(1))
    show "key_total C (us @ bs') l = key_total C ((k, a) # us @ bs) l" if "l \<noteq> k" for l
      using total_of_segment [OF es(2) assms(4), of l bs'] that
      by (intro key_total_eqI) (simp add: embed_key_total es(1))
  qed (use assms(4) es(1,3) in auto)
qed

lemma reduced_Nil: "is_reduced C policy [] []"
  by (simp add: is_reduced_def fun_eq_iff kept_total_def key_total_def eq_iff)

lemma merge_rest_spec:
  assumes "sorted (map fst bs)" "wf_columns out"
  shows "\<exists>ts. terms_of (merge_rest C policy bs out) = terms_of out @ ts \<and> wf_columns (merge_rest C policy bs out) \<and>
    is_reduced C policy bs ts"
  using assms
proof (induction "length bs" arbitrary: bs out rule: less_induct)
  case less
  show ?case
  proof (cases bs)
    case Nil
    with less.prems reduced_Nil show ?thesis by simp
  next
    case (Cons t us)
    obtain l b where t: "t = (l, b)" by (cases t)
    obtain s bs' where seg: "sum_segment C l b us = (s, bs')" by (cases "sum_segment C l b us")
    note emit = emit_if_kept_terms [OF less.prems(2), of C policy l s]
    have us: "sorted (map fst us)" "\<forall>t \<in> set us. l \<le> fst t" using less.prems(1) by (auto simp: Cons t)
    note take = take_key [OF us seg, of "[]"] and rest = segment_rest [OF us seg]
    obtain ts where ts: "terms_of (merge_rest C policy bs' (emit_if_kept C policy l s out)) = terms_of (emit_if_kept C policy l s out) @ ts"
        "wf_columns (merge_rest C policy bs' (emit_if_kept C policy l s out))" "is_reduced C policy bs' ts"
      using less.hyps [of bs' "emit_if_kept C policy l s out"] emit(2) rest by (auto simp: Cons less_Suc_eq_le)
    with take [of policy ts] emit(1) seg show ?thesis by (auto simp: Cons t)
  qed
qed

lemma reduced_alone:
  assumes "run as" "wf_columns out"
  shows "\<exists>ts. terms_of (fold (\<lambda>(k, a). emit_if_kept C policy k a) as out) = terms_of out @ ts \<and>
    wf_columns (fold (\<lambda>(k, a). emit_if_kept C policy k a) as out) \<and> is_reduced C policy as ts"
  using assms
proof (induction as arbitrary: out)
  case (Cons t as)
  obtain k a where t: "t = (k, a)" by (cases t)
  have run: "run as" "\<forall>t \<in> set as. k < fst t" using Cons.prems(1) by (simp_all add: run_Cons t)
  note emit = emit_if_kept_terms [OF Cons.prems(2), of C policy k a]
  from Cons.IH [OF run(1) emit(2)] obtain ts where
    ts: "terms_of (fold (\<lambda>(k, a). emit_if_kept C policy k a) as (emit_if_kept C policy k a out)) =
        terms_of (emit_if_kept C policy k a out) @ ts"
      "wf_columns (fold (\<lambda>(k, a). emit_if_kept C policy k a) as (emit_if_kept C policy k a out))" "is_reduced C policy as ts"
    by blast
  from take_key [of "[]" k a a "[]" as policy ts] run(2) ts emit(1) show ?case by (auto simp: t)
qed (use reduced_Nil in simp)

lemma reduced_perm:
  assumes "is_reduced C policy rows ts" "mset rows' = mset rows"
  shows "is_reduced C policy rows' ts"
proof -
  have "key_total C rows' k = key_total C rows k" for k
    using assms(2) by (intro key_total_eqI) (simp add: embed_key_total sum_mset_sum_list [symmetric] del: sum_mset_sum_list)
  then have "kept_total C policy rows' = kept_total C policy rows" by (simp add: kept_total_def fun_eq_iff)
  moreover have "set rows' = set rows" using assms(2) by (rule mset_eq_setD)
  ultimately show ?thesis using assms(1) by (simp add: is_reduced_def)
qed

lemma merge_loop_spec:
  assumes "run as" "sorted (map fst bs)" "wf_columns out"
  shows "\<exists>ts. terms_of (merge_loop C policy as bs out) = terms_of out @ ts \<and> wf_columns (merge_loop C policy as bs out) \<and>
    is_reduced C policy (as @ bs) ts"
  using assms
proof (induction "length as + length bs" arbitrary: as bs out rule: less_induct)
  case less
  have take: ?case
    if bs: "sorted (map fst bs1)" "\<forall>t \<in> set bs1. k \<le> fst t" and seg: "sum_segment C k a bs1 = (s, bs')"
      and us: "run us" "\<forall>t \<in> set us. k < fst t" and len: "length us + length bs1 < length as + length bs"
      and rows: "mset (as @ bs) = mset ((k, a) # us @ bs1)"
      and step: "merge_loop C policy as bs out = merge_loop C policy us bs' (emit_if_kept C policy k s out)"
    for bs1 k a s bs' us
  proof -
    note emit = emit_if_kept_terms [OF less.prems(3), of C policy k s] and rest = segment_rest [OF bs seg]
    obtain ts where ts: "terms_of (merge_loop C policy us bs' (emit_if_kept C policy k s out)) = terms_of (emit_if_kept C policy k s out) @ ts"
        "wf_columns (merge_loop C policy us bs' (emit_if_kept C policy k s out))" "is_reduced C policy (us @ bs') ts"
      using less.hyps [of us bs' "emit_if_kept C policy k s out"] emit(2) rest us(1) len by auto
    from reduced_perm [OF take_key [OF bs seg us(2) ts(3)] rows] ts emit(1) show ?thesis by (auto simp: step)
  qed
  show ?case
  proof (cases as)
    case Nil
    with merge_rest_spec [OF less.prems(2,3)] less.prems(3) reduced_Nil show ?thesis by (cases bs) auto
  next
    case (Cons t us)
    obtain k a where t: "t = (k, a)" by (cases t)
    have us: "run us" "\<forall>t \<in> set us. k < fst t" using less.prems(1) by (simp_all add: Cons t run_Cons)
    show ?thesis
    proof (cases bs)
      case Nil
      with reduced_alone [OF less.prems(1,3)] show ?thesis by (simp add: Cons)
    next
      case (Cons u vs)
      obtain l b where u: "u = (l, b)" by (cases u)
      have vs: "sorted (map fst vs)" "\<forall>t \<in> set vs. l \<le> fst t" using less.prems(2) by (auto simp: Cons u)
      show ?thesis
      proof (cases "k \<le> l")
        case True
        obtain s bs' where seg: "sum_segment C k a bs = (s, bs')" by (cases "sum_segment C k a bs")
        show ?thesis
          by (rule take [OF less.prems(2) _ seg us])
            (use True vs(2) seg Cons u t \<open>as = t # us\<close> in \<open>auto intro: order.trans\<close>)
      next
        case False
        obtain s bs' where seg: "sum_segment C l b vs = (s, bs')" by (cases "sum_segment C l b vs")
        have "\<forall>t \<in> set as. l < fst t" using False us(2) by (auto simp: \<open>as = t # us\<close> t not_le intro: order.strict_trans)
        then show ?thesis
          by (rule take [OF vs seg less.prems(1)]) (use False seg Cons u t \<open>as = t # us\<close> in auto)
      qed
    qed
  qed
qed

end

lemma merge_identity_and_rest_spec:
  assumes "coefficient_laws C" "run (terms_of idn)" "sorted (map fst (terms_of rest))" "wf_columns out"
  shows "\<exists>ts. terms_of (merge_identity_and_rest C policy idn rest out) = terms_of out @ ts \<and>
    wf_columns (merge_identity_and_rest C policy idn rest out) \<and> is_reduced C policy (terms_of idn @ terms_of rest) ts"
  unfolding merge_identity_and_rest_def by (rule coefficient_laws.merge_loop_spec [OF assms])

text \<open>A sort of the rest rows by either kernel, and the merge: the step every bucket task ends with.\<close>

lemma sort_then_merge:
  assumes "coefficient_laws C" "run (terms_of idn)" "wf_rows W rest" "length (col_x rest) < 2 ^ 32"
  shows "\<exists>rest' scratch'. kernel_sort W sk rest scratch = Inr (rest', scratch') \<and>
    wf_columns (merge_identity_and_rest C policy idn rest' columns_new) \<and>
    is_reduced C policy (terms_of idn @ terms_of rest) (terms_of (merge_identity_and_rest C policy idn rest' columns_new))"
proof -
  have wf: "wf_columns rest" using assms(3) by (simp add: wf_rows_def)
  let ?rest = "columns_of (sort_key fst (terms_of rest))"
  obtain scratch' where sorted: "kernel_sort W sk rest scratch = Inr (?rest, scratch')"
    using sort_by_comparison_terms [OF wf assms(4)] sort_by_radix_terms [OF assms(3,4)]
    by (cases sk) (auto simp: kernel_sort_def)
  obtain ts where ts: "terms_of (merge_identity_and_rest C policy idn ?rest columns_new) = ts"
      "wf_columns (merge_identity_and_rest C policy idn ?rest columns_new)"
      "is_reduced C policy (terms_of idn @ sort_key fst (terms_of rest)) ts"
    using merge_identity_and_rest_spec [OF assms(1,2), of ?rest columns_new policy] by auto
  have "is_reduced C policy (terms_of idn @ terms_of rest) ts"
    by (rule coefficient_laws.reduced_perm [OF assms(1) ts(3)]) simp
  with sorted ts(1,2) show ?thesis by blast
qed

text \<open>
  C31. Sorting a bucket's rest rows with either kernel and merging them with its identity stream sums the rows of every
  key: the output is a strictly ascending run that holds a key exactly when its full sum over both streams is not zero
  and the policy keeps it, with that sum as its coefficient.
\<close>

theorem fused_merge_sums:
  assumes "coefficient_laws C" "wf_rows W idn" "run (terms_of idn)" "wf_rows W rest" "length (col_x rest) < 2 ^ 32"
  shows "\<exists>rest' scratch'. kernel_sort W sk rest scratch = Inr (rest', scratch') \<and>
    (let out = merge_identity_and_rest C policy idn rest' columns_new
     in wf_columns out \<and> run (terms_of out) \<and>
       (\<forall>k. map_of (terms_of out) k =
          (let s = key_total C (terms_of idn @ terms_of rest) k
           in if s \<noteq> c_zero C \<and> keep_term policy (fst k) (snd k) s then Some s else None)))"
proof -
  obtain rest' scratch' where out: "kernel_sort W sk rest scratch = Inr (rest', scratch')"
      "wf_columns (merge_identity_and_rest C policy idn rest' columns_new)"
      "is_reduced C policy (terms_of idn @ terms_of rest) (terms_of (merge_identity_and_rest C policy idn rest' columns_new))"
    using sort_then_merge [OF assms(1,3,4,5)] by blast
  with coefficient_laws.eq_iff [OF assms(1)] show ?thesis by (auto simp: Let_def kept_total_def is_reduced_def)
qed

theorem fused_merge_sums_witness:
  "\<exists>rest' scratch'. kernel_sort 1 Comparison \<lparr>col_x = [[3], [1], [3]], col_z = [[0], [0], [0]], col_coeff = [5 :: real, 6, 2]\<rparr>
      \<lparr>ss_permutation = [], ss_packed = [], ss_spare = [], ss_x = [], ss_z = [], ss_coeff = []\<rparr> = Inr (rest', scratch') \<and>
    map_of (terms_of (merge_identity_and_rest real_coefficient (weight_cutoff 1 :: (unit, real) truncation_policy)
      \<lparr>col_x = [[1]], col_z = [[0]], col_coeff = [4]\<rparr> rest' columns_new)) ([1], [0]) = Some 10"
proof -
  let ?i = "\<lparr>col_x = [[1]], col_z = [[0]], col_coeff = [4 :: real]\<rparr>"
  let ?r = "\<lparr>col_x = [[3], [1], [3]], col_z = [[0], [0], [0]], col_coeff = [5 :: real, 6, 2]\<rparr>"
  have wf: "wf_rows 1 ?i" "wf_rows 1 ?r" "run (terms_of ?i)"
    by (simp_all add: wf_rows_def wf_columns_def terms_of_def wf_key_def run_def)
  have total: "key_total real_coefficient (terms_of ?i @ terms_of ?r) ([1], [0]) = 10"
    by (simp add: key_total_def terms_of_def real_coefficient_def)
  have "count_ones (1 :: u64) = 1" by code_simp
  then have "keep_term (weight_cutoff 1 :: (unit, real) truncation_policy) [1] [0] 10"
    by (simp add: weight_cutoff_def term_filter_def weight_keep_def)
  then show ?thesis
    using fused_merge_sums [OF real_c.coefficient_laws_axioms wf(1,3,2), of Comparison
        "\<lparr>ss_permutation = [], ss_packed = [], ss_spare = [], ss_x = [], ss_z = [], ss_coeff = []\<rparr>" "weight_cutoff 1 :: (unit, real) truncation_policy"]
    by (auto simp: Let_def total) (simp add: real_coefficient_def)
qed

end
