(* ===== verification/Approx_Top_N.thy ===== *)
theory Approx_Top_N
  imports Truncation
begin

unbundle bit_operations_syntax

text \<open>
  \<open>ApproxTopN\<close> of \<open>truncation/builtin.rs\<close>: cutting at an octave of the squared magnitude, from a histogram of octaves, on
  one sum or on a group of partitions. The group's pass takes the partitions in rank order; its two reductions are
  functions of every rank's buffer. The histogram's counters are \<open>u32\<close> and the reduced ones \<open>u64\<close>, as in the code.
\<close>

section \<open>Octaves\<close>

definition APPROX_BINS :: nat where
  "APPROX_BINS = 2048"

text \<open>
  \<open>to_bits() >> 52\<close> of a non-negative \<open>f64\<close> is its biased exponent: the number of binades whose lower end, \<open>2^(e - 1022)\<close>
  for \<open>e = 0, ..., 2046\<close>, it reaches.
\<close>

definition binade :: "nat \<Rightarrow> real" where
  "binade e = (if 1022 \<le> e then 2 ^ (e - 1022) else 1 / 2 ^ (1022 - e))"

definition octave :: "real \<Rightarrow> nat" where
  "octave m = length (takeWhile (\<lambda>e. binade e \<le> m) [0..<2047])"

definition compare_nat :: "nat \<Rightarrow> nat \<Rightarrow> ordering" where
  "compare_nat a b = (if a < b then Less else if a = b then Equal else Greater)"

definition classify_octave :: "real \<Rightarrow> nat \<Rightarrow> ordering" where
  "classify_octave m bin = compare_nat (octave m) bin"

section \<open>The histogram and the edge\<close>

definition count_octave :: "'c coefficient \<Rightarrow> 'c \<Rightarrow> u32 list \<Rightarrow> u32 list" where
  "count_octave C c h = h[octave (norm_sqr C c) := h ! octave (norm_sqr C c) + 1]"

definition octave_histogram :: "'c coefficient \<Rightarrow> nat \<Rightarrow> 'c pauli_sum \<Rightarrow> u32 list" where
  "octave_histogram C threads s =
     (let buckets = num_buckets s;
          tasks = max 1 (min (threads * 4) buckets);
          task = (\<lambda>t. fold (\<lambda>b. fold (count_octave C) (col_coeff (pm_buckets s ! b)))
                   [buckets * t div tasks..<buckets * (t + 1) div tasks] (replicate APPROX_BINS 0))
      in fold (\<lambda>h acc. map2 (+) acc h) (map task [0..<tasks]) (replicate APPROX_BINS 0))"

datatype edge_decision = KeepAll | Clear | Boundary nat nat nat

fun edge_walk :: "(nat \<times> nat) list \<Rightarrow> nat \<Rightarrow> nat \<Rightarrow> nat \<Rightarrow> edge_decision option" where
  "edge_walk [] base kept_above n = None"
| "edge_walk ((offset, population) # bins) base kept_above n =
     (if kept_above + population > n then Some (Boundary (base + offset) kept_above (n - kept_above))
      else edge_walk bins base (kept_above + population) n)"

definition octave_edge_within :: "nat list \<Rightarrow> nat \<Rightarrow> nat \<Rightarrow> nat \<Rightarrow> nat \<Rightarrow> edge_decision option" where
  "octave_edge_within bins base over total_len n =
     (if total_len \<le> n then Some KeepAll
      else if n = 0 then Some Clear
      else if over > n then None
      else edge_walk (rev (enumerate 0 bins)) base over n)"

definition octave_edge :: "nat list \<Rightarrow> nat \<Rightarrow> nat \<Rightarrow> edge_decision result" where
  "octave_edge hist total_len n =
     (case octave_edge_within hist 0 0 total_len n of None \<Rightarrow> Inl ExpectFailed | Some e \<Rightarrow> Inr e)"

definition edge_quota :: "edge_decision \<Rightarrow> nat" where
  "edge_quota edge = (case edge of Boundary bin kept_above quota \<Rightarrow> quota | _ \<Rightarrow> 0)"

definition retain_at_edge :: "'c coefficient \<Rightarrow> 'c pauli_sum \<Rightarrow> edge_decision \<Rightarrow> nat \<Rightarrow> 'c pauli_sum result" where
  "retain_at_edge C s edge local_quota =
     (case edge of
        KeepAll \<Rightarrow> Inr s
      | Clear \<Rightarrow> Inr (sum_clear s)
      | Boundary bin kept_above quota \<Rightarrow>
          retain_with_boundary_quota C s (\<lambda>m. classify_octave m bin) local_quota)"

section \<open>One sum\<close>

definition approx_top_n_solo ::
    "'c coefficient \<Rightarrow> nat \<Rightarrow> nat \<Rightarrow> 'c pauli_sum \<Rightarrow> ('c pauli_sum \<times> edge_decision \<times> nat) result" where
  "approx_top_n_solo C threads n s =
     (let len = pm_len s
      in if len \<le> n then Inr (s, KeepAll, len)
         else if n = 0 then Inr (sum_clear s, Clear, len)
         else and_then (octave_edge (map unat (octave_histogram C threads s)) len n) (\<lambda>edge.
              and_then (retain_at_edge C s edge (edge_quota edge)) (\<lambda>s'. Inr (s', edge, len))))"

section \<open>A group of partitions\<close>

definition allreduce_sum_u64 :: "u64 list list \<Rightarrow> u64 list" where
  "allreduce_sum_u64 buffers = map (\<lambda>i. sum_list (map (\<lambda>b. b ! i) buffers)) [0..<length (hd buffers)]"

text \<open>The share of every rank in a boundary quota, from every rank's count.\<close>

definition local_boundary_quotas :: "nat list \<Rightarrow> nat \<Rightarrow> nat list" where
  "local_boundary_quotas local_counts quota =
     (if length local_counts = 1 then [min quota (hd local_counts)]
      else let size = length local_counts;
               reduced = allreduce_sum_u64
                 (map (\<lambda>rank. (replicate size 0)[rank := of_nat (local_counts ! rank)]) [0..<size])
           in map (\<lambda>rank. let below = sum_list (take rank reduced)
                          in min (quota - unat below) (local_counts ! rank)) [0..<size])"

definition approx_top_n_pass ::
    "'c coefficient \<Rightarrow> nat \<Rightarrow> nat \<Rightarrow> 'c pauli_sum list \<Rightarrow> ('c pauli_sum \<times> edge_decision \<times> nat) list result" where
  "approx_top_n_pass C threads n locals =
     (if length locals = 1 then map_result (approx_top_n_solo C threads n) locals
      else let histograms = map (octave_histogram C threads) locals;
               packed = allreduce_sum_u64
                 (map (\<lambda>(s, h). of_nat (pm_len s) # map ucast h) (zip locals histograms));
               in_all = unat (packed ! 0)
           in and_then (octave_edge (map unat (drop 1 packed)) in_all n) (\<lambda>edge.
              let quotas = (case edge of
                     Boundary bin kept_above quota \<Rightarrow>
                       local_boundary_quotas (map (\<lambda>h. unat (h ! bin)) histograms) quota
                   | _ \<Rightarrow> replicate (length locals) 0)
              in map_result (\<lambda>(s, q). and_then (retain_at_edge C s edge q) (\<lambda>s'. Inr (s', edge, in_all)))
                   (zip locals quotas)))"

definition approx_top_n_finalize :: "'c coefficient \<Rightarrow> nat \<Rightarrow> nat \<Rightarrow> ('s, 'c) layer_pass" where
  "approx_top_n_finalize C threads n =
     (\<lambda>(st, s). and_then (approx_top_n_solo C threads n s) (\<lambda>r. Inr (st, fst r)))"

definition approx_top_n_partitioned :: "'c coefficient \<Rightarrow> nat \<Rightarrow> nat \<Rightarrow> ('s, 'c) group_pass" where
  "approx_top_n_partitioned C threads n ranks =
     and_then (approx_top_n_pass C threads n (map snd ranks)) (\<lambda>rs. Inr (zip (map fst ranks) (map fst rs)))"

definition approx_top_n :: "'c coefficient \<Rightarrow> nat \<Rightarrow> nat \<Rightarrow> ('s, 'c) truncation_policy" where
  "approx_top_n C threads n =
     \<lparr>keep_term = \<lambda>x z c. True, coefficient_floor = - 1, finalize_layer = approx_top_n_finalize C threads n,
      finalizes_layer = Inr True, finalize_layer_partitioned = approx_top_n_partitioned C threads n,
      supports_partitioned = Inr True, fused_pass = Inr (Some \<lparr>fused_n = n, agreed = True\<rparr>)\<rparr>"

section \<open>Octaves are ordered as magnitudes are\<close>

lemma octave_bound: "octave m < APPROX_BINS"
  using length_takeWhile_le [of "\<lambda>e. binade e \<le> m" "[0..<2047]"] by (simp add: octave_def APPROX_BINS_def)

lemma binade_Suc: "binade (Suc e) = 2 * binade e"
proof (cases "1022 \<le> e")
  case False
  then obtain k where "1022 - e = Suc k" "1022 - Suc e = k" by (metis Suc_diff_Suc not_le)
  with False show ?thesis by (cases "e = 1021") (auto simp: binade_def)
next
  case True
  then have "Suc e - 1022 = Suc (e - 1022)" by simp
  with True show ?thesis by (simp only: binade_def power_Suc if_True le_SucI)
qed

lemma binade_pos: "0 < binade e"
  by (simp add: binade_def)

lemma binade_mono: "a \<le> b \<Longrightarrow> binade a \<le> binade b"
  by (induction b rule: dec_induct) (use binade_pos in \<open>auto simp: binade_Suc intro: order.trans less_imp_le\<close>)

lemma takeWhile_le_iff:
  fixes f :: "nat \<Rightarrow> real"
  assumes "\<And>a b. a \<le> b \<Longrightarrow> f a \<le> f b"
  shows "e < length (takeWhile (\<lambda>e. f e \<le> m) [0..<n]) \<longleftrightarrow> e < n \<and> f e \<le> m"
proof (induction n)
  case (Suc n)
  show ?case
  proof (cases "\<forall>a \<in> set [0..<n]. f a \<le> m")
    case True
    then have "takeWhile (\<lambda>e. f e \<le> m) [0..<n] = [0..<n]" by (simp add: takeWhile_eq_all_conv)
    with True show ?thesis by (auto simp: takeWhile_append less_Suc_eq)
  next
    case False
    then obtain a where "a < n" "\<not> f a \<le> m" by auto
    then have "\<not> f n \<le> m" using assms [of a n] by linarith
    moreover have "takeWhile (\<lambda>e. f e \<le> m) [0..<Suc n] = takeWhile (\<lambda>e. f e \<le> m) [0..<n]"
      using \<open>a < n\<close> \<open>\<not> f a \<le> m\<close> by (auto simp: takeWhile_append1)
    ultimately show ?thesis using Suc by (auto simp: less_Suc_eq)
  qed
qed simp

lemma octave_gt_iff: "e < octave m \<longleftrightarrow> e < 2047 \<and> binade e \<le> m"
  unfolding octave_def by (rule takeWhile_le_iff [OF binade_mono])

lemma octave_mono: "m \<le> m' \<Longrightarrow> octave m \<le> octave m'"
  by (rule ccontr) (meson not_le octave_gt_iff order.trans order.irrefl order.strict_trans2)

text \<open>Terms of one octave are within a factor of two, from the smallest normal number on.\<close>

lemma octave_factor:
  assumes "octave a \<le> octave b" "binade 0 \<le> a" "a < binade 2046"
  shows "a < 2 * b"
proof -
  have pos: "0 < octave a" using assms(2) by (simp add: octave_gt_iff)
  have "octave a < 2047 \<longrightarrow> a < binade (octave a)" using octave_gt_iff [of "octave a" a] by auto
  moreover have "octave a < 2047"
  proof (rule ccontr)
    assume "\<not> octave a < 2047"
    then have "2046 < octave a" by simp
    then show False using assms(3) by (simp add: octave_gt_iff)
  qed
  moreover have "binade (octave a - 1) \<le> b"
  proof -
    have "octave a - 1 < octave b" using assms(1) pos by linarith
    then show ?thesis by (simp add: octave_gt_iff)
  qed
  ultimately show ?thesis using binade_Suc [of "octave a - 1"] pos by simp
qed

section \<open>The histogram counts octaves\<close>

lemma fold_count_octave:
  assumes "length h = APPROX_BINS"
  shows "length (fold (count_octave C) cs h) = APPROX_BINS \<and>
    (\<forall>b < APPROX_BINS. fold (count_octave C) cs h ! b = h ! b + of_nat (length (filter (\<lambda>c. octave (norm_sqr C c) = b) cs)))"
  using assms
proof (induction cs arbitrary: h)
  case (Cons c cs)
  have "length (count_octave C c h) = APPROX_BINS" using Cons.prems by (simp add: count_octave_def)
  from Cons.IH [OF this] Cons.prems octave_bound show ?case
    by (auto simp: count_octave_def nth_list_update)
qed simp

lemma fold_fold_concat: "fold (\<lambda>b. fold f (g b)) bs h = fold f (concat (map g bs)) h"
  by (induction bs arbitrary: h) simp_all

lemma fold_map2_add:
  assumes "length acc = n" "\<forall>h \<in> set hs. length h = n"
  shows "length (fold (\<lambda>h acc. map2 (+) acc h) hs acc) = n \<and>
    (\<forall>b < n. fold (\<lambda>h acc. map2 (+) acc h) hs acc ! b = acc ! b + (\<Sum>h\<leftarrow>hs. h ! b :: u32))"
  using assms
proof (induction hs arbitrary: acc)
  case (Cons h hs)
  then show ?case using Cons.IH [of "map2 (+) acc h"] by (auto simp: add.assoc)
qed simp

text \<open>The tasks' ranges tile the buckets.\<close>

lemma task_ranges:
  assumes "t \<le> tasks"
  shows "concat (map (\<lambda>t. [buckets * t div tasks..<buckets * (t + 1) div tasks]) [0..<t]) = [0..<buckets * t div tasks]"
  using assms
proof (induction t)
  case (Suc t)
  have "buckets * t div tasks \<le> buckets * (t + 1) div tasks" by (intro div_le_mono) simp
  then have "[0..<buckets * (t + 1) div tasks] = [0..<buckets * t div tasks] @ [buckets * t div tasks..<buckets * (t + 1) div tasks]"
    using upt_add_eq_append [of 0 "buckets * t div tasks" "buckets * (t + 1) div tasks - buckets * t div tasks"] by simp
  with Suc show ?case by simp
qed simp

definition octave_count :: "'c coefficient \<Rightarrow> 'c pauli_sum \<Rightarrow> nat \<Rightarrow> nat" where
  "octave_count C s b = length (filter (\<lambda>t. octave (norm_sqr C (snd t)) = b) (sum_iter s))"

lemma coefficients_of_sum:
  assumes "sum_inv W s"
  shows "concat (map (\<lambda>b. col_coeff (pm_buckets s ! b)) [0..<num_buckets s]) = map snd (sum_iter s)"
proof -
  have "map (\<lambda>b. col_coeff (pm_buckets s ! b)) [0..<num_buckets s] = map col_coeff (pm_buckets s)"
    by (auto simp: num_buckets_def intro: nth_equalityI)
  moreover have "col_coeff cols = map snd (terms_of cols)" if "cols \<in> set (pm_buckets s)" for cols
    using assms that by (simp add: terms_of_def wf_columns_def sum_inv_def)
  ultimately show ?thesis by (simp add: sum_iter_def map_concat comp_def cong: map_cong)
qed

lemma octave_histogram_counts:
  assumes "sum_inv W s"
  shows "length (octave_histogram C threads s) = APPROX_BINS"
    "b < APPROX_BINS \<Longrightarrow> octave_histogram C threads s ! b = of_nat (octave_count C s b)"
proof -
  define buckets tasks where "buckets = num_buckets s" and "tasks = max 1 (min (threads * 4) (num_buckets s))"
  let ?r = "\<lambda>t. [buckets * t div tasks..<buckets * (t + 1) div tasks]" and ?g = "\<lambda>b. col_coeff (pm_buckets s ! b)"
  let ?task = "\<lambda>t. fold (\<lambda>b. fold (count_octave C) (?g b)) (?r t) (replicate APPROX_BINS 0)"
  let ?cnt = "\<lambda>b cs. length (filter (\<lambda>c. octave (norm_sqr C c) = b) cs)"
  have hist: "octave_histogram C threads s = fold (\<lambda>h acc. map2 (+) acc h) (map ?task [0..<tasks]) (replicate APPROX_BINS 0)"
    by (simp add: octave_histogram_def Let_def buckets_def tasks_def)
  have task: "length (?task t) = APPROX_BINS" "b < APPROX_BINS \<Longrightarrow> ?task t ! b = of_nat (?cnt b (concat (map ?g (?r t))))" for t b
    using fold_count_octave [of "replicate APPROX_BINS 0" C "concat (map ?g (?r t))"] by (simp_all add: fold_fold_concat)
  note sums = fold_map2_add [of "replicate APPROX_BINS 0" APPROX_BINS "map ?task [0..<tasks]"]
  show "length (octave_histogram C threads s) = APPROX_BINS" unfolding hist using sums task(1) by simp
  assume b: "b < APPROX_BINS"
  have "(\<Sum>h\<leftarrow>map ?task ts. h ! b) = of_nat (?cnt b (concat (map ?g (concat (map ?r ts)))))" for ts
    using task(2) [OF b] by (induction ts) simp_all
  moreover have "concat (map ?r [0..<tasks]) = [0..<buckets]"
    using task_ranges [of tasks tasks buckets] by (simp add: tasks_def)
  moreover have "?cnt b (map snd ts) = length (filter (\<lambda>t. octave (norm_sqr C (snd t)) = b) ts)" for ts
    by (simp add: filter_map comp_def)
  ultimately show "octave_histogram C threads s ! b = of_nat (octave_count C s b)"
    unfolding hist octave_count_def using sums task(1) b coefficients_of_sum [OF assms] by (simp add: buckets_def filter_map comp_def)
qed

section \<open>The edge\<close>

lemma rev_enumerate_Suc:
  "rev (enumerate 0 (map cnt [0..<Suc j])) = (j, cnt j) # rev (enumerate 0 (map cnt [0..<j]))"
  by (simp add: enumerate_append_eq)

lemma edge_walk_spec:
  assumes "kept \<le> n"
  shows "case edge_walk (rev (enumerate 0 (map cnt [0..<j]))) base kept n of
      None \<Rightarrow> kept + sum_list (map cnt [0..<j]) \<le> n
    | Some e \<Rightarrow> \<exists>bin < j. let over = kept + sum_list (map cnt [Suc bin..<j])
        in e = Boundary (base + bin) over (n - over) \<and> over \<le> n \<and> n < over + cnt bin"
  using assms
proof (induction j arbitrary: kept)
  case (Suc j)
  show ?case
  proof (cases "kept + cnt j > n")
    case True
    with Suc.prems show ?thesis
      unfolding rev_enumerate_Suc by (auto simp: Let_def intro!: exI [of _ j])
  next
    case False
    then have "kept + cnt j \<le> n" by simp
    note IH = Suc.IH [OF this]
    have split: "sum_list (map cnt [Suc bin..<Suc j]) = sum_list (map cnt [Suc bin..<j]) + cnt j" if "bin < j" for bin
      using that by simp
    show ?thesis
    proof (cases "edge_walk (rev (enumerate 0 (map cnt [0..<j]))) base (kept + cnt j) n")
      case None
      with False IH show ?thesis unfolding rev_enumerate_Suc by simp
    next
      case (Some e)
      with IH obtain bin where "bin < j" "let over = kept + cnt j + sum_list (map cnt [Suc bin..<j])
          in e = Boundary (base + bin) over (n - over) \<and> over \<le> n \<and> n < over + cnt bin"
        by auto
      then have "bin < Suc j \<and> (let over = kept + sum_list (map cnt [Suc bin..<Suc j])
          in e = Boundary (base + bin) over (n - over) \<and> over \<le> n \<and> n < over + cnt bin)"
        unfolding split [OF \<open>bin < j\<close>] by (simp add: ac_simps Let_def)
      with False Some show ?thesis unfolding rev_enumerate_Suc by (auto simp del: upt_Suc)
    qed
  qed
qed simp

lemma counts_above:
  fixes f :: "'a \<Rightarrow> nat"
  assumes "\<forall>x \<in> set xs. f x < N" "a \<le> N"
  shows "sum_list (map (\<lambda>b. length (filter (\<lambda>x. f x = b) xs)) [a..<N]) = length (filter (\<lambda>x. a \<le> f x) xs)"
  using assms(1)
proof (induction xs)
  case (Cons x xs)
  have "sum_list (map (\<lambda>b. length (filter (\<lambda>y. f y = b) (x # xs))) [a..<N]) =
      sum_list (map (\<lambda>b. of_bool (f x = b)) [a..<N]) + sum_list (map (\<lambda>b. length (filter (\<lambda>y. f y = b) xs)) [a..<N])"
    by (simp flip: sum_list_addf) (intro arg_cong [where f = sum_list] map_cong; simp)
  also have "sum_list (map (\<lambda>b. of_bool (f x = b)) [a..<N]) = (of_bool (a \<le> f x) :: nat)"
    using Cons.prems assms(2) by (simp add: interv_sum_list_conv_sum_set_nat)
  finally show ?case using Cons by simp
qed simp

text \<open>
  What the decision means for a list of octaves: a boundary octave, everything above it kept, and fewer than all of its own.
\<close>

definition edge_ok :: "nat list \<Rightarrow> nat \<Rightarrow> edge_decision \<Rightarrow> bool" where
  "edge_ok os n edge \<longleftrightarrow>
     (case edge of
        KeepAll \<Rightarrow> length os \<le> n
      | Clear \<Rightarrow> n = 0 \<and> os \<noteq> []
      | Boundary bin kept_above quota \<Rightarrow> 0 < n \<and> bin < APPROX_BINS \<and> n < length os \<and>
          kept_above = length (filter (\<lambda>b. bin < b) os) \<and> kept_above + quota = n \<and> quota < length (filter (\<lambda>b. b = bin) os))"

lemma octave_edge_ok:
  assumes "\<forall>b \<in> set os. b < APPROX_BINS"
  shows "\<exists>edge. octave_edge (map (\<lambda>b. length (filter (\<lambda>x. x = b) os)) [0..<APPROX_BINS]) (length os) n = Inr edge \<and> edge_ok os n edge"
proof -
  let ?cnt = "\<lambda>b. length (filter (\<lambda>x. x = b) os)"
  consider "length os \<le> n" | "n = 0" "os \<noteq> []" | "0 < n" "n < length os" by fastforce
  then show ?thesis
  proof cases
    case 3
    note walk = edge_walk_spec [of 0 n ?cnt APPROX_BINS 0]
    have in_all: "sum_list (map ?cnt [0..<APPROX_BINS]) = length os"
      using counts_above [OF assms, of 0] by simp
    obtain e where e: "edge_walk (rev (enumerate 0 (map ?cnt [0..<APPROX_BINS]))) 0 0 n = Some e"
      using walk in_all 3(2) by (cases "edge_walk (rev (enumerate 0 (map ?cnt [0..<APPROX_BINS]))) 0 0 n") auto
    with walk obtain bin where bin: "bin < APPROX_BINS" "let over = sum_list (map ?cnt [Suc bin..<APPROX_BINS])
        in e = Boundary bin over (n - over) \<and> over \<le> n \<and> n < over + ?cnt bin" by auto
    moreover have "sum_list (map ?cnt [Suc bin..<APPROX_BINS]) = length (filter (\<lambda>b. bin < b) os)"
      using counts_above [OF assms, of "Suc bin"] bin(1) by (simp add: Suc_le_eq)
    ultimately have "edge_ok os n e" using 3 by (auto simp: edge_ok_def Let_def)
    with e 3 show ?thesis by (simp add: octave_edge_def octave_edge_within_def)
  qed (simp_all add: octave_edge_def octave_edge_within_def edge_ok_def)
qed

lemma edge_ok_cases:
  assumes "edge_ok os n edge"
  obtains "edge = KeepAll" "length os \<le> n" | "edge = Clear" "n = 0" "0 < length os"
    | bin kept_above quota where "edge = Boundary bin kept_above quota" "0 < n" "n < length os" "bin < APPROX_BINS"
      "kept_above = length (filter (\<lambda>b. bin < b) os)" "kept_above + quota = n" "quota < length (filter (\<lambda>b. b = bin) os)"
  using assms by (cases edge) (auto simp: edge_ok_def)

section \<open>One sum keeps its largest octaves\<close>

definition octaves :: "'c coefficient \<Rightarrow> 'c pauli_sum \<Rightarrow> nat list" where
  "octaves C s = map (\<lambda>t. octave (norm_sqr C (snd t))) (sum_iter s)"

lemma octaves_bound: "\<forall>b \<in> set (octaves C s). b < APPROX_BINS"
  by (auto simp: octaves_def octave_bound)

lemma octave_count_eq: "octave_count C s b = length (filter (\<lambda>x. x = b) (octaves C s))"
  by (simp add: octave_count_def octaves_def filter_map comp_def)

lemma octave_counts: "octave_count C s = (\<lambda>b. length (filter (\<lambda>x. x = b) (octaves C s)))"
  by (simp add: fun_eq_iff octave_count_eq)

lemma octave_count_le: "sum_inv W s \<Longrightarrow> octave_count C s b \<le> pm_len s"
  by (simp add: octave_count_def sum_inv_def)

lemma unat_histogram:
  assumes "sum_inv W s" "pm_len s < 2 ^ 32"
  shows "map unat (octave_histogram C threads s) = map (octave_count C s) [0..<APPROX_BINS]"
proof (rule nth_equalityI)
  fix b assume "b < length (map unat (octave_histogram C threads s))"
  then have b: "b < APPROX_BINS" by (simp add: octave_histogram_counts(1) [OF assms(1)])
  have "octave_count C s b < 2 ^ 32" using octave_count_le [OF assms(1)] assms(2) by (rule order.strict_trans1)
  then show "map unat (octave_histogram C threads s) ! b = map (octave_count C s) [0..<APPROX_BINS] ! b"
    using b octave_histogram_counts [OF assms(1)] by (simp add: unat_of_nat)
qed (simp add: octave_histogram_counts(1) [OF assms(1)])

lemma classify_octave_ties:
  "length (filter (\<lambda>t. classify_octave (norm_sqr C (snd t)) bin = Greater) (sum_iter s)) = length (filter (\<lambda>b. bin < b) (octaves C s))"
  "ties (\<lambda>t. classify_octave (norm_sqr C (snd t)) bin) (sum_iter s) = length (filter (\<lambda>b. b = bin) (octaves C s))"
  by (auto simp: octaves_def filter_map comp_def classify_octave_def compare_nat_def intro!: arg_cong [of _ _ length] filter_cong)

lemma retain_at_boundary_ok:
  assumes "sum_inv W s" "pm_len s \<le> usize_max"
  shows "\<exists>s'. retain_at_edge C s (Boundary bin above0 quota0) q = Inr s' \<and> sum_inv W s' \<and> pm_hash s' = pm_hash s \<and>
    pm_num_qubits s' = pm_num_qubits s \<and>
    sum_iter s' = keep_first (\<lambda>t. classify_octave (norm_sqr C (snd t)) bin) q (sum_iter s) \<and>
    keeps_above (\<lambda>c. octave (norm_sqr C c)) s s'"
proof -
  obtain s' where s': "retain_with_boundary_quota C s (\<lambda>m. classify_octave m bin) q = Inr s'" "sum_inv W s'"
      "sum_iter s' = keep_first (\<lambda>t. classify_octave (norm_sqr C (snd t)) bin) q (sum_iter s)" "pm_hash s' = pm_hash s"
      "pm_num_qubits s' = pm_num_qubits s"
    using retain_with_boundary_quota_ok [OF assms] by blast
  moreover have "keeps_above (\<lambda>c. octave (norm_sqr C c)) s s'"
    by (rule keep_first_keeps_above [OF assms(1) s'(2,3), of bin])
      (auto simp: classify_octave_def compare_nat_def split: if_splits)
  ultimately show ?thesis by (simp add: retain_at_edge_def)
qed

lemma approx_top_n_solo_ok:
  assumes "sum_inv W s" "pm_len s < 2 ^ 32"
  shows "\<exists>s' edge. approx_top_n_solo C threads n s = Inr (s', edge, pm_len s) \<and> edge_ok (octaves C s) n edge \<and>
    retain_at_edge C s edge (edge_quota edge) = Inr s' \<and> sum_inv W s' \<and> pm_len s' = min n (pm_len s) \<and>
    keeps_above (\<lambda>c. octave (norm_sqr C c)) s s' \<and> pm_hash s' = pm_hash s"
proof -
  have len: "pm_len t = length (sum_iter t)" if "sum_inv W t" for t :: "'a pauli_sum" using that by (simp add: sum_inv_def)
  have l: "length (octaves C s) = pm_len s" using len [OF assms(1)] by (simp add: octaves_def)
  obtain edge where edge: "octave_edge (map (octave_count C s) [0..<APPROX_BINS]) (pm_len s) n = Inr edge" "edge_ok (octaves C s) n edge"
    using octave_edge_ok [OF octaves_bound [of C s], of n] l by (auto simp: octave_counts)
  have usize: "pm_len s \<le> usize_max" using assms(2) by (simp add: usize_max_def)
  from edge(2) show ?thesis
  proof (cases rule: edge_ok_cases)
    case 1
    with edge(2) l assms(1) show ?thesis by (simp add: approx_top_n_solo_def retain_at_edge_def keeps_above_def)
  next
    case 2
    note clear = sum_clear_ok [OF assms(1)]
    have "sum_lookup (sum_clear s) k = None" for k by (simp add: sum_lookup_def clear(2))
    with 2 edge(2) clear len [OF clear(1)] l show ?thesis
      by (auto simp: approx_top_n_solo_def retain_at_edge_def keeps_above_def Let_def)
  next
    case (3 bin kept_above quota)
    obtain s' where s': "retain_at_edge C s edge quota = Inr s'" "sum_inv W s'" "pm_hash s' = pm_hash s"
        "sum_iter s' = keep_first (\<lambda>t. classify_octave (norm_sqr C (snd t)) bin) quota (sum_iter s)"
        "keeps_above (\<lambda>c. octave (norm_sqr C c)) s s'"
      using retain_at_boundary_ok [OF assms(1) usize] 3(1) by blast
    have "pm_len s' = n" using len [OF s'(2)] 3 by (simp add: s'(4) length_keep_first classify_octave_ties)
    moreover have "approx_top_n_solo C threads n s = Inr (s', edge, pm_len s)"
      using 3(2,3) l edge(1) s'(1) 3(1) by (simp add: approx_top_n_solo_def Let_def unat_histogram [OF assms] edge_quota_def)
    ultimately show ?thesis using s' edge(2) 3 l by (auto simp: edge_quota_def)
  qed
qed

section \<open>A group keeps the largest octaves of all its partitions\<close>

lemma unat_sum_of_nat:
  assumes "sum_list ns < 2 ^ 64"
  shows "unat (sum_list (map of_nat ns) :: u64) = sum_list ns"
proof -
  have "(sum_list (map of_nat ns) :: u64) = of_nat (sum_list ns)" by (induction ns) simp_all
  then show ?thesis using assms by (simp add: unat_of_nat)
qed

lemma allreduce_nth:
  "buffers \<noteq> [] \<Longrightarrow> i < length (hd buffers) \<Longrightarrow> allreduce_sum_u64 buffers ! i = sum_list (map (\<lambda>b. b ! i) buffers)"
  by (simp add: allreduce_sum_u64_def)

lemma sum_list_indicator:
  fixes f :: "nat \<Rightarrow> 'a::comm_monoid_add"
  assumes "i < n"
  shows "(\<Sum>r\<leftarrow>[0..<n]. (replicate n 0)[r := f r] ! i) = f i"
proof -
  have "(\<Sum>r\<leftarrow>[0..<m]. (replicate n 0)[r := f r] ! i) = (if i < m then f i else 0)" if "m \<le> n" for m
    using that assms by (induction m) (auto simp: nth_list_update less_Suc_eq)
  from this [of n] assms show ?thesis by simp
qed

lemma local_boundary_quotas_eq:
  assumes "sum_list counts < 2 ^ 64" "counts \<noteq> []"
  shows "local_boundary_quotas counts quota =
    map (\<lambda>r. min (quota - sum_list (take r counts)) (counts ! r)) [0..<length counts]"
proof (cases "length counts = 1")
  case True
  then obtain c where "counts = [c]" by (cases counts) auto
  then show ?thesis by (simp add: local_boundary_quotas_def)
next
  case False
  let ?n = "length counts"
  define reduced where "reduced = allreduce_sum_u64 (map (\<lambda>r. (replicate ?n 0)[r := of_nat (counts ! r)]) [0..<?n])"
  have len: "length reduced = ?n" using assms(2) by (simp add: reduced_def allreduce_sum_u64_def hd_map)
  have nth: "reduced ! i = of_nat (counts ! i)" if "i < ?n" for i
    using that assms(2) sum_list_indicator [OF that, of "\<lambda>r. of_nat (counts ! r)"]
    by (simp add: reduced_def allreduce_nth hd_map comp_def)
  have "unat (sum_list (take r reduced)) = sum_list (take r counts)" if "r < ?n" for r
  proof -
    have "take r reduced = map of_nat (take r counts)"
      using that len nth by (intro nth_equalityI) auto
    moreover have "sum_list (take r counts) < 2 ^ 64"
      using assms(1) by (metis append_take_drop_id le_add1 order.strict_trans1 sum_list_append)
    ultimately show ?thesis by (simp add: unat_sum_of_nat)
  qed
  then show ?thesis
    using False by (simp add: local_boundary_quotas_def Let_def reduced_def [symmetric] cong: map_cong)
qed

lemma keep_first_min: "keep_first side (min q (ties side xs)) xs = keep_first side q xs"
  by (cases "ties side xs \<le> q") (auto simp: min_def intro: keep_first_enough)

definition group_ok :: "nat \<Rightarrow> 'c pauli_sum list \<Rightarrow> bool" where
  "group_ok W locals \<longleftrightarrow> locals \<noteq> [] \<and> (\<forall>s \<in> set locals. sum_inv W s \<and> pm_len s < 2 ^ 32) \<and>
     sum_list (map pm_len locals) < 2 ^ 64"

definition group_terms :: "'c pauli_sum list \<Rightarrow> 'c pauli_term list" where
  "group_terms locals = concat (map sum_iter locals)"

definition group_octaves :: "'c coefficient \<Rightarrow> 'c pauli_sum list \<Rightarrow> nat list" where
  "group_octaves C locals = concat (map (octaves C) locals)"

lemma group_octave_count:
  "length (filter (\<lambda>x. x = b) (group_octaves C locals)) = sum_list (map (\<lambda>s. octave_count C s b) locals)"
  by (induction locals) (simp_all add: group_octaves_def octave_counts)

lemma group_octaves_length:
  "\<forall>s \<in> set locals. sum_inv W s \<Longrightarrow> length (group_octaves C locals) = sum_list (map pm_len locals)"
  by (induction locals) (simp_all add: group_octaves_def octaves_def sum_inv_def)

lemma group_terms_length: "\<forall>l \<in> set ls. sum_inv W l \<Longrightarrow> sum_list (map pm_len ls) = length (group_terms ls)"
  by (induction ls) (simp_all add: group_terms_def sum_inv_def)

lemma sum_counts_le:
  "\<forall>s \<in> set locals. sum_inv W s \<Longrightarrow> sum_list (map (\<lambda>s. octave_count C s b) locals) \<le> sum_list (map pm_len locals)"
  using octave_count_le by (intro sum_list_mono) blast

text \<open>The packed buffers after the first reduction.\<close>

lemma packed_reduction:
  fixes C threads locals
  assumes "group_ok W locals"
  defines "packed \<equiv> allreduce_sum_u64
    (map (\<lambda>(s, h). of_nat (pm_len s) # map ucast h) (zip locals (map (octave_histogram C threads) locals)))"
  shows "unat (packed ! 0) = sum_list (map pm_len locals)"
    "map unat (drop 1 packed) = map (\<lambda>b. length (filter (\<lambda>x. x = b) (group_octaves C locals))) [0..<APPROX_BINS]"
proof -
  let ?buf = "\<lambda>s. of_nat (pm_len s) # map ucast (octave_histogram C threads s) :: u64 list"
  have inv: "\<forall>s \<in> set locals. sum_inv W s" "locals \<noteq> []" "\<forall>s \<in> set locals. pm_len s < 2 ^ 32" "sum_list (map pm_len locals) < 2 ^ 64"
    using assms(1) by (simp_all add: group_ok_def)
  have packed: "packed = allreduce_sum_u64 (map ?buf locals)"
    by (simp add: packed_def zip_map2 comp_def zip_same_conv_map)
  have len: "length (?buf s) = Suc APPROX_BINS" if "s \<in> set locals" for s
    using inv(1) that octave_histogram_counts(1) by fastforce
  then have hd: "length (hd (map ?buf locals)) = Suc APPROX_BINS" using inv(2) by (simp add: hd_map)
  have nth: "packed ! i = sum_list (map (\<lambda>s. ?buf s ! i) locals)" if "i < Suc APPROX_BINS" for i
    unfolding packed using that hd inv(2) by (subst allreduce_nth) (simp_all add: comp_def)
  have "packed ! 0 = sum_list (map of_nat (map pm_len locals))" using nth [of 0] by (simp add: comp_def)
  then show "unat (packed ! 0) = sum_list (map pm_len locals)" using unat_sum_of_nat [OF inv(4)] by simp
  have plen: "length packed = Suc APPROX_BINS" unfolding packed using hd by (simp add: allreduce_sum_u64_def)
  show "map unat (drop 1 packed) = map (\<lambda>b. length (filter (\<lambda>x. x = b) (group_octaves C locals))) [0..<APPROX_BINS]"
  proof (rule nth_equalityI)
    fix b assume "b < length (map unat (drop 1 packed))"
    then have b: "b < APPROX_BINS" using plen by simp
    have "?buf s ! Suc b = of_nat (octave_count C s b)" if "s \<in> set locals" for s
    proof -
      have s: "sum_inv W s" "pm_len s < 2 ^ 32" using inv that by simp_all
      have "unat (octave_histogram C threads s ! b) = octave_count C s b"
        using unat_histogram [OF s, of C threads] b octave_histogram_counts(1) [OF s(1)]
        by (metis (no_types, lifting) add_0 length_map nth_map nth_upt length_upt diff_zero)
      then have "(ucast (octave_histogram C threads s ! b) :: u64) = of_nat (octave_count C s b)" by (metis of_nat_unat)
      then show ?thesis using b octave_histogram_counts(1) [OF s(1)] by simp
    qed
    then have "map (\<lambda>s. ?buf s ! Suc b) locals = map of_nat (map (\<lambda>s. octave_count C s b) locals)" by simp
    then have "packed ! Suc b = sum_list (map of_nat (map (\<lambda>s. octave_count C s b) locals))"
      using nth [of "Suc b"] b by (simp only:)
    then have "unat (packed ! Suc b) = sum_list (map (\<lambda>s. octave_count C s b) locals)"
      using unat_sum_of_nat [OF order.strict_trans1 [OF sum_counts_le [OF inv(1)] inv(4)]] by simp
    then show "map unat (drop 1 packed) ! b = map (\<lambda>b. length (filter (\<lambda>x. x = b) (group_octaves C locals))) [0..<APPROX_BINS] ! b"
      using b plen by (simp add: group_octave_count)
  qed (simp add: plen)
qed

lemma map_result_ex:
  assumes "\<And>i. i < length xs \<Longrightarrow> \<exists>y. f (xs ! i) = Inr y \<and> P i y"
  shows "\<exists>ys. map_result f xs = Inr ys \<and> length ys = length xs \<and> (\<forall>i < length xs. P i (ys ! i))"
proof -
  from assms obtain g where g: "\<And>i. i < length xs \<Longrightarrow> f (xs ! i) = Inr (g i) \<and> P i (g i)" by metis
  have "map_result f xs = Inr (map g [0..<length xs])"
    using g [THEN conjunct1]
  proof (induction xs arbitrary: g)
    case (Cons x xs)
    have "map_result f xs = Inr (map (\<lambda>i. g (Suc i)) [0..<length xs])"
      by (rule Cons.IH) (use Cons.prems in fastforce)
    moreover have "map g [0..<length (x # xs)] = g 0 # map (\<lambda>i. g (Suc i)) [0..<length xs]"
      by (simp add: upt_conv_Cons map_Suc_upt [symmetric] del: upt_Suc)
    ultimately show ?case using Cons.prems [of 0] by simp
  qed simp
  with g show ?thesis by auto
qed

text \<open>The terms an edge keeps of a list of terms.\<close>

definition cut_terms :: "'c coefficient \<Rightarrow> edge_decision \<Rightarrow> 'c pauli_term list \<Rightarrow> 'c pauli_term list" where
  "cut_terms C edge ts =
     (case edge of KeepAll \<Rightarrow> ts | Clear \<Rightarrow> []
      | Boundary bin kept_above quota \<Rightarrow> keep_first (\<lambda>t. classify_octave (norm_sqr C (snd t)) bin) quota ts)"

definition with_quota :: "edge_decision \<Rightarrow> nat \<Rightarrow> edge_decision" where
  "with_quota edge q = (case edge of Boundary bin kept_above _ \<Rightarrow> Boundary bin kept_above q | _ \<Rightarrow> edge)"

text \<open>The ranks' shares of the edge's quota, from their counts at the boundary octave.\<close>

definition rank_quotas :: "'c coefficient \<Rightarrow> edge_decision \<Rightarrow> 'c pauli_sum list \<Rightarrow> nat list" where
  "rank_quotas C edge locals =
     (case edge of Boundary bin kept_above q \<Rightarrow> local_boundary_quotas (map (\<lambda>s. octave_count C s bin) locals) q
      | _ \<Rightarrow> replicate (length locals) 0)"

lemma cut_terms_length:
  assumes "edge_ok (map (\<lambda>t. octave (norm_sqr C (snd t))) ts) n edge"
  shows "length (cut_terms C edge ts) = min n (length ts)"
  using assms
proof (cases rule: edge_ok_cases)
  case (3 bin kept_above quota)
  have "length (filter (\<lambda>t. classify_octave (norm_sqr C (snd t)) bin = Greater) ts) =
      length (filter (\<lambda>b. bin < b) (map (\<lambda>t. octave (norm_sqr C (snd t))) ts))"
    "ties (\<lambda>t. classify_octave (norm_sqr C (snd t)) bin) ts = length (filter (\<lambda>b. b = bin) (map (\<lambda>t. octave (norm_sqr C (snd t))) ts))"
    by (auto simp: filter_map comp_def classify_octave_def compare_nat_def intro!: arg_cong [of _ _ length] filter_cong)
  with 3 show ?thesis by (simp add: cut_terms_def length_keep_first)
qed (simp_all add: cut_terms_def)

lemma retain_at_edge_ok:
  assumes "sum_inv W s" "pm_len s \<le> usize_max"
  shows "\<exists>s'. retain_at_edge C s edge q = Inr s' \<and> sum_inv W s' \<and> pm_hash s' = pm_hash s \<and>
    sum_iter s' = cut_terms C (with_quota edge q) (sum_iter s)"
proof (cases edge)
  case (Boundary bin ka quota)
  then show ?thesis using retain_at_boundary_ok [OF assms, of C bin ka quota q] by (auto simp: cut_terms_def with_quota_def)
qed (use sum_clear_ok [OF assms(1)] assms(1) in \<open>auto simp: retain_at_edge_def cut_terms_def with_quota_def\<close>)

text \<open>Ranks that apply one edge, each with its share of the quota, keep what one sum of all their terms would.\<close>

lemma cut_terms_group:
  fixes edge
  assumes "group_ok W locals" "edge = Boundary bin ka q"
    "quotas = local_boundary_quotas (map (\<lambda>s. octave_count C s bin) locals) q"
  shows "length quotas = length locals"
    "cut_terms C edge (group_terms locals) =
      concat (map (\<lambda>i. cut_terms C (Boundary bin ka (quotas ! i)) (sum_iter (locals ! i))) [0..<length locals])"
proof -
  let ?side = "\<lambda>t. classify_octave (norm_sqr C (snd t)) bin" and ?counts = "map (\<lambda>s. octave_count C s bin) locals"
  have inv: "\<forall>s \<in> set locals. sum_inv W s" "locals \<noteq> []" "sum_list (map pm_len locals) < 2 ^ 64"
    using assms(1) by (simp_all add: group_ok_def)
  have ties: "ties ?side (sum_iter s) = octave_count C s bin" for s
    by (simp add: classify_octave_ties(2) octave_count_eq)
  have quotas: "quotas = map (\<lambda>r. min (q - sum_list (take r ?counts)) (?counts ! r)) [0..<length locals]"
    unfolding assms(3) using inv(2)
      local_boundary_quotas_eq [OF order.strict_trans1 [OF sum_counts_le [OF inv(1)] inv(3)], where quota = q] by simp
  then show "length quotas = length locals" by simp
  have "keep_first ?side (q - sum_list (map (ties ?side) (take i (map sum_iter locals)))) (sum_iter (locals ! i)) =
      keep_first ?side (quotas ! i) (sum_iter (locals ! i))" if "i < length locals" for i
    using that by (simp add: quotas take_map comp_def ties [symmetric] keep_first_min)
  then have "map (\<lambda>i. keep_first ?side (q - sum_list (map (ties ?side) (take i (map sum_iter locals)))) (map sum_iter locals ! i)) [0..<length locals] =
      map (\<lambda>i. keep_first ?side (quotas ! i) (sum_iter (locals ! i))) [0..<length locals]"
    by (intro map_cong) simp_all
  then show "cut_terms C edge (group_terms locals) =
      concat (map (\<lambda>i. cut_terms C (Boundary bin ka (quotas ! i)) (sum_iter (locals ! i))) [0..<length locals])"
    by (simp only: assms(2) cut_terms_def group_terms_def keep_first_concat length_map edge_decision.case)
qed

lemma cut_terms_ranks:
  assumes "group_ok W locals"
  shows "length (rank_quotas C edge locals) = length locals"
    "cut_terms C edge (group_terms locals) = concat (map (\<lambda>i.
       cut_terms C (with_quota edge (rank_quotas C edge locals ! i)) (sum_iter (locals ! i))) [0..<length locals])"
proof -
  have plain: "group_terms locals = concat (map (\<lambda>i. sum_iter (locals ! i)) [0..<length locals])"
    by (subst (1) map_nth [of locals, symmetric]) (simp only: group_terms_def map_map comp_def)
  show "length (rank_quotas C edge locals) = length locals"
    by (cases edge) (simp_all add: rank_quotas_def cut_terms_group(1) [OF assms refl refl])
  show "cut_terms C edge (group_terms locals) = concat (map (\<lambda>i.
       cut_terms C (with_quota edge (rank_quotas C edge locals ! i)) (sum_iter (locals ! i))) [0..<length locals])"
  proof (cases edge)
    case KeepAll
    then show ?thesis using plain by (simp add: cut_terms_def with_quota_def)
  next
    case Clear
    then show ?thesis by (simp add: cut_terms_def with_quota_def concat_eq_Nil_conv)
  next
    case (Boundary bin ka q)
    then show ?thesis using cut_terms_group(2) [OF assms refl refl] by (simp add: rank_quotas_def with_quota_def)
  qed
qed

lemma rank_quotas_le:
  assumes "group_ok W locals" "i < length locals"
  shows "case edge of Boundary bin ka q \<Rightarrow> rank_quotas C edge locals ! i \<le> octave_count C (locals ! i) bin | _ \<Rightarrow> True"
proof (cases edge)
  case (Boundary bin ka q)
  have inv: "\<forall>s \<in> set locals. sum_inv W s" "locals \<noteq> []" "sum_list (map pm_len locals) < 2 ^ 64"
    using assms(1) by (simp_all add: group_ok_def)
  then show ?thesis
    using Boundary assms(2) local_boundary_quotas_eq [OF order.strict_trans1 [OF sum_counts_le [OF inv(1)] inv(3)], where quota = q]
    by (simp add: rank_quotas_def)
qed simp_all

text \<open>What the pass leaves: every rank a valid sum, the ranks together what one sum of all their terms would keep.\<close>

definition group_cut :: "nat \<Rightarrow> 'c coefficient \<Rightarrow> edge_decision \<Rightarrow> 'c pauli_sum list \<Rightarrow> 'c pauli_sum list \<Rightarrow> bool" where
  "group_cut W C edge locals locals' \<longleftrightarrow> length locals' = length locals \<and>
     (\<forall>i < length locals. sum_inv W (locals' ! i) \<and> pm_hash (locals' ! i) = pm_hash (locals ! i) \<and>
        sum_iter (locals' ! i) = cut_terms C (with_quota edge (rank_quotas C edge locals ! i)) (sum_iter (locals ! i))) \<and>
     group_terms locals' = cut_terms C edge (group_terms locals)"

lemma retain_group:
  assumes "group_ok W locals"
  shows "\<exists>locals'. map_result (\<lambda>(s, q). and_then (retain_at_edge C s edge q) (\<lambda>s'. Inr (s', edge, len)))
      (zip locals (rank_quotas C edge locals)) = Inr (map (\<lambda>s. (s, edge, len)) locals') \<and> group_cut W C edge locals locals'"
proof -
  let ?f = "\<lambda>(s, q). and_then (retain_at_edge C s edge q) (\<lambda>s'. Inr (s', edge, len))"
  define quotas where "quotas = rank_quotas C edge locals"
  define cut where "cut = (\<lambda>i. cut_terms C (with_quota edge (quotas ! i)) (sum_iter (locals ! i)))"
  let ?P = "\<lambda>i s'. sum_inv W s' \<and> pm_hash s' = pm_hash (locals ! i) \<and> sum_iter s' = cut i"
  have inv: "\<forall>s \<in> set locals. sum_inv W s \<and> pm_len s \<le> usize_max" using assms(1) by (auto simp: group_ok_def usize_max_def)
  note ranks = cut_terms_ranks [OF assms(1), where C = C and edge = edge, folded quotas_def, folded cut_def]
  have "\<exists>y. ?f (zip locals quotas ! i) = Inr y \<and> y = (fst y, edge, len) \<and> ?P i (fst y)" if i: "i < length (zip locals quotas)" for i
  proof -
    have "locals ! i \<in> set locals" using i by simp
    then have "sum_inv W (locals ! i)" "pm_len (locals ! i) \<le> usize_max" using inv by blast+
    from retain_at_edge_ok [OF this, of C edge "quotas ! i"] i show ?thesis by (auto simp: ranks(1) cut_def)
  qed
  from map_result_ex [of "zip locals quotas" ?f, OF this]
  obtain ys where ys: "map_result ?f (zip locals quotas) = Inr ys" "length ys = length locals"
      "\<And>i. i < length locals \<Longrightarrow> ys ! i = (fst (ys ! i), edge, len) \<and> ?P i (fst (ys ! i))"
    using ranks(1) by auto
  have "ys = map (\<lambda>s. (s, edge, len)) (map fst ys)"
    using ys(2,3) by (intro nth_equalityI) simp_all
  moreover have "map sum_iter (map fst ys) = map cut [0..<length locals]"
    by (rule nth_equalityI) (use ys(2,3) in simp_all)
  then have "group_terms (map fst ys) = cut_terms C edge (group_terms locals)"
    unfolding ranks(2) by (simp add: group_terms_def)
  ultimately show ?thesis
    using ys by (intro exI [of _ "map fst ys"]) (simp add: group_cut_def quotas_def cut_def)
qed

lemma group_counts:
  assumes "group_ok W locals" "bin < APPROX_BINS"
  shows "map (\<lambda>h. unat (h ! bin)) (map (octave_histogram C threads) locals) = map (\<lambda>s. octave_count C s bin) locals"
proof -
  have "unat (octave_histogram C threads s ! bin) = octave_count C s bin" if "s \<in> set locals" for s
    using unat_histogram [of W s C threads] assms that octave_histogram_counts(1) [of W s C threads]
    unfolding group_ok_def by (metis (no_types, lifting) add_0 nth_map nth_upt length_upt diff_zero)
  then show ?thesis by simp
qed

lemma approx_top_n_pass_ok:
  assumes "group_ok W locals"
  shows "\<exists>locals' edge. approx_top_n_pass C threads n locals = Inr (map (\<lambda>s. (s, edge, sum_list (map pm_len locals))) locals') \<and>
    edge_ok (group_octaves C locals) n edge \<and> group_cut W C edge locals locals'"
proof -
  have inv: "\<forall>s \<in> set locals. sum_inv W s" "locals \<noteq> []" "\<forall>s \<in> set locals. pm_len s < 2 ^ 32" "sum_list (map pm_len locals) < 2 ^ 64"
    using assms by (simp_all add: group_ok_def)
  show ?thesis
  proof (cases "length locals = 1")
    case True
    then obtain s where s: "locals = [s]" by (cases locals) auto
    have len: "pm_len s \<le> usize_max" using inv(3) by (simp add: s usize_max_def)
    obtain s' edge where solo: "approx_top_n_solo C threads n s = Inr (s', edge, pm_len s)" "edge_ok (octaves C s) n edge"
        "retain_at_edge C s edge (edge_quota edge) = Inr s'" "sum_inv W s'" "pm_hash s' = pm_hash s"
      using approx_top_n_solo_ok [of W s C threads n] inv by (auto simp: s)
    have s': "sum_iter s' = cut_terms C edge (sum_iter s)"
      using retain_at_edge_ok [OF _ len, of W C edge "edge_quota edge"] solo(3) inv(1) s
      by (cases edge) (auto simp: edge_quota_def with_quota_def)
    have "cut_terms C edge (sum_iter s) = cut_terms C (with_quota edge (rank_quotas C edge [s] ! 0)) (sum_iter s)"
      using cut_terms_ranks(2) [OF assms, of C edge] by (simp add: s group_terms_def)
    with True solo s s' show ?thesis
      by (intro exI [of _ "[s']"] exI [of _ edge])
        (simp add: approx_top_n_pass_def group_octaves_def group_terms_def group_cut_def)
  next
    case False
    note packed = packed_reduction [OF assms, of C threads]
    let ?os = "group_octaves C locals" and ?total = "sum_list (map pm_len locals)"
    have bound: "\<forall>b \<in> set ?os. b < APPROX_BINS" using octaves_bound by (fastforce simp: group_octaves_def)
    obtain edge where edge: "octave_edge (map (\<lambda>b. length (filter (\<lambda>x. x = b) ?os)) [0..<APPROX_BINS]) ?total n = Inr edge"
        "edge_ok ?os n edge"
      using octave_edge_ok [OF bound, of n] group_octaves_length [OF inv(1)] by auto
    have "(case edge of Boundary bin ka q \<Rightarrow>
          local_boundary_quotas (map (\<lambda>h. unat (h ! bin)) (map (octave_histogram C threads) locals)) q
        | _ \<Rightarrow> replicate (length locals) 0) = rank_quotas C edge locals"
    proof (cases edge)
      case (Boundary bin ka q)
      then have "bin < APPROX_BINS" using edge(2) by (simp add: edge_ok_def)
      with Boundary show ?thesis by (simp only: group_counts [OF assms] rank_quotas_def edge_decision.case)
    qed (simp_all add: rank_quotas_def)
    with retain_group [OF assms, of C edge ?total] False edge packed show ?thesis
      unfolding approx_top_n_pass_def Let_def by (auto simp: comp_def)
  qed
qed

text \<open>The octaves decide the edge, in whatever order they are counted.\<close>

lemma edge_ok_bin_le:
  assumes "edge_ok os n (Boundary a ka qa)" "edge_ok os' n (Boundary b kb qb)" "mset os = mset os'"
  shows "b \<le> a"
proof (rule ccontr)
  assume "\<not> b \<le> a"
  have count: "length (filter P os) = length (filter P os')" for P
    using assms(3) by (metis mset_filter size_mset)
  have "length (filter (\<lambda>x. b < x) os) + length (filter (\<lambda>x. x = b) os) \<le> length (filter (\<lambda>x. a < x) os)"
    using \<open>\<not> b \<le> a\<close> by (induction os) auto
  with assms(1,2) show False by (simp add: edge_ok_def count)
qed

lemma edge_ok_unique:
  assumes "edge_ok os n e" "edge_ok os' n e'" "mset os = mset os'"
  shows "e = e'"
proof -
  have len: "length os = length os'" and count: "length (filter P os) = length (filter P os')" for P
    using assms(3) by (metis size_mset, metis mset_filter size_mset)
  show ?thesis
  proof (cases "(\<exists>a ka qa. e = Boundary a ka qa) \<and> (\<exists>b kb qb. e' = Boundary b kb qb)")
    case True
    then obtain a ka qa b kb qb where e: "e = Boundary a ka qa" "e' = Boundary b kb qb" by blast
    have "a = b"
      using edge_ok_bin_le [OF assms(1,2) [unfolded e] assms(3)]
        edge_ok_bin_le [OF assms(2,1) [unfolded e] assms(3) [symmetric]] by simp
    with assms e show ?thesis by (auto simp: edge_ok_def count)
  next
    case False
    with assms(1,2) len show ?thesis by (cases e; cases e') (auto simp: edge_ok_def)
  qed
qed

definition above_edge :: "'c coefficient \<Rightarrow> edge_decision \<Rightarrow> 'c pauli_term \<Rightarrow> bool" where
  "above_edge C edge t \<longleftrightarrow> (case edge of Boundary bin _ _ \<Rightarrow> bin < octave (norm_sqr C (snd t)) | _ \<Rightarrow> True)"

lemma cut_terms_above:
  "filter (above_edge C edge) (cut_terms C edge ts) = (if edge = Clear then [] else filter (above_edge C edge) ts)"
proof (cases edge)
  case (Boundary bin ka q)
  have "filter (\<lambda>t. side t = Greater) (keep_first side q ts) = filter (\<lambda>t. side t = Greater) ts" for side :: "'a pauli_term \<Rightarrow> ordering" and q
    by (induction side q ts rule: keep_first.induct) auto
  moreover have "above_edge C edge = (\<lambda>t. classify_octave (norm_sqr C (snd t)) bin = Greater)"
    by (auto simp: above_edge_def Boundary classify_octave_def compare_nat_def)
  ultimately show ?thesis by (simp only: Boundary cut_terms_def edge_decision.case edge_decision.distinct if_False)
qed (simp_all add: cut_terms_def)

text \<open>
  C35. The \<open>ApproxTopN(n)\<close> pass over one sum of fewer than \<open>2^32\<close> terms never panics (its histogram always contains the boundary octave), and leaves
  a valid sum with the same hash and exactly \<open>min n len\<close> of its terms, coefficients unchanged. No dropped term is in a
  higher octave than a kept one, so a dropped squared magnitude in the range of normal numbers is less than twice a kept one.
\<close>

theorem approx_top_n_keeps_octaves:
  assumes "sum_inv W s" "pm_len s < 2 ^ 32"
  shows "\<exists>s'. finalize_layer (approx_top_n C threads n) (st, s) = Inr (st, s') \<and> sum_inv W s' \<and> pm_hash s' = pm_hash s \<and>
    pm_len s' = min n (pm_len s) \<and> (\<forall>k c. sum_lookup s' k = Some c \<longrightarrow> sum_lookup s k = Some c) \<and>
    (\<forall>k c k' c'. sum_lookup s' k = Some c \<longrightarrow> sum_lookup s k' = Some c' \<longrightarrow> sum_lookup s' k' = None \<longrightarrow>
      octave (norm_sqr C c') \<le> octave (norm_sqr C c) \<and>
      (binade 0 \<le> norm_sqr C c' \<and> norm_sqr C c' < binade 2046 \<longrightarrow> norm_sqr C c' < 2 * norm_sqr C c))"
  using approx_top_n_solo_ok [OF assms, of C threads n] octave_factor
  unfolding keeps_above_def approx_top_n_def approx_top_n_finalize_def by fastforce

theorem approx_top_n_keeps_octaves_witness:
  "\<exists>s'. finalize_layer (approx_top_n complex_coefficient 3 1) ((), example_sum 1) = Inr ((), s') \<and> pm_len s' = 1"
  using approx_top_n_keeps_octaves [OF example_sum_inv(1) [of 1], of complex_coefficient 3 1 "()"]
  by (auto simp: example_sum_len(1))

text \<open>
  C34. \<open>ApproxTopN\<close> is partition-exact: whatever way a sum's terms are spread over the ranks of a group, the group's pass
  succeeds, every rank applies the edge the pass over the whole sum applies and reports the whole sum's length, the ranks
  together keep as many terms, and the same terms above the boundary octave; every rank's sum stays valid.
\<close>

theorem approx_top_n_partition_exact:
  assumes "group_ok W locals" "sum_inv W s" "pm_len s < 2 ^ 32" "mset (group_terms locals) = mset (sum_iter s)"
  shows "\<exists>s' edge locals'. approx_top_n_solo C threads n s = Inr (s', edge, pm_len s) \<and>
    approx_top_n_pass C threads' n locals = Inr (map (\<lambda>l. (l, edge, pm_len s)) locals') \<and> length locals' = length locals \<and>
    (\<forall>i < length locals. sum_inv W (locals' ! i) \<and> pm_hash (locals' ! i) = pm_hash (locals ! i)) \<and>
    sum_list (map pm_len locals') = pm_len s' \<and>
    mset (filter (above_edge C edge) (group_terms locals')) = mset (filter (above_edge C edge) (sum_iter s'))"
proof -
  have inv: "\<forall>s \<in> set locals. sum_inv W s" using assms(1) by (simp add: group_ok_def)
  obtain s' edge where solo: "approx_top_n_solo C threads n s = Inr (s', edge, pm_len s)" "edge_ok (octaves C s) n edge"
      "retain_at_edge C s edge (edge_quota edge) = Inr s'" "sum_inv W s'"
    using approx_top_n_solo_ok [OF assms(2,3), of C threads n] by blast
  obtain locals' edge' where pass: "approx_top_n_pass C threads' n locals = Inr (map (\<lambda>l. (l, edge', sum_list (map pm_len locals))) locals')"
      "edge_ok (group_octaves C locals) n edge'" "length locals' = length locals"
      "\<forall>i < length locals. sum_inv W (locals' ! i) \<and> pm_hash (locals' ! i) = pm_hash (locals ! i)"
      "group_terms locals' = cut_terms C edge' (group_terms locals)"
    using approx_top_n_pass_ok [OF assms(1), of C threads' n] unfolding group_cut_def by blast
  have octs: "group_octaves C locals = map (\<lambda>t. octave (norm_sqr C (snd t))) (group_terms locals)"
    by (simp add: group_octaves_def octaves_def [abs_def] group_terms_def map_concat comp_def)
  then have edge: "edge' = edge"
    using assms(4) by (intro edge_ok_unique [OF pass(2) solo(2)]) (simp add: octaves_def)
  have s': "sum_iter s' = cut_terms C edge (sum_iter s)"
    using retain_at_edge_ok [OF assms(2), of C edge "edge_quota edge"] solo(3) assms(3)
    by (cases edge) (auto simp: edge_quota_def with_quota_def usize_max_def)
  have same: "length (group_terms locals) = length (sum_iter s)" using assms(4) by (rule mset_eq_length)
  have len: "pm_len s = length (sum_iter s)" "pm_len s' = length (sum_iter s')"
    using assms(2) solo(4) by (simp_all add: sum_inv_def)
  have in_all: "sum_list (map pm_len locals) = pm_len s" using group_terms_length [OF inv] same len(1) by simp
  have "\<forall>l \<in> set locals'. sum_inv W l" using pass(3,4) by (auto simp: in_set_conv_nth)
  from group_terms_length [OF this] have "sum_list (map pm_len locals') = pm_len s'"
    using cut_terms_length [OF pass(2) [unfolded octs]] cut_terms_length [OF solo(2) [unfolded octaves_def]] edge
    by (simp only: len pass(5) s' same)
  moreover have "mset (filter (above_edge C edge) (group_terms locals')) = mset (filter (above_edge C edge) (sum_iter s'))"
    by (simp add: pass(5) s' edge cut_terms_above assms(4))
  ultimately show ?thesis using solo(1) pass edge in_all by auto
qed

lemma example_group:
  "group_ok 1 [example_sum 1, sum_clear (example_sum 1)]"
  "mset (group_terms [example_sum 1, sum_clear (example_sum 1)]) = mset (sum_iter (example_sum 1))"
proof -
  have inv: "sum_inv 1 (example_sum 1)" by (rule example_sum_inv(1)) simp
  note clear = sum_clear_ok [OF inv]
  have "pm_len (sum_clear (example_sum 1)) = 0" using clear(1,2) by (simp add: sum_inv_def)
  then show "group_ok 1 [example_sum 1, sum_clear (example_sum 1)]"
    by (simp add: group_ok_def clear(1) inv example_sum_len(1) del: One_nat_def)
  show "mset (group_terms [example_sum 1, sum_clear (example_sum 1)]) = mset (sum_iter (example_sum 1))"
    by (simp add: group_terms_def clear(2) del: One_nat_def)
qed

theorem approx_top_n_partition_exact_witness:
  "\<exists>edge l1 l2. approx_top_n_pass complex_coefficient 3 1 [example_sum 1, sum_clear (example_sum 1)] = Inr [(l1, edge, 2), (l2, edge, 2)]"
proof -
  have "sum_inv 1 (example_sum 1)" "pm_len (example_sum 1) < 2 ^ 32"
    by (simp_all only: example_sum_inv(1) example_sum_len(1)) simp_all
  from approx_top_n_partition_exact [OF example_group(1) this example_group(2),
      of complex_coefficient 1 1 3] obtain edge locals' where
    "approx_top_n_pass complex_coefficient 3 1 [example_sum 1, sum_clear (example_sum 1)] = Inr (map (\<lambda>l. (l, edge, 2)) locals')"
    "length locals' = 2"
    by (auto simp: example_sum_len(1))
  then show ?thesis by (auto simp: numeral_2_eq_2 length_Suc_conv)
qed

end
