(* ===== verification/Octave_Window.thy ===== *)
theory Octave_Window
  imports Approx_Top_N
begin

unbundle bit_operations_syntax

text \<open>
  \<open>truncation/octave_window.rs\<close>: the \<open>ApproxTopN\<close> pass decided from per-bucket counts of 64 octaves, taken while the
  layer runs. The decision is a function of the whole group: the window and \<open>n\<close>, on which the ranks agree, and for
  every rank its length, its buckets' counts (\<open>u32\<close>) and their totals (\<open>u64\<close>).
\<close>

section \<open>The code\<close>

definition WINDOW_OCTAVES :: nat where
  "WINDOW_OCTAVES = 64"

record octave_window =
  ow_base :: nat

definition window_around :: "nat \<Rightarrow> octave_window" where
  "window_around bin = \<lparr>ow_base = min (bin - WINDOW_OCTAVES div 2) (APPROX_BINS - WINDOW_OCTAVES)\<rparr>"

definition window_slot :: "octave_window \<Rightarrow> nat \<Rightarrow> nat" where
  "window_slot window bin = min (bin + 1 - ow_base window) (WINDOW_OCTAVES + 1)"

definition window_count :: "'c coefficient \<Rightarrow> octave_window \<Rightarrow> 'c list \<Rightarrow> u32 list" where
  "window_count C window coefficients =
     fold (\<lambda>c counts. let slot = window_slot window (octave (norm_sqr C c)) in counts[slot := counts ! slot + 1])
       coefficients (replicate (WINDOW_OCTAVES + 2) 0)"

definition totals_default :: "u64 list" where
  "totals_default = replicate (WINDOW_OCTAVES + 2) 0"

definition totals_add :: "u64 list \<Rightarrow> u32 list \<Rightarrow> u64 list" where
  "totals_add totals counts = map2 (\<lambda>in_all count. in_all + ucast count) totals counts"

definition totals_of :: "u32 list list \<Rightarrow> u64 list" where
  "totals_of per_bucket = foldl totals_add totals_default per_bucket"

definition totals_merge :: "u64 list \<Rightarrow> u64 list \<Rightarrow> u64 list" where
  "totals_merge totals other = map2 (+) totals other"

record boundary_cut =
  cut_bin :: nat
  cut_split :: quota_split
  cut_kept :: nat

definition cut_filter :: "'c coefficient \<Rightarrow> boundary_cut \<Rightarrow> nat \<Rightarrow> (nat \<Rightarrow> key \<Rightarrow> 'c \<Rightarrow> bool \<times> nat) \<times> nat" where
  "cut_filter C bcut b = (boundary_filter C (\<lambda>m. classify_octave m (cut_bin bcut)), split_quota (cut_split bcut) b)"

definition cut_apply :: "'c coefficient \<Rightarrow> boundary_cut \<Rightarrow> 'c pauli_sum \<Rightarrow> 'c pauli_sum" where
  "cut_apply C bcut local_sum = retain_per_bucket (cut_filter C bcut) local_sum"

definition apply_to_bucket :: "'c coefficient \<Rightarrow> boundary_cut \<Rightarrow> nat \<Rightarrow> 'c bucket_columns \<Rightarrow> 'c bucket_columns" where
  "apply_to_bucket C bcut b columns = fst (columns_retain (fst (cut_filter C bcut b)) (snd (cut_filter C bcut b)) columns)"

text \<open>A rank's cut at a boundary octave, from its own counts and its share of the quota.\<close>

definition window_cut :: "octave_window \<Rightarrow> nat \<Rightarrow> u32 list list \<Rightarrow> u64 list \<Rightarrow> nat \<Rightarrow> boundary_cut result" where
  "window_cut window bin per_bucket totals local_quota =
     (let slot = window_slot window bin;
          local_count = unat (totals ! slot);
          local_above = unat (sum_list (drop (slot + 1) totals))
      in and_then (quota_split_new (\<lambda>b. unat (per_bucket ! b ! slot)) (length per_bucket) local_count local_quota) (\<lambda>split.
         Inr \<lparr>cut_bin = bin, cut_split = split, cut_kept = local_above + local_quota\<rparr>))"

definition decide_from_window ::
    "nat \<Rightarrow> octave_window \<Rightarrow> (nat \<times> u32 list list \<times> u64 list) list \<Rightarrow>
     (edge_decision \<times> nat \<times> boundary_cut option) list option result" where
  "decide_from_window n window ranks =
     (let buffers = map (\<lambda>(local_len, per_bucket, totals). of_nat local_len # totals) ranks;
          packed = (if length ranks > 1 then allreduce_sum_u64 buffers else hd buffers);
          in_all = unat (packed ! 0);
          over = unat (packed ! (WINDOW_OCTAVES + 2))
      in case octave_edge_within (map unat (take WINDOW_OCTAVES (drop 2 packed))) (ow_base window) over in_all n of
           None \<Rightarrow> Inr None
         | Some edge \<Rightarrow>
             and_then
               (case edge of
                  Boundary bin kept_above quota \<Rightarrow>
                    let quotas = local_boundary_quotas
                          (map (\<lambda>(_, _, totals). unat (totals ! window_slot window bin)) ranks) quota
                    in map_result (\<lambda>((_, per_bucket, totals), local_quota).
                         and_then (window_cut window bin per_bucket totals local_quota) (\<lambda>bcut. Inr (Some bcut)))
                         (zip ranks quotas)
                | _ \<Rightarrow> Inr (replicate (length ranks) None))
               (\<lambda>cuts. Inr (Some (map (\<lambda>bcut. (edge, in_all, bcut)) cuts))))"

section \<open>The counts\<close>

lemma window_slot_bound: "window_slot window bin < WINDOW_OCTAVES + 2"
  by (simp add: window_slot_def)

lemma window_slot_eq:
  "window_slot w o1 = 0 \<longleftrightarrow> o1 < ow_base w"
  "j < WINDOW_OCTAVES \<Longrightarrow> window_slot w o1 = Suc j \<longleftrightarrow> o1 = ow_base w + j"
  "window_slot w o1 = WINDOW_OCTAVES + 1 \<longleftrightarrow> ow_base w + WINDOW_OCTAVES \<le> o1"
  by (auto simp: window_slot_def WINDOW_OCTAVES_def)

text \<open>How many of a list of octaves fall into a slot.\<close>

definition slot_count :: "octave_window \<Rightarrow> nat \<Rightarrow> nat list \<Rightarrow> nat" where
  "slot_count w j os = length (filter (\<lambda>o1. window_slot w o1 = j) os)"

lemma slot_count_append [simp]: "slot_count w j (xs @ ys) = slot_count w j xs + slot_count w j ys"
  by (simp add: slot_count_def)

lemma slot_count_le: "slot_count w j os \<le> length os"
  by (simp add: slot_count_def)

lemma window_count_nth:
  "length (window_count C w cs) = WINDOW_OCTAVES + 2"
  "j < WINDOW_OCTAVES + 2 \<Longrightarrow> window_count C w cs ! j = of_nat (slot_count w j (map (\<lambda>c. octave (norm_sqr C c)) cs))"
proof -
  let ?f = "\<lambda>c counts :: u32 list. let slot = window_slot w (octave (norm_sqr C c)) in counts[slot := counts ! slot + 1]"
  have len: "length (fold ?f cs h) = length h" for h
    by (induction cs arbitrary: h) (simp_all add: Let_def)
  have "fold ?f cs h ! j = h ! j + of_nat (slot_count w j (map (\<lambda>c. octave (norm_sqr C c)) cs))"
    if "length h = WINDOW_OCTAVES + 2" "j < WINDOW_OCTAVES + 2" for h j
    using that(1)
  proof (induction cs arbitrary: h)
    case (Cons c cs)
    then show ?case using that(2) window_slot_bound [of w]
      by (auto simp: slot_count_def Let_def nth_list_update)
  qed (simp add: slot_count_def)
  with len show "length (window_count C w cs) = WINDOW_OCTAVES + 2"
    "j < WINDOW_OCTAVES + 2 \<Longrightarrow> window_count C w cs ! j = of_nat (slot_count w j (map (\<lambda>c. octave (norm_sqr C c)) cs))"
    by (simp_all add: window_count_def del: add_2_eq_Suc')
qed

lemma foldl_totals_add:
  assumes "length acc = WINDOW_OCTAVES + 2" "\<forall>h \<in> set hs. length h = WINDOW_OCTAVES + 2"
  shows "length (foldl totals_add acc hs) = WINDOW_OCTAVES + 2"
    "j < WINDOW_OCTAVES + 2 \<Longrightarrow> foldl totals_add acc hs ! j = acc ! j + (\<Sum>h\<leftarrow>hs. ucast (h ! j))"
  using assms by (induction hs arbitrary: acc) (simp_all add: totals_add_def add.assoc)

lemma totals_of_nth:
  assumes "\<forall>h \<in> set hs. length h = WINDOW_OCTAVES + 2"
  shows "length (totals_of hs) = WINDOW_OCTAVES + 2"
    "j < WINDOW_OCTAVES + 2 \<Longrightarrow> totals_of hs ! j = (\<Sum>h\<leftarrow>hs. ucast (h ! j))"
  using foldl_totals_add [OF _ assms, of totals_default]
  by (simp_all add: totals_of_def totals_default_def del: add_2_eq_Suc')

text \<open>Merging the totals of two halves of the buckets gives the totals of all of them.\<close>

lemma totals_merge_of:
  assumes "\<forall>h \<in> set (hs @ hs'). length h = WINDOW_OCTAVES + 2"
  shows "totals_merge (totals_of hs) (totals_of hs') = totals_of (hs @ hs')"
proof (rule nth_equalityI)
  have "\<forall>h \<in> set hs. length h = WINDOW_OCTAVES + 2" "\<forall>h \<in> set hs'. length h = WINDOW_OCTAVES + 2" using assms by auto
  note nth = totals_of_nth [OF this(1)] totals_of_nth [OF this(2)] totals_of_nth [OF assms]
  show "length (totals_merge (totals_of hs) (totals_of hs')) = length (totals_of (hs @ hs'))"
    by (simp add: totals_merge_def nth)
  fix j assume "j < length (totals_merge (totals_of hs) (totals_of hs'))"
  then show "totals_merge (totals_of hs) (totals_of hs') ! j = totals_of (hs @ hs') ! j"
    by (simp add: totals_merge_def nth)
qed

section \<open>What a rank contributes\<close>

definition bucket_octaves :: "'c coefficient \<Rightarrow> octave_window \<Rightarrow> 'c pauli_sum \<Rightarrow> u32 list list" where
  "bucket_octaves C w s = map (\<lambda>cols. window_count C w (col_coeff cols)) (pm_buckets s)"

definition window_rank :: "'c coefficient \<Rightarrow> octave_window \<Rightarrow> 'c pauli_sum \<Rightarrow> nat \<times> u32 list list \<times> u64 list" where
  "window_rank C w s = (pm_len s, bucket_octaves C w s, totals_of (bucket_octaves C w s))"

lemma bucket_octaves_nth:
  assumes "sum_inv W s" "pm_len s < 2 ^ 32" "b < length (pm_buckets s)" "j < WINDOW_OCTAVES + 2"
  shows "unat (bucket_octaves C w s ! b ! j) = slot_count w j (map (\<lambda>t. octave (norm_sqr C (snd t))) (terms_of (pm_buckets s ! b)))"
proof -
  let ?ts = "terms_of (pm_buckets s ! b)"
  have coeff: "col_coeff (pm_buckets s ! b) = map snd ?ts"
    using sum_inv_bucket(1) [OF assms(1,3)] by (simp add: terms_of_def wf_columns_def)
  have "length ?ts \<le> length (sum_iter s)"
    unfolding sum_iter_def length_concat by (rule member_le_sum_list) (use assms(3) in auto)
  then have "slot_count w j (map (\<lambda>t. octave (norm_sqr C (snd t))) ?ts) < 2 ^ 32"
    using slot_count_le [of w j "map (\<lambda>t. octave (norm_sqr C (snd t))) ?ts"] assms(1,2) by (simp add: sum_inv_def)
  then show ?thesis
    using assms(3,4) by (simp add: bucket_octaves_def window_count_nth coeff comp_def unat_of_nat)
qed

lemma window_totals_nth:
  assumes "sum_inv W s" "pm_len s < 2 ^ 32" "j < WINDOW_OCTAVES + 2"
  shows "totals_of (bucket_octaves C w s) ! j = of_nat (slot_count w j (octaves C s))"
    "length (totals_of (bucket_octaves C w s)) = WINDOW_OCTAVES + 2"
    "length (bucket_octaves C w s) = length (pm_buckets s)"
proof -
  have len: "\<forall>h \<in> set (bucket_octaves C w s). length h = WINDOW_OCTAVES + 2"
    by (auto simp: bucket_octaves_def window_count_nth)
  then show "length (totals_of (bucket_octaves C w s)) = WINDOW_OCTAVES + 2" by (rule totals_of_nth)
  show buckets: "length (bucket_octaves C w s) = length (pm_buckets s)" by (simp add: bucket_octaves_def)
  let ?oct = "map (\<lambda>t. octave (norm_sqr C (snd t)))"
  have "(ucast (bucket_octaves C w s ! b ! j) :: u64) = of_nat (slot_count w j (?oct (terms_of (pm_buckets s ! b))))"
    if "b < length (pm_buckets s)" for b
    using bucket_octaves_nth [OF assms(1,2) that assms(3), of C w] by (metis of_nat_unat)
  then have "map (\<lambda>h. ucast (h ! j) :: u64) (bucket_octaves C w s) =
      map (\<lambda>cols. of_nat (slot_count w j (?oct (terms_of cols)))) (pm_buckets s)"
    using buckets by (intro nth_equalityI) simp_all
  then have "totals_of (bucket_octaves C w s) ! j = (\<Sum>cols\<leftarrow>pm_buckets s. of_nat (slot_count w j (?oct (terms_of cols))))"
    using totals_of_nth(2) [OF len assms(3)] by simp
  also have "\<dots> = of_nat (slot_count w j (octaves C s))"
  proof -
    have "(\<Sum>cols\<leftarrow>bs. of_nat (slot_count w j (?oct (terms_of cols)))) = (of_nat (slot_count w j (?oct (concat (map terms_of bs)))) :: u64)" for bs
      by (induction bs) (simp_all add: slot_count_def)
    then show ?thesis by (simp add: octaves_def sum_iter_def)
  qed
  finally show "totals_of (bucket_octaves C w s) ! j = of_nat (slot_count w j (octaves C s))" .
qed

section \<open>The edge, from the window\<close>

lemma slot_count_window:
  "j < WINDOW_OCTAVES \<Longrightarrow> slot_count w (Suc j) os = length (filter (\<lambda>o1. o1 = ow_base w + j) os)"
  "slot_count w (WINDOW_OCTAVES + 1) os = length (filter (\<lambda>o1. ow_base w + WINDOW_OCTAVES \<le> o1) os)"
  by (simp_all only: slot_count_def window_slot_eq)

lemma count_from:
  fixes os :: "nat list"
  assumes "a \<le> m"
  shows "length (filter (\<lambda>o1. base + m \<le> o1) os) + sum_list (map (\<lambda>j. length (filter (\<lambda>o1. o1 = base + j) os)) [a..<m]) =
    length (filter (\<lambda>o1. base + a \<le> o1) os)"
  using assms
proof (induction m rule: dec_induct)
  case (step m)
  have "length (filter (\<lambda>o1. base + m \<le> o1) os) = length (filter (\<lambda>o1. base + Suc m \<le> o1) os) + length (filter (\<lambda>o1. o1 = base + m) os)"
    by (induction os) auto
  with step show ?case by simp
qed simp

lemma count_mono: "(\<And>x. P x \<Longrightarrow> Q x) \<Longrightarrow> length (filter P xs) \<le> length (filter Q xs)"
  by (induction xs) auto

definition in_window :: "octave_window \<Rightarrow> edge_decision \<Rightarrow> bool" where
  "in_window w edge \<longleftrightarrow> (case edge of Boundary bin _ _ \<Rightarrow> ow_base w \<le> bin \<and> bin < ow_base w + WINDOW_OCTAVES | _ \<Rightarrow> True)"

lemma window_edge:
  assumes "edge_ok os n edge" "ow_base w + WINDOW_OCTAVES \<le> APPROX_BINS"
  shows "octave_edge_within (map (\<lambda>j. slot_count w (Suc j) os) [0..<WINDOW_OCTAVES]) (ow_base w)
      (slot_count w (WINDOW_OCTAVES + 1) os) (length os) n = (if in_window w edge then Some edge else None)"
  using assms(1)
proof (cases rule: edge_ok_cases)
  case (3 bin kept_above quota)
  let ?over = "slot_count w (WINDOW_OCTAVES + 1) os" and ?cnt = "\<lambda>j. length (filter (\<lambda>o1. o1 = ow_base w + j) os)"
  let ?from = "\<lambda>b. length (filter (\<lambda>o1. b \<le> o1) os)"
  have bins: "map (\<lambda>j. slot_count w (Suc j) os) [0..<WINDOW_OCTAVES] = map ?cnt [0..<WINDOW_OCTAVES]"
    by (simp add: slot_count_window)
  have tail: "?over + sum_list (map ?cnt [a..<WINDOW_OCTAVES]) = ?from (ow_base w + a)" if "a \<le> WINDOW_OCTAVES" for a
    using count_from [OF that] by (simp only: slot_count_window)
  have strict: "length (filter (\<lambda>b. bin < b) os) \<le> n" and loose: "n < ?from bin"
  proof -
    have "?from bin = length (filter (\<lambda>b. bin < b) os) + length (filter (\<lambda>b. b = bin) os)" by (induction os) auto
    then show "length (filter (\<lambda>b. bin < b) os) \<le> n" "n < ?from bin" using 3 by simp_all
  qed
  show ?thesis
  proof (cases "?over > n")
    case True
    have "\<not> bin < ow_base w + WINDOW_OCTAVES"
      using count_mono [of "\<lambda>o1. ow_base w + WINDOW_OCTAVES \<le> o1" "\<lambda>b. bin < b" os] strict True
      unfolding slot_count_window by auto
    with True 3 show ?thesis by (simp add: octave_edge_within_def in_window_def)
  next
    case False
    then have le: "?over \<le> n" by simp
    note walk = edge_walk_spec [OF le, of ?cnt WINDOW_OCTAVES "ow_base w"]
    have eq: "octave_edge_within (map (\<lambda>j. slot_count w (Suc j) os) [0..<WINDOW_OCTAVES]) (ow_base w) ?over (length os) n =
        edge_walk (rev (enumerate 0 (map ?cnt [0..<WINDOW_OCTAVES]))) (ow_base w) ?over n"
      unfolding bins using 3 le by (simp add: octave_edge_within_def)
    show ?thesis
    proof (cases "edge_walk (rev (enumerate 0 (map ?cnt [0..<WINDOW_OCTAVES]))) (ow_base w) ?over n")
      case None
      then have "?from (ow_base w) \<le> n" using walk tail [of 0] by simp
      then have "bin < ow_base w" using loose count_mono [of "\<lambda>o1. bin \<le> o1" "\<lambda>o1. ow_base w \<le> o1" os] by fastforce
      then show ?thesis unfolding eq None by (simp add: 3(1) in_window_def)
    next
      case (Some e)
      with walk obtain b where b: "b < WINDOW_OCTAVES" "let over = ?over + sum_list (map ?cnt [Suc b..<WINDOW_OCTAVES])
          in e = Boundary (ow_base w + b) over (n - over) \<and> over \<le> n \<and> n < over + ?cnt b" by auto
      have "edge_ok os n e"
        using b tail [of "Suc b"] 3(2,3) assms(2) by (auto simp: edge_ok_def Let_def Suc_le_eq)
      then have "edge = e" using edge_ok_unique assms(1) by blast
      with Some b show ?thesis unfolding eq by (auto simp: in_window_def Let_def)
    qed
  qed
qed (simp_all add: octave_edge_within_def in_window_def)

lemma allreduce_single: "allreduce_sum_u64 [b] = b"
  by (simp add: allreduce_sum_u64_def map_nth)

lemma group_slot_count: "slot_count w j (group_octaves C locals) = sum_list (map (\<lambda>s. slot_count w j (octaves C s)) locals)"
  by (induction locals) (simp_all add: group_octaves_def slot_count_def)

lemma window_packed:
  fixes C w locals
  assumes "group_ok W locals"
  defines "packed \<equiv> allreduce_sum_u64 (map (\<lambda>(local_len, per_bucket, totals). of_nat local_len # totals) (map (window_rank C w) locals))"
  shows "length packed = WINDOW_OCTAVES + 3" "unat (packed ! 0) = sum_list (map pm_len locals)"
    "j < WINDOW_OCTAVES + 2 \<Longrightarrow> unat (packed ! Suc j) = slot_count w j (group_octaves C locals)"
proof -
  let ?buf = "\<lambda>s. of_nat (pm_len s) # totals_of (bucket_octaves C w s) :: u64 list"
  have inv: "\<forall>s \<in> set locals. sum_inv W s" "locals \<noteq> []" "\<forall>s \<in> set locals. pm_len s < 2 ^ 32" "sum_list (map pm_len locals) < 2 ^ 64"
    using assms(1) by (simp_all add: group_ok_def)
  have packed: "packed = allreduce_sum_u64 (map ?buf locals)" by (simp add: packed_def window_rank_def comp_def)
  have slots: "0 < WINDOW_OCTAVES + 2" by simp
  have "length (?buf s) = WINDOW_OCTAVES + 3" if "s \<in> set locals" for s
    using window_totals_nth(2) [of W s 0 C w] inv that by simp
  then have hd: "length (hd (map ?buf locals)) = WINDOW_OCTAVES + 3" using inv(2) by (simp add: hd_map)
  then show "length packed = WINDOW_OCTAVES + 3" by (simp add: packed allreduce_sum_u64_def)
  have nth: "packed ! i = sum_list (map (\<lambda>s. ?buf s ! i) locals)" if "i < WINDOW_OCTAVES + 3" for i
    unfolding packed using that hd inv(2) by (subst allreduce_nth) (simp_all add: comp_def)
  have "packed ! 0 = sum_list (map of_nat (map pm_len locals))" using nth [of 0] by (simp add: comp_def)
  then show "unat (packed ! 0) = sum_list (map pm_len locals)" using unat_sum_of_nat [OF inv(4)] by simp
  assume j: "j < WINDOW_OCTAVES + 2"
  have "map (\<lambda>s. ?buf s ! Suc j) locals = map of_nat (map (\<lambda>s. slot_count w j (octaves C s)) locals)"
    
  proof (rule map_cong [OF refl, THEN trans [OF _ map_map [symmetric]], unfolded comp_def])
    fix s assume "s \<in> set locals"
    with inv have "sum_inv W s" "pm_len s < 2 ^ 32" by blast+
    from window_totals_nth(1) [OF this j] show "?buf s ! Suc j = of_nat (slot_count w j (octaves C s))" by simp
  qed
  moreover have "Suc j < WINDOW_OCTAVES + 3" using j by simp
  ultimately have "packed ! Suc j = sum_list (map of_nat (map (\<lambda>s. slot_count w j (octaves C s)) locals))"
    using nth by (simp only:)
  moreover have "sum_list (map (\<lambda>s. slot_count w j (octaves C s)) locals) < 2 ^ 64"
    using slot_count_le [of w j "group_octaves C locals"] inv(4) group_octaves_length [OF inv(1)] by (simp add: group_slot_count)
  ultimately show "unat (packed ! Suc j) = slot_count w j (group_octaves C locals)"
    by (simp only: unat_sum_of_nat group_slot_count)
qed

section \<open>The cut, from the window\<close>

lemma octave_counts_window:
  assumes "ow_base w \<le> bin" "bin < ow_base w + WINDOW_OCTAVES"
  shows "slot_count w (window_slot w bin) os = length (filter (\<lambda>b. b = bin) os)"
    "sum_list (map (\<lambda>j. slot_count w j os) [window_slot w bin + 1..<WINDOW_OCTAVES + 2]) = length (filter (\<lambda>b. bin < b) os)"
proof -
  have slot: "window_slot w o1 = window_slot w bin \<longleftrightarrow> o1 = bin" "window_slot w bin < window_slot w o1 \<longleftrightarrow> bin < o1" for o1
    using assms by (auto simp: window_slot_def WINDOW_OCTAVES_def)
  then show "slot_count w (window_slot w bin) os = length (filter (\<lambda>b. b = bin) os)" by (simp add: slot_count_def)
  show "sum_list (map (\<lambda>j. slot_count w j os) [window_slot w bin + 1..<WINDOW_OCTAVES + 2]) = length (filter (\<lambda>b. bin < b) os)"
    unfolding slot_count_def using window_slot_bound [of w]
    by (subst counts_above) (simp_all add: Suc_le_eq slot del: add_2_eq_Suc')
qed

lemma window_cut_ok:
  assumes "sum_inv W s" "pm_len s < 2 ^ 32" "ow_base w \<le> bin" "bin < ow_base w + WINDOW_OCTAVES"
  shows "\<exists>bcut. window_cut w bin (bucket_octaves C w s) (totals_of (bucket_octaves C w s)) q = Inr bcut \<and>
    sum_inv W (cut_apply C bcut s) \<and> pm_hash (cut_apply C bcut s) = pm_hash s \<and>
    sum_iter (cut_apply C bcut s) = cut_terms C (Boundary bin ka q) (sum_iter s) \<and>
    cut_kept bcut = length (filter (\<lambda>b. bin < b) (octaves C s)) + q"
proof -
  let ?tot = "totals_of (bucket_octaves C w s)" and ?slot = "window_slot w bin" and ?n = "length (pm_buckets s)"
  let ?cnt = "\<lambda>b. unat (bucket_octaves C w s ! b ! ?slot)" and ?side = "\<lambda>t. classify_octave (norm_sqr C (snd t)) bin"
  note slot = window_slot_bound [of w bin]
  have len: "length (octaves C s) < 2 ^ 32" "pm_len s \<le> usize_max" "length ?tot = WINDOW_OCTAVES + 2"
    "length (bucket_octaves C w s) = ?n"
    using assms(1,2) window_totals_nth(2,3) [OF assms(1,2) slot] by (simp_all add: octaves_def sum_inv_def usize_max_def)
  have cnt: "?cnt b = ties ?side (terms_of (pm_buckets s ! b))" if "b < ?n" for b
    using bucket_octaves_nth [OF assms(1,2) that slot] octave_counts_window(1) [OF assms(3,4)]
    by (simp add: filter_map comp_def classify_octave_def compare_nat_def cong: filter_cong)
  have "unat (?tot ! ?slot) = slot_count w ?slot (octaves C s)"
    using window_totals_nth(1) [OF assms(1,2) slot] slot_count_le [of w ?slot "octaves C s"] len(1) by (simp add: unat_of_nat)
  also have "\<dots> = ties ?side (sum_iter s)"
    using octave_counts_window(1) [OF assms(3,4)] by (simp only: classify_octave_ties(2))
  also have "\<dots> = sum_list (map ?cnt [0..<?n])"
  proof -
    have "ties ?side (concat L) = sum_list (map (ties ?side) L)" for L :: "'a pauli_term list list" by (induction L) simp_all
    from this [of "map terms_of (pm_buckets s)"] have "ties ?side (sum_iter s) = sum_list (map (ties ?side) (map terms_of (pm_buckets s)))"
      by (simp only: sum_iter_def)
    also have "map (ties ?side) (map terms_of (pm_buckets s)) = map ?cnt [0..<?n]"
      using cnt by (intro nth_equalityI) simp_all
    finally show ?thesis .
  qed
  finally obtain qs where qs: "quota_split_new ?cnt ?n (unat (?tot ! ?slot)) q = Inr qs" "split_ok ?cnt ?n q qs"
    using quota_split_ok by blast
  have "map (\<lambda>j. ?tot ! j) [?slot + 1..<WINDOW_OCTAVES + 2] = map of_nat (map (\<lambda>j. slot_count w j (octaves C s)) [?slot + 1..<WINDOW_OCTAVES + 2])"
    using window_totals_nth(1) [OF assms(1,2)] by (simp del: upt_Suc add_2_eq_Suc')
  moreover have "drop (?slot + 1) ?tot = map (\<lambda>j. ?tot ! j) [?slot + 1..<WINDOW_OCTAVES + 2]"
    using len(3) by (intro nth_equalityI) (simp_all del: upt_Suc add_2_eq_Suc')
  moreover have "length (filter (\<lambda>b. bin < b) (octaves C s)) < 2 ^ 64"
    by (rule order.strict_trans1 [OF length_filter_le]) (use len(1) in simp)
  ultimately have "unat (sum_list (drop (?slot + 1) ?tot)) = length (filter (\<lambda>b. bin < b) (octaves C s))"
    using octave_counts_window(2) [OF assms(3,4)] by (simp only: unat_sum_of_nat)
  moreover note retain_split_keeps [OF assms(1) len(2) qs(2) cnt]
  ultimately show ?thesis
    using qs(1) len(4) by (auto simp: window_cut_def Let_def cut_apply_def cut_filter_def [abs_def] cut_terms_def)
qed

text \<open>Cutting one bucket at a time is cutting the sum.\<close>

lemma apply_to_bucket_eq:
  assumes "b < length (pm_buckets s)"
  shows "pm_buckets (cut_apply C bcut s) ! b = apply_to_bucket C bcut b (pm_buckets s ! b)"
  using assms by (simp add: cut_apply_def apply_to_bucket_def retain_per_bucket_def update_per_bucket_def recount_def
      columns_retain_def)

lemma group_window_totals:
  assumes "group_ok W locals" "ow_base w \<le> bin" "bin < ow_base w + WINDOW_OCTAVES"
  shows "map (\<lambda>(_, _, totals). unat (totals ! window_slot w bin)) (map (window_rank C w) locals) = map (\<lambda>s. octave_count C s bin) locals"
proof -
  have "unat (totals_of (bucket_octaves C w s) ! window_slot w bin) = octave_count C s bin" if "s \<in> set locals" for s
  proof -
    have s: "sum_inv W s" "pm_len s < 2 ^ 32" using assms(1) that by (auto simp: group_ok_def)
    have "octave_count C s bin < 2 ^ 64" using octave_count_le [OF s(1), of C bin] s(2) by simp
    then show ?thesis
      using window_totals_nth(1) [OF s window_slot_bound] octave_counts_window(1) [OF assms(2,3)]
      by (simp add: octave_count_eq unat_of_nat)
  qed
  then show ?thesis by (simp add: window_rank_def)
qed

text \<open>What the decision promises of rank \<open>i\<close>'s cut.\<close>

definition cut_matches :: "'c coefficient \<Rightarrow> edge_decision \<Rightarrow> 'c pauli_sum \<Rightarrow> 'c pauli_sum \<Rightarrow> boundary_cut option \<Rightarrow> bool" where
  "cut_matches C edge s s' c \<longleftrightarrow>
     (case c of
        None \<Rightarrow> edge = KeepAll \<or> edge = Clear
      | Some bcut \<Rightarrow> edge \<noteq> KeepAll \<and> edge \<noteq> Clear \<and> sum_iter (cut_apply C bcut s) = sum_iter s' \<and> pm_hash (cut_apply C bcut s) = pm_hash s' \<and>
          pm_len (cut_apply C bcut s) = pm_len s' \<and> cut_kept bcut = pm_len s')"

lemma window_cuts_ok:
  assumes "group_ok W locals" "edge = Boundary bin ka q" "ow_base w \<le> bin" "bin < ow_base w + WINDOW_OCTAVES"
    "group_cut W C edge locals locals'"
  shows "\<exists>cuts. map_result (\<lambda>((_, per_bucket, totals), local_quota).
        and_then (window_cut w bin per_bucket totals local_quota) (\<lambda>bcut. Inr (Some bcut)))
      (zip (map (window_rank C w) locals) (rank_quotas C edge locals)) = Inr cuts \<and> length cuts = length locals \<and>
    (\<forall>i < length locals. cut_matches C edge (locals ! i) (locals' ! i) (cuts ! i))"
proof -
  let ?f = "\<lambda>((_, per_bucket, totals), local_quota). and_then (window_cut w bin per_bucket totals local_quota) (\<lambda>bcut. Inr (Some bcut))"
  let ?xs = "zip (map (window_rank C w) locals) (rank_quotas C edge locals)"
  have len: "length ?xs = length locals" using cut_terms_ranks(1) [OF assms(1)] by simp
  have "\<exists>y. ?f (?xs ! i) = Inr y \<and> cut_matches C edge (locals ! i) (locals' ! i) y" if "i < length ?xs" for i
  proof -
    have i: "i < length locals" using that len by simp
    then have s: "sum_inv W (locals ! i)" "pm_len (locals ! i) < 2 ^ 32" using assms(1) by (simp_all add: group_ok_def)
    let ?q = "rank_quotas C edge locals ! i"
    obtain bcut where bcut: "window_cut w bin (bucket_octaves C w (locals ! i)) (totals_of (bucket_octaves C w (locals ! i))) ?q = Inr bcut"
        "sum_inv W (cut_apply C bcut (locals ! i))" "pm_hash (cut_apply C bcut (locals ! i)) = pm_hash (locals ! i)"
        "sum_iter (cut_apply C bcut (locals ! i)) = cut_terms C (Boundary bin ka ?q) (sum_iter (locals ! i))"
        "cut_kept bcut = length (filter (\<lambda>b. bin < b) (octaves C (locals ! i))) + ?q"
      using window_cut_ok [OF s assms(3,4)] by blast
    have rank: "sum_inv W (locals' ! i)" "pm_hash (locals' ! i) = pm_hash (locals ! i)"
        "sum_iter (locals' ! i) = cut_terms C (Boundary bin ka ?q) (sum_iter (locals ! i))"
      using assms(2,5) i by (auto simp: group_cut_def with_quota_def)
    have "?q \<le> ties (\<lambda>t. classify_octave (norm_sqr C (snd t)) bin) (sum_iter (locals ! i))"
      using rank_quotas_le [OF assms(1) i, of C edge] unfolding assms(2) classify_octave_ties(2) octave_count_eq by simp
    then have "pm_len (locals' ! i) = cut_kept bcut"
      using rank bcut(5) classify_octave_ties(1) [of C bin "locals ! i"]
      by (simp add: sum_inv_def cut_terms_def length_keep_first min_absorb1)
    moreover have "?f (?xs ! i) = Inr (Some bcut)"
      using i cut_terms_ranks(1) [OF assms(1)] bcut(1) by (simp add: window_rank_def)
    ultimately show ?thesis using bcut(2-4) rank assms(2) by (auto simp: cut_matches_def sum_inv_def)
  qed
  from map_result_ex [of ?xs ?f, OF this] len show ?thesis by auto
qed

lemma decide_window_ok:
  assumes "group_ok W locals"
  shows "\<exists>edge locals'. approx_top_n_pass C threads n locals = Inr (map (\<lambda>l. (l, edge, sum_list (map pm_len locals))) locals') \<and>
    edge_ok (group_octaves C locals) n edge \<and> group_cut W C edge locals locals' \<and>
    (if in_window (window_around bin0) edge
     then \<exists>cuts. decide_from_window n (window_around bin0) (map (window_rank C (window_around bin0)) locals) =
         Inr (Some (map (\<lambda>c. (edge, sum_list (map pm_len locals), c)) cuts)) \<and>
       length cuts = length locals \<and> (\<forall>i < length locals. cut_matches C edge (locals ! i) (locals' ! i) (cuts ! i))
     else decide_from_window n (window_around bin0) (map (window_rank C (window_around bin0)) locals) = Inr None)"
proof -
  define w where "w = window_around bin0"
  let ?ranks = "map (window_rank C w) locals" and ?total = "sum_list (map pm_len locals)"
  have base: "ow_base w + WINDOW_OCTAVES \<le> APPROX_BINS" by (simp add: w_def window_around_def WINDOW_OCTAVES_def APPROX_BINS_def)
  obtain locals' edge where pass: "approx_top_n_pass C threads n locals = Inr (map (\<lambda>s. (s, edge, ?total)) locals')"
      "edge_ok (group_octaves C locals) n edge" "group_cut W C edge locals locals'"
    using approx_top_n_pass_ok [OF assms] by blast
  have os: "length (group_octaves C locals) = ?total" and ne: "locals \<noteq> []"
    using assms by (auto simp: group_ok_def intro: group_octaves_length)
  let ?bufs = "map (\<lambda>(local_len, per_bucket, totals). of_nat local_len # totals) ?ranks :: u64 list list"
  let ?packed = "allreduce_sum_u64 ?bufs"
  have packed: "(if length ?ranks > 1 then ?packed else hd ?bufs) = ?packed"
    using ne by (cases locals) (auto simp: allreduce_single)
  note buf = window_packed [OF assms, where C = C and w = w]
  have bins: "map unat (take WINDOW_OCTAVES (drop 2 ?packed)) = map (\<lambda>j. slot_count w (Suc j) (group_octaves C locals)) [0..<WINDOW_OCTAVES]"
    by (rule nth_equalityI) (use buf in \<open>simp_all add: numeral_2_eq_2\<close>)
  have over: "unat (?packed ! (WINDOW_OCTAVES + 2)) = slot_count w (WINDOW_OCTAVES + 1) (group_octaves C locals)"
    using buf(3) [of "WINDOW_OCTAVES + 1"] by simp
  have decide: "decide_from_window n w ?ranks = (if in_window w edge
      then and_then (case edge of
             Boundary bin kept_above quota \<Rightarrow> map_result (\<lambda>((_, per_bucket, totals), local_quota).
                 and_then (window_cut w bin per_bucket totals local_quota) (\<lambda>bcut. Inr (Some bcut)))
               (zip ?ranks (local_boundary_quotas (map (\<lambda>(_, _, totals). unat (totals ! window_slot w bin)) ?ranks) quota))
           | _ \<Rightarrow> Inr (replicate (length ?ranks) None)) (\<lambda>cuts. Inr (Some (map (\<lambda>bcut. (edge, ?total, bcut)) cuts)))
      else Inr None)"
    unfolding decide_from_window_def Let_def packed bins over buf(2)
    using window_edge [OF pass(2) base] by (simp only: os) simp
  have "\<exists>cuts. decide_from_window n w ?ranks = Inr (Some (map (\<lambda>c. (edge, ?total, c)) cuts)) \<and>
      length cuts = length locals \<and> (\<forall>i < length locals. cut_matches C edge (locals ! i) (locals' ! i) (cuts ! i))"
    if inside: "in_window w edge"
  proof (cases "edge = KeepAll \<or> edge = Clear")
    case True
    with decide inside show ?thesis
      by (intro exI [of _ "replicate (length locals) None"]) (auto simp: cut_matches_def)
  next
    case False
    then obtain bin ka q where Boundary: "edge = Boundary bin ka q" by (cases edge) auto
    then have bin: "ow_base w \<le> bin" "bin < ow_base w + WINDOW_OCTAVES" using inside by (simp_all add: in_window_def)
    have "decide_from_window n w ?ranks = and_then (map_result (\<lambda>((_, per_bucket, totals), local_quota).
          and_then (window_cut w bin per_bucket totals local_quota) (\<lambda>bcut. Inr (Some bcut))) (zip ?ranks (rank_quotas C edge locals)))
        (\<lambda>cuts. Inr (Some (map (\<lambda>bcut. (edge, ?total, bcut)) cuts)))"
      unfolding decide using inside group_window_totals [OF assms bin, of C]
      by (simp only: Boundary if_True edge_decision.case rank_quotas_def)
    with window_cuts_ok [OF assms Boundary bin pass(3)] show ?thesis by auto
  qed
  moreover have "decide_from_window n w ?ranks = Inr None" if "\<not> in_window w edge" using decide that by simp
  ultimately show ?thesis
    unfolding w_def [symmetric] using pass by (intro exI [of _ edge] exI [of _ locals']) (cases "in_window w edge"; simp)
qed

text \<open>
  C36. Deciding from the window is deciding from the full histogram. When every rank of a group counts its buckets in a
  window of 64 octaves, \<open>decide_from_window\<close> never panics; it answers \<open>None\<close>, on every rank, exactly when the boundary
  octave of the \<open>ApproxTopN\<close> pass lies outside the window, and otherwise the edge and the length that pass reports, with,
  at a boundary, a cut for every rank that leaves the terms the pass leaves there and announces their number.
\<close>

theorem decide_from_window_exact:
  assumes "group_ok W locals"
  shows "\<exists>edge locals'. approx_top_n_pass C threads n locals = Inr (map (\<lambda>l. (l, edge, sum_list (map pm_len locals))) locals') \<and>
    (if in_window (window_around bin0) edge
     then \<exists>cuts. decide_from_window n (window_around bin0) (map (window_rank C (window_around bin0)) locals) =
         Inr (Some (map (\<lambda>c. (edge, sum_list (map pm_len locals), c)) cuts)) \<and>
       length cuts = length locals \<and> (\<forall>i < length locals. cut_matches C edge (locals ! i) (locals' ! i) (cuts ! i))
     else decide_from_window n (window_around bin0) (map (window_rank C (window_around bin0)) locals) = Inr None)"
  using decide_window_ok [OF assms, of C threads n bin0] by blast

theorem decide_from_window_exact_witness:
  "\<exists>d. decide_from_window 1 (window_around 1024)
    (map (window_rank complex_coefficient (window_around 1024)) [example_sum 1, sum_clear (example_sum 1)]) = Inr d"
  using decide_from_window_exact [OF example_group(1), of complex_coefficient 3 1 1024] by (metis (no_types, lifting))

end
