(* ===== verification/Collapse_Sample.thy ===== *)
theory Collapse_Sample
  imports Approx_Top_N
begin

unbundle bit_operations_syntax

text \<open>
  \<open>CollapseSample\<close> of \<open>truncation/builtin.rs\<close>: the sum is replaced by one string drawn by weight. The two atomic counters
  of a policy live in a store, one entry per policy object; a policy names its entry, as an \<open>Arc\<close> would, and each rank
  has its own store. Weights are real numbers, so a total is always finite.
\<close>

section \<open>The code\<close>

record sample_counters =
  sc_calls :: u64
  sc_collapses :: u64

type_synonym samples = "sample_counters list"

record collapse_sample =
  cs_cache :: nat
  cs_seed :: u64
  cs_slot :: nat

text \<open>A new policy has zeroed counters at the end of the store.\<close>

definition collapse_sample_new :: "nat \<Rightarrow> u64 \<Rightarrow> samples \<Rightarrow> collapse_sample \<times> samples" where
  "collapse_sample_new cache seed st =
     (\<lparr>cs_cache = cache, cs_seed = seed, cs_slot = length st\<rparr>, st @ [\<lparr>sc_calls = 0, sc_collapses = 0\<rparr>])"

definition collapses :: "collapse_sample \<Rightarrow> samples \<Rightarrow> u64" where
  "collapses p st = sc_collapses (st ! cs_slot p)"

definition next_call :: "collapse_sample \<Rightarrow> samples \<Rightarrow> u64 \<times> samples" where
  "next_call p st =
     (sc_calls (st ! cs_slot p), st[cs_slot p := (st ! cs_slot p)\<lparr>sc_calls := sc_calls (st ! cs_slot p) + 1\<rparr>])"

definition count_collapse :: "collapse_sample \<Rightarrow> samples \<Rightarrow> u64 \<times> samples" where
  "count_collapse p st =
     (sc_collapses (st ! cs_slot p) + 1,
      st[cs_slot p := (st ! cs_slot p)\<lparr>sc_collapses := sc_collapses (st ! cs_slot p) + 1\<rparr>])"

definition collapse_target :: "collapse_sample \<Rightarrow> u64 \<Rightarrow> real \<Rightarrow> real result" where
  "collapse_target p call in_all =
     and_then (assert_that (in_all > 0) NoWeight) (\<lambda>_. Inr (snd (uniform (from_key [cs_seed p, call])) * in_all))"

definition bucket_norms :: "'c coefficient \<Rightarrow> 'c pauli_sum \<Rightarrow> real list" where
  "bucket_norms C s = map (\<lambda>cols. sum_list (map (norm_sqr C) (col_coeff cols))) (pm_buckets s)"

fun pick_loop :: "real list \<Rightarrow> nat \<Rightarrow> real \<Rightarrow> real \<Rightarrow> (nat \<times> real) option \<Rightarrow> (nat \<times> real) option" where
  "pick_loop [] i cumulative target last_seen = last_seen"
| "pick_loop (w # ws) i cumulative target last_seen =
     (if w > 0 then
        if target < cumulative + w then Some (i, target - cumulative)
        else pick_loop ws (i + 1) (cumulative + w) target (Some (i, target - cumulative))
      else pick_loop ws (i + 1) (cumulative + w) target last_seen)"

definition pick_slot :: "real list \<Rightarrow> real \<Rightarrow> (nat \<times> real) option" where
  "pick_slot weights target = pick_loop weights 0 0 target None"

definition collapse_to_target :: "'c coefficient \<Rightarrow> 'c pauli_sum \<Rightarrow> real list \<Rightarrow> real \<Rightarrow> 'c pauli_sum result" where
  "collapse_to_target C s norms target =
     (case pick_slot norms target of
        None \<Rightarrow> Inl ExpectFailed
      | Some (b, rest) \<Rightarrow>
          (case pick_slot (map (norm_sqr C) (col_coeff (pm_buckets s ! b))) rest of
             None \<Rightarrow> Inl ExpectFailed
           | Some (pos, _) \<Rightarrow>
               let k = (col_x (pm_buckets s ! b) ! pos, col_z (pm_buckets s ! b) ! pos);
                   s = sum_clear s
               in Inr (recount (s\<lparr>pm_buckets := (pm_buckets s)[b := columns_push (pm_buckets s ! b) k (c_one C)]\<rparr>))))"

definition collapse_finalize :: "'c coefficient \<Rightarrow> collapse_sample \<Rightarrow> (samples, 'c) layer_pass" where
  "collapse_finalize C p = (\<lambda>(st, s).
     let (call, st) = next_call p st
     in if pm_len s \<le> cs_cache p then Inr (st, s)
        else let norms = bucket_norms C s
             in and_then (collapse_target p call (sum_list norms)) (\<lambda>target.
                and_then (collapse_to_target C s norms target) (\<lambda>s.
                Inr (snd (count_collapse p st), s))))"

definition allreduce_sum_f64 :: "real list list \<Rightarrow> real list" where
  "allreduce_sum_f64 buffers = map (\<lambda>i. sum_list (map (\<lambda>b. b ! i) buffers)) [0..<length (hd buffers)]"

text \<open>The update of rank 0's own store, by the policy's counters.\<close>

definition at_rank_0 :: "(samples \<Rightarrow> samples) \<Rightarrow> (samples \<times> 'c pauli_sum) list \<Rightarrow> (samples \<times> 'c pauli_sum) list" where
  "at_rank_0 f ranks = (case ranks of [] \<Rightarrow> [] | (st, s) # rest \<Rightarrow> (f st, s) # rest)"

definition collapse_partitioned :: "'c coefficient \<Rightarrow> collapse_sample \<Rightarrow> (samples, 'c) group_pass" where
  "collapse_partitioned C p ranks =
     (if length ranks = 1 then map_result (collapse_finalize C p) ranks
      else let size = length ranks;
               heads = map (\<lambda>rank. [of_nat (pm_len (snd (ranks ! rank))),
                   if rank = 0 then fst (next_call p (fst (ranks ! rank))) else 0]) [0..<size];
               ranks = at_rank_0 (\<lambda>st. snd (next_call p st)) ranks;
               head = allreduce_sum_u64 heads;
               len = head ! 0; call = head ! 1
           in if unat len \<le> cs_cache p then Inr ranks
              else let weights = allreduce_sum_f64 (map (\<lambda>rank.
                         (replicate size 0)[rank := sum_list (bucket_norms C (snd (ranks ! rank)))]) [0..<size])
                   in and_then (collapse_target p call (sum_list weights)) (\<lambda>target.
                      case pick_slot weights target of
                        None \<Rightarrow> Inl ExpectFailed
                      | Some (chosen, rest) \<Rightarrow>
                          and_then (map_result (\<lambda>(rank, st, s).
                              if rank = chosen
                              then and_then (collapse_to_target C s (bucket_norms C s) rest) (\<lambda>s. Inr (st, s))
                              else Inr (st, sum_clear s)) (enumerate 0 ranks)) (\<lambda>ranks.
                          Inr (at_rank_0 (\<lambda>st. snd (count_collapse p st)) ranks))))"

definition collapse_policy :: "'c coefficient \<Rightarrow> collapse_sample \<Rightarrow> (samples, 'c) truncation_policy" where
  "collapse_policy C p =
     \<lparr>keep_term = \<lambda>x z c. True, coefficient_floor = - 1, finalize_layer = collapse_finalize C p,
      finalizes_layer = Inr True, finalize_layer_partitioned = collapse_partitioned C p,
      supports_partitioned = Inr True, fused_pass = Inr None\<rparr>"

section \<open>Picking a slot\<close>

lemma uniform_range: "0 \<le> snd (uniform g)" "snd (uniform g) < 1"
proof -
  obtain g' w where w: "next_u64 g = (g', w)" by (cases "next_u64 g")
  have "unat (drop_bit 11 w) < 2 ^ 53"
  proof -
    have "unat w < 2 ^ 53 * 2 ^ 11" using unsigned_less [of w] by simp
    then show ?thesis
      unfolding unat_drop_bit_eq unfolding drop_bit_eq_div by (rule less_mult_imp_div_less)
  qed
  then have "real (unat (drop_bit 11 w)) < 2 ^ 53" by (metis of_nat_less_iff of_nat_numeral of_nat_power)
  moreover have "unat (push_bit 53 (1 :: u64)) = 2 ^ 53" by simp
  ultimately show "0 \<le> snd (uniform g)" "snd (uniform g) < 1"
    by (simp_all add: uniform_def w divide_less_eq del: of_nat_unat)
qed

lemma pick_loop_ok:
  assumes "\<forall>w \<in> set ws. 0 \<le> w" "cum \<le> target" "target < cum + sum_list ws"
  shows "\<exists>i < length ws. pick_loop ws k cum target l = Some (k + i, target - (cum + sum_list (take i ws))) \<and>
    cum + sum_list (take i ws) \<le> target \<and> target < cum + sum_list (take i ws) + ws ! i"
  using assms
proof (induction ws arbitrary: k cum l)
  case (Cons w ws)
  show ?case
  proof (cases "target < cum + w")
    case True
    then show ?thesis using Cons.prems by (intro exI [of _ 0]) simp
  next
    case False
    have "\<exists>i < length ws. pick_loop ws (k + 1) (cum + w) target l' = Some (k + 1 + i, target - (cum + w + sum_list (take i ws))) \<and>
        cum + w + sum_list (take i ws) \<le> target \<and> target < cum + w + sum_list (take i ws) + ws ! i" for l'
      by (rule Cons.IH) (use Cons.prems False in auto)
    moreover have "w > 0 \<or> w = 0" using Cons.prems by auto
    ultimately have "\<exists>i < length ws. pick_loop (w # ws) k cum target l = Some (k + 1 + i, target - (cum + w + sum_list (take i ws))) \<and>
        cum + w + sum_list (take i ws) \<le> target \<and> target < cum + w + sum_list (take i ws) + ws ! i"
      using False by auto
    then obtain i where "i < length ws" "pick_loop (w # ws) k cum target l = Some (k + 1 + i, target - (cum + w + sum_list (take i ws)))"
        "cum + w + sum_list (take i ws) \<le> target" "target < cum + w + sum_list (take i ws) + ws ! i" by blast
    then show ?thesis by (intro exI [of _ "Suc i"]) (simp add: add.assoc)
  qed
qed simp

lemma pick_slot_ok:
  assumes "\<forall>w \<in> set ws. 0 \<le> w" "0 \<le> target" "target < sum_list ws"
  obtains i where "i < length ws" "pick_slot ws target = Some (i, target - sum_list (take i ws))"
    "sum_list (take i ws) \<le> target" "target < sum_list (take i ws) + ws ! i"
  using pick_loop_ok [of ws 0 target 0 None] assms that unfolding pick_slot_def by auto

section \<open>The drawn term\<close>

definition weight_of :: "'c coefficient \<Rightarrow> 'c pauli_term list \<Rightarrow> real" where
  "weight_of C ts = sum_list (map (\<lambda>t. norm_sqr C (snd t)) ts)"

text \<open>The term whose stretch of the cumulative weight contains the target.\<close>

definition drawn :: "'c coefficient \<Rightarrow> real \<Rightarrow> 'c pauli_term list \<Rightarrow> key \<Rightarrow> bool" where
  "drawn C target ts k \<longleftrightarrow>
     (\<exists>pre c post. ts = pre @ (k, c) # post \<and> weight_of C pre \<le> target \<and> target < weight_of C pre + norm_sqr C c)"

lemma weight_of_simps [simp]:
  "weight_of C [] = 0" "weight_of C (t # ts) = norm_sqr C (snd t) + weight_of C ts"
  "weight_of C (xs @ ys) = weight_of C xs + weight_of C ys"
  by (simp_all add: weight_of_def)

lemma weight_of_concat: "weight_of C (concat L) = sum_list (map (weight_of C) L)"
  by (induction L) simp_all

text \<open>At most one term is drawn: the stretches are disjoint.\<close>

lemma drawn_unique:
  assumes "drawn C target ts k" "drawn C target ts k'" "\<And>c. 0 \<le> norm_sqr C c"
  shows "k = k'"
proof -
  have nonneg: "0 \<le> weight_of C us" for us using assms(3) by (induction us) (simp_all add: add_nonneg_nonneg)
  from assms(1) obtain pre c post where a: "ts = pre @ (k, c) # post" "weight_of C pre \<le> target" "target < weight_of C pre + norm_sqr C c"
    unfolding drawn_def by blast
  from assms(2) obtain pre' c' post' where b: "ts = pre' @ (k', c') # post'" "weight_of C pre' \<le> target" "target < weight_of C pre' + norm_sqr C c'"
    unfolding drawn_def by blast
  have "pre @ (k, c) # post = pre' @ (k', c') # post'" using a(1) b(1) by simp
  then consider "pre = pre'" "k = k'" | us where "pre' = pre @ (k, c) # us" | us where "pre = pre' @ (k', c') # us"
    by (auto simp: append_eq_append_conv2 append_eq_Cons_conv Cons_eq_append_conv)
  then show ?thesis
  proof cases
    case (2 us)
    then show ?thesis using a(3) b(2) nonneg [of us] by simp
  next
    case (3 us)
    then show ?thesis using a(2) b(3) nonneg [of us] by simp
  qed
qed

text \<open>Drawing a part first and a term in it second is drawing from the whole.\<close>

lemma drawn_concat:
  assumes "b < length L" "weight_of C (concat (take b L)) \<le> target"
    "drawn C (target - weight_of C (concat (take b L))) (L ! b) k"
  shows "drawn C target (concat L) k"
proof -
  obtain pre c post where "L ! b = pre @ (k, c) # post"
      "weight_of C pre \<le> target - weight_of C (concat (take b L))"
      "target - weight_of C (concat (take b L)) < weight_of C pre + norm_sqr C c"
    using assms(3) unfolding drawn_def by blast
  moreover have "concat L = concat (take b L) @ L ! b @ concat (drop (Suc b) L)"
    using assms(1) by (metis append_take_drop_id Cons_nth_drop_Suc concat_append concat.simps(2))
  ultimately show ?thesis
    unfolding drawn_def by (intro exI [of _ "concat (take b L) @ pre"] exI [of _ c] exI [of _ "post @ concat (drop (Suc b) L)"]) simp
qed

section \<open>Collapsing a sum\<close>

lemma bucket_norms_eq:
  assumes "sum_inv W s"
  shows "bucket_norms C s = map (weight_of C) (map terms_of (pm_buckets s))"
    "b < length (pm_buckets s) \<Longrightarrow> map (norm_sqr C) (col_coeff (pm_buckets s ! b)) = map (\<lambda>t. norm_sqr C (snd t)) (terms_of (pm_buckets s ! b))"
    "sum_list (bucket_norms C s) = weight_of C (sum_iter s)"
proof -
  have coeff: "map (norm_sqr C) (col_coeff cols) = map (\<lambda>t. norm_sqr C (snd t)) (terms_of cols)" if "cols \<in> set (pm_buckets s)" for cols
  proof -
    have "col_coeff cols = map snd (terms_of cols)" using assms that by (simp add: terms_of_def wf_columns_def sum_inv_def)
    then show ?thesis by simp
  qed
  then show norms: "bucket_norms C s = map (weight_of C) (map terms_of (pm_buckets s))"
    by (simp add: bucket_norms_def weight_of_def)
  show "b < length (pm_buckets s) \<Longrightarrow> map (norm_sqr C) (col_coeff (pm_buckets s ! b)) = map (\<lambda>t. norm_sqr C (snd t)) (terms_of (pm_buckets s ! b))"
    using coeff nth_mem by blast
  show "sum_list (bucket_norms C s) = weight_of C (sum_iter s)"
    by (simp only: norms sum_iter_def weight_of_concat)
qed

lemma pick_term:
  assumes "\<And>c. 0 \<le> norm_sqr C c" "0 \<le> target" "target < weight_of C ts"
  obtains i r where "i < length ts" "pick_slot (map (\<lambda>t. norm_sqr C (snd t)) ts) target = Some (i, r)" "drawn C target ts (fst (ts ! i))"
proof -
  let ?ws = "map (\<lambda>t. norm_sqr C (snd t)) ts"
  have ws: "\<forall>w \<in> set ?ws. 0 \<le> w" "target < sum_list ?ws" using assms(1,3) by (auto simp: weight_of_def)
  from pick_slot_ok [OF ws(1) assms(2) ws(2)] obtain i where i: "i < length ?ws" "pick_slot ?ws target = Some (i, target - sum_list (take i ?ws))"
      "sum_list (take i ?ws) \<le> target" "target < sum_list (take i ?ws) + ?ws ! i" .
  have "drawn C target ts (fst (ts ! i))"
    unfolding drawn_def using i(1,3,4) id_take_nth_drop [of i ts]
    by (intro exI [of _ "take i ts"] exI [of _ "snd (ts ! i)"] exI [of _ "drop (Suc i) ts"]) (simp add: weight_of_def take_map)
  with i(1,2) that show thesis by simp
qed

text \<open>A sum cleared and given one term in its bucket.\<close>

lemma single_term_ok:
  fixes s c
  assumes "sum_inv W s" "b < length (pm_buckets s)" "k \<in> fst ` set (terms_of (pm_buckets s ! b))"
  defines "cleared \<equiv> sum_clear s"
  defines "s' \<equiv> recount (cleared\<lparr>pm_buckets := (pm_buckets cleared)[b := columns_push (pm_buckets cleared ! b) k c]\<rparr>)"
  shows "sum_inv W s'" "sum_iter s' = [(k, c)]" "pm_hash s' = pm_hash s" "pm_num_qubits s' = pm_num_qubits s"
proof -
  let ?n = "length (pm_buckets s)"
  have push: "terms_of (columns_push (columns_clear cols) k c) = [(k, c)]" "wf_columns (columns_push (columns_clear cols) k c)"
      "terms_of (columns_clear cols) = []" "wf_columns (columns_clear cols)" for cols :: "'a bucket_columns"
    by (simp_all add: terms_of_def columns_push_def columns_clear_def wf_columns_def)
  have buckets: "pm_buckets s' = (map columns_clear (pm_buckets s))[b := columns_push (columns_clear (pm_buckets s ! b)) k c]"
    using assms(2) by (simp add: s'_def cleared_def recount_def sum_clear_def)
  have terms: "map terms_of (pm_buckets s') = (replicate ?n [])[b := [(k, c)]]"
    unfolding buckets by (rule nth_equalityI) (use assms(2) in \<open>auto simp: nth_list_update push\<close>)
  show iter: "sum_iter s' = [(k, c)]"
    using assms(2) by (simp add: sum_iter_def terms upd_conv_take_nth_drop concat_eq_Nil_conv)
  show same: "pm_hash s' = pm_hash s" "pm_num_qubits s' = pm_num_qubits s"
    by (simp_all add: s'_def cleared_def recount_def sum_clear_def)
  have k: "bucket_ix (pm_hash s) k = b" "key_ok W (pm_num_qubits s) k"
    using sum_inv_bucket(3) [OF assms(1,2)] assms(3) by auto
  have wf: "\<forall>cols \<in> set (pm_buckets s'). wf_columns cols"
    unfolding buckets using push assms(2) by (auto simp: in_set_conv_nth nth_list_update)
  have "bucketed (bucket_ix (pm_hash s)) (map terms_of (pm_buckets s'))"
    unfolding terms bucketed_def using k(1) assms(2) by (auto simp: nth_list_update run_def)
  moreover have "pm_len s' = 1"
    using sum_len_eq [OF wf] iter by (simp add: sum_iter_def) (simp add: s'_def recount_def)
  ultimately show "sum_inv W s'"
    using assms(1) wf k(2) iter by (simp add: sum_inv_def same buckets)
qed

lemma collapse_to_target_ok:
  assumes "sum_inv W s" "\<And>c. 0 \<le> norm_sqr C c" "0 \<le> target" "target < weight_of C (sum_iter s)"
  shows "\<exists>s' k. collapse_to_target C s (bucket_norms C s) target = Inr s' \<and> sum_inv W s' \<and> pm_hash s' = pm_hash s \<and>
    sum_iter s' = [(k, c_one C)] \<and> drawn C target (sum_iter s) k"
proof -
  let ?L = "map terms_of (pm_buckets s)"
  have nonneg: "\<forall>w \<in> set (bucket_norms C s). 0 \<le> w"
    using assms(2) by (auto simp: bucket_norms_def intro!: sum_list_nonneg)
  have "target < sum_list (bucket_norms C s)" using assms(4) bucket_norms_eq(3) [OF assms(1)] by simp
  from pick_slot_ok [OF nonneg assms(3) this] obtain b where b: "b < length (pm_buckets s)"
      "pick_slot (bucket_norms C s) target = Some (b, target - sum_list (take b (bucket_norms C s)))"
      "sum_list (take b (bucket_norms C s)) \<le> target" "target < sum_list (take b (bucket_norms C s)) + bucket_norms C s ! b"
    by (auto simp: bucket_norms_def)
  have prefix: "sum_list (take b (bucket_norms C s)) = weight_of C (concat (take b ?L))"
    unfolding bucket_norms_eq(1) [OF assms(1)] take_map weight_of_concat by (simp add: take_map)
  let ?rest = "target - weight_of C (concat (take b ?L))" and ?ts = "terms_of (pm_buckets s ! b)"
  have "0 \<le> ?rest" "?rest < weight_of C ?ts"
    using b(1,3,4) prefix bucket_norms_eq(1) [OF assms(1), of C] by simp_all
  from pick_term [OF assms(2) this] obtain i r where i: "i < length ?ts"
      "pick_slot (map (\<lambda>t. norm_sqr C (snd t)) ?ts) ?rest = Some (i, r)" "drawn C ?rest ?ts (fst (?ts ! i))" .
  have "(col_x (pm_buckets s ! b) ! i, col_z (pm_buckets s ! b) ! i) = fst (?ts ! i)"
    using sum_inv_bucket(1) [OF assms(1) b(1)] i(1) by (simp add: terms_of_def wf_columns_def)
  moreover have "drawn C target (sum_iter s) (fst (?ts ! i))"
    unfolding sum_iter_def using b(1,3) i(3) prefix by (intro drawn_concat [of b]) simp_all
  moreover have "fst (?ts ! i) \<in> fst ` set ?ts" using i(1) by simp
  note single_term_ok [OF assms(1) b(1) this, of "c_one C"]
  ultimately show ?thesis
    using b(2) i(2) bucket_norms_eq(2) [OF assms(1) b(1), of C] prefix
    by (auto simp: collapse_to_target_def Let_def simp del: split_paired_Ex)
qed

section \<open>A group of partitions draws as one sum would\<close>

definition sample_at :: "collapse_sample \<Rightarrow> samples \<Rightarrow> real" where
  "sample_at p st = snd (uniform (from_key [cs_seed p, sc_calls (st ! cs_slot p)]))"

text \<open>The pass over the ranks' sums: what it leaves of them, and the counters of rank 0.\<close>

definition collapse_result ::
    "nat \<Rightarrow> 'c coefficient \<Rightarrow> collapse_sample \<Rightarrow> (samples \<times> 'c pauli_sum) list \<Rightarrow> (samples \<times> 'c pauli_sum) list result \<Rightarrow> bool" where
  "collapse_result W C p ranks r \<longleftrightarrow>
     (let locals = map snd ranks; called = at_rank_0 (\<lambda>st. snd (next_call p st)) ranks; ts = group_terms locals
      in if length ts \<le> cs_cache p then r = Inr called
         else if weight_of C ts = 0 then r = Inl NoWeight
         else \<exists>locals' k. length locals' = length locals \<and>
           r = Inr (at_rank_0 (\<lambda>st. snd (count_collapse p st)) (zip (map fst called) locals')) \<and>
           (\<forall>i < length locals. sum_inv W (locals' ! i) \<and> pm_hash (locals' ! i) = pm_hash (locals ! i)) \<and>
           group_terms locals' = [(k, c_one C)] \<and> drawn C (sample_at p (fst (hd ranks)) * weight_of C ts) ts k)"

lemma target_range:
  assumes "0 < w"
  shows "collapse_target p call w = Inr (snd (uniform (from_key [cs_seed p, call])) * w)"
    "0 \<le> snd (uniform g) * w" "snd (uniform g) * w < w"
  using uniform_range [of g] assms by (simp_all add: collapse_target_def)

lemma weight_of_nonneg: "(\<And>c. 0 \<le> norm_sqr C c) \<Longrightarrow> 0 \<le> weight_of C ts"
  by (induction ts) (simp_all add: add_nonneg_nonneg)

lemma collapse_solo_ok:
  assumes "sum_inv W s" "\<And>c. 0 \<le> norm_sqr C c"
  shows "collapse_result W C p [(st, s)] (map_result (collapse_finalize C p) [(st, s)])"
proof -
  let ?w = "weight_of C (sum_iter s)" and ?call = "sc_calls (st ! cs_slot p)"
  have len: "pm_len s = length (sum_iter s)" using assms(1) by (simp add: sum_inv_def)
  have call: "next_call p st = (?call, snd (next_call p st))" by (simp add: next_call_def)
  have fin: "collapse_finalize C p (st, s) = (if length (sum_iter s) \<le> cs_cache p then Inr (snd (next_call p st), s)
      else and_then (collapse_target p ?call ?w) (\<lambda>target. and_then (collapse_to_target C s (bucket_norms C s) target)
        (\<lambda>s. Inr (snd (count_collapse p (snd (next_call p st))), s))))"
    unfolding collapse_finalize_def prod.case by (subst call) (simp add: Let_def len bucket_norms_eq(3) [OF assms(1)])
  consider "length (sum_iter s) \<le> cs_cache p" | "\<not> length (sum_iter s) \<le> cs_cache p" "?w = 0" | "\<not> length (sum_iter s) \<le> cs_cache p" "0 < ?w"
    using weight_of_nonneg [OF assms(2), of "sum_iter s"] by fastforce
  then show ?thesis
  proof cases
    case 3
    obtain s' k where "collapse_to_target C s (bucket_norms C s) (sample_at p st * ?w) = Inr s'" "sum_inv W s'" "pm_hash s' = pm_hash s"
        "sum_iter s' = [(k, c_one C)]" "drawn C (sample_at p st * ?w) (sum_iter s) k"
      using collapse_to_target_ok [OF assms target_range(2,3) [OF 3(2)]] unfolding sample_at_def by blast
    with 3 show ?thesis
      unfolding collapse_result_def fin map_result.simps target_range(1) [OF 3(2)] Let_def
      by (auto simp: group_terms_def at_rank_0_def sample_at_def intro!: exI [of _ "[s']"] exI [of _ k] simp del: split_paired_Ex)
  qed (simp_all add: collapse_result_def fin group_terms_def at_rank_0_def collapse_target_def)
qed

lemma at_rank_0_simps:
  "length (at_rank_0 f ranks) = length ranks" "map snd (at_rank_0 f ranks) = map snd ranks"
  by (cases ranks; auto simp: at_rank_0_def)+

lemma allreduce_f64_slots:
  assumes "0 < n"
  shows "allreduce_sum_f64 (map (\<lambda>r. (replicate n 0)[r := f r]) [0..<n]) = map f [0..<n]"
  using assms sum_list_indicator [of _ n f]
  by (intro nth_equalityI) (simp_all add: allreduce_sum_f64_def hd_map comp_def)

lemma collapse_heads:
  assumes "0 < n"
  shows "allreduce_sum_u64 (map (\<lambda>r. [of_nat (f r), if r = 0 then c else 0]) [0..<n]) = [of_nat (sum_list (map f [0..<n])), c]"
proof -
  have "(\<Sum>r\<leftarrow>[0..<n]. (of_nat (f r) :: u64)) = of_nat (sum_list (map f [0..<n]))" by (induction n) simp_all
  moreover have "(\<Sum>r\<leftarrow>[0..<m]. if r = 0 then c else (0 :: u64)) = (if 0 < m then c else 0)" for m by (induction m) auto
  ultimately show ?thesis using assms by (simp add: allreduce_sum_u64_def hd_map comp_def upt_rec [of 0 "Suc (Suc 0)"])
qed

text \<open>Once a rank is picked, it collapses and the others clear.\<close>

lemma collapse_chosen:
  assumes "\<And>i. i < length ranks \<Longrightarrow> sum_inv W (snd (ranks ! i))" "chosen < length ranks"
    "collapse_to_target C (snd (ranks ! chosen)) (bucket_norms C (snd (ranks ! chosen))) rest = Inr s'"
    "sum_inv W s'" "pm_hash s' = pm_hash (snd (ranks ! chosen))"
  shows "\<exists>locals'. map_result (\<lambda>(rank, st, s). if rank = chosen
        then and_then (collapse_to_target C s (bucket_norms C s) rest) (\<lambda>s. Inr (st, s)) else Inr (st, sum_clear s)) (enumerate 0 ranks) =
      Inr (zip (map fst ranks) locals') \<and> length locals' = length ranks \<and> group_terms locals' = sum_iter s' \<and>
    (\<forall>i < length ranks. sum_inv W (locals' ! i) \<and> pm_hash (locals' ! i) = pm_hash (snd (ranks ! i)))"
proof -
  let ?f = "\<lambda>(rank, st, s). if rank = chosen
      then and_then (collapse_to_target C s (bucket_norms C s) rest) (\<lambda>s. Inr (st, s)) else Inr (st, sum_clear s)"
  let ?locals = "(map (sum_clear \<circ> snd) ranks)[chosen := s']"
  have "map_result ?f (enumerate 0 ranks) = Inr (zip (map fst ranks) ?locals)"
  proof -
    have "\<exists>ys. map_result ?f (enumerate 0 ranks) = Inr ys \<and> length ys = length (enumerate 0 ranks) \<and>
        (\<forall>i < length (enumerate 0 ranks). ys ! i = (fst (ranks ! i), ?locals ! i))"
      by (rule map_result_ex) (use assms(2,3) in \<open>auto simp: nth_enumerate_eq case_prod_beta nth_list_update\<close>)
    then obtain ys where ys: "map_result ?f (enumerate 0 ranks) = Inr ys" "length ys = length ranks"
        "\<forall>i < length ranks. ys ! i = (fst (ranks ! i), ?locals ! i)" by auto
    have "ys = zip (map fst ranks) ?locals" by (rule nth_equalityI) (use ys(2,3) in simp_all)
    with ys(1) show ?thesis by simp
  qed
  moreover have "group_terms ?locals = sum_iter s'"
  proof -
    have "map sum_iter ?locals = (replicate (length ranks) [])[chosen := sum_iter s']"
      by (rule nth_equalityI) (use assms(1,2) sum_clear_ok(2) in \<open>auto simp: nth_list_update\<close>)
    then show ?thesis using assms(2) by (simp add: group_terms_def upd_conv_take_nth_drop concat_eq_Nil_conv)
  qed
  ultimately show ?thesis
    using assms sum_clear_ok(1) by (intro exI [of _ ?locals]) (auto simp: nth_list_update sum_clear_ok(3) [OF assms(1)])
qed

lemma collapse_group_ok:
  assumes "length ranks > 1" "\<forall>s \<in> set (map snd ranks). sum_inv W s" "\<And>c. 0 \<le> norm_sqr C c"
    "sum_list (map pm_len (map snd ranks)) < 2 ^ 64"
  shows "collapse_result W C p ranks (collapse_partitioned C p ranks)"
proof -
  let ?n = "length ranks" and ?locals = "map snd ranks" and ?st = "fst (hd ranks)"
  define called where "called = at_rank_0 (\<lambda>st. snd (next_call p st)) ranks"
  let ?call = "sc_calls (?st ! cs_slot p)" and ?L = "map sum_iter ?locals" and ?ts = "group_terms ?locals"
  have called: "length called = ?n" "map snd called = ?locals" by (simp_all add: called_def at_rank_0_simps)
  have snd: "snd (called ! i) = snd (ranks ! i)" if "i < ?n" for i using called that by (metis nth_map)
  have inv: "sum_inv W (snd (ranks ! i))" if "i < ?n" for i using assms(2) that by simp
  have n: "0 < ?n" "?n \<noteq> 1" and hd: "fst (next_call p (fst (ranks ! 0))) = ?call"
    using assms(1) by (cases ranks; auto simp: next_call_def)+
  have lens: "sum_list (map (\<lambda>i. pm_len (snd (ranks ! i))) [0..<?n]) = length ?ts"
  proof -
    have "map (\<lambda>i. pm_len (snd (ranks ! i))) [0..<?n] = map length ?L" using inv by (intro nth_equalityI) (simp_all add: sum_inv_def)
    then show ?thesis by (simp only: group_terms_def length_concat)
  qed
  have small: "length ?ts < 2 ^ 64" using assms(4) group_terms_length [OF assms(2)] by simp
  have heads: "map (\<lambda>r. [of_nat (pm_len (snd (ranks ! r))), if r = 0 then fst (next_call p (fst (ranks ! r))) else 0]) [0..<?n] =
      map (\<lambda>r. [of_nat (pm_len (snd (ranks ! r))), if r = 0 then ?call else (0 :: u64)]) [0..<?n]"
    using hd by (intro map_cong) auto
  have norms: "sum_list (bucket_norms C (snd (called ! i))) = weight_of C (?L ! i)" if "i < ?n" for i
    using bucket_norms_eq(3) [OF inv [OF that]] snd that by simp
  have "map (\<lambda>i. sum_list (bucket_norms C (snd (called ! i)))) [0..<?n] = map (weight_of C) ?L"
    by (rule nth_equalityI) (use norms in simp_all)
  then have weights: "allreduce_sum_f64 (map (\<lambda>r. (replicate ?n 0)[r := sum_list (bucket_norms C (snd (called ! r)))]) [0..<?n]) = map (weight_of C) ?L"
    using allreduce_f64_slots [OF n(1)] by simp
  have in_all: "sum_list (map (weight_of C) ?L) = weight_of C ?ts" by (simp only: group_terms_def weight_of_concat)
  have part: "collapse_partitioned C p ranks = (if length ?ts \<le> cs_cache p then Inr called
      else and_then (collapse_target p ?call (weight_of C ?ts)) (\<lambda>target.
        case pick_slot (map (weight_of C) ?L) target of None \<Rightarrow> Inl ExpectFailed
        | Some (chosen, rest) \<Rightarrow> and_then (map_result (\<lambda>(rank, st, s). if rank = chosen
              then and_then (collapse_to_target C s (bucket_norms C s) rest) (\<lambda>s. Inr (st, s))
              else Inr (st, sum_clear s)) (enumerate 0 called)) (\<lambda>ranks. Inr (at_rank_0 (\<lambda>st. snd (count_collapse p st)) ranks))))"
    unfolding collapse_partitioned_def Let_def heads collapse_heads [OF n(1)] called_def [symmetric] weights in_all lens
    using n small by (simp add: unat_of_nat)
  consider "length ?ts \<le> cs_cache p" | "\<not> length ?ts \<le> cs_cache p" "weight_of C ?ts = 0" | "\<not> length ?ts \<le> cs_cache p" "0 < weight_of C ?ts"
    using weight_of_nonneg [OF assms(3), of ?ts] by fastforce
  then show ?thesis
  proof cases
    case 3
    let ?target = "sample_at p ?st * weight_of C ?ts"
    have target: "0 \<le> ?target" "?target < sum_list (map (weight_of C) ?L)"
      using target_range(2,3) [OF 3(2)] in_all by (simp_all add: sample_at_def)
    have "\<forall>w \<in> set (map (weight_of C) ?L). 0 \<le> w" using weight_of_nonneg [OF assms(3)] by auto
    from pick_slot_ok [OF this target] obtain b where b: "b < ?n"
        "pick_slot (map (weight_of C) ?L) ?target = Some (b, ?target - weight_of C (concat (take b ?L)))"
        "weight_of C (concat (take b ?L)) \<le> ?target" "?target < weight_of C (concat (take b ?L)) + weight_of C (?L ! b)"
      by (auto simp: weight_of_concat take_map)
    let ?rest = "?target - weight_of C (concat (take b ?L))"
    have "0 \<le> ?rest" "?rest < weight_of C (sum_iter (snd (ranks ! b)))" using b by simp_all
    from collapse_to_target_ok [OF inv [OF b(1)] assms(3) this] obtain s' k where
      s': "collapse_to_target C (snd (ranks ! b)) (bucket_norms C (snd (ranks ! b))) ?rest = Inr s'" "sum_inv W s'"
        "pm_hash s' = pm_hash (snd (ranks ! b))" "sum_iter s' = [(k, c_one C)]" "drawn C ?rest (sum_iter (snd (ranks ! b))) k" by blast
    have "drawn C ?target (concat ?L) k"
      by (rule drawn_concat [of b]) (use b(1,3) s'(5) in simp_all)
    then have "drawn C ?target ?ts k" by (simp only: group_terms_def)
    moreover obtain locals' where locals': "map_result (\<lambda>(rank, st, s). if rank = b
        then and_then (collapse_to_target C s (bucket_norms C s) ?rest) (\<lambda>s. Inr (st, s)) else Inr (st, sum_clear s)) (enumerate 0 called) =
        Inr (zip (map fst called) locals')" "length locals' = ?n" "group_terms locals' = sum_iter s'"
        "\<forall>i < ?n. sum_inv W (locals' ! i) \<and> pm_hash (locals' ! i) = pm_hash (snd (ranks ! i))"
      using collapse_chosen [of called W b C ?rest s'] inv snd called(1) b(1) s' by auto
    moreover have "collapse_target p ?call (weight_of C ?ts) = Inr ?target"
      using target_range(1) [OF 3(2)] by (simp add: sample_at_def)
    then have "collapse_partitioned C p ranks = Inr (at_rank_0 (\<lambda>st. snd (count_collapse p st)) (zip (map fst called) locals'))"
      unfolding part using 3(1) b(2) locals'(1) by (simp only: if_False and_then_simps option.case prod.case)
    ultimately show ?thesis
      using 3 s'(4) unfolding collapse_result_def Let_def called_def [symmetric]
      by (auto intro!: exI [of _ locals'] exI [of _ k] simp del: split_paired_Ex)
  qed (simp_all add: collapse_result_def part called_def collapse_target_def)
qed

lemma collapse_group_result:
  assumes "ranks \<noteq> []" "\<forall>s \<in> set (map snd ranks). sum_inv W s" "\<And>c. 0 \<le> norm_sqr C c"
    "sum_list (map pm_len (map snd ranks)) < 2 ^ 64"
  shows "collapse_result W C p ranks (collapse_partitioned C p ranks)"
proof (cases "length ranks = 1")
  case True
  then obtain st s where "ranks = [(st, s)]" by (cases ranks) auto
  then show ?thesis
    using collapse_solo_ok [of W s C p st] assms(2,3) by (simp add: collapse_partitioned_def del: map_result.simps)
next
  case False
  then have "1 < length ranks" using assms(1) by (cases ranks) auto
  then show ?thesis using collapse_group_ok assms(2-4) by blast
qed

text \<open>
  C37. The \<open>CollapseSample\<close> pass over a group of one or more partitions, any way the terms are spread: up to \<open>cache\<close> terms
  only rank 0's pass counter moves; above it the pass panics exactly if the total weight is zero, and otherwise leaves
  one term, with coefficient one, on one rank and nothing on the others. The term left is the one whose stretch of the
  cumulative weight of all terms contains \<open>u\<close> times the total, for the draw \<open>u\<close> that seed and pass counter name, so a
  term's stretch is in proportion to its squared magnitude. Every rank's sum stays valid.
\<close>

theorem collapse_draws_by_weight:
  assumes "ranks \<noteq> []" "\<forall>s \<in> set (map snd ranks). sum_inv W s" "\<And>c. 0 \<le> norm_sqr C c"
    "sum_list (map pm_len (map snd ranks)) < 2 ^ 64"
  shows "collapse_result W C p ranks (finalize_layer_partitioned (collapse_policy C p) ranks)"
  using collapse_group_result [OF assms(1,2) assms(3,4)] by (simp add: collapse_policy_def)

lemma complex_norm_nonneg: "0 \<le> norm_sqr complex_coefficient c"
  using complex_c.embed_norm by simp

theorem collapse_draws_by_weight_witness:
  "collapse_result 1 complex_coefficient \<lparr>cs_cache = 1, cs_seed = 7, cs_slot = 0\<rparr>
     [([\<lparr>sc_calls = 0, sc_collapses = 0\<rparr>], example_sum 1), ([\<lparr>sc_calls = 0, sc_collapses = 0\<rparr>], sum_clear (example_sum 1))]
     (finalize_layer_partitioned (collapse_policy complex_coefficient \<lparr>cs_cache = 1, cs_seed = 7, cs_slot = 0\<rparr>)
       [([\<lparr>sc_calls = 0, sc_collapses = 0\<rparr>], example_sum 1), ([\<lparr>sc_calls = 0, sc_collapses = 0\<rparr>], sum_clear (example_sum 1))])"
  by (rule collapse_draws_by_weight) (use example_group(1) complex_norm_nonneg in \<open>auto simp: group_ok_def\<close>)

end
