(* ===== verification/Truncation_Tree.thy ===== *)
theory Truncation_Tree
  imports Octave_Window Collapse_Sample
begin

text \<open>
  The combinators \<open>And\<close>, \<open>Or\<close> and \<open>PerPartition\<close> of \<open>truncation/builtin.rs\<close> and the runtime form \<open>BuiltinTruncation\<close> of
  \<open>truncation/tree.rs\<close>, whose methods are written out arm by arm as in the code. The reference \<open>policy_of\<close> composes the
  builtin policies the variants name.
\<close>

section \<open>The combinators\<close>

definition and_policy :: "('s, 'c) truncation_policy \<Rightarrow> ('s, 'c) truncation_policy \<Rightarrow> ('s, 'c) truncation_policy" where
  "and_policy A B =
     \<lparr>keep_term = \<lambda>x z c. keep_term A x z c \<and> keep_term B x z c,
      coefficient_floor = max (coefficient_floor A) (coefficient_floor B),
      finalize_layer = \<lambda>ss. and_then (finalize_layer A ss) (finalize_layer B),
      finalizes_layer = and_then (finalizes_layer A) (\<lambda>a. if a then Inr True else finalizes_layer B),
      finalize_layer_partitioned = \<lambda>ranks. and_then (finalize_layer_partitioned A ranks) (finalize_layer_partitioned B),
      supports_partitioned = and_then (supports_partitioned A) (\<lambda>a. if a then supports_partitioned B else Inr False),
      fused_pass = and_then (finalizes_layer A) (\<lambda>a. and_then (finalizes_layer B) (\<lambda>b.
        if a \<and> \<not> b then fused_pass A else if \<not> a \<and> b then fused_pass B else Inr None))\<rparr>"

definition per_partition :: "('s, 'c) truncation_policy \<Rightarrow> ('s, 'c) truncation_policy" where
  "per_partition P =
     \<lparr>keep_term = keep_term P, coefficient_floor = coefficient_floor P, finalize_layer = finalize_layer P,
      finalizes_layer = finalizes_layer P, finalize_layer_partitioned = map_result (finalize_layer P),
      supports_partitioned = Inr True,
      fused_pass = and_then (fused_pass P) (\<lambda>f. Inr (map_option (\<lambda>fused. fused\<lparr>agreed := False\<rparr>) f))\<rparr>"

datatype or_operand = FirstOperand | SecondOperand | BothOperands

definition or_operand_error :: "bool \<Rightarrow> bool \<Rightarrow> or_operand option" where
  "or_operand_error first_has_pass second_has_pass =
     (case (first_has_pass, second_has_pass) of
        (False, False) \<Rightarrow> None
      | (True, False) \<Rightarrow> Some FirstOperand
      | (False, True) \<Rightarrow> Some SecondOperand
      | (True, True) \<Rightarrow> Some BothOperands)"

definition or_finalizes :: "bool result \<Rightarrow> bool result \<Rightarrow> bool result" where
  "or_finalizes first second =
     and_then first (\<lambda>a. and_then second (\<lambda>b.
       case or_operand_error a b of Some which \<Rightarrow> Inl OrLayerPass | None \<Rightarrow> Inr False))"

definition or_policy :: "('s, 'c) truncation_policy \<Rightarrow> ('s, 'c) truncation_policy \<Rightarrow> ('s, 'c) truncation_policy" where
  "or_policy A B =
     (let finalizes = or_finalizes (finalizes_layer A) (finalizes_layer B)
      in \<lparr>keep_term = \<lambda>x z c. keep_term A x z c \<or> keep_term B x z c,
          coefficient_floor = min (coefficient_floor A) (coefficient_floor B),
          finalize_layer = Inr, finalizes_layer = finalizes,
          finalize_layer_partitioned = default_partitioned Inr finalizes,
          supports_partitioned = default_supports finalizes, fused_pass = Inr None\<rparr>)"

section \<open>The runtime form\<close>

datatype builtin_truncation =
    Keep
  | CoefficientT real
  | WeightT u32
  | TopNT nat
  | ApproxTopNT nat
  | CollapseSampleT collapse_sample
  | AndT builtin_truncation builtin_truncation
  | OrT builtin_truncation builtin_truncation
  | PerPartitionT builtin_truncation

fun has_layer_pass :: "builtin_truncation \<Rightarrow> bool result" where
  "has_layer_pass (TopNT n) = Inr True"
| "has_layer_pass (ApproxTopNT n) = Inr True"
| "has_layer_pass (CollapseSampleT p) = Inr True"
| "has_layer_pass (AndT a b) = and_then (has_layer_pass a) (\<lambda>x. if x then Inr True else has_layer_pass b)"
| "has_layer_pass (PerPartitionT inner) = has_layer_pass inner"
| "has_layer_pass (OrT a b) = and_then (has_layer_pass a) (\<lambda>x. and_then (has_layer_pass b) (\<lambda>y.
     case or_operand_error x y of Some which \<Rightarrow> Inl OrLayerPass | None \<Rightarrow> Inr False))"
| "has_layer_pass _ = Inr False"

definition try_or :: "builtin_truncation \<Rightarrow> builtin_truncation \<Rightarrow> (or_operand + builtin_truncation) result" where
  "try_or first second = and_then (has_layer_pass first) (\<lambda>x. and_then (has_layer_pass second) (\<lambda>y.
     case or_operand_error x y of Some which \<Rightarrow> Inr (Inl which) | None \<Rightarrow> Inr (Inr (OrT first second))))"

definition tree_or :: "builtin_truncation \<Rightarrow> builtin_truncation \<Rightarrow> builtin_truncation result" where
  "tree_or first second = and_then (try_or first second) (\<lambda>r. case r of Inl which \<Rightarrow> Inl OrLayerPass | Inr t \<Rightarrow> Inr t)"

fun tree_supports :: "builtin_truncation \<Rightarrow> bool result" where
  "tree_supports (TopNT n) = Inr False"
| "tree_supports (AndT a b) = and_then (tree_supports a) (\<lambda>x. if x then tree_supports b else Inr False)"
| "tree_supports (OrT a b) = and_then (has_layer_pass (OrT a b)) (\<lambda>x. Inr (\<not> x))"
| "tree_supports _ = Inr True"

fun contains_collapse_sample :: "builtin_truncation \<Rightarrow> bool" where
  "contains_collapse_sample (CollapseSampleT p) \<longleftrightarrow> True"
| "contains_collapse_sample (AndT a b) \<longleftrightarrow> contains_collapse_sample a \<or> contains_collapse_sample b"
| "contains_collapse_sample (OrT a b) \<longleftrightarrow> contains_collapse_sample a \<or> contains_collapse_sample b"
| "contains_collapse_sample (PerPartitionT inner) \<longleftrightarrow> contains_collapse_sample inner"
| "contains_collapse_sample _ \<longleftrightarrow> False"

fun tree_keep :: "'c coefficient \<Rightarrow> builtin_truncation \<Rightarrow> words \<Rightarrow> words \<Rightarrow> 'c \<Rightarrow> bool" where
  "tree_keep C (CoefficientT eps) x z c \<longleftrightarrow> threshold_keep C eps x z c"
| "tree_keep C (WeightT k) x z c \<longleftrightarrow> weight_keep k x z c"
| "tree_keep C (AndT a b) x z c \<longleftrightarrow> tree_keep C a x z c \<and> tree_keep C b x z c"
| "tree_keep C (OrT a b) x z c \<longleftrightarrow> tree_keep C a x z c \<or> tree_keep C b x z c"
| "tree_keep C (PerPartitionT inner) x z c \<longleftrightarrow> tree_keep C inner x z c"
| "tree_keep C _ x z c \<longleftrightarrow> True"

fun tree_floor :: "builtin_truncation \<Rightarrow> real" where
  "tree_floor (CoefficientT eps) = eps"
| "tree_floor (AndT a b) = max (tree_floor a) (tree_floor b)"
| "tree_floor (OrT a b) = min (tree_floor a) (tree_floor b)"
| "tree_floor (PerPartitionT inner) = tree_floor inner"
| "tree_floor _ = - 1"

fun tree_finalize :: "'c coefficient \<Rightarrow> nat \<Rightarrow> builtin_truncation \<Rightarrow> (samples, 'c) layer_pass" where
  "tree_finalize C threads (TopNT n) ss = top_n_finalize C n ss"
| "tree_finalize C threads (ApproxTopNT n) ss = approx_top_n_finalize C threads n ss"
| "tree_finalize C threads (CollapseSampleT p) ss = collapse_finalize C p ss"
| "tree_finalize C threads (AndT a b) ss = and_then (tree_finalize C threads a ss) (tree_finalize C threads b)"
| "tree_finalize C threads (PerPartitionT inner) ss = tree_finalize C threads inner ss"
| "tree_finalize C threads _ ss = Inr ss"

fun tree_partitioned :: "'c coefficient \<Rightarrow> nat \<Rightarrow> builtin_truncation \<Rightarrow> (samples, 'c) group_pass" where
  "tree_partitioned C threads (TopNT n) ranks = top_n_partitioned C n ranks"
| "tree_partitioned C threads (ApproxTopNT n) ranks = approx_top_n_partitioned C threads n ranks"
| "tree_partitioned C threads (PerPartitionT inner) ranks = map_result (tree_finalize C threads inner) ranks"
| "tree_partitioned C threads (CollapseSampleT p) ranks = collapse_partitioned C p ranks"
| "tree_partitioned C threads (AndT a b) ranks = and_then (tree_partitioned C threads a ranks) (tree_partitioned C threads b)"
| "tree_partitioned C threads _ ranks = Inr ranks"

fun tree_fused :: "builtin_truncation \<Rightarrow> fused_approx_top_n option result" where
  "tree_fused (ApproxTopNT n) = Inr (Some \<lparr>fused_n = n, agreed = True\<rparr>)"
| "tree_fused (AndT a b) = and_then (has_layer_pass a) (\<lambda>x. and_then (has_layer_pass b) (\<lambda>y.
     if x \<and> \<not> y then tree_fused a else if \<not> x \<and> y then tree_fused b else Inr None))"
| "tree_fused (PerPartitionT inner) = and_then (tree_fused inner) (\<lambda>f. Inr (map_option (\<lambda>fused. fused\<lparr>agreed := False\<rparr>) f))"
| "tree_fused _ = Inr None"

definition tree_policy :: "'c coefficient \<Rightarrow> nat \<Rightarrow> builtin_truncation \<Rightarrow> (samples, 'c) truncation_policy" where
  "tree_policy C threads t =
     \<lparr>keep_term = tree_keep C t, coefficient_floor = tree_floor t, finalize_layer = tree_finalize C threads t,
      finalizes_layer = has_layer_pass t, finalize_layer_partitioned = tree_partitioned C threads t,
      supports_partitioned = tree_supports t, fused_pass = tree_fused t\<rparr>"

section \<open>Each variant truncates as the builtin it names\<close>

fun policy_of :: "'c coefficient \<Rightarrow> nat \<Rightarrow> builtin_truncation \<Rightarrow> (samples, 'c) truncation_policy" where
  "policy_of C threads Keep = term_filter (\<lambda>x z c. True) (- 1)"
| "policy_of C threads (CoefficientT eps) = coefficient_threshold C eps"
| "policy_of C threads (WeightT k) = weight_cutoff k"
| "policy_of C threads (TopNT n) = top_n C n"
| "policy_of C threads (ApproxTopNT n) = approx_top_n C threads n"
| "policy_of C threads (CollapseSampleT p) = collapse_policy C p"
| "policy_of C threads (AndT a b) = and_policy (policy_of C threads a) (policy_of C threads b)"
| "policy_of C threads (OrT a b) = or_policy (policy_of C threads a) (policy_of C threads b)"
| "policy_of C threads (PerPartitionT inner) = per_partition (policy_of C threads inner)"

text \<open>Every \<open>Or\<close> of the tree has only per-term filters below it.\<close>

fun well_built :: "builtin_truncation \<Rightarrow> bool" where
  "well_built (AndT a b) \<longleftrightarrow> well_built a \<and> well_built b"
| "well_built (OrT a b) \<longleftrightarrow> well_built a \<and> well_built b \<and> has_layer_pass a = Inr False \<and> has_layer_pass b = Inr False"
| "well_built (PerPartitionT inner) \<longleftrightarrow> well_built inner"
| "well_built _ \<longleftrightarrow> True"

lemmas policy_defs = term_filter_def coefficient_threshold_def weight_cutoff_def top_n_def approx_top_n_def collapse_policy_def
  and_policy_def or_policy_def per_partition_def or_finalizes_def default_supports_def Let_def

lemma policy_of_finalizes: "finalizes_layer (policy_of C threads t) = has_layer_pass t"
  by (induction t) (simp_all add: policy_defs cong: if_cong)

lemma policy_of_keep: "keep_term (policy_of C threads t) = tree_keep C t"
  by (induction t) (simp_all add: policy_defs fun_eq_iff cong: if_cong)

lemma policy_of_floor: "coefficient_floor (policy_of C threads t) = tree_floor t"
  by (induction t) (simp_all add: policy_defs cong: if_cong)

lemma policy_of_finalize: "finalize_layer (policy_of C threads t) = tree_finalize C threads t"
  by (induction t) (rule ext, simp add: policy_defs)+

lemma policy_of_supports: "supports_partitioned (policy_of C threads t) = tree_supports t"
  by (induction t) (simp_all add: policy_defs policy_of_finalizes cong: if_cong)

lemma policy_of_fused: "fused_pass (policy_of C threads t) = tree_fused t"
  by (induction t) (simp_all add: policy_defs policy_of_finalizes cong: if_cong)

lemma well_built_has_layer_pass: "well_built t \<Longrightarrow> \<exists>b. has_layer_pass t = Inr b"
  by (induction t) (auto simp: or_operand_error_def)

lemma map_result_Inr: "map_result Inr xs = Inr xs"
  by (induction xs) simp_all

lemma policy_of_partitioned: "well_built t \<Longrightarrow> finalize_layer_partitioned (policy_of C threads t) = tree_partitioned C threads t"
proof (induction t)
  case (PerPartitionT t)
  have "map_result (tree_finalize C threads t) ranks = tree_partitioned C threads (PerPartitionT t) ranks" for ranks by simp
  then show ?case by (auto simp: per_partition_def policy_of_finalize)
next
  case (AndT a b)
  then show ?case by (intro ext) (simp add: and_policy_def)
qed (auto simp: policy_defs default_partitioned_def policy_of_finalizes or_operand_error_def map_result_Inr fun_eq_iff cong: if_cong)

text \<open>
  C38. Every variant of \<open>BuiltinTruncation\<close> truncates as the builtin policy it names: its filter, its floor, its pass over a
  whole sum, its answers to the drivers' questions and its fused form are those of the composed builtin policies, panics
  included, for every tree; and so is its pass over a group, for every tree that \<open>or\<close> or \<open>try_or\<close> can build.
\<close>

theorem tree_truncates_as_builtin:
  "keep_term (tree_policy C threads t) = keep_term (policy_of C threads t) \<and>
   coefficient_floor (tree_policy C threads t) = coefficient_floor (policy_of C threads t) \<and>
   finalize_layer (tree_policy C threads t) = finalize_layer (policy_of C threads t) \<and>
   finalizes_layer (tree_policy C threads t) = finalizes_layer (policy_of C threads t) \<and>
   supports_partitioned (tree_policy C threads t) = supports_partitioned (policy_of C threads t) \<and>
   fused_pass (tree_policy C threads t) = fused_pass (policy_of C threads t) \<and>
   (well_built t \<longrightarrow> tree_policy C threads t = policy_of C threads t) \<and>
   (well_built a \<and> well_built b \<and> tree_or a b = Inr t' \<longrightarrow> well_built t' \<and> t' = OrT a b)"
  using well_built_has_layer_pass [of a] well_built_has_layer_pass [of b]
  by (auto simp: tree_policy_def policy_of_keep policy_of_floor policy_of_finalize policy_of_finalizes policy_of_supports
      policy_of_fused policy_of_partitioned tree_or_def try_or_def or_operand_error_def split: bool.splits
      intro!: truncation_policy.equality)

theorem tree_truncates_as_builtin_witness:
  "tree_policy complex_coefficient 1 (AndT (OrT (CoefficientT 1) (WeightT 2)) (ApproxTopNT 3)) =
     policy_of complex_coefficient 1 (AndT (OrT (CoefficientT 1) (WeightT 2)) (ApproxTopNT 3)) \<and>
   well_built (OrT (CoefficientT 1) (WeightT 2))"
  using tree_truncates_as_builtin [of complex_coefficient 1 "AndT (OrT (CoefficientT 1) (WeightT 2)) (ApproxTopNT 3)"
      "CoefficientT 1" "WeightT 2" "OrT (CoefficientT 1) (WeightT 2)"]
  by (simp add: tree_or_def try_or_def or_operand_error_def)

text \<open>
  The operand check of an \<open>Or\<close> is not reached behind an \<open>And\<close> whose first operand has a pass: the driver's question is
  answered, and the pass of the \<open>Or\<close>'s operand is silently skipped.
\<close>

lemma or_check_short_circuited:
  "finalizes_layer (and_policy (top_n C n) (or_policy (top_n C m) P)) = Inr True"
  "finalize_layer (and_policy (top_n C n) (or_policy (top_n C m) P)) = top_n_finalize C n"
  "has_layer_pass (AndT (TopNT n) (OrT (TopNT m) t)) = Inr True"
  by (auto simp: policy_defs and_then_def fun_eq_iff split: sum.split)

section \<open>Every builtin pass keeps the invariant\<close>

text \<open>What a driver relies on: the pass over a sum, and over a group.\<close>

definition keeps_sum :: "nat \<Rightarrow> 'c pauli_sum \<Rightarrow> 'c pauli_sum \<Rightarrow> bool" where
  "keeps_sum W s s' \<longleftrightarrow> sum_inv W s' \<and> pm_hash s' = pm_hash s \<and> pm_len s' \<le> pm_len s"

definition pass_keeps :: "nat \<Rightarrow> ('s, 'c) layer_pass \<Rightarrow> bool" where
  "pass_keeps W f \<longleftrightarrow> (\<forall>st s. sum_inv W s \<longrightarrow> pm_len s < 2 ^ 32 \<longrightarrow>
     f (st, s) = Inl NoWeight \<or> (\<exists>st' s'. f (st, s) = Inr (st', s') \<and> keeps_sum W s s'))"

definition keeps_group :: "nat \<Rightarrow> 'c pauli_sum list \<Rightarrow> 'c pauli_sum list \<Rightarrow> bool" where
  "keeps_group W locals locals' \<longleftrightarrow> group_ok W locals' \<and> map pm_hash locals' = map pm_hash locals \<and>
     sum_list (map pm_len locals') \<le> sum_list (map pm_len locals)"

definition group_keeps :: "nat \<Rightarrow> ('s, 'c) group_pass \<Rightarrow> bool" where
  "group_keeps W f \<longleftrightarrow> (\<forall>ranks. group_ok W (map snd ranks) \<longrightarrow>
     f ranks = Inl NoWeight \<or> (\<exists>ranks'. f ranks = Inr ranks' \<and> keeps_group W (map snd ranks) (map snd ranks')))"

lemma pass_keepsI:
  assumes "\<And>st s. sum_inv W s \<Longrightarrow> pm_len s < 2 ^ 32 \<Longrightarrow> \<exists>st' s'. f (st, s) = Inr (st', s') \<and> keeps_sum W s s'"
  shows "pass_keeps W f"
  using assms unfolding pass_keeps_def by blast

lemma pass_keepsE:
  assumes "pass_keeps W f" "sum_inv W s" "pm_len s < 2 ^ 32"
  obtains "f (st, s) = Inl NoWeight" | st' s' where "f (st, s) = Inr (st', s')" "keeps_sum W s s'"
  using assms unfolding pass_keeps_def by blast

lemma keeps_sum_trans: "keeps_sum W s s' \<Longrightarrow> keeps_sum W s' s'' \<Longrightarrow> keeps_sum W s s''"
  by (auto simp: keeps_sum_def)

lemma keeps_group_trans: "keeps_group W s s' \<Longrightarrow> keeps_group W s' s'' \<Longrightarrow> keeps_group W s s''"
  by (auto simp: keeps_group_def)

lemma pass_keeps_and:
  fixes f g :: "('s, 'c) layer_pass"
  assumes "pass_keeps W f" "pass_keeps W g"
  shows "pass_keeps W (\<lambda>ss. and_then (f ss) g)"
  unfolding pass_keeps_def
proof (intro allI impI)
  fix st :: 's and s :: "'c pauli_sum" assume s: "sum_inv W s" "pm_len s < 2 ^ 32"
  from assms(1) s show "and_then (f (st, s)) g = Inl NoWeight \<or>
      (\<exists>st' s'. and_then (f (st, s)) g = Inr (st', s') \<and> keeps_sum W s s')"
  proof (cases rule: pass_keepsE [where st = st])
    case (2 st' s')
    then have s': "sum_inv W s'" "pm_len s' < 2 ^ 32" using s(2) by (simp_all add: keeps_sum_def)
    from assms(2) s' show ?thesis
      by (cases rule: pass_keepsE [where st = st']) (use 2 keeps_sum_trans in \<open>auto simp del: split_paired_Ex\<close>)
  qed simp
qed

lemma group_keeps_and:
  fixes f g :: "('s, 'c) group_pass"
  assumes "group_keeps W f" "group_keeps W g"
  shows "group_keeps W (\<lambda>ranks. and_then (f ranks) g)"
  unfolding group_keeps_def
proof (intro allI impI)
  fix ranks :: "('s \<times> 'c pauli_sum) list" assume ranks: "group_ok W (map snd ranks)"
  from assms(1) ranks consider "f ranks = Inl NoWeight"
    | ranks' where "f ranks = Inr ranks'" "keeps_group W (map snd ranks) (map snd ranks')" unfolding group_keeps_def by blast
  then show "and_then (f ranks) g = Inl NoWeight \<or>
      (\<exists>ranks'. and_then (f ranks) g = Inr ranks' \<and> keeps_group W (map snd ranks) (map snd ranks'))"
  proof cases
    case (2 ranks')
    then have "group_ok W (map snd ranks')" by (simp add: keeps_group_def)
    with assms(2) consider "g ranks' = Inl NoWeight"
      | ranks'' where "g ranks' = Inr ranks''" "keeps_group W (map snd ranks') (map snd ranks'')" unfolding group_keeps_def by blast
    then show ?thesis by cases (use 2 keeps_group_trans in auto)
  qed simp
qed

lemma pass_keeps_collapse:
  assumes "\<And>c. 0 \<le> norm_sqr C c"
  shows "pass_keeps W (collapse_finalize C p)"
  unfolding pass_keeps_def
proof (intro allI impI)
  fix st and s :: "'a pauli_sum" assume s: "sum_inv W s" "pm_len s < 2 ^ 32"
  have r: "collapse_result W C p [(st, s)] (map_result (collapse_finalize C p) [(st, s)])"
    using s(1) assms by (rule collapse_solo_ok)
  have len: "pm_len t = length (sum_iter t)" if "sum_inv W t" for t :: "'a pauli_sum" using that by (simp add: sum_inv_def)
  show "collapse_finalize C p (st, s) = Inl NoWeight \<or>
      (\<exists>st' s'. collapse_finalize C p (st, s) = Inr (st', s') \<and> keeps_sum W s s')"
  proof (cases "collapse_finalize C p (st, s)")
    case (Inl e)
    with r show ?thesis by (simp add: collapse_result_def Let_def split: if_splits)
  next
    case (Inr r')
    obtain st' s' where r': "r' = (st', s')" by (cases r')
    have "s' = s \<or> (\<exists>k. sum_inv W s' \<and> pm_hash s' = pm_hash s \<and> sum_iter s' = [(k, c_one C)] \<and> cs_cache p < length (sum_iter s))"
      using r by (auto simp: Inr r' collapse_result_def Let_def at_rank_0_def group_terms_def length_Suc_conv split: if_splits
          simp del: split_paired_Ex)
    with s len have "keeps_sum W s s'" by (auto simp: keeps_sum_def)
    with Inr r' show ?thesis by blast
  qed
qed

lemma tree_finalize_keeps:
  fixes C :: "'c coefficient"
  assumes "\<And>c. 0 \<le> norm_sqr C c"
  shows "pass_keeps W (tree_finalize C threads t)"
proof (induction t)
  case (TopNT n)
  show ?case
  proof (rule pass_keepsI)
    fix st and s :: "'c pauli_sum" assume "sum_inv W s" "pm_len s < 2 ^ 32"
    then show "\<exists>st' s'. tree_finalize C threads (TopNT n) (st, s) = Inr (st', s') \<and> keeps_sum W s s'"
      using top_n_pass_ok [of W s C n] by (auto simp: top_n_finalize_def usize_max_def keeps_sum_def)
  qed
next
  case (ApproxTopNT n)
  show ?case
  proof (rule pass_keepsI)
    fix st and s :: "'c pauli_sum" assume "sum_inv W s" "pm_len s < 2 ^ 32"
    then show "\<exists>st' s'. tree_finalize C threads (ApproxTopNT n) (st, s) = Inr (st', s') \<and> keeps_sum W s s'"
      using approx_top_n_solo_ok [of W s C threads n] by (auto simp: approx_top_n_finalize_def keeps_sum_def)
  qed
next
  case (CollapseSampleT p)
  then show ?case using pass_keeps_collapse [OF assms, of W p] by (simp add: pass_keeps_def)
next
  case (AndT a b)
  then show ?case using pass_keeps_and [OF AndT] by (simp add: pass_keeps_def)
qed (simp_all add: pass_keeps_def keeps_sum_def)

lemma keeps_groupI:
  assumes "group_ok W locals" "length locals' = length locals"
    "\<And>i. i < length locals \<Longrightarrow> sum_inv W (locals' ! i) \<and> pm_hash (locals' ! i) = pm_hash (locals ! i) \<and> pm_len (locals' ! i) < 2 ^ 32"
    "length (group_terms locals') \<le> length (group_terms locals)"
  shows "keeps_group W locals locals'"
proof -
  have inv: "\<forall>l \<in> set locals'. sum_inv W l \<and> pm_len l < 2 ^ 32" "\<forall>l \<in> set locals. sum_inv W l"
    using assms(1-3) by (auto simp: in_set_conv_nth group_ok_def)
  then have "sum_list (map pm_len locals') \<le> sum_list (map pm_len locals)"
    using assms(4) group_terms_length [of locals W] group_terms_length [of locals' W] by simp
  moreover have "map pm_hash locals' = map pm_hash locals" using assms(2,3) by (intro nth_equalityI) auto
  moreover have "locals' \<noteq> []" using assms(1,2) by (auto simp: group_ok_def)
  ultimately show ?thesis using assms(1) inv by (auto simp: keeps_group_def group_ok_def)
qed

lemma rank_len_le_group:
  assumes "i < length locals" "sum_inv W (locals ! i)"
  shows "pm_len (locals ! i) \<le> length (group_terms locals)"
proof -
  have "length (sum_iter (locals ! i)) \<le> length (group_terms locals)"
    unfolding group_terms_def length_concat by (rule member_le_sum_list) (use assms(1) in auto)
  then show ?thesis using assms(2) by (simp add: sum_inv_def)
qed

lemma group_keeps_ranks:
  fixes f :: "('s, 'c) layer_pass"
  assumes "pass_keeps W f"
  shows "group_keeps W (map_result f)"
  unfolding group_keeps_def
proof (intro allI impI)
  fix ranks :: "('s \<times> 'c pauli_sum) list" assume ok: "group_ok W (map snd ranks)"
  have "map_result f rs = Inl NoWeight \<or> (\<exists>rs'. map_result f rs = Inr rs' \<and> length rs' = length rs \<and>
      (\<forall>i < length rs. keeps_sum W (snd (rs ! i)) (snd (rs' ! i))))" if "\<forall>r \<in> set rs. sum_inv W (snd r) \<and> pm_len (snd r) < 2 ^ 32" for rs
    using that
  proof (induction rs)
    case (Cons r rs)
    have r: "sum_inv W (snd r)" "pm_len (snd r) < 2 ^ 32" using Cons.prems by simp_all
    from assms r show ?case
      by (cases rule: pass_keepsE [where st = "fst r"])
        (use Cons in \<open>auto simp: nth_Cons split: nat.split simp del: split_paired_Ex\<close>)
  qed simp
  moreover have "keeps_group W (map snd ranks) (map snd ranks')"
    if r: "length ranks' = length ranks" "\<forall>i < length ranks. keeps_sum W (snd (ranks ! i)) (snd (ranks' ! i))" for ranks' :: "('s \<times> 'c pauli_sum) list"
  proof (rule keeps_groupI [OF ok])
    fix i assume "i < length (map snd ranks)"
    then have i: "i < length ranks" by simp
    then have "pm_len (snd (ranks ! i)) < 2 ^ 32" using ok by (simp add: group_ok_def)
    then show "sum_inv W (map snd ranks' ! i) \<and> pm_hash (map snd ranks' ! i) = pm_hash (map snd ranks ! i) \<and> pm_len (map snd ranks' ! i) < 2 ^ 32"
      using r i by (auto simp: keeps_sum_def intro: order.strict_trans1)
  next
    have "length (sum_iter (snd (ranks' ! i))) \<le> length (sum_iter (snd (ranks ! i)))" if "i < length ranks" for i
    proof -
      have "sum_inv W (snd (ranks ! i))" "keeps_sum W (snd (ranks ! i)) (snd (ranks' ! i))" using r(2) that ok by (simp_all add: group_ok_def)
      then show ?thesis by (simp add: keeps_sum_def sum_inv_def)
    qed
    then have "sum_list (map (\<lambda>i. length (sum_iter (snd (ranks' ! i)))) [0..<length ranks]) \<le>
        sum_list (map (\<lambda>i. length (sum_iter (snd (ranks ! i)))) [0..<length ranks])" by (intro sum_list_mono) simp
    moreover have "length (group_terms (map snd xs)) = sum_list (map (\<lambda>i. length (sum_iter (snd (xs ! i)))) [0..<length xs])"
      for xs :: "('s \<times> 'c pauli_sum) list"
      unfolding group_terms_def length_concat by (rule arg_cong [of _ _ sum_list]) (rule nth_equalityI; simp)
    ultimately show "length (group_terms (map snd ranks')) \<le> length (group_terms (map snd ranks))" using r(1) by simp
  qed (use r in simp)
  ultimately show "map_result f ranks = Inl NoWeight \<or> (\<exists>ranks'. map_result f ranks = Inr ranks' \<and> keeps_group W (map snd ranks) (map snd ranks'))"
    using ok unfolding group_ok_def by (metis (no_types, lifting) imageI list.set_map)
qed

lemma cut_terms_le: "length (cut_terms C edge ts) \<le> length ts"
proof -
  have "length (keep_first side q ts) \<le> length ts" for side :: "'a pauli_term \<Rightarrow> ordering" and q
    by (induction side q ts rule: keep_first.induct) auto
  then show ?thesis by (simp add: cut_terms_def split: edge_decision.split)
qed

lemma approx_top_n_group_keeps:
  fixes C :: "'c coefficient"
  shows "group_keeps W (approx_top_n_partitioned C threads n :: ('s, 'c) group_pass)"
  unfolding group_keeps_def
proof (intro allI impI disjI2)
  fix ranks :: "('s \<times> 'c pauli_sum) list" assume ok: "group_ok W (map snd ranks)"
  obtain locals' edge where pass: "approx_top_n_pass C threads n (map snd ranks) =
        Inr (map (\<lambda>s. (s, edge, sum_list (map pm_len (map snd ranks)))) locals')" "group_cut W C edge (map snd ranks) locals'"
    using approx_top_n_pass_ok [OF ok] by blast
  have "keeps_group W (map snd ranks) locals'"
  proof (rule keeps_groupI [OF ok])
    show le: "length (group_terms locals') \<le> length (group_terms (map snd ranks))"
      using pass(2) cut_terms_le by (simp add: group_cut_def)
    fix i assume i: "i < length (map snd ranks)"
    then have "sum_inv W (locals' ! i)" "pm_hash (locals' ! i) = pm_hash (map snd ranks ! i)"
      "pm_len (locals' ! i) \<le> pm_len (map snd ranks ! i)"
      using pass(2) ok cut_terms_le by (auto simp: group_cut_def group_ok_def sum_inv_def)
    then show "sum_inv W (locals' ! i) \<and> pm_hash (locals' ! i) = pm_hash (map snd ranks ! i) \<and> pm_len (locals' ! i) < 2 ^ 32"
      using ok i by (auto simp: group_ok_def intro: order.strict_trans1)
  qed (use pass(2) in \<open>simp add: group_cut_def\<close>)
  moreover have "map snd (zip (map fst ranks) locals') = locals'" using pass(2) by (simp add: group_cut_def)
  ultimately show "\<exists>ranks'. approx_top_n_partitioned C threads n ranks = Inr ranks' \<and> keeps_group W (map snd ranks) (map snd ranks')"
    using pass(1) by (simp add: approx_top_n_partitioned_def comp_def)
qed

lemma collapse_group_keeps:
  assumes "\<And>c. 0 \<le> norm_sqr C c"
  shows "group_keeps W (collapse_partitioned C p)"
  unfolding group_keeps_def
proof (intro allI impI)
  fix ranks :: "(samples \<times> 'a pauli_sum) list" assume ok: "group_ok W (map snd ranks)"
  have "collapse_result W C p ranks (collapse_partitioned C p ranks)"
    using ok assms by (intro collapse_group_result) (auto simp: group_ok_def)
  then consider "collapse_partitioned C p ranks = Inr (at_rank_0 (\<lambda>st. snd (next_call p st)) ranks)"
    | "collapse_partitioned C p ranks = Inl NoWeight"
    | f sts locals' k where "collapse_partitioned C p ranks = Inr (at_rank_0 f (zip sts locals'))" "length sts = length ranks"
        "length locals' = length ranks" "group_terms locals' = [(k, c_one C)]" "cs_cache p < length (group_terms (map snd ranks))"
        "\<forall>i < length ranks. sum_inv W (locals' ! i) \<and> pm_hash (locals' ! i) = pm_hash (map snd ranks ! i)"
    by (fastforce simp: collapse_result_def Let_def at_rank_0_simps split: if_splits)
  then show "collapse_partitioned C p ranks = Inl NoWeight \<or>
      (\<exists>ranks'. collapse_partitioned C p ranks = Inr ranks' \<and> keeps_group W (map snd ranks) (map snd ranks'))"
  proof cases
    case 1
    then show ?thesis using ok by (simp add: at_rank_0_simps keeps_group_def del: map_map)
  next
    case (3 f sts locals' k)
    have "keeps_group W (map snd ranks) locals'"
    proof (rule keeps_groupI [OF ok])
      fix i assume "i < length (map snd ranks)"
      then have i: "i < length locals'" "sum_inv W (locals' ! i)" "pm_hash (locals' ! i) = pm_hash (map snd ranks ! i)" using 3 by simp_all
      from rank_len_le_group [OF i(1,2)] have "pm_len (locals' ! i) < 2 ^ 32" using 3(4) by simp
      with i show "sum_inv W (locals' ! i) \<and> pm_hash (locals' ! i) = pm_hash (map snd ranks ! i) \<and> pm_len (locals' ! i) < 2 ^ 32" by simp
    qed (use 3 in simp_all)
    with 3 show ?thesis by (simp add: at_rank_0_simps del: map_map)
  qed simp
qed

lemma tree_partitioned_keeps:
  fixes C :: "'c coefficient"
  assumes "\<And>c. 0 \<le> norm_sqr C c" "tree_supports t = Inr True"
  shows "group_keeps W (tree_partitioned C threads t)"
  using assms(2)
proof (induction t)
  case (ApproxTopNT n)
  show ?case using approx_top_n_group_keeps [of W C threads n] by (simp add: group_keeps_def)
next
  case (CollapseSampleT p)
  show ?case using collapse_group_keeps [OF assms(1), of W p] by (simp add: group_keeps_def)
next
  case (PerPartitionT t)
  show ?case using group_keeps_ranks [OF tree_finalize_keeps [OF assms(1), of W threads t]] by (simp add: group_keeps_def)
next
  case (AndT a b)
  then have "group_keeps W (tree_partitioned C threads a)" "group_keeps W (tree_partitioned C threads b)"
    by (auto simp: and_then_Inr_iff split: if_splits)
  from group_keeps_and [OF this] show ?case by (simp add: group_keeps_def)
qed (simp_all add: group_keeps_def keeps_group_def)

text \<open>
  C33. The invariant of a sum survives every builtin truncation, however composed. The layer pass of any
  \<open>BuiltinTruncation\<close> on a valid sum, and its group pass on a valid group when \<open>supports_partitioned\<close> answers yes, either
  panics because a \<open>CollapseSample\<close> met a total weight of zero, or leaves every sum valid, with its hash, and no more
  terms than before.
\<close>

theorem tree_passes_keep_invariant:
  assumes "\<And>c. 0 \<le> norm_sqr C c"
  shows "pass_keeps W (finalize_layer (tree_policy C threads t)) \<and>
    (supports_partitioned (tree_policy C threads t) = Inr True \<longrightarrow>
      group_keeps W (finalize_layer_partitioned (tree_policy C threads t)))"
  using tree_finalize_keeps [OF assms] tree_partitioned_keeps [OF assms] by (simp add: tree_policy_def)

theorem tree_passes_keep_invariant_witness:
  "group_keeps 1 (finalize_layer_partitioned (tree_policy complex_coefficient 1 (AndT (WeightT 2) (PerPartitionT (TopNT 3)))))"
  using tree_passes_keep_invariant [OF complex_norm_nonneg, of 1 1 "AndT (WeightT 2) (PerPartitionT (TopNT 3))"]
  by (simp add: tree_policy_def)

end
