(* ===== verification/Coset_Fill.thy ===== *)
theory Coset_Fill
  imports Merge Coset Prepared_Channels
begin

unbundle bit_operations_syntax

text \<open>
  \<open>engine/bucketed/coset_fill.rs\<close> and the delta plan of \<open>engine/bucketed.rs\<close>: the kernel that gathers, sorts and merges the
  buckets of one coset. A run's capacities are not modelled, a push is a push; the working set kept between cosets is
  the sort scratch alone, since every other buffer is cleared before use. Rows received from other partitions are a
  function of the bucket, \<open>None\<close> for the unpartitioned engine.
\<close>

section \<open>The code\<close>

datatype 'c delta_plan =
    PlanLocal (pl_ptm: "'c local_ptm") (pl_coordinates: "u32 list") (pl_has_identity: bool) (pl_dense_identity: bool)
      (pl_sort_kernel: sort_kernel)
  | PlanRotation prepared_rotation u32 u32

record layer_knobs =
  kn_bucket_deltas :: "u32 list option"
  kn_rest_streams :: "nat option"
  kn_rows_per_key :: "real option"
  kn_generator_local :: bool

definition default_knobs :: layer_knobs where
  "default_knobs =
     \<lparr>kn_bucket_deltas = None, kn_rest_streams = None, kn_rows_per_key = None, kn_generator_local = True\<rparr>"

definition unwrap_or :: "'a option \<Rightarrow> 'a \<Rightarrow> 'a" where
  "unwrap_or opt v = (case opt of None \<Rightarrow> v | Some w \<Rightarrow> w)"

definition delta_plan_new :: "'c coefficient \<Rightarrow> bool \<Rightarrow> 'c prepared \<Rightarrow> gf2_span_index \<Rightarrow> layer_knobs \<Rightarrow> 'c delta_plan" where
  "delta_plan_new C bmi2 pr sp knobs =
     (case pr of
        Local ptm \<Rightarrow>
          let coordinates = map (\<lambda>d. coordinate_of bmi2 sp (de_bucket_delta d)) (lp_deltas ptm);
              has_id = has_identity ptm;
              dense = (has_id \<and> entry_is_dense C ptm 0);
              streams = unwrap_or (kn_rest_streams knobs) (rest_streams ptm);
              sort_kernel = for_layer streams (unwrap_or (kn_rows_per_key knobs) (rest_rows_per_key C ptm))
          in PlanLocal ptm coordinates has_id dense sort_kernel
      | Rotation r \<Rightarrow>
          PlanRotation r (coordinate_of bmi2 sp (rt_delta_identity r)) (coordinate_of bmi2 sp (rt_delta_generator r)))"

record 'c gather_run =
  gr_identity :: "'c bucket_columns"
  gr_rest :: "'c bucket_columns"

definition run_reset :: "'c gather_run" where
  "run_reset = \<lparr>gr_identity = columns_new, gr_rest = columns_new\<rparr>"

definition append_if :: "'c bucket_columns \<Rightarrow> bool \<Rightarrow> key \<Rightarrow> 'c \<Rightarrow> 'c bucket_columns" where
  "append_if columns keep k c = (if keep then columns_push columns k c else columns)"

definition push_if :: "bool \<Rightarrow> key \<Rightarrow> 'c \<Rightarrow> 'c gather_run \<Rightarrow> 'c gather_run" where
  "push_if keep k c run0 = run0\<lparr>gr_rest := append_if (gr_rest run0) keep k c\<rparr>"

definition push_identity_if :: "bool \<Rightarrow> key \<Rightarrow> 'c \<Rightarrow> 'c gather_run \<Rightarrow> 'c gather_run" where
  "push_identity_if keep k c run0 = run0\<lparr>gr_identity := append_if (gr_identity run0) keep k c\<rparr>"

definition push_identity_coefficient :: "'c \<Rightarrow> 'c gather_run \<Rightarrow> 'c gather_run" where
  "push_identity_coefficient c run0 =
     run0\<lparr>gr_identity := (gr_identity run0)\<lparr>col_coeff := col_coeff (gr_identity run0) @ [c]\<rparr>\<rparr>"

definition update_run :: "nat \<Rightarrow> ('c gather_run \<Rightarrow> 'c gather_run) \<Rightarrow> 'c gather_run list \<Rightarrow> 'c gather_run list" where
  "update_run j f runs = runs[j := f (runs ! j)]"

text \<open>The identity stream's row of a term, and the row of another entry.\<close>

definition push_identity_row :: "'c coefficient \<Rightarrow> 'c local_ptm \<Rightarrow> bool \<Rightarrow> 'c pauli_term \<Rightarrow> 'c gather_run \<Rightarrow> 'c gather_run" where
  "push_identity_row C ptm dense t run0 =
     (let amplitude = de_amplitude (lp_deltas ptm ! 0) ! support_bits ptm (fst (fst t)) (snd (fst t))
      in if dense then push_identity_coefficient (c_mul C (snd t) amplitude) run0
         else push_identity_if (is_nonzero C amplitude) (fst t) (c_mul C (snd t) amplitude) run0)"

definition push_rest_row :: "'c coefficient \<Rightarrow> 'c local_ptm \<Rightarrow> 'c delta_entry \<Rightarrow> 'c pauli_term \<Rightarrow> 'c gather_run \<Rightarrow> 'c gather_run" where
  "push_rest_row C ptm d t run0 =
     (let amplitude = de_amplitude d ! support_bits ptm (fst (fst t)) (snd (fst t))
      in push_if (is_nonzero C amplitude) (xor_key (fst t) (de_mask d)) (c_mul C (snd t) amplitude) run0)"

definition scatter_row ::
    "'c coefficient \<Rightarrow> 'c local_ptm \<Rightarrow> u32 list \<Rightarrow> bool \<Rightarrow> bool \<Rightarrow> nat \<Rightarrow> 'c pauli_term \<Rightarrow> 'c gather_run list \<Rightarrow> 'c gather_run list"
  where
  "scatter_row C ptm coordinates has_id dense i t runs =
     fold (\<lambda>(e, d). update_run (i XOR unat (coordinates ! e)) (push_rest_row C ptm d t))
       (drop (of_bool has_id) (enumerate 0 (lp_deltas ptm)))
       (if has_id then update_run i (push_identity_row C ptm dense t) runs else runs)"

definition gather_local_input_major ::
    "'c coefficient \<Rightarrow> 'c bucket_columns list \<Rightarrow> 'c gather_run list \<Rightarrow> 'c local_ptm \<Rightarrow> u32 list \<Rightarrow> bool \<Rightarrow> bool \<Rightarrow>
     'c gather_run list" where
  "gather_local_input_major C old runs ptm coordinates has_id dense =
     fold (\<lambda>(i, source). fold (scatter_row C ptm coordinates has_id dense i) (terms_of source)) (enumerate 0 old) runs"

definition gather_local_output_major ::
    "'c coefficient \<Rightarrow> 'c bucket_columns list \<Rightarrow> 'c gather_run list \<Rightarrow> 'c local_ptm \<Rightarrow> u32 list \<Rightarrow> bool \<Rightarrow> bool \<Rightarrow>
     'c gather_run list" where
  "gather_local_output_major C old runs ptm coordinates has_id dense =
     map (\<lambda>(j, run0).
       let run0 = (if has_id then fold (push_identity_row C ptm dense) (terms_of (old ! j)) run0 else run0)
       in fold (\<lambda>(e, d). fold (push_rest_row C ptm d) (terms_of (old ! (j XOR unat (coordinates ! e)))))
            (drop (of_bool has_id) (enumerate 0 (lp_deltas ptm))) run0) (enumerate 0 runs)"

definition rotate_row ::
    "'c coefficient \<Rightarrow> prepared_rotation \<Rightarrow> u32 \<Rightarrow> u32 \<Rightarrow> nat \<Rightarrow> 'c pauli_term \<Rightarrow> 'c gather_run list \<Rightarrow> 'c gather_run list" where
  "rotate_row C r coordinate_identity generator_coordinate i t runs =
     (let v = \<lparr>ps_x = fst (fst t), ps_z = snd (fst t)\<rparr>
      in if commutes_with v (rt_generator r)
         then update_run (i XOR unat coordinate_identity) (push_identity_coefficient (snd t)) runs
         else let runs = update_run (i XOR unat coordinate_identity)
                    (push_identity_coefficient (c_mul_real C (snd t) (rt_cos r))) runs;
                  (product, ph) = mul_assign v (rt_generator r);
                  in_all = add_phase phase_I ph
              in update_run (i XOR unat generator_coordinate)
                   (push_if True (ps_x product, ps_z product) (c_mul_real C (mul_phase C (snd t) in_all) (rt_sin r))) runs)"

definition GATHER_OUTPUT_MAJOR_MIN_R :: nat where
  "GATHER_OUTPUT_MAJOR_MIN_R = 3"

definition gather_plan :: "'c coefficient \<Rightarrow> 'c delta_plan \<Rightarrow> 'c bucket_columns list \<Rightarrow> 'c gather_run list" where
  "gather_plan C plan old =
     (let runs = replicate (length old) run_reset
      in case plan of
           PlanLocal ptm coordinates has_id dense sort_kernel \<Rightarrow>
             if length old \<ge> push_bit GATHER_OUTPUT_MAJOR_MIN_R 1
             then gather_local_output_major C old runs ptm coordinates has_id dense
             else gather_local_input_major C old runs ptm coordinates has_id dense
         | PlanRotation r coordinate_identity generator_coordinate \<Rightarrow>
             fold (\<lambda>(i, source). fold (rotate_row C r coordinate_identity generator_coordinate i) (terms_of source))
               (enumerate 0 old) runs)"

type_synonym 'c extra_rows = "(u32 \<Rightarrow> 'c pauli_term list) option"

definition append_extra :: "'c extra_rows \<Rightarrow> u32 \<Rightarrow> 'c gather_run \<Rightarrow> 'c gather_run" where
  "append_extra extra beta run0 =
     (case extra of
        None \<Rightarrow> run0
      | Some rows \<Rightarrow> run0\<lparr>gr_rest := fold (\<lambda>(k, c) cols. columns_push cols k c) (rows beta) (gr_rest run0)\<rparr>)"

text \<open>The key columns the merge borrows for the identity stream of member \<open>j\<close>.\<close>

definition identity_columns :: "'c delta_plan \<Rightarrow> 'c bucket_columns list \<Rightarrow> nat \<Rightarrow> 'c gather_run \<Rightarrow> 'c bucket_columns" where
  "identity_columns plan old j run0 =
     (case plan of
        PlanLocal ptm coordinates has_id dense sort_kernel \<Rightarrow>
          if dense then (old ! j)\<lparr>col_coeff := col_coeff (gr_identity run0)\<rparr> else gr_identity run0
      | PlanRotation r coordinate_identity generator_coordinate \<Rightarrow>
          (old ! (j XOR unat coordinate_identity))\<lparr>col_coeff := col_coeff (gr_identity run0)\<rparr>)"

definition plan_kernel :: "'c delta_plan \<Rightarrow> sort_kernel" where
  "plan_kernel plan = (case plan of PlanLocal _ _ _ _ sort_kernel \<Rightarrow> sort_kernel | PlanRotation _ _ _ \<Rightarrow> Comparison)"

definition merge_member ::
    "nat \<Rightarrow> 'c coefficient \<Rightarrow> ('s, 'c) truncation_policy \<Rightarrow> 'c delta_plan \<Rightarrow> 'c bucket_columns list \<Rightarrow> nat \<times> 'c gather_run \<Rightarrow>
     'c bucket_columns list \<times> 'c sort_scratch \<Rightarrow> ('c bucket_columns list \<times> 'c sort_scratch) result" where
  "merge_member W C policy plan old = (\<lambda>(j, run0) (chunk, scratch).
     and_then (kernel_sort W (plan_kernel plan) (gr_rest run0) scratch) (\<lambda>(rest, scratch).
       Inr (chunk @ [merge_identity_and_rest C policy (identity_columns plan old j run0) rest columns_new], scratch)))"

definition fill_coset ::
    "nat \<Rightarrow> 'c coefficient \<Rightarrow> 'c delta_plan \<Rightarrow> ('s, 'c) truncation_policy \<Rightarrow> 'c extra_rows \<Rightarrow>
     'c bucket_columns list \<Rightarrow> u32 list \<Rightarrow> 'c sort_scratch \<Rightarrow> ('c bucket_columns list \<times> 'c sort_scratch) result" where
  "fill_coset W C plan policy extra chunk betas scratch =
     (let runs = map (\<lambda>(beta, run0). append_extra extra beta run0) (zip betas (gather_plan C plan chunk))
      in fold_result (merge_member W C policy plan chunk) (enumerate 0 runs) ([], scratch))"

section \<open>What a run receives\<close>

text \<open>The row an entry emits for a term, if any, and the rows it emits for a bucket.\<close>

definition entry_row :: "'c coefficient \<Rightarrow> 'c local_ptm \<Rightarrow> 'c delta_entry \<Rightarrow> 'c pauli_term \<Rightarrow> 'c pauli_term option" where
  "entry_row C ptm d t = emit C d (support_bits ptm (fst (fst t)) (snd (fst t))) (fst (fst t)) (snd (fst t)) (snd t)"

definition entry_rows :: "'c coefficient \<Rightarrow> 'c local_ptm \<Rightarrow> 'c delta_entry \<Rightarrow> 'c pauli_term list \<Rightarrow> 'c pauli_term list" where
  "entry_rows C ptm d ts = List.map_filter (entry_row C ptm d) ts"

lemma entry_rows_simps [simp]:
  "entry_rows C ptm d [] = []"
  "entry_rows C ptm d (t # ts) = (case entry_row C ptm d t of None \<Rightarrow> [] | Some r \<Rightarrow> [r]) @ entry_rows C ptm d ts"
  "entry_rows C ptm d (ts @ us) = entry_rows C ptm d ts @ entry_rows C ptm d us"
  by (simp_all add: entry_rows_def map_filter_def split: option.split)

lemma emit_all_rows: "emit_all C ptm (fst t) (snd t) = concat (map (\<lambda>d. entry_rows C ptm d [t]) (lp_deltas ptm))"
proof -
  have "List.map_filter f ds = concat (map (\<lambda>d. case f d of None \<Rightarrow> [] | Some r \<Rightarrow> [r]) ds)" for f :: "'b \<Rightarrow> 'd option" and ds
    by (induction ds) (simp_all split: option.split)
  then show ?thesis unfolding emit_all_def entry_rows_simps entry_row_def append_Nil2 .
qed

text \<open>Operations on single runs, one after the other: run \<open>j\<close> sees those addressed to it, in order.\<close>

lemma fold_update_run:
  assumes "j < length runs"
  shows "fold (\<lambda>(i, f). update_run i f) ops runs ! j = fold (\<lambda>f. f) (map snd (filter (\<lambda>p. fst p = j) ops)) (runs ! j)"
    "length (fold (\<lambda>(i, f). update_run i f) ops runs) = length runs"
  using assms by (induction ops arbitrary: runs) (auto simp: update_run_def nth_list_update)

text \<open>
  The identity stream: under a dense identity only its coefficients are pushed, one for every term; otherwise the rows.
  Either way a push changes the identity stream alone.
\<close>

definition identity_stream :: "bool \<Rightarrow> 'c pauli_term list \<Rightarrow> 'c bucket_columns \<Rightarrow> bool" where
  "identity_stream dense rows cols \<longleftrightarrow>
     (if dense then col_x cols = [] \<and> col_z cols = [] \<and> col_coeff cols = map snd rows else wf_columns cols \<and> terms_of cols = rows)"

definition identity_amplitude :: "'c local_ptm \<Rightarrow> key \<Rightarrow> 'c" where
  "identity_amplitude ptm k = de_amplitude (lp_deltas ptm ! 0) ! support_bits ptm (fst k) (snd k)"

definition identity_rows :: "'c coefficient \<Rightarrow> 'c local_ptm \<Rightarrow> bool \<Rightarrow> 'c pauli_term list \<Rightarrow> 'c pauli_term list" where
  "identity_rows C ptm dense ts =
     map (\<lambda>t. (fst t, c_mul C (snd t) (identity_amplitude ptm (fst t))))
       (if dense then ts else filter (\<lambda>t. is_nonzero C (identity_amplitude ptm (fst t))) ts)"

lemma identity_rows_simps:
  "identity_rows C ptm dense [] = []"
  "identity_rows C ptm dense (ts @ us) = identity_rows C ptm dense ts @ identity_rows C ptm dense us"
  by (simp_all add: identity_rows_def)

text \<open>One push on a run: a term of the identity stream, or an entry's row for a term.\<close>

definition apply_push :: "'c coefficient \<Rightarrow> 'c local_ptm \<Rightarrow> bool \<Rightarrow> 'c pauli_term + 'c delta_entry \<times> 'c pauli_term \<Rightarrow> 'c gather_run \<Rightarrow> 'c gather_run" where
  "apply_push C ptm dense p =
     (case p of Inl t \<Rightarrow> push_identity_row C ptm dense t | Inr (d, t) \<Rightarrow> push_rest_row C ptm d t)"

definition pushed_terms :: "('a + 'b) list \<Rightarrow> 'a list" where
  "pushed_terms ps = concat (map (case_sum (\<lambda>t. [t]) (\<lambda>_. [])) ps)"

definition pushed_rows :: "'c coefficient \<Rightarrow> 'c local_ptm \<Rightarrow> ('c pauli_term + 'c delta_entry \<times> 'c pauli_term) list \<Rightarrow> 'c pauli_term list" where
  "pushed_rows C ptm ps = concat (map (case_sum (\<lambda>_. []) (\<lambda>(d, t). entry_rows C ptm d [t])) ps)"

context coefficient_laws
begin

lemma push_rest_row_spec:
  assumes "wf_columns (gr_rest run0)"
  shows "terms_of (gr_rest (push_rest_row C ptm d t run0)) = terms_of (gr_rest run0) @ entry_rows C ptm d [t]"
    "wf_columns (gr_rest (push_rest_row C ptm d t run0))" "gr_identity (push_rest_row C ptm d t run0) = gr_identity run0"
  using columns_push_terms [OF assms] assms
  by (auto simp: push_rest_row_def push_if_def append_if_def Let_def entry_row_def emit_def eq_iff nonzero_iff xor_key_def de_mask_def)

lemma push_identity_row_spec:
  assumes "identity_stream dense rows (gr_identity run0)"
  shows "identity_stream dense (rows @ identity_rows C ptm dense [t]) (gr_identity (push_identity_row C ptm dense t run0))"
    "gr_rest (push_identity_row C ptm dense t run0) = gr_rest run0"
  using assms columns_push_terms [of "gr_identity run0"]
  by (auto simp: push_identity_row_def push_identity_coefficient_def push_identity_if_def append_if_def identity_stream_def
      identity_rows_def identity_amplitude_def Let_def)

lemma fold_pushes:
  assumes "wf_columns (gr_rest run0)" "identity_stream dense rows (gr_identity run0)"
  shows "terms_of (gr_rest (fold (apply_push C ptm dense) ps run0)) = terms_of (gr_rest run0) @ pushed_rows C ptm ps \<and>
    wf_columns (gr_rest (fold (apply_push C ptm dense) ps run0)) \<and>
    identity_stream dense (rows @ identity_rows C ptm dense (pushed_terms ps)) (gr_identity (fold (apply_push C ptm dense) ps run0))"
  using assms
proof (induction ps arbitrary: run0 rows)
  case (Cons p ps)
  show ?case
  proof (cases p)
    case (Inl t)
    note step = push_identity_row_spec [OF Cons.prems(2), of ptm t]
    show ?thesis
      using Cons.IH [of "push_identity_row C ptm dense t run0", OF _ step(1)] Cons.prems(1) step(2)
        identity_rows_simps(2) [of C ptm dense "[t]" "pushed_terms ps"]
      by (simp add: Inl apply_push_def pushed_rows_def pushed_terms_def)
  next
    case (Inr q)
    obtain d t where q: "q = (d, t)" by (cases q)
    note step = push_rest_row_spec [OF Cons.prems(1), of ptm d t]
    show ?thesis
      using Cons.IH [OF step(2)] Cons.prems(2) step by (simp add: Inr q apply_push_def pushed_rows_def pushed_terms_def)
  qed
qed (simp add: pushed_rows_def pushed_terms_def identity_rows_simps)

end

section \<open>Both gathers fill the runs alike\<close>

text \<open>The contents of run \<open>j\<close>: one stretch per entry, from the member the entry's coordinate names.\<close>

definition gathered :: "'c coefficient \<Rightarrow> 'c local_ptm \<Rightarrow> u32 list \<Rightarrow> bool \<Rightarrow> bool \<Rightarrow> 'c bucket_columns list \<Rightarrow> nat \<Rightarrow> 'c gather_run \<Rightarrow> bool" where
  "gathered C ptm coords has_id dense old j run0 \<longleftrightarrow>
     wf_columns (gr_rest run0) \<and>
     mset (terms_of (gr_rest run0)) =
       (\<Sum>e = of_bool has_id..<length (lp_deltas ptm). mset (entry_rows C ptm (lp_deltas ptm ! e) (terms_of (old ! (j XOR unat (coords ! e)))))) \<and>
     identity_stream dense (if has_id then identity_rows C ptm dense (terms_of (old ! j)) else []) (gr_identity run0)"

lemma drop_enumerate: "drop k (enumerate 0 xs) = map (\<lambda>e. (e, xs ! e)) [k..<length xs]"
  by (rule nth_equalityI) (simp_all add: nth_enumerate_eq)

lemma run_reset_props: "gr_rest run_reset = columns_new" "identity_stream dense [] (gr_identity run_reset)"
  by (simp_all add: run_reset_def identity_stream_def columns_new_def terms_of_def wf_columns_def)

text \<open>The pushes of a whole gather, each with the run it goes to.\<close>

definition scatter_pushes :: "'c local_ptm \<Rightarrow> u32 list \<Rightarrow> bool \<Rightarrow> nat \<Rightarrow> 'c pauli_term \<Rightarrow> (nat \<times> ('c pauli_term + 'c delta_entry \<times> 'c pauli_term)) list" where
  "scatter_pushes ptm coords has_id i t =
     (if has_id then [(i, Inl t)] else []) @
     map (\<lambda>e. (i XOR unat (coords ! e), Inr (lp_deltas ptm ! e, t))) [of_bool has_id..<length (lp_deltas ptm)]"

lemma scatter_row_pushes:
  "scatter_row C ptm coords has_id dense i t runs =
     fold (\<lambda>(i, f). update_run i f) (map (\<lambda>(j, p). (j, apply_push C ptm dense p)) (scatter_pushes ptm coords has_id i t)) runs"
  unfolding scatter_row_def scatter_pushes_def drop_enumerate fold_map
  by (simp add: comp_def apply_push_def fold_map)

definition pushes_to :: "nat \<Rightarrow> (nat \<times> 'p) list \<Rightarrow> 'p list" where
  "pushes_to j ps = map snd (filter (\<lambda>p. fst p = j) ps)"

text \<open>A gather that pushes row by row: run \<open>j\<close> takes the pushes addressed to it.\<close>

lemma scatter_fold:
  assumes "\<And>i t runs. row i t runs = fold (\<lambda>(i, f). update_run i f) (map (\<lambda>(j, p). (j, push p)) (pushes i t)) runs"
    "j < length runs"
  shows "fold (\<lambda>(i, source). fold (row i) (terms_of source)) (enumerate 0 old) runs ! j =
    fold push (pushes_to j (concat (map (\<lambda>i. concat (map (pushes i) (terms_of (old ! i)))) [0..<length old]))) (runs ! j)"
proof -
  have rows: "fold (row i) ts runs =
      fold (\<lambda>(i, f). update_run i f) (map (\<lambda>(j, p). (j, push p)) (concat (map (pushes i) ts))) runs" for i ts runs
    by (induction ts arbitrary: runs) (simp_all add: assms(1))
  have "fold (\<lambda>(i, source). fold (row i) (terms_of source)) (map (\<lambda>i. (i, old ! i)) is) runs =
      fold (\<lambda>(i, f). update_run i f) (map (\<lambda>(j, p). (j, push p))
        (concat (map (\<lambda>i. concat (map (pushes i) (terms_of (old ! i)))) is))) runs" for "is" runs
    by (induction "is" arbitrary: runs) (simp_all add: rows)
  moreover have "filter (\<lambda>p. fst p = j) (map (\<lambda>(j, p). (j, push p)) qs) = map (\<lambda>(j, p). (j, push p)) (filter (\<lambda>p. fst p = j) qs)" for qs
    by (induction qs) auto
  moreover have "enumerate 0 old = map (\<lambda>i. (i, old ! i)) [0..<length old]" using drop_enumerate [of 0 old] by simp
  ultimately show ?thesis
    unfolding pushes_to_def by (simp only: fold_update_run(1) [OF assms(2)]) (simp add: fold_map comp_def split_def)
qed

lemma pushes_to_simps:
  "pushes_to j [] = []" "pushes_to j (ps @ qs) = pushes_to j ps @ pushes_to j qs" "pushes_to j (concat pss) = concat (map (pushes_to j) pss)"
  by (simp_all add: pushes_to_def [abs_def] filter_concat map_concat comp_def)

lemma pushed_simps:
  "pushed_terms [] = []" "pushed_terms (ps @ qs) = pushed_terms ps @ pushed_terms qs"
  "pushed_terms (concat pss) = concat (map pushed_terms pss)"
  "pushed_rows C ptm [] = []" "pushed_rows C ptm (rs @ ss) = pushed_rows C ptm rs @ pushed_rows C ptm ss"
  "pushed_rows C ptm (concat rss) = concat (map (pushed_rows C ptm) rss)"
proof -
  show "pushed_terms (concat pss) = concat (map pushed_terms pss)" by (induction pss) (simp_all add: pushed_terms_def)
  show "pushed_rows C ptm (concat rss) = concat (map (pushed_rows C ptm) rss)"
    by (induction rss) (simp_all add: pushed_rows_def del: entry_rows_simps)
qed (simp_all add: pushed_terms_def pushed_rows_def)

lemma pushed_terms_map:
  "pushed_terms (map Inl ts) = ts" "pushed_terms (map (\<lambda>t. Inr (f t)) us) = []"
  "pushed_terms (pushes_to j (map (\<lambda>e. (g e, Inr (h e))) es)) = []"
  by (induction ts, simp_all add: pushed_terms_def, induction es, simp_all add: pushes_to_def)

lemma scatter_to_terms: "pushed_terms (pushes_to j (scatter_pushes ptm coords has_id i t)) = (if has_id \<and> i = j then [t] else [])"
  unfolding scatter_pushes_def pushes_to_simps pushed_simps pushed_terms_map by (simp add: pushes_to_def pushed_terms_def)

lemma concat_single: "j < n \<Longrightarrow> concat (map (\<lambda>i. if i = j then f i else []) [0..<n]) = f j"
proof -
  assume "j < n"
  then have "[0..<n] = [0..<j] @ j # [Suc j..<n]" using upt_add_eq_append [of 0 j "n - j"] upt_conv_Cons [of j n] by simp
  moreover have "concat (map (\<lambda>i. if i = j then f i else []) [0..<j]) = []" "concat (map (\<lambda>i. if i = j then f i else []) [Suc j..<n]) = []"
    by (auto simp: concat_eq_Nil_conv)
  ultimately show ?thesis by (simp only: map_append concat_append list.map concat.simps append_Nil append_Nil2 if_True simp_thms)
qed

lemma scatter_to_rows:
  "mset (pushed_rows C ptm (pushes_to j (scatter_pushes ptm coords has_id i t))) =
     (\<Sum>e = of_bool has_id..<length (lp_deltas ptm). if i XOR unat (coords ! e) = j then mset (entry_rows C ptm (lp_deltas ptm ! e) [t]) else {#})"
proof -
  have "mset (pushed_rows C ptm (pushes_to j (map (\<lambda>e. (f e, Inr (lp_deltas ptm ! e, t))) es))) =
      (\<Sum>e\<leftarrow>es. if f e = j then mset (entry_rows C ptm (lp_deltas ptm ! e) [t]) else {#})" for f :: "nat \<Rightarrow> nat" and es
    by (induction es) (simp_all add: pushes_to_def pushed_rows_def)
  moreover have "pushed_rows C ptm (pushes_to j (if has_id then [(i, Inl t)] else [])) = []"
    by (simp add: pushes_to_def pushed_rows_def)
  ultimately show ?thesis
    by (simp add: scatter_pushes_def pushes_to_simps pushed_simps interv_sum_list_conv_sum_set_nat)
qed

lemma xor_index_swap: "i XOR c = j \<longleftrightarrow> i = j XOR c" for i j c :: nat
  by (metis xor.right_neutral xor.assoc xor_self_eq)

text \<open>The pushes of the input-major gather that go to run \<open>j\<close>.\<close>

lemma input_major_rows:
  fixes old has_id
  assumes "j < n" "\<And>e. e < length (lp_deltas ptm) \<Longrightarrow> j XOR unat (coords ! e) < n"
  defines "ps \<equiv> pushes_to j (concat (map (\<lambda>i. concat (map (scatter_pushes ptm coords has_id i) (terms_of (old ! i)))) [0..<n]))"
  shows "pushed_terms ps = (if has_id then terms_of (old ! j) else [])"
    "mset (pushed_rows C ptm ps) = (\<Sum>e = of_bool has_id..<length (lp_deltas ptm).
       mset (entry_rows C ptm (lp_deltas ptm ! e) (terms_of (old ! (j XOR unat (coords ! e))))))"
proof -
  let ?E = "{of_bool has_id..<length (lp_deltas ptm)}" and ?rows = "\<lambda>e ts. mset (entry_rows C ptm (lp_deltas ptm ! e) ts)"
  have "concat (map (\<lambda>t. pushed_terms (pushes_to j (scatter_pushes ptm coords has_id i t))) ts) = (if has_id \<and> i = j then ts else [])" for i ts
    by (induction ts) (auto simp: scatter_to_terms)
  then have "pushed_terms ps = concat (map (\<lambda>i. if has_id \<and> i = j then terms_of (old ! i) else []) [0..<n])"
    by (simp add: ps_def pushes_to_simps pushed_simps comp_def)
  also have "\<dots> = (if has_id then terms_of (old ! j) else [])"
    using concat_single [OF assms(1), of "\<lambda>i. terms_of (old ! i)"] by (cases has_id) (simp_all add: concat_eq_Nil_conv)
  finally show "pushed_terms ps = (if has_id then terms_of (old ! j) else [])" .
  have member: "(\<Sum>t\<leftarrow>ts. mset (pushed_rows C ptm (pushes_to j (scatter_pushes ptm coords has_id i t)))) =
      (\<Sum>e \<in> ?E. if i XOR unat (coords ! e) = j then ?rows e ts else {#})" for i ts
  proof (induction ts)
    case (Cons t ts)
    have "entry_rows C ptm d (t # ts) = entry_rows C ptm d [t] @ entry_rows C ptm d ts" for d by simp
    then have "(\<Sum>e \<in> ?E. if i XOR unat (coords ! e) = j then ?rows e (t # ts) else {#}) =
        (\<Sum>e \<in> ?E. (if i XOR unat (coords ! e) = j then ?rows e [t] else {#}) + (if i XOR unat (coords ! e) = j then ?rows e ts else {#}))"
      by (intro sum.cong) (simp_all del: entry_rows_simps)
    with Cons show ?case by (simp only: list.map sum_list.Cons scatter_to_rows sum.distrib)
  qed (auto intro!: sum.neutral)
  have "mset (pushed_rows C ptm ps) = (\<Sum>i = 0..<n. \<Sum>e \<in> ?E. if i XOR unat (coords ! e) = j then ?rows e (terms_of (old ! i)) else {#})"
    by (simp only: ps_def pushes_to_simps pushed_simps map_map comp_def mset_concat member interv_sum_list_conv_sum_set_nat set_upt)
  also have "\<dots> = (\<Sum>e \<in> ?E. \<Sum>i = 0..<n. if i = j XOR unat (coords ! e) then ?rows e (terms_of (old ! i)) else {#})"
    by (subst sum.swap) (simp only: xor_index_swap)
  also have "\<dots> = (\<Sum>e \<in> ?E. ?rows e (terms_of (old ! (j XOR unat (coords ! e)))))"
    using assms(2) by (intro sum.cong) auto
  finally show "mset (pushed_rows C ptm ps) = (\<Sum>e \<in> ?E. ?rows e (terms_of (old ! (j XOR unat (coords ! e)))))" .
qed

context coefficient_laws
begin

lemma input_major_gathered:
  assumes "j < length old" "\<And>e. e < length (lp_deltas ptm) \<Longrightarrow> j XOR unat (coords ! e) < length old"
  shows "gathered C ptm coords has_id dense old j
    (gather_local_input_major C old (replicate (length old) run_reset) ptm coords has_id dense ! j)"
proof -
  define ops where "ops = concat (map (\<lambda>i. concat (map (scatter_pushes ptm coords has_id i) (terms_of (old ! i)))) [0..<length old])"
  have run: "gather_local_input_major C old (replicate (length old) run_reset) ptm coords has_id dense ! j =
      fold (apply_push C ptm dense) (pushes_to j ops) run_reset"
    unfolding gather_local_input_major_def ops_def using assms(1) by (subst scatter_fold [OF scatter_row_pushes]) simp_all
  have wf: "wf_columns (gr_rest run_reset)" and Nil: "terms_of (gr_rest run_reset) = []" by (simp_all add: run_reset_props)
  show ?thesis
    using fold_pushes [OF wf run_reset_props(2), of ptm dense "pushes_to j ops"]
      input_major_rows(1) [OF assms, where has_id = has_id and old = old and ptm = ptm, folded ops_def]
      input_major_rows(2) [OF assms, where has_id = has_id and old = old and C = C and ptm = ptm, folded ops_def]
    unfolding gathered_def run by (cases has_id) (simp_all add: identity_rows_simps Nil)
qed

lemma output_major_gathered:
  assumes "j < length old"
  shows "gathered C ptm coords has_id dense old j
    (gather_local_output_major C old (replicate (length old) run_reset) ptm coords has_id dense ! j)"
proof -
  let ?es = "[of_bool has_id..<length (lp_deltas ptm)]" and ?src = "\<lambda>e. terms_of (old ! (j XOR unat (coords ! e)))"
  define ps where "ps = (if has_id then map Inl (terms_of (old ! j)) else []) @
    concat (map (\<lambda>e. map (\<lambda>t. Inr (lp_deltas ptm ! e, t)) (?src e)) ?es)"
  have inl: "fold (apply_push C ptm dense) (map Inl ts) = fold (push_identity_row C ptm dense) ts" for ts
    by (simp add: fold_map comp_def apply_push_def)
  have inr: "fold (apply_push C ptm dense) (map (\<lambda>t. Inr (d, t)) ts) = fold (push_rest_row C ptm d) ts" for d ts
    by (simp add: fold_map comp_def apply_push_def)
  have rest: "fold (apply_push C ptm dense) (concat (map (\<lambda>e. map (\<lambda>t. Inr (lp_deltas ptm ! e, t)) (?src e)) es)) r =
      fold (\<lambda>(e, d). fold (push_rest_row C ptm d) (?src e)) (map (\<lambda>e. (e, lp_deltas ptm ! e)) es) r" for es r
    by (induction es arbitrary: r) (simp_all add: inr)
  have "gather_local_output_major C old (replicate (length old) run_reset) ptm coords has_id dense ! j =
      fold (apply_push C ptm dense) ps run_reset"
    using assms by (simp add: ps_def gather_local_output_major_def nth_enumerate_eq Let_def drop_enumerate inl rest)
  moreover have "pushed_terms ps = (if has_id then terms_of (old ! j) else [])"
    by (simp add: ps_def pushed_simps comp_def pushed_terms_map)
  moreover have "mset (pushed_rows C ptm ps) = (\<Sum>e \<in> set ?es. mset (entry_rows C ptm (lp_deltas ptm ! e) (?src e)))"
  proof -
    have "pushed_rows C ptm (map Inl ts) = []" "pushed_rows C ptm (map (\<lambda>t. Inr (d, t)) ts) = entry_rows C ptm d ts" for ts d
      by (induction ts) (simp_all add: pushed_rows_def)
    then show ?thesis by (simp add: ps_def pushed_simps comp_def mset_concat interv_sum_list_conv_sum_set_nat)
  qed
  moreover have wf: "wf_columns (gr_rest run_reset)" and Nil: "terms_of (gr_rest run_reset) = []" by (simp_all add: run_reset_props)
  note fold_pushes [OF wf run_reset_props(2), of ptm dense ps]
  ultimately show ?thesis by (cases has_id) (simp_all add: gathered_def identity_rows_simps Nil)
qed

end

end
