(* ===== verification/Coset_Streams.thy ===== *)
theory Coset_Streams
  imports Coset_Fill
begin

unbundle bit_operations_syntax

text \<open>
  What one coset task computes (\<open>engine/bucketed/coset_fill.rs\<close>): the rows of a bucket are one stretch per stream of the
  channel, each from the member the stream's coordinate names, and the fill leaves in every member the sums of exactly
  those rows.
\<close>

section \<open>Streams\<close>

text \<open>
  A prepared channel as a list of streams, each a bucket delta and a partial map on terms: one per table entry, or the
  two passes of a wide rotation.
\<close>

definition kept_rotation_row :: "'c coefficient \<Rightarrow> prepared_rotation \<Rightarrow> 'c pauli_term \<Rightarrow> 'c pauli_term" where
  "kept_rotation_row C r t =
     (fst t, if commutes_with \<lparr>ps_x = fst (fst t), ps_z = snd (fst t)\<rparr> (rt_generator r) then snd t
             else c_mul_real C (snd t) (rt_cos r))"

definition generator_row :: "'c coefficient \<Rightarrow> prepared_rotation \<Rightarrow> 'c pauli_term \<Rightarrow> 'c pauli_term option" where
  "generator_row C r t = emit_generator C r (fst (fst t)) (snd (fst t)) (snd t)"

definition streams :: "'c coefficient \<Rightarrow> 'c prepared \<Rightarrow> (u32 \<times> ('c pauli_term \<Rightarrow> 'c pauli_term option)) list" where
  "streams C pr =
     (case pr of
        Local p \<Rightarrow> map (\<lambda>d. (de_bucket_delta d, entry_row C p d)) (lp_deltas p)
      | Rotation r \<Rightarrow>
          [(rt_delta_identity r, \<lambda>t. Some (kept_rotation_row C r t)), (rt_delta_generator r, generator_row C r)])"

definition emitted :: "'c coefficient \<Rightarrow> 'c prepared \<Rightarrow> 'c pauli_term list \<Rightarrow> 'c pauli_term list" where
  "emitted C pr ts = concat (map (\<lambda>t. prepared_emit C pr (fst t) (snd t)) ts)"

lemma prepared_emit_streams:
  "prepared_emit C pr (fst t) (snd t) = concat (map (\<lambda>(\<delta>, f). List.map_filter f [t]) (streams C pr))"
proof (cases pr)
  case (Local p)
  then show ?thesis
    by (simp add: prepared_emit_def emit_all_rows streams_def comp_def entry_rows_def del: map_filter_simps)
next
  case (Rotation r)
  then show ?thesis
    by (simp add: prepared_emit_def streams_def kept_rotation_row_def generator_row_def split: option.split)
qed

definition prepared_ok :: "nat \<Rightarrow> nat \<Rightarrow> gf2_hash \<Rightarrow> 'c prepared \<Rightarrow> bool" where
  "prepared_ok W n h pr \<longleftrightarrow>
     (case pr of
        Local p \<Rightarrow> lp_ok W p \<and> buckets_ok W h p \<and> (\<forall>d \<in> set (lp_deltas p). key_ok W n (de_mask d)) \<and>
          (has_identity p \<longrightarrow> de_mask (lp_deltas p ! 0) = zero_key W \<and> length (de_amplitude (lp_deltas p ! 0)) = LOCAL_DIM)
      | Rotation r \<Rightarrow> wf_ps W (rt_generator r) \<and> key_ok W n (generator_mask r) \<and> rt_delta_identity r = 0 \<and>
          rt_delta_generator r = bucket_of h (generator_mask r))"

lemma key_ok_xor:
  assumes "key_ok W n k" "key_ok W n l"
  shows "key_ok W n (xor_key k l)"
proof -
  have wf: "wf_ps W \<lparr>ps_x = fst k, ps_z = snd k\<rparr>" "wf_ps W \<lparr>ps_x = fst l, ps_z = snd l\<rparr>"
    "wf_ps W \<lparr>ps_x = fst (xor_key k l), ps_z = snd (xor_key k l)\<rparr>"
    using assms by (simp_all add: key_ok_def wf_key_def wf_ps_def xor_key_def)
  show ?thesis
    using assms is_within_iff [OF wf(1)] is_within_iff [OF wf(2)] is_within_iff [OF wf(3)]
    by (auto simp: key_ok_def xor_key_def wf_key_def qbit_xor_words)
qed

lemma generator_row_eq:
  assumes "wf_ps W (rt_generator r)" "wf_key W (fst t)" "generator_row C r t = Some row"
  shows "fst row = xor_key (fst t) (generator_mask r)"
  using assms mul_assign_closed [of W "\<lparr>ps_x = fst (fst t), ps_z = snd (fst t)\<rparr>" "rt_generator r"]
  by (auto simp: generator_row_def emit_generator_def Let_def split_def generator_mask_def key_of_def wf_ps_def wf_key_def
      split: if_splits)

lemma key_ok_zero: "key_ok W n (zero_key W)"
proof -
  have wf: "wf_ps W \<lparr>ps_x = replicate W 0, ps_z = replicate W 0\<rparr>" by (simp add: wf_ps_def)
  show ?thesis
    using is_within_iff [OF wf, of n] by (simp add: key_ok_def zero_key_def wf_key_def)
qed

text \<open>Every stream shifts keys by one mask, whose bucket is the stream's delta.\<close>

lemma streams_mask:
  assumes "prepared_ok W n h pr" "(\<delta>, f) \<in> set (streams C pr)"
  shows "\<exists>m. key_ok W n m \<and> \<delta> = bucket_of h m \<and> (\<forall>t row. wf_key W (fst t) \<longrightarrow> f t = Some row \<longrightarrow> fst row = xor_key (fst t) m)"
proof (cases pr)
  case (Local p)
  with assms(2) obtain d where d: "d \<in> set (lp_deltas p)" "\<delta> = de_bucket_delta d" "f = entry_row C p d"
    by (auto simp: streams_def)
  with Local assms(1) have "key_ok W n (de_mask d) \<and> \<delta> = bucket_of h (de_mask d)"
    by (auto simp: prepared_ok_def buckets_ok_def)
  moreover have "fst row = xor_key (fst t) (de_mask d)" if "f t = Some row" for t row
    using that by (auto simp: d(3) entry_row_def emit_def Let_def xor_key_def de_mask_def split: if_splits)
  ultimately show ?thesis by blast
next
  case (Rotation r)
  with assms(1) have r: "wf_ps W (rt_generator r)" "key_ok W n (generator_mask r)" "rt_delta_identity r = 0"
      "rt_delta_generator r = bucket_of h (generator_mask r)"
    by (auto simp: prepared_ok_def)
  from Rotation assms(2) consider "\<delta> = 0" "f = (\<lambda>t. Some (kept_rotation_row C r t))"
    | "\<delta> = bucket_of h (generator_mask r)" "f = generator_row C r"
    by (auto simp: streams_def r)
  then show ?thesis
  proof cases
    case 1
    then show ?thesis
      using key_ok_zero bucket.index_zero [of h W, folded zero_key_def] by (intro exI [of _ "zero_key W"]) (auto simp: kept_rotation_row_def)
  next
    case 2
    then show ?thesis using r(2) generator_row_eq [OF r(1)] by blast
  qed
qed

lemma streams_bucket:
  assumes "prepared_ok W n h pr" "(\<delta>, f) \<in> set (streams C pr)" "key_ok W n (fst t)" "f t = Some row"
  shows "key_ok W n (fst row)" "bucket_of h (fst row) = bucket_of h (fst t) XOR \<delta>"
proof -
  have wf: "wf_key W (fst t)" using assms(3) by (simp add: key_ok_def)
  obtain m where m: "key_ok W n m" "\<delta> = bucket_of h m" "fst row = xor_key (fst t) m"
    using streams_mask [OF assms(1,2)] wf assms(4) by blast
  show "key_ok W n (fst row)" unfolding m(3) by (rule key_ok_xor [OF assms(3) m(1)])
  show "bucket_of h (fst row) = bucket_of h (fst t) XOR \<delta>"
    using bucket_of_xor [OF wf, of m] m(1) unfolding m(2,3) by (simp add: key_ok_def)
qed

lemma emitted_keys:
  assumes "prepared_ok W n h pr" "\<forall>t \<in> set ts. key_ok W n (fst t)" "row \<in> set (emitted C pr ts)"
  shows "key_ok W n (fst row)" "\<exists>t \<in> set ts. bucket_of h (fst t) XOR bucket_of h (fst row) \<in> fst ` set (streams C pr)"
proof -
  obtain t \<delta> f where t: "t \<in> set ts" "(\<delta>, f) \<in> set (streams C pr)" "f t = Some row"
    using assms(3) by (auto simp: emitted_def prepared_emit_streams split: option.splits)
  note row = streams_bucket [OF assms(1) t(2) _ t(3)]
  show "key_ok W n (fst row)" using row(1) assms(2) t(1) by blast
  have "bucket_of h (fst t) XOR bucket_of h (fst row) = \<delta>" using row(2) assms(2) t(1) by simp
  then show "\<exists>t \<in> set ts. bucket_of h (fst t) XOR bucket_of h (fst row) \<in> fst ` set (streams C pr)"
    using t(1,2) by force
qed

section \<open>The members of a coset\<close>

definition coset_buckets :: "gf2_span_index \<Rightarrow> u32 \<Rightarrow> u32 list" where
  "coset_buckets sp rep = map (\<lambda>j. coset_member sp rep (of_nat j)) [0..<coset_size sp]"

definition pivot_clear :: "gf2_span_index \<Rightarrow> u32 \<Rightarrow> bool" where
  "pivot_clear sp rep \<longleftrightarrow> (\<forall>v \<in> set (sp_basis sp). \<not> bit rep (highest_bit v))"

lemma coset_size_eq: "span_ok sp \<Longrightarrow> coset_size sp = 2 ^ length (sp_basis sp)"
  by (simp add: coset_size_def span_dimension_def push_bit_of_1)

lemma span_coordinates:
  assumes "span_ok sp" "\<delta> \<in> delta_span (sp_basis sp)"
  shows "\<delta> = xor_sel (sp_basis sp) (map (bit (coordinate_of bmi2 sp \<delta>)) [0..<length (sp_basis sp)])"
proof -
  obtain bs where bs: "length bs = length (sp_basis sp)" "\<delta> = xor_sel (sp_basis sp) bs"
    using assms(2) by (auto simp: delta_span_def)
  then have "bs = map (bit (coordinate_of bmi2 sp \<delta>)) [0..<length (sp_basis sp)]"
    using bit_xor_sel_pivot [OF span_ok_echelon [OF assms(1)] bs(1)]
    by (intro nth_equalityI) (simp_all add: bit_coordinate_of [OF assms(1)])
  with bs(2) show ?thesis by simp
qed

lemma member_shift:
  assumes "span_ok sp" "\<delta> \<in> delta_span (sp_basis sp)"
  shows "coset_member sp rep i XOR \<delta> = coset_member sp rep (i XOR coordinate_of bmi2 sp \<delta>)"
proof -
  let ?r = "length (sp_basis sp)" and ?c = "coordinate_of bmi2 sp \<delta>"
  have "map (bit (i XOR ?c)) [0..<?r] = map2 (\<noteq>) (map (bit i) [0..<?r]) (map (bit ?c) [0..<?r])"
    by (intro nth_equalityI) (simp_all add: bit_xor_iff)
  then have "xor_sel (sp_basis sp) (map (bit (i XOR ?c)) [0..<?r]) = xor_sel (sp_basis sp) (map (bit i) [0..<?r]) XOR \<delta>"
    by (simp only: xor_sel_xor length_map length_upt diff_zero flip: span_coordinates [OF assms, of bmi2])
  then show ?thesis by (simp add: coset_member_eq xor.assoc)
qed

lemma coordinate_bound:
  assumes "span_ok sp"
  shows "unat (coordinate_of bmi2 sp \<delta>) < coset_size sp"
proof -
  have "in_space (length (sp_basis sp)) (coordinate_of bmi2 sp \<delta>)"
    by (simp add: in_space_def bit_coordinate_of [OF assms])
  moreover have "length (sp_basis sp) < 32"
    using count_ones_nonpivot_mask(2) [OF assms] assms by (simp add: span_ok_def)
  ultimately show ?thesis by (simp add: in_space_iff_less coset_size_eq [OF assms])
qed

lemma coset_index_xor:
  assumes "span_ok sp" "j < coset_size sp"
  shows "j XOR unat (coordinate_of bmi2 sp \<delta>) < coset_size sp"
    "of_nat (j XOR unat (coordinate_of bmi2 sp \<delta>)) = of_nat j XOR coordinate_of bmi2 sp \<delta>"
proof -
  have "take_bit (length (sp_basis sp)) (j XOR unat (coordinate_of bmi2 sp \<delta>)) = j XOR unat (coordinate_of bmi2 sp \<delta>)"
    using assms coordinate_bound [OF assms(1), of bmi2 \<delta>] by (simp add: coset_size_eq take_bit_xor take_bit_nat_eq_self)
  then show "j XOR unat (coordinate_of bmi2 sp \<delta>) < coset_size sp"
    unfolding coset_size_eq [OF assms(1)] take_bit_nat_eq_self_iff .
  have "(of_nat (a XOR b) :: u32) = of_nat a XOR of_nat b" for a b
    by (rule bit_word_eqI) (simp add: bit_xor_iff bit_of_nat_iff possible_bit_word)
  then show "of_nat (j XOR unat (coordinate_of bmi2 sp \<delta>)) = of_nat j XOR coordinate_of bmi2 sp \<delta>" by simp
qed

lemma member_inj:
  assumes "span_ok sp" "pivot_clear sp rep" "i < coset_size sp" "j < coset_size sp"
    "coset_member sp rep (of_nat i) = coset_member sp rep (of_nat j)"
  shows "i = j"
proof -
  have clear: "\<And>v. v \<in> set (sp_basis sp) \<Longrightarrow> \<not> bit rep (highest_bit v)" using assms(2) by (simp add: pivot_clear_def)
  have coord: "coordinate_of True sp (coset_member sp rep i XOR rep) = take_bit (length (sp_basis sp)) i" for i
    by (rule coordinate_member(2) [OF assms(1) clear])
  have r: "length (sp_basis sp) < 32"
    using count_ones_nonpivot_mask(2) [OF assms(1)] assms(1) by (simp add: span_ok_def)
  have "unat (take_bit (length (sp_basis sp)) (of_nat n :: u32)) = n" if "n < coset_size sp" for n
    using that r power_strict_increasing [OF r, of "2 :: nat"]
    by (simp add: coset_size_eq [OF assms(1)] unsigned_take_bit_eq take_bit_nat_eq_self unat_of_nat)
  moreover have "take_bit (length (sp_basis sp)) (of_nat i :: u32) = take_bit (length (sp_basis sp)) (of_nat j)"
    using coord [of "of_nat i"] coord [of "of_nat j"] assms(5) by simp
  ultimately show "i = j" using assms(3,4) by metis
qed

text \<open>The input of a coset task: the buckets of one coset, as the invariant of the sum leaves them.\<close>

definition coset_input :: "nat \<Rightarrow> nat \<Rightarrow> gf2_hash \<Rightarrow> u32 list \<Rightarrow> 'c bucket_columns list \<Rightarrow> bool" where
  "coset_input W n h betas old \<longleftrightarrow>
     length old = length betas \<and>
     (\<forall>j < length betas. wf_columns (old ! j) \<and> run (terms_of (old ! j)) \<and>
       (\<forall>t \<in> set (terms_of (old ! j)). key_ok W n (fst t) \<and> bucket_of h (fst t) = betas ! j))"

text \<open>The rows of bucket \<open>\<beta>\<close> among those a list of terms emits.\<close>

definition rows_to :: "gf2_hash \<Rightarrow> u32 \<Rightarrow> 'c pauli_term list \<Rightarrow> 'c pauli_term list" where
  "rows_to h \<beta> rows = filter (\<lambda>r. bucket_of h (fst r) = \<beta>) rows"

lemma map_filter_concat: "List.map_filter f (concat xss) = concat (map (List.map_filter f) xss)"
  by (induction xss) (simp_all add: map_filter_def)

lemma stream_rows_to:
  assumes "prepared_ok W n h pr" "(\<delta>, f) \<in> set (streams C pr)" "\<forall>t \<in> set ts. key_ok W n (fst t) \<and> bucket_of h (fst t) = \<beta>'"
  shows "rows_to h \<beta> (List.map_filter f ts) = (if \<beta>' XOR \<delta> = \<beta> then List.map_filter f ts else [])"
  using assms(3)
proof (induction ts)
  case (Cons t ts)
  then show ?case
    using streams_bucket(2) [OF assms(1,2), of t] by (cases "f t") (simp_all add: rows_to_def)
qed (simp add: rows_to_def)

lemma emitted_mset:
  fixes C :: "'c coefficient"
  shows "mset (emitted C pr ts) = (\<Sum>(\<delta>, f)\<leftarrow>streams C pr. mset (List.map_filter f ts))"
proof (induction ts)
  case Nil
  show ?case by (simp add: emitted_def split_def)
next
  case (Cons t ts)
  have "mset (List.map_filter f (t # ts)) = mset (List.map_filter f [t]) + mset (List.map_filter f ts)"
    for f :: "'c pauli_term \<Rightarrow> 'c pauli_term option"
    by (simp split: option.split)
  moreover have "mset (emitted C pr (t # ts)) = (\<Sum>(\<delta>, f)\<leftarrow>streams C pr. mset (List.map_filter f [t])) + mset (emitted C pr ts)"
    unfolding emitted_def list.map concat.simps prepared_emit_streams by (simp add: mset_concat split_def comp_def)
  ultimately show ?case using Cons by (simp add: split_def sum_list_addf del: map_filter_simps)
qed

text \<open>
  Only the member a stream's coordinate names emits into member \<open>j\<close>'s bucket, so the rows of the bucket are one stretch
  per stream.
\<close>

lemma rows_of_member:
  fixes C :: "'c coefficient"
  assumes sp: "span_ok sp" "pivot_clear sp rep" and pr: "prepared_ok W n h pr" "fst ` set (streams C pr) \<subseteq> delta_span (sp_basis sp)"
    and old: "coset_input W n h (coset_buckets sp rep) old" and j: "j < coset_size sp"
  shows "mset (rows_to h (coset_buckets sp rep ! j) (emitted C pr (concat (map terms_of old)))) =
    (\<Sum>(\<delta>, f)\<leftarrow>streams C pr. mset (List.map_filter f (terms_of (old ! (j XOR unat (coordinate_of bmi2 sp \<delta>))))))"
proof -
  let ?\<beta> = "\<lambda>i. coset_member sp rep (of_nat i)" and ?m = "coset_size sp"
  have len: "length old = ?m" and terms: "\<forall>i < ?m. \<forall>t \<in> set (terms_of (old ! i)). key_ok W n (fst t) \<and> bucket_of h (fst t) = ?\<beta> i"
    using old by (simp_all add: coset_input_def coset_buckets_def)
  have stream: "mset (rows_to h (?\<beta> j) (List.map_filter f (concat (map terms_of old)))) =
      mset (List.map_filter f (terms_of (old ! (j XOR unat (coordinate_of bmi2 sp \<delta>)))))"
    if f: "(\<delta>, f) \<in> set (streams C pr)" for \<delta> and f :: "'c pauli_term \<Rightarrow> 'c pauli_term option"
  proof -
    let ?c = "unat (coordinate_of bmi2 sp \<delta>)"
    have \<delta>: "\<delta> \<in> delta_span (sp_basis sp)" using pr(2) f by force
    have hit: "?\<beta> i XOR \<delta> = ?\<beta> j \<longleftrightarrow> i = j XOR ?c" if "i < ?m" for i
      using member_shift [OF sp(1) \<delta>, of rep "of_nat i" bmi2] coset_index_xor [OF sp(1) that, of bmi2 \<delta>]
        member_inj [OF sp _ j, of "i XOR ?c"] xor_index_swap [of i ?c j] by metis
    have "List.map_filter f (concat (map terms_of old)) = concat (map (\<lambda>i. List.map_filter f (terms_of (old ! i))) [0..<?m])"
      using map_filter_concat [of f "map terms_of old"] map_nth [of old]
      by (metis (no_types, lifting) comp_def len map_map map_cong)
    then have "rows_to h (?\<beta> j) (List.map_filter f (concat (map terms_of old))) =
        concat (map (\<lambda>i. rows_to h (?\<beta> j) (List.map_filter f (terms_of (old ! i)))) [0..<?m])"
      by (simp add: rows_to_def [abs_def] filter_concat comp_def)
    also have "\<dots> = concat (map (\<lambda>i. if i = j XOR ?c then List.map_filter f (terms_of (old ! i)) else []) [0..<?m])"
    proof (intro arg_cong [of _ _ concat] map_cong refl)
      fix i assume "i \<in> set [0..<?m]"
      with terms have i: "i < ?m" "\<forall>t \<in> set (terms_of (old ! i)). key_ok W n (fst t) \<and> bucket_of h (fst t) = ?\<beta> i" by auto
      show "rows_to h (?\<beta> j) (List.map_filter f (terms_of (old ! i))) =
          (if i = j XOR ?c then List.map_filter f (terms_of (old ! i)) else [])"
        unfolding stream_rows_to [OF pr(1) f i(2)] hit [OF i(1)] ..
    qed
    also have "\<dots> = List.map_filter f (terms_of (old ! (j XOR ?c)))"
      by (rule concat_single [OF coset_index_xor(1) [OF sp(1) j]])
    finally show ?thesis by simp
  qed
  have "mset (rows_to h (?\<beta> j) rows) = filter_mset (\<lambda>r. bucket_of h (fst r) = ?\<beta> j) (mset rows)" for rows :: "'c pauli_term list"
    by (simp add: rows_to_def)
  moreover have "filter_mset P (\<Sum>(\<delta>, f)\<leftarrow>fs. mset (List.map_filter f ts)) = (\<Sum>(\<delta>, f)\<leftarrow>fs. filter_mset P (mset (List.map_filter f ts)))"
    for P fs and ts :: "'c pauli_term list" by (induction fs) auto
  ultimately have "mset (rows_to h (?\<beta> j) (emitted C pr (concat (map terms_of old)))) =
      (\<Sum>(\<delta>, f)\<leftarrow>streams C pr. mset (rows_to h (?\<beta> j) (List.map_filter f (concat (map terms_of old)))))"
    by (simp add: emitted_mset)
  also have "\<dots> = (\<Sum>(\<delta>, f)\<leftarrow>streams C pr. mset (List.map_filter f (terms_of (old ! (j XOR unat (coordinate_of bmi2 sp \<delta>))))))"
    using stream by (intro arg_cong [of _ _ sum_list] map_cong) auto
  finally show ?thesis using j by (simp add: coset_buckets_def)
qed

section \<open>What the merge of a member reads\<close>

text \<open>The pushes of the wide rotation's gather: a coefficient for the kept row, a row for the generator's.\<close>

definition rotation_pushes :: "'c coefficient \<Rightarrow> prepared_rotation \<Rightarrow> nat \<Rightarrow> nat \<Rightarrow> nat \<Rightarrow> 'c pauli_term \<Rightarrow> (nat \<times> ('c + 'c pauli_term)) list" where
  "rotation_pushes C r ci cg i t =
     (i XOR ci, Inl (snd (kept_rotation_row C r t))) #
     (case generator_row C r t of None \<Rightarrow> [] | Some row \<Rightarrow> [(i XOR cg, Inr row)])"

definition rotation_push :: "'c + 'c pauli_term \<Rightarrow> 'c gather_run \<Rightarrow> 'c gather_run" where
  "rotation_push p = case_sum push_identity_coefficient (\<lambda>row. push_if True (fst row) (snd row)) p"

definition right_pushes :: "('a + 'b) list \<Rightarrow> 'b list" where
  "right_pushes ps = concat (map (case_sum (\<lambda>_. []) (\<lambda>r. [r])) ps)"

lemma rotate_row_pushes:
  "rotate_row C r ci cg i t runs =
     fold (\<lambda>(i, f). update_run i f) (map (\<lambda>(j, p). (j, rotation_push p)) (rotation_pushes C r (unat ci) (unat cg) i t)) runs"
  by (simp add: rotate_row_def rotation_pushes_def rotation_push_def kept_rotation_row_def generator_row_def emit_generator_def
      Let_def split_def)

lemma fold_rotation_push:
  assumes "wf_columns (gr_rest run0)"
  shows "terms_of (gr_rest (fold rotation_push ps run0)) = terms_of (gr_rest run0) @ right_pushes ps \<and>
    wf_columns (gr_rest (fold rotation_push ps run0)) \<and>
    col_coeff (gr_identity (fold rotation_push ps run0)) = col_coeff (gr_identity run0) @ pushed_terms ps"
  using assms
proof (induction ps arbitrary: run0)
  case (Cons p ps)
  show ?case
  proof (cases p)
    case (Inl c)
    then show ?thesis
      using Cons.IH [of "push_identity_coefficient c run0"] Cons.prems
      by (simp add: rotation_push_def push_identity_coefficient_def right_pushes_def pushed_terms_def)
  next
    case (Inr row)
    then show ?thesis
      using Cons.IH [of "push_if True (fst row) (snd row) run0"] columns_push_terms [OF Cons.prems, of "fst row" "snd row"]
      by (simp add: rotation_push_def push_if_def append_if_def right_pushes_def pushed_terms_def)
  qed
qed (simp add: right_pushes_def pushed_terms_def)

lemma rotation_pushes_to:
  fixes C :: "'c coefficient" and r old
  assumes "j XOR ci < n" "j XOR cg < n"
  defines "ps \<equiv> pushes_to j (concat (map (\<lambda>i. concat (map (rotation_pushes C r ci cg i) (terms_of (old ! i)))) [0..<n]))"
  shows "pushed_terms ps = map (\<lambda>t. snd (kept_rotation_row C r t)) (terms_of (old ! (j XOR ci)))"
    "right_pushes ps = List.map_filter (generator_row C r) (terms_of (old ! (j XOR cg)))"
proof -
  have right_concat: "right_pushes (concat pss) = concat (map right_pushes pss)" for pss :: "('c + 'c pauli_term) list list"
    by (induction pss) (simp_all add: right_pushes_def)
  have left: "concat (map (\<lambda>t. pushed_terms (pushes_to j (rotation_pushes C r ci cg i t))) ts) =
      (if i = j XOR ci then map (\<lambda>t. snd (kept_rotation_row C r t)) ts else [])" for i ts
    by (induction ts)
      (auto simp: rotation_pushes_def pushes_to_def pushed_terms_def xor_index_swap split: option.split)
  have right: "concat (map (\<lambda>t. right_pushes (pushes_to j (rotation_pushes C r ci cg i t))) ts) =
      (if i = j XOR cg then List.map_filter (generator_row C r) ts else [])" for i ts
    by (induction ts)
      (auto simp: rotation_pushes_def pushes_to_def right_pushes_def xor_index_swap split: option.split)
  show "pushed_terms ps = map (\<lambda>t. snd (kept_rotation_row C r t)) (terms_of (old ! (j XOR ci)))"
    using concat_single [OF assms(1), of "\<lambda>i. map (\<lambda>t. snd (kept_rotation_row C r t)) (terms_of (old ! i))"]
    by (simp add: ps_def pushes_to_simps pushed_simps comp_def left)
  show "right_pushes ps = List.map_filter (generator_row C r) (terms_of (old ! (j XOR cg)))"
    using concat_single [OF assms(2), of "\<lambda>i. List.map_filter (generator_row C r) (terms_of (old ! i))"]
    by (simp add: ps_def pushes_to_simps right_concat comp_def right)
qed

lemma terms_of_new_coefficients:
  assumes "wf_columns cols" "length cs = columns_len cols"
  shows "terms_of (cols\<lparr>col_coeff := cs\<rparr>) = zip (map fst (terms_of cols)) cs" "wf_columns (cols\<lparr>col_coeff := cs\<rparr>)"
  using assms by (simp_all add: terms_of_def wf_columns_def columns_len_def)

lemma run_same_keys: "(\<And>t. fst (f t) = fst t) \<Longrightarrow> run (map f ts) \<longleftrightarrow> run ts"
  by (simp add: run_def comp_def)

lemma entry_rows_identity:
  assumes "coefficient_laws C" "prepared_ok W n h (Local p)" "has_identity p" "dense \<longrightarrow> entry_is_dense C p 0" "\<forall>t \<in> set ts. wf_key W (fst t)"
  shows "entry_rows C p (lp_deltas p ! 0) ts = identity_rows C p dense ts"
proof -
  let ?d = "lp_deltas p ! 0"
  note p = assms(2) [unfolded prepared_ok_def prepared.case]
  have zero: "de_mask ?d = zero_key W" and len: "length (de_amplitude ?d) = LOCAL_DIM" using p assms(3) by simp_all
  have row: "entry_row C p ?d t = (if identity_amplitude p (fst t) = c_zero C then None
      else Some (fst t, c_mul C (snd t) (identity_amplitude p (fst t))))" if "wf_key W (fst t)" for t
    using xor_key_zero(1) [OF that, folded zero]
    by (simp add: entry_row_def emit_def identity_amplitude_def coefficient_laws.eq_iff [OF assms(1)] xor_key_def de_mask_def)
  have "identity_amplitude p (fst t) \<noteq> c_zero C" if "dense" "wf_key W (fst t)" for t
  proof -
    have wf: "wf_key W (fst (fst t), snd (fst t))" using that(2) by simp
    have "support_bits p (fst (fst t)) (snd (fst t)) < 4 ^ lp_num p"
      using support_bits_eq [of W p "fst (fst t)" "snd (fst t)", OF _ wf] p lp_ok_dim(1) [of W p] local_pattern_bound [of "lp_support p" "fst t"]
      by simp
    moreover have "4 ^ lp_num p \<le> LOCAL_DIM" using lp_ok_dim(3) [of W p] p by blast
    ultimately show ?thesis
      using assms(4) that(1) lp_ok_dim(2) [of W p] p len
      by (auto simp: entry_is_dense_def Let_def list_all_length identity_amplitude_def coefficient_laws.eq_iff [OF assms(1)])
  qed
  with row assms(5) show ?thesis
    by (induction ts) (auto simp: identity_rows_def coefficient_laws.nonzero_iff [OF assms(1)])
qed

text \<open>The identity and the rest columns of a member hold its bucket's rows, the identity stream in strict key order.\<close>

definition member_ready :: "'c delta_plan \<Rightarrow> 'c bucket_columns list \<Rightarrow> nat \<Rightarrow> 'c gather_run \<Rightarrow> 'c pauli_term multiset \<Rightarrow> bool" where
  "member_ready plan old j run0 rows \<longleftrightarrow>
     wf_columns (gr_rest run0) \<and> wf_columns (identity_columns plan old j run0) \<and> run (terms_of (identity_columns plan old j run0)) \<and>
     mset (terms_of (identity_columns plan old j run0)) + mset (terms_of (gr_rest run0)) = rows"

lemma gathered_ready:
  fixes C :: "'c coefficient" and p has_id dense coords kernel_kind
  assumes C: "coefficient_laws C" and p: "prepared_ok W n h (Local p)" and g: "gathered C p coords (has_identity p) dense old j run0"
    and dense: "dense = (has_identity p \<and> entry_is_dense C p 0)"
    and old: "wf_columns (old ! j)" "run (terms_of (old ! j))" "\<forall>t \<in> set (terms_of (old ! j)). wf_key W (fst t)"
    and c0: "has_identity p \<Longrightarrow> coords ! 0 = 0"
  shows "member_ready (PlanLocal p coords (has_identity p) dense sk) old j run0
    (\<Sum>e = 0..<length (lp_deltas p). mset (entry_rows C p (lp_deltas p ! e) (terms_of (old ! (j XOR unat (coords ! e))))))"
proof -
  define rows where "rows = (if has_identity p then identity_rows C p dense (terms_of (old ! j)) else [])"
  let ?E = "\<lambda>e. mset (entry_rows C p (lp_deltas p ! e) (terms_of (old ! (j XOR unat (coords ! e)))))"
  let ?idn = "identity_columns (PlanLocal p coords (has_identity p) dense sk) old j run0"
  have stream: "identity_stream dense rows (gr_identity run0)" using g by (simp add: gathered_def rows_def)
  have idn: "terms_of ?idn = rows \<and> wf_columns ?idn"
  proof (cases dense)
    case True
    with dense have rows: "rows = map (\<lambda>t. (fst t, c_mul C (snd t) (identity_amplitude p (fst t)))) (terms_of (old ! j))"
      by (simp add: rows_def identity_rows_def)
    have "length (map snd rows) = columns_len (old ! j)" using length_terms_of [OF old(1)] by (simp add: rows)
    moreover have "map fst (terms_of (old ! j)) = map fst rows" by (simp add: rows)
    ultimately show ?thesis
      using terms_of_new_coefficients [OF old(1), of "map snd rows"] True stream
      by (simp add: identity_columns_def identity_stream_def zip_map_fst_snd)
  next
    case False
    with stream show ?thesis by (simp add: identity_columns_def identity_stream_def)
  qed
  have "run rows"
    using old(2) run_filter [OF old(2)]
    by (simp add: rows_def identity_rows_def run_same_keys)
  moreover have "mset rows + (\<Sum>e = of_bool (has_identity p)..<length (lp_deltas p). ?E e) = (\<Sum>e = 0..<length (lp_deltas p). ?E e)"
  proof (cases "has_identity p")
    case True
    then have "0 < length (lp_deltas p)" by (auto simp: has_identity_def)
    moreover have "mset rows = ?E 0"
      using entry_rows_identity [OF C p True _ old(3), of dense] True dense c0 by (simp add: rows_def)
    ultimately show ?thesis using True by (simp add: sum.atLeast_Suc_lessThan)
  qed (simp add: rows_def)
  ultimately show ?thesis using idn g by (simp add: member_ready_def gathered_def)
qed

lemma rotation_ready:
  fixes C :: "'c coefficient" and r old
  assumes old: "wf_columns (old ! j)" "run (terms_of (old ! j))" and c: "ci = 0" "j < length old" "j XOR unat cg < length old"
  defines "run0 \<equiv> gather_plan C (PlanRotation r ci cg) old ! j"
  shows "member_ready (PlanRotation r ci cg) old j run0
    (mset (map (kept_rotation_row C r) (terms_of (old ! j))) + mset (List.map_filter (generator_row C r) (terms_of (old ! (j XOR unat cg)))))"
proof -
  define ps where "ps = pushes_to j (concat (map (\<lambda>i. concat (map (rotation_pushes C r (unat ci) (unat cg) i) (terms_of (old ! i)))) [0..<length old]))"
  have "run0 = fold rotation_push ps run_reset"
    using c(2) unfolding run0_def gather_plan_def Let_def delta_plan.case ps_def
    by (subst scatter_fold [OF rotate_row_pushes]) simp_all
  moreover have "pushed_terms ps = map (\<lambda>t. snd (kept_rotation_row C r t)) (terms_of (old ! j))"
    "right_pushes ps = List.map_filter (generator_row C r) (terms_of (old ! (j XOR unat cg)))"
    using rotation_pushes_to [of j "unat ci" "length old" "unat cg" C r old] c by (simp_all add: ps_def)
  ultimately have rest: "wf_columns (gr_rest run0)" "terms_of (gr_rest run0) = List.map_filter (generator_row C r) (terms_of (old ! (j XOR unat cg)))"
    and cs: "col_coeff (gr_identity run0) = map snd (map (kept_rotation_row C r) (terms_of (old ! j)))"
    using fold_rotation_push [of run_reset ps] by (simp_all add: run_reset_def columns_new_def wf_columns_def terms_of_def)
  have "map fst (terms_of (old ! j)) = map fst (map (kept_rotation_row C r) (terms_of (old ! j)))"
    by (simp add: kept_rotation_row_def)
  then have idn: "terms_of (identity_columns (PlanRotation r ci cg) old j run0) = map (kept_rotation_row C r) (terms_of (old ! j))"
      "wf_columns (identity_columns (PlanRotation r ci cg) old j run0)"
    using terms_of_new_coefficients [OF old(1), of "map snd (map (kept_rotation_row C r) (terms_of (old ! j)))"] length_terms_of [OF old(1)]
    by (simp_all only: identity_columns_def delta_plan.case c(1) unsigned_0 xor.right_neutral cs zip_map_fst_snd length_map)
  have "run (map (kept_rotation_row C r) (terms_of (old ! j)))"
    using old(2) by (simp add: kept_rotation_row_def run_same_keys)
  with rest idn show ?thesis by (simp add: member_ready_def)
qed

lemma length_gather_plan [simp]: "length (gather_plan C plan old) = length old"
proof -
  have run: "length (update_run i f runs) = length runs" for i f runs by (simp add: update_run_def)
  have inv: "length (fold g xs runs) = length runs" if "\<And>x runs. length (g x runs) = length runs"
    for g :: "'x \<Rightarrow> 'r list \<Rightarrow> 'r list" and xs runs
    using that by (induction xs arbitrary: runs) simp_all
  have "length (scatter_row C ptm coords has_id dense i t runs) = length runs" for ptm coords has_id dense i t runs
    by (simp add: scatter_row_def split_def run inv)
  moreover have "length (rotate_row C r ci cg i t runs) = length runs" for r ci cg i t runs
    by (simp add: rotate_row_def split_def run Let_def)
  ultimately show ?thesis
    by (simp add: gather_plan_def Let_def gather_local_input_major_def gather_local_output_major_def split_def inv split: delta_plan.split)
qed

section \<open>The fill of a coset\<close>

lemma local_streams_sum:
  "(\<Sum>e = 0..<length (lp_deltas p). mset (entry_rows C p (lp_deltas p ! e) (src (de_bucket_delta (lp_deltas p ! e))))) =
     (\<Sum>(\<delta>, f)\<leftarrow>streams C (Local p). mset (List.map_filter f (src \<delta>)))"
  by (simp add: streams_def comp_def entry_rows_def sum_list_sum_nth)

lemma plan_ready:
  fixes C :: "'c coefficient"
  assumes C: "coefficient_laws C" and sp: "span_ok sp" "pivot_clear sp rep"
    and pr: "prepared_ok W n h pr" "fst ` set (streams C pr) \<subseteq> delta_span (sp_basis sp)"
    and old: "coset_input W n h (coset_buckets sp rep) old" and j: "j < coset_size sp"
  shows "member_ready (delta_plan_new C bmi2 pr sp knobs) old j (gather_plan C (delta_plan_new C bmi2 pr sp knobs) old ! j)
    (mset (rows_to h (coset_buckets sp rep ! j) (emitted C pr (concat (map terms_of old)))))"
proof -
  let ?c = "coordinate_of bmi2 sp"
  have len: "length old = coset_size sp" and oldj: "wf_columns (old ! j)" "run (terms_of (old ! j))"
      "\<forall>t \<in> set (terms_of (old ! j)). wf_key W (fst t)"
    using old j by (auto simp: coset_input_def coset_buckets_def key_ok_def)
  have c0: "?c 0 = 0" by (rule bit_word_eqI) (simp add: bit_coordinate_of [OF sp(1)])
  note index = coset_index_xor(1) [OF sp(1) j, of bmi2]
  have "member_ready (delta_plan_new C bmi2 pr sp knobs) old j (gather_plan C (delta_plan_new C bmi2 pr sp knobs) old ! j)
      (\<Sum>(\<delta>, f)\<leftarrow>streams C pr. mset (List.map_filter f (terms_of (old ! (j XOR unat (?c \<delta>))))))"
  proof (cases pr)
    case (Local p)
    let ?coords = "map (\<lambda>d. ?c (de_bucket_delta d)) (lp_deltas p)" and ?dense = "has_identity p \<and> entry_is_dense C p 0"
    let ?run = "gather_plan C (delta_plan_new C bmi2 pr sp knobs) old ! j"
    have g: "gathered C p ?coords (has_identity p) ?dense old j ?run"
      using coefficient_laws.output_major_gathered [OF C, of j old p ?coords "has_identity p" ?dense]
        coefficient_laws.input_major_gathered [OF C, of j old p ?coords "has_identity p" ?dense] j len index
      by (simp add: Local delta_plan_new_def gather_plan_def Let_def)
    have id0: "?coords ! 0 = 0" if "has_identity p"
    proof -
      have p: "lp_deltas p \<noteq> []" "de_mask (lp_deltas p ! 0) = zero_key W" "buckets_ok W h p"
        using that pr(1) by (auto simp: Local prepared_ok_def has_identity_def)
      then have "de_bucket_delta (lp_deltas p ! 0) = 0"
        using bucket.index_zero [of h W, folded zero_key_def] by (simp add: buckets_ok_def)
      then show ?thesis using p(1) c0 by simp
    qed
    show ?thesis
      using gathered_ready [OF C pr(1) [unfolded Local] g refl oldj id0]
        local_streams_sum [of C p "\<lambda>\<delta>. terms_of (old ! (j XOR unat (?c \<delta>)))"]
      by (simp add: Local delta_plan_new_def Let_def)
  next
    case (Rotation r)
    have ci: "?c (rt_delta_identity r) = 0" using pr(1) c0 by (simp add: Rotation prepared_ok_def)
    have "List.map_filter (\<lambda>t. Some (kept_rotation_row C r t)) ts = map (kept_rotation_row C r) ts" for ts
      by (induction ts) simp_all
    with rotation_ready [OF oldj(1,2) ci _ index [of "rt_delta_generator r", folded len], where C = C and r = r] j len
    show ?thesis by (simp add: Rotation delta_plan_new_def streams_def ci)
  qed
  with rows_of_member [OF sp pr old j, of bmi2] show ?thesis by simp
qed

definition received :: "'c extra_rows \<Rightarrow> u32 \<Rightarrow> 'c pauli_term list" where
  "received extra \<beta> = (case extra of None \<Rightarrow> [] | Some rows \<Rightarrow> rows \<beta>)"

definition received_ok :: "nat \<Rightarrow> nat \<Rightarrow> gf2_hash \<Rightarrow> 'c extra_rows \<Rightarrow> bool" where
  "received_ok W n h extra \<longleftrightarrow> (\<forall>\<beta>. \<forall>row \<in> set (received extra \<beta>). key_ok W n (fst row) \<and> bucket_of h (fst row) = \<beta>)"

lemma append_extra_terms:
  assumes "wf_columns (gr_rest run0)"
  shows "terms_of (gr_rest (append_extra extra \<beta> run0)) = terms_of (gr_rest run0) @ received extra \<beta>"
    "wf_columns (gr_rest (append_extra extra \<beta> run0))" "gr_identity (append_extra extra \<beta> run0) = gr_identity run0"
proof -
  have "terms_of (fold (\<lambda>(k, c) cols. columns_push cols k c) rows cols) = terms_of cols @ rows \<and>
      wf_columns (fold (\<lambda>(k, c) cols. columns_push cols k c) rows cols)" if "wf_columns cols" for rows :: "'a pauli_term list" and cols
    using that
  proof (induction rows arbitrary: cols)
    case (Cons row rows)
    then show ?case using columns_push_terms [OF Cons.prems, of "fst row" "snd row"] by (simp add: split_def)
  qed simp
  with assms show "terms_of (gr_rest (append_extra extra \<beta> run0)) = terms_of (gr_rest run0) @ received extra \<beta>"
    "wf_columns (gr_rest (append_extra extra \<beta> run0))" "gr_identity (append_extra extra \<beta> run0) = gr_identity run0"
    by (auto simp: append_extra_def received_def split: option.split)
qed

lemma identity_columns_extra: "identity_columns plan old j (append_extra extra \<beta> run0) = identity_columns plan old j run0"
  by (simp add: identity_columns_def append_extra_def split: option.split delta_plan.split)

text \<open>The merges of a coset's members, one after the other.\<close>

lemma merge_members:
  assumes "coefficient_laws C"
    "\<forall>(j, run0) \<in> set ops. run (terms_of (identity_columns plan old j run0)) \<and> wf_rows W (gr_rest run0) \<and>
       length (col_x (gr_rest run0)) < 2 ^ 32"
  shows "\<exists>outs scratch'. fold_result (merge_member W C policy plan old) ops (chunk, scratch) = Inr (chunk @ outs, scratch') \<and>
    list_all2 (\<lambda>(j, run0) out. wf_columns out \<and>
      is_reduced C policy (terms_of (identity_columns plan old j run0) @ terms_of (gr_rest run0)) (terms_of out)) ops outs"
  using assms(2)
proof (induction ops arbitrary: chunk scratch)
  case (Cons op ops)
  obtain j run0 where op: "op = (j, run0)" by (cases op)
  let ?idn = "identity_columns plan old j run0"
  obtain rest scratch1 where step: "kernel_sort W (plan_kernel plan) (gr_rest run0) scratch = Inr (rest, scratch1)"
      "wf_columns (merge_identity_and_rest C policy ?idn rest columns_new)"
      "is_reduced C policy (terms_of ?idn @ terms_of (gr_rest run0)) (terms_of (merge_identity_and_rest C policy ?idn rest columns_new))"
    using sort_then_merge [OF assms(1), of ?idn W "gr_rest run0" "plan_kernel plan" scratch policy] Cons.prems by (auto simp: op)
  let ?out = "merge_identity_and_rest C policy ?idn rest columns_new"
  obtain outs scratch' where rec: "fold_result (merge_member W C policy plan old) ops (chunk @ [?out], scratch1) = Inr ((chunk @ [?out]) @ outs, scratch')"
      "list_all2 (\<lambda>(j, run0) out. wf_columns out \<and>
        is_reduced C policy (terms_of (identity_columns plan old j run0) @ terms_of (gr_rest run0)) (terms_of out)) ops outs"
    using Cons.IH [of "chunk @ [?out]" scratch1] Cons.prems by auto
  show ?case
    using step rec by (intro exI [of _ "?out # outs"] exI [of _ scratch']) (simp add: op merge_member_def)
qed simp

lemma fill_coset_ok:
  fixes C :: "'c coefficient" and W h extra
  assumes C: "coefficient_laws C" and sp: "span_ok sp" "pivot_clear sp rep"
    and pr: "prepared_ok W n h pr" "fst ` set (streams C pr) \<subseteq> delta_span (sp_basis sp)"
    and old: "coset_input W n h (coset_buckets sp rep) old" and extra: "received_ok W n h extra"
  defines "rows \<equiv> \<lambda>j. rows_to h (coset_buckets sp rep ! j) (emitted C pr (concat (map terms_of old))) @ received extra (coset_buckets sp rep ! j)"
  assumes bound: "\<forall>j < coset_size sp. length (rows j) < 2 ^ 32"
  shows "\<exists>out scratch'. fill_coset W C (delta_plan_new C bmi2 pr sp knobs) policy extra old (coset_buckets sp rep) scratch = Inr (out, scratch') \<and>
    length out = length old \<and>
    (\<forall>j < coset_size sp. wf_columns (out ! j) \<and> is_reduced C policy (rows j) (terms_of (out ! j)))"
proof -
  let ?plan = "delta_plan_new C bmi2 pr sp knobs" and ?betas = "coset_buckets sp rep"
  define runs where "runs = map (\<lambda>(beta, run0). append_extra extra beta run0) (zip ?betas (gather_plan C ?plan old))"
  have len: "length old = coset_size sp" "length runs = coset_size sp"
    using old by (simp_all add: coset_input_def coset_buckets_def runs_def)
  have ready: "wf_columns (gr_rest (runs ! j))" "run (terms_of (identity_columns ?plan old j (runs ! j)))"
      "mset (terms_of (identity_columns ?plan old j (runs ! j)) @ terms_of (gr_rest (runs ! j))) = mset (rows j)" if j: "j < coset_size sp" for j
  proof -
    have nth: "runs ! j = append_extra extra (?betas ! j) (gather_plan C ?plan old ! j)"
      using j len by (simp add: runs_def coset_buckets_def)
    from plan_ready [OF C sp pr old j, of bmi2 knobs] show "wf_columns (gr_rest (runs ! j))" "run (terms_of (identity_columns ?plan old j (runs ! j)))"
      "mset (terms_of (identity_columns ?plan old j (runs ! j)) @ terms_of (gr_rest (runs ! j))) = mset (rows j)"
      using append_extra_terms [of "gather_plan C ?plan old ! j" extra "?betas ! j"]
      by (auto simp: nth member_ready_def identity_columns_extra rows_def add.assoc [symmetric])
  qed
  have fine: "run (terms_of (identity_columns ?plan old j (runs ! j))) \<and> wf_rows W (gr_rest (runs ! j)) \<and> length (col_x (gr_rest (runs ! j))) < 2 ^ 32"
    if j: "j < coset_size sp" for j
  proof -
    have "\<forall>t \<in> set (concat (map terms_of old)). key_ok W n (fst t)"
    proof
      fix t assume "t \<in> set (concat (map terms_of old))"
      then obtain i where "i < length old" "t \<in> set (terms_of (old ! i))" by (auto simp: in_set_conv_nth [of _ old])
      with old show "key_ok W n (fst t)" by (auto simp: coset_input_def)
    qed
    then have "key_ok W n (fst row)" if "row \<in> set (rows j)" for row
      using that emitted_keys(1) [OF pr(1)] extra unfolding rows_def rows_to_def received_ok_def set_append set_filter by blast
    then have keys: "\<forall>row \<in> set (rows j). wf_key W (fst row)" by (simp add: key_ok_def)
    have "mset (terms_of (gr_rest (runs ! j))) \<subseteq># mset (rows j)" using ready(3) [OF j] by (metis mset_append mset_subset_eq_add_right)
    then have "set (terms_of (gr_rest (runs ! j))) \<subseteq> set (rows j)" "length (terms_of (gr_rest (runs ! j))) \<le> length (rows j)"
      using set_mset_mono size_mset_mono by fastforce+
    with keys ready(1,2) [OF j] bound j show ?thesis
      using length_terms_of [OF ready(1) [OF j]] by (auto simp: wf_rows_def columns_len_def wf_columns_def)
  qed
  have "\<forall>(j, run0) \<in> set (enumerate 0 runs). run (terms_of (identity_columns ?plan old j run0)) \<and> wf_rows W (gr_rest run0) \<and>
      length (col_x (gr_rest run0)) < 2 ^ 32"
    using fine len by (auto simp: in_set_enumerate_eq)
  from merge_members [OF C this, where policy = policy and chunk = "[]" and scratch = scratch] obtain outs scratch'
    where outs: "fold_result (merge_member W C policy ?plan old) (enumerate 0 runs) ([], scratch) = Inr (outs, scratch')"
      "list_all2 (\<lambda>(j, run0) out. wf_columns out \<and>
        is_reduced C policy (terms_of (identity_columns ?plan old j run0) @ terms_of (gr_rest run0)) (terms_of out)) (enumerate 0 runs) outs"
    by auto
  have "wf_columns (outs ! j) \<and> is_reduced C policy (rows j) (terms_of (outs ! j))" if j: "j < coset_size sp" for j
    using list_all2_nthD [OF outs(2), of j] j len
    by (auto simp: nth_enumerate_eq intro: coefficient_laws.reduced_perm [OF C _ ready(3) [OF j, symmetric]])
  with outs len show ?thesis
    by (auto simp: fill_coset_def runs_def dest: list_all2_lengthD)
qed

end
