(* ===== verification/Coset_Loop.thy ===== *)
theory Coset_Loop
  imports Coset_Streams Octave_Window
begin

unbundle bit_operations_syntax

text \<open>
  The coset loop of \<open>engine/bucketed.rs\<close>: every coset of the span is one task, which takes the coset's buckets out, cuts
  them, fills them, counts their octaves and puts them back. A parallel run is a schedule, the list of (worker, coset)
  pairs in the order the tasks take effect; the tasks touch disjoint buckets. The fill is a function argument, with its
  worker's scratch and a state shared by all tasks (the rotation layer's supports; nothing for the general fill) threaded
  through. The counts taken ahead of the next layer's export are not modelled.
\<close>

section \<open>The code\<close>

type_synonym ('c, 'x, 'w) coset_kernel_fun =
  "'c bucket_columns list \<Rightarrow> u32 list \<Rightarrow> 'x \<Rightarrow> 'w \<Rightarrow> ('c bucket_columns list \<times> 'x \<times> 'w) result"

record ('c, 'x) slots =
  sl_buckets :: "'c bucket_columns list"
  sl_counts :: "u32 list list"
  sl_shared :: 'x

record 'w coset_scratch =
  cs_work :: 'w
  cs_octave_totals :: "u64 list"

definition MIN_COSETS_FOR_PARALLEL :: nat where
  "MIN_COSETS_FOR_PARALLEL = 2"

definition cut_bucket :: "'c coefficient \<Rightarrow> boundary_cut option \<Rightarrow> nat \<Rightarrow> 'c bucket_columns \<Rightarrow> 'c bucket_columns" where
  "cut_bucket C bcut b cols = (case bcut of None \<Rightarrow> cols | Some bc \<Rightarrow> apply_to_bucket C bc b cols)"

definition put_slots :: "u32 list \<Rightarrow> 'a list \<Rightarrow> 'a list \<Rightarrow> 'a list" where
  "put_slots betas vs slots = fold (\<lambda>(beta, v) slots. slots[unat beta := v]) (zip betas vs) slots"

definition run_coset ::
    "bool \<Rightarrow> 'c coefficient \<Rightarrow> gf2_span_index \<Rightarrow> boundary_cut option \<Rightarrow> octave_window option \<Rightarrow> ('c, 'x, 'w) coset_kernel_fun \<Rightarrow>
     u32 \<Rightarrow> ('c, 'x) slots \<Rightarrow> 'w coset_scratch \<Rightarrow> (nat \<times> ('c, 'x) slots \<times> 'w coset_scratch) result" where
  "run_coset bmi2 C sp bcut window fill coset slots scratch =
     (let representative = representative_at bmi2 sp coset;
          betas = coset_buckets sp representative
      in and_then (assert_that (list_all (\<lambda>beta. unat beta < length (sl_buckets slots)) betas) IndexOutOfBounds) (\<lambda>_.
         let members = map (\<lambda>beta. cut_bucket C bcut (unat beta) (sl_buckets slots ! unat beta)) betas
         in and_then (fill members betas (sl_shared slots) (cs_work scratch)) (\<lambda>(members, shared, work).
            let counts = (case window of None \<Rightarrow> [] | Some w \<Rightarrow> map (\<lambda>cols. window_count C w (col_coeff cols)) members)
            in Inr (sum_list (map columns_len members),
                    \<lparr>sl_buckets = put_slots betas members (sl_buckets slots), sl_counts = put_slots betas counts (sl_counts slots),
                     sl_shared = shared\<rparr>,
                    \<lparr>cs_work = work, cs_octave_totals = foldl totals_add (cs_octave_totals scratch) counts\<rparr>))))"

text \<open>A worker's step of a schedule; \<open>rayon::current_thread_index\<close> is the worker's number.\<close>

definition schedule_step ::
    "(u32 \<Rightarrow> ('c, 'x) slots \<Rightarrow> 'w coset_scratch \<Rightarrow> (nat \<times> ('c, 'x) slots \<times> 'w coset_scratch) result) \<Rightarrow>
     nat \<times> u32 \<Rightarrow> nat \<times> ('c, 'x) slots \<times> 'w coset_scratch list \<Rightarrow> (nat \<times> ('c, 'x) slots \<times> 'w coset_scratch list) result" where
  "schedule_step task = (\<lambda>(worker, coset) (len, slots, workers).
     and_then (assert_that (worker < length workers) IndexOutOfBounds) (\<lambda>_.
       and_then (task coset slots (workers ! worker)) (\<lambda>(l, slots, scratch).
         Inr (len + l, slots, workers[worker := scratch]))))"

definition all_cosets :: "gf2_span_index \<Rightarrow> u32 list" where
  "all_cosets sp = map of_nat [0..<num_cosets sp]"

definition coset_loop ::
    "bool \<Rightarrow> 'c coefficient \<Rightarrow> gf2_span_index \<Rightarrow> boundary_cut option \<Rightarrow> octave_window option \<Rightarrow> ('c, 'x, 'w) coset_kernel_fun \<Rightarrow>
     'w \<Rightarrow> nat \<Rightarrow> (nat \<times> u32) list \<Rightarrow> ('c, 'x) slots \<Rightarrow> 'w coset_scratch \<Rightarrow> 'w coset_scratch list \<Rightarrow>
     (nat \<times> u64 list \<times> ('c, 'x) slots \<times> 'w coset_scratch \<times> 'w coset_scratch list) result" where
  "coset_loop bmi2 C sp bcut window fill fresh pool schedule slots task workers =
     (let run1 = run_coset bmi2 C sp bcut window fill
      in if num_cosets sp < MIN_COSETS_FOR_PARALLEL
         then and_then (fold_result (schedule_step run1) (map (Pair 0) (all_cosets sp)) (0, slots, [task])) (\<lambda>(len, slots, tasks).
                Inr (len, cs_octave_totals (tasks ! 0), slots, (tasks ! 0)\<lparr>cs_octave_totals := totals_default\<rparr>, workers))
         else let pool = max pool 1;
                  workers = workers @ replicate (pool - length workers) \<lparr>cs_work = fresh, cs_octave_totals = totals_default\<rparr>
              in and_then (fold_result (schedule_step run1) schedule (0, slots, workers)) (\<lambda>(len, slots, workers).
                 Inr (len, foldl (\<lambda>totals w. totals_merge totals (cs_octave_totals w)) totals_default workers, slots, task,
                      map (\<lambda>w. w\<lparr>cs_octave_totals := totals_default\<rparr>) workers)))"

section \<open>The cosets partition the buckets\<close>

definition coset_of :: "gf2_span_index \<Rightarrow> nat \<Rightarrow> nat" where
  "coset_of sp b = unat (rank_of_representative True sp (representative_of sp (of_nat b)))"

lemma num_cosets_eq: "span_ok sp \<Longrightarrow> num_cosets sp = 2 ^ (sp_bits sp - length (sp_basis sp))"
  using count_ones_nonpivot_mask(2) [of sp] by (simp add: num_cosets_def power_diff)

lemma representative_at_clear: "span_ok sp \<Longrightarrow> pivot_clear sp (representative_at bmi2 sp c)"
  using representative_at_props(1) by (auto simp: pivot_clear_def)

lemma set_coset_buckets:
  assumes "span_ok sp" "c < num_cosets sp"
  shows "unat ` set (coset_buckets sp (representative_at bmi2 sp (of_nat c))) = {b. b < 2 ^ sp_bits sp \<and> coset_of sp b = c}"
proof -
  let ?rep = "representative_at bmi2 sp (of_nat c)"
  note rep = representative_at_props [OF assms(1)]
  have bits: "sp_bits sp < 32" using assms(1) by (simp add: span_ok_def)
  have "(2 :: nat) ^ (sp_bits sp - length (sp_basis sp)) \<le> 2 ^ 32" using bits by (intro power_increasing) simp_all
  then have c32: "c < 2 ^ 32" using assms(2) unfolding num_cosets_eq [OF assms(1)] by linarith
  have rank: "rank_of_representative True sp ?rep = of_nat c"
  proof -
    have "take_bit (sp_bits sp - length (sp_basis sp)) (of_nat c :: u32) = of_nat c"
      using assms(2) c32
      by (simp add: num_cosets_eq [OF assms(1)] word_unat_eq_iff unsigned_take_bit_eq take_bit_nat_eq_self unat_of_nat)
    then show ?thesis
      unfolding rank_of_representative_def representative_at_def pext_pdep count_ones_nonpivot_mask(1) [OF assms(1)] .
  qed
  show ?thesis
  proof (intro set_eqI iffI)
    fix b assume "b \<in> unat ` set (coset_buckets sp ?rep)"
    then obtain j where b: "b = unat (coset_member sp ?rep (of_nat j))" by (auto simp: coset_buckets_def)
    have "\<And>v. v \<in> set (sp_basis sp) \<Longrightarrow> in_space (sp_bits sp) v" using assms(1) by (simp add: span_ok_def)
    then have "in_space (sp_bits sp) (coset_member sp ?rep (of_nat j))"
      unfolding coset_member_eq by (intro in_space_xor rep(2) in_space_xor_sel)
    moreover have "representative_of sp (coset_member sp ?rep (of_nat j)) = ?rep"
      by (rule coordinate_member(1) [OF assms(1) rep(1)])
    ultimately show "b \<in> {b. b < 2 ^ sp_bits sp \<and> coset_of sp b = c}"
      using rank c32 in_space_iff_less [OF bits] by (simp add: b coset_of_def unat_of_nat)
  next
    fix b assume "b \<in> {b. b < 2 ^ sp_bits sp \<and> coset_of sp b = c}"
    then have b: "b < 2 ^ sp_bits sp" "coset_of sp b = c" by auto
    let ?\<beta> = "of_nat b :: u32"
    have unat: "unat ?\<beta> = b"
      using b(1) power_strict_increasing [OF bits, of "2 :: nat"] by (simp add: unat_of_nat)
    then have space: "in_space (sp_bits sp) ?\<beta>" using b(1) in_space_iff_less [OF bits] by simp
    have rep_eq: "representative_of sp ?\<beta> = ?rep"
    proof -
      have "of_nat c = rank_of_representative True sp (representative_of sp ?\<beta>)" using b(2) by (auto simp: coset_of_def)
      with representative_at_rank [OF assms(1) space, of bmi2 True] show ?thesis by simp
    qed
    let ?j = "unat (coordinate_of True sp (?\<beta> XOR ?rep))"
    have "coset_member sp ?rep (of_nat ?j) = ?\<beta>" using member_coordinate [OF assms(1), of ?\<beta> True] rep_eq by simp
    then have "?\<beta> \<in> (\<lambda>j. coset_member sp ?rep (of_nat j)) ` {0..<coset_size sp}"
      using coordinate_bound [OF assms(1), of True "?\<beta> XOR ?rep"] by (intro image_eqI [of _ _ ?j]) (simp_all only: atLeastLessThan_iff zero_le)
    then have "?\<beta> \<in> set (coset_buckets sp ?rep)" by (simp add: coset_buckets_def)
    with unat show "b \<in> unat ` set (coset_buckets sp ?rep)" by force
  qed
qed

lemma distinct_coset_buckets:
  assumes "span_ok sp"
  shows "distinct (map unat (coset_buckets sp (representative_at bmi2 sp c)))"
  using member_inj [OF assms representative_at_clear [OF assms]]
  by (auto simp: coset_buckets_def distinct_map comp_def inj_on_def word_unat_eq_iff)

lemma coset_of_bound:
  assumes "span_ok sp"
  shows "coset_of sp b < num_cosets sp"
proof -
  have "in_space (sp_bits sp - length (sp_basis sp)) (rank_of_representative True sp v)" for v
    using count_ones_nonpivot_mask(1) [OF assms] by (simp add: in_space_def rank_of_representative_def bit_pext)
  moreover have "sp_bits sp - length (sp_basis sp) < 32" using assms by (auto simp: span_ok_def)
  ultimately show ?thesis by (simp add: coset_of_def num_cosets_eq [OF assms] in_space_iff_less)
qed

text \<open>Writing to distinct slots.\<close>

lemma put_slots_nth:
  assumes "distinct (map unat betas)" "length vs = length betas" "\<forall>\<beta> \<in> set betas. unat \<beta> < length slots"
  shows "length (put_slots betas vs slots) = length slots"
    "j < length betas \<Longrightarrow> put_slots betas vs slots ! unat (betas ! j) = vs ! j"
    "b \<notin> unat ` set betas \<Longrightarrow> put_slots betas vs slots ! b = slots ! b"
proof -
  have "length (put_slots betas vs slots) = length slots \<and>
      (\<forall>j < length betas. put_slots betas vs slots ! unat (betas ! j) = vs ! j) \<and>
      (\<forall>b. b \<notin> unat ` set betas \<longrightarrow> put_slots betas vs slots ! b = slots ! b)"
    using assms
  proof (induction betas arbitrary: vs slots)
    case (Cons \<beta> betas)
    obtain v vs' where vs: "vs = v # vs'" using Cons.prems(2) by (cases vs) auto
    note IH = Cons.IH [of vs' "slots[unat \<beta> := v]"]
    have step: "put_slots (\<beta> # betas) vs slots = put_slots betas vs' (slots[unat \<beta> := v])" by (simp add: put_slots_def vs)
    have "unat \<beta> \<notin> unat ` set betas" using Cons.prems(1) by simp
    then show ?case
      unfolding step using IH Cons.prems vs by (auto simp: nth_Cons split: nat.split)
  qed (simp add: put_slots_def)
  then show "length (put_slots betas vs slots) = length slots"
    "j < length betas \<Longrightarrow> put_slots betas vs slots ! unat (betas ! j) = vs ! j"
    "b \<notin> unat ` set betas \<Longrightarrow> put_slots betas vs slots ! b = slots ! b"
    by blast+
qed

lemma sum_put_slots:
  fixes f :: "'a \<Rightarrow> 'b::comm_monoid_add"
  assumes "distinct (map unat betas)" "length vs = length betas" "\<forall>\<beta> \<in> set betas. unat \<beta> < length slots"
  shows "(\<Sum>b \<in> unat ` set betas. f (put_slots betas vs slots ! b)) = (\<Sum>v\<leftarrow>vs. f v)"
proof -
  have "(\<Sum>b \<in> unat ` set betas. f (put_slots betas vs slots ! b)) = (\<Sum>b\<leftarrow>map unat betas. f (put_slots betas vs slots ! b))"
    using assms(1) by (subst sum_list_distinct_conv_sum_set) simp_all
  also have "map (\<lambda>b. f (put_slots betas vs slots ! b)) (map unat betas) = map f vs"
    by (rule nth_equalityI) (simp_all add: assms(2) put_slots_nth(2) [OF assms])
  finally show ?thesis .
qed

lemma sum_list_replace: "i < length xs \<Longrightarrow> sum_list (xs[i := x]) + xs ! i = sum_list xs + (x :: 'a::comm_monoid_add)"
  by (induction xs arbitrary: i) (auto simp: ac_simps split: nat.split)

section \<open>What the loop leaves\<close>

text \<open>The rows that end up in bucket \<open>\<beta>\<close>: those the terms emit into it, and those received for it.\<close>

definition bucket_rows ::
    "gf2_hash \<Rightarrow> ('c pauli_term \<Rightarrow> 'c pauli_term list) \<Rightarrow> (u32 \<Rightarrow> 'c pauli_term list) \<Rightarrow> 'c pauli_term list \<Rightarrow> u32 \<Rightarrow> 'c pauli_term list" where
  "bucket_rows h emits incoming ts \<beta> = rows_to h \<beta> (concat (map emits ts)) @ incoming \<beta>"

definition bucket_done ::
    "'c coefficient \<Rightarrow> ('s, 'c) truncation_policy \<Rightarrow> octave_window option \<Rightarrow> (u32 \<Rightarrow> 'c pauli_term list) \<Rightarrow>
     (u32 \<Rightarrow> 'c pauli_term list \<Rightarrow> 'x \<Rightarrow> bool) \<Rightarrow> ('c, 'x) slots \<Rightarrow> nat \<Rightarrow> bool" where
  "bucket_done C policy window rows side_out slots b \<longleftrightarrow>
     wf_columns (sl_buckets slots ! b) \<and> is_reduced C policy (rows (of_nat b)) (terms_of (sl_buckets slots ! b)) \<and>
     (\<forall>w. window = Some w \<longrightarrow> sl_counts slots ! b = window_count C w (col_coeff (sl_buckets slots ! b))) \<and>
     side_out (of_nat b) (terms_of (sl_buckets slots ! b)) (sl_shared slots)"

definition done_buckets :: "gf2_span_index \<Rightarrow> nat set \<Rightarrow> nat set" where
  "done_buckets sp D = {b. b < 2 ^ sp_bits sp \<and> coset_of sp b \<in> D}"

definition loop_inv ::
    "'c coefficient \<Rightarrow> ('s, 'c) truncation_policy \<Rightarrow> octave_window option \<Rightarrow> (u32 \<Rightarrow> 'c pauli_term list) \<Rightarrow>
     (u32 \<Rightarrow> 'c pauli_term list \<Rightarrow> 'x \<Rightarrow> bool) \<Rightarrow> (u32 \<Rightarrow> 'c pauli_term list \<Rightarrow> 'x \<Rightarrow> bool) \<Rightarrow> gf2_span_index \<Rightarrow>
     boundary_cut option \<Rightarrow> 'c bucket_columns list \<Rightarrow> nat set \<Rightarrow> nat \<times> ('c, 'x) slots \<times> 'w coset_scratch list \<Rightarrow> bool" where
  "loop_inv C policy window rows side_in side_out sp bcut bs D = (\<lambda>(len, slots, workers).
     length (sl_buckets slots) = length bs \<and> (window \<noteq> None \<longrightarrow> length (sl_counts slots) = length bs) \<and>
     (\<forall>b \<in> done_buckets sp D. bucket_done C policy window rows side_out slots b) \<and>
     (\<forall>b < length bs. b \<notin> done_buckets sp D \<longrightarrow> sl_buckets slots ! b = bs ! b \<and>
        side_in (of_nat b) (terms_of (cut_bucket C bcut b (bs ! b))) (sl_shared slots)) \<and>
     len = (\<Sum>b \<in> done_buckets sp D. columns_len (sl_buckets slots ! b)) \<and>
     (\<forall>wk \<in> set workers. length (cs_octave_totals wk) = WINDOW_OCTAVES + 2) \<and>
     (\<forall>k < WINDOW_OCTAVES + 2. (\<Sum>wk\<leftarrow>workers. cs_octave_totals wk ! k) =
        (if window = None then 0 else \<Sum>b \<in> done_buckets sp D. ucast (sl_counts slots ! b ! k))))"

text \<open>One more coset put back keeps the loop's invariant.\<close>

lemma loop_inv_put:
  fixes betas out window slots scratch x' and C :: "'c coefficient"
  defines "counts \<equiv> case window of None \<Rightarrow> [] | Some w \<Rightarrow> map (\<lambda>cols. window_count C w (col_coeff cols)) out"
  defines "slots' \<equiv> \<lparr>sl_buckets = put_slots betas out (sl_buckets slots), sl_counts = put_slots betas counts (sl_counts slots), sl_shared = x'\<rparr>"
  assumes inv: "loop_inv C policy window rows side_in side_out sp bcut bs D (len, slots, workers)"
    and betas: "unat ` set betas = {b. b < 2 ^ sp_bits sp \<and> coset_of sp b = c}" "distinct (map unat betas)" "c \<notin> D" "length bs = 2 ^ sp_bits sp" "sp_bits sp < 32"
    and out: "length out = length betas" "\<forall>j < length betas. wf_columns (out ! j) \<and> is_reduced C policy (rows (betas ! j)) (terms_of (out ! j)) \<and>
      side_out (betas ! j) (terms_of (out ! j)) x'"
    and frame: "\<forall>\<beta> ts. \<beta> \<notin> set betas \<longrightarrow> side_in \<beta> ts x' = side_in \<beta> ts (sl_shared slots) \<and> side_out \<beta> ts x' = side_out \<beta> ts (sl_shared slots)"
    and wk: "wk < length workers"
  shows "loop_inv C policy window rows side_in side_out sp bcut bs (insert c D) (len + sum_list (map columns_len out), slots',
    workers[wk := \<lparr>cs_work = w', cs_octave_totals = foldl totals_add (cs_octave_totals (workers ! wk)) counts\<rparr>])"
proof -
  let ?D = "done_buckets sp D" and ?B = "unat ` set betas" and ?D' = "done_buckets sp (insert c D)"
  note I = inv [unfolded loop_inv_def prod.case]
  have split: "?D' = ?D \<union> ?B" "?D \<inter> ?B = {}" "finite ?D" "finite ?B" using betas(1,3) by (auto simp: done_buckets_def)
  have disj: "b \<notin> ?B" if "b \<in> ?D" for b using split(2) that by blast
  have range: "\<forall>\<beta> \<in> set betas. unat \<beta> < length (sl_buckets slots)"
  proof
    fix \<beta> assume "\<beta> \<in> set betas"
    then have "unat \<beta> \<in> ?B" by (rule imageI)
    then show "unat \<beta> < length (sl_buckets slots)" unfolding betas(1) using I betas(4) by simp
  qed
  note put = put_slots_nth [OF betas(2) out(1) range]
  have counts: "length counts = (if window = None then 0 else length betas)" using out(1) by (simp add: counts_def split: option.split)
  have crange: "\<forall>\<beta> \<in> set betas. unat \<beta> < length (sl_counts slots)" if "window \<noteq> None" using I range that by simp
  note putc = put_slots_nth [OF betas(2) _ crange, of counts]
  have foreign: "of_nat b \<notin> set betas" if "b \<notin> ?B" "b < length bs" for b
  proof
    assume "of_nat b \<in> set betas"
    then have "unat (of_nat b :: u32) \<in> ?B" by (rule imageI)
    moreover have "unat (of_nat b :: u32) = b"
      using that(2) betas(4) power_strict_increasing [OF betas(5), of "2 :: nat"] by (simp add: unat_of_nat)
    ultimately show False using that(1) by simp
  qed
  have other: "bucket_done C policy window rows side_out slots' b" if "b \<in> ?D" for b
  proof -
    have b: "b \<notin> ?B" "b < length bs" "bucket_done C policy window rows side_out slots b"
      using that split(2) I betas(4) by (auto simp: done_buckets_def)
    moreover have "window \<noteq> None \<Longrightarrow> sl_counts slots' ! b = sl_counts slots ! b" using putc(3) b(1) counts by (simp add: slots'_def)
    ultimately show ?thesis
      using frame foreign [OF b(1,2)] by (auto simp: bucket_done_def slots'_def put(3))
  qed
  have mine: "bucket_done C policy window rows side_out slots' b" if "b \<in> ?B" for b
  proof -
    obtain \<beta> where \<beta>: "\<beta> \<in> set betas" "b = unat \<beta>" using \<open>b \<in> ?B\<close> by (rule imageE)
    then obtain j where j: "j < length betas" "b = unat (betas ! j)" by (metis in_set_conv_nth)
    have "sl_counts slots' ! b = counts ! j" if "window \<noteq> None" using putc(2) j that counts by (simp add: slots'_def)
    then show ?thesis using out j by (auto simp: bucket_done_def slots'_def put(2) counts_def)
  qed
  have rest: "sl_buckets slots' ! b = bs ! b \<and> side_in (of_nat b) (terms_of (cut_bucket C bcut b (bs ! b))) (sl_shared slots')"
    if "b < length bs" "b \<notin> ?D'" for b
    using that I frame foreign [of b] split(1) by (auto simp: slots'_def put(3))
  have len: "len + sum_list (map columns_len out) = (\<Sum>b \<in> ?D'. columns_len (sl_buckets slots' ! b))"
  proof -
    have "(\<Sum>b \<in> ?D. columns_len (sl_buckets slots' ! b)) = (\<Sum>b \<in> ?D. columns_len (sl_buckets slots ! b))"
      by (rule sum.cong) (simp_all add: slots'_def put(3) [OF disj])
    then have "(\<Sum>b \<in> ?D. columns_len (sl_buckets slots' ! b)) = len" using I by simp
    moreover have "(\<Sum>b \<in> ?B. columns_len (sl_buckets slots' ! b)) = sum_list (map columns_len out)"
      unfolding slots'_def slots.simps by (rule sum_put_slots [OF betas(2) out(1) range])
    ultimately show ?thesis using split by (simp add: sum.union_disjoint)
  qed
  let ?new = "\<lparr>cs_work = w', cs_octave_totals = foldl totals_add (cs_octave_totals (workers ! wk)) counts\<rparr>"
  have lens: "\<forall>wk \<in> set workers. length (cs_octave_totals wk) = WINDOW_OCTAVES + 2" "\<forall>c \<in> set counts. length c = WINDOW_OCTAVES + 2"
    using I by (auto simp: counts_def window_count_nth split: option.splits)
  note fold = foldl_totals_add [OF bspec [OF lens(1) nth_mem [OF wk]] lens(2)]
  have totals: "(\<Sum>wk\<leftarrow>workers[wk := ?new]. cs_octave_totals wk ! k) =
      (if window = None then 0 else \<Sum>b \<in> ?D'. ucast (sl_counts slots' ! b ! k))" if k: "k < WINDOW_OCTAVES + 2" for k
  proof -
    have "(\<Sum>wk\<leftarrow>workers[wk := ?new]. cs_octave_totals wk ! k) = (\<Sum>wk\<leftarrow>workers. cs_octave_totals wk ! k) + (\<Sum>c\<leftarrow>counts. ucast (c ! k))"
      using sum_list_replace [of wk "map (\<lambda>wk. cs_octave_totals wk ! k) workers" "cs_octave_totals ?new ! k"] fold(2) [OF k] wk
      by (simp add: map_update)
    moreover have "(\<Sum>b \<in> ?D'. ucast (sl_counts slots' ! b ! k) :: u64) = (\<Sum>b \<in> ?D. ucast (sl_counts slots ! b ! k)) + (\<Sum>c\<leftarrow>counts. ucast (c ! k))"
      if w: "window \<noteq> None"
    proof -
      have "(\<Sum>b \<in> ?D. ucast (sl_counts slots' ! b ! k) :: u64) = (\<Sum>b \<in> ?D. ucast (sl_counts slots ! b ! k))"
        by (rule sum.cong) (use counts w in \<open>simp_all add: slots'_def putc(3) [OF _ w disj]\<close>)
      moreover have "(\<Sum>b \<in> ?B. ucast (sl_counts slots' ! b ! k) :: u64) = (\<Sum>c\<leftarrow>counts. ucast (c ! k))"
        unfolding slots'_def slots.simps by (rule sum_put_slots [OF betas(2) _ crange [OF w]]) (use counts w in simp)
      ultimately show ?thesis using split by (simp add: sum.union_disjoint)
    qed
    ultimately show ?thesis using I k counts by auto
  qed
  have "\<forall>w \<in> set (workers[wk := ?new]). length (cs_octave_totals w) = WINDOW_OCTAVES + 2"
    using lens(1) fold(1) set_update_subset_insert [of workers wk ?new] by auto
  moreover have "length (sl_buckets slots') = length bs" "window \<noteq> None \<longrightarrow> length (sl_counts slots') = length bs"
    using I put(1) putc(1) counts by (auto simp: slots'_def)
  moreover have "\<forall>b \<in> ?D'. bucket_done C policy window rows side_out slots' b" unfolding split(1) using other mine by blast
  ultimately show ?thesis
    unfolding loop_inv_def prod.case using len
    by (intro conjI) (assumption | use rest in blast | use totals in blast)+
qed

lemma foldl_totals_merge:
  assumes "length acc = WINDOW_OCTAVES + 2" "\<forall>w \<in> set ws. length (f w) = WINDOW_OCTAVES + 2"
  shows "length (foldl (\<lambda>totals w. totals_merge totals (f w)) acc ws) = WINDOW_OCTAVES + 2"
    "k < WINDOW_OCTAVES + 2 \<Longrightarrow> foldl (\<lambda>totals w. totals_merge totals (f w)) acc ws ! k = acc ! k + (\<Sum>w\<leftarrow>ws. f w ! k)"
  using assms by (induction ws arbitrary: acc) (simp_all add: totals_merge_def add.assoc)

definition drained :: "'w coset_scratch \<Rightarrow> bool" where
  "drained scratch \<longleftrightarrow> cs_octave_totals scratch = totals_default"

text \<open>A schedule of the pool: every coset once, each on one of the workers.\<close>

definition pool_schedule :: "gf2_span_index \<Rightarrow> nat \<Rightarrow> (nat \<times> u32) list \<Rightarrow> bool" where
  "pool_schedule sp pool schedule \<longleftrightarrow> mset (map snd schedule) = mset (all_cosets sp) \<and> (\<forall>(worker, coset) \<in> set schedule. worker < max pool 1)"

lemma schedule_zip:
  assumes "span_ok sp" "mset (map snd schedule) = mset (all_cosets sp)"
  defines "cs \<equiv> map (\<lambda>p. unat (snd p)) schedule"
  shows "schedule = zip (map fst schedule) (map of_nat cs)" "distinct cs" "set cs = {..<num_cosets sp}"
proof -
  have "(2 :: nat) ^ (sp_bits sp - length (sp_basis sp)) \<le> 2 ^ 31" using assms(1) by (intro power_increasing) (auto simp: span_ok_def)
  then have less: "num_cosets sp < 2 ^ 32" by (simp add: num_cosets_eq [OF assms(1)])
  have unat_of_nat_less: "unat (of_nat c :: u32) = c" if "c < num_cosets sp" for c
    using that less by (simp add: unat_of_nat)
  show "schedule = zip (map fst schedule) (map of_nat cs)"
    by (simp add: cs_def comp_def zip_map_fst_snd)
  have "mset cs = image_mset unat (mset (map snd schedule))" by (simp add: cs_def multiset.map_comp comp_def)
  also have "\<dots> = mset (map unat (all_cosets sp))" unfolding assms(2) by simp
  also have "map unat (all_cosets sp) = [0..<num_cosets sp]"
    unfolding all_cosets_def map_map comp_def using unat_of_nat_less by (intro map_idI) simp
  finally have eq: "mset cs = mset [0..<num_cosets sp]" .
  show "distinct cs" using mset_eq_imp_distinct_iff [OF eq] by simp
  show "set cs = {..<num_cosets sp}" using mset_eq_setD [OF eq] by (simp only: set_upt lessThan_atLeast0)
qed

lemma done_all: "span_ok sp \<Longrightarrow> done_buckets sp {..<num_cosets sp} = {..<2 ^ sp_bits sp}"
  using coset_of_bound by (auto simp: done_buckets_def)

lemma loop_inv_init:
  fixes workers :: "'w coset_scratch list"
  assumes "\<forall>b < length bs. side_in (of_nat b) (terms_of (cut_bucket C bcut b (bs ! b))) x" "window \<noteq> None \<longrightarrow> length counts = length bs"
    "\<forall>wk \<in> set workers. drained wk"
  shows "loop_inv C policy window rows side_in side_out sp bcut bs {} (0, \<lparr>sl_buckets = bs, sl_counts = counts, sl_shared = x\<rparr>, workers)"
proof -
  have "(\<Sum>wk\<leftarrow>ws. cs_octave_totals wk ! k) = 0" if "k < WINDOW_OCTAVES + 2" "\<forall>wk \<in> set ws. drained wk" for k and ws :: "'w coset_scratch list"
    using that by (induction ws) (simp_all add: drained_def totals_default_def del: add_2_eq_Suc')
  with assms show ?thesis by (simp add: loop_inv_def done_buckets_def drained_def totals_default_def)
qed

text \<open>What the counters say once all cosets are done.\<close>

lemma loop_inv_counts:
  assumes "loop_inv C policy (Some w) rows side_in side_out sp bcut bs {..<num_cosets sp} (len, slots, workers)"
    "span_ok sp" "length bs = 2 ^ sp_bits sp"
    "length totals = WINDOW_OCTAVES + 2" "\<And>k. k < WINDOW_OCTAVES + 2 \<Longrightarrow> totals ! k = (\<Sum>wk\<leftarrow>workers. cs_octave_totals wk ! k)"
  shows "sl_counts slots = map (\<lambda>cols. window_count C w (col_coeff cols)) (sl_buckets slots)" "totals = totals_of (sl_counts slots)"
proof -
  note I = assms(1) [unfolded loop_inv_def prod.case done_all [OF assms(2)]]
  have len: "length (sl_counts slots) = length bs" "length (sl_buckets slots) = length bs" using I by simp_all
  show counts: "sl_counts slots = map (\<lambda>cols. window_count C w (col_coeff cols)) (sl_buckets slots)"
    by (rule nth_equalityI) (use I len assms(3) in \<open>auto simp: bucket_done_def\<close>)
  have lens: "\<forall>c \<in> set (sl_counts slots). length c = WINDOW_OCTAVES + 2" unfolding counts by (auto simp: window_count_nth)
  show "totals = totals_of (sl_counts slots)"
  proof (rule nth_equalityI)
    fix k assume "k < length totals"
    then have k: "k < WINDOW_OCTAVES + 2" using assms(4) by simp
    have "totals ! k = (\<Sum>b \<in> {..<2 ^ sp_bits sp}. ucast (sl_counts slots ! b ! k))" using assms(5) [OF k] I k by simp
    also have "\<dots> = (\<Sum>c\<leftarrow>sl_counts slots. ucast (c ! k))"
      using len assms(3) by (simp add: sum_list_sum_nth lessThan_atLeast0)
    finally show "totals ! k = totals_of (sl_counts slots) ! k" using totals_of_nth(2) [OF lens k] by simp
  qed (simp add: assms(4) totals_of_nth(1) [OF lens] del: add_2_eq_Suc')
qed

text \<open>The result of the whole loop.\<close>

definition loop_result ::
    "'c coefficient \<Rightarrow> ('s, 'c) truncation_policy \<Rightarrow> octave_window option \<Rightarrow> (u32 \<Rightarrow> 'c pauli_term list) \<Rightarrow>
     (u32 \<Rightarrow> 'c pauli_term list \<Rightarrow> 'x \<Rightarrow> bool) \<Rightarrow> nat \<Rightarrow> nat \<times> u64 list \<times> ('c, 'x) slots \<Rightarrow> bool" where
  "loop_result C policy window rows side_out num = (\<lambda>(len, totals, slots).
     length (sl_buckets slots) = num \<and>
     (\<forall>b < num. wf_columns (sl_buckets slots ! b) \<and> is_reduced C policy (rows (of_nat b)) (terms_of (sl_buckets slots ! b)) \<and>
        side_out (of_nat b) (terms_of (sl_buckets slots ! b)) (sl_shared slots)) \<and>
     len = sum_list (map columns_len (sl_buckets slots)) \<and>
     (\<forall>w. window = Some w \<longrightarrow> sl_counts slots = map (\<lambda>cols. window_count C w (col_coeff cols)) (sl_buckets slots) \<and>
        totals = totals_of (sl_counts slots)))"

lemma loop_inv_result:
  assumes "loop_inv C policy window rows side_in side_out sp bcut bs {..<num_cosets sp} (len, slots, workers)"
    "span_ok sp" "length bs = 2 ^ sp_bits sp"
    "length totals = WINDOW_OCTAVES + 2" "\<And>k. k < WINDOW_OCTAVES + 2 \<Longrightarrow> totals ! k = (\<Sum>wk\<leftarrow>workers. cs_octave_totals wk ! k)"
  shows "loop_result C policy window rows side_out (length bs) (len, totals, slots)"
proof -
  note I = assms(1) [unfolded loop_inv_def prod.case done_all [OF assms(2)]]
  have len: "length (sl_buckets slots) = length bs" using I by simp
  have "len = (\<Sum>b < length bs. columns_len (sl_buckets slots ! b))" using I assms(3) by simp
  also have "\<dots> = sum_list (map columns_len (sl_buckets slots))"
    using len by (simp add: sum_list_sum_nth lessThan_atLeast0)
  finally have "len = sum_list (map columns_len (sl_buckets slots))" .
  moreover have "\<forall>b < length bs. bucket_done C policy window rows side_out slots b" using I assms(3) by simp
  moreover have "sl_counts slots = map (\<lambda>cols. window_count C w (col_coeff cols)) (sl_buckets slots) \<and> totals = totals_of (sl_counts slots)"
    if "window = Some w" for w
    using loop_inv_counts [OF assms(1) [unfolded that] assms(2-4)] assms(5) by blast
  ultimately show ?thesis using len by (simp add: loop_result_def bucket_done_def)
qed

text \<open>
  The contract of a fill: on the buckets of one coset it returns the reduced rows of every bucket, given what the shared
  state says of these buckets, and leaves what it says of all others.
\<close>

locale coset_kernel =
  fixes W n cap :: nat and h :: gf2_hash and C :: "'c coefficient" and policy :: "('s, 'c) truncation_policy"
    and sp :: gf2_span_index and emits :: "'c pauli_term \<Rightarrow> 'c pauli_term list" and incoming :: "u32 \<Rightarrow> 'c pauli_term list"
    and fill :: "('c, 'x, 'w) coset_kernel_fun" and side_in side_out :: "u32 \<Rightarrow> 'c pauli_term list \<Rightarrow> 'x \<Rightarrow> bool"
  assumes laws: "coefficient_laws C" and span: "span_ok sp"
    and moves: "key_ok W n (fst t) \<Longrightarrow> row \<in> set (emits t) \<Longrightarrow>
      bucket_of h (fst t) XOR bucket_of h (fst row) \<in> delta_span (sp_basis sp)"
    and fills: "pivot_clear sp rep \<Longrightarrow> coset_input W n h (coset_buckets sp rep) old \<Longrightarrow>
      \<forall>j < coset_size sp. side_in (coset_buckets sp rep ! j) (terms_of (old ! j)) x \<Longrightarrow>
      \<forall>\<beta> \<in> set (coset_buckets sp rep). length (bucket_rows h emits incoming (concat (map terms_of old)) \<beta>) < cap \<Longrightarrow>
      \<exists>out x' w'. fill old (coset_buckets sp rep) x w = Inr (out, x', w') \<and> length out = length old \<and>
        (\<forall>j < coset_size sp. wf_columns (out ! j) \<and>
          is_reduced C policy (bucket_rows h emits incoming (concat (map terms_of old)) (coset_buckets sp rep ! j)) (terms_of (out ! j)) \<and>
          side_out (coset_buckets sp rep ! j) (terms_of (out ! j)) x') \<and>
        (\<forall>\<beta> ts. \<beta> \<notin> set (coset_buckets sp rep) \<longrightarrow> side_in \<beta> ts x' = side_in \<beta> ts x \<and> side_out \<beta> ts x' = side_out \<beta> ts x)"
begin

lemma rows_stay_in_coset:
  assumes "length bs = 2 ^ sp_bits sp" "c < num_cosets sp" "\<beta> \<in> set betas"
    "\<forall>b < length bs. \<forall>t \<in> set (terms_of (bs ! b)). key_ok W n (fst t) \<and> bucket_of h (fst t) = of_nat b"
    "betas = coset_buckets sp (representative_at bmi2 sp (of_nat c))"
  shows "mset (rows_to h \<beta> (concat (map emits (concat (map terms_of bs))))) =
    mset (rows_to h \<beta> (concat (map emits (concat (map (\<lambda>\<beta>. terms_of (bs ! unat \<beta>)) betas)))))"
proof -
  let ?f = "\<lambda>b. mset (rows_to h \<beta> (concat (map emits (terms_of (bs ! b)))))"
  have sum: "mset (rows_to h \<beta> (concat (map emits (concat (map f xs))))) = (\<Sum>x\<leftarrow>xs. mset (rows_to h \<beta> (concat (map emits (f x)))))"
    for f :: "'z \<Rightarrow> 'c pauli_term list" and xs
    by (induction xs) (simp_all add: rows_to_def)
  have set: "unat ` set betas = {b. b < 2 ^ sp_bits sp \<and> coset_of sp b = c}"
    unfolding assms(5) by (rule set_coset_buckets [OF span assms(2)])
  have none: "?f b = {#}" if b: "b < length bs" "coset_of sp b \<noteq> c" for b
  proof (rule ccontr)
    assume "?f b \<noteq> {#}"
    then obtain t row where t: "t \<in> set (terms_of (bs ! b))" "row \<in> set (emits t)" "bucket_of h (fst row) = \<beta>"
      by (auto simp: rows_to_def filter_empty_conv)
    then have "of_nat b XOR \<beta> \<in> delta_span (sp_basis sp)" using moves [of t row] assms(4) b(1) by auto
    then have "representative_of sp (of_nat b) = representative_of sp \<beta>" using representative_eq_iff [OF span] by blast
    then have "coset_of sp b = coset_of sp (unat \<beta>)" by (simp add: coset_of_def)
    moreover have "coset_of sp (unat \<beta>) = c" using set assms(3) by auto
    ultimately show False using b(2) by simp
  qed
  have "mset (rows_to h \<beta> (concat (map emits (concat (map terms_of bs))))) = (\<Sum>b = 0..<length bs. ?f b)"
    using sum [of terms_of bs] sum_list_sum_nth [of "map (\<lambda>cols. mset (rows_to h \<beta> (concat (map emits (terms_of cols))))) bs"] by simp
  also have "\<dots> = (\<Sum>b \<in> unat ` set betas. ?f b)"
    by (rule sum.mono_neutral_right) (use none set assms(1) in auto)
  also have "\<dots> = (\<Sum>b\<leftarrow>map unat betas. ?f b)"
    using distinct_coset_buckets [OF span, of bmi2 "of_nat c"] assms(5) by (subst sum_list_distinct_conv_sum_set) simp_all
  also have "\<dots> = mset (rows_to h \<beta> (concat (map emits (concat (map (\<lambda>\<beta>. terms_of (bs ! unat \<beta>)) betas)))))"
    using sum [of "\<lambda>\<beta>. terms_of (bs ! unat \<beta>)" betas] by (simp add: comp_def)
  finally show ?thesis .
qed

lemma run_coset_ok:
  fixes bs bcut
  defines "cutbs \<equiv> map (\<lambda>b. cut_bucket C bcut b (bs ! b)) [0..<length bs]"
  defines "rows \<equiv> bucket_rows h emits incoming (concat (map terms_of cutbs))"
  assumes c: "c < num_cosets sp" and betas: "betas = coset_buckets sp (representative_at bmi2 sp (of_nat c))"
    and bs: "length bs = 2 ^ sp_bits sp" "\<forall>b < length bs. wf_columns (cutbs ! b) \<and> run (terms_of (cutbs ! b)) \<and>
      (\<forall>t \<in> set (terms_of (cutbs ! b)). key_ok W n (fst t) \<and> bucket_of h (fst t) = of_nat b)"
    and slots: "length (sl_buckets slots) = length bs" "\<forall>\<beta> \<in> set betas. sl_buckets slots ! unat \<beta> = bs ! unat \<beta> \<and>
      side_in \<beta> (terms_of (cutbs ! unat \<beta>)) (sl_shared slots)"
    and bound: "\<forall>b < length bs. length (rows (of_nat b)) < cap"
  shows "\<exists>out x' w'. length out = length betas \<and>
    run_coset bmi2 C sp bcut window fill (of_nat c) slots scratch =
      (let counts = (case window of None \<Rightarrow> [] | Some w \<Rightarrow> map (\<lambda>cols. window_count C w (col_coeff cols)) out)
       in Inr (sum_list (map columns_len out),
         \<lparr>sl_buckets = put_slots betas out (sl_buckets slots), sl_counts = put_slots betas counts (sl_counts slots), sl_shared = x'\<rparr>,
         \<lparr>cs_work = w', cs_octave_totals = foldl totals_add (cs_octave_totals scratch) counts\<rparr>)) \<and>
    (\<forall>j < length betas. wf_columns (out ! j) \<and> is_reduced C policy (rows (betas ! j)) (terms_of (out ! j)) \<and>
      side_out (betas ! j) (terms_of (out ! j)) x') \<and>
    (\<forall>\<beta> ts. \<beta> \<notin> set betas \<longrightarrow> side_in \<beta> ts x' = side_in \<beta> ts (sl_shared slots) \<and> side_out \<beta> ts x' = side_out \<beta> ts (sl_shared slots))"
proof -
  let ?rep = "representative_at bmi2 sp (of_nat c)"
  define old where "old = map (\<lambda>\<beta>. cutbs ! unat \<beta>) betas"
  have set: "unat ` set betas = {b. b < 2 ^ sp_bits sp \<and> coset_of sp b = c}" unfolding betas by (rule set_coset_buckets [OF span c])
  have range: "\<forall>\<beta> \<in> set betas. unat \<beta> < length bs"
  proof
    fix \<beta> assume "\<beta> \<in> set betas"
    then have "unat \<beta> \<in> unat ` set betas" by (rule imageI)
    then show "unat \<beta> < length bs" unfolding set bs(1) by simp
  qed
  have len: "length betas = coset_size sp" "length cutbs = length bs" by (simp_all add: betas coset_buckets_def cutbs_def)
  have old_len: "length old = length betas" by (simp add: old_def)
  have input: "coset_input W n h betas old"
    unfolding coset_input_def
  proof (intro conjI allI impI)
    fix j assume j: "j < length betas"
    have "unat (betas ! j) < length bs" using range j by simp
    from bs(2) [THEN spec, of "unat (betas ! j)", THEN mp, OF this] j
    show "wf_columns (old ! j)" "run (terms_of (old ! j))"
      "\<forall>t \<in> set (terms_of (old ! j)). key_ok W n (fst t) \<and> bucket_of h (fst t) = betas ! j"
      by (simp_all add: old_def)
  qed (simp add: old_def)
  have same: "mset (bucket_rows h emits incoming (concat (map terms_of old)) \<beta>) = mset (rows \<beta>)" if "\<beta> \<in> set betas" for \<beta>
    using rows_stay_in_coset [OF _ c that _ betas, of cutbs] bs len(2)
    by (simp add: bucket_rows_def rows_def old_def comp_def)
  have "length (bucket_rows h emits incoming (concat (map terms_of old)) \<beta>) < cap" if "\<beta> \<in> set betas" for \<beta>
  proof -
    have "length (rows \<beta>) < cap" using bound [THEN spec, of "unat \<beta>"] range that by simp
    moreover have "length (bucket_rows h emits incoming (concat (map terms_of old)) \<beta>) = length (rows \<beta>)"
      by (rule mset_eq_length [OF same [OF that]])
    ultimately show ?thesis by simp
  qed
  moreover have "\<forall>j < coset_size sp. side_in (betas ! j) (terms_of (old ! j)) (sl_shared slots)"
    using slots(2) len(1) by (simp add: old_def)
  ultimately obtain out x' w' where out: "fill old betas (sl_shared slots) (cs_work scratch) = Inr (out, x', w')" "length out = length old"
      "\<forall>j < coset_size sp. wf_columns (out ! j) \<and>
        is_reduced C policy (bucket_rows h emits incoming (concat (map terms_of old)) (betas ! j)) (terms_of (out ! j)) \<and>
        side_out (betas ! j) (terms_of (out ! j)) x'"
      "\<forall>\<beta> ts. \<beta> \<notin> set betas \<longrightarrow> side_in \<beta> ts x' = side_in \<beta> ts (sl_shared slots) \<and> side_out \<beta> ts x' = side_out \<beta> ts (sl_shared slots)"
    using fills [OF representative_at_clear [OF span] input [unfolded betas]] unfolding betas by blast
  have "map (\<lambda>\<beta>. cut_bucket C bcut (unat \<beta>) (sl_buckets slots ! unat \<beta>)) betas = old"
    using slots(2) range by (simp add: old_def cutbs_def)
  moreover have "is_reduced C policy (rows (betas ! j)) (terms_of (out ! j))" if "j < length betas" for j
    using out(3) that len(1) by (intro coefficient_laws.reduced_perm [OF laws _ same [symmetric]]) auto
  ultimately show ?thesis
    using out range slots(1) len(1) old_len
    by (intro exI [of _ out] exI [of _ x'] exI [of _ w'])
      (simp add: run_coset_def Let_def betas [symmetric] list_all_iff assert_that_def)
qed

lemma schedule_ok:
  fixes bs bcut
  defines "cutbs \<equiv> map (\<lambda>b. cut_bucket C bcut b (bs ! b)) [0..<length bs]"
  defines "rows \<equiv> bucket_rows h emits incoming (concat (map terms_of cutbs))"
  assumes bs: "length bs = 2 ^ sp_bits sp" "\<forall>b < length bs. wf_columns (cutbs ! b) \<and> run (terms_of (cutbs ! b)) \<and>
      (\<forall>t \<in> set (terms_of (cutbs ! b)). key_ok W n (fst t) \<and> bucket_of h (fst t) = of_nat b)"
    and bound: "\<forall>b < length bs. length (rows (of_nat b)) < cap"
    and inv: "loop_inv C policy window rows side_in side_out sp bcut bs D (len, slots, workers)"
    and cs: "distinct cs" "set cs \<subseteq> {..<num_cosets sp} - D" "length ws = length cs" "\<forall>wk \<in> set ws. wk < length workers"
  shows "\<exists>len' slots' workers'. fold_result (schedule_step (run_coset bmi2 C sp bcut window fill)) (zip ws (map of_nat cs)) (len, slots, workers) =
      Inr (len', slots', workers') \<and> length workers' = length workers \<and>
    loop_inv C policy window rows side_in side_out sp bcut bs (D \<union> set cs) (len', slots', workers')"
  using inv cs
proof (induction cs arbitrary: ws D len slots workers)
  case (Cons c cs)
  obtain wk ws' where ws: "ws = wk # ws'" using Cons.prems(4) by (cases ws) auto
  let ?betas = "coset_buckets sp (representative_at bmi2 sp (of_nat c))"
  note I = Cons.prems(1) [unfolded loop_inv_def prod.case]
  have c: "c < num_cosets sp" "c \<notin> D" and wk: "wk < length workers" using Cons.prems(3,5) by (auto simp: ws)
  note set = set_coset_buckets [OF span c(1), of bmi2]
  have "sl_buckets slots ! unat \<beta> = bs ! unat \<beta> \<and> side_in \<beta> (terms_of (cutbs ! unat \<beta>)) (sl_shared slots)" if "\<beta> \<in> set ?betas" for \<beta>
  proof -
    have "unat \<beta> \<in> unat ` set ?betas" using that by (rule imageI)
    then have "unat \<beta> < length bs" "unat \<beta> \<notin> done_buckets sp D" unfolding set using bs(1) c(2) by (auto simp: done_buckets_def)
    then show ?thesis using I by (auto simp: cutbs_def)
  qed
  moreover have "length (sl_buckets slots) = length bs" using I by simp
  ultimately obtain out x' w' where out: "length out = length ?betas" "run_coset bmi2 C sp bcut window fill (of_nat c) slots (workers ! wk) =
      (let counts = (case window of None \<Rightarrow> [] | Some w \<Rightarrow> map (\<lambda>cols. window_count C w (col_coeff cols)) out)
       in Inr (sum_list (map columns_len out),
         \<lparr>sl_buckets = put_slots ?betas out (sl_buckets slots), sl_counts = put_slots ?betas counts (sl_counts slots), sl_shared = x'\<rparr>,
         \<lparr>cs_work = w', cs_octave_totals = foldl totals_add (cs_octave_totals (workers ! wk)) counts\<rparr>))"
      "\<forall>j < length ?betas. wf_columns (out ! j) \<and> is_reduced C policy (rows (?betas ! j)) (terms_of (out ! j)) \<and>
        side_out (?betas ! j) (terms_of (out ! j)) x'"
      "\<forall>\<beta> ts. \<beta> \<notin> set ?betas \<longrightarrow> side_in \<beta> ts x' = side_in \<beta> ts (sl_shared slots) \<and> side_out \<beta> ts x' = side_out \<beta> ts (sl_shared slots)"
    using run_coset_ok [OF c(1) refl bs(1) bs(2) [unfolded cutbs_def], where slots = slots and scratch = "workers ! wk" and ?bmi2.0 = bmi2 and window = window]
      bound unfolding cutbs_def rows_def by blast
  have "sp_bits sp < 32" using span by (simp add: span_ok_def)
  note put = loop_inv_put [OF Cons.prems(1) set distinct_coset_buckets [OF span] c(2) bs(1) this out(1,3,4) wk, of w']
  let ?counts = "case window of None \<Rightarrow> [] | Some w \<Rightarrow> map (\<lambda>cols. window_count C w (col_coeff cols)) out"
  have step: "schedule_step (run_coset bmi2 C sp bcut window fill) (wk, of_nat c) (len, slots, workers) =
      Inr (len + sum_list (map columns_len out),
        \<lparr>sl_buckets = put_slots ?betas out (sl_buckets slots), sl_counts = put_slots ?betas ?counts (sl_counts slots), sl_shared = x'\<rparr>,
        workers[wk := \<lparr>cs_work = w', cs_octave_totals = foldl totals_add (cs_octave_totals (workers ! wk)) ?counts\<rparr>])"
    using wk out(2) by (simp add: schedule_step_def assert_that_def Let_def)
  have "\<forall>w \<in> set ws'. w < length workers" "distinct cs" "set cs \<subseteq> {..<num_cosets sp} - insert c D" "length ws' = length cs"
    using Cons.prems(2-5) by (auto simp: ws)
  then show ?case
    using Cons.IH [OF put, of ws'] unfolding ws list.map zip_Cons_Cons fold_result.simps step and_then_simps by simp
qed simp

lemma coset_loop_ok:
  fixes bs bcut
  defines "cutbs \<equiv> map (\<lambda>b. cut_bucket C bcut b (bs ! b)) [0..<length bs]"
  defines "rows \<equiv> bucket_rows h emits incoming (concat (map terms_of cutbs))"
  assumes bs: "length bs = 2 ^ sp_bits sp" "\<forall>b < length bs. wf_columns (cutbs ! b) \<and> run (terms_of (cutbs ! b)) \<and>
      (\<forall>t \<in> set (terms_of (cutbs ! b)). key_ok W n (fst t) \<and> bucket_of h (fst t) = of_nat b)"
    and bound: "\<forall>b < length bs. length (rows (of_nat b)) < cap"
    and side: "\<forall>b < length bs. side_in (of_nat b) (terms_of (cutbs ! b)) x"
    and counts: "window \<noteq> None \<longrightarrow> length counts = length bs"
    and pool: "drained task" "\<forall>wk \<in> set workers. drained wk" "pool_schedule sp pool schedule"
  shows "\<exists>len totals slots' task' workers'.
    coset_loop bmi2 C sp bcut window fill fresh pool schedule \<lparr>sl_buckets = bs, sl_counts = counts, sl_shared = x\<rparr> task workers =
      Inr (len, totals, slots', task', workers') \<and>
    loop_result C policy window rows side_out (length bs) (len, totals, slots') \<and> drained task' \<and> (\<forall>wk \<in> set workers'. drained wk)"
proof -
  let ?slots = "\<lparr>sl_buckets = bs, sl_counts = counts, sl_shared = x\<rparr>" and ?task = "run_coset bmi2 C sp bcut window fill"
  have side': "\<forall>b < length bs. side_in (of_nat b) (terms_of (cut_bucket C bcut b (bs ! b))) x" using side by (simp add: cutbs_def)
  have go: "\<exists>len slots' workers'. fold_result (schedule_step ?task) plan (0, ?slots, ws) = Inr (len, slots', workers') \<and> length workers' = length ws \<and>
      loop_inv C policy window rows side_in side_out sp bcut bs {..<num_cosets sp} (len, slots', workers')"
    if plan: "mset (map snd plan) = mset (all_cosets sp)" "\<forall>p \<in> set plan. fst p < length ws" "\<forall>wk \<in> set ws. drained wk" for plan ws
  proof -
    define cs where "cs = map (\<lambda>p. unat (snd p)) plan"
    note zip = schedule_zip [OF span plan(1), folded cs_def]
    have len: "length (map fst plan) = length cs" by (simp add: cs_def)
    have sub: "set cs \<subseteq> {..<num_cosets sp} - {}" using zip(3) by simp
    have "\<forall>wk \<in> set (map fst plan). wk < length ws" using plan(2) by auto
    moreover have "loop_inv C policy window rows side_in side_out sp bcut bs {} (0, ?slots, ws)"
      by (rule loop_inv_init) (fact side' counts plan(3))+
    ultimately show ?thesis
      using schedule_ok [OF bs [unfolded cutbs_def] bound [unfolded rows_def cutbs_def] _ zip(2) sub len, of window 0 ?slots ws bmi2]
      unfolding rows_def [symmetric, unfolded cutbs_def] zip(1) [symmetric] zip(3) by simp
  qed
  have drained_len: "length totals_default = WINDOW_OCTAVES + 2" "k < WINDOW_OCTAVES + 2 \<Longrightarrow> totals_default ! k = 0" for k
    by (simp_all add: totals_default_def del: add_2_eq_Suc')
  show ?thesis
  proof (cases "num_cosets sp < MIN_COSETS_FOR_PARALLEL")
    case True
    obtain len slots' workers' where res: "fold_result (schedule_step ?task) (map (Pair 0) (all_cosets sp)) (0, ?slots, [task]) = Inr (len, slots', workers')"
        "length workers' = 1" "loop_inv C policy window rows side_in side_out sp bcut bs {..<num_cosets sp} (len, slots', workers')"
      using go [of "map (Pair 0) (all_cosets sp)" "[task]"] pool(1) by (auto simp: comp_def)
    then obtain task' where task': "workers' = [task']" by (cases workers') auto
    have "loop_result C policy window rows side_out (length bs) (len, cs_octave_totals task', slots')"
      using loop_inv_result [OF res(3) span bs(1), of "cs_octave_totals task'"] res(3) by (simp add: task' loop_inv_def)
    with True res(1) pool(2) show ?thesis by (simp add: coset_loop_def task' drained_def)
  next
    case False
    let ?ws = "workers @ replicate (max pool 1 - length workers) \<lparr>cs_work = fresh, cs_octave_totals = totals_default\<rparr>"
    have "\<forall>p \<in> set schedule. fst p < length ?ws" using pool(3) by (auto simp: pool_schedule_def)
    moreover have "\<forall>wk \<in> set ?ws. drained wk" using pool(2) by (auto simp: drained_def)
    ultimately obtain len slots' workers' where res: "fold_result (schedule_step ?task) schedule (0, ?slots, ?ws) = Inr (len, slots', workers')"
        "loop_inv C policy window rows side_in side_out sp bcut bs {..<num_cosets sp} (len, slots', workers')"
      using go [of schedule ?ws] pool(3) by (auto simp: pool_schedule_def)
    let ?totals = "foldl (\<lambda>totals w. totals_merge totals (cs_octave_totals w)) totals_default workers'"
    have "\<forall>wk \<in> set workers'. length (cs_octave_totals wk) = WINDOW_OCTAVES + 2" using res(2) by (simp add: loop_inv_def)
    note merge = foldl_totals_merge [OF drained_len(1) this]
    have "loop_result C policy window rows side_out (length bs) (len, ?totals, slots')"
      using loop_inv_result [OF res(2) span bs(1) merge(1)] merge(2) drained_len(2) by simp
    with False res(1) pool(1) show ?thesis by (simp add: coset_loop_def Let_def drained_def)
  qed
qed

end

end
