(* ===== verification/Rotation_Merge.thy ===== *)
theory Rotation_Merge
  imports Merge
begin

unbundle bit_operations_syntax

text \<open>
  \<open>engine/bucketed/rotation_layer/merge.rs\<close>: the merge of a bucket's partners into the bucket in its own buffer, from
  the back. The three columns are read and written at the same index in lock-step, so the buffer is a list of rows: the
  bucket's own, then the spare slots, whose contents (\<open>junk\<close>) are arbitrary. The counters are \<open>usize\<close>; a write below the
  buffer is the panic \<open>IndexOutOfBounds\<close>, which the proofs exclude.
\<close>

section \<open>The code\<close>

definition kept_sum :: "'c coefficient \<Rightarrow> ('s, 'c) truncation_policy \<Rightarrow> key \<Rightarrow> 'c \<Rightarrow> bool" where
  "kept_sum C policy k s \<longleftrightarrow> \<not> c_eq C s (c_zero C) \<and> keep_term policy (fst k) (snd k) s"

text \<open>The closure \<open>emit\<close> of both in-place merges.\<close>

definition emit_back ::
    "'c coefficient \<Rightarrow> ('s, 'c) truncation_policy \<Rightarrow> key \<Rightarrow> 'c \<Rightarrow> 'c pauli_term list \<times> nat \<Rightarrow> ('c pauli_term list \<times> nat) result" where
  "emit_back C policy k s = (\<lambda>(buf, w).
     if kept_sum C policy k s
     then and_then (assert_that (0 < w \<and> w \<le> length buf) IndexOutOfBounds) (\<lambda>_. Inr (buf[w - 1 := (k, s)], w - 1))
     else Inr (buf, w))"

fun count_hits :: "'c pauli_term list \<Rightarrow> 'c pauli_term list \<Rightarrow> nat" where
  "count_hits ((k, a) # as) ((l, b) # bs) =
     (if k < l then count_hits as ((l, b) # bs)
      else if l < k then count_hits ((k, a) # as) bs
      else count_hits as bs + 1)"
| "count_hits as bs = 0"

text \<open>The three loops of \<open>merge_backward_in_place\<close>, \<open>i\<close> and \<open>j\<close> the unread rows of each input and \<open>w\<close> the first written slot.\<close>

function back_both ::
    "'c coefficient \<Rightarrow> ('s, 'c) truncation_policy \<Rightarrow> 'c pauli_term list \<Rightarrow> nat \<Rightarrow> nat \<Rightarrow> 'c pauli_term list \<times> nat \<Rightarrow>
     (nat \<times> nat \<times> 'c pauli_term list \<times> nat) result" where
  "back_both C policy ps i j st =
     (if 0 < i \<and> 0 < j
      then let (b, c) = fst st ! (i - 1);
               (q, p) = ps ! (j - 1)
           in if q < b then and_then (emit_back C policy b c st) (\<lambda>st. back_both C policy ps (i - 1) j st)
              else if b < q then and_then (emit_back C policy q p st) (\<lambda>st. back_both C policy ps i (j - 1) st)
              else and_then (emit_back C policy b (c_add C c p) st) (\<lambda>st. back_both C policy ps (i - 1) (j - 1) st)
      else Inr (i, j, st))"
  by pat_completeness auto
termination by (relation "measure (\<lambda>(_, _, _, i, j, _). i + j)") auto

declare back_both.simps [simp del]

primrec back_partners ::
    "'c coefficient \<Rightarrow> ('s, 'c) truncation_policy \<Rightarrow> 'c pauli_term list \<Rightarrow> nat \<Rightarrow> 'c pauli_term list \<times> nat \<Rightarrow>
     ('c pauli_term list \<times> nat) result" where
  "back_partners C policy ps 0 st = Inr st"
| "back_partners C policy ps (Suc j) st =
     and_then (emit_back C policy (fst (ps ! j)) (snd (ps ! j)) st) (back_partners C policy ps j)"

text \<open>A row that already sits in its slot is not rewritten.\<close>

primrec back_rest :: "'c coefficient \<Rightarrow> ('s, 'c) truncation_policy \<Rightarrow> nat \<Rightarrow> 'c pauli_term list \<times> nat \<Rightarrow> ('c pauli_term list \<times> nat) result" where
  "back_rest C policy 0 st = Inr st"
| "back_rest C policy (Suc i) st =
     (case st of (buf, w) \<Rightarrow>
        let (k, s) = buf ! i
        in if kept_sum C policy k s
           then and_then (assert_that (0 < w \<and> w \<le> length buf) IndexOutOfBounds) (\<lambda>_.
                let w = w - 1
                in back_rest C policy i (if w \<noteq> i then buf[w := (k, s)] else buf, w))
           else back_rest C policy i (buf, w))"

text \<open>\<open>ptr::copy\<close> of \<open>n\<close> rows from slot \<open>src\<close> to slot \<open>dst\<close>, as a move, and \<open>set_len\<close>; both stay within the buffer or are refused.\<close>

definition ptr_copy :: "nat \<Rightarrow> nat \<Rightarrow> nat \<Rightarrow> 'a list \<Rightarrow> 'a list result" where
  "ptr_copy src dst n buf = and_then (assert_that (src + n \<le> length buf \<and> dst + n \<le> length buf) IndexOutOfBounds)
     (\<lambda>_. Inr (take dst buf @ take n (drop src buf) @ drop (dst + n) buf))"

definition set_len :: "nat \<Rightarrow> 'a list \<Rightarrow> 'a list result" where
  "set_len n buf = and_then (assert_that (n \<le> length buf) IndexOutOfBounds) (\<lambda>_. Inr (take n buf))"

definition close_gap :: "nat \<Rightarrow> nat \<Rightarrow> nat \<Rightarrow> 'a list \<Rightarrow> 'a list result" where
  "close_gap slot w out buf = and_then (if w \<noteq> slot then ptr_copy w slot out buf else Inr buf) (set_len (slot + out))"

definition merge_backward_in_place ::
    "'c coefficient \<Rightarrow> ('s, 'c) truncation_policy \<Rightarrow> 'c pauli_term list \<Rightarrow> 'c pauli_term list \<Rightarrow> nat \<Rightarrow> nat \<Rightarrow> 'c pauli_term list result" where
  "merge_backward_in_place C policy buf ps len room =
     and_then (back_both C policy ps len (length ps) (buf, room)) (\<lambda>(i, j, st).
       and_then (back_partners C policy ps j st) (\<lambda>st.
         and_then (back_rest C policy i st) (\<lambda>(buf, w). close_gap 0 w (room - w) buf)))"

text \<open>
  \<open>merge_sparse_in_place\<close>: \<open>dirty\<close> packs a row index into the upper 28 bits of each entry. The rows between two events move up
  as one block. The subtractions the source leaves to its contract are guarded by the panic \<open>Unreachable\<close>.
\<close>

definition dirty_row :: "32 word list \<Rightarrow> nat \<Rightarrow> nat" where
  "dirty_row dirty d = unat (drop_bit 4 (dirty ! (d - 1)))"

function search_above :: "'c pauli_term list \<Rightarrow> key \<Rightarrow> nat \<Rightarrow> nat \<Rightarrow> nat" where
  "search_above buf target low high =
     (if low < high
      then let middle = low + (high - low) div 2
           in if fst (buf ! middle) \<le> target then search_above buf target (middle + 1) high
              else search_above buf target low middle
      else low)"
  by pat_completeness auto
termination by (relation "measure (\<lambda>(_, _, low, high). high - low)") auto

declare search_above.simps [simp del]

definition block_low :: "'c pauli_term list \<Rightarrow> 32 word list \<Rightarrow> nat \<Rightarrow> nat \<Rightarrow> nat \<Rightarrow> 'c pauli_term list \<Rightarrow> nat" where
  "block_low ps dirty i j d buf =
     (let low = if 0 < d then dirty_row dirty d + 1 else 0
      in if 0 < j then search_above buf (fst (ps ! (j - 1))) low i else low)"

definition move_block :: "nat \<Rightarrow> nat \<Rightarrow> 'c pauli_term list \<times> nat \<Rightarrow> ('c pauli_term list \<times> nat) result" where
  "move_block low i = (\<lambda>(buf, w).
     and_then (assert_that (low \<le> i \<and> i - low \<le> w) Unreachable) (\<lambda>_.
       let block = i - low
       in and_then (if 0 < block \<and> w \<noteq> i then ptr_copy low (w - block) block buf else Inr buf) (\<lambda>buf. Inr (buf, w - block))))"

datatype event = Less_Event | Equal_Event | Greater_Event

definition next_event :: "'c pauli_term list \<Rightarrow> nat \<Rightarrow> nat \<Rightarrow> 'c pauli_term list \<Rightarrow> event" where
  "next_event ps i j buf =
     (if 0 < i \<and> 0 < j
      then let k = fst (buf ! (i - 1)); q = fst (ps ! (j - 1))
           in if k < q then Less_Event else if k = q then Equal_Event else Greater_Event
      else if 0 < i then Greater_Event
      else Less_Event)"

function sparse_merge_loop ::
    "'c coefficient \<Rightarrow> ('s, 'c) truncation_policy \<Rightarrow> 'c pauli_term list \<Rightarrow> 32 word list \<Rightarrow> nat \<Rightarrow> nat \<Rightarrow> nat \<Rightarrow>
     'c pauli_term list \<times> nat \<Rightarrow> (nat \<times> 'c pauli_term list \<times> nat) result" where
  "sparse_merge_loop C policy ps dirty i j d st =
     (if 0 < j \<or> 0 < d
      then let low = block_low ps dirty i j d (fst st)
           in and_then (move_block low i st) (\<lambda>st.
                case next_event ps low j (fst st) of
                  Less_Event \<Rightarrow>
                    if 0 < j
                    then and_then (emit_back C policy (fst (ps ! (j - 1))) (snd (ps ! (j - 1))) st)
                           (\<lambda>st. sparse_merge_loop C policy ps dirty low (j - 1) d st)
                    else Inl Unreachable
                | Equal_Event \<Rightarrow>
                    if 0 < j
                    then let i = low - 1;
                             d = if 0 < d \<and> dirty_row dirty d = i then d - 1 else d;
                             (k, c) = fst st ! i
                         in and_then (emit_back C policy k (c_add C c (snd (ps ! (j - 1)))) st)
                              (\<lambda>st. sparse_merge_loop C policy ps dirty i (j - 1) d st)
                    else Inl Unreachable
                | Greater_Event \<Rightarrow>
                    if 0 < d
                    then let i = low - 1;
                             (k, c) = fst st ! i
                         in and_then (emit_back C policy k c st) (\<lambda>st. sparse_merge_loop C policy ps dirty i j (d - 1) st)
                    else Inl Unreachable)
      else Inr (i, st))"
  by pat_completeness auto
termination by (relation "measure (\<lambda>(_, _, _, _, _, j, d, _). j + d)") auto

declare sparse_merge_loop.simps [simp del]

definition merge_sparse_in_place ::
    "'c coefficient \<Rightarrow> ('s, 'c) truncation_policy \<Rightarrow> 'c pauli_term list \<Rightarrow> 'c pauli_term list \<Rightarrow> 32 word list \<Rightarrow> nat \<Rightarrow> nat \<Rightarrow>
     'c pauli_term list result" where
  "merge_sparse_in_place C policy buf ps dirty len room =
     and_then (sparse_merge_loop C policy ps dirty len (length ps) (length dirty) (buf, room)) (\<lambda>(i, buf, w).
       close_gap i w (room - w) buf)"

text \<open>
  \<open>merge_partners\<close>: \<open>as\<close> are the bucket's rows and \<open>junk\<close> its spare slots, as many as the smallest of the three capacities leaves.
\<close>

definition SPARSE_MERGE_SEGMENT :: nat where
  "SPARSE_MERGE_SEGMENT = 8"

definition merge_partners ::
    "'c coefficient \<Rightarrow> ('s, 'c) truncation_policy \<Rightarrow> 'c pauli_term list \<Rightarrow> 'c pauli_term list \<Rightarrow> 'c pauli_term list \<Rightarrow>
     32 word list option \<Rightarrow> bool \<Rightarrow> ('c pauli_term list \<times> bool) result" where
  "merge_partners C policy as junk ps dirty new_keys =
     (let bound = length as + length ps;
          spare = length as + length junk;
          sparse = (case dirty of
             None \<Rightarrow> None
           | Some dirty \<Rightarrow>
               if bound \<le> spare \<and> (length ps + length dirty) * SPARSE_MERGE_SEGMENT \<le> length as then Some dirty else None)
      in case sparse of
           Some dirty \<Rightarrow> and_then (merge_sparse_in_place C policy (as @ junk) ps dirty (length as) bound) (\<lambda>ts. Inr (ts, True))
         | None \<Rightarrow>
             let room = if bound \<le> spare \<or> new_keys then bound else bound - count_hits as ps
             in if room \<le> spare
                then and_then (merge_backward_in_place C policy (as @ junk) ps (length as) room) (\<lambda>ts. Inr (ts, True))
                else Inr (terms_of (merge_identity_and_rest C policy (columns_of as) (columns_of ps) columns_new), False))"

text \<open>
  \<open>fold_hits\<close>: the rows of \<open>dirty\<close> from its cursor on are the list that is left, and the partners kept so far are those the
  compaction has written to the front.
\<close>

fun find_hit :: "'c pauli_term list \<Rightarrow> 32 word list \<Rightarrow> key \<Rightarrow> (32 word list \<times> nat option) result" where
  "find_hit as [] key = Inr ([], None)"
| "find_hit as (packed # ds) key =
     (let candidate = unat (drop_bit 4 packed)
      in and_then (assert_that (candidate < length as) IndexOutOfBounds) (\<lambda>_.
           let k = fst (as ! candidate)
           in if k < key then find_hit as ds key
              else if k = key then Inr (ds, Some candidate)
              else Inr (packed # ds, None)))"

fun fold_rows ::
    "'c coefficient \<Rightarrow> real \<Rightarrow> 'c pauli_term list \<Rightarrow> 32 word list \<Rightarrow> 'c pauli_term list \<Rightarrow> 'c pauli_term list \<Rightarrow>
     ('c pauli_term list \<times> 'c pauli_term list) result" where
  "fold_rows C floor_sqr as ds kept [] = Inr (as, kept)"
| "fold_rows C floor_sqr as ds kept ((key, c) # ps) =
     and_then (find_hit as ds key) (\<lambda>(ds, hit).
       case hit of
         Some row \<Rightarrow> fold_rows C floor_sqr (as[row := (fst (as ! row), c_add C (snd (as ! row)) c)]) ds kept ps
       | None \<Rightarrow> fold_rows C floor_sqr as ds (if floor_sqr < norm_sqr C c then kept @ [(key, c)] else kept) ps)"

definition fold_hits ::
    "'c coefficient \<Rightarrow> 'c pauli_term list \<Rightarrow> 32 word list \<Rightarrow> 'c pauli_term list \<Rightarrow> real \<Rightarrow> ('c pauli_term list \<times> 'c pauli_term list) result"
  where
  "fold_hits C as dirty ps fl = fold_rows C (if 0 \<le> fl then fl * fl else - 1) as dirty [] ps"

section \<open>The written part\<close>

text \<open>
  The invariant of the merge: the unread bucket rows are where they were, the written slots hold the reduced rows of
  everything read, and there is room for every row still to come that is not a hit.
\<close>

definition num_hits :: "'c pauli_term list \<Rightarrow> 'c pauli_term list \<Rightarrow> nat" where
  "num_hits as bs = length (filter (\<lambda>t. fst t \<in> fst ` set as) bs)"

definition separated :: "('k::linorder \<times> 'v) list \<Rightarrow> ('k \<times> 'v) list \<Rightarrow> nat \<Rightarrow> nat \<Rightarrow> bool" where
  "separated as ps i j \<longleftrightarrow>
     (\<forall>t \<in> set (drop j ps). \<forall>u \<in> set (take i as). fst u < fst t) \<and> (\<forall>t \<in> set (drop i as). \<forall>u \<in> set (take j ps). fst u < fst t)"

definition back_inv ::
    "'c coefficient \<Rightarrow> ('s, 'c) truncation_policy \<Rightarrow> 'c pauli_term list \<Rightarrow> 'c pauli_term list \<Rightarrow> nat \<Rightarrow> nat \<Rightarrow> nat \<Rightarrow>
     'c pauli_term list \<times> nat \<Rightarrow> bool" where
  "back_inv C policy as ps room i j = (\<lambda>(buf, w).
     i \<le> length as \<and> j \<le> length ps \<and> separated as ps i j \<and> take i buf = take i as \<and> room \<le> length buf \<and> w \<le> room \<and>
     i + j \<le> w + num_hits (take i as) (take j ps) \<and>
     is_reduced C policy (drop i as @ drop j ps) (take (room - w) (drop w buf)))"

text \<open>The unread dirty rows lie below \<open>i\<close>, and every other row below \<open>i\<close> is one the merge keeps as it is.\<close>

definition dirty_inv ::
    "'c coefficient \<Rightarrow> ('s, 'c) truncation_policy \<Rightarrow> 'c pauli_term list \<Rightarrow> 32 word list \<Rightarrow> nat \<Rightarrow> nat \<Rightarrow> bool" where
  "dirty_inv C policy as dirty i d \<longleftrightarrow>
     (0 < d \<longrightarrow> dirty_row dirty d < i) \<and>
     (\<forall>r < i. (\<forall>e. 0 < e \<and> e \<le> d \<longrightarrow> dirty_row dirty e \<noteq> r) \<longrightarrow> kept_sum C policy (fst (as ! r)) (snd (as ! r)))"

definition dirty_sorted :: "32 word list \<Rightarrow> nat \<Rightarrow> bool" where
  "dirty_sorted dirty d \<longleftrightarrow> (\<forall>e e'. 0 < e \<and> e < e' \<and> e' \<le> d \<longrightarrow> dirty_row dirty e < dirty_row dirty e')"

definition dirty_ok :: "'c coefficient \<Rightarrow> ('s, 'c) truncation_policy \<Rightarrow> 'c pauli_term list \<Rightarrow> 32 word list option \<Rightarrow> bool" where
  "dirty_ok C policy as dirty \<longleftrightarrow>
     (case dirty of None \<Rightarrow> True
      | Some ds \<Rightarrow> dirty_inv C policy as ds (length as) (length ds) \<and> dirty_sorted ds (length ds))"

lemma dirty_inv_lower: "dirty_inv C policy as dirty i d \<Longrightarrow> low \<le> i \<Longrightarrow> 0 < d \<longrightarrow> dirty_row dirty d < low \<Longrightarrow> dirty_inv C policy as dirty low d"
  by (auto simp: dirty_inv_def)

lemma dirty_inv_pop:
  assumes "dirty_inv C policy as dirty i d" "dirty_sorted dirty d" "0 < d" "dirty_row dirty d = i - 1" "0 < i"
  shows "dirty_inv C policy as dirty (i - 1) (d - 1)"
proof -
  have "dirty_row dirty (d - 1) < dirty_row dirty d" if "0 < d - 1"
    using assms(2,3) that by (simp add: dirty_sorted_def)
  moreover have "dirty_row dirty e \<noteq> r" if "r < i - 1" "0 < e" "e \<le> d" "\<forall>e. 0 < e \<and> e \<le> d - 1 \<longrightarrow> dirty_row dirty e \<noteq> r" for r e
    using that assms(4) by (cases "e = d") auto
  moreover have "r < i" if "r < i - 1" for r using that by simp
  ultimately show ?thesis using assms(1,4) unfolding dirty_inv_def by metis
qed

lemma emit_back_ok:
  assumes "0 < w" "w \<le> room" "room \<le> length buf"
  shows "\<exists>buf' w'. emit_back C policy k s (buf, w) = Inr (buf', w') \<and> w \<le> Suc w' \<and> w' \<le> w \<and> length buf' = length buf \<and>
    take (w - 1) buf' = take (w - 1) buf \<and> take (room - w') (drop w' buf') = kept_row C policy k s @ take (room - w) (drop w buf)"
proof (cases "kept_sum C policy k s")
  case True
  let ?buf = "buf[w - 1 := (k, s)]"
  have "drop (w - 1) ?buf = (k, s) # drop w buf"
    using assms by (simp add: Cons_nth_drop_Suc [symmetric] drop_update_cancel)
  then have "take (room - (w - 1)) (drop (w - 1) ?buf) = kept_row C policy k s @ take (room - w) (drop w buf)"
    using True assms by (simp add: kept_row_def kept_sum_def take_Cons' Suc_diff_Suc)
  with True assms show ?thesis by (auto simp: emit_back_def assert_that_def)
next
  case False
  then have "emit_back C policy k s (buf, w) = Inr (buf, w)" by (simp add: emit_back_def)
  moreover have "kept_row C policy k s = []" using False by (auto simp: kept_row_def kept_sum_def)
  ultimately show ?thesis using assms by auto
qed

lemma close_gap_ok:
  assumes "slot \<le> w" "w + out \<le> length buf"
  shows "close_gap slot w out buf = Inr (take slot buf @ take out (drop w buf))"
  using assms by (auto simp: close_gap_def ptr_copy_def set_len_def assert_that_def take_add min_absorb1)

lemma num_hits_le: "num_hits as bs \<le> length bs"
  by (simp add: num_hits_def)

lemma run_take_drop: "run as \<Longrightarrow> u \<in> set (take i as) \<Longrightarrow> t \<in> set (drop i as) \<Longrightarrow> fst u < fst t"
  using run_append [of "take i as" "drop i as"] by simp

lemma in_block:
  assumes "t \<in> set (drop low (take i as))" "i \<le> length as"
  shows "\<exists>r. low \<le> r \<and> r < i \<and> t = as ! r"
proof -
  obtain q where "q < i - low" "t = as ! (low + q)" using assms by (auto simp: in_set_conv_nth)
  then show ?thesis by (intro exI [of _ "low + q"]) simp
qed

lemma in_take_le:
  assumes "run ts" "u \<in> set (take j ts)" "j \<le> length ts"
  shows "0 < j \<and> fst u \<le> fst (ts ! (j - 1))"
proof -
  obtain m where m: "m < j" "u = ts ! m" using assms(2,3) by (auto simp: in_set_conv_nth)
  then show ?thesis using run_nth_less [OF assms(1), of m "j - 1"] assms(3) by (cases "m = j - 1") (auto intro: less_imp_le)
qed

lemma take_Suc_below:
  fixes ps :: "('k::linorder \<times> 'v) list"
  assumes "j < length ps" "fst (ps ! j) < k" "\<And>u. u \<in> set (take j ps) \<Longrightarrow> fst u < fst (ps ! j)"
  shows "\<forall>u \<in> set (take (Suc j) ps). fst u < k"
proof
  fix u assume "u \<in> set (take (Suc j) ps)"
  then consider "u = ps ! j" | "u \<in> set (take j ps)" using assms(1) by (auto simp: take_Suc_conv_app_nth)
  then show "fst u < k" using assms(2) assms(3) [of u] order.strict_trans [of "fst u" "fst (ps ! j)" k] by cases auto
qed

context coefficient_laws
begin

lemma reduced_single:
  assumes "is_reduced C policy us ts" "\<forall>t \<in> set us. k < fst t"
  shows "is_reduced C policy ((k, a) # us) (kept_row C policy k a @ ts)"
  using take_key [of "[]" k a a "[]" us policy ts] assms by simp

lemma reduced_double:
  assumes "is_reduced C policy us ts" "\<forall>t \<in> set us. k < fst t" "mset rows = {#(k, a), (k, b)#} + mset us"
  shows "is_reduced C policy rows (kept_row C policy k (c_add C a b) @ ts)"
  using take_key [of "[(k, b)]" k a "c_add C a b" "[]" us policy ts] assms
  by (auto intro: reduced_perm)

text \<open>The three steps of the merge.\<close>

lemma back_step_bucket:
  assumes inv: "back_inv C policy as ps room (Suc i) j (buf, w)" and runs: "run as" "run ps"
    and low: "\<forall>u \<in> set (take j ps). fst u < fst (as ! i)"
  shows "\<exists>st'. emit_back C policy (fst (as ! i)) (snd (as ! i)) (buf, w) = Inr st' \<and> back_inv C policy as ps room i j st' \<and>
    length (fst st') = length buf"
proof -
  note I = inv [unfolded back_inv_def prod.case]
  have i: "i < length as" using I by simp
  have hits: "num_hits (take (Suc i) as) (take j ps) = num_hits (take i as) (take j ps)"
    unfolding num_hits_def using low i by (intro arg_cong [of _ _ length] filter_cong) (auto simp: take_Suc_conv_app_nth)
  have w: "Suc i \<le> w" using I num_hits_le [of "take i as" "take j ps"] hits by simp
  then obtain buf' w' where e: "emit_back C policy (fst (as ! i)) (snd (as ! i)) (buf, w) = Inr (buf', w')" "w \<le> Suc w'" "w' \<le> w"
      "length buf' = length buf" "take (w - 1) buf' = take (w - 1) buf"
      "take (room - w') (drop w' buf') = kept_row C policy (fst (as ! i)) (snd (as ! i)) @ take (room - w) (drop w buf)"
    using emit_back_ok [of w room buf C policy "fst (as ! i)" "snd (as ! i)"] I by auto
  have sep: "separated as ps i j"
    using I low runs(1) run_take_drop i unfolding separated_def
    by (auto simp: take_Suc_conv_app_nth Cons_nth_drop_Suc [symmetric])
  have above: "\<forall>t \<in> set (drop (Suc i) as @ drop j ps). fst (as ! i) < fst t"
    using I run_take_drop [OF runs(1), of "as ! i" "Suc i"] i by (auto simp: separated_def take_Suc_conv_app_nth)
  have rows: "drop i as @ drop j ps = (fst (as ! i), snd (as ! i)) # drop (Suc i) as @ drop j ps" using i by (simp add: Cons_nth_drop_Suc)
  have "is_reduced C policy (drop (Suc i) as @ drop j ps) (take (room - w) (drop w buf))" using I by simp
  then have red: "is_reduced C policy (drop i as @ drop j ps) (take (room - w') (drop w' buf'))"
    unfolding rows e(6) by (rule reduced_single [OF _ above])
  have "take i (take (w - 1) buf') = take i (take (w - 1) buf)" using e(5) by simp
  then have "take i buf' = take i buf" using w by (simp add: min_absorb1)
  moreover have "take i buf = take i as" using I by (metis Suc_leD le_refl min.absorb1 take_take le_Suc_eq)
  ultimately show ?thesis using I e red sep hits i by (intro exI [of _ "(buf', w')"]) (simp add: back_inv_def)
qed

lemma back_step_partner:
  assumes inv: "back_inv C policy as ps room i (Suc j) (buf, w)" and runs: "run as" "run ps"
    and low: "\<forall>u \<in> set (take i as). fst u < fst (ps ! j)"
  shows "\<exists>st'. emit_back C policy (fst (ps ! j)) (snd (ps ! j)) (buf, w) = Inr st' \<and> back_inv C policy as ps room i j st' \<and>
    length (fst st') = length buf"
proof -
  note I = inv [unfolded back_inv_def prod.case]
  have j: "j < length ps" using I by simp
  have "fst (ps ! j) \<notin> fst ` set (take i as)" using low by auto
  then have hits: "num_hits (take i as) (take (Suc j) ps) = num_hits (take i as) (take j ps)"
    using j by (simp add: num_hits_def take_Suc_conv_app_nth)
  have w: "Suc i \<le> w" using I num_hits_le [of "take i as" "take j ps"] hits by simp
  then obtain buf' w' where e: "emit_back C policy (fst (ps ! j)) (snd (ps ! j)) (buf, w) = Inr (buf', w')" "w \<le> Suc w'" "w' \<le> w"
      "length buf' = length buf" "take (w - 1) buf' = take (w - 1) buf"
      "take (room - w') (drop w' buf') = kept_row C policy (fst (ps ! j)) (snd (ps ! j)) @ take (room - w) (drop w buf)"
    using emit_back_ok [of w room buf C policy "fst (ps ! j)" "snd (ps ! j)"] I by auto
  have sep: "separated as ps i j"
    using I low runs(2) run_take_drop j unfolding separated_def
    by (auto simp: take_Suc_conv_app_nth Cons_nth_drop_Suc [symmetric])
  have above: "\<forall>t \<in> set (drop i as @ drop (Suc j) ps). fst (ps ! j) < fst t"
    using I run_take_drop [OF runs(2), of "ps ! j" "Suc j"] j by (auto simp: separated_def take_Suc_conv_app_nth)
  have "is_reduced C policy (drop i as @ drop (Suc j) ps) (take (room - w) (drop w buf))" using I by simp
  then have "is_reduced C policy ((fst (ps ! j), snd (ps ! j)) # drop i as @ drop (Suc j) ps) (take (room - w') (drop w' buf'))"
    unfolding e(6) by (rule reduced_single [OF _ above])
  then have red: "is_reduced C policy (drop i as @ drop j ps) (take (room - w') (drop w' buf'))"
    by (rule reduced_perm) (simp add: Cons_nth_drop_Suc [OF j, symmetric])
  have "take i (take (w - 1) buf') = take i (take (w - 1) buf)" using e(5) by simp
  then have "take i buf' = take i as" using w I by (simp add: min_absorb1)
  then show ?thesis using I e red sep hits j by (intro exI [of _ "(buf', w')"]) (simp add: back_inv_def)
qed

lemma back_step_hit:
  assumes inv: "back_inv C policy as ps room (Suc i) (Suc j) (buf, w)" and runs: "run as" "run ps" and same: "fst (as ! i) = fst (ps ! j)"
  shows "\<exists>st'. emit_back C policy (fst (as ! i)) (c_add C (snd (as ! i)) (snd (ps ! j))) (buf, w) = Inr st' \<and> back_inv C policy as ps room i j st' \<and>
    length (fst st') = length buf"
proof -
  note I = inv [unfolded back_inv_def prod.case]
  let ?k = "fst (as ! i)" and ?s = "c_add C (snd (as ! i)) (snd (ps ! j))"
  have ij: "i < length as" "j < length ps" using I by simp_all
  have below: "fst u < ?k" if "u \<in> set (take j ps)" for u
    using run_take_drop [OF runs(2) that, of "ps ! j"] ij same by (simp add: Cons_nth_drop_Suc [OF ij(2), symmetric])
  have hits: "num_hits (take (Suc i) as) (take (Suc j) ps) = Suc (num_hits (take i as) (take j ps))"
  proof -
    have "fst t \<in> fst ` set (take (Suc i) as) \<longleftrightarrow> fst t \<in> fst ` set (take i as)" if "t \<in> set (take j ps)" for t
      using less_imp_neq [OF below [OF that]] ij by (simp add: take_Suc_conv_app_nth)
    then have "filter (\<lambda>t. fst t \<in> fst ` set (take (Suc i) as)) (take j ps) = filter (\<lambda>t. fst t \<in> fst ` set (take i as)) (take j ps)"
      by (intro filter_cong refl) blast
    then show ?thesis using ij same by (simp add: num_hits_def take_Suc_conv_app_nth)
  qed
  have w: "Suc i \<le> w" using I num_hits_le [of "take i as" "take j ps"] hits by simp
  then obtain buf' w' where e: "emit_back C policy ?k ?s (buf, w) = Inr (buf', w')" "w \<le> Suc w'" "w' \<le> w"
      "length buf' = length buf" "take (w - 1) buf' = take (w - 1) buf"
      "take (room - w') (drop w' buf') = kept_row C policy ?k ?s @ take (room - w) (drop w buf)"
    using emit_back_ok [of w room buf C policy ?k ?s] I by auto
  have up: "?k < fst t" if "t \<in> set (drop (Suc i) as @ drop (Suc j) ps)" for t
    using that run_take_drop [OF runs(1), of "as ! i" "Suc i" t] run_take_drop [OF runs(2), of "ps ! j" "Suc j" t] ij same
    by (auto simp: take_Suc_conv_app_nth)
  have sep: "separated as ps i j" unfolding separated_def
  proof (intro conjI ballI)
    fix t u assume "t \<in> set (drop j ps)" "u \<in> set (take i as)"
    moreover from this have "fst u < ?k" using run_take_drop [OF runs(1), of u i "as ! i"] ij by (simp add: Cons_nth_drop_Suc [OF ij(1), symmetric])
    ultimately show "fst u < fst t" using up [of t] same ij by (auto simp: Cons_nth_drop_Suc [OF ij(2), symmetric])
  next
    fix t u assume "t \<in> set (drop i as)" "u \<in> set (take j ps)"
    then show "fst u < fst t" using below [of u] up [of t] ij by (auto simp: Cons_nth_drop_Suc [OF ij(1), symmetric])
  qed
  have "is_reduced C policy (drop (Suc i) as @ drop (Suc j) ps) (take (room - w) (drop w buf))" using I by simp
  then have red: "is_reduced C policy (drop i as @ drop j ps) (take (room - w') (drop w' buf'))"
    unfolding e(6)
  proof (rule reduced_double)
    have "as ! i = (?k, snd (as ! i))" "ps ! j = (?k, snd (ps ! j))" using same by (simp_all add: prod_eq_iff)
    then show "mset (drop i as @ drop j ps) = {#(?k, snd (as ! i)), (?k, snd (ps ! j))#} + mset (drop (Suc i) as @ drop (Suc j) ps)"
      using ij by (simp add: Cons_nth_drop_Suc [symmetric])
  qed (use up in blast)
  have "take i (take (w - 1) buf') = take i (take (w - 1) buf)" using e(5) by simp
  then have "take i buf' = take i buf" using w by (simp add: min_absorb1)
  moreover have "take i (take (Suc i) buf) = take i (take (Suc i) as)" using I by simp
  then have "take i buf = take i as" by (simp add: min_absorb1)
  ultimately show ?thesis using I e red sep hits ij by (intro exI [of _ "(buf', w')"]) (simp add: back_inv_def)
qed


text \<open>The loops keep the invariant and never write outside the buffer.\<close>

lemma back_both_ok:
  assumes "back_inv C policy as ps room i j st" "run as" "run ps"
  shows "\<exists>i' j' st'. back_both C policy ps i j st = Inr (i', j', st') \<and> (i' = 0 \<or> j' = 0) \<and> back_inv C policy as ps room i' j' st' \<and>
    length (fst st') = length (fst st)"
  using assms
proof (induction "i + j" arbitrary: i j st rule: less_induct)
  case less
  show ?case
  proof (cases "0 < i \<and> 0 < j")
    case False
    then show ?thesis using less.prems by (subst back_both.simps) (cases st, auto)
  next
    case True
    then obtain i' j' where ij: "i = Suc i'" "j = Suc j'" by (metis gr0_implies_Suc)
    obtain buf w where st: "st = (buf, w)" by (cases st)
    note I = less.prems(1) [unfolded back_inv_def st prod.case ij]
    have row: "buf ! i' = as ! i'" using I by (metis lessI nth_take)
    have low: "fst u < fst (as ! i')" if "u \<in> set (take i' as)" for u
      using run_take_drop [OF less.prems(2) that, of "as ! i'"] I by (simp add: Cons_nth_drop_Suc [symmetric])
    have low': "fst u < fst (ps ! j')" if "u \<in> set (take j' ps)" for u
      using run_take_drop [OF less.prems(3) that, of "ps ! j'"] I by (simp add: Cons_nth_drop_Suc [symmetric])
    consider (bucket) "fst (ps ! j') < fst (as ! i')" | (partner) "fst (as ! i') < fst (ps ! j')" | (hit) "fst (as ! i') = fst (ps ! j')"
      by (meson linorder_cases)
    then show ?thesis
    proof cases
      case bucket
      then have lows: "\<forall>u \<in> set (take (Suc j') ps). fst u < fst (as ! i')"
        using I bucket low' by (intro take_Suc_below) auto
      obtain st' where e: "emit_back C policy (fst (as ! i')) (snd (as ! i')) (buf, w) = Inr st'" "back_inv C policy as ps room i' j st'"
          "length (fst st') = length buf"
        using back_step_bucket [OF less.prems(1) [unfolded ij st] less.prems(2,3) lows] ij by blast
      have "back_both C policy ps i j st = back_both C policy ps i' j st'"
        using e(1) ij bucket row unfolding st by (subst back_both.simps) (simp add: split_beta Let_def)
      with less.hyps [OF _ e(2) less.prems(2,3)] e(3) ij st show ?thesis by simp
    next
      case partner
      then have lows: "\<forall>u \<in> set (take (Suc i') as). fst u < fst (ps ! j')"
        using I partner low by (intro take_Suc_below) auto
      obtain st' where e: "emit_back C policy (fst (ps ! j')) (snd (ps ! j')) (buf, w) = Inr st'" "back_inv C policy as ps room i j' st'"
          "length (fst st') = length buf"
        using back_step_partner [OF less.prems(1) [unfolded ij st] less.prems(2,3) lows] ij by blast
      have "back_both C policy ps i j st = back_both C policy ps i j' st'"
        using e(1) ij partner less_not_sym [OF partner] row unfolding st by (subst back_both.simps) (simp add: split_beta Let_def)
      with less.hyps [OF _ e(2) less.prems(2,3)] e(3) ij st show ?thesis by simp
    next
      case hit
      obtain st' where e: "emit_back C policy (fst (as ! i')) (c_add C (snd (as ! i')) (snd (ps ! j'))) (buf, w) = Inr st'" "back_inv C policy as ps room i' j' st'"
          "length (fst st') = length buf"
        using back_step_hit [OF less.prems(1) [unfolded ij st] less.prems(2,3) hit] ij by blast
      have "back_both C policy ps i j st = back_both C policy ps i' j' st'"
        using e(1) ij hit row unfolding st by (subst back_both.simps) (simp add: split_beta Let_def)
      with less.hyps [OF _ e(2) less.prems(2,3)] e(3) ij st show ?thesis by simp
    qed
  qed
qed

lemma back_partners_ok:
  assumes "back_inv C policy as ps room 0 j st" "run as" "run ps"
  shows "\<exists>st'. back_partners C policy ps j st = Inr st' \<and> back_inv C policy as ps room 0 0 st' \<and> length (fst st') = length (fst st)"
  using assms
proof (induction j arbitrary: st)
  case (Suc j)
  obtain buf w where st: "st = (buf, w)" by (cases st)
  obtain st' where e: "emit_back C policy (fst (ps ! j)) (snd (ps ! j)) (buf, w) = Inr st'" "back_inv C policy as ps room 0 j st'"
      "length (fst st') = length buf"
    using back_step_partner [OF Suc.prems(1) [unfolded st] Suc.prems(2,3)] by auto
  from Suc.IH [OF e(2) Suc.prems(2,3)] e(1,3) show ?case unfolding st by auto
qed auto

lemma back_rest_ok:
  assumes "back_inv C policy as ps room i 0 st" "run as" "run ps"
  shows "\<exists>st'. back_rest C policy i st = Inr st' \<and> back_inv C policy as ps room 0 0 st' \<and> length (fst st') = length (fst st)"
  using assms
proof (induction i arbitrary: st)
  case (Suc i)
  obtain buf w where st: "st = (buf, w)" by (cases st)
  note I = Suc.prems(1) [unfolded back_inv_def st prod.case]
  have row: "buf ! i = as ! i" using I by (metis lessI nth_take)
  obtain st' where e: "emit_back C policy (fst (as ! i)) (snd (as ! i)) (buf, w) = Inr st'" "back_inv C policy as ps room i 0 st'"
      "length (fst st') = length buf"
    using back_step_bucket [OF Suc.prems(1) [unfolded st] Suc.prems(2,3)] by auto
  have i: "i < length buf" "i < w" using I by (simp_all add: num_hits_def)
  have "back_rest C policy (Suc i) (buf, w) = and_then (emit_back C policy (fst (as ! i)) (snd (as ! i)) (buf, w)) (back_rest C policy i)"
    using i list_update_id [of buf i]
    by (auto simp: emit_back_def row [symmetric] split_beta Let_def assert_that_def)
  with Suc.IH [OF e(2) Suc.prems(2,3)] e(1,3) show ?case unfolding st by auto
qed auto

lemma merge_backward_reduced:
  assumes runs: "run as" "run ps" and room: "length as + length ps \<le> room + num_hits as ps" "room \<le> length as + length junk"
  shows "\<exists>ts. merge_backward_in_place C policy (as @ junk) ps (length as) room = Inr ts \<and> is_reduced C policy (as @ ps) ts"
proof -
  have "back_inv C policy as ps room (length as) (length ps) (as @ junk, room)"
    using room by (simp add: back_inv_def separated_def reduced_Nil)
  then obtain i j st where 1: "back_both C policy ps (length as) (length ps) (as @ junk, room) = Inr (i, j, st)" "i = 0 \<or> j = 0"
      "back_inv C policy as ps room i j st" "length (fst st) = length (as @ junk)"
    using back_both_ok [OF _ runs] by (metis fst_conv)
  obtain st2 where 2: "back_partners C policy ps j st = Inr st2" "back_inv C policy as ps room i 0 st2" "length (fst st2) = length (as @ junk)"
  proof (cases "j = 0")
    case False
    then show thesis using back_partners_ok [of policy as ps room j st] 1 runs that by auto
  qed (use 1 that in auto)
  obtain buf w where 3: "back_rest C policy i st2 = Inr (buf, w)" "back_inv C policy as ps room 0 0 (buf, w)" "length buf = length (as @ junk)"
    using back_rest_ok [OF 2(2) runs] 2(3) by (metis prod.collapse)
  have "w \<le> room" "room \<le> length buf" and red: "is_reduced C policy (as @ ps) (take (room - w) (drop w buf))"
    using 3 by (simp_all add: back_inv_def)
  then have "close_gap 0 w (room - w) buf = Inr (take 0 buf @ take (room - w) (drop w buf))" by (intro close_gap_ok) auto
  with 1 2 3 red show ?thesis by (simp add: merge_backward_in_place_def)
qed

end

end
