(* ===== verification/Rotation_Sparse.thy ===== *)
theory Rotation_Sparse
  imports Rotation_Merge
begin

unbundle bit_operations_syntax

text \<open>
  The other ways through \<open>engine/bucketed/rotation_layer/merge.rs\<close>: the sparse in-place merge, the choice between the merges,
  and the fold of the partners that hit listed rows. Each leaves the reduced rows of the bucket and its partners.
\<close>

section \<open>The sparse merge\<close>

context coefficient_laws
begin

text \<open>A block of rows below everything written, each of which is kept, is reduced as it is.\<close>

lemma reduced_block:
  assumes "is_reduced C policy us ts" "run block" "\<forall>t \<in> set block. kept_sum C policy (fst t) (snd t)"
    "\<forall>t \<in> set block. \<forall>u \<in> set us. fst t < fst u"
  shows "is_reduced C policy (block @ us) (block @ ts)"
  using assms(2-)
proof (induction block)
  case Nil
  then show ?case using assms(1) by simp
next
  case (Cons t block)
  have "is_reduced C policy (block @ us) (block @ ts)" using Cons by (simp add: run_Cons)
  then have "is_reduced C policy ((fst t, snd t) # block @ us) (kept_row C policy (fst t) (snd t) @ block @ ts)"
    using Cons.prems by (intro reduced_single) (auto simp: run_Cons)
  moreover have "kept_row C policy (fst t) (snd t) = [t]" using Cons.prems(2) by (simp add: kept_row_def kept_sum_def)
  ultimately show ?case by simp
qed

lemma move_block_rows:
  assumes "low \<le> i" "i \<le> w" "w \<le> length buf"
  shows "move_block low i (buf, w) = Inr (take (w - (i - low)) buf @ take (i - low) (drop low buf) @ drop w buf, w - (i - low))"
proof -
  have "take low buf @ take (i - low) (drop low buf) @ drop i buf = buf"
    using assms(1) append_take_drop_id [of low "take i buf"] by (simp add: take_drop min_absorb1 flip: append_assoc)
  then show ?thesis using assms by (auto simp: move_block_def ptr_copy_def assert_that_def Let_def)
qed

lemma num_hits_below:
  assumes "low \<le> i" "\<And>t u. t \<in> set (drop low (take i as)) \<Longrightarrow> u \<in> set qs \<Longrightarrow> fst u < fst t"
  shows "num_hits (take i as) qs = num_hits (take low as) qs"
proof -
  have "take i as = take low as @ drop low (take i as)"
    using assms(1) append_take_drop_id [of low "take i as"] by (simp add: min_absorb1)
  then have "fst ` set (take i as) = fst ` set (take low as) \<union> fst ` set (drop low (take i as))" by (metis image_Un set_append)
  moreover have "fst u \<notin> fst ` set (drop low (take i as))" if "u \<in> set qs" for u
    using assms(2) [OF _ that] by fastforce
  ultimately show ?thesis unfolding num_hits_def by (intro arg_cong [of _ _ length] filter_cong refl) simp
qed

lemma move_block_ok:
  assumes inv: "back_inv C policy as ps room i j (buf, w)" and runs: "run as" "run ps" and low: "low \<le> i"
    and kept: "\<And>t. t \<in> set (drop low (take i as)) \<Longrightarrow> kept_sum C policy (fst t) (snd t)"
    and above: "\<And>t u. t \<in> set (drop low (take i as)) \<Longrightarrow> u \<in> set (take j ps) \<Longrightarrow> fst u < fst t"
  shows "\<exists>st'. move_block low i (buf, w) = Inr st' \<and> back_inv C policy as ps room low j st' \<and> length (fst st') = length buf"
proof -
  note I = inv [unfolded back_inv_def prod.case]
  let ?block = "drop low (take i as)" and ?w = "w - (i - low)"
  let ?buf = "take ?w buf @ ?block @ drop w buf"
  have w: "i \<le> w" "w \<le> length buf" using I num_hits_le [of "take i as" "take j ps"] by simp_all
  have rows: "take (i - low) (drop low buf) = ?block" using I low by (simp add: take_drop)
  have len: "length ?block = i - low" using I by simp
  have low_w: "low \<le> ?w" "?w \<le> length buf" using w low by linarith+
  have room: "room - ?w = (i - low) + (room - w)" using w low I by simp
  have "take low buf = take low (take i buf)" using low by (simp add: min_absorb1)
  also have "\<dots> = take low as" using I low by (simp add: min_absorb1)
  finally have tl: "take low ?buf = take low as" using low_w by (simp add: min_absorb1)
  have dr: "take (room - ?w) (drop ?w ?buf) = ?block @ take (room - w) (drop w buf)"
    using low_w len unfolding room by simp
  have below: "fst t < fst u" if t: "t \<in> set ?block" and u: "u \<in> set (drop i as @ drop j ps)" for t u
  proof (cases "u \<in> set (drop i as)")
    case True
    then show ?thesis using run_take_drop [OF runs(1) in_set_dropD [OF t]] by simp
  next
    case False
    then show ?thesis using u I in_set_dropD [OF t] by (simp add: separated_def)
  qed
  have as: "drop low as = ?block @ drop i as" using low I append_take_drop_id [of "i - low" "drop low as"] by (simp add: take_drop)
  have "is_reduced C policy (?block @ drop i as @ drop j ps) (?block @ take (room - w) (drop w buf))"
    using I kept below run_drop [OF run_take [OF runs(1)]] by (intro reduced_block) blast+
  then have red: "is_reduced C policy (drop low as @ drop j ps) (take (room - ?w) (drop ?w ?buf))" unfolding dr as by simp
  have sep: "separated as ps low j"
    using I above set_take_subset_set_take [OF low, of as] unfolding separated_def as set_append by blast
  have len': "length ?buf = length buf" using w low len low_w by simp
  have slots: "low + j \<le> ?w + num_hits (take low as) (take j ps)" 
  proof -
    have "num_hits (take i as) (take j ps) = num_hits (take low as) (take j ps)" by (rule num_hits_below [OF low above])
    moreover have "i + j \<le> w + num_hits (take i as) (take j ps)" using I by simp
    ultimately show ?thesis using low w(1) by linarith
  qed
  have "back_inv C policy as ps room low j (?buf, ?w)" unfolding back_inv_def prod.case
  proof (intro conjI)
    show "low \<le> length as" "j \<le> length ps" "room \<le> length ?buf" using I low unfolding len' by simp_all
    have "w \<le> room" using I by simp
    then show "?w \<le> room" by linarith
  qed (fact sep tl slots red)+
  then show ?thesis using move_block_rows [OF low w] rows len' by auto
qed

text \<open>The search returns the first row at or past \<open>low\<close> whose key is above the target.\<close>

lemma search_above_ok:
  assumes "run as" "take i buf = take i as" "i \<le> length as" "low \<le> high" "high \<le> i"
  shows "low \<le> search_above buf q low high \<and> search_above buf q low high \<le> high \<and>
    (\<forall>r. low \<le> r \<and> r < search_above buf q low high \<longrightarrow> fst (as ! r) \<le> q) \<and>
    (\<forall>r. search_above buf q low high \<le> r \<and> r < high \<longrightarrow> q < fst (as ! r))"
  using assms(4,5)
proof (induction "high - low" arbitrary: low high rule: less_induct)
  case less
  show ?case
  proof (cases "low < high")
    case False
    then show ?thesis using less.prems by (subst (1 2 3 4) search_above.simps) auto
  next
    case True
    define m where "m = low + (high - low) div 2"
    have m: "low \<le> m" "m < high" using True by (simp_all add: m_def)
    have "take i buf ! m = take i as ! m" using assms(2) by simp
    then have row: "buf ! m = as ! m" using m less.prems by simp
    have mono: "fst (as ! r) \<le> fst (as ! r')" if "r \<le> r'" "r' < high" for r r'
      using run_nth_less [OF assms(1), of r r'] that less.prems(2) assms(3) by (cases "r = r'") auto
    show ?thesis
    proof (cases "fst (as ! m) \<le> q")
      case le: True
      have eq: "search_above buf q low high = search_above buf q (m + 1) high"
        using True le row by (subst search_above.simps) (simp add: m_def [symmetric] Let_def)
      have IH: "m + 1 \<le> search_above buf q (m + 1) high \<and> search_above buf q (m + 1) high \<le> high \<and>
          (\<forall>r. m + 1 \<le> r \<and> r < search_above buf q (m + 1) high \<longrightarrow> fst (as ! r) \<le> q) \<and>
          (\<forall>r. search_above buf q (m + 1) high \<le> r \<and> r < high \<longrightarrow> q < fst (as ! r))"
        using m less.prems by (intro less.hyps) simp_all
      have "fst (as ! r) \<le> q" if "low \<le> r" "r < search_above buf q (m + 1) high" for r
        using IH that mono [of r m] m le by (cases "r \<le> m") auto
      then show ?thesis unfolding eq using IH m by auto
    next
      case gt: False
      have eq: "search_above buf q low high = search_above buf q low m"
        using True gt row by (subst search_above.simps) (simp add: m_def [symmetric] Let_def)
      have IH: "low \<le> search_above buf q low m \<and> search_above buf q low m \<le> m \<and>
          (\<forall>r. low \<le> r \<and> r < search_above buf q low m \<longrightarrow> fst (as ! r) \<le> q) \<and>
          (\<forall>r. search_above buf q low m \<le> r \<and> r < m \<longrightarrow> q < fst (as ! r))"
        using m less.prems by (intro less.hyps) simp_all
      have "q < fst (as ! r)" if "search_above buf q low m \<le> r" "r < high" for r
        using IH that mono [of m r] m gt by (cases "r < m") auto
      then show ?thesis unfolding eq using IH m by auto
    qed
  qed
qed

lemma block_low_ok:
  assumes "run as" "take i buf = take i as" "i \<le> length as" "0 < d \<longrightarrow> dirty_row dirty d < i" "0 < j \<or> 0 < d"
  shows "block_low ps dirty i j d buf \<le> i"
    and "0 < d \<longrightarrow> dirty_row dirty d < block_low ps dirty i j d buf"
    and "0 < j \<and> block_low ps dirty i j d buf \<le> r \<and> r < i \<longrightarrow> fst (ps ! (j - 1)) < fst (as ! r)"
    and "0 < block_low ps dirty i j d buf \<and> \<not> (0 < j \<and> fst (as ! (block_low ps dirty i j d buf - 1)) \<le> fst (ps ! (j - 1))) \<longrightarrow>
      0 < d \<and> dirty_row dirty d = block_low ps dirty i j d buf - 1"
proof -
  define low where "low = (if 0 < d then dirty_row dirty d + 1 else 0)"
  have low: "low \<le> i" using assms(4) by (auto simp: low_def)
  define b where "b = block_low ps dirty i j d buf"
  have b: "b = (if 0 < j then search_above buf (fst (ps ! (j - 1))) low i else low)" by (simp add: b_def block_low_def low_def Let_def)
  have found: "low \<le> b \<and> b \<le> i \<and> (0 < j \<longrightarrow> (\<forall>r. low \<le> r \<and> r < b \<longrightarrow> fst (as ! r) \<le> fst (ps ! (j - 1))) \<and>
      (\<forall>r. b \<le> r \<and> r < i \<longrightarrow> fst (ps ! (j - 1)) < fst (as ! r)))"
    using search_above_ok [OF assms(1-3) low order.refl, of "fst (ps ! (j - 1))"] low by (simp add: b)
  show "block_low ps dirty i j d buf \<le> i" "0 < d \<longrightarrow> dirty_row dirty d < block_low ps dirty i j d buf"
      "0 < j \<and> block_low ps dirty i j d buf \<le> r \<and> r < i \<longrightarrow> fst (ps ! (j - 1)) < fst (as ! r)"
    using found by (auto simp: b_def [symmetric] low_def)
  have "b = low" if "0 < b" "\<not> (0 < j \<and> fst (as ! (b - 1)) \<le> fst (ps ! (j - 1)))"
  proof (rule ccontr)
    assume "b \<noteq> low"
    then have "0 < j" "low \<le> b - 1" "b - 1 < b" using found that(1) by (auto simp: b split: if_splits)
    then show False using found that(2) by blast
  qed
  then show "0 < block_low ps dirty i j d buf \<and> \<not> (0 < j \<and> fst (as ! (block_low ps dirty i j d buf - 1)) \<le> fst (ps ! (j - 1))) \<longrightarrow>
      0 < d \<and> dirty_row dirty d = block_low ps dirty i j d buf - 1"
    unfolding b_def [symmetric] by (auto simp: low_def split: if_splits)
qed

lemma dirty_block_kept:
  assumes "dirty_inv C policy as dirty i d" "dirty_sorted dirty d" "0 < d \<longrightarrow> dirty_row dirty d < low" "i \<le> length as"
    "t \<in> set (drop low (take i as))"
  shows "kept_sum C policy (fst t) (snd t)"
proof -
  obtain r where r: "low \<le> r" "r < i" "t = as ! r" using in_block [OF assms(5,4)] by blast
  have "dirty_row dirty e \<noteq> r" if "0 < e" "e \<le> d" for e
  proof -
    have "dirty_row dirty e \<le> dirty_row dirty d" using assms(2) that by (cases "e = d") (auto simp: dirty_sorted_def intro: less_imp_le)
    then show ?thesis using assms(3) that r(1) by simp
  qed
  then show ?thesis using assms(1) r(2,3) by (auto simp: dirty_inv_def)
qed

lemma sparse_merge_loop_ok:
  assumes "back_inv C policy as ps room i j st" "run as" "run ps" "dirty_inv C policy as dirty i d" "dirty_sorted dirty d"
  shows "\<exists>i' st'. sparse_merge_loop C policy ps dirty i j d st = Inr (i', st') \<and> back_inv C policy as ps room i' 0 st' \<and>
    dirty_inv C policy as dirty i' 0 \<and> length (fst st') = length (fst st)"
  using assms
proof (induction "j + d" arbitrary: i j d st rule: less_induct)
  case less
  note runs = less.prems(2,3)
  show ?case
  proof (cases "0 < j \<or> 0 < d")
    case False
    then show ?thesis using less.prems by (subst sparse_merge_loop.simps) (cases st, auto)
  next
    case True
    obtain buf0 w0 where st0: "st = (buf0, w0)" by (cases st)
    note I0 = less.prems(1) [unfolded back_inv_def st0 prod.case]
    define low where "low = block_low ps dirty i j d buf0"
    have low: "low \<le> i" "0 < d \<longrightarrow> dirty_row dirty d < low"
        "\<And>r. 0 < j \<and> low \<le> r \<and> r < i \<longrightarrow> fst (ps ! (j - 1)) < fst (as ! r)"
        "0 < low \<and> \<not> (0 < j \<and> fst (as ! (low - 1)) \<le> fst (ps ! (j - 1))) \<longrightarrow> 0 < d \<and> dirty_row dirty d = low - 1"
      unfolding low_def using I0 less.prems(4) True by (intro block_low_ok [OF runs(1)]; simp add: dirty_inv_def)+
    have above: "fst u < fst t" if t: "t \<in> set (drop low (take i as))" and u: "u \<in> set (take j ps)" for t u
      using in_block [OF t] in_take_le [OF runs(2) u] low(3) I0 order_le_less_trans by blast
    obtain st1 where st: "move_block low i (buf0, w0) = Inr st1" "back_inv C policy as ps room low j st1" "length (fst st1) = length buf0"
      using move_block_ok [OF less.prems(1) [unfolded st0] runs low(1) dirty_block_kept [OF less.prems(4,5) low(2)] above] I0 by blast
    obtain buf w where stw: "st1 = (buf, w)" by (cases st1)
    note I = st(2) [unfolded back_inv_def stw prod.case]
    have row: "buf ! (low - 1) = as ! (low - 1)" if "0 < low" using I that by (metis diff_less less_one nth_take)
    have dirty: "dirty_inv C policy as dirty low d" using dirty_inv_lower [OF less.prems(4) low(1,2)] .
    have step: "sparse_merge_loop C policy ps dirty i j d st = (case next_event ps low j (fst st1) of
        Less_Event \<Rightarrow> (if 0 < j then and_then (emit_back C policy (fst (ps ! (j - 1))) (snd (ps ! (j - 1))) st1)
            (\<lambda>st. sparse_merge_loop C policy ps dirty low (j - 1) d st) else Inl Unreachable)
      | Equal_Event \<Rightarrow> (if 0 < j then let i = low - 1; d = if 0 < d \<and> dirty_row dirty d = i then d - 1 else d; (k, c) = fst st1 ! i
            in and_then (emit_back C policy k (c_add C c (snd (ps ! (j - 1)))) st1) (\<lambda>st. sparse_merge_loop C policy ps dirty i (j - 1) d st)
            else Inl Unreachable)
      | Greater_Event \<Rightarrow> (if 0 < d then let i = low - 1; (k, c) = fst st1 ! i
            in and_then (emit_back C policy k c st1) (\<lambda>st. sparse_merge_loop C policy ps dirty i j (d - 1) st) else Inl Unreachable))"
      using True st(1) unfolding st0 by (subst sparse_merge_loop.simps) (simp add: low_def [symmetric])
    show ?thesis
    proof (cases "next_event ps low j buf")
      case Less_Event
      have j: "0 < j" using True low(2) Less_Event by (auto simp: next_event_def split: if_splits)
      have below: "\<forall>u \<in> set (take low as). fst u < fst (ps ! (j - 1))"
        using in_take_le [OF runs(1), of _ low] I Less_Event row j
        by (force simp: next_event_def Let_def intro: order_le_less_trans split: if_splits)
      obtain st2 where e: "emit_back C policy (fst (ps ! (j - 1))) (snd (ps ! (j - 1))) st1 = Inr st2"
          "back_inv C policy as ps room low (j - 1) st2" "length (fst st2) = length buf"
        using back_step_partner [of policy as ps room low "j - 1" buf w] st(2) runs below j unfolding stw by auto
      show ?thesis using less.hyps [OF _ e(2) runs dirty less.prems(5)] j e(1,3) st(3) stw st0 step Less_Event by simp
    next
      case Equal_Event
      have l: "0 < low" "0 < j" "fst (as ! (low - 1)) = fst (ps ! (j - 1))"
        using Equal_Event row by (auto simp: next_event_def Let_def split: if_splits)
      let ?d = "if 0 < d \<and> dirty_row dirty d = low - 1 then d - 1 else d"
      have "dirty_inv C policy as dirty (low - 1) ?d"
        
      proof (cases "0 < d \<and> dirty_row dirty d = low - 1")
        case False
        then have "0 < d \<longrightarrow> dirty_row dirty d < low - 1" using low(2) by linarith
        then show ?thesis unfolding if_not_P [OF False] by (intro dirty_inv_lower [OF dirty]) simp_all
      qed (use dirty_inv_pop [OF dirty less.prems(5)] l(1) in simp)
      moreover have "dirty_sorted dirty ?d" using less.prems(5) by (auto simp: dirty_sorted_def)
      moreover obtain st2 where e: "emit_back C policy (fst (as ! (low - 1))) (c_add C (snd (as ! (low - 1))) (snd (ps ! (j - 1)))) st1 = Inr st2"
          "back_inv C policy as ps room (low - 1) (j - 1) st2" "length (fst st2) = length buf"
        using back_step_hit [of policy as ps room "low - 1" "j - 1" buf w] st(2) runs l unfolding stw by auto
      ultimately show ?thesis using less.hyps [OF _ e(2) runs, of ?d] l e(1,3) st(3) stw st0 step Equal_Event row by (simp add: split_beta Let_def)
    next
      case Greater_Event
      have l: "0 < low" "\<not> (0 < j \<and> fst (as ! (low - 1)) \<le> fst (ps ! (j - 1)))"
        using Greater_Event row by (auto simp: next_event_def Let_def split: if_splits)
      then have d: "0 < d" "dirty_row dirty d = low - 1" using low(4) by auto
      have "dirty_inv C policy as dirty (low - 1) (d - 1)" using dirty_inv_pop [OF dirty less.prems(5) d l(1)] .
      moreover have "dirty_sorted dirty (d - 1)" using less.prems(5) by (auto simp: dirty_sorted_def)
      moreover have below: "\<forall>u \<in> set (take j ps). fst u < fst (as ! (low - 1))"
        using in_take_le [OF runs(2), of _ j] I l(2) by (meson le_less_trans linorder_not_le)
      moreover obtain st2 where e: "emit_back C policy (fst (as ! (low - 1))) (snd (as ! (low - 1))) st1 = Inr st2"
          "back_inv C policy as ps room (low - 1) j st2" "length (fst st2) = length buf"
        using back_step_bucket [of policy as ps room "low - 1" j buf w] st(2) runs l(1) below unfolding stw by auto
      ultimately show ?thesis using less.hyps [OF _ e(2) runs, of "d - 1"] d l(1) e(1,3) st(3) stw st0 step Greater_Event row
        by (simp add: split_beta Let_def)
    qed
  qed
qed

lemma merge_sparse_reduced:
  assumes runs: "run as" "run ps" and dirty: "dirty_inv C policy as dirty (length as) (length dirty)" "dirty_sorted dirty (length dirty)"
    and room: "length ps \<le> length junk"
  shows "\<exists>ts. merge_sparse_in_place C policy (as @ junk) ps dirty (length as) (length as + length ps) = Inr ts \<and> is_reduced C policy (as @ ps) ts"
proof -
  let ?room = "length as + length ps"
  have "back_inv C policy as ps ?room (length as) (length ps) (as @ junk, ?room)"
    using room by (simp add: back_inv_def separated_def reduced_Nil)
  from sparse_merge_loop_ok [OF this runs dirty] obtain i buf w where
    1: "sparse_merge_loop C policy ps dirty (length as) (length ps) (length dirty) (as @ junk, ?room) = Inr (i, buf, w)"
      "back_inv C policy as ps ?room i 0 (buf, w)" "dirty_inv C policy as dirty i 0"
    by auto
  note I = 1(2) [unfolded back_inv_def prod.case]
  have "i \<le> w" using I num_hits_le [of "take i as" "take 0 ps"] by simp
  then have gap: "close_gap i w (?room - w) buf = Inr (take i as @ take (?room - w) (drop w buf))"
    using I close_gap_ok [of i w "?room - w" buf] by simp
  have "is_reduced C policy (take i as @ drop i as @ ps) (take i as @ take (?room - w) (drop w buf))"
  proof (rule reduced_block)
    show "\<forall>t \<in> set (take i as). kept_sum C policy (fst t) (snd t)"
      using in_block [of _ 0 i as] I 1(3) unfolding dirty_inv_def drop0 by (metis leD)
    show "\<forall>t \<in> set (take i as). \<forall>u \<in> set (drop i as @ ps). fst t < fst u"
      using run_take_drop [OF runs(1)] I unfolding separated_def set_append by auto
  qed (use I run_take [OF runs(1)] in auto)
  then have "is_reduced C policy (as @ ps) (take i as @ take (?room - w) (drop w buf))" by (simp flip: append_assoc)
  with 1(1) gap show ?thesis by (simp add: merge_sparse_in_place_def)
qed

end

section \<open>The merge, on either path\<close>

lemma count_hits_ok: "run as \<Longrightarrow> run bs \<Longrightarrow> count_hits as bs = num_hits as bs"
proof (induction as bs rule: count_hits.induct)
  case (1 k a as l b bs)
  have k: "k \<notin> fst ` set as" and l: "l \<notin> fst ` set bs" using 1(4,5) by (force simp: run_Cons)+
  have lt: "num_hits ((k, a) # as) bs = num_hits as bs" if "\<forall>t \<in> set bs. k < fst t" for bs
    unfolding num_hits_def using that by (intro arg_cong [of _ _ length] filter_cong refl) auto
  consider "k < l" | "l < k" | "k = l" by (meson linorder_cases)
  then show ?case
  proof cases
    assume "k < l"
    moreover from this have "\<forall>t \<in> set ((l, b) # bs). k < fst t" using 1(5) by (auto simp: run_Cons intro: order.strict_trans)
    ultimately show ?thesis using 1 lt [of "(l, b) # bs"] by (simp add: run_Cons)
  next
    assume *: "l < k"
    then have "l \<notin> fst ` set ((k, a) # as)" using 1(4) by (auto simp: run_Cons dest: order.strict_trans)
    then show ?thesis using 1 * by (simp add: run_Cons num_hits_def)
  next
    assume *: "k = l"
    then have "\<forall>t \<in> set bs. k < fst t" using 1(5) by (simp add: run_Cons)
    from lt [OF this] show ?thesis using 1 * by (simp add: run_Cons num_hits_def)
  qed
qed (simp_all add: num_hits_def)

lemma merge_partners_reduced:
  assumes laws: "coefficient_laws C" and runs: "run as" "run ps" and dirty: "dirty_ok C policy as dirty"
  shows "\<exists>ts. merge_partners C policy as junk ps dirty new_keys =
      Inr (ts, length ps \<le> length junk + (if new_keys then 0 else num_hits as ps)) \<and> is_reduced C policy (as @ ps) ts"
proof -
  let ?sparse = "\<exists>ds. dirty = Some ds \<and> length ps \<le> length junk \<and> (length ps + length ds) * SPARSE_MERGE_SEGMENT \<le> length as"
  let ?room = "if length ps \<le> length junk \<or> new_keys then length as + length ps else length as + length ps - num_hits as ps"
  have hit: "num_hits as ps \<le> length ps" by (rule num_hits_le)
  consider (sparse) ds where "dirty = Some ds" "length ps \<le> length junk" "(length ps + length ds) * SPARSE_MERGE_SEGMENT \<le> length as"
    | (backward) "\<not> ?sparse" "?room \<le> length as + length junk" | (copy) "\<not> ?sparse" "\<not> ?room \<le> length as + length junk" by blast
  then show ?thesis
  proof cases
    case sparse
    with coefficient_laws.merge_sparse_reduced [OF laws runs, of policy ds junk] dirty show ?thesis
      by (auto simp: merge_partners_def dirty_ok_def Let_def)
  next
    case backward
    have "length as + length ps \<le> ?room + num_hits as ps" using hit by simp
    from coefficient_laws.merge_backward_reduced [OF laws runs this backward(2), of policy] backward hit show ?thesis
      by (auto simp: merge_partners_def Let_def count_hits_ok [OF runs] split: option.split)
  next
    case copy
    have "sorted (map fst ps)" using runs(2) by (simp add: run_def strict_sorted_iff)
    from merge_identity_and_rest_spec [OF laws, of "columns_of as" "columns_of ps" columns_new policy] this runs(1) copy hit show ?thesis
      by (auto simp: merge_partners_def Let_def count_hits_ok [OF runs] split: option.split)
  qed
qed

section \<open>Folding the hits\<close>

text \<open>What \<open>coefficient_floor\<close> promises: a coefficient at or below a nonnegative floor is refused whatever its key.\<close>

definition floor_sound :: "'c coefficient \<Rightarrow> ('s, 'c) truncation_policy \<Rightarrow> bool" where
  "floor_sound C policy \<longleftrightarrow>
     (\<forall>x z c. 0 \<le> coefficient_floor policy \<and> norm_sqr C c \<le> (coefficient_floor policy)\<^sup>2 \<longrightarrow> \<not> keep_term policy x z c)"

definition dirty_rows :: "32 word list \<Rightarrow> nat set" where
  "dirty_rows ds = (\<lambda>p. unat (drop_bit 4 p)) ` set ds"

definition lists_hits :: "'c pauli_term list \<Rightarrow> 32 word list \<Rightarrow> 'c pauli_term list \<Rightarrow> bool" where
  "lists_hits as ds ps \<longleftrightarrow> sorted_wrt (<) (map (\<lambda>p. unat (drop_bit 4 p)) ds) \<and> (\<forall>r \<in> dirty_rows ds. r < length as) \<and>
     (\<forall>t \<in> set ps. \<forall>r < length as. fst (as ! r) = fst t \<longrightarrow> r \<in> dirty_rows ds)"

lemma lists_hits_keys: "map fst as' = map fst as \<Longrightarrow> lists_hits as' ds ps \<longleftrightarrow> lists_hits as ds ps"
proof -
  assume keys: "map fst as' = map fst as"
  then have len: "length as' = length as" by (metis length_map)
  have "fst (as' ! r) = fst (as ! r)" if "r < length as" for r using arg_cong [OF keys, of "\<lambda>l. l ! r"] that len by simp
  then show ?thesis by (simp add: lists_hits_def len)
qed

lemma lists_hits_subset: "lists_hits as ds ps \<Longrightarrow> set qs \<subseteq> set ps \<Longrightarrow> lists_hits as ds qs"
  unfolding lists_hits_def by blast

lemma key_not_in: "(\<And>r. r < length as \<Longrightarrow> fst (as ! r) \<noteq> q) \<Longrightarrow> q \<notin> fst ` set as"
  by (metis imageE in_set_conv_nth)

lemma find_hit_ok:
  assumes "run as" "lists_hits as ds ((q, c) # ps)" "\<forall>t \<in> set ps. q < fst t"
  shows "\<exists>ds' hit. find_hit as ds q = Inr (ds', hit) \<and> lists_hits as ds' ps \<and> set ds' \<subseteq> set ds \<and>
    (case hit of None \<Rightarrow> q \<notin> fst ` set as | Some r \<Rightarrow> r < length as \<and> fst (as ! r) = q \<and> r \<in> dirty_rows ds)"
  using assms(2)
proof (induction ds)
  case Nil
  then have "q \<notin> fst ` set as" by (intro key_not_in) (auto simp: lists_hits_def dirty_rows_def)
  moreover have "lists_hits as [] ps" by (rule lists_hits_subset [OF Nil]) auto
  ultimately show ?case by (intro exI [of _ "[]"] exI [of _ None]) simp
next
  case (Cons p ds)
  let ?r = "unat (drop_bit 4 p)"
  have r: "?r < length as" using Cons.prems by (simp add: lists_hits_def dirty_rows_def)
  have less: "lists_hits as ds us" if "\<forall>t \<in> set us. fst (as ! ?r) < fst t" "set us \<subseteq> set ((q, c) # ps)" for us
  proof -
    have sorted: "sorted_wrt (<) (map (\<lambda>p. unat (drop_bit 4 p)) ds)" and bound: "\<forall>r \<in> dirty_rows ds. r < length as"
      and listed: "\<And>t r. t \<in> set us \<Longrightarrow> r < length as \<Longrightarrow> fst (as ! r) = fst t \<Longrightarrow> r \<in> dirty_rows (p # ds)"
    proof -
      show "sorted_wrt (<) (map (\<lambda>p. unat (drop_bit 4 p)) ds)" "\<forall>r \<in> dirty_rows ds. r < length as"
        using Cons.prems by (simp_all add: lists_hits_def dirty_rows_def)
      show "r \<in> dirty_rows (p # ds)" if "t \<in> set us" "r < length as" "fst (as ! r) = fst t" for t r
        using lists_hits_subset [OF Cons.prems \<open>set us \<subseteq> _\<close>] that unfolding lists_hits_def by blast
    qed
    have "r \<in> dirty_rows ds" if "t \<in> set us" "r < length as" "fst (as ! r) = fst t" for t r
      using listed [OF that] \<open>\<forall>t \<in> set us. fst (as ! ?r) < fst t\<close> that(1,3) less_irrefl unfolding dirty_rows_def by auto
    with sorted bound show ?thesis unfolding lists_hits_def by blast
  qed
  consider "fst (as ! ?r) < q" | "fst (as ! ?r) = q" | "q < fst (as ! ?r)" by (meson linorder_cases)
  then show ?case
  proof cases
    assume *: "fst (as ! ?r) < q"
    then have "lists_hits as ds ((q, c) # ps)" using assms(3) by (intro less) (auto intro: order.strict_trans)
    then obtain ds' hit where f: "find_hit as ds q = Inr (ds', hit)" "lists_hits as ds' ps" "set ds' \<subseteq> set ds"
        "case hit of None \<Rightarrow> q \<notin> fst ` set as | Some r \<Rightarrow> r < length as \<and> fst (as ! r) = q \<and> r \<in> dirty_rows ds"
      using Cons.IH by blast
    have "dirty_rows ds \<subseteq> dirty_rows (p # ds)" by (auto simp: dirty_rows_def)
    then have "case hit of None \<Rightarrow> q \<notin> fst ` set as | Some r \<Rightarrow> r < length as \<and> fst (as ! r) = q \<and> r \<in> dirty_rows (p # ds)"
      using f(4) by (cases hit) auto
    moreover have "find_hit as (p # ds) q = Inr (ds', hit)" using f(1) * r by simp
    ultimately show ?thesis using f(2,3) by (intro exI [of _ ds'] exI [of _ hit]) (simp add: subset_insertI2)
  next
    assume *: "fst (as ! ?r) = q"
    then have "lists_hits as ds ps" using assms(3) by (intro less) auto
    then show ?thesis using * r by (auto simp: dirty_rows_def)
  next
    assume *: "q < fst (as ! ?r)"
    have "fst (as ! s) \<noteq> q" if "s < length as" for s
    proof
      assume s: "fst (as ! s) = q"
      then have "s \<in> dirty_rows (p # ds)" using Cons.prems that by (auto simp: lists_hits_def)
      then have "?r \<le> s" using Cons.prems by (auto simp: lists_hits_def dirty_rows_def intro: less_imp_le)
      then show False using run_nth_less [OF assms(1), of ?r s] that * s by (cases "?r = s") auto
    qed
    moreover have "lists_hits as (p # ds) ps" by (rule lists_hits_subset [OF Cons.prems]) auto
    moreover have "find_hit as (p # ds) q = Inr (p # ds, None)" using r less_not_sym [OF *] less_imp_neq [OF *] by simp
    ultimately show ?thesis by (intro exI [of _ "p # ds"] exI [of _ None]) (simp add: key_not_in)
  qed
qed

context coefficient_laws
begin

lemma kept_total_cong: "key_total C ts k = key_total C us k \<Longrightarrow> kept_total C policy ts k = kept_total C policy us k"
  by (simp add: kept_total_def)

lemma key_total_update:
  assumes "r < length as" "fst (as ! r) = q"
  shows "key_total C (as[r := (q, c_add C (snd (as ! r)) c)] @ us) k = key_total C (as @ us @ [(q, c)]) k"
proof -
  have split: "as = take r as @ (q, snd (as ! r)) # drop (Suc r) as" using assms id_take_nth_drop [of r as] by (metis prod.collapse)
  have "as[r := (q, c_add C (snd (as ! r)) c)] = take r as @ (q, c_add C (snd (as ! r)) c) # drop (Suc r) as"
    using assms(1) by (simp add: upd_conv_take_nth_drop)
  moreover have "(\<Sum>(l, c)\<leftarrow>as. if l = k then to_complex64 C c else 0) =
      (\<Sum>(l, c)\<leftarrow>take r as @ (q, snd (as ! r)) # drop (Suc r) as. if l = k then to_complex64 C c else 0)"
    using split by simp
  ultimately show ?thesis by (intro key_total_eqI) (simp add: embed_key_total embed_add)
qed

lemma key_total_perm: "mset ts = mset us \<Longrightarrow> key_total C ts k = key_total C us k"
  by (intro key_total_eqI) (simp add: embed_key_total sum_mset_sum_list [symmetric] del: sum_mset_sum_list)

text \<open>A partner the floor refuses adds nothing to what is kept.\<close>

lemma kept_total_refused:
  assumes "floor_sound C policy" "0 \<le> coefficient_floor policy" "norm_sqr C c \<le> (coefficient_floor policy)\<^sup>2" "q \<notin> fst ` set us"
  shows "kept_total C policy (us @ [(q, c)]) k = kept_total C policy us k"
proof (cases "k = q")
  case True
  have zero: "(\<Sum>(l, c)\<leftarrow>us. if l = q then to_complex64 C c else 0) = 0" using assms(4) by (induction us) auto
  then have "key_total C us q = c_zero C" "key_total C (us @ [(q, c)]) q = c"
    by (intro key_total_eqI; simp add: embed_zero)+
  then show ?thesis using assms(1-3) True by (auto simp: kept_total_def floor_sound_def eq_iff)
next
  case False
  then have "key_total C (us @ [(q, c)]) k = key_total C us k" by (intro key_total_eqI) (simp add: embed_key_total)
  then show ?thesis by (rule kept_total_cong)
qed

lemma fold_rows_ok:
  assumes "run as" "run ps" "run kept" "lists_hits as ds ps" "\<forall>t \<in> set kept. \<forall>u \<in> set ps. fst t < fst u" "fst ` set kept \<inter> fst ` set as = {}"
    and fl: "floor_sound C policy" "fsqr = (if 0 \<le> coefficient_floor policy then coefficient_floor policy * coefficient_floor policy else - 1)"
  shows "\<exists>as' ps'. fold_rows C fsqr as ds kept ps = Inr (as', ps') \<and> map fst as' = map fst as \<and> run ps' \<and>
    fst ` set ps' \<inter> fst ` set as = {} \<and> set ps' \<subseteq> set (kept @ ps) \<and>
    (\<forall>k. kept_total C policy (as' @ ps') k = kept_total C policy (as @ kept @ ps) k) \<and> (\<forall>r. r \<notin> dirty_rows ds \<longrightarrow> as' ! r = as ! r)"
  using assms(1-6)
proof (induction ps arbitrary: as ds kept)
  case Nil
  then show ?case by auto
next
  case (Cons t ps)
  obtain q c where t: "t = (q, c)" by (cases t)
  have up: "\<forall>u \<in> set ps. q < fst u" and ps: "run ps" using Cons.prems(2) by (simp_all add: run_Cons t)
  obtain ds' hit where f: "find_hit as ds q = Inr (ds', hit)" "lists_hits as ds' ps" "set ds' \<subseteq> set ds"
      "case hit of None \<Rightarrow> q \<notin> fst ` set as | Some r \<Rightarrow> r < length as \<and> fst (as ! r) = q \<and> r \<in> dirty_rows ds"
    using find_hit_ok [OF Cons.prems(1) Cons.prems(4) [unfolded t] up] by blast
  have sub: "dirty_rows ds' \<subseteq> dirty_rows ds" using f(3) by (auto simp: dirty_rows_def)
  have below: "\<forall>t \<in> set kept. \<forall>u \<in> set ps. fst t < fst u" using Cons.prems(5) by simp
  show ?case
  proof (cases hit)
    case (Some r)
    let ?as = "as[r := (fst (as ! r), c_add C (snd (as ! r)) c)]"
    have r: "r < length as" "fst (as ! r) = q" "r \<in> dirty_rows ds" using f(4) Some by simp_all
    have keys: "map fst ?as = map fst as" using r(1) by (simp add: map_update) (metis list_update_id nth_map)
    then have fkeys: "fst ` set ?as = fst ` set as" "run ?as" using Cons.prems(1) by (metis image_set, simp add: run_def)
    moreover have tot: "key_total C (?as @ kept @ ps) k = key_total C (as @ kept @ t # ps) k" for k
      using key_total_update [OF r(1,2), of c "kept @ ps" k] key_total_perm [of "as @ (kept @ ps) @ [(q, c)]" "as @ kept @ t # ps" k]
      by (simp add: t r(2))
    ultimately obtain as' ps' where IH: "fold_rows C fsqr ?as ds' kept ps = Inr (as', ps')" "map fst as' = map fst ?as" "run ps'"
        "fst ` set ps' \<inter> fst ` set ?as = {}" "set ps' \<subseteq> set (kept @ ps)"
        "\<And>k. kept_total C policy (as' @ ps') k = kept_total C policy (?as @ kept @ ps) k" "\<And>r. r \<notin> dirty_rows ds' \<Longrightarrow> as' ! r = ?as ! r"
      using Cons.IH [of ?as kept ds'] ps Cons.prems(3,6) f(2) lists_hits_keys [OF keys] below by auto
    have "as' ! m = as ! m" if m: "m \<notin> dirty_rows ds" for m
    proof -
      have "m \<notin> dirty_rows ds'" "r \<noteq> m" using m sub r(3) by auto
      then show ?thesis using IH(7) [of m] by simp
    qed
    moreover have "fold_rows C fsqr as ds kept (t # ps) = Inr (as', ps')" using IH(1) f(1) Some by (simp add: t)
    moreover have "kept_total C policy (as' @ ps') k = kept_total C policy (as @ kept @ t # ps) k" for k
      unfolding IH(6) by (rule kept_total_cong) (rule tot)
    moreover have "set ps' \<subseteq> set (kept @ t # ps)" using IH(5) by auto
    ultimately show ?thesis
      by (intro exI [of _ as'] exI [of _ ps'] conjI allI impI IH(3) IH(2) [unfolded keys] IH(4) [unfolded fkeys(1)])
  next
    case None
    let ?kept = "if fsqr < norm_sqr C c then kept @ [(q, c)] else kept"
    have new: "q \<notin> fst ` set as" using f(4) None by simp
    have "run ?kept" using Cons.prems(3,5) by (simp add: run_append run_Cons t)
    moreover have "\<forall>t \<in> set ?kept. \<forall>u \<in> set ps. fst t < fst u" using below up by auto
    moreover have "fst ` set ?kept \<inter> fst ` set as = {}" using Cons.prems(6) new by auto
    ultimately obtain as' ps' where IH: "fold_rows C fsqr as ds' ?kept ps = Inr (as', ps')" "map fst as' = map fst as" "run ps'"
        "fst ` set ps' \<inter> fst ` set as = {}" "set ps' \<subseteq> set (?kept @ ps)"
        "\<And>k. kept_total C policy (as' @ ps') k = kept_total C policy (as @ ?kept @ ps) k" "\<And>r. r \<notin> dirty_rows ds' \<Longrightarrow> as' ! r = as ! r"
      using Cons.IH [of as ?kept ds'] ps Cons.prems(1) f(2) by auto
    have alone: "q \<notin> fst ` set (as @ kept @ ps)" using new up Cons.prems(5) by (auto simp: t)
    have perm: "mset (as @ kept @ t # ps) = mset ((as @ kept @ ps) @ [(q, c)])" by (simp add: t)
    have "kept_total C policy (as @ ?kept @ ps) k = kept_total C policy ((as @ kept @ ps) @ [(q, c)]) k" for k
    proof (cases "fsqr < norm_sqr C c")
      case True
      then show ?thesis by (intro kept_total_cong key_total_perm) simp
    next
      case False
      have "0 \<le> norm_sqr C c" by (simp add: embed_norm)
      with False have "fsqr \<noteq> - 1" by auto
      then have fl0: "0 \<le> coefficient_floor policy" using fl(2) by presburger
      then have "norm_sqr C c \<le> (coefficient_floor policy)\<^sup>2" using fl(2) False by (simp add: power2_eq_square)
      from kept_total_refused [OF fl(1) fl0 this alone] False show ?thesis by simp
    qed
    moreover have "fold_rows C fsqr as ds kept (t # ps) = Inr (as', ps')" using IH(1) f(1) None by (simp add: t)
    moreover have "set ps' \<subseteq> set (kept @ t # ps)" using IH(5) by (auto simp: t split: if_splits)
    moreover have "\<And>r. r \<notin> dirty_rows ds \<Longrightarrow> as' ! r = as ! r" using IH(7) sub by blast
    moreover have "kept_total C policy (as @ kept @ t # ps) k = kept_total C policy ((as @ kept @ ps) @ [(q, c)]) k" for k
      by (rule kept_total_cong [OF key_total_perm [OF perm]])
    ultimately show ?thesis
      by (intro exI [of _ as'] exI [of _ ps'] conjI allI impI IH(2-4)) (simp_all only: IH(6))
  qed
qed

end

lemma dirty_row_listed: "0 < e \<Longrightarrow> e \<le> length ds \<Longrightarrow> dirty_row ds e \<in> dirty_rows ds"
  by (auto simp: dirty_row_def dirty_rows_def)

lemma listed_dirty_row: "r \<in> dirty_rows ds \<Longrightarrow> \<exists>e. 0 < e \<and> e \<le> length ds \<and> dirty_row ds e = r"
proof -
  assume "r \<in> dirty_rows ds"
  then obtain i where "i < length ds" "r = unat (drop_bit 4 (ds ! i))" by (auto simp: dirty_rows_def in_set_conv_nth)
  then show ?thesis by (intro exI [of _ "Suc i"]) (simp add: dirty_row_def)
qed

lemma lists_hits_dirty_ok:
  assumes "lists_hits as ds ps" "\<And>r. r < length as \<Longrightarrow> r \<notin> dirty_rows ds \<Longrightarrow> kept_sum C policy (fst (as ! r)) (snd (as ! r))"
  shows "dirty_ok C policy as (Some ds)"
proof -
  have "dirty_sorted ds (length ds)"
    using assms(1) by (auto simp: dirty_sorted_def lists_hits_def dirty_row_def sorted_wrt_iff_nth_less)
  moreover have "dirty_inv C policy as ds (length as) (length ds)"
    using assms dirty_row_listed [of "length ds" ds] listed_dirty_row [of _ ds] unfolding dirty_inv_def lists_hits_def by blast
  ultimately show ?thesis by (simp add: dirty_ok_def)
qed

text \<open>A bucket's fold and merge: the rows of the bucket and of its partners, reduced.\<close>

lemma fold_merge_reduced:
  assumes laws: "coefficient_laws C" and fl: "floor_sound C policy" and runs: "run as" "run ps" and listed: "lists_hits as ds ps"
    and clean: "\<And>r. known \<Longrightarrow> r < length as \<Longrightarrow> r \<notin> dirty_rows ds \<Longrightarrow> kept_sum C policy (fst (as ! r)) (snd (as ! r))"
  shows "\<exists>as' ps' ts. fold_hits C as ds ps (coefficient_floor policy) = Inr (as', ps') \<and> length as' = length as \<and>
    (\<forall>junk. merge_partners C policy as' junk ps' (if known then Some ds else None) True = Inr (ts, length ps' \<le> length junk)) \<and>
    is_reduced C policy (as @ ps) ts"
proof -
  obtain as' ps' where f: "fold_hits C as ds ps (coefficient_floor policy) = Inr (as', ps')" "map fst as' = map fst as" "run ps'"
      "set ps' \<subseteq> set ps" "\<And>k. kept_total C policy (as' @ ps') k = kept_total C policy (as @ ps) k"
      "\<And>r. r \<notin> dirty_rows ds \<Longrightarrow> as' ! r = as ! r"
    using coefficient_laws.fold_rows_ok [OF laws runs run_Nil listed _ _ fl refl] by (auto simp: fold_hits_def)
  have len: "length as' = length as" using f(2) by (metis length_map)
  have run': "run as'" using runs(1) f(2) by (simp add: run_def)
  have dirty: "dirty_ok C policy as' (if known then Some ds else None)"
  proof (cases known)
    case True
    then have "dirty_ok C policy as' (Some ds)"
      using clean f(6) len lists_hits_keys [OF f(2)] listed by (intro lists_hits_dirty_ok [of as' ds ps]) auto
    with True show ?thesis by simp
  qed (simp add: dirty_ok_def)
  have red: "is_reduced C policy (as @ ps) ts" if "is_reduced C policy (as' @ ps') ts" for ts
  proof -
    have "fst ` set as' = fst ` set as" using f(2) by (metis image_set)
    then have keys: "fst ` set (as' @ ps') \<subseteq> fst ` set (as @ ps)" using f(4) by auto
    have eq: "kept_total C policy (as' @ ps') = kept_total C policy (as @ ps)" using f(5) by blast
    show ?thesis using that subset_trans [OF _ keys] unfolding is_reduced_def eq by blast
  qed
  have merged: "\<exists>ts. merge_partners C policy as' junk ps' (if known then Some ds else None) True = Inr (ts, length ps' \<le> length junk) \<and>
      is_reduced C policy (as' @ ps') ts" for junk
    using merge_partners_reduced [OF laws run' f(3) dirty, of junk True] by simp
  obtain ts where ts: "is_reduced C policy (as' @ ps') ts" using merged by blast
  have "merge_partners C policy as' junk ps' (if known then Some ds else None) True = Inr (ts, length ps' \<le> length junk)" for junk
    using merged [of junk] ts run_eqI unfolding is_reduced_def by metis
  with f(1) len red [OF ts] show ?thesis by blast
qed

text \<open>
  C40. The merge of a bucket's partners into the bucket returns, whatever the spare slots of the buffer hold, the rows of both
  summed key by key and filtered, in strict key order: through the sparse in-place merge, which moves the untouched rows in
  blocks, the per-row in-place merge, or the copying merge. It runs in place exactly when the buffer has room for the partners
  that are new keys (or, when the caller promised that all are, for all), and no write ever leaves the buffer.
\<close>

theorem merge_partners_reduces:
  assumes "coefficient_laws C" "run as" "run ps" "dirty_ok C policy as dirty"
  shows "\<exists>ts. merge_partners C policy as junk ps dirty new_keys =
      Inr (ts, length ps \<le> length junk + (if new_keys then 0 else num_hits as ps)) \<and>
    run ts \<and> (\<forall>k. map_of ts k = kept_total C policy (as @ ps) k)"
  using merge_partners_reduced [OF assms, of junk new_keys] by (auto simp: is_reduced_def)

theorem merge_partners_reduces_witness:
  "\<exists>ts. merge_partners real_coefficient (weight_cutoff 1 :: (unit, real) truncation_policy) [(([1], [0]), 4), (([3], [0]), 2)]
      [(([9], [9]), 7)] [(([2], [0]), 5), (([3], [0]), 6)] None False = Inr (ts, True) \<and> map_of ts ([2], [0]) = Some 5"
proof -
  let ?as = "[(([1], [0]), 4), (([3], [0]), 2)] :: real pauli_term list" and ?ps = "[(([2], [0]), 5), (([3], [0]), 6)] :: real pauli_term list"
  let ?p = "weight_cutoff 1 :: (unit, real) truncation_policy"
  have run: "run ?as" "run ?ps" by (simp_all add: run_def)
  have total: "key_total real_coefficient (?as @ ?ps) ([2], [0]) = 5" by (simp add: key_total_def real_coefficient_def)
  have "count_ones (2 :: u64) = 1" by code_simp
  then have "keep_term ?p [2] [0] 5" by (simp add: weight_cutoff_def term_filter_def weight_keep_def)
  then have kept: "kept_total real_coefficient ?p (?as @ ?ps) ([2], [0]) = Some 5"
    unfolding kept_total_def total Let_def by (simp add: real_coefficient_def)
  have hit: "num_hits ?as ?ps = 1" by (simp add: num_hits_def)
  have "dirty_ok real_coefficient ?p ?as None" by (simp add: dirty_ok_def)
  from merge_partners_reduces [OF real_c.coefficient_laws_axioms run this, of "[(([9], [9]), 7)]" False] kept hit
  show ?thesis by auto
qed

end
