(* ===== verification/Partner_Order.thy ===== *)
theory Partner_Order
  imports Merge Gf2_Rank
begin

unbundle bit_operations_syntax

text \<open>
  \<open>engine/bucketed/partner_order.rs\<close>: the key order of a run of partners \<open>k \<oplus> g\<close> whose sources \<open>k\<close> are in key order,
  found by swapping blocks at the set bits of \<open>g\<close> instead of sorting.
\<close>

section \<open>The code\<close>

definition MAX_LEVELS :: nat where
  "MAX_LEVELS = 2 * MAX_LOCAL_SUPPORT"

record partner_order =
  po_levels :: "u32 list"
  po_depth :: nat

lemma clear_highest_less:
  fixes w :: u64
  assumes "w \<noteq> 0"
  shows "unat (w AND NOT (push_bit (63 - leading_zeros w) 1)) < unat w"
proof -
  have "bit w (63 - leading_zeros w)" using highest_bit_word(2) [OF assms] by simp
  then have "w AND NOT (push_bit (63 - leading_zeros w) 1) \<noteq> w"
    by (metis bit_and_iff bit_not_iff bit_push_bit_iff bit_1_iff diff_self_eq_0 le_refl)
  moreover have "w AND NOT (push_bit (63 - leading_zeros w) 1) \<le> w" by (rule word_and_le2)
  ultimately show ?thesis by (simp add: word_less_nat_alt [symmetric] order.not_eq_order_implies_strict)
qed

text \<open>The inner loop of \<open>new\<close>, which takes a word's set bits from the most significant down.\<close>

function level_loop :: "nat \<Rightarrow> u64 \<Rightarrow> partner_order \<Rightarrow> partner_order result" where
  "level_loop word live order =
     (if live \<noteq> 0
      then let rank = leading_zeros live
           in and_then (assert_that (po_depth order < MAX_LEVELS) TooManyBits) (\<lambda>_.
              level_loop word (live AND NOT (push_bit (63 - rank) 1))
                \<lparr>po_levels = (po_levels order)[po_depth order := of_nat (64 * word) + of_nat rank], po_depth = po_depth order + 1\<rparr>)
      else Inr order)"
  by pat_completeness auto
termination by (relation "measure (\<lambda>(_, live, _). unat live)") (use clear_highest_less in \<open>auto simp: push_bit_of_1\<close>)

declare level_loop.simps [simp del]

definition partner_order_new :: "nat \<Rightarrow> key \<Rightarrow> partner_order result" where
  "partner_order_new W g =
     fold_result (\<lambda>word. level_loop word (if word < W then fst g ! word else snd g ! (word - W))) [0..<2 * W]
       \<lparr>po_levels = replicate MAX_LEVELS 0, po_depth = 0\<rparr>"

definition partner_order_try_new :: "nat \<Rightarrow> key \<Rightarrow> partner_order option result" where
  "partner_order_try_new W g =
     (let bits = sum_list (map count_ones (fst g @ snd g))
      in if bits \<le> MAX_LEVELS then and_then (partner_order_new W g) (\<lambda>order. Inr (Some order)) else Inr None)"

text \<open>The loops of \<open>first_difference\<close>, over one column and then the other.\<close>

fun difference_scan :: "nat \<Rightarrow> words \<Rightarrow> words \<Rightarrow> nat option" where
  "difference_scan base (u # us) (v # vs) =
     (let diff = u XOR v in if diff \<noteq> 0 then Some (64 * base + leading_zeros diff) else difference_scan (base + 1) us vs)"
| "difference_scan base _ _ = None"

definition first_difference :: "nat \<Rightarrow> 'c bucket_columns \<Rightarrow> nat \<Rightarrow> nat \<Rightarrow> u32 result" where
  "first_difference W cols a b =
     (case difference_scan 0 (col_x cols ! a) (col_x cols ! b) of
        Some rank \<Rightarrow> Inr (of_nat rank)
      | None \<Rightarrow>
          (case difference_scan W (col_z cols ! a) (col_z cols ! b) of
             Some rank \<Rightarrow> Inr (of_nat rank)
           | None \<Rightarrow> Inl Unreachable))"

definition place_copy :: "'c bucket_columns \<Rightarrow> nat \<Rightarrow> nat \<Rightarrow> 'c bucket_columns \<Rightarrow> 'c bucket_columns" where
  "place_copy cols low high out =
     \<lparr>col_x = col_x out @ take (high - low) (drop low (col_x cols)),
      col_z = col_z out @ take (high - low) (drop low (col_z cols)),
      col_coeff = col_coeff out @ take (high - low) (drop low (col_coeff cols))\<rparr>"

function block_end :: "u32 list \<Rightarrow> u32 \<Rightarrow> nat \<Rightarrow> nat \<Rightarrow> nat" where
  "block_end dv r e high = (if e < high \<and> dv ! e > r then block_end dv r (e + 1) high else e)"
  by pat_completeness auto
termination by (relation "measure (\<lambda>(_, _, e, high). high - e)") auto

declare block_end.simps [simp del]

lemma block_end_ge: "e \<le> block_end dv r e high"
  by (induction dv r e high rule: block_end.induct) (subst block_end.simps, auto)

text \<open>The row loop of \<open>place\<close>; \<open>pl\<close> is \<open>place\<close> at the next level.\<close>

function place_loop ::
    "(nat \<Rightarrow> nat \<Rightarrow> 'o \<Rightarrow> 'o) \<Rightarrow> u32 list \<Rightarrow> u32 \<Rightarrow> nat \<Rightarrow> nat \<Rightarrow> nat \<Rightarrow> nat \<Rightarrow> 'o \<Rightarrow> 'o" where
  "place_loop pl dv r pending group_start row high out =
     (if row < high
      then if dv ! row < r then place_loop pl dv r pending row (row + 1) high out
           else if dv ! row = r
           then let split = row;
                    e = block_end dv r (split + 1) high;
                    out = pl pending group_start out;
                    out = pl split e out;
                    out = pl group_start split out
                in place_loop pl dv r e e (e + 1) high out
           else place_loop pl dv r pending group_start (row + 1) high out
      else pl pending high out)"
  by pat_completeness auto
termination
  by (relation "measure (\<lambda>(_, _, _, _, _, row, high, _). high - row)")
    (auto intro!: diff_less_mono2 simp: less_Suc_eq_le intro: Suc_leD [OF block_end_ge])

declare place_loop.simps [simp del]

fun place :: "'c bucket_columns \<Rightarrow> u32 list \<Rightarrow> u32 list \<Rightarrow> nat \<Rightarrow> nat \<Rightarrow> 'c bucket_columns \<Rightarrow> 'c bucket_columns" where
  "place cols dv [] low high out = place_copy cols low high out"
| "place cols dv (r # levels) low high out =
     (if high - low < 2 then place_copy cols low high out
      else place_loop (place cols dv levels) dv r low low (low + 1) high out)"

definition partner_order_sort :: "nat \<Rightarrow> partner_order \<Rightarrow> 'c bucket_columns \<Rightarrow> ('c bucket_columns \<times> u32 list) result" where
  "partner_order_sort W order cols =
     (let len = columns_len cols
      in and_then (map_result (\<lambda>row. first_difference W cols (row - 1) row) [1..<len]) (\<lambda>differences.
         let divergence = 0 # differences
         in Inr (place cols divergence (take (po_depth order) (po_levels order)) 0 len columns_new, divergence)))"

section \<open>Placing blocks\<close>

definition slice :: "'a list \<Rightarrow> nat \<Rightarrow> nat \<Rightarrow> 'a list" where
  "slice xs a b = take (b - a) (drop a xs)"

lemma slice_append: "a \<le> b \<Longrightarrow> b \<le> c \<Longrightarrow> slice xs a c = slice xs a b @ slice xs b c"
proof -
  assume "a \<le> b" "b \<le> c"
  then have "drop b xs = drop (b - a) (drop a xs)" "c - a = (b - a) + (c - b)" by (simp_all add: drop_drop)
  then show ?thesis unfolding slice_def by (simp only: take_add)
qed

lemma set_slice: "b \<le> length xs \<Longrightarrow> set (slice xs a b) = {xs ! i |i. a \<le> i \<and> i < b}"
proof (intro set_eqI iffI)
  fix x assume "b \<le> length xs" "x \<in> set (slice xs a b)"
  then obtain i where "i < length (slice xs a b)" "x = slice xs a b ! i" by (metis in_set_conv_nth)
  with \<open>b \<le> length xs\<close> show "x \<in> {xs ! i |i. a \<le> i \<and> i < b}"
    by (intro CollectI exI [of _ "a + i"]) (auto simp: slice_def)
next
  fix x assume b: "b \<le> length xs" and "x \<in> {xs ! i |i. a \<le> i \<and> i < b}"
  then obtain i where i: "x = xs ! i" "a \<le> i" "i < b" by blast
  then have "slice xs a b ! (i - a) = x" "i - a < length (slice xs a b)" using b by (auto simp: slice_def)
  then show "x \<in> set (slice xs a b)" by (metis nth_mem)
qed

text \<open>
  What the placer relies on: the order of any two rows is decided by the least divergence between them, reversed when
  the generator sets that bit, and a divergence comes again only after a smaller one.
\<close>

definition block_order :: "('k::linorder \<times> 'v) list \<Rightarrow> u32 list \<Rightarrow> u32 set \<Rightarrow> bool" where
  "block_order rows dv G \<longleftrightarrow>
     (\<forall>i j. i < j \<longrightarrow> j < length rows \<longrightarrow>
        (if Min ((!) dv ` {i<..j}) \<in> G then fst (rows ! j) < fst (rows ! i) else fst (rows ! i) < fst (rows ! j))) \<and>
     (\<forall>i j. 0 < i \<longrightarrow> i < j \<longrightarrow> j < length rows \<longrightarrow> dv ! i = dv ! j \<longrightarrow> (\<exists>l. i < l \<and> l < j \<and> dv ! l < dv ! i))"

text \<open>A placement of rows \<open>a\<close> to \<open>b\<close>: they are appended, in key order.\<close>

definition places :: "'c pauli_term list \<Rightarrow> nat \<Rightarrow> nat \<Rightarrow> 'c bucket_columns \<Rightarrow> 'c bucket_columns \<Rightarrow> bool" where
  "places rows a b out out' \<longleftrightarrow>
     wf_columns out' \<and> (\<exists>ts. terms_of out' = terms_of out @ ts \<and> run ts \<and> mset ts = mset (slice rows a b))"

definition before :: "('k::linorder \<times> 'v) list \<Rightarrow> nat \<Rightarrow> nat \<Rightarrow> nat \<Rightarrow> nat \<Rightarrow> bool" where
  "before rows a b c d \<longleftrightarrow> (\<forall>i j. a \<le> i \<longrightarrow> i < b \<longrightarrow> c \<le> j \<longrightarrow> j < d \<longrightarrow> fst (rows ! i) < fst (rows ! j))"

lemma places_append:
  assumes "places rows a b out out1" "places rows c d out1 out2" "before rows a b c d" "b \<le> length rows" "d \<le> length rows"
    "mset (slice rows a b) + mset (slice rows c d) = mset (slice rows e f)"
  shows "places rows e f out out2"
proof -
  obtain ts us where ts: "terms_of out1 = terms_of out @ ts" "run ts" "mset ts = mset (slice rows a b)"
    and us: "wf_columns out2" "terms_of out2 = terms_of out1 @ us" "run us" "mset us = mset (slice rows c d)"
    using assms(1,2) by (auto simp: places_def)
  have "set ts = {rows ! i |i. a \<le> i \<and> i < b}" "set us = {rows ! i |i. c \<le> i \<and> i < d}"
    unfolding mset_eq_setD [OF ts(3)] mset_eq_setD [OF us(4)] by (rule set_slice [OF assms(4)], rule set_slice [OF assms(5)])
  then have "fst t < fst u" if "t \<in> set ts" "u \<in> set us" for t u
  proof -
    from \<open>t \<in> set ts\<close> \<open>set ts = _\<close> obtain i where "t = rows ! i" "a \<le> i" "i < b" by blast
    moreover from \<open>u \<in> set us\<close> \<open>set us = _\<close> obtain j where "u = rows ! j" "c \<le> j" "j < d" by blast
    ultimately show ?thesis using assms(3) by (simp add: before_def)
  qed
  then have "run (ts @ us)" using ts(2) us(3) unfolding run_append by blast
  with ts us assms(6) show ?thesis by (auto simp: places_def intro!: exI [of _ "ts @ us"])
qed

lemma place_copy_places:
  assumes "wf_columns cols" "wf_columns out" "low \<le> high" "high \<le> columns_len cols" "run (slice (terms_of cols) low high)"
  shows "places (terms_of cols) low high out (place_copy cols low high out)"
proof -
  have len: "length (col_x cols) = columns_len cols" "length (col_z cols) = columns_len cols" "length (col_coeff cols) = columns_len cols"
    "length (col_x out) = length (col_coeff out)" "length (col_z out) = length (col_coeff out)"
    using assms(1,2) by (simp_all add: wf_columns_def columns_len_def)
  have "terms_of (place_copy cols low high out) = terms_of out @ slice (terms_of cols) low high"
    using len by (simp add: place_copy_def terms_of_def slice_def take_zip drop_zip)
  moreover have "wf_columns (place_copy cols low high out)" using len by (simp add: place_copy_def wf_columns_def)
  ultimately show ?thesis using assms(5) by (auto simp: places_def)
qed

section \<open>The row loop\<close>

lemma block_end_props:
  fixes dv r
  assumes "s < high"
  defines "e \<equiv> block_end dv r (s + 1) high"
  shows "s < e" "e \<le> high" "\<And>i. s < i \<Longrightarrow> i < e \<Longrightarrow> r < dv ! i" "e < high \<Longrightarrow> dv ! e \<le> r"
proof -
  have "(b \<le> high \<longrightarrow> block_end dv r b high \<le> high) \<and> (\<forall>i. b \<le> i \<longrightarrow> i < block_end dv r b high \<longrightarrow> r < dv ! i) \<and>
      (block_end dv r b high < high \<longrightarrow> dv ! block_end dv r b high \<le> r)" for b
  proof (induction dv r b high rule: block_end.induct)
    case (1 dv r e high)
    show ?case
    proof (cases "e < high \<and> r < dv ! e")
      case True
      then have eq: "block_end dv r e high = block_end dv r (e + 1) high" by (subst block_end.simps) simp
      have "r < dv ! i" if "e \<le> i" "i < block_end dv r (e + 1) high" for i
        using 1 [OF True] True that by (cases "i = e") auto
      with 1 [OF True] True show ?thesis unfolding eq by auto
    next
      case False
      then have "block_end dv r e high = e" by (subst block_end.simps) argo
      with False show ?thesis by auto
    qed
  qed
  from this [of "s + 1"] show "e \<le> high" "\<And>i. s < i \<Longrightarrow> i < e \<Longrightarrow> r < dv ! i" "e < high \<Longrightarrow> dv ! e \<le> r"
    using assms(1) by (auto simp: e_def)
  show "s < e" using block_end_ge [of "s + 1" dv r high] by (simp add: e_def)
qed

lemma order_kept:
  assumes "block_order rows dv G" "i < c" "c \<le> j" "j < length rows" "dv ! c < r" "\<And>l. i < l \<Longrightarrow> l \<le> j \<Longrightarrow> dv ! l \<in> G \<Longrightarrow> r \<le> dv ! l"
  shows "fst (rows ! i) < fst (rows ! j)"
proof -
  let ?m = "Min ((!) dv ` {i<..j})"
  have "?m \<le> dv ! c" using assms(2,3) by (intro Min_le) auto
  moreover have "?m \<in> (!) dv ` {i<..j}" using assms(2,3) by (intro Min_in) auto
  then obtain l where "i < l" "l \<le> j" "?m = dv ! l" by auto
  ultimately have "?m \<notin> G" using assms(5,6) by fastforce
  with assms(1-4) show ?thesis unfolding block_order_def by (meson le_less_trans less_le_trans)
qed

lemma block_order_repeat:
  "block_order rows dv G \<Longrightarrow> 0 < i \<Longrightarrow> i < j \<Longrightarrow> j < length rows \<Longrightarrow> dv ! i = dv ! j \<Longrightarrow> \<exists>l. i < l \<and> l < j \<and> dv ! l < dv ! i"
  by (simp add: block_order_def)

lemma order_swapped:
  assumes "block_order rows dv G" "i < s" "s \<le> j" "j < length rows" "dv ! s = r" "r \<in> G"
    "\<And>l. i < l \<Longrightarrow> l \<le> j \<Longrightarrow> l \<noteq> s \<Longrightarrow> r < dv ! l"
  shows "fst (rows ! j) < fst (rows ! i)"
proof -
  have "Min ((!) dv ` {i<..j}) = r"
  proof (rule Min_eqI)
    show "r \<le> d" if "d \<in> (!) dv ` {i<..j}" for d
    proof -
      from that obtain l where "i < l" "l \<le> j" "d = dv ! l" by auto
      then show "r \<le> d" using assms(5) assms(7) [of l] by (cases "l = s") (auto simp: less_imp_le)
    qed
    show "r \<in> (!) dv ` {i<..j}" using assms(2,3,5) by auto
  qed simp
  moreover have "i < j" using assms(2,3) by simp
  ultimately show ?thesis using assms(1,4,6) unfolding block_order_def by auto
qed

text \<open>A range is ready for the levels \<open>ls\<close> when every generator bit at which adjacent rows of it part is among them.\<close>

definition ready :: "u32 list \<Rightarrow> u32 set \<Rightarrow> u32 list \<Rightarrow> nat \<Rightarrow> nat \<Rightarrow> bool" where
  "ready dv G ls a b \<longleftrightarrow> (\<forall>i. a < i \<longrightarrow> i < b \<longrightarrow> dv ! i \<in> G \<longrightarrow> dv ! i \<in> set ls)"

lemma place_loop_places:
  fixes rows :: "'c pauli_term list"
  assumes bo: "block_order rows dv G" and high: "high \<le> length rows" and rG: "r \<in> G" and levels: "\<forall>l \<in> set ls. r < l"
    and pl: "\<And>a b out. a \<le> b \<Longrightarrow> b \<le> high \<Longrightarrow> ready dv G ls a b \<Longrightarrow> wf_columns out \<Longrightarrow> places rows a b out (pl a b out)"
    and st: "pending \<le> group_start" "group_start < row" "pending \<le> high" "ready dv G (r # ls) pending high" "wf_columns out"
      "\<And>i. pending < i \<Longrightarrow> i < row \<Longrightarrow> i < high \<Longrightarrow> dv ! i \<noteq> r" "\<And>i. group_start < i \<Longrightarrow> i < row \<Longrightarrow> i < high \<Longrightarrow> r < dv ! i"
      "pending < group_start \<Longrightarrow> group_start < high \<and> dv ! group_start < r"
  shows "places rows pending high out (place_loop pl dv r pending group_start row high out)"
  using st
proof (induction "high - row" arbitrary: pending group_start row out rule: less_induct)
  case less
  note st = less.prems
  consider (stop) "\<not> row < high" | (low) "row < high" "dv ! row < r" | (skip) "row < high" "r < dv ! row" | (split) "row < high" "dv ! row = r"
    by fastforce
  then show ?case
  proof cases
    case stop
    then have "ready dv G ls pending high" using st(4) st(6) by (auto simp: ready_def)
    with pl [OF st(3) order_refl this st(5)] stop show ?thesis by (subst place_loop.simps) simp
  next
    case low
    then have "places rows pending high out (place_loop pl dv r pending row (row + 1) high out)"
      using st by (intro less.hyps) (auto simp: less_Suc_eq)
    with low show ?thesis by (subst place_loop.simps) simp
  next
    case skip
    then have "places rows pending high out (place_loop pl dv r pending group_start (row + 1) high out)"
      using st by (intro less.hyps) (auto simp: less_Suc_eq)
    with skip show ?thesis by (subst place_loop.simps) auto
  next
    case split
    define e where "e = block_end dv r (row + 1) high"
    note e = block_end_props [OF split(1), where dv = dv and r = r, folded e_def]
    have gs: "group_start \<le> row" "group_start \<le> e" "row \<le> e" "row \<le> high" using st(2) e(1) split(1) by auto
    have row: "0 < row" "e \<le> length rows" "row \<le> length rows" "group_start \<le> length rows" using st(2) e(2) high gs by auto
    have below: "dv ! e < r" if "e < high"
    proof (rule ccontr)
      assume "\<not> dv ! e < r"
      with e(4) [OF that] split(2) have "dv ! row = dv ! e" by simp
      with block_order_repeat [OF bo row(1) e(1)] that high obtain l where "row < l" "l < e" "dv ! l < dv ! row" by auto
      with e(3) [of l] split(2) show False by simp
    qed
    have least: "r \<le> dv ! l" if "pending < l" "l < high" "dv ! l \<in> G" for l
    proof -
      have "dv ! l \<in> set (r # ls)" using st(4) that unfolding ready_def by blast
      then show ?thesis using levels by (auto simp: less_imp_le)
    qed
    have kept: "before rows pending c c high" if c: "pending < c \<Longrightarrow> c < high \<Longrightarrow> dv ! c < r" for c
      unfolding before_def
    proof (intro allI impI)
      fix i j assume i: "pending \<le> i" "i < c" and j: "c \<le> j" "j < high"
      show "fst (rows ! i) < fst (rows ! j)"
        by (rule order_kept [OF bo i(2) j(1)])
          (use i j high c least in auto)
    qed
    have swapped: "before rows row e group_start row"
      unfolding before_def
    proof (intro allI impI)
      fix j i assume j: "row \<le> j" "j < e" and i: "group_start \<le> i" "i < row"
      show "fst (rows ! j) < fst (rows ! i)"
        by (rule order_swapped [OF bo i(2) j(1) _ split(2) rG]) (use i j row st(7) e(2,3) in \<open>auto simp: neq_iff\<close>)
    qed
    have next_level: "ready dv G ls a b" if "pending \<le> a" "b \<le> high" "\<And>i. a < i \<Longrightarrow> i < b \<Longrightarrow> dv ! i \<noteq> r" for a b
      unfolding ready_def
    proof (intro allI impI)
      fix i assume i: "a < i" "i < b" "dv ! i \<in> G"
      with that(1,2) have "pending < i" "i < high" by simp_all
      with st(4) i(3) have "dv ! i \<in> set (r # ls)" unfolding ready_def by blast
      with that(3) [OF i(1,2)] show "dv ! i \<in> set ls" by simp
    qed
    define out1 where "out1 = pl pending group_start out"
    define out2 where "out2 = pl row e out1"
    define out3 where "out3 = pl group_start row out2"
    have p1: "places rows pending group_start out out1"
      unfolding out1_def by (intro pl next_level) (use st gs e(2) in auto)
    have p2: "places rows row e out1 out2"
      unfolding out2_def by (intro pl next_level) (use st gs e p1 in \<open>auto simp: places_def dest!: e(3)\<close>)
    have p3: "places rows group_start row out2 out3"
      unfolding out3_def by (intro pl next_level) (use st gs e p2 in \<open>auto simp: places_def\<close>)
    have p23: "places rows group_start e out1 out3"
      by (rule places_append [OF p2 p3 swapped]) (use row gs slice_append [OF gs(1,3), of rows] in simp_all)
    have p123: "places rows pending e out out3"
      by (rule places_append [OF p1 p23])
        (use kept [of group_start] st(1,8) row gs e(2) slice_append [OF st(1) gs(2), of rows] in \<open>auto simp: before_def\<close>)
    have p4: "places rows e high out3 (place_loop pl dv r e e (e + 1) high out3)"
      using e split st(1,4) gs p3 by (intro less.hyps) (auto simp: ready_def places_def)
    have "places rows pending high out (place_loop pl dv r e e (e + 1) high out3)"
      by (rule places_append [OF p123 p4 kept])
        (use below row high st(1) gs e(2) slice_append [of pending e high rows] in auto)
    with split show ?thesis
      by (subst place_loop.simps) (simp add: Let_def e_def out1_def out2_def out3_def)
  qed
qed

lemma block_order_ready_run:
  assumes "block_order rows dv G" "ready dv G [] low high" "high \<le> length rows"
  shows "run (slice rows low high)"
  unfolding run_def sorted_wrt_iff_nth_less
proof (intro allI impI)
  fix i j assume ij: "i < j" "j < length (map fst (slice rows low high))"
  let ?m = "Min ((!) dv ` {low + i<..low + j})"
  have "?m \<in> (!) dv ` {low + i<..low + j}" using ij(1) by (intro Min_in) auto
  then obtain l where l: "low + i < l" "l \<le> low + j" "?m = dv ! l" by auto
  have len: "low + j < high" "low + j < length rows" using ij(2) assms(3) by (auto simp: slice_def)
  with l assms(2) have "?m \<notin> G" by (auto simp: ready_def)
  moreover have "low + i < low + j" using ij(1) by simp
  ultimately have "fst (rows ! (low + i)) < fst (rows ! (low + j))" using assms(1) len(2) unfolding block_order_def by metis
  then show "map fst (slice rows low high) ! i < map fst (slice rows low high) ! j" using ij len by (simp add: slice_def)
qed

lemma place_places:
  fixes cols :: "'c bucket_columns"
  assumes cols: "wf_columns cols" and bo: "block_order (terms_of cols) dv G" and "sorted_wrt (<) ls" "set ls \<subseteq> G"
    and "low \<le> high" "high \<le> columns_len cols" "ready dv G ls low high" "wf_columns out"
  shows "places (terms_of cols) low high out (place cols dv ls low high out)"
  using assms(3-8)
proof (induction ls arbitrary: low high out)
  case Nil
  then show ?case
    using place_copy_places [OF cols] block_order_ready_run [OF bo] length_terms_of [OF cols] by simp
next
  case (Cons r ls)
  show ?case
  proof (cases "high - low < 2")
    case True
    have "run (slice (terms_of cols) low high)"
      by (rule block_order_ready_run [OF bo]) (use True Cons.prems length_terms_of [OF cols] in \<open>auto simp: ready_def\<close>)
    with True Cons.prems show ?thesis using place_copy_places [OF cols] by simp
  next
    case False
    have len: "high \<le> length (terms_of cols)" using Cons.prems length_terms_of [OF cols] by simp
    have "places (terms_of cols) low high out (place_loop (place cols dv ls) dv r low low (low + 1) high out)"
      by (rule place_loop_places [OF bo len, where ls = ls and r = r])
        (use Cons.prems False in \<open>auto intro!: Cons.IH\<close>)
    with False show ?thesis by simp
  qed
qed

section \<open>Keys by significance\<close>

text \<open>The bits of a row of words by significance rank, 0 the most significant, and the rank at which two rows first part.\<close>

definition rank_bit :: "words \<Rightarrow> nat \<Rightarrow> bool" where
  "rank_bit us \<rho> = bit (us ! (\<rho> div 64)) (63 - \<rho> mod 64)"

definition parts_at :: "words \<Rightarrow> words \<Rightarrow> nat \<Rightarrow> bool" where
  "parts_at us vs \<rho> \<longleftrightarrow> \<rho> < 64 * length us \<and> (\<forall>\<sigma> < \<rho>. rank_bit us \<sigma> = rank_bit vs \<sigma>) \<and> rank_bit us \<rho> \<noteq> rank_bit vs \<rho>"

lemma rank_bit_Cons: "rank_bit (u # us) \<rho> = (if \<rho> < 64 then bit u (63 - \<rho>) else rank_bit us (\<rho> - 64))"
  by (simp add: rank_bit_def le_div_geq le_mod_geq)

lemma word_less_by_bit:
  fixes u v :: u64
  assumes "\<not> bit u n" "bit v n" "\<And>m. n < m \<Longrightarrow> bit u m = bit v m"
  shows "u < v"
proof -
  have "drop_bit (Suc n) u = drop_bit (Suc n) v"
    using assms(3) by (intro bit_word_eqI) (simp add: bit_drop_bit_eq)
  then have "unat (drop_bit (Suc n) u) = unat (drop_bit (Suc n) v)" by simp
  then have "unat u div 2 ^ n div 2 = unat v div 2 ^ n div 2"
    unfolding unat_drop_bit_eq unfolding drop_bit_eq_div by (simp only: div_mult2_eq power_Suc2)
  moreover have "even (unat u div 2 ^ n)" "odd (unat v div 2 ^ n)"
    using assms(1,2) bit_iff_odd [of "unat u" n] bit_iff_odd [of "unat v" n] by (simp_all add: bit_unsigned_iff)
  moreover have "a div 2 = b div 2 \<Longrightarrow> even a \<Longrightarrow> odd b \<Longrightarrow> a < b" for a b :: nat by presburger
  ultimately have "unat u div 2 ^ n < unat v div 2 ^ n" by blast
  then have "unat u < unat v" by (metis div_le_mono leD leI)
  then show ?thesis by (simp add: word_less_nat_alt)
qed

lemma words_less_by_rank:
  assumes "length us = length vs" "parts_at us vs \<rho>" "rank_bit vs \<rho>"
  shows "us < vs"
  using assms
proof (induction us vs arbitrary: \<rho> rule: list_induct2)
  case (Cons u us v vs)
  show ?case
  proof (cases "\<rho> < 64")
    case True
    have "bit u m = bit v m" if "63 - \<rho> < m" for m
    proof (cases "m < 64")
      case True
      then have "63 - m < \<rho>" "63 - (63 - m) = m" using that by auto
      then show ?thesis using Cons.prems(1) \<open>\<rho> < 64\<close> unfolding parts_at_def rank_bit_Cons by (metis less_trans)
    next
      case False
      then show ?thesis using bit_imp_le_length [of u m] bit_imp_le_length [of v m] by auto
    qed
    then have "u < v"
      using Cons.prems True by (intro word_less_by_bit [of u "63 - \<rho>"]) (auto simp: parts_at_def rank_bit_Cons)
    then show ?thesis by simp
  next
    case False
    have "bit u m = bit v m" if "m < 64" for m
    proof -
      have "63 - m < \<rho>" "63 - m < 64" "63 - (63 - m) = m" using that False by auto
      then show ?thesis using Cons.prems(1) unfolding parts_at_def rank_bit_Cons by metis
    qed
    then have "u = v" by (intro bit_word_eqI) simp
    moreover have "rank_bit us \<sigma> = rank_bit vs \<sigma>" if "\<sigma> < \<rho> - 64" for \<sigma>
      using Cons.prems(1) that unfolding parts_at_def rank_bit_Cons by (elim conjE allE [of _ "\<sigma> + 64"]) auto
    with Cons.prems False have "us < vs"
      by (intro Cons.IH [of "\<rho> - 64"]) (auto simp: parts_at_def rank_bit_Cons)
    ultimately show ?thesis by simp
  qed
qed (simp add: parts_at_def)

lemma parts_at_unique: "parts_at us vs \<rho> \<Longrightarrow> parts_at us vs \<sigma> \<Longrightarrow> \<rho> = \<sigma>"
  unfolding parts_at_def by (meson linorder_neqE_nat)

lemma parts_at_sym: "length us = length vs \<Longrightarrow> parts_at us vs \<rho> \<longleftrightarrow> parts_at vs us \<rho>"
  by (auto simp: parts_at_def)

lemma less_iff_rank:
  assumes "length us = length vs" "parts_at us vs \<rho>"
  shows "us < vs \<longleftrightarrow> rank_bit vs \<rho>" "us < vs \<longleftrightarrow> \<not> rank_bit us \<rho>"
proof -
  have "rank_bit us \<rho> \<Longrightarrow> vs < us"
    using words_less_by_rank [of vs us \<rho>] assms parts_at_sym [OF assms(1)] by simp
  moreover have "rank_bit vs \<rho> \<Longrightarrow> us < vs" using words_less_by_rank [OF assms] .
  moreover have "rank_bit us \<rho> \<noteq> rank_bit vs \<rho>" using assms(2) by (simp add: parts_at_def)
  ultimately show "us < vs \<longleftrightarrow> rank_bit vs \<rho>" "us < vs \<longleftrightarrow> \<not> rank_bit us \<rho>" by (auto dest: less_asym)
qed

section \<open>The order of partners\<close>

definition key_words :: "key \<Rightarrow> words" where
  "key_words k = fst k @ snd k"

lemma key_words_less:
  assumes "wf_key W k" "wf_key W l"
  shows "k < l \<longleftrightarrow> key_words k < key_words l"
proof -
  have "a @ c < b @ d \<longleftrightarrow> a < b \<or> a = b \<and> c < d" if "length a = length b" for a b c d :: words
    using that by (induction a b rule: list_induct2) auto
  from this [of "fst k" "fst l" "snd k" "snd l"] have "key_words k < key_words l \<longleftrightarrow> fst k < fst l \<or> fst k = fst l \<and> snd k < snd l"
    using assms by (simp add: key_words_def wf_key_def)
  also have "\<dots> \<longleftrightarrow> k < l" by (auto simp: less_prod_def le_less)
  finally show ?thesis ..
qed

lemma key_words_xor:
  assumes "wf_key W k" "wf_key W g"
  shows "length (key_words k) = 2 * W" "\<rho> < 128 * W \<Longrightarrow> rank_bit (key_words (xor_key k g)) \<rho> \<longleftrightarrow> rank_bit (key_words k) \<rho> \<noteq> rank_bit (key_words g) \<rho>"
proof -
  show len: "length (key_words k) = 2 * W" using assms by (simp add: key_words_def wf_key_def)
  have leng: "length (key_words g) = 2 * W" using assms by (simp add: key_words_def wf_key_def)
  assume "\<rho> < 128 * W"
  then have "\<rho> div 64 < 2 * W" by (simp add: less_mult_imp_div_less)
  moreover have "key_words (xor_key k g) = map2 (XOR) (key_words k) (key_words g)"
    using assms by (simp add: key_words_def xor_key_def xor_words_def wf_key_def)
  ultimately show "rank_bit (key_words (xor_key k g)) \<rho> \<longleftrightarrow> rank_bit (key_words k) \<rho> \<noteq> rank_bit (key_words g) \<rho>"
    using len leng by (simp add: rank_bit_def bit_xor_iff)
qed

lemma parts_at_xor:
  assumes "wf_key W k" "wf_key W l" "wf_key W g"
  shows "parts_at (key_words (xor_key k g)) (key_words (xor_key l g)) \<rho> \<longleftrightarrow> parts_at (key_words k) (key_words l) \<rho>"
proof -
  have wf: "wf_key W (xor_key k g)" using assms by simp
  have len: "64 * length (key_words (xor_key k g)) = 128 * W" "64 * length (key_words k) = 128 * W"
    using key_words_xor(1) [OF wf assms(3)] key_words_xor(1) [OF assms(1,3)] by simp_all
  show ?thesis
    unfolding parts_at_def len
    using key_words_xor(2) [OF assms(1,3)] key_words_xor(2) [OF assms(2,3)] by auto
qed

text \<open>Along an ascending run the rank at which two rows part is the least at which adjacent ones do.\<close>

lemma parts_at_chain:
  assumes "\<forall>u \<in> set us. length u = n" "sorted_wrt (<) us" "\<And>l. 0 < l \<Longrightarrow> l < length us \<Longrightarrow> parts_at (us ! (l - 1)) (us ! l) (d l)"
    "i < j" "j < length us"
  shows "parts_at (us ! i) (us ! j) (Min (d ` {i<..j}))"
  using assms(4,5)
proof (induction j)
  case (Suc j)
  have len: "length (us ! l) = n" if "l < length us" for l using assms(1) that by simp
  have step: "parts_at (us ! j) (us ! Suc j) (d (Suc j))" using assms(3) [of "Suc j"] Suc.prems by simp
  show ?case
  proof (cases "i = j")
    case True
    then show ?thesis using step by (simp add: greaterThanAtMost_def [symmetric] atLeastSucAtMost_greaterThanAtMost [symmetric])
  next
    case False
    then have ij: "i < j" "j < length us" using Suc.prems by simp_all
    define m where "m = Min (d ` {i<..j})"
    have IH: "parts_at (us ! i) (us ! j) m" using Suc.IH [OF ij] by (simp add: m_def)
    have "{i<..Suc j} = insert (Suc j) {i<..j}" using ij(1) by auto
    then have min: "Min (d ` {i<..Suc j}) = min (d (Suc j)) m" using ij(1) by (simp add: m_def)
    have "us ! i < us ! j" "us ! j < us ! Suc j"
      using assms(2) ij Suc.prems by (simp_all add: sorted_wrt_iff_nth_less)
    then have "rank_bit (us ! j) m" "\<not> rank_bit (us ! j) (d (Suc j))"
      using less_iff_rank(1) [OF _ IH] less_iff_rank(2) [OF _ step] len ij Suc.prems by auto
    then have "m \<noteq> d (Suc j)" by auto
    with IH step show ?thesis
      unfolding min using len ij Suc.prems by (auto simp: parts_at_def min_def)
  qed
qed simp

lemma parts_at_repeat:
  assumes "\<forall>u \<in> set us. length u = n" "sorted_wrt (<) us" "\<And>l. 0 < l \<Longrightarrow> l < length us \<Longrightarrow> parts_at (us ! (l - 1)) (us ! l) (d l)"
    "0 < i" "i < j" "j < length us" "d i = d j"
  shows "\<exists>l. i < l \<and> l < j \<and> d l < d i"
proof (rule ccontr)
  assume none: "\<nexists>l. i < l \<and> l < j \<and> d l < d i"
  have len: "length (us ! l) = n" if "l < length us" for l using assms(1) that by simp
  have less: "us ! a < us ! b" if "a < b" "b < length us" for a b
    using assms(2) that by (simp add: sorted_wrt_iff_nth_less)
  have up: "rank_bit (us ! i) (d i)"
    using less_iff_rank(1) [OF _ assms(3)] less [of "i - 1" i] len assms(4-6) by simp
  have down: "\<not> rank_bit (us ! (j - 1)) (d i)"
    using less_iff_rank(2) [OF _ assms(3) [of j]] less [of "j - 1" j] len assms(4-7) by simp
  show False
  proof (cases "i = j - 1")
    case True
    with up down show False by simp
  next
    case False
    then have ij: "i < j - 1" "j - 1 < length us" using assms(5,6) by simp_all
    let ?m = "Min (d ` {i<..j - 1})"
    note m = parts_at_chain [OF assms(1-3) ij]
    have "?m \<in> d ` {i<..j - 1}" using ij by (intro Min_in) auto
    then have "d i \<le> ?m" using none by fastforce
    moreover have "?m \<noteq> d i" using up less_iff_rank(2) [OF _ m] less [OF ij] len ij by auto
    ultimately have "rank_bit (us ! i) (d i) = rank_bit (us ! (j - 1)) (d i)" using m by (auto simp: parts_at_def)
    with up down show False by simp
  qed
qed

lemma leading_zeros_less:
  fixes w :: "'a::len word"
  assumes "w \<noteq> 0"
  shows "leading_zeros w < LENGTH('a)"
proof -
  obtain n where "bit w n" using assms by (auto simp: bit_eq_iff)
  then have "\<exists>x \<in> set (rev [0..<LENGTH('a)]). \<not> \<not> bit w x" using bit_imp_le_length [of w n] by auto
  from length_takeWhile_less [OF this] show ?thesis by (simp add: leading_zeros_def)
qed

lemma difference_scan_parts:
  assumes "length us = length vs"
  shows "case difference_scan base us vs of None \<Rightarrow> us = vs | Some r \<Rightarrow> \<exists>\<rho>. r = 64 * base + \<rho> \<and> parts_at us vs \<rho>"
  using assms
proof (induction us vs arbitrary: base rule: list_induct2)
  case (Cons u us v vs)
  show ?case
  proof (cases "u = v")
    case True
    have "parts_at (u # us) (v # vs) (64 + \<rho>)" if "parts_at us vs \<rho>" for \<rho>
      using that by (auto simp: parts_at_def rank_bit_Cons True)
    then show ?thesis using Cons.IH [of "base + 1"] True
      by (auto split: option.splits)
  next
    case False
    then have nz: "u XOR v \<noteq> 0" by (auto simp: bit_eq_iff bit_xor_iff)
    let ?r = "leading_zeros (u XOR v)"
    note high = highest_bit_word [OF nz]
    have r: "?r < 64" using leading_zeros_less [OF nz] by simp
    have "\<not> bit (u XOR v) (63 - \<sigma>)" if "\<sigma> < ?r" for \<sigma> using high(3) [of "63 - \<sigma>"] that r by simp
    then have "parts_at (u # us) (v # vs) ?r" using high(2) r by (auto simp: parts_at_def rank_bit_Cons bit_xor_iff)
    with nz show ?thesis by simp
  qed
qed simp

lemma first_difference_parts:
  assumes "wf_rows W cols" "a < columns_len cols" "b < columns_len cols" "row_key cols a \<noteq> row_key cols b"
  shows "\<exists>\<rho>. first_difference W cols a b = Inr (of_nat \<rho>) \<and> parts_at (key_words (row_key cols a)) (key_words (row_key cols b)) \<rho>"
proof -
  let ?xa = "col_x cols ! a" and ?xb = "col_x cols ! b" and ?za = "col_z cols ! a" and ?zb = "col_z cols ! b"
  have len: "length ?xa = W" "length ?xb = W" "length ?za = W" "length ?zb = W"
    using row_key_wf [OF assms(1), of a] row_key_wf [OF assms(1), of b] assms(1-3)
    by (simp_all add: row_key_def wf_key_def wf_rows_def wf_columns_def columns_len_def)
  have words: "key_words (row_key cols a) = ?xa @ ?za" "key_words (row_key cols b) = ?xb @ ?zb" by (simp_all add: key_words_def row_key_def)
  have left: "rank_bit (us @ vs) \<rho> = rank_bit us \<rho>" if "\<rho> < 64 * length us" for us vs \<rho>
    using that by (simp add: rank_bit_def nth_append less_mult_imp_div_less mult.commute)
  have right: "rank_bit (us @ vs) (64 * length us + \<rho>) = rank_bit vs \<rho>" for us vs \<rho>
    by (simp add: rank_bit_def nth_append)
  show ?thesis
  proof (cases "difference_scan 0 ?xa ?xb")
    case (Some r)
    then have "parts_at ?xa ?xb r" using difference_scan_parts [of ?xa ?xb 0] len by simp
    then have "parts_at (?xa @ ?za) (?xb @ ?zb) r" using len left [of _ ?xa] left [of _ ?xb] by (auto simp: parts_at_def)
    with Some show ?thesis by (auto simp: first_difference_def words)
  next
    case None
    then have x: "?xa = ?xb" using difference_scan_parts [of ?xa ?xb 0] len by simp
    with assms(4) have "?za \<noteq> ?zb" by (simp add: row_key_def)
    then obtain r \<rho> where r: "difference_scan W ?za ?zb = Some r" "r = 64 * W + \<rho>" "parts_at ?za ?zb \<rho>"
      using difference_scan_parts [of ?za ?zb W] len by (auto split: option.splits)
    have "parts_at (?xa @ ?za) (?xb @ ?zb) r"
      unfolding parts_at_def
    proof (intro conjI allI impI)
      show "r < 64 * length (?xa @ ?za)" using r(2,3) len by (simp add: parts_at_def)
      show "rank_bit (?xa @ ?za) r \<noteq> rank_bit (?xb @ ?zb) r"
        using r(2,3) right [of ?xa ?za \<rho>] right [of ?xb ?zb \<rho>] len by (simp add: parts_at_def)
      fix \<sigma> assume \<sigma>: "\<sigma> < r"
      show "rank_bit (?xa @ ?za) \<sigma> = rank_bit (?xb @ ?zb) \<sigma>"
      proof (cases "\<sigma> < 64 * W")
        case True
        then show ?thesis using left [of \<sigma> ?xa] left [of \<sigma> ?xb] len x by simp
      next
        case False
        with \<sigma> r(2,3) show ?thesis
          using right [of ?xa ?za "\<sigma> - 64 * W"] right [of ?xb ?zb "\<sigma> - 64 * W"] len by (simp add: parts_at_def)
      qed
    qed
    with None r(1) show ?thesis by (auto simp: first_difference_def words)
  qed
qed

section \<open>The levels\<close>

lemma clear_highest_ranks:
  fixes w :: u64
  assumes "w \<noteq> 0"
  shows "filter (\<lambda>\<rho>. bit w (63 - \<rho>)) [0..<64] =
    leading_zeros w # filter (\<lambda>\<rho>. bit (w AND NOT (push_bit (63 - leading_zeros w) 1)) (63 - \<rho>)) [0..<64]"
proof -
  let ?r = "leading_zeros w"
  note high = highest_bit_word [OF assms]
  have r: "?r < 64" using leading_zeros_less [OF assms] by simp
  have split: "[0..<64] = [0..<?r] @ ?r # [Suc ?r..<64]"
    using r upt_add_eq_append [of 0 ?r "64 - ?r"] upt_conv_Cons [of ?r 64] by simp
  have clear: "bit (w AND NOT (push_bit (63 - ?r) 1)) (63 - \<rho>) \<longleftrightarrow> bit w (63 - \<rho>) \<and> \<rho> \<noteq> ?r" if "\<rho> < 64" for \<rho>
    using that r by (auto simp: bit_and_iff bit_not_iff bit_push_bit_iff bit_1_iff bit_exp_iff possible_bit_word)
  have "\<not> bit w (63 - \<rho>)" if "\<rho> < ?r" for \<rho> using high(3) [of "63 - \<rho>"] that r by simp
  then have low: "filter (\<lambda>\<rho>. bit w (63 - \<rho>)) [0..<?r] = []"
    "filter (\<lambda>\<rho>. bit (w AND NOT (push_bit (63 - ?r) 1)) (63 - \<rho>)) [0..<?r] = []"
    using clear r by (auto simp: filter_empty_conv)
  have "filter (\<lambda>\<rho>. bit (w AND NOT (push_bit (63 - ?r) 1)) (63 - \<rho>)) [Suc ?r..<64] = filter (\<lambda>\<rho>. bit w (63 - \<rho>)) [Suc ?r..<64]"
    using clear by (intro filter_cong) auto
  with low clear [OF r] high(2) show ?thesis unfolding split by simp
qed

definition order_levels :: "partner_order \<Rightarrow> u32 list" where
  "order_levels order = take (po_depth order) (po_levels order)"

definition order_inv :: "partner_order \<Rightarrow> bool" where
  "order_inv order \<longleftrightarrow> length (po_levels order) = MAX_LEVELS \<and> po_depth order \<le> MAX_LEVELS"

lemma level_loop_levels:
  assumes "order_inv order" "po_depth order + length (filter (\<lambda>\<rho>. bit live (63 - \<rho>)) [0..<64]) \<le> MAX_LEVELS"
  shows "\<exists>order'. level_loop word live order = Inr order' \<and> order_inv order' \<and>
    order_levels order' = order_levels order @ map (\<lambda>\<rho>. of_nat (64 * word + \<rho>)) (filter (\<lambda>\<rho>. bit live (63 - \<rho>)) [0..<64])"
  using assms
proof (induction word live order rule: level_loop.induct)
  case (1 word live order)
  show ?case
  proof (cases "live = 0")
    case True
    then show ?thesis using 1 by (subst level_loop.simps) simp
  next
    case False
    let ?live = "live AND NOT (push_bit (63 - leading_zeros live) 1)"
    let ?order = "\<lparr>po_levels = (po_levels order)[po_depth order := of_nat (64 * word) + of_nat (leading_zeros live)], po_depth = po_depth order + 1\<rparr>"
    note ranks = clear_highest_ranks [OF False]
    have room: "po_depth order < MAX_LEVELS" using 1(3) unfolding ranks by simp
    have "order_inv ?order" using 1(2) room by (simp add: order_inv_def)
    moreover have "po_depth ?order + length (filter (\<lambda>\<rho>. bit ?live (63 - \<rho>)) [0..<64]) \<le> MAX_LEVELS"
      using 1(3) unfolding ranks by simp
    ultimately obtain order' where o: "level_loop word ?live ?order = Inr order'" "order_inv order'"
        "order_levels order' = order_levels ?order @ map (\<lambda>\<rho>. of_nat (64 * word + \<rho>)) (filter (\<lambda>\<rho>. bit ?live (63 - \<rho>)) [0..<64])"
      using 1(1) [OF False refl] by blast
    have "order_levels ?order = order_levels order @ [of_nat (64 * word + leading_zeros live)]"
      using 1(2) room by (simp add: order_levels_def order_inv_def take_Suc_conv_app_nth)
    with o room False show ?thesis
      unfolding ranks by (subst level_loop.simps) (simp add: assert_that_def Let_def)
  qed
qed

lemma fold_result_snoc: "fold_result f (xs @ [x]) b = and_then (fold_result f xs b) (f x)"
proof (induction xs arbitrary: b)
  case Nil
  show ?case by (cases "f x b") simp_all
next
  case (Cons y ys)
  then show ?case by (cases "f y b") simp_all
qed

definition set_ranks :: "nat \<Rightarrow> key \<Rightarrow> nat list" where
  "set_ranks W g = filter (rank_bit (key_words g)) [0..<128 * W]"

lemma ranks_of_word:
  "filter (rank_bit us) [0..<64 * Suc m] = filter (rank_bit us) [0..<64 * m] @ map (\<lambda>\<rho>. 64 * m + \<rho>) (filter (\<lambda>\<rho>. bit (us ! m) (63 - \<rho>)) [0..<64])"
proof -
  have "[0..<64 * Suc m] = [0..<64 * m] @ map (\<lambda>\<rho>. 64 * m + \<rho>) [0..<64]"
    using upt_add_eq_append [of 0 "64 * m" 64] by (simp add: map_add_upt add.commute)
  moreover have "filter (rank_bit us) (map (\<lambda>\<rho>. 64 * m + \<rho>) [0..<64]) = map (\<lambda>\<rho>. 64 * m + \<rho>) (filter (\<lambda>\<rho>. bit (us ! m) (63 - \<rho>)) [0..<64])"
    unfolding filter_map by (intro arg_cong [of _ _ "map _"] filter_cong) (simp_all add: rank_bit_def)
  ultimately show ?thesis by (simp del: upt_Suc)
qed

lemma partner_order_new_ok:
  assumes "wf_key W g" "length (set_ranks W g) \<le> MAX_LEVELS"
  shows "\<exists>order. partner_order_new W g = Inr order \<and> order_levels order = map of_nat (set_ranks W g)"
proof -
  let ?us = "key_words g" and ?init = "\<lparr>po_levels = replicate MAX_LEVELS 0, po_depth = 0\<rparr> :: partner_order"
  let ?f = "\<lambda>word. level_loop word (if word < W then fst g ! word else snd g ! (word - W))"
  have word: "(if m < W then fst g ! m else snd g ! (m - W)) = ?us ! m" if "m < 2 * W" for m
    using assms(1) that by (simp add: key_words_def nth_append wf_key_def)
  have "\<exists>order. fold_result ?f [0..<m] ?init = Inr order \<and> order_inv order \<and> order_levels order = map of_nat (filter (rank_bit ?us) [0..<64 * m])"
    if "m \<le> 2 * W" for m
    using that
  proof (induction m)
    case 0
    show ?case by (simp add: order_inv_def order_levels_def)
  next
    case (Suc m)
    then obtain order where o: "fold_result ?f [0..<m] ?init = Inr order" "order_inv order"
        "order_levels order = map of_nat (filter (rank_bit ?us) [0..<64 * m])" by auto
    let ?ranks = "filter (\<lambda>\<rho>. bit (?us ! m) (63 - \<rho>)) [0..<64]"
    have "[0..<128 * W] = [0..<64 * Suc m] @ [64 * Suc m..<128 * W]"
      using upt_add_eq_append [of 0 "64 * Suc m" "128 * W - 64 * Suc m"] Suc.prems by simp
    then have "length (filter (rank_bit ?us) [0..<64 * Suc m]) \<le> MAX_LEVELS" using assms(2) by (simp add: set_ranks_def del: upt_Suc)
    moreover have "po_depth order = length (filter (rank_bit ?us) [0..<64 * m])"
      using arg_cong [OF o(3), of length] o(2) by (simp add: order_levels_def order_inv_def)
    ultimately have "po_depth order + length ?ranks \<le> MAX_LEVELS" unfolding ranks_of_word by simp
    from level_loop_levels [OF o(2) this, of m] obtain order' where "level_loop m (?us ! m) order = Inr order'" "order_inv order'"
        "order_levels order' = order_levels order @ map (\<lambda>\<rho>. of_nat (64 * m + \<rho>)) ?ranks" by blast
    moreover have "[0..<Suc m] = [0..<m] @ [m]" by simp
    ultimately show ?case
      using o(1,3) word [of m] Suc.prems by (simp only: fold_result_snoc and_then_simps ranks_of_word map_append map_map comp_def) simp
  qed
  from this [of "2 * W"] show ?thesis by (auto simp: partner_order_new_def set_ranks_def)
qed

lemma count_set_ranks:
  assumes "wf_key W g"
  shows "sum_list (map count_ones (fst g @ snd g)) = length (set_ranks W g)"
proof -
  have "sum_list (map count_ones (take m (key_words g))) = length (filter (rank_bit (key_words g)) [0..<64 * m])" if "m \<le> 2 * W" for m
    using that
  proof (induction m)
    case (Suc m)
    have "filter (\<lambda>\<rho>. bit w (63 - \<rho>)) [0..<64] = rev (map (\<lambda>n. 63 - n) (filter (bit w) [0..<64]))" for w :: u64
    proof -
      have "[0..<64] = rev (map (\<lambda>n. 63 - n) [0..<64 :: nat])" by code_simp
      then have "filter (\<lambda>\<rho>. bit w (63 - \<rho>)) [0..<64] = filter (\<lambda>\<rho>. bit w (63 - \<rho>)) (rev (map (\<lambda>n. 63 - n) [0..<64]))" by simp
      also have "\<dots> = rev (map (\<lambda>n. 63 - n) (filter (bit w) [0..<64]))"
        unfolding rev_filter [symmetric] filter_map comp_def by (intro arg_cong [of _ _ rev] arg_cong [of _ _ "map _"] filter_cong) auto
      finally show ?thesis .
    qed
    then have "length (filter (\<lambda>\<rho>. bit w (63 - \<rho>)) [0..<64]) = count_ones w" for w :: u64 by (simp add: count_ones_def)
    moreover have "m < length (key_words g)" using Suc.prems assms by (simp add: key_words_def wf_key_def)
    ultimately show ?case using Suc unfolding ranks_of_word by (simp add: take_Suc_conv_app_nth)
  qed simp
  from this [of "2 * W"] assms show ?thesis by (simp add: set_ranks_def key_words_def wf_key_def)
qed

section \<open>Partners in key order\<close>

lemma partner_divergence:
  assumes "wf_rows W cols" "distinct (map fst (terms_of cols))"
  shows "\<exists>d. map_result (\<lambda>row. first_difference W cols (row - 1) row) [1..<columns_len cols] = Inr (map (\<lambda>l. of_nat (d l)) [1..<columns_len cols]) \<and>
    (\<forall>l. 0 < l \<longrightarrow> l < columns_len cols \<longrightarrow> parts_at (key_words (fst (terms_of cols ! (l - 1)))) (key_words (fst (terms_of cols ! l))) (d l))"
proof -
  have cols: "wf_columns cols" using assms(1) by (simp add: wf_rows_def)
  have key: "row_key cols l = fst (terms_of cols ! l)" if "l < columns_len cols" for l
    using nth_terms_of [OF cols that] by (simp add: row_key_def)
  have "\<exists>\<rho>. first_difference W cols (l - 1) l = Inr (of_nat \<rho>) \<and>
      parts_at (key_words (fst (terms_of cols ! (l - 1)))) (key_words (fst (terms_of cols ! l))) \<rho>" if l: "0 < l" "l < columns_len cols" for l
  proof -
    have "fst (terms_of cols ! (l - 1)) \<noteq> fst (terms_of cols ! l)"
      using assms(2) l length_terms_of [OF cols] nth_eq_iff_index_eq [OF assms(2), of "l - 1" l] by simp
    then show ?thesis using first_difference_parts [OF assms(1), of "l - 1" l] key l by simp
  qed
  then obtain d where "\<forall>l. 0 < l \<longrightarrow> l < columns_len cols \<longrightarrow> first_difference W cols (l - 1) l = Inr (of_nat (d l)) \<and>
      parts_at (key_words (fst (terms_of cols ! (l - 1)))) (key_words (fst (terms_of cols ! l))) (d l)" by metis
  then show ?thesis by (intro exI [of _ d] conjI map_result_total) auto
qed

lemma partner_block_order:
  fixes rows :: "(key \<times> 'v) list" and g :: key
  assumes W: "128 * W < 2 ^ 32" and g: "wf_key W g" and rows: "map fst rows = map (\<lambda>k. xor_key k g) ks"
    and ks: "sorted_wrt (<) ks" "\<forall>k \<in> set ks. wf_key W k"
    and d: "\<And>l. 0 < l \<Longrightarrow> l < length rows \<Longrightarrow> parts_at (key_words (fst (rows ! (l - 1)))) (key_words (fst (rows ! l))) (d l)"
  shows "block_order rows (0 # map (\<lambda>l. of_nat (d l)) [1..<length rows]) (of_nat ` set (set_ranks W g))"
proof -
  let ?dv = "0 # map (\<lambda>l. of_nat (d l)) [1..<length rows] :: u32 list" and ?us = "map key_words ks"
  have len: "length rows = length ks" using arg_cong [OF rows, of length] by simp
  have key: "fst (rows ! l) = xor_key (ks ! l) g" if "l < length rows" for l
    using arg_cong [OF rows, of "\<lambda>xs. xs ! l"] that len by simp
  have wf: "wf_key W (ks ! l)" if "l < length rows" for l using ks(2) that len by simp
  have us: "\<forall>u \<in> set ?us. length u = 2 * W" using ks(2) key_words_xor(1) [OF _ g] by auto
  have asc: "sorted_wrt (<) ?us"
    unfolding sorted_wrt_map
    by (rule sorted_wrt_mono_rel [OF _ ks(1)]) (use ks(2) key_words_less in blast)
  have adj: "parts_at (?us ! (l - 1)) (?us ! l) (d l)" if "0 < l" "l < length ?us" for l
    using d [of l] parts_at_xor [OF wf wf g, of "l - 1" l] key that len by simp
  have small: "d l < 128 * W" if "0 < l" "l < length rows" for l
    using adj [of l] that len us by (auto simp: parts_at_def)
  have dv: "unat (?dv ! l) = d l" "?dv ! l = of_nat (d l)" if "0 < l" "l < length rows" for l
    using that small [OF that] W by (auto simp: nth_Cons' unat_of_nat)
  have order: "if Min ((!) ?dv ` {i<..j}) \<in> of_nat ` set (set_ranks W g) then fst (rows ! j) < fst (rows ! i) else fst (rows ! i) < fst (rows ! j)"
    if ij: "i < j" "j < length rows" for i j
  proof -
    define m where "m = Min (d ` {i<..j})"
    have "m \<in> d ` {i<..j}" unfolding m_def using ij by (intro Min_in) auto
    then obtain l where l: "m = d l" "i < l" "l \<le> j" by auto
    have Min: "Min ((!) ?dv ` {i<..j}) = of_nat m"
    proof (rule Min_eqI)
      show "(of_nat m :: u32) \<in> (!) ?dv ` {i<..j}" using l dv(2) [of l] ij by (intro image_eqI [of _ _ l]) auto
      show "of_nat m \<le> v" if v: "v \<in> (!) ?dv ` {i<..j}" for v
      proof -
        from v obtain a where a: "v = ?dv ! a" "i < a" "a \<le> j" by auto
        then have "m \<le> d a" "0 < a" "a < length rows" using ij by (auto simp: m_def intro!: Min_le)
        then show ?thesis using dv(1) [of a] small [of a] W by (simp add: word_le_nat_alt unat_of_nat a(1))
      qed
    qed simp
    have m: "m < 128 * W" using l small [of l] ij by simp
    have mem: "(of_nat m :: u32) \<in> of_nat ` set (set_ranks W g) \<longleftrightarrow> rank_bit (key_words g) m"
    proof
      assume "(of_nat m :: u32) \<in> of_nat ` set (set_ranks W g)"
      then obtain \<rho> where \<rho>: "(of_nat m :: u32) = of_nat \<rho>" "\<rho> < 128 * W" "rank_bit (key_words g) \<rho>" by (auto simp: set_ranks_def)
      have "m = \<rho>" using arg_cong [OF \<rho>(1), of unat] \<rho>(2) m W by (simp add: unat_of_nat)
      with \<rho>(3) show "rank_bit (key_words g) m" by simp
    qed (use m in \<open>auto simp: set_ranks_def\<close>)
    have src: "parts_at (?us ! i) (?us ! j) m" unfolding m_def using parts_at_chain [OF us asc adj] ij len by simp
    from src have parts: "parts_at (key_words (fst (rows ! i))) (key_words (fst (rows ! j))) m"
      using parts_at_xor [OF wf wf g, of i j] key ij len by simp
    have rows_wf: "wf_key W (fst (rows ! i))" "wf_key W (fst (rows ! j))" using key wf g ij by simp_all
    have "\<not> rank_bit (?us ! i) m"
      using less_iff_rank(2) [OF _ src] us asc ij len by (simp add: sorted_wrt_iff_nth_less)
    then have flip: "rank_bit (key_words (fst (rows ! i))) m \<longleftrightarrow> rank_bit (key_words g) m"
      using key_words_xor(2) [OF wf g m, of i] key ij len by simp
    have same: "length (key_words (fst (rows ! i))) = length (key_words (fst (rows ! j)))"
      using key_words_xor(1) [OF rows_wf(1) g] key_words_xor(1) [OF rows_wf(2) g] by simp
    note cmp = less_iff_rank(2) [OF same parts] less_iff_rank(1) [OF same [symmetric]] parts_at_sym [OF same, of m]
    show ?thesis
      unfolding Min mem key_words_less [OF rows_wf] key_words_less [OF rows_wf(2,1)]
      using cmp(1) cmp(2) [of m] cmp(3) parts flip by simp
  qed
  have repeat: "\<exists>l. i < l \<and> l < j \<and> ?dv ! l < ?dv ! i" if hyp: "0 < i" "i < j" "j < length rows" "?dv ! i = ?dv ! j" for i j
  proof -
    have i: "i < length rows" and j: "0 < j" using hyp by simp_all
    have "d i = d j" using arg_cong [OF hyp(4), of unat] unfolding dv(1) [OF hyp(1) i] dv(1) [OF j hyp(3)] .
    then obtain l where "i < l" "l < j" "d l < d i" using parts_at_repeat [OF us asc adj hyp(1,2)] hyp(3) len by auto
    then show ?thesis using dv(1) [of l] dv(1) [of i] hyp by (intro exI [of _ l]) (simp add: word_less_nat_alt)
  qed
  show ?thesis unfolding block_order_def using order repeat by blast
qed

lemma partner_order_sort_ok:
  fixes cols :: "'c bucket_columns" and g :: key
  assumes "128 * W < 2 ^ 32" "wf_key W g" "wf_columns cols" "map fst (terms_of cols) = map (\<lambda>k. xor_key k g) ks"
    "sorted_wrt (<) ks" "\<forall>k \<in> set ks. wf_key W k" "order_levels order = map of_nat (set_ranks W g)"
  shows "\<exists>dv. partner_order_sort W order cols = Inr (columns_of (sort_key fst (terms_of cols)), dv)"
proof -
  let ?rows = "terms_of cols" and ?n = "columns_len cols"
  have n: "length ?rows = ?n" by (rule length_terms_of [OF assms(3)])
  have wf: "wf_rows W cols"
  proof -
    have "fst ` set ?rows = (\<lambda>k. xor_key k g) ` set ks" using arg_cong [OF assms(4), of set] by simp
    then show ?thesis using assms(2,3,6) by (force simp: wf_rows_def)
  qed
  have "inj_on (\<lambda>k. xor_key k g) (set ks)"
    by (rule inj_on_inverseI [of _ "\<lambda>k. xor_key k g"]) (use assms(2,6) in \<open>simp add: xor_key_cancel [of W]\<close>)
  moreover have "distinct ks" using assms(5) by (rule strict_sorted_iff [THEN iffD1, THEN conjunct2])
  ultimately have dist: "distinct (map fst ?rows)" unfolding assms(4) by (simp add: distinct_map)
  from partner_divergence [OF wf this] obtain d where d:
      "map_result (\<lambda>row. first_difference W cols (row - 1) row) [1..<?n] = Inr (map (\<lambda>l. of_nat (d l)) [1..<?n])"
      "\<forall>l. 0 < l \<longrightarrow> l < ?n \<longrightarrow> parts_at (key_words (fst (?rows ! (l - 1)))) (key_words (fst (?rows ! l))) (d l)" by blast
  let ?dv = "0 # map (\<lambda>l. of_nat (d l)) [1..<?n] :: u32 list" and ?G = "of_nat ` set (set_ranks W g) :: u32 set"
  have bo: "block_order ?rows ?dv ?G"
    using partner_block_order [OF assms(1,2,4-6), of d] d(2) n by simp
  have asc: "sorted_wrt (<) (order_levels order)"
  proof -
    have "sorted_wrt (<) (set_ranks W g)" unfolding set_ranks_def by (intro sorted_wrt_filter) simp
    then show ?thesis
      unfolding assms(7) sorted_wrt_map
      by (rule sorted_wrt_mono_rel [rotated]) (use assms(1) in \<open>auto simp: set_ranks_def word_less_nat_alt unat_of_nat\<close>)
  qed
  let ?out = "place cols ?dv (order_levels order) 0 ?n columns_new"
  have "places ?rows 0 ?n columns_new ?out"
    by (rule place_places [OF assms(3) bo asc]) (simp_all add: assms(7) ready_def columns_new_def wf_columns_def)
  then have out: "wf_columns ?out" "run (terms_of ?out)" "mset (terms_of ?out) = mset ?rows"
    using n by (auto simp: places_def slice_def columns_new_def terms_of_def)
  have "mset (map fst (sort_key fst ?rows)) = mset (map fst ?rows)" by simp
  from mset_eq_imp_distinct_iff [OF this] have "run (sort_key fst ?rows)"
    unfolding run_def strict_sorted_iff using dist by simp
  then have "terms_of ?out = sort_key fst ?rows"
    using out(2) mset_eq_setD [OF out(3)] by (intro run_mset_eqI) simp_all
  then have "?out = columns_of (sort_key fst ?rows)"
    using columns_of_terms_of [OF out(1)] by simp
  then show ?thesis using d(1) by (simp add: partner_order_sort_def order_levels_def Let_def)
qed

text \<open>
  C39. The partner order sorts without comparing keys: for a generator of at most four set bits (every rotation on up to
  two qubits) \<open>try_new\<close> succeeds, and on any run of partners \<open>k \<oplus> g\<close> of distinct sources \<open>k\<close> in key order the block swaps
  at the generator's bits write exactly the run sorted by key, each row once; a generator of more set bits is refused.
\<close>

theorem partner_order_sorts:
  fixes cols :: "'c bucket_columns"
  assumes "128 * W < 2 ^ 32" "wf_key W g" "wf_columns cols" "map fst (terms_of cols) = map (\<lambda>k. xor_key k g) ks"
    "sorted_wrt (<) ks" "\<forall>k \<in> set ks. wf_key W k"
  shows "if sum_list (map count_ones (fst g @ snd g)) \<le> 4
    then \<exists>order dv. partner_order_try_new W g = Inr (Some order) \<and>
      partner_order_sort W order cols = Inr (columns_of (sort_key fst (terms_of cols)), dv)
    else partner_order_try_new W g = Inr None"
proof -
  have "MAX_LEVELS = 4" by (simp add: MAX_LEVELS_def MAX_LOCAL_SUPPORT_def)
  then show ?thesis
    using partner_order_new_ok [OF assms(2)] partner_order_sort_ok [OF assms] count_set_ranks [OF assms(2)]
    by (fastforce simp: partner_order_try_new_def)
qed

theorem partner_order_sorts_witness:
  "\<exists>order dv. partner_order_try_new 1 ([1], [2]) = Inr (Some order) \<and>
    partner_order_sort 1 order \<lparr>col_x = [[1], [0]], col_z = [[2], [3]], col_coeff = [5 :: real, 6]\<rparr> =
      Inr (columns_of [(([0], [3]), 6), (([1], [2]), 5)], dv)"
proof -
  let ?c = "\<lparr>col_x = [[1], [0]], col_z = [[2], [3]], col_coeff = [5 :: real, 6]\<rparr>"
  have "sum_list (map count_ones (fst ([1 :: u64], [2 :: u64]) @ snd ([1], [2]))) = 2" by code_simp
  moreover have "map fst (terms_of ?c) = map (\<lambda>k. xor_key k ([1], [2])) [([0], [0]), ([1], [1])]"
    by (simp add: terms_of_def xor_key_def xor_words_def)
  moreover have "sort_key fst (terms_of ?c) = [(([0], [3]), 6), (([1], [2]), 5)]"
    by (simp add: terms_of_def less_eq_prod_def)
  moreover have "wf_columns ?c" by (simp add: wf_columns_def)
  ultimately show ?thesis
    using partner_order_sorts [of 1 "([1], [2])" ?c "[([0], [0]), ([1], [1])]"] by (simp add: wf_key_def)
qed

end
