(* ===== verification/Rotation_Layer.thy ===== *)
theory Rotation_Layer
  imports Coset_Loop Rotation_Sparse Partner_Order
begin

unbundle bit_operations_syntax

text \<open>
  \<open>engine/bucketed/rotation_layer.rs\<close>: a two-delta table \<open>{0, g}\<close> applied to each bucket's own columns. A scan lists the rows
  the generator entry reaches, writes their partners and scales them in place; the partners are put in key order without
  comparisons, folded into the rows they hit and merged. The spare slots behind a bucket's rows, which decide between the
  in-place and the copying merge, are an argument: the allocator's business, and the results do not depend on them.
\<close>

section \<open>The code\<close>

definition F64_EPSILON :: real where
  "F64_EPSILON = 1 / 2 ^ 52"

record 'c rotation_layer =
  rl_ptm :: "'c local_ptm"
  rl_mask :: key
  rl_identity :: "'c list"
  rl_partner :: "'c list"
  rl_clifford :: bool
  rl_order :: partner_order
  rl_probe :: "(nat \<times> u32) list"
  rl_active :: "16 word"
  rl_support_mask :: nat
  rl_bucket_delta :: u32

text \<open>The pattern loop of \<open>of\<close>: \<open>None\<close> when the table has another shape, else whether every reached pattern is Clifford.\<close>

fun shape_loop :: "'c coefficient \<Rightarrow> 'c list \<Rightarrow> 'c list \<Rightarrow> nat \<Rightarrow> nat list \<Rightarrow> bool \<Rightarrow> bool option" where
  "shape_loop C a0s a1s delta [] clifford = Some clifford"
| "shape_loop C a0s a1s delta (s # ss) clifford =
     (let a0 = a0s ! s; a1 = a1s ! s
      in if c_eq C a1 (c_zero C)
         then if c_eq C a0 (c_one C) then shape_loop C a0s a1s delta ss clifford else None
         else if c_eq C (a1s ! (s XOR delta)) (c_zero C) then None
         else shape_loop C a0s a1s delta ss (clifford \<and> norm_sqr C a0 \<le> F64_EPSILON * F64_EPSILON * norm_sqr C a1))"

definition active_patterns :: "'c coefficient \<Rightarrow> 'c list \<Rightarrow> nat \<Rightarrow> 16 word" where
  "active_patterns C amplitude smask =
     fold (\<lambda>p bits. bits OR push_bit p 1) (filter (\<lambda>p. \<not> c_eq C (amplitude ! (p AND smask)) (c_zero C)) [0..<16]) 0"

definition rotation_layer_of :: "nat \<Rightarrow> 'c coefficient \<Rightarrow> 'c local_ptm \<Rightarrow> 'c rotation_layer option result" where
  "rotation_layer_of W C ptm =
     (case lp_deltas ptm of
        [idn, gen] \<Rightarrow>
          if de_local_delta idn \<noteq> 0 then Inr None
          else let dim = push_bit (2 * lp_num ptm) 1;
                   delta = unat (de_local_delta gen)
               in (case shape_loop C (de_amplitude idn) (de_amplitude gen) delta [0..<dim] True of
                     None \<Rightarrow> Inr None
                   | Some clifford \<Rightarrow>
                       and_then (partner_order_new W (de_mask gen)) (\<lambda>order.
                         Inr (Some \<lparr>rl_ptm = ptm, rl_mask = de_mask gen, rl_identity = de_amplitude idn,
                           rl_partner = de_amplitude gen, rl_clifford = clifford, rl_order = order,
                           rl_probe = support_probe ptm, rl_active = active_patterns C (de_amplitude gen) (dim - 1),
                           rl_support_mask = dim - 1, rl_bucket_delta = de_bucket_delta gen\<rparr>)))
      | _ \<Rightarrow> Inr None)"

definition probe_bit :: "words \<Rightarrow> nat \<times> u32 \<Rightarrow> nat" where
  "probe_bit ws = (\<lambda>(w, b). unat (drop_bit (unat b) (ws ! w) AND 1))"

definition probe_x :: "'c rotation_layer \<Rightarrow> words \<Rightarrow> nat" where
  "probe_x layer x = probe_bit x (rl_probe layer ! 0) OR push_bit 2 (probe_bit x (rl_probe layer ! 1))"

definition probe_z :: "'c rotation_layer \<Rightarrow> words \<Rightarrow> nat" where
  "probe_z layer z = push_bit 1 (probe_bit z (rl_probe layer ! 0)) OR push_bit 3 (probe_bit z (rl_probe layer ! 1))"

definition rl_pattern :: "'c rotation_layer \<Rightarrow> words \<Rightarrow> words \<Rightarrow> nat" where
  "rl_pattern layer x z =
     probe_bit x (rl_probe layer ! 0) OR push_bit 1 (probe_bit z (rl_probe layer ! 0)) OR
     push_bit 2 (probe_bit x (rl_probe layer ! 1)) OR push_bit 3 (probe_bit z (rl_probe layer ! 1))"

definition list_hits :: "'c rotation_layer \<Rightarrow> nat \<Rightarrow> (nat \<Rightarrow> nat) \<Rightarrow> 32 word list result" where
  "list_hits layer len pattern =
     and_then (assert_that (len < push_bit 28 1) TooManyRows) (\<lambda>_.
       Inr (map (\<lambda>row. push_bit 4 (of_nat row)) (filter (\<lambda>row. drop_bit (pattern row) (rl_active layer) AND 1 \<noteq> 0) [0..<len])))"

text \<open>The pattern closures of \<open>scan\<close>: with a known support only the columns the generator tests are read.\<close>

definition scan_pattern :: "'c rotation_layer \<Rightarrow> bool \<Rightarrow> 'c bucket_columns \<Rightarrow> nat \<Rightarrow> nat" where
  "scan_pattern layer known bucket row =
     (let reads_x = list_ex (\<lambda>w. w \<noteq> 0) (snd (rl_mask layer));
          reads_z = list_ex (\<lambda>w. w \<noteq> 0) (fst (rl_mask layer))
      in if known \<and> reads_x \<and> \<not> reads_z then probe_x layer (col_x bucket ! row)
         else if known \<and> \<not> reads_x \<and> reads_z then probe_z layer (col_z bucket ! row)
         else rl_pattern layer (col_x bucket ! row) (col_z bucket ! row))"

definition scan_support :: "nat \<Rightarrow> 'c bucket_columns \<Rightarrow> key" where
  "scan_support W bucket =
     fold (\<lambda>row (sx, sz). (or_words sx (col_x bucket ! row), or_words sz (col_z bucket ! row))) [0..<length (col_x bucket)]
       (replicate W 0, replicate W 0)"

text \<open>The pass over the listed rows.\<close>

definition scan_hit :: "'c coefficient \<Rightarrow> 'c rotation_layer \<Rightarrow> 32 word \<Rightarrow> 'c bucket_columns \<times> 'c bucket_columns \<times> 32 word list \<Rightarrow>
     'c bucket_columns \<times> 'c bucket_columns \<times> 32 word list" where
  "scan_hit C layer hit = (\<lambda>(bucket, partners, hits).
     let row = unat (drop_bit 4 hit);
         x = col_x bucket ! row; z = col_z bucket ! row;
         pattern = rl_pattern layer x z;
         support = pattern AND rl_support_mask layer;
         c = col_coeff bucket ! row
     in (bucket\<lparr>col_coeff := (col_coeff bucket)[row := if rl_clifford layer then c_zero C else c_mul C c (rl_identity layer ! support)]\<rparr>,
         columns_push partners (xor_words x (fst (rl_mask layer)), xor_words z (snd (rl_mask layer))) (c_mul C c (rl_partner layer ! support)),
         hits @ [hit OR of_nat pattern]))"

definition scan :: "nat \<Rightarrow> 'c coefficient \<Rightarrow> 'c rotation_layer \<Rightarrow> bool \<Rightarrow> 'c bucket_columns \<Rightarrow> key \<Rightarrow>
     ('c bucket_columns \<times> 'c bucket_columns \<times> 32 word list \<times> key) result" where
  "scan W C layer known bucket support =
     and_then (list_hits layer (length (col_x bucket)) (scan_pattern layer known bucket)) (\<lambda>listed.
       let (bucket', partners, hits) = fold (scan_hit C layer) listed (bucket, columns_new, [])
       in Inr (bucket', partners, hits, if known then support else scan_support W bucket))"

definition may_touch :: "'c rotation_layer \<Rightarrow> key \<Rightarrow> bool" where
  "may_touch layer support =
     list_ex (\<lambda>((sx, sz), mx, mz). (sx AND mz) OR (sz AND mx) \<noteq> 0)
       (zip (zip (fst support) (snd support)) (zip (fst (rl_mask layer)) (snd (rl_mask layer))))"

text \<open>
  \<open>fill_rotation_coset\<close>: the scans of all members first, member \<open>j\<close>'s partners going to member \<open>j \<oplus> (size - 1)\<close>, then one
  merge per member.
\<close>

definition scan_member :: "nat \<Rightarrow> 'c coefficient \<Rightarrow> 'c rotation_layer \<Rightarrow> bool \<Rightarrow> 'c bucket_columns \<times> key \<Rightarrow>
     ('c bucket_columns \<times> 'c bucket_columns \<times> 32 word list \<times> key) result" where
  "scan_member W C layer known = (\<lambda>(bucket, support).
     if known \<and> \<not> may_touch layer support then Inr (bucket, columns_new, [], support)
     else scan W C layer known bucket support)"

definition or_key :: "key \<Rightarrow> key \<Rightarrow> key" where
  "or_key k l = (or_words (fst k) (fst l), or_words (snd k) (snd l))"

definition merge_member_partners ::
    "nat \<Rightarrow> 'c coefficient \<Rightarrow> 'c rotation_layer \<Rightarrow> ('s, 'c) truncation_policy \<Rightarrow> bool \<Rightarrow> 'c pauli_term list \<Rightarrow>
     'c bucket_columns \<Rightarrow> 32 word list \<Rightarrow> key \<Rightarrow> 'c bucket_columns \<Rightarrow> key \<Rightarrow> ('c bucket_columns \<times> key) result" where
  "merge_member_partners W C layer policy known junk bucket hits support rest source =
     (if known \<and> hits = [] \<and> columns_len rest = 0 then Inr (bucket, support)
      else let support = (if columns_len rest \<noteq> 0 then or_key (or_key support source) (rl_mask layer) else support)
           in and_then (partner_order_sort W (rl_order layer) rest) (\<lambda>(partners, divergence).
              and_then (fold_hits C (terms_of bucket) hits (terms_of partners) (coefficient_floor policy)) (\<lambda>(as, ps).
                and_then (merge_partners C policy as junk ps (if known then Some hits else None) True) (\<lambda>(ts, in_place).
                  Inr (columns_of ts, support)))))"

definition fill_rotation_coset ::
    "nat \<Rightarrow> 'c coefficient \<Rightarrow> 'c rotation_layer \<Rightarrow> ('s, 'c) truncation_policy \<Rightarrow> bool \<Rightarrow> (nat \<Rightarrow> 'c pauli_term list) \<Rightarrow>
     'c bucket_columns list \<Rightarrow> key list \<Rightarrow> ('c bucket_columns list \<times> key list) result" where
  "fill_rotation_coset W C layer policy known spare members supports =
     (let size = length members
      in and_then (map_result (scan_member W C layer known) (zip members supports)) (\<lambda>scanned.
         and_then (map_result (\<lambda>j.
             let (bucket, _, hits, support) = scanned ! j;
                 (_, rest, _, _) = scanned ! (j XOR (size - 1));
                 (_, _, _, source) = scanned ! (if size - 1 - j = 0 then 0 else size - 1)
             in merge_member_partners W C layer policy known (spare j) bucket hits support rest source) [0..<size]) (\<lambda>outs.
         Inr (map fst outs, map snd outs))))"

text \<open>
  A rotation whose generator crosses to another partition: the bucket's own rows take the identity half and the partners
  arrive as received rows.
\<close>

datatype 'c received_rotation = ReceivedTable "'c rotation_layer" | ReceivedWide prepared_rotation "partner_order option" bool

definition received_wide :: "nat \<Rightarrow> 'c coefficient \<Rightarrow> prepared_rotation \<Rightarrow> 'c received_rotation result" where
  "received_wide W C r =
     and_then (partner_order_try_new W (generator_mask r)) (\<lambda>order.
       Inr (ReceivedWide r order (norm_sqr C (c_mul_real C (c_one C) (rt_cos r)) \<le>
              F64_EPSILON * F64_EPSILON * norm_sqr C (c_mul_real C (c_one C) (rt_sin r)))))"

definition scale_identity :: "'c coefficient \<Rightarrow> 'c bucket_columns \<Rightarrow> bool \<Rightarrow> (words \<Rightarrow> words \<Rightarrow> bool \<times> 'c) \<Rightarrow> 'c bucket_columns" where
  "scale_identity C bucket clifford idn =
     columns_of (if clifford then filter (\<lambda>((x, z), c). \<not> fst (idn x z)) (terms_of bucket)
                 else map (\<lambda>((x, z), c). ((x, z), c_mul C c (snd (idn x z)))) (terms_of bucket))"

definition received_scale :: "'c coefficient \<Rightarrow> 'c received_rotation \<Rightarrow> 'c bucket_columns \<Rightarrow> 'c bucket_columns" where
  "received_scale C layer bucket =
     (case layer of
        ReceivedTable l \<Rightarrow>
          scale_identity C bucket (rl_clifford l) (\<lambda>x z.
            let pattern = support_bits (rl_ptm l) x z in (is_nonzero C (rl_partner l ! pattern), rl_identity l ! pattern))
      | ReceivedWide r _ clifford \<Rightarrow>
          let cos = c_mul_real C (c_one C) (rt_cos r)
          in scale_identity C bucket clifford (\<lambda>x z.
               let commutes = commutes_with \<lparr>ps_x = x, ps_z = z\<rparr> (rt_generator r) in (\<not> commutes, if commutes then c_one C else cos)))"

definition received_order :: "'c received_rotation \<Rightarrow> partner_order option" where
  "received_order layer = (case layer of ReceivedTable l \<Rightarrow> Some (rl_order l) | ReceivedWide _ order _ \<Rightarrow> order)"

definition fill_received_rotation_bucket ::
    "nat \<Rightarrow> 'c coefficient \<Rightarrow> 'c received_rotation \<Rightarrow> ('s, 'c) truncation_policy \<Rightarrow> (u32 \<Rightarrow> 'c pauli_term list) \<Rightarrow> 'c extra_rows \<Rightarrow>
     'c bucket_columns list \<Rightarrow> u32 list \<Rightarrow> 'c sort_scratch \<Rightarrow> ('c bucket_columns list \<times> 'c sort_scratch) result" where
  "fill_received_rotation_bucket W C layer policy spare extra members betas scratch =
     and_then (assert_that (members \<noteq> [] \<and> betas \<noteq> []) IndexOutOfBounds) (\<lambda>_.
       let bucket = received_scale C layer (members ! 0);
           rest = gr_rest (append_extra extra (betas ! 0) run_reset)
       in and_then (case received_order layer of
            Some order \<Rightarrow> and_then (partner_order_sort W order rest) (\<lambda>(partners, _). Inr (partners, scratch))
          | None \<Rightarrow> kernel_sort W Comparison rest scratch) (\<lambda>(partners, scratch).
          and_then (merge_partners C policy (terms_of bucket) (spare (betas ! 0)) (terms_of partners) None False) (\<lambda>(ts, in_place).
            Inr (members[0 := columns_of ts], scratch))))"

section \<open>Reading a pattern\<close>

text \<open>The string a row of the table is about: the rows the generator entry reaches.\<close>

definition reaches :: "'c coefficient \<Rightarrow> 'c rotation_layer \<Rightarrow> key \<Rightarrow> bool" where
  "reaches C layer k \<longleftrightarrow> \<not> c_eq C (rl_partner layer ! local_pattern (lp_support (rl_ptm layer)) k) (c_zero C)"

definition layer_ok :: "nat \<Rightarrow> nat \<Rightarrow> 'c coefficient \<Rightarrow> 'c rotation_layer \<Rightarrow> bool" where
  "layer_ok W n C layer \<longleftrightarrow>
     (let p = rl_ptm layer; qs = lp_support p; dim = 4 ^ lp_num p
      in lp_ok W p \<and> rl_probe layer = support_probe p \<and> rl_support_mask layer = dim - 1 \<and>
         rl_active layer = active_patterns C (rl_partner layer) (dim - 1) \<and> wf_key W (rl_mask layer) \<and> key_ok W n (rl_mask layer) \<and>
         order_levels (rl_order layer) = map of_nat (set_ranks W (rl_mask layer)) \<and>
         (\<forall>s < dim. if c_eq C (rl_partner layer ! s) (c_zero C) then c_eq C (rl_identity layer ! s) (c_one C)
                    else \<not> c_eq C (rl_partner layer ! (s XOR local_pattern qs (rl_mask layer))) (c_zero C)))"

lemma bit_active_patterns:
  assumes "p < 16"
  shows "bit (active_patterns C a m) p \<longleftrightarrow> \<not> c_eq C (a ! (p AND m)) (c_zero C)"
proof -
  have one: "bit (push_bit q 1 :: 16 word) p \<longleftrightarrow> p = q" for q
    using assms by (auto simp: bit_push_bit_iff bit_1_iff simp del: push_bit_of_1)
  have "bit (fold (\<lambda>p bits. bits OR push_bit p 1) ps (b :: 16 word)) p \<longleftrightarrow> bit b p \<or> p \<in> set ps" for ps b
    by (induction ps arbitrary: b) (auto simp: bit_or_iff one simp del: push_bit_of_1)
  then show ?thesis using assms by (simp add: active_patterns_def)
qed

lemma active_test: "drop_bit p w AND 1 \<noteq> (0 :: 'a::len word) \<longleftrightarrow> bit w p"
  by (simp add: and_one_eq odd_iff_mod_2_eq_one bit_iff_odd_drop_bit)

lemma unat_bit_read: "unat (drop_bit b v AND 1) = of_bool (bit v b)" for v :: u64
  by (simp add: and_one_eq bit_iff_odd_drop_bit mod_2_eq_odd)

definition probed :: "words \<Rightarrow> nat \<times> u32 \<Rightarrow> bool" where
  "probed ws = (\<lambda>(w, b). bit (ws ! w) (unat b))"

lemma probe_bit_eq: "probe_bit ws p = of_bool (probed ws p)"
  by (simp add: probe_bit_def probed_def unat_bit_read split_def)

text \<open>A probe pattern that reads the \<open>x\<close> columns, the \<open>z\<close> columns or both.\<close>

definition reads :: "'c rotation_layer \<Rightarrow> bool \<Rightarrow> bool \<Rightarrow> words \<Rightarrow> words \<Rightarrow> nat \<Rightarrow> bool" where
  "reads layer a b x z p \<longleftrightarrow>
     (\<forall>n. bit p n \<longleftrightarrow> n < 4 \<and> (if even n then a \<and> probed x (rl_probe layer ! (n div 2)) else b \<and> probed z (rl_probe layer ! (n div 2))))"

lemma bit_shifted_bool: "bit (push_bit k (of_bool b :: nat)) n \<longleftrightarrow> n = k \<and> b"
  by (cases b) (auto simp: bit_push_bit_iff bit_Suc_0_iff simp del: push_bit_of_1 push_bit_of_Suc_0)

lemma pattern_reads:
  "reads layer True True x z (rl_pattern layer x z)" "reads layer True False x z (probe_x layer x)" "reads layer False True x z (probe_z layer z)"
proof -
  have zero: "bit (of_bool b :: nat) n \<longleftrightarrow> n = 0 \<and> b" for b n using bit_shifted_bool [of 0 b n] by simp
  have four: "n = 0 \<or> n = 1 \<or> n = 2 \<or> n = 3 \<or> 4 \<le> n" for n :: nat by linarith
  note eqs = bit_or_iff probe_bit_eq bit_shifted_bool zero
  have "bit (rl_pattern layer x z) n \<longleftrightarrow> n < 4 \<and> probed (if even n then x else z) (rl_probe layer ! (n div 2))" for n
    using four [of n] unfolding rl_pattern_def eqs by auto
  then show "reads layer True True x z (rl_pattern layer x z)" by (simp add: reads_def)
  have "bit (probe_x layer x) n \<longleftrightarrow> n < 4 \<and> even n \<and> probed x (rl_probe layer ! (n div 2))" for n
    using four [of n] unfolding probe_x_def eqs by auto
  then show "reads layer True False x z (probe_x layer x)" by (simp add: reads_def)
  have "bit (probe_z layer z) n \<longleftrightarrow> n < 4 \<and> odd n \<and> probed z (rl_probe layer ! (n div 2))" for n
    using four [of n] unfolding probe_z_def eqs by auto
  then show "reads layer False True x z (probe_z layer z)" by (simp add: reads_def)
qed

lemma reads_bound: "reads layer a b x z p \<Longrightarrow> p < 16"
proof -
  assume r: "reads layer a b x z p"
  have "take_bit 4 p = p" using r unfolding reads_def by (intro bit_eqI) (auto simp: bit_take_bit_iff)
  then have "p < 2 ^ 4" by (metis take_bit_nat_less_exp)
  then show ?thesis by simp
qed

lemma support_probe_nth:
  assumes "lp_ok W p" "j < lp_num p"
  shows "support_probe p ! j = (lp_support p ! j div 64, of_nat (lp_support p ! j mod 64))"
  using assms by (auto simp: support_probe_def lp_ok_def lp_support_def lp_num_def Let_def min_def MAX_LOCAL_SUPPORT_def)

lemma probed_qubit:
  assumes "length ws = W" "q < 64 * W"
  shows "probed ws (q div 64, of_nat (q mod 64)) \<longleftrightarrow> qbit ws q"
  using assms by (simp add: probed_def qbit_def unat_of_nat less_mult_imp_div_less mult.commute)

definition kept_columns :: "nat \<Rightarrow> bool \<Rightarrow> bool \<Rightarrow> words \<Rightarrow> words \<Rightarrow> key" where
  "kept_columns W a b x z = (if a then x else replicate W 0, if b then z else replicate W 0)"

lemma reads_support:
  assumes "layer_ok W n C layer" "wf_key W (x, z)" "reads layer a b x z p"
  shows "p AND rl_support_mask layer = local_pattern (lp_support (rl_ptm layer)) (kept_columns W a b x z)"
proof (rule bit_eqI)
  fix m :: nat
  let ?p = "rl_ptm layer"
  have p: "lp_ok W ?p" and l: "rl_probe layer = support_probe ?p" "rl_support_mask layer = 4 ^ lp_num ?p - 1"
    using assms(1) by (simp_all add: layer_ok_def Let_def)
  have len: "length (lp_support ?p) = lp_num ?p" "lp_num ?p \<le> 2"
    using p lp_ok_dim(1) by (auto simp: lp_ok_def MAX_LOCAL_SUPPORT_def)
  have mask: "(4 :: nat) ^ lp_num ?p - 1 = mask (2 * lp_num ?p)" by (simp add: mask_eq_exp_minus_1 power_mult)
  have "probed ws (support_probe ?p ! (m div 2)) \<longleftrightarrow> qbit ws (lp_support ?p ! (m div 2))" if "m < 2 * lp_num ?p" "length ws = W" for ws
  proof -
    have j: "m div 2 < lp_num ?p" using that by linarith
    then have "lp_support ?p ! (m div 2) < 64 * W" using p len(1) by (simp add: lp_ok_def)
    then show ?thesis using that(2) by (simp add: support_probe_nth [OF p j] probed_qubit [of _ W])
  qed
  then show "bit (p AND rl_support_mask layer) m \<longleftrightarrow> bit (local_pattern (lp_support ?p) (kept_columns W a b x z)) m"
    using len assms(2) assms(3) [unfolded reads_def] unfolding l mask
    by (auto simp: bit_and_iff bit_mask_iff bit_local_pattern l kept_columns_def wf_key_def)
qed

lemma reads_reaches:
  assumes "layer_ok W n C layer" "wf_key W (x, z)" "reads layer a b x z p"
  shows "drop_bit p (rl_active layer) AND 1 \<noteq> 0 \<longleftrightarrow> reaches C layer (kept_columns W a b x z)"
proof -
  have "rl_active layer = active_patterns C (rl_partner layer) (rl_support_mask layer)"
    using assms(1) by (simp add: layer_ok_def Let_def)
  then show ?thesis
    unfolding active_test reaches_def by (simp only: bit_active_patterns [OF reads_bound [OF assms(3)]] reads_support [OF assms])
qed

text \<open>
  What a known support relies on: the generator entry reaches exactly the strings that anticommute with the generator.
\<close>

definition anticommuting :: "nat \<Rightarrow> 'c coefficient \<Rightarrow> 'c rotation_layer \<Rightarrow> bool" where
  "anticommuting W C layer \<longleftrightarrow> (\<forall>k. wf_key W k \<longrightarrow>
     (reaches C layer k \<longleftrightarrow> \<not> commutes_with \<lparr>ps_x = fst k, ps_z = snd k\<rparr> \<lparr>ps_x = fst (rl_mask layer), ps_z = snd (rl_mask layer)\<rparr>))"

lemma anticommuting_iff:
  assumes "layer_ok W n C layer" "anticommuting W C layer" "wf_key W k"
  shows "reaches C layer k \<longleftrightarrow> odd (symplectic (64 * W) k (rl_mask layer))"
proof -
  have "wf_ps W \<lparr>ps_x = fst k, ps_z = snd k\<rparr>" "wf_ps W \<lparr>ps_x = fst (rl_mask layer), ps_z = snd (rl_mask layer)\<rparr>"
    using assms by (simp_all add: layer_ok_def Let_def wf_key_def wf_ps_def)
  from commutes_with_iff [OF this] show ?thesis using assms(2) [unfolded anticommuting_def, THEN spec, THEN mp, OF assms(3)] by (simp add: key_of_def)
qed

lemma no_bits: "\<not> list_ex (\<lambda>w. w \<noteq> 0) ws \<Longrightarrow> \<not> qbit ws q"
  by (auto simp: list_ex_iff qbit_def) (metis bit_0_eq bot_apply bot_bool_def nth_mem)

lemma scan_pattern_reaches:
  assumes "layer_ok W n C layer" "wf_key W (col_x bucket ! row, col_z bucket ! row)" "known \<longrightarrow> anticommuting W C layer"
  shows "drop_bit (scan_pattern layer known bucket row) (rl_active layer) AND 1 \<noteq> 0 \<longleftrightarrow>
    reaches C layer (col_x bucket ! row, col_z bucket ! row)"
proof -
  let ?x = "col_x bucket ! row" and ?z = "col_z bucket ! row" and ?g = "rl_mask layer"
  note test = reads_reaches [OF assms(1,2)]
  have same: "reaches C layer (kept_columns W a b ?x ?z) \<longleftrightarrow> reaches C layer (?x, ?z)"
    if known "a \<or> \<not> list_ex (\<lambda>w. w \<noteq> 0) (snd ?g)" "b \<or> \<not> list_ex (\<lambda>w. w \<noteq> 0) (fst ?g)" for a b
  proof -
    have wf: "wf_key W (kept_columns W a b ?x ?z)" using assms(2) by (simp add: wf_key_def kept_columns_def)
    have "symplectic (64 * W) (kept_columns W a b ?x ?z) ?g = symplectic (64 * W) (?x, ?z) ?g"
      using that(2,3) no_bits [of "snd ?g"] no_bits [of "fst ?g"] by (auto simp: symplectic_def kept_columns_def intro!: sum.cong)
    then show ?thesis using anticommuting_iff [OF assms(1)] assms(2,3) wf that(1) by simp
  qed
  show ?thesis
    unfolding scan_pattern_def Let_def
    using test [OF pattern_reads(1)] test [OF pattern_reads(2)] test [OF pattern_reads(3)] same [of True False] same [of False True]
    by (auto simp: kept_columns_def)
qed

text \<open>The partner of a reached string is reached.\<close>

lemma reaches_partner:
  assumes "layer_ok W n C layer" "wf_key W k" "reaches C layer k"
  shows "reaches C layer (xor_key k (rl_mask layer))"
proof -
  let ?qs = "lp_support (rl_ptm layer)"
  have "local_pattern ?qs k < 4 ^ lp_num (rl_ptm layer)" "wf_key W (rl_mask layer)"
    using local_pattern_bound [of ?qs k] assms(1) lp_ok_dim(1) [of W "rl_ptm layer"] by (simp_all add: layer_ok_def Let_def)
  then show ?thesis using assms by (simp add: layer_ok_def Let_def reaches_def local_pattern_xor [OF assms(2)])
qed

section \<open>The scan\<close>

definition amplitude_at :: "'c rotation_layer \<Rightarrow> 'c list \<Rightarrow> key \<Rightarrow> 'c" where
  "amplitude_at layer as k = as ! local_pattern (lp_support (rl_ptm layer)) k"

definition scaled_row :: "'c coefficient \<Rightarrow> 'c rotation_layer \<Rightarrow> 'c pauli_term \<Rightarrow> 'c pauli_term" where
  "scaled_row C layer t =
     (fst t, if reaches C layer (fst t)
             then if rl_clifford layer then c_zero C else c_mul C (snd t) (amplitude_at layer (rl_identity layer) (fst t))
             else snd t)"

definition partner_row :: "'c coefficient \<Rightarrow> 'c rotation_layer \<Rightarrow> 'c pauli_term \<Rightarrow> 'c pauli_term" where
  "partner_row C layer t = (xor_key (fst t) (rl_mask layer), c_mul C (snd t) (amplitude_at layer (rl_partner layer) (fst t)))"

definition partner_rows :: "'c coefficient \<Rightarrow> 'c rotation_layer \<Rightarrow> 'c pauli_term list \<Rightarrow> 'c pauli_term list" where
  "partner_rows C layer ts = map (partner_row C layer) (filter (\<lambda>t. reaches C layer (fst t)) ts)"

text \<open>A hit packs its row above the four pattern bits.\<close>

lemma packed_row:
  assumes "r < 2 ^ 28" "p < 16"
  shows "unat (drop_bit 4 (push_bit 4 (of_nat r) OR of_nat p :: 32 word)) = r"
proof -
  have p: "take_bit 4 p = p" using assms(2) by (simp add: take_bit_nat_eq_self)
  have r: "take_bit 28 r = r" using assms(1) by (simp add: take_bit_nat_eq_self)
  have "drop_bit 4 (push_bit 4 (of_nat r) OR of_nat p :: 32 word) = of_nat r"
  proof (rule bit_word_eqI)
    fix m assume "m < LENGTH(32)"
    have "\<not> bit p (m + 4)" using p by (metis bit_take_bit_iff not_add_less2)
    moreover have "bit r m \<Longrightarrow> m < 28" using r by (metis bit_take_bit_iff)
    ultimately show "bit (drop_bit 4 (push_bit 4 (of_nat r) OR of_nat p :: 32 word)) m \<longleftrightarrow> bit (of_nat r :: 32 word) m"
      by (auto simp: bit_drop_bit_eq bit_or_iff bit_push_bit_iff bit_of_nat_iff add.commute)
  qed
  then show ?thesis using assms(1) by (simp add: unat_of_nat)
qed

lemma scan_hits_fold:
  fixes bucket :: "'c bucket_columns"
  assumes "layer_ok W n C layer" "wf_columns bucket" "\<forall>t \<in> set (terms_of bucket). wf_key W (fst t)"
    "distinct rs" "\<forall>r \<in> set rs. r < columns_len bucket \<and> r < 2 ^ 28 \<and> reaches C layer (fst (terms_of bucket ! r))"
    "wf_columns partners"
  shows "\<exists>bucket' partners' hits'. fold (scan_hit C layer) (map (\<lambda>row. push_bit 4 (of_nat row)) rs) (bucket, partners, hits) =
      (bucket', partners', hits @ hits') \<and> wf_columns bucket' \<and> wf_columns partners' \<and>
    terms_of bucket' = map (\<lambda>r. if r \<in> set rs then scaled_row C layer (terms_of bucket ! r) else terms_of bucket ! r) [0..<columns_len bucket] \<and>
    terms_of partners' = terms_of partners @ map (\<lambda>r. partner_row C layer (terms_of bucket ! r)) rs \<and>
    map (\<lambda>p. unat (drop_bit 4 p)) hits' = rs"
  using assms(2-)
proof (induction rs arbitrary: bucket partners hits)
  case Nil
  have "map (\<lambda>r. terms_of bucket ! r) [0..<columns_len bucket] = terms_of bucket"
    using map_nth [of "terms_of bucket"] length_terms_of [OF Nil(1)] by simp
  with Nil show ?case by simp
next
  case (Cons r rs)
  let ?x = "col_x bucket ! r" and ?z = "col_z bucket ! r" and ?c = "col_coeff bucket ! r"
  have r: "r < columns_len bucket" "r < 2 ^ 28" "reaches C layer (fst (terms_of bucket ! r))" "r \<notin> set rs" using Cons.prems by simp_all
  have row: "terms_of bucket ! r = ((?x, ?z), ?c)" using r(1) Cons.prems(1) by (simp add: terms_of_def wf_columns_def columns_len_def)
  have wf: "wf_key W (?x, ?z)" using Cons.prems(2) r(1) length_terms_of [OF Cons.prems(1)] row by (metis fst_conv nth_mem)
  let ?p = "rl_pattern layer ?x ?z"
  have pat: "?p AND rl_support_mask layer = local_pattern (lp_support (rl_ptm layer)) (?x, ?z)" "?p < 16"
    using reads_support [OF assms(1) wf pattern_reads(1)] reads_bound [OF pattern_reads(1)] by (simp_all add: kept_columns_def)
  let ?b = "bucket\<lparr>col_coeff := (col_coeff bucket)[r := snd (scaled_row C layer (terms_of bucket ! r))]\<rparr>"
  let ?q = "columns_push partners (fst (partner_row C layer (terms_of bucket ! r))) (snd (partner_row C layer (terms_of bucket ! r)))"
  have step: "scan_hit C layer (push_bit 4 (of_nat r)) (bucket, partners, hits) = (?b, ?q, hits @ [push_bit 4 (of_nat r) OR of_nat ?p])"
    using packed_row [OF r(2), of 0] r(3) row
    by (simp add: scan_hit_def Let_def pat(1) scaled_row_def partner_row_def amplitude_at_def xor_key_def)
  have b: "wf_columns ?b" "columns_len ?b = columns_len bucket" "terms_of ?b = (terms_of bucket)[r := scaled_row C layer (terms_of bucket ! r)]"
    using Cons.prems(1) r(1) by (simp_all add: wf_columns_def columns_len_def terms_of_def update_zip row scaled_row_def list_update_id)
  have len: "length (terms_of bucket) = columns_len bucket" by (rule length_terms_of [OF Cons.prems(1)])
  have fsts: "fst (terms_of ?b ! m) = fst (terms_of bucket ! m)" for m
    unfolding b(3) using r(1) len by (cases "m = r") (simp_all add: scaled_row_def)
  have keep: "terms_of ?b ! m = terms_of bucket ! m" if "m \<in> set rs" for m
    unfolding b(3) using r(4) that by (cases "m = r") auto
  have "\<forall>t \<in> set (terms_of ?b). wf_key W (fst t)"
    using Cons.prems(2) fsts len b(2) length_terms_of [OF b(1)] unfolding all_set_conv_all_nth by metis
  moreover have q: "wf_columns ?q" "terms_of ?q = terms_of partners @ [partner_row C layer (terms_of bucket ! r)]"
    using columns_push_terms [OF Cons.prems(5)] by simp_all
  moreover have "\<forall>m \<in> set rs. m < columns_len ?b \<and> m < 2 ^ 28 \<and> reaches C layer (fst (terms_of ?b ! m))"
    using Cons.prems(4) fsts b(2) by auto
  moreover have "distinct rs" using Cons.prems(3) by simp
  ultimately obtain bucket' partners' hits' where IH:
      "fold (scan_hit C layer) (map (\<lambda>row. push_bit 4 (of_nat row)) rs) (?b, ?q, hits @ [push_bit 4 (of_nat r) OR of_nat ?p]) =
        (bucket', partners', (hits @ [push_bit 4 (of_nat r) OR of_nat ?p]) @ hits')" "wf_columns bucket'" "wf_columns partners'"
      "terms_of bucket' = map (\<lambda>m. if m \<in> set rs then scaled_row C layer (terms_of ?b ! m) else terms_of ?b ! m) [0..<columns_len ?b]"
      "terms_of partners' = terms_of ?q @ map (\<lambda>m. partner_row C layer (terms_of ?b ! m)) rs"
      "map (\<lambda>p. unat (drop_bit 4 p)) hits' = rs"
    using Cons.IH [OF b(1)] by blast
  have "terms_of bucket' = map (\<lambda>m. if m \<in> set (r # rs) then scaled_row C layer (terms_of bucket ! m) else terms_of bucket ! m) [0..<columns_len bucket]"
    unfolding IH(4) b(2) by (rule map_cong [OF refl]) (use keep r(4) len in \<open>auto simp: b(3) nth_list_update\<close>)
  moreover have "terms_of partners' = terms_of partners @ map (\<lambda>m. partner_row C layer (terms_of bucket ! m)) (r # rs)"
    using IH(5) keep unfolding q(2) by simp
  moreover have "map (\<lambda>p. unat (drop_bit 4 p)) ((push_bit 4 (of_nat r) OR of_nat ?p) # hits') = r # rs"
    using IH(6) packed_row [OF r(2) pat(2)] by simp
  moreover have "fold (scan_hit C layer) (map (\<lambda>row. push_bit 4 (of_nat row)) (r # rs)) (bucket, partners, hits) =
      (bucket', partners', hits @ (push_bit 4 (of_nat r) OR of_nat ?p) # hits')"
    using IH(1) step by simp
  ultimately show ?case
    using IH(2,3) by (intro exI [of _ bucket'] exI [of _ partners'] exI [of _ "(push_bit 4 (of_nat r) OR of_nat ?p) # hits'"] conjI)
qed

lemma scan_ok:
  fixes bucket :: "'c bucket_columns"
  defines "ts \<equiv> terms_of bucket"
  assumes "layer_ok W n C layer" "wf_columns bucket" "\<forall>t \<in> set ts. wf_key W (fst t)" "length ts < 2 ^ 28" "known \<longrightarrow> anticommuting W C layer"
  shows "\<exists>bucket' partners hits. scan W C layer known bucket support =
      Inr (bucket', partners, hits, if known then support else scan_support W bucket) \<and> wf_columns bucket' \<and> wf_columns partners \<and>
    terms_of bucket' = map (scaled_row C layer) ts \<and> terms_of partners = partner_rows C layer ts \<and>
    map (\<lambda>p. unat (drop_bit 4 p)) hits = filter (\<lambda>r. reaches C layer (fst (ts ! r))) [0..<length ts]"
proof -
  let ?rs = "filter (\<lambda>r. reaches C layer (fst (ts ! r))) [0..<length ts]"
  have len: "length ts = columns_len bucket" "length (col_x bucket) = columns_len bucket"
    using assms(3) by (simp_all add: ts_def length_terms_of wf_columns_def columns_len_def)
  have row: "fst (ts ! r) = (col_x bucket ! r, col_z bucket ! r)" if "r < length ts" for r
    using that assms(3) by (simp add: ts_def terms_of_def wf_columns_def)
  have test: "drop_bit (scan_pattern layer known bucket r) (rl_active layer) AND 1 \<noteq> 0 \<longleftrightarrow> reaches C layer (fst (ts ! r))"
    if "r < length ts" for r
    using scan_pattern_reaches [OF assms(2) _ assms(6), of bucket r] row [OF that] assms(4) that by (metis nth_mem)
  have "filter (\<lambda>row. drop_bit (scan_pattern layer known bucket row) (rl_active layer) AND 1 \<noteq> 0) [0..<columns_len bucket] = ?rs"
    unfolding len(1) [symmetric] by (rule filter_cong [OF refl]) (use test in simp)
  then have listed: "list_hits layer (length (col_x bucket)) (scan_pattern layer known bucket) = Inr (map (\<lambda>row. push_bit 4 (of_nat row)) ?rs)"
    using assms(5) len by (simp add: list_hits_def assert_that_def)
  obtain bucket' partners' hits' where f: "fold (scan_hit C layer) (map (\<lambda>row. push_bit 4 (of_nat row)) ?rs) (bucket, columns_new, []) = (bucket', partners', [] @ hits')"
      "wf_columns bucket'" "wf_columns partners'"
      "terms_of bucket' = map (\<lambda>r. if r \<in> set ?rs then scaled_row C layer (ts ! r) else ts ! r) [0..<columns_len bucket]"
      "terms_of partners' = terms_of columns_new @ map (\<lambda>r. partner_row C layer (ts ! r)) ?rs" "map (\<lambda>p. unat (drop_bit 4 p)) hits' = ?rs"
    using scan_hits_fold [OF assms(2,3) assms(4) [unfolded ts_def], of ?rs columns_new "[]"] assms(5) len(1) unfolding ts_def by fastforce
  have "terms_of bucket' = map (\<lambda>r. scaled_row C layer (ts ! r)) [0..<length ts]"
    unfolding f(4) len(1) [symmetric] by (rule map_cong [OF refl]) (auto simp: scaled_row_def)
  also have "\<dots> = map (scaled_row C layer) (map (\<lambda>r. ts ! r) [0..<length ts])" by simp
  also have "\<dots> = map (scaled_row C layer) ts" by (simp only: map_nth)
  finally have "terms_of bucket' = map (scaled_row C layer) ts" .
  moreover have "terms_of partners' = partner_rows C layer ts"
  proof -
    have "map (\<lambda>r. ts ! r) ?rs = filter (\<lambda>t. reaches C layer (fst t)) (map (\<lambda>r. ts ! r) [0..<length ts])"
      by (simp add: filter_map comp_def)
    then have "map (partner_row C layer) (map (\<lambda>r. ts ! r) ?rs) = partner_rows C layer ts" unfolding map_nth partner_rows_def by (rule arg_cong)
    then show ?thesis unfolding f(5) by (simp add: comp_def)
  qed
  ultimately show ?thesis using f listed by (auto simp: scan_def)
qed

end
