(* ===== verification/Rotation_Fill.thy ===== *)
theory Rotation_Fill
  imports Rotation_Layer Approx_Top_N
begin

unbundle bit_operations_syntax

text \<open>
  What the rotation kernel of \<open>engine/bucketed/rotation_layer.rs\<close> leaves in the buckets of a coset: the scaled rows of the bucket
  and the partners of its fellow member, reduced. A known support, carried from the layer before, lets it skip members; the
  skips are sound because a support covers every string of its bucket and the generator reaches only strings that
  anticommute with it.
\<close>

section \<open>Supports\<close>

definition covers :: "key \<Rightarrow> key \<Rightarrow> bool" where
  "covers sm k \<longleftrightarrow> (\<forall>q. (qbit (fst k) q \<longrightarrow> qbit (fst sm) q) \<and> (qbit (snd k) q \<longrightarrow> qbit (snd sm) q))"

lemma covers_refl: "covers k k"
  by (simp add: covers_def)

lemma length_or_words [simp]: "length (or_words as bs) = min (length as) (length bs)"
  by (simp add: or_words_def)

lemma wf_or_key: "wf_key W k \<Longrightarrow> wf_key W l \<Longrightarrow> wf_key W (or_key k l)"
  by (simp add: wf_key_def or_key_def)

lemma covers_or:
  assumes "wf_key W s" "wf_key W t"
  shows "covers (or_key s t) k \<longleftrightarrow> (\<forall>q. (qbit (fst k) q \<longrightarrow> qbit (fst s) q \<or> qbit (fst t) q) \<and> (qbit (snd k) q \<longrightarrow> qbit (snd s) q \<or> qbit (snd t) q))"
  using assms by (simp add: covers_def or_key_def wf_key_def qbit_or_words)

lemma covers_partner:
  assumes "wf_key W s" "wf_key W k" "wf_key W g" "covers s k"
  shows "covers (or_key s g) (xor_key k g)"
  unfolding covers_or [OF assms(1,3)] using assms(2-4) by (auto simp: covers_def xor_key_def wf_key_def qbit_xor_words)

lemma covers_or_mono:
  assumes "wf_key W s" "wf_key W t" "covers s k \<or> covers t k"
  shows "covers (or_key s t) k"
  unfolding covers_or [OF assms(1,2)] using assms(3) by (auto simp: covers_def)

lemma scan_support_covers:
  assumes "wf_columns bucket" "\<forall>t \<in> set (terms_of bucket). wf_key W (fst t)"
  shows "wf_key W (scan_support W bucket)" "t \<in> set (terms_of bucket) \<Longrightarrow> covers (scan_support W bucket) (fst t)"
proof -
  have row: "wf_key W (col_x bucket ! r, col_z bucket ! r)" if "r < length (col_x bucket)" for r
  proof -
    have "r < length (terms_of bucket)" "fst (terms_of bucket ! r) = (col_x bucket ! r, col_z bucket ! r)"
      using that assms(1) by (simp_all add: terms_of_def wf_columns_def)
    then show ?thesis using assms(2) by (metis nth_mem)
  qed
  let ?f = "\<lambda>row (sx, sz). (or_words sx (col_x bucket ! row), or_words sz (col_z bucket ! row))"
  have fold: "wf_key W (fold ?f rs s) \<and> (\<forall>k. covers s k \<longrightarrow> covers (fold ?f rs s) k) \<and>
      (\<forall>r \<in> set rs. covers (fold ?f rs s) (col_x bucket ! r, col_z bucket ! r))"
    if "wf_key W s" "\<forall>r \<in> set rs. r < length (col_x bucket)" for rs s
    using that
  proof (induction rs arbitrary: s)
    case (Cons r rs)
    have eq: "?f r s = or_key s (col_x bucket ! r, col_z bucket ! r)" by (simp add: or_key_def split_def)
    have r: "wf_key W (col_x bucket ! r, col_z bucket ! r)" using row Cons.prems(2) by simp
    have "covers (?f r s) (col_x bucket ! r, col_z bucket ! r)" "\<forall>k. covers s k \<longrightarrow> covers (?f r s) k"
      unfolding eq using covers_or_mono [OF Cons.prems(1) r] covers_refl by blast+
    then show ?case using Cons.IH [of "?f r s"] wf_or_key [OF Cons.prems(1) r] Cons.prems(2) eq by simp
  qed simp
  have z: "wf_key W (replicate W 0, replicate W 0)" by (simp add: wf_key_def)
  note all = fold [OF z, of "[0..<length (col_x bucket)]"]
  show "wf_key W (scan_support W bucket)" using all by (simp add: scan_support_def)
  assume "t \<in> set (terms_of bucket)"
  then obtain r where "r < length (col_x bucket)" "fst t = (col_x bucket ! r, col_z bucket ! r)"
    using assms(1) by (auto simp: terms_of_def wf_columns_def set_zip)
  then show "covers (scan_support W bucket) (fst t)" using all by (simp add: scan_support_def)
qed

lemma may_touch_bit:
  assumes "wf_key W sm" "wf_key W (rl_mask layer)"
    "(qbit (fst sm) q \<and> qbit (snd (rl_mask layer)) q) \<or> (qbit (snd sm) q \<and> qbit (fst (rl_mask layer)) q)"
  shows "may_touch layer sm"
proof -
  let ?w = "q div 64" and ?g = "rl_mask layer"
  have w: "?w < W" using assms by (auto simp: qbit_def wf_key_def)
  have "bit ((fst sm ! ?w AND snd ?g ! ?w) OR (snd sm ! ?w AND fst ?g ! ?w)) (q mod 64)"
    using assms(3) by (auto simp: qbit_def bit_or_iff bit_and_iff)
  then have "(fst sm ! ?w AND snd ?g ! ?w) OR (snd sm ! ?w AND fst ?g ! ?w) \<noteq> 0" by (metis bit_0_eq bot_apply bot_bool_def)
  then show ?thesis
    unfolding may_touch_def list_ex_length using w assms(1,2) by (intro exI [of _ ?w]) (auto simp: wf_key_def)
qed

lemma untouched_member:
  assumes "layer_ok W n C layer" "anticommuting W C layer" "wf_key W sm" "covers sm k" "wf_key W k" "\<not> may_touch layer sm"
  shows "\<not> reaches C layer k"
proof
  assume "reaches C layer k"
  then have nz: "symplectic (64 * W) k (rl_mask layer) \<noteq> 0" using anticommuting_iff [OF assms(1,2,5)] by (metis even_zero)
  obtain q where "(qbit (fst k) q \<and> qbit (snd (rl_mask layer)) q) \<noteq> (qbit (snd k) q \<and> qbit (fst (rl_mask layer)) q)"
  proof (rule ccontr)
    assume "\<not> thesis"
    then have "\<forall>q. (qbit (fst k) q \<and> qbit (snd (rl_mask layer)) q) = (qbit (snd k) q \<and> qbit (fst (rl_mask layer)) q)" using that by blast
    then show False using nz by (simp add: symplectic_def)
  qed
  then have "(qbit (fst sm) q \<and> qbit (snd (rl_mask layer)) q) \<or> (qbit (snd sm) q \<and> qbit (fst (rl_mask layer)) q)"
    using assms(4) by (auto simp: covers_def)
  moreover have "wf_key W (rl_mask layer)" using assms(1) by (simp add: layer_ok_def Let_def)
  ultimately show False using may_touch_bit [OF assms(3)] assms(6) by blast
qed

section \<open>One member\<close>

definition member_ok :: "nat \<Rightarrow> 'c bucket_columns \<Rightarrow> bool" where
  "member_ok W bucket \<longleftrightarrow> wf_columns bucket \<and> run (terms_of bucket) \<and> (\<forall>t \<in> set (terms_of bucket). wf_key W (fst t)) \<and>
     length (terms_of bucket) < 2 ^ 28"

text \<open>What \<open>known\<close> promises of a bucket: a support that covers it, and rows the policy has already kept.\<close>

definition known_ok :: "nat \<Rightarrow> 'c coefficient \<Rightarrow> ('s, 'c) truncation_policy \<Rightarrow> 'c pauli_term list \<Rightarrow> key \<Rightarrow> bool" where
  "known_ok W C policy ts support \<longleftrightarrow>
     wf_key W support \<and> (\<forall>t \<in> set ts. covers support (fst t) \<and> kept_sum C policy (fst t) (snd t))"

definition scanned_as :: "nat \<Rightarrow> 'c coefficient \<Rightarrow> 'c rotation_layer \<Rightarrow> 'c pauli_term list \<Rightarrow>
     'c bucket_columns \<times> 'c bucket_columns \<times> 32 word list \<times> key \<Rightarrow> bool" where
  "scanned_as W C layer ts = (\<lambda>(bucket, partners, hits, support).
     wf_columns bucket \<and> wf_columns partners \<and> terms_of bucket = map (scaled_row C layer) ts \<and> terms_of partners = partner_rows C layer ts \<and>
     map (\<lambda>p. unat (drop_bit 4 p)) hits = filter (\<lambda>r. reaches C layer (fst (ts ! r))) [0..<length ts] \<and>
     wf_key W support \<and> (\<forall>t \<in> set ts. covers support (fst t)))"

lemma scan_member_ok:
  assumes "layer_ok W n C layer" "member_ok W bucket" "known \<Longrightarrow> anticommuting W C layer \<and> known_ok W C policy (terms_of bucket) support"
  shows "\<exists>r. scan_member W C layer known (bucket, support) = Inr r \<and> scanned_as W C layer (terms_of bucket) r"
proof (cases "known \<and> \<not> may_touch layer support")
  case True
  have none: "\<not> reaches C layer (fst t)" if "t \<in> set (terms_of bucket)" for t
    using untouched_member [OF assms(1), of support "fst t"] assms(2,3) that True by (auto simp: known_ok_def member_ok_def)
  then have "map (scaled_row C layer) (terms_of bucket) = terms_of bucket" "partner_rows C layer (terms_of bucket) = []"
      "filter (\<lambda>r. reaches C layer (fst (terms_of bucket ! r))) [0..<length (terms_of bucket)] = []"
    by (auto simp: scaled_row_def partner_rows_def filter_empty_conv intro!: map_idI)
  then show ?thesis using True assms(2,3) by (simp add: scan_member_def scanned_as_def member_ok_def known_ok_def)
next
  case False
  then have eq: "scan_member W C layer known (bucket, support) = scan W C layer known bucket support" by (auto simp: scan_member_def)
  have "wf_columns bucket" "\<forall>t \<in> set (terms_of bucket). wf_key W (fst t)" "length (terms_of bucket) < 2 ^ 28" "known \<longrightarrow> anticommuting W C layer"
    using assms(2,3) by (simp_all add: member_ok_def)
  from scan_ok [OF assms(1) this, of support] obtain bucket' partners hits where sc: "scan W C layer known bucket support =
      Inr (bucket', partners, hits, if known then support else scan_support W bucket)" "wf_columns bucket'" "wf_columns partners"
    "terms_of bucket' = map (scaled_row C layer) (terms_of bucket)" "terms_of partners = partner_rows C layer (terms_of bucket)"
    "map (\<lambda>p. unat (drop_bit 4 p)) hits = filter (\<lambda>r. reaches C layer (fst (terms_of bucket ! r))) [0..<length (terms_of bucket)]"
    by blast
  have "wf_key W (if known then support else scan_support W bucket)"
      "\<forall>t \<in> set (terms_of bucket). covers (if known then support else scan_support W bucket) (fst t)"
    using scan_support_covers [of bucket W] assms(2,3) by (auto simp: member_ok_def known_ok_def)
  then show ?thesis
    unfolding eq by (intro exI [of _ "(bucket', partners, hits, if known then support else scan_support W bucket)"]) (simp only: sc scanned_as_def prod.case simp_thms)
qed

lemma partner_rows_sorted:
  assumes "layer_ok W n C layer" "128 * W < 2 ^ 32" "run ts" "\<forall>t \<in> set ts. wf_key W (fst t)" "wf_columns rest" "terms_of rest = partner_rows C layer ts"
  shows "\<exists>dv. partner_order_sort W (rl_order layer) rest = Inr (columns_of (sort_key fst (partner_rows C layer ts)), dv)"
    and "run (sort_key fst (partner_rows C layer ts))"
proof -
  let ?g = "rl_mask layer" and ?us = "filter (\<lambda>t. reaches C layer (fst t)) ts"
  have g: "wf_key W ?g" "order_levels (rl_order layer) = map of_nat (set_ranks W ?g)" using assms(1) by (simp_all add: layer_ok_def Let_def)
  have keys: "map fst (partner_rows C layer ts) = map (\<lambda>k. xor_key k ?g) (map fst ?us)" by (simp add: partner_rows_def partner_row_def)
  have sorted: "sorted_wrt (<) (map fst ?us)" using run_filter [OF assms(3)] by (simp add: run_def)
  have wf: "\<forall>k \<in> set (map fst ?us). wf_key W k" using assms(4) by simp
  show "\<exists>dv. partner_order_sort W (rl_order layer) rest = Inr (columns_of (sort_key fst (partner_rows C layer ts)), dv)"
    using partner_order_sort_ok [OF assms(2) g(1) assms(5) _ sorted wf g(2)] keys assms(6) by simp
  have "inj_on (\<lambda>k. xor_key k ?g) (set (map fst ?us))"
    by (rule inj_on_inverseI [of _ "\<lambda>k. xor_key k ?g"]) (use xor_key_cancel [of W _ ?g] wf g(1) in blast)
  moreover have "distinct (map fst ?us)" using sorted strict_sorted_iff by blast
  ultimately have "distinct (map fst (partner_rows C layer ts))" unfolding keys by (simp only: distinct_map)
  moreover have "mset (map fst (sort_key fst (partner_rows C layer ts))) = mset (map fst (partner_rows C layer ts))" by simp
  ultimately show "run (sort_key fst (partner_rows C layer ts))"
    using mset_eq_imp_distinct_iff unfolding run_def strict_sorted_iff by fastforce
qed

lemma scanned_lists_hits:
  assumes "layer_ok W n C layer" "\<forall>t \<in> set us. wf_key W (fst t)" "set ps = set (partner_rows C layer us)"
    "map (\<lambda>p. unat (drop_bit 4 p)) hits = filter (\<lambda>r. reaches C layer (fst (ts ! r))) [0..<length ts]"
  shows "lists_hits (map (scaled_row C layer) ts) hits ps"
    and "dirty_rows hits = {r. r < length ts \<and> reaches C layer (fst (ts ! r))}"
proof -
  show rows: "dirty_rows hits = {r. r < length ts \<and> reaches C layer (fst (ts ! r))}"
    using arg_cong [OF assms(4), of set] by (auto simp: dirty_rows_def)
  have "reaches C layer (fst t)" if t: "t \<in> set ps" for t
  proof -
    obtain u where "u \<in> set us" "reaches C layer (fst u)" "fst t = xor_key (fst u) (rl_mask layer)"
      using t assms(3) by (auto simp: partner_rows_def partner_row_def)
    then show ?thesis using reaches_partner [OF assms(1)] assms(2) by auto
  qed
  moreover have "sorted_wrt (<) (map (\<lambda>p. unat (drop_bit 4 p)) hits)" unfolding assms(4) by (intro sorted_wrt_filter) simp
  moreover have "fst (map (scaled_row C layer) ts ! r) = fst (ts ! r)" if "r < length ts" for r using that by (simp add: scaled_row_def)
  ultimately show "lists_hits (map (scaled_row C layer) ts) hits ps"
    unfolding lists_hits_def rows length_map by fastforce
qed

lemma merge_member_ok:
  assumes laws: "coefficient_laws C" "floor_sound C policy" and lay: "layer_ok W n C layer" "128 * W < 2 ^ 32"
    and ts: "run ts" "\<forall>t \<in> set ts. wf_key W (fst t)" and us: "run us" "\<forall>t \<in> set us. wf_key W (fst t)"
    and scan: "scanned_as W C layer ts (bucket, p1, hits, support)" "scanned_as W C layer us (b2, rest, h2, source)"
    and kept: "\<And>t. known \<Longrightarrow> t \<in> set ts \<Longrightarrow> kept_sum C policy (fst t) (snd t)"
  shows "\<exists>out sm. merge_member_partners W C layer policy known junk bucket hits support rest source = Inr (out, sm) \<and> wf_columns out \<and>
    is_reduced C policy (map (scaled_row C layer) ts @ partner_rows C layer us) (terms_of out) \<and>
    wf_key W sm \<and> (\<forall>t \<in> set (terms_of out). covers sm (fst t))"
proof -
  let ?as = "map (scaled_row C layer) ts" and ?ps = "sort_key fst (partner_rows C layer us)"
  let ?sm = "if columns_len rest \<noteq> 0 then or_key (or_key support source) (rl_mask layer) else support"
  note S = scan(1) [unfolded scanned_as_def prod.case] and R = scan(2) [unfolded scanned_as_def prod.case]
  have g: "wf_key W (rl_mask layer)" using lay(1) by (simp add: layer_ok_def Let_def)
  note order = partner_rows_sorted [OF lay us, of rest]
  have run: "run ?as" using ts(1) by (subst run_same_keys) (simp_all add: scaled_row_def)
  have len: "columns_len rest = length (partner_rows C layer us)" using R length_terms_of by metis
  note hit = scanned_lists_hits [OF lay(1) us(2) _ conjunct1 [OF conjunct2 [OF conjunct2 [OF conjunct2 [OF conjunct2 [OF S]]]]], of ?ps]
  have clean: "kept_sum C policy (fst (?as ! r)) (snd (?as ! r))" if "known" "r < length ts" "\<not> reaches C layer (fst (ts ! r))" for r
    using kept [OF that(1) nth_mem [OF that(2)]] that by (simp add: scaled_row_def)
  have cov: "wf_key W ?sm" "\<And>k. k \<in> fst ` set (?as @ partner_rows C layer us) \<Longrightarrow> covers ?sm k"
  proof -
    have wf: "wf_key W support" "wf_key W source" "wf_key W (or_key support source)" using S R wf_or_key by auto
    then show "wf_key W ?sm" using wf_or_key [OF _ g] by simp
    fix k assume "k \<in> fst ` set (?as @ partner_rows C layer us)"
    then consider "k \<in> fst ` set ?as" | "k \<in> fst ` set (partner_rows C layer us)" unfolding set_append image_Un by blast
    then show "covers ?sm k"
    proof cases
      case 1
      then have "covers support k" using S by (auto simp: scaled_row_def)
      then show ?thesis using covers_or_mono [OF wf(1,2)] covers_or_mono [OF wf(3) g] by simp
    next
      case 2
      then obtain u where u: "u \<in> set us" "k = xor_key (fst u) (rl_mask layer)" by (auto simp: partner_rows_def partner_row_def)
      then have "covers source (fst u)" "wf_key W (fst u)" using R us(2) by simp_all
      moreover have "columns_len rest \<noteq> 0" using 2 len by auto
      ultimately show ?thesis using covers_partner [OF wf(3) _ g] covers_or_mono [OF wf(1,2)] u(2) by simp
    qed
  qed
  show ?thesis
  proof (cases "known \<and> hits = [] \<and> columns_len rest = 0")
    case True
    then have "\<not> reaches C layer (fst (ts ! r))" if "r < length ts" for r using hit(2) that by (auto simp: dirty_rows_def)
    then have none: "\<forall>t \<in> set ?as. kept_sum C policy (fst t) (snd t)"
      using True clean unfolding all_set_conv_all_nth length_map by blast
    have ps: "partner_rows C layer us = []" using True len by simp
    have "is_reduced C policy (?as @ []) (?as @ [])"
      by (rule coefficient_laws.reduced_block [OF laws(1) coefficient_laws.reduced_Nil [OF laws(1)] run none]) simp
    then show ?thesis using True S ps cov by (auto simp: merge_member_partners_def)
  next
    case False
    obtain as' ps' ts' where f: "fold_hits C ?as hits ?ps (coefficient_floor policy) = Inr (as', ps')"
        "\<forall>junk. merge_partners C policy as' junk ps' (if known then Some hits else None) True = Inr (ts', length ps' \<le> length junk)"
        "is_reduced C policy (?as @ ?ps) ts'"
      using fold_merge_reduced [OF laws run order(2) hit(1), of known] clean hit(2) R by auto
    have "is_reduced C policy (?as @ partner_rows C layer us) ts'"
      by (rule coefficient_laws.reduced_perm [OF laws(1) f(3)]) simp
    moreover from this have "\<forall>t \<in> set ts'. covers ?sm (fst t)" using cov(2) unfolding is_reduced_def by blast
    moreover obtain dv where "partner_order_sort W (rl_order layer) rest = Inr (columns_of ?ps, dv)" using order(1) R by blast
    then have "merge_member_partners W C layer policy known junk bucket hits support rest source = Inr (columns_of ts', ?sm)"
      unfolding merge_member_partners_def if_not_P [OF False] using S f(1,2) by (simp add: Let_def)
    ultimately show ?thesis using cov(1) by (intro exI [of _ "columns_of ts'"] exI [of _ ?sm]) simp
  qed
qed

section \<open>One coset\<close>

text \<open>The rows member \<open>j\<close> ends up with: its own scaled rows and the partners of member \<open>j \<oplus> (size - 1)\<close>.\<close>

definition member_rows :: "'c coefficient \<Rightarrow> 'c rotation_layer \<Rightarrow> 'c bucket_columns list \<Rightarrow> nat \<Rightarrow> 'c pauli_term list" where
  "member_rows C layer members j =
     map (scaled_row C layer) (terms_of (members ! j)) @ partner_rows C layer (terms_of (members ! (j XOR (length members - 1))))"

lemma pair_index:
  fixes j m :: nat
  assumes "m = 1 \<or> m = 2" "j < m"
  shows "j XOR (m - 1) < m" "(if m - 1 - j = 0 then 0 else m - 1) = j XOR (m - 1)"
proof -
  have "(1 :: nat) XOR 1 = 0" "(0 :: nat) XOR 1 = 1" "(0 :: nat) XOR 0 = 0" by simp_all
  moreover have "m = 1 \<and> j = 0 \<or> m = 2 \<and> j = 0 \<or> m = 2 \<and> j = 1" using assms by auto
  ultimately show "j XOR (m - 1) < m" "(if m - 1 - j = 0 then 0 else m - 1) = j XOR (m - 1)" by auto
qed

lemma fill_rotation_coset_ok:
  assumes laws: "coefficient_laws C" "floor_sound C policy" and lay: "layer_ok W n C layer" "128 * W < 2 ^ 32"
    and size: "length members = 1 \<or> length members = 2" "length supports = length members"
    and ok: "\<forall>b \<in> set members. member_ok W b" and known: "known \<Longrightarrow> anticommuting W C layer"
      "\<And>j. known \<Longrightarrow> j < length members \<Longrightarrow> known_ok W C policy (terms_of (members ! j)) (supports ! j)"
  shows "\<exists>outs sms. fill_rotation_coset W C layer policy known spare members supports = Inr (outs, sms) \<and>
    length outs = length members \<and> length sms = length members \<and>
    (\<forall>j < length members. wf_columns (outs ! j) \<and> is_reduced C policy (member_rows C layer members j) (terms_of (outs ! j)) \<and>
      wf_key W (sms ! j) \<and> (\<forall>t \<in> set (terms_of (outs ! j)). covers (sms ! j) (fst t)))"
proof -
  let ?m = "length members"
  obtain scanned where sc: "map_result (scan_member W C layer known) (zip members supports) = Inr scanned" "length scanned = ?m"
      "\<forall>j < ?m. scanned_as W C layer (terms_of (members ! j)) (scanned ! j)"
  proof -
    have "\<exists>scanned. map_result (scan_member W C layer known) (zip members supports) = Inr scanned \<and>
        length scanned = length (zip members supports) \<and> (\<forall>j < length (zip members supports). scanned_as W C layer (terms_of (members ! j)) (scanned ! j))"
    proof (rule map_result_ex)
      fix j assume "j < length (zip members supports)"
      then show "\<exists>r. scan_member W C layer known (zip members supports ! j) = Inr r \<and> scanned_as W C layer (terms_of (members ! j)) r"
        using scan_member_ok [OF lay(1), of "members ! j" known policy "supports ! j"] known ok size(2) by auto
    qed
    then show thesis using that size(2) by auto
  qed
  let ?step = "\<lambda>j. let (bucket, _, hits, support) = scanned ! j; (_, rest, _, _) = scanned ! (j XOR (?m - 1));
      (_, _, _, source) = scanned ! (if ?m - 1 - j = 0 then 0 else ?m - 1)
    in merge_member_partners W C layer policy known (spare j) bucket hits support rest source"
  let ?good = "\<lambda>j r. wf_columns (fst r) \<and> is_reduced C policy (member_rows C layer members j) (terms_of (fst r)) \<and>
      wf_key W (snd r) \<and> (\<forall>t \<in> set (terms_of (fst r)). covers (snd r) (fst t))"
  have "\<exists>outs. map_result ?step [0..<?m] = Inr outs \<and> length outs = length [0..<?m] \<and> (\<forall>j < length [0..<?m]. ?good j (outs ! j))"
  proof (rule map_result_ex)
    fix j assume j: "j < length [0..<?m]"
    have j': "j < ?m" "j XOR (?m - 1) < ?m" and src: "(if ?m - 1 - j = 0 then 0 else ?m - 1) = j XOR (?m - 1)"
      using pair_index [OF size(1), of j] j by auto
    have nth: "[0..<?m] ! j = j" using j by simp
    obtain bucket p1 hits support where a: "scanned ! j = (bucket, p1, hits, support)" by (cases "scanned ! j")
    obtain b2 rest h2 source where b: "scanned ! (j XOR (?m - 1)) = (b2, rest, h2, source)" by (cases "scanned ! (j XOR (?m - 1))")
    have sa: "scanned_as W C layer (terms_of (members ! j)) (bucket, p1, hits, support)"
      "scanned_as W C layer (terms_of (members ! (j XOR (?m - 1)))) (b2, rest, h2, source)" using sc(3) j' a b by metis+
    have mo: "run (terms_of (members ! i))" "\<forall>t \<in> set (terms_of (members ! i)). wf_key W (fst t)" if "i < ?m" for i
      using ok nth_mem [OF that] by (simp_all add: member_ok_def)
    have kept: "\<And>t. known \<Longrightarrow> t \<in> set (terms_of (members ! j)) \<Longrightarrow> kept_sum C policy (fst t) (snd t)"
      using known(2) j' by (simp add: known_ok_def)
    from merge_member_ok [OF laws lay mo [OF j'(1)] mo [OF j'(2)] sa kept, where known = known and junk = "spare j"] obtain out sm where
      "merge_member_partners W C layer policy known (spare j) bucket hits support rest source = Inr (out, sm)" "wf_columns out"
      "is_reduced C policy (member_rows C layer members j) (terms_of out)" "wf_key W sm" "\<forall>t \<in> set (terms_of out). covers sm (fst t)"
      unfolding member_rows_def by blast
    then show "\<exists>r. ?step ([0..<?m] ! j) = Inr r \<and> ?good j r" unfolding nth src a b Let_def by (intro exI [of _ "(out, sm)"]) simp
  qed
  then obtain outs where "map_result ?step [0..<?m] = Inr outs" "length outs = ?m"
      "\<forall>j < ?m. wf_columns (fst (outs ! j)) \<and> is_reduced C policy (member_rows C layer members j) (terms_of (fst (outs ! j))) \<and>
        wf_key W (snd (outs ! j)) \<and> (\<forall>t \<in> set (terms_of (fst (outs ! j))). covers (snd (outs ! j)) (fst t))" by auto
  then show ?thesis using sc(1) by (intro exI [of _ "map fst outs"] exI [of _ "map snd outs"]) (simp add: fill_rotation_coset_def Let_def)
qed

end
