(* ===== verification/Bucketed_Layer.thy ===== *)
theory Bucketed_Layer
  imports Rotation_Fill Boundary_Quota
begin

unbundle bit_operations_syntax

text \<open>
  \<open>engine/bucketed.rs\<close>: one layer applied to a bucketed sum. A key-preserving table rescales in place, a table of a rotation's
  shape runs the rotation kernel, and everything else the gather, sort and merge of a coset; the coset loop runs whichever
  kernel over the cosets, serially or on a pool. The machine is an argument: whether the processor has the bit gather
  instructions, the number of threads, the order in which the pool takes the cosets and by which worker, and the spare
  slots behind the buckets' rows.
\<close>

section \<open>The code\<close>

record 'c machine =
  mc_bmi2 :: bool
  mc_threads :: nat
  mc_schedule :: "(nat \<times> u32) list"
  mc_spare :: "u32 \<Rightarrow> 'c pauli_term list"

record layer_octaves =
  lo_window :: "octave_window option"
  lo_per_bucket :: "u32 list list"
  lo_totals :: "u64 list"
  lo_counted :: bool
  lo_pending :: "boundary_cut option"
  lo_bound :: "nat option"
  lo_armed :: bool
  lo_within :: bool

record bucket_supports =
  bs_masks :: "key list"
  bs_known :: bool

record 'c layer_scratch =
  ls_task :: "'c sort_scratch coset_scratch"
  ls_workers :: "'c sort_scratch coset_scratch list"
  ls_octaves :: layer_octaves
  ls_supports :: bucket_supports

definition supports_forget :: "bucket_supports \<Rightarrow> bucket_supports" where
  "supports_forget b = b\<lparr>bs_known := False\<rparr>"

definition vec_resize :: "'a list \<Rightarrow> nat \<Rightarrow> 'a \<Rightarrow> 'a list" where
  "vec_resize xs n v = take n xs @ replicate (n - length xs) v"

definition sort_scratch_new :: "'c sort_scratch" where
  "sort_scratch_new = \<lparr>ss_permutation = [], ss_packed = [], ss_spare = [], ss_x = [], ss_z = [], ss_coeff = []\<rparr>"

definition rescale_in_place ::
    "'c coefficient \<Rightarrow> 'c local_ptm \<Rightarrow> ('s, 'c) truncation_policy \<Rightarrow> 'c pauli_sum \<Rightarrow> 'c pauli_sum" where
  "rescale_in_place C ptm policy s =
     (let amplitude = de_amplitude (lp_deltas ptm ! 0)
      in update_per_bucket (\<lambda>_. (\<lambda>u (x, z) c.
           let coeff = c_mul C c (amplitude ! support_bits ptm x z)
           in (if \<not> c_eq C coeff (c_zero C) \<and> keep_term policy x z coeff then Some coeff else None, u), ())) s)"

definition max_fanout :: "nat \<Rightarrow> 'c coefficient \<Rightarrow> 'c prepared \<Rightarrow> nat result" where
  "max_fanout W C pr =
     (case pr of
        Local ptm \<Rightarrow>
          and_then (rotation_layer_of W C ptm) (\<lambda>layer.
            if (case layer of None \<Rightarrow> False | Some l \<Rightarrow> rl_clifford l) then Inr 1
            else Inr (max 1 (Max (set (map (\<lambda>s. length (filter (\<lambda>d. is_nonzero C (de_amplitude d ! s)) (lp_deltas ptm))) [0..<LOCAL_DIM])))))
      | Rotation r \<Rightarrow> Inr 2)"

text \<open>The closure \<open>rotation_coset_loop\<close> hands the coset loop: the members' supports are read from and written back to their slots.\<close>

definition rotation_fill ::
    "nat \<Rightarrow> 'c coefficient \<Rightarrow> 'c rotation_layer \<Rightarrow> ('s, 'c) truncation_policy \<Rightarrow> bool \<Rightarrow> (u32 \<Rightarrow> 'c pauli_term list) \<Rightarrow>
     ('c, key list, 'c sort_scratch) coset_kernel_fun" where
  "rotation_fill W C layer policy known spare members betas masks work =
     and_then (assert_that (list_all (\<lambda>\<beta>. unat \<beta> < length masks) betas) IndexOutOfBounds) (\<lambda>_.
       and_then (fill_rotation_coset W C layer policy known (\<lambda>j. spare (betas ! j)) members (map (\<lambda>\<beta>. masks ! unat \<beta>) betas)) (\<lambda>(members, supports).
         Inr (members, put_slots betas supports masks, work)))"

definition general_fill ::
    "nat \<Rightarrow> 'c coefficient \<Rightarrow> 'c delta_plan \<Rightarrow> ('s, 'c) truncation_policy \<Rightarrow> 'c extra_rows \<Rightarrow>
     ('c, key list, 'c sort_scratch) coset_kernel_fun" where
  "general_fill W C plan policy extra members betas masks work =
     and_then (fill_coset W C plan policy extra members betas work) (\<lambda>(members, work). Inr (members, masks, work))"

definition received_fill ::
    "nat \<Rightarrow> 'c coefficient \<Rightarrow> 'c received_rotation \<Rightarrow> ('s, 'c) truncation_policy \<Rightarrow> (u32 \<Rightarrow> 'c pauli_term list) \<Rightarrow> 'c extra_rows \<Rightarrow>
     ('c, key list, 'c sort_scratch) coset_kernel_fun" where
  "received_fill W C layer policy spare extra members betas masks work =
     and_then (fill_received_rotation_bucket W C layer policy spare extra members betas work) (\<lambda>(members, work). Inr (members, masks, work))"

text \<open>The coset loop on the layer's scratch, with the counts of every bucket written to its slot when a window is armed.\<close>

definition run_cosets ::
    "'c machine \<Rightarrow> 'c coefficient \<Rightarrow> gf2_span_index \<Rightarrow> boundary_cut option \<Rightarrow> octave_window option \<Rightarrow>
     ('c, key list, 'c sort_scratch) coset_kernel_fun \<Rightarrow> key list \<Rightarrow> 'c pauli_sum \<Rightarrow> 'c layer_scratch \<Rightarrow>
     ('c pauli_sum \<times> key list \<times> 'c layer_scratch) result" where
  "run_cosets M C sp bcut window fill masks s scratch =
     (let oct = ls_octaves scratch;
          per_bucket = (if window \<noteq> None then vec_resize (lo_per_bucket oct) (length (pm_buckets s)) (replicate (WINDOW_OCTAVES + 2) 0)
                        else lo_per_bucket oct)
      in and_then (coset_loop (mc_bmi2 M) C sp bcut window fill sort_scratch_new (mc_threads M) (mc_schedule M)
              \<lparr>sl_buckets = pm_buckets s, sl_counts = per_bucket, sl_shared = masks\<rparr> (ls_task scratch) (ls_workers scratch))
           (\<lambda>(len, totals, slots, task, workers).
             Inr (s\<lparr>pm_buckets := sl_buckets slots, pm_len := len\<rparr>, sl_shared slots,
                  scratch\<lparr>ls_task := task, ls_workers := workers,
                    ls_octaves := oct\<lparr>lo_per_bucket := sl_counts slots, lo_totals := totals, lo_counted := window \<noteq> None\<rparr>\<rparr>)))"

text \<open>\<open>ExtraRows::NEEDS_BETA\<close>.\<close>

definition needs_beta :: "'c extra_rows \<Rightarrow> bool" where
  "needs_beta extra = (case extra of None \<Rightarrow> False | Some _ \<Rightarrow> True)"

definition received_of ::
    "nat \<Rightarrow> 'c coefficient \<Rightarrow> 'c prepared \<Rightarrow> 'c extra_rows \<Rightarrow> layer_knobs \<Rightarrow> 'c received_rotation option result" where
  "received_of W C pr extra knobs =
     (if \<not> needs_beta extra \<or> kn_generator_local knobs then Inr None
      else case pr of
             Local ptm \<Rightarrow> and_then (rotation_layer_of W C ptm) (\<lambda>layer.
               case layer of None \<Rightarrow> Inl ExpectFailed | Some l \<Rightarrow> Inr (Some (ReceivedTable l)))
           | Rotation r \<Rightarrow> and_then (received_wide W C r) (\<lambda>l. Inr (Some l)))"

definition rotation_of :: "nat \<Rightarrow> 'c coefficient \<Rightarrow> 'c prepared \<Rightarrow> 'c extra_rows \<Rightarrow> 'c rotation_layer option result" where
  "rotation_of W C pr extra =
     (case pr of Local ptm \<Rightarrow> if \<not> needs_beta extra then rotation_layer_of W C ptm else Inr None | Rotation _ \<Rightarrow> Inr None)"

definition layer_on_cosets ::
    "nat \<Rightarrow> 'c machine \<Rightarrow> 'c coefficient \<Rightarrow> 'c prepared \<Rightarrow> ('s, 'c) truncation_policy \<Rightarrow> 'c extra_rows \<Rightarrow> layer_knobs \<Rightarrow>
     octave_window option \<Rightarrow> boundary_cut option \<Rightarrow> 'c pauli_sum \<Rightarrow> 'c layer_scratch \<Rightarrow> ('c pauli_sum \<times> 'c layer_scratch) result" where
  "layer_on_cosets W M C pr policy extra knobs window bcut s scratch =
     and_then (rotation_of W C pr extra) (\<lambda>rotation.
     and_then (received_of W C pr extra knobs) (\<lambda>received_rotation.
     and_then (span_new (unwrap_or (kn_bucket_deltas knobs) (prepared_bucket_deltas pr)) (gh_bits (pm_hash s))) (\<lambda>sp.
       let supports = ls_supports scratch;
           forgotten = scratch\<lparr>ls_supports := supports_forget supports\<rparr>
       in case received_rotation of
            Some l \<Rightarrow>
              and_then (run_cosets M C sp bcut window (received_fill W C l policy (mc_spare M) extra) (bs_masks supports) s forgotten)
                (\<lambda>(s, _, scratch). Inr (s, scratch))
          | None \<Rightarrow>
              (case rotation of
                 Some l \<Rightarrow>
                   let buckets = length (pm_buckets s);
                       known = (bs_known supports \<and> length (bs_masks supports) = buckets)
                   in and_then (run_cosets M C sp bcut window (rotation_fill W C l policy known (mc_spare M))
                          (vec_resize (bs_masks supports) buckets (replicate W 0, replicate W 0)) s scratch)
                        (\<lambda>(s, masks, scratch). Inr (s, scratch\<lparr>ls_supports := \<lparr>bs_masks = masks, bs_known = True\<rparr>\<rparr>))
               | None \<Rightarrow>
                   and_then (run_cosets M C sp bcut window (general_fill W C (delta_plan_new C (mc_bmi2 M) pr sp knobs) policy extra)
                          (bs_masks supports) s forgotten)
                     (\<lambda>(s, _, scratch). Inr (s, scratch))))))"

definition apply_layer_bucketed_with ::
    "nat \<Rightarrow> 'c machine \<Rightarrow> 'c coefficient \<Rightarrow> 'c prepared \<Rightarrow> ('s, 'c) truncation_policy \<Rightarrow> 'c extra_rows \<Rightarrow> layer_knobs \<Rightarrow>
     'c pauli_sum \<Rightarrow> 'c layer_scratch \<Rightarrow> ('c pauli_sum \<times> 'c layer_scratch) result" where
  "apply_layer_bucketed_with W M C pr policy extra knobs s scratch =
     (let oct = ls_octaves scratch;
          bcut = lo_pending oct;
          window = (if lo_armed oct then lo_window oct else None);
          scratch = scratch\<lparr>ls_octaves := oct\<lparr>lo_counted := False, lo_armed := False, lo_pending := None\<rparr>\<rparr>
      in case pr of
           Local ptm \<Rightarrow>
             if \<not> needs_beta extra \<and> is_key_preserving ptm
             then Inr (rescale_in_place C ptm policy (case bcut of None \<Rightarrow> s | Some bc \<Rightarrow> cut_apply C bc s),
                       scratch\<lparr>ls_supports := supports_forget (ls_supports scratch)\<rparr>)
             else layer_on_cosets W M C pr policy extra knobs window bcut s scratch
         | Rotation _ \<Rightarrow> layer_on_cosets W M C pr policy extra knobs window bcut s scratch)"

definition apply_layer_bucketed ::
    "nat \<Rightarrow> 'c machine \<Rightarrow> 'c coefficient \<Rightarrow> 'c prepared \<Rightarrow> ('s, 'c) truncation_policy \<Rightarrow> 'c pauli_sum \<Rightarrow> 'c layer_scratch \<Rightarrow>
     ('c pauli_sum \<times> 'c layer_scratch) result" where
  "apply_layer_bucketed W M C pr policy s scratch = apply_layer_bucketed_with W M C pr policy None default_knobs s scratch"

end
