(* ===== verification/Layer_Kernels.thy ===== *)
theory Layer_Kernels
  imports Bucketed_Layer
begin

unbundle bit_operations_syntax

text \<open>
  The kernels a layer runs over its cosets each satisfy the contract of the coset loop: the general fill for any prepared
  channel, the rotation kernel for a table of a rotation's shape.
\<close>

section \<open>The general fill\<close>

definition emits_of :: "'c coefficient \<Rightarrow> 'c prepared \<Rightarrow> 'c pauli_term \<Rightarrow> 'c pauli_term list" where
  "emits_of C pr t = prepared_emit C pr (fst t) (snd t)"

lemma emitted_emits: "concat (map (emits_of C pr) ts) = emitted C pr ts"
  by (simp add: emits_of_def [abs_def] emitted_def)

locale prepared_layer =
  fixes W n :: nat and h :: gf2_hash and C :: "'c coefficient" and policy :: "('s, 'c) truncation_policy"
    and sp :: gf2_span_index and pr :: "'c prepared" and extra :: "'c extra_rows" and bmi2 :: bool and knobs :: layer_knobs
  assumes layer_laws: "coefficient_laws C" and layer_span: "span_ok sp" and layer_prepared: "prepared_ok W n h pr"
    and layer_streams: "fst ` set (streams C pr) \<subseteq> delta_span (sp_basis sp)" and layer_received: "received_ok W n h extra"

sublocale prepared_layer \<subseteq> general: coset_kernel W n "2 ^ 32" h C policy sp "emits_of C pr" "received extra"
  "general_fill W C (delta_plan_new C bmi2 pr sp knobs) policy extra" "\<lambda>_ _ _. True" "\<lambda>_ _ _. True"
proof (rule coset_kernel.intro)
  show "coefficient_laws C" "span_ok sp" by (fact layer_laws layer_span)+
next
  fix t row assume "key_ok W n (fst t)" "row \<in> set (emits_of C pr t)"
  then show "bucket_of h (fst t) XOR bucket_of h (fst row) \<in> delta_span (sp_basis sp)"
    using emitted_keys(2) [OF layer_prepared, of "[t]" row] layer_streams by (auto simp: emitted_def emits_of_def)
next
  fix rep old x and w :: "'c sort_scratch"
  assume a: "pivot_clear sp rep" "coset_input W n h (coset_buckets sp rep) old"
    "\<forall>\<beta> \<in> set (coset_buckets sp rep). length (bucket_rows h (emits_of C pr) (received extra) (concat (map terms_of old)) \<beta>) < 2 ^ 32"
  have rows: "bucket_rows h (emits_of C pr) (received extra) (concat (map terms_of old)) \<beta> =
      rows_to h \<beta> (emitted C pr (concat (map terms_of old))) @ received extra \<beta>" for \<beta>
    by (simp add: bucket_rows_def emitted_emits)
  have len: "length (coset_buckets sp rep) = coset_size sp" by (simp add: coset_buckets_def)
  have bound: "\<forall>j < coset_size sp. length (rows_to h (coset_buckets sp rep ! j) (emitted C pr (concat (map terms_of old))) @
      received extra (coset_buckets sp rep ! j)) < 2 ^ 32"
    using a(3) len unfolding rows by (metis nth_mem)
  from fill_coset_ok [OF layer_laws layer_span a(1) layer_prepared layer_streams a(2) layer_received this, of bmi2 knobs policy w]
  obtain out w' where f: "fill_coset W C (delta_plan_new C bmi2 pr sp knobs) policy extra old (coset_buckets sp rep) w = Inr (out, w')"
      "length out = length old" "\<forall>j < coset_size sp. wf_columns (out ! j) \<and> is_reduced C policy
        (rows_to h (coset_buckets sp rep ! j) (emitted C pr (concat (map terms_of old))) @ received extra (coset_buckets sp rep ! j)) (terms_of (out ! j))"
    by blast
  then show "\<exists>out x' w'. general_fill W C (delta_plan_new C bmi2 pr sp knobs) policy extra old (coset_buckets sp rep) x w = Inr (out, x', w') \<and>
      length out = length old \<and>
      (\<forall>j < coset_size sp. wf_columns (out ! j) \<and>
        is_reduced C policy (bucket_rows h (emits_of C pr) (received extra) (concat (map terms_of old)) (coset_buckets sp rep ! j)) (terms_of (out ! j)) \<and> True) \<and>
      (\<forall>\<beta> (ts :: 'c pauli_term list). \<beta> \<notin> set (coset_buckets sp rep) \<longrightarrow> True = True \<and> True = True)"
    by (simp add: general_fill_def rows)
qed

section \<open>The rotation kernel\<close>

definition rotation_rows :: "'c coefficient \<Rightarrow> 'c rotation_layer \<Rightarrow> 'c pauli_term \<Rightarrow> 'c pauli_term list" where
  "rotation_rows C layer t = scaled_row C layer t # (if reaches C layer (fst t) then [partner_row C layer t] else [])"

text \<open>Where the rows of one bucket go.\<close>

lemma rotation_rows_of_bucket:
  assumes "\<forall>t \<in> set ts. wf_key W (fst t) \<and> bucket_of h (fst t) = \<alpha>" "wf_key W (rl_mask layer)"
  shows "mset (rows_to h \<beta> (concat (map (rotation_rows C layer) ts))) =
    (if \<beta> = \<alpha> then mset (map (scaled_row C layer) ts) else {#}) +
    (if \<beta> = \<alpha> XOR bucket_of h (rl_mask layer) then mset (partner_rows C layer ts) else {#})"
  using assms(1)
proof (induction ts)
  case (Cons t ts)
  then have t: "bucket_of h (fst (scaled_row C layer t)) = \<alpha>" "bucket_of h (fst (partner_row C layer t)) = \<alpha> XOR bucket_of h (rl_mask layer)"
    using bucket_of_xor [OF _ assms(2)] by (simp_all add: scaled_row_def partner_row_def)
  show ?case using Cons by (auto simp: rows_to_def rotation_rows_def partner_rows_def t)
qed (simp add: rows_to_def partner_rows_def)

lemma pair_coset:
  assumes "span_ok sp" "sp_basis sp = (if \<delta> = 0 then [] else [\<delta>])"
  shows "coset_size sp = (if \<delta> = 0 then 1 else 2)" "coset_buckets sp rep = (if \<delta> = 0 then [rep] else [rep, rep XOR \<delta>])"
proof -
  show size: "coset_size sp = (if \<delta> = 0 then 1 else 2)" unfolding coset_size_eq [OF assms(1)] assms(2) by simp
  have two: "[0..<2] = [0, 1 :: nat]" by (simp add: upt_rec)
  show "coset_buckets sp rep = (if \<delta> = 0 then [rep] else [rep, rep XOR \<delta>])"
    unfolding coset_buckets_def size coset_member_eq assms(2) using two by simp
qed

text \<open>What the supports say of a bucket before and after its coset is filled.\<close>

definition support_in :: "nat \<Rightarrow> 'c coefficient \<Rightarrow> ('s, 'c) truncation_policy \<Rightarrow> bool \<Rightarrow> u32 \<Rightarrow> 'c pauli_term list \<Rightarrow> key list \<Rightarrow> bool" where
  "support_in W C policy known \<beta> ts masks \<longleftrightarrow> unat \<beta> < length masks \<and> (known \<longrightarrow> known_ok W C policy ts (masks ! unat \<beta>))"

definition support_out :: "nat \<Rightarrow> u32 \<Rightarrow> 'c pauli_term list \<Rightarrow> key list \<Rightarrow> bool" where
  "support_out W \<beta> ts masks \<longleftrightarrow> unat \<beta> < length masks \<and> wf_key W (masks ! unat \<beta>) \<and> (\<forall>t \<in> set ts. covers (masks ! unat \<beta>) (fst t))"

lemma member_rows_of_coset:
  assumes "span_ok sp" "sp_basis sp = (if bucket_of h (rl_mask layer) = 0 then [] else [bucket_of h (rl_mask layer)])"
    "coset_input W n h (coset_buckets sp rep) old" "wf_key W (rl_mask layer)" "j < coset_size sp"
  shows "mset (bucket_rows h (rotation_rows C layer) (\<lambda>_. []) (concat (map terms_of old)) (coset_buckets sp rep ! j)) = mset (member_rows C layer old j)"
proof -
  let ?\<delta> = "bucket_of h (rl_mask layer)"
  note P = pair_coset [OF assms(1,2)]
  have len: "length old = length (coset_buckets sp rep)" using assms(3) by (simp add: coset_input_def)
  have row: "\<forall>t \<in> set (terms_of (old ! i)). wf_key W (fst t) \<and> bucket_of h (fst t) = coset_buckets sp rep ! i" if "i < length old" for i
    using assms(3) that len by (auto simp: coset_input_def key_ok_def)
  note R = rotation_rows_of_bucket [OF row assms(4)]
  show ?thesis
  proof (cases "?\<delta> = 0")
    case True
    then obtain o0 where old: "old = [o0]" using len P(2) by (auto simp: length_Suc_conv)
    then show ?thesis using R [of 0] P assms(5) True by (simp add: bucket_rows_def member_rows_def)
  next
    case False
    then obtain o0 o1 where old: "old = [o0, o1]" using len P(2) by (auto simp: length_Suc_conv)
    have "rep XOR (rep XOR ?\<delta>) = ?\<delta>" by (simp flip: xor.assoc)
    then have ne: "rep \<noteq> rep XOR ?\<delta>" using False by (metis xor_self_eq)
    have j: "j = 0 \<or> j = 1" using assms(5) P(1) False by auto
    have split: "mset (rows_to h \<beta> (concat (map (rotation_rows C layer) (concat (map terms_of old))))) =
        mset (rows_to h \<beta> (concat (map (rotation_rows C layer) (terms_of o0)))) + mset (rows_to h \<beta> (concat (map (rotation_rows C layer) (terms_of o1))))" for \<beta>
      by (simp add: old rows_to_def)
    have undo: "(rep XOR ?\<delta>) XOR ?\<delta> = rep" by (simp add: xor.assoc)
    have R0: "mset (rows_to h \<beta> (concat (map (rotation_rows C layer) (terms_of o0)))) =
        (if \<beta> = rep then mset (map (scaled_row C layer) (terms_of o0)) else {#}) + (if \<beta> = rep XOR ?\<delta> then mset (partner_rows C layer (terms_of o0)) else {#})" for \<beta>
      using R [of 0 \<beta> C] False unfolding P(2) old by simp
    have R1: "mset (rows_to h \<beta> (concat (map (rotation_rows C layer) (terms_of o1)))) =
        (if \<beta> = rep XOR ?\<delta> then mset (map (scaled_row C layer) (terms_of o1)) else {#}) + (if \<beta> = rep then mset (partner_rows C layer (terms_of o1)) else {#})" for \<beta>
      using R [of 1 \<beta> C] False unfolding P(2) old by (simp add: undo)
    show ?thesis
      using j unfolding bucket_rows_def append_Nil2 split R0 R1 using ne ne [symmetric] False by (auto simp: P(2) old member_rows_def)
  qed
qed

locale rotation_table =
  fixes W n :: nat and h :: gf2_hash and C :: "'c coefficient" and policy :: "('s, 'c) truncation_policy"
    and sp :: gf2_span_index and layer :: "'c rotation_layer" and known :: bool and spare :: "u32 \<Rightarrow> 'c pauli_term list"
  assumes table_laws: "coefficient_laws C" and table_floor: "floor_sound C policy" and table_span: "span_ok sp"
    and table_ok: "layer_ok W n C layer" and table_width: "128 * W < 2 ^ 32"
    and table_basis: "sp_basis sp = (if bucket_of h (rl_mask layer) = 0 then [] else [bucket_of h (rl_mask layer)])"
    and table_known: "known \<Longrightarrow> anticommuting W C layer"

sublocale rotation_table \<subseteq> rotation: coset_kernel W n "2 ^ 28" h C policy sp "rotation_rows C layer" "\<lambda>_. []"
  "rotation_fill W C layer policy known spare" "support_in W C policy known" "support_out W"
proof (rule coset_kernel.intro)
  show "coefficient_laws C" "span_ok sp" by (fact table_laws table_span)+
next
  fix t row assume t: "key_ok W n (fst t)" "row \<in> set (rotation_rows C layer t)"
  have g: "wf_key W (rl_mask layer)" "wf_key W (fst t)" using table_ok t(1) by (simp_all add: layer_ok_def Let_def key_ok_def)
  have "bucket_of h (fst t) XOR bucket_of h (fst row) = 0 \<or> bucket_of h (fst t) XOR bucket_of h (fst row) = bucket_of h (rl_mask layer)"
    using t(2) bucket_of_xor [OF g(2,1)] by (auto simp: rotation_rows_def scaled_row_def partner_row_def split: if_splits)
  then show "bucket_of h (fst t) XOR bucket_of h (fst row) \<in> delta_span (sp_basis sp)"
    using delta_span_zero delta_span_base [of "bucket_of h (rl_mask layer)" "sp_basis sp"] table_basis by (auto split: if_splits)
next
  fix rep old masks and w :: "'c sort_scratch"
  let ?betas = "coset_buckets sp rep"
  assume a: "pivot_clear sp rep" "coset_input W n h ?betas old"
    "\<forall>j < coset_size sp. support_in W C policy known (?betas ! j) (terms_of (old ! j)) masks"
    "\<forall>\<beta> \<in> set ?betas. length (bucket_rows h (rotation_rows C layer) (\<lambda>_. []) (concat (map terms_of old)) \<beta>) < 2 ^ 28"
  have g: "wf_key W (rl_mask layer)" using table_ok by (simp add: layer_ok_def Let_def)
  have len: "length old = coset_size sp" "length ?betas = coset_size sp" using a(2) by (simp_all add: coset_input_def coset_buckets_def)
  have size: "length old = 1 \<or> length old = 2" using len pair_coset(1) [OF table_span table_basis] by (auto split: if_splits)
  note rows = member_rows_of_coset [OF table_span table_basis a(2) g]
  have member: "member_ok W (old ! j)" if j: "j < length old" for j
  proof -
    have "length (bucket_rows h (rotation_rows C layer) (\<lambda>_. []) (concat (map terms_of old)) (?betas ! j)) < 2 ^ 28" using a(4) j len by simp
    then have "length (member_rows C layer old j) < 2 ^ 28" using mset_eq_length [OF rows [of j C]] j len by simp
    then have "length (terms_of (old ! j)) < 2 ^ 28" by (simp add: member_rows_def)
    moreover have "wf_columns (old ! j) \<and> run (terms_of (old ! j)) \<and> (\<forall>t \<in> set (terms_of (old ! j)). key_ok W n (fst t) \<and> bucket_of h (fst t) = ?betas ! j)"
      using a(2) j len unfolding coset_input_def by simp
    ultimately show ?thesis by (simp add: member_ok_def key_ok_def)
  qed
  have range: "\<forall>\<beta> \<in> set ?betas. unat \<beta> < length masks"
    using a(3) len unfolding support_in_def by (metis in_set_conv_nth)
  obtain outs sms where f: "fill_rotation_coset W C layer policy known (\<lambda>j. spare (?betas ! j)) old (map (\<lambda>\<beta>. masks ! unat \<beta>) ?betas) = Inr (outs, sms)"
      "length outs = length old" "length sms = length old"
      "\<forall>j < length old. wf_columns (outs ! j) \<and> is_reduced C policy (member_rows C layer old j) (terms_of (outs ! j)) \<and>
        wf_key W (sms ! j) \<and> (\<forall>t \<in> set (terms_of (outs ! j)). covers (sms ! j) (fst t))"
    using fill_rotation_coset_ok [OF table_laws table_floor table_ok table_width size, of "map (\<lambda>\<beta>. masks ! unat \<beta>) ?betas" known "\<lambda>j. spare (?betas ! j)"]
      member table_known a(3) len by (auto simp: support_in_def all_set_conv_all_nth)
  have d: "distinct (map unat ?betas)"
    using member_inj [OF table_span a(1)] by (auto simp: coset_buckets_def distinct_map comp_def inj_on_def word_unat_eq_iff)
  note put = put_slots_nth [OF d _ range, of sms]
  have lsms: "length sms = length ?betas" using f(3) len by simp
  have "rotation_fill W C layer policy known spare old ?betas masks w = Inr (outs, put_slots ?betas sms masks, w)"
    using f(1) range by (simp add: rotation_fill_def list_all_iff assert_that_def)
  moreover have "wf_columns (outs ! j) \<and>
      is_reduced C policy (bucket_rows h (rotation_rows C layer) (\<lambda>_. []) (concat (map terms_of old)) (?betas ! j)) (terms_of (outs ! j)) \<and>
      support_out W (?betas ! j) (terms_of (outs ! j)) (put_slots ?betas sms masks)" if j: "j < coset_size sp" for j
  proof -
    have "unat (?betas ! j) < length masks" using range j len by simp
    moreover have "is_reduced C policy (bucket_rows h (rotation_rows C layer) (\<lambda>_. []) (concat (map terms_of old)) (?betas ! j)) (terms_of (outs ! j))"
      using f(4) j len by (intro coefficient_laws.reduced_perm [OF table_laws _ rows [OF j]]) simp
    ultimately show ?thesis using f(4) j len put(1,2) lsms by (simp add: support_out_def)
  qed
  moreover have "support_in W C policy known \<beta> ts (put_slots ?betas sms masks) = support_in W C policy known \<beta> ts masks \<and>
      support_out W \<beta> ts (put_slots ?betas sms masks) = support_out W \<beta> ts masks" if "\<beta> \<notin> set ?betas" for \<beta> ts
  proof -
    have "unat \<beta> \<notin> unat ` set ?betas"
    proof
      assume "unat \<beta> \<in> unat ` set ?betas"
      then obtain \<gamma> where "\<gamma> \<in> set ?betas" "unat \<beta> = unat \<gamma>" by blast
      then show False using that by (simp add: word_unat_eq_iff [symmetric])
    qed
    from put(3) [OF lsms this] put(1) [OF lsms] show ?thesis by (simp add: support_in_def support_out_def)
  qed
  ultimately show "\<exists>out x' w'. rotation_fill W C layer policy known spare old ?betas masks w = Inr (out, x', w') \<and> length out = length old \<and>
      (\<forall>j < coset_size sp. wf_columns (out ! j) \<and>
        is_reduced C policy (bucket_rows h (rotation_rows C layer) (\<lambda>_. []) (concat (map terms_of old)) (?betas ! j)) (terms_of (out ! j)) \<and>
        support_out W (?betas ! j) (terms_of (out ! j)) x') \<and>
      (\<forall>\<beta> ts. \<beta> \<notin> set ?betas \<longrightarrow> support_in W C policy known \<beta> ts x' = support_in W C policy known \<beta> ts masks \<and>
        support_out W \<beta> ts x' = support_out W \<beta> ts masks)"
    using f(2) by (intro exI [of _ outs] exI [of _ "put_slots ?betas sms masks"] exI [of _ w]) blast
qed

end
