(* ===== verification/Layer_Sound.thy ===== *)
theory Layer_Sound
  imports Layer_Kernels Storage_Algebra
begin

unbundle bit_operations_syntax

text \<open>
  One layer of the bucketed engine is the channel: the sum a layer leaves holds, for every string, the total of what the
  channel emits from every term of the input, where it is nonzero and the policy keeps it; in whatever order and on whatever
  workers the pool ran the cosets, and along every path through the engine.
\<close>

section \<open>The coset loop on a sum\<close>

definition cut_sum :: "'c coefficient \<Rightarrow> boundary_cut option \<Rightarrow> 'c pauli_sum \<Rightarrow> 'c pauli_sum" where
  "cut_sum C bcut s = (case bcut of None \<Rightarrow> s | Some bc \<Rightarrow> cut_apply C bc s)"

lemma cut_sum_ok:
  assumes "sum_inv W s"
  shows "sum_inv W (cut_sum C bcut s)" "pm_hash (cut_sum C bcut s) = pm_hash s" "pm_num_qubits (cut_sum C bcut s) = pm_num_qubits s"
    "pm_buckets (cut_sum C bcut s) = map (\<lambda>b. cut_bucket C bcut b (pm_buckets s ! b)) [0..<length (pm_buckets s)]"
proof -
  note ok = update_per_bucket_ok [OF assms]
  show "sum_inv W (cut_sum C bcut s)" "pm_hash (cut_sum C bcut s) = pm_hash s" "pm_num_qubits (cut_sum C bcut s) = pm_num_qubits s"
    using assms ok by (auto simp: cut_sum_def cut_apply_def retain_per_bucket_def split: option.split)
  show "pm_buckets (cut_sum C bcut s) = map (\<lambda>b. cut_bucket C bcut b (pm_buckets s ! b)) [0..<length (pm_buckets s)]"
  proof (cases bcut)
    case None
    then show ?thesis using map_nth [of "pm_buckets s"] by (simp add: cut_sum_def cut_bucket_def)
  next
    case (Some bc)
    have "length (pm_buckets (cut_apply C bc s)) = length (pm_buckets s)"
      by (simp add: cut_apply_def retain_per_bucket_def update_per_bucket_def recount_def)
    then show ?thesis using Some by (intro nth_equalityI) (simp_all add: cut_sum_def cut_bucket_def apply_to_bucket_eq)
  qed
qed

text \<open>The sum a finished loop leaves.\<close>

lemma loop_result_sum:
  fixes slots :: "('c, 'x) slots" and C :: "'c coefficient"
  assumes res: "loop_result C policy window rows side_out (2 ^ gh_bits h) (len, totals, slots)"
    and h: "wf_hash W h" "hash_num_qubits h = n"
    and rows: "\<And>\<beta> row. row \<in> set (rows \<beta>) \<Longrightarrow> key_ok W n (fst row) \<and> bucket_of h (fst row) = \<beta>"
  defines "s' \<equiv> \<lparr>pm_buckets = sl_buckets slots, pm_hash = h, pm_num_qubits = n, pm_len = len\<rparr>"
  shows "sum_inv W s'" "sum_lookup s' k = kept_total C policy (rows (bucket_of h k)) k"
proof -
  note R = res [unfolded loop_result_def prod.case]
  have num: "hash_num_buckets h = 2 ^ gh_bits h" "gh_bits h < 32"
    using h(1) by (simp_all add: hash_num_buckets_def wf_hash_def INDEX_BITS_def push_bit_of_1)
  have red: "wf_columns (sl_buckets slots ! b)" "is_reduced C policy (rows (of_nat b)) (terms_of (sl_buckets slots ! b))"
    if "b < 2 ^ gh_bits h" for b using R that by simp_all
  have key: "key_ok W n (fst t) \<and> bucket_ix h (fst t) = b" if b: "b < 2 ^ gh_bits h" and t: "t \<in> set (terms_of (sl_buckets slots ! b))" for b t
  proof -
    have "fst t \<in> fst ` set (rows (of_nat b))" using red(2) [OF b] imageI [OF t, of fst] unfolding is_reduced_def by blast
    then obtain row where "fst t = fst row" "row \<in> set (rows (of_nat b))" by (rule imageE)
    then have "key_ok W n (fst t)" "bucket_of h (fst t) = of_nat b" using rows by simp_all
    moreover have "b < 2 ^ 32" using b power_strict_increasing [OF num(2), of "2 :: nat"] by simp
    ultimately show ?thesis by (simp add: bucket_ix_def unat_of_nat)
  qed
  have len: "length (sl_buckets slots) = 2 ^ gh_bits h" using R by simp
  have wf: "\<forall>cols \<in> set (sl_buckets slots). wf_columns cols" using red(1) len by (auto simp: all_set_conv_all_nth)
  have bucketed: "bucketed (bucket_ix h) (map terms_of (sl_buckets slots))"
    unfolding bucketed_def using red(2) key len by (auto simp: is_reduced_def)
  show inv: "sum_inv W s'"
    unfolding sum_inv_def
  proof (intro conjI)
    show "\<forall>t \<in> set (sum_iter s'). key_ok W (pm_num_qubits s') (fst t)"
      using key len by (auto simp: sum_iter_def s'_def in_set_conv_nth) (metis fst_conv)
    show "pm_len s' = length (sum_iter s')" using sum_len_eq [OF wf] R by (simp add: s'_def sum_iter_def)
  qed (use h wf bucketed num len in \<open>simp_all add: s'_def\<close>)
  have ix: "bucket_ix h k < 2 ^ gh_bits h" using bucket_of_bound [OF h(1), of k] num by (simp add: bucket_ix_def)
  then have "sum_lookup s' k = map_of (terms_of (sl_buckets slots ! bucket_ix h k)) k"
    using sum_lookup_bucket [OF inv, of k] by (simp add: s'_def)
  also have "\<dots> = kept_total C policy (rows (of_nat (bucket_ix h k))) k" using red(2) [OF ix] by (simp add: is_reduced_def)
  finally show "sum_lookup s' k = kept_total C policy (rows (bucket_of h k)) k" by (simp add: bucket_ix_def)
qed

definition scratch_ok :: "'c layer_scratch \<Rightarrow> bool" where
  "scratch_ok scratch \<longleftrightarrow> drained (ls_task scratch) \<and> (\<forall>wk \<in> set (ls_workers scratch). drained wk)"

text \<open>The counts a layer with an armed window leaves are those of the sum it leaves.\<close>

definition counts_ok :: "'c coefficient \<Rightarrow> octave_window option \<Rightarrow> 'c pauli_sum \<Rightarrow> layer_octaves \<Rightarrow> bool" where
  "counts_ok C window s oct \<longleftrightarrow> lo_counted oct = (window \<noteq> None) \<and>
     (\<forall>w. window = Some w \<longrightarrow> (pm_len s, lo_per_bucket oct, lo_totals oct) = window_rank C w s)"

lemma run_cosets_ok:
  fixes C :: "'c coefficient" and s :: "'c pauli_sum" and bcut
  assumes K: "coset_kernel W n cap h C policy sp emits incoming fill side_in side_out"
    and inv: "sum_inv W s" "pm_hash s = h" "pm_num_qubits s = n" and bits: "sp_bits sp = gh_bits h"
    and keys: "\<forall>t row. key_ok W n (fst t) \<longrightarrow> row \<in> set (emits t) \<longrightarrow> key_ok W n (fst row)"
      "\<forall>\<beta>. \<forall>row \<in> set (incoming \<beta>). key_ok W n (fst row) \<and> bucket_of h (fst row) = \<beta>"
  defines "rows \<equiv> bucket_rows h emits incoming (sum_iter (cut_sum C bcut s))"
  assumes bound: "\<forall>\<beta>. length (rows \<beta>) < cap"
    and side: "\<forall>b < length (pm_buckets s). side_in (of_nat b) (terms_of (pm_buckets (cut_sum C bcut s) ! b)) masks"
    and pool: "scratch_ok scratch" "pool_schedule sp (mc_threads M) (mc_schedule M)"
  shows "\<exists>s' masks' scratch'. run_cosets M C sp bcut window fill masks s scratch = Inr (s', masks', scratch') \<and>
    sum_inv W s' \<and> pm_hash s' = h \<and> pm_num_qubits s' = n \<and> (\<forall>k. sum_lookup s' k = kept_total C policy (rows (bucket_of h k)) k) \<and>
    (\<forall>b < length (pm_buckets s'). side_out (of_nat b) (terms_of (pm_buckets s' ! b)) masks') \<and> length (pm_buckets s') = length (pm_buckets s) \<and>
    scratch_ok scratch' \<and> counts_ok C window s' (ls_octaves scratch') \<and> ls_supports scratch' = ls_supports scratch \<and>
    lo_window (ls_octaves scratch') = lo_window (ls_octaves scratch) \<and> lo_pending (ls_octaves scratch') = lo_pending (ls_octaves scratch) \<and>
    lo_bound (ls_octaves scratch') = lo_bound (ls_octaves scratch)"
proof -
  note cut = cut_sum_ok [OF inv(1), of C bcut]
  let ?bs = "pm_buckets s" and ?sc = "cut_sum C bcut s"
  have hash: "wf_hash W h" "hash_num_qubits h = n" "length ?bs = 2 ^ sp_bits sp"
    using inv bits by (auto simp: sum_inv_def hash_num_buckets_def)
  have iter: "concat (map terms_of (map (\<lambda>b. cut_bucket C bcut b (?bs ! b)) [0..<length ?bs])) = sum_iter ?sc"
    unfolding cut(4) [symmetric] by (simp add: sum_iter_def)
  have len: "length (pm_buckets ?sc) = length ?bs" unfolding cut(4) by simp
  have bs: "\<forall>b < length ?bs. wf_columns (pm_buckets ?sc ! b) \<and> run (terms_of (pm_buckets ?sc ! b)) \<and>
      (\<forall>t \<in> set (terms_of (pm_buckets ?sc ! b)). key_ok W n (fst t) \<and> bucket_of h (fst t) = of_nat b)"
  proof (intro allI impI)
    fix b assume "b < length ?bs"
    with len have b: "b < length (pm_buckets ?sc)" by simp
    have "bucket_of h (fst t) = of_nat b" if "bucket_ix h (fst t) = b" for t :: "'c pauli_term" using that by (auto simp: bucket_ix_def)
    then show "wf_columns (pm_buckets ?sc ! b) \<and> run (terms_of (pm_buckets ?sc ! b)) \<and>
        (\<forall>t \<in> set (terms_of (pm_buckets ?sc ! b)). key_ok W n (fst t) \<and> bucket_of h (fst t) = of_nat b)"
      using sum_inv_bucket [OF cut(1) b] inv cut(2,3) by simp
  qed
  let ?pb = "if window \<noteq> None then vec_resize (lo_per_bucket (ls_octaves scratch)) (length ?bs) (replicate (WINDOW_OCTAVES + 2) 0)
    else lo_per_bucket (ls_octaves scratch)"
  have "window \<noteq> None \<longrightarrow> length ?pb = length ?bs" by (simp add: vec_resize_def min_def)
  from coset_kernel.coset_loop_ok [OF K hash(3) bs [unfolded cut(4)] _ _ this, of masks "ls_task scratch" "ls_workers scratch" "mc_threads M" "mc_schedule M" "mc_bmi2 M" sort_scratch_new]
  obtain len totals slots task' workers' where
    res: "coset_loop (mc_bmi2 M) C sp bcut window fill sort_scratch_new (mc_threads M) (mc_schedule M)
        \<lparr>sl_buckets = ?bs, sl_counts = ?pb, sl_shared = masks\<rparr> (ls_task scratch) (ls_workers scratch) = Inr (len, totals, slots, task', workers')"
      "loop_result C policy window rows side_out (length ?bs) (len, totals, slots)" "drained task'" "\<forall>wk \<in> set workers'. drained wk"
    using bound side pool unfolding iter rows_def scratch_ok_def cut(4) by blast
  let ?s' = "s\<lparr>pm_buckets := sl_buckets slots, pm_len := len\<rparr>"
  have s': "?s' = \<lparr>pm_buckets = sl_buckets slots, pm_hash = h, pm_num_qubits = n, pm_len = len\<rparr>" using inv(2,3) by (cases s) simp
  have rowkeys: "key_ok W n (fst row) \<and> bucket_of h (fst row) = \<beta>" if hyp: "row \<in> set (rows \<beta>)" for \<beta> row
  proof (cases "row \<in> set (incoming \<beta>)")
    case False
    then obtain t where "t \<in> set (sum_iter ?sc)" "row \<in> set (emits t)" "bucket_of h (fst row) = \<beta>"
      using hyp by (auto simp: rows_def bucket_rows_def rows_to_def)
    moreover from this have "key_ok W n (fst t)" using cut(1,3) inv(3) by (simp add: sum_inv_def)
    ultimately show ?thesis using keys(1) by blast
  qed (use keys(2) in blast)
  note sum = loop_result_sum [OF res(2) [unfolded hash(3) bits] hash(1,2) rowkeys, folded s']
  note R = res(2) [unfolded loop_result_def prod.case]
  let ?oct = "(ls_octaves scratch)\<lparr>lo_per_bucket := sl_counts slots, lo_totals := totals, lo_counted := window \<noteq> None\<rparr>"
  let ?scratch = "scratch\<lparr>ls_task := task', ls_workers := workers', ls_octaves := ?oct\<rparr>"
  have "run_cosets M C sp bcut window fill masks s scratch = Inr (?s', sl_shared slots, ?scratch)"
    unfolding run_cosets_def Let_def res(1) by simp
  moreover have "counts_ok C window ?s' ?oct" using R by (auto simp: counts_ok_def window_rank_def bucket_octaves_def)
  moreover have "scratch_ok ?scratch" using res(3,4) by (simp add: scratch_ok_def)
  moreover have "\<forall>b < length (pm_buckets ?s'). side_out (of_nat b) (terms_of (pm_buckets ?s' ! b)) (sl_shared slots)" "length (pm_buckets ?s') = length ?bs"
    using R by simp_all
  ultimately show ?thesis
    using sum inv(2,3) by (intro exI [of _ ?s'] exI [of _ "sl_shared slots"] exI [of _ ?scratch] conjI allI) simp_all
qed

end
