(* ===== verification/Rotation_Table.thy ===== *)
theory Rotation_Table
  imports Layer_Kernels
begin

unbundle bit_operations_syntax

text \<open>
  The table of a prepared channel as the rotation kernel reads it: \<open>RotationLayer::of\<close> recognises the shape without ever
  refusing a mask, the span of its two bucket deltas is a bucket or a pair, and the rows the kernel writes have the totals
  of the rows the channel emits.
\<close>

section \<open>Masks on the support\<close>

definition masks_ok :: "nat \<Rightarrow> 'c local_ptm \<Rightarrow> bool" where
  "masks_ok W p \<longleftrightarrow> (\<forall>d \<in> set (lp_deltas p). unat (de_local_delta d) < 4 ^ lp_num p \<and>
     is_overwritten (lp_support p) (unat (de_local_delta d)) (zero_key W) (de_mask d))"

lemma narrow_mask:
  assumes "lp_ok W p" "wf_key W g" "agree_off (lp_support p) (zero_key W) g"
  shows "length (set_ranks W g) \<le> MAX_LEVELS"
proof -
  let ?f = "\<lambda>\<rho>. (\<rho> < 64 * W, 64 * (\<rho> div 64 mod W) + (63 - \<rho> mod 64))"
  have word: "\<rho> div 64 mod W = (if \<rho> < 64 * W then \<rho> div 64 else \<rho> div 64 - W) \<and> \<rho> div 64 mod W < W" if "\<rho> < 128 * W" for \<rho>
  proof -
    have "\<rho> div 64 < 2 * W" using that by (simp add: less_mult_imp_div_less)
    moreover have "\<rho> < 64 * W \<longleftrightarrow> \<rho> div 64 < W" by (simp add: div_less_iff_less_mult mult.commute)
    ultimately show ?thesis by (auto simp: mod_if)
  qed
  have q: "(64 * a + (63 - r mod 64)) div 64 = a" "(64 * a + (63 - r mod 64)) mod 64 = 63 - r mod 64" for a r :: nat
  proof -
    have "x < 64 \<Longrightarrow> (64 * a + x) div 64 = a \<and> (64 * a + x) mod 64 = x" for x :: nat by simp
    moreover have "63 - r mod 64 < 64" by simp
    ultimately show "(64 * a + (63 - r mod 64)) div 64 = a" "(64 * a + (63 - r mod 64)) mod 64 = 63 - r mod 64" by blast+
  qed
  have "inj_on ?f {\<rho>. \<rho> < 128 * W}"
  proof (rule inj_onI)
    fix \<rho> \<sigma> assume r: "\<rho> \<in> {\<rho>. \<rho> < 128 * W}" "\<sigma> \<in> {\<rho>. \<rho> < 128 * W}" and eq: "?f \<rho> = ?f \<sigma>"
    have "\<rho> div 64 mod W = \<sigma> div 64 mod W" "63 - \<rho> mod 64 = 63 - \<sigma> mod 64" "\<rho> < 64 * W \<longleftrightarrow> \<sigma> < 64 * W"
      using eq q [of "\<rho> div 64 mod W" \<rho>] q [of "\<sigma> div 64 mod W" \<sigma>] by auto
    moreover have "\<rho> mod 64 = \<sigma> mod 64"
      using \<open>63 - \<rho> mod 64 = 63 - \<sigma> mod 64\<close> mod_less_divisor [of 64 \<rho>] mod_less_divisor [of 64 \<sigma>] by linarith
    moreover have "\<rho> div 64 = \<sigma> div 64"
    proof -
      have "W \<le> \<rho> div 64 \<and> W \<le> \<sigma> div 64" if "\<not> \<rho> < 64 * W" "\<not> \<sigma> < 64 * W"
        using that by (simp add: less_eq_div_iff_mult_less_eq mult.commute)
      then show ?thesis using word [of \<rho>] word [of \<sigma>] r calculation
        by (cases "\<sigma> < 64 * W") (simp_all split: if_splits, linarith)
    qed
    ultimately show "\<rho> = \<sigma>" by (metis div_mod_decomp)
  qed
  then have inj: "inj_on ?f (set (set_ranks W g))" by (rule inj_on_subset) (auto simp: set_ranks_def)
  have "?f ` set (set_ranks W g) \<subseteq> UNIV \<times> set (lp_support p)"
  proof (rule image_subsetI)
    fix \<rho> assume "\<rho> \<in> set (set_ranks W g)"
    then have r: "\<rho> < 128 * W" "bit (key_words g ! (\<rho> div 64)) (63 - \<rho> mod 64)" by (auto simp: set_ranks_def rank_bit_def)
    let ?q = "64 * (\<rho> div 64 mod W) + (63 - \<rho> mod 64)"
    have "key_words g ! (\<rho> div 64) = (if \<rho> < 64 * W then fst g else snd g) ! (\<rho> div 64 mod W)"
      using word [OF r(1)] assms(2) by (auto simp: key_words_def nth_append wf_key_def div_less_iff_less_mult mult.commute)
    then have "qbit (if \<rho> < 64 * W then fst g else snd g) ?q"
      using r(2) word [OF r(1), THEN conjunct2] assms(2) unfolding qbit_def q by (simp add: wf_key_def div_less_iff_less_mult mult.commute)
    then have "?q \<in> set (lp_support p)" using assms(3) by (auto simp: agree_off_def zero_key_def split: if_splits)
    then show "?f \<rho> \<in> UNIV \<times> set (lp_support p)" by simp
  qed
  then have "card (?f ` set (set_ranks W g)) \<le> card ((UNIV :: bool set) \<times> set (lp_support p))" by (intro card_mono) simp_all
  moreover have "card (set (lp_support p)) \<le> 2"
    using card_length [of "lp_support p"] lp_ok_dim(1) [OF assms(1)] assms(1) by (simp add: lp_ok_def MAX_LOCAL_SUPPORT_def)
  moreover have "card (?f ` set (set_ranks W g)) = length (set_ranks W g)"
    using card_image [OF inj] distinct_card [of "set_ranks W g"] by (simp add: set_ranks_def)
  ultimately show ?thesis by (simp add: MAX_LEVELS_def MAX_LOCAL_SUPPORT_def card_cartesian_product)
qed

lemma shape_loop_Some:
  assumes "shape_loop C a0s a1s delta ss c = Some c'" "s \<in> set ss"
  shows "if c_eq C (a1s ! s) (c_zero C) then c_eq C (a0s ! s) (c_one C) else \<not> c_eq C (a1s ! (s XOR delta)) (c_zero C)"
  using assms by (induction ss arbitrary: c) (auto simp: Let_def split: if_splits)

lemma rotation_layer_of_ok:
  fixes C :: "'c coefficient"
  assumes "prepared_ok W n h (Local p)" "masks_ok W p"
  shows "\<exists>r. rotation_layer_of W C p = Inr r"
    and "rotation_layer_of W C p = Inr (Some layer) \<Longrightarrow> layer_ok W n C layer \<and> rl_ptm layer = p \<and> has_identity p \<and>
      (\<exists>idn gen. lp_deltas p = [idn, gen] \<and> rl_identity layer = de_amplitude idn \<and> rl_partner layer = de_amplitude gen \<and>
        rl_mask layer = de_mask gen \<and> de_mask idn = zero_key W)"
proof -
  have p: "lp_ok W p" "buckets_ok W h p" "\<forall>d \<in> set (lp_deltas p). key_ok W n (de_mask d)" "has_identity p \<longrightarrow> de_mask (lp_deltas p ! 0) = zero_key W"
    using assms(1) by (simp_all add: prepared_ok_def)
  note dim = lp_ok_dim(2) [OF p(1)]
  have order: "\<exists>order. partner_order_new W (de_mask gen) = Inr order \<and> order_levels order = map of_nat (set_ranks W (de_mask gen))"
    if "gen \<in> set (lp_deltas p)" for gen
    using that assms(2) p(2) narrow_mask [OF p(1), of "de_mask gen"]
    by (intro partner_order_new_ok) (auto simp: masks_ok_def is_overwritten_def buckets_ok_def)
  show "\<exists>r. rotation_layer_of W C p = Inr r"
  proof (cases "\<exists>idn gen. lp_deltas p = [idn, gen]")
    case True
    then obtain idn gen where d: "lp_deltas p = [idn, gen]" by blast
    then show ?thesis using order [of gen] by (auto simp: rotation_layer_of_def Let_def split: option.split)
  qed (auto simp: rotation_layer_of_def split: list.split)
  assume of_some: "rotation_layer_of W C p = Inr (Some layer)"
  then obtain idn gen where d: "lp_deltas p = [idn, gen]" by (auto simp: rotation_layer_of_def split: list.splits)
  obtain order where o: "partner_order_new W (de_mask gen) = Inr order" "order_levels order = map of_nat (set_ranks W (de_mask gen))"
    using order [of gen] d by auto
  have gen: "unat (de_local_delta gen) = local_pattern (lp_support p) (de_mask gen)" "wf_key W (de_mask gen)" "key_ok W n (de_mask gen)"
    using assms(2) p(2,3) d by (auto simp: masks_ok_def is_overwritten_def buckets_ok_def)
  have idn: "de_local_delta idn = 0" using of_some d by (auto simp: rotation_layer_of_def split: if_splits)
  then obtain cl where cl: "shape_loop C (de_amplitude idn) (de_amplitude gen) (unat (de_local_delta gen)) [0..<4 ^ lp_num p] True = Some cl"
    using of_some d dim by (auto simp: rotation_layer_of_def Let_def split: option.splits)
  have layer: "layer = \<lparr>rl_ptm = p, rl_mask = de_mask gen, rl_identity = de_amplitude idn, rl_partner = de_amplitude gen, rl_clifford = cl, rl_order = order,
      rl_probe = support_probe p, rl_active = active_patterns C (de_amplitude gen) (4 ^ lp_num p - 1), rl_support_mask = 4 ^ lp_num p - 1,
      rl_bucket_delta = de_bucket_delta gen\<rparr>"
    using of_some d idn cl o(1) unfolding rotation_layer_of_def Let_def dim by simp
  have has: "has_identity p" using d idn by (simp add: has_identity_def)
  have "layer_ok W n C layer"
    unfolding layer_ok_def Let_def layer using p(1) gen o(2) shape_loop_Some [OF cl [unfolded gen(1)]] by simp
  then show "layer_ok W n C layer \<and> rl_ptm layer = p \<and> has_identity p \<and>
      (\<exists>idn gen. lp_deltas p = [idn, gen] \<and> rl_identity layer = de_amplitude idn \<and> rl_partner layer = de_amplitude gen \<and>
        rl_mask layer = de_mask gen \<and> de_mask idn = zero_key W)"
    using d p(4) has by (simp add: layer)
qed

section \<open>The span of two deltas\<close>

lemma rotation_span:
  assumes "prepared_ok W n h (Local p)" "lp_deltas p = [idn, gen]" "de_mask idn = zero_key W"
    "span_new (local_bucket_deltas p) bits = Inr sp"
  shows "sp_basis sp = (if bucket_of h (de_mask gen) = 0 then [] else [bucket_of h (de_mask gen)])"
proof -
  have b: "de_bucket_delta idn = 0" "de_bucket_delta gen = bucket_of h (de_mask gen)"
    using assms(1-3) bucket.index_zero [of h W, folded zero_key_def] by (simp_all add: prepared_ok_def buckets_ok_def)
  then have "local_bucket_deltas p = (if bucket_of h (de_mask gen) = 0 then [0] else [0, bucket_of h (de_mask gen)])"
    by (auto simp: local_bucket_deltas_def assms(2))
  then show ?thesis
    using assms(4) by (auto simp: span_new_spec span_insert_def reduce_by_def insert_pivot_def Let_def split: if_splits prod.splits)
qed

section \<open>The rows the kernel writes\<close>

text \<open>
  A table counts as Clifford when every reached pattern keeps a share of its own string no larger than the rounding unit of
  what it sends to the partner; the kernel then drops that share. It is exact where the share is zero.
\<close>

definition exact_clifford :: "'c coefficient \<Rightarrow> 'c rotation_layer \<Rightarrow> bool" where
  "exact_clifford C layer \<longleftrightarrow> (rl_clifford layer \<longrightarrow>
     (\<forall>s < 4 ^ lp_num (rl_ptm layer). c_eq C (rl_partner layer ! s) (c_zero C) \<or> c_eq C (rl_identity layer ! s) (c_zero C)))"

context coefficient_laws
begin

lemma rotation_row_total:
  assumes "layer_ok W n C layer" "exact_clifford C layer" "rl_ptm layer = p" "lp_deltas p = [idn, gen]"
    "rl_identity layer = de_amplitude idn" "rl_partner layer = de_amplitude gen" "rl_mask layer = de_mask gen" "de_mask idn = zero_key W"
    "wf_key W (fst t)"
  shows "(\<Sum>(l, c)\<leftarrow>rotation_rows C layer t. if l = k then to_complex64 C c else 0) =
    (\<Sum>(l, c)\<leftarrow>emits_of C (Local p) t. if l = k then to_complex64 C c else 0)"
proof -
  obtain x z c where t: "t = ((x, z), c)" by (cases t) auto
  have lp: "lp_ok W p" using assms(1,3) by (simp add: layer_ok_def Let_def)
  have pat: "support_bits p x z = local_pattern (lp_support p) (x, z)" using assms(9) t support_bits_eq [OF lp] by simp
  have bound: "local_pattern (lp_support p) (x, z) < 4 ^ lp_num p"
    using local_pattern_bound [of "lp_support p" "(x, z)"] lp_ok_dim(1) [OF lp] by simp
  have zero: "xor_words x (de_mask_x idn) = x" "xor_words z (de_mask_z idn) = z"
    using assms(8,9) xor_key_zero [of W "(x, z)"] t by (auto simp: de_mask_def xor_key_def zero_key_def)
  have one: "c_mul C c (c_one C) = c" "c_mul C c (c_zero C) = c_zero C" by (rule embed_inj; simp add: embed)+
  have inactive: "de_amplitude idn ! local_pattern (lp_support p) (x, z) = c_one C" if "\<not> reaches C layer (x, z)"
    using that assms(1,3,5,6) bound by (auto simp: layer_ok_def Let_def reaches_def eq_iff split: if_splits)
  have cliff: "de_amplitude idn ! local_pattern (lp_support p) (x, z) = c_zero C" if "reaches C layer (x, z)" "rl_clifford layer"
    using that assms(2,3,5,6) bound by (auto simp: exact_clifford_def reaches_def eq_iff)
  have reach: "reaches C layer (x, z) \<longleftrightarrow> de_amplitude gen ! local_pattern (lp_support p) (x, z) \<noteq> c_zero C"
    using assms(3,6) by (simp add: reaches_def eq_iff)
  have distinct: "c_one C \<noteq> c_zero C" using embed_zero embed_one by (metis zero_neq_one)
  note rows = t rotation_rows_def emits_of_def prepared_emit_def emit_all_def emit_def scaled_row_def partner_row_def amplitude_at_def
    map_filter_def Let_def eq_iff one embed_zero xor_key_def de_mask_def assms(3-7) zero pat
  show ?thesis
  proof (cases "reaches C layer (x, z)")
    case False
    then show ?thesis using inactive reach distinct by (simp add: rows)
  next
    case True
    then show ?thesis using cliff reach by (cases "rl_clifford layer") (simp_all add: rows)
  qed
qed

lemma rotation_rows_total:
  assumes "layer_ok W n C layer" "exact_clifford C layer" "rl_ptm layer = p" "lp_deltas p = [idn, gen]"
    "rl_identity layer = de_amplitude idn" "rl_partner layer = de_amplitude gen" "rl_mask layer = de_mask gen" "de_mask idn = zero_key W"
    "\<forall>t \<in> set ts. wf_key W (fst t)"
  shows "key_total C (concat (map (rotation_rows C layer) ts)) k = key_total C (emitted C (Local p) ts) k"
  unfolding emitted_emits [symmetric]
  by (rule embed_inj, use assms(9) in \<open>induction ts\<close>) (simp_all add: embed_key_total rotation_row_total [OF assms(1-8)])

end

end
