(* ===== verification/Layer_Channel.thy ===== *)
theory Layer_Channel
  imports Layer_Sound Rotation_Table
begin

unbundle bit_operations_syntax

text \<open>
  The layer along each of its paths: a key-preserving table rescaled in place, a table of a rotation's shape on the rotation
  kernel, everything else through the gather, sort and merge of a coset. Whichever the engine takes, the sum it leaves is the
  channel's.
\<close>

section \<open>The deltas of a prepared channel\<close>

lemma prepared_deltas_set: "set (prepared_bucket_deltas pr) = fst ` set (streams C pr)"
  by (cases pr) (auto simp: prepared_bucket_deltas_def local_bucket_deltas_def streams_def image_image)

lemma prepared_span:
  fixes C :: "'c coefficient"
  assumes "prepared_ok W n h pr" "wf_hash W h"
  shows "\<exists>sp. span_new (prepared_bucket_deltas pr) (gh_bits h) = Inr sp \<and> span_ok sp \<and> sp_bits sp = gh_bits h \<and>
    fst ` set (streams C pr) \<subseteq> delta_span (sp_basis sp)"
proof -
  have bits: "gh_bits h < 32" "hash_num_buckets h = 2 ^ gh_bits h"
    using assms(2) by (simp_all add: wf_hash_def INDEX_BITS_def hash_num_buckets_def push_bit_of_1)
  have "in_space (gh_bits h) \<delta>" if hyp: "\<delta> \<in> set (prepared_bucket_deltas pr)" for \<delta>
  proof -
    obtain f where "(\<delta>, f) \<in> set (streams C pr)" using hyp unfolding prepared_deltas_set [of pr C] by force
    then obtain m where "\<delta> = bucket_of h m" using streams_mask [OF assms(1)] by blast
    then show ?thesis using bucket_of_bound [OF assms(2), of m] bits by (simp add: in_space_iff_less)
  qed
  then obtain sp where sp: "span_new (prepared_bucket_deltas pr) (gh_bits h) = Inr sp"
    using bits(1) by (cases "fold span_insert (prepared_bucket_deltas pr) ([], 0)") (auto simp: span_new_spec INDEX_BITS_def)
  have "delta_span (sp_basis sp) = delta_span (prepared_bucket_deltas pr)" by (rule span_new_ok(3) [OF sp])
  then have "fst ` set (streams C pr) \<subseteq> delta_span (sp_basis sp)"
    using delta_span_base [of _ "prepared_bucket_deltas pr"] prepared_deltas_set [of pr C] by auto
  then show ?thesis using sp span_new_ok(1,2) [OF sp] by blast
qed

context coefficient_laws
begin

lemma key_total_rows_to: "key_total C (rows_to h (bucket_of h k) rows) k = key_total C rows k"
proof (rule key_total_eqI)
  show "(\<Sum>(l, c)\<leftarrow>rows_to h (bucket_of h k) rows. if l = k then to_complex64 C c else 0) = to_complex64 C (key_total C rows k)"
    unfolding embed_key_total by (induction rows) (auto simp: rows_to_def)
qed

lemma key_total_append_cong:
  "key_total C ts k = key_total C ts' k \<Longrightarrow> key_total C (ts @ us) k = key_total C (ts' @ us) k"
  using embed_key_total [of ts k] embed_key_total [of ts' k] by (intro key_total_eqI) (simp add: embed_key_total [of "ts' @ us"])

lemma kept_total_rows_to: "kept_total C policy (rows_to h (bucket_of h k) rows @ us) k = kept_total C policy (rows @ us) k"
  by (intro kept_total_cong key_total_append_cong key_total_rows_to)

end

section \<open>A layer's contract\<close>

text \<open>The supports a layer leaves for the next rotation: they cover the rows of their buckets, and the policy keeps the rows.\<close>

definition supports_ok :: "nat \<Rightarrow> 'c coefficient \<Rightarrow> ('s, 'c) truncation_policy \<Rightarrow> 'c pauli_sum \<Rightarrow> bucket_supports \<Rightarrow> bool" where
  "supports_ok W C policy s supports \<longleftrightarrow>
     (bs_known supports \<and> length (bs_masks supports) = length (pm_buckets s) \<longrightarrow>
       (\<forall>b < length (pm_buckets s). known_ok W C policy (terms_of (pm_buckets s ! b)) (bs_masks supports ! b)))"

text \<open>What a table of a rotation's shape has to satisfy for the rotation kernel to be exact.\<close>

definition rotation_exact :: "nat \<Rightarrow> 'c coefficient \<Rightarrow> 'c prepared \<Rightarrow> bool \<Rightarrow> bool" where
  "rotation_exact W C pr known \<longleftrightarrow>
     (case pr of
        Local p \<Rightarrow> masks_ok W p \<and> (\<forall>layer. rotation_layer_of W C p = Inr (Some layer) \<longrightarrow>
          exact_clifford C layer \<and> (known \<longrightarrow> anticommuting W C layer))
      | Rotation _ \<Rightarrow> True)"

definition layer_done ::
    "nat \<Rightarrow> 'c coefficient \<Rightarrow> ('s, 'c) truncation_policy \<Rightarrow> 'c pauli_term list \<Rightarrow> (u32 \<Rightarrow> 'c pauli_term list) \<Rightarrow>
     octave_window option \<Rightarrow> 'c pauli_sum \<Rightarrow> 'c pauli_sum \<times> 'c layer_scratch \<Rightarrow> bool" where
  "layer_done W C policy rows incoming window s = (\<lambda>(s', scratch').
     sum_inv W s' \<and> pm_hash s' = pm_hash s \<and> pm_num_qubits s' = pm_num_qubits s \<and>
     (\<forall>k. sum_lookup s' k = kept_total C policy (rows @ incoming (bucket_of (pm_hash s) k)) k) \<and>
     supports_ok W C policy s' (ls_supports scratch') \<and> scratch_ok scratch' \<and>
     (lo_counted (ls_octaves scratch') \<longrightarrow> counts_ok C window s' (ls_octaves scratch')) \<and> lo_pending (ls_octaves scratch') = None)"

section \<open>Rescaling in place\<close>

context coefficient_laws
begin

lemma rescaled_bucket:
  assumes "run ts" "\<And>u k c. f u k c = (case g k c of None \<Rightarrow> (None, u) | Some d \<Rightarrow> (Some d, u))"
  shows "map_of (fst (update_terms f u ts)) k = (case map_of ts k of None \<Rightarrow> None | Some c \<Rightarrow> g k c)"
  using assms(1)
proof (induction ts arbitrary: u)
  case (Cons t ts)
  obtain l c where t: "t = (l, c)" by (cases t)
  have "map_of ts l = None" using Cons.prems by (intro run_lookup_None) (simp add: t run_Cons)
  then show ?case using Cons by (auto simp: t run_Cons update_terms_Cons assms(2) split: option.split)
qed simp

lemma preserving_row:
  assumes "lp_deltas p = [d]" "de_mask d = zero_key W" "wf_key W (fst t)"
  shows "(\<Sum>(l, c)\<leftarrow>emits_of C (Local p) t. if l = k then to_complex64 C c else 0) =
    (if fst t = k then to_complex64 C (snd t) * to_complex64 C (de_amplitude d ! support_bits p (fst k) (snd k)) else 0)"
proof -
  obtain x z c where t: "t = ((x, z), c)" by (cases t) auto
  have zero: "xor_words x (de_mask_x d) = x" "xor_words z (de_mask_z d) = z"
    using assms(2,3) xor_key_zero [of W "(x, z)"] t by (auto simp: de_mask_def xor_key_def zero_key_def)
  show ?thesis
    using zero by (auto simp: t emits_of_def prepared_emit_def emit_all_def assms(1) emit_def map_filter_def Let_def eq_iff embed)
qed

lemma preserving_total:
  assumes "lp_deltas p = [d]" "de_mask d = zero_key W" "\<forall>t \<in> set ts. wf_key W (fst t)" "distinct (map fst ts)"
  shows "key_total C (emitted C (Local p) ts) k =
    (case map_of ts k of None \<Rightarrow> c_zero C | Some c \<Rightarrow> c_mul C c (de_amplitude d ! support_bits p (fst k) (snd k)))"
  unfolding emitted_emits [symmetric]
proof (rule key_total_eqI, use assms(3,4) in \<open>induction ts\<close>)
  case (Cons t ts)
  have "fst t = k \<Longrightarrow> map_of ts k = None" using Cons.prems by (auto simp: map_of_eq_None_iff)
  then show ?case
    using Cons preserving_row [OF assms(1,2), of t k] by (cases t) (auto simp: embed split: option.splits)
qed (simp add: embed)

lemma rescale_ok:
  fixes policy :: "('s, 'c) truncation_policy"
  assumes "prepared_ok W n h (Local p)" "is_key_preserving p" "sum_inv W s" "pm_hash s = h" "pm_num_qubits s = n"
  defines "s' \<equiv> rescale_in_place C p policy s"
  shows "sum_inv W s'" "pm_hash s' = h" "pm_num_qubits s' = n" "sum_lookup s' k = kept_total C policy (emitted C (Local p) (sum_iter s)) k"
proof -
  let ?d = "lp_deltas p ! 0"
  let ?g = "\<lambda>k c. let coeff = c_mul C c (de_amplitude ?d ! support_bits p (fst k) (snd k))
    in if \<not> c_eq C coeff (c_zero C) \<and> keep_term policy (fst k) (snd k) coeff then Some coeff else None"
  let ?uf = "\<lambda>_ :: nat. (\<lambda>u (x, z) c. let coeff = c_mul C c (de_amplitude ?d ! support_bits p x z)
    in (if \<not> c_eq C coeff (c_zero C) \<and> keep_term policy x z coeff then Some coeff else None, u), ())"
  have s': "s' = update_per_bucket ?uf s" by (simp add: s'_def rescale_in_place_def Let_def)
  note ok = update_per_bucket_ok [OF assms(3), of ?uf, folded s']
  show inv: "sum_inv W s'" and h: "pm_hash s' = h" and "pm_num_qubits s' = n" using ok(1-3) assms(4,5) by simp_all
  have d: "lp_deltas p = [?d]" "de_mask ?d = zero_key W"
    using assms(1,2) by (auto simp: is_key_preserving_def prepared_ok_def has_identity_def length_Suc_conv)
  let ?ix = "bucket_ix h k"
  have ix: "?ix < length (pm_buckets s)" using bucket_ix_less [OF assms(3), of k] assms(4) by simp
  have len: "length (pm_buckets s') = length (pm_buckets s)" using arg_cong [OF ok(4), of length] by simp
  have "sum_lookup s' k = map_of (terms_of (pm_buckets s' ! ?ix)) k" using sum_lookup_bucket [OF inv] h by simp
  also have "terms_of (pm_buckets s' ! ?ix) = fst (update_terms (fst (?uf ?ix)) () (terms_of (pm_buckets s ! ?ix)))"
    using arg_cong [OF ok(4), of "\<lambda>bs. bs ! ?ix"] ix len by simp
  also have "map_of \<dots> k = (case map_of (terms_of (pm_buckets s ! ?ix)) k of None \<Rightarrow> None | Some c \<Rightarrow> ?g k c)"
    by (rule rescaled_bucket [OF sum_inv_bucket(2) [OF assms(3) ix]]) (auto simp: Let_def)
  also have "\<dots> = (case sum_lookup s k of None \<Rightarrow> None | Some c \<Rightarrow> ?g k c)"
    using sum_lookup_bucket [OF assms(3)] assms(4) by simp
  also have "\<dots> = kept_total C policy (emitted C (Local p) (sum_iter s)) k"
    using preserving_total [OF d _ sum_lookup_iff(2) [OF assms(3)], of k] assms(3)
    by (auto simp: sum_inv_def key_ok_def sum_lookup_def kept_total_def Let_def eq_iff split: option.split)
  finally show "sum_lookup s' k = kept_total C policy (emitted C (Local p) (sum_iter s)) k" .
qed

end

section \<open>The coset paths\<close>

definition layer_fits :: "'c coefficient \<Rightarrow> 'c prepared \<Rightarrow> 'c extra_rows \<Rightarrow> 'c pauli_term list \<Rightarrow> bool" where
  "layer_fits C pr extra ts \<longleftrightarrow> length ts < 2 ^ 27 \<and> (\<forall>\<beta>. length (emitted C pr ts) + length (received extra \<beta>) < 2 ^ 32)"

lemma rotation_rows_length: "length (rows_to h \<beta> (concat (map (rotation_rows C layer) ts))) \<le> 2 * length ts"
proof -
  have "length (concat (map (rotation_rows C layer) ts)) \<le> 2 * length ts" by (induction ts) (simp_all add: rotation_rows_def)
  then show ?thesis unfolding rows_to_def by (meson le_trans length_filter_le)
qed

text \<open>The rows a layer leaves are rows its policy keeps.\<close>

lemma kept_rows:
  assumes "sum_inv W s" "\<forall>k. sum_lookup s k = kept_total C policy (rows k) k" "b < length (pm_buckets s)"
    "t \<in> set (terms_of (pm_buckets s ! b))"
  shows "kept_sum C policy (fst t) (snd t)"
proof -
  have "t \<in> set (sum_iter s)" using assms(3,4) by (auto simp: sum_iter_def)
  then have "sum_lookup s (fst t) = Some (snd t)" using sum_lookup_iff(1) [OF assms(1), of "fst t" "snd t"] by simp
  then show ?thesis using assms(2) by (auto simp: kept_total_def kept_sum_def Let_def split: if_splits)
qed

text \<open>The two kernels under the contract of the coset loop.\<close>

context prepared_layer
begin

lemma general_kernel:
  "coset_kernel W n (2 ^ 32) h C policy sp (emits_of C pr) (received extra)
     (general_fill W C (delta_plan_new C bmi2 pr sp knobs) policy extra) (\<lambda>_ _ _. True) (\<lambda>_ _ _. True)"
  by (rule general.coset_kernel_axioms)

end

context rotation_table
begin

lemma rotation_kernel:
  "coset_kernel W n (2 ^ 28) h C policy sp (rotation_rows C layer) (\<lambda>_. [])
     (rotation_fill W C layer policy known spare) (support_in W C policy known) (support_out W)"
  by (rule rotation.coset_kernel_axioms)

end

lemma general_arm:
  fixes C :: "'c coefficient" and s :: "'c pauli_sum" and policy :: "('st, 'c) truncation_policy"
  assumes C: "coefficient_laws C" and pr: "prepared_ok W n h pr" and inv: "sum_inv W s" "pm_hash s = h" "pm_num_qubits s = n"
    and sp: "span_ok sp" "sp_bits sp = gh_bits h" "fst ` set (streams C pr) \<subseteq> delta_span (sp_basis sp)"
    and extra: "received_ok W n h extra" and fits: "layer_fits C pr extra (sum_iter (cut_sum C bcut s))"
    and pool: "scratch_ok scratch" "pool_schedule sp (mc_threads M) (mc_schedule M)" "lo_pending (ls_octaves scratch) = None"
      "\<not> bs_known (ls_supports scratch)"
  shows "\<exists>s' masks' scratch'. run_cosets M C sp bcut window (general_fill W C (delta_plan_new C bmi2 pr sp knobs) policy extra) masks s scratch =
      Inr (s', masks', scratch') \<and> layer_done W C policy (emitted C pr (sum_iter (cut_sum C bcut s))) (received extra) window s (s', scratch')"
proof -
  have P: "prepared_layer W n h C sp pr extra" by (rule prepared_layer.intro) (fact C pr sp(1) sp(3) extra)+
  have keys: "\<forall>t row. key_ok W n (fst t) \<longrightarrow> row \<in> set (emits_of C pr t) \<longrightarrow> key_ok W n (fst row)"
    using emitted_keys(1) [OF pr, of "[_]" _ C] by (simp add: emitted_emits [symmetric])
  let ?rows = "emitted C pr (sum_iter (cut_sum C bcut s))"
  have rows: "bucket_rows h (emits_of C pr) (received extra) (sum_iter (cut_sum C bcut s)) \<beta> = rows_to h \<beta> ?rows @ received extra \<beta>" for \<beta>
    by (simp add: bucket_rows_def emitted_emits)
  have bound: "\<forall>\<beta>. length (rows_to h \<beta> ?rows @ received extra \<beta>) < 2 ^ 32"
  proof
    fix \<beta>
    have "length (rows_to h \<beta> ?rows) \<le> length ?rows" by (simp add: rows_to_def)
    then show "length (rows_to h \<beta> ?rows @ received extra \<beta>) < 2 ^ 32" using fits [unfolded layer_fits_def, THEN conjunct2, THEN spec [of _ \<beta>]] unfolding length_append by linarith
  qed
  from run_cosets_ok [OF prepared_layer.general_kernel [OF P, of policy bmi2 knobs] inv sp(2) keys extra [unfolded received_ok_def] _ _ pool(1,2),
      where bcut = bcut and masks = masks and window = window, unfolded rows] bound
  obtain s' masks' scratch' where res: "run_cosets M C sp bcut window (general_fill W C (delta_plan_new C bmi2 pr sp knobs) policy extra) masks s scratch =
        Inr (s', masks', scratch')" "sum_inv W s'" "pm_hash s' = h" "pm_num_qubits s' = n"
      "\<forall>k. sum_lookup s' k = kept_total C policy (rows_to h (bucket_of h k) ?rows @ received extra (bucket_of h k)) k"
      "scratch_ok scratch'" "counts_ok C window s' (ls_octaves scratch')" "ls_supports scratch' = ls_supports scratch"
      "lo_pending (ls_octaves scratch') = lo_pending (ls_octaves scratch)"
    by blast
  then have "layer_done W C policy ?rows (received extra) window s (s', scratch')"
    using inv(2,3) pool(3,4) by (simp add: layer_done_def supports_ok_def coefficient_laws.kept_total_rows_to [OF C])
  then show ?thesis using res(1) by blast
qed

text \<open>A cut only takes rows away, so the supports of the sum are supports of the cut sum.\<close>

lemma retained_terms: "set (fst (update_terms (then_some f) u ts)) \<subseteq> set ts"
proof (induction ts arbitrary: u)
  case (Cons t ts)
  obtain k c b u' where t: "t = (k, c)" "f u k c = (b, u')" by (cases t) (cases "f u (fst t) (snd t)", auto)
  then show ?case using Cons [of u'] by (auto simp: update_terms_Cons then_some_def simp del: split_paired_All)
qed simp

lemma cut_supports:
  assumes "sum_inv W s" "supports_ok W C policy s supports"
  shows "supports_ok W C policy (cut_sum C bcut s) supports"
proof -
  note cut = cut_sum_ok [OF assms(1), of C bcut]
  have "set (terms_of (pm_buckets (cut_sum C bcut s) ! b)) \<subseteq> set (terms_of (pm_buckets s ! b))" if b: "b < length (pm_buckets s)" for b
    using b sum_inv_bucket(1) [OF assms(1) b] unfolding cut(4)
    by (cases bcut) (simp_all add: cut_bucket_def apply_to_bucket_def columns_retain_def columns_update_terms retained_terms)
  then show ?thesis using assms(2) unfolding supports_ok_def cut(4) known_ok_def by auto
qed

lemma rotation_arm:
  fixes C :: "'c coefficient" and s :: "'c pauli_sum" and policy :: "('st, 'c) truncation_policy" and scratch :: "'c layer_scratch"
  defines "supports \<equiv> ls_supports scratch"
  defines "known \<equiv> bs_known supports \<and> length (bs_masks supports) = length (pm_buckets s)"
  assumes C: "coefficient_laws C" "floor_sound C policy" and W: "128 * W < 2 ^ 32" and pr: "prepared_ok W n h (Local p)"
    and inv: "sum_inv W s" "pm_hash s = h" "pm_num_qubits s = n" and layer: "rotation_layer_of W C p = Inr (Some layer)"
    and sp: "span_new (local_bucket_deltas p) (gh_bits h) = Inr sp" and exact: "rotation_exact W C (Local p) known"
    and fits: "layer_fits C (Local p) None (sum_iter (cut_sum C bcut s))" and sup: "supports_ok W C policy s supports"
    and pool: "scratch_ok scratch" "pool_schedule sp (mc_threads M) (mc_schedule M)" "lo_pending (ls_octaves scratch) = None"
  shows "\<exists>s' masks' scratch'. run_cosets M C sp bcut window (rotation_fill W C layer policy known spare)
        (vec_resize (bs_masks supports) (length (pm_buckets s)) (replicate W 0, replicate W 0)) s scratch = Inr (s', masks', scratch') \<and>
      layer_done W C policy (emitted C (Local p) (sum_iter (cut_sum C bcut s))) (received None) window s
        (s', scratch'\<lparr>ls_supports := \<lparr>bs_masks = masks', bs_known = True\<rparr>\<rparr>)"
proof -
  have mk: "masks_ok W p" "exact_clifford C layer" "known \<Longrightarrow> anticommuting W C layer" using exact layer by (simp_all add: rotation_exact_def)
  obtain idn gen where L: "layer_ok W n C layer" "rl_ptm layer = p" "lp_deltas p = [idn, gen]" "rl_identity layer = de_amplitude idn"
      "rl_partner layer = de_amplitude gen" "rl_mask layer = de_mask gen" "de_mask idn = zero_key W"
    using rotation_layer_of_ok(2) [OF pr mk(1) layer] by blast
  have P: "rotation_table W n h C policy sp layer known"
    by (rule rotation_table.intro) (use C W L(1) mk(3) span_new_ok(1) [OF sp] rotation_span [OF pr L(3,7) sp] in \<open>simp_all add: L(6)\<close>)
  let ?ts = "sum_iter (cut_sum C bcut s)" and ?masks = "vec_resize (bs_masks supports) (length (pm_buckets s)) (replicate W 0, replicate W 0)"
  have keys: "\<forall>t row. key_ok W n (fst t) \<longrightarrow> row \<in> set (rotation_rows C layer t) \<longrightarrow> key_ok W n (fst row)"
    using L(1) key_ok_xor by (auto simp: rotation_rows_def scaled_row_def partner_row_def layer_ok_def Let_def)
  have wf: "\<forall>t \<in> set ?ts. wf_key W (fst t)" using cut_sum_ok(1) [OF inv(1)] by (simp add: sum_inv_def key_ok_def)
  have bound: "\<forall>\<beta>. length (bucket_rows h (rotation_rows C layer) (\<lambda>_. []) ?ts \<beta>) < 2 ^ 28"
  proof
    fix \<beta>
    show "length (bucket_rows h (rotation_rows C layer) (\<lambda>_. []) ?ts \<beta>) < 2 ^ 28"
      using rotation_rows_length [of h \<beta> C layer ?ts] fits by (simp add: bucket_rows_def layer_fits_def)
  qed
  have small: "unat (of_nat b :: u32) = b" if "b < length (pm_buckets s)" for b
  proof -
    have "length (pm_buckets s) = 2 ^ gh_bits h" "gh_bits h < 32"
      using inv(1,2) by (auto simp: sum_inv_def hash_num_buckets_def push_bit_of_1 wf_hash_def INDEX_BITS_def)
    then have "b < 2 ^ 32" using that power_strict_increasing [of "gh_bits h" 32 "2 :: nat"] by simp
    then show ?thesis by (simp add: unat_of_nat)
  qed
  have masks: "length ?masks = length (pm_buckets s)" "known \<Longrightarrow> ?masks = bs_masks supports" by (auto simp: vec_resize_def known_def)
  have side: "\<forall>b < length (pm_buckets s). support_in W C policy known (of_nat b) (terms_of (pm_buckets (cut_sum C bcut s) ! b)) ?masks"
    using cut_supports [OF inv(1) sup, of bcut] masks small cut_sum_ok(4) [OF inv(1), of C bcut]
    by (auto simp: support_in_def supports_ok_def known_def)
  from run_cosets_ok [OF rotation_table.rotation_kernel [OF P, of spare] inv span_new_ok(2) [OF sp] keys _ bound side pool(1,2), where window = window]
  obtain s' masks' scratch' where res: "run_cosets M C sp bcut window (rotation_fill W C layer policy known spare) ?masks s scratch = Inr (s', masks', scratch')"
      "sum_inv W s'" "pm_hash s' = h" "pm_num_qubits s' = n"
      "\<forall>k. sum_lookup s' k = kept_total C policy (bucket_rows h (rotation_rows C layer) (\<lambda>_. []) ?ts (bucket_of h k)) k"
      "\<forall>b < length (pm_buckets s'). support_out W (of_nat b) (terms_of (pm_buckets s' ! b)) masks'" "length (pm_buckets s') = length (pm_buckets s)"
      "scratch_ok scratch'" "counts_ok C window s' (ls_octaves scratch')" "lo_pending (ls_octaves scratch') = lo_pending (ls_octaves scratch)"
    by auto
  have "kept_total C policy (bucket_rows h (rotation_rows C layer) (\<lambda>_. []) ?ts (bucket_of h k)) k = kept_total C policy (emitted C (Local p) ?ts) k" for k
    using coefficient_laws.kept_total_rows_to [OF C(1), of policy h k "concat (map (rotation_rows C layer) ?ts)" "[]"]
      coefficient_laws.rotation_rows_total [OF C(1) L(1) mk(2) L(2-7) wf, of k]
    by (simp add: bucket_rows_def kept_total_def)
  with res(5) have look: "\<forall>k. sum_lookup s' k = kept_total C policy (emitted C (Local p) ?ts) k" by simp
  have "supports_ok W C policy s' \<lparr>bs_masks = masks', bs_known = True\<rparr>"
    using res(6,7) small kept_rows [OF res(2) look] by (auto simp: supports_ok_def known_ok_def support_out_def)
  then have "layer_done W C policy (emitted C (Local p) ?ts) (received None) window s (s', scratch'\<lparr>ls_supports := \<lparr>bs_masks = masks', bs_known = True\<rparr>\<rparr>)"
    using res look inv(2,3) pool(3) by (simp add: layer_done_def received_def scratch_ok_def)
  then show ?thesis using res(1) by blast
qed

section \<open>The layer\<close>

text \<open>The scratch as the engine hands it on, with the pending cut taken.\<close>

definition taken :: "'c layer_scratch \<Rightarrow> 'c layer_scratch" where
  "taken scratch = scratch\<lparr>ls_octaves := (ls_octaves scratch)\<lparr>lo_counted := False, lo_armed := False, lo_pending := None\<rparr>\<rparr>"

definition armed_window :: "'c layer_scratch \<Rightarrow> octave_window option" where
  "armed_window scratch = (if lo_armed (ls_octaves scratch) then lo_window (ls_octaves scratch) else None)"

definition pending_sum :: "'c coefficient \<Rightarrow> 'c layer_scratch \<Rightarrow> 'c pauli_sum \<Rightarrow> 'c pauli_sum" where
  "pending_sum C scratch s = cut_sum C (lo_pending (ls_octaves scratch)) s"

lemma apply_layer_eq:
  "apply_layer_bucketed_with W M C pr policy extra knobs s scratch =
     (if \<not> needs_beta extra \<and> (case pr of Local p \<Rightarrow> is_key_preserving p | Rotation _ \<Rightarrow> False)
      then Inr (rescale_in_place C (case pr of Local p \<Rightarrow> p) policy (pending_sum C scratch s),
                (taken scratch)\<lparr>ls_supports := supports_forget (ls_supports scratch)\<rparr>)
      else layer_on_cosets W M C pr policy extra knobs (armed_window scratch) (lo_pending (ls_octaves scratch)) s (taken scratch))"
  by (cases pr) (simp_all add: apply_layer_bucketed_with_def taken_def armed_window_def pending_sum_def cut_sum_def Let_def)

lemma layer_on_cosets_ok:
  fixes C :: "'c coefficient" and s :: "'c pauli_sum" and policy :: "('st, 'c) truncation_policy" and scratch :: "'c layer_scratch"
  assumes C: "coefficient_laws C" "floor_sound C policy" and W: "128 * W < 2 ^ 32" and pr: "prepared_ok W n h pr"
    and inv: "sum_inv W s" "pm_hash s = h" "pm_num_qubits s = n"
    and exact: "rotation_exact W C pr (bs_known (ls_supports scratch))"
    and fits: "layer_fits C pr None (sum_iter (cut_sum C bcut s))" and sup: "supports_ok W C policy s (ls_supports scratch)"
    and pool: "scratch_ok scratch" "\<forall>sp. span_new (prepared_bucket_deltas pr) (gh_bits h) = Inr sp \<longrightarrow> pool_schedule sp (mc_threads M) (mc_schedule M)"
      "lo_pending (ls_octaves scratch) = None"
  shows "\<exists>r. layer_on_cosets W M C pr policy None default_knobs window bcut s scratch = Inr r \<and>
    layer_done W C policy (emitted C pr (sum_iter (cut_sum C bcut s))) (received None) window s r"
proof -
  have "wf_hash W h" using inv by (auto simp: sum_inv_def)
  from prepared_span [OF pr this, of C] obtain sp where sp: "span_new (prepared_bucket_deltas pr) (gh_bits h) = Inr sp" "span_ok sp"
      "sp_bits sp = gh_bits h" "fst ` set (streams C pr) \<subseteq> delta_span (sp_basis sp)" by blast
  have defaults: "received_of W C pr None default_knobs = Inr None" "unwrap_or (kn_bucket_deltas default_knobs) ds = ds" for ds
    by (simp_all add: received_of_def needs_beta_def default_knobs_def unwrap_or_def)
  note sched = pool(2) [THEN spec, THEN mp, OF sp(1)]
  let ?forgotten = "scratch\<lparr>ls_supports := supports_forget (ls_supports scratch)\<rparr>"
  have general: "\<exists>s' masks' scratch'. run_cosets M C sp bcut window (general_fill W C (delta_plan_new C (mc_bmi2 M) pr sp default_knobs) policy None) masks s ?forgotten =
      Inr (s', masks', scratch') \<and> layer_done W C policy (emitted C pr (sum_iter (cut_sum C bcut s))) (received None) window s (s', scratch')" for masks
    using pool by (intro general_arm [OF C(1) pr inv sp(2-4) _ fits _ sched]) (simp_all add: received_ok_def received_def scratch_ok_def supports_forget_def)
  obtain rotation where rot: "rotation_of W C pr None = Inr rotation"
  proof (cases pr)
    case (Local p)
    then have "masks_ok W p" using exact by (simp add: rotation_exact_def)
    from rotation_layer_of_ok(1) [OF pr [unfolded Local] this] obtain r where "rotation_layer_of W C p = Inr r" by blast
    then show ?thesis using Local that by (simp add: rotation_of_def needs_beta_def)
  qed (use that in \<open>simp add: rotation_of_def\<close>)
  show ?thesis
  proof (cases rotation)
    case None
    from general [of "bs_masks (ls_supports scratch)"] obtain s' masks' scratch' where
      g: "run_cosets M C sp bcut window (general_fill W C (delta_plan_new C (mc_bmi2 M) pr sp default_knobs) policy None)
            (bs_masks (ls_supports scratch)) s ?forgotten = Inr (s', masks', scratch')"
         "layer_done W C policy (emitted C pr (sum_iter (cut_sum C bcut s))) (received None) window s (s', scratch')" by blast
    then show ?thesis by (simp add: layer_on_cosets_def rot None defaults inv(2) sp(1) Let_def)
  next
    case (Some layer)
    then obtain p where p: "pr = Local p" "rotation_layer_of W C p = Inr (Some layer)"
      using rot by (auto simp: rotation_of_def needs_beta_def split: prepared.splits)
    let ?known = "bs_known (ls_supports scratch) \<and> length (bs_masks (ls_supports scratch)) = length (pm_buckets s)"
    have "rotation_exact W C (Local p) ?known" using exact by (auto simp: p(1) rotation_exact_def)
    from rotation_arm [OF C W pr [unfolded p(1)] inv p(2) sp(1) [unfolded p(1) prepared_bucket_deltas_def prepared.case] this fits [unfolded p(1)] sup pool(1) sched pool(3),
        of window "mc_spare M"]
    obtain s' masks' scratch' where g: "run_cosets M C sp bcut window (rotation_fill W C layer policy ?known (mc_spare M))
        (vec_resize (bs_masks (ls_supports scratch)) (length (pm_buckets s)) (replicate W 0, replicate W 0)) s scratch = Inr (s', masks', scratch')"
      "layer_done W C policy (emitted C pr (sum_iter (cut_sum C bcut s))) (received None) window s
        (s', scratch'\<lparr>ls_supports := \<lparr>bs_masks = masks', bs_known = True\<rparr>\<rparr>)" unfolding p(1) by blast
    then show ?thesis by (simp add: layer_on_cosets_def rot Some defaults inv(2) sp(1) Let_def)
  qed
qed

end
