(* ===== verification/Layer_Theorems.thy ===== *)
theory Layer_Theorems
  imports Layer_Channel
begin

unbundle bit_operations_syntax

text \<open>
  The correctness of a layer of the bucketed engine, stated for its two entry points, and a concrete layer on which the
  contracts of both kernels hold.
\<close>

section \<open>The layer\<close>

lemma layer_correct:
  fixes C :: "'c coefficient" and s :: "'c pauli_sum" and policy :: "('st, 'c) truncation_policy" and scratch :: "'c layer_scratch"
  assumes "coefficient_laws C" "floor_sound C policy" "128 * W < 2 ^ 32"
    and "sum_inv W s" "prepared_ok W (pm_num_qubits s) (pm_hash s) pr" "rotation_exact W C pr (bs_known (ls_supports scratch))"
    and "layer_fits C pr None (sum_iter (pending_sum C scratch s))" "supports_ok W C policy s (ls_supports scratch)" "scratch_ok scratch"
    and "\<forall>sp. span_new (prepared_bucket_deltas pr) (gh_bits (pm_hash s)) = Inr sp \<longrightarrow> pool_schedule sp (mc_threads M) (mc_schedule M)"
  shows "\<exists>s' scratch'. apply_layer_bucketed W M C pr policy s scratch = Inr (s', scratch') \<and>
    sum_inv W s' \<and> pm_hash s' = pm_hash s \<and>
    (\<forall>k. sum_lookup s' k = kept_total C policy (emitted C pr (sum_iter (pending_sum C scratch s))) k) \<and>
    supports_ok W C policy s' (ls_supports scratch') \<and> scratch_ok scratch' \<and>
    (lo_counted (ls_octaves scratch') \<longrightarrow> counts_ok C (armed_window scratch) s' (ls_octaves scratch')) \<and> lo_pending (ls_octaves scratch') = None"
proof (cases "case pr of Local p \<Rightarrow> is_key_preserving p | Rotation _ \<Rightarrow> False")
  case True
  then obtain p where p: "pr = Local p" "is_key_preserving p" by (auto split: prepared.splits)
  have cut: "sum_inv W (pending_sum C scratch s)" "pm_hash (pending_sum C scratch s) = pm_hash s"
      "pm_num_qubits (pending_sum C scratch s) = pm_num_qubits s"
    using cut_sum_ok [OF assms(4)] by (simp_all add: pending_sum_def)
  note ok = coefficient_laws.rescale_ok [OF assms(1) assms(5) [unfolded p(1)] p(2) cut]
  show ?thesis
    unfolding apply_layer_bucketed_def apply_layer_eq using True ok assms(9) p
    by (auto simp: needs_beta_def supports_ok_def supports_forget_def taken_def scratch_ok_def)
next
  case False
  have taken: "ls_supports (taken scratch) = ls_supports scratch" "scratch_ok (taken scratch) = scratch_ok scratch"
      "lo_pending (ls_octaves (taken scratch)) = None"
    by (simp_all add: taken_def scratch_ok_def)
  obtain r where "layer_on_cosets W M C pr policy None default_knobs (armed_window scratch) (lo_pending (ls_octaves scratch)) s (taken scratch) = Inr r"
      "layer_done W C policy (emitted C pr (sum_iter (pending_sum C scratch s))) (received None) (armed_window scratch) s r"
    using layer_on_cosets_ok [OF assms(1-3,5,4) refl refl, of "taken scratch" "lo_pending (ls_octaves scratch)" M "armed_window scratch"]
      assms(6-10) unfolding taken pending_sum_def by blast
  with False show ?thesis
    unfolding apply_layer_bucketed_def apply_layer_eq by (cases r) (auto simp: layer_done_def received_def)
qed

text \<open>
  C2. One layer of the bucketed engine computes the channel. It returns on every admissible input, on any number of threads and
  in whatever order the pool takes the cosets; the sum it leaves keeps the storage invariant and the hash, and holds for
  every string the total of what the channel emits from every term left by the pending cut, where that total is nonzero and the
  policy keeps it; the counts an armed window asked for are those of the sum left, and the supports left for the next
  rotation are sound. This holds along the rescaling path, the rotation kernel and the general gather, sort and merge, for fewer
  than \<open>2^27\<close> terms and \<open>2^32\<close> rows, and for a table of a rotation's shape as long as its Clifford half is exactly zero and, when
  supports are known, its generator reaches exactly the strings that anticommute with it.
\<close>

theorem layer_applies_channel:
  fixes C :: "'c coefficient" and s :: "'c pauli_sum" and policy :: "('st, 'c) truncation_policy" and scratch :: "'c layer_scratch"
  assumes "coefficient_laws C" "floor_sound C policy" "128 * W < 2 ^ 32"
    and "sum_inv W s" "prepared_ok W (pm_num_qubits s) (pm_hash s) pr" "rotation_exact W C pr (bs_known (ls_supports scratch))"
    and "layer_fits C pr None (sum_iter (pending_sum C scratch s))" "supports_ok W C policy s (ls_supports scratch)" "scratch_ok scratch"
    and "\<forall>sp. span_new (prepared_bucket_deltas pr) (gh_bits (pm_hash s)) = Inr sp \<longrightarrow> pool_schedule sp (mc_threads M) (mc_schedule M)"
  shows "\<exists>s' scratch'. apply_layer_bucketed W M C pr policy s scratch = Inr (s', scratch') \<and>
    sum_inv W s' \<and> pm_hash s' = pm_hash s \<and>
    (\<forall>k. sum_lookup s' k = kept_total C policy (emitted C pr (sum_iter (pending_sum C scratch s))) k) \<and>
    supports_ok W C policy s' (ls_supports scratch') \<and> scratch_ok scratch' \<and>
    (lo_counted (ls_octaves scratch') \<longrightarrow> counts_ok C (armed_window scratch) s' (ls_octaves scratch')) \<and> lo_pending (ls_octaves scratch') = None"
  using layer_correct [OF assms] .

text \<open>
  C4. A layer that merges the rows other partitions sent computes the channel on the rows of both: for every string the total
  over what the channel emits here and what was received for the string's bucket, where it is nonzero and kept. This is the path
  of a channel whose generator stays local, through the gather, sort and merge.
\<close>

theorem layer_merges_received:
  fixes C :: "'c coefficient" and s :: "'c pauli_sum" and policy :: "('st, 'c) truncation_policy" and scratch :: "'c layer_scratch"
  assumes "coefficient_laws C" "sum_inv W s" "prepared_ok W (pm_num_qubits s) (pm_hash s) pr"
    and "received_ok W (pm_num_qubits s) (pm_hash s) (Some rows)" "kn_generator_local knobs"
    and "span_new (unwrap_or (kn_bucket_deltas knobs) (prepared_bucket_deltas pr)) (gh_bits (pm_hash s)) = Inr sp"
      "fst ` set (streams C pr) \<subseteq> delta_span (sp_basis sp)"
    and "layer_fits C pr (Some rows) (sum_iter (pending_sum C scratch s))" "scratch_ok scratch" "pool_schedule sp (mc_threads M) (mc_schedule M)"
  shows "\<exists>s' scratch'. apply_layer_bucketed_with W M C pr policy (Some rows) knobs s scratch = Inr (s', scratch') \<and>
    sum_inv W s' \<and> pm_hash s' = pm_hash s \<and>
    (\<forall>k. sum_lookup s' k = kept_total C policy (emitted C pr (sum_iter (pending_sum C scratch s)) @ rows (bucket_of (pm_hash s) k)) k) \<and>
    supports_ok W C policy s' (ls_supports scratch') \<and> scratch_ok scratch' \<and>
    (lo_counted (ls_octaves scratch') \<longrightarrow> counts_ok C (armed_window scratch) s' (ls_octaves scratch')) \<and> lo_pending (ls_octaves scratch') = None"
proof -
  let ?forgotten = "(taken scratch)\<lparr>ls_supports := supports_forget (ls_supports scratch)\<rparr>"
  have forgotten: "scratch_ok ?forgotten" "lo_pending (ls_octaves ?forgotten) = None" "\<not> bs_known (ls_supports ?forgotten)" "ls_supports (taken scratch) = ls_supports scratch"
    using assms(9) by (simp_all add: taken_def scratch_ok_def supports_forget_def)
  note sp = span_new_ok(1,2) [OF assms(6)]
  from general_arm [OF assms(1,3,2) refl refl sp assms(7,4) assms(8) [unfolded pending_sum_def] forgotten(1) assms(10) forgotten(2,3),
      of "armed_window scratch" "mc_bmi2 M" knobs policy "bs_masks (ls_supports scratch)"]
  obtain s' masks' scratch' where g: "run_cosets M C sp (lo_pending (ls_octaves scratch)) (armed_window scratch)
        (general_fill W C (delta_plan_new C (mc_bmi2 M) pr sp knobs) policy (Some rows)) (bs_masks (ls_supports scratch)) s ?forgotten = Inr (s', masks', scratch')"
      "layer_done W C policy (emitted C pr (sum_iter (pending_sum C scratch s))) (received (Some rows)) (armed_window scratch) s (s', scratch')"
    unfolding pending_sum_def by blast
  have arms: "received_of W C pr (Some rows) knobs = Inr None" "rotation_of W C pr (Some rows) = Inr None"
    using assms(5) by (simp_all add: received_of_def rotation_of_def needs_beta_def split: prepared.split)
  then show ?thesis
    unfolding apply_layer_eq using g assms(6) forgotten(4)
    by (auto simp: needs_beta_def layer_on_cosets_def Let_def layer_done_def received_def)
qed

section \<open>A concrete layer\<close>

text \<open>The rotation about \<open>Z\<close> with cosine \<open>3/5\<close> and sine \<open>4/5\<close> as a local table, under the hash that reads both key bits.\<close>

definition example_table :: "complex local_ptm" where
  "example_table =
     \<lparr>lp_qubits = [0, 0], lp_k = 1,
      lp_deltas =
        [\<lparr>de_bucket_delta = 0, de_local_delta = 0, de_mask_x = [0], de_mask_z = [0], de_amplitude = [1, 3 / 5, 1, 3 / 5] @ replicate 12 0\<rparr>,
         \<lparr>de_bucket_delta = 2, de_local_delta = 2, de_mask_x = [0], de_mask_z = [1], de_amplitude = [0, 4 / 5, 0, - 4 / 5] @ replicate 12 0\<rparr>]\<rparr>"

definition example_span :: gf2_span_index where
  "example_span = \<lparr>sp_basis = [2], sp_pivot_mask = 2, sp_bits = 2, sp_nonpivot_mask = 1\<rparr>"

definition example_machine :: "complex machine" where
  "example_machine = \<lparr>mc_bmi2 = False, mc_threads = 2, mc_schedule = [(1, 1), (0, 0)], mc_spare = (\<lambda>_. [])\<rparr>"

definition example_scratch :: "complex layer_scratch" where
  "example_scratch =
     \<lparr>ls_task = \<lparr>cs_work = sort_scratch_new, cs_octave_totals = totals_default\<rparr>, ls_workers = [],
      ls_octaves = \<lparr>lo_window = None, lo_per_bucket = [], lo_totals = totals_default, lo_counted = False, lo_pending = None,
        lo_bound = None, lo_armed = False, lo_within = False\<rparr>,
      ls_supports = \<lparr>bs_masks = [], bs_known = False\<rparr>\<rparr>"

lemma example_table_simps:
  "lp_num example_table = 1" "lp_support example_table = [0]" "local_bucket_deltas example_table = [0, 2]" "has_identity example_table"
  by (simp_all add: example_table_def lp_num_def lp_support_def local_bucket_deltas_def has_identity_def)

lemma example_prepared: "prepared_ok 1 1 (example_hash 2) (Local example_table)"
proof -
  have bucket: "bucket_of (example_hash 2) ([0], [0]) = 0" "bucket_of (example_hash 2) ([0], [1]) = 2" by code_simp+
  have zero: "key_ok 1 1 ([0], [0])" unfolding key_ok_def wf_key_def by (simp, code_simp)
  have "buckets_ok 1 (example_hash 2) example_table" using bucket by (simp add: buckets_ok_def example_table_def de_mask_def wf_key_def)
  then show ?thesis
    unfolding prepared_ok_def prepared.case
    using zero example_key_ok(1) by (simp add: lp_ok_def example_table_simps) (simp add: example_table_def de_mask_def zero_key_def LOCAL_DIM_def MAX_LOCAL_SUPPORT_def)
qed

lemma example_masks: "masks_ok 1 example_table"
proof -
  have off: "\<not> qbit [1] q" if "q \<noteq> 0" for q using that by (auto simp: qbit_def bit_1_iff)
  have none: "\<not> qbit [0] q" for q by (cases "q div 64") (simp_all add: qbit_def)
  have "is_overwritten [0] 0 (zero_key 1) ([0], [0])" "is_overwritten [0] 2 (zero_key 1) ([0], [1])"
    using off none by (auto simp: is_overwritten_def agree_off_def zero_key_def qbit_def [of "[1]"])
  then show ?thesis unfolding masks_ok_def example_table_simps by (simp add: example_table_def de_mask_def)
qed

lemma example_shape:
  "shape_loop complex_coefficient (de_amplitude (lp_deltas example_table ! 0)) (de_amplitude (lp_deltas example_table ! 1)) 2 [0..<4] True = Some False"
proof -
  have "[0..<4] = [0, 1, 2, 3 :: nat]" by (simp add: upt_rec)
  then show ?thesis by (simp add: example_table_def complex_coefficient_def F64_EPSILON_def Let_def complex_eq_iff)
qed

lemma example_exact: "rotation_exact 1 complex_coefficient (Local example_table) False"
proof -
  have dim: "push_bit 2 (1 :: nat) = 4" by simp
  have "exact_clifford complex_coefficient layer" if "rotation_layer_of 1 complex_coefficient example_table = Inr (Some layer)" for layer
  proof -
    obtain idn gen where d: "lp_deltas example_table = [idn, gen]" "de_local_delta idn = 0" "de_local_delta gen = 2"
      by (simp add: example_table_def)
    have "\<not> rl_clifford layer"
      using that example_shape unfolding rotation_layer_of_def d(1)
      by (cases "partner_order_new 1 (de_mask gen)") (auto simp: d example_table_simps dim)
    then show ?thesis by (simp add: exact_clifford_def)
  qed
  then show ?thesis using example_masks by (simp add: rotation_exact_def)
qed

lemma example_spans: "span_new [0, 2] 2 = Inr example_span" "span_new [0, 2] 2 = Inr sp \<Longrightarrow> sp = example_span"
proof -
  show "span_new [0, 2] 2 = Inr example_span" unfolding example_span_def by code_simp
  then show "span_new [0, 2] 2 = Inr sp \<Longrightarrow> sp = example_span" by simp
qed

lemma example_schedule: "pool_schedule example_span (mc_threads example_machine) (mc_schedule example_machine)"
  by (simp add: pool_schedule_def all_cosets_def num_cosets_def example_span_def example_machine_def upt_rec)

lemma example_emitted: "length (sum_iter (example_sum 2)) = 2" "length (emitted complex_coefficient (Local example_table) (sum_iter (example_sum 2))) \<le> 4"
proof -
  note inv = example_sum_inv(1,2) [of 2]
  have "length (sum_iter (example_sum 2)) = card (dom (sum_lookup (example_sum 2)))"
    using distinct_card [OF sum_lookup_iff(2) [OF inv(1)]] by (simp add: sum_lookup_def dom_map_of_conv_image_fst)
  also have "\<dots> = 2" by (simp add: inv(2))
  finally show len: "length (sum_iter (example_sum 2)) = 2" .
  have two: "length (emits_of complex_coefficient (Local example_table) t) \<le> 2" for t
    by (simp add: emits_of_def prepared_emit_def emit_all_def map_filter_def example_table_def)
  have "length (concat (map (emits_of complex_coefficient (Local example_table)) ts)) \<le> 2 * length ts" for ts
  proof (induction ts)
    case (Cons t ts)
    then show ?case using two [of t] by simp
  qed simp
  from this [of "sum_iter (example_sum 2)"] show "length (emitted complex_coefficient (Local example_table) (sum_iter (example_sum 2))) \<le> 4"
    by (simp add: len emitted_emits)
qed

lemma example_fits: "layer_fits complex_coefficient (Local example_table) None (sum_iter (example_sum 2))"
  using example_emitted by (auto simp: layer_fits_def received_def)

text \<open>Both kernels' contracts hold of this table.\<close>

interpretation example_layer: prepared_layer 1 1 "example_hash 2" complex_coefficient policy example_span "Local example_table" None bmi2 knobs
  for policy bmi2 knobs
proof (rule prepared_layer.intro)
  show "coefficient_laws complex_coefficient" by (rule complex_c.coefficient_laws_axioms)
  show "span_ok example_span" by (rule span_new_ok(1) [OF example_spans(1)])
  show "prepared_ok 1 1 (example_hash 2) (Local example_table)" by (rule example_prepared)
  have "delta_span (sp_basis example_span) = delta_span [0, 2]" by (rule span_new_ok(3) [OF example_spans(1)])
  then show "fst ` set (streams complex_coefficient (Local example_table)) \<subseteq> delta_span (sp_basis example_span)"
    using prepared_deltas_set [of "Local example_table" complex_coefficient] delta_span_base [of _ "[0, 2]"]
    by (auto simp: prepared_bucket_deltas_def example_table_simps)
  show "received_ok 1 1 (example_hash 2) (None :: complex extra_rows)" by (simp add: received_ok_def received_def)
qed

definition example_rotation_layer :: "complex rotation_layer" where
  "example_rotation_layer = the (projr (rotation_layer_of 1 complex_coefficient example_table))"

lemma example_rotation_shape: "rotation_layer_of 1 complex_coefficient example_table = Inr (Some example_rotation_layer)"
proof -
  have "\<exists>layer. rotation_layer_of 1 complex_coefficient example_table = Inr (Some layer)"
  proof -
    have order: "partner_order_new 1 ([0], [1]) = Inr \<lparr>po_levels = [127, 0, 0, 0], po_depth = 1\<rparr>" by code_simp
    obtain idn gen where d: "lp_deltas example_table = [idn, gen]" "de_local_delta idn = 0" "de_local_delta gen = 2" "de_mask gen = ([0], [1])"
      by (simp add: example_table_def de_mask_def)
    then show ?thesis using example_shape order by (simp add: rotation_layer_of_def example_table_simps)
  qed
  then show ?thesis by (auto simp: example_rotation_layer_def)
qed

interpretation example_rotation_table: rotation_table 1 1 "example_hash 2" complex_coefficient "weight_cutoff 1" example_span example_rotation_layer False spare
  for spare
proof (rule rotation_table.intro)
  show "coefficient_laws complex_coefficient" by (rule complex_c.coefficient_laws_axioms)
  show "floor_sound complex_coefficient (weight_cutoff 1)" by (simp add: floor_sound_def weight_cutoff_def term_filter_def)
  show "span_ok example_span" by (rule span_new_ok(1) [OF example_spans(1)])
  from rotation_layer_of_ok(2) [OF example_prepared example_masks example_rotation_shape]
  have layer: "layer_ok 1 1 complex_coefficient example_rotation_layer" "rl_mask example_rotation_layer = ([0], [1])"
    by (auto simp: example_table_def de_mask_def)
  show "layer_ok 1 1 complex_coefficient example_rotation_layer" by (rule layer(1))
  have "bucket_of (example_hash 2) ([0], [1]) = 2" by code_simp
  then show "sp_basis example_span = (if bucket_of (example_hash 2) (rl_mask example_rotation_layer) = 0 then []
      else [bucket_of (example_hash 2) (rl_mask example_rotation_layer)])"
    by (simp add: layer(2) example_span_def)
qed simp_all

theorem layer_applies_channel_witness:
  "\<exists>s' scratch'. apply_layer_bucketed 1 example_machine complex_coefficient (Local example_table) (weight_cutoff 1 :: (unit, complex) truncation_policy)
      (example_sum 2) example_scratch = Inr (s', scratch') \<and> sum_inv 1 s'"
proof -
  have s: "sum_inv 1 (example_sum 2)" "pm_num_qubits (example_sum 2) = 1" "pm_hash (example_sum 2) = example_hash 2" "pending_sum complex_coefficient example_scratch (example_sum 2) = example_sum 2"
    using example_sum_inv [of 2] by (simp_all add: pending_sum_def cut_sum_def example_scratch_def)
  have "floor_sound complex_coefficient (weight_cutoff 1 :: (unit, complex) truncation_policy)"
    by (simp add: floor_sound_def weight_cutoff_def term_filter_def)
  moreover have "supports_ok 1 complex_coefficient (weight_cutoff 1 :: (unit, complex) truncation_policy) (example_sum 2) (ls_supports example_scratch)"
      "\<not> bs_known (ls_supports example_scratch)" "scratch_ok example_scratch"
    by (simp_all add: supports_ok_def scratch_ok_def drained_def example_scratch_def)
  moreover have "\<forall>sp. span_new (prepared_bucket_deltas (Local example_table)) (gh_bits (example_hash 2)) = Inr sp \<longrightarrow>
      pool_schedule sp (mc_threads example_machine) (mc_schedule example_machine)"
    using example_spans(2) example_schedule by (auto simp: prepared_bucket_deltas_def example_table_simps example_hash_def)
  moreover have "128 * 1 < (2 :: nat) ^ 32" by simp
  ultimately show ?thesis
    using layer_applies_channel [OF complex_c.coefficient_laws_axioms _ _ s(1), of "weight_cutoff 1" "Local example_table" example_scratch example_machine, unfolded s]
      example_prepared example_exact example_fits by metis
qed

theorem layer_merges_received_witness:
  "\<exists>s' scratch'. apply_layer_bucketed_with 1 example_machine complex_coefficient (Local example_table) (weight_cutoff 1 :: (unit, complex) truncation_policy)
      (Some (\<lambda>\<beta>. if \<beta> = 1 then [(([1], [0]), 5)] else [])) default_knobs (example_sum 2) example_scratch = Inr (s', scratch') \<and> sum_inv 1 s'"
proof -
  let ?rows = "\<lambda>\<beta> :: u32. if \<beta> = 1 then [(([1], [0]), 5 :: complex)] else []"
  have s: "sum_inv 1 (example_sum 2)" "pm_num_qubits (example_sum 2) = 1" "pm_hash (example_sum 2) = example_hash 2" "pending_sum complex_coefficient example_scratch (example_sum 2) = example_sum 2"
    using example_sum_inv [of 2] by (simp_all add: pending_sum_def cut_sum_def example_scratch_def)
  have "bucket_of (example_hash 2) ([1], [0]) = 1" by code_simp
  then have "received_ok 1 1 (example_hash 2) (Some ?rows)" using example_key_ok(2) by (simp add: received_ok_def received_def)
  moreover have "kn_generator_local default_knobs" "span_new (unwrap_or (kn_bucket_deltas default_knobs) (prepared_bucket_deltas (Local example_table))) (gh_bits (example_hash 2)) = Inr example_span"
    using example_spans(1) by (simp_all add: default_knobs_def unwrap_or_def prepared_bucket_deltas_def example_table_simps example_hash_def)
  moreover have "layer_fits complex_coefficient (Local example_table) (Some ?rows) (sum_iter (example_sum 2))"
    using example_emitted by (auto simp: layer_fits_def received_def)
  moreover have "scratch_ok example_scratch" by (simp add: scratch_ok_def drained_def example_scratch_def)
  ultimately show ?thesis
    using layer_merges_received [OF complex_c.coefficient_laws_axioms s(1), of "Local example_table" ?rows default_knobs example_span example_scratch example_machine, unfolded s]
      example_prepared example_schedule example_layer.layer_streams by metis
qed

end
