(* ===== verification/Layer_Octaves.thy ===== *)
theory Layer_Octaves
  imports Layer_Channel
begin

unbundle bit_operations_syntax

text \<open>
  The fused \<open>ApproxTopN\<close> pass of \<open>engine/bucketed.rs\<close> (\<open>LayerOctaves\<close>): the pass decided from the counts the coset loop took,
  leaving its cut pending until the next coset loop, and skipped while a bound on the length shows that everything fits. As
  the other passes, it is a function of the whole group of partitions, whose ranks issue the same collectives in lock-step;
  a local pass is that of a group of one.
\<close>

section \<open>The code\<close>

definition begin_layer :: "nat \<Rightarrow> fused_approx_top_n option \<Rightarrow> bool \<Rightarrow> layer_octaves \<Rightarrow> layer_octaves" where
  "begin_layer fanout fused exchanges oct =
     (case fused of
        None \<Rightarrow> oct\<lparr>lo_armed := False, lo_within := False\<rparr>
      | Some f \<Rightarrow>
          let bound = (if exchanges \<and> \<not> agreed f then None else lo_bound oct);
              bound = map_option (\<lambda>b. saturating_mul b fanout) bound;
              fits = (case bound of None \<Rightarrow> False | Some b \<Rightarrow> b \<le> fused_n f)
          in oct\<lparr>lo_bound := bound, lo_within := fits, lo_armed := \<not> fits \<and> lo_window oct \<noteq> None\<rparr>)"

text \<open>The end of \<open>finalize\<close>: the next bound, and the window around a new boundary octave.\<close>

definition conclude_pass :: "nat \<Rightarrow> edge_decision \<Rightarrow> nat \<Rightarrow> layer_octaves \<Rightarrow> layer_octaves" where
  "conclude_pass n edge in_all oct =
     (case edge of
        KeepAll \<Rightarrow> oct\<lparr>lo_bound := Some in_all\<rparr>
      | Clear \<Rightarrow> oct\<lparr>lo_bound := Some 0\<rparr>
      | Boundary bin _ _ \<Rightarrow> oct\<lparr>lo_window := Some (window_around bin), lo_bound := Some n\<rparr>)"

definition finalize_group ::
    "'c coefficient \<Rightarrow> nat \<Rightarrow> nat \<Rightarrow> (layer_octaves \<times> 'c pauli_sum) list \<Rightarrow> (layer_octaves \<times> 'c pauli_sum) list result" where
  "finalize_group C threads n ranks =
     (let oct0 = fst (hd ranks)
      in if lo_within oct0 then Inr (map (\<lambda>(oct, s). (oct\<lparr>lo_within := False\<rparr>, s)) ranks)
         else
           let counted = map (\<lambda>(oct, s). (oct\<lparr>lo_within := False, lo_counted := lo_counted oct \<and> lo_window oct = None\<rparr>, s)) ranks
           in and_then (case lo_window oct0 of
                  Some window \<Rightarrow>
                    if lo_counted oct0
                    then decide_from_window n window (map (\<lambda>(oct, s). (pm_len s, lo_per_bucket oct, lo_totals oct)) ranks)
                    else Inr None
                | None \<Rightarrow> Inr None) (\<lambda>decided.
              case decided of
                Some ds \<Rightarrow>
                  Inr (map2 (\<lambda>(oct, s) (edge, in_all, bcut).
                         (conclude_pass n edge in_all (oct\<lparr>lo_pending := bcut\<rparr>), if edge = Clear then sum_clear s else s)) counted ds)
              | None \<Rightarrow>
                  and_then (approx_top_n_pass C threads n (map snd ranks)) (\<lambda>outs.
                    Inr (map2 (\<lambda>(oct, _) (s, edge, in_all). (conclude_pass n edge in_all oct, s)) counted outs))))"

definition octaves_finalize ::
    "'c coefficient \<Rightarrow> nat \<Rightarrow> fused_approx_top_n \<Rightarrow> (layer_octaves \<times> 'c pauli_sum) list \<Rightarrow> (layer_octaves \<times> 'c pauli_sum) list result" where
  "octaves_finalize C threads f ranks =
     (if agreed f then finalize_group C threads (fused_n f) ranks
      else and_then (map_result (\<lambda>rank. finalize_group C threads (fused_n f) [rank]) ranks) (\<lambda>rss. Inr (concat rss)))"

definition len_after_cut :: "layer_octaves \<Rightarrow> nat \<Rightarrow> nat" where
  "len_after_cut oct len = (case lo_pending oct of None \<Rightarrow> len | Some bcut \<Rightarrow> cut_kept bcut)"

definition apply_pending :: "'c coefficient \<Rightarrow> layer_octaves \<times> 'c pauli_sum \<Rightarrow> layer_octaves \<times> 'c pauli_sum" where
  "apply_pending C = (\<lambda>(oct, s). (oct\<lparr>lo_pending := None\<rparr>, case lo_pending oct of None \<Rightarrow> s | Some bcut \<Rightarrow> cut_apply C bcut s))"

definition octaves_settle :: "'c coefficient \<Rightarrow> layer_octaves \<times> 'c pauli_sum \<Rightarrow> layer_octaves \<times> 'c pauli_sum" where
  "octaves_settle C r = (case apply_pending C r of (oct, s) \<Rightarrow> (oct\<lparr>lo_bound := None\<rparr>, s))"

section \<open>The fused pass\<close>

text \<open>What the ranks of a group agree on, and what their counts and bounds say, when the pass starts.\<close>

definition ready_octaves :: "'c coefficient \<Rightarrow> nat \<Rightarrow> (layer_octaves \<times> 'c pauli_sum) list \<Rightarrow> bool" where
  "ready_octaves C n ranks \<longleftrightarrow>
     (\<forall>r \<in> set ranks. let oct = fst r; s = snd r in
        lo_within oct = lo_within (fst (hd ranks)) \<and> lo_window oct = lo_window (fst (hd ranks)) \<and>
        lo_counted oct = lo_counted (fst (hd ranks)) \<and> lo_pending oct = None \<and>
        (\<forall>w. lo_counted oct \<and> lo_window oct = Some w \<longrightarrow>
           (\<exists>bin. w = window_around bin) \<and> (pm_len s, lo_per_bucket oct, lo_totals oct) = window_rank C w s)) \<and>
     (lo_within (fst (hd ranks)) \<longrightarrow> sum_list (map pm_len (map snd ranks)) \<le> n)"

text \<open>What a rank is left with: its sum once the pending cut is applied, its length, and the bound and window for the next layer.\<close>

definition rank_done :: "'c coefficient \<Rightarrow> nat \<Rightarrow> nat \<Rightarrow> layer_octaves \<Rightarrow> layer_octaves \<times> 'c pauli_sum \<Rightarrow> 'c pauli_sum \<Rightarrow> bool" where
  "rank_done C n in_all oct0 = (\<lambda>(oct, s) s'. snd (apply_pending C (oct, s)) = s' \<and> len_after_cut oct (pm_len s) = pm_len s' \<and>
     pm_hash s = pm_hash s' \<and> \<not> lo_within oct \<and>
     (lo_window oct = lo_window oct0 \<or> (\<exists>bin. lo_window oct = Some (window_around bin))) \<and>
     (if lo_within oct0 then lo_bound oct = lo_bound oct0 else \<exists>b. lo_bound oct = Some b \<and> (b = min in_all n)))"

lemma cut_equal:
  assumes "sum_inv W s" "sum_inv W s'" "sum_iter s = sum_iter s'" "pm_hash s = pm_hash s'"
  shows "s = s'"
  using assms by (intro sum_eqI [OF assms(1,2)]) (auto simp: sum_lookup_def sum_inv_def)

text \<open>How a rank stands after a pass at \<open>edge\<close>, whether the pass cut its sum or left the cut pending.\<close>

lemma conclude_bound:
  assumes "edge_ok os n edge"
  shows "lo_bound (conclude_pass n edge (length os) oct) = Some (min (length os) n)"
    "lo_window (conclude_pass n edge (length os) oct) = lo_window oct \<or> (\<exists>bin. lo_window (conclude_pass n edge (length os) oct) = Some (window_around bin))"
    "lo_pending (conclude_pass n edge (length os) oct) = lo_pending oct" "lo_within (conclude_pass n edge (length os) oct) = lo_within oct"
  using assms by (auto simp: conclude_pass_def edge_ok_def split: edge_decision.splits)

lemma rank_cut:
  assumes "group_cut W C edge locals locals'" "i < length locals" "sum_inv W (locals ! i)" "edge_ok os n edge"
    "lo_pending oct0 = None" "\<not> lo_within oct0" "lo_window oct = lo_window oct0" "\<not> lo_within oct"
  shows "lo_pending oct = None \<Longrightarrow> rank_done C n (length os) oct0 (conclude_pass n edge (length os) oct, locals' ! i) (locals' ! i)"
    and "cut_matches C edge (locals ! i) (locals' ! i) (lo_pending oct) \<Longrightarrow>
      rank_done C n (length os) oct0 (conclude_pass n edge (length os) oct, if edge = Clear then sum_clear (locals ! i) else locals ! i) (locals' ! i)"
proof -
  note conc = conclude_bound [OF assms(4), of oct]
  have s': "sum_inv W (locals' ! i)" "pm_hash (locals' ! i) = pm_hash (locals ! i)"
      "sum_iter (locals' ! i) = cut_terms C (with_quota edge (rank_quotas C edge locals ! i)) (sum_iter (locals ! i))"
    using assms(1,2) by (simp_all add: group_cut_def)
  show "rank_done C n (length os) oct0 (conclude_pass n edge (length os) oct, locals' ! i) (locals' ! i)" if "lo_pending oct = None"
    using conc that assms(5-8) by (auto simp: rank_done_def apply_pending_def len_after_cut_def)
  assume cut: "cut_matches C edge (locals ! i) (locals' ! i) (lo_pending oct)"
  note clear = sum_clear_ok [OF assms(3)]
  show "rank_done C n (length os) oct0 (conclude_pass n edge (length os) oct, if edge = Clear then sum_clear (locals ! i) else locals ! i) (locals' ! i)"
  proof (cases "lo_pending oct")
    case None
    then have "edge = KeepAll \<or> edge = Clear" using cut by (simp add: cut_matches_def)
    then have "(if edge = Clear then sum_clear (locals ! i) else locals ! i) = locals' ! i"
      using s' clear assms(3) by (auto simp: with_quota_def cut_terms_def intro: cut_equal)
    then show ?thesis using conc None assms(5-8) by (auto simp: rank_done_def apply_pending_def len_after_cut_def)
  next
    case (Some bcut)
    have ne: "edge \<noteq> Clear" using cut Some by (simp add: cut_matches_def)
    have "cut_apply C bcut (locals ! i) = locals' ! i"
      using cut Some s' cut_sum_ok(1) [OF assms(3), of C "Some bcut"] by (intro cut_equal) (auto simp: cut_matches_def cut_sum_def)
    then show ?thesis using conc Some cut s'(2) ne assms(5-8) by (auto simp: rank_done_def apply_pending_def len_after_cut_def cut_matches_def)
  qed
qed

lemma finalize_group_ok:
  assumes "group_ok W (map snd ranks)" "ready_octaves C n ranks"
  shows "\<exists>ranks' locals' edge. finalize_group C threads n ranks = Inr ranks' \<and> length ranks' = length ranks \<and>
    approx_top_n_pass C threads n (map snd ranks) = Inr (map (\<lambda>s. (s, edge, sum_list (map pm_len (map snd ranks)))) locals') \<and>
    length locals' = length ranks \<and>
    (\<forall>i < length ranks. sum_inv W (locals' ! i) \<and> rank_done C n (sum_list (map pm_len (map snd ranks))) (fst (ranks ! i)) (ranks' ! i) (locals' ! i))"
proof -
  let ?locals = "map snd ranks" and ?os = "group_octaves C (map snd ranks)" and ?oct0 = "fst (hd ranks)"
  have os: "sum_list (map pm_len ?locals) = length ?os"
    using assms(1) group_octaves_length [of ?locals W C] by (auto simp: group_ok_def)
  have inv: "sum_inv W (?locals ! i)" if "i < length ranks" for i using assms(1) that by (auto simp: group_ok_def)
  have ranks: "lo_within (fst (ranks ! i)) = lo_within ?oct0" "lo_window (fst (ranks ! i)) = lo_window ?oct0" "lo_pending (fst (ranks ! i)) = None"
    if "i < length ranks" for i
    using assms(2) nth_mem [OF that] unfolding ready_octaves_def Let_def by blast+
  obtain bin0 where bin0: "lo_counted ?oct0 \<Longrightarrow> lo_window ?oct0 = Some w \<Longrightarrow> w = window_around bin0" for w
  proof (cases "\<exists>w. lo_counted ?oct0 \<and> lo_window ?oct0 = Some w")
    case True
    then obtain w where w: "lo_counted ?oct0" "lo_window ?oct0 = Some w" by blast
    have "hd ranks \<in> set ranks" using assms(1) by (auto simp: group_ok_def)
    then have "\<exists>bin. w = window_around bin" using assms(2) w by (auto simp: ready_octaves_def Let_def)
    then show ?thesis using w that by auto
  qed (use that in auto)
  obtain edge locals' where pass: "approx_top_n_pass C threads n ?locals = Inr (map (\<lambda>l. (l, edge, length ?os)) locals')"
      "edge_ok ?os n edge" "group_cut W C edge ?locals locals'"
      "in_window (window_around bin0) edge \<Longrightarrow> \<exists>cuts. decide_from_window n (window_around bin0) (map (window_rank C (window_around bin0)) ?locals) =
         Inr (Some (map (\<lambda>c. (edge, length ?os, c)) cuts)) \<and> length cuts = length ?locals \<and>
         (\<forall>i < length ?locals. cut_matches C edge (?locals ! i) (locals' ! i) (cuts ! i))"
      "\<not> in_window (window_around bin0) edge \<Longrightarrow> decide_from_window n (window_around bin0) (map (window_rank C (window_around bin0)) ?locals) = Inr None"
    using decide_window_ok [OF assms(1), of C threads n bin0] unfolding os by (auto split: if_splits)
  have len: "length locals' = length ranks" and inv': "\<forall>i < length ranks. sum_inv W (locals' ! i)"
    using pass(3) by (simp_all add: group_cut_def)
  have "\<exists>ranks'. finalize_group C threads n ranks = Inr ranks' \<and> length ranks' = length ranks \<and>
      (\<forall>i < length ranks. rank_done C n (length ?os) (fst (ranks ! i)) (ranks' ! i) (locals' ! i))"
  proof (cases "lo_within ?oct0")
    case True
    then have "length ?os \<le> n" using assms(2) os by (simp add: ready_octaves_def)
    then have "edge = KeepAll" using pass(2) by (auto simp: edge_ok_def split: edge_decision.splits)
    then have same: "locals' ! i = snd (ranks ! i)" if "i < length ranks" for i
      using pass(3) inv [OF that] that by (auto simp: group_cut_def with_quota_def cut_terms_def intro: cut_equal)
    have "rank_done C n (length ?os) (fst (ranks ! i)) ((\<lambda>(oct, s). (oct\<lparr>lo_within := False\<rparr>, s)) (ranks ! i)) (locals' ! i)" if "i < length ranks" for i
    proof -
      obtain oct s where r: "ranks ! i = (oct, s)" by (cases "ranks ! i")
      show ?thesis using True same [OF that] ranks [OF that] by (simp add: r rank_done_def apply_pending_def len_after_cut_def)
    qed
    then show ?thesis using True by (simp add: finalize_group_def Let_def)
  next
    case False
    let ?counted = "map (\<lambda>(oct, s). (oct\<lparr>lo_within := False, lo_counted := lo_counted oct \<and> lo_window oct = None\<rparr>, s)) ranks"
    let ?data = "map (\<lambda>(oct, s). (pm_len s, lo_per_bucket oct, lo_totals oct)) ranks"
    have cut: "lo_pending oct = None \<Longrightarrow> rank_done C n (length ?os) (fst (ranks ! i)) (conclude_pass n edge (length ?os) oct, locals' ! i) (locals' ! i)"
        "cut_matches C edge (?locals ! i) (locals' ! i) (lo_pending oct) \<Longrightarrow>
          rank_done C n (length ?os) (fst (ranks ! i)) (conclude_pass n edge (length ?os) oct, if edge = Clear then sum_clear (?locals ! i) else ?locals ! i) (locals' ! i)"
      if "i < length ranks" "lo_window oct = lo_window ?oct0" "\<not> lo_within oct" for i oct
    proof -
      have "i < length ?locals" "\<not> lo_within (fst (ranks ! i))" "lo_window oct = lo_window (fst (ranks ! i))" using ranks [OF that(1)] that False by simp_all
      note c = rank_cut [OF pass(3) this(1) inv [OF that(1)] pass(2) ranks(3) [OF that(1)] this(2,3) that(3)]
      show "lo_pending oct = None \<Longrightarrow> rank_done C n (length ?os) (fst (ranks ! i)) (conclude_pass n edge (length ?os) oct, locals' ! i) (locals' ! i)" by (rule c(1))
      show "cut_matches C edge (?locals ! i) (locals' ! i) (lo_pending oct) \<Longrightarrow>
          rank_done C n (length ?os) (fst (ranks ! i)) (conclude_pass n edge (length ?os) oct, if edge = Clear then sum_clear (?locals ! i) else ?locals ! i) (locals' ! i)" by (rule c(2))
    qed
    show ?thesis
    proof (cases "lo_counted ?oct0 \<and> lo_window ?oct0 \<noteq> None \<and> in_window (window_around bin0) edge")
      case True
      then have w: "lo_window ?oct0 = Some (window_around bin0)" using bin0 by auto
      have "?data = map (window_rank C (window_around bin0)) ?locals"
        using assms(2) True w by (auto simp: ready_octaves_def Let_def split_def)
      with pass(4) True obtain cuts where cuts: "decide_from_window n (window_around bin0) ?data = Inr (Some (map (\<lambda>c. (edge, length ?os, c)) cuts))"
          "length cuts = length ranks" "\<forall>i < length ranks. cut_matches C edge (?locals ! i) (locals' ! i) (cuts ! i)" by auto
      let ?f = "\<lambda>(oct, s) (edge, in_all, bcut). (conclude_pass n edge in_all (oct\<lparr>lo_pending := bcut\<rparr>), if edge = Clear then sum_clear s else s)"
      have "finalize_group C threads n ranks = Inr (map2 ?f ?counted (map (\<lambda>c. (edge, length ?os, c)) cuts))"
        unfolding finalize_group_def Let_def using False True w cuts(1) by simp
      moreover have "rank_done C n (length ?os) (fst (ranks ! i)) (map2 ?f ?counted (map (\<lambda>c. (edge, length ?os, c)) cuts) ! i) (locals' ! i)" if "i < length ranks" for i
      proof -
        obtain oct s where r: "ranks ! i = (oct, s)" by (cases "ranks ! i")
        let ?new = "oct\<lparr>lo_within := False, lo_counted := lo_counted oct \<and> lo_window oct = None, lo_pending := cuts ! i\<rparr>"
        have at_i: "map2 ?f ?counted (map (\<lambda>c. (edge, length ?os, c)) cuts) ! i = (conclude_pass n edge (length ?os) ?new, if edge = Clear then sum_clear (?locals ! i) else ?locals ! i)"
          using that cuts(2) by (simp add: r)
        have "lo_window ?new = lo_window ?oct0" "\<not> lo_within ?new" "cut_matches C edge (?locals ! i) (locals' ! i) (lo_pending ?new)"
          using ranks(2) [OF that] cuts(3) [THEN spec, THEN mp, OF that] that by (simp_all add: r)
        then show ?thesis unfolding at_i by (rule cut(2) [OF that])
      qed
      ultimately show ?thesis using cuts(2) by simp
    next
      case out: False
      have "(case lo_window ?oct0 of Some window \<Rightarrow> if lo_counted ?oct0 then decide_from_window n window ?data else Inr None | None \<Rightarrow> Inr None) = Inr None"
      proof (cases "lo_counted ?oct0 \<and> lo_window ?oct0 \<noteq> None")
        case True
        then have w: "lo_window ?oct0 = Some (window_around bin0)" using bin0 by auto
        have "?data = map (window_rank C (window_around bin0)) ?locals" using assms(2) True w by (auto simp: ready_octaves_def Let_def split_def)
        moreover have "\<not> in_window (window_around bin0) edge" using True out by simp
        ultimately show ?thesis using True w pass(5) by (simp only: option.case if_True not_False_eq_True simp_thms)
      qed (auto split: option.split)
      then have "finalize_group C threads n ranks =
          Inr (map2 (\<lambda>(oct, _) (s, edge, in_all). (conclude_pass n edge in_all oct, s)) ?counted (map (\<lambda>l. (l, edge, length ?os)) locals'))"
        unfolding finalize_group_def Let_def using False pass(1) by simp
      moreover have "rank_done C n (length ?os) (fst (ranks ! i))
          (map2 (\<lambda>(oct, _) (s, edge, in_all). (conclude_pass n edge in_all oct, s)) ?counted (map (\<lambda>l. (l, edge, length ?os)) locals') ! i) (locals' ! i)"
        if "i < length ranks" for i
      proof -
        obtain oct s where r: "ranks ! i = (oct, s)" by (cases "ranks ! i")
        show ?thesis
          using cut(1) [OF that, of "oct\<lparr>lo_within := False, lo_counted := lo_counted oct \<and> lo_window oct = None\<rparr>"] len that ranks [OF that] by (simp add: r)
      qed
      ultimately show ?thesis using len by simp
    qed
  qed
  then show ?thesis using pass(1) len inv' os by (auto simp del: map_map)
qed

section \<open>The bound on the length\<close>

text \<open>What \<open>max_fanout\<close> promises of every term, along whichever path the layer takes.\<close>

lemma max_fanout_emits:
  assumes "coefficient_laws C" "prepared_ok W n h pr" "rotation_exact W C pr known" "max_fanout W C pr = Inr fanout" "wf_key W (fst t)"
  shows "length (prepared_emit C pr (fst t) (snd t)) \<le> fanout"
proof (cases pr)
  case (Rotation r)
  then show ?thesis using assms(4) by (simp add: max_fanout_def prepared_emit_def split: option.split)
next
  case (Local p)
  let ?s = "support_bits p (fst (fst t)) (snd (fst t))"
  note nz = coefficient_laws.nonzero_iff [OF assms(1)] coefficient_laws.eq_iff [OF assms(1)]
  have p: "lp_ok W p" using assms(2) Local by (simp add: prepared_ok_def)
  have s: "?s < 4 ^ lp_num p" "?s < LOCAL_DIM"
    using support_bits_eq [OF p, of "fst (fst t)" "snd (fst t)"] assms(5) lp_ok_dim(1,3) [OF p] local_pattern_bound [of "lp_support p" "fst t"]
    by simp_all
  have "length (List.map_filter (\<lambda>d. emit C d ?s x z c) ds) = length (filter (\<lambda>d. is_nonzero C (de_amplitude d ! ?s)) ds)" for x z c ds
    by (induction ds) (simp_all add: emit_def Let_def nz)
  then have emits: "length (prepared_emit C pr (fst t) (snd t)) = length (filter (\<lambda>d. is_nonzero C (de_amplitude d ! ?s)) (lp_deltas p))"
    by (simp add: Local prepared_emit_def emit_all_def)
  obtain r where r: "rotation_layer_of W C p = Inr r"
    using assms(4) Local by (cases "rotation_layer_of W C p") (simp_all add: max_fanout_def)
  show ?thesis
  proof (cases "case r of None \<Rightarrow> False | Some l \<Rightarrow> rl_clifford l")
    case True
    then obtain layer where layer: "r = Some layer" "rl_clifford layer" by (auto split: option.splits)
    have masks: "masks_ok W p" "exact_clifford C layer"
      using assms(3) r layer(1) by (simp_all add: Local rotation_exact_def)
    obtain idn gen where "lp_deltas p = [idn, gen]" "rl_identity layer = de_amplitude idn" "rl_partner layer = de_amplitude gen" "rl_ptm layer = p"
      using rotation_layer_of_ok(2) [OF assms(2) [unfolded Local] masks(1) r [unfolded layer(1)]] by blast
    moreover have "fanout = 1" using assms(4) Local r True by (simp add: max_fanout_def)
    ultimately show ?thesis using emits masks(2) layer(2) s(1) by (auto simp: exact_clifford_def nz)
  next
    case False
    let ?counts = "map (\<lambda>s. length (filter (\<lambda>d. is_nonzero C (de_amplitude d ! s)) (lp_deltas p))) [0..<LOCAL_DIM]"
    have "fanout = max 1 (Max (set ?counts))" using assms(4) Local r False by (simp add: max_fanout_def)
    moreover have "length (filter (\<lambda>d. is_nonzero C (de_amplitude d ! ?s)) (lp_deltas p)) \<le> Max (set ?counts)"
      using s(2) by (intro Max_ge) auto
    ultimately show ?thesis using emits by simp
  qed
qed

lemma emitted_bound:
  assumes "coefficient_laws C" "prepared_ok W n h pr" "rotation_exact W C pr known" "max_fanout W C pr = Inr fanout" "\<forall>t \<in> set ts. wf_key W (fst t)"
  shows "length (emitted C pr ts) \<le> length ts * fanout"
  using assms(5)
proof (induction ts)
  case (Cons t ts)
  then show ?case using max_fanout_emits [OF assms(1-4), of t] by (simp add: emitted_def)
qed (simp add: emitted_def)

text \<open>A sum that holds no key but those emitted is no longer than the emitted rows.\<close>

lemma key_total_absent: "k \<notin> fst ` set ts \<Longrightarrow> key_total C ts k = c_zero C"
  unfolding key_total_def by (induction ts) auto

lemma kept_total_len:
  assumes "coefficient_laws C" "sum_inv W s'" "\<forall>k. sum_lookup s' k = kept_total C policy rows k"
  shows "pm_len s' \<le> length rows"
proof -
  have "fst ` set (sum_iter s') \<subseteq> fst ` set rows"
  proof
    fix k assume "k \<in> fst ` set (sum_iter s')"
    then obtain c where "kept_total C policy rows k = Some c"
      using assms(3) sum_lookup_iff(1) [OF assms(2)] by fastforce
    then show "k \<in> fst ` set rows"
      using key_total_absent [of k rows C] by (auto simp: kept_total_def Let_def coefficient_laws.eq_iff [OF assms(1)] split: if_splits)
  qed
  then have "card (fst ` set (sum_iter s')) \<le> card (fst ` set rows)" by (intro card_mono) simp_all
  also have "\<dots> \<le> length rows" by (metis card_length length_map list.set_map)
  finally show ?thesis
    using distinct_card [OF sum_lookup_iff(2) [OF assms(2)]] assms(2) by (simp add: sum_inv_def)
qed

lemma begin_layer_within:
  assumes "lo_within (begin_layer fanout (Some f) exchanges oct)" "\<forall>b. lo_bound oct = Some b \<longrightarrow> len \<le> b" "len' \<le> len * fanout" "len' \<le> usize_max"
  shows "len' \<le> fused_n f"
proof -
  obtain b where b: "lo_bound oct = Some b" "saturating_mul b fanout \<le> fused_n f"
    using assms(1) by (auto simp: begin_layer_def Let_def split: if_splits option.splits)
  have "len' \<le> b * fanout" using assms(2,3) b(1) by (meson le_trans mult_le_mono1)
  then show ?thesis using b(2) assms(4) by (simp add: saturating_mul_def)
qed

lemma octaves_finalize_solo: "octaves_finalize C threads f [rank] = finalize_group C threads (fused_n f) [rank]"
  by (cases "finalize_group C threads (fused_n f) [rank]") (simp_all add: octaves_finalize_def)

text \<open>An agreed pass is that of the whole group.\<close>

lemma octaves_finalize_agreed: "agreed f \<Longrightarrow> octaves_finalize C threads f ranks = finalize_group C threads (fused_n f) ranks"
  by (simp add: octaves_finalize_def)

end
