(* ===== verification/Partition_Plan.thy ===== *)
theory Partition_Plan
  imports Layer_Theorems Partition
begin

unbundle bit_operations_syntax

text \<open>
  \<open>engine/plan.rs\<close>: how the key deltas of a prepared channel split under the partition rows, into local ones, which leave a
  term in its partition, and remote ones, which move it to a partner. The rows are linear, so the split depends on the delta
  alone: every partition derives the same one, a partner's plan mirrors it, and the partitions an exchange connects are a coset of
  the span of the partition deltas.
\<close>

section \<open>The code\<close>

record remote_delta =
  rd_entry :: nat
  rd_partner :: u32
  rd_bucket_delta :: u32

record partition_plan =
  pp_local_entries :: "bool list"
  pp_local_bucket_deltas :: "u32 list"
  pp_remote :: "remote_delta list"
  pp_rest_streams_total :: nat

definition classify_delta :: "partition_rows \<Rightarrow> u32 \<Rightarrow> nat \<times> key \<times> u32 \<Rightarrow> partition_plan \<Rightarrow> partition_plan" where
  "classify_delta rows rank = (\<lambda>(entry, k, bucket_delta) plan.
     let partition_delta = partition_of rows k;
         plan = plan\<lparr>pp_local_entries := pp_local_entries plan @ [partition_delta = 0]\<rparr>
     in if partition_delta = 0 then plan\<lparr>pp_local_bucket_deltas := pp_local_bucket_deltas plan @ [bucket_delta]\<rparr>
        else plan\<lparr>pp_remote := pp_remote plan @ [\<lparr>rd_entry = entry, rd_partner = rank XOR partition_delta, rd_bucket_delta = bucket_delta\<rparr>]\<rparr>)"

definition plan_entries :: "nat \<Rightarrow> 'c prepared \<Rightarrow> (key \<times> u32) list" where
  "plan_entries W pr =
     (case pr of
        Local ptm \<Rightarrow> map (\<lambda>d. (de_mask d, de_bucket_delta d)) (lp_deltas ptm)
      | Rotation r \<Rightarrow> [(zero_key W, rt_delta_identity r), (generator_mask r, rt_delta_generator r)])"

definition plan_rebuild :: "nat \<Rightarrow> 'c prepared \<Rightarrow> partition_rows \<Rightarrow> u32 \<Rightarrow> partition_plan" where
  "plan_rebuild W pr rows rank =
     (let plan = fold (classify_delta rows rank) (enumerate 0 (plan_entries W pr))
            \<lparr>pp_local_entries = [], pp_local_bucket_deltas = [0], pp_remote = [], pp_rest_streams_total = 0\<rparr>
      in plan\<lparr>pp_rest_streams_total := (case pr of Local ptm \<Rightarrow> rest_streams ptm | Rotation _ \<Rightarrow> 1),
              pp_local_bucket_deltas := remdups_adj (sort (pp_local_bucket_deltas plan))\<rparr>)"

definition has_remote :: "partition_plan \<Rightarrow> bool" where
  "has_remote plan \<longleftrightarrow> pp_remote plan \<noteq> []"

definition index_among_partner :: "partition_plan \<Rightarrow> nat \<Rightarrow> nat" where
  "index_among_partner plan remote =
     (let partner = rd_partner (pp_remote plan ! remote)
      in length (filter (\<lambda>other. rd_partner other = partner) (take remote (pp_remote plan))))"

definition received_block_index :: "partition_plan \<Rightarrow> nat \<Rightarrow> nat" where
  "received_block_index plan remote = index_among_partner plan remote"

definition sent_block_index :: "partition_plan \<Rightarrow> nat \<Rightarrow> nat" where
  "sent_block_index plan remote = index_among_partner plan remote"

definition span_step :: "u32 \<Rightarrow> remote_delta \<Rightarrow> u32 list \<Rightarrow> u32 list" where
  "span_step rank remote sp =
     (let offset = rd_partner remote XOR rank
      in if offset \<notin> set sp then sp @ map (\<lambda>member. member XOR offset) sp else sp)"

definition exchange_group :: "partition_plan \<Rightarrow> u32 \<Rightarrow> u32 list" where
  "exchange_group plan rank = map (\<lambda>offset. rank XOR offset) (drop 1 (fold (span_step rank) (pp_remote plan) [0]))"

section \<open>The classification\<close>

lemma fold_classify:
  "fold (classify_delta rows rank) (enumerate n es) plan =
     plan\<lparr>pp_local_entries := pp_local_entries plan @ map (\<lambda>(k, _). partition_of rows k = 0) es,
          pp_local_bucket_deltas := pp_local_bucket_deltas plan @ map snd (filter (\<lambda>(k, _). partition_of rows k = 0) es),
          pp_remote := pp_remote plan @ map (\<lambda>(i, k, d). \<lparr>rd_entry = i, rd_partner = rank XOR partition_of rows k, rd_bucket_delta = d\<rparr>)
            (filter (\<lambda>(i, k, d). partition_of rows k \<noteq> 0) (enumerate n es))\<rparr>"
  by (induction es arbitrary: n plan) (auto simp: classify_delta_def Let_def)

lemma plan_remote:
  "pp_remote (plan_rebuild W pr rows rank) =
     map (\<lambda>(i, k, d). \<lparr>rd_entry = i, rd_partner = rank XOR partition_of rows k, rd_bucket_delta = d\<rparr>)
       (filter (\<lambda>(i, k, d). partition_of rows k \<noteq> 0) (enumerate 0 (plan_entries W pr)))"
  by (simp add: plan_rebuild_def fold_classify Let_def)

text \<open>The keys a channel emits are the input shifted by its entries' masks.\<close>

lemma emitted_entry:
  assumes "prepared_ok W n h pr" "wf_key W k" "row \<in> set (prepared_emit C pr k c)"
  obtains i where "i < length (plan_entries W pr)" "fst row = xor_key k (fst (plan_entries W pr ! i))" "wf_key W (fst (plan_entries W pr ! i))"
proof (cases pr)
  case (Local p)
  then obtain d where d: "d \<in> set (lp_deltas p)" "fst row = xor_key k (de_mask d)"
    using assms(3) by (auto simp: prepared_emit_def emit_all_def emit_def de_mask_def map_filter_def Let_def xor_key_def split: if_splits)
  moreover have "wf_key W (de_mask d)" using assms(1) d(1) by (simp add: Local prepared_ok_def buckets_ok_def)
  ultimately show ?thesis using that by (fastforce simp: Local plan_entries_def in_set_conv_nth)
next
  case (Rotation r)
  have zero: "wf_key W (zero_key W)" "xor_key k (zero_key W) = k" using xor_key_zero(1) [OF assms(2)] by (simp_all add: wf_key_def zero_key_def)
  have g: "wf_ps W (rt_generator r)" "wf_key W (generator_mask r)" using assms(1) by (simp_all add: Rotation prepared_ok_def key_ok_def)
  consider "fst row = k" | "generator_row C r (k, c) = Some row"
    using assms(3) by (auto simp: Rotation prepared_emit_def generator_row_def split: option.splits)
  then show ?thesis
  proof cases
    case 1
    then show ?thesis using that [of 0] zero by (simp add: Rotation plan_entries_def)
  next
    case 2
    then show ?thesis using that [of 1] g generator_row_eq [OF g(1), of "(k, c)" C row] assms(2) by (simp add: Rotation plan_entries_def)
  qed
qed

section \<open>The exchange group\<close>

definition plan_offsets :: "nat \<Rightarrow> 'c prepared \<Rightarrow> partition_rows \<Rightarrow> u32 list" where
  "plan_offsets W pr rows = filter (\<lambda>d. d \<noteq> 0) (map (\<lambda>(k, _). partition_of rows k) (plan_entries W pr))"

lemma plan_partners: "map (\<lambda>rd. rd_partner rd XOR rank) (pp_remote (plan_rebuild W pr rows rank)) = plan_offsets W pr rows"
proof -
  have "map (\<lambda>(i, k, d). partition_of rows k) (filter (\<lambda>(i, k, d). partition_of rows k \<noteq> 0) (enumerate n es)) =
      filter (\<lambda>d. d \<noteq> 0) (map (\<lambda>(k, _). partition_of rows k) es)" for n and es :: "(key \<times> u32) list"
    by (induction es arbitrary: n) auto
  moreover have "(rank XOR d) XOR rank = d" for d :: u32 by (metis xor.assoc xor.commute xor_self_eq xor.right_neutral)
  ultimately show ?thesis by (simp add: plan_remote plan_offsets_def comp_def split_def)
qed

lemma delta_span_Cons: "delta_span (d # ds) = delta_span ds \<union> (\<lambda>v. v XOR d) ` delta_span ds"
proof
  show "delta_span (d # ds) \<subseteq> delta_span ds \<union> (\<lambda>v. v XOR d) ` delta_span ds"
  proof
    fix v assume "v \<in> delta_span (d # ds)"
    then obtain b bs where b: "v = xor_sel (d # ds) (b # bs)" "length bs = length ds"
      by (auto simp: delta_span_def length_Suc_conv)
    then show "v \<in> delta_span ds \<union> (\<lambda>v. v XOR d) ` delta_span ds"
      by (cases b) (auto simp: delta_span_def xor.commute intro!: image_eqI)
  qed
  have "delta_span ds \<subseteq> delta_span (d # ds)" by (intro delta_span_mono) auto
  then show "delta_span ds \<union> (\<lambda>v. v XOR d) ` delta_span ds \<subseteq> delta_span (d # ds)"
    using delta_span_xor [of _ "d # ds" d] delta_span_base [of d "d # ds"] by auto
qed

lemma xor_cancel:
  fixes a b c :: u32
  shows "a XOR b = a XOR c \<longleftrightarrow> b = c" "b XOR a = c XOR a \<longleftrightarrow> b = c"
proof -
  have "a XOR (a XOR d) = d" for d by (simp flip: xor.assoc)
  then show "a XOR b = a XOR c \<longleftrightarrow> b = c" by metis
  then show "b XOR a = c XOR a \<longleftrightarrow> b = c" by (simp add: xor.commute)
qed

lemma span_step_ok:
  assumes "set sp = delta_span ds" "distinct sp" "\<exists>sp'. sp = 0 # sp'"
  shows "set (span_step rank rd sp) = delta_span ((rd_partner rd XOR rank) # ds)" "distinct (span_step rank rd sp)" "\<exists>sp'. span_step rank rd sp = 0 # sp'"
proof -
  let ?d = "rd_partner rd XOR rank"
  have in_span: "delta_span (?d # ds) = delta_span ds" if "?d \<in> delta_span ds"
    using that delta_span_subset [of "?d # ds" ds] delta_span_mono [of ds "?d # ds"] by (auto intro: delta_span_base)
  have "v XOR ?d \<notin> delta_span ds" if "v \<in> delta_span ds" "?d \<notin> delta_span ds" for v
    using that delta_span_xor [of v ds "v XOR ?d"] by (auto simp flip: xor.assoc)
  moreover have "inj_on (\<lambda>v. v XOR ?d) S" for S by (intro inj_onI) (simp add: xor_cancel)
  ultimately show "distinct (span_step rank rd sp)" using assms(1,2) by (auto simp: span_step_def Let_def distinct_map)
  show "set (span_step rank rd sp) = delta_span (?d # ds)" using assms(1) in_span by (auto simp: span_step_def Let_def delta_span_Cons)
  show "\<exists>sp'. span_step rank rd sp = 0 # sp'" using assms(3) by (auto simp: span_step_def Let_def)
qed

lemma exchange_group_coset:
  "set (exchange_group (plan_rebuild W pr rows rank) rank) = (\<lambda>d. rank XOR d) ` delta_span (plan_offsets W pr rows) - {rank}"
  "distinct (exchange_group (plan_rebuild W pr rows rank) rank)"
proof -
  let ?rs = "pp_remote (plan_rebuild W pr rows rank)"
  have "set (fold (span_step rank) rs sp) = delta_span (rev (map (\<lambda>rd. rd_partner rd XOR rank) rs) @ ds) \<and> distinct (fold (span_step rank) rs sp) \<and>
      (\<exists>sp'. fold (span_step rank) rs sp = 0 # sp')" if "set sp = delta_span ds" "distinct sp" "\<exists>sp'. sp = 0 # sp'" for rs sp ds
    using that
  proof (induction rs arbitrary: sp ds)
    case (Cons rd rs)
    show ?case using Cons.IH [OF span_step_ok [OF Cons.prems]] by simp
  qed simp
  from this [of "[0]" "[]" ?rs] obtain sp where sp: "fold (span_step rank) ?rs [0] = 0 # sp" "distinct (0 # sp)"
      "set (0 # sp) = delta_span (rev (plan_offsets W pr rows))"
    by (auto simp: plan_partners delta_span_def)
  have "delta_span (rev (plan_offsets W pr rows)) = delta_span (plan_offsets W pr rows)" by (intro equalityI delta_span_mono) auto
  then have "set sp = delta_span (plan_offsets W pr rows) - {0}" using sp(2,3) by auto
  moreover have inj: "rank XOR a = rank XOR b \<longleftrightarrow> a = b" for a b by (rule xor_cancel)
  ultimately show "set (exchange_group (plan_rebuild W pr rows rank) rank) = (\<lambda>d. rank XOR d) ` delta_span (plan_offsets W pr rows) - {rank}"
    using inj [of _ 0] by (auto simp: exchange_group_def sp(1))
  show "distinct (exchange_group (plan_rebuild W pr rows rank) rank)"
    using sp(2) by (auto simp: exchange_group_def sp(1) distinct_map inj intro: inj_onI)
qed

section \<open>Plans of two ranks\<close>

lemma plan_mirror:
  assumes "j < length (pp_remote (plan_rebuild W pr rows r))" "q = rd_partner (pp_remote (plan_rebuild W pr rows r) ! j)"
  shows "q \<noteq> r" "length (pp_remote (plan_rebuild W pr rows q)) = length (pp_remote (plan_rebuild W pr rows r))"
    "rd_partner (pp_remote (plan_rebuild W pr rows q) ! j) = r"
    "rd_entry (pp_remote (plan_rebuild W pr rows q) ! j) = rd_entry (pp_remote (plan_rebuild W pr rows r) ! j)"
    "received_block_index (plan_rebuild W pr rows r) j = sent_block_index (plan_rebuild W pr rows q) j"
proof -
  let ?es = "filter (\<lambda>(i, k, d). partition_of rows k \<noteq> 0) (enumerate 0 (plan_entries W pr))"
  have remote: "pp_remote (plan_rebuild W pr rows r') = map (\<lambda>(i, k, d). \<lparr>rd_entry = i, rd_partner = r' XOR partition_of rows k, rd_bucket_delta = d\<rparr>) ?es" for r'
    by (rule plan_remote)
  have j: "j < length ?es" using assms(1) by (simp add: remote)
  obtain i k d where e: "?es ! j = (i, k, d)" by (cases "?es ! j")
  then have nz: "partition_of rows k \<noteq> 0" using nth_mem [OF j] by simp
  have q: "q = r XOR partition_of rows k" using assms(2) j e by (simp add: remote)
  then show "q \<noteq> r" using nz xor_cancel(1) [of r "partition_of rows k" 0] by simp
  show "length (pp_remote (plan_rebuild W pr rows q)) = length (pp_remote (plan_rebuild W pr rows r))" by (simp add: remote)
  have there: "q XOR partition_of rows k = r" unfolding q by (simp add: xor.assoc)
  then show "rd_partner (pp_remote (plan_rebuild W pr rows q) ! j) = r"
    "rd_entry (pp_remote (plan_rebuild W pr rows q) ! j) = rd_entry (pp_remote (plan_rebuild W pr rows r) ! j)"
    using j e by (simp_all add: remote)
  have "length (filter (\<lambda>other. rd_partner other = a XOR partition_of rows k) (take j (pp_remote (plan_rebuild W pr rows a)))) =
      length (filter (\<lambda>(i, l, d). partition_of rows l = partition_of rows k) (take j ?es))" for a
    by (simp add: remote take_map filter_map comp_def split_def xor_cancel(1))
  then show "received_block_index (plan_rebuild W pr rows r) j = sent_block_index (plan_rebuild W pr rows q) j"
    using j e by (simp add: received_block_index_def sent_block_index_def index_among_partner_def remote)
qed

lemma plan_routes:
  assumes "prepared_ok W n h pr" "wf_key W k" "row \<in> set (prepared_emit C pr k c)"
  shows "partition_of rows (fst row) = partition_of rows k \<or>
    partition_of rows (fst row) \<in> rd_partner ` set (pp_remote (plan_rebuild W pr rows (partition_of rows k)))"
proof -
  let ?es = "plan_entries W pr"
  obtain i where i: "i < length ?es" "fst row = xor_key k (fst (?es ! i))" "wf_key W (fst (?es ! i))" by (rule emitted_entry [OF assms])
  then have dest: "partition_of rows (fst row) = partition_of rows k XOR partition_of rows (fst (?es ! i))" using partition_of_xor [OF assms(2)] by simp
  show ?thesis
  proof (cases "partition_of rows (fst (?es ! i)) = 0")
    case False
    moreover have "(i, ?es ! i) \<in> set (enumerate 0 ?es)" using i(1) by (simp add: in_set_enumerate_eq)
    ultimately have "(i, ?es ! i) \<in> set (filter (\<lambda>(i, k, d). partition_of rows k \<noteq> 0) (enumerate 0 ?es))" by (auto simp: split_def)
    then show ?thesis unfolding plan_remote dest by (intro disjI2) (force simp: split_def)
  qed (simp add: dest)
qed

lemma exchange_group_shared:
  assumes "q \<in> insert r (set (exchange_group (plan_rebuild W pr rows r) r))"
  shows "insert q (set (exchange_group (plan_rebuild W pr rows q) q)) = insert r (set (exchange_group (plan_rebuild W pr rows r) r))"
proof -
  let ?S = "delta_span (plan_offsets W pr rows)"
  have coset: "insert a (set (exchange_group (plan_rebuild W pr rows a) a)) = (\<lambda>d. a XOR d) ` ?S" for a
    using delta_span_zero [of "plan_offsets W pr rows"] image_eqI [of a "\<lambda>d. a XOR d" 0 ?S] by (auto simp: exchange_group_coset(1))
  obtain d where d: "d \<in> ?S" "q = r XOR d" using assms unfolding coset by blast
  have "(\<lambda>e. r XOR (d XOR e)) ` ?S = (\<lambda>e. r XOR e) ` ?S"
  proof (intro equalityI image_subsetI)
    fix e assume e: "e \<in> ?S"
    show "r XOR (d XOR e) \<in> (\<lambda>e. r XOR e) ` ?S" using delta_span_xor [OF d(1) e] by blast
    have "e = d XOR (d XOR e)" by (simp flip: xor.assoc)
    then show "r XOR e \<in> (\<lambda>e. r XOR (d XOR e)) ` ?S" using delta_span_xor [OF d(1) e] by (metis image_eqI)
  qed
  then show ?thesis unfolding coset by (simp add: d(2) xor.assoc)
qed

lemma partner_in_group: "rd_partner ` set (pp_remote (plan_rebuild W pr rows r)) \<subseteq> set (exchange_group (plan_rebuild W pr rows r) r)"
proof
  fix q assume "q \<in> rd_partner ` set (pp_remote (plan_rebuild W pr rows r))"
  then obtain j where j: "j < length (pp_remote (plan_rebuild W pr rows r))" "q = rd_partner (pp_remote (plan_rebuild W pr rows r) ! j)"
    by (auto simp: in_set_conv_nth)
  have "q XOR r \<in> set (plan_offsets W pr rows)" using j nth_mem [OF j(1)] by (auto simp flip: plan_partners [of r])
  moreover have "r XOR (q XOR r) = q" by (simp add: xor.commute xor.left_commute)
  ultimately have "q \<in> (\<lambda>d. r XOR d) ` delta_span (plan_offsets W pr rows)" by (metis delta_span_base image_eqI)
  then show "q \<in> set (exchange_group (plan_rebuild W pr rows r) r)" using plan_mirror(1) [OF j] by (simp add: exchange_group_coset(1))
qed



end
