(* ===== verification/Driver.thy ===== *)
theory Driver
  imports Layer_Octaves Partition_Plan
begin

unbundle bit_operations_syntax

text \<open>
  A circuit (\<open>circuit.rs\<close>), a partition in host memory (\<open>engine/backend.rs\<close>), the driver's loop over the layers
  (\<open>engine/driver.rs\<close>) and its front door \<open>propagate\<close> (\<open>engine/mod.rs\<close>), at one partition. There the partition rows are
  \<open>none\<close>, so no plan has a remote delta and no layer exchanges. The loop is that of a policy with a layer pass, for which the
  driver takes no fused runs: every layer is prepared, applied and finalised on its own. The pool's schedule of a layer is an
  argument, as a function of the layer's index, its prepared channel and its hash. Logging, tracing and timing are left out.
\<close>

section \<open>Circuits\<close>

text \<open>A boxed channel: its \<open>Channel\<close> methods and its \<open>Prepare\<close> method.\<close>

record circuit_channel =
  cc_channel :: channel
  cc_prepare :: "gf2_hash \<Rightarrow> bool \<Rightarrow> complex prepared option result"

record circuit =
  ci_num_qubits :: nat
  ci_channels :: "circuit_channel list"

definition circuit_new :: "nat \<Rightarrow> circuit" where
  "circuit_new num_qubits = \<lparr>ci_num_qubits = num_qubits, ci_channels = []\<rparr>"

definition push_boxed :: "nat \<Rightarrow> circuit_channel \<Rightarrow> circuit \<Rightarrow> circuit result" where
  "push_boxed W ch ci =
     and_then (ch_support (cc_channel ch) W) (\<lambda>support.
       and_then (case leading_in support W of
            None \<Rightarrow> Inr ()
          | Some highest \<Rightarrow> assert_that (highest < ci_num_qubits ci) QubitOutOfRange) (\<lambda>_.
         Inr (ci\<lparr>ci_channels := ci_channels ci @ [ch]\<rparr>)))"

definition circuit_len :: "circuit \<Rightarrow> nat" where
  "circuit_len ci = length (ci_channels ci)"

definition circuit_is_empty :: "circuit \<Rightarrow> bool" where
  "circuit_is_empty ci \<longleftrightarrow> ci_channels ci = []"

text \<open>\<open>Iterator::all\<close> of a test that may panic: it stops at the first \<open>false\<close>.\<close>

fun all_result :: "('a \<Rightarrow> bool result) \<Rightarrow> 'a list \<Rightarrow> bool result" where
  "all_result f [] = Inr True"
| "all_result f (x # xs) = and_then (f x) (\<lambda>b. if b then all_result f xs else Inr False)"

definition preserves_hermiticity :: "nat \<Rightarrow> circuit \<Rightarrow> bool result" where
  "preserves_hermiticity W ci =
     and_then (hash_new W (ci_num_qubits ci) 0 DEFAULT_HASH_SEED) (\<lambda>h.
       all_result (\<lambda>ch. all_result (\<lambda>adjoint. and_then (cc_prepare ch h adjoint) (\<lambda>p.
         Inr (case p of None \<Rightarrow> True | Some pr \<Rightarrow> \<not> isl (convert_prepared real_coefficient pr)))) [False, True]) (ci_channels ci))"

definition circuit_deltas :: "nat \<Rightarrow> circuit \<Rightarrow> key list option list result" where
  "circuit_deltas W ci =
     and_then (hash_new W (ci_num_qubits ci) 0 DEFAULT_HASH_SEED) (\<lambda>h.
       map_result (\<lambda>ch. and_then (cc_prepare ch h False) (\<lambda>p.
         Inr (map_option (\<lambda>pr. case pr of
             Local ptm \<Rightarrow> filter (\<lambda>k. k \<noteq> zero_key W) (map de_mask (lp_deltas ptm))
           | Rotation r \<Rightarrow> [generator_mask r]) p))) (ci_channels ci))"

section \<open>A partition in host memory\<close>

record 'c host_partition =
  hp_sum :: "'c pauli_sum"
  hp_layer :: "'c layer_scratch"

definition host_len :: "'c host_partition \<Rightarrow> nat" where
  "host_len hp = len_after_cut (ls_octaves (hp_layer hp)) (pm_len (hp_sum hp))"

definition host_apply_pending :: "'c coefficient \<Rightarrow> 'c host_partition \<Rightarrow> 'c host_partition" where
  "host_apply_pending C hp =
     (case apply_pending C (ls_octaves (hp_layer hp), hp_sum hp) of
        (oct, s) \<Rightarrow> hp\<lparr>hp_sum := s, hp_layer := (hp_layer hp)\<lparr>ls_octaves := oct\<rparr>\<rparr>)"

definition host_forget :: "'c host_partition \<Rightarrow> 'c host_partition" where
  "host_forget hp = hp\<lparr>hp_layer := (hp_layer hp)\<lparr>ls_supports := supports_forget (ls_supports (hp_layer hp))\<rparr>\<rparr>"

definition host_refine :: "'c coefficient \<Rightarrow> 'c host_partition \<Rightarrow> 'c host_partition result" where
  "host_refine C hp =
     (let hp = host_forget (host_apply_pending C hp)
      in and_then (sum_refine (hp_sum hp)) (\<lambda>s. Inr (hp\<lparr>hp_sum := s\<rparr>)))"

definition host_coarsen_to :: "'c coefficient \<Rightarrow> nat \<Rightarrow> 'c host_partition \<Rightarrow> 'c host_partition result" where
  "host_coarsen_to C bits hp =
     (let hp = host_forget (host_apply_pending C hp)
      in and_then (coarsen_to (hp_sum hp) bits) (\<lambda>s. Inr (hp\<lparr>hp_sum := s\<rparr>)))"

definition refine_unprepared :: "'c coefficient \<Rightarrow> nat \<Rightarrow> nat \<Rightarrow> 'c host_partition \<Rightarrow> 'c host_partition result" where
  "refine_unprepared C target_bucket_len min_buckets hp =
     (let bits = gh_bits (pm_hash (hp_sum hp));
          wanted = min (rebucketed_bits (host_len hp) bits target_bucket_len min_buckets) (hash_max_bits (pm_hash (hp_sum hp)))
      in if wanted \<noteq> bits
         then let hp = host_forget (host_apply_pending C hp)
              in and_then (rebucket (hp_sum hp) target_bucket_len min_buckets) (\<lambda>s. Inr (hp\<lparr>hp_sum := s\<rparr>))
         else Inr hp)"

definition begin_call :: "'c host_partition \<Rightarrow> 'c host_partition" where
  "begin_call hp = host_forget hp"

definition host_settle :: "'c coefficient \<Rightarrow> 'c host_partition \<Rightarrow> 'c host_partition" where
  "host_settle C hp =
     (case octaves_settle C (ls_octaves (hp_layer hp), hp_sum hp) of
        (oct, s) \<Rightarrow> host_forget (hp\<lparr>hp_sum := s, hp_layer := (hp_layer hp)\<lparr>ls_octaves := oct\<rparr>\<rparr>))"

text \<open>A layer whose plan has no remote delta.\<close>

definition host_apply_layer ::
    "nat \<Rightarrow> 'c machine \<Rightarrow> 'c coefficient \<Rightarrow> 'c prepared \<Rightarrow> partition_plan \<Rightarrow> ('s, 'c) truncation_policy \<Rightarrow> 'c host_partition \<Rightarrow>
     'c host_partition result" where
  "host_apply_layer W M C pr plan policy hp =
     and_then (max_fanout W C pr) (\<lambda>fanout.
     and_then (fused_pass policy) (\<lambda>fused.
       let scratch = (hp_layer hp)\<lparr>ls_octaves := begin_layer fanout fused (has_remote plan) (ls_octaves (hp_layer hp))\<rparr>
       in and_then (apply_layer_bucketed W M C pr policy (hp_sum hp) scratch) (\<lambda>(s, scratch).
            Inr (hp\<lparr>hp_sum := s, hp_layer := scratch\<rparr>))))"

definition host_finalize_layer ::
    "'c coefficient \<Rightarrow> nat \<Rightarrow> ('s, 'c) truncation_policy \<Rightarrow> 's \<times> 'c host_partition \<Rightarrow> ('s \<times> 'c host_partition) result" where
  "host_finalize_layer C threads policy = (\<lambda>(st, hp).
     and_then (fused_pass policy) (\<lambda>fused.
       case fused of
         Some f \<Rightarrow>
           and_then (octaves_finalize C threads f [(ls_octaves (hp_layer hp), hp_sum hp)]) (\<lambda>ranks.
             case hd ranks of (oct, s) \<Rightarrow> Inr (st, hp\<lparr>hp_sum := s, hp_layer := (hp_layer hp)\<lparr>ls_octaves := oct\<rparr>\<rparr>))
       | None \<Rightarrow>
           and_then (finalizes_layer policy) (\<lambda>finalizes.
             let hp = (if finalizes then host_forget hp else hp)
             in and_then (finalize_layer_partitioned policy [(st, hp_sum hp)]) (\<lambda>ranks.
                  case hd ranks of (st, s) \<Rightarrow> Inr (st, hp\<lparr>hp_sum := s\<rparr>)))))"

section \<open>The driver\<close>

datatype direction = Forward | Heisenberg

record propagate_options =
  po_target_bucket_len :: nat
  po_min_buckets :: nat

definition SMALLEST_MIN_BUCKETS :: nat where
  "SMALLEST_MIN_BUCKETS = 16"

definition options_assert_valid :: "propagate_options \<Rightarrow> unit result" where
  "options_assert_valid options =
     and_then (assert_that (po_target_bucket_len options \<noteq> 0) InvalidOptions) (\<lambda>_.
       assert_that (\<not> po_min_buckets options < SMALLEST_MIN_BUCKETS) InvalidOptions)"

definition options_default :: propagate_options where
  "options_default = \<lparr>po_target_bucket_len = DEFAULT_TARGET_BUCKET_LEN, po_min_buckets = DEFAULT_MIN_BUCKETS\<rparr>"

definition prepare_or_panic :: "'c coefficient \<Rightarrow> circuit_channel \<Rightarrow> gf2_hash \<Rightarrow> bool \<Rightarrow> 'c prepared result" where
  "prepare_or_panic C ch h adjoint =
     and_then (cc_prepare ch h adjoint) (\<lambda>p.
       case p of
         None \<Rightarrow> Inl NoEngineForm
       | Some pr \<Rightarrow> (case convert_prepared C pr of Inl _ \<Rightarrow> Inl ExpectFailed | Inr pr \<Rightarrow> Inr pr))"

definition assert_coefficient_type :: "nat \<Rightarrow> 'c coefficient \<Rightarrow> circuit \<Rightarrow> unit result" where
  "assert_coefficient_type W C ci =
     (if \<not> is_real C then Inr () else and_then (preserves_hermiticity W ci) (\<lambda>ok. assert_that ok ImaginaryAmplitudePanic))"

definition circuit_index_of :: "direction \<Rightarrow> nat \<Rightarrow> nat \<Rightarrow> nat" where
  "circuit_index_of direction num_layers application_index =
     (case direction of Forward \<Rightarrow> application_index | Heisenberg \<Rightarrow> num_layers - 1 - application_index)"

text \<open>
  One turn of the loop. With a layer pass \<open>Runs::take\<close> answers \<open>None\<close> at once, and at one partition the host settles the bucket
  count before it prepares, so neither the runs nor the agreement of the count appear.
\<close>

type_synonym 'c pool = "nat \<Rightarrow> 'c prepared \<Rightarrow> gf2_hash \<Rightarrow> 'c machine"

definition run_layer ::
    "nat \<Rightarrow> 'c pool \<Rightarrow> 'c coefficient \<Rightarrow> nat \<Rightarrow> circuit \<Rightarrow> ('s, 'c) truncation_policy \<Rightarrow> direction \<Rightarrow> propagate_options \<Rightarrow> partition_rows \<Rightarrow>
     nat \<Rightarrow> 's \<times> 'c host_partition \<Rightarrow> ('s \<times> 'c host_partition) result" where
  "run_layer W M C threads ci policy direction options rows application_index = (\<lambda>(st, hp).
     let circuit_index = circuit_index_of direction (circuit_len ci) application_index;
         ch = ci_channels ci ! circuit_index
     in and_then (refine_unprepared C (po_target_bucket_len options) (po_min_buckets options) hp) (\<lambda>hp.
        and_then (prepare_or_panic C ch (pm_hash (hp_sum hp)) (direction = Heisenberg)) (\<lambda>pr.
          let plan = plan_rebuild W pr rows 0
          in and_then (host_apply_layer W (M application_index pr (pm_hash (hp_sum hp))) C pr plan policy hp) (\<lambda>hp.
             and_then (finalizes_layer policy) (\<lambda>finalizes.
               if finalizes then host_finalize_layer C threads policy (st, hp) else Inr (st, hp))))))"

definition run_layers ::
    "nat \<Rightarrow> 'c pool \<Rightarrow> 'c coefficient \<Rightarrow> nat \<Rightarrow> circuit \<Rightarrow> ('s, 'c) truncation_policy \<Rightarrow> direction \<Rightarrow> propagate_options \<Rightarrow> partition_rows \<Rightarrow>
     's \<times> 'c host_partition \<Rightarrow> ('s \<times> 'c host_partition) result" where
  "run_layers W M C threads ci policy direction options rows = (\<lambda>(st, hp).
     and_then (assert_coefficient_type W C ci) (\<lambda>_.
     and_then (fold_result (run_layer W M C threads ci policy direction options rows) [0..<circuit_len ci] (st, begin_call hp)) (\<lambda>(st, hp).
       Inr (st, host_settle C hp))))"

definition propagate_with ::
    "nat \<Rightarrow> 'c pool \<Rightarrow> 'c coefficient \<Rightarrow> nat \<Rightarrow> circuit \<Rightarrow> 'c pauli_sum \<Rightarrow> ('s, 'c) truncation_policy \<Rightarrow> 's \<Rightarrow> direction \<Rightarrow>
     'c layer_scratch \<Rightarrow> propagate_options \<Rightarrow> ('s \<times> 'c pauli_sum \<times> 'c layer_scratch) result" where
  "propagate_with W M C threads ci s policy st direction scratch options =
     and_then (options_assert_valid options) (\<lambda>_.
     and_then (run_layers W M C threads ci policy direction options (partition_none (pm_num_qubits s)) (st, \<lparr>hp_sum = s, hp_layer = scratch\<rparr>))
       (\<lambda>(st, hp). Inr (st, hp_sum hp, hp_layer hp)))"

definition layer_scratch_new :: "'c layer_scratch" where
  "layer_scratch_new =
     \<lparr>ls_task = \<lparr>cs_work = sort_scratch_new, cs_octave_totals = totals_default\<rparr>, ls_workers = [],
      ls_octaves = \<lparr>lo_window = None, lo_per_bucket = [], lo_totals = totals_default, lo_counted = False, lo_pending = None,
        lo_bound = None, lo_armed = False, lo_within = False\<rparr>,
      ls_supports = \<lparr>bs_masks = [], bs_known = False\<rparr>\<rparr>"

definition propagate ::
    "nat \<Rightarrow> 'c pool \<Rightarrow> 'c coefficient \<Rightarrow> nat \<Rightarrow> circuit \<Rightarrow> 'c pauli_sum \<Rightarrow> ('s, 'c) truncation_policy \<Rightarrow> 's \<Rightarrow> direction \<Rightarrow>
     ('s \<times> 'c pauli_sum) result" where
  "propagate W M C threads ci s policy st direction =
     and_then (propagate_with W M C threads ci s policy st direction layer_scratch_new options_default) (\<lambda>(st, s, _). Inr (st, s))"

section \<open>Pushing a channel\<close>

lemma push_boxed_checks:
  assumes "ch_support (cc_channel ch) W = Inr support" "length support = W"
  shows "push_boxed W ch ci =
    (if \<forall>q. qbit support q \<longrightarrow> q < ci_num_qubits ci then Inr (ci\<lparr>ci_channels := ci_channels ci @ [ch]\<rparr>) else Inl QubitOutOfRange)"
proof -
  have range: "q < 64 * W" if "qbit support q" for q using that assms(2) by (auto simp: qbit_def split: if_splits)
  show ?thesis
  proof (cases "leading_in support W")
    case None
    then have "\<not> qbit support q" for q using leading_in_spec [of W support] assms(2) range by auto
    then show ?thesis using None assms(1) by (simp add: push_boxed_def)
  next
    case (Some c)
    then have c: "qbit support c" "\<And>q. qbit support q \<Longrightarrow> q \<le> c" using leading_in_spec [of W support] assms(2) range by (auto, meson leI)
    then have "(\<forall>q. qbit support q \<longrightarrow> q < ci_num_qubits ci) \<longleftrightarrow> c < ci_num_qubits ci" by (meson le_less_trans)
    then show ?thesis using Some assms(1) by (simp add: push_boxed_def assert_that_def)
  qed
qed

end
