(* ===== verification/Driver_Sound.thy ===== *)
theory Driver_Sound
  imports Driver
begin

unbundle bit_operations_syntax

text \<open>
  One layer of the driver refines one step of the propagation: the channel, the per-term filter and the policy's layer pass,
  applied to the sum a partition stands for once its deferred cut is applied.
\<close>

section \<open>Plans at one partition\<close>

lemma solo_plan_local: "\<not> has_remote (plan_rebuild W pr (partition_none n) rank)"
  by (simp add: has_remote_def plan_remote partition_of_def partition_none_def num_rows_def matrix_apply_def split_def)

section \<open>What the engine leaves untouched\<close>

lemma run_cosets_octaves:
  assumes "run_cosets M C sp bcut window fill masks s scratch = Inr (s', masks', scratch')"
  shows "lo_window (ls_octaves scratch') = lo_window (ls_octaves scratch)" "lo_bound (ls_octaves scratch') = lo_bound (ls_octaves scratch)"
    "lo_within (ls_octaves scratch') = lo_within (ls_octaves scratch)"
  using assms by (auto simp: run_cosets_def Let_def and_then_def split: sum.splits)

lemma apply_layer_octaves:
  assumes "apply_layer_bucketed W M C pr policy s scratch = Inr (s', scratch')"
  shows "lo_window (ls_octaves scratch') = lo_window (ls_octaves scratch)" "lo_bound (ls_octaves scratch') = lo_bound (ls_octaves scratch)"
    "lo_within (ls_octaves scratch') = lo_within (ls_octaves scratch)"
proof -
  have "lo_window (ls_octaves scratch') = lo_window (ls_octaves scratch) \<and> lo_bound (ls_octaves scratch') = lo_bound (ls_octaves scratch) \<and>
      lo_within (ls_octaves scratch') = lo_within (ls_octaves scratch)"
  proof (cases "case pr of Local p \<Rightarrow> is_key_preserving p | Rotation _ \<Rightarrow> False")
    case True
    then show ?thesis using assms by (auto simp: apply_layer_bucketed_def apply_layer_eq needs_beta_def taken_def)
  next
    case False
    then have "layer_on_cosets W M C pr policy None default_knobs (armed_window scratch) (lo_pending (ls_octaves scratch)) s (taken scratch) = Inr (s', scratch')"
      using assms by (auto simp: apply_layer_bucketed_def apply_layer_eq needs_beta_def)
    then show ?thesis
      by (auto simp: layer_on_cosets_def Let_def and_then_def taken_def dest: run_cosets_octaves split: sum.splits option.splits)
  qed
  then show "lo_window (ls_octaves scratch') = lo_window (ls_octaves scratch)" "lo_bound (ls_octaves scratch') = lo_bound (ls_octaves scratch)"
    "lo_within (ls_octaves scratch') = lo_within (ls_octaves scratch)" by simp_all
qed

text \<open>Supports stay sound when terms are dropped.\<close>

lemma supports_subset:
  assumes "supports_ok W C policy s supports" "sum_inv W s" "sum_inv W s'" "pm_hash s' = pm_hash s" "set (sum_iter s') \<subseteq> set (sum_iter s)"
  shows "supports_ok W C policy s' supports"
  unfolding supports_ok_def
proof (intro impI allI)
  have len: "length (pm_buckets s') = length (pm_buckets s)" using assms(2-4) by (simp add: sum_inv_def)
  fix b assume known: "bs_known supports \<and> length (bs_masks supports) = length (pm_buckets s')" and b: "b < length (pm_buckets s')"
  have "t \<in> set (terms_of (pm_buckets s ! b))" if t: "t \<in> set (terms_of (pm_buckets s' ! b))" for t
  proof -
    have ix: "bucket_ix (pm_hash s) (fst t) = b" using assms(3,4) b t by (auto simp: sum_inv_def bucketed_def)
    have "t \<in> set (sum_iter s')" using nth_mem [OF b] t by (auto simp: sum_iter_def)
    then have "t \<in> set (sum_iter s)" using assms(5) by blast
    then obtain cols where "cols \<in> set (pm_buckets s)" "t \<in> set (terms_of cols)" by (auto simp: sum_iter_def)
    then obtain b' where b': "b' < length (pm_buckets s)" "t \<in> set (terms_of (pm_buckets s ! b'))" by (metis in_set_conv_nth)
    then have "b' = b" using assms(2) ix by (auto simp: sum_inv_def bucketed_def)
    then show ?thesis using b'(2) by simp
  qed
  then show "known_ok W C policy (terms_of (pm_buckets s' ! b)) (bs_masks supports ! b)"
    using assms(1) known b len by (auto simp: supports_ok_def known_ok_def)
qed

lemma cut_terms_subset: "set (cut_terms C edge ts) \<subseteq> set ts"
proof -
  have "set (keep_first side q ts) \<subseteq> set ts" for side :: "'a pauli_term \<Rightarrow> ordering" and q
    by (induction side q ts rule: keep_first.induct) auto
  then show ?thesis by (simp add: cut_terms_def split: edge_decision.split)
qed

text \<open>What the fused pass leaves in the sum is all of it, nothing, or what the full pass left.\<close>

lemma zip_single: "zip [x] ys = (case ys of [] \<Rightarrow> [] | y # _ \<Rightarrow> [(x, y)])"
  by (cases ys) simp_all

lemma finalize_solo_subset:
  assumes "finalize_group C threads n [(oct, s)] = Inr [(oct', s')]" "sum_inv W s" "pm_len s < 2 ^ 32"
  shows "sum_inv W s' \<and> pm_hash s' = pm_hash s \<and> set (sum_iter s') \<subseteq> set (sum_iter s)"
proof -
  have "s' = s \<or> s' = sum_clear s \<or> (\<exists>r. approx_top_n_pass C threads n [s] = Inr r \<and> s' = fst (hd r))"
    using assms(1) by (auto simp: finalize_group_def Let_def and_then_def zip_single split: if_splits sum.splits option.splits list.splits)
  moreover have "sum_inv W (fst (hd r)) \<and> pm_hash (fst (hd r)) = pm_hash s \<and> set (sum_iter (fst (hd r))) \<subseteq> set (sum_iter s)"
    if "approx_top_n_pass C threads n [s] = Inr r" for r
  proof -
    have "group_ok W [s]" using assms(2,3) by (simp add: group_ok_def)
    from approx_top_n_pass_ok [OF this, of C threads n] that obtain t edge where
        "r = [(t, edge, pm_len s)]" "sum_inv W t" "pm_hash t = pm_hash s" "sum_iter t = cut_terms C (with_quota edge (rank_quotas C edge [s] ! 0)) (sum_iter s)"
      by (auto simp: group_cut_def length_Suc_conv)
    then show ?thesis using cut_terms_subset by fastforce
  qed
  ultimately show ?thesis using sum_clear_ok [OF assms(2)] assms(2) by auto
qed

section \<open>The state of a partition between layers\<close>

definition window_ok :: "layer_octaves \<Rightarrow> bool" where
  "window_ok oct \<longleftrightarrow> (\<forall>w. lo_window oct = Some w \<longrightarrow> (\<exists>bin. w = window_around bin))"

text \<open>The partition stands for the sum \<open>u\<close>: its sum once the deferred cut is applied.\<close>

definition host_ok :: "nat \<Rightarrow> 'c coefficient \<Rightarrow> ('s, 'c) truncation_policy \<Rightarrow> 'c host_partition \<Rightarrow> 'c pauli_sum \<Rightarrow> bool" where
  "host_ok W C policy hp u \<longleftrightarrow>
     (let oct = ls_octaves (hp_layer hp)
      in sum_inv W (hp_sum hp) \<and> u = pending_sum C (hp_layer hp) (hp_sum hp) \<and> host_len hp = pm_len u \<and>
         scratch_ok (hp_layer hp) \<and> supports_ok W C policy (hp_sum hp) (ls_supports (hp_layer hp)) \<and>
         (\<forall>b. lo_bound oct = Some b \<longrightarrow> pm_len u \<le> b) \<and> window_ok oct)"

lemma host_ok_sum:
  assumes "host_ok W C policy hp u"
  shows "sum_inv W u" "pm_hash u = pm_hash (hp_sum hp)" "pm_num_qubits u = pm_num_qubits (hp_sum hp)"
  using assms cut_sum_ok [of W "hp_sum hp"] by (auto simp: host_ok_def Let_def pending_sum_def)

lemma supports_forget_ok: "supports_ok W C policy s (supports_forget supports)"
  by (simp add: supports_ok_def supports_forget_def)

lemma host_settled:
  assumes "host_ok W C policy hp u"
  shows "hp_sum (host_forget (host_apply_pending C hp)) = u" "host_ok W C policy (host_forget (host_apply_pending C hp)) u"
    "hp_sum (host_settle C hp) = u" "host_ok W C policy (host_settle C hp) u"
    "lo_pending (ls_octaves (hp_layer (host_settle C hp))) = None" "lo_bound (ls_octaves (hp_layer (host_settle C hp))) = None"
proof -
  have u: "u = (case lo_pending (ls_octaves (hp_layer hp)) of None \<Rightarrow> hp_sum hp | Some bc \<Rightarrow> cut_apply C bc (hp_sum hp))"
    using assms by (simp add: host_ok_def Let_def pending_sum_def cut_sum_def)
  show forget: "hp_sum (host_forget (host_apply_pending C hp)) = u" and settle: "hp_sum (host_settle C hp) = u"
    by (simp_all add: u host_forget_def host_apply_pending_def host_settle_def octaves_settle_def apply_pending_def)
  have oct: "ls_octaves (hp_layer (host_forget (host_apply_pending C hp))) = (ls_octaves (hp_layer hp))\<lparr>lo_pending := None\<rparr>"
      "ls_octaves (hp_layer (host_settle C hp)) = (ls_octaves (hp_layer hp))\<lparr>lo_pending := None, lo_bound := None\<rparr>"
      "ls_supports (hp_layer (host_forget (host_apply_pending C hp))) = supports_forget (ls_supports (hp_layer hp))"
      "ls_supports (hp_layer (host_settle C hp)) = supports_forget (ls_supports (hp_layer hp))"
      "scratch_ok (hp_layer (host_forget (host_apply_pending C hp))) = scratch_ok (hp_layer hp)" "scratch_ok (hp_layer (host_settle C hp)) = scratch_ok (hp_layer hp)"
    by (simp_all add: host_forget_def host_apply_pending_def host_settle_def octaves_settle_def apply_pending_def scratch_ok_def)
  show "lo_pending (ls_octaves (hp_layer (host_settle C hp))) = None" "lo_bound (ls_octaves (hp_layer (host_settle C hp))) = None" by (simp_all add: oct)
  have ok: "scratch_ok (hp_layer hp)" "\<forall>b. lo_bound (ls_octaves (hp_layer hp)) = Some b \<longrightarrow> pm_len u \<le> b" "window_ok (ls_octaves (hp_layer hp))"
    using assms unfolding host_ok_def Let_def by blast+
  show "host_ok W C policy (host_forget (host_apply_pending C hp)) u"
    unfolding host_ok_def Let_def host_len_def pending_sum_def forget oct
    using ok host_ok_sum(1) [OF assms] by (simp add: cut_sum_def len_after_cut_def supports_forget_ok window_ok_def)
  show "host_ok W C policy (host_settle C hp) u"
    unfolding host_ok_def Let_def host_len_def pending_sum_def settle oct
    using ok host_ok_sum(1) [OF assms] by (simp add: cut_sum_def len_after_cut_def supports_forget_ok window_ok_def)
qed

lemma refine_unprepared_ok:
  assumes "host_ok W C policy hp u"
  shows "\<exists>hp' u' b. refine_unprepared C target min_buckets hp = Inr hp' \<and> host_ok W C policy hp' u' \<and> same_sum W u u' \<and> pm_hash u' = (pm_hash u)\<lparr>gh_bits := b\<rparr>"
proof (cases "min (rebucketed_bits (host_len hp) (gh_bits (pm_hash (hp_sum hp))) target min_buckets) (hash_max_bits (pm_hash (hp_sum hp))) = gh_bits (pm_hash (hp_sum hp))")
  case True
  then have "refine_unprepared C target min_buckets hp = Inr hp" by (simp add: refine_unprepared_def Let_def)
  moreover have "pm_hash u = (pm_hash u)\<lparr>gh_bits := gh_bits (pm_hash u)\<rparr>" by simp
  ultimately show ?thesis using assms same_sum_refl [OF host_ok_sum(1) [OF assms]] by blast
next
  case False
  let ?hp = "host_forget (host_apply_pending C hp)"
  note settled = host_settled(1,2) [OF assms]
  obtain t where t: "rebucket u target min_buckets = Inr t" "same_sum W u t"
      "pm_hash t = (pm_hash u)\<lparr>gh_bits := min (rebucketed_bits (pm_len u) (gh_bits (pm_hash u)) target min_buckets) (hash_max_bits (pm_hash u))\<rparr>"
    using rebucket_ok [OF host_ok_sum(1) [OF assms], of target min_buckets] by blast
  have "refine_unprepared C target min_buckets hp = Inr (?hp\<lparr>hp_sum := t\<rparr>)" using False t(1) settled(1) by (simp add: refine_unprepared_def Let_def)
  moreover have "host_ok W C policy (?hp\<lparr>hp_sum := t\<rparr>) t"
    using settled t(2)
    by (auto simp: host_ok_def Let_def same_sum_def pending_sum_def cut_sum_def host_len_def len_after_cut_def host_forget_def host_apply_pending_def
        apply_pending_def supports_forget_ok)
  ultimately show ?thesis using t(2,3) by blast
qed

section \<open>Applying a layer\<close>

lemma begin_layer_keeps:
  "lo_pending (begin_layer fanout fused exchanges oct) = lo_pending oct" "lo_window (begin_layer fanout fused exchanges oct) = lo_window oct"
  by (simp_all add: begin_layer_def Let_def split: option.split)

lemma begin_layer_bound:
  assumes "lo_bound (begin_layer fanout (Some f) exchanges oct) = Some b" "\<forall>b. lo_bound oct = Some b \<longrightarrow> len \<le> b" "len' \<le> len * fanout" "len' \<le> usize_max"
  shows "len' \<le> b"
proof -
  obtain b0 where b0: "lo_bound oct = Some b0" "b = saturating_mul b0 fanout"
    using assms(1) by (auto simp: begin_layer_def Let_def split: if_splits)
  have "len' \<le> b0 * fanout" using assms(2,3) b0(1) by (meson le_trans mult_le_mono1)
  then show ?thesis using assms(4) b0(2) by (simp add: saturating_mul_def)
qed

text \<open>The state in which the layer pass finds a partition: the sum \<open>v\<close> before the pass, no cut pending.\<close>

definition layer_left :: "nat \<Rightarrow> 'c coefficient \<Rightarrow> ('s, 'c) truncation_policy \<Rightarrow> fused_approx_top_n option \<Rightarrow> 'c host_partition \<Rightarrow> bool" where
  "layer_left W C policy fused hp \<longleftrightarrow>
     (let oct = ls_octaves (hp_layer hp); s = hp_sum hp
      in sum_inv W s \<and> pm_len s < 2 ^ 32 \<and> scratch_ok (hp_layer hp) \<and> supports_ok W C policy s (ls_supports (hp_layer hp)) \<and> window_ok oct \<and>
         lo_pending oct = None \<and>
         (case fused of
            None \<Rightarrow> lo_bound oct = None
          | Some f \<Rightarrow> ready_octaves C (fused_n f) [(oct, s)] \<and> (\<forall>b. lo_bound oct = Some b \<longrightarrow> pm_len s \<le> b)))"

lemma host_apply_layer_ok:
  fixes C :: "'c coefficient" and policy :: "('s, 'c) truncation_policy"
  assumes "coefficient_laws C" "floor_sound C policy" "128 * W < 2 ^ 32" "host_ok W C policy hp u" "fused_pass policy = Inr fused"
    and "prepared_ok W (pm_num_qubits u) (pm_hash u) pr" "rotation_exact W C pr (bs_known (ls_supports (hp_layer hp)))" "max_fanout W C pr = Inr fanout"
    and "pm_len u < 2 ^ 27" "pm_len u * fanout < 2 ^ 32" "fused = None \<longrightarrow> lo_bound (ls_octaves (hp_layer hp)) = None"
    and "\<forall>sp. span_new (prepared_bucket_deltas pr) (gh_bits (pm_hash u)) = Inr sp \<longrightarrow> pool_schedule sp (mc_threads M) (mc_schedule M)"
  shows "\<exists>hp'. host_apply_layer W M C pr plan policy hp = Inr hp' \<and> layer_left W C policy fused hp' \<and> pm_hash (hp_sum hp') = pm_hash u \<and>
    (\<forall>k. sum_lookup (hp_sum hp') k = kept_total C policy (emitted C pr (sum_iter u)) k)"
proof -
  let ?scratch = "(hp_layer hp)\<lparr>ls_octaves := begin_layer fanout fused (has_remote plan) (ls_octaves (hp_layer hp))\<rparr>"
  have hp: "sum_inv W (hp_sum hp)" "u = pending_sum C (hp_layer hp) (hp_sum hp)" "scratch_ok (hp_layer hp)"
      "supports_ok W C policy (hp_sum hp) (ls_supports (hp_layer hp))" "\<forall>b. lo_bound (ls_octaves (hp_layer hp)) = Some b \<longrightarrow> pm_len u \<le> b"
      "window_ok (ls_octaves (hp_layer hp))"
    using assms(4) unfolding host_ok_def Let_def by blast+
  note u = host_ok_sum [OF assms(4)]
  have pend: "pending_sum C ?scratch (hp_sum hp) = u" by (simp add: hp(2) pending_sum_def begin_layer_keeps)
  have keys: "\<forall>t \<in> set (sum_iter u). wf_key W (fst t)" using u(1) by (auto simp: sum_inv_def key_ok_def)
  have rows: "length (emitted C pr (sum_iter u)) \<le> pm_len u * fanout"
    using emitted_bound [OF assms(1,6,7,8) keys] u(1) by (simp add: sum_inv_def)
  have exact: "rotation_exact W C pr (bs_known (ls_supports ?scratch))" using assms(7) by simp
  have fits: "layer_fits C pr None (sum_iter (pending_sum C ?scratch (hp_sum hp)))"
    using rows assms(9,10) u(1) by (simp add: pend layer_fits_def received_def sum_inv_def)
  have scratch: "scratch_ok ?scratch" "supports_ok W C policy (hp_sum hp) (ls_supports ?scratch)" using hp(3,4) by (simp_all add: scratch_ok_def)
  obtain s' scratch' where layer: "apply_layer_bucketed W M C pr policy (hp_sum hp) ?scratch = Inr (s', scratch')" "sum_inv W s'" "pm_hash s' = pm_hash (hp_sum hp)"
      "\<forall>k. sum_lookup s' k = kept_total C policy (emitted C pr (sum_iter u)) k" "supports_ok W C policy s' (ls_supports scratch')" "scratch_ok scratch'"
      "lo_counted (ls_octaves scratch') \<longrightarrow> counts_ok C (armed_window ?scratch) s' (ls_octaves scratch')" "lo_pending (ls_octaves scratch') = None"
    using layer_correct [OF assms(1-3) hp(1) assms(6) [unfolded u(2,3)] exact fits scratch(2,1) assms(12) [unfolded u(2)]] unfolding pend by blast
  note oct = apply_layer_octaves [OF layer(1)]
  have len: "pm_len s' \<le> pm_len u * fanout" "pm_len s' \<le> usize_max"
    using kept_total_len [OF assms(1) layer(2,4)] rows assms(10) by (auto simp: usize_max_def)
  have window: "window_ok (ls_octaves scratch')" using hp(6) by (simp add: window_ok_def oct(1) begin_layer_keeps)
  have counts: "(pm_len s', lo_per_bucket (ls_octaves scratch'), lo_totals (ls_octaves scratch')) = window_rank C w s'"
    if "lo_counted (ls_octaves scratch')" "lo_window (ls_octaves scratch') = Some w" for w
  proof -
    from that(1) layer(7) have c: "counts_ok C (armed_window ?scratch) s' (ls_octaves scratch')" by blast
    with that(1) have "armed_window ?scratch \<noteq> None" by (simp add: counts_ok_def)
    then have "armed_window ?scratch = Some w" using that(2) by (auto simp: armed_window_def oct(1) split: if_splits)
    then show ?thesis using c by (simp add: counts_ok_def)
  qed
  have "layer_left W C policy fused (hp\<lparr>hp_sum := s', hp_layer := scratch'\<rparr>)"
  proof (cases fused)
    case None
    then show ?thesis
      using layer window len assms(10,11) by (simp add: layer_left_def Let_def oct(2) begin_layer_def)
  next
    case (Some f)
    have "ready_octaves C (fused_n f) [(ls_octaves scratch', s')]"
      using begin_layer_within [OF _ hp(5) len, of f "has_remote plan"] layer(8) window counts
      by (auto simp: ready_octaves_def Let_def window_ok_def oct(3) Some)
    moreover have "pm_len s' \<le> b" if "lo_bound (ls_octaves scratch') = Some b" for b
      using begin_layer_bound [OF _ hp(5) len, of f "has_remote plan" b] that by (simp add: oct(2) Some)
    ultimately show ?thesis using layer window len assms(10) by (simp add: layer_left_def Let_def Some)
  qed
  then show ?thesis using layer(1,3,4) assms(5,8) u(2) by (auto simp: host_apply_layer_def Let_def)
qed

section \<open>The layer pass\<close>

lemma approx_solo:
  assumes "sum_inv W v" "pm_len v < 2 ^ 32"
  shows "\<exists>u edge. approx_top_n_pass C threads n [v] = Inr [(u, edge, pm_len v)] \<and> sum_inv W u \<and> pm_hash u = pm_hash v \<and> pm_len u = min n (pm_len v)"
proof -
  have "group_ok W [v]" using assms by (simp add: group_ok_def)
  from approx_top_n_pass_ok [OF this, of C threads n] obtain u edge where
      pass: "approx_top_n_pass C threads n [v] = Inr [(u, edge, pm_len v)]" "sum_inv W u" "pm_hash u = pm_hash v"
        "edge_ok (group_octaves C [v]) n edge" "group_terms [u] = cut_terms C edge (group_terms [v])"
    by (auto simp: group_cut_def length_Suc_conv)
  have "edge_ok (map (\<lambda>t. octave (norm_sqr C (snd t))) (sum_iter v)) n edge" using pass(4) by (simp add: group_octaves_def octaves_def)
  from cut_terms_length [OF this] have "length (sum_iter u) = min n (length (sum_iter v))" using pass(5) by (simp add: group_terms_def)
  then show ?thesis using pass(1-3) assms(1) by (auto simp: sum_inv_def)
qed

lemma fused_finalize_ok:
  assumes "layer_left W C policy (Some f) hp" "fused_pass policy = Inr (Some f)"
  shows "\<exists>hp' u edge. host_finalize_layer C threads policy (st, hp) = Inr (st, hp') \<and> host_ok W C policy hp' u \<and>
    approx_top_n_pass C threads (fused_n f) [hp_sum hp] = Inr [(u, edge, pm_len (hp_sum hp))] \<and> pm_len u = min (fused_n f) (pm_len (hp_sum hp)) \<and>
    pm_hash u = pm_hash (hp_sum hp)"
proof -
  let ?oct = "ls_octaves (hp_layer hp)" and ?v = "hp_sum hp" and ?n = "fused_n f"
  have v: "sum_inv W ?v" "pm_len ?v < 2 ^ 32" "scratch_ok (hp_layer hp)" "supports_ok W C policy ?v (ls_supports (hp_layer hp))" "window_ok ?oct"
      "lo_pending ?oct = None" "ready_octaves C ?n [(?oct, ?v)]" "\<forall>b. lo_bound ?oct = Some b \<longrightarrow> pm_len ?v \<le> b"
    using assms(1) unfolding layer_left_def Let_def option.case by blast+
  obtain w edge where w: "approx_top_n_pass C threads ?n [?v] = Inr [(w, edge, pm_len ?v)]" "sum_inv W w" "pm_hash w = pm_hash ?v" "pm_len w = min ?n (pm_len ?v)"
    using approx_solo [OF v(1,2)] by blast
  have "group_ok W (map snd [(?oct, ?v)])" using v(1,2) by (simp add: group_ok_def)
  from finalize_group_ok [OF this v(7), of threads] w(1) obtain oct' s' where
      fin: "finalize_group C threads ?n [(?oct, ?v)] = Inr [(oct', s')]" and fin_done: "rank_done C ?n (pm_len ?v) ?oct (oct', s') w"
    by (auto simp: length_Suc_conv)
  let ?hp = "hp\<lparr>hp_sum := s', hp_layer := (hp_layer hp)\<lparr>ls_octaves := oct'\<rparr>\<rparr>"
  have run: "host_finalize_layer C threads policy (st, hp) = Inr (st, ?hp)"
    using fin by (simp add: host_finalize_layer_def assms(2) octaves_finalize_solo)
  have d: "snd (apply_pending C (oct', s')) = w" "len_after_cut oct' (pm_len s') = pm_len w"
      "lo_window oct' = lo_window ?oct \<or> (\<exists>bin. lo_window oct' = Some (window_around bin))"
      "if lo_within ?oct then lo_bound oct' = lo_bound ?oct else lo_bound oct' = Some (min (pm_len ?v) ?n)"
    using fin_done by (auto simp: rank_done_def split: if_splits)
  note sub = finalize_solo_subset [OF fin v(1,2)]
  have "pm_len w \<le> b" if "lo_bound oct' = Some b" for b
    using d(4) v(8) [THEN spec, of b] that w(4) by (cases "lo_within ?oct") auto
  moreover have "w = pending_sum C (hp_layer ?hp) s'" using d(1) by (simp add: pending_sum_def cut_sum_def apply_pending_def)
  moreover have "window_ok oct'" using d(3) v(5) by (auto simp: window_ok_def)
  ultimately have "host_ok W C policy ?hp w"
    using sub d(2) v(3,4) supports_subset [OF v(4,1)] by (simp add: host_ok_def Let_def host_len_def scratch_ok_def)
  then show ?thesis using run w by blast
qed

text \<open>
  What the driver relies on of a policy: its floor and its filter agree, it has a layer pass that returns on every valid sum and
  leaves at most \<open>cap\<close> terms of it, and where it answers with a fused form, its pass is that \<open>ApproxTopN\<close> pass.
\<close>

locale capped_policy =
  fixes W :: nat and C :: "'c coefficient" and threads :: nat and policy :: "('s, 'c) truncation_policy"
    and fused :: "fused_approx_top_n option" and cap :: nat
  assumes laws: "coefficient_laws C"
    and filter_sound: "floor_sound C policy"
    and finalizes: "finalizes_layer policy = Inr True"
    and fused_form: "fused_pass policy = Inr fused"
    and pass: "sum_inv W v \<Longrightarrow> pm_len v < 2 ^ 32 \<Longrightarrow> \<exists>st' u. finalize_layer_partitioned policy [(st, v)] = Inr [(st', u)] \<and>
      sum_inv W u \<and> pm_hash u = pm_hash v \<and> pm_len u \<le> cap"
    and fused_pass_law: "fused = Some f \<Longrightarrow> sum_inv W v \<Longrightarrow> pm_len v < 2 ^ 32 \<Longrightarrow>
      finalize_layer_partitioned policy [(st, v)] = and_then (approx_top_n_pass C threads (fused_n f) [v]) (\<lambda>rs. Inr [(st, fst (hd rs))])"
begin

lemma pass_refines:
  assumes "layer_left W C policy fused hp"
  shows "\<exists>st' hp' u. host_finalize_layer C threads policy (st, hp) = Inr (st', hp') \<and> host_ok W C policy hp' u \<and>
    (fused = None \<longrightarrow> lo_bound (ls_octaves (hp_layer hp')) = None) \<and>
    finalize_layer_partitioned policy [(st, hp_sum hp)] = Inr [(st', u)] \<and> pm_len u \<le> cap \<and> pm_hash u = pm_hash (hp_sum hp)"
proof -
  let ?oct = "ls_octaves (hp_layer hp)" and ?v = "hp_sum hp"
  have v: "sum_inv W ?v" "pm_len ?v < 2 ^ 32" "scratch_ok (hp_layer hp)" "supports_ok W C policy ?v (ls_supports (hp_layer hp))" "window_ok ?oct"
      "lo_pending ?oct = None"
    using assms unfolding layer_left_def Let_def by blast+
  obtain st' u where u: "finalize_layer_partitioned policy [(st, ?v)] = Inr [(st', u)]" "sum_inv W u" "pm_hash u = pm_hash ?v" "pm_len u \<le> cap"
    using pass [OF v(1,2), of st] by blast
  show ?thesis
  proof (cases fused)
    case None
    have bound: "lo_bound ?oct = None" using assms None by (simp add: layer_left_def Let_def)
    have "host_finalize_layer C threads policy (st, hp) = Inr (st', (host_forget hp)\<lparr>hp_sum := u\<rparr>)"
      using u(1) None by (simp add: host_finalize_layer_def fused_form finalizes Let_def host_forget_def)
    moreover have "host_ok W C policy ((host_forget hp)\<lparr>hp_sum := u\<rparr>) u"
      using u(2) v(3,5,6) bound by (simp add: host_ok_def Let_def host_forget_def pending_sum_def cut_sum_def host_len_def len_after_cut_def scratch_ok_def supports_forget_ok)
    ultimately show ?thesis using u bound None by (auto simp: host_forget_def)
  next
    case (Some f)
    from fused_finalize_ok [OF assms [unfolded Some] fused_form [unfolded Some], of threads st] obtain hp' w edge where
        w: "host_finalize_layer C threads policy (st, hp) = Inr (st, hp')" "host_ok W C policy hp' w"
          "approx_top_n_pass C threads (fused_n f) [?v] = Inr [(w, edge, pm_len ?v)]" by blast
    have "st' = st" "u = w" using fused_pass_law [OF Some v(1,2), of st] w(3) u(1) by simp_all
    then show ?thesis using w u Some by auto
  qed
qed

end

section \<open>A layer with a fused pass\<close>

text \<open>
  C3. A layer of a partition under a policy whose pass is a fused \<open>ApproxTopN(n)\<close> is the channel followed by the full pass. From
  any state of the partition that stands for a sum \<open>u\<close> (with its deferred cut, its window and its bound), \<open>apply_layer\<close>, which
  scales the bound by the fanout and arms the counts, and \<open>finalize_layer\<close>, which skips the pass on that bound, decides it from the counts
  or runs it in full, both return. The partition then stands for what the full pass leaves of the totals of the channel's
  rows, announces their number as its length, and is again in such a state: its new bound holds.
\<close>

theorem fused_layer_is_channel_and_pass:
  fixes C :: "'c coefficient" and policy :: "('s, 'c) truncation_policy"
  assumes "coefficient_laws C" "floor_sound C policy" "128 * W < 2 ^ 32" "host_ok W C policy hp u" "fused_pass policy = Inr (Some f)"
    and "prepared_ok W (pm_num_qubits u) (pm_hash u) pr" "rotation_exact W C pr (bs_known (ls_supports (hp_layer hp)))" "max_fanout W C pr = Inr fanout"
    and "pm_len u < 2 ^ 27" "pm_len u * fanout < 2 ^ 32"
    and "\<forall>sp. span_new (prepared_bucket_deltas pr) (gh_bits (pm_hash u)) = Inr sp \<longrightarrow> pool_schedule sp (mc_threads M) (mc_schedule M)"
  shows "\<exists>hp1 hp2 v u' edge. host_apply_layer W M C pr plan policy hp = Inr hp1 \<and> host_finalize_layer C threads policy (st, hp1) = Inr (st, hp2) \<and>
    sum_inv W v \<and> pm_hash v = pm_hash u \<and> (\<forall>k. sum_lookup v k = kept_total C policy (emitted C pr (sum_iter u)) k) \<and>
    approx_top_n_pass C threads (fused_n f) [v] = Inr [(u', edge, pm_len v)] \<and>
    host_ok W C policy hp2 u' \<and> host_len hp2 = min (fused_n f) (pm_len v)"
proof -
  obtain hp1 where l: "host_apply_layer W M C pr plan policy hp = Inr hp1" "layer_left W C policy (Some f) hp1" "pm_hash (hp_sum hp1) = pm_hash u"
      "\<forall>k. sum_lookup (hp_sum hp1) k = kept_total C policy (emitted C pr (sum_iter u)) k"
    using host_apply_layer_ok [OF assms(1-10) _ assms(11), of plan] by blast
  obtain hp2 u' edge where f: "host_finalize_layer C threads policy (st, hp1) = Inr (st, hp2)" "host_ok W C policy hp2 u'"
      "approx_top_n_pass C threads (fused_n f) [hp_sum hp1] = Inr [(u', edge, pm_len (hp_sum hp1))]" "pm_len u' = min (fused_n f) (pm_len (hp_sum hp1))"
    using fused_finalize_ok [OF l(2) assms(5), of threads st] by blast
  have "host_len hp2 = pm_len u'" using f(2) by (simp add: host_ok_def Let_def)
  moreover have "sum_inv W (hp_sum hp1)" using l(2) by (simp add: layer_left_def Let_def)
  ultimately show ?thesis using l(1,3,4) f by (intro exI [of _ hp1] exI [of _ hp2] exI [of _ "hp_sum hp1"] exI [of _ u'] exI [of _ edge]) simp
qed

text \<open>Two states of a partition that holds the two-term example: one whose bound makes the next pass superfluous, one that counts octaves.\<close>

definition example_host :: "octave_window option \<Rightarrow> nat option \<Rightarrow> complex host_partition" where
  "example_host window bound =
     \<lparr>hp_sum = example_sum 2, hp_layer = layer_scratch_new\<lparr>ls_octaves := (ls_octaves (layer_scratch_new :: complex layer_scratch))\<lparr>lo_window := window, lo_bound := bound\<rparr>\<rparr>\<rparr>"

lemma example_host_ok:
  assumes "bound = None \<or> bound = Some 2" "window = None \<or> window = Some (window_around 1023)"
  shows "host_ok 1 complex_coefficient policy (example_host window bound) (example_sum 2)"
  using assms example_sum_inv(1) [of 2] example_sum_len(1) [of 2]
  by (auto simp: host_ok_def Let_def example_host_def layer_scratch_new_def pending_sum_def cut_sum_def host_len_def len_after_cut_def scratch_ok_def
      drained_def supports_ok_def window_ok_def)

lemma example_max_fanout: "max_fanout 1 complex_coefficient (Local example_table) = Inr 2"
proof -
  have "\<exists>layer. rotation_layer_of 1 complex_coefficient example_table = Inr (Some layer) \<and> \<not> rl_clifford layer"
  proof -
    have order: "partner_order_new 1 ([0], [1]) = Inr \<lparr>po_levels = [127, 0, 0, 0], po_depth = 1\<rparr>" by code_simp
    obtain idn gen where "lp_deltas example_table = [idn, gen]" "de_local_delta idn = 0" "de_local_delta gen = 2" "de_mask gen = ([0], [1])"
      by (simp add: example_table_def de_mask_def)
    then show ?thesis using example_shape order by (simp add: rotation_layer_of_def example_table_simps)
  qed
  then obtain layer where layer: "rotation_layer_of 1 complex_coefficient example_table = Inr (Some layer)" "\<not> rl_clifford layer" by blast
  let ?n = "\<lambda>s. length (filter (\<lambda>d. is_nonzero complex_coefficient (de_amplitude d ! s)) (lp_deltas example_table))"
  have two: "?n s \<le> 2" for s by (simp add: example_table_def)
  have "Max (set (map ?n [0..<LOCAL_DIM])) = 2"
  proof (rule Max_eqI)
    have "?n 1 = 2" by (simp add: example_table_def complex_c.nonzero_iff complex_coefficient_def)
    then show "2 \<in> set (map ?n [0..<LOCAL_DIM])" by (auto simp: LOCAL_DIM_def intro!: image_eqI [of _ _ 1])
  qed (use two in auto)
  then show ?thesis using layer by (simp add: max_fanout_def)
qed

theorem fused_layer_is_channel_and_pass_witness:
  "lo_within (begin_layer 2 (Some \<lparr>fused_n = 4, agreed = True\<rparr>) False (ls_octaves (hp_layer (example_host None (Some 2))))) \<and>
   lo_armed (begin_layer 2 (Some \<lparr>fused_n = 1, agreed = True\<rparr>) False (ls_octaves (hp_layer (example_host (Some (window_around 1023)) None)))) \<and>
   (\<exists>hp1 hp2. host_apply_layer 1 example_machine complex_coefficient (Local example_table) (plan_rebuild 1 (Local example_table) (partition_none 1) 0)
        (approx_top_n complex_coefficient 3 4 :: (unit, complex) truncation_policy) (example_host None (Some 2)) = Inr hp1 \<and>
      host_finalize_layer complex_coefficient 3 (approx_top_n complex_coefficient 3 4) ((), hp1) = Inr ((), hp2) \<and> host_len hp2 \<le> 4) \<and>
   (\<exists>hp1 hp2. host_apply_layer 1 example_machine complex_coefficient (Local example_table) (plan_rebuild 1 (Local example_table) (partition_none 1) 0)
        (approx_top_n complex_coefficient 3 1 :: (unit, complex) truncation_policy) (example_host (Some (window_around 1023)) None) = Inr hp1 \<and>
      host_finalize_layer complex_coefficient 3 (approx_top_n complex_coefficient 3 1) ((), hp1) = Inr ((), hp2) \<and> host_len hp2 \<le> 1)"
proof -
  let ?plan = "plan_rebuild 1 (Local example_table) (partition_none 1) 0"
  have run: "\<exists>hp1 hp2. host_apply_layer 1 example_machine complex_coefficient (Local example_table) ?plan
        (approx_top_n complex_coefficient 3 n :: (unit, complex) truncation_policy) (example_host window bound) = Inr hp1 \<and>
      host_finalize_layer complex_coefficient 3 (approx_top_n complex_coefficient 3 n) ((), hp1) = Inr ((), hp2) \<and> host_len hp2 \<le> n"
    if "bound = None \<or> bound = Some 2" "window = None \<or> window = Some (window_around 1023)" for n window bound
  proof -
    note inv = example_sum_inv [of 2]
    have policy: "floor_sound complex_coefficient (approx_top_n complex_coefficient 3 n :: (unit, complex) truncation_policy)"
        "fused_pass (approx_top_n complex_coefficient 3 n :: (unit, complex) truncation_policy) = Inr (Some \<lparr>fused_n = n, agreed = True\<rparr>)"
      by (simp_all add: floor_sound_def approx_top_n_def)
    have known: "\<not> bs_known (ls_supports (hp_layer (example_host window bound)))" by (simp add: example_host_def layer_scratch_new_def)
    have pr: "prepared_ok 1 (pm_num_qubits (example_sum 2)) (pm_hash (example_sum 2)) (Local example_table)"
      using example_prepared inv by simp
    have exact: "rotation_exact 1 complex_coefficient (Local example_table) (bs_known (ls_supports (hp_layer (example_host window bound))))"
      using example_exact known by simp
    have sched: "\<forall>sp. span_new (prepared_bucket_deltas (Local example_table)) (gh_bits (pm_hash (example_sum 2))) = Inr sp \<longrightarrow>
        pool_schedule sp (mc_threads example_machine) (mc_schedule example_machine)"
      using example_spans(2) example_schedule inv by (auto simp: prepared_bucket_deltas_def example_table_simps example_hash_def)
    have len: "pm_len (example_sum 2) < 2 ^ 27" "pm_len (example_sum 2) * 2 < 2 ^ 32" "128 * 1 < (2 :: nat) ^ 32" by (simp_all add: example_sum_len(1))
    from fused_layer_is_channel_and_pass [OF complex_c.coefficient_laws_axioms policy(1) len(3) example_host_ok [OF that] policy(2) pr exact example_max_fanout
        len(1,2) sched, of ?plan 3 "()"] show ?thesis by (auto simp only: fused_approx_top_n.simps) (metis min.cobounded1)
  qed
  have "lo_within (begin_layer 2 (Some \<lparr>fused_n = 4, agreed = True\<rparr>) False (ls_octaves (hp_layer (example_host None (Some 2)))))"
    "lo_armed (begin_layer 2 (Some \<lparr>fused_n = 1, agreed = True\<rparr>) False (ls_octaves (hp_layer (example_host (Some (window_around 1023)) None))))"
    by (simp_all add: begin_layer_def Let_def example_host_def layer_scratch_new_def saturating_mul_def usize_max_def)
  with run [of "Some 2" None 4] run [of None "Some (window_around 1023)" 1] show ?thesis by simp
qed

end
