(* ===== verification/Propagate.thy ===== *)
theory Propagate
  imports Driver_Sound Truncation_Tree
begin

unbundle bit_operations_syntax

text \<open>
  The abstract propagation as a step relation, the refinement of the driver's loop to it, and the policies that meet the
  driver's contract.
\<close>

section \<open>The abstract propagation\<close>

text \<open>
  One channel: every term of \<open>u\<close> is sent through the prepared channel, equal strings are totalled, zero totals and those the
  filter refuses are dropped, and the policy's pass runs over what is left. The hash may have been refined or coarsened before.
\<close>

inductive channel_step ::
    "nat \<Rightarrow> 'c coefficient \<Rightarrow> ('s, 'c) truncation_policy \<Rightarrow> bool \<Rightarrow> circuit_channel \<Rightarrow> 's \<times> 'c pauli_sum \<Rightarrow> 's \<times> 'c pauli_sum \<Rightarrow> bool"
  for W C policy adjoint where
  channel_stepI: "sum_inv W v \<Longrightarrow> pm_hash v = (pm_hash u)\<lparr>gh_bits := b\<rparr> \<Longrightarrow> prepare_or_panic C ch (pm_hash v) adjoint = Inr pr \<Longrightarrow>
    \<forall>k. sum_lookup v k = kept_total C policy (emitted C pr (sum_iter u)) k \<Longrightarrow>
    finalize_layer_partitioned policy [(st, v)] = Inr [(st', u')] \<Longrightarrow> channel_step W C policy adjoint ch (st, u) (st', u')"

inductive propagates ::
    "nat \<Rightarrow> 'c coefficient \<Rightarrow> ('s, 'c) truncation_policy \<Rightarrow> bool \<Rightarrow> circuit_channel list \<Rightarrow> 's \<times> 'c pauli_sum \<Rightarrow> 's \<times> 'c pauli_sum \<Rightarrow> bool"
  for W C policy adjoint where
  propagates_Nil: "propagates W C policy adjoint [] x x"
| propagates_Cons: "channel_step W C policy adjoint ch x y \<Longrightarrow> propagates W C policy adjoint chs y z \<Longrightarrow> propagates W C policy adjoint (ch # chs) x z"

inductive_cases propagates_NilE: "propagates W C policy adjoint [] x y"
inductive_cases propagates_ConsE: "propagates W C policy adjoint (ch # chs) x y"

text \<open>The channels in the order a direction applies them.\<close>

definition applied_channels :: "direction \<Rightarrow> circuit_channel list \<Rightarrow> circuit_channel list" where
  "applied_channels direction chs = (case direction of Forward \<Rightarrow> chs | Heisenberg \<Rightarrow> rev chs)"

lemma circuit_index_channels:
  "map (\<lambda>i. chs ! circuit_index_of direction (length chs) i) [0..<length chs] = applied_channels direction chs"
  by (cases direction) (auto simp: circuit_index_of_def applied_channels_def rev_nth intro!: nth_equalityI)

text \<open>What a channel of the circuit has to satisfy under every hash the driver may prepare it for.\<close>

definition channel_ok :: "nat \<Rightarrow> nat \<Rightarrow> 'c coefficient \<Rightarrow> nat \<Rightarrow> bool \<Rightarrow> circuit_channel \<Rightarrow> bool" where
  "channel_ok W n C cap adjoint ch \<longleftrightarrow>
     (\<forall>h. wf_hash W h \<and> hash_num_qubits h = n \<longrightarrow>
       (\<exists>pr fanout. prepare_or_panic C ch h adjoint = Inr pr \<and> prepared_ok W n h pr \<and> rotation_exact W C pr True \<and>
          max_fanout W C pr = Inr fanout \<and> cap * fanout < 2 ^ 32))"

definition schedules_ok :: "'c pool \<Rightarrow> bool" where
  "schedules_ok M \<longleftrightarrow>
     (\<forall>i pr h sp. span_new (prepared_bucket_deltas pr) (gh_bits h) = Inr sp \<longrightarrow> pool_schedule sp (mc_threads (M i pr h)) (mc_schedule (M i pr h)))"

lemma same_sum_mset:
  assumes "sum_inv W u" "same_sum W u u'"
  shows "mset (sum_iter u') = mset (sum_iter u)"
proof -
  have inv: "sum_inv W u'" using assms(2) by (simp add: same_sum_def)
  have "set (sum_iter u') = set (sum_iter u)"
    using sum_lookup_iff(1) [OF assms(1)] sum_lookup_iff(1) [OF inv] assms(2) by (auto simp: same_sum_def)
  moreover have "distinct (sum_iter u')" "distinct (sum_iter u)" using sum_lookup_iff(2) [OF assms(1)] sum_lookup_iff(2) [OF inv] by (simp_all add: distinct_map)
  ultimately show ?thesis by (simp add: set_eq_iff_mset_eq_distinct)
qed

lemma kept_total_same:
  assumes "coefficient_laws C" "sum_inv W u" "same_sum W u u'"
  shows "kept_total C policy (emitted C pr (sum_iter u')) k = kept_total C policy (emitted C pr (sum_iter u)) k"
proof -
  have "mset (emitted C pr (sum_iter u')) = mset (emitted C pr (sum_iter u))"
    using same_sum_mset [OF assms(2,3)] unfolding emitted_def mset_concat mset_map map_map comp_def
    by (metis (no_types, lifting) mset_map sum_mset_sum_list)
  then show ?thesis by (intro coefficient_laws.kept_total_cong [OF assms(1)] coefficient_laws.key_total_perm [OF assms(1)])
qed

context capped_policy
begin

lemma run_layer_ok:
  assumes "host_ok W C policy hp u" "fused = None \<longrightarrow> lo_bound (ls_octaves (hp_layer hp)) = None" "pm_len u \<le> cap" "cap < 2 ^ 27" "128 * W < 2 ^ 32"
    and "ch = ci_channels ci ! circuit_index_of direction (circuit_len ci) i"
    and "channel_ok W (pm_num_qubits u) C cap (direction = Heisenberg) ch" "schedules_ok M"
  shows "\<exists>st' hp' u'. run_layer W M C threads ci policy direction options rows i (st, hp) = Inr (st', hp') \<and>
    host_ok W C policy hp' u' \<and> (fused = None \<longrightarrow> lo_bound (ls_octaves (hp_layer hp')) = None) \<and> pm_len u' \<le> cap \<and>
    pm_num_qubits u' = pm_num_qubits u \<and> channel_step W C policy (direction = Heisenberg) ch (st, u) (st', u')"
proof -
  note u = host_ok_sum [OF assms(1)]
  obtain hp1 u1 b where r: "refine_unprepared C (po_target_bucket_len options) (po_min_buckets options) hp = Inr hp1" "host_ok W C policy hp1 u1"
      "same_sum W u u1" "pm_hash u1 = (pm_hash u)\<lparr>gh_bits := b\<rparr>"
    using refine_unprepared_ok [OF assms(1)] by blast
  note u1 = host_ok_sum [OF r(2)]
  have n: "pm_num_qubits u1 = pm_num_qubits u" "pm_len u1 \<le> cap" using r(3) assms(3) by (simp_all add: same_sum_def)
  have bound: "fused = None \<longrightarrow> lo_bound (ls_octaves (hp_layer hp1)) = None"
    using assms(2) r(1)
    by (auto simp: refine_unprepared_def Let_def and_then_def host_forget_def host_apply_pending_def apply_pending_def split: if_splits sum.splits)
  have "wf_hash W (pm_hash u1)" "hash_num_qubits (pm_hash u1) = pm_num_qubits u" using u1(1) n(1) by (simp_all add: sum_inv_def)
  then obtain pr fanout where pr: "prepare_or_panic C ch (pm_hash u1) (direction = Heisenberg) = Inr pr" "prepared_ok W (pm_num_qubits u1) (pm_hash u1) pr"
      "rotation_exact W C pr True" "max_fanout W C pr = Inr fanout" "cap * fanout < 2 ^ 32"
    using assms(7) n(1) unfolding channel_ok_def by metis
  have fits: "pm_len u1 < 2 ^ 27" "pm_len u1 * fanout < 2 ^ 32" using n(2) assms(4) pr(5) by (simp, meson le_less_trans mult_le_mono1)
  have exact: "rotation_exact W C pr (bs_known (ls_supports (hp_layer hp1)))" using pr(3) by (auto simp: rotation_exact_def split: prepared.splits)
  let ?M = "M i pr (pm_hash (hp_sum hp1))"
  have sched: "\<forall>sp. span_new (prepared_bucket_deltas pr) (gh_bits (pm_hash u1)) = Inr sp \<longrightarrow> pool_schedule sp (mc_threads ?M) (mc_schedule ?M)"
    using assms(8) u1(2) by (simp add: schedules_ok_def)
  obtain hp2 where l: "host_apply_layer W ?M C pr (plan_rebuild W pr rows 0) policy hp1 = Inr hp2" "layer_left W C policy fused hp2" "pm_hash (hp_sum hp2) = pm_hash u1"
      "\<forall>k. sum_lookup (hp_sum hp2) k = kept_total C policy (emitted C pr (sum_iter u1)) k"
    using host_apply_layer_ok [OF laws filter_sound assms(5) r(2) fused_form pr(2) exact pr(4) fits bound sched] by blast
  obtain st' hp3 u' where f: "host_finalize_layer C threads policy (st, hp2) = Inr (st', hp3)" "host_ok W C policy hp3 u'"
      "fused = None \<longrightarrow> lo_bound (ls_octaves (hp_layer hp3)) = None" "finalize_layer_partitioned policy [(st, hp_sum hp2)] = Inr [(st', u')]"
      "pm_len u' \<le> cap" "pm_hash u' = pm_hash (hp_sum hp2)"
    using pass_refines [OF l(2), of st] by blast
  have v: "sum_inv W (hp_sum hp2)" using l(2) by (simp add: layer_left_def Let_def)
  have look: "\<forall>k. sum_lookup (hp_sum hp2) k = kept_total C policy (emitted C pr (sum_iter u)) k"
    using l(4) by (simp add: kept_total_same [OF laws u(1) r(3)])
  have "channel_step W C policy (direction = Heisenberg) ch (st, u) (st', u')"
    using v l(3) r(4) pr(1) look f(4) by (intro channel_stepI [where v = "hp_sum hp2" and b = b and pr = pr]) simp_all
  moreover have "pm_num_qubits u' = pm_num_qubits u"
    using host_ok_sum(1) [OF f(2)] u1(1) f(6) l(3) n(1) by (simp add: sum_inv_def)
  ultimately show ?thesis
    using r(1) pr(1) l(1) f u1(2) assms(6) by (auto simp: run_layer_def Let_def finalizes)
qed

lemma run_from_ok:
  assumes "cap < 2 ^ 27" "128 * W < 2 ^ 32" "schedules_ok M"
    and "host_ok W C policy hp u" "fused = None \<longrightarrow> lo_bound (ls_octaves (hp_layer hp)) = None" "pm_len u \<le> cap"
    and "\<forall>i \<in> set is. channel_ok W (pm_num_qubits u) C cap (direction = Heisenberg) (ci_channels ci ! circuit_index_of direction (circuit_len ci) i)"
  shows "\<exists>st' hp' u'. fold_result (run_layer W M C threads ci policy direction options rows) is (st, hp) = Inr (st', hp') \<and>
    host_ok W C policy hp' u' \<and> pm_len u' \<le> cap \<and>
    propagates W C policy (direction = Heisenberg) (map (\<lambda>i. ci_channels ci ! circuit_index_of direction (circuit_len ci) i) is) (st, u) (st', u')"
  using assms(4-7)
proof (induction "is" arbitrary: st hp u)
  case Nil
  then show ?case by (auto intro: propagates_Nil)
next
  case (Cons i "is")
  obtain st1 hp1 u1 where s: "run_layer W M C threads ci policy direction options rows i (st, hp) = Inr (st1, hp1)" "host_ok W C policy hp1 u1"
      "fused = None \<longrightarrow> lo_bound (ls_octaves (hp_layer hp1)) = None" "pm_len u1 \<le> cap" "pm_num_qubits u1 = pm_num_qubits u"
      "channel_step W C policy (direction = Heisenberg) (ci_channels ci ! circuit_index_of direction (circuit_len ci) i) (st, u) (st1, u1)"
    using run_layer_ok [OF Cons.prems(1-3) assms(1,2) refl _ assms(3), where ci = ci and direction = direction and i = i and options = options and rows = rows and st = st] Cons.prems(4) by auto
  from Cons.IH [OF s(2-4), of st1] Cons.prems(4) s(5) obtain st' hp' u' where
      "fold_result (run_layer W M C threads ci policy direction options rows) is (st1, hp1) = Inr (st', hp')" "host_ok W C policy hp' u'" "pm_len u' \<le> cap"
      "propagates W C policy (direction = Heisenberg) (map (\<lambda>i. ci_channels ci ! circuit_index_of direction (circuit_len ci) i) is) (st1, u1) (st', u')"
    by auto
  then show ?case using s(1,6) by (auto intro: propagates_Cons)
qed

end

section \<open>Policies with a layer pass\<close>

lemma approx_capped:
  assumes "coefficient_laws C" "n \<le> cap"
  shows "capped_policy W C threads (approx_top_n C threads n :: ('s, 'c) truncation_policy) (Some \<lparr>fused_n = n, agreed = True\<rparr>) cap"
proof (rule capped_policy.intro [OF assms(1)])
  fix v :: "'c pauli_sum" and st :: 's assume v: "sum_inv W v" "pm_len v < 2 ^ 32"
  obtain u edge where u: "approx_top_n_pass C threads n [v] = Inr [(u, edge, pm_len v)]" "sum_inv W u" "pm_hash u = pm_hash v" "pm_len u = min n (pm_len v)"
    using approx_solo [OF v] by blast
  show "\<exists>st' u. finalize_layer_partitioned (approx_top_n C threads n) [(st, v)] = Inr [(st', u)] \<and> sum_inv W u \<and> pm_hash u = pm_hash v \<and> pm_len u \<le> cap"
    using u assms(2) by (simp add: approx_top_n_def approx_top_n_partitioned_def)
  show "finalize_layer_partitioned (approx_top_n C threads n) [(st, v)] = and_then (approx_top_n_pass C threads (fused_n f) [v]) (\<lambda>rs. Inr [(st, fst (hd rs))])"
    if "Some \<lparr>fused_n = n, agreed = True\<rparr> = Some f" for f
    using u(1) that by (auto simp: approx_top_n_def approx_top_n_partitioned_def)
qed (simp_all add: approx_top_n_def floor_sound_def)

lemma top_capped:
  assumes "coefficient_laws C" "n \<le> cap"
  shows "capped_policy W C threads (top_n C n :: ('s, 'c) truncation_policy) None cap"
proof (rule capped_policy.intro [OF assms(1)])
  fix v :: "'c pauli_sum" and st :: 's assume v: "sum_inv W v" "pm_len v < 2 ^ 32"
  then have "pm_len v \<le> usize_max" by (simp add: usize_max_def)
  from top_n_pass_ok [OF v(1) this, of C n] obtain u where "top_n_pass C n v = Inr u" "sum_inv W u" "pm_len u = min n (pm_len v)" "pm_hash u = pm_hash v" by blast
  then show "\<exists>st' u. finalize_layer_partitioned (top_n C n) [(st, v)] = Inr [(st', u)] \<and> sum_inv W u \<and> pm_hash u = pm_hash v \<and> pm_len u \<le> cap"
    using assms(2) by (simp add: top_n_def top_n_partitioned_def top_n_finalize_def assert_that_def)
qed (simp_all add: top_n_def floor_sound_def)

interpretation approx_pass: capped_policy W complex_coefficient threads "approx_top_n complex_coefficient threads n" "Some \<lparr>fused_n = n, agreed = True\<rparr>" n
  for W threads n by (rule approx_capped [OF complex_c.coefficient_laws_axioms order_refl])

interpretation top_pass: capped_policy W complex_coefficient threads "top_n complex_coefficient n" None n
  for W threads n by (rule top_capped [OF complex_c.coefficient_laws_axioms order_refl])

section \<open>The front door\<close>

text \<open>A scratch between two calls, as \<open>LayerScratch::new\<close> makes it and every call leaves it.\<close>

definition scratch_rested :: "'c layer_scratch \<Rightarrow> bool" where
  "scratch_rested scratch \<longleftrightarrow> scratch_ok scratch \<and> window_ok (ls_octaves scratch) \<and> lo_pending (ls_octaves scratch) = None \<and>
     lo_bound (ls_octaves scratch) = None"

lemma scratch_new_rested: "scratch_rested layer_scratch_new"
  by (simp add: scratch_rested_def layer_scratch_new_def scratch_ok_def drained_def window_ok_def)

lemma capped_propagate:
  fixes policy :: "('s, 'c) truncation_policy"
  assumes "capped_policy W C threads policy fused cap" "cap < 2 ^ 27" "128 * W < 2 ^ 32" "schedules_ok M"
    and "sum_inv W s" "pm_len s \<le> cap" "scratch_rested scratch" "options_assert_valid options = Inr ()" "assert_coefficient_type W C ci = Inr ()"
    and "\<forall>ch \<in> set (ci_channels ci). channel_ok W (pm_num_qubits s) C cap (direction = Heisenberg) ch"
  shows "\<exists>st' s' scratch'. propagate_with W M C threads ci s policy st direction scratch options = Inr (st', s', scratch') \<and>
    propagates W C policy (direction = Heisenberg) (applied_channels direction (ci_channels ci)) (st, s) (st', s') \<and>
    sum_inv W s' \<and> pm_len s' \<le> cap \<and> scratch_rested scratch'"
proof -
  let ?hp = "begin_call \<lparr>hp_sum = s, hp_layer = scratch\<rparr>" and ?rows = "partition_none (pm_num_qubits s)"
  let ?is = "[0..<circuit_len ci]"
  have hp: "host_ok W C policy ?hp s" "fused = None \<longrightarrow> lo_bound (ls_octaves (hp_layer ?hp)) = None"
    using assms(5,7) by (simp_all add: host_ok_def Let_def begin_call_def host_forget_def scratch_rested_def pending_sum_def cut_sum_def host_len_def
        len_after_cut_def scratch_ok_def supports_forget_ok)
  have "\<forall>i \<in> set ?is. channel_ok W (pm_num_qubits s) C cap (direction = Heisenberg) (ci_channels ci ! circuit_index_of direction (circuit_len ci) i)"
    using assms(10) by (auto simp: circuit_index_of_def circuit_len_def split: direction.split)
  from capped_policy.run_from_ok [OF assms(1-4) hp assms(6) this, of options ?rows st] obtain st' hp' u' where
      run: "fold_result (run_layer W M C threads ci policy direction options ?rows) ?is (st, ?hp) = Inr (st', hp')" "host_ok W C policy hp' u'" "pm_len u' \<le> cap"
        "propagates W C policy (direction = Heisenberg) (map (\<lambda>i. ci_channels ci ! circuit_index_of direction (circuit_len ci) i) ?is) (st, s) (st', u')"
    by blast
  note settled = host_settled(3-6) [OF run(2)]
  have "propagate_with W M C threads ci s policy st direction scratch options = Inr (st', u', hp_layer (host_settle C hp'))"
    using run(1) settled(1) assms(8,9) by (simp add: propagate_with_def run_layers_def)
  moreover have "scratch_rested (hp_layer (host_settle C hp'))" using settled by (simp add: scratch_rested_def host_ok_def Let_def)
  moreover have "map (\<lambda>i. ci_channels ci ! circuit_index_of direction (circuit_len ci) i) ?is = applied_channels direction (ci_channels ci)"
    unfolding circuit_len_def by (rule circuit_index_channels)
  ultimately show ?thesis using run(3,4) host_ok_sum(1) [OF run(2)] by auto
qed

text \<open>
  C1. \<open>propagate_with\<close> under \<open>TopN(n)\<close> or \<open>ApproxTopN(n)\<close> computes the propagation of the sum through the circuit. It returns for every
  circuit of admissible channels, in either direction and under any schedule of the pool, from any scratch a previous call left;
  layer by layer the driver's sum, with its deferred cuts, its changing bucket count and its fused or separate passes, follows the
  step relation \<open>propagates\<close>: each channel in the direction's order, the totals of its rows, the layer pass. The sum it hands back is
  valid, no longer than \<open>cap\<close>, and the scratch can be used again.
\<close>

theorem propagate_follows_circuit:
  fixes policy :: "('s, 'c) truncation_policy"
  assumes "coefficient_laws C" "policy = approx_top_n C threads n \<or> policy = top_n C n" "n \<le> cap" "cap < 2 ^ 27" "128 * W < 2 ^ 32" "schedules_ok M"
    and "sum_inv W s" "pm_len s \<le> cap" "scratch_rested scratch" "options_assert_valid options = Inr ()" "assert_coefficient_type W C ci = Inr ()"
    and "\<forall>ch \<in> set (ci_channels ci). channel_ok W (pm_num_qubits s) C cap (direction = Heisenberg) ch"
  shows "\<exists>st' s' scratch'. propagate_with W M C threads ci s policy st direction scratch options = Inr (st', s', scratch') \<and>
    propagates W C policy (direction = Heisenberg) (applied_channels direction (ci_channels ci)) (st, s) (st', s') \<and>
    sum_inv W s' \<and> pm_len s' \<le> cap \<and> scratch_rested scratch'"
  using assms(2)
proof
  assume p: "policy = approx_top_n C threads n"
  show ?thesis unfolding p by (rule capped_propagate [OF approx_capped [OF assms(1,3)] assms(4-12)])
next
  assume p: "policy = top_n C n"
  show ?thesis unfolding p by (rule capped_propagate [OF top_capped [OF assms(1,3)] assms(4-12)])
qed

section \<open>The built-in channels are admissible\<close>

lemma map_option_list_Some: "(\<And>x. x \<in> set xs \<Longrightarrow> f x = Some x) \<Longrightarrow> map_option_list f xs = Some xs"
  by (induction xs) simp_all

lemma convert_complex: "convert_prepared complex_coefficient pr = Inr pr"
proof -
  have "from_complex64 complex_coefficient (to_complex64 complex_coefficient a) REAL_TOLERANCE = Some a" for a
    by (rule complex_c.from_to) (simp add: REAL_TOLERANCE_def)
  then have "convert_entry complex_coefficient complex_coefficient d = Some d" for d by (simp add: convert_entry_def map_option_list_Some)
  then show ?thesis by (simp add: convert_prepared_def convert_local_def map_option_list_Some split: prepared.split)
qed

lemma local_pattern_zero: "local_pattern qs (zero_key W) = 0"
proof (induction qs)
  case (Cons q qs)
  have "\<not> qbit (replicate W 0) q" by (simp add: qbit_def)
  then show ?case using Cons by (simp add: zero_key_def)
qed simp

lemma push_deltas_prepared:
  assumes "lp_ok W p" "lp_deltas p = []" "\<forall>q \<in> set (lp_support p). q < n"
  shows "prepared_ok W n h (Local (push_deltas W p table h))" "masks_ok W (push_deltas W p table h)" "length (lp_deltas (push_deltas W p table h)) \<le> LOCAL_DIM"
proof -
  let ?es = "filter (\<lambda>e. realized_deltas (4 ^ lp_num p) table ! e) [0..<4 ^ lp_num p]"
  note d = lp_ok_dim [OF assms(1)]
  have deltas: "lp_deltas (push_deltas W p table h) = map (delta_for W p table h) ?es" using assms(2) d(2) by (simp add: push_deltas_eq)
  have key: "key_ok W n (lift_delta W p (of_nat e))" if "e < 4 ^ lp_num p" for e
  proof -
    let ?k = "lift_delta W p (of_nat e)"
    note l = lift_delta_ok [OF assms(1) that]
    have wf: "wf_ps W \<lparr>ps_x = fst ?k, ps_z = snd ?k\<rparr>" using l(1) by (simp add: wf_ps_def wf_key_def)
    have "\<not> qbit (fst ?k) q \<and> \<not> qbit (snd ?k) q" if "n \<le> q" for q
    proof -
      have "q \<notin> set (lp_support p)" using assms(3) that by (meson leD)
      then show ?thesis using l(2) by (auto simp: is_overwritten_def agree_off_def zero_key_def qbit_def)
    qed
    then show ?thesis using l(1) is_within_iff [OF wf] by (simp add: key_ok_def)
  qed
  have small: "unat (of_nat e :: u8) = e" if "e < 4 ^ lp_num p" for e
    using that d(3) by (simp add: unat_of_nat LOCAL_DIM_def)
  show "masks_ok W (push_deltas W p table h)"
    using lift_delta_ok(2) [OF assms(1)] small by (auto simp: masks_ok_def deltas delta_for_fields)
  have ident: "lift_delta W p 0 = zero_key W"
    using lift_delta_ok [OF assms(1), of 0] is_overwritten_unique [of W "lift_delta W p 0" "zero_key W" "lp_support p" 0 "zero_key W"]
    by (simp add: is_overwritten_def agree_off_def wf_zero_key local_pattern_zero)
  show "prepared_ok W n h (Local (push_deltas W p table h))"
    unfolding prepared_ok_def prepared.case
  proof (intro conjI impI)
    show "\<forall>d \<in> set (lp_deltas (push_deltas W p table h)). key_ok W n (de_mask d)" using key by (auto simp: deltas delta_for_fields)
    assume "has_identity (push_deltas W p table h)"
    then obtain e es where e: "?es = e # es" "(of_nat e :: u8) = 0" by (cases ?es) (auto simp: has_identity_def deltas delta_for_fields)
    have "e \<in> set ?es" by (simp add: e(1))
    then have "e = 0" using small [of e] e(2) by simp
    then have first: "lp_deltas (push_deltas W p table h) ! 0 = delta_for W p table h 0" by (simp add: deltas e(1))
    show "de_mask (lp_deltas (push_deltas W p table h) ! 0) = zero_key W" by (simp add: first delta_for_fields ident)
    show "length (de_amplitude (lp_deltas (push_deltas W p table h) ! 0)) = LOCAL_DIM" by (simp add: first delta_for_def split: prod.split)
  qed (use assms(1,2) push_deltas_buckets in simp_all)
  have "length ?es \<le> 4 ^ lp_num p" by (metis length_filter_le length_upt diff_zero)
  then show "length (lp_deltas (push_deltas W p table h)) \<le> LOCAL_DIM" using d(3) by (simp add: deltas)
qed

lemma fanout_le:
  assumes "prepared_ok W n h (Local p)" "masks_ok W p" "length (lp_deltas p) \<le> LOCAL_DIM"
  shows "\<exists>fanout. max_fanout W C (Local p) = Inr fanout \<and> fanout \<le> LOCAL_DIM"
proof -
  obtain r where r: "rotation_layer_of W C p = Inr r" using rotation_layer_of_ok(1) [OF assms(1,2)] by blast
  have "length (filter (\<lambda>d. is_nonzero C (de_amplitude d ! s)) (lp_deltas p)) \<le> LOCAL_DIM" for s
    using assms(3) by (meson le_trans length_filter_le)
  moreover have "set (map f [0..<LOCAL_DIM]) \<noteq> {}" for f :: "nat \<Rightarrow> nat" by (simp add: LOCAL_DIM_def)
  ultimately have "Max (set (map (\<lambda>s. length (filter (\<lambda>d. is_nonzero C (de_amplitude d ! s)) (lp_deltas p))) [0..<LOCAL_DIM])) \<le> LOCAL_DIM"
    by (subst Max_le_iff) auto
  then show ?thesis using r by (auto simp: max_fanout_def LOCAL_DIM_def)
qed

context ptm_on_width
begin

lemmas width_support = support

end

text \<open>
  A Pauli-transfer channel on qubits of the sum, as long as its table, where it has a rotation's shape, is one the rotation kernel is
  exact on.
\<close>

lemma ptm_channel_ok:
  assumes "wf_ptm c" "ptm_fits W c" "W \<le> 2 ^ 26" "\<forall>q \<in> set (ptm_qubits c). q < n" "cap < 2 ^ 27"
    and "\<forall>h pr. prepare_ptm W c h adjoint = Inr (Some pr) \<longrightarrow> rotation_exact W complex_coefficient pr True"
  shows "channel_ok W n complex_coefficient cap adjoint \<lparr>cc_channel = ptm_as_channel c, cc_prepare = prepare_ptm W c\<rparr>"
  unfolding channel_ok_def
proof (intro allI impI)
  fix h
  let ?m = "full_mask W (ptm_qubits c)"
  have ptm: "ptm_on_width W c" using assms(1-3) by unfold_locales
  note sup = ptm_on_width.width_support [OF ptm]
  from on_support_ok [of ?m] sup obtain p where p: "on_support ?m = Some p" "lp_ok W p" "lp_support p = mask_qubits ?m" "lp_deltas p = []" by auto
  let ?pr = "Local (push_deltas W p (transfer_matrix c adjoint) h)"
  have prep: "prepare_ptm W c h adjoint = Inr (Some ?pr)" using sup(1) p(1) by (simp add: prepare_ptm_def from_transfer_matrix_def)
  have "\<forall>q \<in> set (lp_support p). q < n" using assms(4) by (simp add: p(3) ptm_on_width.mask_eq [OF ptm])
  note ok = push_deltas_prepared [OF p(2,4) this, where h = h and table = "transfer_matrix c adjoint"]
  obtain fanout where f: "max_fanout W complex_coefficient ?pr = Inr fanout" "fanout \<le> LOCAL_DIM" using fanout_le [OF ok] by blast
  have "cap * fanout \<le> cap * 16" using f(2) by (intro mult_le_mono2) (simp add: LOCAL_DIM_def)
  also have "\<dots> < 2 ^ 32" using assms(5) by simp
  finally have "cap * fanout < 2 ^ 32" .
  moreover have "prepare_or_panic complex_coefficient \<lparr>cc_channel = ptm_as_channel c, cc_prepare = prepare_ptm W c\<rparr> h adjoint = Inr ?pr"
    using prep by (simp add: prepare_or_panic_def convert_complex)
  moreover have "rotation_exact W complex_coefficient ?pr True" using assms(6) prep by blast
  ultimately show "\<exists>pr fanout. prepare_or_panic complex_coefficient \<lparr>cc_channel = ptm_as_channel c, cc_prepare = prepare_ptm W c\<rparr> h adjoint = Inr pr \<and>
      prepared_ok W n h pr \<and> rotation_exact W complex_coefficient pr True \<and> max_fanout W complex_coefficient pr = Inr fanout \<and> cap * fanout < 2 ^ 32"
    using ok(1) f(1) by blast
qed

text \<open>A rotation about a string of more than two qubits of the sum, whatever its angle.\<close>

lemma wide_rotation_channel_ok:
  assumes "wf_ps W (rot_generator r)" "is_within (rot_generator r) n" "rotation_weight r > MAX_LOCAL_SUPPORT" "cap < 2 ^ 27"
  shows "channel_ok W n C cap adjoint \<lparr>cc_channel = rotation_as_channel r, cc_prepare = prepare_rotation W r\<rparr>"
proof -
  have "\<lparr>ps_x = ps_x (rot_generator r), ps_z = ps_z (rot_generator r)\<rparr> = rot_generator r" by (rule pauli_string.equality) simp_all
  then have "is_within \<lparr>ps_x = ps_x (rot_generator r), ps_z = ps_z (rot_generator r)\<rparr> n" using assms(2) by metis
  then have "key_ok W n (ps_x (rot_generator r), ps_z (rot_generator r))" using assms(1) by (simp add: key_ok_def wf_ps_def wf_key_def)
  then show ?thesis
    using assms by (auto simp: channel_ok_def prepare_or_panic_def prepare_rotation_def Let_def split_def convert_prepared_def prepared_ok_def
        rotation_exact_def max_fanout_def generator_mask_def)
qed

section \<open>A concrete circuit\<close>

definition serial_pool :: "'c pool" where
  "serial_pool i pr h =
     \<lparr>mc_bmi2 = False, mc_threads = 1,
      mc_schedule = (case span_new (prepared_bucket_deltas pr) (gh_bits h) of Inl _ \<Rightarrow> [] | Inr sp \<Rightarrow> map (Pair 0) (all_cosets sp)), mc_spare = (\<lambda>_. [])\<rparr>"

lemma serial_pool_ok: "schedules_ok serial_pool"
  by (auto simp: schedules_ok_def serial_pool_def pool_schedule_def comp_def)

text \<open>Two terms on three qubits, and a circuit of two rotations about \<open>ZZZ\<close>.\<close>

definition wide_hash :: gf2_hash where
  "wide_hash = \<lparr>gh_matrix = \<lparr>rows_x = [[1]], rows_z = [[0]], gm_qubits = 3\<rparr>, gh_bits = 0, gh_seed = 0\<rparr>"

definition wide_sum :: "complex pauli_sum" where
  "wide_sum = from_key_sorted [[1], [2]] [[0], [1]] [2, 3] wide_hash 3"

definition zzz_rotation :: "real \<Rightarrow> circuit_channel" where
  "zzz_rotation theta =
     \<lparr>cc_channel = rotation_as_channel (rotation_new \<lparr>ps_x = [0], ps_z = [7]\<rparr> theta), cc_prepare = prepare_rotation 1 (rotation_new \<lparr>ps_x = [0], ps_z = [7]\<rparr> theta)\<rparr>"

lemma wide_sum_inv: "sum_inv 1 wide_sum" "pm_num_qubits wide_sum = 3" "pm_len wide_sum = 2"
proof -
  have "wf_hash 1 wide_hash" "hash_num_qubits wide_hash = 3"
    by (simp_all add: wide_hash_def wf_hash_def wf_matrix_def num_rows_def INDEX_BITS_def hash_num_qubits_def)
  moreover have "run (zip (zip [[1], [2]] [[0], [1]]) [2, 3 :: complex] :: complex pauli_term list)" by (simp add: run_def)
  moreover have "key_ok 1 3 ([1], [0])" "key_ok 1 3 ([2], [1])" unfolding key_ok_def wf_key_def by (simp, code_simp)+
  ultimately show "sum_inv 1 wide_sum"
    unfolding wide_sum_def using from_key_sorted_ok(1) [of "[[1], [2]]" "[2, 3 :: complex]" "[[0], [1]]" 1 3 wide_hash] by simp
qed (simp_all add: wide_sum_def from_key_sorted_def)

lemma zzz_rotation_ok: "channel_ok 1 3 complex_coefficient 4 adjoint (zzz_rotation theta)"
proof -
  have "rotation_weight (rotation_new \<lparr>ps_x = [0], ps_z = [7]\<rparr> theta) > MAX_LOCAL_SUPPORT"
  proof -
    have "count_ones (7 :: u64) = 3" by code_simp
    then show ?thesis by (simp add: rotation_new_def rotation_weight_def weight_def MAX_LOCAL_SUPPORT_def)
  qed
  moreover have "is_within \<lparr>ps_x = [0], ps_z = [7]\<rparr> 3" by code_simp
  ultimately show ?thesis
    unfolding zzz_rotation_def by (intro wide_rotation_channel_ok) (simp_all add: rotation_new_def wf_ps_def)
qed

theorem propagate_follows_circuit_witness:
  "\<exists>s' scratch'. propagate_with 1 serial_pool complex_coefficient 3 \<lparr>ci_num_qubits = 3, ci_channels = [zzz_rotation 1, zzz_rotation 2]\<rparr> wide_sum
      (approx_top_n complex_coefficient 3 3) () Heisenberg layer_scratch_new options_default = Inr ((), s', scratch') \<and> pm_len s' \<le> 4 \<and>
    propagates 1 complex_coefficient (approx_top_n complex_coefficient 3 3) True [zzz_rotation 2, zzz_rotation 1] ((), wide_sum) ((), s')"
proof -
  have options: "options_assert_valid options_default = Inr ()"
    by (simp add: options_assert_valid_def options_default_def assert_that_def SMALLEST_MIN_BUCKETS_def DEFAULT_TARGET_BUCKET_LEN_def DEFAULT_MIN_BUCKETS_def)
  have coeff: "assert_coefficient_type 1 complex_coefficient \<lparr>ci_num_qubits = 3, ci_channels = [zzz_rotation 1, zzz_rotation 2]\<rparr> = Inr ()"
    by (simp add: assert_coefficient_type_def complex_coefficient_def)
  have chs: "\<forall>ch \<in> set (ci_channels \<lparr>ci_num_qubits = 3, ci_channels = [zzz_rotation 1, zzz_rotation 2]\<rparr>).
      channel_ok 1 (pm_num_qubits wide_sum) complex_coefficient 4 (Heisenberg = Heisenberg) ch"
    using zzz_rotation_ok wide_sum_inv(2) by simp
  have sizes: "pm_len wide_sum \<le> 4" "3 \<le> (4 :: nat)" "(4 :: nat) < 2 ^ 27" "128 * 1 < (2 :: nat) ^ 32" by (simp_all add: wide_sum_inv(3))
  obtain st' s' scratch' where
      "propagate_with 1 serial_pool complex_coefficient 3 \<lparr>ci_num_qubits = 3, ci_channels = [zzz_rotation 1, zzz_rotation 2]\<rparr> wide_sum
        (approx_top_n complex_coefficient 3 3) () Heisenberg layer_scratch_new options_default = Inr (st', s', scratch')" "pm_len s' \<le> 4"
      "propagates 1 complex_coefficient (approx_top_n complex_coefficient 3 3) (Heisenberg = Heisenberg)
        (applied_channels Heisenberg (ci_channels \<lparr>ci_num_qubits = 3, ci_channels = [zzz_rotation 1, zzz_rotation 2]\<rparr>)) ((), wide_sum) (st', s')"
    using propagate_follows_circuit [OF complex_c.coefficient_laws_axioms disjI1 [OF refl] sizes(2-4) serial_pool_ok wide_sum_inv(1) sizes(1) scratch_new_rested
        options coeff chs, of 3 "()"] by blast
  then show ?thesis by (auto simp: applied_channels_def)
qed

end
