(* ===== verification/Spec2Isabelle.thy ===== *)
theory Spec2Isabelle
  imports Partition Accumulator Ptm_Physics Prepared_Channels Coset Merge Truncation_Tree Layer_Theorems Layer_Octaves Partition_Plan Propagate
begin

text \<open>
  A verification development of the Rust crate \<open>paulistrings\<close> (\<open>crates/paulistrings/src\<close>): Heisenberg-picture
  propagation of sparse sums of Pauli strings through circuits of gates and noise channels.

  \<^bold>\<open>The program.\<close> A Pauli string on \<open>n\<close> qubits is a pair of bit vectors \<open>(x, z)\<close>, stored as \<open>W\<close> words of 64 bits each.
  A \<open>PauliSum\<close> maps strings to coefficients; its terms lie in \<open>2^b\<close> buckets addressed by a GF(2)-linear hash, each bucket
  a strictly ascending run of keys. A channel maps one term to a few terms, and by linearity of the hash it moves a term
  from its bucket by one of a few XOR deltas, so the engine can group buckets into cosets that are closed under the
  channel. A layer gathers the outputs of every bucket, sorts and merges them, sums equal keys and asks a truncation
  policy which keys to keep.

  \<^bold>\<open>The model.\<close> \<open>[u64; W]\<close> is a list of 64-bit words of length \<open>W\<close>, a key a pair of them, \<open>usize\<close> a natural number, a \<open>struct\<close>
  a record, an \<open>enum\<close> a datatype, a panic a value \<open>Inl\<close> of type \<open>panic\<close>; a \<open>debug_assert\<close> is not a branch. A \<open>FnMut\<close> closure
  carries its state explicitly, a parallel iterator over disjoint buckets is the map over them, and a loop is a
  recursion whose termination is proved. A generic function takes the dictionary of its trait, \<open>coefficient\<close>, \<open>channel\<close> or
  \<open>truncation_policy\<close>. Floating-point numbers are idealised as real and complex numbers, with no NaN and no rounding;
  the laws used of them are those of the locale \<open>coefficient_laws\<close>.

  \<^bold>\<open>The theories, in the order of the code.\<close>
  \<^item> \<open>Pauli_Prelude\<close>: words, panics, keys, XOR, the bit of a qubit; \<open>Linear_Index\<close>: the contract of a linear hash, a locale.
  \<^item> \<open>Phase\<close> (\<open>phase.rs\<close>), \<open>Pauli_String\<close> (\<open>pauli_string.rs\<close>): products with phases, commutation, the key order.
    \<open>Pauli_Matrix\<close> shows that they are the products and commutators of the operators as matrices.
  \<^item> \<open>Rng\<close> (\<open>rng.rs\<close>): splitmix64 and xoshiro256++.
  \<^item> \<open>Gf2_Hash\<close>, \<open>Hash_Build\<close>, \<open>Gf2_Rank\<close> (\<open>pauli_sum/hash.rs\<close>): the hash is linear, its constructors panic exactly on
    inadmissible arguments, and the row-echelon basis computes the rank. The reduction loop carries the fuel
    \<open>128 W + 1\<close>, one more than the number of columns, and \<open>Gf2_Rank\<close> proves that it is never used up.
  \<^item> \<open>Coset\<close>, \<open>Bit_Scatter\<close> (\<open>engine/coset.rs\<close>): spans of bucket deltas, coset coordinates, the coset order as a
    permutation; a coset is closed under the channel.
  \<^item> \<open>Coefficient\<close> (\<open>coefficient.rs\<close>): the trait and its real and complex instances.
  \<^item> \<open>Sorted_Runs\<close>, \<open>Bucket_Columns\<close>, \<open>Storage\<close>, \<open>Storage_Lookup\<close>, \<open>Storage_Algebra\<close> (\<open>pauli_sum/storage.rs\<close>): the in-place
    loops, the invariant \<open>sum_inv\<close> of a sum that every operation keeps, the lookup of every operation's result, and the
    bucket-count policy. \<open>Partition\<close> (\<open>pauli_sum/partition.rs\<close>): scatter and gather; \<open>Accumulator\<close>
    (\<open>pauli_sum/accumulator.rs\<close>): building a sum from unsorted terms.
  \<^item> \<open>Channel\<close> (\<open>channel/mod.rs\<close>), \<open>Local_Pattern\<close>, \<open>Ptm\<close>, \<open>Ptm_Algebra\<close>, \<open>Small_Matrix\<close>, \<open>Ptm_Gates\<close>, \<open>Ptm_Physics\<close>
    (\<open>channel/ptm.rs\<close> and its submodules): applying a channel is its transfer matrix, the adjoint is the transpose, and
    the fifteen constructors are the conjugations and Kraus maps of their gates, with their panics.
  \<^item> \<open>Operator\<close>, \<open>Rotation\<close> (\<open>channel/rotation.rs\<close>): a rotation is conjugation by \<open>exp(-i \<theta> P / 2)\<close>.
  \<^item> \<open>Prepared\<close>, \<open>Prepared_Sound\<close>, \<open>Prepared_Channels\<close> (\<open>channel/prepared.rs\<close>): the engine form of a channel, probed or
    tabulated, emits what \<open>apply\<close> pushes, in the buckets its deltas predict. The contract of the trait is the locale
    \<open>bounded_channel\<close>, which both built-in channels satisfy.
  \<^item> \<open>Stable_Sort\<close>, \<open>Sort_Kernels\<close>, \<open>Merge\<close> (\<open>engine/merge.rs\<close>): both sort kernels sort stably by key, and the fused merge
    sums equal keys and filters the sums.
  \<^item> \<open>Boundary_Quota\<close>, \<open>Truncation\<close>, \<open>Approx_Top_N\<close>, \<open>Collapse_Sample\<close> (\<open>truncation/mod.rs\<close>, \<open>truncation/builtin.rs\<close>): the
    policies, their passes over one sum and over a group of partitions; a group pass is a function of every rank's sum,
    since the ranks issue the same collectives in lock-step. \<open>Octave_Window\<close> (\<open>truncation/octave_window.rs\<close>): the same cut
    decided from 64 octaves. \<open>Truncation_Tree\<close> (\<open>truncation/tree.rs\<close>): the combinators and the runtime form, which
    truncates as the composed builtins and keeps the invariant of every sum.

  \<^item> \<open>Coset_Fill\<close>, \<open>Coset_Streams\<close> (\<open>engine/bucketed/coset_fill.rs\<close>): both gather orders fill the runs of a coset with the same rows,
    and after the sort and the merge every member holds the kept totals of the rows its coset emits into it.
    \<open>Coset_Loop\<close> (\<open>engine/bucketed.rs\<close>): the loop over the cosets, serial or on a pool, for any kernel that meets the locale
    \<open>coset_kernel\<close>; the pool is a schedule of pairs of a worker and a coset, in any order.
  \<^item> \<open>Partner_Order\<close> (\<open>engine/bucketed/partner_order.rs\<close>): the block permutation that sorts partners without comparisons.
    \<open>Rotation_Merge\<close>, \<open>Rotation_Sparse\<close> (\<open>engine/bucketed/rotation_layer/merge.rs\<close>): the in-place merges; the spare slots of a buffer
    are arbitrary rows, a write outside the buffer a panic. \<open>Rotation_Layer\<close>, \<open>Rotation_Fill\<close>, \<open>Rotation_Table\<close>
    (\<open>engine/bucketed/rotation_layer.rs\<close>): recognising the shape, the scan, the supports, and the totals of the rows it writes.
  \<^item> \<open>Bucketed_Layer\<close> (\<open>engine/bucketed.rs\<close>): the layer with its choice of path; \<open>Layer_Kernels\<close> shows that the general fill and the
    rotation kernel are instances of \<open>coset_kernel\<close>, \<open>Layer_Sound\<close> and \<open>Layer_Channel\<close> that a layer computes the channel along every
    path, and \<open>Layer_Theorems\<close> states it. \<open>Layer_Octaves\<close>: the fused \<open>ApproxTopN\<close> pass, its deferred cut and the bound that skips it,
    which are the full pass.
  \<^item> \<open>Partition_Plan\<close> (\<open>engine/plan.rs\<close>): which partition the rows of a channel go to, and that the plans of two partners fit.
  \<^item> \<open>Driver\<close> (\<open>circuit.rs\<close>, \<open>engine/backend.rs\<close>, \<open>engine/driver.rs\<close>, \<open>engine/mod.rs\<close>): circuits, a partition in host memory and
    \<open>propagate\<close> at one partition. \<open>Driver_Sound\<close>: a layer with a fused pass is the channel and the full pass, on the sum the partition
    stands for once its deferred cut is applied. \<open>Propagate\<close>: the abstract propagation as an inductive step relation, the contract of a
    policy with a layer pass as the locale \<open>capped_policy\<close>, interpreted on \<open>TopN\<close> and \<open>ApproxTopN\<close>, the refinement of the
    driver's loop to the relation, and the built-in channels as admissible ones.

  \<^bold>\<open>Bounds.\<close> A hit of the rotation kernel packs its row in 28 bits, so a layer is stated for fewer than \<open>2^27\<close> terms and \<open>2^32\<close> emitted
  rows; the significance rank of a key bit is 32 bits wide, so \<open>128 W < 2^32\<close>. A rotation table counts as Clifford up to
  rounding, and the kernel then drops the identity half: the theorem asks that this half be exactly zero there. A known
  support is used under the assumption that the generator entry reaches exactly the strings that anticommute with it.

  \<^bold>\<open>Not modelled.\<close> The fused runs of rotations and of one-to-one channels, which the driver takes only under a policy
  without a layer pass (the model of its loop is the one of a policy with a pass), the counts ahead of an export, the lock-step of
  several partitions and their exchange; the GPU engine (device code and driver calls), the MPI transport (an
  external library), the Python bindings, tracing, statistics and timing, and the benchmarks and examples.
\<close>

end
